(* ===== verification/Prelude.thy ===== *)
theory Prelude
  imports Main "HOL-Library.Word"
begin

text \<open>
  Shared vocabulary of the development: bytes and byte strings, the little-endian layout that
  \<^verbatim>\<open>memcpy\<close> of a machine integer produces, the binary logarithm used by the C code
  in several places, and the generic list and word lemmas that the component theories rely on.
  The collection \<open>mach_simps\<close> gathers the rewriting rules for byte layouts.
\<close>

named_theorems mach_simps

type_synonym byte = "8 word"
type_synonym bytes = "byte list"

definition str :: "string \<Rightarrow> bytes" where
  "str s = map of_char s"

lemma length_str [simp]: "length (str s) = length s"
  by (simp add: str_def)

lemma str_Nil [simp]: "str [] = []"
  by (simp add: str_def)

text \<open>\<open>LUA_QL\<close>: a string in single quotes.\<close>

definition quoted :: "string \<Rightarrow> bytes" where
  "quoted s = 39 # str s @ [39]"

subsection \<open>Little-endian layout of integers\<close>

primrec le_bytes :: "nat \<Rightarrow> int \<Rightarrow> bytes" where
  "le_bytes 0 n = []"
| "le_bytes (Suc k) n = word_of_int n # le_bytes k (n div 256)"

primrec le_val :: "bytes \<Rightarrow> int" where
  "le_val [] = 0"
| "le_val (b # bs) = uint b + 256 * le_val bs"

lemma length_le_bytes [simp, mach_simps]: "length (le_bytes k n) = k"
  by (induction k arbitrary: n) simp_all

lemma le_val_nonneg: "0 \<le> le_val bs"
  by (induction bs) simp_all

lemma le_val_bound: "le_val bs < 256 ^ length bs"
proof (induction bs)
  case Nil
  then show ?case by simp
next
  case (Cons b bs)
  have "uint b < 256" using uint_lt2p [of b] by simp
  with Cons show ?case by simp
qed

lemma mod_256_split: "n mod (256 * m) = n mod 256 + 256 * (n div 256 mod m)" if "0 \<le> m" for n m :: int
  using zmod_zmult2_eq [of m n 256] that by (simp add: add.commute mult.commute)

lemma le_val_le_bytes [mach_simps]: "le_val (le_bytes k n) = n mod 256 ^ k"
proof (induction k arbitrary: n)
  case 0
  then show ?case by simp
next
  case (Suc k)
  have "uint (word_of_int n :: byte) = n mod 256"
    by (simp add: uint_word_of_int)
  with Suc show ?case by (simp add: mod_256_split)
qed

lemma le_bytes_le_val [mach_simps]: "le_bytes (length bs) (le_val bs) = bs"
proof (induction bs)
  case Nil
  then show ?case by simp
next
  case (Cons b bs)
  have "uint b < 256" and "0 \<le> uint b" using uint_lt2p [of b] by simp_all
  then have d: "(uint b + 256 * le_val bs) div 256 = le_val bs" by simp
  have "(word_of_int (uint b + 256 * le_val bs) :: byte) = b"
    by (simp add: word_uint_eq_iff uint_word_of_int \<open>uint b < 256\<close> mod_add_eq [symmetric]
        del: of_int_add of_int_mult)
  with d Cons show ?case by simp
qed

subsection \<open>The binary logarithm\<close>

fun ilog2 :: "nat \<Rightarrow> nat" where
  "ilog2 n = (if n < 2 then 0 else Suc (ilog2 (n div 2)))"

declare ilog2.simps [simp del]

lemma ilog2_bounds: "0 < n \<Longrightarrow> 2 ^ ilog2 n \<le> n \<and> n < 2 ^ Suc (ilog2 n)"
proof (induction n rule: ilog2.induct)
  case (1 n)
  show ?case
  proof (cases "n < 2")
    case True
    with "1.prems" have "n = 1" by simp
    moreover have "ilog2 1 = 0" by (subst ilog2.simps) simp
    ultimately show ?thesis by simp
  next
    case False
    then have "2 ^ ilog2 (n div 2) \<le> n div 2 \<and> n div 2 < 2 ^ Suc (ilog2 (n div 2))"
      using "1.IH" by simp
    with False show ?thesis by (auto simp: ilog2.simps [of n])
  qed
qed

lemma ilog2_eqI: "2 ^ k \<le> n \<Longrightarrow> n < 2 ^ Suc k \<Longrightarrow> ilog2 n = k"
proof -
  assume a: "2 ^ k \<le> n" "n < 2 ^ Suc k"
  then have "0 < n" by (metis not_gr_zero not_less power_not_zero zero_neq_numeral le_zero_eq)
  note b = ilog2_bounds [OF this]
  have "(2::nat) ^ k < 2 ^ Suc (ilog2 n)" and "(2::nat) ^ ilog2 n < 2 ^ Suc k"
    using a b by linarith+
  then show "ilog2 n = k"
    using power_less_imp_less_exp [of "2::nat"] by (metis le_antisym less_Suc_eq_le one_less_numeral_iff semiring_norm(76))
qed

subsection \<open>Arithmetic\<close>

lemma int_div_less: "0 < b \<Longrightarrow> x < c * b \<Longrightarrow> x div b < c" for b c x :: int
proof -
  assume b: "0 < b" and x: "x < c * b"
  have "x div b * b \<le> x" using b div_mult_mod_eq [of x b] pos_mod_sign [OF b, of x] by linarith
  with x have "x div b * b < c * b" by simp
  with b show "x div b < c" by simp
qed

end
