(* ===== verification/Lua_Number.thy ===== *)
theory Lua_Number
  imports Prelude
begin

text \<open>
  Lua numbers (\<^verbatim>\<open>luaconf.h\<close>: \<^verbatim>\<open>LUA_NUMBER\<close> is \<^verbatim>\<open>double\<close>) as their IEEE 754
  binary64 memory representation, a 64-bit word, on the platform the development fixes:
  x86-64, LP64, little endian, SSE2 arithmetic.
  The comparisons \<open>luai_numeq\<close>, \<open>luai_numlt\<close> and \<open>luai_numle\<close>, the
  conversions \<open>cast_num\<close> (integer to double, round to nearest even),
  \<open>lua_number2int\<close> and \<open>lua_number2integer\<close> (truncation; out of range the
  instruction delivers the most negative integer) and the C library's \<open>round\<close> are
  functions on that representation.
  The lemmas tie the representation to the value it stands for (\<open>dbl_units\<close>, the value
  in units of the smallest subnormal) and show that integers survive the round trip through a
  double exactly when they are below \<open>2 ^ 53\<close> or come from a double.
\<close>

type_synonym lua_Number = "64 word"

subsection \<open>Fields of the representation\<close>

definition dbl_neg :: "lua_Number \<Rightarrow> bool" where
  "dbl_neg w \<longleftrightarrow> 2 ^ 63 \<le> uint w"

definition dbl_mag :: "lua_Number \<Rightarrow> int" where
  "dbl_mag w = uint w mod 2 ^ 63"

definition dbl_exp :: "lua_Number \<Rightarrow> int" where
  "dbl_exp w = dbl_mag w div 2 ^ 52"

definition dbl_frac :: "lua_Number \<Rightarrow> int" where
  "dbl_frac w = dbl_mag w mod 2 ^ 52"

definition dbl_pack :: "bool \<Rightarrow> int \<Rightarrow> lua_Number" where
  "dbl_pack s m = word_of_int ((if s then 2 ^ 63 else 0) + m)"

definition dbl_isnan :: "lua_Number \<Rightarrow> bool" where
  "dbl_isnan w \<longleftrightarrow> dbl_exp w = 2047 \<and> dbl_frac w \<noteq> 0"

definition dbl_isfinite :: "lua_Number \<Rightarrow> bool" where
  "dbl_isfinite w \<longleftrightarrow> dbl_exp w < 2047"

definition dbl_sig :: "lua_Number \<Rightarrow> int" where
  "dbl_sig w = (if dbl_exp w = 0 then dbl_frac w else 2 ^ 52 + dbl_frac w)"

text \<open>The value of a finite double is \<open>dbl_sig w * 2 ^ (dbl_scale w)\<close> up to sign.\<close>

definition dbl_scale :: "lua_Number \<Rightarrow> int" where
  "dbl_scale w = max (dbl_exp w) 1 - 1075"

definition dbl_units :: "lua_Number \<Rightarrow> int" where
  "dbl_units w = (if dbl_neg w then - 1 else 1) * (dbl_sig w * 2 ^ nat (max (dbl_exp w) 1 - 1))"

subsection \<open>Comparison\<close>

definition dbl_ord :: "lua_Number \<Rightarrow> int" where
  "dbl_ord w = (if dbl_neg w then - dbl_mag w else dbl_mag w)"

definition luai_numeq :: "lua_Number \<Rightarrow> lua_Number \<Rightarrow> bool" where
  "luai_numeq a b \<longleftrightarrow> \<not> dbl_isnan a \<and> \<not> dbl_isnan b \<and> dbl_ord a = dbl_ord b"

definition luai_numlt :: "lua_Number \<Rightarrow> lua_Number \<Rightarrow> bool" where
  "luai_numlt a b \<longleftrightarrow> \<not> dbl_isnan a \<and> \<not> dbl_isnan b \<and> dbl_ord a < dbl_ord b"

definition luai_numle :: "lua_Number \<Rightarrow> lua_Number \<Rightarrow> bool" where
  "luai_numle a b \<longleftrightarrow> \<not> dbl_isnan a \<and> \<not> dbl_isnan b \<and> dbl_ord a \<le> dbl_ord b"

definition luai_numisnan :: "lua_Number \<Rightarrow> bool" where
  "luai_numisnan a \<longleftrightarrow> \<not> luai_numeq a a"

subsection \<open>Conversions\<close>

definition round_even :: "nat \<Rightarrow> nat \<Rightarrow> nat" where
  "round_even a k =
     (let q = a div 2 ^ k; r = a mod 2 ^ k in
      if 2 * r > 2 ^ k \<or> (2 * r = 2 ^ k \<and> odd q) then Suc q else q)"

definition dbl_of_nat :: "nat \<Rightarrow> int" where
  "dbl_of_nat a =
     (if a = 0 then 0
      else let l = ilog2 a in
        (1023 + int l) * 2 ^ 52 +
        ((if l \<le> 52 then int a * 2 ^ (52 - l) else int (round_even a (l - 52))) - 2 ^ 52))"

definition cast_num :: "int \<Rightarrow> lua_Number" where
  "cast_num n = dbl_pack (n < 0) (dbl_of_nat (nat \<bar>n\<bar>))"

definition dbl_trunc :: "lua_Number \<Rightarrow> int" where
  "dbl_trunc w =
     (let a = (if 0 \<le> dbl_scale w then dbl_sig w * 2 ^ nat (dbl_scale w)
               else dbl_sig w div 2 ^ nat (- dbl_scale w))
      in if dbl_neg w then - a else a)"

definition dbl_to_int :: "nat \<Rightarrow> lua_Number \<Rightarrow> int" where
  "dbl_to_int b w =
     (let n = dbl_trunc w in
      if dbl_isfinite w \<and> - (2 ^ (b - 1)) \<le> n \<and> n < 2 ^ (b - 1) then n else - (2 ^ (b - 1)))"

definition lua_number2int :: "lua_Number \<Rightarrow> int" where
  "lua_number2int w = dbl_to_int 32 w"

definition lua_number2integer :: "lua_Number \<Rightarrow> int" where
  "lua_number2integer w = dbl_to_int 64 w"

text \<open>C's \<open>round\<close>: to the nearest integer, halves away from zero; the sign is kept.\<close>

definition dbl_round :: "lua_Number \<Rightarrow> lua_Number" where
  "dbl_round w =
     (if 0 \<le> dbl_scale w then w
      else let k = nat (- dbl_scale w) in
        dbl_pack (dbl_neg w) (dbl_of_nat (nat ((dbl_sig w + 2 ^ (k - 1)) div 2 ^ k))))"

definition dbl_integral :: "lua_Number \<Rightarrow> bool" where
  "dbl_integral w \<longleftrightarrow> 0 \<le> dbl_scale w \<or> dbl_sig w mod 2 ^ nat (- dbl_scale w) = 0"

subsection \<open>The fields determine the word\<close>

lemma dbl_mag_bounds: "0 \<le> dbl_mag w" "dbl_mag w < 2 ^ 63"
  by (simp_all add: dbl_mag_def)

lemma mod_half_split:
  fixes u m :: int
  assumes "0 \<le> u" "u < 2 * m"
  shows "u = (if m \<le> u then m else 0) + u mod m"
proof (cases "m \<le> u")
  case True
  with assms have "u mod m = u - m"
    by (metis add_diff_cancel_left' diff_ge_0_iff_ge diff_less_eq mod_add_self2 mod_pos_pos_trivial
        diff_add_cancel mult_2)
  with True show ?thesis by simp
next
  case False
  with assms show ?thesis by simp
qed

lemma uint_split: "uint w = (if dbl_neg w then 2 ^ 63 else 0) + dbl_mag w"
  unfolding dbl_neg_def dbl_mag_def
  by (rule mod_half_split) (use uint_lt2p [of w] in simp_all)

lemma dbl_word_eqI: "dbl_neg a = dbl_neg b \<Longrightarrow> dbl_mag a = dbl_mag b \<Longrightarrow> a = b"
  by (rule word_uint_eqI) (simp only: uint_split)

lemma dbl_fields:
  "0 \<le> dbl_exp w" "dbl_exp w \<le> 2047" "0 \<le> dbl_frac w" "dbl_frac w < 2 ^ 52"
  "dbl_mag w = dbl_exp w * 2 ^ 52 + dbl_frac w"
proof -
  show "0 \<le> dbl_exp w" using dbl_mag_bounds [of w] by (simp add: dbl_exp_def)
  have "dbl_exp w < 2 ^ 11"
    unfolding dbl_exp_def using dbl_mag_bounds(2) [of w]
    by (simp add: div_less_iff_less_mult)
  then show "dbl_exp w \<le> 2047" by simp
  show "0 \<le> dbl_frac w" "dbl_frac w < 2 ^ 52" by (simp_all add: dbl_frac_def)
  show "dbl_mag w = dbl_exp w * 2 ^ 52 + dbl_frac w"
    unfolding dbl_exp_def dbl_frac_def by (rule div_mult_mod_eq [symmetric])
qed

lemma dbl_pack_fields:
  assumes "0 \<le> m" "m < 2 ^ 63"
  shows dbl_neg_pack: "dbl_neg (dbl_pack s m) = s" and dbl_mag_pack: "dbl_mag (dbl_pack s m) = m"
proof -
  have "uint (dbl_pack s m) = (if s then 2 ^ 63 else 0) + m"
    using assms by (simp add: dbl_pack_def uint_word_of_int del: of_int_add)
  with assms show "dbl_neg (dbl_pack s m) = s" "dbl_mag (dbl_pack s m) = m"
    by (simp_all add: dbl_neg_def dbl_mag_def)
qed

lemma dbl_pack_id [simp]: "dbl_pack (dbl_neg w) (dbl_mag w) = w"
  by (rule dbl_word_eqI) (simp_all only: dbl_neg_pack [OF dbl_mag_bounds] dbl_mag_pack [OF dbl_mag_bounds])

subsection \<open>Order of the representations is order of the values\<close>

definition mag_units :: "int \<Rightarrow> int" where
  "mag_units m =
     (let e = m div 2 ^ 52; f = m mod 2 ^ 52
      in (if e = 0 then f else 2 ^ 52 + f) * 2 ^ nat (max e 1 - 1))"

lemma dbl_units_mag: "dbl_units w = (if dbl_neg w then - mag_units (dbl_mag w) else mag_units (dbl_mag w))"
  by (simp add: dbl_units_def mag_units_def Let_def dbl_sig_def dbl_exp_def dbl_frac_def)

lemma mag_units_strict_mono:
  assumes "0 \<le> m" "m < m'"
  shows "mag_units m < mag_units m'"
proof -
  define P :: int where "P = 2 ^ 52"
  have P: "0 < P" by (simp add: P_def)
  define e where "e = m div P"
  define f where "f = m mod P"
  define e' where "e' = m' div P"
  define f' where "f' = m' mod P"
  have f: "0 \<le> f" "f < P" "0 \<le> f'" "f' < P" using P by (simp_all add: f_def f'_def)
  have e: "0 \<le> e" "e \<le> e'" using assms P by (simp_all add: e_def e'_def pos_imp_zdiv_nonneg_iff zdiv_mono1)
  have m: "m = e * P + f" "m' = e' * P + f'" by (simp_all add: e_def f_def e'_def f'_def)
  have u: "mag_units m = (if e = 0 then f else P + f) * 2 ^ nat (max e 1 - 1)"
    "mag_units m' = (if e' = 0 then f' else P + f') * 2 ^ nat (max e' 1 - 1)"
    by (simp_all only: mag_units_def Let_def e_def f_def e'_def f'_def P_def)
  show ?thesis
  proof (cases "e = e'")
    case True
    then have "f < f'" using assms m by simp
    with True show ?thesis unfolding u by simp
  next
    case False
    then have lt: "e < e'" using e by simp
    have a: "mag_units m < P * 2 ^ nat e"
    proof (cases "e = 0")
      case True
      then show ?thesis using f unfolding u by simp
    next
      case False
      then have "(2::int) ^ nat e = 2 * 2 ^ nat (e - 1)"
        using e by (metis Suc_nat_eq_nat_zadd1 diff_add_cancel diff_ge_0_iff_ge int_one_le_iff_zero_less
            order_le_less power_Suc add.commute)
      moreover have "(P + f) * 2 ^ nat (e - 1) < (2 * P) * 2 ^ nat (e - 1)"
        using f by simp
      ultimately show ?thesis using False e unfolding u by (simp add: max_def)
    qed
    have "P * 2 ^ nat e \<le> P * 2 ^ nat (e' - 1)"
      using lt P by (intro mult_left_mono power_increasing) auto
    also have "\<dots> \<le> (P + f') * 2 ^ nat (e' - 1)" using f by simp
    also have "\<dots> = mag_units m'" using lt e unfolding u by (simp add: max_def)
    finally show ?thesis using a by simp
  qed
qed

lemma mag_units_less_iff:
  "0 \<le> m \<Longrightarrow> 0 \<le> m' \<Longrightarrow> mag_units m < mag_units m' \<longleftrightarrow> m < m'"
  by (metis linorder_neqE_linordered_idom mag_units_strict_mono not_less_iff_gr_or_eq)

lemma mag_units_0 [simp]: "mag_units 0 = 0"
  by (simp add: mag_units_def)

lemma mag_units_nonneg: "0 \<le> m \<Longrightarrow> 0 \<le> mag_units m"
  using mag_units_strict_mono [of 0 m] by (cases "m = 0") simp_all

lemma dbl_ord_less_iff: "dbl_ord a < dbl_ord b \<longleftrightarrow> dbl_units a < dbl_units b"
proof -
  note m = dbl_mag_bounds(1) [of a] dbl_mag_bounds(1) [of b]
  note n = mag_units_nonneg [OF m(1)] mag_units_nonneg [OF m(2)]
  have z: "mag_units x = 0 \<longleftrightarrow> x = 0" if "0 \<le> x" for x
    using mag_units_strict_mono [of 0 x] that by (cases "x = 0") auto
  show ?thesis
    using m n z [OF m(1)] z [OF m(2)] mag_units_less_iff [OF m] mag_units_less_iff [OF m(2) m(1)]
    unfolding dbl_ord_def dbl_units_mag by (smt (verit))
qed

lemma dbl_ord_eq_iff: "dbl_ord a = dbl_ord b \<longleftrightarrow> dbl_units a = dbl_units b"
  using dbl_ord_less_iff [of a b] dbl_ord_less_iff [of b a] by linarith

lemma luai_numlt_units:
  "luai_numlt a b \<longleftrightarrow> \<not> dbl_isnan a \<and> \<not> dbl_isnan b \<and> dbl_units a < dbl_units b"
  by (simp add: luai_numlt_def dbl_ord_less_iff)

lemma luai_numeq_units:
  "luai_numeq a b \<longleftrightarrow> \<not> dbl_isnan a \<and> \<not> dbl_isnan b \<and> dbl_units a = dbl_units b"
  by (simp add: luai_numeq_def dbl_ord_eq_iff)

lemma luai_numeq_refl: "\<not> dbl_isnan a \<Longrightarrow> luai_numeq a a"
  by (simp add: luai_numeq_def)

lemma luai_numisnan_iff [simp]: "luai_numisnan a \<longleftrightarrow> dbl_isnan a"
  by (simp add: luai_numisnan_def luai_numeq_def)

lemma luai_numeq_sym: "luai_numeq a b \<longleftrightarrow> luai_numeq b a"
  by (auto simp: luai_numeq_def)

lemma luai_numeq_trans: "luai_numeq a b \<Longrightarrow> luai_numeq b c \<Longrightarrow> luai_numeq a c"
  by (auto simp: luai_numeq_def)

text \<open>Equal numbers are the same word, or are the two zeros.\<close>

lemma luai_numeq_cases:
  "luai_numeq a b \<Longrightarrow> a = b \<or> dbl_mag a = 0 \<and> dbl_mag b = 0"
proof -
  assume "luai_numeq a b"
  then have o: "dbl_ord a = dbl_ord b" by (simp add: luai_numeq_def)
  show ?thesis
  proof (cases "dbl_neg a = dbl_neg b")
    case True
    with o have "dbl_mag a = dbl_mag b" by (simp add: dbl_ord_def split: if_splits)
    with True show ?thesis using dbl_word_eqI by blast
  next
    case False
    with o dbl_mag_bounds(1) [of a] dbl_mag_bounds(1) [of b] show ?thesis
      by (auto simp: dbl_ord_def split: if_splits)
  qed
qed

subsection \<open>Integers and doubles\<close>

lemma dbl_of_nat_up:
  assumes "2 ^ 52 \<le> M" "M < 2 ^ 53"
  shows "dbl_of_nat (M * 2 ^ s) = (1075 + int s) * 2 ^ 52 + (int M - 2 ^ 52)"
proof -
  have l: "ilog2 (M * 2 ^ s) = 52 + s"
    using assms by (intro ilog2_eqI) (simp_all add: power_add)
  have "M \<noteq> 0" using assms by auto
  moreover have "round_even (M * 2 ^ s) s = M" by (simp add: round_even_def)
  ultimately show ?thesis using l by (simp add: dbl_of_nat_def Let_def)
qed

lemma dbl_of_nat_down:
  assumes "2 ^ 52 \<le> a * 2 ^ k" "a * 2 ^ k < 2 ^ 53"
  shows "k \<le> 52" and "dbl_of_nat a = (1075 - int k) * 2 ^ 52 + (int a * 2 ^ k - 2 ^ 52)"
proof -
  have a: "a \<noteq> 0" using assms(1) by (cases "a = 0") simp_all
  then have "(2::nat) ^ k \<le> a * 2 ^ k" by simp
  with assms(2) have "(2::nat) ^ k < 2 ^ 53" by linarith
  then show k: "k \<le> 52" using power_less_imp_less_exp [of "2::nat" k 53] by simp
  have e: "(2::nat) ^ 52 = 2 ^ (52 - k) * 2 ^ k" "(2::nat) ^ 53 = 2 ^ Suc (52 - k) * 2 ^ k"
    using k by (simp_all only: power_add [symmetric] power_Suc [symmetric]) (simp_all add: Suc_diff_le)
  have "2 ^ (52 - k) \<le> a" "a < 2 ^ Suc (52 - k)"
    using assms unfolding e by simp_all
  then have l: "ilog2 a = 52 - k" by (rule ilog2_eqI)
  then have "52 - ilog2 a = k" using k by simp
  with a k l show "dbl_of_nat a = (1075 - int k) * 2 ^ 52 + (int a * 2 ^ k - 2 ^ 52)"
    by (simp add: dbl_of_nat_def Let_def of_nat_diff)
qed

lemma dbl_of_nat_small:
  fixes a :: nat
  assumes "0 < a" "a < 2 ^ 53"
  obtains k where "k \<le> 52" "2 ^ 52 \<le> a * 2 ^ k" "a * 2 ^ k < 2 ^ 53"
proof
  define l where "l = ilog2 a"
  have b: "2 ^ l \<le> a" "a < 2 ^ Suc l" using ilog2_bounds [OF assms(1)] by (simp_all add: l_def)
  then have "(2::nat) ^ l < 2 ^ 53" using assms(2) by linarith
  then have l: "l \<le> 52" using power_less_imp_less_exp [of "2::nat" l 53] by simp
  show "52 - l \<le> 52" by simp
  have e: "(2::nat) ^ 52 = 2 ^ l * 2 ^ (52 - l)" "(2::nat) ^ 53 = 2 ^ Suc l * 2 ^ (52 - l)"
    using l by (simp_all only: power_add [symmetric]) (simp_all add: Suc_diff_le)
  show "2 ^ 52 \<le> a * 2 ^ (52 - l)" "a * 2 ^ (52 - l) < 2 ^ 53"
    unfolding e using b by simp_all
qed

lemma dbl_fields_of_mag:
  assumes "0 \<le> e" "0 \<le> f" "f < 2 ^ 52" "dbl_mag w = e * 2 ^ 52 + f"
  shows "dbl_exp w = e" "dbl_frac w = f"
  unfolding dbl_exp_def dbl_frac_def assms(4) using assms(1-3) by simp_all

text \<open>An integer below \<open>2 ^ 53\<close> is represented exactly.\<close>

lemma cast_num_fields:
  assumes "n \<noteq> 0" "\<bar>n\<bar> < 2 ^ 53"
  obtains k where "k \<le> 52" "dbl_neg (cast_num n) = (n < 0)" "dbl_exp (cast_num n) = 1075 - int k"
    "dbl_sig (cast_num n) = \<bar>n\<bar> * 2 ^ k" "dbl_scale (cast_num n) = - int k"
proof -
  let ?a = "nat \<bar>n\<bar>"
  have "0 < ?a" "?a < 2 ^ 53" using assms by (simp_all add: nat_less_iff)
  then obtain k where k: "k \<le> 52" "2 ^ 52 \<le> ?a * 2 ^ k" "?a * 2 ^ k < 2 ^ 53"
    by (rule dbl_of_nat_small)
  define f where "f = int ?a * 2 ^ k - 2 ^ 52"
  have "int (2 ^ 52) \<le> int (?a * 2 ^ k)" "int (?a * 2 ^ k) < int (2 ^ 53)"
    using k by (simp_all only: zle_int of_nat_less_iff)
  then have f: "0 \<le> f" "f < 2 ^ 52" by (simp_all add: f_def)
  have d: "dbl_of_nat ?a = (1075 - int k) * 2 ^ 52 + f"
    using dbl_of_nat_down(2) [OF k(2,3)] by (simp add: f_def)
  have b: "0 \<le> dbl_of_nat ?a" "dbl_of_nat ?a < 2 ^ 63"
  proof -
    show "0 \<le> dbl_of_nat ?a" unfolding d using f k(1) by simp
    have "(1075 - int k) * 2 ^ 52 \<le> 1075 * 2 ^ 52" by simp
    then show "dbl_of_nat ?a < 2 ^ 63" unfolding d using f by simp
  qed
  have m: "dbl_mag (cast_num n) = (1075 - int k) * 2 ^ 52 + f"
    unfolding cast_num_def dbl_mag_pack [OF b] by (rule d)
  have g: "dbl_exp (cast_num n) = 1075 - int k" "dbl_frac (cast_num n) = f"
    by (rule dbl_fields_of_mag [OF _ f m]; use k(1) in simp)+
  have s: "dbl_neg (cast_num n) = (n < 0)"
    unfolding cast_num_def dbl_neg_pack [OF b] by (rule refl)
  show ?thesis
    by (rule that [OF k(1) s g(1)]) (use g k(1) in \<open>simp_all add: dbl_sig_def dbl_scale_def f_def\<close>)
qed

lemma cast_num_0 [simp]: "cast_num 0 = 0"
  by (simp add: cast_num_def dbl_pack_def dbl_of_nat_def)

lemma dbl_trunc_cast_num [simp]:
  assumes "\<bar>n\<bar> < 2 ^ 53"
  shows "dbl_trunc (cast_num n) = n"
proof (cases "n = 0")
  case True
  then show ?thesis
    by (simp add: dbl_trunc_def dbl_sig_def dbl_exp_def dbl_frac_def dbl_mag_def dbl_scale_def dbl_neg_def)
next
  case False
  then obtain k where "dbl_neg (cast_num n) = (n < 0)"
    "dbl_sig (cast_num n) = \<bar>n\<bar> * 2 ^ k" "dbl_scale (cast_num n) = - int k"
    using cast_num_fields [OF _ assms] by metis
  moreover have "- (n * 2 ^ k) div 2 ^ k = - n"
    using nonzero_mult_div_cancel_right [of "2 ^ k" "- n"] by simp
  moreover from calculation have "dbl_trunc (cast_num n) = (if n < 0 then - \<bar>n\<bar> else \<bar>n\<bar>)"
    by (simp add: dbl_trunc_def Let_def)
  ultimately show ?thesis by (simp split: if_splits)
qed

lemma cast_num_finite:
  assumes "\<bar>n\<bar> < 2 ^ 53"
  shows "dbl_isfinite (cast_num n)" and "\<not> dbl_isnan (cast_num n)"
proof -
  have "dbl_exp (cast_num n) < 2047"
  proof (cases "n = 0")
    case True
    then show ?thesis by (simp add: dbl_exp_def dbl_mag_def)
  next
    case False
    then obtain k where "dbl_exp (cast_num n) = 1075 - int k"
      using cast_num_fields [OF _ assms] by metis
    then show ?thesis by simp
  qed
  then show "dbl_isfinite (cast_num n)" and "\<not> dbl_isnan (cast_num n)"
    by (simp_all add: dbl_isfinite_def dbl_isnan_def)
qed

lemma lua_number2int_cast_num [simp]:
  "- (2 ^ 31) \<le> k \<Longrightarrow> k < 2 ^ 31 \<Longrightarrow> lua_number2int (cast_num k) = k"
  using cast_num_finite(1) [of k] by (simp add: lua_number2int_def dbl_to_int_def Let_def abs_if)

lemma lua_number2int_range: "- (2 ^ 31) \<le> lua_number2int w \<and> lua_number2int w < 2 ^ 31"
  by (simp add: lua_number2int_def dbl_to_int_def Let_def)

lemma cast_num_inj: "\<bar>m\<bar> < 2 ^ 53 \<Longrightarrow> \<bar>n\<bar> < 2 ^ 53 \<Longrightarrow> cast_num m = cast_num n \<Longrightarrow> m = n"
  by (metis dbl_trunc_cast_num)

lemma mag_0_trunc: "dbl_mag w = 0 \<Longrightarrow> dbl_trunc w = 0"
  by (simp add: dbl_trunc_def Let_def dbl_sig_def dbl_exp_def dbl_frac_def)

lemma luai_numeq_trunc: "luai_numeq a b \<Longrightarrow> dbl_trunc a = dbl_trunc b"
  using luai_numeq_cases mag_0_trunc by fastforce

lemma luai_numeq_cast_num:
  "\<bar>m\<bar> < 2 ^ 53 \<Longrightarrow> \<bar>n\<bar> < 2 ^ 53 \<Longrightarrow> luai_numeq (cast_num m) (cast_num n) \<longleftrightarrow> m = n"
  using luai_numeq_trunc [of "cast_num m" "cast_num n"] cast_num_finite(2)
  by (auto simp: luai_numeq_refl)

text \<open>An integral double is the image of its integer value, up to the sign of zero.\<close>

lemma dbl_integral_abs:
  assumes "dbl_isfinite w" "dbl_integral w" "dbl_mag w \<noteq> 0"
  shows "dbl_of_nat (nat \<bar>dbl_trunc w\<bar>) = dbl_mag w" and "dbl_trunc w \<noteq> 0"
    and "dbl_trunc w < 0 \<longleftrightarrow> dbl_neg w"
proof -
  note F = dbl_fields [of w]
  have e1: "1 \<le> dbl_exp w"
  proof (rule ccontr)
    assume "\<not> 1 \<le> dbl_exp w"
    then have e: "dbl_exp w = 0" using F(1) by simp
    then have "dbl_frac w mod 2 ^ nat 1074 = 0"
      using assms(2) by (simp add: dbl_integral_def dbl_scale_def dbl_sig_def)
    moreover have "dbl_frac w < 2 ^ nat 1074"
      using F(4) by (rule order_less_le_trans) simp
    ultimately have "dbl_frac w = 0" using F(3) by simp
    with e F(5) assms(3) show False by simp
  qed
  define M where "M = nat (dbl_sig w)"
  have sig: "dbl_sig w = 2 ^ 52 + dbl_frac w" using e1 by (simp add: dbl_sig_def)
  have M: "2 ^ 52 \<le> M" "M < 2 ^ 53" "int M = dbl_sig w"
    using F(3,4) by (simp_all add: M_def sig nat_le_iff le_nat_iff nat_less_iff)
  have mag: "dbl_mag w = dbl_exp w * 2 ^ 52 + (int M - 2 ^ 52)" using F(5) sig M(3) by simp
  define s where "s = dbl_scale w"
  have ex: "dbl_exp w = 1075 + s" using e1 by (simp add: s_def dbl_scale_def)
  have "dbl_of_nat (nat \<bar>dbl_trunc w\<bar>) = dbl_mag w \<and> 0 < \<bar>dbl_trunc w\<bar> \<and> (dbl_trunc w < 0 \<longleftrightarrow> dbl_neg w)"
  proof (cases "0 \<le> s")
    case True
    then have t: "dbl_trunc w = (if dbl_neg w then - 1 else 1) * int (M * 2 ^ nat s)"
      by (simp add: dbl_trunc_def Let_def s_def M(3))
    have "0 < M" using M(1) by (cases M) simp_all
    with t have a: "nat \<bar>dbl_trunc w\<bar> = M * 2 ^ nat s" "0 < \<bar>dbl_trunc w\<bar>" "dbl_trunc w < 0 \<longleftrightarrow> dbl_neg w"
      by (simp_all add: abs_mult nat_mult_distrib nat_power_eq zero_less_mult_iff not_less mult_less_0_iff)
    show ?thesis
      using dbl_of_nat_up [OF M(1,2), of "nat s"] True a by (simp add: mag ex)
  next
    case False
    define k where "k = nat (- s)"
    define q where "q = M div 2 ^ k"
    have "dbl_sig w mod 2 ^ k = 0"
      using assms(2) False by (simp add: dbl_integral_def s_def k_def)
    then have "int (M mod 2 ^ k) = 0" by (simp add: zmod_int M(3))
    then have q: "q * 2 ^ k = M" by (simp add: q_def) (metis dvd_div_mult_self mod_0_imp_dvd)
    have "0 < M" using M(1) by (cases M) simp_all
    then have q0: "0 < q" using q by (cases q) simp_all
    have t: "dbl_trunc w = (if dbl_neg w then - 1 else 1) * int q"
      using False by (simp add: dbl_trunc_def Let_def s_def k_def q_def M(3) zdiv_int)
    have a: "nat \<bar>dbl_trunc w\<bar> = q" "0 < \<bar>dbl_trunc w\<bar>" "dbl_trunc w < 0 \<longleftrightarrow> dbl_neg w"
      using t q0 by (simp_all)
    have "dbl_of_nat q = (1075 - int k) * 2 ^ 52 + (int q * 2 ^ k - 2 ^ 52)"
      using dbl_of_nat_down(2) [of q k] M q by simp
    moreover have "int q * 2 ^ k = int M" using q by (metis of_nat_mult of_nat_numeral of_nat_power)
    moreover have "1075 - int k = dbl_exp w" using False ex by (simp add: k_def)
    ultimately show ?thesis using a by (simp add: mag)
  qed
  then show "dbl_of_nat (nat \<bar>dbl_trunc w\<bar>) = dbl_mag w" "dbl_trunc w \<noteq> 0"
    "dbl_trunc w < 0 \<longleftrightarrow> dbl_neg w" by auto
qed

lemma cast_num_trunc:
  assumes "dbl_isfinite w" "dbl_integral w"
  shows "cast_num (dbl_trunc w) = (if dbl_mag w = 0 then 0 else w)"
proof (cases "dbl_mag w = 0")
  case True
  then show ?thesis by (simp add: mag_0_trunc)
next
  case False
  then show ?thesis
    using dbl_integral_abs [OF assms False] by (simp add: cast_num_def)
qed

text \<open>
  The serializer's test for an integer, \<open>v == round(v)\<close>, holds exactly of the integral doubles
  (and of the infinities, which have no fraction bits to lose).
\<close>

lemma cast_num_integral:
  assumes "\<bar>n\<bar> < 2 ^ 53"
  shows "dbl_integral (cast_num n)"
proof (cases "n = 0")
  case True
  then show ?thesis by (simp add: dbl_integral_def dbl_sig_def dbl_frac_def dbl_exp_def dbl_mag_def)
next
  case False
  then obtain k where "dbl_sig (cast_num n) = \<bar>n\<bar> * 2 ^ k" "dbl_scale (cast_num n) = - int k"
    using cast_num_fields [OF _ assms] by metis
  then show ?thesis by (simp add: dbl_integral_def)
qed

lemma round_half_bound:
  fixes m :: int
  assumes "0 \<le> m" "m < 2 ^ 53" "0 < k"
  shows "0 \<le> (m + 2 ^ (k - 1)) div 2 ^ k" "(m + 2 ^ (k - 1)) div 2 ^ k < 2 ^ 53"
proof -
  show "0 \<le> (m + 2 ^ (k - 1)) div 2 ^ k" using assms by (simp add: pos_imp_zdiv_nonneg_iff)
  have k: "(2::int) ^ k = 2 * 2 ^ (k - 1)" using assms(3) by (metis Suc_diff_1 power_Suc)
  have p: "(1::int) \<le> 2 ^ (k - 1)" by simp
  have "m + 2 ^ (k - 1) < 2 ^ 53 * 2 ^ (k - 1) + 2 ^ (k - 1)"
    using order_less_le_trans [OF assms(2), of "2 ^ 53 * 2 ^ (k - 1)"] mult_left_mono [OF p, of "2 ^ 53"]
    by simp
  also have "\<dots> \<le> 2 ^ 53 * 2 ^ k" unfolding k using p by simp
  finally show "(m + 2 ^ (k - 1)) div 2 ^ k < 2 ^ 53" by (rule int_div_less [rotated]) simp
qed

lemma round_half_exact:
  fixes m :: int
  assumes "m mod 2 ^ k = 0" "0 < k"
  shows "(m + 2 ^ (k - 1)) div 2 ^ k = m div 2 ^ k"
proof -
  have "(2::int) ^ (k - 1) < 2 ^ k" using assms(2) by simp
  then have "(2::int) ^ (k - 1) div 2 ^ k = 0" by simp
  then show ?thesis using assms(1) by (simp add: div_plus_div_distrib_dvd_left mod_0_imp_dvd)
qed

lemma dbl_sig_bounds: "0 \<le> dbl_sig w" "dbl_sig w < 2 ^ 53"
  using dbl_fields [of w] by (simp_all add: dbl_sig_def)

lemma dbl_pack_nat:
  assumes "0 \<le> r" "r < 2 ^ 53"
  shows "dbl_mag (dbl_pack s (dbl_of_nat (nat r))) = 0 \<or> dbl_integral (dbl_pack s (dbl_of_nat (nat r)))"
    and "r \<noteq> 0 \<Longrightarrow> dbl_pack s (dbl_of_nat (nat r)) = cast_num (if s then - r else r)"
proof -
  show c: "dbl_pack s (dbl_of_nat (nat r)) = cast_num (if s then - r else r)" if "r \<noteq> 0"
    using that assms by (auto simp: cast_num_def)
  show "dbl_mag (dbl_pack s (dbl_of_nat (nat r))) = 0 \<or> dbl_integral (dbl_pack s (dbl_of_nat (nat r)))"
  proof (cases "r = 0")
    case True
    then show ?thesis by (simp add: dbl_of_nat_def dbl_mag_pack)
  next
    case False
    have "dbl_integral (cast_num (if s then - r else r))"
      by (rule cast_num_integral) (use assms in auto)
    with c [OF False] show ?thesis by simp
  qed
qed

lemma mag_0_integral: "dbl_mag w = 0 \<Longrightarrow> dbl_integral w"
  by (simp add: dbl_integral_def dbl_sig_def dbl_frac_def dbl_exp_def)

lemma luai_numeq_mag0: "dbl_mag a = 0 \<Longrightarrow> dbl_mag b = 0 \<Longrightarrow> luai_numeq a b"
  by (simp add: luai_numeq_def dbl_isnan_def dbl_ord_def dbl_exp_def dbl_frac_def)

lemma dbl_round_eq_iff: "luai_numeq w (dbl_round w) \<longleftrightarrow> \<not> dbl_isnan w \<and> dbl_integral w"
proof (cases "0 \<le> dbl_scale w")
  case True
  then show ?thesis by (simp add: dbl_round_def dbl_integral_def luai_numeq_def)
next
  case False
  define k where "k = nat (- dbl_scale w)"
  define r where "r = (dbl_sig w + 2 ^ (k - 1)) div 2 ^ k"
  have k: "0 < k" using False by (simp add: k_def)
  have fin: "dbl_isfinite w" "\<not> dbl_isnan w"
    using False by (auto simp: dbl_scale_def dbl_isfinite_def dbl_isnan_def)
  have r: "0 \<le> r" "r < 2 ^ 53"
    using round_half_bound [OF dbl_sig_bounds k] by (simp_all add: r_def)
  have rd: "dbl_round w = dbl_pack (dbl_neg w) (dbl_of_nat (nat r))"
    using False by (simp add: dbl_round_def k_def r_def Let_def)
  have int: "dbl_integral w \<longleftrightarrow> dbl_sig w mod 2 ^ k = 0"
    using False by (simp add: dbl_integral_def k_def)
  show ?thesis
  proof
    assume e: "luai_numeq w (dbl_round w)"
    from luai_numeq_cases [OF e] dbl_pack_nat(1) [OF r, of "dbl_neg w"] mag_0_integral
    have "dbl_integral w" unfolding rd by metis
    with fin show "\<not> dbl_isnan w \<and> dbl_integral w" by simp
  next
    assume a: "\<not> dbl_isnan w \<and> dbl_integral w"
    then have rs: "r = dbl_sig w div 2 ^ k" using int round_half_exact k by (simp add: r_def)
    have t: "dbl_trunc w = (if dbl_neg w then - r else r)"
      using False by (simp add: dbl_trunc_def Let_def rs k_def)
    show "luai_numeq w (dbl_round w)"
    proof (cases "dbl_mag w = 0")
      case True
      then have "r = 0" using mag_0_trunc [OF True] t by (simp split: if_splits)
      then have "dbl_mag (dbl_round w) = 0" unfolding rd by (simp add: dbl_of_nat_def dbl_mag_pack)
      with True show ?thesis by (rule luai_numeq_mag0)
    next
      case False
      have "r \<noteq> 0" using dbl_integral_abs(2) [OF fin(1) _ False] a t by (auto split: if_splits)
      then have "dbl_round w = cast_num (dbl_trunc w)"
        using dbl_pack_nat(2) [OF r] unfolding rd t by simp
      also have "\<dots> = w" using cast_num_trunc [OF fin(1)] a False by simp
      finally show ?thesis using fin(2) by (simp add: luai_numeq_refl)
    qed
  qed
qed

end
