(* ===== verification/Lua_Object.thy ===== *)
theory Lua_Object
  imports Lua_Number
begin

text \<open>
  Lua values and the generic functions over them: the tagged values, table nodes and tables of
  \<^verbatim>\<open>lobject.h\<close>, and \<^verbatim>\<open>luaO_int2fb\<close>, \<^verbatim>\<open>luaO_fb2int\<close>, \<^verbatim>\<open>luaO_log2\<close>,
  \<^verbatim>\<open>luaO_rawequalObj\<close> and \<^verbatim>\<open>luaO_chunkid\<close> of \<^verbatim>\<open>lobject.c\<close>.
  Collectable objects other than strings are identified by their machine address.
  A string value carries its contents: strings are interned (theory \<open>Lua_String\<close>), so the
  pointer comparison of the code is equality of contents.
\<close>

type_synonym addr = nat

text \<open>The stack slots every C function may use besides its arguments (\<^verbatim>\<open>lua.h\<close>).\<close>

definition LUA_MINSTACK :: nat where "LUA_MINSTACK = 20"

subsection \<open>Tagged values\<close>

datatype TValue =
    LNil
  | LBoolean bool
  | LLightUserdata addr
  | LNumber lua_Number
  | LString bytes
  | LTable addr
  | LFunction addr
  | LUserdata addr
  | LThread addr
  | LDeadKey addr

fun ttype :: "TValue \<Rightarrow> nat" where
  "ttype LNil = 0"
| "ttype (LBoolean b) = 1"
| "ttype (LLightUserdata p) = 2"
| "ttype (LNumber n) = 3"
| "ttype (LString s) = 4"
| "ttype (LTable p) = 5"
| "ttype (LFunction p) = 6"
| "ttype (LUserdata p) = 7"
| "ttype (LThread p) = 8"
| "ttype (LDeadKey p) = 11"

definition ttisnil :: "TValue \<Rightarrow> bool" where
  "ttisnil v \<longleftrightarrow> ttype v = 0"

lemma ttisnil_iff [simp]: "ttisnil v \<longleftrightarrow> v = LNil"
  by (cases v) (simp_all add: ttisnil_def)

fun l_isfalse :: "TValue \<Rightarrow> bool" where
  "l_isfalse LNil = True"
| "l_isfalse (LBoolean b) = (\<not> b)"
| "l_isfalse _ = False"

text \<open>The address behind \<open>gcvalue\<close>; strings have none in this representation.\<close>

fun gcaddr :: "TValue \<Rightarrow> addr option" where
  "gcaddr (LTable p) = Some p"
| "gcaddr (LFunction p) = Some p"
| "gcaddr (LUserdata p) = Some p"
| "gcaddr (LThread p) = Some p"
| "gcaddr (LDeadKey p) = Some p"
| "gcaddr _ = None"

fun luaO_rawequalObj :: "TValue \<Rightarrow> TValue \<Rightarrow> bool" where
  "luaO_rawequalObj t1 t2 =
     (if ttype t1 \<noteq> ttype t2 then False
      else case t1 of
        LNil \<Rightarrow> True
      | LNumber n \<Rightarrow> (case t2 of LNumber m \<Rightarrow> luai_numeq n m | _ \<Rightarrow> False)
      | LBoolean b \<Rightarrow> (case t2 of LBoolean c \<Rightarrow> b = c | _ \<Rightarrow> False)
      | LLightUserdata p \<Rightarrow> (case t2 of LLightUserdata q \<Rightarrow> p = q | _ \<Rightarrow> False)
      | LString s \<Rightarrow> (case t2 of LString r \<Rightarrow> s = r | _ \<Rightarrow> False)
      | _ \<Rightarrow> gcaddr t1 = gcaddr t2)"

declare luaO_rawequalObj.simps [simp del]

lemma rawequal_num [simp]: "luaO_rawequalObj (LNumber a) v \<longleftrightarrow> (\<exists>b. v = LNumber b \<and> luai_numeq a b)"
  by (cases v) (auto simp: luaO_rawequalObj.simps)

lemma rawequal_num2 [simp]: "luaO_rawequalObj v (LNumber b) \<longleftrightarrow> (\<exists>a. v = LNumber a \<and> luai_numeq a b)"
  by (cases v) (auto simp: luaO_rawequalObj.simps)

lemma rawequal_nonnum: "(\<forall>a. v \<noteq> LNumber a) \<Longrightarrow> luaO_rawequalObj v w \<longleftrightarrow> v = w"
  by (cases v; cases w) (simp_all add: luaO_rawequalObj.simps)

lemma rawequal_nil [simp]: "luaO_rawequalObj LNil v \<longleftrightarrow> v = LNil" "luaO_rawequalObj v LNil \<longleftrightarrow> v = LNil"
  by (cases v; simp add: luaO_rawequalObj.simps)+

lemma rawequal_str [simp]: "luaO_rawequalObj (LString s) v \<longleftrightarrow> v = LString s"
  "luaO_rawequalObj v (LString s) \<longleftrightarrow> v = LString s"
  by (cases v; auto simp: luaO_rawequalObj.simps)+

lemma rawequal_sym: "luaO_rawequalObj a b \<longleftrightarrow> luaO_rawequalObj b a"
  by (cases a; cases b) (auto simp: luaO_rawequalObj.simps luai_numeq_sym)

lemma rawequal_trans: "luaO_rawequalObj a b \<Longrightarrow> luaO_rawequalObj b c \<Longrightarrow> luaO_rawequalObj a c"
  by (cases a; cases b; cases c) (auto simp: luaO_rawequalObj.simps dest: luai_numeq_trans)

lemma rawequal_both: "luaO_rawequalObj a k \<Longrightarrow> luaO_rawequalObj b k \<Longrightarrow> luaO_rawequalObj a b"
  by (rule rawequal_trans [OF _ rawequal_sym [THEN iffD1]])

text \<open>A valid table key: not nil, not NaN, and never the tag of a collected key.\<close>

fun valid_key :: "TValue \<Rightarrow> bool" where
  "valid_key LNil = False"
| "valid_key (LNumber n) = (\<not> dbl_isnan n)"
| "valid_key (LDeadKey p) = False"
| "valid_key _ = True"

lemma valid_key_not_nil: "valid_key k \<Longrightarrow> k \<noteq> LNil"
  by auto

lemma rawequal_refl [simp]: "valid_key k \<Longrightarrow> luaO_rawequalObj k k"
  by (cases k) (auto simp: luaO_rawequalObj.simps luai_numeq_refl)

lemma rawequal_valid: "luaO_rawequalObj a b \<Longrightarrow> valid_key a \<longleftrightarrow> valid_key b"
  by (cases a; cases b) (auto simp: luaO_rawequalObj.simps luai_numeq_def)

subsection \<open>Table nodes and tables\<close>

record Node =
  i_val :: TValue
  i_key :: TValue
  i_next :: "nat option"

text \<open>
  A table (\<^verbatim>\<open>struct Table\<close>). The array part is a list, so \<open>sizearray\<close> is its length. The
  node vector is \<open>None\<close> when \<open>t->node\<close> points to the shared \<open>dummynode\<close>. Node pointers
  (\<open>next\<close>, \<open>lastfree\<close>) are indices into the vector.
\<close>

record Table =
  t_flags :: byte
  t_lsizenode :: nat
  t_metatable :: "addr option"
  t_array :: "TValue list"
  t_node :: "Node list option"
  t_lastfree :: int

datatype rt_error = RunError bytes | OutOfFuel | Crash

subsection \<open>Floating point bytes\<close>

fun int2fb_loop :: "nat \<Rightarrow> nat \<Rightarrow> nat \<times> nat" where
  "int2fb_loop x e = (if x \<ge> 16 then int2fb_loop (((x + 1) mod 2 ^ 32) div 2) (Suc e) else (x, e))"

declare int2fb_loop.simps [simp del]

definition luaO_int2fb :: "nat \<Rightarrow> nat" where
  "luaO_int2fb x0 =
     (let (x, e) = int2fb_loop x0 0
      in if x < 8 then x else or (push_bit 3 (e + 1)) (x - 8))"

text \<open>\<open>None\<close> stands for a shift of an \<^verbatim>\<open>int\<close> that overflows, which C leaves undefined.\<close>

definition luaO_fb2int :: "nat \<Rightarrow> nat option" where
  "luaO_fb2int x =
     (let e = and (drop_bit 3 x) 31; y = push_bit (e - 1) (and x 7 + 8)
      in if e = 0 then Some x else if y < 2 ^ 31 then Some y else None)"

subsection \<open>Binary logarithm by table\<close>

definition log_2 :: "nat list" where
  "log_2 = 0 # 1 # replicate 2 2 @ replicate 4 3 @ replicate 8 4 @ replicate 16 5 @
           replicate 32 6 @ replicate 64 7 @ replicate 128 8"

fun log2_loop :: "nat \<Rightarrow> int \<Rightarrow> int" where
  "log2_loop x l = (if x \<ge> 256 then log2_loop (x div 256) (l + 8) else l + int (log_2 ! x))"

declare log2_loop.simps [simp del]

definition luaO_log2 :: "nat \<Rightarrow> int" where
  "luaO_log2 x = log2_loop x (- 1)"

definition ceillog2 :: "nat \<Rightarrow> nat" where
  "ceillog2 x = nat (luaO_log2 (x - 1) + 1)"

subsection \<open>Chunk names\<close>

text \<open>
  \<open>luaO_chunkid\<close> with \<open>LUA_IDSIZE\<close> as \<open>bufflen\<close>; the result is the C string left in
  \<open>out\<close>. The source string has no embedded zero.
\<close>

definition takeLast :: "nat \<Rightarrow> 'a list \<Rightarrow> 'a list" where
  "takeLast n xs = drop (length xs - n) xs"

definition luaO_chunkid :: "bytes \<Rightarrow> nat \<Rightarrow> bytes" where
  "luaO_chunkid source bufflen =
     (case source of
        c # cs \<Rightarrow>
          if c = of_char (CHR ''='') then take (bufflen - 1) cs
          else if c = of_char (CHR ''@'') then
            (let b = bufflen - 8; l = length cs
             in if l > b then str ''...'' @ takeLast b cs else cs)
          else
            (let line = takeWhile (\<lambda>x. x \<noteq> 10 \<and> x \<noteq> 13) source;
                 b = bufflen - 17;
                 len = min (length line) b
             in str ''[string '' @ [34] @
                (if len < length source then take len source @ str ''...'' else source) @ [34, 93])
      | [] \<Rightarrow> str ''[string '' @ [34, 34, 93])"

subsection \<open>What the arithmetic helpers compute\<close>

lemma log_2_table: "x < 256 \<Longrightarrow> 0 < x \<Longrightarrow> log_2 ! x = Suc (ilog2 x)"
proof -
  assume x: "x < 256" "0 < x"
  define k where "k = ilog2 x"
  note b = ilog2_bounds [OF x(2)]
  then have "(2::nat) ^ k < 2 ^ 8" using x(1) by (simp add: k_def)
  then have "k < 8" using power_less_imp_less_exp [of "2::nat" k 8] by simp
  then have "k = 0 \<or> k = 1 \<or> k = 2 \<or> k = 3 \<or> k = 4 \<or> k = 5 \<or> k = 6 \<or> k = 7" by linarith
  then show ?thesis
    using b unfolding k_def [symmetric]
    by (elim disjE; simp add: log_2_def nth_append nth_Cons' less_diff_conv2)
qed

lemma ilog2_div_256: "256 \<le> x \<Longrightarrow> ilog2 x = ilog2 (x div 256) + 8"
proof -
  assume "256 \<le> x"
  then have "0 < x div 256" by simp
  from ilog2_bounds [OF this] have "2 ^ ilog2 (x div 256) * 256 \<le> x" "x < 2 ^ Suc (ilog2 (x div 256)) * 256"
    by linarith+
  then have "2 ^ (ilog2 (x div 256) + 8) \<le> x" "x < 2 ^ Suc (ilog2 (x div 256) + 8)"
    by (simp_all add: power_add)
  then show ?thesis by (rule ilog2_eqI)
qed

lemma log2_loop_eq: "0 < x \<Longrightarrow> log2_loop x l = l + 1 + int (ilog2 x)"
proof (induction x l rule: log2_loop.induct)
  case (1 x l)
  show ?case
  proof (cases "256 \<le> x")
    case True
    then have "log2_loop (x div 256) (l + 8) = l + 8 + 1 + int (ilog2 (x div 256))"
      using "1.IH" by simp
    with True show ?thesis by (simp add: log2_loop.simps [of x l] ilog2_div_256 [OF True])
  next
    case False
    with "1.prems" show ?thesis by (simp add: log2_loop.simps [of x l] log_2_table)
  qed
qed

lemma luaO_log2_eq: "luaO_log2 x = (if x = 0 then - 1 else int (ilog2 x))"
  by (simp add: luaO_log2_def log2_loop_eq) (simp add: log2_loop.simps [of 0] log_2_def)

lemma ceillog2_eq: "ceillog2 x = (if x \<le> 1 then 0 else Suc (ilog2 (x - 1)))"
  by (auto simp: ceillog2_def luaO_log2_eq)

lemma ceillog2_le: "0 < x \<Longrightarrow> x \<le> 2 ^ ceillog2 x"
  using ilog2_bounds [of "x - 1"] by (cases "x \<le> 1") (auto simp: ceillog2_eq)

lemma ceillog2_slice:
  assumes "0 < x"
  shows "ceillog2 x = lg \<longleftrightarrow> (if lg = 0 then x = 1 else 2 ^ (lg - 1) < x \<and> x \<le> 2 ^ lg)"
proof (cases "x = 1")
  case True
  then show ?thesis by (simp add: ceillog2_eq)
next
  case False
  with assms have x: "1 < x" by simp
  then have b: "2 ^ ilog2 (x - 1) \<le> x - 1" "x - 1 < 2 ^ Suc (ilog2 (x - 1))"
    using ilog2_bounds [of "x - 1"] by simp_all
  show ?thesis
  proof
    assume "ceillog2 x = lg"
    with x have lg: "lg = Suc (ilog2 (x - 1))" by (simp add: ceillog2_eq)
    have "2 ^ ilog2 (x - 1) < x" "x \<le> 2 ^ Suc (ilog2 (x - 1))" using b x by linarith+
    with lg show "if lg = 0 then x = 1 else 2 ^ (lg - 1) < x \<and> x \<le> 2 ^ lg" by simp
  next
    assume a: "if lg = 0 then x = 1 else 2 ^ (lg - 1) < x \<and> x \<le> 2 ^ lg"
    with x obtain m where m: "lg = Suc m" by (cases lg) auto
    with a have "2 ^ m \<le> x - 1" "x - 1 < 2 ^ Suc m" using x by auto
    then have "ilog2 (x - 1) = m" by (rule ilog2_eqI)
    with x m show "ceillog2 x = lg" by (simp add: ceillog2_eq)
  qed
qed

lemma int2fb_loop_spec:
  assumes "x < 2 ^ 32 - 1" "int2fb_loop x e = (y, e')"
  shows "\<exists>d. e' = e + d \<and> y < 16 \<and> x \<le> y * 2 ^ d \<and> y * 2 ^ d < x + 2 ^ d \<and> (0 < d \<longrightarrow> 8 \<le> y)"
  using assms
proof (induction x e rule: int2fb_loop.induct)
  case (1 x e)
  show ?case
  proof (cases "16 \<le> x")
    case False
    with "1.prems" show ?thesis by (auto simp: int2fb_loop.simps [of x e])
  next
    case True
    let ?x = "(x + 1) div 2"
    have w: "(x + 1) mod 2 ^ 32 div 2 = ?x" using "1.prems"(1) by simp
    then have "int2fb_loop ?x (Suc e) = (y, e')"
      using True "1.prems"(2) by (simp add: int2fb_loop.simps [of x e])
    moreover have "?x < 2 ^ 32 - 1" using "1.prems"(1) by simp
    ultimately obtain d where d: "e' = Suc e + d" "y < 16" "?x \<le> y * 2 ^ d" "y * 2 ^ d < ?x + 2 ^ d"
      "0 < d \<longrightarrow> 8 \<le> y" using "1.IH" [OF True] w by auto
    have "8 \<le> y"
    proof (cases "d = 0")
      case True
      with d(3) \<open>16 \<le> x\<close> show ?thesis by simp
    next
      case False
      with d(5) show ?thesis by simp
    qed
    moreover have "x \<le> y * 2 ^ Suc d" using d(3) by simp
    moreover have "y * 2 ^ Suc d < x + 2 ^ Suc d"
    proof -
      have "y * 2 ^ d + 1 \<le> ?x + 2 ^ d" using d(4) by simp
      then show ?thesis by simp
    qed
    ultimately show ?thesis using d(1,2) by (intro exI [of _ "Suc d"]) simp
  qed
qed

lemma or_8: "y < 8 \<Longrightarrow> or (push_bit 3 e) y = 8 * e + (y :: nat)"
proof -
  assume "y < 8"
  then have y: "take_bit 3 y = y" by (simp add: take_bit_nat_eq_self)
  have "and (push_bit 3 e) (take_bit 3 y) = 0"
    by (rule bit_eqI) (auto simp: bit_simps)
  then have "or (push_bit 3 e) y = push_bit 3 e + y"
    by (simp add: y disjunctive_add_eq_or)
  then show ?thesis by (simp add: push_bit_eq_mult)
qed

lemma and_mask_mod: "and x 7 = x mod 8" "and x 31 = x mod (32::nat)" for x :: nat
  using take_bit_eq_mask [of 3 x] take_bit_eq_mask [of 5 x]
  by (simp_all add: mask_eq_exp_minus_1 take_bit_eq_mod)

lemma luaO_fb2int_encoded:
  "y < 8 \<Longrightarrow> luaO_fb2int y = Some y"
  "8 \<le> y \<Longrightarrow> y < 16 \<Longrightarrow> e \<le> 30 \<Longrightarrow> luaO_fb2int (8 * Suc e + (y - 8)) = (if y * 2 ^ e < 2 ^ 31 then Some (y * 2 ^ e) else None)"
proof -
  show "luaO_fb2int y = Some y" if "y < 8"
    using that by (simp add: luaO_fb2int_def and_mask_mod drop_bit_eq_div)
  show "luaO_fb2int (8 * Suc e + (y - 8)) = (if y * 2 ^ e < 2 ^ 31 then Some (y * 2 ^ e) else None)" if "8 \<le> y" "y < 16" "e \<le> 30"
  proof -
    define z where "z = y - 8"
    have z: "z < 8" "y - 8 = z" "z + 8 = y" using that by (simp_all add: z_def)
    have "(8 * Suc e + z) div 8 = Suc e" "(8 * Suc e + z) mod 8 = z"
      using z(1) by (simp_all only: div_mult_self4 mod_mult_self4 div_less mod_less)
    with that z show ?thesis
      by (simp add: luaO_fb2int_def and_mask_mod drop_bit_eq_div push_bit_eq_mult Let_def del: mult_Suc_right)
  qed
qed

lemma int2fb_loop_rounds:
  "x \<le> 15 * 2 ^ k \<Longrightarrow> x < 2 ^ 32 - 1 \<Longrightarrow> snd (int2fb_loop x e) \<le> e + k"
proof (induction k arbitrary: x e)
  case 0
  then show ?case by (simp add: int2fb_loop.simps [of x])
next
  case (Suc k)
  show ?case
  proof (cases "x \<ge> 16")
    case True
    have m: "(x + 1) mod 2 ^ 32 = x + 1" using Suc.prems(2) by simp
    have "(x + 1) div 2 \<le> 15 * 2 ^ k" "(x + 1) div 2 < 2 ^ 32 - 1" using Suc.prems by simp_all
    then have "snd (int2fb_loop ((x + 1) div 2) (Suc e)) \<le> Suc e + k" by (rule Suc.IH)
    then show ?thesis using True m by (simp add: int2fb_loop.simps [of x])
  next
    case False
    then show ?thesis by (simp add: int2fb_loop.simps [of x])
  qed
qed

text \<open>
  A size survives the floating point byte rounded up, by at most a seventh, when the result is an \<^verbatim>\<open>int\<close>: up to 15 * 2^27.
\<close>

lemma fb2int_int2fb:
  assumes "x < 2 ^ 32 - 1"
  shows "if x \<le> 15 * 2 ^ 27 then \<exists>y. luaO_fb2int (luaO_int2fb x) = Some y \<and> x \<le> y \<and> 7 * y \<le> 8 * x
    else luaO_fb2int (luaO_int2fb x) = None"
proof -
  obtain y e where ye: "int2fb_loop x 0 = (y, e)" by (cases "int2fb_loop x 0")
  from int2fb_loop_spec [OF assms this] have
    y: "y < 16" "x \<le> y * 2 ^ e" "y * 2 ^ e < x + 2 ^ e" "0 < e \<longrightarrow> 8 \<le> y" by auto
  show ?thesis
  proof (cases "y < 8")
    case True
    with y have "e = 0" by auto
    with True y ye show ?thesis by (simp add: luaO_int2fb_def luaO_fb2int_encoded)
  next
    case False
    have "e \<le> 29"
    proof (rule ccontr)
      assume "\<not> e \<le> 29"
      then have "(2::nat) ^ 30 \<le> 2 ^ e" by (intro power_increasing) auto
      then have "(1073741824::nat) \<le> 2 ^ e" by simp
      moreover have "8 * 2 ^ e \<le> y * 2 ^ e" using False by (intro mult_right_mono) simp_all
      moreover have "x < 4294967295" using assms by simp
      ultimately show False using y(3) by linarith
    qed
    then have v: "luaO_fb2int (luaO_int2fb x) = (if y * 2 ^ e < 2 ^ 31 then Some (y * 2 ^ e) else None)"
      using False y(1) ye luaO_fb2int_encoded(2) [of y e]
      by (simp add: luaO_int2fb_def or_8)
    have le: "8 * 2 ^ e \<le> y * 2 ^ e" "y * 2 ^ e \<le> 15 * 2 ^ e" using False y(1) by (intro mult_right_mono; simp)+
    show ?thesis
    proof (cases "x \<le> 15 * 2 ^ 27")
      case True
      then have "e \<le> 27" using int2fb_loop_rounds [OF True assms, of 0] ye by simp
      then have "(2::nat) ^ e \<le> 2 ^ 27" by (intro power_increasing) simp_all
      then have "15 * 2 ^ e \<le> (15 * 2 ^ 27 :: nat)" by simp
      also have "15 * 2 ^ 27 < (2 ^ 31 :: nat)" by simp
      finally have "y * 2 ^ e < 2 ^ 31" using le(2) by (rule le_less_trans [rotated])
      moreover have "7 * (y * 2 ^ e) \<le> 8 * x" using y(3) le(1) by linarith
      ultimately show ?thesis using v y(2) True by simp
    next
      case big: False
      have "\<not> e \<le> 27"
      proof
        assume "e \<le> 27"
        then have "(2::nat) ^ e \<le> 2 ^ 27" by (intro power_increasing) simp_all
        then have "15 * 2 ^ e \<le> (15 * 2 ^ 27 :: nat)" by simp
        then show False using le(2) y(2) big by linarith
      qed
      then have "(2::nat) ^ 28 \<le> 2 ^ e" by (intro power_increasing) simp_all
      then have "(2 ^ 31 :: nat) \<le> 8 * 2 ^ e" by simp
      then have "\<not> y * 2 ^ e < 2 ^ 31" using le(1) by linarith
      then show ?thesis using v big by simp
    qed
  qed
qed

lemma luaO_chunkid_bounded:
  assumes "18 \<le> bufflen"
  shows "length (luaO_chunkid source bufflen) < bufflen"
  using assms by (auto simp: luaO_chunkid_def takeLast_def Let_def split: list.splits)

end
