(* ===== verification/Lua_String.thy ===== *)
theory Lua_String
  imports Lua_Object "HOL-Library.Multiset"
begin

unbundle bit_operations_syntax

text \<open>
  The string table of \<^verbatim>\<open>lstring.c\<close>: \<^verbatim>\<open>luaS_resize\<close>, \<^verbatim>\<open>newlstr\<close> and
  \<^verbatim>\<open>luaS_newlstr\<close> over a vector of collision chains. A chain element carries the address
  that the allocator returned for it. The collector is not modelled: no string of the table is
  dead, and \<open>gcstate == GCSsweepstring\<close> is the argument \<open>sweeping\<close> of the resize.
  The lemmas show that the table interns: equal contents get one address, different contents
  different addresses, across insertions and resizes.
\<close>

record TString =
  ts_addr :: addr
  ts_hash :: "32 word"
  ts_str :: bytes

record stringtable =
  st_hash :: "TString list list"
  st_nuse :: nat

definition st_size :: "stringtable \<Rightarrow> nat" where
  "st_size tb = length (st_hash tb)"

definition lmod :: "32 word \<Rightarrow> nat \<Rightarrow> nat" where
  "lmod s sz = unat (s AND (of_nat sz - 1))"

fun hash_loop :: "bytes \<Rightarrow> nat \<Rightarrow> nat \<Rightarrow> 32 word \<Rightarrow> 32 word" where
  "hash_loop s k l1 h =
     (if l1 \<ge> Suc k
      then hash_loop s k (l1 - Suc k)
             (h XOR ((push_bit 5 h) + (drop_bit 2 h) + ucast (s ! (l1 - 1))))
      else h)"

declare hash_loop.simps [simp del]

definition luaS_hash :: "bytes \<Rightarrow> 32 word" where
  "luaS_hash s = hash_loop s (length s div 32) (length s) (of_nat (length s))"

text \<open>\<open>p->next = newhash[h1]; newhash[h1] = p\<close> for every string of every chain.\<close>

definition rechain :: "nat \<Rightarrow> TString list list \<Rightarrow> TString \<Rightarrow> TString list list" where
  "rechain newsize nh p = (let h1 = lmod (ts_hash p) newsize in nh[h1 := p # nh ! h1])"

definition luaS_resize :: "bool \<Rightarrow> stringtable \<Rightarrow> nat \<Rightarrow> stringtable" where
  "luaS_resize sweeping tb newsize =
     (if sweeping then tb
      else tb\<lparr>st_hash := foldl (foldl (rechain newsize)) (replicate newsize []) (st_hash tb)\<rparr>)"

definition MAX_INT :: nat where
  "MAX_INT = 2 ^ 31 - 3"

definition newlstr :: "bool \<Rightarrow> stringtable \<Rightarrow> addr \<Rightarrow> bytes \<Rightarrow> 32 word \<Rightarrow> rt_error + TString \<times> stringtable" where
  "newlstr sweeping tb a s h =
     (if length s + 1 > 2 ^ 64 - 3 - 24
      then Inl (RunError (str ''memory allocation error: block too big''))
      else
        let ts = \<lparr>ts_addr = a, ts_hash = h, ts_str = s\<rparr>;
            i = lmod h (st_size tb);
            tb1 = tb\<lparr>st_hash := (st_hash tb)[i := ts # st_hash tb ! i], st_nuse := st_nuse tb + 1\<rparr>
        in Inr (ts, if st_nuse tb1 > st_size tb1 \<and> st_size tb1 \<le> MAX_INT div 2
                    then luaS_resize sweeping tb1 (st_size tb1 * 2) else tb1))"

definition luaS_newlstr :: "bool \<Rightarrow> stringtable \<Rightarrow> addr \<Rightarrow> bytes \<Rightarrow> rt_error + TString \<times> stringtable" where
  "luaS_newlstr sweeping tb a s =
     (let h = luaS_hash s in
      case find (\<lambda>ts. length (ts_str ts) = length s \<and> ts_str ts = s) (st_hash tb ! lmod h (st_size tb)) of
        Some ts \<Rightarrow> Inr (ts, tb)
      | None \<Rightarrow> newlstr sweeping tb a s h)"

subsection \<open>The invariant\<close>

definition st_entries :: "stringtable \<Rightarrow> TString list" where
  "st_entries tb = concat (st_hash tb)"

definition st_inv :: "stringtable \<Rightarrow> bool" where
  "st_inv tb \<longleftrightarrow>
     (\<exists>k \<le> 31. st_size tb = 2 ^ k) \<and>
     (\<forall>i < st_size tb. \<forall>ts \<in> set (st_hash tb ! i). ts_hash ts = luaS_hash (ts_str ts) \<and> lmod (ts_hash ts) (st_size tb) = i) \<and>
     distinct (map ts_str (st_entries tb)) \<and>
     distinct (map ts_addr (st_entries tb)) \<and>
     st_nuse tb = length (st_entries tb)"

lemma lmod_less: "k \<le> 31 \<Longrightarrow> lmod s (2 ^ k) < 2 ^ k"
proof -
  assume k: "k \<le> 31"
  have "(of_nat (2 ^ k) - 1 :: 32 word) = mask k" by (simp add: mask_eq_exp_minus_1)
  then have "lmod s (2 ^ k) = unat (take_bit k s)"
    by (simp add: lmod_def take_bit_eq_mask)
  also have "\<dots> = take_bit k (unat s)" by (simp add: unsigned_take_bit_eq)
  finally show ?thesis by simp
qed

lemma mset_concat_update:
  assumes "i < length xss"
  shows "mset (concat (xss[i := x # xss ! i])) = add_mset x (mset (concat xss))"
proof -
  have "concat (xss[i := x # xss ! i]) = concat (take i xss) @ (x # xss ! i) @ concat (drop (Suc i) xss)"
    using assms by (simp add: upd_conv_take_nth_drop)
  moreover have "concat xss = concat (take i xss) @ xss ! i @ concat (drop (Suc i) xss)"
    using assms by (metis append_take_drop_id concat.simps(2) concat_append Cons_nth_drop_Suc)
  ultimately show ?thesis by simp
qed

definition well_chained :: "nat \<Rightarrow> TString list list \<Rightarrow> bool" where
  "well_chained n nh \<longleftrightarrow> length nh = n \<and> (\<forall>i < n. \<forall>ts \<in> set (nh ! i). lmod (ts_hash ts) n = i)"

lemma well_chained_add:
  assumes "well_chained n nh" "lmod (ts_hash ts) n < n" "j = lmod (ts_hash ts) n"
  shows "well_chained n (nh[j := ts # nh ! j])"
  using assms by (auto simp: well_chained_def nth_list_update)

lemma rechain_list:
  assumes "well_chained (2 ^ k) nh" "k \<le> 31"
  shows "well_chained (2 ^ k) (foldl (rechain (2 ^ k)) nh ps) \<and>
         mset (concat (foldl (rechain (2 ^ k)) nh ps)) = mset (concat nh) + mset ps"
  using assms(1)
proof (induction ps arbitrary: nh)
  case Nil
  then show ?case by simp
next
  case (Cons p ps)
  let ?nh = "rechain (2 ^ k) nh p"
  note l = lmod_less [OF assms(2), of "ts_hash p"]
  have "length nh = 2 ^ k" using Cons.prems by (simp add: well_chained_def)
  then have "well_chained (2 ^ k) ?nh \<and> mset (concat ?nh) = add_mset p (mset (concat nh))"
    using Cons.prems l by (simp add: rechain_def Let_def well_chained_add mset_concat_update del: mset_concat)
  with Cons.IH [of ?nh] show ?case by (simp del: mset_concat)
qed

lemma rechain_lists:
  assumes "well_chained (2 ^ k) nh" "k \<le> 31"
  shows "well_chained (2 ^ k) (foldl (foldl (rechain (2 ^ k))) nh pss) \<and>
         mset (concat (foldl (foldl (rechain (2 ^ k))) nh pss)) = mset (concat nh) + mset (concat pss)"
  using assms(1)
proof (induction pss arbitrary: nh)
  case Nil
  then show ?case by simp
next
  case (Cons ps pss)
  with rechain_list [OF Cons.prems assms(2), of ps] show ?case by (simp del: mset_concat) 
qed

text \<open>A resize to another power of two keeps the strings and files them under the new size.\<close>

lemma luaS_resize_spec:
  assumes "k \<le> 31"
  shows "well_chained (2 ^ k) (st_hash (luaS_resize False tb (2 ^ k)))"
    and "mset (st_entries (luaS_resize False tb (2 ^ k))) = mset (st_entries tb)"
    and "st_nuse (luaS_resize sw tb n) = st_nuse tb"
proof -
  have "well_chained (2 ^ k) (replicate (2 ^ k) [])" by (simp add: well_chained_def)
  from rechain_lists [OF this assms]
  show "well_chained (2 ^ k) (st_hash (luaS_resize False tb (2 ^ k)))"
    "mset (st_entries (luaS_resize False tb (2 ^ k))) = mset (st_entries tb)"
    by (simp_all add: luaS_resize_def st_entries_def del: mset_concat)
  show "st_nuse (luaS_resize sw tb n) = st_nuse tb" by (simp add: luaS_resize_def)
qed

lemma st_inv_alt:
  "st_inv tb \<longleftrightarrow>
     (\<exists>k \<le> 31. st_size tb = 2 ^ k \<and> well_chained (2 ^ k) (st_hash tb)) \<and>
     (\<forall>ts \<in># mset (st_entries tb). ts_hash ts = luaS_hash (ts_str ts)) \<and>
     distinct (map ts_str (st_entries tb)) \<and> distinct (map ts_addr (st_entries tb)) \<and>
     st_nuse tb = size (mset (st_entries tb))"
  (is "_ \<longleftrightarrow> ?rhs")
proof -
  have e: "set (st_entries tb) = (\<Union>i < st_size tb. set (st_hash tb ! i))"
    unfolding st_entries_def st_size_def by (auto simp: set_conv_nth [of "st_hash tb"])
  show ?thesis
    unfolding st_inv_def well_chained_def by (auto simp: e) (auto simp: st_size_def, metis)
qed

lemma distinct_map_mset: "mset xs = mset ys \<Longrightarrow> distinct (map f xs) \<longleftrightarrow> distinct (map f ys)"
  by (metis mset_eq_imp_distinct_iff mset_map)

lemma st_inv_resize:
  assumes "st_inv tb" "k \<le> 31"
  shows "st_inv (luaS_resize sw tb (2 ^ k))"
proof (cases sw)
  case True
  with assms(1) show ?thesis by (simp add: luaS_resize_def)
next
  case False
  let ?tb = "luaS_resize False tb (2 ^ k)"
  note spec = luaS_resize_spec [OF assms(2)]
  have "st_size ?tb = 2 ^ k" using spec(1) [of tb] by (simp add: well_chained_def st_size_def)
  with assms spec(1) [of tb] spec(3) [of False tb] spec(2) [of tb]
    distinct_map_mset [OF spec(2) [of tb], of ts_str] distinct_map_mset [OF spec(2) [of tb], of ts_addr]
  show ?thesis using False unfolding st_inv_alt by auto
qed

lemma st_entries_resize: "k \<le> 31 \<Longrightarrow> mset (st_entries (luaS_resize sw tb (2 ^ k))) = mset (st_entries tb)"
  using luaS_resize_spec(2) by (cases sw) (auto simp: luaS_resize_def)

subsection \<open>Interning\<close>

lemma newlstr_entries:
  assumes "st_inv tb" "newlstr sw tb a s h = Inr (ts, tb')"
  shows "ts = \<lparr>ts_addr = a, ts_hash = h, ts_str = s\<rparr>"
    and "mset (st_entries tb') = add_mset ts (mset (st_entries tb))"
proof -
  show t: "ts = \<lparr>ts_addr = a, ts_hash = h, ts_str = s\<rparr>"
    using assms(2) by (simp add: newlstr_def Let_def split: if_splits)
  obtain k where k: "k \<le> 31" "st_size tb = 2 ^ k" using assms(1) by (auto simp: st_inv_def)
  define i where "i = lmod h (st_size tb)"
  define tb1 where "tb1 = tb\<lparr>st_hash := (st_hash tb)[i := ts # st_hash tb ! i], st_nuse := st_nuse tb + 1\<rparr>"
  have "i < st_size tb" using lmod_less [OF k(1)] by (simp add: i_def k(2))
  then have m: "mset (st_entries tb1) = add_mset ts (mset (st_entries tb))"
    by (simp add: tb1_def st_entries_def st_size_def mset_concat_update del: mset_concat)
  have tb': "tb' = (if st_nuse tb1 > st_size tb1 \<and> st_size tb1 \<le> MAX_INT div 2
                    then luaS_resize sw tb1 (st_size tb1 * 2) else tb1)"
    using assms(2) t by (auto simp: newlstr_def Let_def tb1_def i_def split: if_splits)
  have sz: "st_size tb1 * 2 = 2 ^ Suc k" by (simp add: tb1_def st_size_def k(2) [unfolded st_size_def])
  show "mset (st_entries tb') = add_mset ts (mset (st_entries tb))"
  proof (cases "st_nuse tb1 > st_size tb1 \<and> st_size tb1 \<le> MAX_INT div 2")
    case True
    then have "(2::nat) ^ k \<le> MAX_INT div 2" using sz by simp
    then have "k \<noteq> 31" by (auto simp: MAX_INT_def)
    with k(1) have "Suc k \<le> 31" by simp
    from st_entries_resize [OF this] True m show ?thesis unfolding tb' sz by simp
  next
    case False
    with m tb' show ?thesis by simp
  qed
qed

lemma newlstr_chained:
  assumes "st_inv tb" "newlstr sw tb a s (luaS_hash s) = Inr (ts, tb')"
  shows "\<exists>k \<le> 31. st_size tb' = 2 ^ k \<and> well_chained (2 ^ k) (st_hash tb')"
    and "st_nuse tb' = Suc (st_nuse tb)"
proof -
  obtain k where k: "k \<le> 31" "st_size tb = 2 ^ k" "well_chained (2 ^ k) (st_hash tb)"
    using assms(1) by (auto simp: st_inv_alt)
  define i where "i = lmod (luaS_hash s) (st_size tb)"
  define t where "t = \<lparr>ts_addr = a, ts_hash = luaS_hash s, ts_str = s\<rparr>"
  define tb1 where "tb1 = tb\<lparr>st_hash := (st_hash tb)[i := t # st_hash tb ! i], st_nuse := st_nuse tb + 1\<rparr>"
  have tb': "tb' = (if st_nuse tb1 > st_size tb1 \<and> st_size tb1 \<le> MAX_INT div 2
                    then luaS_resize sw tb1 (st_size tb1 * 2) else tb1)"
    using assms(2) by (auto simp: newlstr_def Let_def tb1_def t_def i_def split: if_splits)
  have c: "well_chained (2 ^ k) (st_hash tb1)" "st_size tb1 = 2 ^ k" "st_nuse tb1 = Suc (st_nuse tb)"
    using k lmod_less [OF k(1), of "luaS_hash s"]
    by (auto simp: tb1_def t_def i_def st_size_def intro!: well_chained_add)
  show "st_nuse tb' = Suc (st_nuse tb)" using c(3) by (simp add: tb' luaS_resize_def)
  show "\<exists>k \<le> 31. st_size tb' = 2 ^ k \<and> well_chained (2 ^ k) (st_hash tb')"
  proof (cases "st_nuse tb1 > st_size tb1 \<and> st_size tb1 \<le> MAX_INT div 2 \<and> \<not> sw")
    case True
    then have "(2::nat) ^ k \<le> MAX_INT div 2" using c(2) by simp
    then have "k \<noteq> 31" by (auto simp: MAX_INT_def)
    with k(1) have k': "Suc k \<le> 31" by simp
    have "tb' = luaS_resize False tb1 (2 ^ Suc k)" using True c(2) by (simp add: tb' mult.commute)
    with luaS_resize_spec(1) [OF k', of tb1] k' show ?thesis
      by (intro exI [of _ "Suc k"]) (simp add: st_size_def well_chained_def)
  next
    case False
    then have "tb' = tb1" by (auto simp: tb' luaS_resize_def)
    with c k(1) show ?thesis by auto
  qed
qed

lemma find_in_chain:
  assumes "st_inv tb"
  shows "find (\<lambda>ts. length (ts_str ts) = length s \<and> ts_str ts = s) (st_hash tb ! lmod (luaS_hash s) (st_size tb)) = None
           \<longleftrightarrow> s \<notin> ts_str ` set (st_entries tb)"
proof -
  obtain k where k: "k \<le> 31" "st_size tb = 2 ^ k" "well_chained (2 ^ k) (st_hash tb)"
    using assms by (auto simp: st_inv_alt)
  note l = lmod_less [OF k(1), of "luaS_hash s"]
  have h: "ts_hash ts = luaS_hash (ts_str ts)" if "ts \<in> set (st_entries tb)" for ts
    using assms that by (auto simp: st_inv_alt)
  have sub: "set (st_hash tb ! lmod (luaS_hash s) (st_size tb)) \<subseteq> set (st_entries tb)"
    using l k(2) by (auto simp: st_entries_def st_size_def intro!: bexI [OF _ nth_mem])
  have own: "ts \<in> set (st_hash tb ! lmod (ts_hash ts) (st_size tb))" if "ts \<in> set (st_entries tb)" for ts
  proof -
    from that obtain i where "i < st_size tb" "ts \<in> set (st_hash tb ! i)"
      by (auto simp: st_entries_def st_size_def set_conv_nth [of "st_hash tb"])
    with k show ?thesis by (auto simp: well_chained_def)
  qed
  show ?thesis using sub own h by (auto simp: find_None_iff) (metis (no_types, lifting))?
qed

text \<open>
  The interning law: the returned string has the given contents, it is in the table, whatever
  was in the table stays there under its address, and the invariant is kept; so two strings of
  the table have the same address exactly when they have the same contents.
\<close>

lemma luaS_newlstr_interns:
  assumes "st_inv tb" "a \<notin> ts_addr ` set (st_entries tb)"
    and "luaS_newlstr sw tb a s = Inr (ts, tb')"
  shows "st_inv tb' \<and> ts \<in> set (st_entries tb') \<and> ts_str ts = s \<and>
         set (st_entries tb) \<subseteq> set (st_entries tb') \<and>
         (\<forall>x \<in> set (st_entries tb'). ts_addr x = ts_addr ts \<longleftrightarrow> ts_str x = s)"
proof (cases "find (\<lambda>ts. length (ts_str ts) = length s \<and> ts_str ts = s) (st_hash tb ! lmod (luaS_hash s) (st_size tb))")
  case (Some t)
  then have e: "ts = t" "tb' = tb" using assms(3) by (simp_all add: luaS_newlstr_def Let_def)
  obtain k where k: "k \<le> 31" "st_size tb = 2 ^ k" using assms(1) by (auto simp: st_inv_def)
  from Some have t: "t \<in> set (st_hash tb ! lmod (luaS_hash s) (st_size tb))" "ts_str t = s"
    by (auto simp: find_Some_iff)
  then have "t \<in> set (st_entries tb)"
    using lmod_less [OF k(1), of "luaS_hash s"] k(2)
    by (auto simp: st_entries_def st_size_def intro!: bexI [OF _ nth_mem])
  moreover have "inj_on ts_str (set (st_entries tb))" "inj_on ts_addr (set (st_entries tb))"
    using assms(1) by (simp_all add: st_inv_def distinct_map)
  ultimately show ?thesis using assms(1) t(2) e by (auto simp: inj_on_def)
next
  case None
  then have n: "newlstr sw tb a s (luaS_hash s) = Inr (ts, tb')"
    using assms(3) by (simp add: luaS_newlstr_def Let_def)
  note ent = newlstr_entries [OF assms(1) n] and ch = newlstr_chained [OF assms(1) n]
  have fresh: "s \<notin> ts_str ` set (st_entries tb)" using None find_in_chain [OF assms(1)] by simp
  have d: "distinct (map f (st_entries tb'))"
    if "distinct (map f (st_entries tb))" "f ts \<notin> f ` set (st_entries tb)" for f :: "TString \<Rightarrow> 'b"
  proof -
    have "mset (st_entries tb') = mset (ts # st_entries tb)" using ent(2) by simp
    from distinct_map_mset [OF this, of f] that show ?thesis by simp
  qed
  have "st_inv tb'"
    unfolding st_inv_alt
    using ch ent assms(1,2) fresh d [of ts_str] d [of ts_addr] by (auto simp: st_inv_alt)
  moreover have "set (st_entries tb') = insert ts (set (st_entries tb))"
    using ent(2) by (metis set_mset_add_mset_insert set_mset_mset)
  ultimately show ?thesis using ent(1) assms(2) fresh by auto
qed

end
