(* ===== verification/Lua_Table.thy ===== *)
theory Lua_Table
  imports Lua_String
begin

text \<open>
  The hash tables of \<^verbatim>\<open>ltable.c\<close>: an array part and a node vector that is a chained
  scatter table with Brent's variation. A pointer to a value of the table is a \<open>slot\<close>, the
  null object is \<open>None\<close>. Loops along a collision chain take the number of nodes as fuel
  and report \<open>OutOfFuel\<close> on a cyclic chain; in theory \<open>Lua_Table_Inv\<close> that never happens.
  The recursion \<open>luaH_set\<close> -- \<open>newkey\<close> -- \<open>rehash\<close> -- \<open>resize\<close> -- \<open>luaH_set\<close> is
  open: every function takes the operation \<open>reh\<close> that stands for "grow and retry", and
  \<open>grow\<close> ties the knot with a bound on the nesting; one level is enough
  (theory \<open>Lua_Table_Rehash\<close>).
\<close>

definition sum_bind :: "'e + 'a \<Rightarrow> ('a \<Rightarrow> 'e + 'b) \<Rightarrow> 'e + 'b" where
  "sum_bind m f = (case m of Inl e \<Rightarrow> Inl e | Inr a \<Rightarrow> f a)"

lemma sum_bind_simps [simp]: "sum_bind (Inl e) f = Inl e" "sum_bind (Inr a) f = f a"
  by (simp_all add: sum_bind_def)

lemma sum_bind_Inr_iff: "sum_bind m f = Inr b \<longleftrightarrow> (\<exists>a. m = Inr a \<and> f a = Inr b)"
  by (simp add: sum_bind_def split: sum.split)

subsection \<open>Sizes, nodes and slots\<close>

definition MAXBITS :: nat where "MAXBITS = 26"

definition MAXASIZE :: nat where "MAXASIZE = 2 ^ MAXBITS"

definition twoto :: "nat \<Rightarrow> nat" where "twoto x = 2 ^ x"

definition sizenode :: "Table \<Rightarrow> nat" where "sizenode t = twoto (t_lsizenode t)"

definition sizearray :: "Table \<Rightarrow> nat" where "sizearray t = length (t_array t)"

definition dummynode :: Node where
  "dummynode = \<lparr>i_val = LNil, i_key = LNil, i_next = None\<rparr>"

definition nodes :: "Table \<Rightarrow> Node list" where
  "nodes t = (case t_node t of None \<Rightarrow> [dummynode] | Some ns \<Rightarrow> ns)"

definition gnode :: "Table \<Rightarrow> nat \<Rightarrow> Node" where "gnode t i = nodes t ! i"

definition upd_node :: "Table \<Rightarrow> nat \<Rightarrow> (Node \<Rightarrow> Node) \<Rightarrow> Table" where
  "upd_node t i f = t\<lparr>t_node := map_option (\<lambda>ns. ns[i := f (ns ! i)]) (t_node t)\<rparr>"

datatype slot = SArray nat | SNode nat

fun slot_val :: "Table \<Rightarrow> slot \<Rightarrow> TValue" where
  "slot_val t (SArray i) = t_array t ! i"
| "slot_val t (SNode i) = i_val (gnode t i)"

fun slot_set :: "Table \<Rightarrow> slot \<Rightarrow> TValue \<Rightarrow> Table" where
  "slot_set t (SArray i) v = t\<lparr>t_array := (t_array t)[i := v]\<rparr>"
| "slot_set t (SNode i) v = upd_node t i (\<lambda>n. n\<lparr>i_val := v\<rparr>)"

subsection \<open>Hashing\<close>

definition hashmod :: "Table \<Rightarrow> 32 word \<Rightarrow> nat" where
  "hashmod t n = unat n mod (or (sizenode t - 1) 1)"

definition hashpow2 :: "Table \<Rightarrow> 32 word \<Rightarrow> nat" where
  "hashpow2 t n = lmod n (sizenode t)"

definition hashstr :: "Table \<Rightarrow> bytes \<Rightarrow> nat" where
  "hashstr t s = hashpow2 t (luaS_hash s)"

definition hashboolean :: "Table \<Rightarrow> bool \<Rightarrow> nat" where
  "hashboolean t b = hashpow2 t (if b then 1 else 0)"

definition hashpointer :: "Table \<Rightarrow> addr \<Rightarrow> nat" where
  "hashpointer t p = hashmod t (of_nat p)"

definition hashnum :: "Table \<Rightarrow> lua_Number \<Rightarrow> nat" where
  "hashnum t n =
     (if luai_numeq n 0 then 0
      else hashmod t (ucast n + ucast (drop_bit 32 n)))"

fun mainposition :: "Table \<Rightarrow> TValue \<Rightarrow> nat" where
  "mainposition t (LNumber n) = hashnum t n"
| "mainposition t (LString s) = hashstr t s"
| "mainposition t (LBoolean b) = hashboolean t b"
| "mainposition t (LLightUserdata p) = hashpointer t p"
| "mainposition t v = hashpointer t (case gcaddr v of Some p \<Rightarrow> p | None \<Rightarrow> 0)"

fun arrayindex :: "TValue \<Rightarrow> int" where
  "arrayindex (LNumber n) = (let k = lua_number2int n in if luai_numeq (cast_num k) n then k else - 1)"
| "arrayindex _ = - 1"

subsection \<open>Lookup\<close>

fun chain_find :: "(Node \<Rightarrow> bool) \<Rightarrow> Table \<Rightarrow> nat \<Rightarrow> nat \<Rightarrow> rt_error + nat option" where
  "chain_find P t 0 n = Inl OutOfFuel"
| "chain_find P t (Suc f) n =
     (if P (gnode t n) then Inr (Some n)
      else case i_next (gnode t n) of None \<Rightarrow> Inr None | Some m \<Rightarrow> chain_find P t f m)"

definition find_slot :: "(Node \<Rightarrow> bool) \<Rightarrow> Table \<Rightarrow> nat \<Rightarrow> rt_error + slot option" where
  "find_slot P t n = sum_bind (chain_find P t (sizenode t) n) (\<lambda>r. Inr (map_option SNode r))"

definition luaH_getnum :: "Table \<Rightarrow> int \<Rightarrow> rt_error + slot option" where
  "luaH_getnum t key =
     (if (word_of_int (key - 1) :: 32 word) < of_nat (sizearray t)
      then Inr (Some (SArray (nat (key - 1))))
      else let nk = cast_num key in
        find_slot (\<lambda>n. case i_key n of LNumber m \<Rightarrow> luai_numeq m nk | _ \<Rightarrow> False) t (hashnum t nk))"

definition luaH_getstr :: "Table \<Rightarrow> bytes \<Rightarrow> rt_error + slot option" where
  "luaH_getstr t key = find_slot (\<lambda>n. i_key n = LString key) t (hashstr t key)"

definition luaH_get_default :: "Table \<Rightarrow> TValue \<Rightarrow> rt_error + slot option" where
  "luaH_get_default t key = find_slot (\<lambda>n. luaO_rawequalObj (i_key n) key) t (mainposition t key)"

fun luaH_get :: "Table \<Rightarrow> TValue \<Rightarrow> rt_error + slot option" where
  "luaH_get t LNil = Inr None"
| "luaH_get t (LString s) = luaH_getstr t s"
| "luaH_get t (LNumber n) =
     (let k = lua_number2int n in
      if luai_numeq (cast_num k) n then luaH_getnum t k else luaH_get_default t (LNumber n))"
| "luaH_get t key = luaH_get_default t key"

text \<open>The value a lookup delivers: that of the slot, or \<open>luaO_nilobject\<close>.\<close>

definition slot_value :: "Table \<Rightarrow> slot option \<Rightarrow> TValue" where
  "slot_value t s = (case s of None \<Rightarrow> LNil | Some s \<Rightarrow> slot_val t s)"

subsection \<open>Traversal\<close>

definition findindex :: "Table \<Rightarrow> TValue \<Rightarrow> rt_error + int" where
  "findindex t key =
     (if ttisnil key then Inr (- 1)
      else let i = arrayindex key in
        if 0 < i \<and> i \<le> int (sizearray t) then Inr (i - 1)
        else sum_bind
          (chain_find (\<lambda>n. luaO_rawequalObj (i_key n) key \<or>
               (case i_key n of LDeadKey p \<Rightarrow> 4 \<le> ttype key \<and> gcaddr key = Some p | _ \<Rightarrow> False))
             t (sizenode t) (mainposition t key))
          (\<lambda>r. case r of Some n \<Rightarrow> Inr (int n + int (sizearray t))
                       | None \<Rightarrow> Inl (RunError (str ''invalid key to '' @ quoted ''next''))))"

fun next_array :: "Table \<Rightarrow> nat \<Rightarrow> nat \<Rightarrow> (TValue \<times> TValue) option" where
  "next_array t i 0 = None"
| "next_array t i (Suc c) =
     (if \<not> ttisnil (t_array t ! i) then Some (LNumber (cast_num (int i + 1)), t_array t ! i)
      else next_array t (Suc i) c)"

fun next_node :: "Table \<Rightarrow> nat \<Rightarrow> nat \<Rightarrow> (TValue \<times> TValue) option" where
  "next_node t i 0 = None"
| "next_node t i (Suc c) =
     (if \<not> ttisnil (i_val (gnode t i)) then Some (i_key (gnode t i), i_val (gnode t i))
      else next_node t (Suc i) c)"

definition luaH_next :: "Table \<Rightarrow> TValue \<Rightarrow> rt_error + (TValue \<times> TValue) option" where
  "luaH_next t key =
     sum_bind (findindex t key) (\<lambda>i0.
       let i = nat (i0 + 1) in
       case next_array t i (sizearray t - i) of
         Some kv \<Rightarrow> Inr (Some kv)
       | None \<Rightarrow> let j = max i (sizearray t) - sizearray t in Inr (next_node t j (sizenode t - j)))"

subsection \<open>Counting keys\<close>

function computesizes_loop :: "nat list \<Rightarrow> nat \<Rightarrow> nat \<Rightarrow> nat \<Rightarrow> nat \<Rightarrow> nat \<Rightarrow> nat \<times> nat" where
  "computesizes_loop nums narray i a na n =
     (let twotoi = 2 ^ i in
      if twotoi div 2 < narray then
        let a' = (if nums ! i > 0 then a + nums ! i else a);
            big = (nums ! i > 0 \<and> a' > twotoi div 2);
            n' = (if big then twotoi else n);
            na' = (if big then a' else na)
        in if a' = narray then (n', na') else computesizes_loop nums narray (Suc i) a' na' n'
      else (n, na))"
  by pat_completeness auto
termination
proof (relation "measure (\<lambda>(nums, narray, i, a, na, n). Suc narray - i)")
  show "wf (measure (\<lambda>(nums, narray, i, a, na, n). Suc narray - i))" by simp
next
  fix nums :: "nat list" and narray i a na n twotoi a' big n' na' :: nat
  fix b :: bool
  assume "twotoi = 2 ^ i" "twotoi div 2 < narray"
  moreover have "i \<le> 2 ^ i div 2 + 1"
    using less_exp [of "i - 1"] by (cases i) simp_all
  ultimately show "((nums, narray, Suc i, a', na', n'), nums, narray, i, a, na, n)
      \<in> measure (\<lambda>(nums, narray, i, a, na, n). Suc narray - i)"
    by simp
qed

declare computesizes_loop.simps [simp del]

text \<open>Returns the new size of the array part and the number of keys that go there.\<close>

definition computesizes :: "nat list \<Rightarrow> nat \<Rightarrow> nat \<times> nat" where
  "computesizes nums narray = computesizes_loop nums narray 0 0 0 0"

definition countint :: "TValue \<Rightarrow> nat list \<Rightarrow> nat list \<times> nat" where
  "countint key nums =
     (let k = arrayindex key in
      if 0 < k \<and> k \<le> int MAXASIZE
      then (let lg = ceillog2 (nat k) in (nums[lg := nums ! lg + 1], 1))
      else (nums, 0))"

function count_slice :: "TValue list \<Rightarrow> nat \<Rightarrow> nat \<Rightarrow> nat \<Rightarrow> nat \<times> nat" where
  "count_slice arr i lim lc =
     (if i \<le> lim
      then count_slice arr (Suc i) lim (if \<not> ttisnil (arr ! (i - 1)) then lc + 1 else lc)
      else (i, lc))"
  by pat_completeness auto
termination by (relation "measure (\<lambda>(arr, i, lim, lc). Suc lim - i)") auto

declare count_slice.simps [simp del]

function numusearray_loop :: "TValue list \<Rightarrow> nat \<Rightarrow> nat \<Rightarrow> nat list \<Rightarrow> nat \<Rightarrow> nat list \<times> nat" where
  "numusearray_loop arr lg i nums ause =
     (if lg \<le> MAXBITS then
        let ttlg = 2 ^ lg;
            lim = (if ttlg > length arr then length arr else ttlg)
        in if ttlg > length arr \<and> i > lim then (nums, ause)
           else let (i', lc) = count_slice arr i lim 0
                in numusearray_loop arr (Suc lg) i' (nums[lg := nums ! lg + lc]) (ause + lc)
      else (nums, ause))"
  by pat_completeness auto
termination by (relation "measure (\<lambda>(arr, lg, i, nums, ause). Suc MAXBITS - lg)") auto

declare numusearray_loop.simps [simp del]

definition numusearray :: "Table \<Rightarrow> nat list \<Rightarrow> nat list \<times> nat" where
  "numusearray t nums = numusearray_loop (t_array t) 0 1 nums 0"

text \<open>The node vector is scanned downwards; returns the counters, \<open>ause\<close> and \<open>totaluse\<close>.\<close>

fun numusehash_loop :: "Node list \<Rightarrow> nat list \<Rightarrow> nat \<Rightarrow> nat \<Rightarrow> nat list \<times> nat \<times> nat" where
  "numusehash_loop [] nums ause totaluse = (nums, ause, totaluse)"
| "numusehash_loop (n # ns) nums ause totaluse =
     (if \<not> ttisnil (i_val n)
      then let (nums', c) = countint (i_key n) nums
           in numusehash_loop ns nums' (ause + c) (totaluse + 1)
      else numusehash_loop ns nums ause totaluse)"

definition numusehash :: "Table \<Rightarrow> nat list \<Rightarrow> nat \<Rightarrow> nat list \<times> nat \<times> nat" where
  "numusehash t nums pnasize =
     (let (nums', ause, totaluse) = numusehash_loop (rev (nodes t)) nums 0 0
      in (nums', pnasize + ause, totaluse))"

subsection \<open>Allocation and insertion\<close>

definition setarrayvector :: "Table \<Rightarrow> nat \<Rightarrow> Table" where
  "setarrayvector t n = t\<lparr>t_array := take n (t_array t) @ replicate (n - sizearray t) LNil\<rparr>"

definition setnodevector :: "Table \<Rightarrow> nat \<Rightarrow> rt_error + Table" where
  "setnodevector t n =
     (if n = 0 then Inr (t\<lparr>t_node := None, t_lsizenode := 0, t_lastfree := 0\<rparr>)
      else let lsize = ceillog2 n in
        if lsize > MAXBITS then Inl (RunError (str ''table overflow''))
        else Inr (t\<lparr>t_node := Some (replicate (twoto lsize) dummynode),
                    t_lsizenode := lsize, t_lastfree := int (twoto lsize)\<rparr>))"

definition luaH_new :: "nat \<Rightarrow> nat \<Rightarrow> rt_error + Table" where
  "luaH_new narray nhash =
     setnodevector
       (setarrayvector \<lparr>t_flags = 255, t_lsizenode = 0, t_metatable = None,
                        t_array = [], t_node = None, t_lastfree = 0\<rparr> narray) nhash"

text \<open>\<open>while (t->lastfree-- > t->node)\<close>: the counter is \<open>lastfree\<close>, also after the last test.\<close>

function getfreepos :: "Table \<Rightarrow> Table \<times> nat option" where
  "getfreepos t =
     (let t' = t\<lparr>t_lastfree := t_lastfree t - 1\<rparr> in
      if t_lastfree t > 0
      then (if ttisnil (i_key (gnode t' (nat (t_lastfree t')))) then (t', Some (nat (t_lastfree t')))
            else getfreepos t')
      else (t', None))"
  by pat_completeness auto
termination by (relation "measure (\<lambda>t. nat (t_lastfree t))") auto

declare getfreepos.simps [simp del]

text \<open>\<open>while (gnext(othern) != mp) othern = gnext(othern)\<close>; a null link is dereferenced.\<close>

fun find_prev :: "Table \<Rightarrow> nat \<Rightarrow> nat \<Rightarrow> nat \<Rightarrow> rt_error + nat" where
  "find_prev t mp 0 q = Inl OutOfFuel"
| "find_prev t mp (Suc f) q =
     (if i_next (gnode t q) = Some mp then Inr q
      else case i_next (gnode t q) of None \<Rightarrow> Inl Crash | Some q' \<Rightarrow> find_prev t mp f q')"

type_synonym table_op = "Table \<Rightarrow> TValue \<Rightarrow> rt_error + Table \<times> slot"

definition set_key :: "Table \<Rightarrow> nat \<Rightarrow> TValue \<Rightarrow> rt_error + Table \<times> slot" where
  "set_key t mp key = Inr (upd_node t mp (\<lambda>n. n\<lparr>i_key := key\<rparr>), SNode mp)"

definition newkey :: "table_op \<Rightarrow> table_op" where
  "newkey reh t key =
     (let mp = mainposition t key in
      if \<not> ttisnil (i_val (gnode t mp)) \<or> t_node t = None then
        (case getfreepos t of
           (t1, None) \<Rightarrow> reh t1 key
         | (t1, Some n) \<Rightarrow>
             let othern = mainposition t1 (i_key (gnode t1 mp)) in
             if othern \<noteq> mp then
               sum_bind (find_prev t1 mp (sizenode t1) othern) (\<lambda>prev.
                 let t2 = upd_node t1 prev (\<lambda>x. x\<lparr>i_next := Some n\<rparr>);
                     t3 = upd_node t2 n (\<lambda>_. gnode t2 mp);
                     t4 = upd_node t3 mp (\<lambda>x. x\<lparr>i_next := None, i_val := LNil\<rparr>)
                 in set_key t4 mp key)
             else
               let t2 = upd_node t1 n (\<lambda>x. x\<lparr>i_next := i_next (gnode t1 mp)\<rparr>);
                   t3 = upd_node t2 mp (\<lambda>x. x\<lparr>i_next := Some n\<rparr>)
               in set_key t3 n key)
      else set_key t mp key)"

definition luaH_set_with :: "table_op \<Rightarrow> table_op" where
  "luaH_set_with reh t key =
     sum_bind (luaH_get t key) (\<lambda>p.
       let t1 = t\<lparr>t_flags := 0\<rparr> in
       case p of
         Some s \<Rightarrow> Inr (t1, s)
       | None \<Rightarrow>
           if ttisnil key then Inl (RunError (str ''table index is nil''))
           else if (case key of LNumber n \<Rightarrow> luai_numisnan n | _ \<Rightarrow> False)
           then Inl (RunError (str ''table index is NaN''))
           else newkey reh t1 key)"

definition luaH_setnum_with :: "table_op \<Rightarrow> Table \<Rightarrow> int \<Rightarrow> rt_error + Table \<times> slot" where
  "luaH_setnum_with reh t key =
     sum_bind (luaH_getnum t key) (\<lambda>p.
       case p of Some s \<Rightarrow> Inr (t, s) | None \<Rightarrow> newkey reh t (LNumber (cast_num key)))"

definition luaH_setstr_with :: "table_op \<Rightarrow> Table \<Rightarrow> bytes \<Rightarrow> rt_error + Table \<times> slot" where
  "luaH_setstr_with reh t key =
     sum_bind (luaH_getstr t key) (\<lambda>p.
       case p of Some s \<Rightarrow> Inr (t, s) | None \<Rightarrow> newkey reh t (LString key))"

text \<open>The two re-insertion loops of \<open>resize\<close>: the vanishing array slice, then the old nodes downwards.\<close>

fun reinsert_array :: "table_op \<Rightarrow> Table \<Rightarrow> nat \<Rightarrow> TValue list \<Rightarrow> rt_error + Table" where
  "reinsert_array reh t i [] = Inr t"
| "reinsert_array reh t i (v # vs) =
     (if \<not> ttisnil v
      then sum_bind (luaH_setnum_with reh t (int i + 1))
             (\<lambda>(t', s). reinsert_array reh (slot_set t' s v) (Suc i) vs)
      else reinsert_array reh t (Suc i) vs)"

fun reinsert_nodes :: "table_op \<Rightarrow> Table \<Rightarrow> Node list \<Rightarrow> rt_error + Table" where
  "reinsert_nodes reh t [] = Inr t"
| "reinsert_nodes reh t (n # ns) =
     (if \<not> ttisnil (i_val n)
      then sum_bind (luaH_set_with reh t (i_key n))
             (\<lambda>(t', s). reinsert_nodes reh (slot_set t' s (i_val n)) ns)
      else reinsert_nodes reh t ns)"

definition resize :: "table_op \<Rightarrow> Table \<Rightarrow> nat \<Rightarrow> nat \<Rightarrow> rt_error + Table" where
  "resize reh t nasize nhsize =
     (let oldasize = sizearray t;
          nold = nodes t;
          t1 = (if nasize > oldasize then setarrayvector t nasize else t)
      in sum_bind (setnodevector t1 nhsize) (\<lambda>t2.
         sum_bind (if nasize < oldasize
                   then reinsert_array reh (t2\<lparr>t_array := take nasize (t_array t2)\<rparr>) nasize
                          (drop nasize (t_array t2))
                   else Inr t2) (\<lambda>t3.
         reinsert_nodes reh t3 (rev nold))))"

definition luaH_resizearray_with :: "table_op \<Rightarrow> Table \<Rightarrow> nat \<Rightarrow> rt_error + Table" where
  "luaH_resizearray_with reh t nasize =
     (let nsize = (if t_node t = None then 0 else sizenode t) in resize reh t nasize nsize)"

definition rehash :: "table_op \<Rightarrow> Table \<Rightarrow> TValue \<Rightarrow> rt_error + Table" where
  "rehash reh t ek =
     (let nums0 = replicate (MAXBITS + 1) 0;
          (nums1, nasize1) = numusearray t nums0;
          totaluse1 = nasize1;
          (nums2, nasize2, totalhash) = numusehash t nums1 nasize1;
          totaluse2 = totaluse1 + totalhash;
          (nums3, c) = countint ek nums2;
          nasize3 = nasize2 + c;
          totaluse3 = totaluse2 + 1;
          (nasize, na) = computesizes nums3 nasize3
      in resize reh t nasize (totaluse3 - na))"

text \<open>\<open>rehash(L, t, key); return luaH_set(L, t, key)\<close>, to nesting depth \<open>n\<close>.\<close>

primrec grow :: "nat \<Rightarrow> table_op" where
  "grow 0 = (\<lambda>t key. Inl OutOfFuel)"
| "grow (Suc n) = (\<lambda>t key. sum_bind (rehash (grow n) t key) (\<lambda>t'. luaH_set_with (grow n) t' key))"

definition luaH_set :: "Table \<Rightarrow> TValue \<Rightarrow> rt_error + Table \<times> slot" where
  "luaH_set = luaH_set_with (grow 1)"

definition luaH_setnum :: "Table \<Rightarrow> int \<Rightarrow> rt_error + Table \<times> slot" where
  "luaH_setnum = luaH_setnum_with (grow 1)"

definition luaH_setstr :: "Table \<Rightarrow> bytes \<Rightarrow> rt_error + Table \<times> slot" where
  "luaH_setstr = luaH_setstr_with (grow 1)"

definition luaH_resizearray :: "Table \<Rightarrow> nat \<Rightarrow> rt_error + Table" where
  "luaH_resizearray = luaH_resizearray_with (grow 1)"

subsection \<open>The border of a table\<close>

definition getnum_nil :: "Table \<Rightarrow> nat \<Rightarrow> rt_error + bool" where
  "getnum_nil t j = sum_bind (luaH_getnum t (int j)) (\<lambda>s. Inr (ttisnil (slot_value t s)))"

fun linear_search :: "Table \<Rightarrow> nat \<Rightarrow> nat \<Rightarrow> rt_error + nat" where
  "linear_search t i 0 = Inl OutOfFuel"
| "linear_search t i (Suc f) =
     sum_bind (getnum_nil t i) (\<lambda>b. if b then Inr (i - 1) else linear_search t (Suc i) f)"

function border_search :: "(nat \<Rightarrow> rt_error + bool) \<Rightarrow> nat \<Rightarrow> nat \<Rightarrow> rt_error + nat" where
  "border_search isnil i j =
     (if j - i > 1 then
        let m = (i + j) div 2 in
        case isnil m of Inl e \<Rightarrow> Inl e
        | Inr b \<Rightarrow> if b then border_search isnil i m else border_search isnil m j
      else Inr i)"
  by pat_completeness auto
termination by (relation "measure (\<lambda>(isnil, i, j). j - i)") auto

declare border_search.simps [simp del]

function unbound_loop :: "Table \<Rightarrow> nat \<Rightarrow> nat \<Rightarrow> rt_error + nat" where
  "unbound_loop t i j =
     (case getnum_nil t j of Inl e \<Rightarrow> Inl e
      | Inr True \<Rightarrow> border_search (getnum_nil t) i j
      | Inr False \<Rightarrow>
          if j * 2 > MAX_INT \<or> j = 0
          then linear_search t 1 (sizearray t + sizenode t + 1)
          else unbound_loop t j (j * 2))"
  by pat_completeness auto
termination by (relation "measure (\<lambda>(t, i, j). MAX_INT - j)") auto

declare unbound_loop.simps [simp del]

definition unbound_search :: "Table \<Rightarrow> nat \<Rightarrow> rt_error + nat" where
  "unbound_search t j = unbound_loop t j (j + 1)"

definition luaH_getn :: "Table \<Rightarrow> rt_error + nat" where
  "luaH_getn t =
     (let j = sizearray t in
      if j > 0 \<and> ttisnil (t_array t ! (j - 1))
      then border_search (\<lambda>m. Inr (ttisnil (t_array t ! (m - 1)))) 0 j
      else if t_node t = None then Inr j
      else unbound_search t j)"

end
