(* ===== verification/Lua_Chain.thy ===== *)
theory Lua_Chain
  imports Lua_Table
begin

text \<open>
  The collision chains of a node vector, seen as a graph over node indices: \<open>N\<close> nodes,
  \<open>mp\<close> the main position of a key, \<open>K\<close> the keys and \<open>X\<close> the links.
  \<open>chain_inv\<close> says that every stored key is reachable from its main position, that a node on
  which some key hashes is occupied by a key that hashes there (the main invariant quoted in
  \<^verbatim>\<open>ltable.c\<close>), that links are injective and acyclic, and that free nodes are isolated.
  The three ways in which \<open>newkey\<close> writes a key keep it.
\<close>

definition edge :: "nat \<Rightarrow> (nat \<Rightarrow> nat option) \<Rightarrow> nat \<Rightarrow> nat \<Rightarrow> bool" where
  "edge N X i j \<longleftrightarrow> i < N \<and> X i = Some j"

definition chain_inv :: "nat \<Rightarrow> (TValue \<Rightarrow> nat) \<Rightarrow> (nat \<Rightarrow> TValue) \<Rightarrow> (nat \<Rightarrow> nat option) \<Rightarrow> bool" where
  "chain_inv N mp K X \<longleftrightarrow>
     (\<forall>i < N. \<forall>j. X i = Some j \<longrightarrow> j < N \<and> K j \<noteq> LNil) \<and>
     (\<forall>i < N. K i = LNil \<longrightarrow> X i = None) \<and>
     (\<forall>i < N. K i \<noteq> LNil \<longrightarrow> (edge N X)\<^sup>*\<^sup>* (mp (K i)) i) \<and>
     (\<forall>i < N. K i \<noteq> LNil \<longrightarrow> K (mp (K i)) \<noteq> LNil \<and> mp (K (mp (K i))) = mp (K i)) \<and>
     (\<forall>i < N. \<forall>j < N. \<forall>k. X i = Some k \<longrightarrow> X j = Some k \<longrightarrow> i = j) \<and>
     (\<exists>r :: nat \<Rightarrow> nat. \<forall>i < N. \<forall>j. X i = Some j \<longrightarrow> r i < r j)"

lemma chain_invD:
  assumes "chain_inv N mp K X"
  shows chain_succ: "i < N \<Longrightarrow> X i = Some j \<Longrightarrow> j < N \<and> K j \<noteq> LNil"
    and chain_free: "i < N \<Longrightarrow> K i = LNil \<Longrightarrow> X i = None"
    and chain_reach: "i < N \<Longrightarrow> K i \<noteq> LNil \<Longrightarrow> (edge N X)\<^sup>*\<^sup>* (mp (K i)) i"
    and chain_main: "i < N \<Longrightarrow> K i \<noteq> LNil \<Longrightarrow> K (mp (K i)) \<noteq> LNil \<and> mp (K (mp (K i))) = mp (K i)"
    and chain_inj: "i < N \<Longrightarrow> j < N \<Longrightarrow> X i = Some k \<Longrightarrow> X j = Some k \<Longrightarrow> i = j"
    and chain_rank: "\<exists>r :: nat \<Rightarrow> nat. \<forall>i < N. \<forall>j. X i = Some j \<longrightarrow> r i < r j"
  using assms unfolding chain_inv_def by blast+

lemma chain_no_loop: "chain_inv N mp K X \<Longrightarrow> i < N \<Longrightarrow> X i \<noteq> Some i"
  using chain_rank by blast

lemma rtranclp_sim:
  assumes "\<And>a b. R a b \<Longrightarrow> S\<^sup>*\<^sup>* (f a) (f b)" and "R\<^sup>*\<^sup>* a b"
  shows "S\<^sup>*\<^sup>* (f a) (f b)"
  using assms(2) by (induction rule: rtranclp_induct) (auto dest: assms(1))

lemma edge_reach_less: "(edge N X)\<^sup>*\<^sup>* i j \<Longrightarrow> chain_inv N mp K X \<Longrightarrow> i < N \<Longrightarrow> j < N"
  by (induction rule: rtranclp_induct) (auto simp: edge_def dest: chain_succ)

text \<open>
  The fuel of a walk along a chain: the nodes whose rank is at least that of the current node.
\<close>

definition above :: "nat \<Rightarrow> (nat \<Rightarrow> nat) \<Rightarrow> nat \<Rightarrow> nat set" where
  "above N r n = {i. i < N \<and> r n \<le> r i}"

lemma above_finite [simp]: "finite (above N r n)"
  by (simp add: above_def)

lemma above_card: "card (above N r n) \<le> N"
proof -
  have "card (above N r n) \<le> card {..<N}" by (rule card_mono) (auto simp: above_def)
  then show ?thesis by simp
qed

lemma above_pos: "n < N \<Longrightarrow> 0 < card (above N r n)"
  by (simp add: card_gt_0_iff above_def) blast

lemma above_less:
  assumes "r n < (r m :: nat)" "n < N"
  shows "card (above N r m) < card (above N r n)"
proof (rule psubset_card_mono)
  have "n \<in> above N r n" "n \<notin> above N r m" using assms by (simp_all add: above_def)
  moreover have "above N r m \<subseteq> above N r n" using assms by (auto simp: above_def)
  ultimately show "above N r m \<subset> above N r n" by blast
qed simp

lemma reach_step:
  assumes "(edge N X)\<^sup>*\<^sup>* n x" "X n = Some m" "x \<noteq> n"
  shows "(edge N X)\<^sup>*\<^sup>* m x"
  using assms(1)
proof (cases rule: converse_rtranclpE)
  case base
  with assms(3) show ?thesis by simp
next
  case (step y)
  with assms(2) show ?thesis by (simp add: edge_def)
qed

lemma reach_end:
  assumes "(edge N X)\<^sup>*\<^sup>* n x" "X n = None"
  shows "x = n"
  using assms by (metis converse_rtranclpE edge_def option.distinct(1))

text \<open>A key written into its own main position.\<close>

lemma chain_set_own:
  assumes "chain_inv N mp K X" "mp k < N" "k \<noteq> LNil"
  shows "chain_inv N mp (K(mp k := k)) X"
  unfolding chain_inv_def
proof (intro conjI)
  note D = chain_invD [OF assms(1)]
  show "\<forall>i<N. \<forall>j. X i = Some j \<longrightarrow> j < N \<and> (K(mp k := k)) j \<noteq> LNil"
    using D(1) assms(3) by simp
  show "\<forall>i<N. (K(mp k := k)) i = LNil \<longrightarrow> X i = None"
    using D(2) assms(3) by simp
  show "\<forall>i<N. (K(mp k := k)) i \<noteq> LNil \<longrightarrow> (edge N X)\<^sup>*\<^sup>* (mp ((K(mp k := k)) i)) i"
    using D(3) by simp
  show "\<forall>i<N. (K(mp k := k)) i \<noteq> LNil \<longrightarrow>
      (K(mp k := k)) (mp ((K(mp k := k)) i)) \<noteq> LNil \<and>
      mp ((K(mp k := k)) (mp ((K(mp k := k)) i))) = mp ((K(mp k := k)) i)"
    using D(4) assms(3) by simp
  show "\<forall>i<N. \<forall>j<N. \<forall>k. X i = Some k \<longrightarrow> X j = Some k \<longrightarrow> i = j" using D(5) by blast
  show "\<exists>r::nat \<Rightarrow> nat. \<forall>i<N. \<forall>j. X i = Some j \<longrightarrow> r i < r j" by (rule D(6))
qed

text \<open>The colliding node is in its own main position: the new key goes to a free node, chained after it.\<close>

lemma chain_insert:
  assumes inv: "chain_inv N mp K X" and m: "m = mp k" "m < N" "K m \<noteq> LNil" "mp (K m) = m"
    and n: "n < N" "K n = LNil" and k: "k \<noteq> LNil"
  shows "chain_inv N mp (K(n := k)) (X(n := X m, m := Some n))"
proof -
  note D = chain_invD [OF inv]
  let ?K = "K(n := k)" and ?X = "X(n := X m, m := Some n)"
  have nm: "n \<noteq> m" using m n by auto
  have Xn: "X n = None" using D(2) n by simp
  have into: "X i \<noteq> Some n" if "i < N" for i using D(1) [OF that] n(2) by auto
  have sub: "(edge N ?X)\<^sup>*\<^sup>* a b" if "edge N X a b" for a b
  proof (cases "a = m")
    case True
    have "edge N ?X m n" "edge N ?X n b" using that True m n nm by (auto simp: edge_def)
    then show ?thesis unfolding True by (metis rtranclp.simps)
  next
    case False
    then have "edge N ?X a b" using that Xn by (auto simp: edge_def)
    then show ?thesis by blast
  qed
  have reach: "(edge N ?X)\<^sup>*\<^sup>* a b" if "(edge N X)\<^sup>*\<^sup>* a b" for a b
    using rtranclp_sim [of "edge N X" "edge N ?X" id] sub that by simp
  obtain r :: "nat \<Rightarrow> nat" where r: "\<And>i j. i < N \<Longrightarrow> X i = Some j \<Longrightarrow> r i < r j"
    using D(6) by blast
  show ?thesis
    unfolding chain_inv_def
  proof (intro conjI)
    show "\<forall>i<N. \<forall>j. ?X i = Some j \<longrightarrow> j < N \<and> ?K j \<noteq> LNil"
      using D(1) k m n nm by auto
    show "\<forall>i<N. ?K i = LNil \<longrightarrow> ?X i = None"
      using D(2) k m by auto
    have "(edge N ?X)\<^sup>*\<^sup>* m n" using m(2) by (auto simp: edge_def)
    then show "\<forall>i<N. ?K i \<noteq> LNil \<longrightarrow> (edge N ?X)\<^sup>*\<^sup>* (mp (?K i)) i"
      using D(3) reach m(1) by (auto simp del: fun_upd_apply simp: fun_upd_def)
    show "\<forall>i<N. ?K i \<noteq> LNil \<longrightarrow> ?K (mp (?K i)) \<noteq> LNil \<and> mp (?K (mp (?K i))) = mp (?K i)"
      using D(4) k m n nm by auto
    show "\<forall>i<N. \<forall>j<N. \<forall>k. ?X i = Some k \<longrightarrow> ?X j = Some k \<longrightarrow> i = j"
      using D(5) into m(2) by (auto split: if_splits)
    show "\<exists>r::nat \<Rightarrow> nat. \<forall>i<N. \<forall>j. ?X i = Some j \<longrightarrow> r i < r j"
    proof (intro exI allI impI)
      fix i j assume "i < N" "?X i = Some j"
      then show "(\<lambda>x. if x = n then 2 * r m + 1 else 2 * r x) i <
                 (\<lambda>x. if x = n then 2 * r m + 1 else 2 * r x) j"
        using r [of m j] r [of i j] into m(2) nm by (auto split: if_splits)
    qed
  qed
qed

text \<open>
  The colliding node is out of its main position: it moves to the free node, its predecessor is
  redirected, and the new key takes the place.
\<close>

lemma chain_move:
  assumes inv: "chain_inv N mp K X" and m: "m = mp k" "m < N" "K m \<noteq> LNil" "mp (K m) \<noteq> m"
    and n: "n < N" "K n = LNil" and k: "k \<noteq> LNil" and p: "p < N" "X p = Some m"
    and mp: "\<And>x. mp x < N"
  shows "chain_inv N mp (K(n := K m, m := k)) (X(p := Some n, n := X m, m := None))"
proof -
  note D = chain_invD [OF inv]
  let ?K = "K(n := K m, m := k)" and ?X = "X(p := Some n, n := X m, m := None)"
  have nm: "n \<noteq> m" using m n by auto
  have Xn: "X n = None" using D(2) n by simp
  have pn: "p \<noteq> n" using Xn p by auto
  have pm: "p \<noteq> m" using chain_no_loop [OF inv m(2)] p by auto
  have mm: "X m \<noteq> Some m" by (rule chain_no_loop [OF inv m(2)])
  have into: "X i \<noteq> Some n" if "i < N" for i using D(1) [OF that] n(2) by auto
  have nohash: "mp (K i) \<noteq> m" if "i < N" "K i \<noteq> LNil" for i
    using D(4) [OF that] m(4) by auto
  let ?s = "\<lambda>x. if x = m then n else x"
  have sim: "(edge N ?X)\<^sup>*\<^sup>* (?s a) (?s b)" if e: "edge N X a b" for a b
  proof -
    have "edge N ?X (?s a) (?s b)"
      using e D(5) [of a p m] p pn pm mm n nm Xn by (auto simp: edge_def)
    then show ?thesis by blast
  qed
  have reach: "(edge N ?X)\<^sup>*\<^sup>* (?s a) (?s b)" if "(edge N X)\<^sup>*\<^sup>* a b" for a b
    using sim that by (rule rtranclp_sim)
  obtain r :: "nat \<Rightarrow> nat" where r: "\<And>i j. i < N \<Longrightarrow> X i = Some j \<Longrightarrow> r i < r j"
    using D(6) by blast
  show ?thesis
    unfolding chain_inv_def
  proof (intro conjI)
    show "\<forall>i<N. \<forall>j. ?X i = Some j \<longrightarrow> j < N \<and> ?K j \<noteq> LNil"
      using D(1) k m n nm by (auto split: if_splits)
    show "\<forall>i<N. ?K i = LNil \<longrightarrow> ?X i = None"
      using D(2) k m p by auto
    show "\<forall>i<N. ?K i \<noteq> LNil \<longrightarrow> (edge N ?X)\<^sup>*\<^sup>* (mp (?K i)) i"
    proof (intro allI impI)
      fix i assume i: "i < N" "?K i \<noteq> LNil"
      consider "i = m" | "i = n" "i \<noteq> m" | "i \<noteq> m" "i \<noteq> n" by blast
      then show "(edge N ?X)\<^sup>*\<^sup>* (mp (?K i)) i"
      proof cases
        case 1
        then show ?thesis using m(1) by simp
      next
        case 2
        then show ?thesis using reach [OF D(3) [OF m(2,3)]] m(4) by simp
      next
        case 3
        then have "K i \<noteq> LNil" using i by simp
        then show ?thesis using reach [OF D(3) [OF i(1)]] nohash [OF i(1)] 3 by simp
      qed
    qed
    show "\<forall>i<N. ?K i \<noteq> LNil \<longrightarrow> ?K (mp (?K i)) \<noteq> LNil \<and> mp (?K (mp (?K i))) = mp (?K i)"
    proof (intro allI impI)
      fix i assume i: "i < N" "?K i \<noteq> LNil"
      consider "i = m" | "i = n" "i \<noteq> m" | "i \<noteq> m" "i \<noteq> n" by blast
      then show "?K (mp (?K i)) \<noteq> LNil \<and> mp (?K (mp (?K i))) = mp (?K i)"
      proof cases
        case 1
        then show ?thesis using m(1) k by simp
      next
        case 2
        have "mp (K m) \<noteq> n" using D(4) [OF m(2,3)] n(2) by auto
        with 2 show ?thesis using D(4) [OF m(2,3)] m(4) by simp
      next
        case 3
        then have Ki: "K i \<noteq> LNil" using i by simp
        have "mp (K i) \<noteq> n" using D(4) [OF i(1) Ki] n(2) by auto
        with 3 show ?thesis using D(4) [OF i(1) Ki] nohash [OF i(1) Ki] by simp
      qed
    qed
    show "\<forall>i<N. \<forall>j<N. \<forall>k. ?X i = Some k \<longrightarrow> ?X j = Some k \<longrightarrow> i = j"
      using D(5) into m(2) by (auto split: if_splits)
    show "\<exists>r::nat \<Rightarrow> nat. \<forall>i<N. \<forall>j. ?X i = Some j \<longrightarrow> r i < r j"
    proof (intro exI allI impI)
      fix i j assume "i < N" "?X i = Some j"
      then show "(r(n := r m)) i < (r(n := r m)) j"
        using r [of m j] r [of i j] r [of p m] into m(2) nm p pn by (auto split: if_splits)
    qed
  qed
qed

end
