(* ===== verification/Lua_Table_Inv.thy ===== *)
theory Lua_Table_Inv
  imports Lua_Chain
begin

text \<open>
  The invariant of a table, its abstraction to a lookup function \<open>tget\<close>, and the correctness
  of lookup and of insertion into a table that has a free node.
\<close>

abbreviation nkey :: "Table \<Rightarrow> nat \<Rightarrow> TValue" where "nkey t i \<equiv> i_key (gnode t i)"
abbreviation nval :: "Table \<Rightarrow> nat \<Rightarrow> TValue" where "nval t i \<equiv> i_val (gnode t i)"
abbreviation nnext :: "Table \<Rightarrow> nat \<Rightarrow> nat option" where "nnext t i \<equiv> i_next (gnode t i)"

definition in_array :: "Table \<Rightarrow> TValue \<Rightarrow> bool" where
  "in_array t k \<longleftrightarrow> 0 < arrayindex k \<and> arrayindex k \<le> int (sizearray t)"

definition wf_shape :: "Table \<Rightarrow> bool" where
  "wf_shape t \<longleftrightarrow>
     sizearray t \<le> 2 ^ 26 \<and> t_lastfree t \<le> int (sizenode t) \<and>
     (case t_node t of
        None \<Rightarrow> t_lsizenode t = 0 \<and> t_lastfree t \<le> 0
      | Some ns \<Rightarrow> t_lsizenode t \<le> MAXBITS \<and> length ns = sizenode t)"

definition wf_table :: "Table \<Rightarrow> bool" where
  "wf_table t \<longleftrightarrow>
     wf_shape t \<and>
     chain_inv (sizenode t) (mainposition t) (nkey t) (nnext t) \<and>
     (\<forall>i < sizenode t. nkey t i = LNil \<longrightarrow> nval t i = LNil) \<and>
     (\<forall>i < sizenode t. nkey t i \<noteq> LNil \<longrightarrow> valid_key (nkey t i) \<and> \<not> in_array t (nkey t i)) \<and>
     (\<forall>i < sizenode t. \<forall>j < sizenode t.
        luaO_rawequalObj (nkey t i) (nkey t j) \<longrightarrow> nkey t i \<noteq> LNil \<longrightarrow> i = j) \<and>
     (t_node t \<noteq> None \<longrightarrow> (\<forall>i < sizenode t. t_lastfree t \<le> int i \<longrightarrow> nkey t i \<noteq> LNil))"

lemma wf_tableD:
  assumes "wf_table t"
  shows wf_shapeD: "wf_shape t"
    and wf_chain: "chain_inv (sizenode t) (mainposition t) (nkey t) (nnext t)"
    and wf_free: "i < sizenode t \<Longrightarrow> nkey t i = LNil \<Longrightarrow> nval t i = LNil"
    and wf_key: "i < sizenode t \<Longrightarrow> nkey t i \<noteq> LNil \<Longrightarrow> valid_key (nkey t i)"
    and wf_not_array: "i < sizenode t \<Longrightarrow> nkey t i \<noteq> LNil \<Longrightarrow> \<not> in_array t (nkey t i)"
    and wf_distinct: "i < sizenode t \<Longrightarrow> j < sizenode t \<Longrightarrow> luaO_rawequalObj (nkey t i) (nkey t j)
          \<Longrightarrow> nkey t i \<noteq> LNil \<Longrightarrow> i = j"
    and wf_lastfree: "t_node t \<noteq> None \<Longrightarrow> i < sizenode t \<Longrightarrow> t_lastfree t \<le> int i \<Longrightarrow> nkey t i \<noteq> LNil"
  using assms unfolding wf_table_def by blast+

subsection \<open>Main positions\<close>

lemma sizenode_pos [simp]: "0 < sizenode t"
  by (simp add: sizenode_def twoto_def)

lemma hashmod_less: "hashmod t n < sizenode t"
proof (cases "t_lsizenode t")
  case 0
  then show ?thesis by (simp add: hashmod_def sizenode_def twoto_def)
next
  case (Suc k)
  have odd_or: "or x 1 = x" if "odd x" for x :: nat
    using that by (simp only: or_one_eq) simp
  have "or ((2::nat) ^ Suc k - 1) 1 = 2 ^ Suc k - 1" by (rule odd_or) simp
  moreover have "unat n mod (2 ^ Suc k - 1) < 2 ^ Suc k - 1"
  proof (rule mod_less_divisor)
    have "(1::nat) \<le> 2 ^ k" by simp
    then show "(0::nat) < 2 ^ Suc k - 1" by (simp only: power_Suc)
  qed
  ultimately show ?thesis using Suc by (simp add: hashmod_def sizenode_def twoto_def)
qed

lemma hashpow2_less: "t_lsizenode t \<le> 31 \<Longrightarrow> hashpow2 t n < sizenode t"
  by (simp add: hashpow2_def sizenode_def twoto_def lmod_less)

lemma mainposition_less:
  assumes "t_lsizenode t \<le> 31"
  shows "mainposition t k < sizenode t"
  using assms
  by (cases k) (simp_all add: hashnum_def hashstr_def hashboolean_def hashpointer_def hashmod_less
      hashpow2_less)

lemma wf_lsizenode: "wf_table t \<Longrightarrow> t_lsizenode t \<le> 26"
  by (auto simp: wf_table_def wf_shape_def MAXBITS_def split: option.splits)

lemma wf_mainposition [simp]: "wf_table t \<Longrightarrow> mainposition t k < sizenode t"
  using wf_lsizenode [of t] by (simp add: mainposition_less)

lemma mainposition_cong: "t_lsizenode t = t_lsizenode t' \<Longrightarrow> mainposition t k = mainposition t' k"
  by (cases k) (simp_all add: hashnum_def hashstr_def hashboolean_def hashpointer_def hashmod_def
      hashpow2_def sizenode_def)

text \<open>Keys that are equal for Lua hash to the same place; this is what the test for \<open>-0\<close> is for.\<close>

lemma dbl_0: "dbl_mag 0 = 0" "\<not> dbl_isnan 0"
  by (simp_all add: dbl_mag_def dbl_isnan_def dbl_exp_def dbl_frac_def)

lemma luai_numeq_0: "dbl_mag a = 0 \<Longrightarrow> luai_numeq a 0"
  by (rule luai_numeq_mag0) (simp_all add: dbl_0)

lemma mainposition_rawequal:
  assumes "luaO_rawequalObj a b"
  shows "mainposition t a = mainposition t b"
proof (cases "\<exists>n. a = LNumber n")
  case True
  then obtain n m where nm: "a = LNumber n" "b = LNumber m" "luai_numeq n m"
    using assms by auto
  from luai_numeq_cases [OF nm(3)] show ?thesis
    using nm luai_numeq_0 by (auto simp: hashnum_def)
next
  case False
  with assms have "a = b" using rawequal_nonnum by blast
  then show ?thesis by simp
qed

lemma lua_number2int_numeq: "luai_numeq a b \<Longrightarrow> lua_number2int a = lua_number2int b"
proof -
  assume e: "luai_numeq a b"
  have "dbl_isfinite a = dbl_isfinite b"
    using luai_numeq_cases [OF e] by (auto simp: dbl_isfinite_def dbl_exp_def)
  with luai_numeq_trunc [OF e] show ?thesis by (simp add: lua_number2int_def dbl_to_int_def)
qed

lemma arrayindex_rawequal:
  assumes "luaO_rawequalObj a b"
  shows "arrayindex a = arrayindex b"
proof (cases "\<exists>n. a = LNumber n")
  case True
  then obtain n m where nm: "a = LNumber n" "b = LNumber m" "luai_numeq n m"
    using assms by auto
  then have "luai_numeq (cast_num (lua_number2int n)) n \<longleftrightarrow> luai_numeq (cast_num (lua_number2int m)) m"
    using lua_number2int_numeq [OF nm(3)] luai_numeq_trans luai_numeq_sym by metis
  with nm lua_number2int_numeq [OF nm(3)] show ?thesis by (simp add: Let_def)
next
  case False
  with assms have "a = b" using rawequal_nonnum by blast
  then show ?thesis by simp
qed

lemma in_array_rawequal: "luaO_rawequalObj a b \<Longrightarrow> in_array t a \<longleftrightarrow> in_array t b"
  by (simp add: in_array_def arrayindex_rawequal)

lemma arrayindex_cast_num: "- (2 ^ 31) \<le> n \<Longrightarrow> n < 2 ^ 31 \<Longrightarrow> arrayindex (LNumber (cast_num n)) = n"
  using cast_num_finite(2) [of n] by (simp add: luai_numeq_refl abs_if)

lemma arrayindex_pos:
  assumes "0 < arrayindex k"
  obtains n where "k = LNumber n" "luai_numeq (cast_num (arrayindex k)) n" "lua_number2int n = arrayindex k"
    "arrayindex k < 2 ^ 31"
proof -
  from assms obtain n where n: "k = LNumber n" by (cases k) simp_all
  with assms have ai: "arrayindex k = lua_number2int n" and eq: "luai_numeq (cast_num (lua_number2int n)) n"
    by (simp_all add: Let_def split: if_splits)
  show ?thesis
    by (rule that [OF n]) (simp_all only: ai eq lua_number2int_range)
qed

subsection \<open>Searching a chain\<close>

lemma chain_find_spec:
  assumes inv: "chain_inv (sizenode t) mp (nkey t) (nnext t)" and n: "n < sizenode t"
  obtains (found) m where "chain_find P t (sizenode t) n = Inr (Some m)"
      "(edge (sizenode t) (nnext t))\<^sup>*\<^sup>* n m" "m < sizenode t" "P (gnode t m)"
  | (absent) "chain_find P t (sizenode t) n = Inr None"
      "\<And>m. (edge (sizenode t) (nnext t))\<^sup>*\<^sup>* n m \<Longrightarrow> \<not> P (gnode t m)"
proof -
  let ?N = "sizenode t" and ?E = "edge (sizenode t) (nnext t)"
  obtain r :: "nat \<Rightarrow> nat" where r: "\<And>i j. i < ?N \<Longrightarrow> nnext t i = Some j \<Longrightarrow> r i < r j"
    using chain_rank [OF inv] by blast
  have main: "(\<exists>m. chain_find P t f n = Inr (Some m) \<and> ?E\<^sup>*\<^sup>* n m \<and> m < ?N \<and> P (gnode t m)) \<or>
      (chain_find P t f n = Inr None \<and> (\<forall>m. ?E\<^sup>*\<^sup>* n m \<longrightarrow> \<not> P (gnode t m)))"
    if "card (above ?N r n) \<le> f" "n < ?N" for f n
    using that
  proof (induction f arbitrary: n)
    case 0
    then show ?case using above_pos [of n ?N r] by simp
  next
    case (Suc f)
    show ?case
    proof (cases "P (gnode t n)")
      case True
      with Suc.prems show ?thesis by auto
    next
      case notP: False
      show ?thesis
      proof (cases "nnext t n")
        case None
        then have "\<forall>m. ?E\<^sup>*\<^sup>* n m \<longrightarrow> \<not> P (gnode t m)" using notP reach_end by blast
        moreover have "chain_find P t (Suc f) n = Inr None" using notP None by simp
        ultimately show ?thesis by blast
      next
        case (Some m)
        have m: "m < ?N" using chain_succ [OF inv Suc.prems(2) Some] by simp
        have "card (above ?N r m) \<le> f"
          using above_less [OF r [OF Suc.prems(2) Some] Suc.prems(2)] Suc.prems(1) by simp
        note IH = Suc.IH [OF this m]
        have step: "?E n m" using Suc.prems(2) Some by (simp add: edge_def)
        have all: "\<not> P (gnode t x)" if "\<And>y. ?E\<^sup>*\<^sup>* m y \<Longrightarrow> \<not> P (gnode t y)" "?E\<^sup>*\<^sup>* n x" for x
          using reach_step [OF that(2), OF Some] that(1) notP by blast
        have eq: "chain_find P t (Suc f) n = chain_find P t f m" using notP Some by simp
        from IH show ?thesis
        proof
          assume "\<exists>y. chain_find P t f m = Inr (Some y) \<and> ?E\<^sup>*\<^sup>* m y \<and> y < ?N \<and> P (gnode t y)"
          then show ?thesis unfolding eq using step by (meson converse_rtranclp_into_rtranclp)
        next
          assume "chain_find P t f m = Inr None \<and> (\<forall>y. ?E\<^sup>*\<^sup>* m y \<longrightarrow> \<not> P (gnode t y))"
          then show ?thesis unfolding eq using all by blast
        qed
      qed
    qed
  qed
  show ?thesis using main [OF above_card n] found absent by blast
qed

subsection \<open>Lookup is linear search\<close>

text \<open>
  The reference lookup: the array slot if the key is an index of the array part, otherwise the
  first node whose key is equal.
\<close>

definition find_key :: "Table \<Rightarrow> TValue \<Rightarrow> slot option" where
  "find_key t k =
     (if in_array t k then Some (SArray (nat (arrayindex k - 1)))
      else map_option SNode (find (\<lambda>j. luaO_rawequalObj (nkey t j) k) [0..<sizenode t]))"

definition tget :: "Table \<Rightarrow> TValue \<Rightarrow> TValue" where
  "tget t k = (case luaH_get t k of Inr s \<Rightarrow> slot_value t s | Inl _ \<Rightarrow> LNil)"

lemma find_upt_Some:
  assumes "j < N" "P j" "\<And>i. i < N \<Longrightarrow> P i \<Longrightarrow> i = j"
  shows "find P [0..<N] = Some j"
proof -
  have "find P [0..<N] \<noteq> None" using assms(1,2) by (simp add: find_None_iff) blast
  then obtain i where i: "find P [0..<N] = Some i" by blast
  then have "i < N" "P i" by (auto simp: find_Some_iff)
  then have "i = j" by (rule assms(3))
  with i show ?thesis by simp
qed

lemma rawequal_valid_key: "luaO_rawequalObj a k \<Longrightarrow> valid_key k \<Longrightarrow> valid_key a \<and> a \<noteq> LNil"
  using rawequal_valid [of a k] valid_key_not_nil by blast

lemma chain_find_key:
  assumes wf: "wf_table t" and k: "valid_key k" "\<not> in_array t k"
    and P: "\<And>j. j < sizenode t \<Longrightarrow> P (gnode t j) \<longleftrightarrow> luaO_rawequalObj (nkey t j) k"
  shows "find_slot P t (mainposition t k) = Inr (find_key t k)"
  using wf_chain [OF wf] wf_mainposition [OF wf, of k]
proof (cases rule: chain_find_spec [where P = P])
  case (found m)
  then have e: "luaO_rawequalObj (nkey t m) k" using P by simp
  have u: "i = m" if i: "i < sizenode t" "luaO_rawequalObj (nkey t i) k" for i
  proof (rule wf_distinct [OF wf i(1) found(3)])
    show "luaO_rawequalObj (nkey t i) (nkey t m)"
      by (rule rawequal_both [OF i(2) e])
    show "nkey t i \<noteq> LNil" using rawequal_valid_key [OF i(2) k(1)] by simp
  qed
  then have "find (\<lambda>j. luaO_rawequalObj (nkey t j) k) [0..<sizenode t] = Some m"
    by (intro find_upt_Some) (use found(3) e u in blast)+
  with found(1) k(2) show ?thesis by (simp add: find_slot_def find_key_def)
next
  case absent
  have "\<not> luaO_rawequalObj (nkey t j) k" if j: "j < sizenode t" for j
  proof
    assume e: "luaO_rawequalObj (nkey t j) k"
    then have "nkey t j \<noteq> LNil" using rawequal_valid_key k(1) by blast
    from chain_reach [OF wf_chain [OF wf] j this]
    have "(edge (sizenode t) (nnext t))\<^sup>*\<^sup>* (mainposition t k) j"
      by (simp add: mainposition_rawequal [OF e])
    with absent(2) P [OF j] e show False by blast
  qed
  then have "find (\<lambda>j. luaO_rawequalObj (nkey t j) k) [0..<sizenode t] = None"
    by (auto simp: find_None_iff)
  with absent(1) k(2) show ?thesis by (simp add: find_slot_def find_key_def)
qed

lemma getnum_word:
  fixes n :: int
  assumes "- (2 ^ 31) \<le> n" "n < 2 ^ 31" "m \<le> 2 ^ 26"
  shows "(word_of_int (n - 1) :: 32 word) < of_nat m \<longleftrightarrow> 1 \<le> n \<and> n \<le> int m"
proof -
  have m: "uint (of_nat m :: 32 word) = int m"
    using assms(3) by (simp add: uint_nat unat_of_nat)
  have u: "uint (word_of_int (n - 1) :: 32 word) = (n - 1) mod 2 ^ 32"
    by (simp add: uint_word_of_int del: of_int_diff)
  show ?thesis
  proof (cases "1 \<le> n")
    case True
    then have "(n - 1) mod 2 ^ 32 = n - 1" using assms by simp
    with True show ?thesis unfolding word_less_def m u by linarith
  next
    case False
    have "(n - 1) mod 2 ^ 32 = (n - 1 + 2 ^ 32) mod 2 ^ 32" by (simp only: mod_add_self2)
    also have "\<dots> = n - 1 + 2 ^ 32" using False assms by simp
    finally show ?thesis using False assms unfolding word_less_def m u by simp
  qed
qed

lemma wf_sizearray: "wf_table t \<Longrightarrow> sizearray t \<le> 2 ^ 26"
  by (simp add: wf_table_def wf_shape_def)

lemma luaH_getnum_find:
  assumes wf: "wf_table t" and n: "- (2 ^ 31) \<le> n" "n < 2 ^ 31"
  shows "luaH_getnum t n = Inr (find_key t (LNumber (cast_num n)))"
proof (cases "1 \<le> n \<and> n \<le> int (sizearray t)")
  case True
  then show ?thesis
    using getnum_word [OF n wf_sizearray [OF wf]] arrayindex_cast_num [OF n]
    by (simp add: luaH_getnum_def find_key_def in_array_def del: arrayindex.simps)
next
  case False
  let ?k = "LNumber (cast_num n)"
  have v: "valid_key ?k" using cast_num_finite(2) [of n] n by (simp add: abs_if)
  have na: "\<not> in_array t ?k"
    using False arrayindex_cast_num [OF n] by (simp add: in_array_def del: arrayindex.simps)
  have "find_slot (\<lambda>x. case i_key x of LNumber m \<Rightarrow> luai_numeq m (cast_num n) | _ \<Rightarrow> False) t (mainposition t ?k)
      = Inr (find_key t ?k)"
    by (rule chain_find_key [OF wf v na]) (simp split: TValue.split)
  moreover have "\<not> (word_of_int (n - 1) :: 32 word) < of_nat (sizearray t)"
    using False getnum_word [OF n wf_sizearray [OF wf]] by blast
  ultimately show ?thesis by (simp only: luaH_getnum_def if_False Let_def mainposition.simps)
qed

lemma find_key_rawequal: "luaO_rawequalObj a b \<Longrightarrow> find_key t a = find_key t b"
proof -
  assume e: "luaO_rawequalObj a b"
  have "luaO_rawequalObj x a = luaO_rawequalObj x b" for x
    using rawequal_trans [OF _ e] rawequal_trans [OF _ e [THEN rawequal_sym [THEN iffD1]]] by blast
  with e show ?thesis by (simp add: find_key_def in_array_rawequal [OF e] arrayindex_rawequal [OF e])
qed

text \<open>The main search function finds exactly what the reference finds.\<close>

lemma luaH_get_find:
  assumes wf: "wf_table t" and k: "valid_key k"
  shows "luaH_get t k = Inr (find_key t k)"
proof -
  have dflt: "luaH_get_default t k = Inr (find_key t k)" if "\<not> in_array t k"
    unfolding luaH_get_default_def by (rule chain_find_key [OF wf k that]) simp
  show ?thesis
  proof (cases k)
    case (LNumber n)
    show ?thesis
    proof (cases "luai_numeq (cast_num (lua_number2int n)) n")
      case True
      have "find_key t (LNumber (cast_num (lua_number2int n))) = find_key t k"
        by (rule find_key_rawequal) (simp add: LNumber True)
      with True LNumber luaH_getnum_find [OF wf] lua_number2int_range show ?thesis
        by (simp add: Let_def)
    next
      case False
      then have "\<not> in_array t k" by (simp add: LNumber in_array_def Let_def)
      with False dflt show ?thesis by (simp add: LNumber Let_def)
    qed
  next
    case (LString s)
    have "\<not> in_array t k" by (simp add: LString in_array_def)
    from chain_find_key [OF wf k this, of "\<lambda>n. i_key n = LString s"] show ?thesis
      by (simp add: LString luaH_getstr_def)
  qed (use k dflt in \<open>simp_all add: in_array_def\<close>)
qed

lemma tget_find: "wf_table t \<Longrightarrow> valid_key k \<Longrightarrow> tget t k = slot_value t (find_key t k)"
  by (simp add: tget_def luaH_get_find)

lemma tget_rawequal: "wf_table t \<Longrightarrow> valid_key b \<Longrightarrow> luaO_rawequalObj a b \<Longrightarrow> tget t a = tget t b"
  using rawequal_valid_key [of a b] by (simp add: tget_find find_key_rawequal)

subsection \<open>The contents of the node part\<close>

definition node_has :: "nat \<Rightarrow> (nat \<Rightarrow> TValue) \<Rightarrow> (nat \<Rightarrow> TValue) \<Rightarrow> TValue \<Rightarrow> TValue \<Rightarrow> bool" where
  "node_has N K V k v \<longleftrightarrow>
     (\<exists>j < N. luaO_rawequalObj (K j) k \<and> V j = v) \<or> (\<forall>j < N. \<not> luaO_rawequalObj (K j) k) \<and> v = LNil"

lemma tget_array: "wf_table t \<Longrightarrow> valid_key k \<Longrightarrow> in_array t k \<Longrightarrow> tget t k = t_array t ! nat (arrayindex k - 1)"
  by (simp add: tget_find find_key_def slot_value_def)

lemma tget_node_has:
  assumes wf: "wf_table t" and k: "valid_key k" "\<not> in_array t k"
  shows "node_has (sizenode t) (nkey t) (nval t) k v \<longleftrightarrow> tget t k = v"
proof (cases "\<exists>j < sizenode t. luaO_rawequalObj (nkey t j) k")
  case True
  then obtain j where j: "j < sizenode t" "luaO_rawequalObj (nkey t j) k" by blast
  have u: "i = j" if i: "i < sizenode t" "luaO_rawequalObj (nkey t i) k" for i
  proof (rule wf_distinct [OF wf i(1) j(1)])
    show "luaO_rawequalObj (nkey t i) (nkey t j)"
      by (rule rawequal_both [OF i(2) j(2)])
    show "nkey t i \<noteq> LNil" using rawequal_valid_key [OF i(2) k(1)] by simp
  qed
  then have "find (\<lambda>j. luaO_rawequalObj (nkey t j) k) [0..<sizenode t] = Some j"
    by (intro find_upt_Some) (use j u in blast)+
  then have "tget t k = nval t j"
    using k(2) by (simp add: tget_find [OF wf k(1)] find_key_def slot_value_def)
  moreover have "v = nval t j" if "node_has (sizenode t) (nkey t) (nval t) k v"
    using that j unfolding node_has_def by (elim disjE exE conjE) (metis u, blast)
  moreover have "node_has (sizenode t) (nkey t) (nval t) k (nval t j)"
    unfolding node_has_def by (rule disjI1, rule exI [of _ j]) (simp add: j)
  ultimately show ?thesis by auto
next
  case False
  then have "find (\<lambda>j. luaO_rawequalObj (nkey t j) k) [0..<sizenode t] = None"
    by (auto simp: find_None_iff)
  then have "tget t k = LNil"
    using k(2) by (simp add: tget_find [OF wf k(1)] find_key_def slot_value_def)
  with False show ?thesis by (auto simp: node_has_def)
qed

end
