(* ===== verification/Lua_Table_Set.thy ===== *)
theory Lua_Table_Set
  imports Lua_Table_Inv
begin

text \<open>
  Insertion. \<open>newkey\<close> either writes the key, keeping the invariant and every lookup, or finds no
  free node and hands over to \<open>reh\<close>; writing the returned slot then changes the lookup of that
  key and of no other.
\<close>

subsection \<open>Updating a node\<close>

lemma upd_node_fields [simp]:
  "t_flags (upd_node t i f) = t_flags t" "t_lsizenode (upd_node t i f) = t_lsizenode t"
  "t_metatable (upd_node t i f) = t_metatable t" "t_array (upd_node t i f) = t_array t"
  "t_lastfree (upd_node t i f) = t_lastfree t" "sizenode (upd_node t i f) = sizenode t"
  "sizearray (upd_node t i f) = sizearray t"
  "t_node (upd_node t i f) = None \<longleftrightarrow> t_node t = None"
  by (simp_all add: upd_node_def sizenode_def sizearray_def)

lemma update_fields [simp]:
  "nodes (t\<lparr>t_flags := x\<rparr>) = nodes t" "nodes (t\<lparr>t_lastfree := y\<rparr>) = nodes t"
  "nodes (t\<lparr>t_array := z\<rparr>) = nodes t"
  "gnode (t\<lparr>t_flags := x\<rparr>) = gnode t" "gnode (t\<lparr>t_lastfree := y\<rparr>) = gnode t"
  "gnode (t\<lparr>t_array := z\<rparr>) = gnode t"
  "sizenode (t\<lparr>t_flags := x\<rparr>) = sizenode t" "sizenode (t\<lparr>t_lastfree := y\<rparr>) = sizenode t"
  "sizenode (t\<lparr>t_array := z\<rparr>) = sizenode t"
  "sizearray (t\<lparr>t_flags := x\<rparr>) = sizearray t" "sizearray (t\<lparr>t_lastfree := y\<rparr>) = sizearray t"
  by (simp_all add: nodes_def gnode_def [abs_def] sizenode_def sizearray_def fun_eq_iff)

lemma mainposition_fields [simp]:
  "mainposition (t\<lparr>t_flags := x\<rparr>) = mainposition t" "mainposition (t\<lparr>t_lastfree := y\<rparr>) = mainposition t"
  "mainposition (t\<lparr>t_array := z\<rparr>) = mainposition t" "mainposition (upd_node t i f) = mainposition t"
  by (rule ext, rule mainposition_cong, simp)+

definition wf_nodes :: "Table \<Rightarrow> bool" where
  "wf_nodes t \<longleftrightarrow> (\<exists>ns. t_node t = Some ns \<and> length ns = sizenode t)"

lemma wf_nodes_upd [simp]: "wf_nodes (upd_node t i f) \<longleftrightarrow> wf_nodes t"
  by (auto simp: wf_nodes_def upd_node_def sizenode_def)

lemma wf_nodesI: "wf_shape t \<Longrightarrow> t_node t \<noteq> None \<Longrightarrow> wf_nodes t"
  by (auto simp: wf_shape_def wf_nodes_def)

lemma gnode_upd:
  "wf_nodes t \<Longrightarrow> i < sizenode t \<Longrightarrow> gnode (upd_node t i f) = (gnode t)(i := f (gnode t i))"
  by (auto simp: wf_nodes_def gnode_def [abs_def] nodes_def upd_node_def nth_list_update fun_eq_iff)

lemma in_array_fields [simp]:
  "in_array (upd_node t i f) = in_array t" "in_array (t\<lparr>t_flags := x\<rparr>) = in_array t"
  "in_array (t\<lparr>t_lastfree := y\<rparr>) = in_array t"
  by (simp_all add: in_array_def [abs_def])

subsection \<open>The loops of insertion\<close>

lemma getfreepos_spec:
  assumes "t_lastfree t \<le> int (sizenode t)"
    and "\<And>i. i < sizenode t \<Longrightarrow> t_lastfree t \<le> int i \<Longrightarrow> nkey t i \<noteq> LNil"
    and "getfreepos t = (t', r)"
  shows "\<exists>y. t' = t\<lparr>t_lastfree := y\<rparr> \<and> y < t_lastfree t \<and>
      (case r of
         Some n \<Rightarrow> n < sizenode t \<and> y = int n \<and> nkey t n = LNil \<and>
           (\<forall>i < sizenode t. n < i \<longrightarrow> nkey t i \<noteq> LNil)
       | None \<Rightarrow> y < 0 \<and> (\<forall>i < sizenode t. nkey t i \<noteq> LNil))"
  using assms
proof (induction t rule: getfreepos.induct)
  case (1 t)
  let ?y = "t_lastfree t - 1"
  let ?t = "t\<lparr>t_lastfree := ?y\<rparr>"
  show ?case
  proof (cases "t_lastfree t > 0")
    case False
    then have "t' = ?t" "r = None" using "1.prems"(3) by (simp_all add: getfreepos.simps [of t])
    with False "1.prems"(2) show ?thesis by (auto intro!: exI [of _ ?y])
  next
    case pos: True
    define n where "n = nat ?y"
    have n: "int n = ?y" "n < sizenode t" using pos "1.prems"(1) by (simp_all add: n_def)
    have rest: "nkey t i \<noteq> LNil" if "i < sizenode t" "n < i" for i
      using "1.prems"(2) [OF that(1)] that(2) n(1) by simp
    show ?thesis
    proof (cases "nkey t n = LNil")
      case True
      then have "t' = ?t" "r = Some n"
        using "1.prems"(3) pos by (simp_all add: getfreepos.simps [of t] Let_def n_def)
      with True n rest show ?thesis by (auto intro!: exI [of _ ?y])
    next
      case False
      then have g: "getfreepos ?t = (t', r)"
        using "1.prems"(3) pos by (simp add: getfreepos.simps [of t] Let_def n_def)
      have "\<exists>y. t' = ?t\<lparr>t_lastfree := y\<rparr> \<and> y < t_lastfree ?t \<and>
          (case r of
             Some n \<Rightarrow> n < sizenode ?t \<and> y = int n \<and> nkey ?t n = LNil \<and>
               (\<forall>i < sizenode ?t. n < i \<longrightarrow> nkey ?t i \<noteq> LNil)
           | None \<Rightarrow> y < 0 \<and> (\<forall>i < sizenode ?t. nkey ?t i \<noteq> LNil))"
      proof (rule "1.IH" [OF refl pos _ _ _ g])
        show "\<not> ttisnil (i_key (gnode ?t (nat (t_lastfree ?t))))" using False by (simp add: n_def)
        show "t_lastfree ?t \<le> int (sizenode ?t)" using "1.prems"(1) by simp
        show "nkey ?t i \<noteq> LNil" if "i < sizenode ?t" "t_lastfree ?t \<le> int i" for i
          using rest [of i] False that n(1) by (cases "i = n") auto
      qed
      then obtain y where "t' = ?t\<lparr>t_lastfree := y\<rparr>" "y < t_lastfree ?t"
        "case r of
             Some n \<Rightarrow> n < sizenode ?t \<and> y = int n \<and> nkey ?t n = LNil \<and>
               (\<forall>i < sizenode ?t. n < i \<longrightarrow> nkey ?t i \<noteq> LNil)
           | None \<Rightarrow> y < 0 \<and> (\<forall>i < sizenode ?t. nkey ?t i \<noteq> LNil)" by blast
      then show ?thesis by (intro exI [of _ y]) (cases r; simp)
    qed
  qed
qed

lemma find_prev_spec:
  assumes inv: "chain_inv (sizenode t) mp (nkey t) (nnext t)"
    and q: "q < sizenode t" "(edge (sizenode t) (nnext t))\<^sup>*\<^sup>* q m" "q \<noteq> m"
  obtains p where "find_prev t m (sizenode t) q = Inr p" "p < sizenode t" "nnext t p = Some m"
proof -
  let ?N = "sizenode t" and ?E = "edge (sizenode t) (nnext t)"
  obtain r :: "nat \<Rightarrow> nat" where r: "\<And>i j. i < ?N \<Longrightarrow> nnext t i = Some j \<Longrightarrow> r i < r j"
    using chain_rank [OF inv] by blast
  have main: "\<exists>p. find_prev t m f q = Inr p \<and> p < ?N \<and> nnext t p = Some m"
    if "card (above ?N r q) \<le> f" "q < ?N" "?E\<^sup>*\<^sup>* q m" "q \<noteq> m" for f q
    using that
  proof (induction f arbitrary: q)
    case 0
    then show ?case using above_pos [of q ?N r] by simp
  next
    case (Suc f)
    show ?case
    proof (cases "nnext t q")
      case None
      then show ?thesis using reach_end [OF Suc.prems(3) None] Suc.prems(4) by simp
    next
      case (Some y)
      show ?thesis
      proof (cases "y = m")
        case True
        with Some Suc.prems(2) show ?thesis by simp
      next
        case False
        have "y < ?N" using chain_succ [OF inv Suc.prems(2) Some] by simp
        moreover have "card (above ?N r y) \<le> f"
          using above_less [OF r [OF Suc.prems(2) Some] Suc.prems(2)] Suc.prems(1) by simp
        moreover have "?E\<^sup>*\<^sup>* y m" using reach_step [OF Suc.prems(3) Some] Suc.prems(4) by simp
        ultimately show ?thesis using Suc.IH [of y] False Some by simp
      qed
    qed
  qed
  show ?thesis using main [OF above_card q] that by blast
qed

subsection \<open>Lookups across the three ways to write a key\<close>

lemma node_has_own:
  assumes "V m = LNil" "\<And>i j. i < N \<Longrightarrow> j < N \<Longrightarrow> luaO_rawequalObj (K i) (K j) \<Longrightarrow> K i \<noteq> LNil \<Longrightarrow> i = j"
    and "m < N" "valid_key k'" "node_has N K V k' v"
  shows "node_has N (K(m := k)) V k' v"
  using assms(5) unfolding node_has_def
proof (elim disjE exE conjE)
  fix j assume j: "j < N" "luaO_rawequalObj (K j) k'" "V j = v"
  show "(\<exists>j<N. luaO_rawequalObj ((K(m := k)) j) k' \<and> V j = v) \<or>
      (\<forall>j<N. \<not> luaO_rawequalObj ((K(m := k)) j) k') \<and> v = LNil"
  proof (cases "j = m")
    case False
    with j show ?thesis by (intro disjI1 exI [of _ j]) simp
  next
    case True
    then have v: "v = LNil" using j assms(1) by simp
    have "\<not> luaO_rawequalObj (K i) k'" if "i < N" "i \<noteq> m" for i
    proof
      assume e: "luaO_rawequalObj (K i) k'"
      have "i = j" by (rule assms(2) [OF that(1) j(1) rawequal_both [OF e j(2)]])
          (use rawequal_valid_key [OF e assms(4)] in simp)
      with True that show False by simp
    qed
    with v assms(1,3) show ?thesis by (cases "luaO_rawequalObj k k'") auto
  qed
next
  assume a: "\<forall>j<N. \<not> luaO_rawequalObj (K j) k'" and v: "v = LNil"
  show "(\<exists>j<N. luaO_rawequalObj ((K(m := k)) j) k' \<and> V j = v) \<or>
      (\<forall>j<N. \<not> luaO_rawequalObj ((K(m := k)) j) k') \<and> v = LNil"
    using a v assms(1,3) by (cases "luaO_rawequalObj k k'") auto
qed

lemma node_has_insert:
  assumes "K n = LNil" "V n = LNil" "n < N" "valid_key k'" "node_has N K V k' v"
  shows "node_has N (K(n := k)) V k' v"
  using assms(5) unfolding node_has_def
proof (elim disjE exE conjE)
  fix j assume j: "j < N" "luaO_rawequalObj (K j) k'" "V j = v"
  have "K j \<noteq> LNil" using rawequal_valid_key [OF j(2) assms(4)] by simp
  with assms(1) have "j \<noteq> n" by auto
  with j show "(\<exists>j<N. luaO_rawequalObj ((K(n := k)) j) k' \<and> V j = v) \<or>
      (\<forall>j<N. \<not> luaO_rawequalObj ((K(n := k)) j) k') \<and> v = LNil"
    by (intro disjI1 exI [of _ j]) simp
next
  assume "\<forall>j<N. \<not> luaO_rawequalObj (K j) k'" "v = LNil"
  with assms(2,3) show "(\<exists>j<N. luaO_rawequalObj ((K(n := k)) j) k' \<and> V j = v) \<or>
      (\<forall>j<N. \<not> luaO_rawequalObj ((K(n := k)) j) k') \<and> v = LNil"
    by (cases "luaO_rawequalObj k k'") auto
qed

lemma node_has_move:
  assumes "K n = LNil" "V n = LNil" "n < N" "m < N" "m \<noteq> n" "valid_key k'" "node_has N K V k' v"
  shows "node_has N (K(n := K m, m := k)) (V(n := V m, m := LNil)) k' v"
  using assms(7) unfolding node_has_def
proof (elim disjE exE conjE)
  fix j assume j: "j < N" "luaO_rawequalObj (K j) k'" "V j = v"
  have "K j \<noteq> LNil" using rawequal_valid_key [OF j(2) assms(6)] by simp
  with assms(1) have "j \<noteq> n" by auto
  show "(\<exists>j<N. luaO_rawequalObj ((K(n := K m, m := k)) j) k' \<and> (V(n := V m, m := LNil)) j = v) \<or>
      (\<forall>j<N. \<not> luaO_rawequalObj ((K(n := K m, m := k)) j) k') \<and> v = LNil"
  proof (cases "j = m")
    case True
    with j assms(3,5) show ?thesis by (intro disjI1 exI [of _ n]) simp
  next
    case False
    with j \<open>j \<noteq> n\<close> show ?thesis by (intro disjI1 exI [of _ j]) simp
  qed
next
  assume a: "\<forall>j<N. \<not> luaO_rawequalObj (K j) k'" "v = LNil"
  show "(\<exists>j<N. luaO_rawequalObj ((K(n := K m, m := k)) j) k' \<and> (V(n := V m, m := LNil)) j = v) \<or>
      (\<forall>j<N. \<not> luaO_rawequalObj ((K(n := K m, m := k)) j) k') \<and> v = LNil"
  proof (cases "luaO_rawequalObj k k'")
    case True
    with a assms show ?thesis by (intro disjI1 exI [of _ m]) simp
  next
    case False
    with a assms show ?thesis by (intro disjI2) auto
  qed
qed

subsection \<open>The invariant across the three ways to write a key\<close>

text \<open>The part of the invariant that speaks of nodes, over the graph view of theory \<open>Lua_Chain\<close>.\<close>

definition wf_graph :: "nat \<Rightarrow> (TValue \<Rightarrow> nat) \<Rightarrow> (TValue \<Rightarrow> bool) \<Rightarrow> (nat \<Rightarrow> bool) \<Rightarrow> (nat \<Rightarrow> TValue)
    \<Rightarrow> (nat \<Rightarrow> TValue) \<Rightarrow> (nat \<Rightarrow> nat option) \<Rightarrow> bool" where
  "wf_graph N mp A F K V X \<longleftrightarrow>
     chain_inv N mp K X \<and>
     (\<forall>i < N. K i = LNil \<longrightarrow> V i = LNil) \<and>
     (\<forall>i < N. K i \<noteq> LNil \<longrightarrow> valid_key (K i) \<and> \<not> A (K i)) \<and>
     (\<forall>i < N. \<forall>j < N. luaO_rawequalObj (K i) (K j) \<longrightarrow> K i \<noteq> LNil \<longrightarrow> i = j) \<and>
     (\<forall>i < N. F i \<longrightarrow> K i \<noteq> LNil)"

definition lastfree_above :: "Table \<Rightarrow> nat \<Rightarrow> bool" where
  "lastfree_above t i \<longleftrightarrow> t_node t \<noteq> None \<and> t_lastfree t \<le> int i"

lemma lastfree_above_fields [simp]:
  "lastfree_above (upd_node t i f) = lastfree_above t" "lastfree_above (t\<lparr>t_flags := x\<rparr>) = lastfree_above t"
  by (simp_all add: lastfree_above_def [abs_def] upd_node_def)

lemma wf_table_graph:
  "wf_table t \<longleftrightarrow> wf_shape t \<and>
     wf_graph (sizenode t) (mainposition t) (in_array t) (lastfree_above t) (nkey t) (nval t) (nnext t)"
  unfolding wf_table_def wf_graph_def lastfree_above_def by blast

lemma distinct_upd:
  assumes "\<And>i j. i < N \<Longrightarrow> j < N \<Longrightarrow> luaO_rawequalObj (K i) (K j) \<Longrightarrow> K i \<noteq> LNil \<Longrightarrow> i = j"
    and "\<And>j. j < N \<Longrightarrow> \<not> luaO_rawequalObj (K j) k"
    and "i < N" "j < N" "luaO_rawequalObj ((K(m := k)) i) ((K(m := k)) j)" "(K(m := k)) i \<noteq> LNil"
  shows "i = j"
proof -
  consider "i = m" "j = m" | "i = m" "j \<noteq> m" | "i \<noteq> m" "j = m" | "i \<noteq> m" "j \<noteq> m" by blast
  then show ?thesis
  proof cases
    case 2
    then have "luaO_rawequalObj (K j) k" using assms(5) rawequal_sym by simp
    with assms(2,4) show ?thesis by blast
  next
    case 3
    then have "luaO_rawequalObj (K i) k" using assms(5) by simp
    with assms(2,3) show ?thesis by blast
  next
    case 4
    then show ?thesis using assms(1) [OF assms(3,4)] assms(5,6) by simp
  qed simp
qed

lemma wf_graphD:
  assumes "wf_graph N mp A F K V X"
  shows "chain_inv N mp K X" "i < N \<Longrightarrow> K i = LNil \<Longrightarrow> V i = LNil"
    "i < N \<Longrightarrow> K i \<noteq> LNil \<Longrightarrow> valid_key (K i) \<and> \<not> A (K i)"
    "i < N \<Longrightarrow> j < N \<Longrightarrow> luaO_rawequalObj (K i) (K j) \<Longrightarrow> K i \<noteq> LNil \<Longrightarrow> i = j"
    "i < N \<Longrightarrow> F i \<Longrightarrow> K i \<noteq> LNil"
  using assms unfolding wf_graph_def by blast+

lemma wf_graph_own:
  assumes g: "wf_graph N mp A F K V X" and "mp k < N" "valid_key k" "\<not> A k"
    and new: "\<And>j. j < N \<Longrightarrow> \<not> luaO_rawequalObj (K j) k"
  shows "wf_graph N mp A F (K(mp k := k)) V X"
  unfolding wf_graph_def
proof (intro conjI)
  note D = wf_graphD [OF g]
  have k: "k \<noteq> LNil" using assms(3) valid_key_not_nil by blast
  show "chain_inv N mp (K(mp k := k)) X" by (rule chain_set_own [OF D(1) assms(2) k])
  show "\<forall>i<N. (K(mp k := k)) i = LNil \<longrightarrow> V i = LNil" using D(2) k by simp
  show "\<forall>i<N. (K(mp k := k)) i \<noteq> LNil \<longrightarrow> valid_key ((K(mp k := k)) i) \<and> \<not> A ((K(mp k := k)) i)"
    using D(3) assms by simp
  show "\<forall>i<N. \<forall>j<N. luaO_rawequalObj ((K(mp k := k)) i) ((K(mp k := k)) j) \<longrightarrow>
      (K(mp k := k)) i \<noteq> LNil \<longrightarrow> i = j"
  proof (intro allI impI)
    fix i j assume a: "i < N" "j < N" "luaO_rawequalObj ((K(mp k := k)) i) ((K(mp k := k)) j)" "(K(mp k := k)) i \<noteq> LNil"
    show "i = j" by (rule distinct_upd [where K = K, OF D(4) new a])
  qed
  show "\<forall>i<N. F i \<longrightarrow> (K(mp k := k)) i \<noteq> LNil" using D(5) k by simp
qed

lemma wf_graph_insert:
  assumes g: "wf_graph N mp A F K V X"
    and m: "m = mp k" "m < N" "K m \<noteq> LNil" "mp (K m) = m"
    and n: "n < N" "K n = LNil" and k: "valid_key k" "\<not> A k"
    and new: "\<And>j. j < N \<Longrightarrow> \<not> luaO_rawequalObj (K j) k"
    and F: "\<And>i. i < N \<Longrightarrow> F' i \<Longrightarrow> i = n \<or> K i \<noteq> LNil"
  shows "wf_graph N mp A F' (K(n := k)) V (X(n := X m, m := Some n))"
  unfolding wf_graph_def
proof (intro conjI)
  note D = wf_graphD [OF g]
  have nil: "k \<noteq> LNil" using k valid_key_not_nil by blast
  show "chain_inv N mp (K(n := k)) (X(n := X m, m := Some n))" by (rule chain_insert [OF D(1) m n nil])
  show "\<forall>i<N. (K(n := k)) i = LNil \<longrightarrow> V i = LNil" using D(2) nil by simp
  show "\<forall>i<N. (K(n := k)) i \<noteq> LNil \<longrightarrow> valid_key ((K(n := k)) i) \<and> \<not> A ((K(n := k)) i)"
    using D(3) k by simp
  show "\<forall>i<N. \<forall>j<N. luaO_rawequalObj ((K(n := k)) i) ((K(n := k)) j) \<longrightarrow> (K(n := k)) i \<noteq> LNil \<longrightarrow> i = j"
  proof (intro allI impI)
    fix i j assume a: "i < N" "j < N" "luaO_rawequalObj ((K(n := k)) i) ((K(n := k)) j)" "(K(n := k)) i \<noteq> LNil"
    show "i = j" by (rule distinct_upd [where K = K, OF D(4) new a])
  qed
  show "\<forall>i<N. F' i \<longrightarrow> (K(n := k)) i \<noteq> LNil" using F nil by auto
qed

lemma wf_graph_move:
  assumes g: "wf_graph N mp A F K V X"
    and m: "m = mp k" "m < N" "K m \<noteq> LNil" "mp (K m) \<noteq> m"
    and n: "n < N" "K n = LNil" and k: "valid_key k" "\<not> A k"
    and new: "\<And>j. j < N \<Longrightarrow> \<not> luaO_rawequalObj (K j) k"
    and F: "\<And>i. i < N \<Longrightarrow> F' i \<Longrightarrow> i = n \<or> K i \<noteq> LNil"
    and p: "p < N" "X p = Some m" and mp: "\<And>x. mp x < N"
  shows "wf_graph N mp A F' (K(n := K m, m := k)) (V(n := V m, m := LNil)) (X(p := Some n, n := X m, m := None))"
  unfolding wf_graph_def
proof (intro conjI)
  note D = wf_graphD [OF g]
  let ?K = "K(n := K m, m := k)"
  have nil: "k \<noteq> LNil" using k valid_key_not_nil by blast
  have nm: "n \<noteq> m" using m n by auto
  show "chain_inv N mp ?K (X(p := Some n, n := X m, m := None))"
    by (rule chain_move [OF D(1) m n nil p mp])
  show "\<forall>i<N. ?K i = LNil \<longrightarrow> (V(n := V m, m := LNil)) i = LNil" using D(2) m(3) by simp
  show "\<forall>i<N. ?K i \<noteq> LNil \<longrightarrow> valid_key (?K i) \<and> \<not> A (?K i)"
    using D(3) k m by simp
  show "\<forall>i<N. \<forall>j<N. luaO_rawequalObj (?K i) (?K j) \<longrightarrow> ?K i \<noteq> LNil \<longrightarrow> i = j"
  proof (intro allI impI)
    fix i j assume a: "i < N" "j < N" "luaO_rawequalObj (?K i) (?K j)" "?K i \<noteq> LNil"
    let ?s = "\<lambda>x. if x = n then m else x"
    show "i = j"
    proof (cases "i = m \<or> j = m")
      case True
      then have "i = m \<and> j = m"
      proof
        assume i: "i = m"
        show ?thesis
        proof (cases "j = m")
          case False
          then have "luaO_rawequalObj (K (?s j)) k" using a(3) i rawequal_sym by auto
          with new [of "?s j"] a(2) m(2) show ?thesis by (simp split: if_splits)
        qed (simp add: i)
      next
        assume j: "j = m"
        show ?thesis
        proof (cases "i = m")
          case False
          then have "luaO_rawequalObj (K (?s i)) k" using a(3) j by auto
          with new [of "?s i"] a(1) m(2) show ?thesis by (simp split: if_splits)
        qed (simp add: j)
      qed
      then show ?thesis by simp
    next
      case False
      then have "?s i = ?s j"
        using D(4) [of "?s i" "?s j"] a m(2) nm by (simp split: if_splits)
      with False nm show ?thesis by (simp split: if_splits)
    qed
  qed
  show "\<forall>i<N. F' i \<longrightarrow> ?K i \<noteq> LNil" using F m(3) nil by auto
qed

subsection \<open>Insertion of a new key\<close>

definition used :: "Table \<Rightarrow> nat set" where
  "used t = {i. i < sizenode t \<and> nkey t i \<noteq> LNil}"

lemma used_finite [simp]: "finite (used t)"
  by (simp add: used_def)

lemma card_used_full:
  assumes "\<forall>i < sizenode t. nkey t i \<noteq> LNil" shows "card (used t) = sizenode t"
proof -
  have "used t = {..<sizenode t}" using assms by (auto simp: used_def)
  then show ?thesis by simp
qed

text \<open>What \<open>newkey\<close> writes: every lookup is kept, and the key has a slot with value nil.\<close>

definition key_written :: "Table \<Rightarrow> TValue \<Rightarrow> Table \<Rightarrow> nat \<Rightarrow> bool" where
  "key_written t k t' m \<longleftrightarrow>
     wf_table t' \<and> m < sizenode t' \<and> nkey t' m = k \<and> nval t' m = LNil \<and>
     t_node t' \<noteq> None \<and> t_array t' = t_array t \<and> t_lsizenode t' = t_lsizenode t \<and>
     t_flags t' = t_flags t \<and> t_metatable t' = t_metatable t \<and>
     card (used t') \<le> Suc (card (used t)) \<and>
     (\<forall>k'. valid_key k' \<longrightarrow> tget t' k' = tget t k')"

lemma wf_shape_upd [simp]: "wf_shape (upd_node t i f) \<longleftrightarrow> wf_shape t"
  by (auto simp: wf_shape_def upd_node_def sizenode_def sizearray_def split: option.splits)

lemma wf_shape_lastfree: "wf_shape t \<Longrightarrow> y \<le> t_lastfree t \<Longrightarrow> wf_shape (t\<lparr>t_lastfree := y\<rparr>)"
  by (auto simp: wf_shape_def sizenode_def sizearray_def split: option.splits)

lemma find_key_None:
  "find_key t k = None \<longleftrightarrow> \<not> in_array t k \<and> (\<forall>j < sizenode t. \<not> luaO_rawequalObj (nkey t j) k)"
  by (auto simp: find_key_def find_None_iff)

lemma card_insert_le_Suc: "finite B \<Longrightarrow> A \<subseteq> insert n B \<Longrightarrow> card A \<le> Suc (card B)"
  using card_mono [of "insert n B" A] by (simp add: card_insert_if split: if_splits)

lemma key_written_via:
  assumes wf: "wf_table t" and N: "t_node t \<noteq> None"
    and f: "wf_shape t'" "t_node t' \<noteq> None" "t_array t' = t_array t" "t_lsizenode t' = t_lsizenode t"
      "t_flags t' = t_flags t" "t_metatable t' = t_metatable t"
    and g: "wf_graph (sizenode t) (mainposition t) (in_array t) (lastfree_above t') (nkey t') (nval t') (nnext t')"
    and m: "m < sizenode t" "nkey t' m = k" "nval t' m = LNil"
    and u: "\<And>i. i < sizenode t \<Longrightarrow> nkey t' i \<noteq> LNil \<Longrightarrow> nkey t i = LNil \<Longrightarrow> i = n"
    and has: "\<And>k' v. valid_key k' \<Longrightarrow> node_has (sizenode t) (nkey t) (nval t) k' v \<Longrightarrow>
       node_has (sizenode t) (nkey t') (nval t') k' v"
  shows "key_written t k t' m"
proof -
  have sz: "sizenode t' = sizenode t" "sizearray t' = sizearray t" using f by (simp_all add: sizenode_def sizearray_def)
  have mp: "mainposition t' = mainposition t" by (rule ext, rule mainposition_cong) (rule f)
  have ia: "in_array t' = in_array t" by (simp add: in_array_def [abs_def] sz)
  have wf': "wf_table t'" unfolding wf_table_graph sz mp ia using f(1) g by blast
  have "tget t' k' = tget t k'" if k': "valid_key k'" for k'
  proof (cases "in_array t k'")
    case True
    then show ?thesis using tget_array [OF wf k'] tget_array [OF wf' k'] ia f(3) by simp
  next
    case False
    have "node_has (sizenode t) (nkey t) (nval t) k' (tget t k')"
      using tget_node_has [OF wf k' False] by simp
    then have "node_has (sizenode t') (nkey t') (nval t') k' (tget t k')" using has [OF k'] sz by simp
    then show ?thesis using tget_node_has [OF wf' k'] False ia by simp
  qed
  moreover have "card (used t') \<le> Suc (card (used t))"
  proof (rule card_insert_le_Suc [where n = n])
    show "used t' \<subseteq> insert n (used t)" using u sz by (auto simp: used_def)
  qed simp
  ultimately show ?thesis unfolding key_written_def using wf' m sz f by simp
qed

lemma newkey_spec:
  assumes wf: "wf_table t" and k: "valid_key k" and new: "find_key t k = None"
  obtains (written) t' m where "newkey reh t k = Inr (t', SNode m)" "key_written t k t' m"
  | (full) y where "newkey reh t k = reh (t\<lparr>t_lastfree := y\<rparr>) k" "y < t_lastfree t" "y < 0"
      "t_node t = None \<or> card (used t) = sizenode t"
proof -
  let ?N = "sizenode t" and ?mp = "mainposition t"
  define m where "m = ?mp k"
  have m: "m < ?N" using wf by (simp add: m_def)
  have g: "wf_graph ?N ?mp (in_array t) (lastfree_above t) (nkey t) (nval t) (nnext t)"
    and sh: "wf_shape t" using wf by (simp_all add: wf_table_graph)
  note D = wf_graphD [OF g]
  have k': "\<not> in_array t k" "\<And>j. j < ?N \<Longrightarrow> \<not> luaO_rawequalObj (nkey t j) k"
    using new find_key_None by blast+
  show ?thesis
  proof (cases "nval t m \<noteq> LNil \<or> t_node t = None")
    case False
    then have N: "t_node t \<noteq> None" and v: "nval t m = LNil" by simp_all
    let ?t = "upd_node t m (\<lambda>n. n\<lparr>i_key := k\<rparr>)"
    have gn: "nkey ?t = (nkey t)(m := k)" "nval ?t = nval t" "nnext ?t = nnext t"
      using gnode_upd [OF wf_nodesI [OF sh N] m] by (simp_all add: fun_eq_iff)
    have "key_written t k ?t m"
    proof (rule key_written_via [OF wf N, where n = m])
      show "wf_graph ?N ?mp (in_array t) (lastfree_above ?t) (nkey ?t) (nval ?t) (nnext ?t)"
        using wf_graph_own [OF g _ k k'] m unfolding gn by (simp add: m_def)
      show "node_has ?N (nkey ?t) (nval ?t) k'' w" if "valid_key k''" "node_has ?N (nkey t) (nval t) k'' w" for k'' w
        unfolding gn by (rule node_has_own [OF v D(4) m that])
    qed (use sh N m v in \<open>simp_all add: gn [THEN fun_cong] split: if_splits\<close>)
    moreover have "newkey reh t k = Inr (?t, SNode m)"
      using N v by (auto simp: newkey_def set_key_def m_def Let_def)
    ultimately show ?thesis using written by blast
  next
    case busy: True
    obtain t1 r where t1: "getfreepos t = (t1, r)" by fastforce
    have lf: "t_lastfree t \<le> int ?N" using sh by (simp add: wf_shape_def)
    show ?thesis
    proof (cases "t_node t = None")
      case True
      then have "t_lastfree t \<le> 0" using sh by (simp add: wf_shape_def)
      then have "getfreepos t = (t\<lparr>t_lastfree := t_lastfree t - 1\<rparr>, None)"
        by (simp add: getfreepos.simps [of t])
      then have "newkey reh t k = reh (t\<lparr>t_lastfree := t_lastfree t - 1\<rparr>) k"
        using busy by (simp add: newkey_def m_def Let_def)
      then show ?thesis by (rule full) (use True \<open>t_lastfree t \<le> 0\<close> in simp_all)
    next
      case N: False
      then have bz: "nval t m \<noteq> LNil" using busy by (elim disjE) simp_all
      have lfree: "\<And>i. i < ?N \<Longrightarrow> t_lastfree t \<le> int i \<Longrightarrow> nkey t i \<noteq> LNil"
        using D(5) N by (simp add: lastfree_above_def)
      obtain y where y: "t1 = t\<lparr>t_lastfree := y\<rparr>" "y < t_lastfree t"
        "case r of
           Some n \<Rightarrow> n < ?N \<and> y = int n \<and> nkey t n = LNil \<and> (\<forall>i < ?N. n < i \<longrightarrow> nkey t i \<noteq> LNil)
         | None \<Rightarrow> y < 0 \<and> (\<forall>i < ?N. nkey t i \<noteq> LNil)"
        using getfreepos_spec [OF lf lfree t1] by blast
      show ?thesis
      proof (cases r)
        case None
        have "newkey reh t k = reh (t\<lparr>t_lastfree := y\<rparr>) k"
          using bz t1 None y(1) by (simp add: newkey_def m_def Let_def)
        then show ?thesis by (rule full) (use y None card_used_full in simp_all)
      next
        case (Some n)
        then have n: "n < ?N" "nkey t n = LNil" "nval t n = LNil" and lf1: "y = int n"
          and above: "\<And>i. i < ?N \<Longrightarrow> n < i \<Longrightarrow> nkey t i \<noteq> LNil" using y(3) D(2) by auto
        have Km: "nkey t m \<noteq> LNil" using D(2) [OF m] busy N by auto
        then have nm: "n \<noteq> m" using n by auto
        have sh1: "wf_shape t1" unfolding y(1) by (rule wf_shape_lastfree [OF sh]) (use y in simp)
        have wn: "wf_nodes t1" unfolding y(1) by (rule wf_nodesI) (use sh1 N y(1) in simp_all)
        have t1f: "t_array t1 = t_array t" "t_lsizenode t1 = t_lsizenode t" "t_flags t1 = t_flags t"
          "t_metatable t1 = t_metatable t" "t_node t1 = t_node t" by (simp_all add: y(1))
        have t1': "gnode t1 = gnode t" "sizenode t1 = ?N" "mainposition t1 = ?mp" by (simp_all add: y(1))
        have F': "i = n \<or> nkey t i \<noteq> LNil" if "i < ?N" "t_lastfree t1 \<le> int i" for i
          using above [OF that(1)] that(2) lf1 y(1) by (cases "i = n") auto
        show ?thesis
        proof (cases "?mp (nkey t m) = m")
          case True
          let ?t2 = "upd_node t1 n (\<lambda>x. x\<lparr>i_next := nnext t m\<rparr>)"
          let ?t3 = "upd_node ?t2 m (\<lambda>x. x\<lparr>i_next := Some n\<rparr>)"
          let ?t' = "upd_node ?t3 n (\<lambda>x. x\<lparr>i_key := k\<rparr>)"
          have gn: "nkey ?t' = (nkey t)(n := k)" "nval ?t' = nval t"
            "nnext ?t' = (nnext t)(n := nnext t m, m := Some n)"
            using wn n m nm by (simp_all add: gnode_upd t1' fun_eq_iff)
          have "key_written t k ?t' n"
          proof (rule key_written_via [OF wf N, where n = n])
            show "wf_graph ?N ?mp (in_array t) (lastfree_above ?t') (nkey ?t') (nval ?t') (nnext ?t')"
              unfolding gn
              by (rule wf_graph_insert [OF g m_def m Km True n(1,2) k k'])
                (use F' wf in \<open>simp_all add: lastfree_above_def\<close>)
            show "node_has ?N (nkey ?t') (nval ?t') k'' w"
              if "valid_key k''" "node_has ?N (nkey t) (nval t) k'' w" for k'' w
              unfolding gn by (rule node_has_insert [OF n(2,3,1) that])
          qed (use sh1 N n t1f in \<open>simp_all add: gn [THEN fun_cong] split: if_splits\<close>)
          moreover have "newkey reh t k = Inr (?t', SNode n)"
            using bz Some True by (simp add: newkey_def set_key_def m_def [symmetric] t1 t1' Let_def)
          ultimately show ?thesis using written by blast
        next
          case False
          let ?q = "?mp (nkey t m)"
          have "chain_inv (sizenode t1) ?mp (nkey t1) (nnext t1)" "?q < sizenode t1"
            "(edge (sizenode t1) (nnext t1))\<^sup>*\<^sup>* ?q m"
            using D(1) chain_reach [OF D(1) m Km] wf by (simp_all add: t1')
          then obtain p where p: "find_prev t1 m (sizenode t1) ?q = Inr p" "p < ?N" "nnext t p = Some m"
            using find_prev_spec [of t1 ?mp ?q m] False by (auto simp: t1')
          have pm: "p \<noteq> m" using chain_no_loop [OF D(1) m] p by auto
          let ?t2 = "upd_node t1 p (\<lambda>x. x\<lparr>i_next := Some n\<rparr>)"
          let ?t3 = "upd_node ?t2 n (\<lambda>_. gnode ?t2 m)"
          let ?t4 = "upd_node ?t3 m (\<lambda>x. x\<lparr>i_next := None, i_val := LNil\<rparr>)"
          let ?t' = "upd_node ?t4 m (\<lambda>x. x\<lparr>i_key := k\<rparr>)"
          have gn: "nkey ?t' = (nkey t)(n := nkey t m, m := k)" "nval ?t' = (nval t)(n := nval t m, m := LNil)"
            "nnext ?t' = (nnext t)(p := Some n, n := nnext t m, m := None)"
            using wn n m p nm pm by (simp_all add: gnode_upd t1' fun_eq_iff)
          have "key_written t k ?t' m"
          proof (rule key_written_via [OF wf N, where n = n])
            show "wf_graph ?N ?mp (in_array t) (lastfree_above ?t') (nkey ?t') (nval ?t') (nnext ?t')"
              unfolding gn
              by (rule wf_graph_move [OF g m_def m Km False n(1,2) k k' _ p(2,3)])
                (use F' wf in \<open>simp_all add: lastfree_above_def\<close>)
            show "node_has ?N (nkey ?t') (nval ?t') k'' w"
              if "valid_key k''" "node_has ?N (nkey t) (nval t) k'' w" for k'' w
              unfolding gn by (rule node_has_move [OF n(2,3,1) m nm [symmetric] that])
          qed (use sh1 N n m Km t1f in \<open>simp_all add: gn [THEN fun_cong] split: if_splits\<close>)
          moreover have "newkey reh t k = Inr (?t', SNode m)"
            using bz Some False p(1)
            by (simp add: newkey_def set_key_def m_def [symmetric] t1 t1' Let_def)
          ultimately show ?thesis using written by blast
        qed
      qed
    qed
  qed
qed

subsection \<open>Writing a slot\<close>

lemma find_key_slot:
  assumes wf: "wf_table t" and k: "valid_key k" and s: "find_key t k = Some s"
  obtains (array) i where "s = SArray i" "in_array t k" "i = nat (arrayindex k - 1)" "i < sizearray t"
  | (node) j ns where "s = SNode j" "j < sizenode t" "luaO_rawequalObj (nkey t j) k" "\<not> in_array t k"
      "nkey t j \<noteq> LNil" "t_node t = Some ns"
proof (cases "in_array t k")
  case True
  then have "s = SArray (nat (arrayindex k - 1))" "nat (arrayindex k - 1) < sizearray t"
    using s by (auto simp: find_key_def in_array_def)
  with True show ?thesis using array by blast
next
  case False
  then obtain j where j: "s = SNode j" "j < sizenode t" "luaO_rawequalObj (nkey t j) k"
    using s by (auto simp: find_key_def find_Some_iff)
  have nn: "nkey t j \<noteq> LNil" using rawequal_valid_key [OF j(3) k] by simp
  have "t_node t \<noteq> None"
  proof
    assume "t_node t = None"
    then have "sizenode t = 1" "gnode t 0 = dummynode"
      using wf by (simp_all add: wf_table_def wf_shape_def sizenode_def twoto_def gnode_def nodes_def)
    with j(2) nn show False by (simp add: dummynode_def)
  qed
  then show ?thesis using node [OF j False nn] by blast
qed

lemma find_key_same:
  assumes wf: "wf_table t" and k: "valid_key k" "valid_key k'" and s: "find_key t k = Some s"
  shows "find_key t k' = Some s \<longleftrightarrow> luaO_rawequalObj k' k"
proof
  assume s': "find_key t k' = Some s"
  from wf k(1) s show "luaO_rawequalObj k' k"
  proof (cases rule: find_key_slot)
    case (array i)
    with s' have "in_array t k'" and e: "nat (arrayindex k' - 1) = i"
      by (auto simp: find_key_def split: if_splits)
    with array have "0 < arrayindex k'" "0 < arrayindex k" by (simp_all add: in_array_def)
    moreover from this e array(3) have "arrayindex k' = arrayindex k" by arith
    ultimately have "0 < arrayindex k'" "0 < arrayindex k" "arrayindex k' = arrayindex k" by simp_all
    then show ?thesis
      by (elim arrayindex_pos) (metis luai_numeq_sym luai_numeq_trans rawequal_num)
  next
    case (node j ns)
    with s' have "luaO_rawequalObj (nkey t j) k'"
      by (auto simp: find_key_def find_Some_iff split: if_splits)
    with node(3) show ?thesis using rawequal_sym rawequal_trans by blast
  qed
next
  assume "luaO_rawequalObj k' k"
  then show "find_key t k' = Some s" using s find_key_rawequal by metis
qed

lemma find_key_cong:
  "sizearray t' = sizearray t \<Longrightarrow> sizenode t' = sizenode t \<Longrightarrow> nkey t' = nkey t \<Longrightarrow> find_key t' k = find_key t k"
  by (simp add: find_key_def in_array_def fun_eq_iff)

text \<open>Assigning through the slot of a key changes the lookup of that key and of no other.\<close>

lemma slot_set_spec:
  assumes wf: "wf_table t" and k: "valid_key k" and s: "find_key t k = Some s"
  shows "wf_table (slot_set t s v)"
    and "used (slot_set t s v) = used t" "sizenode (slot_set t s v) = sizenode t"
    and "find_key (slot_set t s v) = find_key t" "t_node (slot_set t s v) = None \<longleftrightarrow> t_node t = None"
    and "sizearray (slot_set t s v) = sizearray t"
    and "valid_key k' \<Longrightarrow> tget (slot_set t s v) k' = (if luaO_rawequalObj k' k then v else tget t k')"
proof -
  let ?t = "slot_set t s v"
  have gr: "wf_shape ?t \<and> t_lsizenode ?t = t_lsizenode t \<and> lastfree_above ?t = lastfree_above t \<and> sizearray ?t = sizearray t \<and>
    (t_node ?t = None \<longleftrightarrow> t_node t = None) \<and> nkey ?t = nkey t \<and> nnext ?t = nnext t \<and>
    (\<forall>i < sizenode t. nkey t i = LNil \<longrightarrow> nval ?t i = LNil) \<and>
    (\<forall>s'. slot_val ?t s' = (if s' = s then v else slot_val t s'))"
    using wf k s
  proof (cases rule: find_key_slot)
    case (array i)
    have "slot_val ?t s' = (if s' = s then v else slot_val t s')" for s'
      using array by (cases s') (simp_all add: sizearray_def)
    moreover have "wf_shape ?t" using wf array
      by (auto simp: wf_table_def wf_shape_def sizearray_def sizenode_def split: option.splits)
    ultimately show ?thesis using array wf_free [OF wf]
      by (simp add: sizearray_def lastfree_above_def [abs_def])
  next
    case (node j ns)
    have sh: "wf_shape t" using wf by (simp add: wf_table_def)
    note g = gnode_upd [OF wf_nodesI [OF sh] node(2), of "\<lambda>n. n\<lparr>i_val := v\<rparr>"]
    have "slot_val ?t s' = (if s' = s then v else slot_val t s')" for s'
      using node g by (cases s') simp_all
    then show ?thesis using node g sh wf_free [OF wf] by (auto simp: fun_eq_iff)
  qed
  then have sz: "sizenode ?t = sizenode t" by (simp add: sizenode_def)
  have mp: "mainposition ?t = mainposition t" by (rule ext, rule mainposition_cong) (use gr in simp)
  have ia: "in_array ?t = in_array t" by (simp add: in_array_def [abs_def] gr)
  show wf': "wf_table ?t" unfolding wf_table_graph mp ia sz
    using gr wf by (simp add: wf_table_graph wf_graph_def)
  show "used ?t = used t" using gr [THEN conjunct2] by (simp add: used_def sz fun_eq_iff)
  show "sizenode ?t = sizenode t" by (rule sz)
  show "t_node ?t = None \<longleftrightarrow> t_node t = None" "sizearray ?t = sizearray t" using gr by simp_all
  show fk: "find_key ?t = find_key t" by (rule ext, rule find_key_cong) (use gr sz in simp_all)
  assume k': "valid_key k'"
  show "tget ?t k' = (if luaO_rawequalObj k' k then v else tget t k')"
    using find_key_same [OF wf k k' s] gr
    by (auto simp: tget_find [OF wf' k'] tget_find [OF wf k'] fk slot_value_def split: option.splits)
qed

end
