(* ===== verification/Lua_Table_Count.thy ===== *)
theory Lua_Table_Count
  imports Lua_Table_Set
begin

text \<open>
  The counting half of \<open>rehash\<close>: \<open>numusearray\<close>, \<open>numusehash\<close> and \<open>countint\<close> fill
  \<open>nums\<close> with the number of live integer keys in each slice between two powers of two, and
  \<open>computesizes\<close> picks the largest power of two such that more than half of the array would be
  in use.
\<close>

subsection \<open>Slices\<close>

definition slice_sizes :: "nat list \<Rightarrow> nat list" where
  "slice_sizes xs = map (\<lambda>lg. length (filter (\<lambda>x. ceillog2 x = lg) xs)) [0..<Suc MAXBITS]"

lemma length_slice_sizes [simp]: "length (slice_sizes xs) = 27"
  by (simp add: slice_sizes_def MAXBITS_def)

lemma slice_sizes_nth [simp]: "lg \<le> 26 \<Longrightarrow> slice_sizes xs ! lg = length (filter (\<lambda>x. ceillog2 x = lg) xs)"
  unfolding slice_sizes_def MAXBITS_def by (subst nth_map) (simp_all del: upt_Suc)

lemma ceillog2_le_iff: "0 < x \<Longrightarrow> ceillog2 x \<le> i \<longleftrightarrow> x \<le> 2 ^ i"
proof
  assume "0 < x" "ceillog2 x \<le> i"
  then have "x \<le> 2 ^ ceillog2 x" "(2::nat) ^ ceillog2 x \<le> 2 ^ i"
    using ceillog2_le [of x] by simp_all
  then show "x \<le> 2 ^ i" by (rule order_trans)
next
  assume x: "0 < x" "x \<le> 2 ^ i"
  show "ceillog2 x \<le> i"
  proof (cases "x \<le> 1")
    case False
    have "2 ^ ilog2 (x - 1) \<le> x - 1" using ilog2_bounds [of "x - 1"] False by simp
    also have "\<dots> < 2 ^ i" using x by simp
    finally show ?thesis using False by (simp add: ceillog2_eq Suc_le_eq)
  qed (simp add: ceillog2_eq)
qed

lemma filter_length_split:
  "length (filter (\<lambda>x. f x < Suc i) xs) = length (filter (\<lambda>x. f x < i) xs) + length (filter (\<lambda>x. f x = (i::nat)) xs)"
  by (induction xs) auto

lemma filter_all_length: "(\<And>x. x \<in> set xs \<Longrightarrow> P x) \<Longrightarrow> length (filter P xs) = length xs"
  by (induction xs) auto

lemma filter_length_eq_all: "length (filter P xs) = length xs \<Longrightarrow> x \<in> set xs \<Longrightarrow> P x"
  by (metis filter_id_conv length_filter_less nat_neq_iff)

subsection \<open>computesizes\<close>

definition upto_count :: "nat list \<Rightarrow> nat \<Rightarrow> nat" where
  "upto_count xs n = length (filter (\<lambda>x. x \<le> n) xs)"

lemma upto_count_pow:
  assumes "\<And>x. x \<in> set xs \<Longrightarrow> 0 < x"
  shows "upto_count xs (2 ^ i) = length (filter (\<lambda>x. ceillog2 x < Suc i) xs)"
  unfolding upto_count_def
  by (rule arg_cong [where f = length], rule filter_cong) (simp_all add: assms ceillog2_le_iff less_Suc_eq_le)

lemma computesizes_loop_none: "\<not> 2 ^ i div 2 < narray \<Longrightarrow> computesizes_loop nums narray i a na n = (n, na)"
  by (simp add: computesizes_loop.simps [of nums narray i])

lemma computesizes_loop_spec:
  assumes pos: "\<And>x. x \<in> set xs \<Longrightarrow> 0 < x \<and> x \<le> 2 ^ 26"
    and "i \<le> 27" "i = 27 \<Longrightarrow> xs = []"
    and "a = length (filter (\<lambda>x. ceillog2 x < i) xs)" "a \<noteq> length xs \<or> xs = []"
    and "na = upto_count xs n" "n = 0 \<or> (\<exists>k < i. n = 2 ^ k)" "n div 2 < na \<or> n = 0"
    and "computesizes_loop (slice_sizes xs) (length xs) i a na n = (n', na')"
  shows "na' = upto_count xs n' \<and> (n' = 0 \<or> (\<exists>k \<le> 26. n' = 2 ^ k)) \<and> (n' div 2 < na' \<or> n' = 0)"
  using assms(2-)
proof (induction "27 - i" arbitrary: i a na n)
  case 0
  then have "xs = []" by simp
  with 0 show ?case by (auto simp: computesizes_loop_none less_Suc_eq_le)
next
  case (Suc d)
  show ?case
  proof (cases "2 ^ i div 2 < length xs")
    case False
    have "i \<le> 27 \<Longrightarrow> k < i \<Longrightarrow> k \<le> 26" for k by simp
    with False Suc.prems show ?thesis by (auto simp: computesizes_loop_none)
  next
    case True
    then have ne: "xs \<noteq> []" by auto
    with Suc.prems(1,2) have i: "i \<le> 26" by (cases "i = 27") simp_all
    define c where "c = length (filter (\<lambda>x. ceillog2 x = i) xs)"
    define a' where "a' = a + c"
    define n1 where "n1 = (if c > 0 \<and> a' > 2 ^ i div 2 then 2 ^ i else n)"
    define na1 where "na1 = (if c > 0 \<and> a' > 2 ^ i div 2 then a' else na)"
    have a': "a' = length (filter (\<lambda>x. ceillog2 x < Suc i) xs)"
      by (simp add: a'_def c_def Suc.prems(3) filter_length_split)
    have cnt: "upto_count xs (2 ^ i) = a'" using upto_count_pow [of xs i] pos a' by blast
    have step: "computesizes_loop (slice_sizes xs) (length xs) i a na n =
       (if a' = length xs then (n1, na1) else computesizes_loop (slice_sizes xs) (length xs) (Suc i) a' na1 n1)"
      using True i by (simp add: computesizes_loop.simps [of _ _ i] c_def [symmetric] a'_def n1_def na1_def Let_def)
    have n1: "na1 = upto_count xs n1" "n1 = 0 \<or> (\<exists>k < Suc i. n1 = 2 ^ k)" "n1 div 2 < na1 \<or> n1 = 0"
      using Suc.prems(5-7) cnt by (auto simp: n1_def na1_def intro: less_SucI)
    show ?thesis
    proof (cases "a' = length xs")
      case True
      then show ?thesis using step Suc.prems(8) n1 i by (auto simp: less_Suc_eq_le intro: order_trans)
    next
      case False
      have "i \<noteq> 26"
      proof
        assume "i = 26"
        then have "upto_count xs (2 ^ i) = length xs"
          unfolding upto_count_def by (intro filter_all_length) (use pos in simp)
        with cnt False show False by simp
      qed
      then show ?thesis
        by (intro Suc.hyps(1) [of "Suc i" a' na1 n1])
          (use Suc.hyps(2) Suc.prems(8) i False n1 step a' in simp_all)
    qed
  qed
qed

text \<open>The size found is 0 or a power of two, \<open>na\<close> is the number of keys it takes, and they fill more than half.\<close>

lemma computesizes_spec:
  assumes pos: "\<And>x. x \<in> set xs \<Longrightarrow> 0 < x \<and> x \<le> 2 ^ 26"
    and c: "computesizes (slice_sizes xs) (length xs) = (n, na)"
  shows "na = upto_count xs n" "n = 0 \<or> (\<exists>k \<le> 26. n = 2 ^ k)" "n div 2 < na \<or> n = 0"
proof -
  have "upto_count xs 0 = 0" using pos by (auto simp: upto_count_def filter_empty_conv)
  then show "na = upto_count xs n" "n = 0 \<or> (\<exists>k \<le> 26. n = 2 ^ k)" "n div 2 < na \<or> n = 0"
    using computesizes_loop_spec [of xs 0 0 0 0 n na, OF pos] c by (auto simp: computesizes_def)
qed

text \<open>And no larger power of two would be more than half full, when no key is counted twice.\<close>

lemma upto_count_le:
  assumes "\<And>x. x \<in> set xs \<Longrightarrow> 0 < x" "distinct xs" shows "upto_count xs n \<le> n"
proof -
  have "upto_count xs n = card (set (filter (\<lambda>x. x \<le> n) xs))"
    using distinct_card [of "filter (\<lambda>x. x \<le> n) xs"] assms(2) by (simp add: upto_count_def)
  also have "\<dots> \<le> card {1..n}"
    by (rule card_mono) (use assms(1) in \<open>auto simp: Suc_le_eq\<close>)
  finally show ?thesis by simp
qed

lemma upto_count_length: "upto_count xs n \<le> length xs"
  by (simp add: upto_count_def)

lemma pow_div_2_mono: "i \<le> k \<Longrightarrow> (2::nat) ^ i div 2 \<le> 2 ^ k div 2"
  by (intro div_le_mono power_increasing) simp_all

lemma computesizes_loop_optimal:
  assumes pos: "\<And>x. x \<in> set xs \<Longrightarrow> 0 < x \<and> x \<le> 2 ^ 26" and d: "distinct xs"
    and "i \<le> 27" "i = 27 \<Longrightarrow> xs = []"
    and "a = length (filter (\<lambda>x. ceillog2 x < i) xs)"
    and "\<And>k. k < i \<Longrightarrow> 2 ^ k div 2 < upto_count xs (2 ^ k) \<Longrightarrow> 2 ^ k \<le> n"
    and "computesizes_loop (slice_sizes xs) (length xs) i a na n = (n', na')"
    and k: "2 ^ k div 2 < upto_count xs (2 ^ k)"
  shows "2 ^ k \<le> n'"
  using assms(3-7)
proof (induction "27 - i" arbitrary: i a na n)
  case 0
  then have "xs = []" by simp
  with k show ?case by (simp add: upto_count_def)
next
  case (Suc m)
  have small: "upto_count xs j \<le> j" for j by (rule upto_count_le [OF _ d]) (simp add: pos)
  show ?case
  proof (cases "2 ^ i div 2 < length xs")
    case False
    have "k < i"
    proof (rule ccontr)
      assume "\<not> k < i"
      then have "(2::nat) ^ i div 2 \<le> 2 ^ k div 2" by (intro pow_div_2_mono) simp
      with k False upto_count_length [of xs "2 ^ k"] show False by linarith
    qed
    with Suc.prems(4) [OF this k] False Suc.prems(5) show ?thesis by (simp add: computesizes_loop_none)
  next
    case True
    then have "xs \<noteq> []" by auto
    with Suc.prems(1,2) have i: "i \<le> 26" by (cases "i = 27") simp_all
    define c where "c = length (filter (\<lambda>x. ceillog2 x = i) xs)"
    define a' where "a' = a + c"
    define n1 where "n1 = (if c > 0 \<and> a' > 2 ^ i div 2 then 2 ^ i else n)"
    define na1 where "na1 = (if c > 0 \<and> a' > 2 ^ i div 2 then a' else na)"
    have a': "a' = length (filter (\<lambda>x. ceillog2 x < Suc i) xs)"
      by (simp add: a'_def c_def Suc.prems(3) filter_length_split)
    have cnt: "upto_count xs (2 ^ i) = a'" using upto_count_pow [of xs i] pos a' by blast
    have step: "computesizes_loop (slice_sizes xs) (length xs) i a na n =
       (if a' = length xs then (n1, na1) else computesizes_loop (slice_sizes xs) (length xs) (Suc i) a' na1 n1)"
      using True i by (simp add: computesizes_loop.simps [of _ _ i] c_def [symmetric] a'_def n1_def na1_def Let_def)
    have half: "a \<le> 2 ^ i div 2"
    proof (cases i)
      case 0
      then show ?thesis using Suc.prems(3) by simp
    next
      case (Suc j)
      then have "a = upto_count xs (2 ^ j)" using Suc.prems(3) upto_count_pow [of xs j] pos by simp
      with small [of "2 ^ j"] Suc show ?thesis by simp
    qed
    have n1: "2 ^ j \<le> n1" if "j < Suc i" "2 ^ j div 2 < upto_count xs (2 ^ j)" for j
    proof (cases "j = i")
      case True
      with that(2) cnt have "2 ^ i div 2 < a'" by simp
      with half have "0 < c" by (simp add: a'_def)
      with True \<open>2 ^ i div 2 < a'\<close> show ?thesis by (simp add: n1_def)
    next
      case False
      then have "2 ^ j \<le> n" "(2::nat) ^ j \<le> 2 ^ i"
        using Suc.prems(4) [of j] that by simp_all
      then show ?thesis by (simp add: n1_def)
    qed
    show ?thesis
    proof (cases "a' = length xs")
      case True
      have "k < Suc i"
      proof (rule ccontr)
        assume "\<not> k < Suc i"
        then have "(2::nat) ^ Suc i div 2 \<le> 2 ^ k div 2" by (intro pow_div_2_mono) simp
        with k True small [of "2 ^ i"] cnt upto_count_length [of xs "2 ^ k"] show False by simp
      qed
      with n1 [OF this k] True step Suc.prems(5) show ?thesis by simp
    next
      case False
      have "i \<noteq> 26"
      proof
        assume "i = 26"
        then have "upto_count xs (2 ^ i) = length xs"
          unfolding upto_count_def by (intro filter_all_length) (use pos in simp)
        with cnt False show False by simp
      qed
      then show ?thesis
        by (intro Suc.hyps(1) [of "Suc i" a' n1 na1])
          (use Suc.hyps(2) Suc.prems(5) i False step a' n1 in simp_all)
    qed
  qed
qed

lemma computesizes_optimal:
  assumes "\<And>x. x \<in> set xs \<Longrightarrow> 0 < x \<and> x \<le> 2 ^ 26" "distinct xs"
    and "computesizes (slice_sizes xs) (length xs) = (n, na)"
    and "2 ^ k div 2 < upto_count xs (2 ^ k)"
  shows "2 ^ k \<le> n"
  by (rule computesizes_loop_optimal [OF assms(1,2) _ _ _ _ _ assms(4), where i = 0 and a = 0 and na = 0 and n = 0])
    (use assms(3) in \<open>simp_all add: computesizes_def\<close>)

subsection \<open>The counting loops\<close>

lemma count_slice_eq:
  "count_slice arr i lim lc = (max i (Suc lim), lc + length (filter (\<lambda>p. arr ! (p - 1) \<noteq> LNil) [i..<Suc lim]))"
proof (induction arr i lim lc rule: count_slice.induct)
  case (1 arr i lim lc)
  show ?case
  proof (cases "i \<le> lim")
    case True
    then have "[i..<Suc lim] = i # [Suc i..<Suc lim]" by (simp add: upt_conv_Cons del: upt_Suc)
    with 1 True show ?thesis by (simp add: count_slice.simps [of arr i] del: upt_Suc)
  next
    case False
    then show ?thesis by (simp add: count_slice.simps [of arr i])
  qed
qed

text \<open>The positions of the array part in use.\<close>

definition used_from :: "TValue list \<Rightarrow> nat \<Rightarrow> nat list" where
  "used_from arr i = filter (\<lambda>p. arr ! (p - 1) \<noteq> LNil) [i..<Suc (length arr)]"

lemma used_from_split:
  assumes "i \<le> Suc lim" "lim \<le> length arr"
  shows "used_from arr i = filter (\<lambda>p. arr ! (p - 1) \<noteq> LNil) [i..<Suc lim] @ used_from arr (Suc lim)"
proof -
  have "[i..<Suc (length arr)] = [i..<Suc lim] @ [Suc lim..<Suc (length arr)]"
    using assms by (metis Suc_le_mono le_Suc_ex upt_add_eq_append)
  then show ?thesis by (simp add: used_from_def del: upt_Suc)
qed

lemma used_from_empty: "length arr < i \<Longrightarrow> used_from arr i = []"
  by (simp add: used_from_def)

definition nums_add :: "nat list \<Rightarrow> nat list \<Rightarrow> nat list \<Rightarrow> bool" where
  "nums_add nums xs nums' \<longleftrightarrow> length nums' = length nums \<and>
     (\<forall>j < length nums. nums' ! j = nums ! j + length (filter (\<lambda>x. ceillog2 x = j) xs))"

lemma nums_add_Nil: "nums_add nums [] nums"
  by (simp add: nums_add_def)

lemma nums_add_append: "nums_add nums xs nums1 \<Longrightarrow> nums_add nums1 ys nums2 \<Longrightarrow> nums_add nums (xs @ ys) nums2"
  by (simp add: nums_add_def)

lemma nums_add_eq:
  assumes "nums_add (replicate 27 0) xs nums"
  shows "nums = slice_sizes xs"
  using assms by (intro nth_equalityI) (simp_all add: nums_add_def less_Suc_eq_le)

lemma nums_add_slice:
  assumes "\<And>x. x \<in> set xs \<Longrightarrow> ceillog2 x = lg" "lg < length nums"
  shows "nums_add nums xs (nums[lg := nums ! lg + length xs])"
proof -
  have "filter (\<lambda>x. ceillog2 x = j) xs = (if j = lg then xs else [])" for j
    using assms(1) by (auto simp: filter_empty_conv filter_id_conv)
  with assms(2) show ?thesis by (auto simp: nums_add_def nth_list_update)
qed

lemma numusearray_loop_spec:
  assumes "lg \<le> 27" "length nums = 27" "length arr \<le> 2 ^ 26"
    and "i \<le> Suc (2 ^ lg div 2)" "i \<le> length arr \<Longrightarrow> i = Suc (2 ^ lg div 2)"
    and "numusearray_loop arr lg i nums ause = (nums', ause')"
  shows "nums_add nums (used_from arr i) nums' \<and> ause' = ause + length (used_from arr i)"
  using assms
proof (induction "27 - lg" arbitrary: lg i nums ause)
  case 0
  then have "lg = 27" by simp
  with 0 have "length arr < i" by (cases "i \<le> length arr") simp_all
  with 0 \<open>lg = 27\<close> show ?case
    by (simp add: numusearray_loop.simps [of arr 27] MAXBITS_def used_from_empty nums_add_Nil)
next
  case (Suc d)
  then have lg: "lg \<le> 26" by simp
  let ?l = "2 ^ lg :: nat"
  define lim where "lim = min ?l (length arr)"
  show ?case
  proof (cases "?l > length arr \<and> i > lim")
    case True
    then have "length arr < i" by (auto simp: lim_def min_def)
    with True lg Suc.prems show ?thesis
      by (simp add: numusearray_loop.simps [of arr lg] MAXBITS_def lim_def used_from_empty nums_add_Nil Let_def)
  next
    case False
    define xs where "xs = filter (\<lambda>p. arr ! (p - 1) \<noteq> LNil) [i..<Suc lim]"
    have eq: "numusearray_loop arr lg i nums ause =
       numusearray_loop arr (Suc lg) (max i (Suc lim)) (nums[lg := nums ! lg + length xs]) (ause + length xs)"
      using False lg
      by (simp add: numusearray_loop.simps [of arr lg] MAXBITS_def lim_def min_def count_slice_eq xs_def Let_def del: upt_Suc)
    have half: "?l div 2 \<le> ?l" by simp
    have mem: "ceillog2 x = lg" if "x \<in> set xs" for x
    proof -
      from that have x: "i \<le> x" "x \<le> lim" by (auto simp: xs_def)
      then have "i = Suc (?l div 2)" using Suc.prems(5) by (simp add: lim_def)
      with x have x: "?l div 2 < x" "x \<le> ?l" by (simp_all add: lim_def)
      then have "0 < x" by simp
      with x show ?thesis by (cases lg) (simp_all add: ceillog2_slice)
    qed
    have add: "nums_add nums xs (nums[lg := nums ! lg + length xs])"
      by (rule nums_add_slice) (use mem lg Suc.prems(2) in simp_all)
    have split: "used_from arr i = xs @ used_from arr (max i (Suc lim))"
    proof (cases "i \<le> Suc lim")
      case True
      then show ?thesis using used_from_split [OF True] by (simp add: xs_def lim_def max_def del: upt_Suc)
    next
      case F: False
      then have "length arr < i" using Suc.prems(4) half by (auto simp: lim_def min_def split: if_splits)
      with F show ?thesis by (simp add: xs_def used_from_empty max_def)
    qed
    have "nums_add (nums[lg := nums ! lg + length xs]) (used_from arr (max i (Suc lim))) nums' \<and>
        ause' = ause + length xs + length (used_from arr (max i (Suc lim)))"
    proof (rule Suc.hyps(1) [of "Suc lg"])
      show "max i (Suc lim) \<le> Suc (2 ^ Suc lg div 2)"
        using Suc.prems(4) half by (simp add: lim_def)
      show "max i (Suc lim) = Suc (2 ^ Suc lg div 2)" if "max i (Suc lim) \<le> length arr"
      proof -
        have "Suc lim \<le> length arr" using that by simp
        then have "lim = ?l" by (simp add: lim_def min_def split: if_splits)
        moreover have "i \<le> Suc ?l" using Suc.prems(4) half by linarith
        ultimately show ?thesis by simp
      qed
    qed (use Suc.hyps(2) Suc.prems eq lg in simp_all)
    with add split show ?thesis using nums_add_append by fastforce
  qed
qed

lemma numusearray_spec:
  assumes "numusearray t (replicate 27 0) = (nums', a)" "sizearray t \<le> 2 ^ 26"
  shows "nums_add (replicate 27 0) (used_from (t_array t) 1) nums' \<and> a = length (used_from (t_array t) 1)"
  using numusearray_loop_spec [of 0 "replicate 27 0" "t_array t" 1 0 nums' a] assms
  by (simp add: numusearray_def sizearray_def)

text \<open>The indices among a list of keys.\<close>

definition ints :: "TValue list \<Rightarrow> nat list" where
  "ints ks = map (nat \<circ> arrayindex) (filter (\<lambda>k. 0 < arrayindex k \<and> arrayindex k \<le> 2 ^ 26) ks)"

lemma ints_append [simp]: "ints (xs @ ys) = ints xs @ ints ys"
  by (simp add: ints_def)

lemma ints_bounds: "x \<in> set (ints ks) \<Longrightarrow> 0 < x \<and> x \<le> 2 ^ 26"
  by (auto simp: ints_def)

lemma ints_Cons: "ints (k # ks) = ints [k] @ ints ks"
  by (simp add: ints_def)

lemma countint_spec:
  assumes "countint k nums = (nums', c)" "length nums = 27"
  shows "nums_add nums (ints [k]) nums' \<and> c = length (ints [k])"
proof (cases "0 < arrayindex k \<and> arrayindex k \<le> 2 ^ 26")
  case True
  then have "nat (arrayindex k) \<le> 2 ^ 26" "0 < nat (arrayindex k)" by (simp_all add: nat_le_iff)
  then have "ceillog2 (nat (arrayindex k)) \<le> 26" by (simp only: ceillog2_le_iff)
  then have "nums_add nums [nat (arrayindex k)]
     (nums[ceillog2 (nat (arrayindex k)) := nums ! ceillog2 (nat (arrayindex k)) + length [nat (arrayindex k)]])"
    by (intro nums_add_slice) (use assms(2) in simp_all)
  with True assms(1) show ?thesis
    by (auto simp: countint_def MAXASIZE_def MAXBITS_def ints_def Let_def)
next
  case False
  with assms(1) show ?thesis
    by (auto simp: countint_def MAXASIZE_def MAXBITS_def ints_def nums_add_Nil Let_def)
qed

definition live_nodes :: "Node list \<Rightarrow> Node list" where
  "live_nodes ns = filter (\<lambda>n. i_val n \<noteq> LNil) ns"

lemma numusehash_loop_spec:
  assumes "numusehash_loop ns nums a u = (nums', a', u')" "length nums = 27"
  shows "nums_add nums (ints (map i_key (live_nodes ns))) nums' \<and>
     a' = a + length (ints (map i_key (live_nodes ns))) \<and> u' = u + length (live_nodes ns)"
  using assms
proof (induction ns nums a u rule: numusehash_loop.induct)
  case (1 nums a u)
  then show ?case by (simp add: live_nodes_def ints_def nums_add_Nil)
next
  case (2 n ns nums a u)
  obtain nums1 c where c: "countint (i_key n) nums = (nums1, c)" by fastforce
  show ?case
  proof (cases "i_val n = LNil")
    case True
    with 2 show ?thesis by (simp add: live_nodes_def)
  next
    case False
    have h: "nums_add nums (ints [i_key n]) nums1" "c = length (ints [i_key n])"
      using countint_spec [OF c "2.prems"(2)] by simp_all
    have IH: "nums_add nums1 (ints (map i_key (live_nodes ns))) nums' \<and>
       a' = (a + c) + length (ints (map i_key (live_nodes ns))) \<and> u' = (u + 1) + length (live_nodes ns)"
      using "2.IH"(1) [of "(nums1, c)" nums1 c] False c "2.prems" h(1) by (simp add: nums_add_def)
    have e: "ints (map i_key (live_nodes (n # ns))) = ints [i_key n] @ ints (map i_key (live_nodes ns))"
      "length (live_nodes (n # ns)) = Suc (length (live_nodes ns))"
      using False by (simp_all add: live_nodes_def ints_Cons [of "i_key n" "map _ _"])
    show ?thesis unfolding e
      using nums_add_append [OF h(1) IH [THEN conjunct1]] IH h(2) by simp
  qed
qed

text \<open>All the indices that \<open>rehash\<close> counts: those in use in the array part, in the nodes, and the extra key.\<close>

definition rehash_ints :: "Table \<Rightarrow> TValue \<Rightarrow> nat list" where
  "rehash_ints t ek = used_from (t_array t) 1 @ ints (map i_key (live_nodes (rev (nodes t)))) @ ints [ek]"

lemma rehash_counts:
  assumes "sizearray t \<le> 2 ^ 26"
    and "computesizes (slice_sizes (rehash_ints t ek)) (length (rehash_ints t ek)) = (n, na)"
  shows "rehash reh t ek =
    resize reh t n (length (used_from (t_array t) 1) + length (live_nodes (nodes t)) + 1 - na)"
proof -
  obtain nums1 a1 where 1: "numusearray t (replicate 27 0) = (nums1, a1)" by fastforce
  obtain nums2 a2 u where 2: "numusehash_loop (rev (nodes t)) nums1 0 0 = (nums2, a2, u)"
    by (metis prod_cases3)
  obtain nums3 c where 3: "countint ek nums2 = (nums3, c)" by fastforce
  note s1 = numusearray_spec [OF 1 assms(1)]
  then have l1: "length nums1 = 27" by (simp add: nums_add_def)
  note s2 = numusehash_loop_spec [OF 2 l1]
  then have l2: "length nums2 = 27" using l1 by (simp add: nums_add_def)
  note s3 = countint_spec [OF 3 l2]
  have "nums_add (replicate 27 0) (rehash_ints t ek) nums3"
    unfolding rehash_ints_def using s1 s2 s3 nums_add_append by blast
  then have "nums3 = slice_sizes (rehash_ints t ek)" by (rule nums_add_eq)
  moreover have "length (live_nodes (rev (nodes t))) = length (live_nodes (nodes t))"
    by (simp add: live_nodes_def rev_filter [symmetric])
  ultimately show ?thesis using assms(2) 1 2 3 s1 s2 s3
    by (simp add: rehash_def numusehash_def MAXBITS_def rehash_ints_def add.assoc)
qed

end
