(* ===== verification/Lua_Table_Rehash.thy ===== *)
theory Lua_Table_Rehash
  imports Lua_Table_Count
begin

text \<open>
  The second half of \<open>rehash\<close>: re-insertion into the resized table keeps every lookup and never
  asks for another rehash, because the counts of theory \<open>Lua_Table_Count\<close> give enough room.
  So \<open>luaH_set\<close> is total: it returns a slot of the key in a table with the same contents, or the
  error of a table overflow.
\<close>

subsection \<open>Fields that no lookup reads\<close>

lemma wf_table_flags [simp]: "wf_table (t\<lparr>t_flags := x\<rparr>) \<longleftrightarrow> wf_table t"
  by (simp add: wf_table_graph wf_shape_def sizenode_def sizearray_def cong: option.case_cong)

lemma find_key_flags [simp]: "find_key (t\<lparr>t_flags := x\<rparr>) k = find_key t k"
  by (rule find_key_cong) (simp_all add: sizearray_def)

lemma used_flags [simp]: "used (t\<lparr>t_flags := x\<rparr>) = used t" "used (t\<lparr>t_lastfree := y\<rparr>) = used t"
  by (simp_all add: used_def)

lemma slot_value_flags [simp]: "slot_value (t\<lparr>t_flags := x\<rparr>) s = slot_value t s"
proof -
  have "slot_val (t\<lparr>t_flags := x\<rparr>) s = slot_val t s" for s by (cases s) simp_all
  then show ?thesis by (simp add: slot_value_def split: option.split)
qed

lemma tget_flags [simp]: "wf_table t \<Longrightarrow> valid_key k \<Longrightarrow> tget (t\<lparr>t_flags := x\<rparr>) k = tget t k"
  by (simp add: tget_find)

subsection \<open>Storing one value where there is room\<close>

definition room :: "Table \<Rightarrow> nat \<Rightarrow> bool" where
  "room t n \<longleftrightarrow> n = 0 \<or> t_node t \<noteq> None \<and> card (used t) + n \<le> sizenode t"

definition stored :: "Table \<Rightarrow> TValue \<Rightarrow> TValue \<Rightarrow> Table \<Rightarrow> nat \<Rightarrow> bool" where
  "stored t k v t' c \<longleftrightarrow>
     wf_table t' \<and> sizearray t' = sizearray t \<and> sizenode t' = sizenode t \<and>
     (t_node t' = None \<longleftrightarrow> t_node t = None) \<and> t_metatable t' = t_metatable t \<and>
     card (used t') \<le> card (used t) + c \<and>
     (\<forall>k'. valid_key k' \<longrightarrow> tget t' k' = (if luaO_rawequalObj k' k then v else tget t k'))"

lemma slot_set_metatable [simp]: "t_metatable (slot_set t s v) = t_metatable t"
  by (cases s) simp_all

lemma stored_found:
  assumes wf: "wf_table t" and k: "valid_key k" and s: "find_key t k = Some s"
  shows "stored t k v (slot_set t s v) c"
  using slot_set_spec [OF wf k s, where v = v] unfolding stored_def by simp

lemma key_written_find:
  assumes w: "key_written t k t' m" and k: "valid_key k" and n: "find_key t k = None"
  shows "find_key t' k = Some (SNode m)"
proof -
  have wf: "wf_table t'" and m: "m < sizenode t'" "nkey t' m = k" and a: "t_array t' = t_array t"
    using w by (simp_all add: key_written_def)
  have "\<not> in_array t k" using n find_key_None by blast
  then have ia: "\<not> in_array t' k" using a by (simp add: in_array_def sizearray_def)
  have "find (\<lambda>j. luaO_rawequalObj (nkey t' j) k) [0..<sizenode t'] = Some m"
  proof (rule find_upt_Some [OF m(1)])
    show "luaO_rawequalObj (nkey t' m) k" using m k by simp
    fix i assume i: "i < sizenode t'" "luaO_rawequalObj (nkey t' i) k"
    show "i = m"
      by (rule wf_distinct [OF wf i(1) m(1)]) (use i m k rawequal_valid_key in auto)
  qed
  with ia show ?thesis by (simp add: find_key_def)
qed

lemma stored_new:
  assumes w: "key_written t k t' m" and k: "valid_key k" and n: "find_key t k = None"
    and "t_node t \<noteq> None"
  shows "stored t k v (slot_set t' (SNode m) v) 1"
proof -
  have wf: "wf_table t'" using w by (simp add: key_written_def)
  note s = slot_set_spec [OF wf k key_written_find [OF w k n], where v = v]
  have "sizenode t' = sizenode t" "sizearray t' = sizearray t"
    using w by (simp_all add: key_written_def sizenode_def sizearray_def)
  then show ?thesis using s w assms(4) unfolding stored_def key_written_def by auto
qed

text \<open>One insertion and assignment: the room it needs is nothing for a key of the array part.\<close>

definition key_cost :: "Table \<Rightarrow> TValue \<Rightarrow> nat" where
  "key_cost t k = (if in_array t k then 0 else 1)"

lemma newkey_room:
  assumes wf: "wf_table t" and k: "valid_key k" and n: "find_key t k = None" and r: "room t 1"
  obtains t' m where "newkey reh t k = Inr (t', SNode m)" "key_written t k t' m"
proof -
  have N: "t_node t \<noteq> None" "card (used t) < sizenode t" using r by (auto simp: room_def)
  from wf k n show ?thesis
  proof (cases rule: newkey_spec [where reh = reh])
    case (written t' m)
    then show ?thesis using that by blast
  next
    case (full y)
    with N show ?thesis by simp
  qed
qed

lemma in_array_find: "in_array t k \<Longrightarrow> find_key t k \<noteq> None"
  by (simp add: find_key_def)

lemma luaH_set_with_cases:
  assumes wf: "wf_table t" and k: "valid_key k"
  shows "luaH_set_with reh t k =
    (case find_key t k of Some s \<Rightarrow> Inr (t\<lparr>t_flags := 0\<rparr>, s) | None \<Rightarrow> newkey reh (t\<lparr>t_flags := 0\<rparr>) k)"
proof -
  have "\<not> (case k of LNumber n \<Rightarrow> luai_numisnan n | _ \<Rightarrow> False)" "\<not> ttisnil k"
    using k by (cases k; simp)+
  then show ?thesis by (simp add: luaH_set_with_def luaH_get_find [OF wf k] Let_def split: option.split)
qed

lemma stored_flags:
  assumes "stored (t\<lparr>t_flags := x\<rparr>) k v t' c" "wf_table t"
  shows "stored t k v t' c"
  using assms by (simp add: stored_def sizearray_def)

lemma set_room:
  assumes wf: "wf_table t" and k: "valid_key k" and r: "room t (key_cost t k)"
  obtains t' s where "luaH_set_with reh t k = Inr (t', s)" "stored t k v (slot_set t' s v) (key_cost t k)"
proof (cases "find_key t k")
  case (Some s)
  have "stored (t\<lparr>t_flags := 0\<rparr>) k v (slot_set (t\<lparr>t_flags := 0\<rparr>) s v) (key_cost t k)"
    by (rule stored_found) (use wf k Some in simp_all)
  with Some show ?thesis using that luaH_set_with_cases [OF wf k] stored_flags [OF _ wf] by simp
next
  case None
  then have c: "key_cost t k = 1" using in_array_find [of t k] by (auto simp: key_cost_def)
  let ?t = "t\<lparr>t_flags := 0\<rparr>"
  have r1: "room ?t 1" using r c by (simp add: room_def)
  then have N: "t_node ?t \<noteq> None" by (simp add: room_def)
  have w: "wf_table ?t" "find_key ?t k = None" using wf None by simp_all
  obtain t' m where t': "newkey reh ?t k = Inr (t', SNode m)" "key_written ?t k t' m"
    using newkey_room [OF w(1) k w(2) r1] by blast
  have "stored t k v (slot_set t' (SNode m) v) (key_cost t k)"
    unfolding c by (rule stored_flags [OF stored_new [OF t'(2) k w(2) N] wf])
  with that t'(1) None luaH_set_with_cases [OF wf k] show ?thesis by simp
qed

lemma setnum_room:
  assumes wf: "wf_table t" and i: "0 < i" "i < 2 ^ 31" and k: "k = LNumber (cast_num i)"
    and r: "room t (key_cost t k)"
  obtains t' s where "luaH_setnum_with reh t i = Inr (t', s)" "stored t k v (slot_set t' s v) (key_cost t k)"
proof -
  have v: "valid_key k" using cast_num_finite(2) [of i] i k by simp
  have g: "luaH_getnum t i = Inr (find_key t k)" using luaH_getnum_find [OF wf, of i] i k by simp
  show ?thesis
  proof (cases "find_key t k")
    case (Some s)
    with that g stored_found [OF wf v Some] show ?thesis by (simp add: luaH_setnum_with_def)
  next
    case None
    then have c: "key_cost t k = 1" using in_array_find [of t k] by (auto simp: key_cost_def)
    then have N: "t_node t \<noteq> None" using r by (simp add: room_def)
    obtain t' m where t': "newkey reh t k = Inr (t', SNode m)" "key_written t k t' m"
      using newkey_room [OF wf v None] r c by metis
    with that g None stored_new [OF t'(2) v None N] c k show ?thesis by (simp add: luaH_setnum_with_def)
  qed
qed

subsection \<open>Storing a sequence\<close>

fun puts :: "(TValue \<times> TValue) list \<Rightarrow> (TValue \<Rightarrow> TValue) \<Rightarrow> TValue \<Rightarrow> TValue" where
  "puts [] f k = f k"
| "puts ((k', v) # kvs) f k = puts kvs (\<lambda>x. if luaO_rawequalObj x k' then v else f x) k"

definition cost :: "Table \<Rightarrow> (TValue \<times> TValue) list \<Rightarrow> nat" where
  "cost t kvs = length (filter (\<lambda>kv. \<not> in_array t (fst kv)) kvs)"

definition stored_all :: "Table \<Rightarrow> (TValue \<times> TValue) list \<Rightarrow> Table \<Rightarrow> bool" where
  "stored_all t kvs t' \<longleftrightarrow>
     wf_table t' \<and> sizearray t' = sizearray t \<and> sizenode t' = sizenode t \<and>
     (t_node t' = None \<longleftrightarrow> t_node t = None) \<and> t_metatable t' = t_metatable t \<and>
     card (used t') \<le> card (used t) + cost t kvs \<and>
     (\<forall>k. valid_key k \<longrightarrow> tget t' k = puts kvs (tget t) k)"

lemma puts_cong:
  "(\<And>k. valid_key k \<Longrightarrow> f k = g k) \<Longrightarrow> valid_key k \<Longrightarrow> puts kvs f k = puts kvs g k"
proof (induction kvs arbitrary: f g)
  case (Cons kv kvs)
  obtain k' v where "kv = (k', v)" by fastforce
  then show ?case
    using Cons.IH [of "\<lambda>x. if luaO_rawequalObj x k' then v else f x" "\<lambda>x. if luaO_rawequalObj x k' then v else g x"]
      Cons.prems by simp
qed simp

lemma stored_all_Nil: "wf_table t \<Longrightarrow> stored_all t [] t"
  by (simp add: stored_all_def)

lemma in_array_cong: "sizearray t' = sizearray t \<Longrightarrow> in_array t' = in_array t"
  by (simp add: in_array_def [abs_def])

lemma stored_all_Cons:
  assumes "stored t k v t1 (key_cost t k)" "stored_all t1 kvs t2"
  shows "stored_all t ((k, v) # kvs) t2"
proof -
  have sz: "sizearray t1 = sizearray t" using assms(1) by (simp add: stored_def)
  have c: "cost t1 kvs = cost t kvs" by (simp add: cost_def in_array_cong [OF sz])
  have "puts kvs (tget t1) x = puts kvs (\<lambda>x. if luaO_rawequalObj x k then v else tget t x) x"
    if "valid_key x" for x
    by (rule puts_cong) (use assms(1) that in \<open>simp_all add: stored_def\<close>)
  moreover have "cost t ((k, v) # kvs) = key_cost t k + cost t kvs" by (simp add: cost_def key_cost_def)
  ultimately show ?thesis using assms c unfolding stored_all_def stored_def by simp
qed

lemma room_step:
  assumes "stored t k v t1 (key_cost t k)" "room t (cost t ((k, v) # kvs))"
  shows "room t1 (cost t1 kvs)"
proof -
  have sz: "sizearray t1 = sizearray t" using assms(1) by (simp add: stored_def)
  have c: "cost t1 kvs = cost t kvs" by (simp add: cost_def in_array_cong [OF sz])
  have "cost t ((k, v) # kvs) = key_cost t k + cost t kvs" by (simp add: cost_def key_cost_def)
  with assms c show ?thesis unfolding room_def stored_def by auto
qed

lemma room_head: "room t (cost t ((k, v) # kvs)) \<Longrightarrow> room t (key_cost t k)"
  by (auto simp: room_def cost_def key_cost_def split: if_splits)

definition node_kvs :: "Node list \<Rightarrow> (TValue \<times> TValue) list" where
  "node_kvs ns = map (\<lambda>n. (i_key n, i_val n)) (live_nodes ns)"

lemma reinsert_nodes_spec:
  assumes "wf_table t" "\<And>n. n \<in> set ns \<Longrightarrow> i_val n \<noteq> LNil \<Longrightarrow> valid_key (i_key n)"
    and "room t (cost t (node_kvs ns))"
  shows "\<exists>t'. reinsert_nodes reh t ns = Inr t' \<and> stored_all t (node_kvs ns) t'"
  using assms
proof (induction ns arbitrary: t)
  case Nil
  then show ?case by (simp add: stored_all_Nil node_kvs_def live_nodes_def)
next
  case (Cons n ns)
  show ?case
  proof (cases "i_val n = LNil")
    case True
    with Cons show ?thesis by (simp add: node_kvs_def live_nodes_def)
  next
    case False
    then have e: "node_kvs (n # ns) = (i_key n, i_val n) # node_kvs ns" by (simp add: node_kvs_def live_nodes_def)
    have v: "valid_key (i_key n)" using Cons.prems(2) [of n] False by simp
    have r: "room t (key_cost t (i_key n))" using Cons.prems(3) unfolding e by (rule room_head)
    obtain t1 s where t1: "luaH_set_with reh t (i_key n) = Inr (t1, s)"
      "stored t (i_key n) (i_val n) (slot_set t1 s (i_val n)) (key_cost t (i_key n))"
      using set_room [OF Cons.prems(1) v r] by blast
    let ?t = "slot_set t1 s (i_val n)"
    have "\<exists>t'. reinsert_nodes reh ?t ns = Inr t' \<and> stored_all ?t (node_kvs ns) t'"
    proof (rule Cons.IH)
      show "wf_table ?t" using t1(2) by (simp add: stored_def)
      show "room ?t (cost ?t (node_kvs ns))" using room_step [OF t1(2)] Cons.prems(3) e by simp
    qed (use Cons.prems(2) in simp)
    then show ?thesis using stored_all_Cons [OF t1(2)] t1(1) False e by auto
  qed
qed

definition array_kvs :: "nat \<Rightarrow> TValue list \<Rightarrow> (TValue \<times> TValue) list" where
  "array_kvs i vs = filter (\<lambda>kv. snd kv \<noteq> LNil) (map (\<lambda>j. (LNumber (cast_num (int (i + j) + 1)), vs ! j)) [0..<length vs])"

lemma array_kvs_Cons:
  "array_kvs i (v # vs) = (if v = LNil then [] else [(LNumber (cast_num (int i + 1)), v)]) @ array_kvs (Suc i) vs"
proof -
  have e: "[0..<length (v # vs)] = 0 # map Suc [0..<length vs]" by (simp add: upt_conv_Cons map_Suc_upt del: upt_Suc)
  show ?thesis unfolding array_kvs_def e by (simp add: comp_def)
qed

lemma reinsert_array_spec:
  assumes "wf_table t" "i + length vs < 2 ^ 31" "room t (cost t (array_kvs i vs))"
  shows "\<exists>t'. reinsert_array reh t i vs = Inr t' \<and> stored_all t (array_kvs i vs) t'"
  using assms
proof (induction vs arbitrary: t i)
  case Nil
  then show ?case by (simp add: stored_all_Nil array_kvs_def)
next
  case (Cons v vs)
  show ?case
  proof (cases "v = LNil")
    case True
    with Cons show ?thesis by (simp add: array_kvs_Cons)
  next
    case False
    let ?k = "LNumber (cast_num (int i + 1))"
    have e: "array_kvs i (v # vs) = (?k, v) # array_kvs (Suc i) vs" using False by (simp add: array_kvs_Cons)
    have r: "room t (key_cost t ?k)" using Cons.prems(3) unfolding e by (rule room_head)
    have i: "0 < int i + 1" "int i + 1 < 2 ^ 31" using Cons.prems(2) by simp_all
    obtain t1 s where t1: "luaH_setnum_with reh t (int i + 1) = Inr (t1, s)"
      "stored t ?k v (slot_set t1 s v) (key_cost t ?k)"
      using setnum_room [OF Cons.prems(1) i refl r] by blast
    let ?t = "slot_set t1 s v"
    have "\<exists>t'. reinsert_array reh ?t (Suc i) vs = Inr t' \<and> stored_all ?t (array_kvs (Suc i) vs) t'"
    proof (rule Cons.IH)
      show "wf_table ?t" using t1(2) by (simp add: stored_def)
      show "room ?t (cost ?t (array_kvs (Suc i) vs))" using room_step [OF t1(2)] Cons.prems(3) e by simp
    qed (use Cons.prems(2) in simp)
    then show ?thesis using stored_all_Cons [OF t1(2)] t1(1) False e by auto
  qed
qed

lemma puts_append: "puts (xs @ ys) f k = puts ys (puts xs f) k"
proof (induction xs arbitrary: f)
  case Nil
  have "puts [] f = f" by (rule ext) simp
  then show ?case by simp
next
  case (Cons kv xs)
  then show ?case by (cases kv) simp
qed

lemma stored_all_append:
  assumes "stored_all t xs t1" "stored_all t1 ys t2"
  shows "stored_all t (xs @ ys) t2"
proof -
  have sz: "sizearray t1 = sizearray t" using assms(1) by (simp add: stored_all_def)
  have "cost t1 ys = cost t ys" by (simp add: cost_def in_array_cong [OF sz])
  moreover have "cost t (xs @ ys) = cost t xs + cost t ys" by (simp add: cost_def)
  moreover have "puts ys (tget t1) k = puts (xs @ ys) (tget t) k" if "valid_key k" for k
    unfolding puts_append by (rule puts_cong [OF _ that]) (use assms(1) in \<open>simp add: stored_all_def\<close>)
  ultimately show ?thesis using assms unfolding stored_all_def by simp
qed

text \<open>Storing values that a function \<open>G\<close> already has.\<close>

lemma puts_same:
  assumes "\<And>k' v. (k', v) \<in> set kvs \<Longrightarrow> valid_key k' \<and> G k' = v"
    and "\<And>x y. luaO_rawequalObj x y \<Longrightarrow> valid_key y \<Longrightarrow> G x = G y"
  shows "puts kvs f k = (if \<exists>kv \<in> set kvs. luaO_rawequalObj k (fst kv) then G k else f k)"
  using assms(1)
proof (induction kvs arbitrary: f)
  case (Cons kv kvs)
  obtain k' v where kv: "kv = (k', v)" by fastforce
  have "valid_key k'" "G k' = v" using Cons.prems [of k' v] kv by simp_all
  with assms(2) [of k k'] have "luaO_rawequalObj k k' \<Longrightarrow> G k = v" by simp
  moreover have "puts kvs (\<lambda>x. if luaO_rawequalObj x k' then v else f x) k =
      (if \<exists>kv \<in> set kvs. luaO_rawequalObj k (fst kv) then G k
       else if luaO_rawequalObj k k' then v else f k)"
    by (rule Cons.IH) (rule Cons.prems, simp)
  ultimately show ?case by (simp add: kv)
qed simp

subsection \<open>Resizing\<close>

lemma wf_fresh:
  assumes "length arr \<le> 2 ^ 26"
    and "t_node t = None \<and> t_lsizenode t = 0 \<and> t_lastfree t = 0 \<or>
      t_node t = Some (replicate (sizenode t) dummynode) \<and> t_lsizenode t \<le> 26 \<and> t_lastfree t = int (sizenode t)"
    and a: "t_array t = arr"
  shows "wf_table t" "used t = {}"
    and "valid_key k \<Longrightarrow> tget t k = (if in_array t k then arr ! nat (arrayindex k - 1) else LNil)"
proof -
  have g: "gnode t i = dummynode" if "i < sizenode t" for i
    using assms(2) that by (auto simp: gnode_def nodes_def sizenode_def twoto_def)
  then show "used t = {}" by (auto simp: used_def dummynode_def)
  have "wf_shape t" using assms by (auto simp: wf_shape_def sizearray_def MAXBITS_def)
  moreover have "chain_inv (sizenode t) (mainposition t) (nkey t) (nnext t)"
    unfolding chain_inv_def using g by (simp add: dummynode_def)
  ultimately show wf: "wf_table t"
    unfolding wf_table_def using g assms(2) by (auto simp: dummynode_def)
  assume k: "valid_key k"
  show "tget t k = (if in_array t k then arr ! nat (arrayindex k - 1) else LNil)"
  proof (cases "in_array t k")
    case True
    then show ?thesis using tget_array [OF wf k] a by simp
  next
    case False
    have "\<not> luaO_rawequalObj LNil k" using valid_key_not_nil [OF k] by simp
    then have "node_has (sizenode t) (nkey t) (nval t) k LNil"
      using g by (simp add: node_has_def dummynode_def)
    with tget_node_has [OF wf k False] False show ?thesis by simp
  qed
qed

lemma setnodevector_spec:
  assumes "setnodevector t n = Inr t'"
  shows "t_node t' = None \<and> t_lsizenode t' = 0 \<and> t_lastfree t' = 0 \<or>
      t_node t' = Some (replicate (sizenode t') dummynode) \<and> t_lsizenode t' \<le> 26 \<and> t_lastfree t' = int (sizenode t')"
    and "t_node t' = None \<longleftrightarrow> n = 0" "n \<le> sizenode t'" "t_array t' = t_array t" "t_metatable t' = t_metatable t"
  using assms ceillog2_le [of n]
  by (auto simp: setnodevector_def MAXBITS_def sizenode_def twoto_def Let_def split: if_splits)

lemma setnodevector_cases:
  obtains t' where "setnodevector t n = Inr t'"
  | "setnodevector t n = Inl (RunError (str ''table overflow''))" "n > 2 ^ 26"
proof (cases "n = 0 \<or> ceillog2 n \<le> 26")
  case True
  then have "\<exists>t'. setnodevector t n = Inr t'" by (auto simp: setnodevector_def MAXBITS_def Let_def)
  then show ?thesis using that(1) by blast
next
  case False
  then have "n > 2 ^ 26" using ceillog2_le_iff [of n 26] by linarith
  moreover have "setnodevector t n = Inl (RunError (str ''table overflow''))"
    using False by (simp add: setnodevector_def MAXBITS_def Let_def)
  ultimately show ?thesis using that(2) by blast
qed

definition resize_kvs :: "Table \<Rightarrow> nat \<Rightarrow> (TValue \<times> TValue) list" where
  "resize_kvs t n = array_kvs n (drop n (t_array t)) @ node_kvs (rev (nodes t))"

lemma wf_array_bound: "wf_table t \<Longrightarrow> sizearray t \<le> 2 ^ 26"
  by (simp add: wf_table_def wf_shape_def)

lemma wf_length_nodes: "wf_table t \<Longrightarrow> length (nodes t) = sizenode t"
  by (auto simp: wf_table_def wf_shape_def nodes_def sizenode_def twoto_def split: option.splits)

lemma node_kvs_mem:
  assumes "wf_table t" "length (nodes t) = sizenode t"
  shows "(k, v) \<in> set (node_kvs (rev (nodes t))) \<longleftrightarrow> (\<exists>j < sizenode t. nkey t j = k \<and> nval t j = v \<and> v \<noteq> LNil)"
  using assms(2) by (auto simp: node_kvs_def live_nodes_def in_set_conv_nth gnode_def image_iff)

lemma array_kvs_mem:
  "(k, v) \<in> set (array_kvs n (drop n arr)) \<longleftrightarrow>
    (\<exists>j. n \<le> j \<and> j < length arr \<and> k = LNumber (cast_num (int j + 1)) \<and> v = arr ! j \<and> v \<noteq> LNil)"
proof
  assume "(k, v) \<in> set (array_kvs n (drop n arr))"
  then obtain i where "i < length arr - n" "k = LNumber (cast_num (int (n + i) + 1))" "v = drop n arr ! i" "v \<noteq> LNil"
    by (auto simp: array_kvs_def)
  then show "\<exists>j. n \<le> j \<and> j < length arr \<and> k = LNumber (cast_num (int j + 1)) \<and> v = arr ! j \<and> v \<noteq> LNil"
    by (intro exI [of _ "n + i"]) auto
next
  assume "\<exists>j. n \<le> j \<and> j < length arr \<and> k = LNumber (cast_num (int j + 1)) \<and> v = arr ! j \<and> v \<noteq> LNil"
  then obtain j where j: "n \<le> j" "j < length arr" "k = LNumber (cast_num (int j + 1))" "v = arr ! j" "v \<noteq> LNil"
    by blast
  then have "(k, v) = (LNumber (cast_num (int (n + (j - n)) + 1)), drop n arr ! (j - n))" "j - n < length (drop n arr)"
    by simp_all
  then have "(k, v) \<in> set (map (\<lambda>i. (LNumber (cast_num (int (n + i) + 1)), drop n arr ! i)) [0..<length (drop n arr)])"
    unfolding set_map by (intro image_eqI) simp_all
  with j(5) show "(k, v) \<in> set (array_kvs n (drop n arr))" by (simp add: array_kvs_def)
qed

lemma tget_node:
  assumes wf: "wf_table t" and j: "j < sizenode t" "nkey t j \<noteq> LNil"
  shows "tget t (nkey t j) = nval t j"
proof -
  have "node_has (sizenode t) (nkey t) (nval t) (nkey t j) (nval t j)"
    unfolding node_has_def using j wf_key [OF wf j] by (intro disjI1 exI [of _ j]) simp
  with tget_node_has [OF wf wf_key [OF wf j] wf_not_array [OF wf j]] show ?thesis by simp
qed

lemma arrayindex_index: "j < 2 ^ 31 - 1 \<Longrightarrow> arrayindex (LNumber (cast_num (int j + 1))) = int j + 1"
  by (rule arrayindex_cast_num) simp_all

lemma resize_kvs_sound:
  assumes wf: "wf_table t" and m: "(k, v) \<in> set (resize_kvs t n)"
  shows "valid_key k \<and> tget t k = v \<and> v \<noteq> LNil"
  using m unfolding resize_kvs_def set_append
proof
  assume "(k, v) \<in> set (array_kvs n (drop n (t_array t)))"
  then obtain j where j: "j < sizearray t" "k = LNumber (cast_num (int j + 1))" "v = t_array t ! j" "v \<noteq> LNil"
    by (auto simp: array_kvs_mem sizearray_def)
  have b: "j < 2 ^ 31 - 1" using j(1) wf_array_bound [OF wf] by simp
  have v: "valid_key k" using cast_num_finite(2) [of "int j + 1"] j(2) b by simp
  have "in_array t k" using arrayindex_index [OF b] j by (simp add: in_array_def)
  with tget_array [OF wf v] arrayindex_index [OF b] j v show ?thesis by simp
next
  assume "(k, v) \<in> set (node_kvs (rev (nodes t)))"
  then obtain j where j: "j < sizenode t" "nkey t j = k" "nval t j = v" "v \<noteq> LNil"
    using node_kvs_mem [OF wf wf_length_nodes [OF wf]] by blast
  then have "nkey t j \<noteq> LNil" using wf_free [OF wf, of j] by auto
  with tget_node [OF wf j(1)] wf_key [OF wf j(1)] j show ?thesis by simp
qed

lemma resize_kvs_complete:
  assumes wf: "wf_table t" and k: "valid_key k" and v: "tget t k \<noteq> LNil"
    and n: "\<not> (in_array t k \<and> arrayindex k \<le> int n)"
  shows "\<exists>kv \<in> set (resize_kvs t n). luaO_rawequalObj k (fst kv)"
proof (cases "in_array t k")
  case True
  then have a: "0 < arrayindex k" "arrayindex k \<le> int (sizearray t)" "int n < arrayindex k"
    using n by (auto simp: in_array_def)
  from a(1) obtain x where x: "k = LNumber x" "luai_numeq (cast_num (arrayindex k)) x" by (rule arrayindex_pos)
  define j where "j = nat (arrayindex k - 1)"
  have j: "n \<le> j" "j < length (t_array t)" "int j + 1 = arrayindex k"
    using a by (auto simp: j_def sizearray_def)
  have "tget t k = t_array t ! j" using tget_array [OF wf k True] by (simp add: j_def)
  then have "(LNumber (cast_num (int j + 1)), tget t k) \<in> set (resize_kvs t n)"
    unfolding resize_kvs_def using j v by (auto simp: array_kvs_mem)
  moreover have "luaO_rawequalObj k (LNumber (cast_num (int j + 1)))"
    using x luai_numeq_sym by (simp add: j(3))
  ultimately show ?thesis by force
next
  case False
  have "node_has (sizenode t) (nkey t) (nval t) k (tget t k)" using tget_node_has [OF wf k False] by simp
  with v obtain j where j: "j < sizenode t" "luaO_rawequalObj (nkey t j) k" "nval t j = tget t k"
    by (auto simp: node_has_def)
  then have "(nkey t j, tget t k) \<in> set (resize_kvs t n)"
    unfolding resize_kvs_def using node_kvs_mem [OF wf wf_length_nodes [OF wf]] v by auto
  then show ?thesis using j(2) rawequal_sym by force
qed

definition outside :: "nat \<Rightarrow> TValue \<Rightarrow> bool" where
  "outside n k \<longleftrightarrow> \<not> (0 < arrayindex k \<and> arrayindex k \<le> int n)"

lemma in_array_outside: "in_array t k \<longleftrightarrow> \<not> outside (sizearray t) k"
  by (simp add: in_array_def outside_def)

definition hash_count :: "nat \<Rightarrow> (TValue \<times> TValue) list \<Rightarrow> nat" where
  "hash_count n kvs = length (filter (\<lambda>kv. outside n (fst kv)) kvs)"

definition resized :: "Table \<Rightarrow> nat \<Rightarrow> nat \<Rightarrow> Table \<Rightarrow> bool" where
  "resized t nasize nhsize t' \<longleftrightarrow>
     wf_table t' \<and> sizearray t' = nasize \<and> (t_node t' = None \<longleftrightarrow> nhsize = 0) \<and> nhsize \<le> sizenode t' \<and>
     card (used t') \<le> hash_count nasize (resize_kvs t nasize) \<and> t_metatable t' = t_metatable t \<and>
     (\<forall>k. valid_key k \<longrightarrow> tget t' k = tget t k)"

text \<open>
  Storing the old entries that do not stay in the array into a table that holds the rest of the
  array gives back every lookup.
\<close>

lemma resize_lookup:
  assumes wf: "wf_table t" and k: "valid_key k"
    and F: "F k = (if outside n k then LNil
        else (take n (t_array t) @ replicate (n - sizearray t) LNil) ! nat (arrayindex k - 1))"
  shows "puts (resize_kvs t n) F k = tget t k"
proof -
  have sound: "valid_key k' \<and> tget t k' = v" if "(k', v) \<in> set (resize_kvs t n)" for k' v
    using resize_kvs_sound [OF wf that] by simp
  have raw: "tget t x = tget t y" if "luaO_rawequalObj x y" "valid_key y" for x y
    by (rule tget_rawequal [OF wf that(2,1)])
  have puts: "puts (resize_kvs t n) F k =
      (if \<exists>kv \<in> set (resize_kvs t n). luaO_rawequalObj k (fst kv) then tget t k else F k)"
    by (rule puts_same [OF sound raw])
  show ?thesis
  proof (cases "\<exists>kv \<in> set (resize_kvs t n). luaO_rawequalObj k (fst kv)")
    case True
    with puts show ?thesis by simp
  next
    case False
    with puts have "puts (resize_kvs t n) F k = F k" by simp
    also have "F k = tget t k"
    proof (cases "in_array t k \<and> arrayindex k \<le> int n")
      case True
      then have "0 < arrayindex k" "arrayindex k \<le> int (sizearray t)" by (simp_all add: in_array_def)
      with True have "nat (arrayindex k - 1) < sizearray t" "nat (arrayindex k - 1) < n" "\<not> outside n k"
        by (auto simp: outside_def)
      with True show ?thesis
        using F tget_array [OF wf k] by (simp add: nth_append sizearray_def)
    next
      case kept: False
      then have nil: "tget t k = LNil" using resize_kvs_complete [OF wf k _ kept] False by blast
      show ?thesis
      proof (cases "outside n k")
        case in_n: False
        then have "sizearray t \<le> nat (arrayindex k - 1)" "nat (arrayindex k - 1) < n"
          using kept by (auto simp: in_array_def outside_def)
        then have "(take n (t_array t) @ replicate (n - sizearray t) LNil) ! nat (arrayindex k - 1) = LNil"
          by (simp add: nth_append sizearray_def min_def)
        with F nil in_n show ?thesis by simp
      qed (use F nil in simp)
    qed
    finally show ?thesis .
  qed
qed

lemma resize_spec:
  assumes wf: "wf_table t" and n: "nasize \<le> 2 ^ 26"
    and h: "hash_count nasize (resize_kvs t nasize) \<le> nhsize"
  obtains t' where "resize reh t nasize nhsize = Inr t'" "resized t nasize nhsize t'"
  | "resize reh t nasize nhsize = Inl (RunError (str ''table overflow''))" "nhsize > 2 ^ 26"
proof -
  define t1 where "t1 = (if nasize > sizearray t then setarrayvector t nasize else t)"
  show ?thesis
  proof (cases rule: setnodevector_cases [of t1 nhsize])
    case 2
    then show ?thesis using that(2) by (simp add: resize_def t1_def [symmetric] Let_def)
  next
    case (1 t2)
    define arr where "arr = take nasize (t_array t) @ replicate (nasize - sizearray t) LNil"
    define t3 where "t3 = t2\<lparr>t_array := arr\<rparr>"
    define vs where "vs = drop nasize (t_array t)"
    note sn = setnodevector_spec [OF 1]
    have arr: "length arr = nasize" by (simp add: arr_def sizearray_def)
    have f: "wf_table t3" "used t3 = {}"
      "valid_key k \<Longrightarrow> tget t3 k = (if in_array t3 k then arr ! nat (arrayindex k - 1) else LNil)" for k
      using wf_fresh [of arr t3] arr n sn(1) by (simp_all add: t3_def)
    have sz: "sizearray t3 = nasize" "sizenode t3 = sizenode t2" "t_node t3 = t_node t2"
      "t_metatable t3 = t_metatable t"
      using arr sn(5) by (simp_all add: t3_def sizearray_def sizenode_def t1_def setarrayvector_def)
    have c: "cost t3 kvs = hash_count nasize kvs" for kvs
      by (simp add: cost_def hash_count_def in_array_outside sz)
    have rm: "room t3 (cost t3 (resize_kvs t nasize))"
      using h sn(2,3) f(2) sz(2,3) unfolding c room_def by (cases "nhsize = 0") auto
    have split: "resize_kvs t nasize = array_kvs nasize vs @ node_kvs (rev (nodes t))"
      by (simp add: resize_kvs_def vs_def)
    have r1: "room t3 (cost t3 (array_kvs nasize vs))"
      using rm by (auto simp: split room_def cost_def)
    have vlen: "nasize + length vs < 2 ^ 31" using n wf_array_bound [OF wf] by (simp add: vs_def sizearray_def)
    obtain t4 where t4: "reinsert_array reh t3 nasize vs = Inr t4" "stored_all t3 (array_kvs nasize vs) t4"
      using reinsert_array_spec [OF f(1) vlen r1] by blast
    have wf4: "wf_table t4" and sz4: "sizearray t4 = nasize" using t4(2) sz by (simp_all add: stored_all_def)
    have c4: "cost t4 kvs = hash_count nasize kvs" for kvs
      by (simp add: cost_def hash_count_def in_array_outside sz4)
    have vk: "valid_key (i_key x)" if "x \<in> set (rev (nodes t))" "i_val x \<noteq> LNil" for x
    proof -
      from that(1) obtain j where j: "j < sizenode t" "x = gnode t j"
        using wf_length_nodes [OF wf] by (auto simp: in_set_conv_nth gnode_def)
      then have "nkey t j \<noteq> LNil" using wf_free [OF wf j(1)] that(2) by auto
      with wf_key [OF wf j(1)] j(2) show ?thesis by simp
    qed
    have r2: "room t4 (cost t4 (node_kvs (rev (nodes t))))"
      using rm t4(2) by (auto simp: split room_def c c4 hash_count_def stored_all_def)
    obtain t5 where t5: "reinsert_nodes reh t4 (rev (nodes t)) = Inr t5" "stored_all t4 (node_kvs (rev (nodes t))) t5"
      using reinsert_nodes_spec [OF wf4 vk r2] by blast
    have all: "stored_all t3 (resize_kvs t nasize) t5"
      unfolding split by (rule stored_all_append [OF t4(2) t5(2)])
    have eq: "resize reh t nasize nhsize = Inr t5"
    proof (cases "nasize < sizearray t")
      case True
      then have "t2\<lparr>t_array := take nasize (t_array t2)\<rparr> = t3" "drop nasize (t_array t2) = vs"
        using sn(4) by (simp_all add: t3_def arr_def vs_def t1_def)
      moreover have "t1 = t" using True by (simp add: t1_def)
      ultimately show ?thesis using True 1 t4(1) t5(1) by (simp add: resize_def Let_def)
    next
      case False
      then have "vs = []" "t2 = t3"
        using sn(4) by (auto simp: t3_def arr_def vs_def t1_def sizearray_def setarrayvector_def)
      with False show ?thesis using 1 t4(1) t5(1) by (simp add: resize_def t1_def [symmetric] Let_def)
    qed
    have "tget t5 k = tget t k" if k: "valid_key k" for k
      using all k resize_lookup [OF wf k, of "tget t3"] f(3) [OF k]
      by (simp add: stored_all_def arr_def in_array_outside sz)
    then have "resized t nasize nhsize t5"
      using all sn(2,3) sz f(2) unfolding resized_def stored_all_def c by simp
    with eq that(1) show ?thesis by blast
  qed
qed

end
