(* ===== verification/Lua_Table_Ops.thy ===== *)
theory Lua_Table_Ops
  imports Lua_Table_Rehash
begin

text \<open>
  \<open>rehash\<close> makes room for the key that asked for it, so that \<open>luaH_set\<close> is total on well-formed
  tables; \<open>luaH_new\<close> is empty, \<open>luaH_next\<close> enumerates the entries and \<open>luaH_getn\<close> returns a border.
\<close>

subsection \<open>rehash\<close>

lemma upto_count_append: "upto_count (xs @ ys) n = upto_count xs n + upto_count ys n"
  by (simp add: upto_count_def)

lemma upto_count_ints:
  assumes "n \<le> 2 ^ 26"
  shows "upto_count (ints ks) n = length (filter (\<lambda>k. \<not> outside n k) ks)"
proof (induction ks)
  case (Cons k ks)
  have "upto_count (ints [k]) n = (if outside n k then 0 else 1)"
    using assms by (auto simp: ints_def upto_count_def outside_def nat_le_iff)
  with Cons show ?case by (simp add: ints_Cons [of k ks] upto_count_append)
qed (simp add: ints_def upto_count_def)

lemma array_kvs_count:
  assumes "length arr \<le> 2 ^ 26"
  shows "length (used_from arr 1) = upto_count (used_from arr 1) n + length (array_kvs n (drop n arr))"
    and "kv \<in> set (array_kvs n (drop n arr)) \<Longrightarrow> outside n (fst kv)"
proof -
  have split: "length (filter P xs) + length (filter (\<lambda>x. \<not> P x) xs) = length xs" for P and xs :: "nat list"
    by (rule sum_length_filter_compl)
  have "filter (\<lambda>x. \<not> x \<le> n) (used_from arr 1) = used_from arr (Suc n)"
  proof (cases "n \<le> length arr")
    case True
    have "used_from arr 1 = filter (\<lambda>p. arr ! (p - 1) \<noteq> LNil) [1..<Suc n] @ used_from arr (Suc n)"
      using used_from_split [of 1 n arr] True by simp
    moreover have "filter (\<lambda>x. \<not> x \<le> n) (filter (\<lambda>p. arr ! (p - 1) \<noteq> LNil) [1..<Suc n]) = []"
      by (auto simp: filter_empty_conv)
    moreover have "filter (\<lambda>x. \<not> x \<le> n) (used_from arr (Suc n)) = used_from arr (Suc n)"
      unfolding used_from_def filter_filter by (rule filter_cong) auto
    ultimately show ?thesis by (simp del: upt_Suc)
  next
    case False
    then show ?thesis by (auto simp: used_from_def filter_empty_conv)
  qed
  moreover have "length (used_from arr (Suc n)) = length (array_kvs n (drop n arr))"
  proof -
    have "[Suc n..<Suc (length arr)] = map (\<lambda>j. Suc (n + j)) [0..<length (drop n arr)]"
      by (rule nth_equalityI) (simp_all del: upt_Suc)
    then have "length (used_from arr (Suc n)) = length (filter (\<lambda>j. arr ! (n + j) \<noteq> LNil) [0..<length (drop n arr)])"
      by (simp add: used_from_def filter_map comp_def del: upt_Suc)
    also have "\<dots> = length (array_kvs n (drop n arr))"
      by (simp add: array_kvs_def filter_map comp_def)
        (rule arg_cong [where f = length], rule filter_cong, simp_all)
    finally show ?thesis .
  qed
  ultimately show "length (used_from arr 1) = upto_count (used_from arr 1) n + length (array_kvs n (drop n arr))"
    using split [of "\<lambda>x. x \<le> n" "used_from arr 1"] by (simp add: upto_count_def)
  assume "kv \<in> set (array_kvs n (drop n arr))"
  then have "(fst kv, snd kv) \<in> set (array_kvs n (drop n arr))" by simp
  then obtain j where "n \<le> j" "j < length arr" "fst kv = LNumber (cast_num (int j + 1))"
    unfolding array_kvs_mem by blast
  with arrayindex_index [of j] assms show "outside n (fst kv)" by (simp add: outside_def)
qed

lemma hash_count_total:
  assumes wf: "wf_table t" and n: "n \<le> 2 ^ 26"
  shows "length (used_from (t_array t) 1) + length (live_nodes (nodes t)) + 1 =
     upto_count (rehash_ints t ek) n + hash_count n (resize_kvs t n) + (if outside n ek then 1 else 0)"
proof -
  let ?ks = "map i_key (live_nodes (rev (nodes t)))"
  have "length (filter (\<lambda>k. \<not> outside n k) ?ks) + length (filter (outside n) ?ks) = length ?ks"
    using sum_length_filter_compl [of "outside n" ?ks] by simp
  moreover have "length (live_nodes (rev (nodes t))) = length (live_nodes (nodes t))"
    by (simp add: live_nodes_def rev_filter [symmetric])
  moreover have "hash_count n (node_kvs (rev (nodes t))) = length (filter (outside n) ?ks)"
    by (simp add: hash_count_def node_kvs_def filter_map comp_def)
  moreover have "hash_count n (array_kvs n (drop n (t_array t))) = length (array_kvs n (drop n (t_array t)))"
    unfolding hash_count_def
    by (rule filter_all_length) (use array_kvs_count(2) wf_array_bound [OF wf] in \<open>simp add: sizearray_def\<close>)
  moreover have "hash_count n (resize_kvs t n) =
      hash_count n (array_kvs n (drop n (t_array t))) + hash_count n (node_kvs (rev (nodes t)))"
    by (simp add: hash_count_def resize_kvs_def)
  moreover have "length (used_from (t_array t) 1) =
      upto_count (used_from (t_array t) 1) n + length (array_kvs n (drop n (t_array t)))"
    by (rule array_kvs_count(1)) (use wf_array_bound [OF wf] in \<open>simp add: sizearray_def\<close>)
  ultimately show ?thesis
    by (simp add: rehash_ints_def upto_count_append upto_count_ints [OF n])
qed

lemma rehash_ints_bounds:
  assumes "wf_table t" "x \<in> set (rehash_ints t ek)"
  shows "0 < x \<and> x \<le> 2 ^ 26"
  using assms(2) ints_bounds wf_array_bound [OF assms(1)]
  by (auto simp: rehash_ints_def used_from_def sizearray_def)

text \<open>The number of live entries.\<close>

definition live_count :: "Table \<Rightarrow> nat" where
  "live_count t = length (used_from (t_array t) 1) + length (live_nodes (nodes t))"

lemma live_count_upd [simp]: "live_count (t\<lparr>t_flags := x\<rparr>) = live_count t" "live_count (t\<lparr>t_lastfree := y\<rparr>) = live_count t"
  by (simp_all add: live_count_def nodes_def)

lemma rehash_spec:
  assumes wf: "wf_table t"
  obtains t' where "rehash reh t ek = Inr t'" "wf_table t'" "room t' (key_cost t' ek)"
      "t_metatable t' = t_metatable t" "\<And>k. valid_key k \<Longrightarrow> tget t' k = tget t k"
  | "rehash reh t ek = Inl (RunError (str ''table overflow''))" "2 ^ 26 \<le> live_count t"
proof -
  obtain n na where c: "computesizes (slice_sizes (rehash_ints t ek)) (length (rehash_ints t ek)) = (n, na)"
    by fastforce
  have b: "0 < x \<and> x \<le> 2 ^ 26" if "x \<in> set (rehash_ints t ek)" for x
    using rehash_ints_bounds [OF wf that] .
  note cs = computesizes_spec [OF b c]
  have "(2::nat) ^ k \<le> 2 ^ 26" if "k \<le> 26" for k by (rule power_increasing [OF that]) simp
  with cs(2) have n: "n \<le> 2 ^ 26" by auto
  define nh where "nh = length (used_from (t_array t) 1) + length (live_nodes (nodes t)) + 1 - na"
  have nh: "nh = hash_count n (resize_kvs t n) + (if outside n ek then 1 else 0)"
    using hash_count_total [OF wf n, of ek] cs(1) by (simp add: nh_def)
  have eq: "rehash reh t ek = resize reh t n nh"
    unfolding nh_def by (rule rehash_counts [OF wf_array_bound [OF wf] c])
  have "hash_count n (resize_kvs t n) \<le> nh" using nh by simp
  with wf n show ?thesis
  proof (cases rule: resize_spec [where reh = reh])
    case (1 t')
    have "room t' (key_cost t' ek)"
      using 1(2) nh by (auto simp: room_def key_cost_def in_array_outside resized_def)
    with 1 eq that(1) show ?thesis by (simp add: resized_def)
  next
    case 2
    with eq that(2) show ?thesis by (simp add: nh_def live_count_def)
  qed
qed

subsection \<open>Assignment is total\<close>

lemma find_key_lastfree [simp]: "find_key (t\<lparr>t_lastfree := y\<rparr>) k = find_key t k"
  by (rule find_key_cong) (simp_all add: sizearray_def)

lemma wf_lastfree_less:
  assumes "wf_table t" "y \<le> t_lastfree t" "t_node t = None \<or> card (used t) = sizenode t"
  shows "wf_table (t\<lparr>t_lastfree := y\<rparr>)" "valid_key k \<Longrightarrow> tget (t\<lparr>t_lastfree := y\<rparr>) k = tget t k"
proof -
  have full: "nkey t i \<noteq> LNil" if "i < sizenode t" "t_node t \<noteq> None" for i
  proof -
    have "card (used t) = card {..<sizenode t}" using assms(3) that(2) by simp
    moreover have "used t \<subseteq> {..<sizenode t}" by (auto simp: used_def)
    ultimately have "used t = {..<sizenode t}" by (intro card_subset_eq) simp_all
    with that(1) show ?thesis by (auto simp: used_def)
  qed
  show wf: "wf_table (t\<lparr>t_lastfree := y\<rparr>)"
    using assms(1) wf_shape_lastfree [OF wf_shapeD [OF assms(1)] assms(2)] full
    by (auto simp: wf_table_graph wf_graph_def lastfree_above_def)
  have "slot_val (t\<lparr>t_lastfree := y\<rparr>) s = slot_val t s" for s by (cases s) simp_all
  then show "valid_key k \<Longrightarrow> tget (t\<lparr>t_lastfree := y\<rparr>) k = tget t k"
    by (simp add: tget_find [OF wf] tget_find [OF assms(1)] slot_value_def split: option.split)
qed

text \<open>
  What an assignment \<open>t[k] = v\<close> through the slot returned by \<open>luaH_set\<close> promises: the invariant,
  the metatable, and the new lookup function.
\<close>

definition assigned :: "Table \<Rightarrow> TValue \<Rightarrow> TValue \<Rightarrow> Table \<Rightarrow> bool" where
  "assigned t k v t' \<longleftrightarrow> wf_table t' \<and> t_metatable t' = t_metatable t \<and>
     (\<forall>k'. valid_key k' \<longrightarrow> tget t' k' = (if luaO_rawequalObj k' k then v else tget t k'))"

lemma stored_assigned: "stored t k v t' c \<Longrightarrow> assigned t k v t'"
  by (simp add: stored_def assigned_def)

lemma newkey_grow:
  assumes wf: "wf_table t" and k: "valid_key k" and n: "find_key t k = None"
  obtains t' s where "newkey (grow 1) t k = Inr (t', s)" "assigned t k v (slot_set t' s v)"
  | "newkey (grow 1) t k = Inl (RunError (str ''table overflow''))" "2 ^ 26 \<le> live_count t"
  using wf k n
proof (cases rule: newkey_spec [where reh = "grow 1"])
  case (written t' m)
  have "t_node t' \<noteq> None" using written(2) by (simp add: key_written_def)
  have wf': "wf_table t'" using written(2) by (simp add: key_written_def)
  have "assigned t k v (slot_set t' (SNode m) v)"
    using slot_set_spec [OF wf' k key_written_find [OF written(2) k n], where v = v] written(2)
    unfolding assigned_def key_written_def by auto
  with written(1) that(1) show ?thesis by blast
next
  case (full y)
  let ?t = "t\<lparr>t_lastfree := y\<rparr>"
  note w = wf_lastfree_less [OF wf less_imp_le [OF full(2)] full(4)]
  have eq: "newkey (grow 1) t k = sum_bind (rehash (grow 0) ?t k) (\<lambda>t'. luaH_set_with (grow 0) t' k)"
    using full(1) by simp
  from w(1) show ?thesis
  proof (cases rule: rehash_spec [where reh = "grow 0" and ek = k])
    case (1 t')
    obtain t'' s where s: "luaH_set_with (grow 0) t' k = Inr (t'', s)"
      "stored t' k v (slot_set t'' s v) (key_cost t' k)"
      using set_room [OF 1(2) k 1(3)] by blast
    have "assigned t k v (slot_set t'' s v)"
      using s(2) 1 w(2) by (simp add: assigned_def stored_def)
    with s(1) 1(1) eq that(1) show ?thesis by simp
  next
    case 2
    with eq that(2) show ?thesis by simp
  qed
qed

lemma luaH_set_spec:
  assumes wf: "wf_table t" and k: "valid_key k"
  obtains t' s where "luaH_set t k = Inr (t', s)" "assigned t k v (slot_set t' s v)"
  | "luaH_set t k = Inl (RunError (str ''table overflow''))" "2 ^ 26 \<le> live_count t"
proof (cases "find_key t k")
  case (Some s)
  have "stored (t\<lparr>t_flags := 0\<rparr>) k v (slot_set (t\<lparr>t_flags := 0\<rparr>) s v) 0"
    by (rule stored_found) (use wf k Some in simp_all)
  from stored_assigned [OF stored_flags [OF this wf]] show ?thesis
    using that(1) Some luaH_set_with_cases [OF wf k] by (simp add: luaH_set_def)
next
  case None
  have w: "wf_table (t\<lparr>t_flags := 0\<rparr>)" "find_key (t\<lparr>t_flags := 0\<rparr>) k = None" using wf None by simp_all
  have eq: "luaH_set t k = newkey (grow 1) (t\<lparr>t_flags := 0\<rparr>) k"
    using None luaH_set_with_cases [OF wf k] by (simp add: luaH_set_def)
  from newkey_grow [OF w(1) k w(2), where v = v] show ?thesis
  proof cases
    case (1 t' s)
    have "assigned t k v (slot_set t' s v)" using 1(2) wf by (simp add: assigned_def)
    with 1(1) eq that(1) show ?thesis by simp
  qed (use eq that(2) in simp)
qed

lemma luaH_setnum_spec:
  assumes wf: "wf_table t" and n: "- (2 ^ 31) \<le> n" "n < 2 ^ 31"
  obtains t' s where "luaH_setnum t n = Inr (t', s)" "assigned t (LNumber (cast_num n)) v (slot_set t' s v)"
  | "luaH_setnum t n = Inl (RunError (str ''table overflow''))" "2 ^ 26 \<le> live_count t"
proof -
  let ?k = "LNumber (cast_num n)"
  have k: "valid_key ?k" using cast_num_finite(2) [of n] n by (simp add: abs_if)
  note g = luaH_getnum_find [OF wf n]
  show ?thesis
  proof (cases "find_key t ?k")
    case (Some s)
    have "assigned t ?k v (slot_set t s v)"
      using slot_set_spec [OF wf k Some, where v = v] by (simp add: assigned_def del: slot_set.simps)
    then show ?thesis using that(1) [of t s] Some g by (simp add: luaH_setnum_def luaH_setnum_with_def)
  next
    case None
    then have eq: "luaH_setnum t n = newkey (grow 1) t ?k" using g by (simp add: luaH_setnum_def luaH_setnum_with_def)
    from newkey_grow [OF wf k None, where v = v] show ?thesis
      by cases (use that eq in auto)
  qed
qed

subsection \<open>An empty table\<close>

lemma luaH_new_spec:
  assumes "narray \<le> 2 ^ 26"
  obtains t where "luaH_new narray nhash = Inr t" "wf_table t" "t_metatable t = None" "sizearray t = narray"
      "\<And>k. valid_key k \<Longrightarrow> tget t k = LNil"
  | "luaH_new narray nhash = Inl (RunError (str ''table overflow''))" "nhash > 2 ^ 26"
proof -
  let ?t0 = "setarrayvector \<lparr>t_flags = 255, t_lsizenode = 0, t_metatable = None,
                        t_array = [], t_node = None, t_lastfree = 0\<rparr> narray"
  have a: "t_array ?t0 = replicate narray LNil" "t_metatable ?t0 = None"
    by (simp_all add: setarrayvector_def sizearray_def)
  show ?thesis
  proof (cases rule: setnodevector_cases [of ?t0 nhash])
    case (1 t)
    note sn = setnodevector_spec [OF 1]
    have arr: "t_array t = replicate narray LNil" using sn(4) a by simp
    have f: "wf_table t" using wf_fresh(1) [of _ t, OF _ sn(1) refl] arr assms by simp
    have "tget t k = LNil" if "valid_key k" for k
    proof -
      have "in_array t k \<Longrightarrow> nat (arrayindex k - 1) < narray"
        using arr by (auto simp: in_array_def sizearray_def)
      then show ?thesis using wf_fresh(3) [of _ t, OF _ sn(1) refl that] arr assms by simp
    qed
    then show ?thesis using that(1) 1 f sn(5) a(2) arr by (simp add: luaH_new_def sizearray_def)
  next
    case 2
    then show ?thesis using that(2) by (simp add: luaH_new_def)
  qed
qed

subsection \<open>Traversal\<close>

definition pos_kv :: "Table \<Rightarrow> nat \<Rightarrow> TValue \<times> TValue" where
  "pos_kv t p =
     (if p < sizearray t then (LNumber (cast_num (int p + 1)), t_array t ! p)
      else (nkey t (p - sizearray t), nval t (p - sizearray t)))"

definition live_pos :: "Table \<Rightarrow> nat list" where
  "live_pos t = filter (\<lambda>p. snd (pos_kv t p) \<noteq> LNil) [0..<sizearray t + sizenode t]"

text \<open>The entries of a table in the order of traversal.\<close>

definition entries :: "Table \<Rightarrow> (TValue \<times> TValue) list" where
  "entries t = map (pos_kv t) (live_pos t)"

lemma next_array_find:
  assumes "i + c = sizearray t"
  shows "next_array t i c = map_option (pos_kv t) (find (\<lambda>p. snd (pos_kv t p) \<noteq> LNil) [i..<sizearray t])"
  using assms
proof (induction t i c rule: next_array.induct)
  case (2 t i c)
  have "[i..<sizearray t] = i # [Suc i..<sizearray t]" using "2.prems" by (simp add: upt_conv_Cons)
  with 2 show ?case by (simp add: pos_kv_def)
qed simp

lemma next_node_find:
  assumes "j + c = sizenode t"
  shows "next_node t j c = map_option (pos_kv t)
     (find (\<lambda>p. snd (pos_kv t p) \<noteq> LNil) [sizearray t + j..<sizearray t + sizenode t])"
  using assms
proof (induction t j c rule: next_node.induct)
  case (2 t j c)
  have "[sizearray t + j..<sizearray t + sizenode t] = (sizearray t + j) # [sizearray t + Suc j..<sizearray t + sizenode t]"
    using "2.prems" by (simp add: upt_conv_Cons)
  with 2 show ?case by (simp add: pos_kv_def)
qed simp

lemma find_append: "find P (xs @ ys) = (case find P xs of None \<Rightarrow> find P ys | Some x \<Rightarrow> Some x)"
  by (induction xs) simp_all

lemma luaH_next_from:
  assumes "findindex t key = Inr i0" "- 1 \<le> i0" "i0 < int (sizearray t + sizenode t)"
  shows "luaH_next t key = Inr (map_option (pos_kv t)
     (find (\<lambda>p. snd (pos_kv t p) \<noteq> LNil) [nat (i0 + 1)..<sizearray t + sizenode t]))"
proof -
  define i where "i = nat (i0 + 1)"
  have i: "i \<le> sizearray t + sizenode t" using assms(2,3) by (auto simp: i_def)
  show ?thesis
  proof (cases "i \<le> sizearray t")
    case True
    have split: "[i..<sizearray t + sizenode t] = [i..<sizearray t] @ [sizearray t..<sizearray t + sizenode t]"
      using True upt_add_eq_append [of i "sizearray t" "sizenode t"] by simp
    show ?thesis
      using True assms(1) next_array_find [of i "sizearray t - i" t] next_node_find [of 0 "sizenode t" t]
      by (simp add: luaH_next_def i_def [symmetric] split find_append Let_def split: option.split)
  next
    case False
    then have "next_array t i (sizearray t - i) = None" by simp
    with False i assms(1) next_node_find [of "i - sizearray t" "sizenode t - (i - sizearray t)" t]
    show ?thesis by (simp add: luaH_next_def i_def [symmetric] Let_def)
  qed
qed

fun slot_pos :: "Table \<Rightarrow> slot \<Rightarrow> nat" where
  "slot_pos t (SArray i) = i"
| "slot_pos t (SNode j) = j + sizearray t"

lemma findindex_find:
  assumes wf: "wf_table t" and k: "valid_key k"
  shows "findindex t k = (case find_key t k of Some s \<Rightarrow> Inr (int (slot_pos t s))
     | None \<Rightarrow> Inl (RunError (str ''invalid key to '' @ quoted ''next'')))"
proof (cases "in_array t k")
  case True
  with valid_key_not_nil [OF k] show ?thesis
    by (auto simp: findindex_def find_key_def in_array_def Let_def)
next
  case False
  let ?P = "\<lambda>n. luaO_rawequalObj (i_key n) k \<or>
     (case i_key n of LDeadKey p \<Rightarrow> 4 \<le> ttype k \<and> gcaddr k = Some p | _ \<Rightarrow> False)"
  have P: "?P (gnode t j) \<longleftrightarrow> luaO_rawequalObj (nkey t j) k" if "j < sizenode t" for j
  proof (cases "nkey t j = LNil")
    case False
    with wf_key [OF wf that] show ?thesis by (cases "nkey t j") simp_all
  qed simp
  have "find_slot ?P t (mainposition t k) = Inr (find_key t k)"
    by (rule chain_find_key [OF wf k False P])
  then obtain r where "chain_find ?P t (sizenode t) (mainposition t k) = Inr r" "find_key t k = map_option SNode r"
    by (auto simp: find_slot_def sum_bind_Inr_iff)
  with False valid_key_not_nil [OF k] show ?thesis
    by (auto simp: findindex_def in_array_def Let_def split: option.split)
qed

lemma find_filter: "find P xs = (case filter P xs of [] \<Rightarrow> None | y # ys \<Rightarrow> Some y)"
  by (induction xs) simp_all

lemma drop_filter_upt:
  "i < length (filter P [a..<n]) \<Longrightarrow> filter P [Suc (filter P [a..<n] ! i)..<n] = drop (Suc i) (filter P [a..<n])"
proof (induction "n - a" arbitrary: a i)
  case 0
  then show ?case by simp
next
  case (Suc d)
  then have e: "[a..<n] = a # [Suc a..<n]" by (simp add: upt_conv_Cons)
  have IH: "filter P [Suc (filter P [Suc a..<n] ! i)..<n] = drop (Suc i) (filter P [Suc a..<n])"
    if "i < length (filter P [Suc a..<n])" for i
    using Suc.hyps(1) [of "Suc a" i] Suc.hyps(2) that by simp
  show ?case
  proof (cases "P a")
    case True
    then show ?thesis using IH [of "i - 1"] Suc.prems by (cases i) (simp_all add: e)
  next
    case False
    then show ?thesis using IH [of i] Suc.prems by (simp add: e)
  qed
qed

lemma filter_upt_next:
  assumes "i < length (filter P [0..<n])"
  shows "find P [Suc (filter P [0..<n] ! i)..<n] =
    (if Suc i < length (filter P [0..<n]) then Some (filter P [0..<n] ! Suc i) else None)"
  unfolding find_filter drop_filter_upt [OF assms] by (auto simp: Cons_nth_drop_Suc [symmetric])

lemma find_key_pos:
  assumes wf: "wf_table t" and p: "p < sizearray t + sizenode t" "snd (pos_kv t p) \<noteq> LNil"
  shows "valid_key (fst (pos_kv t p)) \<and> (\<exists>s. find_key t (fst (pos_kv t p)) = Some s \<and> slot_pos t s = p)"
proof (cases "p < sizearray t")
  case True
  have b: "p < 2 ^ 31 - 1" using True wf_array_bound [OF wf] by simp
  have v: "valid_key (LNumber (cast_num (int p + 1)))" using cast_num_finite(2) [of "int p + 1"] b by simp
  have "find_key t (LNumber (cast_num (int p + 1))) = Some (SArray p)"
    using True arrayindex_index [OF b] by (simp only: find_key_def in_array_def) simp
  with True v show ?thesis by (simp add: pos_kv_def)
next
  case False
  define j where "j = p - sizearray t"
  have j: "j < sizenode t" using p(1) False by (simp add: j_def)
  have n: "nkey t j \<noteq> LNil" using wf_free [OF wf j] p(2) False by (auto simp: pos_kv_def j_def)
  note v = wf_key [OF wf j n]
  have "find (\<lambda>i. luaO_rawequalObj (nkey t i) (nkey t j)) [0..<sizenode t] = Some j"
  proof (rule find_upt_Some [OF j])
    show "luaO_rawequalObj (nkey t j) (nkey t j)" by (rule rawequal_refl [OF v])
    fix i assume i: "i < sizenode t" "luaO_rawequalObj (nkey t i) (nkey t j)"
    show "i = j" by (rule wf_distinct [OF wf i(1) j i(2)]) (use rawequal_valid_key [OF i(2) v] in simp)
  qed
  with False v wf_not_array [OF wf j n] show ?thesis
    by (simp add: pos_kv_def find_key_def j_def [symmetric]) (simp add: j_def)
qed

text \<open>\<open>next\<close> walks through the entries: from nil to the first, from each to the one after it.\<close>

lemma luaH_next_first:
  "luaH_next t LNil = Inr (if entries t = [] then None else Some (hd (entries t)))"
  using luaH_next_from [of t LNil "- 1"]
  by (simp add: findindex_def entries_def live_pos_def find_filter split: list.split)

lemma luaH_next_entry:
  assumes wf: "wf_table t" and i: "i < length (entries t)"
  shows "luaH_next t (fst (entries t ! i)) =
    Inr (if Suc i < length (entries t) then Some (entries t ! Suc i) else None)"
proof -
  have il: "i < length (live_pos t)" using i by (simp add: entries_def)
  define p where "p = live_pos t ! i"
  have "p \<in> set (live_pos t)" using il by (simp add: p_def)
  then have p: "p < sizearray t + sizenode t" "snd (pos_kv t p) \<noteq> LNil" by (simp_all add: live_pos_def)
  from find_key_pos [OF wf p] obtain s where s: "valid_key (fst (pos_kv t p))"
    "find_key t (fst (pos_kv t p)) = Some s" "slot_pos t s = p" by blast
  have fi: "findindex t (fst (pos_kv t p)) = Inr (int p)" using findindex_find [OF wf s(1)] s(2,3) by simp
  have "luaH_next t (fst (pos_kv t p)) = Inr (map_option (pos_kv t)
     (find (\<lambda>p. snd (pos_kv t p) \<noteq> LNil) [Suc p..<sizearray t + sizenode t]))"
    using luaH_next_from [OF fi] p(1) by (simp add: nat_add_distrib)
  also have "find (\<lambda>p. snd (pos_kv t p) \<noteq> LNil) [Suc p..<sizearray t + sizenode t] =
      (if Suc i < length (live_pos t) then Some (live_pos t ! Suc i) else None)"
    using filter_upt_next [of i "\<lambda>p. snd (pos_kv t p) \<noteq> LNil" "sizearray t + sizenode t"] il
    by (simp add: live_pos_def p_def)
  finally show ?thesis using i il by (simp add: entries_def p_def)
qed

lemma luaH_next_invalid:
  "wf_table t \<Longrightarrow> valid_key k \<Longrightarrow> find_key t k = None \<Longrightarrow>
    luaH_next t k = Inl (RunError (str ''invalid key to '' @ quoted ''next''))"
  by (simp add: luaH_next_def findindex_find)

lemma slot_pos_inj:
  assumes "wf_table t" "valid_key k" "valid_key k'" "find_key t k = Some s" "find_key t k' = Some s'"
    and "slot_pos t s = slot_pos t s'"
  shows "s = s'"
  using assms(1,2,4)
proof (cases rule: find_key_slot)
  case (array i)
  from assms(1,3,5) show ?thesis using array assms(6) by (cases rule: find_key_slot) simp_all
next
  case (node j ns)
  from assms(1,3,5) show ?thesis using node assms(6) by (cases rule: find_key_slot) simp_all
qed

lemma slot_pos_less:
  assumes "wf_table t" "valid_key k" "find_key t k = Some s"
  shows "slot_pos t s < sizearray t + sizenode t"
  using assms by (cases rule: find_key_slot) simp_all

lemma slot_value_pos:
  assumes "wf_table t" "valid_key k" "find_key t k = Some s"
  shows "snd (pos_kv t (slot_pos t s)) = slot_val t s"
  using assms by (cases rule: find_key_slot) (simp_all add: pos_kv_def)

text \<open>The entries are exactly the keys with a non-nil value, each once.\<close>

lemma entries_iff:
  assumes wf: "wf_table t" and k: "valid_key k"
  shows "(\<exists>kv \<in> set (entries t). luaO_rawequalObj (fst kv) k \<and> snd kv = v) \<longleftrightarrow> tget t k = v \<and> v \<noteq> LNil"
proof
  assume "\<exists>kv \<in> set (entries t). luaO_rawequalObj (fst kv) k \<and> snd kv = v"
  then obtain p where p: "p < sizearray t + sizenode t" "snd (pos_kv t p) \<noteq> LNil"
    "luaO_rawequalObj (fst (pos_kv t p)) k" "snd (pos_kv t p) = v"
    by (auto simp: entries_def live_pos_def)
  from find_key_pos [OF wf p(1,2)] obtain s where s: "find_key t (fst (pos_kv t p)) = Some s" "slot_pos t s = p"
    and vk: "valid_key (fst (pos_kv t p))" by blast
  have "find_key t k = Some s" using find_key_rawequal [OF p(3)] s(1) by simp
  with slot_value_pos [OF wf k this] s p show "tget t k = v \<and> v \<noteq> LNil"
    by (simp add: tget_find [OF wf k] slot_value_def)
next
  assume v: "tget t k = v \<and> v \<noteq> LNil"
  then obtain s where s: "find_key t k = Some s" "slot_val t s = v"
    by (auto simp: tget_find [OF wf k] slot_value_def split: option.splits)
  define p where "p = slot_pos t s"
  have p: "p < sizearray t + sizenode t" "snd (pos_kv t p) = v"
    using slot_pos_less [OF wf k s(1)] slot_value_pos [OF wf k s(1)] s(2) by (simp_all add: p_def)
  with v find_key_pos [OF wf p(1)] obtain s' where s': "valid_key (fst (pos_kv t p))"
    "find_key t (fst (pos_kv t p)) = Some s'" "slot_pos t s' = p" by auto
  have "s' = s" by (rule slot_pos_inj [OF wf s'(1) k s'(2) s(1)]) (simp add: s'(3) p_def)
  then have "luaO_rawequalObj (fst (pos_kv t p)) k" using find_key_same [OF wf k s'(1) s(1)] s'(2) by simp
  moreover have "pos_kv t p \<in> set (entries t)" using p v by (simp add: entries_def live_pos_def)
  ultimately show "\<exists>kv \<in> set (entries t). luaO_rawequalObj (fst kv) k \<and> snd kv = v" using p(2) by blast
qed

lemma entries_distinct:
  assumes wf: "wf_table t" and "i < length (entries t)" "j < length (entries t)"
    and e: "luaO_rawequalObj (fst (entries t ! i)) (fst (entries t ! j))"
  shows "i = j"
proof -
  define p q where "p = live_pos t ! i" and "q = live_pos t ! j"
  have l: "i < length (live_pos t)" "j < length (live_pos t)" using assms(2,3) by (simp_all add: entries_def)
  have "p \<in> set (live_pos t)" "q \<in> set (live_pos t)" using l by (simp_all add: p_def q_def)
  then have p: "p < sizearray t + sizenode t" "snd (pos_kv t p) \<noteq> LNil"
    and q: "q < sizearray t + sizenode t" "snd (pos_kv t q) \<noteq> LNil" by (simp_all add: live_pos_def)
  from find_key_pos [OF wf p] find_key_pos [OF wf q] find_key_rawequal [OF e]
  have "p = q" using l by (auto simp: entries_def p_def q_def)
  moreover have "distinct (live_pos t)" by (simp add: live_pos_def)
  ultimately show ?thesis using l nth_eq_iff_index_eq by (auto simp: p_def q_def)
qed

lemma entries_valid: "wf_table t \<Longrightarrow> kv \<in> set (entries t) \<Longrightarrow> valid_key (fst kv) \<and> snd kv \<noteq> LNil"
  using find_key_pos by (auto simp: entries_def live_pos_def)

lemma entries_slots: "length (entries t) \<le> sizearray t + sizenode t"
  using length_filter_le [of "\<lambda>p. snd (pos_kv t p) \<noteq> LNil" "[0..<sizearray t + sizenode t]"] by (simp add: entries_def live_pos_def)

lemma nodes_map: "wf_table t \<Longrightarrow> nodes t = map (gnode t) [0..<sizenode t]"
  by (rule nth_equalityI) (auto simp: gnode_def nodes_def wf_table_def wf_shape_def sizenode_def twoto_def split: option.splits)

lemma live_count_entries:
  assumes "wf_table t"
  shows "live_count t = length (entries t)"
proof -
  let ?P = "\<lambda>p. snd (pos_kv t p) \<noteq> LNil"
  have "filter (\<lambda>p. t_array t ! (p - 1) \<noteq> LNil) (map Suc [0..<sizearray t]) = map Suc (filter ?P [0..<sizearray t])"
    unfolding filter_map comp_def by (intro arg_cong [where f = "map Suc"] filter_cong) (auto simp: pos_kv_def)
  then have a: "length (used_from (t_array t) 1) = length (filter ?P [0..<sizearray t])"
    by (simp add: used_from_def sizearray_def map_Suc_upt del: upt_Suc)
  have "filter ?P [sizearray t..<sizearray t + sizenode t] = map (\<lambda>j. j + sizearray t) (filter (\<lambda>j. nval t j \<noteq> LNil) [0..<sizenode t])"
    using map_add_upt [of "sizearray t" "sizenode t", symmetric]
    by (simp add: filter_map comp_def pos_kv_def add.commute cong: filter_cong)
  moreover have "live_nodes (nodes t) = map (gnode t) (filter (\<lambda>j. nval t j \<noteq> LNil) [0..<sizenode t])"
    by (subst nodes_map [OF assms]) (simp add: live_nodes_def filter_map comp_def)
  ultimately have b: "length (live_nodes (nodes t)) = length (filter ?P [sizearray t..<sizearray t + sizenode t])" by simp
  have "[0..<sizearray t + sizenode t] = [0..<sizearray t] @ [sizearray t..<sizearray t + sizenode t]"
    by (rule upt_add_eq_append) simp
  with a b show ?thesis by (simp add: live_count_def entries_def live_pos_def)
qed

text \<open>A table whose keys are among \<open>n\<close> keys has at most \<open>n\<close> entries.\<close>

lemma entries_length_le:
  assumes wf: "wf_table t" and c: "\<And>k. valid_key k \<Longrightarrow> tget t k \<noteq> LNil \<Longrightarrow> \<exists>x \<in> set ks. luaO_rawequalObj k x"
  shows "length (entries t) \<le> length ks"
proof -
  let ?k = "\<lambda>i. fst (entries t ! i)"
  have "\<exists>j < length ks. luaO_rawequalObj (?k i) (ks ! j)" if i: "i < length (entries t)" for i
  proof -
    have m: "entries t ! i \<in> set (entries t)" using i by simp
    note v = entries_valid [OF wf m]
    have "tget t (?k i) = snd (entries t ! i)"
      using entries_iff [OF wf, of "?k i" "snd (entries t ! i)"] m v rawequal_refl [of "?k i"] by blast
    then have "tget t (?k i) \<noteq> LNil" using v by simp
    with c v show ?thesis by (metis in_set_conv_nth)
  qed
  then obtain f where f: "\<And>i. i < length (entries t) \<Longrightarrow> f i < length ks \<and> luaO_rawequalObj (?k i) (ks ! f i)" by metis
  have "inj_on f {..<length (entries t)}"
  proof (rule inj_onI)
    fix i j assume ij: "i \<in> {..<length (entries t)}" "j \<in> {..<length (entries t)}" "f i = f j"
    then have "luaO_rawequalObj (?k i) (?k j)"
      using f [of i] f [of j] rawequal_trans rawequal_sym by (metis lessThan_iff)
    with ij show "i = j" using entries_distinct [OF wf] by simp
  qed
  then have "card {..<length (entries t)} \<le> card {..<length ks}"
    by (rule card_inj_on_le) (use f in auto)
  then show ?thesis by simp
qed

subsection \<open>The border\<close>

abbreviation tgeti :: "Table \<Rightarrow> nat \<Rightarrow> TValue" where
  "tgeti t n \<equiv> tget t (LNumber (cast_num (int n)))"

definition border :: "Table \<Rightarrow> nat \<Rightarrow> bool" where
  "border t n \<longleftrightarrow> (n = 0 \<or> tgeti t n \<noteq> LNil) \<and> tgeti t (Suc n) = LNil"

lemma valid_int_key: "n < 2 ^ 31 \<Longrightarrow> valid_key (LNumber (cast_num (int n)))"
  using cast_num_finite(2) [of "int n"] by simp

lemma getnum_nil_eq: "wf_table t \<Longrightarrow> n < 2 ^ 31 \<Longrightarrow> getnum_nil t n = Inr (tgeti t n = LNil)"
  using luaH_getnum_find [of t "int n"]
  by (simp add: getnum_nil_def tget_find [OF _ valid_int_key])

lemma border_search_spec:
  assumes "\<And>m. i \<le> m \<Longrightarrow> m \<le> j \<Longrightarrow> 0 < m \<Longrightarrow> isnil m = Inr (P m)" "i < j"
    and "i = 0 \<or> \<not> P i" "P j"
  shows "\<exists>n. border_search isnil i j = Inr n \<and> i \<le> n \<and> n < j \<and> (n = 0 \<or> \<not> P n) \<and> P (Suc n)"
  using assms
proof (induction isnil i j rule: border_search.induct)
  case (1 isnil i j)
  show ?case
  proof (cases "j - i > 1")
    case False
    then have "j = Suc i" using "1.prems"(2) by simp
    then show ?thesis using "1.prems" by (simp add: border_search.simps [of isnil i])
  next
    case True
    define m where "m = (i + j) div 2"
    have m: "i < m" "m < j" using True by (simp_all add: m_def)
    have e: "isnil m = Inr (P m)" using "1.prems"(1) [of m] m by simp
    show ?thesis
    proof (cases "P m")
      case P: True
      have "\<exists>n. border_search isnil i m = Inr n \<and> i \<le> n \<and> n < m \<and> (n = 0 \<or> \<not> P n) \<and> P (Suc n)"
        by (rule "1.IH"(1) [OF True m_def e]) (use P "1.prems" m in simp_all)
      then show ?thesis using True e P m by (auto simp: border_search.simps [of isnil i j] m_def [symmetric])
    next
      case P: False
      have "\<exists>n. border_search isnil m j = Inr n \<and> m \<le> n \<and> n < j \<and> (n = 0 \<or> \<not> P n) \<and> P (Suc n)"
        by (rule "1.IH"(2) [OF True m_def e]) (use P "1.prems" m in simp_all)
      then show ?thesis using True e P m by (auto simp: border_search.simps [of isnil i j] m_def [symmetric])
    qed
  qed
qed

text \<open>A table has room for at most as many non-nil entries as it has slots.\<close>

lemma nonnil_prefix_bound:
  assumes wf: "wf_table t" and m: "m < 2 ^ 31" and nn: "\<And>i. 1 \<le> i \<Longrightarrow> i \<le> m \<Longrightarrow> tgeti t i \<noteq> LNil"
  shows "m \<le> sizearray t + sizenode t"
proof -
  let ?k = "\<lambda>i::nat. LNumber (cast_num (int i))"
  let ?f = "\<lambda>i. slot_pos t (the (find_key t (?k i)))"
  have s: "valid_key (?k i)" "\<exists>s. find_key t (?k i) = Some s" if "i \<in> {1..m}" for i
  proof -
    show v: "valid_key (?k i)" using valid_int_key [of i] that m by simp
    show "\<exists>s. find_key t (?k i) = Some s"
      using nn [of i] that by (cases "find_key t (?k i)") (simp_all add: tget_find [OF wf v] slot_value_def)
  qed
  have "inj_on ?f {1..m}"
  proof (rule inj_onI)
    fix i j assume i: "i \<in> {1..m}" and j: "j \<in> {1..m}" and e: "?f i = ?f j"
    from s [OF i] s [OF j] obtain a b where ab: "valid_key (?k i)" "valid_key (?k j)"
      "find_key t (?k i) = Some a" "find_key t (?k j) = Some b" by blast
    then have "a = b" using slot_pos_inj [OF wf ab] e by simp
    then have "luaO_rawequalObj (?k j) (?k i)" using find_key_same [OF wf ab(1,2,3)] ab(4) by simp
    moreover have "\<bar>int i\<bar> < 2 ^ 53" "\<bar>int j\<bar> < 2 ^ 53" using i j m by auto
    ultimately show "i = j" using luai_numeq_cast_num [of "int j" "int i"] by simp
  qed
  moreover have "?f i < sizearray t + sizenode t" if "i \<in> {1..m}" for i
    using s [OF that] slot_pos_less [OF wf] by force
  then have "?f ` {1..m} \<subseteq> {..<sizearray t + sizenode t}" by blast
  ultimately have "card {1..m} \<le> card {..<sizearray t + sizenode t}"
    by (intro card_inj_on_le) simp_all
  then show ?thesis by simp
qed

lemma wf_sizes: "wf_table t \<Longrightarrow> sizearray t + sizenode t \<le> 2 ^ 27"
proof -
  assume wf: "wf_table t"
  have "(2::nat) ^ t_lsizenode t \<le> 2 ^ 26" by (rule power_increasing [OF wf_lsizenode [OF wf]]) simp
  with wf_array_bound [OF wf] show ?thesis by (simp add: sizenode_def twoto_def)
qed

lemma linear_search_spec:
  assumes wf: "wf_table t" and "1 \<le> i" "sizearray t + sizenode t + 2 \<le> i + f"
    and "\<And>p. 1 \<le> p \<Longrightarrow> p < i \<Longrightarrow> tgeti t p \<noteq> LNil"
  shows "\<exists>n. linear_search t i f = Inr n \<and> border t n \<and> n < MAX_INT"
  using assms(2-)
proof (induction f arbitrary: i)
  case 0
  have "sizearray t + sizenode t + 1 \<le> sizearray t + sizenode t"
    by (rule nonnil_prefix_bound [OF wf]) (use 0 wf_sizes [OF wf] in simp_all)
  then show ?case by simp
next
  case (Suc f)
  have "i - 1 \<le> sizearray t + sizenode t" if "i \<le> 2 ^ 27 + 2"
    by (rule nonnil_prefix_bound [OF wf]) (use that Suc.prems(3) in simp_all)
  moreover have "i \<le> 2 ^ 27 + 2"
  proof (rule ccontr)
    assume "\<not> i \<le> 2 ^ 27 + 2"
    then have "(2::nat) ^ 27 + 1 \<le> sizearray t + sizenode t"
      by (intro nonnil_prefix_bound [OF wf]) (use Suc.prems(3) in simp_all)
    with wf_sizes [OF wf] show False by simp
  qed
  note i = this
  ultimately have g: "getnum_nil t i = Inr (tgeti t i = LNil)" by (intro getnum_nil_eq [OF wf]) simp
  have i: "i - 1 < MAX_INT" using i by (simp add: MAX_INT_def)
  show ?case
  proof (cases "tgeti t i = LNil")
    case True
    have "i = 1 \<or> tgeti t (i - 1) \<noteq> LNil" using Suc.prems(1) Suc.prems(3) [of "i - 1"] by fastforce
    then have "border t (i - 1)" using True Suc.prems(1) by (auto simp: border_def)
    with True g i show ?thesis by simp
  next
    case False
    have "\<exists>n. linear_search t (Suc i) f = Inr n \<and> border t n \<and> n < MAX_INT"
    proof (rule Suc.IH)
      fix p assume "1 \<le> p" "p < Suc i"
      then show "tgeti t p \<noteq> LNil" using Suc.prems(3) [of p] False by (cases "p = i") simp_all
    qed (use Suc.prems in simp_all)
    with False g show ?thesis by simp
  qed
qed

lemma unbound_loop_spec:
  assumes wf: "wf_table t" and "i = 0 \<or> tgeti t i \<noteq> LNil" "i < j" "j \<le> MAX_INT"
  shows "\<exists>n. unbound_loop t i j = Inr n \<and> border t n \<and> n < MAX_INT"
  using assms(2-)
proof (induction "MAX_INT - j" arbitrary: i j rule: less_induct)
  case less
  have g: "getnum_nil t p = Inr (tgeti t p = LNil)" if "p \<le> j" for p
    by (rule getnum_nil_eq [OF wf]) (use that less.prems(3) in \<open>simp add: MAX_INT_def\<close>)
  show ?case
  proof (cases "tgeti t j = LNil")
    case True
    have "\<exists>n. border_search (getnum_nil t) i j = Inr n \<and> i \<le> n \<and> n < j \<and> (n = 0 \<or> \<not> tgeti t n = LNil) \<and>
        tgeti t (Suc n) = LNil"
      by (rule border_search_spec) (use g less.prems True in simp_all)
    then obtain n where "border_search (getnum_nil t) i j = Inr n" "n < j" "border t n" by (auto simp: border_def)
    with True g [of j] less.prems(3) show ?thesis
      by (intro exI [of _ n]) (simp add: unbound_loop.simps [of t i j])
  next
    case False
    show ?thesis
    proof (cases "j * 2 > MAX_INT \<or> j = 0")
      case True
      have "\<exists>n. linear_search t 1 (sizearray t + sizenode t + 1) = Inr n \<and> border t n \<and> n < MAX_INT"
        by (rule linear_search_spec [OF wf]) simp_all
      with True False g [of j] show ?thesis by (auto simp: unbound_loop.simps [of t i j])
    next
      case small: False
      then have "MAX_INT - j * 2 < MAX_INT - j" "j < j * 2" "j * 2 \<le> MAX_INT" by auto
      from less.hyps [OF this(1) _ this(2,3)] False
      have "\<exists>n. unbound_loop t j (j * 2) = Inr n \<and> border t n \<and> n < MAX_INT" by simp
      with small False g [of j] show ?thesis by (simp add: unbound_loop.simps [of t i j])
    qed
  qed
qed

text \<open>\<open>luaH_getn\<close> returns a border, in the array part or beyond it.\<close>

lemma tgeti_array:
  assumes "wf_table t" "0 < n" "n \<le> sizearray t"
  shows "tgeti t n = t_array t ! (n - 1)"
proof -
  have "n < 2 ^ 31" using assms(3) wf_array_bound [OF assms(1)] by simp
  moreover have "arrayindex (LNumber (cast_num (int n))) = int n"
    by (rule arrayindex_cast_num) (use \<open>n < 2 ^ 31\<close> in simp_all)
  ultimately show ?thesis
    using tget_array [OF assms(1) valid_int_key [of n]] assms(2,3)
    by (simp add: in_array_def nat_diff_distrib')
qed

lemma tget_dummy:
  assumes wf: "wf_table t" and "t_node t = None" "valid_key k" "\<not> in_array t k"
  shows "tget t k = LNil"
proof (cases "find_key t k")
  case None
  then show ?thesis using tget_find [OF wf assms(3)] by (simp add: slot_value_def)
next
  case (Some s)
  from find_key_slot [OF wf assms(3) this] assms show ?thesis by cases simp_all
qed

lemma luaH_getn_spec:
  assumes wf: "wf_table t"
  shows "\<exists>n. luaH_getn t = Inr n \<and> border t n \<and> n < MAX_INT"
proof -
  define j where "j = sizearray t"
  have j: "j \<le> 2 ^ 26" using wf_array_bound [OF wf] by (simp add: j_def)
  show ?thesis
  proof (cases "j > 0 \<and> t_array t ! (j - 1) = LNil")
    case True
    have "\<exists>n. border_search (\<lambda>m. Inr (ttisnil (t_array t ! (m - 1)))) 0 j = Inr n \<and> 0 \<le> n \<and> n < j \<and>
       (n = 0 \<or> \<not> t_array t ! (n - 1) = LNil) \<and> t_array t ! (Suc n - 1) = LNil"
      by (rule border_search_spec) (use True in simp_all)
    then obtain n where n: "border_search (\<lambda>m. Inr (ttisnil (t_array t ! (m - 1)))) 0 j = Inr n" "n < j"
      "n = 0 \<or> t_array t ! (n - 1) \<noteq> LNil" "t_array t ! n = LNil" by auto
    then have "border t n"
      using tgeti_array [OF wf, of n] tgeti_array [OF wf, of "Suc n"] by (auto simp: border_def j_def)
    with n(1,2) True j show ?thesis by (auto simp: luaH_getn_def j_def Let_def MAX_INT_def)
  next
    case False
    then have jn: "j = 0 \<or> tgeti t j \<noteq> LNil" using tgeti_array [OF wf, of j] by (auto simp: j_def)
    show ?thesis
    proof (cases "t_node t = None")
      case True
      have "arrayindex (LNumber (cast_num (int (Suc j)))) = int (Suc j)"
        by (rule arrayindex_cast_num) (use j in simp_all)
      then have "\<not> in_array t (LNumber (cast_num (int (Suc j))))" by (simp add: in_array_def j_def)
      then have "tgeti t (Suc j) = LNil" using tget_dummy [OF wf True valid_int_key [of "Suc j"]] j by simp
      with jn True False j show ?thesis by (auto simp: luaH_getn_def j_def border_def Let_def MAX_INT_def)
    next
      case N: False
      have "\<exists>n. unbound_loop t j (j + 1) = Inr n \<and> border t n \<and> n < MAX_INT"
        by (rule unbound_loop_spec [OF wf jn]) (use j in \<open>simp_all add: MAX_INT_def\<close>)
      with N False show ?thesis by (auto simp: luaH_getn_def j_def unbound_search_def Let_def)
    qed
  qed
qed

end
