(* ===== verification/Lua_Table_Props.thy ===== *)
theory Lua_Table_Props
  imports Lua_Table_Ops
begin

text \<open>
  What the table component promises its clients, stated of the functions of \<^verbatim>\<open>ltable.c\<close>, and
  a small table on which the hypotheses hold.
\<close>

definition demo_table :: Table where
  "demo_table = \<lparr>t_flags = 0, t_lsizenode = 1, t_metatable = None, t_array = [LBoolean True, LNil],
     t_node = Some [\<lparr>i_val = LBoolean False, i_key = LString (str ''a''), i_next = None\<rparr>, dummynode],
     t_lastfree = 2\<rparr>"

lemma demo_sizes [simp]: "sizenode demo_table = 2" "sizearray demo_table = 2" "t_lsizenode demo_table = 1"
  by (simp_all add: demo_table_def sizenode_def twoto_def sizearray_def)

lemma demo_nodes [simp]:
  "gnode demo_table 0 = \<lparr>i_val = LBoolean False, i_key = LString (str ''a''), i_next = None\<rparr>"
  "gnode demo_table (Suc 0) = dummynode" "gnode demo_table 1 = dummynode"
  by (simp_all add: demo_table_def gnode_def nodes_def)

lemma demo_hash [simp]: "hashstr demo_table (str ''a'') = 0"
  by (simp add: hashstr_def hashpow2_def lmod_def luaS_hash_def str_def hash_loop.simps)

lemma demo_wf: "wf_table demo_table"
  unfolding wf_table_def chain_inv_def
  by (simp add: less_2_cases_iff dummynode_def in_array_def)
    (simp add: wf_shape_def sizearray_def demo_table_def MAXBITS_def sizenode_def twoto_def)

text \<open>
  C7. The lookup of \<^verbatim>\<open>luaH_get\<close> (array slot, \<^verbatim>\<open>luaH_getstr\<close>, \<^verbatim>\<open>luaH_getnum\<close> or a walk along the
  collision chain of the main position) finds exactly the slot that a linear search of the whole
  table for an equal key finds, and never runs out of its fuel.
\<close>

theorem luaH_get_is_search:
  assumes "wf_table t" "valid_key k"
  shows "luaH_get t k = Inr (find_key t k)"
  by (rule luaH_get_find [OF assms])

theorem luaH_get_is_search_witness:
  "luaH_get demo_table (LString (str ''a'')) = Inr (Some (SNode 0))"
proof -
  have "luaH_get demo_table (LString (str ''a'')) = Inr (find_key demo_table (LString (str ''a'')))"
    by (rule luaH_get_is_search [OF demo_wf]) simp
  moreover have "find_key demo_table (LString (str ''a'')) = Some (SNode 0)"
    by (simp add: find_key_def in_array_def upt_conv_Cons)
  ultimately show ?thesis by simp
qed

text \<open>
  C6. Assignment \<^verbatim>\<open>t[k] = v\<close> through the slot returned by \<^verbatim>\<open>luaH_set\<close> is total on well-formed tables:
  it returns (the nesting \<^verbatim>\<open>rehash\<close> -- \<^verbatim>\<open>luaH_set\<close> ends at depth one), and then the key has the value,
  every other key keeps its value, and the invariant holds; or it raises
  "table overflow", and then the table has at least 2^26 entries.
\<close>

theorem luaH_set_total:
  assumes "wf_table t" "valid_key k"
  shows "(\<exists>t' s. luaH_set t k = Inr (t', s) \<and> wf_table (slot_set t' s v) \<and>
       (\<forall>k'. valid_key k' \<longrightarrow> tget (slot_set t' s v) k' = (if luaO_rawequalObj k' k then v else tget t k')))
     \<or> luaH_set t k = Inl (RunError (str ''table overflow'')) \<and> 2 ^ 26 \<le> length (entries t)"
  using luaH_set_spec [OF assms, where v = v] unfolding assigned_def live_count_entries [OF assms(1)] by blast

theorem luaH_set_total_witness:
  "(\<exists>t' s. luaH_set demo_table (LNumber 0) = Inr (t', s) \<and> wf_table (slot_set t' s (LBoolean True)) \<and>
       (\<forall>k'. valid_key k' \<longrightarrow> tget (slot_set t' s (LBoolean True)) k' =
          (if luaO_rawequalObj k' (LNumber 0) then LBoolean True else tget demo_table k')))
     \<or> luaH_set demo_table (LNumber 0) = Inl (RunError (str ''table overflow'')) \<and> 2 ^ 26 \<le> length (entries demo_table)"
  by (rule luaH_set_total [OF demo_wf]) (simp add: dbl_0)

text \<open>
  C22. Traversal with \<^verbatim>\<open>luaH_next\<close>: from each entry it goes to the next one in the order array part,
  then nodes, and answers "no more" exactly after the last one.
\<close>

theorem luaH_next_walks:
  assumes "wf_table t" "i < length (entries t)"
  shows "luaH_next t (fst (entries t ! i)) =
    Inr (if Suc i < length (entries t) then Some (entries t ! Suc i) else None)"
  by (rule luaH_next_entry [OF assms])

lemma demo_entries:
  "entries demo_table = [(LNumber (cast_num 1), LBoolean True), (LString (str ''a''), LBoolean False)]"
  by (simp add: entries_def live_pos_def upt_conv_Cons pos_kv_def)
    (simp add: demo_table_def gnode_def nodes_def dummynode_def sizearray_def upt_conv_Cons)

theorem luaH_next_walks_witness:
  "luaH_next demo_table (LNumber (cast_num 1)) = Inr (Some (LString (str ''a''), LBoolean False))"
  using luaH_next_walks [OF demo_wf, of 0] by (simp add: demo_entries)

text \<open>A traversal as \<^verbatim>\<open>lua_next\<close> makes it: from nil, every call of \<open>luaH_next\<close> goes on from the key of the last one.\<close>

primrec traversal :: "nat \<Rightarrow> Table \<Rightarrow> TValue \<Rightarrow> rt_error + (TValue \<times> TValue) list" where
  "traversal 0 t key = Inl OutOfFuel"
| "traversal (Suc n) t key = sum_bind (luaH_next t key) (\<lambda>r. case r of None \<Rightarrow> Inr []
     | Some kv \<Rightarrow> sum_bind (traversal n t (fst kv)) (\<lambda>kvs. Inr (kv # kvs)))"

lemma traversal_entry:
  assumes "wf_table t"
  shows "i < length (entries t) \<Longrightarrow> length (entries t) - i \<le> n \<Longrightarrow> traversal n t (fst (entries t ! i)) = Inr (drop (Suc i) (entries t))"
proof (induction n arbitrary: i)
  case (Suc n)
  note n = luaH_next_entry [OF assms Suc.prems(1)]
  show ?case
  proof (cases "Suc i < length (entries t)")
    case True
    then have "traversal n t (fst (entries t ! Suc i)) = Inr (drop (Suc (Suc i)) (entries t))" using Suc by simp
    with n True show ?thesis by (simp add: Cons_nth_drop_Suc)
  qed (use n in simp)
qed simp

lemma traversal_all:
  assumes "wf_table t"
  shows "traversal (Suc (sizearray t + sizenode t)) t LNil = Inr (entries t)"
proof (cases "entries t")
  case Nil
  then show ?thesis using luaH_next_first [of t] by simp
next
  case (Cons kv kvs)
  have "traversal (sizearray t + sizenode t) t (fst (entries t ! 0)) = Inr (drop (Suc 0) (entries t))"
    by (rule traversal_entry [OF assms]) (use Cons entries_slots [of t] in simp_all)
  then show ?thesis using luaH_next_first [of t] Cons by simp
qed

text \<open>
  C23. A traversal with \<^verbatim>\<open>luaH_next\<close> from nil ends, after at most as many calls as the table has slots and one more, and yields
  exactly the keys that \<^verbatim>\<open>luaH_get\<close> finds with a value that is not nil, each with that value, and no key twice in any guise (equal
  keys may differ as bit patterns, as 0 and -0 do).
\<close>

theorem traversal_is_lookups:
  assumes "wf_table t"
  shows "\<exists>kvs. traversal (Suc (sizearray t + sizenode t)) t LNil = Inr kvs \<and>
    (\<forall>k v. valid_key k \<longrightarrow> ((\<exists>kv \<in> set kvs. luaO_rawequalObj (fst kv) k \<and> snd kv = v) \<longleftrightarrow>
       v \<noteq> LNil \<and> (\<exists>p. luaH_get t k = Inr p \<and> slot_value t p = v))) \<and>
    (\<forall>i < length kvs. \<forall>j < length kvs. luaO_rawequalObj (fst (kvs ! i)) (fst (kvs ! j)) \<longrightarrow> i = j)"
proof (intro exI conjI allI impI)
  show "traversal (Suc (sizearray t + sizenode t)) t LNil = Inr (entries t)" by (rule traversal_all [OF assms])
  fix k v assume k: "valid_key k"
  show "(\<exists>kv \<in> set (entries t). luaO_rawequalObj (fst kv) k \<and> snd kv = v) \<longleftrightarrow>
      v \<noteq> LNil \<and> (\<exists>p. luaH_get t k = Inr p \<and> slot_value t p = v)"
    unfolding entries_iff [OF assms k] tget_def luaH_get_find [OF assms k] by auto
qed (use entries_distinct [OF assms] in blast)

theorem traversal_is_lookups_witness:
  "\<exists>kvs. traversal 5 demo_table LNil = Inr kvs \<and> (\<exists>kv \<in> set kvs. fst kv = LString (str ''a''))"
proof -
  obtain kvs where kvs: "traversal (Suc (sizearray demo_table + sizenode demo_table)) demo_table LNil = Inr kvs"
    "\<forall>k v. valid_key k \<longrightarrow> ((\<exists>kv \<in> set kvs. luaO_rawequalObj (fst kv) k \<and> snd kv = v) \<longleftrightarrow>
       v \<noteq> LNil \<and> (\<exists>p. luaH_get demo_table k = Inr p \<and> slot_value demo_table p = v))"
    using traversal_is_lookups [OF demo_wf] by blast
  have "tget demo_table (LString (str ''a'')) = LBoolean False"
    using entries_iff [OF demo_wf, of "LString (str ''a'')" "LBoolean False"] by (simp add: demo_entries)
  then have "\<exists>p. luaH_get demo_table (LString (str ''a'')) = Inr p \<and> slot_value demo_table p = LBoolean False"
    by (simp add: tget_def split: sum.splits)
  moreover have "valid_key (LString (str ''a''))" by simp
  moreover note kvs(2) [rule_format, of "LString (str ''a'')" "LBoolean False"]
  ultimately have "\<exists>kv \<in> set kvs. luaO_rawequalObj (fst kv) (LString (str ''a'')) \<and> snd kv = LBoolean False" by blast
  then obtain kv where "kv \<in> set kvs" "luaO_rawequalObj (fst kv) (LString (str ''a''))" by blast
  moreover from this(2) have "fst kv = LString (str ''a'')" by (cases "fst kv") simp_all
  moreover have "Suc (sizearray demo_table + sizenode demo_table) = 5" by simp
  ultimately show ?thesis using kvs(1) by auto
qed

text \<open>
  C24. \<^verbatim>\<open>luaH_getn\<close>, the length of a table, always returns, and returns a border: an index whose
  value is not nil (or 0) with a nil after it. Binary search in the array part, the doubling
  \<^verbatim>\<open>unbound_search\<close> and its linear fallback are all covered.
\<close>

theorem luaH_getn_border:
  assumes "wf_table t"
  shows "\<exists>n. luaH_getn t = Inr n \<and> (n = 0 \<or> tget t (LNumber (cast_num (int n))) \<noteq> LNil) \<and>
    tget t (LNumber (cast_num (int n + 1))) = LNil"
  using luaH_getn_spec [OF assms] by (auto simp: border_def add.commute)

theorem luaH_getn_border_witness:
  "\<exists>n. luaH_getn demo_table = Inr n \<and> (n = 0 \<or> tget demo_table (LNumber (cast_num (int n))) \<noteq> LNil) \<and>
    tget demo_table (LNumber (cast_num (int n + 1))) = LNil"
  by (rule luaH_getn_border [OF demo_wf])

text \<open>
  C25. \<^verbatim>\<open>computesizes\<close> picks the optimal size of the array part: 0 or a power of two such that more
  than half of the slots would be in use, with \<open>na\<close> the number of keys that go there, and every
  power of two that has this property is at most as large.
\<close>

theorem computesizes_is_optimal:
  assumes "\<forall>x \<in> set xs. 0 < x \<and> x \<le> 2 ^ 26" "distinct xs"
    and "computesizes (slice_sizes xs) (length xs) = (n, na)"
  shows "(n = 0 \<or> (\<exists>k \<le> 26. n = 2 ^ k)) \<and> na = length (filter (\<lambda>x. x \<le> n) xs) \<and>
    (n = 0 \<or> n div 2 < na) \<and>
    (\<forall>k. 2 ^ k div 2 < length (filter (\<lambda>x. x \<le> 2 ^ k) xs) \<longrightarrow> 2 ^ k \<le> n)"
proof -
  have b: "0 < x \<and> x \<le> 2 ^ 26" if "x \<in> set xs" for x using assms(1) that by blast
  show ?thesis
    using computesizes_spec [OF b assms(3)] computesizes_optimal [OF b assms(2,3)]
    unfolding upto_count_def by blast
qed

theorem computesizes_is_optimal_witness: "\<exists>n na. computesizes (slice_sizes [1, 2, 3, 9]) (length [1, 2, 3, 9 :: nat]) = (n, na) \<and> 4 \<le> n"
proof -
  obtain n na where c: "computesizes (slice_sizes [1, 2, 3, 9]) (length [1, 2, 3, 9 :: nat]) = (n, na)"
    by fastforce
  have "\<forall>x \<in> set [1, 2, 3, 9]. 0 < x \<and> x \<le> (2::nat) ^ 26" "distinct [1, 2, 3, 9 :: nat]" by simp_all
  note o = computesizes_is_optimal [OF this c, THEN conjunct2, THEN conjunct2, THEN conjunct2, THEN spec, of 2]
  have "2 ^ 2 \<le> n" by (rule o [THEN mp]) simp
  then show ?thesis by (intro exI conjI) (rule c, simp)
qed

end
