(* ===== verification/Lua_Format.thy ===== *)
theory Lua_Format
  imports Lua_Object
begin

text \<open>
  Formatting: the conversion of a number to a string (\<^verbatim>\<open>lua_number2str\<close>, that is C's
  \<^verbatim>\<open>"%.14g"\<close>, computed exactly with half-even rounding as the C library does) and the
  formatter of error messages \<^verbatim>\<open>luaO_pushvfstring\<close>.
\<close>

subsection \<open>Decimal digits\<close>

fun dec :: "nat \<Rightarrow> bytes" where
  "dec n = (if n < 10 then [of_nat (48 + n)] else dec (n div 10) @ [of_nat (48 + n mod 10)])"

declare dec.simps [simp del]

definition round_div :: "nat \<Rightarrow> nat \<Rightarrow> nat" where
  "round_div a b = (let q = a div b; r = a mod b in
     if 2 * r > b \<or> (2 * r = b \<and> odd q) then Suc q else q)"

text \<open>The least \<open>k\<close> such that \<open>u * 10 ^ k\<close> reaches \<open>m\<close>.\<close>

primrec scale_up :: "nat \<Rightarrow> nat \<Rightarrow> nat \<Rightarrow> nat \<Rightarrow> nat" where
  "scale_up u m k 0 = k"
| "scale_up u m k (Suc f) = (if m \<le> u * 10 ^ k then k else scale_up u m (Suc k) f)"

text \<open>A finite double is a multiple of \<open>1 / dbl_unit\<close>; its decimal exponent and its 14 digits.\<close>

definition dbl_unit :: nat where "dbl_unit = 2 ^ 1074"

definition dec_exponent :: "nat \<Rightarrow> int" where
  "dec_exponent u =
     (if dbl_unit \<le> u then int (length (dec (u div dbl_unit))) - 1 else - int (scale_up u dbl_unit 0 400))"

definition dec_digits :: "nat \<Rightarrow> nat \<times> int" where
  "dec_digits u =
     (let x = dec_exponent u;
          d = (if 13 \<le> x then round_div u (dbl_unit * 10 ^ nat (x - 13))
               else round_div (u * 10 ^ nat (13 - x)) dbl_unit)
      in if d = 10 ^ 14 then (10 ^ 13, x + 1) else (d, x))"

definition strip_zeros :: "bytes \<Rightarrow> bytes" where
  "strip_zeros s = rev (dropWhile (\<lambda>c. c = 48) (rev s))"

definition fraction :: "bytes \<Rightarrow> bytes" where
  "fraction s = (let f = strip_zeros s in if f = [] then [] else 46 # f)"

definition fmt_exponent :: "int \<Rightarrow> bytes" where
  "fmt_exponent x = 101 # (if x < 0 then 45 else 43) # (if \<bar>x\<bar> < 10 then 48 # dec (nat \<bar>x\<bar>) else dec (nat \<bar>x\<bar>))"

definition fmt_g14 :: "nat \<Rightarrow> bytes" where
  "fmt_g14 u =
     (if u = 0 then [48]
      else let (d, x) = dec_digits u; s = dec d in
        if x < - 4 \<or> 14 \<le> x then take 1 s @ fraction (drop 1 s) @ fmt_exponent x
        else if 0 \<le> x then take (nat x + 1) s @ fraction (drop (nat x + 1) s)
        else 48 # fraction (replicate (nat (- x) - 1) 48 @ s))"

definition lua_number2str :: "lua_Number \<Rightarrow> bytes" where
  "lua_number2str w =
     (if dbl_neg w then [45] else []) @
     (if dbl_isnan w then str ''nan''
      else if \<not> dbl_isfinite w then str ''inf''
      else fmt_g14 (nat \<bar>dbl_units w\<bar>))"

subsection \<open>Messages\<close>

datatype fmt_arg = FStr "bytes option" | FInt int | FNum lua_Number | FPtr nat

fun hex :: "nat \<Rightarrow> bytes" where
  "hex n = (let c = (\<lambda>d. if d < 10 then of_nat (48 + d) else of_nat (87 + d)) in
     if n < 16 then [c n] else hex (n div 16) @ [c (n mod 16)])"

declare hex.simps [simp del]

definition fmt_p :: "nat \<Rightarrow> bytes" where
  "fmt_p a = (if a = 0 then str ''(nil)'' else str ''0x'' @ hex a)"

definition c_str :: "bytes \<Rightarrow> bytes" where
  "c_str s = takeWhile (\<lambda>b. b \<noteq> 0) s"

text \<open>\<open>None\<close> is a call whose arguments do not match the format.\<close>

fun luaO_pushvfstring :: "bytes \<Rightarrow> fmt_arg list \<Rightarrow> bytes option" where
  "luaO_pushvfstring [] args = Some []"
| "luaO_pushvfstring [c] args = (if c = 37 then None else Some [c])"
| "luaO_pushvfstring (c # d # fmt) args =
     (if c \<noteq> 37 then map_option (\<lambda>r. c # r) (luaO_pushvfstring (d # fmt) args)
      else if d = 115 then
        (case args of FStr s # args' \<Rightarrow>
           map_option (\<lambda>r. (case s of Some s \<Rightarrow> c_str s | None \<Rightarrow> str ''(null)'') @ r) (luaO_pushvfstring fmt args')
         | _ \<Rightarrow> None)
      else if d = 99 then
        (case args of FInt i # args' \<Rightarrow> map_option (\<lambda>r. c_str [word_of_int i] @ r) (luaO_pushvfstring fmt args')
         | _ \<Rightarrow> None)
      else if d = 100 then
        (case args of FInt i # args' \<Rightarrow> map_option (\<lambda>r. lua_number2str (cast_num i) @ r) (luaO_pushvfstring fmt args')
         | _ \<Rightarrow> None)
      else if d = 102 then
        (case args of FNum x # args' \<Rightarrow> map_option (\<lambda>r. lua_number2str x @ r) (luaO_pushvfstring fmt args')
         | _ \<Rightarrow> None)
      else if d = 112 then
        (case args of FPtr p # args' \<Rightarrow> map_option (\<lambda>r. fmt_p p @ r) (luaO_pushvfstring fmt args')
         | _ \<Rightarrow> None)
      else if d = 37 then map_option (\<lambda>r. 37 # r) (luaO_pushvfstring fmt args)
      else map_option (\<lambda>r. 37 # d # r) (luaO_pushvfstring fmt args))"

end
