(* ===== verification/Lua_State.thy ===== *)
theory Lua_State
  imports Lua_Table_Ops Lua_Format
begin

text \<open>
  The state of a Lua thread as C functions see it, and the result type of the functions that
  run on it. An error of Lua is the exception \<open>LuaError\<close> with the error object; the state at the
  point of the error is kept, as \<^verbatim>\<open>lua_pcall\<close> goes on from it. \<open>Undef\<close> stands for a use of the
  API outside its contract, \<open>NoFuel\<close> for an exhausted bound on nested calls, and \<open>Overrun\<close> for a push beyond
  the slots that the frame of the running C function may use.
\<close>

datatype exn = LuaError TValue | MemError | ErrErr | Undef | NoFuel | Overrun

text \<open>
  The C functions of the program that Lua can call; \<open>COther\<close> stands for every other function,
  of C or of Lua, whose behaviour is a parameter.
\<close>

datatype cfun = CSort | CSortCmp | CGmatchAux | COther nat

record Closure =
  c_f :: cfun
  c_env :: addr
  c_upvalue :: "TValue list"

text \<open>What \<^verbatim>\<open>lua_getinfo\<close> tells of the caller: used only in messages.\<close>

record call_info =
  ci_name :: "bytes option"
  ci_method :: bool
  ci_where :: bytes

record lua_State =
  l_stack :: "TValue list"        \<comment> \<open>from \<open>L->base\<close> to \<open>L->top\<close>\<close>
  l_ci_top :: nat                 \<comment> \<open>\<open>L->ci->top - L->base\<close>, the slots the frame may use\<close>
  l_func :: "addr option"         \<comment> \<open>the running closure, none at the base level\<close>
  l_caller :: call_info
  l_nCcalls :: nat
  l_heap :: "addr \<Rightarrow> Table option"
  l_closures :: "addr \<Rightarrow> Closure option"
  l_brk :: addr                   \<comment> \<open>next address of the allocator\<close>
  l_gt :: addr
  l_registry :: addr
  l_mt :: "nat \<Rightarrow> addr option"    \<comment> \<open>metatables of the basic types\<close>
  l_umt :: "addr \<Rightarrow> addr option"  \<comment> \<open>metatables of userdata\<close>
  l_ulen :: "addr \<Rightarrow> nat"
  l_str2d :: "bytes \<Rightarrow> lua_Number option"

type_synonym 'a lua = "lua_State \<Rightarrow> (exn + 'a) \<times> lua_State"

definition lret :: "'a \<Rightarrow> 'a lua" where
  "lret a = (\<lambda>s. (Inr a, s))"

definition lthrow :: "exn \<Rightarrow> 'a lua" where
  "lthrow e = (\<lambda>s. (Inl e, s))"

definition lbind :: "'a lua \<Rightarrow> ('a \<Rightarrow> 'b lua) \<Rightarrow> 'b lua" where
  "lbind m f = (\<lambda>s. case m s of (Inl e, s') \<Rightarrow> (Inl e, s') | (Inr a, s') \<Rightarrow> f a s')"

text \<open>A sequence of statements.\<close>

fun lseq :: "unit lua list \<Rightarrow> unit lua" where
  "lseq [] = lret ()"
| "lseq (m # ms) = lbind m (\<lambda>_. lseq ms)"

definition lget :: "(lua_State \<Rightarrow> 'a) \<Rightarrow> 'a lua" where
  "lget f = (\<lambda>s. (Inr (f s), s))"

definition lmodify :: "(lua_State \<Rightarrow> lua_State) \<Rightarrow> unit lua" where
  "lmodify f = (\<lambda>s. (Inr (), f s))"

definition lundef :: "'a lua" where
  "lundef = lthrow Undef"

text \<open>Errors of the table functions.\<close>

definition lift_rt :: "rt_error + 'a \<Rightarrow> 'a lua" where
  "lift_rt r = (case r of Inr a \<Rightarrow> lret a | Inl (RunError m) \<Rightarrow> lthrow (LuaError (LString m))
     | Inl OutOfFuel \<Rightarrow> lthrow NoFuel | Inl Crash \<Rightarrow> lundef)"

lemma lua_run [simp]:
  "lret a s = (Inr a, s)" "lthrow e s = (Inl e, s)" "lget f s = (Inr (f s), s)"
  "lmodify g s = (Inr (), g s)" "lundef s = (Inl Undef, s)"
  by (simp_all add: lret_def lthrow_def lget_def lmodify_def lundef_def)

lemma lbind_run: "lbind m f s = (case m s of (Inl e, s') \<Rightarrow> (Inl e, s') | (Inr a, s') \<Rightarrow> f a s')"
  by (simp add: lbind_def)

lemma lbind_Inr [simp]: "m s = (Inr a, s') \<Longrightarrow> lbind m f s = f a s'"
  by (simp add: lbind_def)

lemma lbind_Inl [simp]: "m s = (Inl e, s') \<Longrightarrow> lbind m f s = (Inl e, s')"
  by (simp add: lbind_def)

lemma lift_rt_run [simp]: "lift_rt (Inr a) s = (Inr a, s)" "lift_rt (Inl (RunError m)) s = (Inl (LuaError (LString m)), s)"
  by (simp_all add: lift_rt_def)

subsection \<open>Indices\<close>

datatype adr = ANone | ASlot nat | ARegistry | AEnviron | AGlobals | AUpvalue addr nat | AInvalid

definition LUA_REGISTRYINDEX :: int where "LUA_REGISTRYINDEX = - 10000"
definition LUA_ENVIRONINDEX :: int where "LUA_ENVIRONINDEX = - 10001"
definition LUA_GLOBALSINDEX :: int where "LUA_GLOBALSINDEX = - 10002"

definition curr_func :: "lua_State \<Rightarrow> (addr \<times> Closure) option" where
  "curr_func s = (case l_func s of None \<Rightarrow> None
     | Some a \<Rightarrow> (case l_closures s a of None \<Rightarrow> None | Some c \<Rightarrow> Some (a, c)))"

definition index2adr :: "lua_State \<Rightarrow> int \<Rightarrow> adr" where
  "index2adr s idx =
     (let n = int (length (l_stack s)) in
      if idx > 0 then (if idx > n then ANone else ASlot (nat (idx - 1)))
      else if idx > LUA_REGISTRYINDEX then (if idx = 0 \<or> - idx > n then AInvalid else ASlot (nat (n + idx)))
      else if idx = LUA_REGISTRYINDEX then ARegistry
      else if idx = LUA_ENVIRONINDEX then AEnviron
      else if idx = LUA_GLOBALSINDEX then AGlobals
      else case curr_func s of None \<Rightarrow> AInvalid
           | Some (a, c) \<Rightarrow>
               let i = LUA_GLOBALSINDEX - idx in
               if i \<le> int (length (c_upvalue c)) then AUpvalue a (nat (i - 1)) else ANone)"

fun adr_value :: "lua_State \<Rightarrow> adr \<Rightarrow> TValue option" where
  "adr_value s ANone = Some LNil"
| "adr_value s (ASlot p) = Some (l_stack s ! p)"
| "adr_value s ARegistry = Some (LTable (l_registry s))"
| "adr_value s AEnviron = map_option (\<lambda>(a, c). LTable (c_env c)) (curr_func s)"
| "adr_value s AGlobals = Some (LTable (l_gt s))"
| "adr_value s (AUpvalue a i) = map_option (\<lambda>c. c_upvalue c ! i) (l_closures s a)"
| "adr_value s AInvalid = None"

definition lua_value :: "int \<Rightarrow> TValue lua" where
  "lua_value idx = (\<lambda>s. case adr_value s (index2adr s idx) of None \<Rightarrow> lundef s | Some v \<Rightarrow> lret v s)"

definition getcurrenv :: "lua_State \<Rightarrow> addr" where
  "getcurrenv s = (case curr_func s of None \<Rightarrow> l_gt s | Some (a, c) \<Rightarrow> c_env c)"

text \<open>The table at an index, for the functions whose contract requires one.\<close>

definition table_at :: "TValue \<Rightarrow> (addr \<times> Table) lua" where
  "table_at v = (\<lambda>s. case v of
      LTable a \<Rightarrow> (case l_heap s a of Some t \<Rightarrow> lret (a, t) s | None \<Rightarrow> lundef s)
    | _ \<Rightarrow> lundef s)"

definition set_table :: "addr \<Rightarrow> Table \<Rightarrow> unit lua" where
  "set_table a t = lmodify (\<lambda>s. s\<lparr>l_heap := (l_heap s)(a \<mapsto> t)\<rparr>)"

definition push :: "TValue \<Rightarrow> unit lua" where
  "push v = lmodify (\<lambda>s. s\<lparr>l_stack := l_stack s @ [v]\<rparr>)"

text \<open>
  The check of \<^verbatim>\<open>api_incr_top\<close> (\<^verbatim>\<open>lapi.c\<close>), that the value an API function has pushed lies within the frame. Without
  \<^verbatim>\<open>LUA_USE_APICHECK\<close> the C code goes on and writes behind the slots it was given; here it stops with \<open>Overrun\<close>.
\<close>

definition api_incr_top :: "'a lua \<Rightarrow> 'a lua" where
  "api_incr_top m = (\<lambda>s. case m s of (Inl e, s') \<Rightarrow> (Inl e, s')
     | (Inr a, s') \<Rightarrow> if length (l_stack s') \<le> l_ci_top s' then (Inr a, s') else (Inl Overrun, s'))"

text \<open>Drops \<open>n\<close> values from the top; the caller has checked that they are there.\<close>

definition drop_top :: "nat \<Rightarrow> unit lua" where
  "drop_top n = (\<lambda>s. if n \<le> length (l_stack s)
     then (Inr (), s\<lparr>l_stack := take (length (l_stack s) - n) (l_stack s)\<rparr>) else lundef s)"

subsection \<open>Raising errors\<close>

definition luaG_runerror :: "bytes \<Rightarrow> fmt_arg list \<Rightarrow> 'a lua" where
  "luaG_runerror fmt args = (case luaO_pushvfstring fmt args of
      Some m \<Rightarrow> lthrow (LuaError (LString m)) | None \<Rightarrow> lundef)"

definition luaT_typenames :: "bytes list" where
  "luaT_typenames = [str ''nil'', str ''boolean'', str ''userdata'', str ''number'', str ''string'',
     str ''table'', str ''function'', str ''userdata'', str ''thread'', str ''proto'', str ''upval'']"

definition type_name :: "TValue \<Rightarrow> bytes" where
  "type_name v = luaT_typenames ! ttype v"

definition luaG_typeerror :: "TValue \<Rightarrow> bytes \<Rightarrow> 'a lua" where
  "luaG_typeerror v op = luaG_runerror (str ''attempt to %s a %s value'') [FStr (Some op), FStr (Some (type_name v))]"

definition luaG_ordererror :: "TValue \<Rightarrow> TValue \<Rightarrow> 'a lua" where
  "luaG_ordererror p1 p2 =
     (let t1 = type_name p1; t2 = type_name p2 in
      if t1 ! 2 = t2 ! 2
      then luaG_runerror (str ''attempt to compare two %s values'') [FStr (Some t1)]
      else luaG_runerror (str ''attempt to compare %s with %s'') [FStr (Some t1), FStr (Some t2)])"

definition luaL_error :: "bytes \<Rightarrow> fmt_arg list \<Rightarrow> 'a lua" where
  "luaL_error fmt args = (\<lambda>s. case luaO_pushvfstring fmt args of
      Some m \<Rightarrow> lthrow (LuaError (LString (ci_where (l_caller s) @ m))) s | None \<Rightarrow> lundef s)"

definition luaL_argerror :: "int \<Rightarrow> bytes \<Rightarrow> 'a lua" where
  "luaL_argerror narg extramsg = (\<lambda>s.
     if l_func s = None then luaL_error (str ''bad argument #%d (%s)'') [FInt narg, FStr (Some extramsg)] s
     else let ci = l_caller s; narg' = (if ci_method ci then narg - 1 else narg) in
     if ci_method ci \<and> narg' = 0
     then luaL_error (str ''calling '' @ quoted ''%s'' @ str '' on bad self (%s)'')
            [FStr (ci_name ci), FStr (Some extramsg)] s
     else luaL_error (str ''bad argument #%d to '' @ quoted ''%s'' @ str '' (%s)'')
            [FInt narg', FStr (Some (case ci_name ci of Some n \<Rightarrow> n | None \<Rightarrow> str ''?'')), FStr (Some extramsg)] s)"

end
