(* ===== verification/Lua_Call.thy ===== *)
theory Lua_Call
  imports Lua_State
begin

text \<open>
  Tag methods (\<^verbatim>\<open>ltm.c\<close>), calls (\<^verbatim>\<open>ldo.c\<close>) and the parts of the virtual machine that the API
  functions use (\<^verbatim>\<open>lvm.c\<close>). The behaviour of a C function is a parameter \<open>prog\<close> of every
  function that may call one. A call keeps the frame of the caller aside and runs the callee on
  a frame that holds its arguments.
\<close>

type_synonym C_function = "lua_State \<Rightarrow> (exn + nat) \<times> lua_State"

type_synonym program = "cfun \<Rightarrow> C_function"

subsection \<open>Tag methods\<close>

datatype TMS =
  TM_INDEX | TM_NEWINDEX | TM_GC | TM_MODE | TM_EQ | TM_ADD | TM_SUB | TM_MUL | TM_DIV
| TM_MOD | TM_POW | TM_UNM | TM_LEN | TM_LT | TM_LE | TM_CONCAT | TM_CALL

fun tm_number :: "TMS \<Rightarrow> nat" where
  "tm_number TM_INDEX = 0" | "tm_number TM_NEWINDEX = 1" | "tm_number TM_GC = 2" | "tm_number TM_MODE = 3"
| "tm_number TM_EQ = 4" | "tm_number TM_ADD = 5" | "tm_number TM_SUB = 6" | "tm_number TM_MUL = 7"
| "tm_number TM_DIV = 8" | "tm_number TM_MOD = 9" | "tm_number TM_POW = 10" | "tm_number TM_UNM = 11"
| "tm_number TM_LEN = 12" | "tm_number TM_LT = 13" | "tm_number TM_LE = 14" | "tm_number TM_CONCAT = 15"
| "tm_number TM_CALL = 16"

fun tm_name :: "TMS \<Rightarrow> bytes" where
  "tm_name TM_INDEX = str ''__index''" | "tm_name TM_NEWINDEX = str ''__newindex''" | "tm_name TM_GC = str ''__gc''"
| "tm_name TM_MODE = str ''__mode''" | "tm_name TM_EQ = str ''__eq''" | "tm_name TM_ADD = str ''__add''"
| "tm_name TM_SUB = str ''__sub''" | "tm_name TM_MUL = str ''__mul''" | "tm_name TM_DIV = str ''__div''"
| "tm_name TM_MOD = str ''__mod''" | "tm_name TM_POW = str ''__pow''" | "tm_name TM_UNM = str ''__unm''"
| "tm_name TM_LEN = str ''__len''" | "tm_name TM_LT = str ''__lt''" | "tm_name TM_LE = str ''__le''"
| "tm_name TM_CONCAT = str ''__concat''" | "tm_name TM_CALL = str ''__call''"

definition luaT_gettm :: "addr \<Rightarrow> TMS \<Rightarrow> TValue option lua" where
  "luaT_gettm a e =
     lbind (table_at (LTable a)) (\<lambda>(_, events).
     lbind (lift_rt (luaH_getstr events (tm_name e))) (\<lambda>p.
       let tm = slot_value events p in
       if ttisnil tm
       then lbind (set_table a (events\<lparr>t_flags := or (t_flags events) (push_bit (tm_number e) 1)\<rparr>)) (\<lambda>_. lret None)
       else lret (Some tm)))"

definition fasttm :: "addr option \<Rightarrow> TMS \<Rightarrow> TValue option lua" where
  "fasttm et e = (case et of None \<Rightarrow> lret None
     | Some a \<Rightarrow> lbind (table_at (LTable a)) (\<lambda>(_, events).
         if bit (t_flags events) (tm_number e) then lret None else luaT_gettm a e))"

definition luaT_gettmbyobj :: "TValue \<Rightarrow> TMS \<Rightarrow> TValue lua" where
  "luaT_gettmbyobj v e =
     lbind (case v of
         LTable a \<Rightarrow> lbind (table_at v) (\<lambda>(_, t). lret (t_metatable t))
       | LUserdata a \<Rightarrow> lget (\<lambda>s. l_umt s a)
       | _ \<Rightarrow> lget (\<lambda>s. l_mt s (ttype v))) (\<lambda>mt.
     case mt of None \<Rightarrow> lret LNil
     | Some m \<Rightarrow> lbind (table_at (LTable m)) (\<lambda>(_, t).
         lbind (lift_rt (luaH_getstr t (tm_name e))) (\<lambda>p. lret (slot_value t p))))"

subsection \<open>Calls\<close>

definition LUAI_MAXCCALLS :: nat where "LUAI_MAXCCALLS = 200"

text \<open>The caller of a function that C code calls has no name and no current line.\<close>

definition called_by_C :: call_info where
  "called_by_C = \<lparr>ci_name = None, ci_method = False, ci_where = []\<rparr>"

definition luaD_poscall :: "int \<Rightarrow> TValue list \<Rightarrow> TValue list" where
  "luaD_poscall wanted results =
     (if wanted < 0 then results
      else take (nat wanted) results @ replicate (nat wanted - length results) LNil)"

definition tryfuncTM :: "nat \<Rightarrow> addr lua" where
  "tryfuncTM p =
     lbind (lget (\<lambda>s. l_stack s ! p)) (\<lambda>v.
     lbind (luaT_gettmbyobj v TM_CALL) (\<lambda>tm.
       case tm of
         LFunction a \<Rightarrow> lbind (lmodify (\<lambda>s. s\<lparr>l_stack := take p (l_stack s) @ tm # drop p (l_stack s)\<rparr>)) (\<lambda>_. lret a)
       | _ \<Rightarrow> luaG_typeerror v (str ''call'')))"

text \<open>
  Runs closure \<open>a\<close>, which is at position \<open>p\<close> of the frame, on the values above it. The callee gets \<open>LUA_MINSTACK\<close> slots
  besides its arguments.
\<close>

definition run_closure :: "program \<Rightarrow> nat \<Rightarrow> int \<Rightarrow> addr \<Rightarrow> unit lua" where
  "run_closure prog p nresults a = (\<lambda>s.
     case l_closures s a of None \<Rightarrow> lundef s
     | Some c \<Rightarrow>
         (case prog (c_f c) (s\<lparr>l_stack := drop (Suc p) (l_stack s), l_ci_top := length (l_stack s) - Suc p + LUA_MINSTACK, l_func := Some a, l_caller := called_by_C\<rparr>) of
            (Inl e, s') \<Rightarrow> (Inl e, s')
          | (Inr n, s') \<Rightarrow>
              if n > length (l_stack s') then lundef s'
              else (Inr (), s'\<lparr>l_stack := take p (l_stack s) @
                       luaD_poscall nresults (drop (length (l_stack s') - n) (l_stack s')),
                     l_ci_top := l_ci_top s, l_func := l_func s, l_caller := l_caller s\<rparr>)))"

definition luaD_precall :: "program \<Rightarrow> nat \<Rightarrow> int \<Rightarrow> unit lua" where
  "luaD_precall prog p nresults =
     lbind (lget (\<lambda>s. l_stack s ! p)) (\<lambda>v.
     lbind (case v of LFunction a \<Rightarrow> lret a | _ \<Rightarrow> tryfuncTM p) (run_closure prog p nresults))"

definition luaD_call :: "program \<Rightarrow> nat \<Rightarrow> int \<Rightarrow> unit lua" where
  "luaD_call prog p nresults =
     lbind (lmodify (\<lambda>s. s\<lparr>l_nCcalls := l_nCcalls s + 1\<rparr>)) (\<lambda>_.
     lbind (lget l_nCcalls) (\<lambda>n.
       if n = LUAI_MAXCCALLS then luaG_runerror (str ''C stack overflow'') []
       else if n \<ge> LUAI_MAXCCALLS + LUAI_MAXCCALLS div 8 then lthrow ErrErr
       else lbind (luaD_precall prog p nresults) (\<lambda>_. lmodify (\<lambda>s. s\<lparr>l_nCcalls := l_nCcalls s - 1\<rparr>))))"

text \<open>The status and the error object that a protected call leaves.\<close>

fun luaD_seterrorobj :: "exn \<Rightarrow> (nat \<times> TValue) option" where
  "luaD_seterrorobj (LuaError v) = Some (2, v)"
| "luaD_seterrorobj MemError = Some (4, LString (str ''not enough memory''))"
| "luaD_seterrorobj ErrErr = Some (5, LString (str ''error in error handling''))"
| "luaD_seterrorobj _ = None"

definition luaD_pcall :: "unit lua \<Rightarrow> nat \<Rightarrow> nat lua" where
  "luaD_pcall m old_top = (\<lambda>s.
     case m s of
       (Inr _, s') \<Rightarrow> (Inr 0, s')
     | (Inl e, s') \<Rightarrow>
         (case luaD_seterrorobj e of
            None \<Rightarrow> (Inl e, s')
          | Some (status, v) \<Rightarrow>
              (Inr status, s'\<lparr>l_stack := take old_top (l_stack s) @ [v], l_ci_top := l_ci_top s, l_func := l_func s,
                 l_caller := l_caller s, l_nCcalls := l_nCcalls s\<rparr>)))"

subsection \<open>The virtual machine\<close>

definition callTMres :: "program \<Rightarrow> TValue \<Rightarrow> TValue \<Rightarrow> TValue \<Rightarrow> TValue lua" where
  "callTMres prog f p1 p2 =
     lbind (lget (\<lambda>s. length (l_stack s))) (\<lambda>n.
     lbind (lseq [push f, push p1, push p2, luaD_call prog n 1]) (\<lambda>_.
     lbind (lget (\<lambda>s. last (l_stack s))) (\<lambda>r.
     lbind (drop_top 1) (\<lambda>_. lret r))))"

definition MAXTAGLOOP :: nat where "MAXTAGLOOP = 100"

fun is_function :: "TValue \<Rightarrow> bool" where
  "is_function (LFunction a) = True" | "is_function _ = False"

primrec gettable_loop :: "program \<Rightarrow> nat \<Rightarrow> TValue \<Rightarrow> TValue \<Rightarrow> TValue lua" where
  "gettable_loop prog 0 t key = luaG_runerror (str ''loop in gettable'') []"
| "gettable_loop prog (Suc n) t key =
     (let go = (\<lambda>tm. if is_function tm then callTMres prog tm t key else gettable_loop prog n tm key) in
      case t of
        LTable a \<Rightarrow>
          lbind (table_at t) (\<lambda>(_, h).
          lbind (lift_rt (luaH_get h key)) (\<lambda>p.
            let res = slot_value h p in
            if \<not> ttisnil res then lret res
            else lbind (fasttm (t_metatable h) TM_INDEX) (\<lambda>tm.
              case tm of None \<Rightarrow> lret res | Some tm \<Rightarrow> go tm)))
      | _ \<Rightarrow> lbind (luaT_gettmbyobj t TM_INDEX) (\<lambda>tm.
          if ttisnil tm then luaG_typeerror t (str ''index'') else go tm))"

definition luaV_gettable :: "program \<Rightarrow> TValue \<Rightarrow> TValue \<Rightarrow> TValue lua" where
  "luaV_gettable prog t key = gettable_loop prog MAXTAGLOOP t key"

definition luaV_tonumber :: "TValue \<Rightarrow> lua_Number option lua" where
  "luaV_tonumber v = (case v of LNumber n \<Rightarrow> lret (Some n)
     | LString b \<Rightarrow> lget (\<lambda>s. l_str2d s (c_str b)) | _ \<Rightarrow> lret None)"

fun luaV_tostring :: "TValue \<Rightarrow> TValue option" where
  "luaV_tostring (LNumber n) = Some (LString (lua_number2str n))"
| "luaV_tostring _ = None"

text \<open>
  The loop of \<open>l_strcmp\<close> over the pieces between null bytes, for any \<^verbatim>\<open>strcoll\<close>, which follows the locale of the process. When it
  finds two pieces of different lengths equal, \<open>drop\<close> stops at the end of \<open>r\<close>, where C reads on.
\<close>

function l_strcmp_coll :: "(bytes \<Rightarrow> bytes \<Rightarrow> int) \<Rightarrow> bytes \<Rightarrow> bytes \<Rightarrow> int" where
  "l_strcmp_coll coll l r =
     (let temp = coll (c_str l) (c_str r); len = length (c_str l) in
      if temp \<noteq> 0 then temp
      else if len = length r then (if len = length l then 0 else 1)
      else if len = length l then - 1
      else l_strcmp_coll coll (drop (Suc len) l) (drop (Suc len) r))"
  by pat_completeness auto
termination
proof (relation "measure (\<lambda>(coll, l, r). length l)")
  fix l r :: bytes and temp :: int and len :: nat and coll
  assume "len = length (c_str l)" "len \<noteq> length l"
  then have "len < length l" using length_takeWhile_le [of "\<lambda>b. b \<noteq> 0" l] by (simp add: c_str_def)
  then show "((coll, drop (Suc len) l, drop (Suc len) r), coll, l, r) \<in> measure (\<lambda>(coll, l, r). length l)" by simp
qed simp

declare l_strcmp_coll.simps [simp del]

text \<open>
  \<^verbatim>\<open>strcoll\<close> in the C locale, in which every C program starts, on strings that end at a null byte. The virtual machine is
  modelled in this locale; \<^verbatim>\<open>os.setlocale\<close> of the library that is not modelled can choose another.
\<close>

fun strcoll :: "bytes \<Rightarrow> bytes \<Rightarrow> int" where
  "strcoll [] [] = 0"
| "strcoll [] (y # ys) = - 1"
| "strcoll (x # xs) [] = 1"
| "strcoll (x # xs) (y # ys) = (if x = y then strcoll xs ys else if x < y then - 1 else 1)"

definition l_strcmp :: "bytes \<Rightarrow> bytes \<Rightarrow> int" where
  "l_strcmp = l_strcmp_coll strcoll"

text \<open>\<open>None\<close> is the result -1, no tag method.\<close>

definition call_orderTM :: "program \<Rightarrow> TValue \<Rightarrow> TValue \<Rightarrow> TMS \<Rightarrow> bool option lua" where
  "call_orderTM prog p1 p2 e =
     lbind (luaT_gettmbyobj p1 e) (\<lambda>tm1.
       if ttisnil tm1 then lret None
       else lbind (luaT_gettmbyobj p2 e) (\<lambda>tm2.
         if \<not> luaO_rawequalObj tm1 tm2 then lret None
         else lbind (callTMres prog tm1 p1 p2) (\<lambda>r. lret (Some (\<not> l_isfalse r)))))"

definition luaV_lessthan :: "program \<Rightarrow> TValue \<Rightarrow> TValue \<Rightarrow> bool lua" where
  "luaV_lessthan prog l r =
     (if ttype l \<noteq> ttype r then luaG_ordererror l r
      else case (l, r) of
        (LNumber a, LNumber b) \<Rightarrow> lret (luai_numlt a b)
      | (LString a, LString b) \<Rightarrow> lret (l_strcmp a b < 0)
      | _ \<Rightarrow> lbind (call_orderTM prog l r TM_LT) (\<lambda>res.
          case res of Some b \<Rightarrow> lret b | None \<Rightarrow> luaG_ordererror l r))"

subsection \<open>String comparison in any locale\<close>

text \<open>The first piece of a string is \<open>c_str\<close>; what follows the null byte, if there is one.\<close>

definition c_tail :: "bytes \<Rightarrow> bytes option" where
  "c_tail l = (if length (c_str l) = length l then None else Some (drop (Suc (length (c_str l))) l))"

lemma c_str_no_null: "0 \<notin> set (c_str l)"
  using set_takeWhileD [of 0 "\<lambda>b. b \<noteq> 0" l] by (auto simp: c_str_def)

lemma c_tail_cases:
  obtains "c_tail l = None" "l = c_str l" | u where "c_tail l = Some u" "l = c_str l @ 0 # u"
proof (cases "length (c_str l) = length l")
  case True
  then have "c_str l = l" unfolding c_str_def by (metis takeWhile_eq_take take_all le_refl)
  with True that(1) show ?thesis by (simp add: c_tail_def)
next
  case False
  let ?n = "length (c_str l)"
  have n: "?n < length l" using False length_takeWhile_le [of "\<lambda>b. b \<noteq> 0" l] by (simp add: c_str_def)
  have "l ! ?n = 0" using nth_length_takeWhile [of "\<lambda>b. b \<noteq> 0" l] n by (simp add: c_str_def)
  moreover have "take ?n l = c_str l" by (simp add: c_str_def takeWhile_eq_take [symmetric])
  ultimately have "l = c_str l @ 0 # drop (Suc ?n) l" using id_take_nth_drop [OF n] by simp
  with False that(2) show ?thesis by (simp add: c_tail_def)
qed

lemma c_tail_less: "c_tail l = Some u \<Longrightarrow> length u < length l"
proof (cases l rule: c_tail_cases)
  case (2 v)
  assume "c_tail l = Some u"
  moreover from arg_cong [OF 2(2), of length] have "length l = length (c_str l) + Suc (length v)" by (simp only: length_append list.size(4) add_Suc_right add_0_right)
  ultimately show ?thesis using 2(1) by simp
qed simp

lemma c_tail_inject: "l = r \<longleftrightarrow> c_str l = c_str r \<and> c_tail l = c_tail r"
  by (cases l rule: c_tail_cases; cases r rule: c_tail_cases) auto

text \<open>What a locale promises of \<^verbatim>\<open>strcoll\<close>: a total order of the strings without null bytes.\<close>

locale collation =
  fixes coll :: "bytes \<Rightarrow> bytes \<Rightarrow> int"
  assumes coll_zero: "0 \<notin> set a \<Longrightarrow> 0 \<notin> set b \<Longrightarrow> coll a b = 0 \<longleftrightarrow> a = b"
    and coll_sym: "0 \<notin> set a \<Longrightarrow> 0 \<notin> set b \<Longrightarrow> coll a b < 0 \<longleftrightarrow> coll b a > 0"
    and coll_trans: "0 \<notin> set a \<Longrightarrow> 0 \<notin> set b \<Longrightarrow> 0 \<notin> set c \<Longrightarrow> coll a b < 0 \<Longrightarrow> coll b c < 0 \<Longrightarrow> coll a c < 0"
begin

lemmas piece_zero = coll_zero [OF c_str_no_null c_str_no_null]
lemmas piece_sym = coll_sym [OF c_str_no_null c_str_no_null]
lemmas piece_trans = coll_trans [OF c_str_no_null c_str_no_null c_str_no_null]

lemma cmp_cut: "l_strcmp_coll coll l r = (if coll (c_str l) (c_str r) \<noteq> 0 then coll (c_str l) (c_str r)
    else case (c_tail l, c_tail r) of (None, None) \<Rightarrow> 0 | (Some u, None) \<Rightarrow> 1 | (None, Some v) \<Rightarrow> - 1
      | (Some u, Some v) \<Rightarrow> l_strcmp_coll coll u v)"
proof (cases "coll (c_str l) (c_str r) = 0")
  case True
  then have "c_str l = c_str r" by (simp add: piece_zero)
  with True show ?thesis by (subst l_strcmp_coll.simps) (simp add: c_tail_def Let_def)
qed (simp add: l_strcmp_coll.simps [of coll l])

lemma cmp_zero: "l_strcmp_coll coll l r = 0 \<longleftrightarrow> l = r"
proof (induction l arbitrary: r rule: measure_induct_rule [of length])
  case (less l)
  show ?case
    using less.IH [OF c_tail_less] unfolding cmp_cut [of l r] c_tail_inject [of l r]
    by (auto simp: piece_zero split: option.splits)
qed

lemma cmp_sym: "l_strcmp_coll coll l r < 0 \<longleftrightarrow> l_strcmp_coll coll r l > 0"
proof (induction l arbitrary: r rule: measure_induct_rule [of length])
  case (less l)
  show ?case
    using less.IH [OF c_tail_less] piece_sym [of l r] piece_zero [of l r] piece_zero [of r l]
    unfolding cmp_cut [of l r] cmp_cut [of r l] by (auto split: option.splits)
qed

lemma cmp_trans: "l_strcmp_coll coll l r < 0 \<Longrightarrow> l_strcmp_coll coll r t < 0 \<Longrightarrow> l_strcmp_coll coll l t < 0"
proof (induction l arbitrary: r t rule: measure_induct_rule [of length])
  case (less l)
  have IH: "l_strcmp_coll coll u v < 0 \<Longrightarrow> l_strcmp_coll coll v w < 0 \<Longrightarrow> l_strcmp_coll coll u w < 0" if "c_tail l = Some u" for u v w
    using less.IH [OF c_tail_less [OF that]] .
  have le: "coll (c_str l) (c_str r) \<le> 0" "coll (c_str r) (c_str t) \<le> 0"
    using less.prems unfolding cmp_cut [of l r] cmp_cut [of r t] by (simp_all split: if_splits)
  show ?case
  proof (cases "coll (c_str l) (c_str r) = 0 \<and> coll (c_str r) (c_str t) = 0")
    case True
    then have "coll (c_str l) (c_str t) = 0" by (simp add: piece_zero)
    with True less.prems IH show ?thesis
      unfolding cmp_cut [of l r] cmp_cut [of r t] cmp_cut [of l t] by (auto split: option.splits)
  next
    case False
    have "coll (c_str l) (c_str t) < 0"
    proof (cases "coll (c_str l) (c_str r) = 0")
      case True
      then have e: "c_str l = c_str r" by (simp add: piece_zero)
      from True False le(2) have "coll (c_str r) (c_str t) < 0" by linarith
      then show ?thesis unfolding e .
    next
      case nz: False
      show ?thesis
      proof (cases "coll (c_str r) (c_str t) = 0")
        case True
        then have e: "c_str r = c_str t" by (simp add: piece_zero)
        from nz le(1) have "coll (c_str l) (c_str r) < 0" by linarith
        then show ?thesis unfolding e .
      qed (use nz le in \<open>intro piece_trans [of l r t]; simp\<close>)
    qed
    then show ?thesis by (simp add: cmp_cut [of l t])
  qed
qed

end

subsection \<open>In the C locale it is the lexicographic order of the bytes\<close>

lemma lexordp_prefix: "ord_class.lexordp (c @ u) (c @ v) \<longleftrightarrow> ord_class.lexordp u v" for c :: bytes
  by (induction c) simp_all

text \<open>What follows a C string: nothing, or a null byte.\<close>

definition c_rest :: "bytes \<Rightarrow> bool" where
  "c_rest u \<longleftrightarrow> u = [] \<or> (\<exists>v. u = 0 # v)"

lemma strcoll_rest:
  assumes "0 \<notin> set c" "0 \<notin> set d" "c_rest u" "c_rest v"
  shows "(strcoll c d < 0 \<longrightarrow> ord_class.lexordp (c @ u) (d @ v)) \<and>
    (strcoll c d > 0 \<longrightarrow> ord_class.lexordp (d @ v) (c @ u)) \<and> (strcoll c d = 0 \<longrightarrow> c = d)"
  using assms
proof (induction c d rule: strcoll.induct)
  case (2 y ys)
  then show ?case by (auto simp: c_rest_def word_gt_0)
next
  case (3 x xs)
  then show ?case by (auto simp: c_rest_def word_gt_0)
next
  case (4 x xs y ys)
  then show ?case by auto
qed simp

lemma strcoll_zero: "strcoll a b = 0 \<longleftrightarrow> a = b"
  by (induction a b rule: strcoll.induct) auto

lemma strcoll_sym: "strcoll a b < 0 \<longleftrightarrow> strcoll b a > 0"
  by (induction a b rule: strcoll.induct) auto

lemma strcoll_trans: "strcoll a b < 0 \<Longrightarrow> strcoll b c < 0 \<Longrightarrow> strcoll a c < 0"
proof (induction a b arbitrary: c rule: strcoll.induct)
  case (2 y ys)
  then show ?case by (cases c) simp_all
next
  case (4 x xs y ys)
  then show ?case by (cases c) (auto split: if_splits)
qed simp_all

interpretation c_locale: collation strcoll
  by unfold_locales (use strcoll_zero strcoll_sym in blast, use strcoll_sym in blast, use strcoll_trans in blast)

lemma c_tail_rest: "l = c_str l @ (case c_tail l of None \<Rightarrow> [] | Some u \<Rightarrow> 0 # u)"
  by (cases l rule: c_tail_cases) simp_all

lemma l_strcmp_lex: "(l_strcmp l r < 0 \<longleftrightarrow> ord_class.lexordp l r) \<and> (l_strcmp l r = 0 \<longleftrightarrow> l = r)"
proof
  show "l_strcmp l r = 0 \<longleftrightarrow> l = r" unfolding l_strcmp_def by (rule c_locale.cmp_zero)
  show "l_strcmp l r < 0 \<longleftrightarrow> ord_class.lexordp l r"
  proof (induction l arbitrary: r rule: measure_induct_rule [of length])
    case (less l)
    let ?u = "case c_tail l of None \<Rightarrow> [] | Some u \<Rightarrow> 0 # u" and ?v = "case c_tail r of None \<Rightarrow> [] | Some u \<Rightarrow> 0 # u"
    note lr = c_tail_rest [of l] c_tail_rest [of r]
    have cr: "c_rest ?u" "c_rest ?v" by (auto simp: c_rest_def split: option.splits)
    note sc = strcoll_rest [OF c_str_no_null [of l] c_str_no_null [of r] cr, folded lr]
    show ?case
    proof (cases "strcoll (c_str l) (c_str r) = 0")
      case False
      then have e: "l_strcmp l r = strcoll (c_str l) (c_str r)" by (simp add: l_strcmp_def c_locale.cmp_cut)
      from False consider "strcoll (c_str l) (c_str r) < 0" | "strcoll (c_str l) (c_str r) > 0" by linarith
      then show ?thesis using e sc lexordp_antisym [of l r] by cases auto
    next
      case True
      then have c: "c_str l = c_str r" by (simp add: strcoll_zero)
      have "ord_class.lexordp l r \<longleftrightarrow> ord_class.lexordp ?u ?v"
        using lexordp_prefix [of "c_str r" ?u ?v] lr c by metis
      moreover have "l_strcmp l r = (case (c_tail l, c_tail r) of (None, None) \<Rightarrow> 0 | (Some u, None) \<Rightarrow> 1 | (None, Some v) \<Rightarrow> - 1
          | (Some u, Some v) \<Rightarrow> l_strcmp u v)"
        using True unfolding l_strcmp_def by (simp add: c_locale.cmp_cut [of l r])
      moreover have "l_strcmp u v < 0 \<longleftrightarrow> ord_class.lexordp u v" if "c_tail l = Some u" for u v
        by (rule less.IH [OF c_tail_less [OF that]])
      ultimately show ?thesis by (auto split: option.splits)
    qed
  qed
qed

end
