(* ===== verification/Lua_Api.thy ===== *)
theory Lua_Api
  imports Lua_Call
begin

text \<open>
  The functions of \<^verbatim>\<open>lapi.c\<close> and \<^verbatim>\<open>lauxlib.c\<close> that C code calls on a Lua state. Indices are the
  API's own: positive from the base of the frame, negative from its top, and the pseudo-indices.
\<close>

subsection \<open>Stack manipulation\<close>

definition lua_gettop :: "int lua" where
  "lua_gettop = lget (\<lambda>s. int (length (l_stack s)))"

definition lua_settop :: "int \<Rightarrow> unit lua" where
  "lua_settop idx = (\<lambda>s. let n = length (l_stack s) in
     if 0 \<le> idx
     then (Inr (), s\<lparr>l_stack := take (nat idx) (l_stack s) @ replicate (nat idx - n) LNil\<rparr>)
     else if - (idx + 1) \<le> int n then (Inr (), s\<lparr>l_stack := take (nat (int n + idx + 1)) (l_stack s)\<rparr>)
     else lundef s)"

definition lua_pop :: "int \<Rightarrow> unit lua" where
  "lua_pop n = lua_settop (- n - 1)"

definition lua_remove :: "int \<Rightarrow> unit lua" where
  "lua_remove idx = (\<lambda>s. case index2adr s idx of
       ASlot p \<Rightarrow> (Inr (), s\<lparr>l_stack := take p (l_stack s) @ drop (Suc p) (l_stack s)\<rparr>)
     | _ \<Rightarrow> lundef s)"

definition lua_insert :: "int \<Rightarrow> unit lua" where
  "lua_insert idx = (\<lambda>s. case index2adr s idx of
       ASlot p \<Rightarrow> (Inr (), s\<lparr>l_stack := take p (l_stack s) @ last (l_stack s) # butlast (drop p (l_stack s))\<rparr>)
     | _ \<Rightarrow> lundef s)"

definition lua_pushvalue :: "int \<Rightarrow> unit lua" where
  "lua_pushvalue idx = lbind (lua_value idx) push"

subsection \<open>Access\<close>

definition LUA_TNONE :: int where "LUA_TNONE = - 1"

definition lua_type :: "int \<Rightarrow> int lua" where
  "lua_type idx = (\<lambda>s. if index2adr s idx = ANone then (Inr LUA_TNONE, s)
     else lbind (lua_value idx) (\<lambda>v. lret (int (ttype v))) s)"

definition lua_isnil :: "int \<Rightarrow> bool lua" where
  "lua_isnil idx = lbind (lua_type idx) (\<lambda>t. lret (t = 0))"

definition lua_isnoneornil :: "int \<Rightarrow> bool lua" where
  "lua_isnoneornil idx = lbind (lua_type idx) (\<lambda>t. lret (t \<le> 0))"

definition lua_typename :: "int \<Rightarrow> bytes" where
  "lua_typename t = (if t = LUA_TNONE then str ''no value'' else luaT_typenames ! nat t)"

definition lua_isnumber :: "int \<Rightarrow> bool lua" where
  "lua_isnumber idx = lbind (lua_value idx) (\<lambda>v. lbind (luaV_tonumber v) (\<lambda>n. lret (n \<noteq> None)))"

definition lua_rawequal :: "int \<Rightarrow> int \<Rightarrow> bool lua" where
  "lua_rawequal i1 i2 = (\<lambda>s. if index2adr s i1 = ANone \<or> index2adr s i2 = ANone then (Inr False, s)
     else lbind (lua_value i1) (\<lambda>a. lbind (lua_value i2) (\<lambda>b. lret (luaO_rawequalObj a b))) s)"

definition lua_lessthan :: "program \<Rightarrow> int \<Rightarrow> int \<Rightarrow> bool lua" where
  "lua_lessthan prog i1 i2 = (\<lambda>s. if index2adr s i1 = ANone \<or> index2adr s i2 = ANone then (Inr False, s)
     else lbind (lua_value i1) (\<lambda>a. lbind (lua_value i2) (luaV_lessthan prog a)) s)"

definition lua_tonumber :: "int \<Rightarrow> lua_Number lua" where
  "lua_tonumber idx = lbind (lua_value idx) (\<lambda>v. lbind (luaV_tonumber v) (\<lambda>n.
     lret (case n of Some x \<Rightarrow> x | None \<Rightarrow> 0)))"

definition lua_tointeger :: "int \<Rightarrow> int lua" where
  "lua_tointeger idx = lbind (lua_value idx) (\<lambda>v. lbind (luaV_tonumber v) (\<lambda>n.
     lret (case n of Some x \<Rightarrow> lua_number2integer x | None \<Rightarrow> 0)))"

definition lua_toboolean :: "int \<Rightarrow> bool lua" where
  "lua_toboolean idx = lbind (lua_value idx) (\<lambda>v. lret (\<not> l_isfalse v))"

text \<open>Writes a converted value back into its stack slot.\<close>

definition set_slot :: "int \<Rightarrow> TValue \<Rightarrow> unit lua" where
  "set_slot idx v = (\<lambda>s. case index2adr s idx of
       ASlot p \<Rightarrow> (Inr (), s\<lparr>l_stack := (l_stack s)[p := v]\<rparr>) | _ \<Rightarrow> lundef s)"

definition lua_tolstring :: "int \<Rightarrow> bytes option lua" where
  "lua_tolstring idx = lbind (lua_value idx) (\<lambda>v.
     case v of LString b \<Rightarrow> lret (Some b)
     | _ \<Rightarrow> (case luaV_tostring v of
          Some (LString b) \<Rightarrow> lbind (set_slot idx (LString b)) (\<lambda>_. lret (Some b))
        | _ \<Rightarrow> lret None))"

definition lua_objlen :: "int \<Rightarrow> nat lua" where
  "lua_objlen idx = lbind (lua_value idx) (\<lambda>v.
     case v of
       LString b \<Rightarrow> lret (length b)
     | LUserdata a \<Rightarrow> lget (\<lambda>s. l_ulen s a)
     | LTable a \<Rightarrow> lbind (table_at v) (\<lambda>(_, t). lift_rt (luaH_getn t))
     | LNumber n \<Rightarrow> (case luaV_tostring v of
          Some (LString b) \<Rightarrow> lbind (set_slot idx (LString b)) (\<lambda>_. lret (length b))
        | _ \<Rightarrow> lret 0)
     | _ \<Rightarrow> lret 0)"

definition lua_topointer :: "int \<Rightarrow> addr lua" where
  "lua_topointer idx = lbind (lua_value idx) (\<lambda>v. lret (case v of
       LTable a \<Rightarrow> a | LFunction a \<Rightarrow> a | LThread a \<Rightarrow> a | LUserdata a \<Rightarrow> a + 40
     | LLightUserdata a \<Rightarrow> a | _ \<Rightarrow> 0))"

subsection \<open>Push\<close>

definition lua_pushnil :: "unit lua" where
  "lua_pushnil = push LNil"

definition lua_pushnumber :: "lua_Number \<Rightarrow> unit lua" where
  "lua_pushnumber n = push (LNumber n)"

definition lua_pushinteger :: "int \<Rightarrow> unit lua" where
  "lua_pushinteger n = push (LNumber (cast_num n))"

definition lua_pushlstring :: "bytes \<Rightarrow> unit lua" where
  "lua_pushlstring s = push (LString s)"

definition lua_pushstring :: "bytes \<Rightarrow> unit lua" where
  "lua_pushstring s = lua_pushlstring (c_str s)"

definition lua_pushfstring :: "bytes \<Rightarrow> fmt_arg list \<Rightarrow> unit lua" where
  "lua_pushfstring fmt args = (case luaO_pushvfstring fmt args of Some m \<Rightarrow> push (LString m) | None \<Rightarrow> lundef)"

definition lua_pushboolean :: "bool \<Rightarrow> unit lua" where
  "lua_pushboolean b = push (LBoolean b)"

text \<open>A new object gets the next address; 64 bytes keep the objects apart.\<close>

definition lua_alloc :: "addr lua" where
  "lua_alloc = lbind (lget l_brk) (\<lambda>a. lbind (lmodify (\<lambda>s. s\<lparr>l_brk := a + 64\<rparr>)) (\<lambda>_. lret a))"

definition lua_pushcclosure :: "cfun \<Rightarrow> nat \<Rightarrow> unit lua" where
  "lua_pushcclosure fn n =
     lbind (lget (\<lambda>s. drop (length (l_stack s) - n) (l_stack s))) (\<lambda>up.
     lbind (drop_top n) (\<lambda>_.
     lbind (lget getcurrenv) (\<lambda>env.
     lbind lua_alloc (\<lambda>a.
     lbind (lmodify (\<lambda>s. s\<lparr>l_closures := (l_closures s)(a \<mapsto> \<lparr>c_f = fn, c_env = env, c_upvalue = up\<rparr>)\<rparr>)) (\<lambda>_.
     push (LFunction a))))))"

definition lua_pushcfunction :: "cfun \<Rightarrow> unit lua" where
  "lua_pushcfunction fn = lua_pushcclosure fn 0"

subsection \<open>Get\<close>

definition lua_getfield :: "program \<Rightarrow> int \<Rightarrow> bytes \<Rightarrow> unit lua" where
  "lua_getfield prog idx k =
     lbind (lua_value idx) (\<lambda>t. lbind (luaV_gettable prog t (LString (c_str k))) push)"

definition lua_getglobal :: "program \<Rightarrow> bytes \<Rightarrow> unit lua" where
  "lua_getglobal prog k = lua_getfield prog LUA_GLOBALSINDEX k"

definition lua_rawget :: "int \<Rightarrow> unit lua" where
  "lua_rawget idx =
     lbind (lua_value idx) (\<lambda>v. lbind (table_at v) (\<lambda>(_, t).
     lbind (lua_value (- 1)) (\<lambda>k.
     lbind (lift_rt (luaH_get t k)) (\<lambda>p. lseq [drop_top 1, push (slot_value t p)]))))"

definition lua_rawgeti :: "int \<Rightarrow> int \<Rightarrow> unit lua" where
  "lua_rawgeti idx n =
     lbind (lua_value idx) (\<lambda>v. lbind (table_at v) (\<lambda>(_, t).
     lbind (lift_rt (luaH_getnum t n)) (\<lambda>p. push (slot_value t p))))"

text \<open>
  \<^verbatim>\<open>luaM_reallocv\<close> of \<open>n\<close> values: when \<open>n + 1\<close>, an \<open>int\<close> that wraps, is negative, it is too big as a \<open>size_t\<close>; the
  size of -1 values is one that no allocator grants. The allocator is taken to refuse more than \<open>MAXASIZE\<close> values (1 GiB).
\<close>

definition luaM_vector :: "int \<Rightarrow> unit lua" where
  "luaM_vector n =
     (if sint (word_of_int (n + 1) :: 32 word) < 0 then luaG_runerror (str ''memory allocation error: block too big'') []
      else if n < 0 \<or> n > int MAXASIZE then lthrow MemError else lret ())"

definition lua_createtable :: "int \<Rightarrow> int \<Rightarrow> unit lua" where
  "lua_createtable narray nrec =
     lbind (luaM_vector narray) (\<lambda>_.
     lbind (lift_rt (luaH_new (nat narray) (nat (nrec mod 2 ^ 32)))) (\<lambda>t.
     lbind lua_alloc (\<lambda>a. lseq [set_table a t, push (LTable a)])))"

definition lua_newtable :: "unit lua" where
  "lua_newtable = lua_createtable 0 0"

subsection \<open>Set\<close>

definition lua_rawset :: "int \<Rightarrow> unit lua" where
  "lua_rawset idx =
     lbind (lua_value idx) (\<lambda>v. lbind (table_at v) (\<lambda>(a, t).
     lbind (lua_value (- 2)) (\<lambda>k. lbind (lua_value (- 1)) (\<lambda>x.
     lbind (lift_rt (luaH_set t k)) (\<lambda>(t', p).
     lseq [set_table a (slot_set t' p x), drop_top 2])))))"

definition lua_rawseti :: "int \<Rightarrow> int \<Rightarrow> unit lua" where
  "lua_rawseti idx n =
     lbind (lua_value idx) (\<lambda>v. lbind (table_at v) (\<lambda>(a, t).
     lbind (lua_value (- 1)) (\<lambda>x.
     lbind (lift_rt (luaH_setnum t n)) (\<lambda>(t', p).
     lseq [set_table a (slot_set t' p x), drop_top 1]))))"

subsection \<open>Calls and traversal\<close>

definition lua_call :: "program \<Rightarrow> nat \<Rightarrow> int \<Rightarrow> unit lua" where
  "lua_call prog nargs nresults =
     lbind (lget (\<lambda>s. length (l_stack s))) (\<lambda>n.
       if Suc nargs \<le> n then luaD_call prog (n - Suc nargs) nresults else lundef)"

text \<open>\<^verbatim>\<open>lua_pcall\<close> without a message handler (\<open>errfunc\<close> is 0).\<close>

definition lua_pcall :: "program \<Rightarrow> nat \<Rightarrow> int \<Rightarrow> nat lua" where
  "lua_pcall prog nargs nresults =
     lbind (lget (\<lambda>s. length (l_stack s))) (\<lambda>n.
       if Suc nargs \<le> n
       then luaD_pcall (luaD_call prog (n - Suc nargs) nresults) (n - Suc nargs) else lundef)"

definition lua_next :: "int \<Rightarrow> bool lua" where
  "lua_next idx =
     lbind (lua_value idx) (\<lambda>v. lbind (table_at v) (\<lambda>(_, t).
     lbind (lua_value (- 1)) (\<lambda>k.
     lbind (lift_rt (luaH_next t k)) (\<lambda>r.
       case r of
         Some (k', x) \<Rightarrow> lbind (lseq [drop_top 1, push k', push x]) (\<lambda>_. lret True)
       | None \<Rightarrow> lbind (drop_top 1) (\<lambda>_. lret False)))))"

subsection \<open>The auxiliary library\<close>

definition luaL_typerror :: "int \<Rightarrow> bytes \<Rightarrow> 'a lua" where
  "luaL_typerror narg tname = lbind (lua_type narg) (\<lambda>t.
     case luaO_pushvfstring (str ''%s expected, got %s'') [FStr (Some tname), FStr (Some (lua_typename t))] of
       Some msg \<Rightarrow> luaL_argerror narg msg | None \<Rightarrow> lundef)"

definition tag_error :: "int \<Rightarrow> int \<Rightarrow> 'a lua" where
  "tag_error narg tag = luaL_typerror narg (lua_typename tag)"

definition luaL_checktype :: "int \<Rightarrow> int \<Rightarrow> unit lua" where
  "luaL_checktype narg t = lbind (lua_type narg) (\<lambda>t'. if t' \<noteq> t then tag_error narg t else lret ())"

definition luaL_checklstring :: "int \<Rightarrow> bytes lua" where
  "luaL_checklstring narg = lbind (lua_tolstring narg) (\<lambda>r.
     case r of Some b \<Rightarrow> lret b | None \<Rightarrow> tag_error narg 4)"

definition luaL_checkstring :: "int \<Rightarrow> bytes lua" where
  "luaL_checkstring narg = lbind (luaL_checklstring narg) (\<lambda>b. lret (c_str b))"

definition luaL_checkinteger :: "int \<Rightarrow> int lua" where
  "luaL_checkinteger narg = lbind (lua_tointeger narg) (\<lambda>d.
     if d = 0 then lbind (lua_isnumber narg) (\<lambda>b. if \<not> b then tag_error narg 3 else lret d) else lret d)"

definition luaL_checkint :: "int \<Rightarrow> int lua" where
  "luaL_checkint narg = lbind (luaL_checkinteger narg) (\<lambda>d. lret (sint (word_of_int d :: 32 word)))"

definition luaL_getn :: "int \<Rightarrow> int lua" where
  "luaL_getn t = lbind (lua_objlen t) (\<lambda>n. lret (sint (of_nat n :: 32 word)))"

definition LUAI_MAXCSTACK :: int where "LUAI_MAXCSTACK = 8000"

text \<open>The limit of the API is checked; that the frame has more slots afterwards is left out, which matters only to pushes made with
  \<open>api_incr_top\<close>: no function of the model that makes one calls it.\<close>

definition lua_checkstack :: "int \<Rightarrow> bool lua" where
  "lua_checkstack sz = lbind lua_gettop (\<lambda>n. lret (\<not> (sz > LUAI_MAXCSTACK \<or> n + sz > LUAI_MAXCSTACK)))"

definition luaL_checkstack :: "int \<Rightarrow> bytes \<Rightarrow> unit lua" where
  "luaL_checkstack space mes = lbind (lua_checkstack space) (\<lambda>b.
     if b then lret () else luaL_error (str ''stack overflow (%s)'') [FStr (Some mes)])"

end
