(* ===== verification/Binary_Stream.thy ===== *)
theory Binary_Stream
  imports Lua_Object
begin

text \<open>
  The byte streams of the binary format (\<^verbatim>\<open>lua_binary_types.h\<close>, \<^verbatim>\<open>lua_binary_reader.h\<close>,
  \<^verbatim>\<open>lua_binary_writer.h\<close> and the buffer of \<^verbatim>\<open>lua_binary_writer.cpp\<close>). The writer is a growing
  buffer: its bytes are \<open>None\<close> until they are written. The reader walks over its input and keeps
  advancing past the end, where it delivers zeros. Pointers are offsets from the start.
\<close>

subsection \<open>Type tags\<close>

type_synonym Type = nat

definition T_EOF :: Type where "T_EOF = 0"
definition T_NIL :: Type where "T_NIL = 1"
definition T_TRUE :: Type where "T_TRUE = 2"
definition T_FALSE :: Type where "T_FALSE = 3"
definition T_ZERO :: Type where "T_ZERO = 4"
definition T_ONE :: Type where "T_ONE = 5"
definition T_INT8 :: Type where "T_INT8 = 6"
definition T_INT16 :: Type where "T_INT16 = 7"
definition T_INT32 :: Type where "T_INT32 = 8"
definition T_INT64 :: Type where "T_INT64 = 9"
definition T_FLOAT :: Type where "T_FLOAT = 10"
definition T_DOUBLE :: Type where "T_DOUBLE = 11"
definition T_STRING0 :: Type where "T_STRING0 = 12"
definition T_ARRAY0 :: Type where "T_ARRAY0 = 16"
definition T_TABLE0 :: Type where "T_TABLE0 = 20"
definition T_MAX :: Type where "T_MAX = 24"

lemmas type_defs = T_EOF_def T_NIL_def T_TRUE_def T_FALSE_def T_ZERO_def T_ONE_def T_INT8_def T_INT16_def
  T_INT32_def T_INT64_def T_FLOAT_def T_DOUBLE_def T_STRING0_def T_ARRAY0_def T_TABLE0_def T_MAX_def

definition MAGIC_NUMBER :: int where "MAGIC_NUMBER = 0x7462"
definition LUABT_VERSION :: int where "LUABT_VERSION = 1"

subsection \<open>The writer\<close>

record BinaryWriter =
  w_data :: "byte option list"     \<comment> \<open>the allocated block, \<open>end_ - data_\<close> bytes\<close>
  w_p :: nat                       \<comment> \<open>\<open>p_ - data_\<close>\<close>
  w_overrun :: bool                \<comment> \<open>a byte was stored behind the block\<close>

definition new_writer :: BinaryWriter where
  "new_writer = \<lparr>w_data = [], w_p = 0, w_overrun = False\<rparr>"

definition w_capacity :: "BinaryWriter \<Rightarrow> nat" where
  "w_capacity w = length (w_data w)"

definition w_size :: "BinaryWriter \<Rightarrow> nat" where
  "w_size w = w_p w"

definition reserve :: "nat \<Rightarrow> BinaryWriter \<Rightarrow> BinaryWriter" where
  "reserve capacity w =
     (if capacity > w_capacity w
      then w\<lparr>w_data := w_data w @ replicate (capacity - w_capacity w) None\<rparr> else w)"

definition ensure :: "nat \<Rightarrow> BinaryWriter \<Rightarrow> BinaryWriter" where
  "ensure sz w =
     (if w_p w + sz > w_capacity w
      then reserve (max 8 (max (w_size w + sz) (w_capacity w * 2))) w else w)"

text \<open>
  \<open>memcpy(p_, data, length)\<close> and the advance of \<open>p_\<close>. It checks nothing in C; stores behind the end of the block are a
  memory fault, which the flag \<open>w_overrun\<close> records.
\<close>

definition put_bytes :: "bytes \<Rightarrow> BinaryWriter \<Rightarrow> BinaryWriter" where
  "put_bytes bs w =
     (if w_p w + length bs \<le> w_capacity w
      then w\<lparr>w_data := take (w_p w) (w_data w) @ map Some bs @ drop (w_p w + length bs) (w_data w),
             w_p := w_p w + length bs\<rparr>
      else w\<lparr>w_overrun := True, w_p := w_p w + length bs\<rparr>)"

definition writeBytes :: "bytes \<Rightarrow> BinaryWriter \<Rightarrow> BinaryWriter" where
  "writeBytes bs w = put_bytes bs (ensure (length bs) w)"

text \<open>A number of \<open>k\<close> bytes, in memory order.\<close>

definition writeNumber :: "nat \<Rightarrow> int \<Rightarrow> BinaryWriter \<Rightarrow> BinaryWriter" where
  "writeNumber k v w = put_bytes (le_bytes k v) (ensure k w)"

definition writeChar :: "byte \<Rightarrow> BinaryWriter \<Rightarrow> BinaryWriter" where
  "writeChar c w = put_bytes [c] (ensure 1 w)"

definition writeString :: "bytes \<Rightarrow> BinaryWriter \<Rightarrow> BinaryWriter" where
  "writeString s w = writeBytes (takeWhile (\<lambda>b. b \<noteq> 0) s) w"

definition writeType :: "Type \<Rightarrow> BinaryWriter \<Rightarrow> BinaryWriter" where
  "writeType t w = writeNumber 1 (int t) w"

definition writeIndent :: "int \<Rightarrow> BinaryWriter \<Rightarrow> BinaryWriter" where
  "writeIndent n w =
     (if n > 0 then (put_bytes [9] ^^ nat n) (ensure (nat n) w) else w)"

subsection \<open>The buffer holds what was written\<close>

definition w_inv :: "BinaryWriter \<Rightarrow> bool" where
  "w_inv w \<longleftrightarrow> \<not> w_overrun w \<and> w_p w \<le> w_capacity w \<and> None \<notin> set (take (w_p w) (w_data w))"

definition contents :: "BinaryWriter \<Rightarrow> bytes" where
  "contents w = map the (take (w_p w) (w_data w))"

text \<open>What a byte sink promises, and what writing a sequence of chunks to one does.\<close>

locale byte_sink =
  fixes inv :: "'w \<Rightarrow> bool" and out :: "'w \<Rightarrow> bytes" and wr :: "bytes \<Rightarrow> 'w \<Rightarrow> 'w"
  assumes wr_inv: "inv w \<Longrightarrow> inv (wr bs w)"
    and wr_out: "inv w \<Longrightarrow> out (wr bs w) = out w @ bs"
begin

lemma wr_chunks: "inv w \<Longrightarrow> inv (fold wr bss w) \<and> out (fold wr bss w) = out w @ concat bss"
  by (induction bss arbitrary: w) (simp_all add: wr_inv wr_out)

lemma wr_iter: "inv w \<Longrightarrow> inv ((wr bs ^^ n) w) \<and> out ((wr bs ^^ n) w) = out w @ concat (replicate n bs)"
proof (induction n arbitrary: w)
  case (Suc n)
  then show ?case by (simp add: funpow_swap1 wr_inv wr_out)
qed simp

end

lemma w_inv_new [simp]: "w_inv new_writer" "contents new_writer = []"
  by (simp_all add: w_inv_def contents_def new_writer_def w_capacity_def)

lemma reserve_spec:
  assumes "w_inv w"
  shows "w_inv (reserve c w)" "contents (reserve c w) = contents w" "w_p (reserve c w) = w_p w"
    "w_capacity (reserve c w) = max c (w_capacity w)"
  using assms by (auto simp: reserve_def w_inv_def contents_def w_capacity_def)

lemma ensure_spec:
  assumes "w_inv w"
  shows "w_inv (ensure n w)" "contents (ensure n w) = contents w" "w_p (ensure n w) = w_p w"
    "w_p w + n \<le> w_capacity (ensure n w)"
  using reserve_spec [OF assms] assms by (auto simp: ensure_def w_size_def)

lemma put_bytes_spec:
  assumes "w_inv w" "w_p w + length bs \<le> w_capacity w"
  shows "w_inv (put_bytes bs w)" "contents (put_bytes bs w) = contents w @ bs"
    "w_capacity (put_bytes bs w) = w_capacity w"
  using assms by (auto simp: put_bytes_def w_inv_def contents_def w_capacity_def comp_def)

lemma w_size_contents: "w_inv w \<Longrightarrow> w_size w = length (contents w)"
  by (simp add: w_size_def contents_def w_inv_def w_capacity_def)

interpretation writer: byte_sink w_inv contents writeBytes
  by unfold_locales (simp_all add: writeBytes_def put_bytes_spec ensure_spec)

lemma writeNumber_bytes: "writeNumber k v w = writeBytes (le_bytes k v) w"
  by (simp add: writeNumber_def writeBytes_def)

lemma writeChar_bytes: "writeChar c w = writeBytes [c] w"
  by (simp add: writeChar_def writeBytes_def)

lemma writeType_bytes: "writeType t w = writeBytes [of_nat t] w"
  by (simp add: writeType_def writeNumber_bytes)

lemma writeIndent_bytes:
  assumes "w_inv w"
  shows "w_inv (writeIndent n w)" "contents (writeIndent n w) = contents w @ replicate (nat n) 9"
proof -
  have "w_p v + m \<le> w_capacity v \<Longrightarrow> w_inv v \<Longrightarrow> w_inv ((put_bytes [9] ^^ m) v) \<and>
      contents ((put_bytes [9] ^^ m) v) = contents v @ replicate m 9" for m v
  proof (induction m arbitrary: v)
    case (Suc m)
    have f: "w_p v + length [9::byte] \<le> w_capacity v" using Suc.prems(1) by simp
    note p = put_bytes_spec [OF Suc.prems(2) f]
    have "w_p (put_bytes [9] v) = Suc (w_p v)" by (simp add: put_bytes_def)
    with Suc.IH [of "put_bytes [9] v"] p Suc.prems(1) show ?case by (simp add: funpow_swap1)
  qed simp
  from this [of "ensure (nat n) w" "nat n"] ensure_spec [OF assms, of "nat n"] assms
  show "w_inv (writeIndent n w)" "contents (writeIndent n w) = contents w @ replicate (nat n) 9"
    by (simp_all add: writeIndent_def)
qed

text \<open>The calls of the writer, and the bytes each is to append.\<close>

datatype write_call = WrBytes bytes | WrNumber nat int | WrChar byte | WrType Type | WrString bytes | WrIndent int | WrReserve nat

fun run_call :: "write_call \<Rightarrow> BinaryWriter \<Rightarrow> BinaryWriter" where
  "run_call (WrBytes bs) w = writeBytes bs w"
| "run_call (WrNumber k v) w = writeNumber k v w"
| "run_call (WrChar c) w = writeChar c w"
| "run_call (WrType t) w = writeType t w"
| "run_call (WrString s) w = writeString s w"
| "run_call (WrIndent n) w = writeIndent n w"
| "run_call (WrReserve n) w = reserve n w"

fun call_bytes :: "write_call \<Rightarrow> bytes" where
  "call_bytes (WrBytes bs) = bs"
| "call_bytes (WrNumber k v) = le_bytes k v"
| "call_bytes (WrChar c) = [c]"
| "call_bytes (WrType t) = [of_nat t]"
| "call_bytes (WrString s) = takeWhile (\<lambda>b. b \<noteq> 0) s"
| "call_bytes (WrIndent n) = replicate (nat n) 9"
| "call_bytes (WrReserve n) = []"

lemma run_call_spec:
  assumes "w_inv w"
  shows "w_inv (run_call c w)" "contents (run_call c w) = contents w @ call_bytes c"
  using assms by (cases c; simp add: writeNumber_bytes writeChar_bytes writeType_bytes writeString_def writer.wr_inv writer.wr_out
    writeIndent_bytes reserve_spec)+

lemma run_calls_spec:
  "w_inv w \<Longrightarrow> w_inv (fold run_call cs w) \<and> contents (fold run_call cs w) = contents w @ concat (map call_bytes cs)"
  by (induction cs arbitrary: w) (simp_all add: run_call_spec)

lemmas write_bytes = writeNumber_bytes writeChar_bytes writeType_bytes writeString_def

subsection \<open>The reader\<close>

record BinaryReader =
  r_data :: bytes
  r_p :: nat                       \<comment> \<open>may be past the end\<close>

definition new_reader :: "bytes \<Rightarrow> BinaryReader" where
  "new_reader d = \<lparr>r_data = d, r_p = 0\<rparr>"

text \<open>The unsigned value of \<open>k\<close> bytes, 0 if they are not all there.\<close>

definition readNumber :: "nat \<Rightarrow> BinaryReader \<Rightarrow> int \<times> BinaryReader" where
  "readNumber k r =
     ((if r_p r + k \<le> length (r_data r) then le_val (take k (drop (r_p r) (r_data r))) else 0),
      r\<lparr>r_p := r_p r + k\<rparr>)"

definition readBytes :: "nat \<Rightarrow> BinaryReader \<Rightarrow> bytes option \<times> BinaryReader" where
  "readBytes n r =
     (if r_p r + n \<le> length (r_data r)
      then (Some (take n (drop (r_p r) (r_data r))), r\<lparr>r_p := r_p r + n\<rparr>)
      else (None, r\<lparr>r_p := length (r_data r)\<rparr>))"

definition readType :: "BinaryReader \<Rightarrow> Type \<times> BinaryReader" where
  "readType r = (let (v, r') = readNumber 1 r in (nat v, r'))"

definition r_empty :: "BinaryReader \<Rightarrow> bool" where
  "r_empty r \<longleftrightarrow> r_p r \<ge> length (r_data r)"

text \<open>A signed number of \<open>k\<close> bytes.\<close>

definition to_signed :: "nat \<Rightarrow> int \<Rightarrow> int" where
  "to_signed k v = (if 2 * v < 256 ^ k then v else v - 256 ^ k)"

text \<open>The input that is left.\<close>

definition rest :: "BinaryReader \<Rightarrow> bytes" where
  "rest r = drop (r_p r) (r_data r)"

lemma rest_append:
  assumes "rest r = bs @ cs"
  shows "rest (r\<lparr>r_p := r_p r + length bs\<rparr>) = cs" "take (length bs) (drop (r_p r) (r_data r)) = bs"
    "bs \<noteq> [] \<Longrightarrow> r_p r + length bs \<le> length (r_data r)"
proof -
  show "take (length bs) (drop (r_p r) (r_data r)) = bs" using assms by (simp add: rest_def)
  have "drop (length bs) (drop (r_p r) (r_data r)) = cs" using assms by (simp add: rest_def)
  then show "rest (r\<lparr>r_p := r_p r + length bs\<rparr>) = cs" by (simp add: rest_def add.commute)
  assume "bs \<noteq> []"
  then have "0 < length bs" by simp
  moreover have "length (r_data r) - r_p r = length bs + length cs"
    using arg_cong [OF assms, of length] by (simp add: rest_def)
  ultimately show "r_p r + length bs \<le> length (r_data r)" by linarith
qed

lemma readNumber_rest:
  assumes "rest r = le_bytes k v @ cs" "0 < k" "0 \<le> v" "v < 256 ^ k"
  shows "fst (readNumber k r) = v \<and> rest (snd (readNumber k r)) = cs"
proof -
  have "le_bytes k v \<noteq> []" using assms(2) by (cases k) simp_all
  note a = rest_append [OF assms(1)] 
  have "le_val (take k (drop (r_p r) (r_data r))) = v"
    using a(2) assms(3,4) by (simp add: le_val_le_bytes)
  with a(1) a(3) [OF \<open>le_bytes k v \<noteq> []\<close>] show ?thesis by (simp add: readNumber_def)
qed

lemma readBytes_rest:
  assumes "rest r = bs @ cs" "bs \<noteq> []"
  shows "readBytes (length bs) r = (Some bs, r\<lparr>r_p := r_p r + length bs\<rparr>)"
    "rest (r\<lparr>r_p := r_p r + length bs\<rparr>) = cs"
  using rest_append [OF assms(1)] assms(2) by (simp_all add: readBytes_def)

end
