(* ===== verification/Binary_Reader.thy ===== *)
theory Binary_Reader
  imports Lua_Api Binary_Stream
begin

text \<open>
  The parser of the binary format (\<^verbatim>\<open>lua_binary_reader.cpp\<close>): the string pool is read into a Lua
  table, then one value is parsed onto the stack by the table of parsers. A parser reports
  failure as \<open>False\<close> and leaves on the stack whatever it had built; \<open>parseBinaryTable\<close> cleans up.
  The first argument of \<open>parserValue\<close> bounds the nesting; the length of the input is enough
  (theory \<open>Binary_Reader_Props\<close>). Every API function that pushes a value is called with the check of \<^verbatim>\<open>api_incr_top\<close>: the
  module never asks for more stack, so the \<^verbatim>\<open>LUA_MINSTACK\<close> slots of its frame are all it has.
\<close>

type_synonym parse_fun = "BinaryReader \<Rightarrow> (bool \<times> BinaryReader) lua"

text \<open>C's conversion of an unsigned value to \<open>int\<close>.\<close>

definition to_int32 :: "int \<Rightarrow> int" where
  "to_int32 n = sint (word_of_int n :: 32 word)"

text \<open>The exact widening of an IEEE single to a double.\<close>

definition float_to_double :: "32 word \<Rightarrow> lua_Number" where
  "float_to_double w =
     (let u = uint w; neg = 2 ^ 31 \<le> u; e = u div 2 ^ 23 mod 256; f = u mod 2 ^ 23 in
      if e = 255 then dbl_pack neg (2047 * 2 ^ 52 + (if f = 0 then 0 else (f * 2 ^ 29) mod 2 ^ 51 + 2 ^ 51))
      else if e = 0 then
        (if f = 0 then dbl_pack neg 0
         else let k = ilog2 (nat f) in
           dbl_pack neg ((int k + 874) * 2 ^ 52 + (f - 2 ^ k) * 2 ^ (52 - k)))
      else dbl_pack neg ((e + 896) * 2 ^ 52 + f * 2 ^ 29))"

subsection \<open>The string pool\<close>

record ReaderStrings =
  rs_handle :: int
  rs_size :: nat

definition rs_destroy :: "ReaderStrings \<Rightarrow> ReaderStrings lua" where
  "rs_destroy st =
     (if rs_handle st \<noteq> 0 then lbind (lua_remove (rs_handle st)) (\<lambda>_. lret (st\<lparr>rs_handle := 0\<rparr>)) else lret st)"

definition getString :: "ReaderStrings \<Rightarrow> nat \<Rightarrow> bool lua" where
  "getString st strIndex =
     (if strIndex \<le> rs_size st
      then lbind (api_incr_top (lua_rawgeti (rs_handle st) (to_int32 (int strIndex)))) (\<lambda>_. lret True)
      else lret False)"

fun parse_strings :: "nat \<Rightarrow> nat \<Rightarrow> parse_fun" where
  "parse_strings i 0 r = lret (True, r)"
| "parse_strings i (Suc n) r =
     (let (len, r1) = readNumber 2 r in
      if len = 0 then lret (False, r1)
      else case readBytes (nat len) r1 of
        (None, r2) \<Rightarrow> lret (False, r2)
      | (Some s, r2) \<Rightarrow>
          lbind (lseq [api_incr_top (lua_pushlstring s), lua_rawseti (- 2) (to_int32 (int i) + 1)]) (\<lambda>_.
          parse_strings (Suc i) n r2))"

definition rs_parse :: "BinaryReader \<Rightarrow> (bool \<times> ReaderStrings \<times> BinaryReader) lua" where
  "rs_parse r =
     (let (sz, r1) = readNumber 4 r in
      lbind (api_incr_top (lua_createtable (to_int32 sz) 0)) (\<lambda>_.
      lbind lua_gettop (\<lambda>handle.
      lbind (parse_strings 0 (nat sz) r1) (\<lambda>(ok, r2).
      lret (ok, \<lparr>rs_handle = handle, rs_size = nat sz\<rparr>, r2)))))"

subsection \<open>The parsers\<close>

definition parseEOF :: parse_fun where
  "parseEOF r = lret (False, r)"

definition parseNil :: parse_fun where
  "parseNil r = lbind (api_incr_top lua_pushnil) (\<lambda>_. lret (True, r))"

definition parseTrue :: parse_fun where
  "parseTrue r = lbind (api_incr_top (lua_pushboolean True)) (\<lambda>_. lret (True, r))"

definition parseFalse :: parse_fun where
  "parseFalse r = lbind (api_incr_top (lua_pushboolean False)) (\<lambda>_. lret (True, r))"

definition parseOne :: parse_fun where
  "parseOne r = lbind (api_incr_top (lua_pushnumber (cast_num 1))) (\<lambda>_. lret (True, r))"

definition parseZero :: parse_fun where
  "parseZero r = lbind (api_incr_top (lua_pushnumber (cast_num 0))) (\<lambda>_. lret (True, r))"

text \<open>A signed integer of \<open>k\<close> bytes.\<close>

definition parseInteger :: "nat \<Rightarrow> parse_fun" where
  "parseInteger k r = (let (v, r1) = readNumber k r in lbind (api_incr_top (lua_pushinteger (to_signed k v))) (\<lambda>_. lret (True, r1)))"

definition parseFloat :: parse_fun where
  "parseFloat r = (let (v, r1) = readNumber 4 r in
     lbind (api_incr_top (lua_pushnumber (float_to_double (word_of_int v)))) (\<lambda>_. lret (True, r1)))"

definition parseDouble :: parse_fun where
  "parseDouble r = (let (v, r1) = readNumber 8 r in lbind (api_incr_top (lua_pushnumber (word_of_int v))) (\<lambda>_. lret (True, r1)))"

definition parseString0 :: parse_fun where
  "parseString0 r = lbind (api_incr_top (lua_pushlstring [])) (\<lambda>_. lret (True, r))"

definition parseTable0 :: parse_fun where
  "parseTable0 r = lbind (api_incr_top lua_newtable) (\<lambda>_. lret (True, r))"

text \<open>An unsigned index or count of \<open>k\<close> bytes.\<close>

definition parseString :: "ReaderStrings \<Rightarrow> nat \<Rightarrow> parse_fun" where
  "parseString st k r = (let (index, r1) = readNumber k r in
     lbind (getString st (nat index)) (\<lambda>ok. lret (ok, r1)))"

fun parse_items :: "parse_fun \<Rightarrow> nat \<Rightarrow> nat \<Rightarrow> parse_fun" where
  "parse_items pv i 0 r = lret (True, r)"
| "parse_items pv i (Suc n) r =
     lbind (pv r) (\<lambda>(ok, r1).
       if \<not> ok then lret (False, r1)
       else lbind (lua_rawseti (- 2) (to_int32 (int i) + 1)) (\<lambda>_. parse_items pv (Suc i) n r1))"

definition parseArray :: "parse_fun \<Rightarrow> nat \<Rightarrow> parse_fun" where
  "parseArray pv k r = (let (sz, r1) = readNumber k r in
     lbind (api_incr_top (lua_createtable (to_int32 sz) 0)) (\<lambda>_. parse_items pv 0 (nat sz) r1))"

fun parse_pairs :: "parse_fun \<Rightarrow> nat \<Rightarrow> parse_fun" where
  "parse_pairs pv 0 r = lret (True, r)"
| "parse_pairs pv (Suc n) r =
     lbind (pv r) (\<lambda>(ok, r1).
       if \<not> ok then lret (False, r1)
       else lbind (pv r1) (\<lambda>(ok2, r2).
         if \<not> ok2 then lret (False, r2)
         else lbind (lua_rawset (- 3)) (\<lambda>_. parse_pairs pv n r2)))"

definition parseTable :: "parse_fun \<Rightarrow> nat \<Rightarrow> parse_fun" where
  "parseTable pv k r = (let (sz, r1) = readNumber k r in
     lbind (api_incr_top (lua_createtable 0 (to_int32 sz))) (\<lambda>_. parse_pairs pv (nat sz) r1))"

definition parsers :: "ReaderStrings \<Rightarrow> parse_fun \<Rightarrow> parse_fun list" where
  "parsers st pv =
     [parseEOF, parseNil, parseTrue, parseFalse, parseZero, parseOne,
      parseInteger 1, parseInteger 2, parseInteger 4, parseInteger 8, parseFloat, parseDouble,
      parseString0, parseString st 1, parseString st 2, parseString st 4,
      parseTable0, parseArray pv 1, parseArray pv 2, parseArray pv 4,
      parseTable0, parseTable pv 1, parseTable pv 2, parseTable pv 4]"

primrec parserValue :: "nat \<Rightarrow> ReaderStrings \<Rightarrow> parse_fun" where
  "parserValue 0 st r = lthrow NoFuel"
| "parserValue (Suc n) st r =
     (let (type, r1) = readType r in
      if type \<ge> T_MAX then lret (False, r1) else (parsers st (parserValue n st) ! type) r1)"

text \<open>The number of results left on the stack.\<close>

definition parseBinaryTable :: "bytes \<Rightarrow> nat lua" where
  "parseBinaryTable data =
     lbind lua_gettop (\<lambda>top.
       let (magic, r1) = readNumber 2 (new_reader data) in
       if magic \<noteq> MAGIC_NUMBER then
         lbind (lseq [api_incr_top lua_pushnil, api_incr_top (lua_pushfstring (str ''Invalid file format %x'') [FInt magic])]) (\<lambda>_. lret 2)
       else
       let (version, r2) = readNumber 2 r1 in
       if version \<noteq> LUABT_VERSION then
         lbind (lseq [api_incr_top lua_pushnil, api_incr_top (lua_pushfstring (str ''Invalid file version %d'') [FInt version])]) (\<lambda>_. lret 2)
       else
       lbind (rs_parse r2) (\<lambda>(ok, st, r3).
       lbind (if ok then parserValue (Suc (length data)) st r3 else lret (False, r3)) (\<lambda>(ok2, r4).
         if \<not> ok2 then
           lbind (lseq [lua_settop top, api_incr_top lua_pushnil, api_incr_top (lua_pushfstring (str ''Parse failed.'') [])]) (\<lambda>_. lret 2)
         else lbind (rs_destroy st) (\<lambda>_. lret 1))))"

end
