(* ===== verification/Binary_Writer.thy ===== *)
theory Binary_Writer
  imports Lua_Api Binary_Stream
begin

text \<open>
  The serialiser and the dumper (\<^verbatim>\<open>lua_binary_writer.cpp\<close>). A C++ object that is passed by
  reference is threaded through: the string table \<open>WriterStrings\<close> and the output stream. Strings
  are numbered in the order of their first use, in a Lua table from strings to numbers and
  one back. The first argument of \<open>writeValue\<close> bounds the nesting of tables; on a cyclic
  table the code recurses until the frame of the call has no slot left, and on until the C stack is exhausted.
  As in the reader, every function of the API that pushes a value is called with the check of \<^verbatim>\<open>api_incr_top\<close>.
\<close>

subsection \<open>The string table\<close>

record WriterStrings =
  ws_handle :: int
  ws_index2string :: int
  ws_size :: nat
  ws_cacheSize :: nat

definition ws_new :: "WriterStrings lua" where
  "ws_new =
     lbind (api_incr_top lua_newtable) (\<lambda>_. lbind lua_gettop (\<lambda>h.
     lbind (api_incr_top lua_newtable) (\<lambda>_. lbind lua_gettop (\<lambda>i.
     lret \<lparr>ws_handle = h, ws_index2string = i, ws_size = 0, ws_cacheSize = 0\<rparr>))))"

definition ws_destroy :: "WriterStrings \<Rightarrow> unit lua" where
  "ws_destroy st = lseq [lua_remove (ws_index2string st), lua_remove (ws_handle st)]"

definition storeString :: "int \<Rightarrow> WriterStrings \<Rightarrow> (nat \<times> WriterStrings) lua" where
  "storeString idx st =
     lbind (lseq [api_incr_top (lua_pushvalue idx), lua_rawget (ws_handle st)]) (\<lambda>_.
     lbind (lua_isnil (- 1)) (\<lambda>isnil.
       if isnil then
         lbind (lua_pop 1) (\<lambda>_.
         lbind (lua_objlen idx) (\<lambda>len.
         let n = ws_size st + 1; st' = st\<lparr>ws_size := n, ws_cacheSize := ws_cacheSize st + len\<rparr> in
         lbind (lseq [api_incr_top (lua_pushvalue idx), api_incr_top (lua_pushinteger (int n)), lua_rawset (ws_handle st),
                      api_incr_top (lua_pushvalue idx), lua_rawseti (ws_index2string st) (sint (of_nat n :: 32 word))]) (\<lambda>_.
         lret (n, st'))))
       else
         lbind (lua_tointeger (- 1)) (\<lambda>i. lbind (lua_pop 1) (\<lambda>_. lret (nat (i mod 2 ^ 64), st)))))"

fun ws_write_loop :: "WriterStrings \<Rightarrow> nat \<Rightarrow> nat \<Rightarrow> BinaryWriter \<Rightarrow> BinaryWriter lua" where
  "ws_write_loop st i 0 w = lret w"
| "ws_write_loop st i (Suc n) w =
     lbind (api_incr_top (lua_rawgeti (ws_index2string st) (sint (of_nat i :: 32 word)))) (\<lambda>_.
     lbind (lua_tolstring (- 1)) (\<lambda>s.
       case s of None \<Rightarrow> lundef
       | Some s \<Rightarrow>
           let w' = writeBytes s (writeNumber 2 (int (length s)) w) in
           lbind (lua_pop 1) (\<lambda>_. ws_write_loop st (Suc i) n w')))"

definition ws_write :: "WriterStrings \<Rightarrow> BinaryWriter \<Rightarrow> BinaryWriter lua" where
  "ws_write st w = ws_write_loop st 1 (ws_size st) (writeNumber 4 (int (ws_size st)) w)"

subsection \<open>Numbers and lengths\<close>

definition writeInteger :: "int \<Rightarrow> BinaryWriter \<Rightarrow> BinaryWriter" where
  "writeInteger v w =
     (if v = 0 then writeType T_ZERO w
      else if v = 1 then writeType T_ONE w
      else if v < 0 then
        (if v \<ge> - (2 ^ 7) then writeNumber 1 v (writeType T_INT8 w)
         else if v \<ge> - (2 ^ 15) then writeNumber 2 v (writeType T_INT16 w)
         else if v \<ge> - (2 ^ 31) then writeNumber 4 v (writeType T_INT32 w)
         else writeNumber 8 v (writeType T_INT64 w))
      else
        (if v \<le> 2 ^ 7 - 1 then writeNumber 1 v (writeType T_INT8 w)
         else if v \<le> 2 ^ 15 - 1 then writeNumber 2 v (writeType T_INT16 w)
         else if v \<le> 2 ^ 31 - 1 then writeNumber 4 v (writeType T_INT32 w)
         else writeNumber 8 v (writeType T_INT64 w)))"

definition writeFloat :: "lua_Number \<Rightarrow> BinaryWriter \<Rightarrow> BinaryWriter" where
  "writeFloat v w = writeNumber 8 (uint v) (writeType T_DOUBLE w)"

definition writeLength :: "Type \<Rightarrow> nat \<Rightarrow> BinaryWriter \<Rightarrow> BinaryWriter" where
  "writeLength type0 len w =
     (if len = 0 then writeType type0 w
      else if len \<le> 2 ^ 8 - 1 then writeNumber 1 (int len) (writeType (type0 + 1) w)
      else if len \<le> 2 ^ 16 - 1 then writeNumber 2 (int len) (writeType (type0 + 2) w)
      else writeNumber 4 (int len) (writeType (type0 + 3) w))"

subsection \<open>Tables\<close>

text \<open>The loops \<^verbatim>\<open>while(lua_next(L, idx))\<close> take the number of slots of the table, plus one, as fuel.\<close>

definition next_fuel :: "int \<Rightarrow> nat lua" where
  "next_fuel idx = lbind (lua_value idx) (\<lambda>v. lbind (table_at v) (\<lambda>(_, t).
     lret (Suc (sizearray t + sizenode t))))"

primrec count_loop :: "nat \<Rightarrow> int \<Rightarrow> nat \<Rightarrow> nat lua" where
  "count_loop 0 idx n = lthrow NoFuel"
| "count_loop (Suc f) idx n =
     lbind (api_incr_top (lua_next idx)) (\<lambda>more.
       if more then lbind (lua_pop 1) (\<lambda>_. count_loop f idx (Suc n)) else lret n)"

definition countTableLength :: "int \<Rightarrow> nat lua" where
  "countTableLength index =
     lbind lua_gettop (\<lambda>top.
       let idx = (if index > 0 then index else top + index + 1) in
       lbind (api_incr_top lua_pushnil) (\<lambda>_. lbind (next_fuel idx) (\<lambda>f. count_loop f idx 0)))"

text \<open>
  The order function given to \<^verbatim>\<open>table.sort\<close>. Its C result is the number of values it returns, so
  1 returns the topmost value of its frame.
\<close>

definition sortCmp :: "program \<Rightarrow> C_function" where
  "sortCmp prog =
     lbind (lua_type 1) (\<lambda>t1. lbind (lua_type 2) (\<lambda>t2.
       let count = (\<lambda>b. if b then 1 else 0 :: nat) in
       if t1 = 0 then lret 1
       else if t2 = 0 then lret 0
       else if t1 = t2 then
         (if t1 = 5 then
            lbind (lua_topointer 1) (\<lambda>p. lbind (lua_topointer 2) (\<lambda>q. lret (count (p < q))))
          else lbind (lua_lessthan prog 1 2) (\<lambda>b. lret (count b)))
       else if t1 = 1 then
         (if t2 = 3 then
            lbind (lua_toboolean 1) (\<lambda>b. lbind (lua_tonumber 2) (\<lambda>x.
              lret (count (luai_numlt (cast_num (if b then 1 else 0)) x))))
          else lret 1)
       else if t1 = 3 then
         (if t2 = 1 then
            lbind (lua_tonumber 1) (\<lambda>x. lbind (lua_toboolean 2) (\<lambda>b.
              lret (count (luai_numlt x (cast_num (if b then 1 else 0))))))
          else lret 1)
       else if t1 = 4 then (if t2 = 1 \<or> t2 = 3 then lret 0 else lret 1)
       else lret 0))"

primrec keys_loop :: "nat \<Rightarrow> int \<Rightarrow> int \<Rightarrow> unit lua" where
  "keys_loop 0 index n = lthrow NoFuel"
| "keys_loop (Suc f) index n =
     lbind (api_incr_top (lua_next index)) (\<lambda>more.
       if more then
         lbind (lseq [lua_pop 1, api_incr_top (lua_pushvalue (- 1)), lua_rawseti (- 3) (n + 1)]) (\<lambda>_. keys_loop f index (n + 1))
       else lret ())"

definition getSortedTableKeys :: "program \<Rightarrow> int \<Rightarrow> bool lua" where
  "getSortedTableKeys prog index =
     lbind (lseq [api_incr_top lua_newtable, api_incr_top lua_pushnil]) (\<lambda>_.
     lbind (next_fuel index) (\<lambda>f.
     lbind (lseq [keys_loop f index 0,
                  api_incr_top (lua_getglobal prog (str ''table'')), api_incr_top (lua_getfield prog (- 1) (str ''sort'')),
                  api_incr_top (lua_pushvalue (- 3)), api_incr_top (lua_pushcfunction CSortCmp)]) (\<lambda>_.
     lbind (lua_pcall prog 2 0) (\<lambda>status.
       if status \<noteq> 0 then
         lbind (lua_pop 1) (\<lambda>_. lbind (lua_tolstring (- 1)) (\<lambda>_. lret False))
       else lbind (lua_pop 1) (\<lambda>_. lret True)))))"

type_synonym wstate = "WriterStrings \<times> BinaryWriter"
type_synonym write_fun = "int \<Rightarrow> wstate \<Rightarrow> (bool \<times> wstate) lua"

fun write_items :: "write_fun \<Rightarrow> int \<Rightarrow> nat \<Rightarrow> nat \<Rightarrow> wstate \<Rightarrow> (bool \<times> wstate) lua" where
  "write_items wv index i 0 ws = lret (True, ws)"
| "write_items wv index i (Suc n) ws =
     lbind (api_incr_top (lua_rawgeti index (sint (of_nat i :: 32 word)))) (\<lambda>_.
     lbind (wv (- 1) ws) (\<lambda>(ok, ws1).
       if \<not> ok then lret (False, ws1)
       else lbind (lua_pop 1) (\<lambda>_. write_items wv index (Suc i) n ws1)))"

fun write_pairs :: "write_fun \<Rightarrow> int \<Rightarrow> nat \<Rightarrow> nat \<Rightarrow> wstate \<Rightarrow> (bool \<times> wstate) lua" where
  "write_pairs wv index i 0 ws = lret (True, ws)"
| "write_pairs wv index i (Suc n) ws =
     lbind (api_incr_top (lua_rawgeti (- 1) (int i))) (\<lambda>_.
     lbind (wv (- 1) ws) (\<lambda>(ok, ws1).
       if \<not> ok then lret (False, ws1)
       else lbind (lua_rawget index) (\<lambda>_.
         lbind (wv (- 1) ws1) (\<lambda>(ok2, ws2).
           if \<not> ok2 then lret (False, ws2)
           else lbind (lua_pop 1) (\<lambda>_. write_pairs wv index (Suc i) n ws2)))))"

definition writeTable :: "program \<Rightarrow> write_fun \<Rightarrow> write_fun" where
  "writeTable prog wv index0 ws =
     lbind lua_gettop (\<lambda>top.
     let index = (if index0 < 0 then top + index0 + 1 else index0); (st, w) = ws in
     lbind (countTableLength index) (\<lambda>len.
       if len = 0 then lret (True, (st, writeType T_TABLE0 w))
       else
         lbind (lua_objlen index) (\<lambda>objlen.
           if len = objlen then
             write_items wv index 1 len (st, writeLength T_ARRAY0 len w)
           else
             let ws1 = (st, writeLength T_TABLE0 len w) in
             lbind (getSortedTableKeys prog index) (\<lambda>sorted.
               if \<not> sorted then lret (False, ws1)
               else lbind (write_pairs wv index 1 len ws1) (\<lambda>(ok, ws2).
                 if \<not> ok then lret (False, ws2)
                 else lbind (lua_pop 1) (\<lambda>_. lret (True, ws2)))))))"

primrec writeValue :: "program \<Rightarrow> nat \<Rightarrow> write_fun" where
  "writeValue prog 0 index ws = lthrow NoFuel"
| "writeValue prog (Suc f) index ws =
     (let (st, w) = ws in
      lbind (lua_type index) (\<lambda>type.
        if type = 0 then lret (True, (st, writeType T_NIL w))
        else if type = 1 then
          lbind (lua_toboolean index) (\<lambda>b. lret (True, (st, writeType (if b then T_TRUE else T_FALSE) w)))
        else if type = 3 then
          lbind (lua_tonumber index) (\<lambda>v.
            let nearV = dbl_round v in
            lret (True, (st, if luai_numeq v nearV then writeInteger (dbl_to_int 64 nearV) w else writeFloat v w)))
        else if type = 4 then
          lbind (lua_objlen index) (\<lambda>len.
            if len = 0 then lret (True, (st, writeType T_STRING0 w))
            else lbind (storeString index st) (\<lambda>(strIndex, st'). lret (True, (st', writeLength T_STRING0 strIndex w))))
        else if type = 5 then writeTable prog (writeValue prog f) index ws
        else lret (False, ws)))"

text \<open>The data and the length of the result, as the finished stream.\<close>

definition writeBinaryTable :: "program \<Rightarrow> nat \<Rightarrow> int \<Rightarrow> BinaryWriter option lua" where
  "writeBinaryTable prog fuel idx0 =
     lbind lua_gettop (\<lambda>top.
     let idx = (if idx0 < 0 then top + idx0 + 1 else idx0) in
     lbind ws_new (\<lambda>st0.
     lbind (writeValue prog fuel idx (st0, new_writer)) (\<lambda>(ok, st, dataWriter).
       if \<not> ok then lbind (lseq [ws_destroy st, lua_settop top]) (\<lambda>_. lret None)
       else
         let stream = reserve (4 + ws_cacheSize st + w_size dataWriter) new_writer;
             stream1 = writeNumber 2 LUABT_VERSION (writeNumber 2 MAGIC_NUMBER stream) in
         lbind (ws_write st stream1) (\<lambda>stream2.
         lbind (ws_destroy st) (\<lambda>_.
         let d = writeBytes (contents dataWriter) stream2 in
         if w_overrun dataWriter \<or> w_overrun d then lundef else lret (Some d))))))"

subsection \<open>The dump\<close>

type_synonym dump_fun = "int \<Rightarrow> int \<Rightarrow> int \<Rightarrow> BinaryWriter \<Rightarrow> BinaryWriter lua"

fun dump_pairs :: "dump_fun \<Rightarrow> int \<Rightarrow> int \<Rightarrow> int \<Rightarrow> nat \<Rightarrow> nat \<Rightarrow> BinaryWriter \<Rightarrow> BinaryWriter lua" where
  "dump_pairs dv idx indent maxIndent i 0 w = lret w"
| "dump_pairs dv idx indent maxIndent i (Suc n) w =
     (let w1 = (if indent \<le> maxIndent then writeIndent indent (writeChar 10 w) else w) in
      lbind (api_incr_top (lua_rawgeti (- 1) (int i))) (\<lambda>_.
      lbind (dv (- 1) 1 0 (writeChar 91 w1)) (\<lambda>w2.
      lbind (lua_rawget idx) (\<lambda>_.
      lbind (dv (- 1) (indent + 1) maxIndent (writeString (str ''] = '') w2)) (\<lambda>w3.
      lbind (lua_pop 1) (\<lambda>_. dump_pairs dv idx indent maxIndent (Suc i) n (writeChar 44 w3)))))))"

primrec dumpValue :: "program \<Rightarrow> nat \<Rightarrow> dump_fun" where
  "dumpValue prog 0 idx indent maxIndent w = lthrow NoFuel"
| "dumpValue prog (Suc f) idx0 indent maxIndent w =
     lbind (lua_type idx0) (\<lambda>type.
       if type = 0 then lret (writeString (str ''nil'') w)
       else if type = 1 then
         lbind (lua_toboolean idx0) (\<lambda>b. lret (writeString (if b then str ''true'' else str ''false'') w))
       else if type = 4 then
         lbind (lua_tolstring idx0) (\<lambda>s. case s of None \<Rightarrow> lundef
           | Some s \<Rightarrow> lret (writeChar 34 (writeBytes s (writeChar 34 w))))
       else if type = 3 then
         lbind (lua_tonumber idx0) (\<lambda>x. lret (writeString (lua_number2str x) w))
       else if type = 5 then
         lbind lua_gettop (\<lambda>top.
         let idx = (if idx0 > 0 then idx0 else top + idx0 + 1); w1 = writeChar 123 w in
         lbind (getSortedTableKeys prog idx) (\<lambda>_.
         lbind (lua_objlen (- 1)) (\<lambda>n.
         let len = to_signed 4 (int n mod 2 ^ 32) in
         lbind (dump_pairs (dumpValue prog f) idx indent maxIndent 1 (nat len) w1) (\<lambda>w2.
         lbind (lua_pop 1) (\<lambda>_.
         let w3 = (if indent \<le> maxIndent \<and> len > 0 then writeIndent (indent - 1) (writeChar 10 w2) else w2) in
         lret (writeChar 125 w3))))))
       else lbind (lua_topointer idx0) (\<lambda>p. lret (writeString (fmt_p p) w)))"

definition dumpTable :: "program \<Rightarrow> nat \<Rightarrow> int \<Rightarrow> int \<Rightarrow> BinaryWriter lua" where
  "dumpTable prog fuel idx maxIndent =
     lbind (dumpValue prog fuel idx 1 maxIndent (writeString (str ''return '') new_writer)) (\<lambda>d.
       if w_overrun d then lundef else lret d)"

end
