(* ===== verification/Lua_Sort.thy ===== *)
theory Lua_Sort
  imports Lua_Api
begin

text \<open>
  \<^verbatim>\<open>table.sort\<close> of \<^verbatim>\<open>ltablib.c\<close>: quicksort on the array at stack index 1 with the order function
  at index 2. The loops take as fuel the number of rounds that the checks of the code itself
  allow; the \<open>while\<close> loop of \<open>auxsort\<close> is a second recursive call.
\<close>

definition set2 :: "int \<Rightarrow> int \<Rightarrow> unit lua" where
  "set2 i j = lseq [lua_rawseti 1 i, lua_rawseti 1 j]"

definition sort_comp :: "program \<Rightarrow> int \<Rightarrow> int \<Rightarrow> bool lua" where
  "sort_comp prog a b =
     lbind (lua_isnil 2) (\<lambda>nofun.
       if \<not> nofun then
         lbind (lseq [lua_pushvalue 2, lua_pushvalue (a - 1), lua_pushvalue (b - 2), lua_call prog 2 1]) (\<lambda>_.
         lbind (lua_toboolean (- 1)) (\<lambda>res.
         lbind (lua_pop 1) (\<lambda>_. lret res)))
       else lua_lessthan prog a b)"

definition invalid_order :: "unit lua" where
  "invalid_order = luaL_error (str ''invalid order function for sorting'') []"

text \<open>The two scans of a partition round; they return the index where they stop.\<close>

primrec scan_up :: "program \<Rightarrow> int \<Rightarrow> nat \<Rightarrow> int \<Rightarrow> int lua" where
  "scan_up prog u 0 i = lthrow NoFuel"
| "scan_up prog u (Suc f) i =
     lbind (lua_rawgeti 1 (i + 1)) (\<lambda>_.
     lbind (sort_comp prog (- 1) (- 2)) (\<lambda>b.
       if b then
         lbind (lseq [if i + 1 > u then invalid_order else lret (), lua_pop 1]) (\<lambda>_. scan_up prog u f (i + 1))
       else lret (i + 1)))"

primrec scan_down :: "program \<Rightarrow> int \<Rightarrow> nat \<Rightarrow> int \<Rightarrow> int lua" where
  "scan_down prog l 0 j = lthrow NoFuel"
| "scan_down prog l (Suc f) j =
     lbind (lua_rawgeti 1 (j - 1)) (\<lambda>_.
     lbind (sort_comp prog (- 3) (- 1)) (\<lambda>b.
       if b then
         lbind (lseq [if j - 1 < l then invalid_order else lret (), lua_pop 1]) (\<lambda>_. scan_down prog l f (j - 1))
       else lret (j - 1)))"

primrec partition_loop :: "program \<Rightarrow> int \<Rightarrow> int \<Rightarrow> nat \<Rightarrow> int \<Rightarrow> int \<Rightarrow> int lua" where
  "partition_loop prog l u 0 i j = lthrow NoFuel"
| "partition_loop prog l u (Suc f) i j =
     lbind (scan_up prog u (nat (u - l + 3)) i) (\<lambda>i'.
     lbind (scan_down prog l (nat (u - l + 3)) j) (\<lambda>j'.
       if j' < i' then lbind (lua_pop 3) (\<lambda>_. lret i')
       else lbind (set2 i' j') (\<lambda>_. partition_loop prog l u f i' j')))"

text \<open>Orders \<open>a[l]\<close>, the middle and \<open>a[u]\<close>; the result says whether the range is done.\<close>

definition sort_ends :: "program \<Rightarrow> int \<Rightarrow> int \<Rightarrow> bool lua" where
  "sort_ends prog l u =
     lbind (lseq [lua_rawgeti 1 l, lua_rawgeti 1 u]) (\<lambda>_.
     lbind (sort_comp prog (- 1) (- 2)) (\<lambda>b.
     lbind (if b then set2 l u else lua_pop 2) (\<lambda>_.
       if u - l = 1 then lret True
       else
         let i = (l + u) div 2 in
         lbind (lseq [lua_rawgeti 1 i, lua_rawgeti 1 l]) (\<lambda>_.
         lbind (sort_comp prog (- 2) (- 1)) (\<lambda>b.
         lbind (if b then set2 i l
                else lbind (lseq [lua_pop 1, lua_rawgeti 1 u]) (\<lambda>_.
                     lbind (sort_comp prog (- 1) (- 2)) (\<lambda>b. if b then set2 i u else lua_pop 2))) (\<lambda>_.
         lret (u - l = 2)))))))"

text \<open>Partitions the range around the middle element and returns the index where the pivot ends.\<close>

definition partition :: "program \<Rightarrow> int \<Rightarrow> int \<Rightarrow> int lua" where
  "partition prog l u =
     lbind (lseq [lua_rawgeti 1 ((l + u) div 2), lua_pushvalue (- 1), lua_rawgeti 1 (u - 1),
                  set2 ((l + u) div 2) (u - 1)]) (\<lambda>_.
     lbind (partition_loop prog l u (nat (u - l + 3)) l (u - 1)) (\<lambda>i.
     lbind (lseq [lua_rawgeti 1 (u - 1), lua_rawgeti 1 i, set2 (u - 1) i]) (\<lambda>_. lret i)))"

primrec auxsort :: "program \<Rightarrow> nat \<Rightarrow> int \<Rightarrow> int \<Rightarrow> unit lua" where
  "auxsort prog 0 l u = lthrow NoFuel"
| "auxsort prog (Suc n) l u =
     (if l < u then
        lbind (sort_ends prog l u) (\<lambda>fin.
          if fin then lret ()
          else lbind (partition prog l u) (\<lambda>i.
            let (j, i', l', u') = (if i - l < u - i then (l, i - 1, i + 1, u) else (i + 1, u, l, i - 1))
            in lbind (auxsort prog n j i') (\<lambda>_. auxsort prog n l' u')))
      else lret ())"

definition aux_getn :: "int \<Rightarrow> int lua" where
  "aux_getn n = lbind (luaL_checktype n 5) (\<lambda>_. luaL_getn n)"

definition sort_fn :: "program \<Rightarrow> C_function" where
  "sort_fn prog =
     lbind (aux_getn 1) (\<lambda>n.
     lbind (luaL_checkstack 40 []) (\<lambda>_.
     lbind (lua_isnoneornil 2) (\<lambda>b.
     lbind (lseq [if \<not> b then luaL_checktype 2 6 else lret (), lua_settop 2,
                  auxsort prog (nat n + 1) 1 n]) (\<lambda>_. lret 0))))"

end
