(* ===== verification/Lua_Api_Run.thy ===== *)
theory Lua_Api_Run
  imports Lua_Api
begin

text \<open>
  How the API functions run: each changes the top of the stack, or one table of the heap, and
  leaves the rest of the state alone. The top of the stack is read through \<open>rev\<close>, so that the
  simplifier executes straight-line code over a stack of the form \<open>xs @ [u, v]\<close>. The
  collection \<open>api\<close> holds these rules.
\<close>

named_theorems api

subsection \<open>Values at an index\<close>

lemma index2adr_top:
  "- 10000 < i \<Longrightarrow> i < 0 \<Longrightarrow> nat (- i) \<le> length (l_stack s) \<Longrightarrow>
    index2adr s i = ASlot (length (l_stack s) - nat (- i))"
  by (auto simp: index2adr_def LUA_REGISTRYINDEX_def Let_def nat_add_distrib)

lemma index2adr_pos [api]:
  "0 < i \<Longrightarrow> nat i \<le> length (l_stack s) \<Longrightarrow> index2adr s i = ASlot (nat i - 1)"
  by (auto simp: index2adr_def Let_def nat_diff_distrib)

lemma index2adr_none [api]: "0 < i \<Longrightarrow> length (l_stack s) < nat i \<Longrightarrow> index2adr s i = ANone"
  by (auto simp: index2adr_def Let_def)

lemma index2adr_neg [api]:
  "1 \<le> length (l_stack s) \<Longrightarrow> index2adr s (- 1) = ASlot (length (l_stack s) - 1)"
  "2 \<le> length (l_stack s) \<Longrightarrow> index2adr s (- 2) = ASlot (length (l_stack s) - 2)"
  "3 \<le> length (l_stack s) \<Longrightarrow> index2adr s (- 3) = ASlot (length (l_stack s) - 3)"
  by (subst index2adr_top; simp)+

lemma lua_value_top:
  assumes "- 10000 < i" "i < 0" "nat (- i) \<le> length (l_stack s)"
  shows "lua_value i s = (Inr (rev (l_stack s) ! nat (- i - 1)), s)"
  using assms by (simp add: lua_value_def index2adr_top rev_nth nat_diff_distrib Suc_diff_Suc)

lemma lua_value_neg [api]:
  "1 \<le> length (l_stack s) \<Longrightarrow> lua_value (- 1) s = (Inr (rev (l_stack s) ! 0), s)"
  "2 \<le> length (l_stack s) \<Longrightarrow> lua_value (- 2) s = (Inr (rev (l_stack s) ! 1), s)"
  "3 \<le> length (l_stack s) \<Longrightarrow> lua_value (- 3) s = (Inr (rev (l_stack s) ! 2), s)"
  by (subst lua_value_top; simp)+

lemma lua_value_pos [api]:
  "0 < i \<Longrightarrow> nat i \<le> length (l_stack s) \<Longrightarrow> lua_value i s = (Inr (l_stack s ! (nat i - 1)), s)"
  by (simp add: lua_value_def index2adr_pos)

lemma table_at_run [api]: "l_heap s a = Some t \<Longrightarrow> table_at (LTable a) s = (Inr (a, t), s)"
  by (simp add: table_at_def)

subsection \<open>The stack\<close>

lemma push_run [api]: "push v s = (Inr (), s\<lparr>l_stack := l_stack s @ [v]\<rparr>)"
  by (simp add: push_def)

lemma api_incr_top_run [api]:
  "api_incr_top m s = (case m s of (Inl e, s') \<Rightarrow> (Inl e, s')
     | (Inr a, s') \<Rightarrow> if length (l_stack s') \<le> l_ci_top s' then (Inr a, s') else (Inl Overrun, s'))"
  by (simp add: api_incr_top_def)

lemma set_table_run [api]: "set_table a t s = (Inr (), s\<lparr>l_heap := (l_heap s)(a \<mapsto> t)\<rparr>)"
  by (simp add: set_table_def)

lemma drop_top_run [api]:
  "n \<le> length (l_stack s) \<Longrightarrow> drop_top n s = (Inr (), s\<lparr>l_stack := rev (drop n (rev (l_stack s)))\<rparr>)"
  by (simp add: drop_top_def rev_drop)

lemma lua_pop_run:
  "0 \<le> n \<Longrightarrow> nat n \<le> length (l_stack s) \<Longrightarrow>
    lua_pop n s = (Inr (), s\<lparr>l_stack := rev (drop (nat n) (rev (l_stack s)))\<rparr>)"
  by (auto simp: lua_pop_def lua_settop_def Let_def rev_drop nat_diff_distrib)

lemma lua_pop_num [api]:
  "1 \<le> length (l_stack s) \<Longrightarrow> lua_pop 1 s = (Inr (), s\<lparr>l_stack := rev (drop 1 (rev (l_stack s)))\<rparr>)"
  "2 \<le> length (l_stack s) \<Longrightarrow> lua_pop 2 s = (Inr (), s\<lparr>l_stack := rev (drop 2 (rev (l_stack s)))\<rparr>)"
  "3 \<le> length (l_stack s) \<Longrightarrow> lua_pop 3 s = (Inr (), s\<lparr>l_stack := rev (drop 3 (rev (l_stack s)))\<rparr>)"
  by (subst lua_pop_run; simp)+

lemma lua_gettop_run [api]: "lua_gettop s = (Inr (int (length (l_stack s))), s)"
  by (simp add: lua_gettop_def)

lemma lua_settop_cut [api]:
  "n \<le> length (l_stack s) \<Longrightarrow> lua_settop (int n) s = (Inr (), s\<lparr>l_stack := take n (l_stack s)\<rparr>)"
  by (simp add: lua_settop_def)

lemma lua_remove_pos [api]:
  "0 < i \<Longrightarrow> nat i \<le> length (l_stack s) \<Longrightarrow>
    lua_remove i s = (Inr (), s\<lparr>l_stack := take (nat i - 1) (l_stack s) @ drop (nat i) (l_stack s)\<rparr>)"
  by (simp add: lua_remove_def index2adr_pos)

lemmas lua_push_run [api] = lua_pushnil_def lua_pushnumber_def lua_pushinteger_def lua_pushlstring_def
  lua_pushboolean_def lua_pushvalue_def lua_newtable_def

lemma lseq_run [api]: "lseq [] s = (Inr (), s)" "lseq (m # ms) s = lbind m (\<lambda>_. lseq ms) s"
  by simp_all

subsection \<open>States that agree but for new tables\<close>

definition heap_ok :: "lua_State \<Rightarrow> bool" where
  "heap_ok s \<longleftrightarrow> (\<forall>a t. l_heap s a = Some t \<longrightarrow> wf_table t \<and> a < l_brk s)"

text \<open>The parts of the state other than the stack and the heap of tables.\<close>

definition others :: "lua_State \<Rightarrow> lua_State" where
  "others s = s\<lparr>l_stack := [], l_heap := \<lambda>_. None, l_brk := 0\<rparr>"

lemma others_upd [simp]:
  "others (s\<lparr>l_stack := x\<rparr>) = others s" "others (s\<lparr>l_heap := h\<rparr>) = others s" "others (s\<lparr>l_brk := b\<rparr>) = others s"
  by (cases s; simp add: others_def)+

lemma state_eqI:
  "others s = others s' \<Longrightarrow> l_stack s = l_stack s' \<Longrightarrow> l_heap s = l_heap s' \<Longrightarrow> l_brk s = l_brk s' \<Longrightarrow> s = s'"
  by (cases s; cases s') (simp add: others_def)

definition grown :: "lua_State \<Rightarrow> lua_State \<Rightarrow> bool" where
  "grown s s' \<longleftrightarrow> heap_ok s' \<and> l_brk s \<le> l_brk s' \<and> (\<forall>a < l_brk s. l_heap s' a = l_heap s a) \<and> others s' = others s"

lemma grown_ci_top: "grown s s' \<Longrightarrow> l_ci_top s' = l_ci_top s"
  by (cases s; cases s') (simp add: grown_def others_def)

text \<open>\<open>n\<close> more values can be pushed.\<close>

definition fits :: "lua_State \<Rightarrow> nat \<Rightarrow> bool" where
  "fits s n \<longleftrightarrow> length (l_stack s) + n \<le> l_ci_top s"

lemma fits_push [simp]: "fits (s\<lparr>l_stack := l_stack s @ vs\<rparr>) n = fits s (length vs + n)"
  by (simp add: fits_def add.assoc)

lemma fits_grown: "grown s s' \<Longrightarrow> l_stack s' = l_stack s @ vs \<Longrightarrow> fits s' n = fits s (length vs + n)"
  by (simp add: fits_def grown_ci_top add.assoc)

lemma fits_mono: "fits s n \<Longrightarrow> m \<le> n \<Longrightarrow> fits s m"
  by (simp add: fits_def)

lemma heap_okD: "heap_ok s \<Longrightarrow> l_heap s a = Some t \<Longrightarrow> wf_table t" "heap_ok s \<Longrightarrow> l_heap s a = Some t \<Longrightarrow> a < l_brk s"
  by (auto simp: heap_ok_def)

lemma heap_ok_stack [simp]: "heap_ok (s\<lparr>l_stack := x\<rparr>) = heap_ok s"
  by (simp add: heap_ok_def)

lemma grown_refl [simp]: "heap_ok s \<Longrightarrow> grown s s"
  by (simp add: grown_def)

lemma grown_stack [simp]: "grown s (s'\<lparr>l_stack := x\<rparr>) = grown s s'" "grown (s\<lparr>l_stack := x\<rparr>) s' = grown s s'"
  by (simp_all add: grown_def)

lemma grown_trans: "grown s s' \<Longrightarrow> grown s' s'' \<Longrightarrow> grown s s''"
  by (auto simp: grown_def)

lemma grown_heap: "grown s s' \<Longrightarrow> heap_ok s \<Longrightarrow> l_heap s a = Some t \<Longrightarrow> l_heap s' a = Some t"
  by (auto simp: grown_def heap_ok_def)

lemma grown_ok: "grown s s' \<Longrightarrow> heap_ok s'"
  by (simp add: grown_def)

lemma grown_set:
  assumes "grown s s'" "l_brk s \<le> a" "a < l_brk s'" "wf_table t"
  shows "grown s (s'\<lparr>l_heap := (l_heap s')(a \<mapsto> t)\<rparr>)"
  using assms by (auto simp: grown_def heap_ok_def)

subsection \<open>Tables\<close>

definition block_too_big :: exn where
  "block_too_big = LuaError (LString (str ''memory allocation error: block too big''))"

lemma luaM_vector_cases:
  "luaM_vector n s = (Inr (), s) \<and> 0 \<le> n \<and> n \<le> 2 ^ 26 \<or> (n < 0 \<or> 2 ^ 26 < n) \<and> (\<exists>e. e \<in> {MemError, block_too_big} \<and> luaM_vector n s = (Inl e, s))"
proof -
  have "luaG_runerror (str ''memory allocation error: block too big'') [] s = (Inl block_too_big, s)"
    by (simp add: luaG_runerror_def block_too_big_def str_def)
  moreover have "\<not> sint (word_of_int (n + 1) :: 32 word) < 0" if "0 \<le> n" "n \<le> 2 ^ 26"
  proof -
    have "sint (word_of_int (n + 1) :: 32 word) = n + 1"
      using that by (simp only: signed_of_int) (simp add: signed_take_bit_int_eq_self)
    then show ?thesis using that by simp
  qed
  ultimately show ?thesis by (auto simp: luaM_vector_def MAXASIZE_def MAXBITS_def)
qed

lemma createtable_cases:
  assumes ok: "heap_ok s"
  obtains t where "lua_createtable na nr s =
      (Inr (), s\<lparr>l_brk := l_brk s + 64, l_heap := (l_heap s)(l_brk s \<mapsto> t), l_stack := l_stack s @ [LTable (l_brk s)]\<rparr>)"
      "0 \<le> na" "na \<le> 2 ^ 26" "luaH_new (nat na) (nat (nr mod 2 ^ 32)) = Inr t" "wf_table t" "t_metatable t = None"
      "sizearray t = nat na" "\<forall>k. valid_key k \<longrightarrow> tget t k = LNil"
  | e where "lua_createtable na nr s = (Inl e, s)" "na < 0 \<or> 2 ^ 26 < na" "e \<in> {MemError, block_too_big}"
  | "lua_createtable na nr s = (Inl (LuaError (LString (str ''table overflow''))), s)" "2 ^ 26 < nr mod 2 ^ 32"
proof (cases "na < 0 \<or> na > 2 ^ 26")
  case True
  then obtain e where "e \<in> {MemError, block_too_big}" "luaM_vector na s = (Inl e, s)" using luaM_vector_cases [of na s] by auto
  then show ?thesis using that(2) True by (simp add: lua_createtable_def)
next
  case False
  then have v: "luaM_vector na s = (Inr (), s)" using luaM_vector_cases [of na s] by auto
  from False have "nat na \<le> 2 ^ 26" by (simp add: nat_le_iff)
  then show ?thesis
  proof (cases rule: luaH_new_spec [where nhash = "nat (nr mod 2 ^ 32)"])
    case (1 t)
    with False that(1) show ?thesis
      by (simp add: lua_createtable_def v lua_alloc_def lbind_run api)
  next
    case 2
      with False 2 that(3) show ?thesis
      by (simp add: lua_createtable_def v lbind_run)
  qed
qed

lemma grown_create:
  "heap_ok s \<Longrightarrow> wf_table t \<Longrightarrow> grown s (s\<lparr>l_brk := l_brk s + 64, l_heap := (l_heap s)(l_brk s \<mapsto> t), l_stack := x\<rparr>)"
  by (auto simp: grown_def heap_ok_def intro: trans_less_add1)

lemma setnum_array:
  assumes wf: "wf_table t" and i: "i < sizearray t"
  shows "luaH_setnum t (int i + 1) = Inr (t, SArray i)"
proof -
  have "sizearray t \<le> 2 ^ 26" by (rule wf_array_bound [OF wf])
  with i have "(word_of_int (int i) :: 32 word) < of_nat (sizearray t)"
    by (simp add: word_less_nat_alt unat_of_nat)
  then show ?thesis by (simp add: luaH_setnum_def luaH_setnum_with_def luaH_getnum_def)
qed

lemma array_assigned:
  assumes wf: "wf_table t" and i: "i < sizearray t"
  shows "assigned t (LNumber (cast_num (int i + 1))) v (slot_set t (SArray i) v)"
    "sizearray (slot_set t (SArray i) v) = sizearray t"
proof -
  let ?k = "LNumber (cast_num (int i + 1))"
  have b: "sizearray t \<le> 2 ^ 26" by (rule wf_array_bound [OF wf])
  have vk: "valid_key ?k" using valid_int_key [of "Suc i"] i b by (simp add: add.commute)
  have "arrayindex ?k = int i + 1" by (rule arrayindex_index) (use i b in simp)
  then have "find_key t ?k = Some (SArray i)" using i by (simp add: find_key_def in_array_def)
  note s = slot_set_spec [OF wf vk this, where v = v]
  show "assigned t ?k v (slot_set t (SArray i) v)" "sizearray (slot_set t (SArray i) v) = sizearray t"
    using s by (simp_all add: assigned_def del: slot_set.simps)
qed

lemma rawseti_array:
  assumes ok: "heap_ok s" and st: "l_stack s = xs @ [LTable a, v]" and t: "l_heap s a = Some t" and i: "i < sizearray t"
  shows "lua_rawseti (- 2) (int i + 1) s =
    (Inr (), s\<lparr>l_heap := (l_heap s)(a \<mapsto> slot_set t (SArray i) v), l_stack := xs @ [LTable a]\<rparr>)"
  using setnum_array [OF heap_okD(1) [OF ok t] i] st t
  by (simp add: lua_rawseti_def api lbind_run)

lemma luaH_set_nan: "wf_table t \<Longrightarrow> dbl_isnan n \<Longrightarrow> luaH_set t (LNumber n) = Inl (RunError (str ''table index is NaN''))"
proof -
  assume wf: "wf_table t" and nan: "dbl_isnan n"
  have "chain_find (\<lambda>x. luaO_rawequalObj (i_key x) (LNumber n)) t (sizenode t) (mainposition t (LNumber n)) = Inr None"
    using wf_chain [OF wf] wf_mainposition [OF wf, of "LNumber n"]
  proof (cases rule: chain_find_spec [where P = "\<lambda>x. luaO_rawequalObj (i_key x) (LNumber n)"])
    case (found m)
    then show ?thesis using nan by (auto simp: luai_numeq_def)
  qed
  then have "luaH_get t (LNumber n) = Inr None"
    using nan by (simp add: luai_numeq_def luaH_get_default_def find_slot_def)
  then show ?thesis using nan by (simp add: luaH_set_def luaH_set_with_def Let_def)
qed

lemma luaH_set_nil: "luaH_set t LNil = Inl (RunError (str ''table index is nil''))"
  by (simp add: luaH_set_def luaH_set_with_def Let_def)

text \<open>A value on the stack is not a collected key.\<close>

lemma rawset_cases:
  assumes h: "heap_ok s" and st: "l_stack s = xs @ [LTable a, k, v]" and t: "l_heap s a = Some t"
    and k: "\<forall>p. k \<noteq> LDeadKey p"
  obtains (stored) t' where "lua_rawset (- 3) s =
      (Inr (), s\<lparr>l_heap := (l_heap s)(a \<mapsto> t'), l_stack := xs @ [LTable a]\<rparr>)" "assigned t k v t'"
  | (overflow) m where "lua_rawset (- 3) s = (Inl (LuaError (LString (str m))), s)"
      "m \<in> {''table overflow'', ''table index is nil'', ''table index is NaN''}"
proof -
  have eq: "lua_rawset (- 3) s = lbind (lift_rt (luaH_set t k)) (\<lambda>(t', p). lseq [set_table a (slot_set t' p v), drop_top 2]) s"
    using st t by (simp add: lua_rawset_def api lbind_run)
  note wf = heap_okD(1) [OF h t]
  show ?thesis
  proof (cases "valid_key k")
    case True
    from luaH_set_spec [OF wf True, where v = v] show ?thesis
    proof cases
      case (1 t' p)
      then show ?thesis using that(1) [of "slot_set t' p v"] eq st by (simp add: api)
    qed (use that(2) eq in \<open>simp add: lbind_run\<close>)
  next
    case False
    then consider "k = LNil" | n where "k = LNumber n" "dbl_isnan n" using k by (cases k) auto
    then show ?thesis
      by cases (use that(2) eq luaH_set_nil luaH_set_nan [OF wf] in \<open>simp_all add: lbind_run\<close>)
  qed
qed

lemma rawgeti_run:
  assumes ok: "heap_ok s" and i: "0 < i" "nat i \<le> length (l_stack s)" "l_stack s ! (nat i - 1) = LTable a"
    and t: "l_heap s a = Some t" and n: "- (2 ^ 31) \<le> n" "n < 2 ^ 31"
  shows "lua_rawgeti i n s = (Inr (), s\<lparr>l_stack := l_stack s @ [tget t (LNumber (cast_num n))]\<rparr>)"
proof -
  note wf = heap_okD(1) [OF ok t]
  have v: "valid_key (LNumber (cast_num n))" using cast_num_finite(2) [of n] n by (simp add: abs_if)
  show ?thesis
    using i t by (simp add: lua_rawgeti_def api luaH_getnum_find [OF wf n] tget_find [OF wf v])
qed

end
