(* ===== verification/Lua_Ctype.thy ===== *)
theory Lua_Ctype
  imports Lua_Table
begin

text \<open>
  The classification of characters (\<^verbatim>\<open>ctype.h\<close>) in the locale "C", on \<^verbatim>\<open>int\<close> values, so that the end-of-stream mark \<open>- 1\<close> is in no
  class; reading a C string with the terminator that Lua keeps after every string; and the congruence rule that lets
  functions recurse under \<open>sum_bind\<close>.
\<close>

lemma sum_bind_cong [fundef_cong]:
  "m = m' \<Longrightarrow> (\<And>a. m' = Inr a \<Longrightarrow> f a = f' a) \<Longrightarrow> sum_bind m f = sum_bind m' f'"
  by (cases m') simp_all

definition isdigit :: "int \<Rightarrow> bool" where "isdigit c \<longleftrightarrow> 48 \<le> c \<and> c \<le> 57"
definition islower :: "int \<Rightarrow> bool" where "islower c \<longleftrightarrow> 97 \<le> c \<and> c \<le> 122"
definition isupper :: "int \<Rightarrow> bool" where "isupper c \<longleftrightarrow> 65 \<le> c \<and> c \<le> 90"
definition isalpha :: "int \<Rightarrow> bool" where "isalpha c \<longleftrightarrow> islower c \<or> isupper c"
definition isalnum :: "int \<Rightarrow> bool" where "isalnum c \<longleftrightarrow> isalpha c \<or> isdigit c"
definition isspace :: "int \<Rightarrow> bool" where "isspace c \<longleftrightarrow> c = 32 \<or> 9 \<le> c \<and> c \<le> 13"
definition iscntrl :: "int \<Rightarrow> bool" where "iscntrl c \<longleftrightarrow> 0 \<le> c \<and> c \<le> 31 \<or> c = 127"
definition ispunct :: "int \<Rightarrow> bool" where "ispunct c \<longleftrightarrow> 33 \<le> c \<and> c \<le> 126 \<and> \<not> isalnum c"
definition isxdigit :: "int \<Rightarrow> bool" where
  "isxdigit c \<longleftrightarrow> isdigit c \<or> 97 \<le> c \<and> c \<le> 102 \<or> 65 \<le> c \<and> c \<le> 70"
definition tolower :: "int \<Rightarrow> int" where "tolower c = (if isupper c then c + 32 else c)"
definition toupper :: "int \<Rightarrow> int" where "toupper c = (if islower c then c - 32 else c)"

lemmas ctype_defs = isdigit_def islower_def isupper_def isalpha_def isalnum_def isspace_def iscntrl_def ispunct_def isxdigit_def

text \<open>The byte at a position of a Lua string; after the last one there is a zero, and behind it foreign memory.\<close>

definition chr :: "bytes \<Rightarrow> nat \<Rightarrow> rt_error + byte" where
  "chr b i = (if i < length b then Inr (b ! i) else if i = length b then Inr 0 else Inl Crash)"

lemma chr_less: "i < length b \<Longrightarrow> chr b i = Inr (b ! i)"
  by (simp add: chr_def)

lemma chr_end [simp]: "chr b (length b) = Inr 0"
  by (simp add: chr_def)

lemma chr_ok: "i \<le> length b \<Longrightarrow> \<exists>c. chr b i = Inr c"
  by (simp add: chr_def)

lemma chr_bound: "chr b i = Inr c \<Longrightarrow> i \<le> length b"
  by (simp add: chr_def split: if_splits)

lemma chr_nonzero: "chr b i = Inr c \<Longrightarrow> c \<noteq> 0 \<Longrightarrow> i < length b"
  by (auto simp: chr_def split: if_splits)

end
