(* ===== verification/Lua_Vm.thy ===== *)
theory Lua_Vm
  imports Lua_Api_Run Lua_Ctype
begin

text \<open>
  More of the virtual machine (\<^verbatim>\<open>lvm.c\<close>): assignment with tag methods, equality, the order \<open>\<le>\<close> and concatenation; and the API and
  auxiliary functions built on them (\<^verbatim>\<open>lapi.c\<close>, \<^verbatim>\<open>lauxlib.c\<close>).
\<close>

subsection \<open>Assignment and comparison\<close>

definition callTM :: "program \<Rightarrow> TValue \<Rightarrow> TValue \<Rightarrow> TValue \<Rightarrow> TValue \<Rightarrow> unit lua" where
  "callTM prog f p1 p2 p3 =
     lbind (lget (\<lambda>s. length (l_stack s))) (\<lambda>n.
     lseq [push f, push p1, push p2, push p3, luaD_call prog n 0])"

primrec settable_loop :: "program \<Rightarrow> nat \<Rightarrow> TValue \<Rightarrow> TValue \<Rightarrow> TValue \<Rightarrow> unit lua" where
  "settable_loop prog 0 t key val = luaG_runerror (str ''loop in settable'') []"
| "settable_loop prog (Suc n) t key val =
     (let go = (\<lambda>tm. if is_function tm then callTM prog tm t key val else settable_loop prog n tm key val) in
      case t of
        LTable a \<Rightarrow>
          lbind (table_at t) (\<lambda>(_, h).
          lbind (lift_rt (luaH_set h key)) (\<lambda>(h', oldval).
          lbind (set_table a h') (\<lambda>_.
            let assign = set_table a ((slot_set h' oldval val)\<lparr>t_flags := 0\<rparr>) in
            if \<not> ttisnil (slot_value h' (Some oldval)) then assign
            else lbind (fasttm (t_metatable h) TM_NEWINDEX) (\<lambda>tm.
              case tm of None \<Rightarrow> lbind (table_at t) (\<lambda>(_, h2). set_table a ((slot_set h2 oldval val)\<lparr>t_flags := 0\<rparr>))
              | Some tm \<Rightarrow> go tm))))
      | _ \<Rightarrow> lbind (luaT_gettmbyobj t TM_NEWINDEX) (\<lambda>tm.
          if ttisnil tm then luaG_typeerror t (str ''index'') else go tm))"

definition luaV_settable :: "program \<Rightarrow> TValue \<Rightarrow> TValue \<Rightarrow> TValue \<Rightarrow> unit lua" where
  "luaV_settable prog t key val = settable_loop prog MAXTAGLOOP t key val"

text \<open>\<open>None\<close> is the result 0, no tag method.\<close>

definition call_binTM :: "program \<Rightarrow> TValue \<Rightarrow> TValue \<Rightarrow> TMS \<Rightarrow> TValue option lua" where
  "call_binTM prog p1 p2 e =
     lbind (luaT_gettmbyobj p1 e) (\<lambda>tm1.
     lbind (if ttisnil tm1 then luaT_gettmbyobj p2 e else lret tm1) (\<lambda>tm.
       if ttisnil tm then lret None
       else lbind (callTMres prog tm p1 p2) (\<lambda>r. lret (Some r))))"

definition get_compTM :: "addr option \<Rightarrow> addr option \<Rightarrow> TMS \<Rightarrow> TValue option lua" where
  "get_compTM mt1 mt2 e =
     lbind (fasttm mt1 e) (\<lambda>r1. case r1 of None \<Rightarrow> lret None
     | Some tm1 \<Rightarrow>
         if mt1 = mt2 then lret (Some tm1)
         else lbind (fasttm mt2 e) (\<lambda>r2. case r2 of None \<Rightarrow> lret None
         | Some tm2 \<Rightarrow> lret (if luaO_rawequalObj tm1 tm2 then Some tm1 else None)))"

definition luaV_equalval :: "program \<Rightarrow> TValue \<Rightarrow> TValue \<Rightarrow> bool lua" where
  "luaV_equalval prog t1 t2 =
     (let finish = (\<lambda>tm. case tm of None \<Rightarrow> lret False
           | Some f \<Rightarrow> lbind (callTMres prog f t1 t2) (\<lambda>r. lret (\<not> l_isfalse r))) in
      case (t1, t2) of
        (LUserdata a, LUserdata b) \<Rightarrow>
          if a = b then lret True
          else lbind (lget (\<lambda>s. (l_umt s a, l_umt s b))) (\<lambda>(m1, m2). lbind (get_compTM m1 m2 TM_EQ) finish)
      | (LTable a, LTable b) \<Rightarrow>
          if a = b then lret True
          else lbind (table_at t1) (\<lambda>(_, h1). lbind (table_at t2) (\<lambda>(_, h2).
            lbind (get_compTM (t_metatable h1) (t_metatable h2) TM_EQ) finish))
      | _ \<Rightarrow> lret (luaO_rawequalObj t1 t2))"

definition lessequal :: "program \<Rightarrow> TValue \<Rightarrow> TValue \<Rightarrow> bool lua" where
  "lessequal prog l r =
     (if ttype l \<noteq> ttype r then luaG_ordererror l r
      else case (l, r) of
        (LNumber a, LNumber b) \<Rightarrow> lret (luai_numle a b)
      | (LString a, LString b) \<Rightarrow> lret (l_strcmp a b \<le> 0)
      | _ \<Rightarrow> lbind (call_orderTM prog l r TM_LE) (\<lambda>res.
          case res of Some b \<Rightarrow> lret b
          | None \<Rightarrow> lbind (call_orderTM prog r l TM_LT) (\<lambda>res2.
              case res2 of Some b \<Rightarrow> lret (\<not> b) | None \<Rightarrow> luaG_ordererror l r)))"

subsection \<open>Concatenation\<close>

fun is_string :: "TValue \<Rightarrow> bool" where
  "is_string (LString b) = True" | "is_string _ = False"

fun is_number :: "TValue \<Rightarrow> bool" where
  "is_number (LNumber n) = True" | "is_number _ = False"

definition luaG_concaterror :: "TValue \<Rightarrow> TValue \<Rightarrow> 'a lua" where
  "luaG_concaterror p1 p2 = luaG_typeerror (if is_string p1 \<or> is_number p1 then p2 else p1) (str ''concatenate'')"

text \<open>\<^verbatim>\<open>tostring\<close> on a stack slot: a number is replaced by its text.\<close>

definition tostring :: "nat \<Rightarrow> bool lua" where
  "tostring p =
     lbind (lget (\<lambda>s. l_stack s ! p)) (\<lambda>v.
       if is_string v then lret True
       else case luaV_tostring v of None \<Rightarrow> lret False
         | Some r \<Rightarrow> lbind (lmodify (\<lambda>s. s\<lparr>l_stack := (l_stack s)[p := r]\<rparr>)) (\<lambda>_. lret True))"

definition MAX_SIZET :: nat where "MAX_SIZET = 2 ^ 64 - 3"

fun str_of :: "TValue \<Rightarrow> bytes" where
  "str_of (LString b) = b" | "str_of _ = []"

text \<open>The loop that takes as many strings as there are, downwards from slot \<open>lst\<close>, of at most \<open>n + k\<close> in all.\<close>

primrec concat_gather :: "nat \<Rightarrow> nat \<Rightarrow> nat \<Rightarrow> nat \<Rightarrow> nat lua" where
  "concat_gather 0 lst n len = lret n"
| "concat_gather (Suc k) lst n len =
     lbind (tostring (lst - n)) (\<lambda>ok.
       if \<not> ok then lret n
       else lbind (lget (\<lambda>s. length (str_of (l_stack s ! (lst - n))))) (\<lambda>l.
         if l \<ge> MAX_SIZET - len then luaG_runerror (str ''string length overflow'') []
         else concat_gather k lst (n + 1) (len + l)))"

text \<open>One round of the loop: it returns how many elements it handled.\<close>

definition concat_step :: "program \<Rightarrow> nat \<Rightarrow> nat \<Rightarrow> nat lua" where
  "concat_step prog tot lst =
     lbind (lget (\<lambda>s. l_stack s ! (lst - 1))) (\<lambda>a.
     lbind (if is_string a \<or> is_number a then tostring lst else lret False) (\<lambda>ok.
     lbind (lget (\<lambda>s. l_stack s ! lst)) (\<lambda>b.
       if \<not> ok then
         lbind (call_binTM prog a b TM_CONCAT) (\<lambda>r. case r of
             None \<Rightarrow> luaG_concaterror a b
           | Some v \<Rightarrow> lbind (lmodify (\<lambda>s. s\<lparr>l_stack := (l_stack s)[lst - 1 := v]\<rparr>)) (\<lambda>_. lret 2))
       else if length (str_of b) = 0 then lbind (tostring (lst - 1)) (\<lambda>_. lret 2)
       else
         lbind (concat_gather (tot - 1) lst 1 (length (str_of b))) (\<lambda>n.
         lbind (lmodify (\<lambda>s. s\<lparr>l_stack := (l_stack s)[lst + 1 - n := LString (concat (map (\<lambda>i. str_of (l_stack s ! i)) [lst + 1 - n..<lst + 1]))]\<rparr>)) (\<lambda>_.
         lret n)))))"

primrec concat_loop :: "program \<Rightarrow> nat \<Rightarrow> nat \<Rightarrow> nat \<Rightarrow> unit lua" where
  "concat_loop prog 0 tot lst = lthrow NoFuel"
| "concat_loop prog (Suc f) tot lst =
     lbind (concat_step prog tot lst) (\<lambda>n.
       if tot - (n - 1) > 1 then concat_loop prog f (tot - (n - 1)) (lst - (n - 1)) else lret ())"

definition luaV_concat :: "program \<Rightarrow> nat \<Rightarrow> nat \<Rightarrow> unit lua" where
  "luaV_concat prog tot lst = concat_loop prog tot tot lst"

subsection \<open>More of the API\<close>

definition lua_concat :: "program \<Rightarrow> nat \<Rightarrow> unit lua" where
  "lua_concat prog n =
     lbind (lget (\<lambda>s. length (l_stack s))) (\<lambda>top.
       if n > top then lundef
       else if n \<ge> 2 then lbind (luaV_concat prog n (top - 1)) (\<lambda>_. drop_top (n - 1))
       else if n = 0 then push (LString [])
       else lret ())"

definition lua_isstring :: "int \<Rightarrow> bool lua" where
  "lua_isstring idx = lbind (lua_type idx) (\<lambda>t. lret (t = 4 \<or> t = 3))"

definition lua_equal :: "program \<Rightarrow> int \<Rightarrow> int \<Rightarrow> bool lua" where
  "lua_equal prog i1 i2 = (\<lambda>s. if index2adr s i1 = ANone \<or> index2adr s i2 = ANone then (Inr False, s)
     else lbind (lua_value i1) (\<lambda>a. lbind (lua_value i2) (\<lambda>b.
       if ttype a = ttype b then luaV_equalval prog a b else lret False)) s)"

definition lua_gettable :: "program \<Rightarrow> int \<Rightarrow> unit lua" where
  "lua_gettable prog idx =
     lbind (lua_value idx) (\<lambda>t. lbind (lua_value (- 1)) (\<lambda>k.
     lbind (luaV_gettable prog t k) (\<lambda>v. lseq [drop_top 1, push v])))"

definition lua_settable :: "program \<Rightarrow> int \<Rightarrow> unit lua" where
  "lua_settable prog idx =
     lbind (lua_value idx) (\<lambda>t. lbind (lua_value (- 2)) (\<lambda>k. lbind (lua_value (- 1)) (\<lambda>v.
     lseq [luaV_settable prog t k v, drop_top 2])))"

definition lua_setfield :: "program \<Rightarrow> int \<Rightarrow> bytes \<Rightarrow> unit lua" where
  "lua_setfield prog idx k =
     lbind (lua_value idx) (\<lambda>t. lbind (lua_value (- 1)) (\<lambda>v.
     lseq [luaV_settable prog t (LString (c_str k)) v, drop_top 1]))"

definition lua_getmetatable :: "int \<Rightarrow> bool lua" where
  "lua_getmetatable idx =
     lbind (lua_value idx) (\<lambda>v.
     lbind (case v of LTable a \<Rightarrow> lbind (table_at v) (\<lambda>(_, t). lret (t_metatable t))
       | LUserdata a \<Rightarrow> lget (\<lambda>s. l_umt s a) | _ \<Rightarrow> lget (\<lambda>s. l_mt s (ttype v))) (\<lambda>mt.
       case mt of None \<Rightarrow> lret False | Some m \<Rightarrow> lbind (push (LTable m)) (\<lambda>_. lret True)))"

text \<open>Of a slot or an upvalue of the running function.\<close>

definition lua_replace :: "int \<Rightarrow> unit lua" where
  "lua_replace idx =
     lbind (lua_value (- 1)) (\<lambda>v.
     lbind (\<lambda>s. case index2adr s idx of
         ASlot p \<Rightarrow> (Inr (), s\<lparr>l_stack := (l_stack s)[p := v]\<rparr>)
       | AUpvalue a i \<Rightarrow> (case l_closures s a of None \<Rightarrow> lundef s
           | Some c \<Rightarrow> (Inr (), s\<lparr>l_closures := (l_closures s)(a \<mapsto> c\<lparr>c_upvalue := (c_upvalue c)[i := v]\<rparr>)\<rparr>))
       | _ \<Rightarrow> lundef s) (\<lambda>_. drop_top 1))"

definition lua_upvalueindex :: "nat \<Rightarrow> int" where
  "lua_upvalueindex i = LUA_GLOBALSINDEX - int i"

definition luaL_checknumber :: "int \<Rightarrow> lua_Number lua" where
  "luaL_checknumber narg = lbind (lua_tonumber narg) (\<lambda>d.
     if luai_numeq d 0 then lbind (lua_isnumber narg) (\<lambda>b. if \<not> b then tag_error narg 3 else lret d) else lret d)"

definition luaL_optinteger :: "int \<Rightarrow> int \<Rightarrow> int lua" where
  "luaL_optinteger narg def = lbind (lua_isnoneornil narg) (\<lambda>b. if b then lret def else luaL_checkinteger narg)"

definition luaL_optint :: "int \<Rightarrow> int \<Rightarrow> int lua" where
  "luaL_optint narg def = lbind (luaL_optinteger narg def) (\<lambda>d. lret (sint (word_of_int d :: 32 word)))"

definition luaL_optlstring :: "int \<Rightarrow> bytes \<Rightarrow> bytes lua" where
  "luaL_optlstring narg def = lbind (lua_isnoneornil narg) (\<lambda>b. if b then lret (c_str def) else luaL_checklstring narg)"

definition luaL_argcheck :: "bool \<Rightarrow> int \<Rightarrow> bytes \<Rightarrow> unit lua" where
  "luaL_argcheck cond numarg extramsg = (if cond then lret () else luaL_argerror numarg extramsg)"

definition luaL_getmetafield :: "int \<Rightarrow> bytes \<Rightarrow> bool lua" where
  "luaL_getmetafield obj event =
     lbind (lua_getmetatable obj) (\<lambda>b.
       if \<not> b then lret False
       else lbind (lseq [lua_pushstring event, lua_rawget (- 2)]) (\<lambda>_.
         lbind (lua_isnil (- 1)) (\<lambda>n.
           if n then lbind (lua_pop 2) (\<lambda>_. lret False) else lbind (lua_remove (- 2)) (\<lambda>_. lret True))))"

definition abs_index :: "int \<Rightarrow> int lua" where
  "abs_index i = lbind lua_gettop (\<lambda>top. lret (if i > 0 \<or> i \<le> LUA_REGISTRYINDEX then i else top + i + 1))"

definition luaL_callmeta :: "program \<Rightarrow> int \<Rightarrow> bytes \<Rightarrow> bool lua" where
  "luaL_callmeta prog obj0 event =
     lbind (abs_index obj0) (\<lambda>obj.
     lbind (luaL_getmetafield obj event) (\<lambda>b.
       if \<not> b then lret False
       else lbind (lseq [lua_pushvalue obj, lua_call prog 1 1]) (\<lambda>_. lret True)))"

subsection \<open>References\<close>

definition FREELIST_REF :: int where "FREELIST_REF = 0"
definition LUA_REFNIL :: int where "LUA_REFNIL = - 1"

definition luaL_ref :: "int \<Rightarrow> int lua" where
  "luaL_ref t0 =
     lbind (abs_index t0) (\<lambda>t.
     lbind (lua_isnil (- 1)) (\<lambda>n.
       if n then lbind (lua_pop 1) (\<lambda>_. lret LUA_REFNIL)
       else
         lbind (lua_rawgeti t FREELIST_REF) (\<lambda>_.
         lbind (lua_tointeger (- 1)) (\<lambda>r.
         lbind (lua_pop 1) (\<lambda>_.
         let ref = sint (word_of_int r :: 32 word) in
         lbind (if ref \<noteq> 0 then lbind (lseq [lua_rawgeti t ref, lua_rawseti t FREELIST_REF]) (\<lambda>_. lret ref)
                else lbind (lua_objlen t) (\<lambda>l. lret (sint (of_nat l :: 32 word) + 1))) (\<lambda>ref.
         lbind (lua_rawseti t ref) (\<lambda>_. lret ref)))))))"

definition luaL_unref :: "int \<Rightarrow> int \<Rightarrow> unit lua" where
  "luaL_unref t0 ref =
     (if ref \<ge> 0 then
        lbind (abs_index t0) (\<lambda>t.
        lseq [lua_rawgeti t FREELIST_REF, lua_rawseti t ref, lua_pushinteger ref, lua_rawseti t FREELIST_REF])
      else lret ())"

end
