(* ===== verification/Lua_Buffer.thy ===== *)
theory Lua_Buffer
  imports Lua_Vm
begin

text \<open>
  The string buffers of the auxiliary library (\<^verbatim>\<open>lauxlib.c\<close>). A buffer keeps its last bytes in an array and the pieces before
  them as strings on the Lua stack; \<open>b_buf\<close> is the filled part of the array, \<open>b_lvl\<close> the number of strings. The strings are merged so that they
  stay few. \<open>buffered\<close> is the abstraction: the bytes written so far.
\<close>

definition LUAL_BUFFERSIZE :: nat where "LUAL_BUFFERSIZE = 8192"
definition LIMIT :: nat where "LIMIT = 10"

record luaL_Buffer =
  b_buf :: bytes
  b_lvl :: nat

definition luaL_buffinit :: luaL_Buffer where
  "luaL_buffinit = \<lparr>b_buf = [], b_lvl = 0\<rparr>"

definition bufffree :: "luaL_Buffer \<Rightarrow> nat" where
  "bufffree B = LUAL_BUFFERSIZE - length (b_buf B)"

text \<open>The result says whether a string was pushed.\<close>

definition emptybuffer :: "luaL_Buffer \<Rightarrow> (bool \<times> luaL_Buffer) lua" where
  "emptybuffer B =
     (if length (b_buf B) = 0 then lret (False, B)
      else lbind (lua_pushlstring (b_buf B)) (\<lambda>_. lret (True, \<lparr>b_buf = [], b_lvl = b_lvl B + 1\<rparr>)))"

text \<open>The loop that counts how many of the topmost strings to merge.\<close>

primrec toget_loop :: "nat \<Rightarrow> nat \<Rightarrow> nat \<Rightarrow> nat \<Rightarrow> nat lua" where
  "toget_loop 0 lvl toget toplen = lthrow NoFuel"
| "toget_loop (Suc f) lvl toget toplen =
     lbind (lua_objlen (- (int toget + 1))) (\<lambda>l.
       if int lvl - int toget + 1 \<ge> int LIMIT \<or> toplen > l then
         (if toget + 1 < lvl then toget_loop f lvl (toget + 1) (toplen + l) else lret (toget + 1))
       else lret toget)"

definition adjuststack :: "program \<Rightarrow> luaL_Buffer \<Rightarrow> luaL_Buffer lua" where
  "adjuststack prog B =
     (if b_lvl B > 1 then
        lbind (lua_objlen (- 1)) (\<lambda>toplen.
        lbind (toget_loop (b_lvl B) (b_lvl B) 1 toplen) (\<lambda>toget.
        lbind (lua_concat prog toget) (\<lambda>_. lret (B\<lparr>b_lvl := b_lvl B - toget + 1\<rparr>))))
      else lret B)"

definition luaL_prepbuffer :: "program \<Rightarrow> luaL_Buffer \<Rightarrow> luaL_Buffer lua" where
  "luaL_prepbuffer prog B = lbind (emptybuffer B) (\<lambda>(pushed, B1). if pushed then adjuststack prog B1 else lret B1)"

definition luaL_addchar :: "program \<Rightarrow> byte \<Rightarrow> luaL_Buffer \<Rightarrow> luaL_Buffer lua" where
  "luaL_addchar prog c B =
     lbind (if length (b_buf B) < LUAL_BUFFERSIZE then lret B else luaL_prepbuffer prog B) (\<lambda>B1.
     lret (B1\<lparr>b_buf := b_buf B1 @ [c]\<rparr>))"

primrec luaL_addlstring :: "program \<Rightarrow> bytes \<Rightarrow> luaL_Buffer \<Rightarrow> luaL_Buffer lua" where
  "luaL_addlstring prog [] B = lret B"
| "luaL_addlstring prog (c # s) B = lbind (luaL_addchar prog c B) (luaL_addlstring prog s)"

definition luaL_addstring :: "program \<Rightarrow> bytes \<Rightarrow> luaL_Buffer \<Rightarrow> luaL_Buffer lua" where
  "luaL_addstring prog s B = luaL_addlstring prog (c_str s) B"

definition luaL_pushresult :: "program \<Rightarrow> luaL_Buffer \<Rightarrow> unit lua" where
  "luaL_pushresult prog B = lbind (emptybuffer B) (\<lambda>(_, B1). lua_concat prog (b_lvl B1))"

definition luaL_addvalue :: "program \<Rightarrow> luaL_Buffer \<Rightarrow> luaL_Buffer lua" where
  "luaL_addvalue prog B =
     lbind (lua_tolstring (- 1)) (\<lambda>r. case r of None \<Rightarrow> lundef
     | Some s \<Rightarrow>
         if length s \<le> bufffree B then lbind (lua_pop 1) (\<lambda>_. lret (B\<lparr>b_buf := b_buf B @ s\<rparr>))
         else lbind (emptybuffer B) (\<lambda>(pushed, B1).
           lbind (if pushed then lua_insert (- 2) else lret ()) (\<lambda>_.
           adjuststack prog (B1\<lparr>b_lvl := b_lvl B1 + 1\<rparr>))))"

subsection \<open>The contents of a buffer\<close>

definition holds :: "lua_State \<Rightarrow> TValue list \<Rightarrow> lua_State" where
  "holds s xs = s\<lparr>l_stack := xs\<rparr>"

lemma holds_stack [simp]: "l_stack (holds s xs) = xs" "(holds s xs)\<lparr>l_stack := ys\<rparr> = holds s ys" "holds (holds s xs) ys = holds s ys"
  by (simp_all add: holds_def)

text \<open>The stack is that of \<open>s0\<close> and the strings of the buffer, fewer than \<open>LIMIT\<close> of them; nothing else has changed since \<open>s0\<close>.\<close>

definition buffered :: "lua_State \<Rightarrow> luaL_Buffer \<Rightarrow> lua_State \<Rightarrow> bytes \<Rightarrow> bool" where
  "buffered s0 B s bs \<longleftrightarrow> (\<exists>ps. s = holds s0 (l_stack s0 @ map LString ps) \<and> length ps = b_lvl B \<and> b_lvl B < LIMIT \<and>
     length (b_buf B) \<le> LUAL_BUFFERSIZE \<and> bs = concat ps @ b_buf B)"

subsection \<open>Concatenation of strings\<close>

lemma nth_mid: "i < length ps \<Longrightarrow> (xs @ map LString ps @ rs) ! (length xs + i) = LString (ps ! i)"
  by (simp add: nth_append)

lemma tostring_string: "l_stack s ! p = LString b \<Longrightarrow> tostring p s = (Inr True, s)"
  by (simp add: tostring_def)

lemma gather_strings:
  assumes st: "l_stack s = xs @ map LString ps @ rs" and n: "n + k = length ps" and small: "length (concat ps) < MAX_SIZET"
    and len: "len = length (concat (drop (length ps - n) ps))" and l: "lst + 1 = length xs + length ps"
  shows "concat_gather k lst n len s = (Inr (length ps), s)"
  using n len
proof (induction k arbitrary: n len)
  case 0
  then show ?case by simp
next
  case (Suc k)
  let ?i = "length ps - Suc n"
  have i: "?i < length ps" "length ps - n = Suc ?i" using Suc.prems(1) by simp_all
  have idx: "lst - n = length xs + ?i" using i l by simp
  have at: "l_stack s ! (lst - n) = LString (ps ! ?i)" unfolding idx st by (rule nth_mid [OF i(1)])
  have d: "drop ?i ps = ps ! ?i # drop (length ps - n) ps" unfolding i(2) using i(1) by (rule Cons_nth_drop_Suc [symmetric])
  have "length (concat (drop ?i ps)) \<le> length (concat ps)"
    by (metis append_take_drop_id concat_append length_append le_add2)
  then have b: "length (ps ! ?i) < MAX_SIZET - len" using small d Suc.prems(2) by simp
  have "concat_gather k lst (Suc n) (len + length (ps ! ?i)) s = (Inr (length ps), s)"
    by (rule Suc.IH) (use Suc.prems d in \<open>simp_all add: add.commute\<close>)
  then show ?case using at b by (simp add: tostring_string)
qed

lemma set_mid: "ps \<noteq> [] \<Longrightarrow> (xs @ map LString ps @ rs)[length xs := v] = xs @ v # map LString (tl ps) @ rs"
  by (cases ps) simp_all

text \<open>A round merges everything, unless the last string is empty: then it drops that one.\<close>

lemma concat_step_strings:
  assumes n: "2 \<le> length ps" and small: "length (concat ps) < MAX_SIZET" and l: "lst + 1 = length xs + length ps"
  shows "concat_step prog (length ps) lst (holds s (xs @ map LString ps @ rs)) =
    (if last ps = [] then (Inr 2, holds s (xs @ map LString ps @ rs))
     else (Inr (length ps), holds s (xs @ LString (concat ps) # map LString (tl ps) @ rs)))"
proof -
  let ?st = "xs @ map LString ps @ rs" and ?m = "length ps"
  have i: "lst = length xs + (?m - 1)" "lst - 1 = length xs + (?m - 2)" using l n by simp_all
  have ne: "ps \<noteq> []" using n by auto
  have b: "?st ! lst = LString (last ps)" unfolding i(1) using n ne by (subst nth_mid) (simp_all add: last_conv_nth)
  have a: "?st ! (lst - 1) = LString (ps ! (?m - 2))" unfolding i(2) by (rule nth_mid) (use n in simp)
  have t: "tostring lst (holds s ?st) = (Inr True, holds s ?st)" "tostring (lst - 1) (holds s ?st) = (Inr True, holds s ?st)"
    using a b by (simp_all add: tostring_string)
  have "drop (?m - 1) ps = [last ps]" using ne by (metis append_butlast_last_id append_eq_conv_conj length_butlast)
  then have g: "concat_gather (?m - 1) lst 1 (length (last ps)) (holds s ?st) = (Inr ?m, holds s ?st)"
    by (intro gather_strings [OF _ _ small _ l]) (use n in simp_all)
  have r: "map (\<lambda>i. str_of (?st ! i)) [length xs..<length xs + ?m] = ps"
    by (rule nth_equalityI) (simp_all add: nth_append)
  have idx: "Suc lst - ?m = length xs" "[length xs..<Suc lst] = [length xs..<length xs + ?m]" using l by simp_all
  show ?thesis
  proof (cases "last ps = []")
    case True
    then show ?thesis using a b t by (simp add: concat_step_def)
  next
    case False
    then show ?thesis using a b t g set_mid [OF ne, of xs rs]
      by (simp add: concat_step_def idx r del: upt_Suc)
  qed
qed

lemma concat_loop_strings:
  "2 \<le> length ps \<Longrightarrow> length (concat ps) < MAX_SIZET \<Longrightarrow> lst + 1 = length xs + length ps \<Longrightarrow> length ps \<le> f \<Longrightarrow>
    \<exists>rs'. concat_loop prog f (length ps) lst (holds s (xs @ map LString ps @ rs)) = (Inr (), holds s (xs @ LString (concat ps) # rs')) \<and>
      length rs' + 1 = length rs + length ps"
proof (induction f arbitrary: ps lst rs)
  case 0
  then show ?case by simp
next
  case (Suc f)
  note step = concat_step_strings [OF Suc.prems(1,2,3), where prog = prog and s = s and rs = rs]
  have ne: "ps \<noteq> []" using Suc.prems(1) by auto
  show ?case
  proof (cases "last ps = []")
    case False
    have one: "length ps - (length ps - Suc 0) = Suc 0" using Suc.prems(1) by simp
    from False step show ?thesis using ne one by (intro exI [of _ "map LString (tl ps) @ rs"]) simp
  next
    case e: True
    let ?qs = "butlast ps"
    have ps: "ps = ?qs @ [[]]" using e ne append_butlast_last_id [of ps] by simp
    have c: "concat ps = concat ?qs" by (subst ps) simp
    have q: "length ?qs = length ps - 1" by simp
    show ?thesis
    proof (cases "length ps = 2")
      case True
      then have "length ?qs = 1" by simp
      then obtain a where a: "?qs = [a]" by (metis One_nat_def length_0_conv length_Suc_conv)
      then have "ps = [a, []]" using ps by simp
      then show ?thesis using step True by (intro exI [of _ "LString [] # rs"]) simp
    next
      case False
      have "\<exists>rs'. concat_loop prog f (length ?qs) (lst - 1) (holds s (xs @ map LString ?qs @ LString [] # rs)) =
        (Inr (), holds s (xs @ LString (concat ?qs) # rs')) \<and> length rs' + 1 = length (LString [] # rs) + length ?qs"
        by (rule Suc.IH) (use Suc.prems False c in auto)
      moreover have "xs @ map LString ?qs @ LString [] # rs = xs @ map LString ps @ rs" by (subst (2) ps) simp
      ultimately show ?thesis using step e False Suc.prems(1) c by auto
    qed
  qed
qed

lemma lua_concat_strings:
  assumes st: "l_stack s = xs @ map LString ps" and n: "1 \<le> length ps" and small: "length (concat ps) < MAX_SIZET"
  shows "lua_concat prog (length ps) s = (Inr (), holds s (xs @ [LString (concat ps)]))"
proof (cases "length ps = 1")
  case True
  then obtain a where "ps = [a]" by (cases ps) auto
  then show ?thesis using st by (simp add: lua_concat_def holds_def)
next
  case False
  have s: "s = holds s (xs @ map LString ps @ [])" using st by (simp add: holds_def)
  have n2: "2 \<le> length ps" using n False by simp
  have l: "length (l_stack s) - 1 + 1 = length xs + length ps" using n st by simp
  obtain rs' where r: "concat_loop prog (length ps) (length ps) (length (l_stack s) - 1) s = (Inr (), holds s (xs @ LString (concat ps) # rs'))"
    "length rs' + 1 = length ps"
    using concat_loop_strings [OF n2 small l order_refl, of prog s "[]", folded s] by auto
  then show ?thesis using n2 st by (simp add: lua_concat_def luaV_concat_def drop_top_def)
qed

subsection \<open>Merging\<close>

lemma objlen_string: "rev (l_stack s) ! n = LString b \<Longrightarrow> n < length (l_stack s) \<Longrightarrow> n < 9999 \<Longrightarrow> lua_objlen (- (int n + 1)) s = (Inr (length b), s)"
  by (simp add: lua_objlen_def lua_value_top nat_add_distrib)

lemma toget_bounds:
  assumes st: "l_stack s = xs @ map LString ps" and lvl: "lvl = length ps" "lvl < 9000"
  shows "1 \<le> toget \<Longrightarrow> toget < lvl \<Longrightarrow> lvl - toget \<le> f \<Longrightarrow>
    \<exists>k. toget_loop f lvl toget toplen s = (Inr k, s) \<and> toget \<le> k \<and> k \<le> lvl \<and> lvl - k + 1 < LIMIT"
proof (induction f arbitrary: toget toplen)
  case 0
  then show ?case by simp
next
  case (Suc f)
  have "rev (l_stack s) ! toget = LString (ps ! (lvl - Suc toget))"
    using Suc.prems lvl by (simp add: st rev_nth nth_append rev_map)
  then have o: "lua_objlen (- (int toget + 1)) s = (Inr (length (ps ! (lvl - Suc toget))), s)"
    using Suc.prems lvl st by (intro objlen_string) simp_all
  let ?l = "length (ps ! (lvl - Suc toget))"
  show ?case
  proof (cases "int lvl - int toget + 1 \<ge> int LIMIT \<or> toplen > ?l")
    case True
    show ?thesis
    proof (cases "toget + 1 < lvl")
      case more: True
      then obtain k where k: "toget_loop f lvl (toget + 1) (toplen + ?l) s = (Inr k, s)" "toget + 1 \<le> k" "k \<le> lvl" "lvl - k + 1 < LIMIT"
        using Suc.IH [of "toget + 1" "toplen + ?l"] Suc.prems by fastforce
      then show ?thesis using True more o by (intro exI [of _ k]) simp
    next
      case False
      then have "toget + 1 = lvl" using Suc.prems by simp
      then show ?thesis using True False o by (intro exI [of _ "toget + 1"]) (simp add: LIMIT_def)
    qed
  next
    case False
    then have "lvl - toget + 1 < LIMIT" using Suc.prems by linarith
    then show ?thesis using False o Suc.prems by (intro exI [of _ toget]) simp
  qed
qed

lemma adjuststack_run:
  assumes st: "l_stack s = xs @ map LString ps" and lvl: "b_lvl B = length ps" "length ps < 9000" and small: "length (concat ps) < MAX_SIZET"
  obtains qs where "adjuststack prog B s = (Inr (B\<lparr>b_lvl := length qs\<rparr>), holds s (xs @ map LString qs))" "concat qs = concat ps" "length qs < LIMIT"
proof (cases "length ps > 1")
  case False
  then show ?thesis using that [of ps] st lvl by (simp add: adjuststack_def holds_def LIMIT_def)
next
  case True
  then have ne: "ps \<noteq> []" by auto
  have "rev (l_stack s) ! 0 = LString (last ps)"
    using ne by (simp add: st rev_nth nth_append last_conv_nth)
  then have o: "lua_objlen (- 1) s = (Inr (length (last ps)), s)"
    using objlen_string [of s 0 "last ps"] ne st by simp
  obtain k where k: "toget_loop (length ps) (length ps) 1 (length (last ps)) s = (Inr k, s)" "1 \<le> k" "k \<le> length ps" "length ps - k + 1 < LIMIT"
    using toget_bounds [OF st refl lvl(2), of 1 "length ps"] True by auto
  let ?top = "drop (length ps - k) ps" and ?qs = "take (length ps - k) ps"
  have l: "length ?top = k" using k by simp
  have sp: "l_stack s = (xs @ map LString ?qs) @ map LString ?top"
    unfolding st append_assoc map_append [symmetric] append_take_drop_id ..
  have cc: "concat ?qs @ concat ?top = concat ps" unfolding concat_append [symmetric] append_take_drop_id ..
  have "lua_concat prog (length ?top) s = (Inr (), holds s ((xs @ map LString ?qs) @ [LString (concat ?top)]))"
    by (rule lua_concat_strings [OF sp]) (use k l small arg_cong [OF cc, of length] in simp_all)
  then have "adjuststack prog B s = (Inr (B\<lparr>b_lvl := length (?qs @ [concat ?top])\<rparr>), holds s (xs @ map LString (?qs @ [concat ?top])))"
    using True lvl k l o by (simp add: adjuststack_def)
  then show ?thesis by (rule that) (use cc k in simp_all)
qed

subsection \<open>The operations append to the contents\<close>

lemma buffered_init [simp]: "buffered s luaL_buffinit s []"
  by (simp add: buffered_def luaL_buffinit_def LIMIT_def holds_def)

lemma emptybuffer_run: "emptybuffer B s = (if b_buf B = [] then (Inr (False, B), s)
    else (Inr (True, \<lparr>b_buf = [], b_lvl = b_lvl B + 1\<rparr>), holds s (l_stack s @ [LString (b_buf B)])))"
  by (simp add: emptybuffer_def lua_pushlstring_def push_def holds_def)

lemma prepbuffer_run:
  assumes b: "buffered s0 B s bs" and small: "length bs < MAX_SIZET" and ne: "b_buf B \<noteq> []"
  obtains B' s' where "luaL_prepbuffer prog B s = (Inr B', s')" "buffered s0 B' s' bs" "b_buf B' = []"
proof -
  obtain ps where s: "s = holds s0 (l_stack s0 @ map LString ps)" "length ps = b_lvl B" "b_lvl B < LIMIT" "bs = concat ps @ b_buf B"
    using b by (auto simp: buffered_def)
  let ?ps = "ps @ [b_buf B]" and ?B = "\<lparr>b_buf = [], b_lvl = b_lvl B + 1\<rparr>"
  let ?s = "holds s0 (l_stack s0 @ map LString ?ps)"
  have st: "l_stack ?s = l_stack s0 @ map LString ?ps" by simp
  obtain qs where q: "adjuststack prog ?B ?s = (Inr (?B\<lparr>b_lvl := length qs\<rparr>), holds ?s (l_stack s0 @ map LString qs))" "concat qs = concat ?ps" "length qs < LIMIT"
    by (rule adjuststack_run [OF st, of ?B]) (use s small in \<open>simp_all add: LIMIT_def\<close>)
  have "luaL_prepbuffer prog B s = adjuststack prog ?B ?s"
    using ne s by (simp add: luaL_prepbuffer_def emptybuffer_run)
  moreover have "buffered s0 (?B\<lparr>b_lvl := length qs\<rparr>) (holds s0 (l_stack s0 @ map LString qs)) bs"
    unfolding buffered_def by (intro exI [of _ qs]) (use q s in simp)
  ultimately show ?thesis using q(1)
    by (intro that [of "?B\<lparr>b_lvl := length qs\<rparr>" "holds s0 (l_stack s0 @ map LString qs)"]) simp_all
qed

lemma addchar_run:
  assumes b: "buffered s0 B s bs" and small: "length bs < MAX_SIZET"
  obtains B' s' where "luaL_addchar prog c B s = (Inr B', s')" "buffered s0 B' s' (bs @ [c])"
proof (cases "length (b_buf B) < LUAL_BUFFERSIZE")
  case True
  then show ?thesis using that [of "B\<lparr>b_buf := b_buf B @ [c]\<rparr>" s] b by (auto simp: luaL_addchar_def buffered_def)
next
  case False
  then have "b_buf B \<noteq> []" by (auto simp: LUAL_BUFFERSIZE_def)
  then obtain B' s' where p: "luaL_prepbuffer prog B s = (Inr B', s')" "buffered s0 B' s' bs" "b_buf B' = []"
    by (rule prepbuffer_run [OF b small])
  then have "buffered s0 (B'\<lparr>b_buf := b_buf B' @ [c]\<rparr>) s' (bs @ [c])" by (auto simp: buffered_def LUAL_BUFFERSIZE_def)
  then show ?thesis using False p by (intro that [of "B'\<lparr>b_buf := b_buf B' @ [c]\<rparr>" s']) (simp_all add: luaL_addchar_def)
qed

lemma addlstring_run:
  "buffered s0 B s bs \<Longrightarrow> length bs + length cs \<le> MAX_SIZET \<Longrightarrow>
    \<exists>B' s'. luaL_addlstring prog cs B s = (Inr B', s') \<and> buffered s0 B' s' (bs @ cs)"
proof (induction cs arbitrary: B s bs)
  case Nil
  then show ?case by simp
next
  case (Cons c cs)
  obtain B1 s1 where 1: "luaL_addchar prog c B s = (Inr B1, s1)" "buffered s0 B1 s1 (bs @ [c])"
    by (rule addchar_run [OF Cons.prems(1)]) (use Cons.prems(2) in simp_all)
  then obtain B' s' where "luaL_addlstring prog cs B1 s1 = (Inr B', s')" "buffered s0 B' s' ((bs @ [c]) @ cs)"
    using Cons.IH [OF 1(2)] Cons.prems(2) by auto
  with 1 show ?case by simp
qed

lemma pushresult_run:
  assumes b: "buffered s0 B s bs" and small: "length bs < MAX_SIZET"
  shows "luaL_pushresult prog B s = (Inr (), holds s0 (l_stack s0 @ [LString bs]))"
proof -
  obtain ps where s: "s = holds s0 (l_stack s0 @ map LString ps)" "length ps = b_lvl B" "bs = concat ps @ b_buf B"
    using b by (auto simp: buffered_def)
  show ?thesis
  proof (cases "b_buf B = [] \<and> ps = []")
    case True
    then show ?thesis using s by (simp add: luaL_pushresult_def emptybuffer_run lua_concat_def push_def holds_def)
  next
    case False
    let ?ps = "if b_buf B = [] then ps else ps @ [b_buf B]"
    have "lua_concat prog (length ?ps) (holds s0 (l_stack s0 @ map LString ?ps)) = (Inr (), holds (holds s0 (l_stack s0 @ map LString ?ps)) (l_stack s0 @ [LString (concat ?ps)]))"
      by (rule lua_concat_strings) (use False s small in \<open>auto simp: Suc_le_eq\<close>)
    then show ?thesis using s by (auto simp: luaL_pushresult_def emptybuffer_run split: if_splits)
  qed
qed

text \<open>Adding the value on the top of the stack, a string.\<close>

lemma addvalue_run:
  assumes b: "buffered s0 B s bs" and small: "length bs + length v < MAX_SIZET"
  obtains B' s' where "luaL_addvalue prog B (holds s (l_stack s @ [LString v])) = (Inr B', s')" "buffered s0 B' s' (bs @ v)"
proof -
  obtain ps where s: "s = holds s0 (l_stack s0 @ map LString ps)" "length ps = b_lvl B" "b_lvl B < LIMIT" "length (b_buf B) \<le> LUAL_BUFFERSIZE" "bs = concat ps @ b_buf B"
    using b by (auto simp: buffered_def)
  let ?s = "holds s (l_stack s @ [LString v])"
  have v: "lua_tolstring (- 1) ?s = (Inr (Some v), ?s)" by (simp add: lua_tolstring_def api)
  show ?thesis
  proof (cases "length v \<le> bufffree B")
    case True
    then have "luaL_addvalue prog B ?s = (Inr (B\<lparr>b_buf := b_buf B @ v\<rparr>), s)"
      using v s(1) by (simp add: luaL_addvalue_def api)
    moreover have "buffered s0 (B\<lparr>b_buf := b_buf B @ v\<rparr>) s (bs @ v)" using True s by (auto simp: buffered_def bufffree_def)
    ultimately show ?thesis by (rule that)
  next
    case False
    let ?ps = "(if b_buf B = [] then ps else ps @ [b_buf B]) @ [v]"
    let ?B = "\<lparr>b_buf = [], b_lvl = length ?ps\<rparr>"
    let ?t = "holds s0 (l_stack s0 @ map LString ?ps)"
    have ins: "lua_insert (- 2) (holds s0 (l_stack s0 @ map LString ps @ [LString v, LString b])) = (Inr (), holds s0 (l_stack s0 @ map LString ps @ [LString b, LString v]))" for b
      by (simp add: lua_insert_def api)
    have run: "luaL_addvalue prog B ?s = adjuststack prog ?B ?t"
      using False v s ins by (cases B) (simp add: luaL_addvalue_def emptybuffer_run)
    obtain qs where q: "adjuststack prog ?B ?t = (Inr (?B\<lparr>b_lvl := length qs\<rparr>), holds ?t (l_stack s0 @ map LString qs))" "concat qs = concat ?ps" "length qs < LIMIT"
      by (rule adjuststack_run [of ?t "l_stack s0" ?ps ?B]) (use s small in \<open>simp_all add: LIMIT_def\<close>)
    have "buffered s0 (?B\<lparr>b_lvl := length qs\<rparr>) (holds s0 (l_stack s0 @ map LString qs)) (bs @ v)"
      unfolding buffered_def by (intro exI [of _ qs]) (use q s in simp)
    with run q(1) show ?thesis by (intro that [of "?B\<lparr>b_lvl := length qs\<rparr>" "holds s0 (l_stack s0 @ map LString qs)"]) simp_all
  qed
qed

end
