(* ===== verification/Lua_Pattern.thy ===== *)
theory Lua_Pattern
  imports Lua_Ctype
begin

text \<open>
  Pattern matching of the string library (\<^verbatim>\<open>lstrlib.c\<close>). The subject is \<open>ms_src\<close> of the match state, between \<^verbatim>\<open>src_init\<close> and
  \<^verbatim>\<open>src_end\<close>; positions in it and in the pattern are indices. Both strings end with a zero that is not part of them. The state holds the
  array of captures, which \<^verbatim>\<open>match\<close> changes in place and restores when it backtracks. The message of an error is the
  format that the code passes to \<^verbatim>\<open>luaL_error\<close>. Functions that call \<^verbatim>\<open>match\<close> take it as an argument; the fuel of
  \<open>match\<close> is the length of the pattern, as every call moves on in the pattern.
\<close>

definition LUA_MAXCAPTURES :: nat where "LUA_MAXCAPTURES = 32"
definition CAP_UNFINISHED :: int where "CAP_UNFINISHED = - 1"
definition CAP_POSITION :: int where "CAP_POSITION = - 2"
definition L_ESC :: byte where "L_ESC = 37"

record capture =
  c_init :: nat
  c_len :: int

record MatchState =
  ms_src :: bytes
  ms_level :: nat
  ms_capture :: "capture list"

definition src_end :: "MatchState \<Rightarrow> nat" where "src_end ms = length (ms_src ms)"

definition cap_at :: "MatchState \<Rightarrow> nat \<Rightarrow> rt_error + capture" where
  "cap_at ms l = (if l < length (ms_capture ms) then Inr (ms_capture ms ! l) else Inl Crash)"

definition set_cap :: "MatchState \<Rightarrow> nat \<Rightarrow> capture \<Rightarrow> rt_error + MatchState" where
  "set_cap ms l c = (if l < length (ms_capture ms) then Inr (ms\<lparr>ms_capture := (ms_capture ms)[l := c]\<rparr>) else Inl Crash)"

text \<open>\<open>l\<close> is the digit after the escape.\<close>

definition check_capture :: "MatchState \<Rightarrow> byte \<Rightarrow> rt_error + nat" where
  "check_capture ms l0 =
     (let l = uint l0 - 49 in
      if l < 0 \<or> l \<ge> int (ms_level ms) then Inl (RunError (str ''invalid capture index''))
      else sum_bind (cap_at ms (nat l)) (\<lambda>c.
        if c_len c = CAP_UNFINISHED then Inl (RunError (str ''invalid capture index'')) else Inr (nat l)))"

primrec close_loop :: "MatchState \<Rightarrow> nat \<Rightarrow> rt_error + nat" where
  "close_loop ms 0 = Inl (RunError (str ''invalid pattern capture''))"
| "close_loop ms (Suc level) =
     sum_bind (cap_at ms level) (\<lambda>c. if c_len c = CAP_UNFINISHED then Inr level else close_loop ms level)"

definition capture_to_close :: "MatchState \<Rightarrow> rt_error + nat" where
  "capture_to_close ms = close_loop ms (ms_level ms)"

definition malformed_esc :: bytes where
  "malformed_esc = str ''malformed pattern (ends with '' @ quoted ''%%'' @ str '')''"
definition malformed_set :: bytes where
  "malformed_set = str ''malformed pattern (missing '' @ quoted '']'' @ str '')''"
definition malformed_frontier :: bytes where
  "malformed_frontier = str ''missing '' @ quoted ''['' @ str '' after '' @ quoted ''%%f'' @ str '' in pattern''"

text \<open>The loop that looks for the closing bracket, from the first character of the set.\<close>

function class_loop :: "bytes \<Rightarrow> nat \<Rightarrow> rt_error + nat" where
  "class_loop pat p =
     sum_bind (chr pat p) (\<lambda>c.
       if c = 0 then Inl (RunError malformed_set)
       else sum_bind (if c = L_ESC then sum_bind (chr pat (p + 1)) (\<lambda>d. Inr (if d \<noteq> 0 then p + 2 else p + 1)) else Inr (p + 1)) (\<lambda>q.
         sum_bind (chr pat q) (\<lambda>e. if e \<noteq> 93 then class_loop pat q else Inr (q + 1))))"
  by pat_completeness auto
termination
  by (relation "measure (\<lambda>(pat, p). Suc (length pat) - p)")
    (auto simp: sum_bind_Inr_iff dest: chr_bound split: if_splits)

declare class_loop.simps [simp del]

definition classend :: "bytes \<Rightarrow> nat \<Rightarrow> rt_error + nat" where
  "classend pat p =
     sum_bind (chr pat p) (\<lambda>c.
       if c = L_ESC then
         sum_bind (chr pat (p + 1)) (\<lambda>d. if d = 0 then Inl (RunError malformed_esc) else Inr (p + 2))
       else if c = 91 then
         sum_bind (chr pat (p + 1)) (\<lambda>d. class_loop pat (if d = 94 then p + 2 else p + 1))
       else Inr (p + 1))"

definition match_class :: "byte \<Rightarrow> byte \<Rightarrow> bool" where
  "match_class c0 cl0 =
     (let c = uint c0; cl = uint cl0; l = tolower cl in
      if l = 97 then (if islower cl then isalpha c else \<not> isalpha c)
      else if l = 99 then (if islower cl then iscntrl c else \<not> iscntrl c)
      else if l = 100 then (if islower cl then isdigit c else \<not> isdigit c)
      else if l = 108 then (if islower cl then islower c else \<not> islower c)
      else if l = 112 then (if islower cl then ispunct c else \<not> ispunct c)
      else if l = 115 then (if islower cl then isspace c else \<not> isspace c)
      else if l = 117 then (if islower cl then isupper c else \<not> isupper c)
      else if l = 119 then (if islower cl then isalnum c else \<not> isalnum c)
      else if l = 120 then (if islower cl then isxdigit c else \<not> isxdigit c)
      else if l = 122 then (if islower cl then c = 0 else c \<noteq> 0)
      else cl = c)"

text \<open>The loop over the members of a set, up to its closing bracket at \<open>ec\<close>; \<open>p\<close> is the position before the next member.\<close>

function bracket_loop :: "bytes \<Rightarrow> byte \<Rightarrow> bool \<Rightarrow> nat \<Rightarrow> nat \<Rightarrow> rt_error + bool" where
  "bracket_loop pat c sig p ec =
     (if p + 1 < ec then
        sum_bind (chr pat (p + 1)) (\<lambda>d.
          if d = L_ESC then
            sum_bind (chr pat (p + 2)) (\<lambda>e. if match_class c e then Inr sig else bracket_loop pat c sig (p + 2) ec)
          else sum_bind (chr pat (p + 2)) (\<lambda>e.
            if e = 45 \<and> p + 3 < ec then
              sum_bind (chr pat (p + 3)) (\<lambda>h. if d \<le> c \<and> c \<le> h then Inr sig else bracket_loop pat c sig (p + 3) ec)
            else if d = c then Inr sig else bracket_loop pat c sig (p + 1) ec))
      else Inr (\<not> sig))"
  by pat_completeness auto
termination
  by (relation "measure (\<lambda>(pat, c, sig, p, ec). ec - p)") auto

declare bracket_loop.simps [simp del]

definition matchbracketclass :: "bytes \<Rightarrow> byte \<Rightarrow> nat \<Rightarrow> nat \<Rightarrow> rt_error + bool" where
  "matchbracketclass pat c p ec =
     sum_bind (chr pat (p + 1)) (\<lambda>d. if d = 94 then bracket_loop pat c False (p + 1) ec else bracket_loop pat c True p ec)"

definition singlematch :: "bytes \<Rightarrow> byte \<Rightarrow> nat \<Rightarrow> nat \<Rightarrow> rt_error + bool" where
  "singlematch pat c p ep =
     sum_bind (chr pat p) (\<lambda>d.
       if d = 46 then Inr True
       else if d = L_ESC then sum_bind (chr pat (p + 1)) (\<lambda>e. Inr (match_class c e))
       else if d = 91 then matchbracketclass pat c p (ep - 1)
       else Inr (d = c))"

text \<open>\<open>b\<close> opens and \<open>e\<close> closes; \<open>s\<close> is the position before the next character.\<close>

function balance_loop :: "bytes \<Rightarrow> byte \<Rightarrow> byte \<Rightarrow> nat \<Rightarrow> int \<Rightarrow> nat option" where
  "balance_loop src b e s cont =
     (if s + 1 < length src then
        if src ! (s + 1) = e then
          (if cont - 1 = 0 then Some (s + 2) else balance_loop src b e (s + 1) (cont - 1))
        else if src ! (s + 1) = b then balance_loop src b e (s + 1) (cont + 1)
        else balance_loop src b e (s + 1) cont
      else None)"
  by pat_completeness auto
termination
  by (relation "measure (\<lambda>(src, b, e, s, cont). length src - s)") auto

declare balance_loop.simps [simp del]

definition matchbalance :: "bytes \<Rightarrow> MatchState \<Rightarrow> nat \<Rightarrow> nat \<Rightarrow> rt_error + nat option" where
  "matchbalance pat ms s p =
     sum_bind (chr pat p) (\<lambda>b.
       if b = 0 then Inl (RunError (str ''unbalanced pattern''))
       else sum_bind (chr pat (p + 1)) (\<lambda>e.
         if e = 0 then Inl (RunError (str ''unbalanced pattern''))
         else sum_bind (chr (ms_src ms) s) (\<lambda>c.
           if c \<noteq> b then Inr None else Inr (balance_loop (ms_src ms) b e s 1))))"

type_synonym match_result = "rt_error + nat option \<times> MatchState"
type_synonym match_fun = "MatchState \<Rightarrow> nat \<Rightarrow> nat \<Rightarrow> match_result"

function max_count :: "bytes \<Rightarrow> bytes \<Rightarrow> nat \<Rightarrow> nat \<Rightarrow> nat \<Rightarrow> nat \<Rightarrow> rt_error + nat" where
  "max_count pat src s p ep i =
     (if s + i < length src then
        sum_bind (singlematch pat (src ! (s + i)) p ep) (\<lambda>b. if b then max_count pat src s p ep (i + 1) else Inr i)
      else Inr i)"
  by pat_completeness auto
termination
  by (relation "measure (\<lambda>(pat, src, s, p, ep, i). length src - (s + i))") auto

declare max_count.simps [simp del]

primrec max_try :: "match_fun \<Rightarrow> MatchState \<Rightarrow> nat \<Rightarrow> nat \<Rightarrow> nat \<Rightarrow> match_result" where
  "max_try mt ms s q 0 = mt ms s q"
| "max_try mt ms s q (Suc i) =
     sum_bind (mt ms (s + Suc i) q) (\<lambda>(res, ms1). if res \<noteq> None then Inr (res, ms1) else max_try mt ms1 s q i)"

definition max_expand :: "match_fun \<Rightarrow> bytes \<Rightarrow> MatchState \<Rightarrow> nat \<Rightarrow> nat \<Rightarrow> nat \<Rightarrow> match_result" where
  "max_expand mt pat ms s p ep =
     sum_bind (max_count pat (ms_src ms) s p ep 0) (\<lambda>i. max_try mt ms s (ep + 1) i)"

text \<open>The loop of \<^verbatim>\<open>min_expand\<close>; the number of characters left is its bound.\<close>

primrec min_loop :: "match_fun \<Rightarrow> bytes \<Rightarrow> nat \<Rightarrow> MatchState \<Rightarrow> nat \<Rightarrow> nat \<Rightarrow> nat \<Rightarrow> match_result" where
  "min_loop mt pat 0 ms s p ep = Inl OutOfFuel"
| "min_loop mt pat (Suc f) ms s p ep =
     sum_bind (mt ms s (ep + 1)) (\<lambda>(res, ms1).
       if res \<noteq> None then Inr (res, ms1)
       else if s < src_end ms1 then
         sum_bind (chr (ms_src ms1) s) (\<lambda>c. sum_bind (singlematch pat c p ep) (\<lambda>b.
           if b then min_loop mt pat f ms1 (s + 1) p ep else Inr (None, ms1)))
       else Inr (None, ms1))"

definition min_expand :: "match_fun \<Rightarrow> bytes \<Rightarrow> MatchState \<Rightarrow> nat \<Rightarrow> nat \<Rightarrow> nat \<Rightarrow> match_result" where
  "min_expand mt pat ms s p ep = min_loop mt pat (Suc (src_end ms - s)) ms s p ep"

definition start_capture :: "match_fun \<Rightarrow> MatchState \<Rightarrow> nat \<Rightarrow> nat \<Rightarrow> int \<Rightarrow> match_result" where
  "start_capture mt ms s p what =
     (if ms_level ms \<ge> LUA_MAXCAPTURES then Inl (RunError (str ''too many captures''))
      else sum_bind (set_cap ms (ms_level ms) \<lparr>c_init = s, c_len = what\<rparr>) (\<lambda>ms1.
        sum_bind (mt (ms1\<lparr>ms_level := ms_level ms + 1\<rparr>) s p) (\<lambda>(res, ms2).
          Inr (res, if res = None then ms2\<lparr>ms_level := ms_level ms2 - 1\<rparr> else ms2))))"

definition end_capture :: "match_fun \<Rightarrow> MatchState \<Rightarrow> nat \<Rightarrow> nat \<Rightarrow> match_result" where
  "end_capture mt ms s p =
     sum_bind (capture_to_close ms) (\<lambda>l. sum_bind (cap_at ms l) (\<lambda>c.
       sum_bind (set_cap ms l (c\<lparr>c_len := int s - int (c_init c)\<rparr>)) (\<lambda>ms1.
         sum_bind (mt ms1 s p) (\<lambda>(res, ms2).
           if res = None then
             sum_bind (cap_at ms2 l) (\<lambda>c2. sum_bind (set_cap ms2 l (c2\<lparr>c_len := CAP_UNFINISHED\<rparr>)) (\<lambda>ms3. Inr (None, ms3)))
           else Inr (res, ms2)))))"

text \<open>The length of the capture is compared as a \<^verbatim>\<open>size_t\<close>; \<^verbatim>\<open>memcmp\<close> must stay inside the subject.\<close>

definition match_capture :: "MatchState \<Rightarrow> nat \<Rightarrow> byte \<Rightarrow> rt_error + nat option" where
  "match_capture ms s l0 =
     sum_bind (check_capture ms l0) (\<lambda>l. sum_bind (cap_at ms l) (\<lambda>c.
       let len = nat (c_len c mod 2 ^ 64) in
       if src_end ms - s \<ge> len then
         (if c_init c + len > src_end ms then Inl Crash
          else if take len (drop (c_init c) (ms_src ms)) = take len (drop s (ms_src ms)) then Inr (Some (s + len))
          else Inr None)
       else Inr None))"

text \<open>The case of a pattern item: a single character class, perhaps with a repetition.\<close>

definition match_item :: "match_fun \<Rightarrow> bytes \<Rightarrow> match_fun" where
  "match_item mt pat ms s p =
     sum_bind (classend pat p) (\<lambda>ep.
     sum_bind (if s < src_end ms then sum_bind (chr (ms_src ms) s) (\<lambda>c. singlematch pat c p ep) else Inr False) (\<lambda>m.
     sum_bind (chr pat ep) (\<lambda>e.
       if e = 63 then
         (if m then sum_bind (mt ms (s + 1) (ep + 1)) (\<lambda>(res, ms1).
            if res \<noteq> None then Inr (res, ms1) else mt ms1 s (ep + 1))
          else mt ms s (ep + 1))
       else if e = 42 then max_expand mt pat ms s p ep
       else if e = 43 then (if m then max_expand mt pat ms (s + 1) p ep else Inr (None, ms))
       else if e = 45 then min_expand mt pat ms s p ep
       else if \<not> m then Inr (None, ms)
       else mt ms (s + 1) ep)))"

definition match_frontier :: "match_fun \<Rightarrow> bytes \<Rightarrow> match_fun" where
  "match_frontier mt pat ms s p =
     sum_bind (chr pat p) (\<lambda>c.
       if c \<noteq> 91 then Inl (RunError malformed_frontier)
       else sum_bind (classend pat p) (\<lambda>ep.
         sum_bind (if s = 0 then Inr 0 else chr (ms_src ms) (s - 1)) (\<lambda>previous.
         sum_bind (matchbracketclass pat previous p (ep - 1)) (\<lambda>a.
           if a then Inr (None, ms)
           else sum_bind (chr (ms_src ms) s) (\<lambda>d. sum_bind (matchbracketclass pat d p (ep - 1)) (\<lambda>b.
             if \<not> b then Inr (None, ms) else mt ms s ep))))))"

primrec match_run :: "nat \<Rightarrow> bytes \<Rightarrow> match_fun" where
  "match_run 0 pat ms s p = Inl OutOfFuel"
| "match_run (Suc f) pat ms s p =
     (let mt = match_run f pat in
      sum_bind (chr pat p) (\<lambda>c.
        if c = 40 then
          sum_bind (chr pat (p + 1)) (\<lambda>d.
            if d = 41 then start_capture mt ms s (p + 2) CAP_POSITION
            else start_capture mt ms s (p + 1) CAP_UNFINISHED)
        else if c = 41 then end_capture mt ms s (p + 1)
        else if c = L_ESC then
          sum_bind (chr pat (p + 1)) (\<lambda>d.
            if d = 98 then
              sum_bind (matchbalance pat ms s (p + 2)) (\<lambda>r. case r of None \<Rightarrow> Inr (None, ms) | Some s' \<Rightarrow> mt ms s' (p + 4))
            else if d = 102 then match_frontier mt pat ms s (p + 2)
            else if isdigit (uint d) then
              sum_bind (match_capture ms s d) (\<lambda>r. case r of None \<Rightarrow> Inr (None, ms) | Some s' \<Rightarrow> mt ms s' (p + 2))
            else match_item mt pat ms s p)
        else if c = 0 then Inr (Some s, ms)
        else if c = 36 then
          sum_bind (chr pat (p + 1)) (\<lambda>d.
            if d = 0 then Inr (if s = src_end ms then Some s else None, ms) else match_item mt pat ms s p)
        else match_item mt pat ms s p))"

definition match :: "bytes \<Rightarrow> match_fun" where
  "match pat = match_run (length pat + 1) pat"

subsection \<open>Plain search\<close>

text \<open>\<^verbatim>\<open>memchr\<close>: the first position of a byte in the first \<open>n\<close> bytes from \<open>i\<close> on.\<close>

definition memchr :: "bytes \<Rightarrow> nat \<Rightarrow> byte \<Rightarrow> nat \<Rightarrow> nat option" where
  "memchr b i c n = find (\<lambda>j. b ! j = c) [i..<i + n]"

lemma memchr_Some: "memchr b i c n = Some j \<Longrightarrow> i \<le> j \<and> j < i + n \<and> b ! j = c"
  by (auto simp: memchr_def find_Some_iff)

text \<open>\<open>l1\<close> counts the positions left to try, \<open>s1\<close> is the first of them; \<open>s2\<close> is not empty.\<close>

function memfind_loop :: "bytes \<Rightarrow> nat \<Rightarrow> nat \<Rightarrow> bytes \<Rightarrow> nat option" where
  "memfind_loop src s1 l1 s2 =
     (if l1 = 0 then None
      else case memchr src s1 (hd s2) l1 of
        None \<Rightarrow> None
      | Some i \<Rightarrow>
          if take (length s2 - 1) (drop (i + 1) src) = tl s2 then Some i
          else memfind_loop src (i + 1) (l1 - (i + 1 - s1)) s2)"
  by pat_completeness auto
termination
  by (relation "measure (\<lambda>(src, s1, l1, s2). l1)") (auto dest: memchr_Some)

declare memfind_loop.simps [simp del]

text \<open>The search in the subject from \<open>s1\<close> on, \<open>l1\<close> bytes.\<close>

definition lmemfind :: "bytes \<Rightarrow> nat \<Rightarrow> nat \<Rightarrow> bytes \<Rightarrow> nat option" where
  "lmemfind src s1 l1 s2 =
     (if length s2 = 0 then Some s1
      else if length s2 > l1 then None
      else memfind_loop src s1 (l1 - (length s2 - 1)) s2)"

end
