(* ===== verification/Lua_Strlib.thy ===== *)
theory Lua_Strlib
  imports Lua_Buffer Lua_Pattern
begin

text \<open>
  The string library (\<^verbatim>\<open>lstrlib.c\<close>) as C functions on the Lua stack: substrings, case, bytes; \<^verbatim>\<open>find\<close>, \<^verbatim>\<open>match\<close>, \<^verbatim>\<open>gmatch\<close> and \<^verbatim>\<open>gsub\<close>
  over the matcher of \<open>Lua_Pattern\<close>; the quoting and the format scanner of \<^verbatim>\<open>format\<close>.
\<close>

subsection \<open>Substrings, case, bytes\<close>

definition str_len :: C_function where
  "str_len = lbind (luaL_checklstring 1) (\<lambda>s. lbind (lua_pushinteger (int (length s))) (\<lambda>_. lret 1))"

definition posrelat :: "int \<Rightarrow> nat \<Rightarrow> int" where
  "posrelat pos len = (let p = (if pos < 0 then pos + int len + 1 else pos) in if p \<ge> 0 then p else 0)"

definition str_sub :: C_function where
  "str_sub =
     lbind (luaL_checklstring 1) (\<lambda>s. lbind (luaL_checkinteger 2) (\<lambda>i. lbind (luaL_optinteger 3 (- 1)) (\<lambda>j.
     let l = length s; start0 = posrelat i l; end0 = posrelat j l;
         start = (if start0 < 1 then 1 else start0); stop = (if end0 > int l then int l else end0) in
     lbind (if start \<le> stop then lua_pushlstring (take (nat (stop - start + 1)) (drop (nat (start - 1)) s))
            else lua_pushlstring []) (\<lambda>_. lret 1))))"

definition str_reverse :: "program \<Rightarrow> C_function" where
  "str_reverse prog =
     lbind (luaL_checklstring 1) (\<lambda>s.
     lbind (luaL_addlstring prog (rev s) luaL_buffinit) (\<lambda>b. lbind (luaL_pushresult prog b) (\<lambda>_. lret 1)))"

definition str_lower :: "program \<Rightarrow> C_function" where
  "str_lower prog =
     lbind (luaL_checklstring 1) (\<lambda>s.
     lbind (luaL_addlstring prog (map (\<lambda>c. word_of_int (tolower (uint c))) s) luaL_buffinit) (\<lambda>b.
     lbind (luaL_pushresult prog b) (\<lambda>_. lret 1)))"

definition str_upper :: "program \<Rightarrow> C_function" where
  "str_upper prog =
     lbind (luaL_checklstring 1) (\<lambda>s.
     lbind (luaL_addlstring prog (map (\<lambda>c. word_of_int (toupper (uint c))) s) luaL_buffinit) (\<lambda>b.
     lbind (luaL_pushresult prog b) (\<lambda>_. lret 1)))"

primrec rep_loop :: "program \<Rightarrow> bytes \<Rightarrow> nat \<Rightarrow> luaL_Buffer \<Rightarrow> luaL_Buffer lua" where
  "rep_loop prog s 0 b = lret b"
| "rep_loop prog s (Suc n) b = lbind (luaL_addlstring prog s b) (rep_loop prog s n)"

definition str_rep :: "program \<Rightarrow> C_function" where
  "str_rep prog =
     lbind (luaL_checklstring 1) (\<lambda>s. lbind (luaL_checkint 2) (\<lambda>n.
     lbind (rep_loop prog s (nat n) luaL_buffinit) (\<lambda>b. lbind (luaL_pushresult prog b) (\<lambda>_. lret 1))))"

definition str_byte :: C_function where
  "str_byte =
     lbind (luaL_checklstring 1) (\<lambda>s. lbind (luaL_optinteger 2 1) (\<lambda>i.
     let l = length s; posi = posrelat i l in
     lbind (luaL_optinteger 3 posi) (\<lambda>j.
     let pose = posrelat j l;
         posi1 = (if posi \<le> 0 then 1 else posi); pose1 = (if pose > int l then int l else pose) in
     if posi1 > pose1 then lret 0
     else
       let n = sint (word_of_int (pose1 - posi1 + 1) :: 32 word) in
       lbind (if posi1 + n \<le> pose1 then luaL_error (str ''string slice too long'') [] else lret ()) (\<lambda>_.
       lbind (luaL_checkstack n (str ''string slice too long'')) (\<lambda>_.
       lbind (lseq (map (\<lambda>k. lua_pushinteger (uint (s ! (nat posi1 + k - 1)))) [0..<nat n])) (\<lambda>_. lret (nat n)))))))"

primrec char_loop :: "program \<Rightarrow> int \<Rightarrow> nat \<Rightarrow> luaL_Buffer \<Rightarrow> luaL_Buffer lua" where
  "char_loop prog i 0 b = lret b"
| "char_loop prog i (Suc n) b =
     lbind (luaL_checkint i) (\<lambda>c.
     lbind (luaL_argcheck (0 \<le> c \<and> c < 256) i (str ''invalid value'')) (\<lambda>_.
     lbind (luaL_addchar prog (word_of_int c) b) (char_loop prog (i + 1) n)))"

definition str_char :: "program \<Rightarrow> C_function" where
  "str_char prog =
     lbind lua_gettop (\<lambda>n. lbind (char_loop prog 1 (nat n) luaL_buffinit) (\<lambda>b. lbind (luaL_pushresult prog b) (\<lambda>_. lret 1)))"

subsection \<open>Finding\<close>

definition SPECIALS :: bytes where "SPECIALS = str ''^$*+?.([%-''"

text \<open>An error of the matcher raises its format through \<^verbatim>\<open>luaL_error\<close>.\<close>

definition lift_match :: "rt_error + 'a \<Rightarrow> 'a lua" where
  "lift_match r = (case r of Inr a \<Rightarrow> lret a | Inl (RunError fmt) \<Rightarrow> luaL_error fmt []
     | Inl OutOfFuel \<Rightarrow> lthrow NoFuel | Inl Crash \<Rightarrow> lundef)"

text \<open>The captures of a new match state are not initialized in the code; nothing reads them.\<close>

definition new_match :: "bytes \<Rightarrow> MatchState" where
  "new_match src = \<lparr>ms_src = src, ms_level = 0, ms_capture = replicate LUA_MAXCAPTURES \<lparr>c_init = 0, c_len = 0\<rparr>\<rparr>"

definition push_onecapture :: "MatchState \<Rightarrow> nat \<Rightarrow> nat \<Rightarrow> nat \<Rightarrow> unit lua" where
  "push_onecapture ms i s e =
     (if i \<ge> ms_level ms then
        (if i = 0 then lua_pushlstring (take (e - s) (drop s (ms_src ms)))
         else luaL_error (str ''invalid capture index'') [])
      else lbind (lift_match (cap_at ms i)) (\<lambda>c.
        let l = c_len c in
        lbind (if l = CAP_UNFINISHED then luaL_error (str ''unfinished capture'') [] else lret ()) (\<lambda>_.
          if l = CAP_POSITION then lua_pushinteger (int (c_init c) + 1)
          else lua_pushlstring (take (nat l) (drop (c_init c) (ms_src ms))))))"

text \<open>\<open>s\<close> is \<open>None\<close> for the null pointer.\<close>

definition push_captures :: "MatchState \<Rightarrow> nat option \<Rightarrow> nat \<Rightarrow> nat lua" where
  "push_captures ms s e =
     (let nlevels = (if ms_level ms = 0 \<and> s \<noteq> None then 1 else ms_level ms) in
      lbind (luaL_checkstack (int nlevels) (str ''too many captures'')) (\<lambda>_.
      lbind (lseq (map (\<lambda>i. push_onecapture ms i (case s of Some s \<Rightarrow> s | None \<Rightarrow> 0) e) [0..<nlevels])) (\<lambda>_. lret nlevels)))"

text \<open>The loop over the start positions; the pattern begins at \<open>p\<close>. The result is the start, the end and the captures.\<close>

function find_loop :: "bytes \<Rightarrow> nat \<Rightarrow> bool \<Rightarrow> bytes \<Rightarrow> MatchState \<Rightarrow> nat \<Rightarrow> rt_error + (nat \<times> nat \<times> MatchState) option" where
  "find_loop pat p anchor src ms s1 =
     sum_bind (match pat (ms\<lparr>ms_level := 0\<rparr>) s1 p) (\<lambda>(res, ms1).
       case res of Some e \<Rightarrow> Inr (Some (s1, e, ms1))
       | None \<Rightarrow> if s1 < length src \<and> \<not> anchor then find_loop pat p anchor src ms1 (s1 + 1) else Inr None)"
  by pat_completeness auto
termination
  by (relation "measure (\<lambda>(pat, p, anchor, src, ms, s1). length src - s1)") auto

declare find_loop.simps [simp del]

definition is_anchored :: "bytes \<Rightarrow> bool" where
  "is_anchored pat \<longleftrightarrow> chr pat 0 = Inr 94"

definition str_find_aux :: "bool \<Rightarrow> C_function" where
  "str_find_aux wantpos =
     lbind (luaL_checklstring 1) (\<lambda>s. lbind (luaL_checklstring 2) (\<lambda>p. lbind (luaL_optinteger 3 1) (\<lambda>i.
     let init0 = posrelat i (length s) - 1;
         init = (if init0 < 0 then 0 else if nat init0 > length s then length s else nat init0) in
     lbind (if wantpos then lbind (lua_toboolean 4) (\<lambda>b. lret (b \<or> \<not> (\<exists>c \<in> set (c_str p). c \<in> set SPECIALS))) else lret False) (\<lambda>plain.
       if plain then
         (case lmemfind s init (length s - init) p of
            Some s2 \<Rightarrow> lbind (lseq [lua_pushinteger (int s2 + 1), lua_pushinteger (int s2 + int (length p))]) (\<lambda>_. lret 2)
          | None \<Rightarrow> lbind lua_pushnil (\<lambda>_. lret 1))
       else
         let anchor = is_anchored p in
         lbind (lift_match (find_loop p (if anchor then 1 else 0) anchor s (new_match s) init)) (\<lambda>r. case r of
           None \<Rightarrow> lbind lua_pushnil (\<lambda>_. lret 1)
         | Some (s1, e, ms) \<Rightarrow>
             if wantpos then
               lbind (lseq [lua_pushinteger (int s1 + 1), lua_pushinteger (int e)]) (\<lambda>_.
               lbind (push_captures ms None 0) (\<lambda>n. lret (n + 2)))
             else push_captures ms (Some s1) e)))))"

definition str_find :: C_function where "str_find = str_find_aux True"
definition str_match :: C_function where "str_match = str_find_aux False"

definition gmatch_aux :: C_function where
  "gmatch_aux =
     lbind (lua_tolstring (lua_upvalueindex 1)) (\<lambda>s. lbind (lua_tolstring (lua_upvalueindex 2)) (\<lambda>p.
     case (s, p) of
       (Some s, Some p) \<Rightarrow>
         lbind (lua_tointeger (lua_upvalueindex 3)) (\<lambda>start.
         let src = nat (start mod 2 ^ 64) in
         if src > length s then lret 0
         else lbind (lift_match (find_loop p 0 False s (new_match s) src)) (\<lambda>r. case r of
             None \<Rightarrow> lret 0
           | Some (s1, e, ms) \<Rightarrow>
               let newstart = (if e = s1 then e + 1 else e) in
               lbind (lseq [lua_pushinteger (int newstart), lua_replace (lua_upvalueindex 3)]) (\<lambda>_. push_captures ms (Some s1) e)))
     | _ \<Rightarrow> lundef))"

definition gmatch :: C_function where
  "gmatch =
     lbind (luaL_checkstring 1) (\<lambda>_. lbind (luaL_checkstring 2) (\<lambda>_.
     lbind (lseq [lua_settop 2, lua_pushinteger 0, lua_pushcclosure CGmatchAux 3]) (\<lambda>_. lret 1)))"

definition gfind_nodef :: C_function where
  "gfind_nodef = luaL_error (quoted ''string.gfind'' @ str '' was renamed to '' @ quoted ''string.gmatch'') []"

subsection \<open>Substitution\<close>

text \<open>The loop over the replacement string, from position \<open>i\<close> on.\<close>

function add_s_loop :: "program \<Rightarrow> MatchState \<Rightarrow> nat \<Rightarrow> nat \<Rightarrow> bytes \<Rightarrow> nat \<Rightarrow> luaL_Buffer \<Rightarrow> luaL_Buffer lua" where
  "add_s_loop prog ms s e news i b =
     (if i < length news then
        if news ! i \<noteq> L_ESC then lbind (luaL_addchar prog (news ! i) b) (add_s_loop prog ms s e news (i + 1))
        else
          lbind (lift_match (chr news (i + 1))) (\<lambda>c.
          lbind (if \<not> isdigit (uint c) then luaL_addchar prog c b
                 else if c = 48 then luaL_addlstring prog (take (e - s) (drop s (ms_src ms))) b
                 else lbind (push_onecapture ms (nat (uint c - 49)) s e) (\<lambda>_. luaL_addvalue prog b))
            (add_s_loop prog ms s e news (i + 2)))
      else lret b)"
  by pat_completeness auto
termination
  by (relation "measure (\<lambda>(prog, ms, s, e, news, i, b). length news - i)") auto

declare add_s_loop.simps [simp del]

definition add_s :: "program \<Rightarrow> MatchState \<Rightarrow> luaL_Buffer \<Rightarrow> nat \<Rightarrow> nat \<Rightarrow> luaL_Buffer lua" where
  "add_s prog ms b s e =
     lbind (lua_tolstring 3) (\<lambda>r. case r of None \<Rightarrow> lundef | Some news \<Rightarrow> add_s_loop prog ms s e news 0 b)"

definition add_value :: "program \<Rightarrow> MatchState \<Rightarrow> luaL_Buffer \<Rightarrow> nat \<Rightarrow> nat \<Rightarrow> luaL_Buffer lua" where
  "add_value prog ms b s e =
     lbind (lua_type 3) (\<lambda>t.
       if t = 3 \<or> t = 4 then add_s prog ms b s e
       else
         lbind (if t = 6 then
                  lbind (lua_pushvalue 3) (\<lambda>_. lbind (push_captures ms (Some s) e) (\<lambda>n. lua_call prog n 1))
                else if t = 5 then lseq [push_onecapture ms 0 s e, lua_gettable prog 3]
                else lret ()) (\<lambda>_.
         lbind (lua_toboolean (- 1)) (\<lambda>ok.
         lbind (if \<not> ok then lseq [lua_pop 1, lua_pushlstring (take (e - s) (drop s (ms_src ms)))]
                else lbind (lua_isstring (- 1)) (\<lambda>str_ok.
                  if \<not> str_ok then lbind (lua_type (- 1)) (\<lambda>t.
                    luaL_error (str ''invalid replacement value (a %s)'') [FStr (Some (lua_typename t))])
                  else lret ())) (\<lambda>_.
         luaL_addvalue prog b))))"

text \<open>The loop of \<^verbatim>\<open>gsub\<close>; every round but the last moves on in the subject, which bounds it.\<close>

primrec gsub_loop :: "program \<Rightarrow> nat \<Rightarrow> bytes \<Rightarrow> nat \<Rightarrow> bool \<Rightarrow> int \<Rightarrow> MatchState \<Rightarrow> nat \<Rightarrow> int \<Rightarrow> luaL_Buffer \<Rightarrow> (nat \<times> int \<times> luaL_Buffer) lua" where
  "gsub_loop prog 0 pat p anchor max_s ms src n b = lthrow NoFuel"
| "gsub_loop prog (Suc f) pat p anchor max_s ms src n b =
     (if n < max_s then
        lbind (lift_match (match pat (ms\<lparr>ms_level := 0\<rparr>) src p)) (\<lambda>(e, ms1).
        lbind (case e of None \<Rightarrow> lret b | Some e \<Rightarrow> add_value prog ms1 b src e) (\<lambda>b1.
        let n1 = (if e \<noteq> None then n + 1 else n);
            next = (\<lambda>src2 b2. if anchor then lret (src2, n1, b2) else gsub_loop prog f pat p anchor max_s ms1 src2 n1 b2) in
        if (case e of None \<Rightarrow> False | Some e \<Rightarrow> e > src) then next (the e) b1
        else if src < src_end ms1 then
          lbind (lift_match (chr (ms_src ms1) src)) (\<lambda>c. lbind (luaL_addchar prog c b1) (next (src + 1)))
        else lret (src, n1, b1)))
      else lret (src, n, b))"

definition str_gsub :: "program \<Rightarrow> C_function" where
  "str_gsub prog =
     lbind (luaL_checklstring 1) (\<lambda>src. lbind (luaL_checklstring 2) (\<lambda>p. lbind (lua_type 3) (\<lambda>tr.
     lbind (luaL_optint 4 (int (length src) + 1)) (\<lambda>max_s.
     let anchor = is_anchored p in
     lbind (luaL_argcheck (tr = 3 \<or> tr = 4 \<or> tr = 6 \<or> tr = 5) 3 (str ''string/function/table expected'')) (\<lambda>_.
     lbind (gsub_loop prog (length src + 2) p (if anchor then 1 else 0) anchor max_s (new_match src) 0 0 luaL_buffinit) (\<lambda>(s, n, b).
     lbind (luaL_addlstring prog (drop s src) b) (\<lambda>b1.
     lbind (lseq [luaL_pushresult prog b1, lua_pushinteger n]) (\<lambda>_. lret 2))))))))"

subsection \<open>Format\<close>

text \<open>The text of one character inside quotes.\<close>

definition quote_char :: "byte \<Rightarrow> bytes" where
  "quote_char c =
     (if c = 34 \<or> c = 92 \<or> c = 10 then [92, c]
      else if c = 13 then [92, 114]
      else if c = 0 then [92, 48, 48, 48]
      else [c])"

primrec quote_loop :: "program \<Rightarrow> bytes \<Rightarrow> luaL_Buffer \<Rightarrow> luaL_Buffer lua" where
  "quote_loop prog [] b = lret b"
| "quote_loop prog (c # s) b = lbind (luaL_addlstring prog (quote_char c) b) (quote_loop prog s)"

definition addquoted :: "program \<Rightarrow> luaL_Buffer \<Rightarrow> int \<Rightarrow> luaL_Buffer lua" where
  "addquoted prog b arg =
     lbind (luaL_checklstring arg) (\<lambda>s.
     lbind (luaL_addchar prog 34 b) (\<lambda>b1. lbind (quote_loop prog s b1) (luaL_addchar prog 34)))"

definition FLAGS :: bytes where "FLAGS = str ''-+ #0''"
definition LUA_INTFRMLEN :: bytes where "LUA_INTFRMLEN = str ''l''"

text \<open>With the terminating zeros of the two string literals.\<close>

definition MAX_FORMAT :: nat where "MAX_FORMAT = (length FLAGS + 1) + (length LUA_INTFRMLEN + 1) + 10"

text \<open>Skips at most one digit.\<close>

definition skip_digit :: "bytes \<Rightarrow> nat \<Rightarrow> nat" where
  "skip_digit f p = (if p < length f \<and> isdigit (uint (f ! p)) then p + 1 else p)"

text \<open>
  A conversion specification from position \<open>start\<close> of the format: its end and a copy, the C string \<^verbatim>\<open>form\<close>. \<^verbatim>\<open>strncpy\<close> copies up to a zero,
  and fills up with zeros.
\<close>

definition scanformat :: "bytes \<Rightarrow> nat \<Rightarrow> rt_error + nat \<times> bytes" where
  "scanformat f start =
     (let p0 = start + length (takeWhile (\<lambda>c. c \<noteq> 0 \<and> c \<in> set FLAGS) (drop start f)) in
      if p0 - start \<ge> length FLAGS + 1 then Inl (RunError (str ''invalid format (repeated flags)''))
      else
        let p2 = skip_digit f (skip_digit f p0);
            p5 = (if chr f p2 = Inr 46 then skip_digit f (skip_digit f (p2 + 1)) else p2) in
        if p5 < length f \<and> isdigit (uint (f ! p5)) then Inl (RunError (str ''invalid format (width or precision too long)''))
        else Inr (p5, 37 # c_str (take (p5 - start + 1) (drop start f))))"

definition addintlen :: "bytes \<Rightarrow> bytes" where
  "addintlen form = butlast form @ LUA_INTFRMLEN @ [last form]"

end
