(* ===== verification/Binary_Lib.thy ===== *)
theory Binary_Lib
  imports Binary_Reader Binary_Writer Lua_Sort Lua_Strlib
begin

text \<open>
  The module seen from Lua (\<^verbatim>\<open>lua_binary_table.cpp\<close>). \<open>program_of\<close> gives each C function its
  model, to a bound on the nesting of calls; functions outside the repository are the
  parameter \<open>ext\<close>. Opening a file for reading gives its contents, opening one for writing may
  fail; the functions that write a file also return what they wrote to which file.
\<close>

primrec program_of :: "(nat \<Rightarrow> C_function) \<Rightarrow> nat \<Rightarrow> program" where
  "program_of ext 0 f = lthrow NoFuel"
| "program_of ext (Suc n) f =
     (case f of CSort \<Rightarrow> sort_fn (program_of ext n) | CSortCmp \<Rightarrow> sortCmp (program_of ext n) | CGmatchAux \<Rightarrow> gmatch_aux | COther i \<Rightarrow> ext i)"

definition LuaBinaryTable_parse :: C_function where
  "LuaBinaryTable_parse = lbind (luaL_checklstring 1) parseBinaryTable"

definition LuaBinaryTable_write :: "program \<Rightarrow> nat \<Rightarrow> C_function" where
  "LuaBinaryTable_write prog fuel =
     lbind lua_gettop (\<lambda>top.
     lbind (if top \<noteq> 1 then luaL_error (str ''1 argument expected, but %d was given'') [FInt top] else lret ()) (\<lambda>_.
     lbind (writeBinaryTable prog fuel 1) (\<lambda>ret.
       case ret of None \<Rightarrow> lret 0
       | Some d \<Rightarrow> lbind (api_incr_top (lua_pushlstring (contents d))) (\<lambda>_. lret 1))))"

type_synonym file_write = "(bytes \<times> bytes) option"

definition LuaBinaryTable_parseFromFile :: "(bytes \<Rightarrow> bytes option) \<Rightarrow> C_function" where
  "LuaBinaryTable_parseFromFile fopen_r =
     lbind (luaL_checkstring 1) (\<lambda>filename.
       case fopen_r filename of
         None \<Rightarrow> lbind (lseq [api_incr_top lua_pushnil, api_incr_top (lua_pushstring (str ''Failed open input file.''))]) (\<lambda>_. lret 2)
       | Some buffer \<Rightarrow>
           lbind (parseBinaryTable buffer) (\<lambda>ret.
             if ret = 0
             then lbind (lseq [api_incr_top lua_pushnil, api_incr_top (lua_pushstring (str ''Failed parse data''))]) (\<lambda>_. lret 2)
             else lret 1))"

definition LuaBinaryTable_writeToFile :: "program \<Rightarrow> nat \<Rightarrow> (bytes \<Rightarrow> bool) \<Rightarrow> (nat \<times> file_write) lua" where
  "LuaBinaryTable_writeToFile prog fuel fopen_w =
     lbind (luaL_checkstring 1) (\<lambda>filename.
     lbind (writeBinaryTable prog fuel 2) (\<lambda>ret.
       case ret of
         None \<Rightarrow> lbind (lseq [api_incr_top (lua_pushboolean False), api_incr_top (lua_pushstring (str ''Failed to serialize data.''))]) (\<lambda>_. lret (2, None))
       | Some d \<Rightarrow>
           if \<not> fopen_w filename
           then lbind (lseq [api_incr_top (lua_pushboolean False), api_incr_top (lua_pushstring (str ''Failed open input file.''))]) (\<lambda>_. lret (2, None))
           else lbind (api_incr_top (lua_pushboolean True)) (\<lambda>_. lret (1, Some (filename, contents d)))))"

definition LuaBinaryTable_dump :: "program \<Rightarrow> nat \<Rightarrow> C_function" where
  "LuaBinaryTable_dump prog fuel =
     lbind lua_gettop (\<lambda>top.
     lbind (if top < 1 then luaL_error (str ''expected 1 argument, but 0 was givent.'') [] else lret ()) (\<lambda>_.
     lbind lua_gettop (\<lambda>top.
     lbind (if top \<ge> 2 then luaL_checkint 2 else lret 99) (\<lambda>maxIndent.
     lbind (dumpTable prog fuel 1 maxIndent) (\<lambda>d.
     lbind (api_incr_top (lua_pushlstring (contents d))) (\<lambda>_. lret 1))))))"

definition LuaBinaryTable_dumpToFile :: "program \<Rightarrow> nat \<Rightarrow> (bytes \<Rightarrow> bool) \<Rightarrow> (nat \<times> file_write) lua" where
  "LuaBinaryTable_dumpToFile prog fuel fopen_w =
     lbind (luaL_checkstring 2) (\<lambda>filename.
     lbind lua_gettop (\<lambda>top.
     lbind (if top \<ge> 3 then luaL_checkint 3 else lret 99) (\<lambda>maxIndent.
     lbind (dumpTable prog fuel 1 maxIndent) (\<lambda>d.
       if \<not> fopen_w filename
       then lbind (lseq [api_incr_top (lua_pushboolean False), api_incr_top (lua_pushstring (str ''Failed open input file.''))]) (\<lambda>_. lret (2, None))
       else lbind (api_incr_top (lua_pushboolean True)) (\<lambda>_. lret (1, Some (filename, contents d)))))))"

end
