(* ===== verification/Binary_Format.thy ===== *)
theory Binary_Format
  imports Binary_Reader Binary_Writer
begin

text \<open>
  The binary format as a specification, independent of streams and stacks: a document is a tree
  of scalars, arrays and tables, and \<open>enc\<close> gives its bytes. \<open>denotes\<close> says which Lua
  value in which heap a document stands for.
\<close>

datatype wire = WVal TValue | WArr "wire list" | WMap "(TValue \<times> wire) list"

subsection \<open>Bytes\<close>

definition int_width :: "int \<Rightarrow> nat" where
  "int_width v = (if - (2 ^ 7) \<le> v \<and> v < 2 ^ 7 then 1 else if - (2 ^ 15) \<le> v \<and> v < 2 ^ 15 then 2
     else if - (2 ^ 31) \<le> v \<and> v < 2 ^ 31 then 4 else 8)"

definition int_tag :: "nat \<Rightarrow> Type" where
  "int_tag k = (if k = 1 then T_INT8 else if k = 2 then T_INT16 else if k = 4 then T_INT32 else T_INT64)"

definition enc_int :: "int \<Rightarrow> bytes" where
  "enc_int v = (if v = 0 then [of_nat T_ZERO] else if v = 1 then [of_nat T_ONE]
     else of_nat (int_tag (int_width v)) # le_bytes (int_width v) v)"

definition enc_num :: "lua_Number \<Rightarrow> bytes" where
  "enc_num v = (if \<not> dbl_isnan v \<and> dbl_integral v then enc_int (dbl_to_int 64 v)
     else of_nat T_DOUBLE # le_bytes 8 (uint v))"

definition len_class :: "nat \<Rightarrow> nat" where
  "len_class n = (if n = 0 then 0 else if n < 2 ^ 8 then 1 else if n < 2 ^ 16 then 2 else 3)"

definition len_width :: "nat \<Rightarrow> nat" where
  "len_width c = (if c = 0 then 0 else if c = 1 then 1 else if c = 2 then 2 else 4)"

definition enc_len :: "Type \<Rightarrow> nat \<Rightarrow> bytes" where
  "enc_len t n = of_nat (t + len_class n) # le_bytes (len_width (len_class n)) (int n)"

text \<open>The number of a string: its position in the pool, from 1.\<close>

definition pool_index :: "bytes list \<Rightarrow> bytes \<Rightarrow> nat" where
  "pool_index pool b = Suc (length (takeWhile (\<lambda>x. x \<noteq> b) pool))"

fun enc_scalar :: "bytes list \<Rightarrow> TValue \<Rightarrow> bytes" where
  "enc_scalar pool (LBoolean b) = [of_nat (if b then T_TRUE else T_FALSE)]"
| "enc_scalar pool (LNumber n) = enc_num n"
| "enc_scalar pool (LString b) = (if b = [] then [of_nat T_STRING0] else enc_len T_STRING0 (pool_index pool b))"
| "enc_scalar pool _ = [of_nat T_NIL]"

fun enc :: "bytes list \<Rightarrow> wire \<Rightarrow> bytes" where
  "enc pool (WVal v) = enc_scalar pool v"
| "enc pool (WArr ws) = enc_len T_ARRAY0 (length ws) @ concat (map (enc pool) ws)"
| "enc pool (WMap kvs) = enc_len T_TABLE0 (length kvs) @ concat (map (\<lambda>kw. enc_scalar pool (fst kw) @ enc pool (snd kw)) kvs)"

definition enc_string :: "bytes \<Rightarrow> bytes" where
  "enc_string b = le_bytes 2 (int (length b)) @ b"

definition enc_pool :: "bytes list \<Rightarrow> bytes" where
  "enc_pool pool = le_bytes 4 (int (length pool)) @ concat (map enc_string pool)"

definition enc_doc :: "bytes list \<Rightarrow> wire \<Rightarrow> bytes" where
  "enc_doc pool w = le_bytes 2 MAGIC_NUMBER @ le_bytes 2 LUABT_VERSION @ enc_pool pool @ enc pool w"

subsection \<open>What fits the format\<close>

text \<open>
  An integral number must fit 64 bits; a string needs an entry of the pool; the counts must fit
  the limits of tables.
\<close>

definition num_ok :: "lua_Number \<Rightarrow> bool" where
  "num_ok v \<longleftrightarrow> dbl_isnan v \<or> \<not> dbl_integral v \<or> dbl_isfinite v \<and> - (2 ^ 63) \<le> dbl_trunc v \<and> dbl_trunc v < 2 ^ 63"

fun scalar_ok :: "bytes list \<Rightarrow> TValue \<Rightarrow> bool" where
  "scalar_ok pool LNil = True"
| "scalar_ok pool (LBoolean b) = True"
| "scalar_ok pool (LNumber n) = num_ok n"
| "scalar_ok pool (LString b) = (b = [] \<or> b \<in> set pool)"
| "scalar_ok pool _ = False"

definition distinct_keys :: "TValue list \<Rightarrow> bool" where
  "distinct_keys ks \<longleftrightarrow> (\<forall>i < length ks. \<forall>j < length ks. luaO_rawequalObj (ks ! i) (ks ! j) \<longrightarrow> i = j)"

fun wire_ok :: "bytes list \<Rightarrow> wire \<Rightarrow> bool" where
  "wire_ok pool (WVal v) = scalar_ok pool v"
| "wire_ok pool (WArr ws) = (length ws \<le> 2 ^ 26 \<and> (\<forall>w \<in> set ws. wire_ok pool w))"
| "wire_ok pool (WMap kvs) = (length kvs \<le> 2 ^ 26 \<and> distinct_keys (map fst kvs) \<and>
     (\<forall>kw \<in> set kvs. valid_key (fst kw) \<and> scalar_ok pool (fst kw) \<and> wire_ok pool (snd kw)))"

definition pool_fits :: "bytes list \<Rightarrow> bool" where
  "pool_fits pool \<longleftrightarrow> length pool \<le> 2 ^ 26 \<and> distinct pool \<and> (\<forall>b \<in> set pool. b \<noteq> [] \<and> length b < 2 ^ 16)"

subsection \<open>What a document stands for\<close>

text \<open>Negative zero is read back as zero.\<close>

fun canon :: "TValue \<Rightarrow> TValue" where
  "canon (LNumber n) = LNumber (if dbl_mag n = 0 then 0 else n)"
| "canon v = v"

text \<open>The tables of the value are at addresses from \<open>lo\<close>.\<close>

inductive denotes :: "(addr \<Rightarrow> Table option) \<Rightarrow> addr \<Rightarrow> TValue \<Rightarrow> wire \<Rightarrow> bool" for h lo where
  scalar: "denotes h lo (canon v) (WVal v)"
| array: "lo \<le> a \<Longrightarrow> h a = Some t \<Longrightarrow> wf_table t \<Longrightarrow> \<forall>i < length ws. denotes h lo (tgeti t (Suc i)) (ws ! i) \<Longrightarrow>
    \<forall>k. valid_key k \<longrightarrow> (\<forall>i < length ws. \<not> luaO_rawequalObj k (LNumber (cast_num (int (Suc i))))) \<longrightarrow> tget t k = LNil \<Longrightarrow>
    denotes h lo (LTable a) (WArr ws)"
| dict: "lo \<le> a \<Longrightarrow> h a = Some t \<Longrightarrow> wf_table t \<Longrightarrow> \<forall>kw \<in> set kvs. denotes h lo (tget t (fst kw)) (snd kw) \<Longrightarrow>
    \<forall>k. valid_key k \<longrightarrow> (\<forall>kw \<in> set kvs. \<not> luaO_rawequalObj k (fst kw)) \<longrightarrow> tget t k = LNil \<Longrightarrow>
    denotes h lo (LTable a) (WMap kvs)"

inductive_cases denotes_WVal: "denotes h lo v (WVal x)"
inductive_cases denotes_WArr: "denotes h lo v (WArr ws)"
inductive_cases denotes_WMap: "denotes h lo v (WMap kvs)"

lemma denotes_frame:
  assumes "denotes h lo v w" "\<And>a. lo \<le> a \<Longrightarrow> h a \<noteq> None \<Longrightarrow> h' a = h a" "lo' \<le> lo"
  shows "denotes h' lo' v w"
  using assms
proof (induction rule: denotes.induct)
  case (scalar v)
  show ?case by (rule denotes.scalar)
next
  case (array a t ws)
  then have "h' a = Some t" by simp
  with array show ?case by (intro denotes.array [of lo' a h' t]) auto
next
  case (dict a t kvs)
  then have "h' a = Some t" by simp
  with dict show ?case by (intro denotes.dict [of lo' a h' t]) auto
qed

subsection \<open>The stream functions of the writer produce these bytes\<close>

lemma contents_write [simp]:
  "w_inv w \<Longrightarrow> w_inv (writeBytes bs w)" "w_inv w \<Longrightarrow> contents (writeBytes bs w) = contents w @ bs"
  by (simp_all add: writer.wr_inv writer.wr_out)

lemma writeInteger_bytes:
  assumes "- (2 ^ 63) \<le> v" "v < 2 ^ 63" "w_inv w"
  shows "w_inv (writeInteger v w) \<and> contents (writeInteger v w) = contents w @ enc_int v"
  using assms by (auto simp: writeInteger_def enc_int_def int_width_def int_tag_def write_bytes)

lemma writeFloat_bytes:
  "w_inv w \<Longrightarrow> w_inv (writeFloat v w) \<and> contents (writeFloat v w) = contents w @ of_nat T_DOUBLE # le_bytes 8 (uint v)"
  by (simp add: writeFloat_def write_bytes)

lemma writeLength_bytes:
  "w_inv w \<Longrightarrow> w_inv (writeLength t n w) \<and> contents (writeLength t n w) = contents w @ enc_len t n"
  by (auto simp: writeLength_def enc_len_def len_class_def len_width_def write_bytes)

lemma dbl_round_to_int:
  assumes "luai_numeq v (dbl_round v)"
  shows "dbl_to_int 64 (dbl_round v) = dbl_to_int 64 v"
proof -
  have t: "dbl_trunc (dbl_round v) = dbl_trunc v" using luai_numeq_trunc [OF assms] by simp
  have "dbl_isfinite (dbl_round v) \<longleftrightarrow> dbl_isfinite v"
    using luai_numeq_cases [OF assms] by (auto simp: dbl_isfinite_def dbl_exp_def)
  with t show ?thesis by (simp add: dbl_to_int_def)
qed

text \<open>The number branch of \<open>writeValue\<close>.\<close>

lemma write_number_bytes:
  fixes v :: lua_Number and w :: BinaryWriter
  assumes "w_inv w"
  defines "w' \<equiv> (if luai_numeq v (dbl_round v) then writeInteger (dbl_to_int 64 (dbl_round v)) w else writeFloat v w)"
  shows "w_inv w'" "contents w' = contents w @ enc_num v"
proof -
  have "- (2 ^ 63) \<le> dbl_to_int 64 v \<and> dbl_to_int 64 v < 2 ^ 63" by (simp add: dbl_to_int_def Let_def)
  with assms writeInteger_bytes writeFloat_bytes dbl_round_to_int [of v] dbl_round_eq_iff [of v]
  have "w_inv w' \<and> contents w' = contents w @ enc_num v" by (auto simp: enc_num_def)
  then show "w_inv w'" "contents w' = contents w @ enc_num v" by simp_all
qed

end
