(* ===== verification/Binary_Reader_Props.thy ===== *)
theory Binary_Reader_Props
  imports Binary_Reader Lua_Api_Run
begin

text \<open>
  The parser on an arbitrary input, and on the encoding of a value.
\<close>

subsection \<open>Every input\<close>

text \<open>The values the parser builds.\<close>

fun plain :: "lua_State \<Rightarrow> TValue \<Rightarrow> bool" where
  "plain s (LTable a) \<longleftrightarrow> l_heap s a \<noteq> None"
| "plain s LNil = True"
| "plain s (LBoolean b) = True"
| "plain s (LNumber n) = True"
| "plain s (LString b) = True"
| "plain s _ = False"

definition parse_errors :: "exn set" where
  "parse_errors = {MemError, block_too_big, LuaError (LString (str ''table overflow'')),
     LuaError (LString (str ''table index is nil'')), LuaError (LString (str ''table index is NaN''))}"

text \<open>The string pool is a table of the stack that holds nothing but strings.\<close>

definition pool_ok :: "ReaderStrings \<Rightarrow> lua_State \<Rightarrow> bool" where
  "pool_ok st s \<longleftrightarrow> 0 < rs_handle st \<and> nat (rs_handle st) \<le> length (l_stack s) \<and>
     (\<exists>p t. l_stack s ! (nat (rs_handle st) - 1) = LTable p \<and> l_heap s p = Some t \<and>
        (\<forall>k. valid_key k \<longrightarrow> tget t k = LNil \<or> (\<exists>b. tget t k = LString b)))"

text \<open>
  What a parser does: it keeps the stack below and every old table, moves forward, and on
  success leaves one value. It overruns its frame only if the frame has no room for one value per byte
  of the input and \<open>j\<close> more.
\<close>

definition left :: "BinaryReader \<Rightarrow> nat" where
  "left r = length (r_data r) - r_p r"

definition errors :: "nat \<Rightarrow> lua_State \<Rightarrow> BinaryReader \<Rightarrow> exn set" where
  "errors j s r = parse_errors \<union> (if length (l_stack s) + left r + j \<le> l_ci_top s then {} else {Overrun})"

definition moved :: "BinaryReader \<Rightarrow> BinaryReader \<Rightarrow> bool" where
  "moved r r' \<longleftrightarrow> r_data r' = r_data r \<and> r_p r \<le> r_p r'"

definition parsed :: "nat \<Rightarrow> lua_State \<Rightarrow> BinaryReader \<Rightarrow> (exn + bool \<times> BinaryReader) \<times> lua_State \<Rightarrow> bool" where
  "parsed j s r res \<longleftrightarrow> grown s (snd res) \<and>
     (case fst res of
        Inl e \<Rightarrow> e \<in> errors j s r
      | Inr (ok, r') \<Rightarrow>
          (if ok then moved r r' \<and> (\<exists>v. l_stack (snd res) = l_stack s @ [v] \<and> plain (snd res) v)
           else \<exists>vs. l_stack (snd res) = l_stack s @ vs))"

lemma moved_refl [simp]: "moved r r"
  by (simp add: moved_def)

lemma moved_trans: "moved r r' \<Longrightarrow> moved r' r'' \<Longrightarrow> moved r r''"
  by (auto simp: moved_def)

lemma moved_le: "moved r r' \<Longrightarrow> left r' \<le> left r"
  by (auto simp: moved_def left_def)

lemma moved_left: "moved r r' \<Longrightarrow> left r < n \<Longrightarrow> left r' < n"
  by (auto simp: moved_def left_def)

lemma errors_later: "e \<in> errors i s' r' \<Longrightarrow> grown s s' \<Longrightarrow> length (l_stack s') + left r' + i \<le> length (l_stack s) + left r + j \<Longrightarrow> e \<in> errors j s r"
  by (auto simp: errors_def grown_ci_top split: if_splits)

lemma readNumber_moved [simp]: "moved r (r\<lparr>r_p := r_p r + n\<rparr>)"
  by (simp add: moved_def)

lemma moved_readNumber: "readNumber k r = (v, r') \<Longrightarrow> moved r r' \<and> 0 \<le> v \<and> v < 256 ^ k"
proof -
  assume e: "readNumber k r = (v, r')"
  have "le_val (take k (drop (r_p r) (r_data r))) < 256 ^ k" if "r_p r + k \<le> length (r_data r)"
    using le_val_bound [of "take k (drop (r_p r) (r_data r))"] that by simp
  with e le_val_nonneg show ?thesis by (auto simp: readNumber_def moved_def split: if_splits)
qed

lemma grown_plain: "grown s s' \<Longrightarrow> heap_ok s \<Longrightarrow> plain s v \<Longrightarrow> plain s' v"
  by (cases v) (auto dest: grown_heap)

lemma pool_grown:
  assumes "pool_ok st s" "grown s s'" "heap_ok s" "l_stack s' = l_stack s @ vs"
  shows "pool_ok st s'"
proof -
  obtain p t where p: "l_stack s ! (nat (rs_handle st) - 1) = LTable p" "l_heap s p = Some t"
    "\<forall>k. valid_key k \<longrightarrow> tget t k = LNil \<or> (\<exists>b. tget t k = LString b)"
    and h: "0 < rs_handle st" "nat (rs_handle st) \<le> length (l_stack s)"
    using assms(1) by (auto simp: pool_ok_def)
  have "l_stack s' ! (nat (rs_handle st) - 1) = LTable p" using p(1) h assms(4) by (auto simp: nth_append)
  with p(3) h grown_heap [OF assms(2,3) p(2)] assms(4) show ?thesis by (auto simp: pool_ok_def)
qed

lemma to_int32_range: "- (2 ^ 31) \<le> to_int32 n" "to_int32 n < 2 ^ 31"
  using sint_range_size [of "word_of_int n :: 32 word"] by (simp_all add: to_int32_def word_size)

lemma to_int32_small: "0 \<le> n \<Longrightarrow> n < 2 ^ 31 \<Longrightarrow> to_int32 n = n"
  by (simp add: to_int32_def sint_uint signed_take_bit_eq_if_positive uint_word_of_int bit_iff_odd take_bit_eq_mod)

lemma parsed_push:
  assumes ok: "heap_ok s" and v: "plain s v" and m: "moved r r'" and p: "m s = (Inr (), s\<lparr>l_stack := l_stack s @ [v]\<rparr>)"
  shows "parsed 1 s r (lbind (api_incr_top m) (\<lambda>_. lret (True, r')) s)"
proof (cases "length (l_stack s) < l_ci_top s")
  case True
  have "plain (s\<lparr>l_stack := l_stack s @ [v]\<rparr>) v" using v by (cases v) simp_all
  then show ?thesis using True ok m p by (simp add: parsed_def lbind_run api)
next
  case False
  then show ?thesis using ok p by (simp add: parsed_def lbind_run api errors_def)
qed

lemma parsed_fail: "grown s s' \<Longrightarrow> l_stack s' = l_stack s @ vs \<Longrightarrow> parsed j s r (Inr (False, r'), s')"
  by (auto simp: parsed_def)

lemma parsed_error: "grown s s' \<Longrightarrow> e \<in> errors j s r \<Longrightarrow> parsed j s r (Inl e, s')"
  by (auto simp: parsed_def)

lemma parsedE:
  assumes "parsed j s r (m s)"
  obtains (good) r' s' v where "m s = (Inr (True, r'), s')" "grown s s'" "moved r r'"
      "l_stack s' = l_stack s @ [v]" "plain s' v"
  | (fail) r' s' vs where "m s = (Inr (False, r'), s')" "grown s s'" "l_stack s' = l_stack s @ vs"
  | (error) e s' where "m s = (Inl e, s')" "grown s s'" "e \<in> errors j s r"
proof -
  obtain x s' where m: "m s = (x, s')" by fastforce
  show ?thesis
  proof (cases x)
    case (Inl e)
    with assms m that(3) show ?thesis by (simp add: parsed_def)
  next
    case (Inr y)
    obtain ok r' where "y = (ok, r')" by fastforce
    with assms m Inr that(1,2) show ?thesis by (cases ok) (auto simp: parsed_def)
  qed
qed

lemma getString_parsed:
  assumes "heap_ok s" "pool_ok st s"
  shows "rs_size st < i \<or> (\<exists>v. lua_rawgeti (rs_handle st) (to_int32 (int i)) s = (Inr (), s\<lparr>l_stack := l_stack s @ [v]\<rparr>) \<and> plain s v)"
proof (cases "i \<le> rs_size st")
  case True
  obtain p t where p: "l_stack s ! (nat (rs_handle st) - 1) = LTable p" "l_heap s p = Some t"
    "\<forall>k. valid_key k \<longrightarrow> tget t k = LNil \<or> (\<exists>b. tget t k = LString b)"
    and h: "0 < rs_handle st" "nat (rs_handle st) \<le> length (l_stack s)"
    using assms(2) by (auto simp: pool_ok_def)
  let ?k = "LNumber (cast_num (to_int32 (int i)))"
  have vk: "valid_key ?k" using cast_num_finite(2) [of "to_int32 (int i)"] to_int32_range [of "int i"] by (simp add: abs_if)
  have "plain s (tget t ?k)" using p(3) [rule_format, OF vk] by auto
  moreover have "lua_rawgeti (rs_handle st) (to_int32 (int i)) s = (Inr (), s\<lparr>l_stack := l_stack s @ [tget t ?k]\<rparr>)"
    by (rule rawgeti_run [OF assms(1) h p(1,2) to_int32_range])
  ultimately show ?thesis by blast
qed simp

text \<open>The items of an array, under construction in the table \<open>a\<close> at the top of the stack.\<close>

definition building :: "lua_State \<Rightarrow> lua_State \<Rightarrow> addr \<Rightarrow> nat \<Rightarrow> bool" where
  "building s0 s a n \<longleftrightarrow> grown s0 s \<and> l_brk s0 \<le> a \<and> l_stack s = l_stack s0 @ [LTable a] \<and>
     (\<exists>t. l_heap s a = Some t \<and> n \<le> sizearray t)"

lemma building_ok: "building s0 s a n \<Longrightarrow> heap_ok s"
  by (auto simp: building_def dest: grown_ok)

lemma building_create:
  assumes "heap_ok s" "wf_table t" "n \<le> sizearray t"
  shows "building s (s\<lparr>l_brk := l_brk s + 64, l_heap := (l_heap s)(l_brk s \<mapsto> t),
    l_stack := l_stack s @ [LTable (l_brk s)]\<rparr>) (l_brk s) n"
  using grown_create [OF assms(1,2)] assms(3) by (simp add: building_def)

lemma building_grown:
  assumes "building s0 s a n" "grown s s'" "l_stack s' = l_stack s @ vs"
  shows "grown s0 s'" "l_stack s' = l_stack s0 @ LTable a # vs" "\<exists>t. l_heap s' a = Some t \<and> n \<le> sizearray t"
    "l_brk s0 \<le> a" "a < l_brk s'"
proof -
  obtain t where t: "grown s0 s" "l_brk s0 \<le> a" "l_stack s = l_stack s0 @ [LTable a]" "l_heap s a = Some t" "n \<le> sizearray t"
    using assms(1) by (auto simp: building_def)
  note h = grown_heap [OF assms(2) grown_ok [OF t(1)] t(4)]
  show "grown s0 s'" by (rule grown_trans [OF t(1) assms(2)])
  show "l_stack s' = l_stack s0 @ LTable a # vs" "l_brk s0 \<le> a" using assms(3) t by simp_all
  show "\<exists>t. l_heap s' a = Some t \<and> n \<le> sizearray t" using h t(5) by blast
  show "a < l_brk s'" by (rule heap_okD(2) [OF grown_ok [OF assms(2)] h])
qed

lemma parsed_building: "building s0 s a n \<Longrightarrow> moved r r' \<Longrightarrow> parsed j s0 r (Inr (True, r'), s)"
  by (auto simp: parsed_def building_def)

definition parses :: "nat \<Rightarrow> ReaderStrings \<Rightarrow> nat \<Rightarrow> parse_fun \<Rightarrow> bool" where
  "parses j st n pv \<longleftrightarrow> (\<forall>s r. heap_ok s \<longrightarrow> pool_ok st s \<longrightarrow> left r < n \<longrightarrow> parsed j s r (pv r s))"

lemma building_step:
  assumes pv: "parses j st n pv" and b: "building s0 s a m" and p: "pool_ok st s0" and ok: "heap_ok s0"
    and r: "left r < n"
  shows "pool_ok st s \<and> parsed j s r (pv r s)"
proof -
  have "pool_ok st s" using b pool_grown [OF p _ ok] by (auto simp: building_def)
  with pv building_ok [OF b] r show ?thesis by (simp add: parses_def)
qed

lemma parsed_mono: "parsed i s r' x \<Longrightarrow> moved r r' \<Longrightarrow> left r' + i \<le> left r + j \<Longrightarrow> parsed j s r x"
proof -
  assume "parsed i s r' x" "moved r r'" and l: "left r' + i \<le> left r + j"
  moreover have "e \<in> errors j s r" if "e \<in> errors i s r'" for e using that l by (auto simp: errors_def split: if_splits)
  ultimately show ?thesis by (auto simp: parsed_def intro: moved_trans split: sum.splits if_splits)
qed

lemma parsed_later: "moved r r' \<Longrightarrow> parsed j s r' x \<Longrightarrow> parsed j s r x"
  by (erule parsed_mono) (simp_all add: moved_le)

lemma parse_items_parsed:
  assumes pv: "parses 0 st n pv" and p: "pool_ok st s0" and ok: "heap_ok s0"
  shows "building s0 s a (i + c) \<Longrightarrow> i + c \<le> 2 ^ 26 \<Longrightarrow> left r < n \<Longrightarrow>
    parsed 1 s0 r (parse_items pv i c r s)"
proof (induction c arbitrary: i s r)
  case 0
  then show ?case by (simp add: parsed_building)
next
  case (Suc c)
  note b = Suc.prems(1)
  from building_step [OF pv b p ok Suc.prems(3), THEN conjunct2] show ?case
  proof (cases rule: parsedE)
    case (fail r' s' vs)
    then show ?thesis using parsed_fail [OF building_grown(1,2) [OF b fail(2,3)]] by simp
  next
    case (error e s')
    have "e \<in> errors 1 s0 r" by (rule errors_later [OF error(3)]) (use b in \<open>simp_all add: building_def\<close>)
    then show ?thesis using parsed_error [OF grown_trans [OF _ error(2)]] error(1) b by (simp add: building_def)
  next
    case (good r' s' v)
    note g = building_grown [OF b good(2,4)]
    obtain t where t: "l_heap s' a = Some t" "i + Suc c \<le> sizearray t" using g(3) by blast
    have ok': "heap_ok s'" by (rule grown_ok [OF g(1)])
    have wf: "wf_table t" by (rule heap_okD(1) [OF ok' t(1)])
    let ?t = "slot_set t (SArray i) v"
    let ?s = "s'\<lparr>l_heap := (l_heap s')(a \<mapsto> ?t), l_stack := l_stack s0 @ [LTable a]\<rparr>"
    have "lua_rawseti (- 2) (int i + 1) s' = (Inr (), ?s)"
      by (rule rawseti_array [OF ok' _ t(1)]) (use g(2) t(2) in simp_all)
    moreover have "to_int32 (int i) = int i" by (rule to_int32_small) (use Suc.prems(2) in simp_all)
    ultimately have eq: "parse_items pv i (Suc c) r s = parse_items pv (Suc i) c r' ?s"
      using good(1) by (simp add: lbind_run)
    note as = array_assigned [OF wf, of i v]
    have "building s0 ?s a (Suc i + c)"
      using grown_set [OF g(1,4,5), of ?t] as g(4) t(2) by (simp add: building_def assigned_def del: slot_set.simps)
    then have "parsed 1 s0 r' (parse_items pv (Suc i) c r' ?s)"
      by (rule Suc.IH) (use Suc.prems(2) moved_left [OF good(3) Suc.prems(3)] in simp_all)
    with good(3) show ?thesis unfolding eq by (rule parsed_later)
  qed
qed

text \<open>One entry of a table.\<close>

lemma building_rawset:
  assumes b: "grown s0 s" "l_brk s0 \<le> a" "l_stack s = l_stack s0 @ [LTable a, k, v]" "l_heap s a = Some t"
    and k: "plain s k"
  obtains t' where "lua_rawset (- 3) s =
      (Inr (), s\<lparr>l_heap := (l_heap s)(a \<mapsto> t'), l_stack := l_stack s0 @ [LTable a]\<rparr>)" "assigned t k v t'"
      "building s0 (s\<lparr>l_heap := (l_heap s)(a \<mapsto> t'), l_stack := l_stack s0 @ [LTable a]\<rparr>) a 0"
  | e where "lua_rawset (- 3) s = (Inl e, s)" "e \<in> parse_errors"
proof -
  have nd: "\<forall>p. k \<noteq> LDeadKey p" using k by auto
  have ok: "heap_ok s" by (rule grown_ok [OF b(1)])
  from ok b(3,4) nd show ?thesis
  proof (cases rule: rawset_cases)
    case (stored t')
    have "wf_table t'" using stored(2) by (simp add: assigned_def)
    with grown_set [OF b(1,2) heap_okD(2) [OF ok b(4)]] b(2) that(1) stored show ?thesis
      by (simp add: building_def)
  next
    case (overflow m)
    then show ?thesis using that(2) by (auto simp: parse_errors_def)
  qed
qed

lemma parse_pairs_parsed:
  assumes pv: "parses 0 st n pv" and p: "pool_ok st s0" and ok: "heap_ok s0"
  shows "building s0 s a 0 \<Longrightarrow> left r < n \<Longrightarrow> parsed 2 s0 r (parse_pairs pv c r s)"
proof (induction c arbitrary: s r)
  case 0
  then show ?case by (simp add: parsed_building)
next
  case (Suc c)
  note b = Suc.prems(1)
  note k = building_step [OF pv b p ok Suc.prems(2)]
  from k [THEN conjunct2] show ?case
  proof (cases rule: parsedE)
    case (fail r' s' vs)
    then show ?thesis using parsed_fail [OF building_grown(1,2) [OF b fail(2,3)]] by simp
  next
    case (error e s')
    have "e \<in> errors 2 s0 r" by (rule errors_later [OF error(3)]) (use b in \<open>simp_all add: building_def\<close>)
    then show ?thesis using parsed_error [OF grown_trans [OF _ error(2)]] error(1) b by (simp add: building_def)
  next
    case (good r1 s1 v1)
    have ok1: "heap_ok s1" by (rule grown_ok [OF good(2)])
    have p1: "pool_ok st s1" by (rule pool_grown [OF k [THEN conjunct1] good(2) building_ok [OF b] good(4)])
    have l1: "left r1 < n" by (rule moved_left [OF good(3) Suc.prems(2)])
    then have "parsed 0 s1 r1 (pv r1 s1)" using pv ok1 p1 by (simp add: parses_def)
    then show ?thesis
    proof (cases rule: parsedE)
      case (fail r' s' vs)
      have "l_stack s' = l_stack s @ v1 # vs" using fail(3) good(4) by simp
      note g = building_grown [OF b grown_trans [OF good(2) fail(2)] this]
      show ?thesis using fail(1) good(1) parsed_fail [OF g(1,2)] by simp
    next
      case (error e s')
      have "grown s0 s1" using b good(2) grown_trans by (auto simp: building_def)
      then have "e \<in> errors 2 s0 r"
        by (rule errors_later [OF error(3)]) (use b good(4) moved_le [OF good(3)] in \<open>simp add: building_def\<close>)
      then show ?thesis using error(1) good(1) b
          parsed_error [OF grown_trans [OF _ grown_trans [OF good(2) error(2)]]] by (simp add: building_def)
    next
      case v: (good r2 s2 v2)
      have st2: "l_stack s2 = l_stack s @ [v1, v2]" using good(4) v(4) by simp
      note g = building_grown [OF b grown_trans [OF good(2) v(2)] st2]
      obtain t where t: "l_heap s2 a = Some t" using g(3) by blast
      have "plain s2 v1" by (rule grown_plain [OF v(2) ok1 good(5)])
      from g(1,4,2) t this show ?thesis
      proof (cases rule: building_rawset)
        case (1 t')
        have "parsed 2 s0 r2 (parse_pairs pv c r2 (s2\<lparr>l_heap := (l_heap s2)(a \<mapsto> t'), l_stack := l_stack s0 @ [LTable a]\<rparr>))"
          by (rule Suc.IH [OF 1(3) moved_left [OF v(3) l1]])
        with moved_trans [OF good(3) v(3)] have "parsed 2 s0 r (parse_pairs pv c r2 (s2\<lparr>l_heap := (l_heap s2)(a \<mapsto> t'), l_stack := l_stack s0 @ [LTable a]\<rparr>))"
          by (rule parsed_later)
        with 1(1) good(1) v(1) show ?thesis by (simp add: lbind_run)
      next
        case (2 e)
        then have "e \<in> errors 2 s0 r" by (simp add: errors_def)
        then show ?thesis using good(1) v(1) 2(1) parsed_error [OF g(1)] by (simp add: lbind_run)
      qed
    qed
  qed
qed

subsection \<open>The table of parsers\<close>

lemma createtable_building:
  assumes "heap_ok s"
  obtains t where "api_incr_top (lua_createtable na nr) s = (Inr (), s\<lparr>l_brk := l_brk s + 64,
        l_heap := (l_heap s)(l_brk s \<mapsto> t), l_stack := l_stack s @ [LTable (l_brk s)]\<rparr>)"
      "building s (s\<lparr>l_brk := l_brk s + 64, l_heap := (l_heap s)(l_brk s \<mapsto> t),
        l_stack := l_stack s @ [LTable (l_brk s)]\<rparr>) (l_brk s) (nat na)"
      "0 \<le> na" "na \<le> 2 ^ 26" "\<forall>k. valid_key k \<longrightarrow> tget t k = LNil"
  | e s' where "api_incr_top (lua_createtable na nr) s = (Inl e, s')" "grown s s'" "e \<in> errors 1 s r"
  using assms
proof (cases rule: createtable_cases [where na = na and nr = nr])
  case (1 t)
  show ?thesis
  proof (cases "length (l_stack s) < l_ci_top s")
    case True
    then show ?thesis using that(1) building_create [OF assms 1(5), of "nat na"] 1 by (simp add: api)
  next
    case False
    then show ?thesis using that(2) [OF _ grown_create [OF assms 1(5)]] 1(1) by (simp add: api errors_def)
  qed
qed (use that(2) assms in \<open>auto simp: api errors_def parse_errors_def\<close>)

lemma to_int32_mod: "to_int32 n = (n + 2 ^ 31) mod 2 ^ 32 - 2 ^ 31"
  by (simp add: to_int32_def signed_take_bit_eq_take_bit_shift take_bit_eq_mod sint_sbintrunc')

lemma to_int32_nonneg: "0 \<le> n \<Longrightarrow> n < 2 ^ 32 \<Longrightarrow> 0 \<le> to_int32 n \<Longrightarrow> to_int32 n = n"
proof (cases "n < 2 ^ 31")
  case False
  assume n: "n < 2 ^ 32" "0 \<le> to_int32 n"
  have "(n + 2 ^ 31) mod 2 ^ 32 = (n + 2 ^ 31 - 2 ^ 32) mod 2 ^ 32" by (simp only: minus_mod_self2)
  also have "\<dots> = n + 2 ^ 31 - 2 ^ 32" by (rule mod_pos_pos_trivial) (use False n in simp_all)
  finally show ?thesis using n by (simp add: to_int32_mod)
qed (simp add: to_int32_small)

lemma parseArray_parses: "parses 0 st n pv \<Longrightarrow> k \<le> 4 \<Longrightarrow> parses 1 st n (parseArray pv k)"
  unfolding parses_def [of 1 st n "parseArray pv k"]
proof (intro allI impI)
  fix s and r :: BinaryReader
  assume pv: "parses 0 st n pv" and k: "k \<le> 4" and ok: "heap_ok s" and p: "pool_ok st s"
    and r: "left r < n"
  obtain sz r1 where rn: "readNumber k r = (sz, r1)" by fastforce
  note m = moved_readNumber [OF rn]
  from ok show "parsed 1 s r (parseArray pv k r s)"
  proof (cases rule: createtable_building [where r = r and na = "to_int32 sz" and nr = 0])
    case (1 t)
    have "sz < 2 ^ 32" using m power_increasing [OF k, of "256 :: int"] by simp
    then have e: "to_int32 sz = sz" using to_int32_nonneg m 1(3) by simp
    have "parsed 1 s r1 (parse_items pv 0 (nat sz) r1 (s\<lparr>l_brk := l_brk s + 64,
        l_heap := (l_heap s)(l_brk s \<mapsto> t), l_stack := l_stack s @ [LTable (l_brk s)]\<rparr>))"
      by (rule parse_items_parsed [OF pv p ok])
        (use 1(2,4) e m moved_left [OF _ r] in \<open>simp_all add: nat_le_iff\<close>)
    from parsed_later [OF m [THEN conjunct1] this] 1(1) rn show ?thesis by (simp add: parseArray_def)
  next
    case (2 e s')
    then show ?thesis using rn parsed_error [OF 2(2,3)] by (simp add: parseArray_def)
  qed
qed

lemma parseTable_parses: "parses 0 st n pv \<Longrightarrow> 0 < k \<Longrightarrow> parses 1 st n (parseTable pv k)"
  unfolding parses_def [of 1 st n "parseTable pv k"]
proof (intro allI impI)
  fix s and r :: BinaryReader
  assume pv: "parses 0 st n pv" and k: "0 < k" and ok: "heap_ok s" and p: "pool_ok st s"
    and r: "left r < n"
  obtain sz r1 where rn: "readNumber k r = (sz, r1)" by fastforce
  note m = moved_readNumber [OF rn]
  from ok show "parsed 1 s r (parseTable pv k r s)"
  proof (cases rule: createtable_building [where r = r and na = 0 and nr = "to_int32 sz"])
    case (1 t)
    let ?s = "s\<lparr>l_brk := l_brk s + 64, l_heap := (l_heap s)(l_brk s \<mapsto> t), l_stack := l_stack s @ [LTable (l_brk s)]\<rparr>"
    have "parsed 1 s r (parse_pairs pv (nat sz) r1 ?s)"
    proof (cases "sz = 0")
      case True
      then show ?thesis using parsed_building [OF 1(2) m [THEN conjunct1]] by simp
    next
      case False
      then have "left r1 + 2 \<le> left r + 1" using rn k by (auto simp: readNumber_def left_def split: if_splits)
      moreover have "parsed 2 s r1 (parse_pairs pv (nat sz) r1 ?s)"
        by (rule parse_pairs_parsed [OF pv p ok]) (use 1(2) m moved_left [OF _ r] in simp_all)
      ultimately show ?thesis using parsed_mono m by blast
    qed
    with 1(1) rn show ?thesis by (simp add: parseTable_def)
  next
    case (2 e s')
    then show ?thesis using rn parsed_error [OF 2(2,3)] by (simp add: parseTable_def)
  qed
qed

lemma parseString_parses: "parses 1 st n (parseString st k)"
  unfolding parses_def
proof (intro allI impI)
  fix s and r :: BinaryReader
  assume ok: "heap_ok s" and p: "pool_ok st s"
  obtain i r1 where rn: "readNumber k r = (i, r1)" by fastforce
  note m = moved_readNumber [OF rn]
  from getString_parsed [OF ok p, of "nat i"]
  show "parsed 1 s r (parseString st k r s)"
  proof (elim disjE exE conjE)
    assume "rs_size st < nat i"
    then show ?thesis using rn parsed_fail [of s s "[]" 1 r r1] ok by (simp add: parseString_def getString_def lbind_run)
  next
    fix v assume v: "lua_rawgeti (rs_handle st) (to_int32 (int (nat i))) s = (Inr (), s\<lparr>l_stack := l_stack s @ [v]\<rparr>)" "plain s v"
    show ?thesis
    proof (cases "nat i \<le> rs_size st")
      case True
      then have "parseString st k r s = lbind (api_incr_top (lua_rawgeti (rs_handle st) (to_int32 (int (nat i))))) (\<lambda>_. lret (True, r1)) s"
        using rn by (simp add: parseString_def getString_def lbind_run split: prod.split sum.split)
      moreover have "parsed 1 s r (lbind (api_incr_top (lua_rawgeti (rs_handle st) (to_int32 (int (nat i))))) (\<lambda>_. lret (True, r1)) s)"
        by (rule parsed_push [OF ok v(2)]) (use m v(1) in simp_all)
      ultimately show ?thesis by simp
    next
      case False
      then show ?thesis using rn parsed_fail [of s s "[]" 1 r r1] ok by (simp add: parseString_def getString_def lbind_run)
    qed
  qed
qed

lemma parseTable0_parses: "parses 1 st n parseTable0"
  unfolding parses_def
proof (intro allI impI)
  fix s and r :: BinaryReader assume ok: "heap_ok s"
  from ok show "parsed 1 s r (parseTable0 r s)"
  proof (cases rule: createtable_building [where r = r and na = 0 and nr = 0])
    case (1 t)
    then show ?thesis using parsed_building [OF 1(2), of r r] by (simp add: parseTable0_def lua_newtable_def)
  next
    case (2 e s')
    then show ?thesis using parsed_error [OF 2(2,3)] by (simp add: parseTable0_def lua_newtable_def)
  qed
qed

lemma parse_scalar_parses:
  "parses 1 st n parseEOF" "parses 1 st n parseNil" "parses 1 st n parseTrue" "parses 1 st n parseFalse"
  "parses 1 st n parseZero" "parses 1 st n parseOne" "parses 1 st n (parseInteger k)" "parses 1 st n parseFloat"
  "parses 1 st n parseDouble" "parses 1 st n parseString0"
proof -
  have pp: "parsed 1 s r (lbind (api_incr_top m) (\<lambda>_. lret (True, r')) s)"
    if "heap_ok s" "plain s v" "moved r r'" "m = push v" for s r r' m v
    using parsed_push [OF that(1-3), of m] that(4) by (simp add: push_run)
  show "parses 1 st n parseEOF" using parsed_fail [of s s "[]" 1 for s] by (simp add: parses_def parseEOF_def)
  show "parses 1 st n parseNil" "parses 1 st n parseTrue" "parses 1 st n parseFalse" "parses 1 st n parseZero" "parses 1 st n parseOne"
    "parses 1 st n (parseInteger k)" "parses 1 st n parseFloat" "parses 1 st n parseDouble" "parses 1 st n parseString0"
    unfolding parses_def parseNil_def parseTrue_def parseFalse_def parseZero_def parseOne_def parseInteger_def parseFloat_def
      parseDouble_def parseString0_def readNumber_def Let_def prod.case
    by (intro allI impI, rule pp; simp add: lua_push_run)+
qed

lemma parsers_parse: "parses 0 st n pv \<Longrightarrow> f \<in> set (parsers st pv) \<Longrightarrow> parses 1 st n f"
  using parseArray_parses [of st n pv] parseTable_parses [of st n pv] parseString_parses parseTable0_parses
    parse_scalar_parses [of st n]
  by (auto simp: parsers_def)

lemma length_parsers [simp]: "length (parsers st pv) = T_MAX"
  by (simp add: parsers_def T_MAX_def)

lemma parserValue_parses: "parses 0 st n (parserValue n st)"
proof (induction n)
  case 0
  show ?case by (simp add: parses_def)
next
  case (Suc n)
  show ?case unfolding parses_def
  proof (intro allI impI)
    fix s and r :: BinaryReader
    assume ok: "heap_ok s" and p: "pool_ok st s" and r: "left r < Suc n"
    obtain v r1 where rn: "readNumber 1 r = (v, r1)" by fastforce
    then have ty: "readType r = (nat v, r1)" by (simp add: readType_def)
    note m = moved_readNumber [OF rn]
    have l: "left r1 < n" "left r1 + 1 \<le> left r" if "v \<noteq> 0"
      using rn r that by (auto simp: readNumber_def left_def split: if_splits)
    show "parsed 0 s r (parserValue (Suc n) st r s)"
    proof (cases "nat v \<ge> T_MAX")
      case True
      then show ?thesis using ty parsed_fail [of s s "[]" 0 r r1] ok by simp
    next
      case False
      let ?f = "parsers st (parserValue n st) ! nat v"
      have "?f \<in> set (parsers st (parserValue n st))" using False by simp
      then have f: "parses 1 st n ?f" by (rule parsers_parse [OF Suc.IH])
      have "parsed 0 s r (?f r1 s)"
      proof (cases "v = 0")
        case True
        then show ?thesis using parsed_fail [of s s "[]" 0 r r1] ok by (simp add: parsers_def parseEOF_def)
      next
        case False
        have "parsed 1 s r1 (?f r1 s)" using f ok p l(1) [OF False] unfolding parses_def by blast
        then show ?thesis by (rule parsed_mono) (use m l(2) [OF False] in simp_all)
      qed
      with ty False show ?thesis by simp
    qed
  qed
qed

subsection \<open>The string pool\<close>

definition pooling :: "lua_State \<Rightarrow> lua_State \<Rightarrow> addr \<Rightarrow> nat \<Rightarrow> bool" where
  "pooling s0 s a n \<longleftrightarrow> building s0 s a n \<and>
     (\<exists>t. l_heap s a = Some t \<and> (\<forall>k. valid_key k \<longrightarrow> tget t k = LNil \<or> (\<exists>b. tget t k = LString b)))"

lemma parse_strings_pooling:
  "pooling s0 s a (i + c) \<Longrightarrow> i + c \<le> 2 ^ 26 \<Longrightarrow>
    (\<exists>ok r' s'. parse_strings i c r s = (Inr (ok, r'), s') \<and> pooling s0 s' a (i + c) \<and> (ok \<longrightarrow> moved r r')) \<or>
    (\<exists>s'. parse_strings i c r s = (Inl Overrun, s') \<and> grown s0 s' \<and> l_ci_top s0 < length (l_stack s0) + 2)"
proof (induction c arbitrary: i s r)
  case (Suc c)
  note pl = Suc.prems(1)
  obtain len r1 where rn: "readNumber 2 r = (len, r1)" by fastforce
  note m = moved_readNumber [OF rn]
  obtain x r2 where rb: "readBytes (nat len) r1 = (x, r2)" by fastforce
  show ?case
  proof (cases "len = 0 \<or> x = None")
    case True
    then show ?thesis using rn rb pl by (auto simp: readNumber_def)
  next
    case False
    then obtain b where x: "x = Some b" by blast
    have mv: "moved r r2" using m rb x by (auto simp: readBytes_def moved_def split: if_splits)
    obtain t where b: "building s0 s a (i + Suc c)" and t: "l_heap s a = Some t"
      and str: "\<forall>k. valid_key k \<longrightarrow> tget t k = LNil \<or> (\<exists>b. tget t k = LString b)"
      using pl by (auto simp: pooling_def)
    let ?s1 = "s\<lparr>l_stack := l_stack s @ [LString b]\<rparr>"
    let ?t = "slot_set t (SArray i) (LString b)"
    let ?s = "s\<lparr>l_heap := (l_heap s)(a \<mapsto> ?t)\<rparr>"
    have g1: "grown s ?s1" using building_ok [OF b] by simp
    note g = building_grown [OF b g1, of "[LString b]"]
    show ?thesis
    proof (cases "length (l_stack s) < l_ci_top s")
      case False
      then have "parse_strings i (Suc c) r s = (Inl Overrun, ?s1)"
        using rn rb \<open>\<not> (len = 0 \<or> x = None)\<close> x by (simp add: lbind_run lua_push_run push_run api_incr_top_run)
      then show ?thesis using g(1) b False grown_ci_top [of s0 s] by (auto simp: building_def)
    next
      case room: True
      have iz: "i < sizearray t" "i + Suc c \<le> sizearray t" using g(3) t by auto
      have wf: "wf_table t" by (rule heap_okD(1) [OF building_ok [OF b] t])
      have st: "l_stack s = l_stack s0 @ [LTable a]" using b by (simp add: building_def)
      have "lua_rawseti (- 2) (int i + 1) ?s1 = (Inr (), ?s1\<lparr>l_heap := (l_heap s)(a \<mapsto> ?t), l_stack := l_stack s0 @ [LTable a]\<rparr>)"
        using rawseti_array [of ?s1 "l_stack s0" a "LString b" t i] building_ok [OF b] st t iz by simp
      moreover have "?s1\<lparr>l_heap := (l_heap s)(a \<mapsto> ?t), l_stack := l_stack s0 @ [LTable a]\<rparr> = ?s"
        by (rule state_eqI) (simp_all add: st)
      moreover have "to_int32 (int i) = int i" by (rule to_int32_small) (use Suc.prems(2) in simp_all)
      ultimately have eq: "parse_strings i (Suc c) r s = parse_strings (Suc i) c r2 ?s"
        using rn rb False x room by (simp add: lbind_run lua_push_run push_run api_incr_top_run)
      note as = array_assigned [OF wf iz(1), of "LString b"]
      have "building s0 ?s a (Suc i + c)"
        using grown_set [of s0 s a ?t] b g(4,5) as st iz(2)
        by (simp add: building_def assigned_def del: slot_set.simps)
      moreover have "tget ?t k = LNil \<or> (\<exists>b. tget ?t k = LString b)" if "valid_key k" for k
        using as(1) str that by (simp add: assigned_def del: slot_set.simps)
      ultimately have "pooling s0 ?s a (Suc i + c)" by (simp add: pooling_def del: slot_set.simps)
      then have "(\<exists>ok r' s'. parse_strings (Suc i) c r2 ?s = (Inr (ok, r'), s') \<and> pooling s0 s' a (Suc i + c) \<and> (ok \<longrightarrow> moved r2 r')) \<or>
          (\<exists>s'. parse_strings (Suc i) c r2 ?s = (Inl Overrun, s') \<and> grown s0 s' \<and> l_ci_top s0 < length (l_stack s0) + 2)"
        using Suc.prems(2) by (intro Suc.IH) simp_all
      with moved_trans [OF mv] show ?thesis unfolding eq by auto
    qed
  qed
qed auto

lemma rs_parse_cases:
  assumes ok: "heap_ok s"
  obtains (good) st r' s' a where "rs_parse r s = (Inr (True, st, r'), s')" "grown s s'" "moved r r'"
      "l_stack s' = l_stack s @ [LTable a]" "pool_ok st s'" "rs_handle st = int (length (l_stack s)) + 1"
  | (fail) st r' s' vs where "rs_parse r s = (Inr (False, st, r'), s')" "grown s s'" "l_stack s' = l_stack s @ vs"
  | (error) e s' where "rs_parse r s = (Inl e, s')" "grown s s'" "e \<in> errors 2 s r"
proof -
  obtain sz r1 where rn: "readNumber 4 r = (sz, r1)" by fastforce
  note m = moved_readNumber [OF rn]
  from ok show ?thesis
  proof (cases rule: createtable_building [where r = r and na = "to_int32 sz" and nr = 0])
    case (1 t)
    have e: "to_int32 sz = sz" using to_int32_nonneg m 1(3) by simp
    let ?a = "l_brk s"
    let ?s = "s\<lparr>l_brk := ?a + 64, l_heap := (l_heap s)(?a \<mapsto> t), l_stack := l_stack s @ [LTable ?a]\<rparr>"
    have "pooling s ?s ?a (nat sz)" using 1(2,5) e by (simp add: pooling_def)
    then consider (read) b r' s' where "parse_strings 0 (nat sz) r1 ?s = (Inr (b, r'), s')" "pooling s s' ?a (nat sz)" "b \<longrightarrow> moved r1 r'"
      | (full) s' where "parse_strings 0 (nat sz) r1 ?s = (Inl Overrun, s')" "grown s s'" "l_ci_top s < length (l_stack s) + 2"
      using parse_strings_pooling [of s ?s ?a 0 "nat sz" r1] 1(4) e by (auto simp: nat_le_iff)
    then show ?thesis
    proof cases
      case full
      then show ?thesis using that(3) [OF _ full(2)] rn 1(1) by (simp add: rs_parse_def lbind_run lua_gettop_run errors_def)
    next
      case ps: read
      let ?st = "\<lparr>rs_handle = int (length (l_stack s)) + 1, rs_size = nat sz\<rparr>"
      have eq: "rs_parse r s = (Inr (b, ?st, r'), s')"
        using rn 1(1) ps(1) by (simp add: rs_parse_def lbind_run lua_gettop_run add.commute)
      have g: "grown s s'" "l_stack s' = l_stack s @ [LTable ?a]" using ps(2) by (simp_all add: pooling_def building_def)
      have "pool_ok ?st s'" using ps(2) by (auto simp: pooling_def building_def pool_ok_def nat_add_distrib nth_append)
      show ?thesis
      proof (cases b)
        case True
        then have "moved r r'" using ps(3) m moved_trans by blast
        then show ?thesis using that(1) [of ?st] eq True g \<open>pool_ok ?st s'\<close> by simp
      next
        case False
        then show ?thesis using that(2) [OF _ g] eq by simp
      qed
    qed
  next
    case (2 e s')
    then have "e \<in> errors 2 s r" by (auto simp: errors_def split: if_splits)
    then show ?thesis using rn that(3) [OF _ 2(2)] 2(1) by (simp add: rs_parse_def)
  qed
qed

subsection \<open>The whole parser\<close>

text \<open>What the caller finds on the stack, after an input of \<open>n\<close> bytes.\<close>

definition parse_result :: "nat \<Rightarrow> lua_State \<Rightarrow> (exn + nat) \<times> lua_State \<Rightarrow> bool" where
  "parse_result n s res \<longleftrightarrow> grown s (snd res) \<and>
     (case fst res of
        Inl e \<Rightarrow> e \<in> parse_errors \<or> e = Overrun \<and> l_ci_top s < length (l_stack s) + n + 2
      | Inr k \<Rightarrow> (k = 1 \<and> (\<exists>v. l_stack (snd res) = l_stack s @ [v] \<and> plain (snd res) v)) \<or>
                 (k = 2 \<and> (\<exists>m. l_stack (snd res) = l_stack s @ [LNil, LString m])))"

lemma pushfstring_format: "\<exists>m. lua_pushfstring (str ''Invalid file format %x'') [FInt i] s = push (LString m) s"
  by (simp add: lua_pushfstring_def str_def) blast

lemma pushfstring_version: "\<exists>m. lua_pushfstring (str ''Invalid file version %d'') [FInt i] s = push (LString m) s"
  by (simp add: lua_pushfstring_def str_def) blast

lemma pushfstring_failed: "\<exists>m. lua_pushfstring (str ''Parse failed.'') [] s = push (LString m) s"
  by (simp add: lua_pushfstring_def str_def) blast

lemma parse_result_message:
  assumes "heap_ok s" "\<exists>m. f (s\<lparr>l_stack := l_stack s @ [LNil]\<rparr>) = push (LString m) (s\<lparr>l_stack := l_stack s @ [LNil]\<rparr>)"
  shows "parse_result n s (lbind (lseq [api_incr_top lua_pushnil, api_incr_top f]) (\<lambda>_. lret 2) s)"
  using assms by (auto simp: parse_result_def lua_push_run push_run lbind_run api_incr_top_run)

lemma parseBinaryTable_result:
  assumes ok: "heap_ok s"
  shows "parse_result (length data) s (parseBinaryTable data s)"
proof -
  obtain magic r1 where magic: "readNumber 2 (new_reader data) = (magic, r1)" by fastforce
  obtain version r2 where version: "readNumber 2 r1 = (version, r2)" by fastforce
  note m = moved_readNumber [OF magic] moved_readNumber [OF version]
  have d: "r_data r2 = data" using m by (simp add: moved_def new_reader_def)
  note top = lua_gettop_run [of s]
  have fl: "parse_result (length data) s (lbind (lseq [lua_settop (int (length (l_stack s))), api_incr_top lua_pushnil, api_incr_top (lua_pushfstring (str ''Parse failed.'') [])])
      (\<lambda>_. lret 2) s')" if g: "grown s s'" and st: "l_stack s' = l_stack s @ vs" for s' vs
  proof -
    have "parse_result (length data) (s'\<lparr>l_stack := l_stack s\<rparr>) (lbind (lseq [api_incr_top lua_pushnil, api_incr_top (lua_pushfstring (str ''Parse failed.'') [])])
        (\<lambda>_. lret 2) (s'\<lparr>l_stack := l_stack s\<rparr>))"
      by (rule parse_result_message) (use grown_ok [OF g] pushfstring_failed in simp_all)
    then show ?thesis using g st grown_ci_top [OF g]
      by (auto simp: parse_result_def lua_settop_cut lbind_run split: sum.splits intro: grown_trans)
  qed
  show ?thesis
  proof (cases "magic = MAGIC_NUMBER \<and> version = LUABT_VERSION")
    case False
    then show ?thesis
      using magic version top parse_result_message [OF ok, of "lua_pushfstring (str ''Invalid file format %x'') [FInt magic]", OF pushfstring_format]
        parse_result_message [OF ok, of "lua_pushfstring (str ''Invalid file version %d'') [FInt version]", OF pushfstring_version]
      by (simp add: parseBinaryTable_def)
  next
    case True
    have eq: "parseBinaryTable data s = lbind (rs_parse r2) (\<lambda>(ok, st, r3).
       lbind (if ok then parserValue (Suc (length data)) st r3 else lret (False, r3)) (\<lambda>(ok2, r4).
         if \<not> ok2 then
           lbind (lseq [lua_settop (int (length (l_stack s))), api_incr_top lua_pushnil, api_incr_top (lua_pushfstring (str ''Parse failed.'') [])]) (\<lambda>_. lret 2)
         else lbind (rs_destroy st) (\<lambda>_. lret 1))) s"
      using True magic version top by (simp add: parseBinaryTable_def)
    from ok show ?thesis
    proof (cases rule: rs_parse_cases [where r = r2])
      case (error e s')
      have "left r2 \<le> length data" using d by (simp add: left_def)
      then show ?thesis using error by (auto simp: eq parse_result_def errors_def split: if_splits)
    next
      case (fail st r' s' vs)
      then show ?thesis using fl [OF fail(2,3)] by (simp add: eq lbind_run)
    next
      case (good st r' s' a)
      have l: "left r' < Suc (length data)" using good(3) d by (simp add: moved_def left_def)
      then have "parsed 0 s' r' (parserValue (Suc (length data)) st r' s')"
        using parserValue_parses [of st "Suc (length data)"] good(5) grown_ok [OF good(2)]
        unfolding parses_def by blast
      then show ?thesis
      proof (cases rule: parsedE)
        case (error e s'')
        have "e \<in> parse_errors \<or> e = Overrun \<and> l_ci_top s < length (l_stack s) + length data + 2"
          using error(3) l good(4) grown_ci_top [OF good(2)] by (auto simp: errors_def split: if_splits)
        then show ?thesis using error(1) good grown_trans [OF good(2) error(2)] by (simp add: eq parse_result_def)
      next
        case (fail r'' s'' vs)
        then show ?thesis using fl [OF grown_trans [OF good(2) fail(2)], of "LTable a # vs"] good(1,4)
          by (simp add: eq lbind_run)
      next
        case v: (good r'' s'' v)
        have st: "l_stack s'' = l_stack s @ [LTable a, v]" using v(4) good(4) by simp
        have "rs_destroy st s'' = (Inr (st\<lparr>rs_handle := 0\<rparr>), s''\<lparr>l_stack := l_stack s @ [v]\<rparr>)"
          using good(6) st by (simp add: rs_destroy_def lbind_run lua_remove_pos nat_add_distrib)
        moreover have "plain (s''\<lparr>l_stack := l_stack s @ [v]\<rparr>) v" using v(5) by (cases v) simp_all
        ultimately show ?thesis using good(1) v(1) grown_trans [OF good(2) v(2)]
          by (simp add: eq lbind_run parse_result_def del: parserValue.simps)
      qed
    qed
  qed
qed

end
