(* ===== verification/Binary_Decode.thy ===== *)
theory Binary_Decode
  imports Binary_Format Binary_Reader_Props
begin

text \<open>
  The parser on the encoding of a document: if its frame has the slots that the nesting of the document takes, it succeeds, consumes
  exactly the encoding and leaves a value that denotes the document, and otherwise it overruns its frame.
\<close>

subsection \<open>Reading tags and numbers\<close>

lemma rest_tag:
  assumes "rest r = of_nat t # cs" "t < 256"
  obtains r' where "readType r = (t, r')" "rest r' = cs"
proof -
  have "rest r = le_bytes 1 (int t) @ cs" using assms by simp
  from readNumber_rest [OF this] assms(2) have "fst (readNumber 1 r) = int t" "rest (snd (readNumber 1 r)) = cs" by simp_all
  then show ?thesis using that [of "snd (readNumber 1 r)"] by (simp add: readType_def split_def)
qed

lemma rest_number:
  assumes "rest r = le_bytes k v @ cs" "0 < k"
  obtains r' where "readNumber k r = (v mod 256 ^ k, r')" "rest r' = cs"
proof -
  have e: "le_bytes k v = le_bytes k (v mod 256 ^ k)"
    using le_bytes_le_val [of "le_bytes k v"] by (simp add: le_val_le_bytes)
  have "rest r = le_bytes k (v mod 256 ^ k) @ cs" using assms(1) e by simp
  from readNumber_rest [OF this assms(2)] that [of "snd (readNumber k r)"] show ?thesis
    by (simp add: split_def) (metis prod.collapse)
qed

lemma to_signed_mod:
  assumes "k \<in> {1, 2, 4, 8}" "- (2 ^ (8 * k - 1)) \<le> v" "v < 2 ^ (8 * k - 1)"
  shows "to_signed k (v mod 256 ^ k) = v"
proof -
  obtain M :: int where M: "256 ^ k = 2 * M" "2 ^ (8 * k - 1) = M" "0 < M"
    using assms(1) that [of "2 ^ (8 * k - 1)"] by fastforce
  show ?thesis
  proof (cases "0 \<le> v")
    case True
    then have "v mod (2 * M) = v" using assms(3) M by simp
    with True assms(3) M show ?thesis by (simp add: to_signed_def)
  next
    case False
    have "v mod (2 * M) = (v + 2 * M) mod (2 * M)" by simp
    also have "\<dots> = v + 2 * M" by (rule mod_pos_pos_trivial) (use False assms(2) M in simp_all)
    finally show ?thesis using False assms(2) M by (simp add: to_signed_def)
  qed
qed

subsection \<open>Parsing scalars\<close>

definition overruns :: "'a lua \<Rightarrow> lua_State \<Rightarrow> bool" where
  "overruns m s \<longleftrightarrow> (\<exists>s'. m s = (Inl Overrun, s'))"

lemma overrunsI: "m s = (Inl Overrun, s') \<Longrightarrow> overruns m s"
  by (auto simp: overruns_def)

lemma overruns_lbind: "overruns m s \<Longrightarrow> overruns (lbind m k) s"
  by (auto simp: overruns_def)

lemma building_fits: "building s0 s a k \<Longrightarrow> fits s n = fits s0 (Suc n)"
  using fits_grown [of s0 s "[LTable a]" n] by (simp add: building_def)

text \<open>If there is room, the parser at \<open>r\<close> pushes \<open>v\<close> and goes on at \<open>cs\<close>.\<close>

definition yields :: "parse_fun \<Rightarrow> BinaryReader \<Rightarrow> lua_State \<Rightarrow> TValue \<Rightarrow> bytes \<Rightarrow> bool" where
  "yields pf r s v cs \<longleftrightarrow> (if fits s 1 then \<exists>r'. pf r s = (Inr (True, r'), s\<lparr>l_stack := l_stack s @ [v]\<rparr>) \<and> rest r' = cs
     else overruns (pf r) s)"

lemma yieldsI:
  assumes "pf r = lbind (api_incr_top m) (\<lambda>_. lret (True, r'))" "m s = (Inr (), s\<lparr>l_stack := l_stack s @ [v]\<rparr>)" "rest r' = cs"
  shows "yields pf r s v cs"
  using assms by (auto simp: yields_def fits_def overruns_def lbind_run api_incr_top_run)

lemma parserValue_tag:
  assumes "rest r = of_nat t # cs" "t < T_MAX"
  obtains r1 where "rest r1 = cs" "parserValue (Suc n) st r s = (parsers st (parserValue n st) ! t) r1 s"
proof -
  obtain r1 where "readType r = (t, r1)" "rest r1 = cs"
    by (rule rest_tag [OF assms(1)]) (use assms(2) in \<open>simp add: T_MAX_def\<close>)
  then show ?thesis using that assms(2) by simp
qed

lemma yields_tag:
  assumes "rest r = of_nat t # cs" "t < T_MAX"
    and "\<And>r1. rest r1 = cs \<Longrightarrow> yields (parsers st (parserValue n st) ! t) r1 s v cs'"
  shows "yields (parserValue (Suc n) st) r s v cs'"
proof -
  obtain r1 where "rest r1 = cs" "parserValue (Suc n) st r s = (parsers st (parserValue n st) ! t) r1 s"
    by (rule parserValue_tag [OF assms(1,2)])
  with assms(3) [of r1] show ?thesis by (auto simp: yields_def overruns_def simp del: parserValue.simps split: if_splits)
qed

lemmas parser_at = parsers_def type_defs nth_Cons_numeral

lemma yields_const:
  "rest r = cs \<Longrightarrow> yields parseNil r s LNil cs" "rest r = cs \<Longrightarrow> yields parseTrue r s (LBoolean True) cs"
  "rest r = cs \<Longrightarrow> yields parseFalse r s (LBoolean False) cs" "rest r = cs \<Longrightarrow> yields parseString0 r s (LString []) cs"
  "rest r = cs \<Longrightarrow> yields parseZero r s (LNumber (cast_num 0)) cs" "rest r = cs \<Longrightarrow> yields parseOne r s (LNumber (cast_num 1)) cs"
  by (rule yieldsI, simp only: parseNil_def parseTrue_def parseFalse_def parseString0_def parseZero_def
      parseOne_def, simp add: lua_push_run push_run, assumption)+

lemma yields_integer:
  assumes "rest r = le_bytes k v @ cs" "k \<in> {1, 2, 4, 8}" "- (2 ^ (8 * k - 1)) \<le> v" "v < 2 ^ (8 * k - 1)"
  shows "yields (parseInteger k) r s (LNumber (cast_num v)) cs"
proof -
  have "0 < k" using assms(2) by auto
  then obtain r' where "readNumber k r = (v mod 256 ^ k, r')" "rest r' = cs" by (rule rest_number [OF assms(1)])
  then show ?thesis using to_signed_mod [OF assms(2-4)]
    by (intro yieldsI [where m = "push (LNumber (cast_num v))"]) (simp_all add: parseInteger_def lua_pushinteger_def, simp add: push_run)
qed

lemma int_width_range:
  assumes "- (2 ^ 63) \<le> v" "v < 2 ^ 63"
  shows "int_width v \<in> {1, 2, 4, 8}" "- (2 ^ (8 * int_width v - 1)) \<le> v" "v < 2 ^ (8 * int_width v - 1)"
  using assms by (simp_all add: int_width_def)

lemma yields_enc_int:
  assumes "rest r = enc_int v @ cs" "- (2 ^ 63) \<le> v" "v < 2 ^ 63"
  shows "yields (parserValue (Suc n) st) r s (LNumber (cast_num v)) cs"
proof -
  consider "v = 0" | "v = 1" | "v \<noteq> 0" "v \<noteq> 1" by blast
  then show ?thesis
  proof cases
    case 1
    with assms(1) have "rest r = of_nat T_ZERO # cs" by (simp add: enc_int_def)
    then show ?thesis by (rule yields_tag) (use yields_const(5) 1 in \<open>simp_all add: parser_at\<close>)
  next
    case 2
    with assms(1) have "rest r = of_nat T_ONE # cs" by (simp add: enc_int_def)
    then show ?thesis by (rule yields_tag) (use yields_const(6) 2 in \<open>simp_all add: parser_at\<close>)
  next
    case 3
    let ?k = "int_width v"
    note w = int_width_range [OF assms(2,3)]
    have "rest r = of_nat (int_tag ?k) # le_bytes ?k v @ cs" using 3 assms(1) by (simp add: enc_int_def)
    then show ?thesis
    proof (rule yields_tag)
      show "int_tag ?k < T_MAX" by (simp add: int_tag_def type_defs)
      fix r1 assume "rest r1 = le_bytes ?k v @ cs"
      from yields_integer [OF this w]
      show "yields (parsers st (parserValue n st) ! int_tag ?k) r1 s (LNumber (cast_num v)) cs"
        using w(1) by (auto simp: int_tag_def parser_at)
    qed
  qed
qed

lemma yields_enc_num:
  assumes "rest r = enc_num x @ cs" "num_ok x"
  shows "yields (parserValue (Suc n) st) r s (canon (LNumber x)) cs"
proof (cases "\<not> dbl_isnan x \<and> dbl_integral x")
  case True
  with assms(2) have f: "dbl_isfinite x" "- (2 ^ 63) \<le> dbl_trunc x" "dbl_trunc x < 2 ^ 63" by (simp_all add: num_ok_def)
  then have t: "dbl_to_int 64 x = dbl_trunc x" by (simp add: dbl_to_int_def)
  have "cast_num (dbl_trunc x) = (if dbl_mag x = 0 then 0 else x)" by (rule cast_num_trunc) (use f True in simp_all)
  moreover have "yields (parserValue (Suc n) st) r s (LNumber (cast_num (dbl_trunc x))) cs"
    by (rule yields_enc_int) (use assms(1) True t f in \<open>simp_all add: enc_num_def\<close>)
  ultimately show ?thesis by simp
next
  case False
  then have m: "dbl_mag x \<noteq> 0" using mag_0_integral [of x] by (auto simp: dbl_isnan_def dbl_exp_def dbl_frac_def)
  have "rest r = of_nat T_DOUBLE # le_bytes 8 (uint x) @ cs" using False assms(1) by (auto simp: enc_num_def)
  then show ?thesis
  proof (rule yields_tag)
    fix r1 assume "rest r1 = le_bytes 8 (uint x) @ cs"
    then obtain r' where r': "readNumber 8 r1 = (uint x mod 256 ^ 8, r')" "rest r' = cs" by (rule rest_number) simp
    have "uint x < 2 ^ 64" using uint_lt2p [of x] by simp
    with r' m show "yields (parsers st (parserValue n st) ! T_DOUBLE) r1 s (canon (LNumber x)) cs"
      by (intro yieldsI [where m = "push (LNumber x)"]) (simp_all add: parser_at parseDouble_def lua_pushnumber_def, simp add: push_run)
  qed (simp add: type_defs)
qed

subsection \<open>Strings of the pool\<close>

definition pool_has :: "ReaderStrings \<Rightarrow> bytes list \<Rightarrow> lua_State \<Rightarrow> bool" where
  "pool_has st pool s \<longleftrightarrow> 0 < rs_handle st \<and> nat (rs_handle st) \<le> length (l_stack s) \<and> rs_size st = length pool \<and>
     (\<exists>p t. l_stack s ! (nat (rs_handle st) - 1) = LTable p \<and> l_heap s p = Some t \<and>
        (\<forall>i < length pool. tgeti t (Suc i) = LString (pool ! i)))"

lemma pool_has_grown:
  assumes "pool_has st pool s" "grown s s'" "heap_ok s" "l_stack s' = l_stack s @ vs"
  shows "pool_has st pool s'"
proof -
  obtain p t where p: "l_stack s ! (nat (rs_handle st) - 1) = LTable p" "l_heap s p = Some t"
    "\<forall>i < length pool. tgeti t (Suc i) = LString (pool ! i)"
    and h: "0 < rs_handle st" "nat (rs_handle st) \<le> length (l_stack s)" "rs_size st = length pool"
    using assms(1) by (auto simp: pool_has_def)
  have "l_stack s' ! (nat (rs_handle st) - 1) = LTable p" using p(1) h assms(4) by (auto simp: nth_append)
  with p(3) h grown_heap [OF assms(2,3) p(2)] assms(4) show ?thesis by (auto simp: pool_has_def)
qed

lemma pool_index_nth:
  assumes "b \<in> set pool"
  shows "0 < pool_index pool b" "pool_index pool b \<le> length pool" "pool ! (pool_index pool b - 1) = b"
proof -
  let ?n = "length (takeWhile (\<lambda>x. x \<noteq> b) pool)"
  have n: "?n < length pool" proof (rule ccontr)
    assume "\<not> ?n < length pool"
    then have "takeWhile (\<lambda>x. x \<noteq> b) pool = pool" using takeWhile_eq_take [of "\<lambda>x. x \<noteq> b" pool] by simp
    with assms show False by (auto simp: takeWhile_eq_all_conv)
  qed
  with nth_length_takeWhile [OF n] show "0 < pool_index pool b" "pool_index pool b \<le> length pool" "pool ! (pool_index pool b - 1) = b"
    by (simp_all add: pool_index_def)
qed

lemma getString_yields:
  assumes "heap_ok s" "pool_has st pool s" "b \<in> set pool" "length pool \<le> 2 ^ 26"
  shows "getString st (pool_index pool b) s = (if fits s 1 then Inr True else Inl Overrun, s\<lparr>l_stack := l_stack s @ [LString b]\<rparr>)"
proof -
  obtain p t where p: "l_stack s ! (nat (rs_handle st) - 1) = LTable p" "l_heap s p = Some t"
    "\<forall>i < length pool. tgeti t (Suc i) = LString (pool ! i)"
    and h: "0 < rs_handle st" "nat (rs_handle st) \<le> length (l_stack s)" "rs_size st = length pool"
    using assms(2) by (auto simp: pool_has_def)
  let ?i = "pool_index pool b"
  note i = pool_index_nth [OF assms(3)]
  have "tgeti t ?i = LString b" using p(3) [rule_format, of "?i - 1"] i by simp
  moreover have "lua_rawgeti (rs_handle st) (int ?i) s = (Inr (), s\<lparr>l_stack := l_stack s @ [tgeti t ?i]\<rparr>)"
    by (rule rawgeti_run [OF assms(1) h(1,2) p(1,2)]) (use i assms(4) in simp_all)
  moreover have "to_int32 (int ?i) = int ?i" by (rule to_int32_small) (use i assms(4) in simp_all)
  ultimately show ?thesis using i h by (simp add: getString_def lbind_run api_incr_top_run fits_def)
qed

lemma len_class_width:
  assumes "0 < n" "n < 2 ^ 32"
  shows "len_class n \<in> {1, 2, 3}" "0 < len_width (len_class n)" "int n mod 256 ^ len_width (len_class n) = int n"
  using assms by (simp_all add: len_class_def len_width_def)

lemma parseString_yields:
  assumes "heap_ok s" "pool_has st pool s" "b \<in> set pool" "length pool \<le> 2 ^ 26"
    and "rest r = le_bytes k (int (pool_index pool b)) @ cs" "0 < k" "int (pool_index pool b) mod 256 ^ k = int (pool_index pool b)"
  shows "yields (parseString st k) r s (LString b) cs"
proof -
  obtain r' where "readNumber k r = (int (pool_index pool b), r')" "rest r' = cs"
    by (rule rest_number [OF assms(5,6)]) (simp add: assms(7))
  then show ?thesis using getString_yields [OF assms(1-4)] by (auto simp: yields_def parseString_def overruns_def lbind_run)
qed

lemma yields_scalar:
  assumes "heap_ok s" "pool_has st pool s" "length pool \<le> 2 ^ 26" "scalar_ok pool v"
    and r: "rest r = enc_scalar pool v @ cs"
  shows "yields (parserValue (Suc n) st) r s (canon v) cs"
proof (cases v)
  case LNil
  with r have "rest r = of_nat T_NIL # cs" by simp
  then show ?thesis by (rule yields_tag) (use yields_const(1) LNil in \<open>simp_all add: parser_at\<close>)
next
  case (LBoolean b)
  with r have "rest r = of_nat (if b then T_TRUE else T_FALSE) # cs" by simp
  then show ?thesis by (rule yields_tag) (use yields_const(2,3) LBoolean in \<open>simp_all add: parser_at split: if_splits\<close>)
next
  case (LNumber x)
  with assms(4) r show ?thesis using yields_enc_num [of r x cs] by (simp del: canon.simps)
next
  case (LString b)
  show ?thesis
  proof (cases "b = []")
    case True
    with r LString have "rest r = of_nat T_STRING0 # cs" by simp
    then show ?thesis by (rule yields_tag) (use yields_const(4) LString True in \<open>simp_all add: parser_at\<close>)
  next
    case False
    with assms(4) LString have b: "b \<in> set pool" by simp
    let ?i = "pool_index pool b"
    have "0 < ?i" "?i < 2 ^ 32" using pool_index_nth [OF b] assms(3) by simp_all
    note c = len_class_width [OF this]
    have "rest r = of_nat (T_STRING0 + len_class ?i) # le_bytes (len_width (len_class ?i)) (int ?i) @ cs"
      using r LString False by (simp add: enc_len_def)
    then show ?thesis
    proof (rule yields_tag)
      show "T_STRING0 + len_class ?i < T_MAX" using c(1) by (auto simp: type_defs)
      fix r1 assume r1: "rest r1 = le_bytes (len_width (len_class ?i)) (int ?i) @ cs"
      have "parsers st (parserValue n st) ! (T_STRING0 + len_class ?i) = parseString st (len_width (len_class ?i))"
        using c(1) by (auto simp: parser_at len_width_def)
      with parseString_yields [OF assms(1,2) b assms(3) r1 c(2,3)] LString
      show "yields (parsers st (parserValue n st) ! (T_STRING0 + len_class ?i)) r1 s (canon v) cs" by simp
    qed
  qed
qed (use assms(4) in simp_all)

subsection \<open>Parsing arrays and tables\<close>

text \<open>The slots that parsing a document takes.\<close>

fun slots :: "wire \<Rightarrow> nat" where
  "slots (WVal v) = 1"
| "slots (WArr ws) = Suc (foldr max (map slots ws) 0)"
| "slots (WMap kvs) = Suc (foldr max (map (\<lambda>kw. Suc (slots (snd kw))) kvs) 0)"

lemma foldr_max_le: "foldr max (map f xs) 0 \<le> n \<longleftrightarrow> (\<forall>x \<in> set xs. f x \<le> (n :: nat))"
  by (induction xs) auto

lemma slots_pos: "0 < slots w"
  by (cases w) simp_all

lemma fits_arr: "fits s (slots (WArr ws)) \<longleftrightarrow> fits s 1 \<and> (\<forall>w \<in> set ws. fits s (Suc (slots w)))"
proof (cases "fits s 1")
  case True
  then have e: "n \<le> l_ci_top s - Suc (length (l_stack s)) \<longleftrightarrow> fits s (Suc n)" for n by (auto simp: fits_def)
  have "fits s (slots (WArr ws)) \<longleftrightarrow> (\<forall>w \<in> set ws. fits s (Suc (slots w)))"
    unfolding slots.simps e [symmetric] foldr_max_le ..
  with True show ?thesis by blast
next
  case False
  then show ?thesis by (simp add: fits_def)
qed

lemma fits_map: "fits s (slots (WMap kvs)) \<longleftrightarrow> fits s 1 \<and> (\<forall>kw \<in> set kvs. fits s (Suc (Suc (slots (snd kw)))))"
proof (cases "fits s 1")
  case True
  then have e: "n \<le> l_ci_top s - Suc (length (l_stack s)) \<longleftrightarrow> fits s (Suc n)" for n by (auto simp: fits_def)
  have "fits s (slots (WMap kvs)) \<longleftrightarrow> (\<forall>kw \<in> set kvs. fits s (Suc (Suc (slots (snd kw)))))"
    unfolding slots.simps e [symmetric] foldr_max_le ..
  with True show ?thesis by blast
next
  case False
  then show ?thesis by (simp add: fits_def)
qed

definition decodes :: "ReaderStrings \<Rightarrow> bytes list \<Rightarrow> nat \<Rightarrow> wire \<Rightarrow> bool" where
  "decodes st pool n w \<longleftrightarrow> (\<forall>s r cs. heap_ok s \<longrightarrow> pool_has st pool s \<longrightarrow> rest r = enc pool w @ cs \<longrightarrow> length (rest r) < n \<longrightarrow>
     (if fits s (slots w) then \<exists>r' s' v. parserValue n st r s = (Inr (True, r'), s') \<and> grown s s' \<and> rest r' = cs \<and>
        l_stack s' = l_stack s @ [v] \<and> denotes (l_heap s') (l_brk s) v w
      else overruns (parserValue n st r) s))"

lemma decodesE:
  assumes "decodes st pool n w" "heap_ok s" "pool_has st pool s" "rest r = enc pool w @ cs" "length (rest r) < n"
  obtains (full) "\<not> fits s (slots w)" "overruns (parserValue n st r) s"
  | (read) r' s' v where "parserValue n st r s = (Inr (True, r'), s')" "grown s s'" "rest r' = cs"
    "l_stack s' = l_stack s @ [v]" "denotes (l_heap s') (l_brk s) v w" "fits s (slots w)"
  using assms(1) [unfolded decodes_def, rule_format, OF assms(2-5)] by (auto split: if_splits)

text \<open>The first \<open>i\<close> items, or the entries \<open>kvs\<close>, are in the table \<open>t\<close> and nothing else.\<close>

definition arr_part :: "(addr \<Rightarrow> Table option) \<Rightarrow> addr \<Rightarrow> Table \<Rightarrow> wire list \<Rightarrow> nat \<Rightarrow> bool" where
  "arr_part h lo t ws i \<longleftrightarrow> (\<forall>j < i. denotes h lo (tgeti t (Suc j)) (ws ! j)) \<and>
     (\<forall>k. valid_key k \<longrightarrow> (\<forall>j < i. \<not> luaO_rawequalObj k (LNumber (cast_num (int (Suc j))))) \<longrightarrow> tget t k = LNil)"

lemma arr_part_step:
  assumes "arr_part h lo t ws i" "\<And>x. lo \<le> x \<Longrightarrow> h x \<noteq> None \<Longrightarrow> h' x = h x"
    and "assigned t (LNumber (cast_num (int i + 1))) v t'" "denotes h' lo v (ws ! i)" "i < 2 ^ 26"
  shows "arr_part h' lo t' ws (Suc i)"
proof -
  let ?k = "\<lambda>j. LNumber (cast_num (int (Suc j)))"
  have g: "tget t' k = (if luaO_rawequalObj k (?k i) then v else tget t k)" if "valid_key k" for k
    using assms(3) that by (simp add: assigned_def add.commute)
  have vk: "valid_key (?k j)" if "j \<le> i" for j by (rule valid_int_key) (use that assms(5) in simp)
  have eq: "luaO_rawequalObj (?k j) (?k i) \<longleftrightarrow> j = i" if "j \<le> i" for j
    using luai_numeq_cast_num [of "int (Suc j)" "int (Suc i)"] that assms(5) by (simp add: abs_if)
  have "denotes h' lo (tget t' (?k j)) (ws ! j)" if j: "j < Suc i" for j
  proof (cases "j = i")
    case True
    with g [OF vk [of i]] eq [of i] assms(4) show ?thesis by (simp del: rawequal_num rawequal_num2)
  next
    case False
    with j have "denotes h lo (tget t (?k j)) (ws ! j)" using assms(1) by (simp add: arr_part_def)
    then have "denotes h' lo (tget t (?k j)) (ws ! j)" by (rule denotes_frame) (simp_all add: assms(2))
    with g [OF vk [of j]] eq [of j] j False show ?thesis by (simp del: rawequal_num rawequal_num2)
  qed
  with assms(1) g show ?thesis by (auto simp: arr_part_def less_Suc_eq simp del: rawequal_num rawequal_num2)
qed

lemma parse_items_decode:
  assumes dec: "\<forall>w \<in> set ws. decodes st pool n w" and p: "pool_has st pool s0" and ok: "heap_ok s0" and a: "a = l_brk s0"
    and ws: "length ws \<le> 2 ^ 26"
  shows "building s0 s a (length ws) \<Longrightarrow> l_heap s a = Some t \<Longrightarrow> arr_part (l_heap s) (Suc a) t ws i \<Longrightarrow> i + c = length ws \<Longrightarrow>
    rest r = concat (map (enc pool) (drop i ws)) @ cs \<Longrightarrow> length (rest r) < n \<Longrightarrow>
    if \<forall>w \<in> set (drop i ws). fits s0 (Suc (slots w))
    then \<exists>r' s' t'. parse_items (parserValue n st) i c r s = (Inr (True, r'), s') \<and> building s0 s' a (length ws) \<and> rest r' = cs \<and>
      l_heap s' a = Some t' \<and> arr_part (l_heap s') (Suc a) t' ws (length ws)
    else overruns (parse_items (parserValue n st) i c r) s"
proof (induction c arbitrary: i s r t)
  case 0
  then show ?case by auto
next
  case (Suc c)
  note b = Suc.prems(1)
  have i: "i < length ws" using Suc.prems(4) by simp
  then have d: "drop i ws = ws ! i # drop (Suc i) ws" by (simp add: Cons_nth_drop_Suc)
  have ps: "pool_has st pool s" using b pool_has_grown [OF p _ ok] by (auto simp: building_def)
  have rr: "rest r = enc pool (ws ! i) @ concat (map (enc pool) (drop (Suc i) ws)) @ cs" using Suc.prems(5) d by simp
  from dec [rule_format, OF nth_mem [OF i]] building_ok [OF b] ps rr Suc.prems(6) show ?case
  proof (cases rule: decodesE)
    case full
    then have "overruns (parse_items (parserValue n st) i (Suc c) r) s" by (auto simp: overruns_def)
    moreover have "\<not> fits s0 (Suc (slots (ws ! i)))" using full(1) building_fits [OF b] by simp
    ultimately show ?thesis using d by simp
  next
    case v: (read r1 s1 v)
    note g = building_grown [OF b v(2,4)]
    have t1: "l_heap s1 a = Some t" by (rule grown_heap [OF v(2) building_ok [OF b] Suc.prems(2)])
    have ok1: "heap_ok s1" by (rule grown_ok [OF v(2)])
    have it: "i < sizearray t" "length ws \<le> sizearray t" using g(3) t1 i by auto
    note as = array_assigned [OF heap_okD(1) [OF ok1 t1] it(1), of v]
    let ?t = "slot_set t (SArray i) v"
    let ?s = "s1\<lparr>l_heap := (l_heap s1)(a \<mapsto> ?t), l_stack := l_stack s0 @ [LTable a]\<rparr>"
    have "lua_rawseti (- 2) (int i + 1) s1 = (Inr (), ?s)"
      by (rule rawseti_array [OF ok1 _ t1 it(1)]) (use g(2) in simp)
    moreover have "to_int32 (int i) = int i" by (rule to_int32_small) (use i ws in simp_all)
    ultimately have eq: "parse_items (parserValue n st) i (Suc c) r s = parse_items (parserValue n st) (Suc i) c r1 ?s"
      using v(1) by (simp add: lbind_run)
    have b': "building s0 ?s a (length ws)"
      using grown_set [OF g(1,4,5), of ?t] as g(4) it(2) by (simp add: building_def assigned_def del: slot_set.simps)
    have "a < l_brk s" by (rule heap_okD(2) [OF building_ok [OF b] Suc.prems(2)])
    then have dv: "denotes (l_heap ?s) (Suc a) v (ws ! i)" by (intro denotes_frame [OF v(5)]) simp_all
    have ap: "arr_part (l_heap ?s) (Suc a) ?t ws (Suc i)"
      by (rule arr_part_step [OF Suc.prems(3) _ as(1) dv])
        (use grown_heap [OF v(2) building_ok [OF b]] i ws in auto)
    have h: "l_heap ?s a = Some ?t" and ic: "Suc i + c = length ws" using Suc.prems(4) by simp_all
    have l1: "length (rest r1) < n" using Suc.prems(5,6) v(3) d by simp
    have f: "fits s0 (Suc (slots (ws ! i)))" using v(6) building_fits [OF b] by simp
    show ?thesis using Suc.IH [OF b' h ap ic v(3) l1] f by (auto simp: eq d overruns_def simp del: parse_items.simps slot_set.simps split: if_splits)
  qed
qed


text \<open>Tables: the entries go into the room that the size in the encoding reserved.\<close>

definition map_part :: "(addr \<Rightarrow> Table option) \<Rightarrow> addr \<Rightarrow> Table \<Rightarrow> (TValue \<times> wire) list \<Rightarrow> bool" where
  "map_part h lo t kvs \<longleftrightarrow> (\<forall>kw \<in> set kvs. denotes h lo (tget t (fst kw)) (snd kw)) \<and>
     (\<forall>k. valid_key k \<longrightarrow> (\<forall>kw \<in> set kvs. \<not> luaO_rawequalObj k (fst kw)) \<longrightarrow> tget t k = LNil)"

lemma canon_key: "valid_key k \<Longrightarrow> valid_key (canon k) \<and> luaO_rawequalObj x (canon k) = luaO_rawequalObj x k"
proof (cases k)
  case (LNumber n)
  assume "valid_key k"
  have "luai_numeq a 0 = luai_numeq a n" if "dbl_mag n = 0" for a
    using that luai_numeq_mag0 [of n 0] luai_numeq_trans luai_numeq_sym dbl_0(1) by metis
  with \<open>valid_key k\<close> LNumber show ?thesis using dbl_0(2) by auto
qed simp_all

lemma map_part_step:
  assumes "map_part h lo t kvs" "\<And>x. lo \<le> x \<Longrightarrow> h x \<noteq> None \<Longrightarrow> h' x = h x"
    and "assigned t (canon k) v t'" "valid_key k" "denotes h' lo v w" "\<forall>kw \<in> set kvs. valid_key (fst kw) \<and> \<not> luaO_rawequalObj (fst kw) k"
  shows "map_part h' lo t' (kvs @ [(k, w)])"
proof -
  have g: "tget t' x = (if luaO_rawequalObj x k then v else tget t x)" if "valid_key x" for x
    using assms(3) canon_key [OF assms(4)] that by (simp add: assigned_def)
  have "denotes h' lo (tget t' (fst kw)) (snd kw)" if "kw \<in> set kvs" for kw
  proof -
    have "denotes h lo (tget t (fst kw)) (snd kw)" using assms(1) that by (simp add: map_part_def)
    then have "denotes h' lo (tget t (fst kw)) (snd kw)" by (rule denotes_frame) (simp_all add: assms(2))
    with g assms(6) that show ?thesis by simp
  qed
  with assms(1,4,5) g show ?thesis by (auto simp: map_part_def)
qed

lemma luaH_new_room:
  assumes "narray \<le> 2 ^ 26" "luaH_new narray nhash = Inr t"
  shows "room t nhash"
proof -
  let ?t0 = "setarrayvector \<lparr>t_flags = 255, t_lsizenode = 0, t_metatable = None,
                        t_array = [], t_node = None, t_lastfree = 0\<rparr> narray"
  have sn: "setnodevector ?t0 nhash = Inr t" using assms(2) by (simp add: luaH_new_def)
  note s = setnodevector_spec [OF sn]
  have "length (t_array t) \<le> 2 ^ 26" using s(4) assms(1) by (simp add: setarrayvector_def sizearray_def)
  from wf_fresh(2) [OF this s(1) refl] s(2,3) show ?thesis by (auto simp: room_def)
qed

lemma rawset_room:
  assumes ok: "heap_ok s" and st: "l_stack s = xs @ [LTable a, k, v]" and t: "l_heap s a = Some t"
    and k: "valid_key k" and r: "room t (Suc c)"
  obtains t' where "lua_rawset (- 3) s = (Inr (), s\<lparr>l_heap := (l_heap s)(a \<mapsto> t'), l_stack := xs @ [LTable a]\<rparr>)"
    "assigned t k v t'" "room t' c"
proof -
  note wf = heap_okD(1) [OF ok t]
  have "room t (key_cost t k)" using r by (auto simp: room_def key_cost_def)
  then obtain t' p where s: "luaH_set_with (grow 1) t k = Inr (t', p)" "stored t k v (slot_set t' p v) (key_cost t k)"
    by (rule set_room [OF wf k])
  have "room (slot_set t' p v) c" using s(2) r by (auto simp: stored_def room_def key_cost_def split: if_splits)
  moreover have "assigned t k v (slot_set t' p v)" by (rule stored_assigned [OF s(2)])
  moreover have "lua_rawset (- 3) s = (Inr (), s\<lparr>l_heap := (l_heap s)(a \<mapsto> slot_set t' p v), l_stack := xs @ [LTable a]\<rparr>)"
    using st t s(1) by (simp add: lua_rawset_def luaH_set_def api lbind_run)
  ultimately show ?thesis using that by blast
qed

lemma distinct_keys_take:
  assumes "distinct_keys (map fst kvs)" "i < length kvs" "x \<in> set (take i kvs)"
  shows "\<not> luaO_rawequalObj (fst x) (fst (kvs ! i))"
proof
  obtain j where j: "j < length (take i kvs)" "take i kvs ! j = x" using assms(3) unfolding in_set_conv_nth by blast
  assume "luaO_rawequalObj (fst x) (fst (kvs ! i))"
  then have "luaO_rawequalObj (map fst kvs ! j) (map fst kvs ! i)" using j assms(2) by auto
  then have "j = i" using assms(1) j(1) assms(2) unfolding distinct_keys_def by simp
  with j(1) show False by simp
qed

lemma parse_pairs_decode:
  assumes dec: "\<forall>kw \<in> set kvs. decodes st pool n (snd kw)" and p: "pool_has st pool s0" and ok: "heap_ok s0"
    and a: "a = l_brk s0" and pl: "length pool \<le> 2 ^ 26" and ks: "distinct_keys (map fst kvs)"
    and vs: "\<forall>kw \<in> set kvs. valid_key (fst kw) \<and> scalar_ok pool (fst kw)"
  shows "building s0 s a 0 \<Longrightarrow> l_heap s a = Some t \<Longrightarrow> map_part (l_heap s) (Suc a) t (take i kvs) \<Longrightarrow> i + c = length kvs \<Longrightarrow>
    room t c \<Longrightarrow> rest r = concat (map (\<lambda>kw. enc_scalar pool (fst kw) @ enc pool (snd kw)) (drop i kvs)) @ cs \<Longrightarrow>
    length (rest r) < n \<Longrightarrow>
    if \<forall>kw \<in> set (drop i kvs). fits s0 (Suc (Suc (slots (snd kw))))
    then \<exists>r' s' t'. parse_pairs (parserValue n st) c r s = (Inr (True, r'), s') \<and> building s0 s' a 0 \<and> rest r' = cs \<and>
      l_heap s' a = Some t' \<and> map_part (l_heap s') (Suc a) t' kvs
    else overruns (parse_pairs (parserValue n st) c r) s"
proof (induction c arbitrary: i s r t)
  case 0
  then show ?case by auto
next
  case (Suc c)
  note b = Suc.prems(1)
  have i: "i < length kvs" using Suc.prems(4) by simp
  then have d: "drop i kvs = kvs ! i # drop (Suc i) kvs" by (simp add: Cons_nth_drop_Suc)
  obtain k w where kw: "kvs ! i = (k, w)" by fastforce
  then have mem: "(k, w) \<in> set kvs" using nth_mem [OF i] by simp
  have k: "valid_key k" "scalar_ok pool k" using vs mem by auto
  let ?cs = "concat (map (\<lambda>kw. enc_scalar pool (fst kw) @ enc pool (snd kw)) (drop (Suc i) kvs)) @ cs"
  obtain m where n: "n = Suc m" using Suc.prems(7) by (cases n) simp_all
  have oks: "heap_ok s" by (rule building_ok [OF b])
  have ps: "pool_has st pool s" using b pool_has_grown [OF p _ ok] by (auto simp: building_def)
  have r0: "rest r = enc_scalar pool k @ enc pool w @ ?cs" using Suc.prems(6) d kw by simp
  let ?s1 = "s\<lparr>l_stack := l_stack s @ [canon k]\<rparr>"
  note ky = yields_scalar [OF oks ps pl k(2) r0, of m, folded n]
  show ?case
  proof (cases "fits s 1")
    case False
    then have "overruns (parse_pairs (parserValue n st) (Suc c) r) s" using ky by (auto simp: yields_def overruns_def)
    moreover have "\<not> fits s0 (Suc (Suc (slots w)))"
      using False slots_pos [of w] building_fits [OF b] fits_mono [of s0 "Suc (Suc (slots w))" "Suc 1"] by auto
    ultimately show ?thesis using d kw by simp
  next
    case True
    then obtain r1 where r1: "parserValue n st r s = (Inr (True, r1), ?s1)" "rest r1 = enc pool w @ ?cs"
      using ky unfolding yields_def by auto
    have g1: "grown s ?s1" using oks by simp
    have ok1: "heap_ok ?s1" using oks by simp
    have ps1: "pool_has st pool ?s1" by (rule pool_has_grown [OF ps g1 oks]) simp
    have l1: "length (rest r1) < n" using r1(2) r0 Suc.prems(7) by simp
    have f0: "fits ?s1 (slots w) \<longleftrightarrow> fits s0 (Suc (Suc (slots w)))" using building_fits [OF b] by simp
    from dec [rule_format, OF mem, unfolded snd_conv] ok1 ps1 r1(2) l1 show ?thesis
    proof (cases rule: decodesE)
      case full
      then have "overruns (parse_pairs (parserValue n st) (Suc c) r) s" using r1(1) by (auto simp: overruns_def)
      then show ?thesis using full(1) f0 d kw by simp
    next
      case v: (read r2 s2 v)
      have gs: "grown s s2" using v(2) by simp
      have st2: "l_stack s2 = l_stack s @ [canon k, v]" using v(4) by simp
      note g = building_grown [OF b gs st2]
      have ok2: "heap_ok s2" by (rule grown_ok [OF gs])
      have t2: "l_heap s2 a = Some t" by (rule grown_heap [OF gs oks Suc.prems(2)])
      obtain t' where t': "lua_rawset (- 3) s2 = (Inr (), s2\<lparr>l_heap := (l_heap s2)(a \<mapsto> t'), l_stack := l_stack s0 @ [LTable a]\<rparr>)"
        "assigned t (canon k) v t'" "room t' c"
        by (rule rawset_room [OF ok2 g(2) t2 _ Suc.prems(5)]) (use canon_key [OF k(1)] in blast)
      let ?s = "s2\<lparr>l_heap := (l_heap s2)(a \<mapsto> t'), l_stack := l_stack s0 @ [LTable a]\<rparr>"
      have eq: "parse_pairs (parserValue n st) (Suc c) r s = parse_pairs (parserValue n st) c r2 ?s"
        using r1(1) v(1) t'(1) by (simp add: lbind_run)
      have b': "building s0 ?s a 0"
        using grown_set [OF g(1,4,5), of t'] t'(2) g(4) by (simp add: building_def assigned_def)
      have "a < l_brk s" by (rule heap_okD(2) [OF oks Suc.prems(2)])
      then have dv: "denotes (l_heap ?s) (Suc a) v w" by (intro denotes_frame [OF v(5)]) simp_all
      have "\<not> luaO_rawequalObj (fst x) k" if "x \<in> set (take i kvs)" for x
        using distinct_keys_take [OF ks i that] kw by simp
      moreover have "valid_key (fst kw)" if "kw \<in> set (take i kvs)" for kw using vs in_set_takeD [OF that] by blast
      ultimately have "map_part (l_heap ?s) (Suc a) t' (take i kvs @ [(k, w)])"
        by (intro map_part_step [OF Suc.prems(3) _ t'(2) k(1) dv]) (use grown_heap [OF gs oks] in auto)
      then have ap: "map_part (l_heap ?s) (Suc a) t' (take (Suc i) kvs)" using i kw by (simp add: take_Suc_conv_app_nth)
      have h: "l_heap ?s a = Some t'" and ic: "Suc i + c = length kvs" using Suc.prems(4) by simp_all
      have l2: "length (rest r2) < n" using v(3) r1(2) l1 by simp
      show ?thesis using Suc.IH [OF b' h ap ic t'(3) v(3) l2] v(6) f0 by (auto simp: eq d kw overruns_def simp del: parse_pairs.simps split: if_splits)
    qed
  qed
qed

subsection \<open>Documents\<close>

lemma canon_plain_key: "canon v = v \<or> (\<exists>n. v = LNumber n)"
  by (cases v) simp_all

lemma len_tag:
  assumes "n < 2 ^ 32" "rest r = enc_len T n @ cs" "T + 3 < 256"
  obtains (zero) r1 where "n = 0" "readType r = (T, r1)" "rest r1 = cs"
  | (some) r1 c where "0 < n" "c \<in> {1, 2, 3}" "readType r = (T + c, r1)" "rest r1 = le_bytes (len_width c) (int n) @ cs"
      "0 < len_width c" "int n mod 256 ^ len_width c = int n" "c = len_class n"
proof (cases "n = 0")
  case True
  then have "rest r = of_nat T # cs" using assms(2) by (simp add: enc_len_def len_class_def len_width_def)
  then show ?thesis by (rule rest_tag) (use assms(3) zero True in auto)
next
  case False
  then have n: "0 < n" by simp
  note c = len_class_width [OF n assms(1)]
  have "rest r = of_nat (T + len_class n) # le_bytes (len_width (len_class n)) (int n) @ cs"
    using assms(2) by (simp add: enc_len_def)
  then obtain r1 where "readType r = (T + len_class n, r1)" "rest r1 = le_bytes (len_width (len_class n)) (int n) @ cs"
    by (rule rest_tag) (use c(1) assms(3) in auto)
  then show ?thesis using some [OF n c(1) _ _ c(2,3)] by blast
qed

lemma enc_not_empty: "enc pool w \<noteq> []"
proof (cases w)
  case (WVal v)
  then show ?thesis by (cases v) (simp_all add: enc_num_def enc_int_def enc_len_def)
qed (simp_all add: enc_len_def)

lemma decodes_WVal:
  assumes "length pool \<le> 2 ^ 26" "scalar_ok pool v"
  shows "decodes st pool n (WVal v)"
  unfolding decodes_def
proof (intro allI impI)
  fix s r cs
  assume ok: "heap_ok s" and p: "pool_has st pool s" and r: "rest r = enc pool (WVal v) @ cs" and l: "length (rest r) < n"
  then obtain m where n: "n = Suc m" by (cases n) simp_all
  have y: "yields (parserValue n st) r s (canon v) cs"
    unfolding n by (rule yields_scalar [OF ok p assms]) (use r in simp)
  have "\<exists>r' s' u. parserValue n st r s = (Inr (True, r'), s') \<and> grown s s' \<and> rest r' = cs \<and>
      l_stack s' = l_stack s @ [u] \<and> denotes (l_heap s') (l_brk s) u (WVal v)" if f: "fits s 1"
  proof -
    obtain r' where "parserValue n st r s = (Inr (True, r'), s\<lparr>l_stack := l_stack s @ [canon v]\<rparr>)" "rest r' = cs"
      using y [unfolded yields_def if_P [OF f]] by blast
    with ok show ?thesis
      by (intro exI [of _ r'] exI [of _ "s\<lparr>l_stack := l_stack s @ [canon v]\<rparr>"] exI [of _ "canon v"]) (simp add: denotes.scalar)
  qed
  with y show "if fits s (slots (WVal v)) then \<exists>r' s' u. parserValue n st r s = (Inr (True, r'), s') \<and> grown s s' \<and> rest r' = cs \<and>
      l_stack s' = l_stack s @ [u] \<and> denotes (l_heap s') (l_brk s) u (WVal v) else overruns (parserValue n st r) s"
    by (simp add: yields_def)
qed

lemma create_empty:
  assumes ok: "heap_ok s" and "0 \<le> na" "na \<le> 2 ^ 26" "0 \<le> nr" "nr \<le> 2 ^ 26"
  obtains (full) "\<not> fits s 1" "overruns (api_incr_top (lua_createtable na nr)) s"
  | (made) t where "fits s 1" "api_incr_top (lua_createtable na nr) s = (Inr (), s\<lparr>l_brk := l_brk s + 64,
        l_heap := (l_heap s)(l_brk s \<mapsto> t), l_stack := l_stack s @ [LTable (l_brk s)]\<rparr>)"
      "building s (s\<lparr>l_brk := l_brk s + 64, l_heap := (l_heap s)(l_brk s \<mapsto> t),
        l_stack := l_stack s @ [LTable (l_brk s)]\<rparr>) (l_brk s) (nat na)"
      "room t (nat nr)" "\<forall>k. valid_key k \<longrightarrow> tget t k = LNil"
  using ok
proof (cases rule: createtable_cases [where na = na and nr = nr])
  case (1 t)
  have r: "room t (nat nr)" using luaH_new_room [OF _ 1(4)] assms by (simp add: nat_le_iff)
  note b = building_create [OF ok 1(5), of "nat na"]
  show ?thesis
  proof (cases "fits s 1")
    case True
    with 1(1) have "api_incr_top (lua_createtable na nr) s = (Inr (), s\<lparr>l_brk := l_brk s + 64,
        l_heap := (l_heap s)(l_brk s \<mapsto> t), l_stack := l_stack s @ [LTable (l_brk s)]\<rparr>)"
      by (simp add: api_incr_top_run fits_def)
    from made [OF True this] b r 1 show ?thesis by simp
  next
    case False
    with 1(1) have "overruns (api_incr_top (lua_createtable na nr)) s"
      by (simp add: api_incr_top_run fits_def overruns_def)
    with full False show ?thesis by blast
  qed
next
  case 2
  with assms show ?thesis by simp
next
  case 3
  have "nr mod 2 ^ 32 = nr" using assms(4,5) by simp
  with 3 assms(5) show ?thesis by simp
qed

text \<open>The conclusion of \<open>decodes\<close> from a table built at \<open>l_brk s\<close>.\<close>

lemma building_denotes:
  assumes "building s s' (l_brk s) n" "denotes (l_heap s') (l_brk s) (LTable (l_brk s)) w"
  shows "grown s s' \<and> l_stack s' = l_stack s @ [LTable (l_brk s)] \<and> denotes (l_heap s') (l_brk s) (LTable (l_brk s)) w"
  using assms by (simp add: building_def)

lemma denotes_arr_part:
  assumes "building s0 s a n" "a = l_brk s0" "l_heap s a = Some t" "arr_part (l_heap s) (Suc a) t ws (length ws)"
  shows "denotes (l_heap s) (l_brk s0) (LTable a) (WArr ws)"
proof (rule denotes.array)
  show "wf_table t" by (rule heap_okD(1) [OF building_ok [OF assms(1)] assms(3)])
  show "\<forall>i < length ws. denotes (l_heap s) (l_brk s0) (tgeti t (Suc i)) (ws ! i)"
    using assms(2,4) by (auto simp: arr_part_def intro: denotes_frame)
  show "\<forall>k. valid_key k \<longrightarrow> (\<forall>i < length ws. \<not> luaO_rawequalObj k (LNumber (cast_num (int (Suc i))))) \<longrightarrow> tget t k = LNil"
    using assms(4) by (simp add: arr_part_def)
qed (use assms in simp_all)

lemma denotes_map_part:
  assumes "building s0 s a n" "a = l_brk s0" "l_heap s a = Some t" "map_part (l_heap s) (Suc a) t kvs"
  shows "denotes (l_heap s) (l_brk s0) (LTable a) (WMap kvs)"
proof (rule denotes.dict)
  show "wf_table t" by (rule heap_okD(1) [OF building_ok [OF assms(1)] assms(3)])
  show "\<forall>kw \<in> set kvs. denotes (l_heap s) (l_brk s0) (tget t (fst kw)) (snd kw)"
    using assms(2,4) by (auto simp: map_part_def intro: denotes_frame)
  show "\<forall>k. valid_key k \<longrightarrow> (\<forall>kw \<in> set kvs. \<not> luaO_rawequalObj k (fst kw)) \<longrightarrow> tget t k = LNil"
    using assms(4) by (simp add: map_part_def)
qed (use assms in simp_all)

lemma parse_empty_table:
  assumes ok: "heap_ok s"
  obtains (full) "\<not> fits s 1" "overruns (parseTable0 r) s"
  | (made) s' where "fits s 1" "parseTable0 r s = (Inr (True, r), s')" "building s s' (l_brk s) 0"
    "denotes (l_heap s') (l_brk s) (LTable (l_brk s)) (WArr [])" "denotes (l_heap s') (l_brk s) (LTable (l_brk s)) (WMap [])"
proof -
  have n: "(0 :: int) \<le> 0" "(0 :: int) \<le> 2 ^ 26" by simp_all
  from ok n n show ?thesis
  proof (cases rule: create_empty)
    case full
    then show ?thesis using that(1) by (simp add: overruns_lbind parseTable0_def lua_newtable_def)
  next
    case (made t)
    have b: "building s (s\<lparr>l_brk := l_brk s + 64, l_heap := (l_heap s)(l_brk s \<mapsto> t),
        l_stack := l_stack s @ [LTable (l_brk s)]\<rparr>) (l_brk s) 0" using made(3) by simp
    have "arr_part h (Suc (l_brk s)) t [] 0" "map_part h (Suc (l_brk s)) t []" for h
      using made(5) by (simp_all add: arr_part_def map_part_def)
    with that(2) [OF made(1) _ b] denotes_arr_part [OF b refl, of t "[]"] denotes_map_part [OF b refl, of t "[]"] made(2)
    show ?thesis by (simp add: parseTable0_def lua_newtable_def)
  qed
qed

lemma readType_value: "readType r = (t, r1) \<Longrightarrow> t < T_MAX \<Longrightarrow>
    parserValue (Suc m) st r s = (parsers st (parserValue m st) ! t) r1 s"
  by simp

lemma decodes_WArr:
  assumes ws: "length ws \<le> 2 ^ 26" and dec: "\<forall>w \<in> set ws. \<forall>n. decodes st pool n w"
  shows "decodes st pool n (WArr ws)"
  unfolding decodes_def
proof (intro allI impI)
  fix s r cs
  assume ok: "heap_ok s" and p: "pool_has st pool s" and r: "rest r = enc pool (WArr ws) @ cs" and l: "length (rest r) < n"
  let ?goal = "if fits s (slots (WArr ws)) then \<exists>r' s' v. parserValue n st r s = (Inr (True, r'), s') \<and> grown s s' \<and> rest r' = cs \<and>
      l_stack s' = l_stack s @ [v] \<and> denotes (l_heap s') (l_brk s) v (WArr ws) else overruns (parserValue n st r) s"
  obtain m where m: "n = Suc m" using l by (cases n) simp_all
  have r': "rest r = enc_len T_ARRAY0 (length ws) @ concat (map (enc pool) ws) @ cs" using r by simp
  have "length ws < 2 ^ 32" "T_ARRAY0 + 3 < 256" using ws by (simp_all add: type_defs)
  from this(1) r' this(2) show ?goal
  proof (cases rule: len_tag)
    case (zero r1)
    have pv: "parserValue n st r s = parseTable0 r1 s"
      unfolding m using readType_value [OF zero(2)] by (simp add: parser_at)
    have e: "ws = []" using zero(1) by simp
    from ok show ?goal
    proof (cases rule: parse_empty_table [where r = r1])
      case full
      then show ?thesis using pv e by (simp add: overruns_def)
    next
      case (made s')
      with building_denotes [OF made(3)] zero(3) pv e show ?thesis by auto
    qed
  next
    case (some r1 c)
    obtain r2 where r2: "readNumber (len_width c) r1 = (int (length ws), r2)" "rest r2 = concat (map (enc pool) ws) @ cs"
      by (rule rest_number [OF some(4,5)]) (simp add: some(6))
    have i32: "to_int32 (int (length ws)) = int (length ws)" by (rule to_int32_small) (use ws in simp_all)
    have pa: "parsers st (parserValue m st) ! (T_ARRAY0 + c) = parseArray (parserValue m st) (len_width c)"
      using some(2) by (auto simp: parser_at len_width_def)
    have "T_ARRAY0 + c < T_MAX" using some(2) by (auto simp: type_defs)
    then have pv: "parserValue n st r s = lbind (api_incr_top (lua_createtable (int (length ws)) 0))
        (\<lambda>_. parse_items (parserValue m st) 0 (length ws) r2) s"
      unfolding m using readType_value [OF some(3)] pa r2(1) i32 by (simp add: parseArray_def)
    have n: "0 \<le> int (length ws)" "int (length ws) \<le> 2 ^ 26" "(0 :: int) \<le> 0" "(0 :: int) \<le> 2 ^ 26" using ws by simp_all
    from ok n show ?goal
    proof (cases rule: create_empty)
      case full
      then show ?thesis unfolding overruns_def pv fits_arr by auto
    next
      case t: (made t)
      let ?s = "s\<lparr>l_brk := l_brk s + 64, l_heap := (l_heap s)(l_brk s \<mapsto> t), l_stack := l_stack s @ [LTable (l_brk s)]\<rparr>"
      have h: "l_heap ?s (l_brk s) = Some t" and ap: "arr_part (l_heap ?s) (Suc (l_brk s)) t ws 0"
        using t(5) by (simp_all add: arr_part_def)
      have d: "\<forall>w \<in> set ws. decodes st pool m w" using dec by blast
      have lm: "length (rest r2) < m" using l m r' r2(2) by (simp add: enc_len_def)
      have r0: "rest r2 = concat (map (enc pool) (drop 0 ws)) @ cs" using r2(2) by simp
      have b: "building s ?s (l_brk s) (length ws)" using t(3) by simp
      note it = parse_items_decode [OF d p ok refl ws b h ap _ r0 lm]
      have pv': "parserValue n st r s = parse_items (parserValue m st) 0 (length ws) r2 ?s" using pv t(2) by simp
      show ?thesis
      proof (cases "fits s (slots (WArr ws))")
        case True
        then obtain r3 s' t' where s': "parse_items (parserValue m st) 0 (length ws) r2 ?s = (Inr (True, r3), s')"
          "building s s' (l_brk s) (length ws)" "rest r3 = cs" "l_heap s' (l_brk s) = Some t'"
          "arr_part (l_heap s') (Suc (l_brk s)) t' ws (length ws)"
          using it t(1) unfolding fits_arr by auto
        with building_denotes [OF s'(2) denotes_arr_part [OF s'(2) refl s'(4,5)]] True pv' show ?thesis by auto
      next
        case False
        with it t(1) have "overruns (parse_items (parserValue m st) 0 (length ws) r2) ?s" unfolding fits_arr by (auto split: if_splits)
        with False show ?thesis unfolding overruns_def pv' by simp
      qed
    qed
  qed
qed

lemma decodes_WMap:
  assumes kvs: "length kvs \<le> 2 ^ 26" and dec: "\<forall>kw \<in> set kvs. \<forall>n. decodes st pool n (snd kw)" and pl: "length pool \<le> 2 ^ 26"
    and ks: "distinct_keys (map fst kvs)" and vs: "\<forall>kw \<in> set kvs. valid_key (fst kw) \<and> scalar_ok pool (fst kw)"
  shows "decodes st pool n (WMap kvs)"
  unfolding decodes_def
proof (intro allI impI)
  fix s r cs
  assume ok: "heap_ok s" and p: "pool_has st pool s" and r: "rest r = enc pool (WMap kvs) @ cs" and l: "length (rest r) < n"
  let ?goal = "if fits s (slots (WMap kvs)) then \<exists>r' s' v. parserValue n st r s = (Inr (True, r'), s') \<and> grown s s' \<and> rest r' = cs \<and>
      l_stack s' = l_stack s @ [v] \<and> denotes (l_heap s') (l_brk s) v (WMap kvs) else overruns (parserValue n st r) s"
  let ?e = "\<lambda>kw. enc_scalar pool (fst kw) @ enc pool (snd kw)"
  obtain m where m: "n = Suc m" using l by (cases n) simp_all
  have r': "rest r = enc_len T_TABLE0 (length kvs) @ concat (map ?e kvs) @ cs" using r by simp
  have "length kvs < 2 ^ 32" "T_TABLE0 + 3 < 256" using kvs by (simp_all add: type_defs)
  from this(1) r' this(2) show ?goal
  proof (cases rule: len_tag)
    case (zero r1)
    have pv: "parserValue n st r s = parseTable0 r1 s"
      unfolding m using readType_value [OF zero(2)] by (simp add: parser_at)
    have e: "kvs = []" using zero(1) by simp
    from ok show ?goal
    proof (cases rule: parse_empty_table [where r = r1])
      case full
      then show ?thesis using pv e by (simp add: overruns_def)
    next
      case (made s')
      with building_denotes [OF made(3)] zero(3) pv e show ?thesis by auto
    qed
  next
    case (some r1 c)
    obtain r2 where r2: "readNumber (len_width c) r1 = (int (length kvs), r2)" "rest r2 = concat (map ?e kvs) @ cs"
      by (rule rest_number [OF some(4,5)]) (simp add: some(6))
    have i32: "to_int32 (int (length kvs)) = int (length kvs)" by (rule to_int32_small) (use kvs in simp_all)
    have pa: "parsers st (parserValue m st) ! (T_TABLE0 + c) = parseTable (parserValue m st) (len_width c)"
      using some(2) by (auto simp: parser_at len_width_def)
    have "T_TABLE0 + c < T_MAX" using some(2) by (auto simp: type_defs)
    then have pv: "parserValue n st r s = lbind (api_incr_top (lua_createtable 0 (int (length kvs))))
        (\<lambda>_. parse_pairs (parserValue m st) (length kvs) r2) s"
      unfolding m using readType_value [OF some(3)] pa r2(1) i32 by (simp add: parseTable_def)
    have n: "(0 :: int) \<le> 0" "(0 :: int) \<le> 2 ^ 26" "0 \<le> int (length kvs)" "int (length kvs) \<le> 2 ^ 26" using kvs by simp_all
    from ok n show ?goal
    proof (cases rule: create_empty)
      case full
      then show ?thesis unfolding overruns_def pv fits_map by auto
    next
      case t: (made t)
      let ?s = "s\<lparr>l_brk := l_brk s + 64, l_heap := (l_heap s)(l_brk s \<mapsto> t), l_stack := l_stack s @ [LTable (l_brk s)]\<rparr>"
      have h: "l_heap ?s (l_brk s) = Some t" and mp: "map_part (l_heap ?s) (Suc (l_brk s)) t (take 0 kvs)"
        using t(5) by (simp_all add: map_part_def)
      have d: "\<forall>kw \<in> set kvs. decodes st pool m (snd kw)" using dec by blast
      have lm: "length (rest r2) < m" using l m r' r2(2) by (simp add: enc_len_def)
      have r0: "rest r2 = concat (map ?e (drop 0 kvs)) @ cs" using r2(2) by simp
      have b: "building s ?s (l_brk s) 0" "room t (length kvs)" using t(3,4) by simp_all
      note it = parse_pairs_decode [OF d p ok refl pl ks vs b(1) h mp _ b(2) r0 lm]
      have pv': "parserValue n st r s = parse_pairs (parserValue m st) (length kvs) r2 ?s" using pv t(2) by simp
      show ?thesis
      proof (cases "fits s (slots (WMap kvs))")
        case True
        then obtain r3 s' t' where s': "parse_pairs (parserValue m st) (length kvs) r2 ?s = (Inr (True, r3), s')"
          "building s s' (l_brk s) 0" "rest r3 = cs" "l_heap s' (l_brk s) = Some t'"
          "map_part (l_heap s') (Suc (l_brk s)) t' kvs"
          using it t(1) unfolding fits_map by auto
        with building_denotes [OF s'(2) denotes_map_part [OF s'(2) refl s'(4,5)]] True pv' show ?thesis by auto
      next
        case False
        with it t(1) have "overruns (parse_pairs (parserValue m st) (length kvs) r2) ?s" unfolding fits_map by (auto split: if_splits)
        with False show ?thesis unfolding overruns_def pv' by simp
      qed
    qed
  qed
qed

lemma wire_decodes: "length pool \<le> 2 ^ 26 \<Longrightarrow> wire_ok pool w \<Longrightarrow> decodes st pool n w"
proof (induction w arbitrary: n)
  case (WVal v)
  then show ?case by (simp add: decodes_WVal)
next
  case (WArr ws)
  then show ?case by (intro decodes_WArr) auto
next
  case (WMap kvs)
  have "decodes st pool n (snd kw)" if "kw \<in> set kvs" for kw n
    using WMap.IH [of kw "snd kw"] WMap.prems that by (auto simp: snds.simps)
  with WMap.prems show ?case by (intro decodes_WMap) auto
qed

subsection \<open>The string pool\<close>

definition pool_part :: "Table \<Rightarrow> bytes list \<Rightarrow> nat \<Rightarrow> bool" where
  "pool_part t pool i \<longleftrightarrow> (\<forall>j < i. tgeti t (Suc j) = LString (pool ! j))"

lemma pool_part_step:
  assumes "pool_part t pool i" "assigned t (LNumber (cast_num (int i + 1))) (LString (pool ! i)) t'" "i < 2 ^ 26"
  shows "pool_part t' pool (Suc i)"
proof -
  let ?k = "\<lambda>j. LNumber (cast_num (int (Suc j)))"
  have g: "tget t' k = (if luaO_rawequalObj k (?k i) then LString (pool ! i) else tget t k)" if "valid_key k" for k
    using assms(2) that by (simp add: assigned_def add.commute)
  have vk: "valid_key (?k j)" if "j \<le> i" for j by (rule valid_int_key) (use that assms(3) in simp)
  have eq: "luaO_rawequalObj (?k j) (?k i) \<longleftrightarrow> j = i" if "j \<le> i" for j
    using luai_numeq_cast_num [of "int (Suc j)" "int (Suc i)"] that assms(3) by (simp add: abs_if)
  have "tget t' (?k j) = LString (pool ! j)" if "j < Suc i" for j
    using g [OF vk [of j]] eq [of j] assms(1) that by (auto simp: pool_part_def less_Suc_eq simp del: rawequal_num rawequal_num2)
  then show ?thesis by (simp add: pool_part_def)
qed

lemma readString_rest:
  assumes "rest r = enc_string b @ cs" "b \<noteq> []" "length b < 2 ^ 16"
  obtains r1 r2 where "readNumber 2 r = (int (length b), r1)" "readBytes (length b) r1 = (Some b, r2)" "rest r2 = cs"
proof -
  have "rest r = le_bytes 2 (int (length b)) @ b @ cs" using assms(1) by (simp add: enc_string_def)
  then obtain r1 where r1: "readNumber 2 r = (int (length b) mod 256 ^ 2, r1)" "rest r1 = b @ cs"
    by (rule rest_number) simp
  have "int (length b) mod 256 ^ 2 = int (length b)" using assms(3) by simp
  with r1 readBytes_rest [OF r1(2) assms(2)] that show ?thesis by simp
qed

lemma parse_strings_decode:
  assumes pl: "pool_fits pool" and f: "fits s0 2"
  shows "building s0 s a (length pool) \<Longrightarrow> l_heap s a = Some t \<Longrightarrow> pool_part t pool i \<Longrightarrow> i + c = length pool \<Longrightarrow>
    rest r = concat (map enc_string (drop i pool)) @ cs \<Longrightarrow>
    \<exists>r' s' t'. parse_strings i c r s = (Inr (True, r'), s') \<and> building s0 s' a (length pool) \<and> rest r' = cs \<and>
      l_heap s' a = Some t' \<and> pool_part t' pool (length pool)"
proof (induction c arbitrary: i s r t)
  case 0
  then show ?case by auto
next
  case (Suc c)
  note b = Suc.prems(1)
  have i: "i < length pool" using Suc.prems(4) by simp
  then have d: "drop i pool = pool ! i # drop (Suc i) pool" by (simp add: Cons_nth_drop_Suc)
  let ?b = "pool ! i"
  have pb: "?b \<noteq> []" "length ?b < 2 ^ 16" "length pool \<le> 2 ^ 26" using pl nth_mem [OF i] by (simp_all add: pool_fits_def)
  have "rest r = enc_string ?b @ concat (map enc_string (drop (Suc i) pool)) @ cs" using Suc.prems(5) d by simp
  then obtain r1 r2 where r: "readNumber 2 r = (int (length ?b), r1)" "readBytes (length ?b) r1 = (Some ?b, r2)"
    "rest r2 = concat (map enc_string (drop (Suc i) pool)) @ cs"
    by (rule readString_rest) (use pb in simp_all)
  let ?s1 = "s\<lparr>l_stack := l_stack s @ [LString ?b]\<rparr>"
  have ok: "heap_ok s" by (rule building_ok [OF b])
  have st: "l_stack s = l_stack s0 @ [LTable a]" using b by (simp add: building_def)
  have g1: "grown s ?s1" using ok by simp
  note g = building_grown [OF b g1, of "[LString ?b]"]
  have it: "i < sizearray t" "length pool \<le> sizearray t" using g(3) Suc.prems(2) i by auto
  note as = array_assigned [OF heap_okD(1) [OF ok Suc.prems(2)] it(1), of "LString ?b"]
  let ?t = "slot_set t (SArray i) (LString ?b)"
  let ?s = "s\<lparr>l_heap := (l_heap s)(a \<mapsto> ?t)\<rparr>"
  have "lua_rawseti (- 2) (int i + 1) ?s1 = (Inr (), ?s1\<lparr>l_heap := (l_heap s)(a \<mapsto> ?t), l_stack := l_stack s0 @ [LTable a]\<rparr>)"
    using rawseti_array [of ?s1 "l_stack s0" a "LString ?b" t i] ok st Suc.prems(2) it by simp
  moreover have "?s1\<lparr>l_heap := (l_heap s)(a \<mapsto> ?t), l_stack := l_stack s0 @ [LTable a]\<rparr> = ?s"
    by (rule state_eqI) (simp_all add: st)
  moreover have "to_int32 (int i) = int i" by (rule to_int32_small) (use i pb in simp_all)
  ultimately have eq: "parse_strings i (Suc c) r s = parse_strings (Suc i) c r2 ?s"
    using r(1,2) pb(1) building_fits [OF b, of 1] f by (simp add: lbind_run lua_push_run push_run api_incr_top_run fits_def)
  have b': "building s0 ?s a (length pool)"
    using grown_set [of s0 s a ?t] b g(4,5) as st it(2) by (simp add: building_def assigned_def del: slot_set.simps)
  have pp: "pool_part ?t pool (Suc i)" by (rule pool_part_step [OF Suc.prems(3) as(1)]) (use i pb in simp)
  have h: "l_heap ?s a = Some ?t" and ic: "Suc i + c = length pool" using Suc.prems(4) by simp_all
  from Suc.IH [OF b' h pp ic r(3)] show ?case unfolding eq .
qed

lemma parse_strings_overruns:
  assumes "pool_fits (b # pool)" "rest r = enc_string b @ cs" "\<not> fits s 1"
  shows "overruns (parse_strings i (Suc c) r) s"
proof -
  have "b \<noteq> []" "length b < 2 ^ 16" using assms(1) by (simp_all add: pool_fits_def)
  then obtain r1 r2 where "readNumber 2 r = (int (length b), r1)" "readBytes (length b) r1 = (Some b, r2)"
    by (rule readString_rest [OF assms(2)])
  with assms(3) \<open>b \<noteq> []\<close> show ?thesis
    by (simp add: overruns_def lbind_run lua_push_run push_run api_incr_top_run fits_def)
qed

lemma rs_parse_decode:
  assumes ok: "heap_ok s" and pl: "pool_fits pool" and r: "rest r = enc_pool pool @ cs"
  obtains (full) "\<not> fits s 2" "overruns (rs_parse r) s"
  | (read) st r' s' a where "rs_parse r s = (Inr (True, st, r'), s')" "grown s s'" "rest r' = cs"
    "l_stack s' = l_stack s @ [LTable a]" "pool_has st pool s'" "rs_handle st = int (length (l_stack s)) + 1"
proof -
  let ?n = "length pool" and ?a = "l_brk s"
  have n: "?n \<le> 2 ^ 26" using pl by (simp add: pool_fits_def)
  have "rest r = le_bytes 4 (int ?n) @ concat (map enc_string pool) @ cs" using r by (simp add: enc_pool_def)
  then obtain r1 where "readNumber 4 r = (int ?n mod 256 ^ 4, r1)" "rest r1 = concat (map enc_string pool) @ cs"
    by (rule rest_number) simp
  with n have r1: "readNumber 4 r = (int ?n, r1)" "rest r1 = concat (map enc_string (drop 0 pool)) @ cs" by simp_all
  have i32: "to_int32 (int ?n) = int ?n" by (rule to_int32_small) (use n in simp_all)
  have n4: "0 \<le> int ?n" "int ?n \<le> 2 ^ 26" "(0 :: int) \<le> 0" "(0 :: int) \<le> 2 ^ 26" using n by simp_all
  from ok n4 show ?thesis
  proof (cases rule: create_empty)
    case full
    then have "overruns (rs_parse r) s" using r1(1) i32 by (simp add: rs_parse_def overruns_lbind)
    with full(1) that(1) fits_mono [of s 2 1] show ?thesis by auto
  next
    case t: (made t)
    let ?s = "s\<lparr>l_brk := ?a + 64, l_heap := (l_heap s)(?a \<mapsto> t), l_stack := l_stack s @ [LTable ?a]\<rparr>"
    have b: "building s ?s ?a ?n" using t(3) by simp
    have h: "l_heap ?s ?a = Some t" and pp: "pool_part t pool 0" by (simp_all add: pool_part_def)
    have rs: "rs_parse r s = lbind (parse_strings 0 ?n r1) (\<lambda>(ok, r2).
        lret (ok, \<lparr>rs_handle = int (length (l_stack s)) + 1, rs_size = ?n\<rparr>, r2)) ?s"
      using r1(1) t(2) i32 by (simp add: rs_parse_def lbind_run lua_gettop_run add.commute cong: prod.case_cong sum.case_cong)
    show ?thesis
    proof (cases "fits s 2 \<or> pool = []")
      case True
      have "\<exists>r' s' t'. parse_strings 0 ?n r1 ?s = (Inr (True, r'), s') \<and> building s s' ?a ?n \<and> rest r' = cs \<and>
        l_heap s' ?a = Some t' \<and> pool_part t' pool ?n"
      proof (cases "pool = []")
        case True
        then show ?thesis using r1(2) b h pp by auto
      next
        case False
        with True show ?thesis using parse_strings_decode [OF pl _ b h pp _ r1(2)] by auto
      qed
      then obtain r2 s' t' where s': "parse_strings 0 ?n r1 ?s = (Inr (True, r2), s')" "building s s' ?a ?n" "rest r2 = cs"
        "l_heap s' ?a = Some t'" "pool_part t' pool ?n" by blast
      have e: "rs_parse r s = (Inr (True, \<lparr>rs_handle = int (length (l_stack s)) + 1, rs_size = ?n\<rparr>, r2), s')"
        using rs s'(1) by (simp add: lbind_run)
      have g: "grown s s'" "l_stack s' = l_stack s @ [LTable ?a]" using s'(2) by (simp_all add: building_def)
      then have "pool_has \<lparr>rs_handle = int (length (l_stack s)) + 1, rs_size = ?n\<rparr> pool s'"
        using s'(4,5) by (simp add: pool_has_def pool_part_def nat_add_distrib)
      with that(2) [OF e g(1) s'(3) g(2)] show ?thesis by simp
    next
      case False
      then obtain p ps where p: "pool = p # ps" by (cases pool) auto
      have nf: "\<not> fits ?s 1" using False building_fits [OF b, of 1] by (simp add: numeral_2_eq_2)
      have rp: "rest r1 = enc_string p @ concat (map enc_string ps) @ cs" using r1(2) p by simp
      have "overruns (parse_strings 0 (Suc (length ps)) r1) ?s" by (rule parse_strings_overruns [OF pl [unfolded p] rp nf])
      then have "overruns (rs_parse r) s" unfolding overruns_def rs p by (auto simp: lbind_run simp del: parse_strings.simps)
      with that(1) False show ?thesis by blast
    qed
  qed
qed

subsection \<open>The whole document\<close>

lemma parse_document:
  assumes ok: "heap_ok s" and pl: "pool_fits pool" and w: "wire_ok pool w"
  shows "if fits s (1 + slots w)
    then \<exists>s' v. parseBinaryTable (enc_doc pool w @ cs) s = (Inr 1, s') \<and> grown s s' \<and> l_stack s' = l_stack s @ [v] \<and>
      denotes (l_heap s') (l_brk s) v w
    else overruns (parseBinaryTable (enc_doc pool w @ cs)) s"
proof -
  let ?d = "enc_doc pool w @ cs"
  have "rest (new_reader ?d) = le_bytes 2 MAGIC_NUMBER @ le_bytes 2 LUABT_VERSION @ enc_pool pool @ enc pool w @ cs"
    by (simp add: rest_def new_reader_def enc_doc_def)
  then obtain r1 where r1: "readNumber 2 (new_reader ?d) = (MAGIC_NUMBER mod 256 ^ 2, r1)"
    "rest r1 = le_bytes 2 LUABT_VERSION @ enc_pool pool @ enc pool w @ cs" by (rule rest_number) simp
  obtain r2 where r2: "readNumber 2 r1 = (LUABT_VERSION mod 256 ^ 2, r2)" "rest r2 = enc_pool pool @ enc pool w @ cs"
    by (rule rest_number [OF r1(2)]) simp
  have mv: "MAGIC_NUMBER mod 256 ^ 2 = MAGIC_NUMBER" "LUABT_VERSION mod 256 ^ 2 = LUABT_VERSION"
    by (simp_all add: MAGIC_NUMBER_def LUABT_VERSION_def)
  have dec: "decodes st pool (Suc (length ?d)) w" for st by (rule wire_decodes [OF _ w]) (use pl in \<open>simp add: pool_fits_def\<close>)
  from ok pl r2(2) show ?thesis
  proof (cases rule: rs_parse_decode)
    case full
    then have "overruns (parseBinaryTable ?d) s"
      using r1(1) r2(1) mv by (auto simp: overruns_def parseBinaryTable_def lua_gettop_run lbind_run simp del: parserValue.simps)
    moreover have "\<not> fits s (1 + slots w)" using full(1) slots_pos [of w] fits_mono [of s "1 + slots w" 2] by auto
    ultimately show ?thesis by simp
  next
    case p: (read st r3 s1 a)
    have l: "length (rest r3) < Suc (length ?d)" unfolding p(3) by (simp add: enc_doc_def)
    have f: "fits s1 (slots w) \<longleftrightarrow> fits s (1 + slots w)" using fits_grown [OF p(2,4)] by simp
    from dec grown_ok [OF p(2)] p(5,3) l show ?thesis
    proof (cases rule: decodesE)
      case full
      then have "overruns (parseBinaryTable ?d) s"
        using r1(1) r2(1) mv p(1) by (auto simp: overruns_def parseBinaryTable_def lua_gettop_run lbind_run simp del: parserValue.simps)
      with full(1) f show ?thesis by simp
    next
      case v: (read r4 s2 v)
      have st2: "l_stack s2 = l_stack s @ [LTable a, v]" using v(4) p(4) by simp
      have de: "rs_destroy st s2 = (Inr (st\<lparr>rs_handle := 0\<rparr>), s2\<lparr>l_stack := l_stack s @ [v]\<rparr>)"
        using p(6) st2 by (simp add: rs_destroy_def lbind_run lua_remove_pos nat_add_distrib)
      have "parseBinaryTable ?d s = (Inr 1, s2\<lparr>l_stack := l_stack s @ [v]\<rparr>)"
        using r1(1) r2(1) mv p(1) v(1) de
        by (simp add: parseBinaryTable_def lua_gettop_run lbind_run del: parserValue.simps)
      moreover have "grown s (s2\<lparr>l_stack := l_stack s @ [v]\<rparr>)" using grown_trans [OF p(2) v(2)] by simp
      moreover have "denotes (l_heap s2) (l_brk s) v w" by (rule denotes_frame [OF v(5)]) (use p(2) in \<open>simp_all add: grown_def\<close>)
      ultimately show ?thesis using v(6) f by auto
    qed
  qed
qed

end
