(* ===== verification/Lua_Sort_Props.thy ===== *)
theory Lua_Sort_Props
  imports Lua_Sort Lua_Api_Run "HOL-Library.Multiset"
begin

text \<open>
  \<^verbatim>\<open>table.sort\<close> is a sorting routine: with an order function that is a strict weak order on the
  elements, the quicksort of \<^verbatim>\<open>auxsort\<close> ends without an error, permutes the array part
  \<open>1..n\<close>, sorts it, and touches nothing else. The array is seen as a function from indices to
  values; the locale \<open>sort_contract\<close> is what the routine needs of the order function.
\<close>

definition ikey :: "int \<Rightarrow> TValue" where
  "ikey i = LNumber (cast_num i)"

lemma ikey_valid: "0 \<le> i \<Longrightarrow> i < 2 ^ 31 \<Longrightarrow> valid_key (ikey i)"
  using valid_int_key [of "nat i"] by (simp add: ikey_def nat_less_iff)

lemma ikey_eq: "0 \<le> i \<Longrightarrow> i < 2 ^ 31 \<Longrightarrow> 0 \<le> j \<Longrightarrow> j < 2 ^ 31 \<Longrightarrow> luaO_rawequalObj (ikey i) (ikey j) \<longleftrightarrow> i = j"
  by (simp add: ikey_def luai_numeq_cast_num)

subsection \<open>Permutations of a range\<close>

definition perm :: "int \<Rightarrow> int \<Rightarrow> (int \<Rightarrow> 'a) \<Rightarrow> (int \<Rightarrow> 'a) \<Rightarrow> bool" where
  "perm l u A B \<longleftrightarrow> (\<exists>p. bij p \<and> (\<forall>x. \<not> (l \<le> x \<and> x \<le> u) \<longrightarrow> p x = x) \<and> B = A \<circ> p)"

lemma perm_refl [simp]: "perm l u A A"
  unfolding perm_def by (rule exI [of _ id]) simp

lemma perm_trans: "perm l u A B \<Longrightarrow> perm l u B C \<Longrightarrow> perm l u A C"
proof -
  assume "perm l u A B" "perm l u B C"
  then obtain p q where p: "bij p" "\<forall>x. \<not> (l \<le> x \<and> x \<le> u) \<longrightarrow> p x = x" "B = A \<circ> p"
    and q: "bij q" "\<forall>x. \<not> (l \<le> x \<and> x \<le> u) \<longrightarrow> q x = x" "C = B \<circ> q" unfolding perm_def by blast
  then show ?thesis unfolding perm_def by (intro exI [of _ "p \<circ> q"]) (simp add: bij_comp comp_assoc)
qed

lemma perm_mono: "perm l u A B \<Longrightarrow> l' \<le> l \<Longrightarrow> u \<le> u' \<Longrightarrow> perm l' u' A B"
proof -
  assume a: "perm l u A B" "l' \<le> l" "u \<le> u'"
  then obtain p where p: "bij p" "\<forall>x. \<not> (l \<le> x \<and> x \<le> u) \<longrightarrow> p x = x" "B = A \<circ> p" unfolding perm_def by blast
  have "\<forall>x. \<not> (l' \<le> x \<and> x \<le> u') \<longrightarrow> p x = x" using p(2) a(2,3) by force
  with p show ?thesis unfolding perm_def by blast
qed

lemma perm_swap:
  assumes "l \<le> i" "i \<le> u" "l \<le> j" "j \<le> u"
  shows "perm l u A (A(i := A j, j := A i))"
proof -
  let ?p = "\<lambda>x. if x = i then j else if x = j then i else x"
  have "bij ?p" by (rule o_bij [of ?p]) (auto simp: fun_eq_iff)
  with assms show ?thesis unfolding perm_def by (intro exI [of _ ?p]) (auto simp: fun_eq_iff)
qed

lemma perm_outside: "perm l u A B \<Longrightarrow> \<not> (l \<le> x \<and> x \<le> u) \<Longrightarrow> B x = A x"
  unfolding perm_def by auto

lemma perm_inside:
  assumes "perm l u A B" "l \<le> x" "x \<le> u"
  obtains y where "l \<le> y" "y \<le> u" "B x = A y"
proof -
  obtain p where p: "bij p" "\<forall>x. \<not> (l \<le> x \<and> x \<le> u) \<longrightarrow> p x = x" "B = A \<circ> p" using assms(1) unfolding perm_def by blast
  have "l \<le> p x \<and> p x \<le> u"
  proof (rule ccontr)
    assume n: "\<not> (l \<le> p x \<and> p x \<le> u)"
    then have "p (p x) = p x" using p(2) by blast
    then have "p x = x" using bij_is_inj [OF p(1)] by (simp add: inj_eq)
    with n assms show False by simp
  qed
  with that [of "p x"] p(3) show ?thesis by simp
qed

lemma perm_mset:
  assumes "perm l u A B"
  shows "image_mset B (mset_set {l..u}) = image_mset A (mset_set {l..u})"
proof -
  obtain p where p: "bij p" "\<forall>x. \<not> (l \<le> x \<and> x \<le> u) \<longrightarrow> p x = x" "B = A \<circ> p" using assms unfolding perm_def by blast
  have inj: "inj_on p {l..u}" by (rule inj_on_subset [OF bij_is_inj [OF p(1)]]) simp
  have pp: "perm l u id p" unfolding perm_def by (intro exI [of _ p] conjI p(1,2)) simp
  have "p x \<in> {l..u}" if x: "x \<in> {l..u}" for x
  proof -
    obtain y where "l \<le> y" "y \<le> u" "p x = id y" by (rule perm_inside [OF pp, of x]) (use x in auto)
    then show ?thesis by simp
  qed
  then have "p ` {l..u} \<subseteq> {l..u}" by blast
  then have "p ` {l..u} = {l..u}" using inj by (intro endo_inj_surj) simp_all
  then have "image_mset p (mset_set {l..u}) = mset_set {l..u}" using image_mset_mset_set [OF inj] by simp
  then show ?thesis using p(3) by (simp add: multiset.map_comp [symmetric])
qed

subsection \<open>The state during a sort\<close>

definition sort_state :: "lua_State \<Rightarrow> addr \<Rightarrow> TValue \<Rightarrow> Table \<Rightarrow> TValue list \<Rightarrow> lua_State" where
  "sort_state s0 a f t xs = s0\<lparr>l_stack := [LTable a, f] @ xs, l_heap := (l_heap s0)(a \<mapsto> t)\<rparr>"

lemma sort_state_fields [simp]:
  "l_stack (sort_state s0 a f t xs) = LTable a # f # xs" "l_heap (sort_state s0 a f t xs) a = Some t"
  "(sort_state s0 a f t xs)\<lparr>l_stack := LTable a # f # ys\<rparr> = sort_state s0 a f t ys"
  by (simp_all add: sort_state_def)

definition holds :: "int \<Rightarrow> TValue set \<Rightarrow> (TValue \<Rightarrow> TValue) \<Rightarrow> Table \<Rightarrow> (int \<Rightarrow> TValue) \<Rightarrow> bool" where
  "holds n V R t A \<longleftrightarrow> wf_table t \<and> (\<forall>i. 1 \<le> i \<longrightarrow> i \<le> n \<longrightarrow> tget t (ikey i) = A i \<and> A i \<in> V) \<and>
     (\<forall>k. valid_key k \<longrightarrow> (\<forall>i. 1 \<le> i \<longrightarrow> i \<le> n \<longrightarrow> \<not> luaO_rawequalObj k (ikey i)) \<longrightarrow> tget t k = R k)"

lemma rawgeti_sort:
  assumes "holds n V R t A" "1 \<le> i" "i \<le> n" "n < 2 ^ 31"
  shows "lua_rawgeti 1 i (sort_state s0 a f t xs) = (Inr (), sort_state s0 a f t (xs @ [A i]))"
proof -
  have wf: "wf_table t" and v: "tget t (ikey i) = A i" using assms by (simp_all add: holds_def)
  have k: "valid_key (ikey i)" by (rule ikey_valid) (use assms in simp_all)
  have "luaH_getnum t i = Inr (find_key t (ikey i))" using luaH_getnum_find [OF wf, of i] assms by (simp add: ikey_def)
  then show ?thesis using v tget_find [OF wf k] by (simp add: lua_rawgeti_def api lbind_run)
qed

lemma rawseti_sort:
  assumes h: "holds n V R t A" and i: "1 \<le> i" "i \<le> n" and n: "n < 2 ^ 31" and V: "LNil \<notin> V" "v \<in> V"
  shows "\<exists>t'. lua_rawseti 1 i (sort_state s0 a f t (xs @ [v])) = (Inr (), sort_state s0 a f t' xs) \<and> holds n V R t' (A(i := v))"
proof -
  have wf: "wf_table t" and x: "tget t (ikey i) = A i" "A i \<in> V" using h i by (simp_all add: holds_def)
  have k: "valid_key (ikey i)" by (rule ikey_valid) (use i n in simp_all)
  have gn: "luaH_getnum t i = Inr (find_key t (ikey i))" using luaH_getnum_find [OF wf, of i] i n by (simp add: ikey_def)
  have "tget t (ikey i) \<noteq> LNil" using x V by auto
  then obtain p where p: "find_key t (ikey i) = Some p" using tget_find [OF wf k] by (cases "find_key t (ikey i)") (simp_all add: slot_value_def)
  note ss = slot_set_spec [OF wf k p, where v = v]
  let ?t = "slot_set t p v"
  have sn: "luaH_setnum t i = Inr (t, p)" using gn p by (simp add: luaH_setnum_def luaH_setnum_with_def)
  have st: "(sort_state s0 a f t (xs @ [v]))\<lparr>l_heap := (l_heap (sort_state s0 a f t (xs @ [v])))(a \<mapsto> ?t), l_stack := LTable a # f # xs\<rparr> = sort_state s0 a f ?t xs"
    by (simp add: sort_state_def)
  have "lua_rawseti 1 i (sort_state s0 a f t (xs @ [v])) = (Inr (), sort_state s0 a f ?t xs)"
    using sn st by (simp add: lua_rawseti_def api lbind_run)
  moreover have "holds n V R ?t (A(i := v))"
    unfolding holds_def
  proof (intro conjI allI impI)
    show "wf_table ?t" by (rule ss(1))
    fix j assume j: "1 \<le> j" "j \<le> n"
    have "tget ?t (ikey j) = (if j = i then v else tget t (ikey j))"
      using ss(7) [OF ikey_valid] ikey_eq i j n by simp
    then show "tget ?t (ikey j) = (A(i := v)) j" using h j by (simp add: holds_def)
    show "(A(i := v)) j \<in> V" using h j V by (simp add: holds_def)
  next
    fix k assume k: "valid_key k" "\<forall>i. 1 \<le> i \<longrightarrow> i \<le> n \<longrightarrow> \<not> luaO_rawequalObj k (ikey i)"
    then show "tget ?t k = R k" using ss(7) [OF k(1)] h i by (simp add: holds_def)
  qed
  ultimately show ?thesis by blast
qed

lemma set2_sort:
  assumes h: "holds n V R t A" and i: "1 \<le> i" "i \<le> n" "1 \<le> j" "j \<le> n" and n: "n < 2 ^ 31" and V: "LNil \<notin> V" "u \<in> V" "v \<in> V"
  obtains t' where "set2 i j (sort_state s0 a f t (xs @ [u, v])) = (Inr (), sort_state s0 a f t' xs)" "holds n V R t' (A(i := v, j := u))"
proof -
  obtain t1 where t1: "lua_rawseti 1 i (sort_state s0 a f t ((xs @ [u]) @ [v])) = (Inr (), sort_state s0 a f t1 (xs @ [u]))"
    "holds n V R t1 (A(i := v))" using rawseti_sort [OF h i(1,2) n V(1,3)] by blast
  obtain t2 where "lua_rawseti 1 j (sort_state s0 a f t1 (xs @ [u])) = (Inr (), sort_state s0 a f t2 xs)"
    "holds n V R t2 (A(i := v, j := u))" using rawseti_sort [OF t1(2) i(3,4) n V(1,2)] by blast
  with t1 that show ?thesis by (simp add: set2_def lbind_run)
qed

lemma pop_sort:
  "lua_pop 1 (sort_state s0 a f t (xs @ [u])) = (Inr (), sort_state s0 a f t xs)"
  "lua_pop 2 (sort_state s0 a f t (xs @ [u, v])) = (Inr (), sort_state s0 a f t xs)"
  "lua_pop 3 (sort_state s0 a f t (xs @ [u, v, w])) = (Inr (), sort_state s0 a f t xs)"
  by (simp_all add: api)

subsection \<open>The contract of the order function\<close>

definition ordered :: "(TValue \<Rightarrow> TValue \<Rightarrow> bool) \<Rightarrow> (int \<Rightarrow> TValue) \<Rightarrow> int \<Rightarrow> int \<Rightarrow> bool" where
  "ordered lt A l u \<longleftrightarrow> (\<forall>i j. l \<le> i \<longrightarrow> i < j \<longrightarrow> j \<le> u \<longrightarrow> \<not> lt (A j) (A i))"

text \<open>\<open>A\<close> is divided by its element \<open>i\<close>.\<close>

definition divided :: "(TValue \<Rightarrow> TValue \<Rightarrow> bool) \<Rightarrow> (int \<Rightarrow> TValue) \<Rightarrow> int \<Rightarrow> int \<Rightarrow> int \<Rightarrow> bool" where
  "divided lt A l i u \<longleftrightarrow> (\<forall>k. l \<le> k \<longrightarrow> k < i \<longrightarrow> \<not> lt (A i) (A k)) \<and> (\<forall>k. i < k \<longrightarrow> k \<le> u \<longrightarrow> \<not> lt (A k) (A i))"

lemma divided_left: "divided lt A l i u \<Longrightarrow> perm l (i - 1) A B \<Longrightarrow> divided lt B l i u"
  unfolding divided_def
proof (intro conjI allI impI)
  fix k
  assume d: "(\<forall>k. l \<le> k \<longrightarrow> k < i \<longrightarrow> \<not> lt (A i) (A k)) \<and> (\<forall>k. i < k \<longrightarrow> k \<le> u \<longrightarrow> \<not> lt (A k) (A i))"
    and p: "perm l (i - 1) A B"
  have i: "B i = A i" by (rule perm_outside [OF p]) simp
  { assume k: "l \<le> k" "k < i"
    obtain y where "l \<le> y" "y \<le> i - 1" "B k = A y" by (rule perm_inside [OF p k(1)]) (use k in simp)
    with d i show "\<not> lt (B i) (B k)" by simp }
  assume k: "i < k" "k \<le> u"
  have "B k = A k" by (rule perm_outside [OF p]) (use k in simp)
  with d i k show "\<not> lt (B k) (B i)" by simp
qed

lemma divided_right: "divided lt A l i u \<Longrightarrow> perm (i + 1) u A B \<Longrightarrow> divided lt B l i u"
  unfolding divided_def
proof (intro conjI allI impI)
  fix k
  assume d: "(\<forall>k. l \<le> k \<longrightarrow> k < i \<longrightarrow> \<not> lt (A i) (A k)) \<and> (\<forall>k. i < k \<longrightarrow> k \<le> u \<longrightarrow> \<not> lt (A k) (A i))"
    and p: "perm (i + 1) u A B"
  have i: "B i = A i" by (rule perm_outside [OF p]) simp
  { assume k: "l \<le> k" "k < i"
    have "B k = A k" by (rule perm_outside [OF p]) (use k in simp)
    with d i k show "\<not> lt (B i) (B k)" by simp }
  assume k: "i < k" "k \<le> u"
  obtain y where "i + 1 \<le> y" "y \<le> u" "B k = A y" by (rule perm_inside [OF p, of k]) (use k in simp_all)
  with d i show "\<not> lt (B k) (B i)" by simp
qed

lemma divided_part:
  assumes "divided lt A l i u" "perm j k A B" "j = l \<and> k = i - 1 \<or> j = i + 1 \<and> k = u"
  shows "divided lt B l i u"
  using assms(3) divided_left [OF assms(1), of B] divided_right [OF assms(1), of B] assms(2) by blast

lemma ordered_outside:
  assumes "ordered lt A l u" "perm l' u' A B" "u < l' \<or> u' < l"
  shows "ordered lt B l u"
proof -
  have "B k = A k" if "l \<le> k" "k \<le> u" for k
    by (rule perm_outside [OF assms(2)]) (use that assms(3) in linarith)
  with assms(1) show ?thesis by (simp add: ordered_def)
qed

locale sort_contract =
  fixes prog :: program and ready :: "lua_State \<Rightarrow> TValue \<Rightarrow> bool"
    and V :: "TValue set" and lt :: "TValue \<Rightarrow> TValue \<Rightarrow> bool"
  assumes nil: "LNil \<notin> V"
    and cmp: "ready s0 f \<Longrightarrow> u \<in> V \<Longrightarrow> v \<in> V \<Longrightarrow>
      sort_comp prog (- 1) (- 2) (sort_state s0 a f t (xs @ [u, v])) = (Inr (lt v u), sort_state s0 a f t (xs @ [u, v]))"
    and cmp': "ready s0 f \<Longrightarrow> u \<in> V \<Longrightarrow> v \<in> V \<Longrightarrow>
      sort_comp prog (- 2) (- 1) (sort_state s0 a f t (xs @ [u, v])) = (Inr (lt u v), sort_state s0 a f t (xs @ [u, v]))"
    and cmp'': "ready s0 f \<Longrightarrow> w \<in> V \<Longrightarrow> v \<in> V \<Longrightarrow>
      sort_comp prog (- 3) (- 1) (sort_state s0 a f t (xs @ [w, u, v])) = (Inr (lt w v), sort_state s0 a f t (xs @ [w, u, v]))"
    and asym: "u \<in> V \<Longrightarrow> v \<in> V \<Longrightarrow> lt u v \<Longrightarrow> \<not> lt v u"
    and negtrans: "u \<in> V \<Longrightarrow> v \<in> V \<Longrightarrow> w \<in> V \<Longrightarrow> \<not> lt u v \<Longrightarrow> \<not> lt v w \<Longrightarrow> \<not> lt u w"
begin

lemma in_V: "holds n V R t A \<Longrightarrow> 1 \<le> i \<Longrightarrow> i \<le> n \<Longrightarrow> A i \<in> V"
  by (simp add: holds_def)

lemma irrefl: "v \<in> V \<Longrightarrow> \<not> lt v v"
  using asym by blast

lemma scan_up_run:
  assumes rd: "ready s0 f" and n: "n < 2 ^ 31" and h: "holds n V R t A" and P: "P \<in> V" and j: "\<not> lt (A j) P" "j \<le> u" "u \<le> n"
  shows "0 \<le> i \<Longrightarrow> i < j \<Longrightarrow> nat (j - i) \<le> fuel \<Longrightarrow>
    \<exists>i'. scan_up prog u fuel i (sort_state s0 a f t (xs @ [P])) = (Inr i', sort_state s0 a f t (xs @ [P, A i'])) \<and>
      i < i' \<and> i' \<le> j \<and> \<not> lt (A i') P \<and> (\<forall>k. i < k \<longrightarrow> k < i' \<longrightarrow> lt (A k) P)"
proof (induction fuel arbitrary: i)
  case (Suc fuel)
  have b: "1 \<le> i + 1" "i + 1 \<le> n" using Suc.prems j by linarith+
  note g = rawgeti_sort [OF h b n, of s0 a f "xs @ [P]"]
  note c = cmp [OF rd P in_V [OF h b], of a t xs]
  show ?case
  proof (cases "lt (A (i + 1)) P")
    case False
    with g c Suc.prems show ?thesis by (intro exI [of _ "i + 1"]) (simp add: lbind_run)
  next
    case True
    then have ne: "i + 1 \<noteq> j" using j(1) by blast
    then have "\<exists>i'. scan_up prog u fuel (i + 1) (sort_state s0 a f t (xs @ [P])) = (Inr i', sort_state s0 a f t (xs @ [P, A i'])) \<and>
      i + 1 < i' \<and> i' \<le> j \<and> \<not> lt (A i') P \<and> (\<forall>k. i + 1 < k \<longrightarrow> k < i' \<longrightarrow> lt (A k) P)"
      by (intro Suc.IH) (use Suc.prems in linarith)+
    then obtain i' where i': "scan_up prog u fuel (i + 1) (sort_state s0 a f t (xs @ [P])) = (Inr i', sort_state s0 a f t (xs @ [P, A i']))"
      "i + 1 < i'" "i' \<le> j" "\<not> lt (A i') P" "\<forall>k. i + 1 < k \<longrightarrow> k < i' \<longrightarrow> lt (A k) P" by blast
    have "\<not> i + 1 > u" using Suc.prems j ne by linarith
    then have eq: "scan_up prog u (Suc fuel) i (sort_state s0 a f t (xs @ [P])) = scan_up prog u fuel (i + 1) (sort_state s0 a f t (xs @ [P]))"
      using g c True pop_sort(1) [of s0 a f t "xs @ [P]" "A (i + 1)"] by (simp add: lbind_run)
    have "lt (A k) P" if "i < k" "k < i'" for k
      using i'(5) True that by (cases "k = i + 1") auto
    with i' eq show ?thesis by (intro exI [of _ i']) auto
  qed
qed simp

lemma scan_down_run:
  assumes rd: "ready s0 f" and n: "n < 2 ^ 31" and h: "holds n V R t A" and P: "P \<in> V" and j: "\<not> lt P (A j)" "l \<le> j" "1 \<le> l"
  shows "i \<le> n + 1 \<Longrightarrow> j < i \<Longrightarrow> nat (i - j) \<le> fuel \<Longrightarrow>
    \<exists>i'. scan_down prog l fuel i (sort_state s0 a f t (xs @ [P, w])) = (Inr i', sort_state s0 a f t (xs @ [P, w, A i'])) \<and>
      i' < i \<and> j \<le> i' \<and> \<not> lt P (A i') \<and> (\<forall>k. i' < k \<longrightarrow> k < i \<longrightarrow> lt P (A k))"
proof (induction fuel arbitrary: i)
  case (Suc fuel)
  have b: "1 \<le> i - 1" "i - 1 \<le> n" using Suc.prems j by linarith+
  note g = rawgeti_sort [OF h b n, of s0 a f "xs @ [P, w]"]
  note c = cmp'' [OF rd P in_V [OF h b], of a t xs w]
  show ?case
  proof (cases "lt P (A (i - 1))")
    case False
    with g c Suc.prems show ?thesis by (intro exI [of _ "i - 1"]) (simp add: lbind_run)
  next
    case True
    then have ne: "i - 1 \<noteq> j" using j(1) by blast
    then have "\<exists>i'. scan_down prog l fuel (i - 1) (sort_state s0 a f t (xs @ [P, w])) = (Inr i', sort_state s0 a f t (xs @ [P, w, A i'])) \<and>
      i' < i - 1 \<and> j \<le> i' \<and> \<not> lt P (A i') \<and> (\<forall>k. i' < k \<longrightarrow> k < i - 1 \<longrightarrow> lt P (A k))"
      by (intro Suc.IH) (use Suc.prems in linarith)+
    then obtain i' where i': "scan_down prog l fuel (i - 1) (sort_state s0 a f t (xs @ [P, w])) = (Inr i', sort_state s0 a f t (xs @ [P, w, A i']))"
      "i' < i - 1" "j \<le> i'" "\<not> lt P (A i')" "\<forall>k. i' < k \<longrightarrow> k < i - 1 \<longrightarrow> lt P (A k)" by blast
    have "\<not> i - 1 < l" using Suc.prems j ne by linarith
    then have eq: "scan_down prog l (Suc fuel) i (sort_state s0 a f t (xs @ [P, w])) = scan_down prog l fuel (i - 1) (sort_state s0 a f t (xs @ [P, w]))"
      using g c True pop_sort(1) [of s0 a f t "xs @ [P, w]" "A (i - 1)"] by (simp add: lbind_run)
    have "lt P (A k)" if "i' < k" "k < i" for k
      using i'(5) True that by (cases "k = i - 1") auto
    with i' eq show ?thesis by (intro exI [of _ i']) auto
  qed
qed simp

text \<open>The invariant of the partition loop: \<open>a[l..i] \<le> P \<le> a[j..u]\<close>, with the pivot at \<open>u - 1\<close>.\<close>

definition part_inv :: "int \<Rightarrow> int \<Rightarrow> TValue \<Rightarrow> (int \<Rightarrow> TValue) \<Rightarrow> int \<Rightarrow> int \<Rightarrow> bool" where
  "part_inv l u P A i j \<longleftrightarrow> l \<le> i \<and> i \<le> u - 2 \<and> l < j \<and> j \<le> u - 1 \<and> i \<le> j \<and> A (u - 1) = P \<and>
     (\<forall>k. l \<le> k \<longrightarrow> k \<le> i \<longrightarrow> \<not> lt P (A k)) \<and> (\<forall>k. j \<le> k \<longrightarrow> k \<le> u \<longrightarrow> \<not> lt (A k) P)"

lemma partition_loop_run:
  assumes rd: "ready s0 f" and n: "n < 2 ^ 31" and P: "P \<in> V" and lu: "1 \<le> l" "u \<le> n"
  shows "holds n V R t A \<Longrightarrow> part_inv l u P A i j \<Longrightarrow> nat (j - l) < fuel \<Longrightarrow>
    \<exists>t' A' i'. partition_loop prog l u fuel i j (sort_state s0 a f t [P]) = (Inr i', sort_state s0 a f t' []) \<and>
      holds n V R t' A' \<and> perm l u A A' \<and> l < i' \<and> i' \<le> u - 1 \<and> A' (u - 1) = P \<and>
      (\<forall>k. l \<le> k \<longrightarrow> k < i' \<longrightarrow> \<not> lt P (A' k)) \<and> (\<forall>k. i' \<le> k \<longrightarrow> k \<le> u \<longrightarrow> \<not> lt (A' k) P)"
proof (induction fuel arbitrary: t A i j)
  case (Suc fuel)
  note h = Suc.prems(1)
  have b: "l \<le> i" "i \<le> u - 2" "l < j" "j \<le> u - 1" "i \<le> j" "A (u - 1) = P"
    and le: "\<And>k. l \<le> k \<Longrightarrow> k \<le> i \<Longrightarrow> \<not> lt P (A k)" and ge: "\<And>k. j \<le> k \<Longrightarrow> k \<le> u \<Longrightarrow> \<not> lt (A k) P"
    using Suc.prems(2) by (simp_all add: part_inv_def)
  have "\<exists>i'. scan_up prog u (nat (u - l + 3)) i (sort_state s0 a f t ([] @ [P])) = (Inr i', sort_state s0 a f t ([] @ [P, A i'])) \<and>
      i < i' \<and> i' \<le> u - 1 \<and> \<not> lt (A i') P \<and> (\<forall>k. i < k \<longrightarrow> k < i' \<longrightarrow> lt (A k) P)"
    by (rule scan_up_run [OF rd n h P]) (use b lu ge [of "u - 1"] in linarith)+
  then obtain i' where i': "scan_up prog u (nat (u - l + 3)) i (sort_state s0 a f t [P]) = (Inr i', sort_state s0 a f t [P, A i'])"
    "i < i'" "i' \<le> u - 1" "\<not> lt (A i') P" "\<And>k. i < k \<Longrightarrow> k < i' \<Longrightarrow> lt (A k) P" by auto
  have "\<exists>j'. scan_down prog l (nat (u - l + 3)) j (sort_state s0 a f t ([] @ [P, A i'])) = (Inr j', sort_state s0 a f t ([] @ [P, A i', A j'])) \<and>
      j' < j \<and> l \<le> j' \<and> \<not> lt P (A j') \<and> (\<forall>k. j' < k \<longrightarrow> k < j \<longrightarrow> lt P (A k))"
    by (rule scan_down_run [OF rd n h P]) (use b lu le [of l] in linarith)+
  then obtain j' where j': "scan_down prog l (nat (u - l + 3)) j (sort_state s0 a f t [P, A i']) = (Inr j', sort_state s0 a f t [P, A i', A j'])"
    "j' < j" "l \<le> j'" "\<not> lt P (A j')" "\<And>k. j' < k \<Longrightarrow> k < j \<Longrightarrow> lt P (A k)" by auto
  have iv: "A i' \<in> V" and jv: "A j' \<in> V" using in_V [OF h] i' j' b lu by simp_all
  show ?case
  proof (cases "j' < i'")
    case True
    have "\<not> lt P (A k)" if "l \<le> k" "k < i'" for k
    proof (cases "k \<le> i")
      case False
      have "A k \<in> V" by (rule in_V [OF h]) (use that lu b i' in linarith)+
      with asym P i'(5) [of k] that False show ?thesis by force
    qed (use le that in simp)
    moreover have "\<not> lt (A k) P" if "i' \<le> k" "k \<le> u" for k
    proof (cases "j \<le> k")
      case False
      have "A k \<in> V" by (rule in_V [OF h]) (use that lu b i' in linarith)+
      with asym P j'(5) [of k] that False True show ?thesis by force
    qed (use ge that in simp)
    moreover have "partition_loop prog l u (Suc fuel) i j (sort_state s0 a f t [P]) = (Inr i', sort_state s0 a f t [])"
      using i'(1) j'(1) True pop_sort(3) [of s0 a f t "[]" P "A i'" "A j'"] by (simp add: lbind_run)
    ultimately show ?thesis using h i' b by (intro exI [of _ t] exI [of _ A] exI [of _ i']) simp
  next
    case False
    let ?B = "A(i' := A j', j' := A i')"
    have bi: "1 \<le> i'" "i' \<le> n" "1 \<le> j'" "j' \<le> n" using i'(2,3) j'(2,3) b lu by linarith+
    obtain t1 where t1: "set2 i' j' (sort_state s0 a f t ([P] @ [A i', A j'])) = (Inr (), sort_state s0 a f t1 [P])" "holds n V R t1 ?B"
      by (rule set2_sort [OF h bi n nil iv jv])
    have eq: "partition_loop prog l u (Suc fuel) i j (sort_state s0 a f t [P]) = partition_loop prog l u fuel i' j' (sort_state s0 a f t1 [P])"
      using i'(1) j'(1) False t1(1) by (simp add: lbind_run)
    have bj: "l < i'" "i' \<le> u - 2" "l < j'" "j' \<le> u - 2" using i'(2,3) j'(2,3) b False by linarith+
    have "part_inv l u P ?B i' j'"
      unfolding part_inv_def
    proof (intro conjI allI impI)
      fix k assume k: "l \<le> k" "k \<le> i'"
      show "\<not> lt P (?B k)"
      proof (cases "k = i'")
        case True
        with j'(4) show ?thesis by (cases "i' = j'") simp_all
      next
        case nk: False
        with k False have "k \<noteq> j'" by linarith
        moreover have "\<not> lt P (A k)"
        proof (cases "k \<le> i")
          case False
          have "A k \<in> V" by (rule in_V [OF h]) (use k lu b i' in linarith)+
          with asym P i'(5) [of k] k nk False show ?thesis by force
        qed (use le k in simp)
        ultimately show ?thesis using nk by simp
      qed
    next
      fix k assume k: "j' \<le> k" "k \<le> u"
      show "\<not> lt (?B k) P"
      proof (cases "k = j'")
        case True
        with i'(4) show ?thesis by simp
      next
        case nk: False
        with k False have "k \<noteq> i'" by linarith
        moreover have "\<not> lt (A k) P"
        proof (cases "j \<le> k")
          case False
          have "A k \<in> V" by (rule in_V [OF h]) (use k lu b j' in linarith)+
          with asym P j'(5) [of k] k nk False show ?thesis by force
        qed (use ge k in simp)
        ultimately show ?thesis using nk by simp
      qed
    qed (use bj False b in auto)
    moreover have "nat (j' - l) < fuel" using Suc.prems(3) j'(2,3) by linarith
    ultimately obtain t' A' i'' where r: "partition_loop prog l u fuel i' j' (sort_state s0 a f t1 [P]) = (Inr i'', sort_state s0 a f t' [])"
      "holds n V R t' A'" "perm l u ?B A'" "l < i''" "i'' \<le> u - 1" "A' (u - 1) = P"
      "\<forall>k. l \<le> k \<longrightarrow> k < i'' \<longrightarrow> \<not> lt P (A' k)" "\<forall>k. i'' \<le> k \<longrightarrow> k \<le> u \<longrightarrow> \<not> lt (A' k) P"
      using Suc.IH [OF t1(2)] by blast
    have "perm l u A ?B" by (rule perm_swap) (use bj in linarith)+
    from perm_trans [OF this r(3)] r show ?thesis unfolding eq by blast
  qed
qed simp

lemma partition_run:
  assumes rd: "ready s0 f" and n: "n < 2 ^ 31" and h: "holds n V R t A" and lu: "1 \<le> l" "l + 3 \<le> u" "u \<le> n"
    and m: "\<not> lt (A ((l + u) div 2)) (A l)" "\<not> lt (A u) (A ((l + u) div 2))"
  shows "\<exists>t' A' i. partition prog l u (sort_state s0 a f t []) = (Inr i, sort_state s0 a f t' []) \<and>
    holds n V R t' A' \<and> perm l u A A' \<and> l < i \<and> i < u \<and> divided lt A' l i u"
proof -
  let ?m = "(l + u) div 2"
  let ?P = "A ?m"
  have mb: "l < ?m" "?m < u - 1 \<or> ?m = u - 1" "?m < u" using lu by linarith+
  have b: "1 \<le> ?m" "?m \<le> n" "1 \<le> u - 1" "u - 1 \<le> n" using lu mb by linarith+
  have P: "?P \<in> V" and Q: "A (u - 1) \<in> V" using in_V [OF h] b by simp_all
  let ?B = "A(?m := A (u - 1), u - 1 := ?P)"
  obtain t1 where t1: "set2 ?m (u - 1) (sort_state s0 a f t ([?P] @ [?P, A (u - 1)])) = (Inr (), sort_state s0 a f t1 [?P])" "holds n V R t1 ?B"
    by (rule set2_sort [OF h b n nil P Q])
  have pre: "lseq [lua_rawgeti 1 ?m, lua_pushvalue (- 1), lua_rawgeti 1 (u - 1), set2 ?m (u - 1)] (sort_state s0 a f t []) =
      (Inr (), sort_state s0 a f t1 [?P])"
    using rawgeti_sort [OF h b(1,2) n, of s0 a f "[]"] rawgeti_sort [OF h b(3,4) n, of s0 a f "[?P, ?P]"] t1(1)
    by (simp add: lbind_run api)
  have "part_inv l u ?P ?B l (u - 1)"
    unfolding part_inv_def
  proof (intro conjI allI impI)
    fix k assume "l \<le> k" "k \<le> l"
    moreover have "l \<noteq> ?m" "l \<noteq> u - 1" using mb lu by linarith+
    ultimately show "\<not> lt ?P (?B k)" using m(1) by simp
  next
    fix k assume "u - 1 \<le> k" "k \<le> u"
    then consider "k = u - 1" | "k = u" by linarith
    then show "\<not> lt (?B k) ?P" using m(2) mb irrefl [OF P] by cases auto
  qed (use lu mb in auto)
  from partition_loop_run [OF rd n P lu(1,3) t1(2) this, where fuel = "nat (u - l + 3)" and a = a]
  obtain t2 A2 i where r: "partition_loop prog l u (nat (u - l + 3)) l (u - 1) (sort_state s0 a f t1 [?P]) = (Inr i, sort_state s0 a f t2 [])"
    "holds n V R t2 A2" "perm l u ?B A2" "l < i" "i \<le> u - 1" "A2 (u - 1) = ?P"
    "\<And>k. l \<le> k \<Longrightarrow> k < i \<Longrightarrow> \<not> lt ?P (A2 k)" "\<And>k. i \<le> k \<Longrightarrow> k \<le> u \<Longrightarrow> \<not> lt (A2 k) ?P"
    using lu by auto
  have bi: "1 \<le> i" "i \<le> n" using r lu by linarith+
  let ?C = "A2(u - 1 := A2 i, i := ?P)"
  obtain t3 where t3: "set2 (u - 1) i (sort_state s0 a f t2 ([] @ [?P, A2 i])) = (Inr (), sort_state s0 a f t3 [])" "holds n V R t3 ?C"
    by (rule set2_sort [OF r(2) b(3,4) bi n nil P in_V [OF r(2) bi]])
  have post: "lseq [lua_rawgeti 1 (u - 1), lua_rawgeti 1 i, set2 (u - 1) i] (sort_state s0 a f t2 []) = (Inr (), sort_state s0 a f t3 [])"
    using rawgeti_sort [OF r(2) b(3,4) n, of s0 a f "[]"] rawgeti_sort [OF r(2) bi n, of s0 a f "[?P]"] t3(1) r(6)
    by (simp add: lbind_run)
  have run: "partition prog l u (sort_state s0 a f t []) = (Inr i, sort_state s0 a f t3 [])"
    unfolding partition_def using pre r(1) post by (simp add: lbind_run)
  have "perm l u A ?B" by (rule perm_swap) (use mb lu in linarith)+
  moreover have "perm l u A2 ?C" using perm_swap [of l "u - 1" u i A2] r lu by simp
  ultimately have "perm l u A ?C" using perm_trans r(3) by blast
  moreover have "divided lt ?C l i u"
    unfolding divided_def using r(4,5,7,8) by (auto split: if_splits)
  ultimately show ?thesis using run t3(2) r(4,5) by (intro exI [of _ t3] exI [of _ ?C] exI [of _ i]) simp
qed

text \<open>Two elements of the array are compared and exchanged if they are out of order.\<close>

lemma exchange:
  assumes rd: "ready s0 f" and n: "n < 2 ^ 31" and h: "holds n V R t A" and i: "1 \<le> i" "i < j" "j \<le> n"
  defines "B \<equiv> (if lt (A j) (A i) then A(i := A j, j := A i) else A)"
  obtains t' where "(if lt (A j) (A i) then set2 i j else lua_pop 2) (sort_state s0 a f t [A i, A j]) = (Inr (), sort_state s0 a f t' [])"
    "holds n V R t' B" "perm i j A B" "\<not> lt (B j) (B i)"
proof (cases "lt (A j) (A i)")
  case True
  have b: "1 \<le> i" "i \<le> n" "1 \<le> j" "j \<le> n" using i by linarith+
  obtain t1 where "set2 i j (sort_state s0 a f t ([] @ [A i, A j])) = (Inr (), sort_state s0 a f t1 [])"
    "holds n V R t1 (A(i := A j, j := A i))"
    by (rule set2_sort [OF h b n nil in_V [OF h b(1,2)] in_V [OF h b(3,4)]])
  moreover have "perm i j A (A(i := A j, j := A i))" by (rule perm_swap) (use i in simp_all)
  moreover have "\<not> lt (A i) (A j)" using asym [OF in_V [OF h b(3,4)] in_V [OF h b(1,2)]] True by blast
  ultimately show ?thesis using that True i by (simp add: B_def)
next
  case False
  then show ?thesis using that [of t] h pop_sort(2) [of s0 a f t "[]"] by (simp add: B_def)
qed

lemma sort_ends_run:
  assumes rd: "ready s0 f" and n: "n < 2 ^ 31" and h: "holds n V R t A" and lu: "1 \<le> l" "l < u" "u \<le> n"
  shows "\<exists>t' A'. sort_ends prog l u (sort_state s0 a f t []) = (Inr (u - l \<le> 2), sort_state s0 a f t' []) \<and>
    holds n V R t' A' \<and> perm l u A A' \<and> \<not> lt (A' u) (A' l) \<and>
    (2 \<le> u - l \<longrightarrow> \<not> lt (A' ((l + u) div 2)) (A' l) \<and> \<not> lt (A' u) (A' ((l + u) div 2)))"
proof -
  have b: "1 \<le> l" "l \<le> n" "1 \<le> u" "u \<le> n" using lu by linarith+
  note gl = rawgeti_sort [OF h b(1,2) n, of s0 a f "[]"] and gu = rawgeti_sort [OF h b(3,4) n, of s0 a f "[A l]"]
  obtain t1 B where B: "B = (if lt (A u) (A l) then A(l := A u, u := A l) else A)" by blast
  from exchange [OF rd n h lu] obtain t1 where t1:
    "(if lt (A u) (A l) then set2 l u else lua_pop 2) (sort_state s0 a f t [A l, A u]) = (Inr (), sort_state s0 a f t1 [])"
    "holds n V R t1 B" "perm l u A B" "\<not> lt (B u) (B l)" unfolding B by blast
  have start: "sort_ends prog l u (sort_state s0 a f t []) =
    (if u - l = 1 then lret True else
         let i = (l + u) div 2 in
         lbind (lseq [lua_rawgeti 1 i, lua_rawgeti 1 l]) (\<lambda>_.
         lbind (sort_comp prog (- 2) (- 1)) (\<lambda>b.
         lbind (if b then set2 i l
                else lbind (lseq [lua_pop 1, lua_rawgeti 1 u]) (\<lambda>_.
                     lbind (sort_comp prog (- 1) (- 2)) (\<lambda>b. if b then set2 i u else lua_pop 2))) (\<lambda>_.
         lret (u - l = 2))))) (sort_state s0 a f t1 [])"
    using gl gu cmp [OF rd in_V [OF h b(1,2)] in_V [OF h b(3,4)], of a t "[]"] t1(1)
    by (simp add: sort_ends_def lbind_run)
  show ?thesis
  proof (cases "u - l = 1")
    case True
    with start t1 show ?thesis by (intro exI [of _ t1] exI [of _ B]) simp
  next
    case False
    let ?m = "(l + u) div 2"
    have m: "l < ?m" "?m < u" using False lu by linarith+
    then have bm: "1 \<le> ?m" "?m \<le> n" using lu by linarith+
    note gm = rawgeti_sort [OF t1(2) bm n, of s0 a f "[]"] and gl = rawgeti_sort [OF t1(2) b(1,2) n, of s0 a f "[B ?m]"]
      and gu = rawgeti_sort [OF t1(2) b(3,4) n, of s0 a f "[B ?m]"]
    have vm: "B ?m \<in> V" "B l \<in> V" "B u \<in> V" using in_V [OF t1(2)] bm b by simp_all
    show ?thesis
    proof (cases "lt (B ?m) (B l)")
      case True
      let ?C = "B(?m := B l, l := B ?m)"
      obtain t2 where t2: "set2 ?m l (sort_state s0 a f t1 ([] @ [B ?m, B l])) = (Inr (), sort_state s0 a f t2 [])" "holds n V R t2 ?C"
        by (rule set2_sort [OF t1(2) bm b(1,2) n nil vm(1,2)])
      have "sort_ends prog l u (sort_state s0 a f t []) = (Inr (u - l = 2), sort_state s0 a f t2 [])"
        unfolding start using False gm gl cmp' [OF rd vm(1,2), of a t1 "[]"] True t2(1) by (simp add: lbind_run Let_def)
      moreover have "perm l u A ?C" by (rule perm_trans [OF t1(3) perm_swap]) (use m in simp_all)
      moreover have "\<not> lt (B u) (B ?m)" using negtrans [OF vm(3,2,1)] t1(4) asym [OF vm(1,2) True] by blast
      ultimately show ?thesis
        using t2(2) m False lu t1(4) asym [OF vm(1,2) True] by (intro exI [of _ t2] exI [of _ ?C]) auto
    next
      case nl: False
      obtain C where C: "C = (if lt (B u) (B ?m) then B(?m := B u, u := B ?m) else B)" by blast
      from exchange [OF rd n t1(2) bm(1) m(2) lu(3)] obtain t2 where t2:
        "(if lt (B u) (B ?m) then set2 ?m u else lua_pop 2) (sort_state s0 a f t1 [B ?m, B u]) = (Inr (), sort_state s0 a f t2 [])"
        "holds n V R t2 C" "perm ?m u B C" "\<not> lt (C u) (C ?m)" unfolding C by blast
      have "sort_ends prog l u (sort_state s0 a f t []) = (Inr (u - l = 2), sort_state s0 a f t2 [])"
        unfolding start
        using False gm gl gu cmp' [OF rd vm(1,2), of a t1 "[]"] cmp [OF rd vm(1,3), of a t1 "[]"] nl t2(1) pop_sort(1) [of s0 a f t1 "[B ?m]" "B l"]
        by (simp add: lbind_run Let_def)
      moreover have "perm l u A C" by (rule perm_trans [OF t1(3) perm_mono [OF t2(3)]]) (use m in simp_all)
      moreover have "C l = B l" "\<not> lt (C ?m) (C l)" using C nl t1(4) m by auto
      moreover have "\<not> lt (C u) (C l)" using C nl t1(4) m by auto
      ultimately show ?thesis using t2(2,4) False lu by (intro exI [of _ t2] exI [of _ C]) auto
    qed
  qed
qed

text \<open>The whole quicksort; the fuel bounds the depth of the recursion.\<close>

lemma auxsort_run:
  assumes rd: "ready s0 f" and n: "n < 2 ^ 31" and pos: "0 < fuel"
  shows "holds n V R t A \<Longrightarrow> 1 \<le> l \<Longrightarrow> u \<le> n \<Longrightarrow> u - l < int fuel \<Longrightarrow>
    \<exists>t' A'. auxsort prog fuel l u (sort_state s0 a f t []) = (Inr (), sort_state s0 a f t' []) \<and>
      holds n V R t' A' \<and> perm l u A A' \<and> ordered lt A' l u"
  using pos
proof (induction fuel arbitrary: t A l u)
  case (Suc fuel)
  note h = Suc.prems(1)
  show ?case
  proof (cases "l < u")
    case False
    then show ?thesis using h by (intro exI [of _ t] exI [of _ A]) (auto simp: ordered_def)
  next
    case True
    have f0: "0 < fuel" using True Suc.prems(4) by linarith
    obtain t1 A1 where e: "sort_ends prog l u (sort_state s0 a f t []) = (Inr (u - l \<le> 2), sort_state s0 a f t1 [])"
      "holds n V R t1 A1" "perm l u A A1" "\<not> lt (A1 u) (A1 l)"
      "2 \<le> u - l \<longrightarrow> \<not> lt (A1 ((l + u) div 2)) (A1 l) \<and> \<not> lt (A1 u) (A1 ((l + u) div 2))"
      using sort_ends_run [OF rd n h Suc.prems(2) True Suc.prems(3)] by blast
    show ?thesis
    proof (cases "u - l \<le> 2")
      case True
      have "\<not> lt (A1 j) (A1 i)" if ij: "l \<le> i" "i < j" "j \<le> u" for i j
      proof -
        consider "i = l" "j = u" | "u - l = 2" "i = l" "j = (l + u) div 2" | "u - l = 2" "i = (l + u) div 2" "j = u"
          using ij True \<open>l < u\<close> by linarith
        then show ?thesis using e(4,5) by cases auto
      qed
      then have "ordered lt A1 l u" by (simp add: ordered_def)
      then show ?thesis using e(1-3) True \<open>l < u\<close> by (intro exI [of _ t1] exI [of _ A1]) (simp add: lbind_run)
    next
      case big: False
      then have "l + 3 \<le> u" "2 \<le> u - l" by linarith+
      with e(5) obtain t2 A2 i where p: "partition prog l u (sort_state s0 a f t1 []) = (Inr i, sort_state s0 a f t2 [])"
        "holds n V R t2 A2" "perm l u A1 A2" "l < i" "i < u" "divided lt A2 l i u"
        using partition_run [OF rd n e(2) Suc.prems(2) _ Suc.prems(3)] by blast
      define left where "left \<longleftrightarrow> i - l < u - i"
      obtain j1 u1 j2 u2 where r: "j1 = (if left then l else i + 1)" "u1 = (if left then i - 1 else u)"
        "j2 = (if left then i + 1 else l)" "u2 = (if left then u else i - 1)" by blast
      have eq: "auxsort prog (Suc fuel) l u (sort_state s0 a f t []) =
        lbind (auxsort prog fuel j1 u1) (\<lambda>_. auxsort prog fuel j2 u2) (sort_state s0 a f t2 [])"
        using \<open>l < u\<close> e(1) p(1) big r by (simp add: lbind_run left_def)
      have s1: "1 \<le> j1" "u1 \<le> n" "u1 - j1 < int fuel" and s2: "1 \<le> j2" "u2 \<le> n" "u2 - j2 < int fuel"
        using p(4,5) Suc.prems(2-4) unfolding r by (simp_all split: if_splits)
      obtain t3 A3 where a1: "auxsort prog fuel j1 u1 (sort_state s0 a f t2 []) = (Inr (), sort_state s0 a f t3 [])"
        "holds n V R t3 A3" "perm j1 u1 A2 A3" "ordered lt A3 j1 u1" using Suc.IH [OF p(2) s1 f0] by blast
      obtain t4 A4 where a2: "auxsort prog fuel j2 u2 (sort_state s0 a f t3 []) = (Inr (), sort_state s0 a f t4 [])"
        "holds n V R t4 A4" "perm j2 u2 A3 A4" "ordered lt A4 j2 u2" using Suc.IH [OF a1(2) s2 f0] by blast
      have d: "divided lt A4 l i u" "ordered lt A4 l (i - 1)" "ordered lt A4 (i + 1) u"
      proof -
        have part: "j1 = l \<and> u1 = i - 1 \<or> j1 = i + 1 \<and> u1 = u" "j2 = l \<and> u2 = i - 1 \<or> j2 = i + 1 \<and> u2 = u"
          unfolding r by (cases left; simp)+
        show "divided lt A4 l i u"
          by (rule divided_part [OF divided_part [OF p(6) a1(3) part(1)] a2(3) part(2)])
        have "u1 < j2 \<or> u2 < j1" unfolding r by (cases left; simp)
        from ordered_outside [OF a1(4) a2(3) this] have "ordered lt A4 j1 u1" .
        with a2(4) show "ordered lt A4 l (i - 1)" "ordered lt A4 (i + 1) u" unfolding r by (cases left; simp)+
      qed
      have "ordered lt A4 l u"
        unfolding ordered_def
      proof (intro allI impI)
        fix x y assume xy: "l \<le> x" "x < y" "y \<le> u"
        consider "y < i" | "y = i" | "x < i" "i < y" | "x = i" | "i < x" using xy by linarith
        then show "\<not> lt (A4 y) (A4 x)"
        proof cases
          case 3
          have v: "A4 x \<in> V" "A4 i \<in> V" "A4 y \<in> V" using in_V [OF a2(2)] xy p(4,5) Suc.prems(2,3) by simp_all
          show ?thesis using negtrans [OF v(3,2,1)] d(1) 3 xy by (simp add: divided_def)
        qed (use d xy in \<open>auto simp: divided_def ordered_def\<close>)
      qed
      moreover have "perm l u A2 A3" by (rule perm_mono [OF a1(3)]) (use r p(4,5) in \<open>auto split: if_splits\<close>)
      moreover have "perm l u A3 A4" by (rule perm_mono [OF a2(3)]) (use r p(4,5) in \<open>auto split: if_splits\<close>)
      ultimately show ?thesis
        using perm_trans e(3) p(3) a2(1,2) a1(1) unfolding eq by (intro exI [of _ t4] exI [of _ A4]) (auto simp: lbind_run intro: perm_trans)
    qed
  qed
qed simp

end

end
