(* ===== verification/Binary_Sort.thy ===== *)
theory Binary_Sort
  imports Binary_Lib Lua_Sort_Props
begin

text \<open>
  The order function \<open>sortCmp\<close> of the writer on keys that are numbers and strings: it is a strict
  weak order there, so \<^verbatim>\<open>table.sort\<close> sorts the keys; the interpretation of \<open>sort_contract\<close>.
\<close>

fun key_lt :: "TValue \<Rightarrow> TValue \<Rightarrow> bool" where
  "key_lt (LNumber a) (LNumber b) = luai_numlt a b"
| "key_lt (LNumber a) (LString b) = True"
| "key_lt (LString a) (LString b) = (l_strcmp a b < 0)"
| "key_lt _ _ = False"

fun sort_key :: "TValue \<Rightarrow> bool" where
  "sort_key (LNumber n) = (\<not> dbl_isnan n)"
| "sort_key (LString b) = True"
| "sort_key _ = False"

lemma sort_keyE:
  assumes "sort_key v"
  obtains n where "v = LNumber n" "\<not> dbl_isnan n" | b where "v = LString b"
  using assms by (cases v) auto

lemma key_lt_asym: "key_lt u v \<Longrightarrow> \<not> key_lt v u"
proof (induction u v rule: key_lt.induct)
  case (1 a b)
  then show ?case by (simp add: luai_numlt_def)
next
  case (3 a b)
  have l: "l_strcmp x y < 0 \<longleftrightarrow> ord_class.lexordp x y" for x y using l_strcmp_lex by blast
  from 3 show ?case unfolding key_lt.simps l using lexordp_antisym by blast
qed simp_all

lemma key_lt_negtrans:
  assumes "sort_key u" "sort_key v" "sort_key w" "\<not> key_lt u v" "\<not> key_lt v w"
  shows "\<not> key_lt u w"
proof -
  have l: "l_strcmp x y < 0 \<longleftrightarrow> ord_class.lexordp x y" "l_strcmp x y = 0 \<longleftrightarrow> x = y" for x y using l_strcmp_lex by blast+
  have neg: "\<not> ord_class.lexordp x z" if "\<not> ord_class.lexordp x y" "\<not> ord_class.lexordp y z" for x y z :: bytes
    using that lexordp_linear [of x y] lexordp_linear [of y z] lexordp_trans lexordp_antisym by blast
  from assms show ?thesis
    by (elim sort_keyE) (auto simp: luai_numlt_def l dest: neg)
qed

subsection \<open>Running the order function\<close>

lemma lua_type_pos [api]:
  "0 < i \<Longrightarrow> nat i \<le> length (l_stack s) \<Longrightarrow> lua_type i s = (Inr (int (ttype (l_stack s ! (nat i - 1)))), s)"
  by (simp add: lua_type_def index2adr_pos lua_value_pos)

lemma sortCmp_run:
  assumes "l_stack s = [x, y]" "sort_key x" "sort_key y"
  shows "sortCmp prog s = (Inr (if key_lt x y then 1 else 0), s)"
  using assms(2,3)
  by (elim sort_keyE) (simp_all add: sortCmp_def api assms(1) lbind_run lua_lessthan_def luaV_lessthan_def)

text \<open>A call of \<open>sortCmp\<close> on two keys at the top of the stack.\<close>

lemma call_sortCmp:
  assumes st: "l_stack s = xs @ [LFunction fa, x, y]" and c: "l_closures s fa = Some c" "c_f c = CSortCmp"
    and n: "l_nCcalls s < 199" and k: "sort_key x" "sort_key y"
  shows "lua_call (program_of ext (Suc m)) 2 1 s = (Inr (), s\<lparr>l_stack := xs @ [if key_lt x y then y else LNil]\<rparr>)"
proof -
  let ?p = "length xs"
  let ?s1 = "s\<lparr>l_nCcalls := l_nCcalls s + 1\<rparr>"
  let ?fr = "?s1\<lparr>l_stack := [x, y], l_ci_top := Suc (Suc LUA_MINSTACK), l_func := Some fa, l_caller := called_by_C\<rparr>"
  have r: "sortCmp (program_of ext m) ?fr = (Inr (if key_lt x y then 1 else 0), ?fr)"
    by (rule sortCmp_run [OF _ k]) simp
  have d: "drop (Suc ?p) (xs @ [LFunction fa, x, y]) = [x, y]" by simp
  have "run_closure (program_of ext (Suc m)) ?p 1 fa ?s1 =
    (Inr (), ?s1\<lparr>l_stack := xs @ [if key_lt x y then y else LNil]\<rparr>)"
    using c r st by (simp add: run_closure_def d luaD_poscall_def)
  then have "luaD_call (program_of ext (Suc m)) ?p 1 s = (Inr (), s\<lparr>l_stack := xs @ [if key_lt x y then y else LNil]\<rparr>)"
    using n st by (simp add: luaD_call_def luaD_precall_def lbind_run LUAI_MAXCCALLS_def nth_append)
  then show ?thesis using st by (simp add: lua_call_def lbind_run)
qed

lemma lua_value_m4 [api]: "4 \<le> length (l_stack s) \<Longrightarrow> lua_value (- 4) s = (Inr (rev (l_stack s) ! 3), s)"
  by (subst lua_value_top) simp_all

lemma key_true: "sort_key y \<Longrightarrow> \<not> l_isfalse y"
  by (cases y) simp_all

lemma sort_state_push: "(sort_state s0 a f t xs)\<lparr>l_stack := LTable a # f # xs @ ys\<rparr> = sort_state s0 a f t (xs @ ys)"
  by simp

lemma sort_comp_run:
  assumes c: "l_closures s0 fa = Some c" "c_f c = CSortCmp" and n: "l_nCcalls s0 < 199"
    and v: "lua_value (i - 1) (sort_state s0 a (LFunction fa) t (xs @ [LFunction fa])) =
        (Inr x, sort_state s0 a (LFunction fa) t (xs @ [LFunction fa]))"
      "lua_value (j - 2) (sort_state s0 a (LFunction fa) t (xs @ [LFunction fa, x])) =
        (Inr y, sort_state s0 a (LFunction fa) t (xs @ [LFunction fa, x]))"
    and k: "sort_key x" "sort_key y"
  shows "sort_comp (program_of ext (Suc m)) i j (sort_state s0 a (LFunction fa) t xs) =
    (Inr (key_lt x y), sort_state s0 a (LFunction fa) t xs)"
proof -
  let ?S = "sort_state s0 a (LFunction fa) t"
  have "lua_call (program_of ext (Suc m)) 2 1 (?S (xs @ [LFunction fa, x, y])) =
      (Inr (), (?S (xs @ [LFunction fa, x, y]))\<lparr>l_stack := (LTable a # LFunction fa # xs) @ [if key_lt x y then y else LNil]\<rparr>)"
    by (rule call_sortCmp [where fa = fa and c = c]) (use c n k in \<open>simp_all add: sort_state_def\<close>)
  then have call: "lua_call (program_of ext (Suc m)) 2 1 (?S (xs @ [LFunction fa, x, y])) =
      (Inr (), ?S (xs @ [if key_lt x y then y else LNil]))" by simp
  show ?thesis
    using v call key_true [OF k(2)] pop_sort(1) [of s0 a "LFunction fa" t xs]
    by (simp add: sort_comp_def lua_isnil_def api lbind_run lua_toboolean_def)
qed

definition cmp_ready :: "lua_State \<Rightarrow> TValue \<Rightarrow> bool" where
  "cmp_ready s f \<longleftrightarrow> (\<exists>fa c. f = LFunction fa \<and> l_closures s fa = Some c \<and> c_f c = CSortCmp \<and> l_nCcalls s < 199)"

interpretation key_sort: sort_contract "program_of ext (Suc m)" cmp_ready "Collect sort_key" key_lt
proof (unfold_locales, goal_cases)
  case 1
  show ?case by simp
next
  case (2 s0 f u v a t xs)
  then show ?case unfolding cmp_ready_def by (elim exE conjE, hypsubst, intro sort_comp_run) (simp_all add: api)
next
  case (3 s0 f u v a t xs)
  then show ?case unfolding cmp_ready_def by (elim exE conjE, hypsubst, intro sort_comp_run) (simp_all add: api)
next
  case (4 s0 f w v a t xs u)
  then show ?case unfolding cmp_ready_def by (elim exE conjE, hypsubst, intro sort_comp_run) (simp_all add: api)
next
  case (5 u v)
  then show ?case by (intro key_lt_asym)
next
  case (6 u v w)
  then show ?case by (intro key_lt_negtrans [of u v w]) simp_all
qed

lemmas sort_keys = key_sort.auxsort_run [unfolded mem_Collect_eq]

end
