(* ===== verification/Binary_Props.thy ===== *)
theory Binary_Props
  imports Lua_Table_Props Binary_Lib Binary_Decode Binary_Sort
begin

text \<open>
  What the module promises its callers, stated of the functions of \<^verbatim>\<open>src/src\<close> and of the parts
  of Lua they rest on, with a small state on which the hypotheses hold.
\<close>

definition demo_state :: lua_State where
  "demo_state = \<lparr>l_stack = [], l_ci_top = 21, l_func = None, l_caller = called_by_C, l_nCcalls = 0, l_heap = Map.empty,
     l_closures = Map.empty, l_brk = 64, l_gt = 0, l_registry = 0, l_mt = (\<lambda>_. None), l_umt = (\<lambda>_. None),
     l_ulen = (\<lambda>_. 0), l_str2d = (\<lambda>_. None)\<rparr>"

lemma demo_ok [simp]: "heap_ok demo_state" "l_stack demo_state = []" "l_brk demo_state = 64" "l_ci_top demo_state = 21"
  by (simp_all add: demo_state_def heap_ok_def)

subsection \<open>The parser\<close>

text \<open>
  C4. \<open>parseBinaryTable\<close> is safe on every input, well-formed or not. It returns, with one of three
  outcomes: one result, a plain Lua value on top of the old stack; two results, nil and a
  message; or a Lua error (out of memory, a block too big, table overflow, a nil or NaN table key). There is one fault: the parser
  never asks for stack slots, so input that nests too deep pushes a value beyond the frame (\<open>Overrun\<close>); this needs an
  input that is not shorter than the slots left, less one. Otherwise it never reads
  outside its buffer or uses the API outside its contract (\<open>Undef\<close>) and never exceeds
  the bound on the nesting that the length of the input gives (\<open>NoFuel\<close>). Whatever happens, the
  old stack values, the old tables and the rest of the Lua state are untouched, and every table
  of the heap is well-formed. The allocator is taken to refuse an array part of more than 2^26 slots (1 GiB).
\<close>

theorem parse_any_input:
  assumes "heap_ok s"
  shows "case parseBinaryTable data s of
      (Inr n, s') \<Rightarrow> grown s s' \<and>
        ((n = 1 \<and> (\<exists>v. l_stack s' = l_stack s @ [v] \<and> plain s' v)) \<or>
         (n = 2 \<and> (\<exists>m. l_stack s' = l_stack s @ [LNil, LString m])))
    | (Inl e, s') \<Rightarrow> grown s s' \<and> (e \<in> parse_errors \<or> e = Overrun \<and> l_ci_top s < length (l_stack s) + length data + 2)"
  using parseBinaryTable_result [OF assms, of data] by (auto simp: parse_result_def split: prod.splits sum.splits)

theorem parse_any_input_witness:
  "case parseBinaryTable [0x62, 0x74, 1] demo_state of
      (Inr n, s') \<Rightarrow> grown demo_state s' \<and>
        ((n = 1 \<and> (\<exists>v. l_stack s' = [v] \<and> plain s' v)) \<or> (n = 2 \<and> (\<exists>m. l_stack s' = [LNil, LString m])))
    | (Inl e, s') \<Rightarrow> grown demo_state s' \<and> e \<in> parse_errors"
  using parse_any_input [OF demo_ok(1), of "[0x62, 0x74, 1]"] by (simp split: prod.splits sum.splits)

text \<open>
  C3. The parser reads the format: on the encoding of a document (any tree of nil, booleans, numbers,
  strings of the pool, arrays and tables within the limits of Lua), followed by anything, it
  returns one value that denotes this document. Its tables are new, and hold the values of
  the document under the keys of the document and nothing else. This takes one slot of the frame for the pool and those that
  the nesting of the document needs (\<open>slots\<close>: one for a scalar, one more for an array around it, two more for a table); when the frame
  has less, and only then, it pushes a value beyond its frame, since it never calls \<^verbatim>\<open>lua_checkstack\<close>.
\<close>

theorem parse_reads_document:
  assumes "heap_ok s" "pool_fits pool" "wire_ok pool w"
  shows "if length (l_stack s) + 1 + slots w \<le> l_ci_top s
    then \<exists>s' v. parseBinaryTable (enc_doc pool w @ cs) s = (Inr 1, s') \<and> grown s s' \<and>
      l_stack s' = l_stack s @ [v] \<and> denotes (l_heap s') (l_brk s) v w
    else \<exists>s'. parseBinaryTable (enc_doc pool w @ cs) s = (Inl Overrun, s')"
  using parse_document [OF assms, of cs] unfolding fits_def overruns_def add.assoc .

definition demo_wire :: wire where
  "demo_wire = WMap [(LString (str ''a''), WArr [WVal (LNumber (cast_num 7)), WVal LNil]), (LBoolean True, WVal (LString []))]"

lemma demo_wire_ok: "pool_fits [str ''a'']" "wire_ok [str ''a''] demo_wire"
  using cast_num_finite(1) [of 7]
  by (simp_all add: pool_fits_def demo_wire_def distinct_keys_def less_Suc_eq num_ok_def str_def All_less_Suc)

theorem parse_reads_document_witness:
  "\<exists>s' v. parseBinaryTable (enc_doc [str ''a''] demo_wire @ [0, 1]) demo_state = (Inr 1, s') \<and> grown demo_state s' \<and>
    l_stack s' = [v] \<and> denotes (l_heap s') 64 v demo_wire"
proof -
  have "length (l_stack demo_state) + 1 + slots demo_wire \<le> l_ci_top demo_state" by (simp add: demo_wire_def)
  with parse_reads_document [OF demo_ok(1) demo_wire_ok, of "[0, 1]"] show ?thesis by simp
qed

subsection \<open>Numbers\<close>

text \<open>
  C26. Numbers survive: what \<open>writeValue\<close> writes for a number on the stack, \<open>parserValue\<close> reads back
  as the same double, whatever of the six number formats was chosen, but for a negative zero, which comes
  back as zero. The hypothesis \<open>num_ok\<close> excludes the infinities and the integral values that do not fit 64 bits: \<^verbatim>\<open>writeValue\<close> casts
  these to \<^verbatim>\<open>int64_t\<close> too, which C leaves undefined. Reading takes one slot of the frame.
\<close>

theorem number_write_parse:
  assumes "l_stack s = xs @ [LNumber x]" "num_ok x" "length (l_stack s) < l_ci_top s"
  shows "\<exists>w. writeValue prog (Suc f) (- 1) (st, new_writer) s = (Inr (True, st, w), s) \<and>
    (\<exists>r. parserValue (Suc n) rs (new_reader (contents w)) s = (Inr (True, r), s\<lparr>l_stack := l_stack s @ [canon (LNumber x)]\<rparr>))"
proof -
  define w where "w = (if luai_numeq x (dbl_round x) then writeInteger (dbl_to_int 64 (dbl_round x)) new_writer
    else writeFloat x new_writer)"
  have c: "contents w = enc_num x" using write_number_bytes(2) [of new_writer x] by (simp add: w_def)
  have "lua_type (- 1) s = (Inr 3, s)" "lua_tonumber (- 1) s = (Inr x, s)"
    using assms(1) by (simp_all add: lua_type_def lua_tonumber_def luaV_tonumber_def api lbind_run)
  then have "writeValue prog (Suc f) (- 1) (st, new_writer) s = (Inr (True, st, w), s)"
    by (simp add: w_def lbind_run)
  moreover have "rest (new_reader (contents w)) = enc_num x @ []" by (simp add: rest_def new_reader_def c)
  then have "yields (parserValue (Suc n) rs) (new_reader (contents w)) s (canon (LNumber x)) []"
    using assms(2) by (rule yields_enc_num)
  moreover have "fits s 1" using assms(3) by (simp add: fits_def)
  ultimately show ?thesis unfolding yields_def if_P [OF \<open>fits s 1\<close>] by blast
qed

theorem number_write_parse_witness:
  "\<exists>w. writeValue (\<lambda>_. lundef) 1 (- 1) (\<lparr>ws_handle = 1, ws_index2string = 2, ws_size = 0, ws_cacheSize = 0\<rparr>, new_writer)
      (demo_state\<lparr>l_stack := [LNumber (cast_num (- 300))]\<rparr>) =
    (Inr (True, \<lparr>ws_handle = 1, ws_index2string = 2, ws_size = 0, ws_cacheSize = 0\<rparr>, w),
      demo_state\<lparr>l_stack := [LNumber (cast_num (- 300))]\<rparr>)"
proof -
  let ?s = "demo_state\<lparr>l_stack := [LNumber (cast_num (- 300))]\<rparr>"
  have "num_ok (cast_num (- 300))" using cast_num_finite(1) [of "- 300"] by (simp add: num_ok_def)
  from number_write_parse [OF _ this, of ?s "[]" "\<lambda>_. lundef" 0] demo_ok(4) show ?thesis
    unfolding One_nat_def by (simp del: writeValue.simps) blast
qed

subsection \<open>Sorting the keys\<close>

text \<open>
  C12. The quicksort of \<^verbatim>\<open>table.sort\<close> with the order function \<open>sortCmp\<close> of the writer sorts: on an
  array of numbers (no NaN) and strings it ends without an error (with \<open>n\<close> as bound on
  its recursion), leaves a permutation of the array in the order numbers before strings, ascending,
  and changes no other key of the table and nothing else of the state.
\<close>

theorem auxsort_sorts_keys:
  assumes "l_stack s = [LTable a, LFunction fa]" "l_heap s a = Some t" "wf_table t"
    and "l_closures s fa = Some c" "c_f c = CSortCmp" "l_nCcalls s < 199"
    and "\<forall>i. 1 \<le> i \<longrightarrow> i \<le> n \<longrightarrow> sort_key (tget t (ikey i))" "0 < n" "n < 2 ^ 31"
  shows "\<exists>t'. auxsort (program_of ext (Suc m)) (nat n) 1 n s = (Inr (), s\<lparr>l_heap := (l_heap s)(a \<mapsto> t')\<rparr>) \<and> wf_table t' \<and>
    image_mset (\<lambda>i. tget t' (ikey i)) (mset_set {1..n}) = image_mset (\<lambda>i. tget t (ikey i)) (mset_set {1..n}) \<and>
    (\<forall>i j. 1 \<le> i \<longrightarrow> i < j \<longrightarrow> j \<le> n \<longrightarrow> \<not> key_lt (tget t' (ikey j)) (tget t' (ikey i))) \<and>
    (\<forall>k. valid_key k \<longrightarrow> (\<forall>i. 1 \<le> i \<longrightarrow> i \<le> n \<longrightarrow> \<not> luaO_rawequalObj k (ikey i)) \<longrightarrow> tget t' k = tget t k)"
proof -
  let ?A = "\<lambda>i. tget t (ikey i)"
  have h: "holds n (Collect sort_key) (tget t) t ?A" using assms(3,7) by (simp add: holds_def)
  have rd: "cmp_ready s (LFunction fa)" using assms(4-6) by (simp add: cmp_ready_def)
  have s: "sort_state s a (LFunction fa) t [] = s"
    using assms(1,2) by (cases s) (simp add: sort_state_def map_upd_triv)
  have "\<exists>t' A'. auxsort (program_of ext (Suc m)) (nat n) 1 n (sort_state s a (LFunction fa) t []) =
        (Inr (), sort_state s a (LFunction fa) t' []) \<and>
      holds n (Collect sort_key) (tget t) t' A' \<and> perm 1 n ?A A' \<and> ordered key_lt A' 1 n"
    by (rule sort_keys [OF rd assms(9) _ h]) (use assms(8) in simp_all)
  then obtain t' A' where r: "auxsort (program_of ext (Suc m)) (nat n) 1 n s = (Inr (), sort_state s a (LFunction fa) t' [])"
    and h': "holds n (Collect sort_key) (tget t) t' A'" and p: "perm 1 n ?A A'" and o: "ordered key_lt A' 1 n"
    unfolding s by blast
  have A': "tget t' (ikey i) = A' i" if "1 \<le> i" "i \<le> n" for i using h' that by (simp add: holds_def)
  have st: "sort_state s a (LFunction fa) t' [] = s\<lparr>l_heap := (l_heap s)(a \<mapsto> t')\<rparr>"
    using assms(1) by (cases s) (simp add: sort_state_def)
  have "image_mset (\<lambda>i. tget t' (ikey i)) (mset_set {1..n}) = image_mset A' (mset_set {1..n})"
    by (rule image_mset_cong) (simp add: A')
  also have "\<dots> = image_mset ?A (mset_set {1..n})" by (rule perm_mset [OF p])
  finally have m: "image_mset (\<lambda>i. tget t' (ikey i)) (mset_set {1..n}) = image_mset ?A (mset_set {1..n})" .
  have "wf_table t'" using h' by (simp add: holds_def)
  moreover have "\<forall>k. valid_key k \<longrightarrow> (\<forall>i. 1 \<le> i \<longrightarrow> i \<le> n \<longrightarrow> \<not> luaO_rawequalObj k (ikey i)) \<longrightarrow> tget t' k = tget t k"
    using h' by (simp add: holds_def)
  moreover have "\<forall>i j. 1 \<le> i \<longrightarrow> i < j \<longrightarrow> j \<le> n \<longrightarrow> \<not> key_lt (tget t' (ikey j)) (tget t' (ikey i))"
    using o by (auto simp: ordered_def A')
  ultimately show ?thesis using r st m by auto
qed

definition demo_keys :: Table where
  "demo_keys = \<lparr>t_flags = 0, t_lsizenode = 0, t_metatable = None, t_array = [LString (str ''b''), LNumber 0],
     t_node = None, t_lastfree = 0\<rparr>"

definition demo_sort :: lua_State where
  "demo_sort = demo_state\<lparr>l_stack := [LTable 64, LFunction 128], l_heap := [64 \<mapsto> demo_keys],
     l_closures := [128 \<mapsto> \<lparr>c_f = CSortCmp, c_env = 0, c_upvalue = []\<rparr>]\<rparr>"

lemma demo_keys_sizes [simp]: "sizenode demo_keys = 1" "sizearray demo_keys = 2" "gnode demo_keys 0 = dummynode"
  by (simp_all add: demo_keys_def sizenode_def twoto_def sizearray_def gnode_def nodes_def)

lemma demo_keys_wf: "wf_table demo_keys"
  unfolding wf_table_def chain_inv_def
  by (simp add: less_2_cases_iff dummynode_def in_array_def)
    (simp add: wf_shape_def sizearray_def demo_keys_def MAXBITS_def sizenode_def twoto_def)

lemma demo_keys_get: "1 \<le> i \<Longrightarrow> i \<le> 2 \<Longrightarrow> tget demo_keys (ikey i) = (if i = 1 then LString (str ''b'') else LNumber 0)"
proof -
  assume i: "1 \<le> i" "i \<le> 2"
  then have "arrayindex (ikey i) = i" using arrayindex_index [of "nat i - 1"] by (simp add: ikey_def)
  then have f: "find_key demo_keys (ikey i) = Some (SArray (nat i - 1))"
    using i by (simp add: find_key_def in_array_def)
  have "tget demo_keys (ikey i) = t_array demo_keys ! (nat i - 1)"
    using tget_find [OF demo_keys_wf ikey_valid, of i] i f by (simp add: slot_value_def)
  moreover have "i = 1 \<or> i = 2" using i by linarith
  ultimately show ?thesis by (auto simp: demo_keys_def)
qed

theorem auxsort_sorts_keys_witness:
  "\<exists>t'. auxsort (program_of (\<lambda>_ _. undefined) 1) 2 1 2 demo_sort = (Inr (), demo_sort\<lparr>l_heap := (l_heap demo_sort)(64 \<mapsto> t')\<rparr>) \<and>
    \<not> key_lt (tget t' (ikey 2)) (tget t' (ikey 1))"
proof -
  have k: "\<forall>i. 1 \<le> i \<longrightarrow> i \<le> 2 \<longrightarrow> sort_key (tget demo_keys (ikey i))"
    by (auto simp: demo_keys_get dbl_0)
  have "\<exists>t'. auxsort (program_of (\<lambda>_ _. undefined) (Suc 0)) (nat 2) 1 2 demo_sort =
      (Inr (), demo_sort\<lparr>l_heap := (l_heap demo_sort)(64 \<mapsto> t')\<rparr>) \<and> wf_table t' \<and>
    image_mset (\<lambda>i. tget t' (ikey i)) (mset_set {1..2}) = image_mset (\<lambda>i. tget demo_keys (ikey i)) (mset_set {1..2}) \<and>
    (\<forall>i j. 1 \<le> i \<longrightarrow> i < j \<longrightarrow> j \<le> 2 \<longrightarrow> \<not> key_lt (tget t' (ikey j)) (tget t' (ikey i))) \<and>
    (\<forall>k. valid_key k \<longrightarrow> (\<forall>i. 1 \<le> i \<longrightarrow> i \<le> 2 \<longrightarrow> \<not> luaO_rawequalObj k (ikey i)) \<longrightarrow> tget t' k = tget demo_keys k)"
    by (rule auxsort_sorts_keys [where fa = 128 and c = "\<lparr>c_f = CSortCmp, c_env = 0, c_upvalue = []\<rparr>", OF _ _ demo_keys_wf _ _ _ k])
      (simp_all add: demo_sort_def demo_state_def)
  then obtain t' where "auxsort (program_of (\<lambda>_ _. undefined) (Suc 0)) (nat 2) 1 2 demo_sort =
      (Inr (), demo_sort\<lparr>l_heap := (l_heap demo_sort)(64 \<mapsto> t')\<rparr>)"
    "\<forall>i j. 1 \<le> i \<longrightarrow> i < j \<longrightarrow> j \<le> 2 \<longrightarrow> \<not> key_lt (tget t' (ikey j)) (tget t' (ikey i))" by blast
  moreover from this(2) have "\<not> key_lt (tget t' (ikey 2)) (tget t' (ikey 1))" by simp
  ultimately show ?thesis by (intro exI [of _ t']) simp
qed

subsection \<open>Strings\<close>

text \<open>
  C27. The string comparison of \<^verbatim>\<open>lvm.c\<close> calls \<^verbatim>\<open>strcoll\<close> on one null-terminated piece after the other; it ends on all strings. In
  every locale whose \<^verbatim>\<open>strcoll\<close> is a total order of the strings without null bytes (\<open>collation\<close>), it is a total order of all
  strings, embedded nulls included: 0 exactly on equal strings, with the opposite sign when the strings are swapped, and transitive. In
  the C locale, in which a program starts, it is the lexicographic order of the bytes.
\<close>

theorem l_strcmp_orders:
  assumes "collation coll"
  shows "(l_strcmp_coll coll l r = 0 \<longleftrightarrow> l = r) \<and> (l_strcmp_coll coll l r < 0 \<longleftrightarrow> l_strcmp_coll coll r l > 0) \<and>
    (l_strcmp_coll coll l r < 0 \<longrightarrow> l_strcmp_coll coll r t < 0 \<longrightarrow> l_strcmp_coll coll l t < 0) \<and>
    (l_strcmp l r < 0 \<longleftrightarrow> ord_class.lexordp l r)"
  using collation.cmp_zero [OF assms, of l r] collation.cmp_sym [OF assms, of l r] collation.cmp_trans [OF assms, of l r t]
    l_strcmp_lex [of l r] by blast

theorem l_strcmp_orders_witness: "l_strcmp_coll strcoll [97, 0, 98] [97, 0, 99] < 0 \<and> l_strcmp_coll strcoll [97, 0, 99] [97, 0, 98] > 0"
  using l_strcmp_orders [OF c_locale.collation_axioms, of "[97, 0, 98]" "[97, 0, 99]" "[]", unfolded l_strcmp_def] by auto

text \<open>
  C28. The string table interns: a string that \<open>luaS_newlstr\<close> returns has the given contents and is in the
  table, everything that was in the table stays under its address, the invariant of the table (chains by hash, size
  a power of two, no duplicates, right count) is kept over insertion and resize, and comparing
  addresses with the returned string is comparing contents.
\<close>

theorem newlstr_interns:
  assumes "st_inv tb" "a \<notin> ts_addr ` set (st_entries tb)" "luaS_newlstr sweeping tb a s = Inr (ts, tb')"
  shows "st_inv tb' \<and> ts \<in> set (st_entries tb') \<and> ts_str ts = s \<and> set (st_entries tb) \<subseteq> set (st_entries tb') \<and>
    (\<forall>x \<in> set (st_entries tb'). ts_addr x = ts_addr ts \<longleftrightarrow> ts_str x = s)"
  by (rule luaS_newlstr_interns [OF assms])

theorem newlstr_interns_witness:
  "\<exists>ts tb'. luaS_newlstr False \<lparr>st_hash = [[], []], st_nuse = 0\<rparr> 64 (str ''a'') = Inr (ts, tb') \<and> ts_str ts = str ''a''"
proof -
  let ?tb = "\<lparr>st_hash = [[], []], st_nuse = 0\<rparr>"
  have i: "st_inv ?tb"
    by (auto simp: st_inv_def st_size_def st_entries_def less_Suc_eq intro!: exI [of _ 1])
  have "[[], []] ! lmod (luaS_hash (str ''a'')) 2 = ([] :: TString list)"
    using lmod_less [of 1 "luaS_hash (str ''a'')"] by (auto simp: less_2_cases_iff)
  moreover have sz: "st_size ?tb = 2" by (simp add: st_size_def)
  ultimately obtain ts tb' where r: "luaS_newlstr False ?tb 64 (str ''a'') = Inr (ts, tb')"
    unfolding luaS_newlstr_def newlstr_def Let_def sz by simp
  have "64 \<notin> ts_addr ` set (st_entries ?tb)" by (simp add: st_entries_def)
  from newlstr_interns [OF i this r] r show ?thesis by blast
qed

subsection \<open>Bounds\<close>

text \<open>
  C29. The floating point byte, in which the compiler passes table sizes to \<^verbatim>\<open>OP_NEWTABLE\<close>: for a size of at most 15 * 2^27, decoding
  the code gives at least the size, and at most one seventh more. Above, the result does not fit an \<^verbatim>\<open>int\<close>, and the shift of
  \<^verbatim>\<open>luaO_fb2int\<close> overflows (\<open>None\<close>).
\<close>

theorem fb_size_bounds:
  assumes "x < 2 ^ 32 - 1"
  shows "if x \<le> 15 * 2 ^ 27 then \<exists>y. luaO_fb2int (luaO_int2fb x) = Some y \<and> x \<le> y \<and> 7 * y \<le> 8 * x
    else luaO_fb2int (luaO_int2fb x) = None"
  by (rule fb2int_int2fb [OF assms])

theorem fb_size_bounds_witness: "\<exists>y. luaO_fb2int (luaO_int2fb 17) = Some y \<and> 17 \<le> y \<and> 7 * y \<le> 8 * 17"
  using fb_size_bounds [of 17] by simp

text \<open>
  C30. The output buffer: any sequence of calls of the writer (bytes, numbers, characters, tags, C strings, indentation, and
  reservations of room) appends exactly the bytes of each, in order. No call stores behind the allocated block (\<open>w_overrun\<close>): the room
  that \<open>ensure\<close> and \<open>reserve\<close> make is never too small; and no byte below the position is left unwritten.
\<close>

theorem writer_appends:
  assumes "w_inv w"
  shows "\<not> w_overrun (fold run_call cs w) \<and> contents (fold run_call cs w) = contents w @ concat (map call_bytes cs) \<and>
    w_size (fold run_call cs w) = w_size w + length (concat (map call_bytes cs)) \<and>
    w_size (fold run_call cs w) \<le> w_capacity (fold run_call cs w) \<and> w_inv (fold run_call cs w)"
proof -
  note c = run_calls_spec [OF assms, of cs]
  moreover have "\<not> w_overrun (fold run_call cs w)" "w_size (fold run_call cs w) \<le> w_capacity (fold run_call cs w)"
    using c by (simp_all add: w_inv_def w_size_def)
  ultimately show ?thesis by (simp add: w_size_contents assms)
qed

theorem writer_appends_witness:
  "contents (fold run_call [WrReserve 2, WrChar 1, WrBytes [], WrNumber 2 3] new_writer) = [1, 3, 0] \<and>
    \<not> w_overrun (fold run_call [WrReserve 2, WrChar 1, WrBytes [], WrNumber 2 3] new_writer)"
  using writer_appends [OF w_inv_new(1), of "[WrReserve 2, WrChar 1, WrBytes [], WrNumber 2 3]"] by (simp add: numeral_2_eq_2)

text \<open>
  A chunk name always fits its buffer, the terminating null included, and the name of a source that
  starts with = or @ and is short enough is the rest of the source.
\<close>

theorem chunkid_fits:
  assumes "18 \<le> bufflen"
  shows "length (luaO_chunkid source bufflen) < bufflen \<and>
    (c = 61 \<or> c = 64 \<longrightarrow> length cs \<le> bufflen - 8 \<longrightarrow> luaO_chunkid (c # cs) bufflen = cs)"
  using luaO_chunkid_bounded [OF assms, of source] by (auto simp: luaO_chunkid_def)

theorem chunkid_fits_witness: "luaO_chunkid (str ''@x.lua'') 60 = str ''x.lua''"
  using chunkid_fits [of 60 "[]" 64 "str ''x.lua''"] by (simp add: str_def)

end
