(* ===== verification/Lua_Zio.thy ===== *)
theory Lua_Zio
  imports Lua_Table
begin

text \<open>
  Buffered input (\<^verbatim>\<open>lzio.c\<close>, \<^verbatim>\<open>lzio.h\<close>). The reader function of the client is the list of the blocks
  that it will deliver; an empty block, or none at all, is the end. \<open>z_p\<close> is the memory from the current
  position on and \<open>z_n\<close> the code's own count of unread bytes; a copy of more than is there is a \<open>Crash\<close>.
  \<open>z_rest\<close> is the stream that the blocks amount to.
\<close>

record Zio =
  z_n :: nat
  z_p :: bytes
  z_src :: "bytes list"

definition EOZ :: int where "EOZ = - 1"

definition luaZ_init :: "bytes list \<Rightarrow> Zio" where
  "luaZ_init reader = \<lparr>z_n = 0, z_p = [], z_src = reader\<rparr>"

definition luaZ_fill :: "Zio \<Rightarrow> int \<times> Zio" where
  "luaZ_fill z = (case z_src z of
      [] \<Rightarrow> (EOZ, z)
    | buff # bs \<Rightarrow>
        if buff = [] then (EOZ, z\<lparr>z_src := bs\<rparr>)
        else (uint (hd buff), z\<lparr>z_n := length buff - 1, z_p := tl buff, z_src := bs\<rparr>))"

text \<open>After the end \<^verbatim>\<open>z->n\<close> has wrapped around, as the decrement of the macro leaves it.\<close>

definition zgetc :: "Zio \<Rightarrow> rt_error + int \<times> Zio" where
  "zgetc z =
     (if z_n z > 0
      then (case z_p z of [] \<Rightarrow> Inl Crash | c # cs \<Rightarrow> Inr (uint c, z\<lparr>z_n := z_n z - 1, z_p := cs\<rparr>))
      else Inr (luaZ_fill (z\<lparr>z_n := 2 ^ 64 - 1\<rparr>)))"

definition luaZ_lookahead :: "Zio \<Rightarrow> int \<times> Zio" where
  "luaZ_lookahead z =
     (if z_n z = 0 then
        let (c, z1) = luaZ_fill z in
        if c = EOZ then (EOZ, z1)
        else (c, z1\<lparr>z_n := z_n z1 + 1, z_p := word_of_int c # z_p z1\<rparr>)
      else (uint (hd (z_p z)), z))"

lemma lookahead_some: "luaZ_lookahead z = (c, z') \<Longrightarrow> c \<noteq> EOZ \<Longrightarrow> 0 < z_n z'"
  by (auto simp: luaZ_lookahead_def luaZ_fill_def split: if_splits list.splits prod.splits)

text \<open>The bytes read, the number of missing bytes, and the stream.\<close>

function luaZ_read :: "nat \<Rightarrow> Zio \<Rightarrow> rt_error + bytes \<times> nat \<times> Zio" where
  "luaZ_read n z =
     (if n = 0 then Inr ([], 0, z)
      else let (c, z1) = luaZ_lookahead z in
        if c = EOZ then Inr ([], n, z1)
        else let m = min n (z_n z1) in
          if m > length (z_p z1) then Inl Crash
          else sum_bind (luaZ_read (n - m) (z1\<lparr>z_n := z_n z1 - m, z_p := drop m (z_p z1)\<rparr>)) (\<lambda>(bs, r, z2).
            Inr (take m (z_p z1) @ bs, r, z2)))"
  by pat_completeness auto
termination
  by (relation "measure fst") (auto dest: lookahead_some [OF sym])

declare luaZ_read.simps [simp del]

definition LUA_MINBUFFER :: nat where "LUA_MINBUFFER = 32"

text \<open>The new size of a buffer that must hold \<open>n\<close> bytes; \<open>None\<close> if it is large enough.\<close>

definition luaZ_openspace :: "nat \<Rightarrow> nat \<Rightarrow> nat option" where
  "luaZ_openspace buffsize n = (if n > buffsize then Some (if n < LUA_MINBUFFER then LUA_MINBUFFER else n) else None)"

subsection \<open>Reading is reading from the flat stream\<close>

definition z_ok :: "Zio \<Rightarrow> bool" where "z_ok z \<longleftrightarrow> z_n z = length (z_p z)"

definition z_rest :: "Zio \<Rightarrow> bytes" where
  "z_rest z = z_p z @ concat (takeWhile (\<lambda>b. b \<noteq> []) (z_src z))"

lemma z_init [simp]: "z_ok (luaZ_init r)" "z_rest (luaZ_init r) = concat (takeWhile (\<lambda>b. b \<noteq> []) r)"
  by (simp_all add: luaZ_init_def z_ok_def z_rest_def)

lemma lookahead_spec:
  assumes "z_ok z" "luaZ_lookahead z = (c, z')"
  shows "z_ok z'" "c = EOZ \<longleftrightarrow> z_rest z = []" "c \<noteq> EOZ \<Longrightarrow> z_rest z' = z_rest z \<and> c = uint (hd (z_rest z)) \<and> 0 < z_n z'"
proof -
  have ne: "uint (b :: byte) \<noteq> EOZ" for b using uint_ge_0 [of b] by (auto simp only: EOZ_def)
  have "z_ok z' \<and> (c = EOZ \<longleftrightarrow> z_rest z = []) \<and>
    (c \<noteq> EOZ \<longrightarrow> z_rest z' = z_rest z \<and> c = uint (hd (z_rest z)) \<and> 0 < z_n z')"
  proof (cases "z_p z")
    case Nil
    then show ?thesis
      using assms ne by (cases "z_src z"; cases "hd (z_src z)")
        (auto simp: luaZ_lookahead_def luaZ_fill_def z_ok_def z_rest_def)
  next
    case (Cons b bs)
    then show ?thesis using assms ne by (auto simp: luaZ_lookahead_def z_ok_def z_rest_def)
  qed
  then show "z_ok z'" "c = EOZ \<longleftrightarrow> z_rest z = []" "c \<noteq> EOZ \<Longrightarrow> z_rest z' = z_rest z \<and> c = uint (hd (z_rest z)) \<and> 0 < z_n z'"
    by blast+
qed

lemma luaZ_read_spec:
  "z_ok z \<Longrightarrow> \<exists>z'. luaZ_read n z = Inr (take n (z_rest z), n - length (z_rest z), z') \<and> z_ok z' \<and>
    (n \<le> length (z_rest z) \<longrightarrow> z_rest z' = drop n (z_rest z))"
proof (induction n z rule: luaZ_read.induct)
  case (1 n z)
  show ?case
  proof (cases "n = 0")
    case True
    then show ?thesis using "1.prems" by (simp add: luaZ_read.simps)
  next
    case False
    obtain c z1 where l: "luaZ_lookahead z = (c, z1)" by fastforce
    note ls = lookahead_spec [OF "1.prems" l]
    show ?thesis
    proof (cases "c = EOZ")
      case True
      then show ?thesis using False l ls by (simp add: luaZ_read.simps [of n z])
    next
      case nz: False
      let ?m = "min n (z_n z1)"
      let ?z2 = "z1\<lparr>z_n := z_n z1 - ?m, z_p := drop ?m (z_p z1)\<rparr>"
      have z1: "z_n z1 = length (z_p z1)" "z_rest z1 = z_rest z" using ls nz by (simp_all add: z_ok_def)
      have r2: "z_rest ?z2 = drop ?m (z_rest z)" unfolding z1(2) [symmetric] by (simp add: z_rest_def z1(1))
      have t: "take ?m (z_p z1) = take ?m (z_rest z)" unfolding z1(2) [symmetric] by (simp add: z_rest_def z1(1))
      have "\<exists>z'. luaZ_read (n - ?m) ?z2 = Inr (take (n - ?m) (z_rest ?z2), n - ?m - length (z_rest ?z2), z') \<and> z_ok z' \<and>
        (n - ?m \<le> length (z_rest ?z2) \<longrightarrow> z_rest z' = drop (n - ?m) (z_rest ?z2))"
        by (rule "1.IH" [OF False l [symmetric] refl nz refl]) (simp_all add: z1(1) z_ok_def)
      then obtain z' where z': "luaZ_read (n - ?m) ?z2 = Inr (take (n - ?m) (z_rest ?z2), n - ?m - length (z_rest ?z2), z')"
        "z_ok z'" "n - ?m \<le> length (z_rest ?z2) \<longrightarrow> z_rest z' = drop (n - ?m) (z_rest ?z2)" by blast
      have le: "?m \<le> length (z_rest z)" unfolding z1(2) [symmetric] by (simp add: z_rest_def z1(1))
      have "luaZ_read n z = Inr (take ?m (z_p z1) @ take (n - ?m) (z_rest ?z2), n - ?m - length (z_rest ?z2), z')"
        using False l nz z'(1) z1(1) by (simp add: luaZ_read.simps [of n z] Let_def)
      also have "take ?m (z_p z1) @ take (n - ?m) (z_rest ?z2) = take n (z_rest z)"
        unfolding t r2 using take_add [of ?m "n - ?m" "z_rest z"] by simp
      also have "n - ?m - length (z_rest ?z2) = n - length (z_rest z)" unfolding r2 using le by simp
      finally show ?thesis using z'(2,3) le unfolding r2 by (intro exI [of _ z']) auto
    qed
  qed
qed

end
