(* ===== verification/Lua_Opcodes.thy ===== *)
theory Lua_Opcodes
  imports Prelude
begin

unbundle bit_operations_syntax

text \<open>
  The instruction words of the virtual machine (\<^verbatim>\<open>lopcodes.h\<close>, \<^verbatim>\<open>lopcodes.c\<close>): the fields of an
  instruction, the operation codes and the table of their argument modes. The lemmas show
  that the fields do not overlap: each is read back as it was written, and writing one keeps the others.
\<close>

type_synonym Instruction = "32 word"

datatype OpMode = iABC | iABx | iAsBx

subsection \<open>Sizes and positions of the fields\<close>

definition SIZE_C :: nat where "SIZE_C = 9"
definition SIZE_B :: nat where "SIZE_B = 9"
definition SIZE_Bx :: nat where "SIZE_Bx = SIZE_C + SIZE_B"
definition SIZE_A :: nat where "SIZE_A = 8"
definition SIZE_OP :: nat where "SIZE_OP = 6"
definition POS_OP :: nat where "POS_OP = 0"
definition POS_A :: nat where "POS_A = POS_OP + SIZE_OP"
definition POS_C :: nat where "POS_C = POS_A + SIZE_A"
definition POS_B :: nat where "POS_B = POS_C + SIZE_C"
definition POS_Bx :: nat where "POS_Bx = POS_C"

definition MAXARG_Bx :: int where "MAXARG_Bx = push_bit SIZE_Bx 1 - 1"
definition MAXARG_sBx :: int where "MAXARG_sBx = drop_bit 1 MAXARG_Bx"
definition MAXARG_A :: int where "MAXARG_A = push_bit SIZE_A 1 - 1"
definition MAXARG_B :: int where "MAXARG_B = push_bit SIZE_B 1 - 1"
definition MAXARG_C :: int where "MAXARG_C = push_bit SIZE_C 1 - 1"

lemmas field_defs = SIZE_C_def SIZE_B_def SIZE_Bx_def SIZE_A_def SIZE_OP_def
  POS_OP_def POS_A_def POS_C_def POS_B_def POS_Bx_def

lemmas maxarg_defs = MAXARG_Bx_def MAXARG_sBx_def MAXARG_A_def MAXARG_B_def MAXARG_C_def

definition MASK1 :: "nat \<Rightarrow> nat \<Rightarrow> Instruction" where
  "MASK1 n p = push_bit p (NOT (push_bit n (NOT 0)))"

definition MASK0 :: "nat \<Rightarrow> nat \<Rightarrow> Instruction" where
  "MASK0 n p = NOT (MASK1 n p)"

subsection \<open>Reading and writing the fields\<close>

definition GET_OPNUM :: "Instruction \<Rightarrow> nat" where
  "GET_OPNUM i = unat (drop_bit POS_OP i AND MASK1 SIZE_OP 0)"

definition SET_OPNUM :: "nat \<Rightarrow> Instruction \<Rightarrow> Instruction" where
  "SET_OPNUM opn i = (i AND MASK0 SIZE_OP POS_OP) OR (push_bit POS_OP (of_nat opn) AND MASK1 SIZE_OP POS_OP)"

definition GETARG_A :: "Instruction \<Rightarrow> int" where
  "GETARG_A i = uint (drop_bit POS_A i AND MASK1 SIZE_A 0)"

definition SETARG_A :: "int \<Rightarrow> Instruction \<Rightarrow> Instruction" where
  "SETARG_A u i = (i AND MASK0 SIZE_A POS_A) OR (push_bit POS_A (word_of_int u) AND MASK1 SIZE_A POS_A)"

definition GETARG_B :: "Instruction \<Rightarrow> int" where
  "GETARG_B i = uint (drop_bit POS_B i AND MASK1 SIZE_B 0)"

definition SETARG_B :: "int \<Rightarrow> Instruction \<Rightarrow> Instruction" where
  "SETARG_B b i = (i AND MASK0 SIZE_B POS_B) OR (push_bit POS_B (word_of_int b) AND MASK1 SIZE_B POS_B)"

definition GETARG_C :: "Instruction \<Rightarrow> int" where
  "GETARG_C i = uint (drop_bit POS_C i AND MASK1 SIZE_C 0)"

definition SETARG_C :: "int \<Rightarrow> Instruction \<Rightarrow> Instruction" where
  "SETARG_C b i = (i AND MASK0 SIZE_C POS_C) OR (push_bit POS_C (word_of_int b) AND MASK1 SIZE_C POS_C)"

definition GETARG_Bx :: "Instruction \<Rightarrow> int" where
  "GETARG_Bx i = uint (drop_bit POS_Bx i AND MASK1 SIZE_Bx 0)"

definition SETARG_Bx :: "int \<Rightarrow> Instruction \<Rightarrow> Instruction" where
  "SETARG_Bx b i = (i AND MASK0 SIZE_Bx POS_Bx) OR (push_bit POS_Bx (word_of_int b) AND MASK1 SIZE_Bx POS_Bx)"

definition GETARG_sBx :: "Instruction \<Rightarrow> int" where
  "GETARG_sBx i = GETARG_Bx i - MAXARG_sBx"

definition SETARG_sBx :: "int \<Rightarrow> Instruction \<Rightarrow> Instruction" where
  "SETARG_sBx b i = SETARG_Bx (b + MAXARG_sBx) i"

definition CREATE_ABC :: "nat \<Rightarrow> int \<Rightarrow> int \<Rightarrow> int \<Rightarrow> Instruction" where
  "CREATE_ABC opn a b c = push_bit POS_OP (of_nat opn) OR push_bit POS_A (word_of_int a)
     OR push_bit POS_B (word_of_int b) OR push_bit POS_C (word_of_int c)"

definition CREATE_ABx :: "nat \<Rightarrow> int \<Rightarrow> int \<Rightarrow> Instruction" where
  "CREATE_ABx opn a bc = push_bit POS_OP (of_nat opn) OR push_bit POS_A (word_of_int a) OR push_bit POS_Bx (word_of_int bc)"

subsection \<open>Operands that are registers or constants\<close>

definition BITRK :: int where "BITRK = push_bit (SIZE_B - 1) 1"

definition ISK :: "int \<Rightarrow> bool" where "ISK x \<longleftrightarrow> x AND BITRK \<noteq> 0"

definition INDEXK :: "int \<Rightarrow> int" where "INDEXK r = r AND NOT BITRK"

definition MAXINDEXRK :: int where "MAXINDEXRK = BITRK - 1"

definition RKASK :: "int \<Rightarrow> int" where "RKASK x = x OR BITRK"

definition NO_REG :: int where "NO_REG = MAXARG_A"

subsection \<open>Operation codes\<close>

datatype OpCode =
    OP_MOVE | OP_LOADK | OP_LOADBOOL | OP_LOADNIL | OP_GETUPVAL | OP_GETGLOBAL | OP_GETTABLE
  | OP_SETGLOBAL | OP_SETUPVAL | OP_SETTABLE | OP_NEWTABLE | OP_SELF
  | OP_ADD | OP_SUB | OP_MUL | OP_DIV | OP_MOD | OP_POW | OP_UNM | OP_NOT | OP_LEN | OP_CONCAT
  | OP_JMP | OP_EQ | OP_LT | OP_LE | OP_TEST | OP_TESTSET | OP_CALL | OP_TAILCALL | OP_RETURN
  | OP_FORLOOP | OP_FORPREP | OP_TFORLOOP | OP_SETLIST | OP_CLOSE | OP_CLOSURE | OP_VARARG

definition opcodes :: "OpCode list" where
  "opcodes = [OP_MOVE, OP_LOADK, OP_LOADBOOL, OP_LOADNIL, OP_GETUPVAL, OP_GETGLOBAL, OP_GETTABLE,
     OP_SETGLOBAL, OP_SETUPVAL, OP_SETTABLE, OP_NEWTABLE, OP_SELF,
     OP_ADD, OP_SUB, OP_MUL, OP_DIV, OP_MOD, OP_POW, OP_UNM, OP_NOT, OP_LEN, OP_CONCAT,
     OP_JMP, OP_EQ, OP_LT, OP_LE, OP_TEST, OP_TESTSET, OP_CALL, OP_TAILCALL, OP_RETURN,
     OP_FORLOOP, OP_FORPREP, OP_TFORLOOP, OP_SETLIST, OP_CLOSE, OP_CLOSURE, OP_VARARG]"

definition NUM_OPCODES :: nat where "NUM_OPCODES = length opcodes"

text \<open>Six bits can also hold numbers that are no operation code.\<close>

definition GET_OPCODE :: "Instruction \<Rightarrow> OpCode option" where
  "GET_OPCODE i = (if GET_OPNUM i < NUM_OPCODES then Some (opcodes ! GET_OPNUM i) else None)"

datatype OpArgMask = OpArgN | OpArgU | OpArgR | OpArgK

record op_mode =
  m_test :: bool
  m_setsA :: bool
  m_B :: OpArgMask
  m_C :: OpArgMask
  m_mode :: OpMode

definition opmode :: "bool \<Rightarrow> bool \<Rightarrow> OpArgMask \<Rightarrow> OpArgMask \<Rightarrow> OpMode \<Rightarrow> op_mode" where
  "opmode t a b c m = \<lparr>m_test = t, m_setsA = a, m_B = b, m_C = c, m_mode = m\<rparr>"

fun luaP_opmodes :: "OpCode \<Rightarrow> op_mode" where
  "luaP_opmodes OP_MOVE = opmode False True OpArgR OpArgN iABC"
| "luaP_opmodes OP_LOADK = opmode False True OpArgK OpArgN iABx"
| "luaP_opmodes OP_LOADBOOL = opmode False True OpArgU OpArgU iABC"
| "luaP_opmodes OP_LOADNIL = opmode False True OpArgR OpArgN iABC"
| "luaP_opmodes OP_GETUPVAL = opmode False True OpArgU OpArgN iABC"
| "luaP_opmodes OP_GETGLOBAL = opmode False True OpArgK OpArgN iABx"
| "luaP_opmodes OP_GETTABLE = opmode False True OpArgR OpArgK iABC"
| "luaP_opmodes OP_SETGLOBAL = opmode False False OpArgK OpArgN iABx"
| "luaP_opmodes OP_SETUPVAL = opmode False False OpArgU OpArgN iABC"
| "luaP_opmodes OP_SETTABLE = opmode False False OpArgK OpArgK iABC"
| "luaP_opmodes OP_NEWTABLE = opmode False True OpArgU OpArgU iABC"
| "luaP_opmodes OP_SELF = opmode False True OpArgR OpArgK iABC"
| "luaP_opmodes OP_ADD = opmode False True OpArgK OpArgK iABC"
| "luaP_opmodes OP_SUB = opmode False True OpArgK OpArgK iABC"
| "luaP_opmodes OP_MUL = opmode False True OpArgK OpArgK iABC"
| "luaP_opmodes OP_DIV = opmode False True OpArgK OpArgK iABC"
| "luaP_opmodes OP_MOD = opmode False True OpArgK OpArgK iABC"
| "luaP_opmodes OP_POW = opmode False True OpArgK OpArgK iABC"
| "luaP_opmodes OP_UNM = opmode False True OpArgR OpArgN iABC"
| "luaP_opmodes OP_NOT = opmode False True OpArgR OpArgN iABC"
| "luaP_opmodes OP_LEN = opmode False True OpArgR OpArgN iABC"
| "luaP_opmodes OP_CONCAT = opmode False True OpArgR OpArgR iABC"
| "luaP_opmodes OP_JMP = opmode False False OpArgR OpArgN iAsBx"
| "luaP_opmodes OP_EQ = opmode True False OpArgK OpArgK iABC"
| "luaP_opmodes OP_LT = opmode True False OpArgK OpArgK iABC"
| "luaP_opmodes OP_LE = opmode True False OpArgK OpArgK iABC"
| "luaP_opmodes OP_TEST = opmode True True OpArgR OpArgU iABC"
| "luaP_opmodes OP_TESTSET = opmode True True OpArgR OpArgU iABC"
| "luaP_opmodes OP_CALL = opmode False True OpArgU OpArgU iABC"
| "luaP_opmodes OP_TAILCALL = opmode False True OpArgU OpArgU iABC"
| "luaP_opmodes OP_RETURN = opmode False False OpArgU OpArgN iABC"
| "luaP_opmodes OP_FORLOOP = opmode False True OpArgR OpArgN iAsBx"
| "luaP_opmodes OP_FORPREP = opmode False True OpArgR OpArgN iAsBx"
| "luaP_opmodes OP_TFORLOOP = opmode True False OpArgN OpArgU iABC"
| "luaP_opmodes OP_SETLIST = opmode False False OpArgU OpArgU iABC"
| "luaP_opmodes OP_CLOSE = opmode False False OpArgN OpArgN iABC"
| "luaP_opmodes OP_CLOSURE = opmode False True OpArgU OpArgN iABx"
| "luaP_opmodes OP_VARARG = opmode False True OpArgU OpArgN iABC"

definition getOpMode :: "OpCode \<Rightarrow> OpMode" where "getOpMode m = m_mode (luaP_opmodes m)"
definition getBMode :: "OpCode \<Rightarrow> OpArgMask" where "getBMode m = m_B (luaP_opmodes m)"
definition getCMode :: "OpCode \<Rightarrow> OpArgMask" where "getCMode m = m_C (luaP_opmodes m)"
definition testAMode :: "OpCode \<Rightarrow> bool" where "testAMode m = m_setsA (luaP_opmodes m)"
definition testTMode :: "OpCode \<Rightarrow> bool" where "testTMode m = m_test (luaP_opmodes m)"

definition LFIELDS_PER_FLUSH :: nat where "LFIELDS_PER_FLUSH = 50"

subsection \<open>The fields are independent\<close>

lemma bit_MASK1 [simp]: "bit (MASK1 n p) k \<longleftrightarrow> p \<le> k \<and> k < n + p \<and> k < 32"
  by (auto simp: MASK1_def bit_simps)

lemma bit_MASK0 [simp]: "bit (MASK0 n p) k \<longleftrightarrow> \<not> (p \<le> k \<and> k < n + p) \<and> k < 32"
  by (auto simp: MASK0_def bit_simps)

text \<open>A field read from a word: the \<open>n\<close> bits from position \<open>p\<close>.\<close>

definition field :: "nat \<Rightarrow> nat \<Rightarrow> Instruction \<Rightarrow> Instruction" where
  "field n p i = drop_bit p i AND MASK1 n 0"

lemma bit_field [simp]: "bit (field n p i) k \<longleftrightarrow> k < n \<and> bit i (p + k)"
  by (auto simp: field_def bit_simps dest: bit_imp_le_length)

lemma get_field:
  "GET_OPNUM i = unat (field 6 0 i)" "GETARG_A i = uint (field 8 6 i)" "GETARG_B i = uint (field 9 23 i)"
  "GETARG_C i = uint (field 9 14 i)" "GETARG_Bx i = uint (field 18 14 i)"
  by (simp_all add: GET_OPNUM_def GETARG_A_def GETARG_B_def GETARG_C_def GETARG_Bx_def field_def field_defs)

lemma field_bounds: "uint (field n p i) < 2 ^ n"
proof -
  have "field n p i = take_bit n (field n p i)" by (rule bit_eqI) (simp add: bit_simps)
  then have "uint (field n p i) = take_bit n (uint (field n p i))" by (metis unsigned_take_bit_eq)
  then show ?thesis by (metis take_bit_int_less_exp)
qed

lemma maxarg_values [simp]:
  "MAXARG_A = 255" "MAXARG_B = 511" "MAXARG_C = 511" "MAXARG_Bx = 262143" "MAXARG_sBx = 131071" "NO_REG = 255"
  by (simp_all add: maxarg_defs field_defs push_bit_eq_mult drop_bit_eq_div NO_REG_def)

lemma getarg_bounds:
  "0 \<le> GETARG_A i" "GETARG_A i \<le> 255" "0 \<le> GETARG_B i" "GETARG_B i \<le> 511"
  "0 \<le> GETARG_C i" "GETARG_C i \<le> 511" "0 \<le> GETARG_Bx i" "GETARG_Bx i \<le> 262143" "GET_OPNUM i < 64"
proof -
  have "int (GET_OPNUM i) = uint (field 6 0 i)" by (simp add: get_field)
  with field_bounds [of 6 0 i] have "int (GET_OPNUM i) < 64" by simp
  then show "GET_OPNUM i < 64" by linarith
qed (use field_bounds [of 8 6 i] field_bounds [of 9 23 i] field_bounds [of 9 14 i] field_bounds [of 18 14 i] in \<open>simp_all add: get_field\<close>)

definition put_field :: "nat \<Rightarrow> nat \<Rightarrow> Instruction \<Rightarrow> Instruction \<Rightarrow> Instruction" where
  "put_field n p v i = (i AND MASK0 n p) OR (push_bit p v AND MASK1 n p)"

lemma put_field:
  "SET_OPNUM x i = put_field 6 0 (of_nat x) i" "SETARG_A u i = put_field 8 6 (word_of_int u) i"
  "SETARG_B u i = put_field 9 23 (word_of_int u) i" "SETARG_C u i = put_field 9 14 (word_of_int u) i"
  "SETARG_Bx u i = put_field 18 14 (word_of_int u) i"
  by (simp_all add: SET_OPNUM_def SETARG_A_def SETARG_B_def SETARG_C_def SETARG_Bx_def put_field_def field_defs)

lemma field_put_same: "n + p \<le> 32 \<Longrightarrow> field n p (put_field n p v i) = take_bit n v"
  by (rule bit_eqI) (auto simp: put_field_def bit_simps)

lemma field_put_other: "p + n \<le> q \<or> q + m \<le> p \<Longrightarrow> q + m \<le> 32 \<Longrightarrow> field m q (put_field n p v i) = field m q i"
  by (rule bit_eqI) (auto simp: put_field_def bit_simps dest: bit_imp_le_length)

lemma uint_take_bit_of_int: "0 \<le> u \<Longrightarrow> u < 2 ^ n \<Longrightarrow> n \<le> 32 \<Longrightarrow> uint (take_bit n (word_of_int u :: Instruction)) = u"
  by (simp add: unsigned_take_bit_eq uint_word_of_int_eq take_bit_take_bit min_def take_bit_int_eq_self)

lemma unat_take_bit_of_nat: "x < 2 ^ n \<Longrightarrow> n \<le> 32 \<Longrightarrow> unat (take_bit n (of_nat x :: Instruction)) = x"
  by (simp add: unsigned_take_bit_eq unsigned_of_nat take_bit_take_bit min_def take_bit_nat_eq_self)

lemma field_create:
  fixes x :: Instruction
  assumes "take_bit 6 x = x" "take_bit 8 a = a"
  shows "take_bit 9 b = b \<Longrightarrow> take_bit 9 c = c \<Longrightarrow>
      field 6 0 (x OR push_bit 6 a OR push_bit 23 b OR push_bit 14 c) = x \<and>
      field 8 6 (x OR push_bit 6 a OR push_bit 23 b OR push_bit 14 c) = a \<and>
      field 9 23 (x OR push_bit 6 a OR push_bit 23 b OR push_bit 14 c) = b \<and>
      field 9 14 (x OR push_bit 6 a OR push_bit 23 b OR push_bit 14 c) = c"
    "take_bit 18 d = d \<Longrightarrow>
      field 6 0 (x OR push_bit 6 a OR push_bit 14 d) = x \<and> field 8 6 (x OR push_bit 6 a OR push_bit 14 d) = a \<and>
      field 18 14 (x OR push_bit 6 a OR push_bit 14 d) = d"
proof -
  have hi: "bit w k \<Longrightarrow> k < n" if "take_bit n w = w" for w :: Instruction and n k
    using that by (metis bit_take_bit_iff)
  note h = hi [OF assms(1)] hi [OF assms(2)]
  show "field 6 0 (x OR push_bit 6 a OR push_bit 23 b OR push_bit 14 c) = x \<and>
      field 8 6 (x OR push_bit 6 a OR push_bit 23 b OR push_bit 14 c) = a \<and>
      field 9 23 (x OR push_bit 6 a OR push_bit 23 b OR push_bit 14 c) = b \<and>
      field 9 14 (x OR push_bit 6 a OR push_bit 23 b OR push_bit 14 c) = c" if "take_bit 9 b = b" "take_bit 9 c = c"
    using h hi [OF that(1)] hi [OF that(2)]
    by (intro conjI; intro bit_eqI; fastforce simp: bit_simps)
  show "field 6 0 (x OR push_bit 6 a OR push_bit 14 d) = x \<and> field 8 6 (x OR push_bit 6 a OR push_bit 14 d) = a \<and>
      field 18 14 (x OR push_bit 6 a OR push_bit 14 d) = d" if "take_bit 18 d = d"
    using h hi [OF that] by (intro conjI; intro bit_eqI; fastforce simp: bit_simps)
qed

end
