(* ===== verification/Lua_Checkcode.thy ===== *)
theory Lua_Checkcode
  imports Lua_Table Lua_Opcodes
begin

text \<open>
  Function prototypes (\<^verbatim>\<open>lobject.h\<close>) and the code checker of \<^verbatim>\<open>ldebug.c\<close>, a symbolic execution that
  every precompiled chunk must pass when it is loaded. Arrays are lists, their sizes the lengths;
  every access to the code, the constants and the inner functions checks its index and is a \<open>Crash\<close>
  outside. \<open>symbexec\<close> returns the word 0 when a check fails, as the code does.
\<close>

record LocVar =
  lv_varname :: "bytes option"
  lv_startpc :: int
  lv_endpc :: int

text \<open>\<open>None\<close> is a constant with the tag of a string and a null pointer.\<close>

datatype Proto = Proto
  (p_k: "TValue option list") (p_code: "Instruction list") (p_p: "Proto list") (p_lineinfo: "int list")
  (p_locvars: "LocVar list") (p_upvalues: "bytes option list") (p_source: "bytes option")
  (p_linedefined: int) (p_lastlinedefined: int)
  (p_nups: byte) (p_numparams: byte) (p_is_vararg: byte) (p_maxstacksize: byte)

definition VARARG_HASARG :: byte where "VARARG_HASARG = 1"
definition VARARG_ISVARARG :: byte where "VARARG_ISVARARG = 2"
definition VARARG_NEEDSARG :: byte where "VARARG_NEEDSARG = 4"

lemmas vararg_defs = VARARG_HASARG_def VARARG_ISVARARG_def VARARG_NEEDSARG_def

definition MAXSTACK :: int where "MAXSTACK = 250"

definition sizecode :: "Proto \<Rightarrow> int" where "sizecode pt = int (length (p_code pt))"

definition sizek :: "Proto \<Rightarrow> int" where "sizek pt = int (length (p_k pt))"

fun ttisstring :: "TValue option \<Rightarrow> bool" where
  "ttisstring None = True"
| "ttisstring (Some (LString s)) = True"
| "ttisstring (Some v) = False"

text \<open>An element of an array, by a C index.\<close>

definition at_index :: "'a list \<Rightarrow> int \<Rightarrow> rt_error + 'a" where
  "at_index xs i = (if 0 \<le> i \<and> i < int (length xs) then Inr (xs ! nat i) else Inl Crash)"

subsection \<open>The checks\<close>

definition checkreg :: "Proto \<Rightarrow> int \<Rightarrow> bool" where
  "checkreg pt reg \<longleftrightarrow> reg < uint (p_maxstacksize pt)"

definition precheck :: "Proto \<Rightarrow> rt_error + bool" where
  "precheck pt =
     (if \<not> (uint (p_maxstacksize pt) \<le> MAXSTACK \<and>
        uint (p_numparams pt) + uint (p_is_vararg pt AND VARARG_HASARG) \<le> uint (p_maxstacksize pt) \<and>
        (p_is_vararg pt AND VARARG_NEEDSARG = 0 \<or> p_is_vararg pt AND VARARG_HASARG \<noteq> 0) \<and>
        int (length (p_upvalues pt)) \<le> uint (p_nups pt) \<and>
        (int (length (p_lineinfo pt)) = sizecode pt \<or> length (p_lineinfo pt) = 0) \<and>
        sizecode pt > 0)
      then Inr False
      else sum_bind (at_index (p_code pt) (sizecode pt - 1)) (\<lambda>i. Inr (GET_OPCODE i = Some OP_RETURN)))"

definition luaG_checkopenop :: "Instruction \<Rightarrow> bool" where
  "luaG_checkopenop i = (case GET_OPCODE i of
      Some opn \<Rightarrow> opn \<in> {OP_CALL, OP_TAILCALL, OP_RETURN, OP_SETLIST} \<and> GETARG_B i = 0
    | None \<Rightarrow> False)"

fun checkArgMode :: "Proto \<Rightarrow> int \<Rightarrow> OpArgMask \<Rightarrow> bool" where
  "checkArgMode pt r OpArgN = (r = 0)"
| "checkArgMode pt r OpArgU = True"
| "checkArgMode pt r OpArgR = checkreg pt r"
| "checkArgMode pt r OpArgK = (if ISK r then INDEXK r < sizek pt else r < uint (p_maxstacksize pt))"

text \<open>A word that reads as the head of a two-word \<^verbatim>\<open>SETLIST\<close>.\<close>

definition setlist0 :: "Instruction \<Rightarrow> bool" where
  "setlist0 d \<longleftrightarrow> GET_OPCODE d = Some OP_SETLIST \<and> GETARG_C d = 0"

text \<open>How many such words precede \<open>dest\<close> (the variable \<^verbatim>\<open>j\<close> of the loop).\<close>

primrec setlist_run :: "Proto \<Rightarrow> int \<Rightarrow> nat \<Rightarrow> int \<Rightarrow> rt_error + int" where
  "setlist_run pt dest 0 j = Inr j"
| "setlist_run pt dest (Suc f) j =
     sum_bind (at_index (p_code pt) (dest - 1 - j)) (\<lambda>d.
       if \<not> setlist0 d then Inr j else setlist_run pt dest f (j + 1))"

text \<open>The rest of a check after a condition: \<open>None\<close> is the early \<^verbatim>\<open>return 0\<close>.\<close>

definition check :: "bool \<Rightarrow> rt_error + 'a option \<Rightarrow> rt_error + 'a option" where
  "check b k = (if b then k else Inr None)"

definition check_at :: "Proto \<Rightarrow> int \<Rightarrow> (Instruction \<Rightarrow> bool) \<Rightarrow> rt_error + 'a option \<Rightarrow> rt_error + 'a option" where
  "check_at pt pc P k = sum_bind (at_index (p_code pt) pc) (\<lambda>i. check (P i) k)"

text \<open>The operands \<open>(b, c)\<close> of an instruction, checked by its mode.\<close>

definition check_operands :: "Proto \<Rightarrow> int \<Rightarrow> OpCode \<Rightarrow> Instruction \<Rightarrow> rt_error + (int \<times> int) option" where
  "check_operands pt pc opn i =
     (case getOpMode opn of
        iABC \<Rightarrow> let b = GETARG_B i; c = GETARG_C i in
          check (checkArgMode pt b (getBMode opn)) (check (checkArgMode pt c (getCMode opn)) (Inr (Some (b, c))))
      | iABx \<Rightarrow> let b = GETARG_Bx i in
          check (getBMode opn = OpArgK \<longrightarrow> b < sizek pt) (Inr (Some (b, 0)))
      | iAsBx \<Rightarrow> let b = GETARG_sBx i in
          if getBMode opn = OpArgR then
            let dest = pc + 1 + b in
            check (0 \<le> dest \<and> dest < sizecode pt)
              (if dest > 0
               then sum_bind (setlist_run pt dest (nat dest) 0) (\<lambda>j. check (even j) (Inr (Some (b, 0))))
               else Inr (Some (b, 0)))
          else Inr (Some (b, 0)))"

text \<open>The pseudo-instructions after a \<^verbatim>\<open>CLOSURE\<close>.\<close>

primrec check_closure :: "Proto \<Rightarrow> int \<Rightarrow> nat \<Rightarrow> rt_error + 'a option \<Rightarrow> rt_error + 'a option" where
  "check_closure pt pc 0 k = k"
| "check_closure pt pc (Suc n) k =
     check_at pt (pc + 1) (\<lambda>i. GET_OPCODE i = Some OP_GETUPVAL \<or> GET_OPCODE i = Some OP_MOVE)
       (check_closure pt (pc + 1) n k)"

text \<open>The second \<^verbatim>\<open>switch\<close>: the new \<open>pc\<close> (before the increment of the loop) and \<open>lst\<close>.\<close>

definition check_op :: "Proto \<Rightarrow> int \<Rightarrow> int \<Rightarrow> OpCode \<Rightarrow> int \<Rightarrow> int \<Rightarrow> int \<Rightarrow> int \<Rightarrow> int \<Rightarrow> rt_error + (int \<times> int) option" where
  "check_op pt lastpc reg opn a b c pc lst =
     (let go = Inr (Some (pc, lst));
          jmp = (let dest = pc + 1 + b in
            if reg \<noteq> NO_REG \<and> pc < dest \<and> dest \<le> lastpc then Inr (Some (pc + b, lst)) else go) in
      case opn of
        OP_LOADBOOL \<Rightarrow>
          if c = 1 then check (pc + 2 < sizecode pt) (check_at pt (pc + 1) (\<lambda>i. \<not> setlist0 i) go) else go
      | OP_LOADNIL \<Rightarrow> if a \<le> reg \<and> reg \<le> b then Inr (Some (pc, pc)) else go
      | OP_GETUPVAL \<Rightarrow> check (b < uint (p_nups pt)) go
      | OP_SETUPVAL \<Rightarrow> check (b < uint (p_nups pt)) go
      | OP_GETGLOBAL \<Rightarrow> sum_bind (at_index (p_k pt) b) (\<lambda>v. check (ttisstring v) go)
      | OP_SETGLOBAL \<Rightarrow> sum_bind (at_index (p_k pt) b) (\<lambda>v. check (ttisstring v) go)
      | OP_SELF \<Rightarrow> check (checkreg pt (a + 1)) (Inr (Some (pc, if reg = a + 1 then pc else lst)))
      | OP_CONCAT \<Rightarrow> check (b < c) go
      | OP_TFORLOOP \<Rightarrow> check (c \<ge> 1) (check (checkreg pt (a + 2 + c))
          (Inr (Some (pc, if reg \<ge> a + 2 then pc else lst))))
      | OP_FORLOOP \<Rightarrow> check (checkreg pt (a + 3)) jmp
      | OP_FORPREP \<Rightarrow> check (checkreg pt (a + 3)) jmp
      | OP_JMP \<Rightarrow> jmp
      | OP_CALL \<Rightarrow> check (b \<noteq> 0 \<longrightarrow> checkreg pt (a + b - 1))
          (let c = c - 1; k = Inr (Some (pc, if reg \<ge> a then pc else lst)) in
           if c = - 1 then check_at pt (pc + 1) luaG_checkopenop k
           else check (c \<noteq> 0 \<longrightarrow> checkreg pt (a + c - 1)) k)
      | OP_TAILCALL \<Rightarrow> check (b \<noteq> 0 \<longrightarrow> checkreg pt (a + b - 1))
          (let c = c - 1; k = Inr (Some (pc, if reg \<ge> a then pc else lst)) in
           if c = - 1 then check_at pt (pc + 1) luaG_checkopenop k
           else check (c \<noteq> 0 \<longrightarrow> checkreg pt (a + c - 1)) k)
      | OP_RETURN \<Rightarrow> let b = b - 1 in check (b > 0 \<longrightarrow> checkreg pt (a + b - 1)) go
      | OP_SETLIST \<Rightarrow> check (b > 0 \<longrightarrow> checkreg pt (a + b))
          (if c = 0 then check (pc + 1 < sizecode pt - 1) (Inr (Some (pc + 1, lst))) else go)
      | OP_CLOSURE \<Rightarrow> check (b < int (length (p_p pt)))
          (sum_bind (at_index (p_p pt) b) (\<lambda>q. let nup = uint (p_nups q) in
             check (pc + nup < sizecode pt)
               (check_closure pt pc (nat nup) (Inr (Some (if reg \<noteq> NO_REG then pc + nup else pc, lst))))))
      | OP_VARARG \<Rightarrow> check (p_is_vararg pt AND VARARG_ISVARARG \<noteq> 0 \<and> p_is_vararg pt AND VARARG_NEEDSARG = 0)
          (let b = b - 1; k = check (checkreg pt (a + b - 1)) go in
           if b = - 1 then check_at pt (pc + 1) luaG_checkopenop k else k)
      | _ \<Rightarrow> go)"

text \<open>One round of the loop.\<close>

definition symbexec_step :: "Proto \<Rightarrow> int \<Rightarrow> int \<Rightarrow> int \<Rightarrow> int \<Rightarrow> rt_error + (int \<times> int) option" where
  "symbexec_step pt lastpc reg pc lst =
     sum_bind (at_index (p_code pt) pc) (\<lambda>i.
       case GET_OPCODE i of
         None \<Rightarrow> Inr None
       | Some opn \<Rightarrow>
           let a = GETARG_A i in
           check (checkreg pt a)
             (sum_bind (check_operands pt pc opn i) (\<lambda>r. case r of
                None \<Rightarrow> Inr None
              | Some (b, c) \<Rightarrow>
                  let lst' = (if testAMode opn \<and> a = reg then pc else lst) in
                  if testTMode opn
                  then check (pc + 2 < sizecode pt) (check_at pt (pc + 1) (\<lambda>j. GET_OPCODE j = Some OP_JMP)
                         (check_op pt lastpc reg opn a b c pc lst'))
                  else check_op pt lastpc reg opn a b c pc lst')))"

primrec symbexec_loop :: "Proto \<Rightarrow> int \<Rightarrow> int \<Rightarrow> nat \<Rightarrow> int \<Rightarrow> int \<Rightarrow> rt_error + int option" where
  "symbexec_loop pt lastpc reg 0 pc lst = (if pc < lastpc then Inl OutOfFuel else Inr (Some lst))"
| "symbexec_loop pt lastpc reg (Suc f) pc lst =
     (if pc < lastpc
      then sum_bind (symbexec_step pt lastpc reg pc lst) (\<lambda>r. case r of
             None \<Rightarrow> Inr None
           | Some (pc', lst') \<Rightarrow> symbexec_loop pt lastpc reg f (pc' + 1) lst')
      else Inr (Some lst))"

definition symbexec :: "Proto \<Rightarrow> int \<Rightarrow> int \<Rightarrow> rt_error + Instruction" where
  "symbexec pt lastpc reg =
     sum_bind (precheck pt) (\<lambda>ok.
       if \<not> ok then Inr 0
       else sum_bind (symbexec_loop pt lastpc reg (nat lastpc) 0 (sizecode pt - 1)) (\<lambda>r. case r of
              None \<Rightarrow> Inr 0 | Some lst \<Rightarrow> at_index (p_code pt) lst))"

definition luaG_checkcode :: "Proto \<Rightarrow> rt_error + bool" where
  "luaG_checkcode pt = sum_bind (symbexec pt (sizecode pt) NO_REG) (\<lambda>i. Inr (i \<noteq> 0))"

end
