(* ===== verification/Lua_Chunk.thy ===== *)
theory Lua_Chunk
  imports Lua_Zio Lua_Checkcode Lua_Call
begin

text \<open>
  Precompiled chunks: \<^verbatim>\<open>luaU_dump\<close> (\<^verbatim>\<open>ldump.c\<close>) writes a prototype through a writer function, a
  parameter; \<^verbatim>\<open>luaU_undump\<close> (\<^verbatim>\<open>lundump.c\<close>) loads one from a buffered stream. Strings are interned, so
  the comparison of two source names as pointers is a comparison of their contents. Whether an
  allocation of so many bytes succeeds is the parameter \<open>ls_avail\<close>.
\<close>

definition LUAC_VERSION :: byte where "LUAC_VERSION = 0x51"
definition LUAC_FORMAT :: byte where "LUAC_FORMAT = 0"
definition LUAC_HEADERSIZE :: nat where "LUAC_HEADERSIZE = 12"
definition LUA_SIGNATURE :: bytes where "LUA_SIGNATURE = 27 # str ''Lua''"

definition luaU_header :: bytes where
  "luaU_header = LUA_SIGNATURE @ [LUAC_VERSION, LUAC_FORMAT, hd (le_bytes 4 1), 4, 8, 4, 8, 0]"

subsection \<open>Dump\<close>

record 'd DumpState =
  d_writer :: "bytes \<Rightarrow> 'd \<Rightarrow> int \<times> 'd"
  d_data :: 'd
  d_strip :: bool
  d_status :: int

definition DumpBlock :: "bytes \<Rightarrow> 'd DumpState \<Rightarrow> 'd DumpState" where
  "DumpBlock b D =
     (if d_status D = 0 then let (r, d) = d_writer D b (d_data D) in D\<lparr>d_status := r, d_data := d\<rparr> else D)"

definition DumpChar :: "int \<Rightarrow> 'd DumpState \<Rightarrow> 'd DumpState" where
  "DumpChar y D = DumpBlock (le_bytes 1 y) D"

definition DumpInt :: "int \<Rightarrow> 'd DumpState \<Rightarrow> 'd DumpState" where
  "DumpInt x D = DumpBlock (le_bytes 4 x) D"

definition DumpNumber :: "lua_Number \<Rightarrow> 'd DumpState \<Rightarrow> 'd DumpState" where
  "DumpNumber x D = DumpBlock (le_bytes 8 (uint x)) D"

text \<open>A vector of integers of \<open>sz\<close> bytes.\<close>

definition DumpVector :: "int list \<Rightarrow> nat \<Rightarrow> 'd DumpState \<Rightarrow> 'd DumpState" where
  "DumpVector b sz D = DumpBlock (concat (map (le_bytes sz) b)) (DumpInt (int (length b)) D)"

definition DumpString :: "bytes option \<Rightarrow> 'd DumpState \<Rightarrow> 'd DumpState" where
  "DumpString s D = (case s of
      None \<Rightarrow> DumpBlock (le_bytes 8 0) D
    | Some b \<Rightarrow> DumpBlock (b @ [0]) (DumpBlock (le_bytes 8 (int (length b + 1))) D))"

definition DumpCode :: "Proto \<Rightarrow> 'd DumpState \<Rightarrow> 'd DumpState" where
  "DumpCode f D = DumpVector (map uint (p_code f)) 4 D"

fun DumpConstant :: "TValue option \<Rightarrow> 'd DumpState \<Rightarrow> 'd DumpState" where
  "DumpConstant None D = DumpString None (DumpChar 4 D)"
| "DumpConstant (Some (LBoolean b)) D = DumpChar (if b then 1 else 0) (DumpChar 1 D)"
| "DumpConstant (Some (LNumber n)) D = DumpNumber n (DumpChar 3 D)"
| "DumpConstant (Some (LString s)) D = DumpString (Some s) (DumpChar 4 D)"
| "DumpConstant (Some v) D = DumpChar (int (ttype v)) D"

definition DumpLocVar :: "LocVar \<Rightarrow> 'd DumpState \<Rightarrow> 'd DumpState" where
  "DumpLocVar v D = DumpInt (lv_endpc v) (DumpInt (lv_startpc v) (DumpString (lv_varname v) D))"

definition DumpDebug :: "Proto \<Rightarrow> 'd DumpState \<Rightarrow> 'd DumpState" where
  "DumpDebug f D =
     (let lines = (if d_strip D then [] else p_lineinfo f);
          vars = (if d_strip D then [] else p_locvars f);
          ups = (if d_strip D then [] else p_upvalues f);
          D1 = DumpVector lines 4 D;
          D2 = fold DumpLocVar vars (DumpInt (int (length vars)) D1)
      in fold DumpString ups (DumpInt (int (length ups)) D2))"

definition DumpConstants :: "(Proto \<Rightarrow> 'd DumpState \<Rightarrow> 'd DumpState) \<Rightarrow> Proto \<Rightarrow> 'd DumpState \<Rightarrow> 'd DumpState" where
  "DumpConstants dump_function f D =
     (let D1 = fold DumpConstant (p_k f) (DumpInt (int (length (p_k f))) D)
      in fold dump_function (p_p f) (DumpInt (int (length (p_p f))) D1))"

lemma inner_smaller: "q \<in> set (p_p f) \<Longrightarrow> size q < size f"
  by (cases f) (auto dest!: size_list_estimation' [where f = size and y = "size q", OF _ order_refl])

lemma DumpConstants_cong [fundef_cong]:
  "f = f' \<Longrightarrow> D = D' \<Longrightarrow> (\<And>q E. q \<in> set (p_p f') \<Longrightarrow> d q E = d' q E) \<Longrightarrow> DumpConstants d f D = DumpConstants d' f' D'"
  by (auto simp: DumpConstants_def Let_def intro: fold_cong)

function DumpFunction :: "bytes option \<Rightarrow> Proto \<Rightarrow> 'd DumpState \<Rightarrow> 'd DumpState" where
  "DumpFunction p f D =
     (let D1 = DumpString (if p_source f = p \<or> d_strip D then None else p_source f) D;
          D2 = DumpInt (p_lastlinedefined f) (DumpInt (p_linedefined f) D1);
          D3 = DumpChar (uint (p_maxstacksize f)) (DumpChar (uint (p_is_vararg f))
                 (DumpChar (uint (p_numparams f)) (DumpChar (uint (p_nups f)) D2)));
          D4 = DumpCode f D3
      in DumpDebug f (DumpConstants (\<lambda>q. DumpFunction (p_source f) q) f D4))"
  by pat_completeness auto
termination
  by (relation "measure (\<lambda>(p, f, D). size f)") (auto simp: inner_smaller)

declare DumpFunction.simps [simp del]

definition DumpHeader :: "'d DumpState \<Rightarrow> 'd DumpState" where
  "DumpHeader D = DumpBlock luaU_header D"

definition luaU_dump :: "Proto \<Rightarrow> (bytes \<Rightarrow> 'd \<Rightarrow> int \<times> 'd) \<Rightarrow> 'd \<Rightarrow> bool \<Rightarrow> int \<times> 'd" where
  "luaU_dump f w data strip =
     (let D = DumpFunction None f (DumpHeader \<lparr>d_writer = w, d_data = data, d_strip = strip, d_status = 0\<rparr>)
      in (d_status D, d_data D))"

subsection \<open>Load\<close>

datatype load_failure = SyntaxError bytes | NoMemory | LoadCrash | LoadFuel

record LoadState =
  ls_Z :: Zio
  ls_buffsize :: nat
  ls_name :: bytes
  ls_nCcalls :: nat
  ls_avail :: "nat \<Rightarrow> bool"

type_synonym 'a load = "LoadState \<Rightarrow> load_failure + 'a \<times> LoadState"

definition ok :: "'a \<Rightarrow> 'a load" where
  "ok x = (\<lambda>S. Inr (x, S))"

definition fail :: "load_failure \<Rightarrow> 'a load" where
  "fail e = (\<lambda>S. Inl e)"

definition bindl :: "'a load \<Rightarrow> ('a \<Rightarrow> 'b load) \<Rightarrow> 'b load" where
  "bindl m f = (\<lambda>S. case m S of Inl e \<Rightarrow> Inl e | Inr (x, S') \<Rightarrow> f x S')"

primrec times :: "nat \<Rightarrow> 'a load \<Rightarrow> 'a list load" where
  "times 0 m = ok []"
| "times (Suc n) m = bindl m (\<lambda>x. bindl (times n m) (\<lambda>xs. ok (x # xs)))"

definition load_error :: "bytes \<Rightarrow> 'a load" where
  "load_error why = (\<lambda>S. case luaO_pushvfstring (str ''%s: %s in precompiled chunk'') [FStr (Some (ls_name S)), FStr (Some why)] of
      Some m \<Rightarrow> Inl (SyntaxError m) | None \<Rightarrow> Inl LoadCrash)"

definition new_vector :: "nat \<Rightarrow> nat \<Rightarrow> unit load" where
  "new_vector n sz = (\<lambda>S. if n * sz = 0 \<or> ls_avail S (n * sz) then Inr ((), S) else Inl NoMemory)"

definition LoadBlock :: "nat \<Rightarrow> bytes load" where
  "LoadBlock n = (\<lambda>S. case luaZ_read n (ls_Z S) of
      Inl e \<Rightarrow> Inl LoadCrash
    | Inr (bs, r, z) \<Rightarrow>
        if r \<noteq> 0 then load_error (str ''unexpected end'') (S\<lparr>ls_Z := z\<rparr>) else Inr (bs, S\<lparr>ls_Z := z\<rparr>))"

definition LoadChar :: "int load" where
  "LoadChar = bindl (LoadBlock 1) (\<lambda>bs. ok (le_val bs))"

definition LoadByte :: "byte load" where
  "LoadByte = bindl LoadChar (\<lambda>c. ok (word_of_int c))"

definition signed32 :: "int \<Rightarrow> int" where
  "signed32 v = (if v < 2 ^ 31 then v else v - 2 ^ 32)"

definition LoadInt :: "nat load" where
  "LoadInt = bindl (LoadBlock 4) (\<lambda>bs.
     let x = signed32 (le_val bs) in
     if x < 0 then load_error (str ''bad integer'') else ok (nat x))"

definition LoadNumber :: "lua_Number load" where
  "LoadNumber = bindl (LoadBlock 8) (\<lambda>bs. ok (word_of_int (le_val bs)))"

definition LoadString :: "bytes option load" where
  "LoadString = bindl (LoadBlock 8) (\<lambda>bs.
     let size = nat (le_val bs) in
     if size = 0 then ok None
     else bindl (\<lambda>S. case luaZ_openspace (ls_buffsize S) size of
              None \<Rightarrow> Inr ((), S)
            | Some n \<Rightarrow> bindl (new_vector n 1) (\<lambda>_ S. Inr ((), S\<lparr>ls_buffsize := n\<rparr>)) S) (\<lambda>_.
          bindl (LoadBlock size) (\<lambda>s. ok (Some (take (size - 1) s)))))"

text \<open>\<open>n\<close> integers of \<open>sz\<close> bytes, read in one block.\<close>

primrec chunks :: "nat \<Rightarrow> nat \<Rightarrow> bytes \<Rightarrow> int list" where
  "chunks sz 0 bs = []"
| "chunks sz (Suc n) bs = le_val (take sz bs) # chunks sz n (drop sz bs)"

definition LoadVector :: "nat \<Rightarrow> nat \<Rightarrow> int list load" where
  "LoadVector n sz = bindl (LoadBlock (n * sz)) (\<lambda>bs. ok (chunks sz n bs))"

definition LoadCode :: "Instruction list load" where
  "LoadCode = bindl LoadInt (\<lambda>n. bindl (new_vector n 4) (\<lambda>_.
     bindl (LoadVector n 4) (\<lambda>is. ok (map word_of_int is))))"

definition LoadConstant :: "TValue option load" where
  "LoadConstant = bindl LoadChar (\<lambda>t.
     if t = 0 then ok (Some LNil)
     else if t = 1 then bindl LoadChar (\<lambda>c. ok (Some (LBoolean (c \<noteq> 0))))
     else if t = 3 then bindl LoadNumber (\<lambda>n. ok (Some (LNumber n)))
     else if t = 4 then bindl LoadString (\<lambda>s. ok (map_option LString s))
     else load_error (str ''bad constant''))"

definition LoadConstants :: "Proto load \<Rightarrow> (TValue option list \<times> Proto list) load" where
  "LoadConstants load_function =
     bindl LoadInt (\<lambda>n. bindl (new_vector n 16) (\<lambda>_. bindl (times n LoadConstant) (\<lambda>ks.
     bindl LoadInt (\<lambda>m. bindl (new_vector m 8) (\<lambda>_. bindl (times m load_function) (\<lambda>ps.
     ok (ks, ps)))))))"

definition LoadLocVar :: "LocVar load" where
  "LoadLocVar = bindl LoadString (\<lambda>v. bindl LoadInt (\<lambda>s. bindl LoadInt (\<lambda>e.
     ok \<lparr>lv_varname = v, lv_startpc = int s, lv_endpc = int e\<rparr>)))"

definition LoadDebug :: "(int list \<times> LocVar list \<times> bytes option list) load" where
  "LoadDebug =
     bindl LoadInt (\<lambda>n. bindl (new_vector n 4) (\<lambda>_. bindl (LoadVector n 4) (\<lambda>lines.
     bindl LoadInt (\<lambda>m. bindl (new_vector m 16) (\<lambda>_. bindl (times m LoadLocVar) (\<lambda>vars.
     bindl LoadInt (\<lambda>k. bindl (new_vector k 8) (\<lambda>_. bindl (times k LoadString) (\<lambda>ups.
     ok (map signed32 lines, vars, ups))))))))))"

primrec LoadFunction :: "nat \<Rightarrow> bytes option \<Rightarrow> Proto load" where
  "LoadFunction 0 p = fail LoadFuel"
| "LoadFunction (Suc fuel) p = (\<lambda>S0.
     let S = S0\<lparr>ls_nCcalls := ls_nCcalls S0 + 1\<rparr> in
     if ls_nCcalls S > LUAI_MAXCCALLS then load_error (str ''code too deep'') S
     else bindl LoadString (\<lambda>src. let source = (if src = None then p else src) in
       bindl LoadInt (\<lambda>linedefined. bindl LoadInt (\<lambda>lastlinedefined.
       bindl LoadByte (\<lambda>nups. bindl LoadByte (\<lambda>numparams. bindl LoadByte (\<lambda>is_vararg. bindl LoadByte (\<lambda>maxstacksize.
       bindl LoadCode (\<lambda>code.
       bindl (LoadConstants (LoadFunction fuel source)) (\<lambda>(k, ps).
       bindl LoadDebug (\<lambda>(lineinfo, locvars, upvalues).
       let f = Proto k code ps lineinfo locvars upvalues source (int linedefined) (int lastlinedefined)
                 nups numparams is_vararg maxstacksize in
       case luaG_checkcode f of
         Inl e \<Rightarrow> fail LoadCrash
       | Inr good \<Rightarrow> if \<not> good then load_error (str ''bad code'')
           else (\<lambda>S. Inr (f, S\<lparr>ls_nCcalls := ls_nCcalls S - 1\<rparr>)))))))))))) S)"

definition LoadHeader :: "unit load" where
  "LoadHeader = bindl (LoadBlock LUAC_HEADERSIZE) (\<lambda>s.
     if s \<noteq> luaU_header then load_error (str ''bad header'') else ok ())"

text \<open>The name of a chunk is a C string.\<close>

definition chunk_name :: "bytes \<Rightarrow> bytes" where
  "chunk_name name = (case c_str name of
      [] \<Rightarrow> []
    | c # cs \<Rightarrow> if c = 64 \<or> c = 61 then cs else if c = hd LUA_SIGNATURE then str ''binary string'' else c # cs)"

definition luaU_undump :: "(nat \<Rightarrow> bool) \<Rightarrow> nat \<Rightarrow> Zio \<Rightarrow> nat \<Rightarrow> bytes \<Rightarrow> load_failure + Proto \<times> LoadState" where
  "luaU_undump avail nCcalls Z buffsize name =
     bindl LoadHeader (\<lambda>_. LoadFunction (LUAI_MAXCCALLS + 1) (Some (str ''=?'')))
       \<lparr>ls_Z = Z, ls_buffsize = buffsize, ls_name = chunk_name name, ls_nCcalls = nCcalls, ls_avail = avail\<rparr>"

end
