(* ===== verification/Lua_Checkcode_Props.thy ===== *)
theory Lua_Checkcode_Props
  imports Lua_Checkcode
begin

text \<open>
  What the code checker guarantees. It reads no word outside the arrays of the prototype, for any
  code; and in code that it accepts, control never leaves the code and never enters the second word
  of a \<^verbatim>\<open>SETLIST\<close>. \<open>succs\<close> is the control flow of the virtual machine.
\<close>

subsection \<open>Instruction starts\<close>

inductive starts :: "Instruction list \<Rightarrow> nat \<Rightarrow> bool" for c where
  first: "starts c 0"
| step: "starts c p \<Longrightarrow> p < length c \<Longrightarrow> starts c (p + (if setlist0 (c ! p) then 2 else 1))"

lemma starts_or_data: "q \<le> length c \<Longrightarrow> starts c q \<or> (\<exists>p. q = Suc p \<and> starts c p \<and> setlist0 (c ! p))"
proof (induction q)
  case (Suc q)
  then consider "starts c q" | p where "q = Suc p" "starts c p" "setlist0 (c ! p)" by auto
  then show ?case
  proof cases
    case 1
    show ?thesis
    proof (cases "setlist0 (c ! q)")
      case False
      then show ?thesis using starts.step [OF 1] Suc.prems by simp
    qed (use 1 in blast)
  next
    case 2
    then show ?thesis using starts.step [of c p] Suc.prems by simp
  qed
qed (simp add: first)

lemma starts_after: "q < length c \<Longrightarrow> \<not> setlist0 (c ! q) \<Longrightarrow> starts c (Suc q)"
  using starts_or_data [of "Suc q" c] by auto

lemma starts_run: "starts c q \<Longrightarrow> q + 2 * j \<le> length c \<Longrightarrow> \<forall>m < 2 * j. setlist0 (c ! (q + m)) \<Longrightarrow> starts c (q + 2 * j)"
proof (induction j)
  case (Suc j)
  then have "starts c (q + 2 * j)" by simp
  moreover have "setlist0 (c ! (q + 2 * j))" using Suc.prems(3) by simp
  ultimately show ?case using starts.step [of c "q + 2 * j"] Suc.prems(2) by simp
qed simp

text \<open>The test of the checker: an even number of apparent \<^verbatim>\<open>SETLIST\<close> heads before the target.\<close>

lemma starts_parity:
  assumes d: "d \<le> length c" and j: "even j" "j \<le> d" and run: "\<forall>m < j. setlist0 (c ! (d - 1 - m))"
    and e: "j = d \<or> \<not> setlist0 (c ! (d - 1 - j))"
  shows "starts c d"
proof -
  obtain k where k: "j = 2 * k" using j(1) by blast
  have "starts c (d - j)"
  proof (cases "j = d")
    case True
    then show ?thesis by (simp add: first)
  next
    case False
    then have "starts c (Suc (d - 1 - j))" using e d j(2) by (intro starts_after) auto
    moreover have "Suc (d - 1 - j) = d - j" using False j(2) by simp
    ultimately show ?thesis by simp
  qed
  moreover have "\<forall>m < 2 * k. setlist0 (c ! (d - j + m))"
  proof (intro allI impI)
    fix m assume "m < 2 * k"
    then have "d - j + m = d - 1 - (j - 1 - m)" "j - 1 - m < j" using k j(2) by auto
    with run show "setlist0 (c ! (d - j + m))" by metis
  qed
  ultimately have "starts c (d - j + 2 * k)" using d j(2) k by (intro starts_run) auto
  with k j(2) show ?thesis by simp
qed

subsection \<open>Runs of the checks\<close>

lemma at_index_in [simp]: "0 \<le> i \<Longrightarrow> i < int (length xs) \<Longrightarrow> at_index xs i = Inr (xs ! nat i)"
  by (simp add: at_index_def)

lemma at_index_nth [simp]: "i < length xs \<Longrightarrow> at_index xs (int i) = Inr (xs ! i)"
  by (simp add: at_index_def)

lemma check_simps [simp]: "check True k = k" "check False k = Inr None"
  by (simp_all add: check_def)

lemma check_Some: "check b k = Inr (Some r) \<longleftrightarrow> b \<and> k = Inr (Some r)"
  by (simp add: check_def)

lemma check_safe: "(b \<Longrightarrow> \<exists>r. k = Inr r) \<Longrightarrow> \<exists>r. check b k = Inr r"
  by (cases b) auto

lemma check_at_Some: "check_at pt pc P k = Inr (Some r) \<longleftrightarrow>
    0 \<le> pc \<and> pc < sizecode pt \<and> P (p_code pt ! nat pc) \<and> k = Inr (Some r)"
  by (auto simp: check_at_def check_Some at_index_def sizecode_def)

lemma check_at_safe: "0 \<le> pc \<Longrightarrow> pc < sizecode pt \<Longrightarrow> \<exists>r. k = Inr r \<Longrightarrow> \<exists>r. check_at pt pc P k = Inr r"
  by (auto simp: check_at_def sizecode_def check_def)

lemma setlist_run_spec:
  assumes "0 \<le> j" "j + int f \<le> d" "d \<le> sizecode pt"
  shows "\<exists>r. setlist_run pt d f j = Inr r \<and> j \<le> r \<and> r \<le> j + int f \<and>
    (\<forall>m. j \<le> m \<longrightarrow> m < r \<longrightarrow> setlist0 (p_code pt ! nat (d - 1 - m))) \<and>
    (r = j + int f \<or> \<not> setlist0 (p_code pt ! nat (d - 1 - r)))"
  using assms
proof (induction f arbitrary: j)
  case (Suc f)
  have i: "at_index (p_code pt) (d - 1 - j) = Inr (p_code pt ! nat (d - 1 - j))"
    using Suc.prems by (intro at_index_in) (simp_all add: sizecode_def)
  show ?case
  proof (cases "setlist0 (p_code pt ! nat (d - 1 - j))")
    case True
    obtain r where r: "setlist_run pt d f (j + 1) = Inr r" "j + 1 \<le> r" "r \<le> j + 1 + int f"
      "\<forall>m. j + 1 \<le> m \<longrightarrow> m < r \<longrightarrow> setlist0 (p_code pt ! nat (d - 1 - m))"
      "r = j + 1 + int f \<or> \<not> setlist0 (p_code pt ! nat (d - 1 - r))"
      using Suc.IH [of "j + 1"] Suc.prems by auto
    have "\<forall>m. j \<le> m \<longrightarrow> m < r \<longrightarrow> setlist0 (p_code pt ! nat (d - 1 - m))"
    proof (intro allI impI)
      fix m assume "j \<le> m" "m < r"
      then show "setlist0 (p_code pt ! nat (d - 1 - m))" using True r(4) by (cases "m = j") simp_all
    qed
    with r True i show ?thesis by (intro exI [of _ r]) auto
  qed (use i in simp)
qed simp

text \<open>A jump that passes the check goes to the start of an instruction.\<close>

lemma check_jump:
  assumes d: "0 \<le> d" "d < sizecode pt"
  shows "\<exists>j. setlist_run pt d (nat d) 0 = Inr j \<and> (even j \<longrightarrow> starts (p_code pt) (nat d))"
proof -
  obtain j where j: "setlist_run pt d (nat d) 0 = Inr j" "0 \<le> j" "j \<le> d"
    "\<forall>m. 0 \<le> m \<longrightarrow> m < j \<longrightarrow> setlist0 (p_code pt ! nat (d - 1 - m))"
    "j = d \<or> \<not> setlist0 (p_code pt ! nat (d - 1 - j))"
    using setlist_run_spec [of 0 "nat d" d pt] d by auto
  have "starts (p_code pt) (nat d)" if "even j"
  proof (rule starts_parity)
    show "nat d \<le> length (p_code pt)" using d by (simp add: sizecode_def nat_le_iff)
    show "even (nat j)" "nat j \<le> nat d" using that j(2,3) by (simp_all add: even_nat_iff)
    have e: "nat (d - 1 - int m) = nat d - 1 - m" for m by simp
    show "\<forall>m < nat j. setlist0 (p_code pt ! (nat d - 1 - m))"
      using j(4) e by (metis int_nat_eq less_nat_zero_code nat_int_comparison(2) of_nat_0_le_iff j(2))
    show "nat j = nat d \<or> \<not> setlist0 (p_code pt ! (nat d - 1 - nat j))"
      using j(2,5) e [of "nat j"] by auto
  qed
  with j(1) show ?thesis by blast
qed

lemma check_closure_Some: "check_closure pt pc n k = Inr (Some r) \<Longrightarrow> 0 \<le> pc \<Longrightarrow>
    k = Inr (Some r) \<and> (\<forall>j. 1 \<le> j \<longrightarrow> j \<le> n \<longrightarrow> pc + int j < sizecode pt \<and>
      GET_OPCODE (p_code pt ! nat (pc + int j)) \<in> {Some OP_GETUPVAL, Some OP_MOVE})"
proof (induction n arbitrary: pc)
  case (Suc n)
  then have h: "pc + 1 < sizecode pt" "GET_OPCODE (p_code pt ! nat (pc + 1)) \<in> {Some OP_GETUPVAL, Some OP_MOVE}"
    and "check_closure pt (pc + 1) n k = Inr (Some r)" by (auto simp: check_at_Some)
  from Suc.IH [OF this(3)] Suc.prems(2) have k: "k = Inr (Some r)" and
    t: "\<And>j. 1 \<le> j \<Longrightarrow> j \<le> n \<Longrightarrow> pc + 1 + int j < sizecode pt \<and>
      GET_OPCODE (p_code pt ! nat (pc + 1 + int j)) \<in> {Some OP_GETUPVAL, Some OP_MOVE}" by auto
  show ?case
  proof (intro conjI [OF k] allI impI)
    fix j assume "1 \<le> j" "j \<le> Suc n"
    then consider "j = 1" | "1 \<le> j - 1" "j - 1 \<le> n" by linarith
    then show "pc + int j < sizecode pt \<and> GET_OPCODE (p_code pt ! nat (pc + int j)) \<in> {Some OP_GETUPVAL, Some OP_MOVE}"
    proof cases
      case 2
      then have "pc + 1 + int (j - 1) = pc + int j" by simp
      with t [OF 2] show ?thesis by simp
    qed (use h in simp)
  qed
qed simp

lemma check_closure_safe: "0 \<le> pc \<Longrightarrow> pc + int n < sizecode pt \<Longrightarrow> \<exists>r. k = Inr r \<Longrightarrow> \<exists>r. check_closure pt pc n k = Inr r"
  by (induction n arbitrary: pc) (auto intro!: check_at_safe)

lemma check_op_Some:
  assumes "check_op pt lastpc reg opn a b c pc lst = Inr (Some (pc', lst'))" "0 \<le> pc"
  shows "pc \<le> pc'" "lst' = lst \<or> lst' = pc"
    "reg = NO_REG \<Longrightarrow> pc' = pc + (if opn = OP_SETLIST \<and> c = 0 then 1 else 0)"
  using assms by (cases opn; auto simp: check_op_def Let_def check_Some check_at_Some sum_bind_Inr_iff
      dest!: check_closure_Some split: if_splits)+

lemma check_op_safe:
  assumes "0 \<le> pc" "pc < sizecode pt" "opn \<noteq> OP_RETURN \<Longrightarrow> pc + 1 < sizecode pt" "0 \<le> b \<or> getOpMode opn = iAsBx"
    "getOpMode opn = iABx \<Longrightarrow> getBMode opn = OpArgK \<Longrightarrow> b < sizek pt"
  shows "\<exists>r. check_op pt lastpc reg opn a b c pc lst = Inr r"
  using assms
  by (cases opn) (auto simp: check_op_def Let_def getOpMode_def getBMode_def opmode_def sizek_def
      intro!: check_safe check_at_safe check_closure_safe)

definition operand_b :: "OpCode \<Rightarrow> Instruction \<Rightarrow> int" where
  "operand_b opn i = (case getOpMode opn of iABC \<Rightarrow> GETARG_B i | iABx \<Rightarrow> GETARG_Bx i | iAsBx \<Rightarrow> GETARG_sBx i)"

definition operand_c :: "OpCode \<Rightarrow> Instruction \<Rightarrow> int" where
  "operand_c opn i = (if getOpMode opn = iABC then GETARG_C i else 0)"

lemma signed_mode: "getOpMode opn = iAsBx \<Longrightarrow> getBMode opn = OpArgR"
  by (cases opn) (simp_all add: getOpMode_def getBMode_def opmode_def)

definition operands_ok :: "Proto \<Rightarrow> int \<Rightarrow> OpCode \<Rightarrow> Instruction \<Rightarrow> bool" where
  "operands_ok pt pc opn i = (case getOpMode opn of
      iABC \<Rightarrow> checkArgMode pt (GETARG_B i) (getBMode opn) \<and> checkArgMode pt (GETARG_C i) (getCMode opn)
    | iABx \<Rightarrow> getBMode opn = OpArgK \<longrightarrow> GETARG_Bx i < sizek pt
    | iAsBx \<Rightarrow> 0 \<le> pc + 1 + GETARG_sBx i \<and> pc + 1 + GETARG_sBx i < sizecode pt \<and>
        starts (p_code pt) (nat (pc + 1 + GETARG_sBx i)))"

lemma check_operands_spec:
  assumes "0 \<le> pc"
  shows "\<exists>r. check_operands pt pc opn i = Inr r \<and>
    (\<forall>x. r = Some x \<longrightarrow> x = (operand_b opn i, operand_c opn i) \<and> operands_ok pt pc opn i)"
proof (cases "getOpMode opn")
  case iABC
  then show ?thesis by (simp add: check_operands_def operand_b_def operand_c_def operands_ok_def check_def Let_def)
next
  case iABx
  then show ?thesis by (simp add: check_operands_def operand_b_def operand_c_def operands_ok_def check_def Let_def)
next
  case iAsBx
  let ?d = "pc + 1 + GETARG_sBx i"
  note m = iAsBx signed_mode [OF iAsBx]
  show ?thesis
  proof (cases "0 \<le> ?d \<and> ?d < sizecode pt")
    case True
    then obtain j where j: "setlist_run pt ?d (nat ?d) 0 = Inr j" "even j \<Longrightarrow> starts (p_code pt) (nat ?d)"
      using check_jump [of ?d pt] by blast
    then show ?thesis using True m
      by (simp add: check_operands_def operand_b_def operand_c_def operands_ok_def check_def Let_def first)
  qed (use m in \<open>auto simp: check_operands_def check_def Let_def\<close>)
qed

lemma operand_b_range: "getOpMode opn \<noteq> iAsBx \<Longrightarrow> 0 \<le> operand_b opn i"
  using getarg_bounds [of i] by (cases "getOpMode opn") (simp_all add: operand_b_def)

subsection \<open>The whole check\<close>

lemma precheck_spec:
  "\<exists>ok. precheck pt = Inr ok"
  "precheck pt = Inr True \<Longrightarrow> 0 < sizecode pt \<and> uint (p_maxstacksize pt) \<le> MAXSTACK \<and>
    GET_OPCODE (p_code pt ! nat (sizecode pt - 1)) = Some OP_RETURN"
  by (auto simp: precheck_def sizecode_def split: if_splits)

text \<open>What a successful step has checked at \<open>pc\<close>.\<close>

lemma symbexec_step_spec:
  assumes pre: "precheck pt = Inr True" and pc: "0 \<le> pc" "pc < sizecode pt"
  shows "\<exists>r. symbexec_step pt lastpc reg pc lst = Inr r \<and>
    (\<forall>pc' lst'. r = Some (pc', lst') \<longrightarrow> pc \<le> pc' \<and> (lst' = lst \<or> lst' = pc) \<and>
      (reg = NO_REG \<longrightarrow> pc' = pc + (if setlist0 (p_code pt ! nat pc) then 1 else 0)))"
proof -
  let ?i = "p_code pt ! nat pc"
  have i: "at_index (p_code pt) pc = Inr ?i" using pc by (simp add: sizecode_def)
  show ?thesis
  proof (cases "GET_OPCODE ?i")
    case None
    then show ?thesis by (simp add: symbexec_step_def i)
  next
    case (Some opn)
    let ?b = "operand_b opn ?i" and ?c = "operand_c opn ?i"
    let ?l = "if testAMode opn \<and> GETARG_A ?i = reg then pc else lst"
    let ?op = "check_op pt lastpc reg opn (GETARG_A ?i) ?b ?c pc ?l"
    have nxt: "opn \<noteq> OP_RETURN \<Longrightarrow> pc + 1 < sizecode pt"
      using precheck_spec(2) [OF pre] pc Some by (cases "pc = sizecode pt - 1") auto
    obtain r where r: "check_operands pt pc opn ?i = Inr r"
      "r = Some x \<Longrightarrow> x = (?b, ?c) \<and> operands_ok pt pc opn ?i" for x using check_operands_spec [OF pc(1)] by blast
    have op: "\<exists>x. ?op = Inr x" if "operands_ok pt pc opn ?i"
    proof (rule check_op_safe [OF pc nxt])
      show "0 \<le> ?b \<or> getOpMode opn = iAsBx" using operand_b_range by blast
      show "?b < sizek pt" if "getOpMode opn = iABx" "getBMode opn = OpArgK"
        using that \<open>operands_ok pt pc opn ?i\<close> by (simp add: operands_ok_def operand_b_def)
    qed
    have c0: "opn = OP_SETLIST \<and> ?c = 0 \<longleftrightarrow> setlist0 ?i"
      using Some by (auto simp: setlist0_def operand_c_def getOpMode_def opmode_def)
    have eq: "symbexec_step pt lastpc reg pc lst = check (checkreg pt (GETARG_A ?i)) (case r of None \<Rightarrow> Inr None | Some x \<Rightarrow>
        if testTMode opn then check (pc + 2 < sizecode pt) (check_at pt (pc + 1) (\<lambda>j. GET_OPCODE j = Some OP_JMP) ?op) else ?op)"
      using r by (cases r) (auto simp: symbexec_step_def i Some Let_def)
    have "\<exists>x. symbexec_step pt lastpc reg pc lst = Inr x"
      unfolding eq using r(2) op pc(1) by (cases r) (auto intro!: check_safe check_at_safe)
    moreover have "pc \<le> pc' \<and> (lst' = lst \<or> lst' = pc) \<and> (reg = NO_REG \<longrightarrow> pc' = pc + (if setlist0 ?i then 1 else 0))"
      if "symbexec_step pt lastpc reg pc lst = Inr (Some (pc', lst'))" for pc' lst'
    proof -
      from that have s: "?op = Inr (Some (pc', lst'))" unfolding eq
        by (cases r) (auto simp: check_Some check_at_Some split: if_splits)
      show ?thesis using check_op_Some [OF s pc(1)] c0 by (auto split: if_splits)
    qed
    ultimately show ?thesis by blast
  qed
qed

lemma symbexec_loop_spec:
  assumes pre: "precheck pt = Inr True" and n: "lastpc \<le> sizecode pt"
  shows "0 \<le> pc \<Longrightarrow> lastpc - pc \<le> int f \<Longrightarrow> 0 \<le> lst \<Longrightarrow> lst < sizecode pt \<Longrightarrow>
    \<exists>r. symbexec_loop pt lastpc reg f pc lst = Inr r \<and> (\<forall>l. r = Some l \<longrightarrow> 0 \<le> l \<and> l < sizecode pt)"
proof (induction f arbitrary: pc lst)
  case (Suc f)
  show ?case
  proof (cases "pc < lastpc")
    case True
    then have pc: "pc < sizecode pt" using n by simp
    obtain r where r: "symbexec_step pt lastpc reg pc lst = Inr r"
      "\<And>pc' lst'. r = Some (pc', lst') \<Longrightarrow> pc \<le> pc' \<and> (lst' = lst \<or> lst' = pc)"
      using symbexec_step_spec [OF pre Suc.prems(1) pc] by blast
    show ?thesis
    proof (cases r)
      case (Some x)
      obtain pc' lst' where x: "x = (pc', lst')" by fastforce
      have "0 \<le> pc' + 1" "lastpc - (pc' + 1) \<le> int f" "0 \<le> lst'" "lst' < sizecode pt"
        using r(2) [OF Some [unfolded x]] Suc.prems pc by auto
      from Suc.IH [OF this] show ?thesis using True r(1) Some x by simp
    qed (use True r(1) in simp)
  qed (use Suc.prems in simp)
qed simp

lemma starts_next:
  "starts c q \<Longrightarrow> starts c p \<Longrightarrow> p < q \<Longrightarrow> p + (if setlist0 (c ! p) then 2 else 1) \<le> q"
proof (induction q arbitrary: p rule: less_induct)
  case (less q)
  from less.prems(1) show ?case
  proof cases
    case first
    with less.prems show ?thesis by simp
  next
    case (step p')
    then have p': "p' < q" by (simp split: if_splits)
    consider "p < p'" | "p = p'" | "p' < p" by linarith
    then show ?thesis
    proof cases
      case 1
      from less.IH [OF p' step(2) less.prems(2) this] p' show ?thesis by simp
    next
      case 3
      from less.IH [OF less.prems(3,2) step(2) 3] step(1) less.prems(3) show ?thesis by simp
    qed (use step in simp)
  qed
qed

text \<open>The full check runs over every instruction of the code.\<close>

lemma symbexec_loop_visits:
  assumes pre: "precheck pt = Inr True"
  shows "starts (p_code pt) pc \<Longrightarrow> sizecode pt - int pc \<le> int f \<Longrightarrow>
    symbexec_loop pt (sizecode pt) NO_REG f (int pc) lst = Inr (Some l) \<Longrightarrow>
    starts (p_code pt) p \<Longrightarrow> pc \<le> p \<Longrightarrow> int p < sizecode pt \<Longrightarrow>
    \<exists>l0 x. symbexec_step pt (sizecode pt) NO_REG (int p) l0 = Inr (Some x)"
proof (induction f arbitrary: pc lst)
  case (Suc f)
  have pc: "int pc < sizecode pt" using Suc.prems(5,6) by simp
  obtain pc' lst' where s: "symbexec_step pt (sizecode pt) NO_REG (int pc) lst = Inr (Some (pc', lst'))"
    and l: "symbexec_loop pt (sizecode pt) NO_REG f (pc' + 1) lst' = Inr (Some l)"
    using Suc.prems(3) pc by (auto simp: sum_bind_Inr_iff split: option.splits)
  let ?n = "pc + (if setlist0 (p_code pt ! pc) then 2 else 1)"
  have "pc' = int pc + (if setlist0 (p_code pt ! pc) then 1 else 0)"
    using symbexec_step_spec [OF pre _ pc, of "sizecode pt" NO_REG lst] s by auto
  then have n: "pc' + 1 = int ?n" by simp
  show ?case
  proof (cases "p = pc")
    case True
    with s show ?thesis by blast
  next
    case False
    then have "?n \<le> p" using starts_next [OF Suc.prems(4,1)] Suc.prems(5) by simp
    moreover have "starts (p_code pt) ?n" using starts.step [OF Suc.prems(1)] pc by (simp add: sizecode_def)
    moreover have "sizecode pt - int ?n \<le> int f" using Suc.prems(2) by simp
    ultimately show ?thesis using Suc.IH [of ?n lst'] l Suc.prems(4,6) n by metis
  qed
qed simp

lemma symbexec_safe: "lastpc \<le> sizecode pt \<Longrightarrow> \<exists>i. symbexec pt lastpc reg = Inr i"
proof -
  assume n: "lastpc \<le> sizecode pt"
  obtain ok where ok: "precheck pt = Inr ok" using precheck_spec(1) by blast
  show ?thesis
  proof (cases ok)
    case True
    then have pre: "precheck pt = Inr True" using ok by simp
    have "0 < sizecode pt" using precheck_spec(2) [OF pre] by simp
    then have "\<exists>r. symbexec_loop pt lastpc reg (nat lastpc) 0 (sizecode pt - 1) = Inr r \<and>
        (\<forall>l. r = Some l \<longrightarrow> 0 \<le> l \<and> l < sizecode pt)"
      by (intro symbexec_loop_spec [OF pre n]) simp_all
    then obtain r where r: "symbexec_loop pt lastpc reg (nat lastpc) 0 (sizecode pt - 1) = Inr r"
      "\<And>l. r = Some l \<Longrightarrow> 0 \<le> l \<and> l < sizecode pt" by blast
    then show ?thesis by (cases r) (auto simp: symbexec_def ok sizecode_def)
  qed (simp add: symbexec_def ok)
qed

lemma checkcode_steps:
  assumes "luaG_checkcode pt = Inr True" "starts (p_code pt) p" "int p < sizecode pt"
  shows "precheck pt = Inr True" "\<exists>l0 x. symbexec_step pt (sizecode pt) NO_REG (int p) l0 = Inr (Some x)"
proof -
  from assms(1) obtain i where i: "symbexec pt (sizecode pt) NO_REG = Inr i" "i \<noteq> 0"
    by (auto simp: luaG_checkcode_def sum_bind_Inr_iff)
  obtain ok where ok: "precheck pt = Inr ok" using precheck_spec(1) by blast
  with i have "ok" by (auto simp: symbexec_def split: if_splits)
  with ok show pre: "precheck pt = Inr True" by simp
  from i obtain l where "symbexec_loop pt (sizecode pt) NO_REG (nat (sizecode pt)) 0 (sizecode pt - 1) = Inr (Some l)"
    by (auto simp: symbexec_def pre sum_bind_Inr_iff split: option.splits)
  then show "\<exists>l0 x. symbexec_step pt (sizecode pt) NO_REG (int p) l0 = Inr (Some x)"
    using symbexec_loop_visits [OF pre first [of "p_code pt"], of "nat (sizecode pt)" "sizecode pt - 1" l p] assms(2,3)
    by simp
qed

subsection \<open>Control flow\<close>

text \<open>
  Where the virtual machine can go from an instruction. A test skips the following jump or takes it;
  the words after a \<^verbatim>\<open>CLOSURE\<close>, and the second word of a \<^verbatim>\<open>SETLIST\<close>, are consumed.
\<close>

definition succs :: "Proto \<Rightarrow> int \<Rightarrow> int set" where
  "succs pt pc =
     (let i = p_code pt ! nat pc; jump = (\<lambda>q. q + 1 + GETARG_sBx (p_code pt ! nat q)) in
      case GET_OPCODE i of
        None \<Rightarrow> {}
      | Some opn \<Rightarrow>
          if testTMode opn then {pc + 2, jump (pc + 1)}
          else case opn of
            OP_JMP \<Rightarrow> {jump pc}
          | OP_FORPREP \<Rightarrow> {jump pc}
          | OP_FORLOOP \<Rightarrow> {pc + 1, jump pc}
          | OP_LOADBOOL \<Rightarrow> {if GETARG_C i \<noteq> 0 then pc + 2 else pc + 1}
          | OP_SETLIST \<Rightarrow> {if GETARG_C i = 0 then pc + 2 else pc + 1}
          | OP_CLOSURE \<Rightarrow> {pc + 1 + uint (p_nups (p_p pt ! nat (GETARG_Bx i)))}
          | OP_RETURN \<Rightarrow> {}
          | _ \<Rightarrow> {pc + 1})"

inductive reached :: "Proto \<Rightarrow> int \<Rightarrow> bool" for pt where
  entry: "reached pt 0"
| flow: "reached pt pc \<Longrightarrow> q \<in> succs pt pc \<Longrightarrow> reached pt q"

text \<open>The third operand of \<^verbatim>\<open>LOADBOOL\<close>: the checker knows 0 and 1 only.\<close>

definition loadbool_ok :: "Proto \<Rightarrow> bool" where
  "loadbool_ok pt \<longleftrightarrow> (\<forall>i \<in> set (p_code pt). GET_OPCODE i = Some OP_LOADBOOL \<longrightarrow> GETARG_C i \<le> 1)"

lemma test_mode: "testTMode opn \<longleftrightarrow> opn \<in> {OP_EQ, OP_LT, OP_LE, OP_TEST, OP_TESTSET, OP_TFORLOOP}"
  by (cases opn) (simp_all add: testTMode_def opmode_def)

text \<open>What the check of one instruction established.\<close>

lemma checked:
  assumes "luaG_checkcode pt = Inr True" "starts (p_code pt) p" "int p < sizecode pt"
  obtains opn where "GET_OPCODE (p_code pt ! p) = Some opn" "checkreg pt (GETARG_A (p_code pt ! p))"
    "operands_ok pt (int p) opn (p_code pt ! p)"
    "opn \<noteq> OP_RETURN \<longrightarrow> int p + 1 < sizecode pt"
    "testTMode opn \<longrightarrow> int p + 2 < sizecode pt \<and> GET_OPCODE (p_code pt ! Suc p) = Some OP_JMP"
    "\<exists>l l' pc'. check_op pt (sizecode pt) NO_REG opn (GETARG_A (p_code pt ! p)) (operand_b opn (p_code pt ! p))
       (operand_c opn (p_code pt ! p)) (int p) l = Inr (Some (pc', l'))"
proof -
  let ?i = "p_code pt ! p"
  note pre = checkcode_steps(1) [OF assms]
  obtain l0 x where s: "symbexec_step pt (sizecode pt) NO_REG (int p) l0 = Inr (Some x)"
    using checkcode_steps(2) [OF assms] by blast
  have i: "at_index (p_code pt) (int p) = Inr ?i" using assms(3) by (simp add: sizecode_def)
  obtain opn where o: "GET_OPCODE ?i = Some opn" using s by (cases "GET_OPCODE ?i") (simp_all add: symbexec_step_def i)
  have "checkreg pt (GETARG_A ?i)" using s o by (simp add: symbexec_step_def i Let_def check_Some)
  obtain r where r: "check_operands pt (int p) opn ?i = Inr r"
    "\<And>y. r = Some y \<Longrightarrow> y = (operand_b opn ?i, operand_c opn ?i) \<and> operands_ok pt (int p) opn ?i"
    using check_operands_spec [of "int p"] by force
  with s o have rs: "r = Some (operand_b opn ?i, operand_c opn ?i)" "operands_ok pt (int p) opn ?i"
    by (cases r; simp add: symbexec_step_def i Let_def check_Some)+
  have t: "testTMode opn \<longrightarrow> int p + 2 < sizecode pt \<and> GET_OPCODE (p_code pt ! Suc p) = Some OP_JMP"
    using s o r(1) rs(1) by (cases "testTMode opn") (simp_all add: symbexec_step_def i Let_def check_Some check_at_Some nat_add_distrib)
  have c: "\<exists>l l' pc'. check_op pt (sizecode pt) NO_REG opn (GETARG_A ?i) (operand_b opn ?i) (operand_c opn ?i) (int p) l = Inr (Some (pc', l'))"
    using s o r(1) rs(1) by (cases x) (auto simp: symbexec_step_def i Let_def check_Some check_at_Some split: if_splits)
  have "opn \<noteq> OP_RETURN \<longrightarrow> int p + 1 < sizecode pt"
  proof (rule ccontr)
    assume "\<not> (opn \<noteq> OP_RETURN \<longrightarrow> int p + 1 < sizecode pt)"
    then have that: "opn \<noteq> OP_RETURN" "\<not> int p + 1 < sizecode pt" by simp_all
    then have "nat (sizecode pt - 1) = p" using assms(3) by simp
    with precheck_spec(2) [OF pre] o that show False by simp
  qed
  from that [OF o \<open>checkreg pt (GETARG_A ?i)\<close> rs(2) this t c] show thesis .
qed

lemma starts_jump:
  assumes "luaG_checkcode pt = Inr True" "starts (p_code pt) p" "int p < sizecode pt"
    "GET_OPCODE (p_code pt ! p) = Some opn" "getOpMode opn = iAsBx"
  shows "0 \<le> int p + 1 + GETARG_sBx (p_code pt ! p)" "int p + 1 + GETARG_sBx (p_code pt ! p) < sizecode pt"
    "starts (p_code pt) (nat (int p + 1 + GETARG_sBx (p_code pt ! p)))"
proof -
  obtain op' where "GET_OPCODE (p_code pt ! p) = Some op'" "operands_ok pt (int p) op' (p_code pt ! p)"
    by (rule checked [OF assms(1-3)])
  then have "operands_ok pt (int p) opn (p_code pt ! p)" using assms(4) by simp
  then show "0 \<le> int p + 1 + GETARG_sBx (p_code pt ! p)" "int p + 1 + GETARG_sBx (p_code pt ! p) < sizecode pt"
    "starts (p_code pt) (nat (int p + 1 + GETARG_sBx (p_code pt ! p)))"
    by (simp_all add: operands_ok_def assms(5))
qed

definition in_code :: "Proto \<Rightarrow> int \<Rightarrow> bool" where
  "in_code pt pc \<longleftrightarrow> 0 \<le> pc \<and> pc < sizecode pt \<and> starts (p_code pt) (nat pc)"

lemma in_codeI: "starts (p_code pt) p \<Longrightarrow> int p < sizecode pt \<Longrightarrow> q = int p \<Longrightarrow> in_code pt q"
  by (simp add: in_code_def)

lemma starts_closure:
  assumes p: "starts c p" "\<not> setlist0 (c ! p)"
    and n: "\<forall>j. 1 \<le> j \<longrightarrow> j \<le> n \<longrightarrow> p + j < length c \<and> \<not> setlist0 (c ! (p + j))" and l: "p < length c"
  shows "starts c (p + n + 1)"
  using n
proof (induction n)
  case 0
  show ?case using starts.step [OF p(1) l] p(2) by simp
next
  case (Suc n)
  then have "starts c (p + n + 1)" by simp
  moreover have "p + n + 1 < length c" "\<not> setlist0 (c ! (p + n + 1))"
    using Suc.prems [THEN spec, of "Suc n"] by simp_all
  ultimately show ?case using starts.step [of c "p + n + 1"] by simp
qed

lemma checked_succs:
  assumes ok: "luaG_checkcode pt = Inr True" and lb: "loadbool_ok pt" and pc: "in_code pt pc" and q: "q \<in> succs pt pc"
  shows "in_code pt q"
proof -
  define p where "p = nat pc"
  then have p: "pc = int p" "starts (p_code pt) p" "int p < sizecode pt" using pc by (simp_all add: in_code_def)
  let ?c = "p_code pt" and ?i = "p_code pt ! p"
  obtain opn where o: "GET_OPCODE ?i = Some opn" "checkreg pt (GETARG_A ?i)" "operands_ok pt (int p) opn ?i" and nxt: "opn \<noteq> OP_RETURN \<longrightarrow> int p + 1 < sizecode pt"
    and t: "testTMode opn \<longrightarrow> int p + 2 < sizecode pt \<and> GET_OPCODE (?c ! Suc p) = Some OP_JMP"
    and op: "\<exists>l l' pc'. check_op pt (sizecode pt) NO_REG opn (GETARG_A ?i) (operand_b opn ?i)
       (operand_c opn ?i) (int p) l = Inr (Some (pc', l'))"
    by (rule checked [OF ok p(2,3)])
  have step: "in_code pt (int p + 1)" if "opn \<noteq> OP_RETURN" "\<not> setlist0 ?i"
    using starts.step [OF p(2)] p(3) that nxt by (intro in_codeI [of _ "Suc p"]) (simp_all add: sizecode_def)
  have sl: "setlist0 ?i \<longleftrightarrow> opn = OP_SETLIST \<and> GETARG_C ?i = 0" using o by (simp add: setlist0_def)
  have jump: "in_code pt (int p + 1 + GETARG_sBx ?i)" if "getOpMode opn = iAsBx"
    using starts_jump [OF ok p(2,3) o(1) that] by (simp add: in_code_def)
  show ?thesis
  proof (cases "testTMode opn")
    case True
    then have 1: "in_code pt (int p + 1)" by (intro step) (auto simp: test_mode sl)
    then have s1: "starts ?c (Suc p)" by (simp add: in_code_def nat_add_distrib)
    note j = t [THEN mp, OF True]
    have "int (Suc p) < sizecode pt" using j by simp
    note jmp = starts_jump [OF ok s1 this conjunct2 [OF j]]
    have "starts ?c (Suc (Suc p))" using starts.step [OF s1] j by (simp add: sizecode_def setlist0_def)
    then have "in_code pt (int p + 2)" using j by (intro in_codeI [of _ "Suc (Suc p)"]) simp_all
    moreover have "in_code pt (int p + 1 + 1 + GETARG_sBx (?c ! Suc p))"
      using jmp by (simp add: in_code_def getOpMode_def opmode_def add_ac)
    ultimately show ?thesis using q True o by (auto simp: succs_def p(1) nat_add_distrib Let_def)
  next
    case False
    note s = q [unfolded succs_def p(1)]
    consider (loadbool) "opn = OP_LOADBOOL" | (setlist) "opn = OP_SETLIST" | (closure) "opn = OP_CLOSURE"
      | (return) "opn = OP_RETURN" | (other) "opn \<notin> {OP_LOADBOOL, OP_SETLIST, OP_CLOSURE, OP_RETURN}" by auto
    then show ?thesis
    proof cases
      case loadbool
      have 1: "in_code pt (int p + 1)" using loadbool by (intro step) (simp_all add: sl)
      have c: "operand_c opn ?i = GETARG_C ?i" using loadbool by (simp add: operand_c_def getOpMode_def opmode_def)
      have c1: "GETARG_C ?i \<noteq> 0 \<Longrightarrow> GETARG_C ?i = 1"
        using lb o loadbool p(3) getarg_bounds(5) [of ?i] by (auto simp: loadbool_ok_def sizecode_def dest!: bspec [OF _ nth_mem])
      have 2: "in_code pt (int p + 2)" if "GETARG_C ?i \<noteq> 0"
      proof -
        have "int p + 2 < sizecode pt" "\<not> setlist0 (?c ! Suc p)"
          using op loadbool c c1 [OF that] by (auto simp: check_op_def check_Some check_at_Some nat_add_distrib)
        moreover from this have "starts ?c (Suc (Suc p))" by (intro starts_after) (simp_all add: sizecode_def)
        ultimately show ?thesis by (intro in_codeI [of _ "Suc (Suc p)"]) simp_all
      qed
      show ?thesis using s o False loadbool 1 2 by (auto split: if_splits)
    next
      case setlist
      have c: "operand_c opn ?i = GETARG_C ?i" using setlist by (simp add: operand_c_def getOpMode_def opmode_def)
      show ?thesis
      proof (cases "GETARG_C ?i = 0")
        case True
        have "int p + 1 < sizecode pt - 1" using op setlist c True by (auto simp: check_op_def check_Some Let_def)
        moreover have "starts ?c (p + 2)" using starts.step [OF p(2)] p(3) setlist True by (simp add: sl sizecode_def)
        ultimately have "in_code pt (int p + 2)" by (intro in_codeI [of _ "p + 2"]) simp_all
        with s o False setlist True show ?thesis by simp
      next
        case nz: False
        then show ?thesis using s o False setlist step by (simp add: sl)
      qed
    next
      case closure
      let ?b = "GETARG_Bx ?i" and ?n = "nat (uint (p_nups (p_p pt ! nat (GETARG_Bx ?i))))"
      have b: "operand_b opn ?i = ?b" using closure by (simp add: operand_b_def getOpMode_def opmode_def)
      have bp: "?b < int (length (p_p pt))" using op closure b by (auto simp: check_op_def check_Some Let_def)
      then have at: "at_index (p_p pt) ?b = Inr (p_p pt ! nat ?b)" using getarg_bounds by simp
      have "int p + int ?n < sizecode pt \<and> (\<exists>(l :: int) r. check_closure pt (int p) ?n (Inr (Some (int p, l))) = Inr (Some r))"
        using op closure b at by (auto simp: check_op_def check_Some Let_def)
      then obtain l :: int and r where cl: "int p + int ?n < sizecode pt" "check_closure pt (int p) ?n (Inr (Some (int p, l))) = Inr (Some r)"
        by blast
      define n where "n = ?n"
      note cl = cl [folded n_def]
      note ps = check_closure_Some [OF cl(2), THEN conjunct2]
      have "\<forall>j. 1 \<le> j \<longrightarrow> j \<le> n \<longrightarrow> p + j < length ?c \<and> \<not> setlist0 (?c ! (p + j))"
      proof (intro allI impI)
        fix j assume "1 \<le> j" "j \<le> n"
        then have "int p + int j < sizecode pt \<and> GET_OPCODE (?c ! nat (int p + int j)) \<in> {Some OP_GETUPVAL, Some OP_MOVE}"
          using ps by simp
        moreover have "nat (int p + int j) = p + j" by simp
        ultimately show "p + j < length ?c \<and> \<not> setlist0 (?c ! (p + j))" by (auto simp: sizecode_def setlist0_def)
      qed
      then have st: "starts ?c (p + n + 1)"
        using p(2,3) closure by (intro starts_closure) (simp_all add: sl sizecode_def)
      have "p + n + 1 \<noteq> length ?c"
      proof
        assume e: "p + n + 1 = length ?c"
        have "nat (sizecode pt - 1) = p + n" using e by (simp only: sizecode_def)
        then have r: "GET_OPCODE (?c ! (p + n)) = Some OP_RETURN"
          using precheck_spec(2) [OF checkcode_steps(1) [OF ok p(2,3)]] by simp
        show False
        proof (cases "n = 0")
          case True
          with r o closure show False by simp
        next
          case nz: False
          then have "GET_OPCODE (?c ! nat (int p + int n)) \<in> {Some OP_GETUPVAL, Some OP_MOVE}" using ps by simp
          moreover have "nat (int p + int n) = p + n" by simp
          ultimately show False using r by simp
        qed
      qed
      then have "int (p + n + 1) < sizecode pt" using cl(1) by (simp add: sizecode_def)
      from in_codeI [OF st this] s o False closure show ?thesis by (simp add: n_def add_ac)
    next
      case return
      with s o False show ?thesis by simp
    next
      case other
      have "in_code pt (int p + 1)" using other by (intro step) (auto simp: sl)
      with s o False other jump show ?thesis
        by (cases opn) (auto simp: getOpMode_def opmode_def)
    qed
  qed
qed

lemma reached_in_code:
  assumes "luaG_checkcode pt = Inr True" "loadbool_ok pt" "reached pt pc"
  shows "in_code pt pc"
  using assms(3)
proof (induction rule: reached.induct)
  case entry
  obtain ok where "precheck pt = Inr ok" using precheck_spec(1) by blast
  with assms(1) have "precheck pt = Inr True" by (cases ok) (auto simp: luaG_checkcode_def symbexec_def)
  from precheck_spec(2) [OF this] show ?case by (simp add: in_code_def first)
next
  case (flow pc q)
  show ?case by (rule checked_succs [OF assms(1,2) flow.IH flow.hyps(2)])
qed

end
