(* ===== verification/Lua_Chunk_Props.thy ===== *)
theory Lua_Chunk_Props
  imports Lua_Chunk Lua_Checkcode_Props
begin

text \<open>
  What loading a chunk guarantees on every input, and that a dumped prototype is loaded as it was. \<open>safe\<close>
  is the contract of a load action, \<open>loads\<close> says that an action reads back given bytes.
\<close>

subsection \<open>Every input\<close>

definition load_ok :: "LoadState \<Rightarrow> bool" where
  "load_ok S \<longleftrightarrow> z_ok (ls_Z S)"

fun reported :: "load_failure \<Rightarrow> bool" where
  "reported (SyntaxError m) = True" | "reported NoMemory = True" | "reported LoadCrash = False" | "reported LoadFuel = False"

text \<open>From a depth of \<open>d\<close> calls the action ends with a reported error, or with a good value at depth \<open>e\<close>.\<close>

definition safe :: "nat \<Rightarrow> nat \<Rightarrow> 'a load \<Rightarrow> ('a \<Rightarrow> bool) \<Rightarrow> bool" where
  "safe d e m P \<longleftrightarrow> (\<forall>S. load_ok S \<longrightarrow> ls_nCcalls S = d \<longrightarrow>
     (\<exists>err. m S = Inl err \<and> reported err) \<or> (\<exists>x S'. m S = Inr (x, S') \<and> load_ok S' \<and> ls_nCcalls S' = e \<and> P x))"

lemma safeI: "(\<And>S. load_ok S \<Longrightarrow> ls_nCcalls S = d \<Longrightarrow>
    (\<exists>err. m S = Inl err \<and> reported err) \<or> (\<exists>x S'. m S = Inr (x, S') \<and> load_ok S' \<and> ls_nCcalls S' = e \<and> P x)) \<Longrightarrow> safe d e m P"
  by (simp add: safe_def)

lemma safeE:
  assumes "safe d e m P" "load_ok S" "ls_nCcalls S = d"
  obtains err where "m S = Inl err" "reported err" | x S' where "m S = Inr (x, S')" "load_ok S'" "ls_nCcalls S' = e" "P x"
  using assms unfolding safe_def by blast

lemma safe_ok: "P x \<Longrightarrow> safe d d (ok x) P"
  by (simp add: safe_def ok_def)

lemma safe_bind:
  assumes "safe d e m P" "\<And>x. P x \<Longrightarrow> safe e c (f x) Q"
  shows "safe d c (bindl m f) Q"
proof (rule safeI)
  fix S assume S: "load_ok S" "ls_nCcalls S = d"
  from assms(1) S show "(\<exists>err. bindl m f S = Inl err \<and> reported err) \<or>
    (\<exists>x S'. bindl m f S = Inr (x, S') \<and> load_ok S' \<and> ls_nCcalls S' = c \<and> Q x)"
  proof (cases rule: safeE)
    case (2 x S')
    from assms(2) [OF 2(4)] 2(2,3) show ?thesis by (cases rule: safeE) (simp_all add: bindl_def 2(1))
  qed (simp add: bindl_def)
qed

lemma load_error_run: obtains m where "load_error why S = Inl (SyntaxError m)"
  by (simp add: load_error_def str_def)

lemma safe_error: "safe d e (load_error why) P"
  by (rule safeI, rule disjI1) (metis load_error_run reported.simps(1))

lemma safe_times: "safe d d m P \<Longrightarrow> safe d d (times n m) (\<lambda>xs. length xs = n \<and> (\<forall>x \<in> set xs. P x))"
proof (induction n)
  case (Suc n)
  show ?case
    unfolding times.simps
    by (rule safe_bind [OF Suc.prems], rule safe_bind [OF Suc.IH [OF Suc.prems]], rule safe_ok) simp
qed (simp add: safe_ok)

lemma safe_vector: "safe d d (new_vector n sz) (\<lambda>_. True)"
  by (simp add: safe_def new_vector_def)

lemma safe_block: "safe d d (LoadBlock n) (\<lambda>bs. length bs = n)"
proof (rule safeI)
  fix S assume S: "load_ok S" "ls_nCcalls S = d"
  obtain z where z: "luaZ_read n (ls_Z S) = Inr (take n (z_rest (ls_Z S)), n - length (z_rest (ls_Z S)), z)" "z_ok z"
    using luaZ_read_spec S(1) unfolding load_ok_def by blast
  show "(\<exists>err. LoadBlock n S = Inl err \<and> reported err) \<or>
    (\<exists>x S'. LoadBlock n S = Inr (x, S') \<and> load_ok S' \<and> ls_nCcalls S' = d \<and> length x = n)"
  proof (cases "n \<le> length (z_rest (ls_Z S))")
    case True
    with z S show ?thesis by (simp add: LoadBlock_def load_ok_def)
  next
    case False
    with z have "LoadBlock n S = load_error (str ''unexpected end'') (S\<lparr>ls_Z := z\<rparr>)" by (simp add: LoadBlock_def)
    then show ?thesis by (metis load_error_run reported.simps(1))
  qed
qed

lemma safe_char: "safe d d LoadChar (\<lambda>_. True)"
  unfolding LoadChar_def by (rule safe_bind [OF safe_block]) (rule safe_ok, simp)

lemma safe_byte: "safe d d LoadByte (\<lambda>_. True)"
  unfolding LoadByte_def by (rule safe_bind [OF safe_char]) (rule safe_ok, simp)

lemma safe_int: "safe d d LoadInt (\<lambda>n. n < 2 ^ 31)"
proof -
  have "nat (signed32 (le_val bs)) < 2 ^ 31" if "length bs = 4" for bs :: bytes
  proof -
    have "le_val bs < 2 ^ 32" using le_val_bound [of bs] that by simp
    then show ?thesis by (cases "0 \<le> signed32 (le_val bs)") (auto simp: signed32_def nat_less_iff)
  qed
  then show ?thesis
    unfolding LoadInt_def by (intro safe_bind [OF safe_block]) (simp add: Let_def safe_error safe_ok)
qed

lemma safe_number: "safe d d LoadNumber (\<lambda>_. True)"
  unfolding LoadNumber_def by (rule safe_bind [OF safe_block]) (rule safe_ok, simp)

lemma safe_string: "safe d d LoadString (\<lambda>_. True)"
proof -
  have sp: "safe d d (\<lambda>S. case luaZ_openspace (ls_buffsize S) n of None \<Rightarrow> Inr ((), S)
     | Some n \<Rightarrow> bindl (new_vector n 1) (\<lambda>_ S. Inr ((), S\<lparr>ls_buffsize := n\<rparr>)) S) (\<lambda>_. True)" for n
    by (auto simp: safe_def bindl_def new_vector_def load_ok_def split: option.splits)
  show ?thesis
    unfolding LoadString_def Let_def
    by (rule safe_bind [OF safe_block], simp, intro conjI impI safe_ok TrueI)
      (rule safe_bind [OF sp], rule safe_bind [OF safe_block], rule safe_ok, simp)
qed

lemma safe_ints: "safe d d (LoadVector n sz) (\<lambda>_. True)"
  unfolding LoadVector_def by (rule safe_bind [OF safe_block]) (rule safe_ok, simp)

lemma safe_code: "safe d d LoadCode (\<lambda>_. True)"
  unfolding LoadCode_def
  by (rule safe_bind [OF safe_int], rule safe_bind [OF safe_vector], rule safe_bind [OF safe_ints], rule safe_ok, simp)

lemma safe_constant: "safe d d LoadConstant (\<lambda>_. True)"
  unfolding LoadConstant_def
  by (rule safe_bind [OF safe_char])
    (auto intro!: safe_ok safe_error safe_bind [OF safe_char] safe_bind [OF safe_number] safe_bind [OF safe_string])

lemma safe_constants:
  "safe d d lf Q \<Longrightarrow> safe d d (LoadConstants lf) (\<lambda>(ks, ps). \<forall>q \<in> set ps. Q q)"
  unfolding LoadConstants_def
  by (rule safe_bind [OF safe_int], rule safe_bind [OF safe_vector], rule safe_bind [OF safe_times [OF safe_constant]],
      rule safe_bind [OF safe_int], rule safe_bind [OF safe_vector], rule safe_bind [OF safe_times], assumption,
      rule safe_ok, simp)

lemma safe_locvar: "safe d d LoadLocVar (\<lambda>_. True)"
  unfolding LoadLocVar_def
  by (rule safe_bind [OF safe_string], rule safe_bind [OF safe_int], rule safe_bind [OF safe_int], rule safe_ok, simp)

lemma safe_debug: "safe d d LoadDebug (\<lambda>_. True)"
  unfolding LoadDebug_def
  by (rule safe_bind [OF safe_int], rule safe_bind [OF safe_vector], rule safe_bind [OF safe_ints],
      rule safe_bind [OF safe_int], rule safe_bind [OF safe_vector], rule safe_bind [OF safe_times [OF safe_locvar]],
      rule safe_bind [OF safe_int], rule safe_bind [OF safe_vector], rule safe_bind [OF safe_times [OF safe_string]],
      rule safe_ok, simp)

text \<open>A prototype all of whose functions the code checker has accepted.\<close>

inductive verified :: "Proto \<Rightarrow> bool" where
  "luaG_checkcode f = Inr True \<Longrightarrow> \<forall>q \<in> set (p_p f). verified q \<Longrightarrow> verified f"

lemma checkcode_safe: "\<exists>b. luaG_checkcode f = Inr b"
  using symbexec_safe [of "sizecode f" f NO_REG] by (auto simp: luaG_checkcode_def)

lemma safe_function: "0 < fuel \<Longrightarrow> LUAI_MAXCCALLS < fuel + d \<Longrightarrow> safe d d (LoadFunction fuel p) verified"
proof (induction fuel arbitrary: d p)
  case (Suc fuel)
  let ?up = "\<lambda>S. S\<lparr>ls_nCcalls := ls_nCcalls S + 1\<rparr>"
  have down: "safe (Suc d) d (\<lambda>S. Inr (f, S\<lparr>ls_nCcalls := ls_nCcalls S - 1\<rparr>)) verified" if "verified f" for f
    using that by (simp add: safe_def load_ok_def)
  show ?case
  proof (cases "Suc d > LUAI_MAXCCALLS")
    case True
    have "safe d d (\<lambda>S. load_error (str ''code too deep'') (?up S)) verified"
      by (rule safeI, rule disjI1) (metis load_error_run reported.simps(1))
    then show ?thesis using True unfolding safe_def by (auto simp: Let_def)
  next
    case False
    have inner: "safe (Suc d) (Suc d) (LoadFunction fuel q) verified" for q
      by (rule Suc.IH) (use Suc.prems False in auto)
    define m where "m = (\<lambda>src. let source = (if src = None then p else src) in
       bindl LoadInt (\<lambda>linedefined. bindl LoadInt (\<lambda>lastlinedefined.
       bindl LoadByte (\<lambda>nups. bindl LoadByte (\<lambda>numparams. bindl LoadByte (\<lambda>is_vararg. bindl LoadByte (\<lambda>maxstacksize.
       bindl LoadCode (\<lambda>code.
       bindl (LoadConstants (LoadFunction fuel source)) (\<lambda>(k, ps).
       bindl LoadDebug (\<lambda>(lineinfo, locvars, upvalues).
       let f = Proto k code ps lineinfo locvars upvalues source (int linedefined) (int lastlinedefined)
                 nups numparams is_vararg maxstacksize in
       case luaG_checkcode f of
         Inl e \<Rightarrow> fail LoadCrash
       | Inr good \<Rightarrow> if \<not> good then load_error (str ''bad code'')
           else (\<lambda>S. Inr (f, S\<lparr>ls_nCcalls := ls_nCcalls S - 1\<rparr>))))))))))))"
    have m: "safe (Suc d) d (m src) verified" for src
      unfolding m_def Let_def
      apply (rule safe_bind [OF safe_int], rule safe_bind [OF safe_int])
      apply (rule safe_bind [OF safe_byte], rule safe_bind [OF safe_byte], rule safe_bind [OF safe_byte], rule safe_bind [OF safe_byte])
      apply (rule safe_bind [OF safe_code], rule safe_bind [OF safe_constants [OF inner]], clarify)
      apply (rule safe_bind [OF safe_debug], clarify)
      subgoal for l1 l2 n1 n2 n3 n4 code k ps lines vars ups
        using checkcode_safe [of "Proto k code ps lines vars ups (if src = None then p else src) (int l1) (int l2) n1 n2 n3 n4"]
        by (elim exE, simp only: sum.case, split if_split, intro conjI impI safe_error down verified.intros) (simp_all add: o_def)
      done
    have "safe (Suc d) d (bindl LoadString m) verified" by (rule safe_bind [OF safe_string]) (rule m)
    then have "safe d d (\<lambda>S. bindl LoadString m (?up S)) verified" unfolding safe_def by (simp add: load_ok_def)
    then show ?thesis using False unfolding safe_def by (auto simp: Let_def m_def)
  qed
qed simp

subsection \<open>The bytes of a prototype\<close>

definition string_bytes :: "bytes option \<Rightarrow> bytes" where
  "string_bytes s = (case s of None \<Rightarrow> le_bytes 8 0 | Some b \<Rightarrow> le_bytes 8 (int (length b + 1)) @ b @ [0])"

fun constant_bytes :: "TValue option \<Rightarrow> bytes" where
  "constant_bytes None = le_bytes 1 4 @ string_bytes None"
| "constant_bytes (Some (LBoolean b)) = le_bytes 1 1 @ le_bytes 1 (if b then 1 else 0)"
| "constant_bytes (Some (LNumber n)) = le_bytes 1 3 @ le_bytes 8 (uint n)"
| "constant_bytes (Some (LString s)) = le_bytes 1 4 @ string_bytes (Some s)"
| "constant_bytes (Some v) = le_bytes 1 (int (ttype v))"

definition list_bytes :: "('a \<Rightarrow> bytes) \<Rightarrow> 'a list \<Rightarrow> bytes" where
  "list_bytes f xs = le_bytes 4 (int (length xs)) @ concat (map f xs)"

definition locvar_bytes :: "LocVar \<Rightarrow> bytes" where
  "locvar_bytes v = string_bytes (lv_varname v) @ le_bytes 4 (lv_startpc v) @ le_bytes 4 (lv_endpc v)"

definition debug_bytes :: "bool \<Rightarrow> Proto \<Rightarrow> bytes" where
  "debug_bytes strip f =
     list_bytes (le_bytes 4) (if strip then [] else p_lineinfo f) @
     list_bytes locvar_bytes (if strip then [] else p_locvars f) @
     list_bytes string_bytes (if strip then [] else p_upvalues f)"

function function_bytes :: "bool \<Rightarrow> bytes option \<Rightarrow> Proto \<Rightarrow> bytes" where
  "function_bytes strip p f =
     string_bytes (if p_source f = p \<or> strip then None else p_source f) @
     le_bytes 4 (p_linedefined f) @ le_bytes 4 (p_lastlinedefined f) @
     le_bytes 1 (uint (p_nups f)) @ le_bytes 1 (uint (p_numparams f)) @
     le_bytes 1 (uint (p_is_vararg f)) @ le_bytes 1 (uint (p_maxstacksize f)) @
     list_bytes (\<lambda>i. le_bytes 4 (uint i)) (p_code f) @
     list_bytes constant_bytes (p_k f) @
     (le_bytes 4 (int (length (p_p f))) @ concat (map (function_bytes strip (p_source f)) (p_p f))) @
     debug_bytes strip f"
  by pat_completeness auto
termination
  by (relation "measure (\<lambda>(strip, p, f). size f)") (auto simp: inner_smaller)

declare function_bytes.simps [simp del]

text \<open>A writer that never fails and appends, and what the dump functions do with it.\<close>

definition appending :: "(bytes \<Rightarrow> 'd \<Rightarrow> int \<times> 'd) \<Rightarrow> ('d \<Rightarrow> bytes) \<Rightarrow> bool" where
  "appending w outp \<longleftrightarrow> (\<forall>b d. fst (w b d) = 0 \<and> outp (snd (w b d)) = outp d @ b)"

definition emits :: "(bytes \<Rightarrow> 'd \<Rightarrow> int \<times> 'd) \<Rightarrow> ('d \<Rightarrow> bytes) \<Rightarrow> bool \<Rightarrow> ('d DumpState \<Rightarrow> 'd DumpState) \<Rightarrow> bytes \<Rightarrow> bool" where
  "emits w outp strip m bs \<longleftrightarrow> (\<forall>D. d_writer D = w \<longrightarrow> d_strip D = strip \<longrightarrow> d_status D = 0 \<longrightarrow>
     d_writer (m D) = w \<and> d_strip (m D) = strip \<and> d_status (m D) = 0 \<and> outp (d_data (m D)) = outp (d_data D) @ bs)"

lemma emits_block: "appending w outp \<Longrightarrow> emits w outp strip (DumpBlock b) b"
  by (auto simp: emits_def DumpBlock_def appending_def split: prod.splits) (metis fst_conv snd_conv)+

lemma emits_then: "emits w outp strip m bs \<Longrightarrow> emits w outp strip m' cs \<Longrightarrow> emits w outp strip (\<lambda>D. m' (m D)) (bs @ cs)"
  by (simp add: emits_def)

lemma emits_id: "emits w outp strip (\<lambda>D. D) []"
  by (simp add: emits_def)

lemma emits_fold: "(\<And>x. x \<in> set xs \<Longrightarrow> emits w outp strip (m x) (b x)) \<Longrightarrow> emits w outp strip (fold m xs) (concat (map b xs))"
proof (induction xs)
  case (Cons x xs)
  from emits_then [OF Cons.prems [of x] Cons.IH] Cons.prems show ?case by (simp add: comp_def)
qed (use emits_id in \<open>simp add: id_def\<close>)

lemma emits_cong: "emits w outp strip m bs \<Longrightarrow> (\<And>D. d_strip D = strip \<Longrightarrow> m' D = m D) \<Longrightarrow> bs' = bs \<Longrightarrow> emits w outp strip m' bs'"
  by (simp add: emits_def)

lemma emits_int: "appending w outp \<Longrightarrow> emits w outp strip (DumpInt x) (le_bytes 4 x)"
  using emits_block by (simp add: DumpInt_def [abs_def])

lemma emits_char: "appending w outp \<Longrightarrow> emits w outp strip (DumpChar x) (le_bytes 1 x)"
  using emits_block by (simp add: DumpChar_def [abs_def])

lemma emits_string: "appending w outp \<Longrightarrow> emits w outp strip (DumpString s) (string_bytes s)"
  using emits_then [OF emits_block emits_block] by (cases s) (simp_all add: DumpString_def [abs_def] string_bytes_def emits_block)

lemma emits_constant:
  assumes app: "appending w outp"
  shows "emits w outp strip (DumpConstant k) (constant_bytes k)"
proof -
  note c = emits_char [OF app, of strip] and st = emits_string [OF app, of strip] and b = emits_block [OF app, of strip]
  show ?thesis
  proof (cases k rule: constant_bytes.cases)
    case 1
    show ?thesis by (rule emits_cong [OF emits_then [OF c st]], simp add: 1, simp add: 1)
  next
    case (2 x)
    show ?thesis by (rule emits_cong [OF emits_then [OF c c]], simp add: 2, simp add: 2)
  next
    case (3 n)
    show ?thesis by (rule emits_cong [OF emits_then [OF c b]], simp add: 3 DumpNumber_def, simp add: 3)
  next
    case (4 s)
    show ?thesis by (rule emits_cong [OF emits_then [OF c st]], simp add: 4, simp add: 4)
  qed (rule emits_cong [OF c], simp, simp)+
qed

lemma emits_vector: "appending w outp \<Longrightarrow> emits w outp strip (DumpVector xs sz) (le_bytes 4 (int (length xs)) @ concat (map (le_bytes sz) xs))"
  by (rule emits_cong [OF emits_then [OF emits_int emits_block]]) (simp_all add: DumpVector_def)

lemma emits_list:
  assumes "appending w outp" "\<And>x. x \<in> set xs \<Longrightarrow> emits w outp strip (m x) (b x)"
  shows "emits w outp strip (\<lambda>D. fold m xs (DumpInt (int (length xs)) D)) (list_bytes b xs)"
  unfolding list_bytes_def by (rule emits_then [OF emits_int [OF assms(1)] emits_fold]) (rule assms(2))

lemma emits_locvar: "appending w outp \<Longrightarrow> emits w outp strip (DumpLocVar v) (locvar_bytes v)"
  by (rule emits_cong [OF emits_then [OF emits_string emits_then [OF emits_int emits_int]]])
    (simp_all add: DumpLocVar_def locvar_bytes_def)

lemma emits_debug: "appending w outp \<Longrightarrow> emits w outp strip (DumpDebug f) (debug_bytes strip f)"
  by (rule emits_cong [OF emits_then [OF emits_vector emits_then [OF emits_list [OF _ emits_locvar] emits_list [OF _ emits_string]]]])
    (simp_all add: DumpDebug_def debug_bytes_def Let_def list_bytes_def)

lemma emits_function: "appending w outp \<Longrightarrow> emits w outp strip (DumpFunction p f) (function_bytes strip p f)"
proof (induction "size f" arbitrary: f p rule: less_induct)
  case less
  note app = less.prems
  note c = emits_char [OF app, of strip] and i = emits_int [OF app, of strip]
  have code: "emits w outp strip (DumpCode f) (list_bytes (\<lambda>i. le_bytes 4 (uint i)) (p_code f))"
    by (rule emits_cong [OF emits_vector [OF app, of strip "map uint (p_code f)" 4]])
      (simp_all add: DumpCode_def list_bytes_def comp_def)
  have ps: "emits w outp strip (DumpFunction (p_source f) q) (function_bytes strip (p_source f) q)" if "q \<in> set (p_p f)" for q
    by (rule less.hyps [OF inner_smaller [OF that] app])
  have ks: "emits w outp strip (DumpConstants (\<lambda>q. DumpFunction (p_source f) q) f)
      (list_bytes constant_bytes (p_k f) @ list_bytes (function_bytes strip (p_source f)) (p_p f))"
    by (rule emits_cong [OF emits_then [OF emits_list [OF app emits_constant [OF app]] emits_list [OF app ps]]])
      (simp_all add: DumpConstants_def)
  show ?case
    by (rule emits_cong [OF emits_then [OF emits_string [OF app] emits_then [OF i emits_then [OF i
        emits_then [OF c emits_then [OF c emits_then [OF c emits_then [OF c
        emits_then [OF code emits_then [OF ks emits_debug [OF app]]]]]]]]]]],
        simp add: DumpFunction.simps [of p f], simp add: function_bytes.simps [of strip p f] list_bytes_def)
qed

lemma dump_bytes:
  assumes "appending w outp"
  shows "fst (luaU_dump f w d strip) = 0 \<and> outp (snd (luaU_dump f w d strip)) = outp d @ luaU_header @ function_bytes strip None f"
  using emits_then [OF emits_block [OF assms, of strip luaU_header] emits_function [OF assms, of strip None f]]
  by (simp add: luaU_dump_def emits_def DumpHeader_def Let_def)

text \<open>An error of the writer ends the dump and is its result.\<close>

lemma dump_status: "d_status D \<noteq> 0 \<Longrightarrow> DumpBlock b D = D"
  by (simp add: DumpBlock_def)

subsection \<open>Loading the bytes\<close>

text \<open>With memory to spare, the action reads the bytes \<open>bs\<close> as \<open>x\<close>, from depth \<open>d\<close> to \<open>e\<close>.\<close>

definition loads :: "nat \<Rightarrow> nat \<Rightarrow> 'a load \<Rightarrow> bytes \<Rightarrow> 'a \<Rightarrow> bool" where
  "loads d e m bs x \<longleftrightarrow> (\<forall>S cs. load_ok S \<longrightarrow> ls_nCcalls S = d \<longrightarrow> (\<forall>n. ls_avail S n) \<longrightarrow> z_rest (ls_Z S) = bs @ cs \<longrightarrow>
     (\<exists>S'. m S = Inr (x, S') \<and> load_ok S' \<and> ls_nCcalls S' = e \<and> (\<forall>n. ls_avail S' n) \<and> z_rest (ls_Z S') = cs))"

lemma loadsE:
  assumes "loads d e m bs x" "load_ok S" "ls_nCcalls S = d" "\<forall>n. ls_avail S n" "z_rest (ls_Z S) = bs @ cs"
  obtains S' where "m S = Inr (x, S')" "load_ok S'" "ls_nCcalls S' = e" "\<forall>n. ls_avail S' n" "z_rest (ls_Z S') = cs"
  using assms unfolding loads_def by blast

lemma loads_ok: "loads d d (ok x) [] x"
  by (simp add: loads_def ok_def)

lemma loads_bind:
  assumes "loads d e m bs x" "loads e c (f x) cs y"
  shows "loads d c (bindl m f) (bs @ cs) y"
  unfolding loads_def
proof (intro allI impI)
  fix S ds assume S: "load_ok S" "ls_nCcalls S = d" "\<forall>n. ls_avail S n" "z_rest (ls_Z S) = (bs @ cs) @ ds"
  obtain S1 where S1: "m S = Inr (x, S1)" "load_ok S1" "ls_nCcalls S1 = e" "\<forall>n. ls_avail S1 n" "z_rest (ls_Z S1) = cs @ ds"
    by (rule loadsE [OF assms(1) S(1-3), of "cs @ ds"]) (simp add: S(4))
  obtain S2 where "f x S1 = Inr (y, S2)" "load_ok S2" "ls_nCcalls S2 = c" "\<forall>n. ls_avail S2 n" "z_rest (ls_Z S2) = ds"
    by (rule loadsE [OF assms(2) S1(2-5)])
  with S1 show "\<exists>S'. bindl m f S = Inr (y, S') \<and> load_ok S' \<and> ls_nCcalls S' = c \<and> (\<forall>n. ls_avail S' n) \<and> z_rest (ls_Z S') = ds"
    by (simp add: bindl_def)
qed

lemma loads_bind0: "loads d e m [] x \<Longrightarrow> loads e c (f x) cs y \<Longrightarrow> loads d c (bindl m f) cs y"
  using loads_bind [of d e m "[]" x c f cs y] by simp

lemma loads_map: "loads d e m bs x \<Longrightarrow> f x = ok y \<Longrightarrow> loads d e (bindl m f) bs y"
  using loads_bind [of d e m bs x e f "[]" y] loads_ok [of e y] by simp

lemma loads_vector: "loads d d (new_vector n sz) [] ()"
  by (simp add: loads_def new_vector_def)

lemma loads_block: "loads d d (LoadBlock (length bs)) bs bs"
  unfolding loads_def
proof (intro allI impI)
  fix S cs assume S: "load_ok S" "ls_nCcalls S = d" "\<forall>n. ls_avail S n" "z_rest (ls_Z S) = bs @ cs"
  obtain z where "luaZ_read (length bs) (ls_Z S) = Inr (bs, 0, z)" "z_ok z" "z_rest z = cs"
    using luaZ_read_spec [of "ls_Z S" "length bs"] S by (auto simp: load_ok_def)
  with S show "\<exists>S'. LoadBlock (length bs) S = Inr (bs, S') \<and> load_ok S' \<and> ls_nCcalls S' = d \<and> (\<forall>n. ls_avail S' n) \<and> z_rest (ls_Z S') = cs"
    by (simp add: LoadBlock_def load_ok_def)
qed

lemma loads_blockN: "n = length bs \<Longrightarrow> loads d d (LoadBlock n) bs bs"
  using loads_block by simp

lemma loads_char: "0 \<le> c \<Longrightarrow> c < 256 \<Longrightarrow> loads d d LoadChar (le_bytes 1 c) c"
  unfolding LoadChar_def by (rule loads_map [OF loads_blockN]) (simp_all only: length_le_bytes le_val_le_bytes, simp)

lemma loads_byte: "loads d d LoadByte (le_bytes 1 (uint b)) b"
  unfolding LoadByte_def
  by (rule loads_map [OF loads_char]) (use uint_lt2p [of b] in simp_all)

lemma loads_int: "n < 2 ^ 31 \<Longrightarrow> loads d d LoadInt (le_bytes 4 (int n)) n"
  unfolding LoadInt_def
  by (rule loads_map [OF loads_blockN]) (simp_all only: length_le_bytes le_val_le_bytes, simp add: signed32_def)

lemma loads_number: "loads d d LoadNumber (le_bytes 8 (uint n)) n"
proof -
  have "uint n < 2 ^ 64" using uint_lt2p [of n] by simp
  then show ?thesis
    unfolding LoadNumber_def
    by (intro loads_map [OF loads_blockN]) (simp_all only: length_le_bytes le_val_le_bytes, simp)
qed

fun string_fits :: "bytes option \<Rightarrow> bool" where
  "string_fits None = True" | "string_fits (Some b) = (length b + 1 < 2 ^ 64)"

lemma loads_string: "string_fits s \<Longrightarrow> loads d d LoadString (string_bytes s) s"
proof (cases s)
  case None
  show ?thesis
    unfolding None string_bytes_def LoadString_def Let_def
    by (simp only: option.case, rule loads_map [OF loads_blockN]) (simp_all only: length_le_bytes le_val_le_bytes, simp)
next
  case (Some b)
  assume "string_fits s"
  then have l: "length b + 1 < 2 ^ 64" using Some by simp
  have sp: "loads d d (\<lambda>S. case luaZ_openspace (ls_buffsize S) n of None \<Rightarrow> Inr ((), S)
     | Some n \<Rightarrow> bindl (new_vector n 1) (\<lambda>_ S. Inr ((), S\<lparr>ls_buffsize := n\<rparr>)) S) [] ()" for n
    by (auto simp: loads_def bindl_def new_vector_def load_ok_def split: option.splits)
  have "int (length b + 1) < 2 ^ 64" using l by (metis of_nat_less_iff of_nat_numeral of_nat_power)
  then have v: "nat (le_val (le_bytes 8 (int (length b + 1)))) = length b + 1" by (simp add: le_val_le_bytes)
  have "loads d d LoadString (le_bytes 8 (int (length b + 1)) @ [] @ (b @ [0])) (Some b)"
    unfolding LoadString_def
    by (rule loads_bind [OF loads_blockN], simp, simp only: v Let_def, simp only: if_False add_is_0 one_neq_zero simp_thms,
        rule loads_bind [OF sp], rule loads_map [OF loads_blockN], simp, simp)
  then show ?thesis by (simp add: Some string_bytes_def)
qed

fun const_fits :: "TValue option \<Rightarrow> bool" where
  "const_fits None = True" | "const_fits (Some LNil) = True" | "const_fits (Some (LBoolean b)) = True"
| "const_fits (Some (LNumber n)) = True" | "const_fits (Some (LString b)) = string_fits (Some b)" | "const_fits (Some v) = False"

lemma loads_constant:
  assumes "const_fits k"
  shows "loads d d LoadConstant (constant_bytes k) k"
proof -
  note ch = loads_char [of _ d] 
  note st = loads_string [of _ d]
  consider "k = None" | "k = Some LNil" | b where "k = Some (LBoolean b)" | n where "k = Some (LNumber n)"
    | b where "k = Some (LString b)" "string_fits (Some b)"
    using assms by (cases k rule: const_fits.cases) auto
  then show ?thesis
  proof cases
    case 1
    have "loads d d LoadConstant (le_bytes 1 4 @ string_bytes None) None"
      unfolding LoadConstant_def
      by (rule loads_bind [OF ch], simp, simp, simp, rule loads_map [OF st], simp, simp)
    then show ?thesis using 1 by simp
  next
    case 2
    have "loads d d LoadConstant (le_bytes 1 0) (Some LNil)"
      unfolding LoadConstant_def by (rule loads_map [OF ch]) simp_all
    then show ?thesis using 2 by simp
  next
    case (3 b)
    have "loads d d LoadConstant (le_bytes 1 1 @ le_bytes 1 c) (Some (LBoolean (c \<noteq> 0)))" if "0 \<le> c" "c < 256" for c
      unfolding LoadConstant_def
      by (rule loads_bind [OF ch], simp, simp, subst if_not_P, simp, subst if_P, rule refl,
          rule loads_map [OF ch], rule that, rule that, rule refl)
    from this [of "if b then 1 else 0"] show ?thesis using 3 by (cases b) simp_all
  next
    case (4 n)
    have "loads d d LoadConstant (le_bytes 1 3 @ le_bytes 8 (uint n)) (Some (LNumber n))"
      unfolding LoadConstant_def
      by (rule loads_bind [OF ch], simp, simp, simp, rule loads_map [OF loads_number], simp)
    then show ?thesis using 4 by simp
  next
    case (5 b)
    have "loads d d LoadConstant (le_bytes 1 4 @ string_bytes (Some b)) (Some (LString b))"
      unfolding LoadConstant_def
      by (rule loads_bind [OF ch], simp, simp, simp, rule loads_map [OF st], rule 5, simp)
    then show ?thesis using 5 by simp
  qed
qed

lemma loads_times:
  "(\<And>x. x \<in> set xs \<Longrightarrow> loads d d m (b x) (g x)) \<Longrightarrow> loads d d (times (length xs) m) (concat (map b xs)) (map g xs)"
proof (induction xs)
  case (Cons x xs)
  have "loads d d (times (length xs) m) (concat (map b xs)) (map g xs)" by (rule Cons.IH) (simp add: Cons.prems)
  then have t: "loads d d (bindl (times (length xs) m) (\<lambda>ys. ok (g x # ys))) (concat (map b xs)) (map g (x # xs))"
    by (rule loads_map) simp
  have "loads d d (bindl m (\<lambda>x. bindl (times (length xs) m) (\<lambda>ys. ok (x # ys)))) (b x @ concat (map b xs)) (map g (x # xs))"
    by (rule loads_bind [OF Cons.prems]) (simp, rule t)
  then show ?case by simp
qed (use loads_ok in simp)

text \<open>A list with its size.\<close>

lemma loads_list:
  assumes "length xs < 2 ^ 31" "\<And>x. x \<in> set xs \<Longrightarrow> loads d d m (b x) (g x)" "loads d e (f (map g xs)) cs y"
  shows "loads d e (bindl LoadInt (\<lambda>n. bindl (new_vector n sz) (\<lambda>_. bindl (times n m) f))) (list_bytes b xs @ cs) y"
proof -
  have "loads d e (bindl (times (length xs) m) f) (concat (map b xs) @ cs) y"
    by (rule loads_bind, rule loads_times, rule assms(2), assumption, rule assms(3))
  then show ?thesis
    unfolding list_bytes_def append_assoc
    by (intro loads_bind [OF loads_int [OF assms(1)]] loads_bind0 [OF loads_vector])
qed

lemma chunks_concat: "chunks sz (length xs) (concat (map (le_bytes sz) xs)) = map (\<lambda>x. x mod 256 ^ sz) xs"
  by (induction xs) (simp_all add: le_val_le_bytes)

lemma length_concat_le [simp]: "length (concat (map (le_bytes sz) xs)) = length xs * sz"
  by (induction xs) simp_all

lemma loads_ints:
  assumes "length xs < 2 ^ 31" "loads d e (f (map (\<lambda>x. x mod 2 ^ 32) xs)) cs y"
  shows "loads d e (bindl LoadInt (\<lambda>n. bindl (new_vector n sz) (\<lambda>_. bindl (LoadVector n 4) f))) (list_bytes (le_bytes 4) xs @ cs) y"
proof -
  have "loads d d (LoadVector (length xs) 4) (concat (map (le_bytes 4) xs)) (map (\<lambda>x. x mod 2 ^ 32) xs)"
    unfolding LoadVector_def by (rule loads_map [OF loads_blockN]) (simp_all add: chunks_concat)
  from loads_bind [OF this, of e f, OF assms(2)]
  have "loads d e (bindl (new_vector (length xs) sz) (\<lambda>_. bindl (LoadVector (length xs) 4) f)) (concat (map (le_bytes 4) xs) @ cs) y"
    by (rule loads_bind0 [OF loads_vector])
  then show ?thesis
    unfolding list_bytes_def append_assoc by (rule loads_bind [OF loads_int [OF assms(1)]])
qed

lemma loads_code:
  assumes "length c < 2 ^ 31"
  shows "loads d d LoadCode (list_bytes (\<lambda>i. le_bytes 4 (uint i)) c) c"
proof -
  have u: "uint x mod 2 ^ 32 = uint x" for x :: "32 word" using uint_lt2p [of x] by simp
  have m: "(\<lambda>x. word_of_int (x mod 2 ^ 32) :: 32 word) \<circ> uint = id" by (simp only: fun_eq_iff u comp_apply word_of_int_uint id_apply simp_thms)
  have "loads d d LoadCode (list_bytes (le_bytes 4) (map uint c) @ []) c"
    unfolding LoadCode_def
    by (rule loads_ints) (use assms m loads_ok [of d c] in \<open>simp_all add: comp_def id_def\<close>)
  then show ?thesis by (simp add: list_bytes_def comp_def)
qed

definition nat31 :: "int \<Rightarrow> bool" where "nat31 x \<longleftrightarrow> 0 \<le> x \<and> x < 2 ^ 31"

lemma loads_int': "nat31 x \<Longrightarrow> loads d d LoadInt (le_bytes 4 x) (nat x)"
  using loads_int [of "nat x" d] by (simp add: nat31_def nat_less_iff)

lemma loads_locvar:
  assumes "string_fits (lv_varname v)" "nat31 (lv_startpc v)" "nat31 (lv_endpc v)"
  shows "loads d d LoadLocVar (locvar_bytes v) v"
  unfolding LoadLocVar_def locvar_bytes_def
  by (rule loads_bind [OF loads_string [OF assms(1)]], rule loads_bind [OF loads_int' [OF assms(2)]],
      rule loads_map [OF loads_int' [OF assms(3)]]) (use assms in \<open>cases v; simp add: nat31_def\<close>)

definition debug_fits :: "Proto \<Rightarrow> bool" where
  "debug_fits f \<longleftrightarrow> length (p_lineinfo f) < 2 ^ 31 \<and> length (p_locvars f) < 2 ^ 31 \<and> length (p_upvalues f) < 2 ^ 31 \<and>
     (\<forall>x \<in> set (p_lineinfo f). - (2 ^ 31) \<le> x \<and> x < 2 ^ 31) \<and> (\<forall>u \<in> set (p_upvalues f). string_fits u) \<and>
     (\<forall>v \<in> set (p_locvars f). string_fits (lv_varname v) \<and> nat31 (lv_startpc v) \<and> nat31 (lv_endpc v))"

lemma signed32_mod: "- (2 ^ 31) \<le> x \<Longrightarrow> x < 2 ^ 31 \<Longrightarrow> signed32 (x mod 2 ^ 32) = x"
proof (cases "0 \<le> x")
  case False
  assume "- (2 ^ 31) \<le> x" "x < 2 ^ 31"
  then have "x mod 2 ^ 32 = x + 2 ^ 32" using False by (intro int_mod_pos_eq [of _ _ "- 1"]) auto
  with \<open>- (2 ^ 31) \<le> x\<close> show ?thesis by (simp add: signed32_def)
qed (simp add: signed32_def)

lemma loads_debug:
  assumes "strip \<or> debug_fits f"
  shows "loads d d LoadDebug (debug_bytes strip f)
    (if strip then ([], [], []) else (p_lineinfo f, p_locvars f, p_upvalues f))"
proof -
  define lines vars ups where l: "lines = (if strip then [] else p_lineinfo f)" "vars = (if strip then [] else p_locvars f)"
    "ups = (if strip then [] else p_upvalues f)"
  have f: "length lines < 2 ^ 31" "length vars < 2 ^ 31" "length ups < 2 ^ 31"
    "\<And>x. x \<in> set lines \<Longrightarrow> - (2 ^ 31) \<le> x \<and> x < 2 ^ 31" "\<And>u. u \<in> set ups \<Longrightarrow> string_fits u"
    "\<And>v. v \<in> set vars \<Longrightarrow> string_fits (lv_varname v) \<and> nat31 (lv_startpc v) \<and> nat31 (lv_endpc v)"
    using assms by (auto simp: l debug_fits_def split: if_splits)
  have sl: "map signed32 (map (\<lambda>x. x mod 2 ^ 32) lines) = lines"
    unfolding map_map by (rule map_idI) (use f(4) signed32_mod in simp)
  have "loads d d LoadDebug (list_bytes (le_bytes 4) lines @ list_bytes locvar_bytes vars @ list_bytes string_bytes ups @ []) (lines, vars, ups)"
    unfolding LoadDebug_def
    by (rule loads_ints [OF f(1)], rule loads_list [OF f(2), where g = id], simp add: loads_locvar f(6),
        rule loads_list [OF f(3), where g = id], simp add: loads_string f(5), unfold sl, simp add: loads_ok)
  then show ?thesis by (cases strip) (simp_all add: l debug_bytes_def)
qed

text \<open>What is loaded: with \<open>strip\<close>, the prototype without debug information.\<close>

function stripped :: "bytes option \<Rightarrow> Proto \<Rightarrow> Proto" where
  "stripped q f = Proto (p_k f) (p_code f) (map (stripped q) (p_p f)) [] [] [] q
     (p_linedefined f) (p_lastlinedefined f) (p_nups f) (p_numparams f) (p_is_vararg f) (p_maxstacksize f)"
  by pat_completeness auto
termination
  by (relation "measure (\<lambda>(q, f). size f)") (auto simp: inner_smaller)

declare stripped.simps [simp del]

definition loaded :: "bool \<Rightarrow> bytes option \<Rightarrow> Proto \<Rightarrow> Proto" where
  "loaded strip q f = (if strip then stripped q f else f)"

text \<open>The prototypes that a chunk can hold, at a depth of \<open>d\<close> calls.\<close>

inductive fits :: "bool \<Rightarrow> bytes option \<Rightarrow> nat \<Rightarrow> Proto \<Rightarrow> bool" for strip q where
  "d < LUAI_MAXCCALLS \<Longrightarrow> length (p_code f) < 2 ^ 31 \<Longrightarrow> length (p_k f) < 2 ^ 31 \<Longrightarrow> length (p_p f) < 2 ^ 31 \<Longrightarrow>
   nat31 (p_linedefined f) \<Longrightarrow> nat31 (p_lastlinedefined f) \<Longrightarrow> \<forall>k \<in> set (p_k f). const_fits k \<Longrightarrow>
   strip \<or> p_source f \<noteq> None \<and> string_fits (p_source f) \<Longrightarrow> strip \<or> debug_fits f \<Longrightarrow>
   luaG_checkcode (loaded strip q f) = Inr True \<Longrightarrow> \<forall>g \<in> set (p_p f). fits strip q (Suc d) g \<Longrightarrow> fits strip q d f"

inductive_cases fitsE: "fits strip q d f"

lemma loads_function:
  "fits strip q d f \<Longrightarrow> (if strip then r = q else p_source f = p \<longrightarrow> r = p) \<Longrightarrow> 0 < fuel \<Longrightarrow> LUAI_MAXCCALLS < fuel + d \<Longrightarrow>
    loads d d (LoadFunction fuel r) (function_bytes strip p f) (loaded strip q f)"
proof (induction fuel arbitrary: d f p r)
  case (Suc fuel)
  from Suc.prems(1) have fit: "d < LUAI_MAXCCALLS" "length (p_code f) < 2 ^ 31" "length (p_k f) < 2 ^ 31" "length (p_p f) < 2 ^ 31"
    "nat31 (p_linedefined f)" "nat31 (p_lastlinedefined f)" "\<forall>k \<in> set (p_k f). const_fits k"
    "strip \<or> p_source f \<noteq> None \<and> string_fits (p_source f)" "strip \<or> debug_fits f"
    "luaG_checkcode (loaded strip q f) = Inr True" "\<forall>g \<in> set (p_p f). fits strip q (Suc d) g"
    by (auto elim: fitsE)
  define src where "src = (if p_source f = p \<or> strip then None else p_source f)"
  define src' where "src' = (if src = None then r else src)"
  have src: "src' = (if strip then q else p_source f)"
    using Suc.prems(2) fit(8) by (auto simp: src_def src'_def split: if_splits)
  define m where "m = (\<lambda>src. let source = (if src = None then r else src) in
     bindl LoadInt (\<lambda>linedefined. bindl LoadInt (\<lambda>lastlinedefined.
     bindl LoadByte (\<lambda>nups. bindl LoadByte (\<lambda>numparams. bindl LoadByte (\<lambda>is_vararg. bindl LoadByte (\<lambda>maxstacksize.
     bindl LoadCode (\<lambda>code.
     bindl (LoadConstants (LoadFunction fuel source)) (\<lambda>(k, ps).
     bindl LoadDebug (\<lambda>(lineinfo, locvars, upvalues).
     let f = Proto k code ps lineinfo locvars upvalues source (int linedefined) (int lastlinedefined)
               nups numparams is_vararg maxstacksize in
     case luaG_checkcode f of
       Inl e \<Rightarrow> fail LoadCrash
     | Inr good \<Rightarrow> if \<not> good then load_error (str ''bad code'')
         else (\<lambda>S. Inr (f, S\<lparr>ls_nCcalls := ls_nCcalls S - 1\<rparr>))))))))))))"
  have inner: "loads (Suc d) (Suc d) (LoadFunction fuel src') (function_bytes strip (p_source f) g) (loaded strip q g)"
    if "g \<in> set (p_p f)" for g
    by (rule Suc.IH) (use that fit Suc.prems(3,4) in \<open>auto simp: src\<close>)
  have ks: "loads (Suc d) (Suc d) (LoadConstants (LoadFunction fuel src'))
      (list_bytes constant_bytes (p_k f) @ list_bytes (function_bytes strip (p_source f)) (p_p f) @ [])
      (p_k f, map (loaded strip q) (p_p f))"
    unfolding LoadConstants_def
    by (rule loads_list [OF fit(3), where g = id], simp add: loads_constant fit(7),
        rule loads_list [OF fit(4), where g = "loaded strip q"], erule inner, simp add: loads_ok)
  have lf: "Proto (p_k f) (p_code f) (map (loaded strip q) (p_p f)) (if strip then [] else p_lineinfo f)
      (if strip then [] else p_locvars f) (if strip then [] else p_upvalues f) src' (p_linedefined f) (p_lastlinedefined f)
      (p_nups f) (p_numparams f) (p_is_vararg f) (p_maxstacksize f) = loaded strip q f"
    by (cases strip; cases f) (simp_all add: loaded_def [abs_def] src stripped.simps [of q "Proto _ _ _ _ _ _ _ _ _ _ _ _ _"])
  have ints: "int (nat (p_linedefined f)) = p_linedefined f" "int (nat (p_lastlinedefined f)) = p_lastlinedefined f"
    using fit(5,6) by (simp_all add: nat31_def)
  have fin: "loads (Suc d) d (\<lambda>S. Inr (loaded strip q f, S\<lparr>ls_nCcalls := ls_nCcalls S - 1\<rparr>)) [] (loaded strip q f)"
    by (simp add: loads_def load_ok_def)
  have "loads (Suc d) d (m src) (le_bytes 4 (p_linedefined f) @ le_bytes 4 (p_lastlinedefined f) @
     le_bytes 1 (uint (p_nups f)) @ le_bytes 1 (uint (p_numparams f)) @
     le_bytes 1 (uint (p_is_vararg f)) @ le_bytes 1 (uint (p_maxstacksize f)) @
     list_bytes (\<lambda>i. le_bytes 4 (uint i)) (p_code f) @
     (list_bytes constant_bytes (p_k f) @ list_bytes (function_bytes strip (p_source f)) (p_p f) @ []) @
     debug_bytes strip f @ []) (loaded strip q f)"
    unfolding m_def Let_def src'_def [symmetric]
    apply (rule loads_bind [OF loads_int' [OF fit(5)]], rule loads_bind [OF loads_int' [OF fit(6)]])
    apply (rule loads_bind [OF loads_byte], rule loads_bind [OF loads_byte], rule loads_bind [OF loads_byte], rule loads_bind [OF loads_byte])
    apply (rule loads_bind [OF loads_code [OF fit(2)]], rule loads_bind [OF ks], unfold prod.case)
    apply (rule loads_bind [OF loads_debug [OF fit(9)]])
    using fin fit(10) lf ints by (cases strip) simp_all
  moreover have "loads (Suc d) (Suc d) LoadString (string_bytes src) src"
    by (rule loads_string) (use fit(8) in \<open>auto simp: src_def\<close>)
  ultimately have "loads (Suc d) d (bindl LoadString m) (string_bytes src @ (le_bytes 4 (p_linedefined f) @ le_bytes 4 (p_lastlinedefined f) @
     le_bytes 1 (uint (p_nups f)) @ le_bytes 1 (uint (p_numparams f)) @
     le_bytes 1 (uint (p_is_vararg f)) @ le_bytes 1 (uint (p_maxstacksize f)) @
     list_bytes (\<lambda>i. le_bytes 4 (uint i)) (p_code f) @
     (list_bytes constant_bytes (p_k f) @ list_bytes (function_bytes strip (p_source f)) (p_p f) @ []) @
     debug_bytes strip f @ [])) (loaded strip q f)" by (intro loads_bind)
  then have body: "loads (Suc d) d (bindl LoadString m) (function_bytes strip p f) (loaded strip q f)"
    by (simp add: function_bytes.simps [of strip p f] src_def list_bytes_def)
  show ?case
    unfolding loads_def
  proof (intro allI impI)
    fix S cs assume S: "load_ok S" "ls_nCcalls S = d" "\<forall>n. ls_avail S n" "z_rest (ls_Z S) = function_bytes strip p f @ cs"
    let ?S = "S\<lparr>ls_nCcalls := ls_nCcalls S + 1\<rparr>"
    have "LoadFunction (Suc fuel) r S = bindl LoadString m ?S" using S(2) fit(1) by (simp add: m_def Let_def)
    moreover obtain S' where "bindl LoadString m ?S = Inr (loaded strip q f, S')" "load_ok S'" "ls_nCcalls S' = d"
      "\<forall>n. ls_avail S' n" "z_rest (ls_Z S') = cs"
      by (rule loadsE [OF body, of ?S cs]) (use S in \<open>simp_all add: load_ok_def\<close>)
    ultimately show "\<exists>S'. LoadFunction (Suc fuel) r S = Inr (loaded strip q f, S') \<and> load_ok S' \<and> ls_nCcalls S' = d \<and>
      (\<forall>n. ls_avail S' n) \<and> z_rest (ls_Z S') = cs" by metis
  qed
qed simp

lemma loads_header: "loads d d LoadHeader luaU_header ()"
  unfolding LoadHeader_def
  by (rule loads_map [OF loads_blockN]) (simp_all add: luaU_header_def LUA_SIGNATURE_def LUAC_HEADERSIZE_def)

lemma safe_header: "safe d d LoadHeader (\<lambda>_. True)"
  unfolding LoadHeader_def by (rule safe_bind [OF safe_block]) (auto intro: safe_error safe_ok)

end
