(* ===== verification/Chunk_Props.thy ===== *)
theory Chunk_Props
  imports Lua_Chunk_Props
begin

text \<open>What the precompiled chunks component promises, with small prototypes on which the hypotheses hold.\<close>

subsection \<open>Instructions\<close>

lemma create_ABC:
  assumes "opn < 64" "0 \<le> a" "a \<le> 255" "0 \<le> b" "b \<le> 511" "0 \<le> c" "c \<le> 511"
  shows "GET_OPNUM (CREATE_ABC opn a b c) = opn" "GETARG_A (CREATE_ABC opn a b c) = a"
    "GETARG_B (CREATE_ABC opn a b c) = b" "GETARG_C (CREATE_ABC opn a b c) = c"
proof -
  have tn: "take_bit n (of_nat x :: 32 word) = of_nat x" if "x < 2 ^ n" "n \<le> 32" for n x
  proof -
    have "x < 2 ^ 32" by (rule less_le_trans [OF that(1) power_increasing [OF that(2)]]) simp
    with that show ?thesis
      by (intro word_unat_eq_iff [THEN iffD2])
        (simp add: unsigned_take_bit_eq unsigned_of_nat take_bit_take_bit min_def take_bit_nat_eq_self)
  qed
  have ti: "take_bit n (word_of_int x :: 32 word) = word_of_int x" if "0 \<le> x" "x < 2 ^ n" "n \<le> 32" for n x
  proof -
    have "x < 2 ^ 32" by (rule less_le_trans [OF that(2) power_increasing [OF that(3)]]) simp
    with that show ?thesis
      by (intro word_uint_eq_iff [THEN iffD2])
        (simp add: unsigned_take_bit_eq uint_word_of_int_eq take_bit_take_bit min_def take_bit_int_eq_self)
  qed
  have u: "uint (word_of_int x :: 32 word) = x" if "0 \<le> x" "x < 2 ^ 32" for x
    using that by (simp add: uint_word_of_int_eq take_bit_int_eq_self)
  have n: "unat (of_nat x :: 32 word) = x" if "x < 2 ^ 32" for x
    using that by (simp add: unsigned_of_nat take_bit_nat_eq_self)
  have "CREATE_ABC opn a b c = of_nat opn OR push_bit 6 (word_of_int a) OR push_bit 23 (word_of_int b) OR push_bit 14 (word_of_int c)"
    by (simp add: CREATE_ABC_def field_defs)
  with field_create(1) [OF tn ti ti ti, of opn a b c] assms u [of a] u [of b] u [of c] n [of opn]
  show "GET_OPNUM (CREATE_ABC opn a b c) = opn" "GETARG_A (CREATE_ABC opn a b c) = a"
    "GETARG_B (CREATE_ABC opn a b c) = b" "GETARG_C (CREATE_ABC opn a b c) = c"
    by (simp_all add: get_field)
qed

text \<open>
  The fields of an instruction do not overlap. An instruction that \<^verbatim>\<open>CREATE_ABC\<close> builds from operands within
  their limits gives them back; writing one field with a \<^verbatim>\<open>SETARG\<close> macro makes it readable and keeps the others.
\<close>

lemma instruction_fields:
  assumes "opn < 64" "0 \<le> a" "a \<le> MAXARG_A" "0 \<le> b" "b \<le> MAXARG_B" "0 \<le> c" "c \<le> MAXARG_C"
  shows "(let i = CREATE_ABC opn a b c in GET_OPNUM i = opn \<and> GETARG_A i = a \<and> GETARG_B i = b \<and> GETARG_C i = c) \<and>
    GETARG_A (SETARG_A a i) = a \<and> GETARG_B (SETARG_A a i) = GETARG_B i \<and> GETARG_C (SETARG_A a i) = GETARG_C i \<and>
    GETARG_B (SETARG_B b i) = b \<and> GETARG_A (SETARG_B b i) = GETARG_A i \<and> GETARG_C (SETARG_B b i) = GETARG_C i \<and>
    GETARG_C (SETARG_C c i) = c \<and> GETARG_A (SETARG_C c i) = GETARG_A i \<and> GETARG_B (SETARG_C c i) = GETARG_B i \<and>
    GET_OPNUM (SETARG_A a i) = GET_OPNUM i \<and> GET_OPNUM (SET_OPNUM opn i) = opn \<and> GETARG_Bx (SET_OPNUM opn i) = GETARG_Bx i"
proof -
  have u: "uint (take_bit n (word_of_int x :: 32 word)) = x" if "0 \<le> x" "x < 2 ^ n" "n \<le> 32" for n x
    by (rule uint_take_bit_of_int [OF that])
  have 1: "let i = CREATE_ABC opn a b c in GET_OPNUM i = opn \<and> GETARG_A i = a \<and> GETARG_B i = b \<and> GETARG_C i = c"
    using create_ABC [of opn a b c] assms by (simp add: Let_def)
  have 2: "uint (take_bit 8 (word_of_int a :: 32 word)) = a" "uint (take_bit 9 (word_of_int b :: 32 word)) = b"
    "uint (take_bit 9 (word_of_int c :: 32 word)) = c" "unat (take_bit 6 (of_nat opn :: 32 word)) = opn"
    using u [of a 8] u [of b 9] u [of c 9] unat_take_bit_of_nat [of opn 6] assms by simp_all
  show ?thesis
    by (intro conjI 1) (simp_all add: get_field put_field field_put_same field_put_other 2)
qed

subsection \<open>The code checker\<close>

text \<open>
  C14. The symbolic execution is memory-safe and total on every prototype, however corrupt its code: run for any register up to any
  position within the code, it returns, and never reads an instruction, a constant or an inner function outside its array.
\<close>

theorem symbexec_is_safe:
  assumes "lastpc \<le> sizecode pt"
  shows "(\<exists>i. symbexec pt lastpc reg = Inr i) \<and> (\<exists>b. luaG_checkcode pt = Inr b)"
  using symbexec_safe [OF assms] checkcode_safe by blast

definition demo_proto :: "Instruction list \<Rightarrow> Proto" where
  "demo_proto c = Proto [Some (LNumber 0), Some (LString (str ''x''))] c [] [] [] [] (Some (str ''@a'')) 0 0 0 0 0 2"

lemma demo_proto_sel [simp]:
  "p_code (demo_proto c) = c" "p_p (demo_proto c) = []" "p_maxstacksize (demo_proto c) = 2" "p_nups (demo_proto c) = 0"
  "p_numparams (demo_proto c) = 0" "p_is_vararg (demo_proto c) = 0" "p_lineinfo (demo_proto c) = []" "p_upvalues (demo_proto c) = []"
  "p_k (demo_proto c) = [Some (LNumber 0), Some (LString (str ''x''))]" "p_locvars (demo_proto c) = []"
  "p_source (demo_proto c) = Some (str ''@a'')" "p_linedefined (demo_proto c) = 0" "p_lastlinedefined (demo_proto c) = 0"
  "sizecode (demo_proto c) = int (length c)"
  by (simp_all add: demo_proto_def sizecode_def)

theorem symbexec_is_safe_witness: "\<exists>i. symbexec (demo_proto [0, 7]) 1 0 = Inr i"
  using symbexec_is_safe [of 1 "demo_proto [0, 7]" 0] by simp

definition RET :: Instruction where "RET = CREATE_ABC 30 0 1 0"

definition LOADBOOL :: "int \<Rightarrow> Instruction" where "LOADBOOL c = CREATE_ABC 2 0 0 c"

lemma demo_instr [simp]:
  "GET_OPCODE RET = Some OP_RETURN" "GETARG_A RET = 0" "GETARG_B RET = 1" "GETARG_C RET = 0"
  "c \<in> {1, 2} \<Longrightarrow> GET_OPCODE (LOADBOOL c) = Some OP_LOADBOOL" "c \<in> {1, 2} \<Longrightarrow> GETARG_A (LOADBOOL c) = 0"
  "c \<in> {1, 2} \<Longrightarrow> GETARG_B (LOADBOOL c) = 0" "c \<in> {1, 2} \<Longrightarrow> GETARG_C (LOADBOOL c) = c"
  using create_ABC [of 30 0 1 0] create_ABC [of 2 0 0 c]
  by (auto simp: RET_def LOADBOOL_def GET_OPCODE_def NUM_OPCODES_def opcodes_def)

lemma RET_nonzero: "RET \<noteq> 0"
proof
  assume "RET = 0"
  then have "GETARG_B 0 = 1" using demo_instr(3) by simp
  then show False by (simp add: GETARG_B_def)
qed

lemmas run_check = luaG_checkcode_def symbexec_def precheck_def symbexec_step_def check_operands_def check_op_def
  check_def check_at_def at_index_def getOpMode_def getBMode_def getCMode_def testAMode_def testTMode_def opmode_def
  checkreg_def MAXSTACK_def setlist0_def

lemma symbexec_loop_numeral: "symbexec_loop pt lastpc reg (numeral n) pc lst =
   (if pc < lastpc
    then sum_bind (symbexec_step pt lastpc reg pc lst) (\<lambda>r. case r of
           None \<Rightarrow> Inr None
         | Some (pc', lst') \<Rightarrow> symbexec_loop pt lastpc reg (pred_numeral n) (pc' + 1) lst')
    else Inr (Some lst))"
  by (simp add: numeral_eq_Suc)

lemma demo_checked: "luaG_checkcode (demo_proto [LOADBOOL 1, RET, RET]) = Inr True"
  using RET_nonzero by (simp add: run_check symbexec_loop_numeral)

lemma demo_unchecked: "luaG_checkcode (demo_proto [LOADBOOL 2, RET]) = Inr True"
  using RET_nonzero by (simp add: run_check symbexec_loop_numeral)

lemma demo_loadbool: "loadbool_ok (demo_proto [LOADBOOL 1, RET, RET])"
  by (simp add: loadbool_ok_def)

text \<open>
  C15. In code that the checker accepts and whose \<^verbatim>\<open>LOADBOOL\<close> instructions have a flag for operand C, control stays in the code. From the first instruction, every position that execution can
  reach, along jumps, skips, loops and the multi-word instructions, lies inside the code and is the start of an instruction, never
  the data word of a \<^verbatim>\<open>SETLIST\<close>; the instruction there has a valid operation code, its register A is inside
  the frame, and its other operands are within the limits of their modes. This holds of code in which operand C of every \<^verbatim>\<open>LOADBOOL\<close> is
  0 or 1 (\<open>loadbool_ok\<close>), as the compiler writes it; the checker does not test this, and the next theorem shows accepted code with
  another operand that leaves the code.
\<close>

theorem checked_code_is_closed:
  assumes "luaG_checkcode pt = Inr True" "loadbool_ok pt" "reached pt pc"
  shows "0 \<le> pc \<and> pc < sizecode pt \<and> starts (p_code pt) (nat pc) \<and>
    (\<exists>opn. GET_OPCODE (p_code pt ! nat pc) = Some opn \<and> GETARG_A (p_code pt ! nat pc) < uint (p_maxstacksize pt) \<and>
       operands_ok pt pc opn (p_code pt ! nat pc))"
proof -
  have c: "in_code pt pc" by (rule reached_in_code [OF assms])
  then have p: "starts (p_code pt) (nat pc)" "int (nat pc) < sizecode pt" "int (nat pc) = pc" "0 \<le> pc" by (simp_all add: in_code_def)
  obtain opn where "GET_OPCODE (p_code pt ! nat pc) = Some opn" "checkreg pt (GETARG_A (p_code pt ! nat pc))"
    "operands_ok pt (int (nat pc)) opn (p_code pt ! nat pc)" by (rule checked [OF assms(1) p(1,2)])
  with c p(3,4) show ?thesis by (simp add: in_code_def checkreg_def)
qed

theorem checked_code_is_closed_witness:
  "2 < sizecode (demo_proto [LOADBOOL 1, RET, RET]) \<and> starts (p_code (demo_proto [LOADBOOL 1, RET, RET])) 2"
proof -
  have "reached (demo_proto [LOADBOOL 1, RET, RET]) 2"
    by (rule reached.flow [OF reached.entry]) (simp add: succs_def testTMode_def opmode_def)
  from checked_code_is_closed [OF demo_checked demo_loadbool this] show ?thesis by simp
qed

text \<open>
  C31. The checker overlooks a \<^verbatim>\<open>LOADBOOL\<close> whose third operand is neither 0 nor 1. The virtual machine skips an instruction for every
  operand other than 0, the checker tests for 1 only; so it accepts code whose execution runs past the end.
\<close>

theorem checker_misses_loadbool:
  "\<exists>pt. luaG_checkcode pt = Inr True \<and> reached pt (sizecode pt)"
proof (intro exI conjI)
  show "luaG_checkcode (demo_proto [LOADBOOL 2, RET]) = Inr True" by (rule demo_unchecked)
  show "reached (demo_proto [LOADBOOL 2, RET]) (sizecode (demo_proto [LOADBOOL 2, RET]))"
    by (rule reached.flow [OF reached.entry]) (simp add: succs_def testTMode_def opmode_def)
qed

subsection \<open>Streams and chunks\<close>

text \<open>
  C32. Buffered input is the flat stream of its blocks: however the reader cuts its data into blocks, \<open>luaZ_read\<close> delivers the
  next \<open>n\<close> bytes of the concatenation and the number of bytes that are missing, goes on behind them, and never copies more than its buffer holds.
\<close>

theorem zio_is_flat:
  assumes "z_n z = length (z_p z)"
  shows "\<exists>z'. luaZ_read n z = Inr (take n (z_rest z), n - length (z_rest z), z') \<and> z_n z' = length (z_p z') \<and>
    (n \<le> length (z_rest z) \<longrightarrow> z_rest z' = drop n (z_rest z))"
  using luaZ_read_spec [of z n] assms by (simp add: z_ok_def)

theorem zio_is_flat_witness:
  "\<exists>z'. luaZ_read 3 (luaZ_init [[1, 2], [3, 4], [], [5]]) = Inr ([1, 2, 3], 0, z') \<and> z_rest z' = [4]"
proof -
  let ?z = "luaZ_init [[1, 2], [3, 4], [], [5]]"
  have "z_n ?z = length (z_p ?z)" by (simp add: luaZ_init_def)
  from zio_is_flat [OF this, of 3] show ?thesis by auto
qed

text \<open>
  C13. Loading is safe on every input: \<open>luaU_undump\<close> on any stream, with an allocator that may refuse, ends with a message (a bad header,
  an unexpected end, a bad integer, a bad constant, bad code, too deep), with "not enough memory", or with a prototype all of whose functions, at every
  depth, have passed the code checker. It does not exceed its recursion bound and never reads outside a buffer.
\<close>

theorem undump_is_safe:
  "case luaU_undump avail nCcalls (luaZ_init reader) buffsize name of
      Inl e \<Rightarrow> (\<exists>m. e = SyntaxError m) \<or> e = NoMemory
    | Inr (f, S) \<Rightarrow> verified f \<and> ls_nCcalls S = nCcalls"
proof -
  have s: "safe nCcalls nCcalls (bindl LoadHeader (\<lambda>_. LoadFunction (LUAI_MAXCCALLS + 1) (Some (str ''=?'')))) verified"
    by (rule safe_bind [OF safe_header], rule safe_function) simp_all
  show ?thesis
    unfolding luaU_undump_def
    by (rule safeE [OF s, of "\<lparr>ls_Z = luaZ_init reader, ls_buffsize = buffsize, ls_name = chunk_name name, ls_nCcalls = nCcalls, ls_avail = avail\<rparr>"])
      (auto simp: load_ok_def elim: reported.elims)
qed

text \<open>
  C16. A dump is loaded as it was: for every writer that stores what it is given, \<open>luaU_dump\<close> succeeds, and \<open>luaU_undump\<close> on the stored bytes,
  cut into blocks in any way and followed by anything, gives the prototype back; with \<open>strip\<close>, without its debug information and
  with the source "=?". The prototype must fit the format, and its depth the limit on nested calls.
\<close>

theorem undump_dump:
  assumes "appending w outp" "fits strip (Some (str ''=?'')) n f" "outp d = []"
    and "concat (takeWhile (\<lambda>b. b \<noteq> []) blocks) = outp (snd (luaU_dump f w d strip)) @ cs"
    and "\<forall>m. avail m"
  shows "fst (luaU_dump f w d strip) = 0 \<and>
    (\<exists>S. luaU_undump avail n (luaZ_init blocks) buffsize name = Inr (if strip then stripped (Some (str ''=?'')) f else f, S) \<and>
       z_rest (ls_Z S) = cs)"
proof -
  note d = dump_bytes [OF assms(1), of f d strip]
  have r: "if strip then Some (str ''=?'') = Some (str ''=?'') else p_source f = None \<longrightarrow> Some (str ''=?'') = None"
    using assms(2) by (auto elim: fitsE)
  have "loads n n (bindl LoadHeader (\<lambda>_. LoadFunction (LUAI_MAXCCALLS + 1) (Some (str ''=?''))))
      (luaU_header @ function_bytes strip None f) (loaded strip (Some (str ''=?'')) f)"
    by (rule loads_bind [OF loads_header], rule loads_function [OF assms(2) r]) simp_all
  then obtain S where "bindl LoadHeader (\<lambda>_. LoadFunction (LUAI_MAXCCALLS + 1) (Some (str ''=?'')))
      \<lparr>ls_Z = luaZ_init blocks, ls_buffsize = buffsize, ls_name = chunk_name name, ls_nCcalls = n, ls_avail = avail\<rparr> =
      Inr (loaded strip (Some (str ''=?'')) f, S)" "z_rest (ls_Z S) = cs"
    by (rule loadsE [where S = "\<lparr>ls_Z = luaZ_init blocks, ls_buffsize = buffsize, ls_name = chunk_name name, ls_nCcalls = n, ls_avail = avail\<rparr>" and cs = cs])
      (use assms d in \<open>simp_all add: load_ok_def del: LoadFunction.simps\<close>)
  then show ?thesis using d by (simp add: luaU_undump_def loaded_def)
qed

lemma demo_fits: "fits False q 0 (demo_proto [LOADBOOL 1, RET, RET])"
  by (rule fits.intros) (simp_all add: LUAI_MAXCCALLS_def nat31_def debug_fits_def loaded_def demo_checked)

theorem undump_dump_witness:
  "\<exists>S. luaU_undump (\<lambda>_. True) 0 (luaZ_init [snd (luaU_dump (demo_proto [LOADBOOL 1, RET, RET]) (\<lambda>b d. (0, d @ b)) [] False)]) 0 (str ''=x'') =
     Inr (demo_proto [LOADBOOL 1, RET, RET], S)"
proof -
  let ?f = "demo_proto [LOADBOOL 1, RET, RET]" and ?w = "\<lambda>b (d :: bytes). (0 :: int, d @ b)"
  have a: "appending ?w id" by (simp add: appending_def)
  have ne: "snd (luaU_dump ?f ?w [] False) \<noteq> []" using dump_bytes [OF a, of ?f "[]" False] by (simp add: luaU_header_def)
  have "concat (takeWhile (\<lambda>b. b \<noteq> []) [snd (luaU_dump ?f ?w [] False)]) = id (snd (luaU_dump ?f ?w [] False)) @ []"
    using ne by simp
  from undump_dump [OF a demo_fits _ this, of "\<lambda>_. True" 0 "str ''=x''"] show ?thesis by auto
qed

lemma stopped_block [simp]: "d_status D \<noteq> 0 \<Longrightarrow> DumpBlock b D = D"
  by (simp add: DumpBlock_def)

lemma stopped_int [simp]: "d_status D \<noteq> 0 \<Longrightarrow> DumpInt x D = D"
  by (simp add: DumpInt_def)

lemma stopped_char [simp]: "d_status D \<noteq> 0 \<Longrightarrow> DumpChar x D = D"
  by (simp add: DumpChar_def)

lemma stopped_vector [simp]: "d_status D \<noteq> 0 \<Longrightarrow> DumpVector xs n D = D"
  by (simp add: DumpVector_def)

lemma stopped_string [simp]: "d_status D \<noteq> 0 \<Longrightarrow> DumpString s D = D"
  by (simp add: DumpString_def split: option.split)

lemma stopped_constant [simp]: "d_status D \<noteq> 0 \<Longrightarrow> DumpConstant k D = D"
  by (cases k rule: constant_bytes.cases) (simp_all add: DumpNumber_def)

lemma stopped_locvar [simp]: "d_status D \<noteq> 0 \<Longrightarrow> DumpLocVar v D = D"
  by (simp add: DumpLocVar_def)

lemma stopped_fold: "(\<And>x. x \<in> set xs \<Longrightarrow> m x D = D) \<Longrightarrow> fold m xs D = D"
  by (induction xs) simp_all

lemma stopped_debug [simp]: "d_status D \<noteq> 0 \<Longrightarrow> DumpDebug f D = D"
  by (simp add: DumpDebug_def Let_def stopped_fold)

lemma stopped_function [simp]: "d_status D \<noteq> 0 \<Longrightarrow> DumpFunction p f D = D"
proof (induction "size f" arbitrary: f p rule: less_induct)
  case less
  have "DumpConstants (\<lambda>q. DumpFunction (p_source f) q) f D = D"
    unfolding DumpConstants_def using less.prems by (simp add: Let_def stopped_fold less.hyps [OF inner_smaller])
  then show ?case
    using less.prems by (subst DumpFunction.simps) (simp add: Let_def DumpCode_def)
qed

text \<open>
  A failing writer stops the dump: once the writer has returned a nonzero status it is not called again, and this status is
  the result.
\<close>

theorem dump_stops_at_error:
  assumes "\<forall>b d. fst (w b d) = st" "st \<noteq> 0"
  shows "luaU_dump f w d strip = (st, snd (w luaU_header d))"
proof -
  obtain d' where d': "w luaU_header d = (st, d')" using assms(1) by (metis prod.collapse)
  let ?D = "\<lparr>d_writer = w, d_data = d', d_strip = strip, d_status = st\<rparr>"
  have "DumpHeader \<lparr>d_writer = w, d_data = d, d_strip = strip, d_status = 0\<rparr> = ?D" by (simp add: DumpHeader_def DumpBlock_def d')
  moreover have "DumpFunction None f ?D = ?D" by (simp add: assms(2))
  ultimately show ?thesis by (simp add: luaU_dump_def d')
qed

theorem dump_stops_at_error_witness:
  "luaU_dump (demo_proto [RET]) (\<lambda>b (d :: nat). (3, d + 1)) 0 True = (3, 1)"
  using dump_stops_at_error [of "\<lambda>b (d :: nat). (3, d + 1)" 3 "demo_proto [RET]" 0 True] by simp

end
