(* ===== verification/Writer_Frame.thy ===== *)
theory Writer_Frame
  imports Binary_Sort
begin

text \<open>
  The API functions as the writer uses them: reads at an index, assignments that cannot overflow
  their table, traversal, and the protected call of \<^verbatim>\<open>table.sort\<close>. \<open>kept\<close> says what a run leaves
  alone: all old tables but those of a given set, all old closures, and everything else.
\<close>

subsection \<open>What a run leaves alone\<close>

definition env :: "lua_State \<Rightarrow> lua_State" where
  "env s = (others s)\<lparr>l_closures := Map.empty\<rparr>"

lemma env_upd [simp]:
  "env (s\<lparr>l_stack := x\<rparr>) = env s" "env (s\<lparr>l_heap := h\<rparr>) = env s" "env (s\<lparr>l_brk := b\<rparr>) = env s"
  "env (s\<lparr>l_closures := c\<rparr>) = env s"
  by (cases s; simp add: env_def others_def)+

lemma env_fields:
  assumes "env s' = env s"
  shows "l_func s' = l_func s" "l_caller s' = l_caller s" "l_nCcalls s' = l_nCcalls s" "l_gt s' = l_gt s"
    "l_registry s' = l_registry s" "l_mt s' = l_mt s" "l_umt s' = l_umt s" "l_ulen s' = l_ulen s" "l_str2d s' = l_str2d s"
    "l_ci_top s' = l_ci_top s"
  using assms by (cases s; cases s'; simp add: env_def others_def)+

definition kept :: "addr set \<Rightarrow> lua_State \<Rightarrow> lua_State \<Rightarrow> bool" where
  "kept P s s' \<longleftrightarrow> heap_ok s' \<and> l_brk s \<le> l_brk s' \<and> (\<forall>a < l_brk s. a \<notin> P \<longrightarrow> l_heap s' a = l_heap s a) \<and>
     (\<forall>a < l_brk s. l_closures s' a = l_closures s a) \<and> env s' = env s"

lemma kept_refl [simp]: "heap_ok s \<Longrightarrow> kept P s s"
  by (simp add: kept_def)

lemma kept_stack [simp]: "kept P s (s'\<lparr>l_stack := x\<rparr>) = kept P s s'" "kept P (s\<lparr>l_stack := x\<rparr>) s' = kept P s s'"
  by (simp_all add: kept_def)

lemma kept_trans: "kept P s s' \<Longrightarrow> kept P s' s'' \<Longrightarrow> kept P s s''"
  by (auto simp: kept_def)

lemma kept_mono: "kept P s s' \<Longrightarrow> P \<subseteq> Q \<Longrightarrow> kept Q s s'"
  by (auto simp: kept_def)

lemma kept_ok: "kept P s s' \<Longrightarrow> heap_ok s'"
  by (simp add: kept_def)

lemma kept_brk: "kept P s s' \<Longrightarrow> l_brk s \<le> l_brk s'"
  by (simp add: kept_def)

lemma kept_env: "kept P s s' \<Longrightarrow> env s' = env s"
  by (simp add: kept_def)

lemma kept_ci_top: "kept P s s' \<Longrightarrow> l_ci_top s' = l_ci_top s"
  by (rule env_fields(10) [OF kept_env])

lemma kept_fits: "kept P s s' \<Longrightarrow> l_stack s' = l_stack s @ vs \<Longrightarrow> fits s' n = fits s (length vs + n)"
  by (simp add: fits_def kept_ci_top add.assoc)

lemma kept_heap: "kept P s s' \<Longrightarrow> heap_ok s \<Longrightarrow> l_heap s a = Some t \<Longrightarrow> a \<notin> P \<Longrightarrow> l_heap s' a = Some t"
  by (auto simp: kept_def heap_ok_def)

lemma kept_closure: "kept P s s' \<Longrightarrow> a < l_brk s \<Longrightarrow> l_closures s' a = l_closures s a"
  by (simp add: kept_def)

lemma kept_set:
  assumes "kept P s s'" "a \<in> P \<or> l_brk s \<le> a" "a < l_brk s'" "wf_table t"
  shows "kept P s (s'\<lparr>l_heap := (l_heap s')(a \<mapsto> t)\<rparr>)"
  using assms by (auto simp: kept_def heap_ok_def)

lemma heap_ok_set: "heap_ok s \<Longrightarrow> a < l_brk s \<Longrightarrow> wf_table t \<Longrightarrow> heap_ok (s\<lparr>l_heap := (l_heap s)(a \<mapsto> t)\<rparr>)"
  by (auto simp: heap_ok_def)

lemma kept_drop:
  assumes "kept (insert a P) s s'" "l_brk s \<le> a"
  shows "kept P s s'"
  using assms by (auto simp: kept_def)

lemma sint_small: "n < 2 ^ 31 \<Longrightarrow> sint (of_nat n :: 32 word) = int n"
  by (simp add: signed_of_nat signed_take_bit_int_eq_self)

subsection \<open>Reads\<close>

text \<open>\<open>i\<close> is -1 or counts from the base of the frame, and \<open>v\<close> is there.\<close>

definition reads :: "int \<Rightarrow> TValue list \<Rightarrow> TValue \<Rightarrow> bool" where
  "reads i xs v \<longleftrightarrow> i = - 1 \<and> xs \<noteq> [] \<and> last xs = v \<or> 0 < i \<and> nat i \<le> length xs \<and> xs ! (nat i - 1) = v"

lemma reads_value: "reads i (l_stack s) v \<Longrightarrow> lua_value i s = (Inr v, s)"
proof -
  assume "reads i (l_stack s) v"
  then consider "i = - 1" "l_stack s \<noteq> []" "last (l_stack s) = v" | "0 < i" "nat i \<le> length (l_stack s)" "l_stack s ! (nat i - 1) = v"
    unfolding reads_def by blast
  then show ?thesis
  proof cases
    case 1
    then have "1 \<le> length (l_stack s)" by (cases "l_stack s") simp_all
    moreover have "rev (l_stack s) ! 0 = v" using 1 hd_rev [of "l_stack s"] hd_conv_nth [of "rev (l_stack s)"] by simp
    ultimately show ?thesis using 1 by (simp add: lua_value_neg)
  next
    case 2
    then show ?thesis by (simp add: lua_value_pos)
  qed
qed

lemma reads_slot: "reads i (l_stack s) v \<Longrightarrow> \<exists>p. index2adr s i = ASlot p"
  unfolding reads_def
proof (elim disjE conjE)
  assume "i = - 1" "l_stack s \<noteq> []"
  then have "1 \<le> length (l_stack s)" by (cases "l_stack s") simp_all
  with \<open>i = - 1\<close> show ?thesis by (simp add: index2adr_neg)
qed (simp add: index2adr_pos)

lemma reads_type: "reads i (l_stack s) v \<Longrightarrow> lua_type i s = (Inr (int (ttype v)), s)"
  using reads_value [of i s v] reads_slot [of i s v] by (auto simp: lua_type_def)

lemma reads_top [simp]: "reads (- 1) (xs @ [v]) v"
  by (simp add: reads_def)

lemma reads_append: "0 < i \<Longrightarrow> reads i xs v \<Longrightarrow> reads i (xs @ ys) v"
  by (auto simp: reads_def nth_append)

text \<open>The index made absolute, as \<open>top + idx + 1\<close>.\<close>

definition absidx :: "int \<Rightarrow> TValue list \<Rightarrow> int" where
  "absidx i xs = (if i < 0 then int (length xs) + i + 1 else i)"

lemma reads_abs: "reads i xs v \<Longrightarrow> 0 < absidx i xs \<and> reads (absidx i xs) xs v"
  by (auto simp: reads_def absidx_def last_conv_nth)

lemma rawget_at:
  assumes ok: "heap_ok s" and r: "0 < i" "reads i xs (LTable a)" and t: "l_heap s a = Some t" and st: "l_stack s = xs @ [k]"
    and k: "valid_key k"
  shows "lua_rawget i s = (Inr (), s\<lparr>l_stack := xs @ [tget t k]\<rparr>)"
proof -
  note wf = heap_okD(1) [OF ok t]
  have "reads i (l_stack s) (LTable a)" using reads_append [OF r] st by simp
  from reads_value [OF this] show ?thesis
    using t st by (simp add: lua_rawget_def api lbind_run luaH_get_find [OF wf k] tget_find [OF wf k])
qed

lemma rawgeti_at:
  assumes ok: "heap_ok s" and r: "lua_value i s = (Inr (LTable a), s)" and t: "l_heap s a = Some t" and n: "- (2 ^ 31) \<le> n" "n < 2 ^ 31"
  shows "lua_rawgeti i n s = (Inr (), s\<lparr>l_stack := l_stack s @ [tget t (LNumber (cast_num n))]\<rparr>)"
proof -
  note wf = heap_okD(1) [OF ok t]
  have v: "valid_key (LNumber (cast_num n))" using cast_num_finite(2) [of n] n by (simp add: abs_if)
  show ?thesis
    using r t by (simp add: lua_rawgeti_def api lbind_run luaH_getnum_find [OF wf n] tget_find [OF wf v])
qed

lemma getfield_at:
  assumes ok: "heap_ok s" and r: "lua_value i s = (Inr (LTable a), s)" and t: "l_heap s a = Some t"
    and v: "tget t (LString (c_str k)) = v" "v \<noteq> LNil"
  shows "lua_getfield prog i k s = (Inr (), s\<lparr>l_stack := l_stack s @ [v]\<rparr>)"
proof -
  note wf = heap_okD(1) [OF ok t]
  have g: "luaH_get t (LString (c_str k)) = Inr (find_key t (LString (c_str k)))" by (rule luaH_get_find [OF wf]) simp
  have "slot_value t (find_key t (LString (c_str k))) = v" using v tget_find [OF wf, of "LString (c_str k)"] by simp
  then have "luaV_gettable prog (LTable a) (LString (c_str k)) s = (Inr v, s)"
    unfolding luaV_gettable_def MAXTAGLOOP_def using t g v(2)
    by (simp add: numeral_eq_Suc Let_def api lbind_run)
  with r show ?thesis by (simp add: lua_getfield_def api lbind_run)
qed

subsection \<open>Assignments\<close>

lemma rawset_at:
  assumes ok: "heap_ok s" and r: "0 < i" "reads i xs (LTable a)" and t: "l_heap s a = Some t" and st: "l_stack s = xs @ [k, v]"
    and k: "valid_key k" and n: "length (entries t) < 2 ^ 26"
  obtains t' where "lua_rawset i s = (Inr (), s\<lparr>l_heap := (l_heap s)(a \<mapsto> t'), l_stack := xs\<rparr>)" "assigned t k v t'"
proof -
  note wf = heap_okD(1) [OF ok t]
  have "reads i (l_stack s) (LTable a)" using reads_append [OF r] st by simp
  from reads_value [OF this]
  have eq: "lua_rawset i s = lbind (lift_rt (luaH_set t k)) (\<lambda>(t', p). lseq [set_table a (slot_set t' p v), drop_top 2]) s"
    using st t by (simp add: lua_rawset_def api lbind_run)
  from wf k show ?thesis
  proof (cases rule: luaH_set_spec [where v = v])
    case (1 t' p)
    then show ?thesis using that [of "slot_set t' p v"] eq st by (simp add: api)
  next
    case 2
    then show ?thesis using n live_count_entries [OF wf] by simp
  qed
qed

lemma rawseti_at:
  assumes ok: "heap_ok s" and r: "lua_value i s = (Inr (LTable a), s)" and t: "l_heap s a = Some t" and st: "l_stack s = xs @ [v]"
    and b: "0 < j" "j < 2 ^ 31" and n: "length (entries t) < 2 ^ 26"
  obtains t' where "lua_rawseti i j s = (Inr (), s\<lparr>l_heap := (l_heap s)(a \<mapsto> t'), l_stack := xs\<rparr>)" "assigned t (ikey j) v t'"
proof -
  note wf = heap_okD(1) [OF ok t]
  have eq: "lua_rawseti i j s = lbind (lift_rt (luaH_setnum t j)) (\<lambda>(t', p). lseq [set_table a (slot_set t' p v), drop_top 1]) s"
    using r st t by (simp add: lua_rawseti_def api lbind_run)
  have "- (2 ^ 31) \<le> j" using b by simp
  from wf this b(2) show ?thesis
  proof (cases rule: luaH_setnum_spec [where v = v])
    case (1 t' p)
    then show ?thesis using that [of "slot_set t' p v"] eq st by (simp add: api ikey_def)
  next
    case 2
    then show ?thesis using n live_count_entries [OF wf] by simp
  qed
qed

lemma newtable_at:
  assumes ok: "heap_ok s" and f: "fits s 1"
  obtains t where "api_incr_top lua_newtable s = (Inr (), s\<lparr>l_brk := l_brk s + 64, l_heap := (l_heap s)(l_brk s \<mapsto> t), l_stack := l_stack s @ [LTable (l_brk s)]\<rparr>)"
    "wf_table t" "\<forall>k. valid_key k \<longrightarrow> tget t k = LNil"
proof (rule createtable_cases [OF ok, of 0 0])
  fix t assume "lua_createtable 0 0 s =
      (Inr (), s\<lparr>l_brk := l_brk s + 64, l_heap := (l_heap s)(l_brk s \<mapsto> t), l_stack := l_stack s @ [LTable (l_brk s)]\<rparr>)"
    "wf_table t" "\<forall>k. valid_key k \<longrightarrow> tget t k = LNil"
  then show thesis using that f by (simp add: lua_newtable_def api_incr_top_run fits_def)
qed simp_all

lemma kept_newtable:
  "heap_ok s \<Longrightarrow> wf_table t \<Longrightarrow> kept P s (s\<lparr>l_brk := l_brk s + 64, l_heap := (l_heap s)(l_brk s \<mapsto> t), l_stack := x\<rparr>)"
  by (auto simp: kept_def heap_ok_def intro: trans_less_add1)

subsection \<open>Traversal\<close>

text \<open>The key from which \<open>lua_next\<close> goes to entry \<open>j\<close>.\<close>

definition key_at :: "Table \<Rightarrow> nat \<Rightarrow> TValue" where
  "key_at t j = (if j = 0 then LNil else fst (entries t ! (j - 1)))"

lemma next_at:
  assumes ok: "heap_ok s" and r: "0 < i" "reads i xs (LTable a)" and t: "l_heap s a = Some t" and st: "l_stack s = xs @ key_at t j # []"
    and j: "j \<le> length (entries t)" and f: "fits s 1"
  shows "api_incr_top (lua_next i) s = (if j < length (entries t) then (Inr True, s\<lparr>l_stack := xs @ [key_at t (Suc j), snd (entries t ! j)]\<rparr>)
     else (Inr False, s\<lparr>l_stack := xs\<rparr>))"
proof -
  note wf = heap_okD(1) [OF ok t]
  have "reads i (l_stack s) (LTable a)" using reads_append [OF r] st by simp
  note v = reads_value [OF this]
  have "luaH_next t (key_at t j) = Inr (if j < length (entries t) then Some (entries t ! j) else None)"
    using luaH_next_first [of t] luaH_next_entry [OF wf, of "j - 1"] j
    by (auto simp: key_at_def hd_conv_nth)
  then show ?thesis
    using v t st f by (simp add: lua_next_def api lbind_run key_at_def fits_def split: prod.split)
qed

lemma next_fuel_at:
  assumes "reads i (l_stack s) (LTable a)" "l_heap s a = Some t"
  shows "next_fuel i s = (Inr (Suc (sizearray t + sizenode t)), s)"
  using reads_value [OF assms(1)] assms(2) by (simp add: next_fuel_def api)

lemma count_loop_run:
  assumes ok: "heap_ok s" and r: "0 < i" "reads i xs (LTable a)" and t: "l_heap s a = Some t"
  shows "l_stack s = xs @ [key_at t j] \<Longrightarrow> j \<le> length (entries t) \<Longrightarrow> length (entries t) - j < f \<Longrightarrow> fits s 1 \<Longrightarrow>
    count_loop f i c s = (Inr (c + (length (entries t) - j)), s\<lparr>l_stack := xs\<rparr>)"
  using ok t
proof (induction f arbitrary: j c s)
  case (Suc f)
  note n = next_at [OF Suc.prems(5) r Suc.prems(6,1,2,4)]
  show ?case
  proof (cases "j < length (entries t)")
    case True
    let ?s = "s\<lparr>l_stack := xs @ [key_at t (Suc j)]\<rparr>"
    have "count_loop f i (Suc c) ?s = (Inr (Suc c + (length (entries t) - Suc j)), ?s\<lparr>l_stack := xs\<rparr>)"
      by (rule Suc.IH) (use True Suc.prems in \<open>simp_all add: fits_def\<close>)
    then show ?thesis using n True by (simp add: lbind_run api Suc_diff_Suc)
  next
    case False
    then show ?thesis using n Suc.prems(2) by (simp add: lbind_run)
  qed
qed simp

lemma countTableLength_run:
  assumes ok: "heap_ok s" and ft: "fits s 2" and r: "0 < i" "reads i (l_stack s) (LTable a)" and t: "l_heap s a = Some t"
  shows "countTableLength i s = (Inr (length (entries t)), s)"
proof -
  let ?s = "s\<lparr>l_stack := l_stack s @ [LNil]\<rparr>"
  have "reads i (l_stack ?s) (LTable a)" using reads_append [OF r] by simp
  then have f: "next_fuel i ?s = (Inr (Suc (sizearray t + sizenode t)), ?s)" by (rule next_fuel_at) (simp add: t)
  have "count_loop (Suc (sizearray t + sizenode t)) i 0 ?s = (Inr (0 + (length (entries t) - 0)), ?s\<lparr>l_stack := l_stack s\<rparr>)"
    by (rule count_loop_run [OF _ r]) (use ok t ft entries_slots [of t] in \<open>simp_all add: key_at_def numeral_2_eq_2\<close>)
  then show ?thesis using f r(1) ft by (simp add: countTableLength_def api fits_def)
qed

end
