(* ===== verification/Writer_Keys.thy ===== *)
theory Writer_Keys
  imports Writer_Frame
begin

text \<open>
  \<open>getSortedTableKeys\<close>: the keys of a table, copied into a new table and sorted by a protected call
  of \<^verbatim>\<open>table.sort\<close> with \<open>sortCmp\<close>.
\<close>

subsection \<open>Lists held by a table\<close>

definition key_list :: "Table \<Rightarrow> TValue list \<Rightarrow> bool" where
  "key_list t ks \<longleftrightarrow> wf_table t \<and> (\<forall>j < length ks. tgeti t (Suc j) = ks ! j) \<and>
     (\<forall>k. valid_key k \<longrightarrow> (\<forall>j < length ks. \<not> luaO_rawequalObj k (ikey (int (Suc j)))) \<longrightarrow> tget t k = LNil)"

lemma key_list_wf: "key_list t ks \<Longrightarrow> wf_table t"
  by (simp add: key_list_def)

lemma key_list_nth: "key_list t ks \<Longrightarrow> j < length ks \<Longrightarrow> tgeti t (Suc j) = ks ! j"
  by (simp add: key_list_def)

lemma key_list_empty: "wf_table t \<Longrightarrow> \<forall>k. valid_key k \<longrightarrow> tget t k = LNil \<Longrightarrow> key_list t []"
  by (simp add: key_list_def)

lemma key_list_length:
  assumes "key_list t ks"
  shows "length (entries t) \<le> length ks"
proof -
  have "length (entries t) \<le> length (map (\<lambda>j. ikey (int (Suc j))) [0..<length ks])"
  proof (rule entries_length_le [OF key_list_wf [OF assms]])
    fix k assume k: "valid_key k" "tget t k \<noteq> LNil"
    then have "\<not> (\<forall>j < length ks. \<not> luaO_rawequalObj k (ikey (int (Suc j))))" using assms unfolding key_list_def by blast
    then show "\<exists>x \<in> set (map (\<lambda>j. ikey (int (Suc j))) [0..<length ks]). luaO_rawequalObj k x" by auto
  qed
  then show ?thesis by simp
qed

lemma key_list_snoc:
  assumes l: "key_list t ks" and a: "assigned t (ikey (int (Suc (length ks)))) v t'" and n: "length ks < 2 ^ 26"
  shows "key_list t' (ks @ [v])"
proof -
  let ?n = "length ks"
  have as: "wf_table t'" "\<And>k. valid_key k \<Longrightarrow> tget t' k = (if luaO_rawequalObj k (ikey (int (Suc ?n))) then v else tget t k)"
    using a by (simp_all add: assigned_def)
  have k: "valid_key (ikey (int (Suc j)))" "luaO_rawequalObj (ikey (int (Suc j))) (ikey (int (Suc ?n))) \<longleftrightarrow> j = ?n"
    if "j \<le> ?n" for j
    using that n ikey_valid [of "int (Suc j)"] ikey_eq [of "int (Suc j)" "int (Suc ?n)"] by simp_all
  have "tgeti t' (Suc j) = (ks @ [v]) ! j" if "j < length (ks @ [v])" for j
    using as(2) [OF k(1) [of j]] k(2) [of j] that key_list_nth [OF l, of j]
    by (cases "j = ?n") (simp_all add: ikey_def nth_append)
  moreover have "tget t' k = LNil" if "valid_key k" "\<forall>j < Suc ?n. \<not> luaO_rawequalObj k (ikey (int (Suc j)))" for k
    using that as(2) [OF that(1)] l by (auto simp: key_list_def)
  ultimately show ?thesis using as(1) by (simp add: key_list_def)
qed

subsection \<open>Collecting the keys\<close>

lemma keys_loop_run:
  assumes r: "0 < i" "reads i xs (LTable a)" and n: "length (entries t) \<le> 2 ^ 26" and ne: "ka \<noteq> a"
  shows "heap_ok s \<Longrightarrow> l_heap s a = Some t \<Longrightarrow> ka < l_brk s \<Longrightarrow> l_heap s ka = Some kt \<Longrightarrow> l_stack s = xs @ [LTable ka, key_at t j] \<Longrightarrow>
    j \<le> length (entries t) \<Longrightarrow> length (entries t) - j < f \<Longrightarrow> key_list kt (map fst (take j (entries t))) \<Longrightarrow> fits s 1 \<Longrightarrow>
    \<exists>kt'. keys_loop f i (int j) s = (Inr (), s\<lparr>l_heap := (l_heap s)(ka \<mapsto> kt'), l_stack := xs @ [LTable ka]\<rparr>) \<and>
      key_list kt' (map fst (entries t))"
proof (induction f arbitrary: j s kt)
  case (Suc f)
  have r2: "reads i (xs @ [LTable ka]) (LTable a)" by (rule reads_append [OF r])
  have "l_stack s = (xs @ [LTable ka]) @ [key_at t j]" using Suc.prems(5) by simp
  note nx = next_at [OF Suc.prems(1) r(1) r2 Suc.prems(2) this Suc.prems(6,9)]
  show ?case
  proof (cases "j < length (entries t)")
    case False
    then have "j = length (entries t)" using Suc.prems(6) by simp
    then show ?thesis using nx Suc.prems(4,8) by (intro exI [of _ kt]) (simp add: lbind_run map_upd_triv del: fun_upd_apply)
  next
    case True
    let ?k = "key_at t (Suc j)"
    have kf: "?k = fst (entries t ! j)" by (simp add: key_at_def)
    let ?s1 = "s\<lparr>l_stack := xs @ [LTable ka, ?k, ?k]\<rparr>"
    have len: "length (entries kt) < 2 ^ 26" using key_list_length [OF Suc.prems(8)] True n by simp
    have "l_stack ?s1 = (xs @ [LTable ka, ?k]) @ [?k]" by simp
    then obtain kt1 where k1: "lua_rawseti (- 3) (int j + 1) ?s1 =
        (Inr (), ?s1\<lparr>l_heap := (l_heap ?s1)(ka \<mapsto> kt1), l_stack := xs @ [LTable ka, ?k]\<rparr>)" "assigned kt (ikey (int j + 1)) ?k kt1"
      by (rule rawseti_at [of ?s1 "- 3" ka kt _ _ "int j + 1", rotated 3])
        (use Suc.prems(1,4) True n len in \<open>simp_all add: api\<close>)
    let ?s2 = "s\<lparr>l_heap := (l_heap s)(ka \<mapsto> kt1), l_stack := xs @ [LTable ka, ?k]\<rparr>"
    have wf1: "wf_table kt1" using k1(2) by (simp add: assigned_def)
    have kl: "key_list kt1 (map fst (take (Suc j) (entries t)))"
      using key_list_snoc [OF Suc.prems(8), of ?k kt1] k1(2) True n kf
      by (simp add: min_def take_Suc_conv_app_nth add.commute)
    have "\<exists>kt'. keys_loop f i (int (Suc j)) ?s2 = (Inr (), ?s2\<lparr>l_heap := (l_heap ?s2)(ka \<mapsto> kt'), l_stack := xs @ [LTable ka]\<rparr>) \<and>
        key_list kt' (map fst (entries t))"
      by (rule Suc.IH [of ?s2 kt1 "Suc j"]) (use Suc.prems True kl wf1 heap_ok_set [OF Suc.prems(1,3) wf1] ne in \<open>simp_all add: fits_def\<close>)
    then obtain kt' where "keys_loop f i (int j + 1) ?s2 = (Inr (), s\<lparr>l_heap := (l_heap s)(ka \<mapsto> kt'), l_stack := xs @ [LTable ka]\<rparr>)"
      "key_list kt' (map fst (entries t))" by (auto simp: add.commute)
    then show ?thesis using nx True k1(1) by (intro exI [of _ kt']) (use Suc.prems(5,9) in \<open>simp add: lbind_run api fits_def del: fun_upd_apply\<close>)
  qed
qed simp

subsection \<open>Sorting\<close>

definition sort_ready :: "lua_State \<Rightarrow> bool" where
  "sort_ready s \<longleftrightarrow> l_nCcalls s < 198 \<and> (\<exists>gt ta tt fs cs. l_heap s (l_gt s) = Some gt \<and> tget gt (LString (str ''table'')) = LTable ta \<and>
     l_heap s ta = Some tt \<and> tget tt (LString (str ''sort'')) = LFunction fs \<and> fs < l_brk s \<and> l_closures s fs = Some cs \<and> c_f cs = CSort)"

lemma sort_ready_kept:
  assumes r: "sort_ready s" and k: "kept {} s s'" and ok: "heap_ok s"
  shows "sort_ready s'"
proof -
  obtain gt ta tt fs cs where *: "l_heap s (l_gt s) = Some gt" "tget gt (LString (str ''table'')) = LTable ta"
    "l_heap s ta = Some tt" "tget tt (LString (str ''sort'')) = LFunction fs" "fs < l_brk s" "l_closures s fs = Some cs" "c_f cs = CSort"
    using r unfolding sort_ready_def by blast
  have "l_heap s' (l_gt s') = Some gt" "l_heap s' ta = Some tt" "l_closures s' fs = Some cs" "fs < l_brk s'" "l_nCcalls s' < 198"
    using * r kept_heap [OF k ok] env_fields [OF kept_env [OF k]] kept_closure [OF k] kept_brk [OF k]
    by (simp_all add: sort_ready_def)
  with * show ?thesis unfolding sort_ready_def by blast
qed

lemma sort_ready_upd [simp]:
  "sort_ready (s\<lparr>l_stack := x\<rparr>) = sort_ready s"
  by (simp add: sort_ready_def)

text \<open>\<^verbatim>\<open>table.sort\<close> on a frame with the table and the order function.\<close>

lemma sort_fn_run:
  assumes st: "l_stack s = [LTable a, LFunction fa]" and t: "l_heap s a = Some t" and c: "l_closures s fa = Some c" "c_f c = CSortCmp"
    and nc: "l_nCcalls s < 199" and g: "luaH_getn t = Inr n" and n: "n < 2 ^ 31" and h: "holds (int n) (Collect sort_key) (tget t) t A"
  shows "\<exists>t' A'. sort_fn (program_of ext (Suc m)) s = (Inr 0, s\<lparr>l_heap := (l_heap s)(a \<mapsto> t')\<rparr>) \<and>
    holds (int n) (Collect sort_key) (tget t) t' A' \<and> perm 1 (int n) A A' \<and> ordered key_lt A' 1 (int n)"
proof -
  have rd: "cmp_ready s (LFunction fa)" using c nc by (simp add: cmp_ready_def)
  have s: "sort_state s a (LFunction fa) t [] = s" using st t by (cases s) (simp add: sort_state_def map_upd_triv)
  have "\<exists>t' A'. auxsort (program_of ext (Suc m)) (Suc n) 1 (int n) (sort_state s a (LFunction fa) t []) =
        (Inr (), sort_state s a (LFunction fa) t' []) \<and>
      holds (int n) (Collect sort_key) (tget t) t' A' \<and> perm 1 (int n) A A' \<and> ordered key_lt A' 1 (int n)"
    by (rule sort_keys [OF rd _ _ h]) (use n in simp_all)
  then obtain t' A' where r: "auxsort (program_of ext (Suc m)) (Suc n) 1 (int n) s = (Inr (), sort_state s a (LFunction fa) t' [])"
    "holds (int n) (Collect sort_key) (tget t) t' A'" "perm 1 (int n) A A'" "ordered key_lt A' 1 (int n)" unfolding s by blast
  have fin: "sort_state s a (LFunction fa) t' [] = s\<lparr>l_heap := (l_heap s)(a \<mapsto> t')\<rparr>" using st by (cases s) (simp add: sort_state_def)
  have sg: "sint (of_nat n :: 32 word) = int n" by (rule sint_small [OF n])
  have "lua_objlen 1 s = (Inr n, s)" using st t g by (simp add: lua_objlen_def api lbind_run)
  then have "aux_getn 1 s = (Inr (int n), s)"
    using st sg by (simp add: aux_getn_def luaL_checktype_def luaL_getn_def api lbind_run)
  moreover have "luaL_checkstack 40 [] s = (Inr (), s)"
    using st by (simp add: luaL_checkstack_def lua_checkstack_def LUAI_MAXCSTACK_def api lbind_run)
  moreover have "lua_isnoneornil 2 s = (Inr False, s)" "luaL_checktype 2 6 s = (Inr (), s)"
    using st by (simp_all add: lua_isnoneornil_def luaL_checktype_def api lbind_run)
  moreover have "lua_settop 2 s = (Inr (), s)" using st lua_settop_cut [of 2 s] by (cases s) simp
  ultimately have "sort_fn (program_of ext (Suc m)) s = (Inr 0, s\<lparr>l_heap := (l_heap s)(a \<mapsto> t')\<rparr>)"
    using r(1) fin by (simp add: sort_fn_def lbind_run nat_add_distrib del: auxsort.simps)
  with r show ?thesis by blast
qed

lemma pcall_sort:
  assumes st: "l_stack s = xs @ [LFunction fs, LTable a, LFunction fa]" and cs: "l_closures s fs = Some cs" "c_f cs = CSort"
    and t: "l_heap s a = Some t" and c: "l_closures s fa = Some c" "c_f c = CSortCmp"
    and nc: "l_nCcalls s < 198" and g: "luaH_getn t = Inr n" and n: "n < 2 ^ 31" and h: "holds (int n) (Collect sort_key) (tget t) t A"
  shows "\<exists>t' A'. lua_pcall (program_of ext (Suc (Suc m))) 2 0 s = (Inr 0, s\<lparr>l_heap := (l_heap s)(a \<mapsto> t'), l_stack := xs\<rparr>) \<and>
    holds (int n) (Collect sort_key) (tget t) t' A' \<and> perm 1 (int n) A A' \<and> ordered key_lt A' 1 (int n)"
proof -
  let ?p = "length xs"
  let ?s1 = "s\<lparr>l_nCcalls := l_nCcalls s + 1\<rparr>"
  let ?fr = "?s1\<lparr>l_stack := [LTable a, LFunction fa], l_ci_top := Suc (Suc LUA_MINSTACK), l_func := Some fs, l_caller := called_by_C\<rparr>"
  obtain t' A' where r: "sort_fn (program_of ext (Suc m)) ?fr = (Inr 0, ?fr\<lparr>l_heap := (l_heap ?fr)(a \<mapsto> t')\<rparr>)"
    "holds (int n) (Collect sort_key) (tget t) t' A'" "perm 1 (int n) A A'" "ordered key_lt A' 1 (int n)"
    using sort_fn_run [of ?fr a fa t c n A ext m] assms by auto
  have d: "drop (Suc ?p) (xs @ [LFunction fs, LTable a, LFunction fa]) = [LTable a, LFunction fa]" by simp
  have "run_closure (program_of ext (Suc (Suc m))) ?p 0 fs ?s1 = (Inr (), ?s1\<lparr>l_heap := (l_heap s)(a \<mapsto> t'), l_stack := xs\<rparr>)"
    using cs r(1) st by (simp add: run_closure_def d luaD_poscall_def)
  then have "luaD_call (program_of ext (Suc (Suc m))) ?p 0 s = (Inr (), s\<lparr>l_heap := (l_heap s)(a \<mapsto> t'), l_stack := xs\<rparr>)"
    using nc st by (simp add: luaD_call_def luaD_precall_def lbind_run LUAI_MAXCCALLS_def nth_append)
  then have "lua_pcall (program_of ext (Suc (Suc m))) 2 0 s = (Inr 0, s\<lparr>l_heap := (l_heap s)(a \<mapsto> t'), l_stack := xs\<rparr>)"
    using st by (simp add: lua_pcall_def luaD_pcall_def lbind_run)
  with r show ?thesis by blast
qed

text \<open>The list after the sort.\<close>

lemma key_list_getn:
  assumes l: "key_list t ks" and nn: "LNil \<notin> set ks" and n: "length ks < 2 ^ 31 - 1"
  shows "luaH_getn t = Inr (length ks)"
proof -
  obtain b where b: "luaH_getn t = Inr b" "border t b" "b < MAX_INT" using luaH_getn_spec [OF key_list_wf [OF l]] by blast
  have "\<not> b < length ks"
  proof
    assume "b < length ks"
    then show False using key_list_nth [OF l, of b] b(2) nn nth_mem [of b ks] by (simp add: border_def)
  qed
  moreover have "\<not> length ks < b"
  proof
    assume lt: "length ks < b"
    have b31: "b < 2 ^ 31" using b(3) by (simp add: MAX_INT_def)
    have "\<not> luaO_rawequalObj (LNumber (cast_num (int b))) (ikey (int (Suc j)))" if "j < length ks" for j
      using ikey_eq [of "int b" "int (Suc j)"] lt that b31 by (simp add: ikey_def)
    moreover have "valid_key (LNumber (cast_num (int b)))" by (rule valid_int_key [OF b31])
    ultimately have "tgeti t b = LNil" using l unfolding key_list_def by blast
    with b(2) lt show False by (simp add: border_def)
  qed
  ultimately show ?thesis using b(1) by simp
qed

lemma mset_range: "image_mset A (mset_set {1..int n}) = mset (map (\<lambda>j. A (int (Suc j))) [0..<n])"
proof -
  have "mset_set {1..int n} = image_mset (\<lambda>j. int (Suc j)) (mset_set {0..<n})"
  proof -
    have i: "inj_on (\<lambda>j. int (Suc j)) {0..<n}" by (rule inj_onI) simp
    have "(\<lambda>j. int (Suc j)) ` {0..<n} = {1..int n}"
    proof (intro equalityI subsetI)
      fix x assume "x \<in> {1..int n}"
      then have "x = int (Suc (nat x - 1))" "nat x - 1 \<in> {0..<n}" by (simp_all, linarith)
      then show "x \<in> (\<lambda>j. int (Suc j)) ` {0..<n}" by (rule image_eqI)
    qed auto
    then show ?thesis using image_mset_mset_set [OF i] by simp
  qed
  then show ?thesis by (simp add: multiset.map_comp comp_def)
qed

lemma sorted_key_list:
  assumes l: "key_list t ks" and h: "holds (int n) V (tget t) t' A'" and n: "n = length ks" "n < 2 ^ 31"
    and p: "perm 1 (int n) (\<lambda>i. ks ! (nat i - 1)) A'" and o: "ordered lt A' 1 (int n)"
  obtains ks' where "key_list t' ks'" "mset ks' = mset ks" "\<forall>i j. i < j \<longrightarrow> j < length ks' \<longrightarrow> \<not> lt (ks' ! j) (ks' ! i)"
proof -
  let ?ks = "map (\<lambda>j. A' (int (Suc j))) [0..<n]"
  have "key_list t' ?ks"
    unfolding key_list_def
  proof (intro conjI allI impI)
    show "wf_table t'" using h by (simp add: holds_def)
    fix j assume "j < length ?ks"
    then have b: "1 \<le> int (Suc j)" "int (Suc j) \<le> int n" by simp_all
    then have "tget t' (ikey (int (Suc j))) = A' (int (Suc j))" using h unfolding holds_def by blast
    then show "tgeti t' (Suc j) = ?ks ! j" using b by (simp add: ikey_def)
  next
    fix k assume k: "valid_key k" "\<forall>j < length ?ks. \<not> luaO_rawequalObj k (ikey (int (Suc j)))"
    have "\<not> luaO_rawequalObj k (ikey i)" if "1 \<le> i" "i \<le> int n" for i
    proof -
      have "i = int (Suc (nat i - 1))" "nat i - 1 < length ?ks" using that by simp_all
      with k(2) show ?thesis by metis
    qed
    then have "tget t' k = tget t k" using h k(1) by (simp add: holds_def)
    also have "\<dots> = LNil" using l k n(1) by (simp add: key_list_def)
    finally show "tget t' k = LNil" .
  qed
  moreover have "mset ?ks = mset (map (\<lambda>j. ks ! (nat (int (Suc j)) - 1)) [0..<n])"
    using perm_mset [OF p] unfolding mset_range .
  then have "mset ?ks = mset (map ((!) ks) [0..<length ks])" using n(1) by (simp add: nat_add_distrib del: mset_map)
  then have "mset ?ks = mset ks" unfolding map_nth .
  moreover have "\<not> lt (?ks ! j) (?ks ! i)" if "i < j" "j < length ?ks" for i j
    using that o by (simp add: ordered_def)
  ultimately show ?thesis using that by blast
qed

lemma pushcfunction_at:
  assumes "b = l_brk s + 64"
  obtains cl where "lua_pushcfunction f s = (Inr (), s\<lparr>l_brk := b, l_closures := (l_closures s)(l_brk s \<mapsto> cl),
      l_stack := l_stack s @ [LFunction (l_brk s)]\<rparr>)" "c_f cl = f"
  using that [of "\<lparr>c_f = f, c_env = getcurrenv s, c_upvalue = []\<rparr>"] assms
  by (simp add: lua_pushcfunction_def lua_pushcclosure_def lua_alloc_def api lbind_run)

lemma getSortedTableKeys_run:
  assumes ok: "heap_ok s" and ft: "fits s 5" and sr: "sort_ready s" and r: "0 < i" "reads i (l_stack s) (LTable a)" and t: "l_heap s a = Some t"
    and n: "length (entries t) \<le> 2 ^ 26" and k: "\<forall>kv \<in> set (entries t). sort_key (fst kv)"
  shows "\<exists>s' ka kt ks. getSortedTableKeys (program_of ext (Suc (Suc m))) i s = (Inr True, s') \<and> kept {} s s' \<and>
    l_stack s' = l_stack s @ [LTable ka] \<and> l_brk s \<le> ka \<and> ka < l_brk s' \<and> l_heap s' ka = Some kt \<and> key_list kt ks \<and>
    mset ks = mset (map fst (entries t)) \<and> (\<forall>i j. i < j \<longrightarrow> j < length ks \<longrightarrow> \<not> key_lt (ks ! j) (ks ! i))"
proof -
  let ?ka = "l_brk s" and ?n = "length (entries t)" and ?xs = "l_stack s"
  have ft1: "fits s 1" using ft by (simp add: fits_def)
  obtain t0 where t0: "api_incr_top lua_newtable s = (Inr (), s\<lparr>l_brk := ?ka + 64, l_heap := (l_heap s)(?ka \<mapsto> t0), l_stack := ?xs @ [LTable ?ka]\<rparr>)"
    "wf_table t0" "\<forall>k. valid_key k \<longrightarrow> tget t0 k = LNil" by (rule newtable_at [OF ok ft1])
  let ?s1 = "s\<lparr>l_brk := ?ka + 64, l_heap := (l_heap s)(?ka \<mapsto> t0), l_stack := ?xs @ [LTable ?ka, LNil]\<rparr>"
  have ne: "a < ?ka" by (rule heap_okD(2) [OF ok t])
  have k1: "kept {} s ?s1" by (rule kept_newtable [OF ok t0(2)])
  have "reads i (l_stack ?s1) (LTable a)" using reads_append [OF r] by simp
  then have f: "next_fuel i ?s1 = (Inr (Suc (sizearray t + sizenode t)), ?s1)" by (rule next_fuel_at) (use t ne in simp)
  have "\<exists>kt. keys_loop (Suc (sizearray t + sizenode t)) i (int 0) ?s1 =
      (Inr (), ?s1\<lparr>l_heap := (l_heap ?s1)(?ka \<mapsto> kt), l_stack := ?xs @ [LTable ?ka]\<rparr>) \<and> key_list kt (map fst (entries t))"
    by (rule keys_loop_run [OF r n, of ?ka ?s1 t0])
      (use t ne kept_ok [OF k1] entries_slots [of t] key_list_empty [OF t0(2,3)] ft in \<open>simp_all add: key_at_def fits_def\<close>)
  then obtain kt where kt: "keys_loop (Suc (sizearray t + sizenode t)) i 0 ?s1 =
      (Inr (), s\<lparr>l_brk := ?ka + 64, l_heap := (l_heap s)(?ka \<mapsto> kt), l_stack := ?xs @ [LTable ?ka]\<rparr>)" "key_list kt (map fst (entries t))"
    by auto
  let ?s2 = "s\<lparr>l_brk := ?ka + 64, l_heap := (l_heap s)(?ka \<mapsto> kt), l_stack := ?xs @ [LTable ?ka]\<rparr>"
  have k2: "kept {} s ?s2" by (rule kept_newtable [OF ok key_list_wf [OF kt(2)]])
  obtain gt ta tt fs cs where g: "l_heap s (l_gt s) = Some gt" "tget gt (LString (str ''table'')) = LTable ta"
    "l_heap s ta = Some tt" "tget tt (LString (str ''sort'')) = LFunction fs" "fs < ?ka" "l_closures s fs = Some cs" "c_f cs = CSort"
    "l_nCcalls s < 198" using sr unfolding sort_ready_def by auto
  have g2: "l_heap ?s2 (l_gt s) = Some gt" "l_heap ?s2 ta = Some tt"
    using kept_heap [OF k2 ok g(1)] kept_heap [OF k2 ok g(3)] by simp_all
  let ?prog = "program_of ext (Suc (Suc m))"
  have cstr: "c_str (str ''table'') = str ''table''" "c_str (str ''sort'') = str ''sort''" by (simp_all add: c_str_def str_def)
  have ok2: "heap_ok ?s2" by (rule kept_ok [OF k2])
  have g3: "lua_getglobal ?prog (str ''table'') ?s2 = (Inr (), ?s2\<lparr>l_stack := l_stack ?s2 @ [LTable ta]\<rparr>)"
    unfolding lua_getglobal_def
    by (rule getfield_at [OF ok2 _ g2(1)]) (use g(2) in \<open>simp_all add: cstr lua_value_def index2adr_def LUA_GLOBALSINDEX_def LUA_REGISTRYINDEX_def LUA_ENVIRONINDEX_def Let_def\<close>)
  let ?s3 = "s\<lparr>l_brk := ?ka + 64, l_heap := (l_heap s)(?ka \<mapsto> kt), l_stack := ?xs @ [LTable ?ka, LTable ta]\<rparr>"
  have ok3: "heap_ok ?s3" using ok2 by (simp add: heap_ok_def)
  have g4: "lua_getfield ?prog (- 1) (str ''sort'') ?s3 = (Inr (), ?s3\<lparr>l_stack := l_stack ?s3 @ [LFunction fs]\<rparr>)"
    by (rule getfield_at [OF ok3, of "- 1" ta tt]) (use g2(2) g(4) in \<open>simp_all add: cstr api\<close>)
  let ?s4 = "s\<lparr>l_brk := ?ka + 64, l_heap := (l_heap s)(?ka \<mapsto> kt), l_stack := ?xs @ [LTable ?ka, LTable ta, LFunction fs, LTable ?ka]\<rparr>"
  obtain cl where cl: "lua_pushcfunction CSortCmp ?s4 = (Inr (), ?s4\<lparr>l_brk := ?ka + 128, l_closures := (l_closures s)(?ka + 64 \<mapsto> cl),
      l_stack := l_stack ?s4 @ [LFunction (?ka + 64)]\<rparr>)" "c_f cl = CSortCmp"
    by (rule pushcfunction_at [where s = ?s4 and f = CSortCmp and b = "?ka + 128"]) simp_all
  let ?s5 = "s\<lparr>l_heap := (l_heap s)(?ka \<mapsto> kt), l_brk := ?ka + 128, l_closures := (l_closures s)(?ka + 64 \<mapsto> cl),
      l_stack := (?xs @ [LTable ?ka, LTable ta]) @ [LFunction fs, LTable ?ka, LFunction (?ka + 64)]\<rparr>"
  have ks: "LNil \<notin> set (map fst (entries t))" "\<forall>x \<in> set (map fst (entries t)). sort_key x"
    using entries_valid [OF heap_okD(1) [OF ok t]] valid_key_not_nil k by fastforce+
  have gn: "luaH_getn kt = Inr ?n" using key_list_getn [OF kt(2) ks(1)] n by simp
  have h: "holds (int ?n) (Collect sort_key) (tget kt) kt (\<lambda>i. map fst (entries t) ! (nat i - 1))"
    unfolding holds_def
  proof (intro conjI allI impI)
    show "wf_table kt" by (rule key_list_wf [OF kt(2)])
    fix j assume j: "1 \<le> j" "j \<le> int ?n"
    have "Suc (nat j - 1) = nat j" "nat j - 1 < length (map fst (entries t))" using j by simp_all
    moreover have "ikey j = LNumber (cast_num (int (nat j)))" using j by (simp add: ikey_def)
    ultimately show "tget kt (ikey j) = map fst (entries t) ! (nat j - 1)"
      using key_list_nth [OF kt(2), of "nat j - 1"] by (simp del: length_map)
    show "map fst (entries t) ! (nat j - 1) \<in> Collect sort_key"
      using ks(2) nth_mem [OF \<open>nat j - 1 < length (map fst (entries t))\<close>] by blast
  qed simp
  have "\<exists>t' A'. lua_pcall ?prog 2 0 ?s5 = (Inr 0, ?s5\<lparr>l_heap := (l_heap ?s5)(?ka \<mapsto> t'), l_stack := ?xs @ [LTable ?ka, LTable ta]\<rparr>) \<and>
    holds (int ?n) (Collect sort_key) (tget kt) t' A' \<and> perm 1 (int ?n) (\<lambda>i. map fst (entries t) ! (nat i - 1)) A' \<and> ordered key_lt A' 1 (int ?n)"
    by (rule pcall_sort [of ?s5 "?xs @ [LTable ?ka, LTable ta]" fs ?ka "?ka + 64" cs kt cl ?n])
      (use g cl(2) gn h n in simp_all)
  then obtain t' A' where p: "lua_pcall ?prog 2 0 ?s5 = (Inr 0, ?s5\<lparr>l_heap := (l_heap ?s5)(?ka \<mapsto> t'), l_stack := ?xs @ [LTable ?ka, LTable ta]\<rparr>)"
    "holds (int ?n) (Collect sort_key) (tget kt) t' A'" "perm 1 (int ?n) (\<lambda>i. map fst (entries t) ! (nat i - 1)) A'" "ordered key_lt A' 1 (int ?n)"
    by blast
  obtain ks' where ks': "key_list t' ks'" "mset ks' = mset (map fst (entries t))"
    "\<forall>i j. i < j \<longrightarrow> j < length ks' \<longrightarrow> \<not> key_lt (ks' ! j) (ks' ! i)"
    by (rule sorted_key_list [OF kt(2) p(2) _ _ p(3,4)]) (use n in simp_all)
  let ?s6 = "s\<lparr>l_brk := ?ka + 128, l_heap := (l_heap s)(?ka \<mapsto> t'), l_closures := (l_closures s)(?ka + 64 \<mapsto> cl), l_stack := ?xs @ [LTable ?ka]\<rparr>"
  have "getSortedTableKeys ?prog i s = (Inr True, ?s6)"
    using t0(1) f kt(1) g3 g4 cl(1) p(1) ft
    by (simp add: getSortedTableKeys_def lua_pushnil_def api lbind_run fits_def)
  moreover have "kept {} s ?s6"
    using ok key_list_wf [OF ks'(1)] by (auto simp: kept_def heap_ok_def intro: trans_less_add1)
  ultimately show ?thesis using ks' by (intro exI [of _ ?s6] exI [of _ ?ka] exI [of _ t'] exI [of _ ks']) simp
qed

end
