(* ===== verification/Writer_Pool.thy ===== *)
theory Writer_Pool
  imports Writer_Keys Binary_Decode
begin

text \<open>
  The string table of the writer as a list of distinct strings in the order of their first use:
  \<open>storeString\<close> gives a string its number in this list, and \<open>ws_write\<close> writes the list.
\<close>

definition pool_add :: "bytes list \<Rightarrow> bytes \<Rightarrow> bytes list" where
  "pool_add pool b = (if b = [] \<or> b \<in> set pool then pool else pool @ [b])"

lemma pool_index_append: "b \<in> set pool \<Longrightarrow> pool_index (pool @ qs) b = pool_index pool b"
  unfolding pool_index_def by (subst takeWhile_append1) auto

lemma pool_index_new: "b \<notin> set pool \<Longrightarrow> pool_index (pool @ [b]) b = Suc (length pool)"
  unfolding pool_index_def by (subst takeWhile_append2) auto

subsection \<open>The two tables\<close>

definition names :: "Table \<Rightarrow> bytes list \<Rightarrow> bool" where
  "names t pool \<longleftrightarrow> wf_table t \<and> (\<forall>k. valid_key k \<longrightarrow> tget t k =
     (case k of LString b \<Rightarrow> if b \<in> set pool then LNumber (cast_num (int (pool_index pool b))) else LNil | _ \<Rightarrow> LNil))"

lemma names_wf: "names t pool \<Longrightarrow> wf_table t"
  by (simp add: names_def)

lemma names_get: "names t pool \<Longrightarrow> tget t (LString b) = (if b \<in> set pool then LNumber (cast_num (int (pool_index pool b))) else LNil)"
  by (simp add: names_def)

lemma names_length: "names t pool \<Longrightarrow> length (entries t) \<le> length pool"
proof -
  assume n: "names t pool"
  have "length (entries t) \<le> length (map LString pool)"
  proof (rule entries_length_le [OF names_wf [OF n]])
    fix k assume k: "valid_key k" "tget t k \<noteq> LNil"
    then obtain b where "k = LString b" "b \<in> set pool" using n by (cases k) (auto simp: names_def split: if_splits)
    then show "\<exists>x \<in> set (map LString pool). luaO_rawequalObj k x" by auto
  qed
  then show ?thesis by simp
qed

lemma names_snoc:
  assumes n: "names t pool" and a: "assigned t (LString b) (LNumber (cast_num (int (Suc (length pool))))) t'" and b: "b \<notin> set pool"
  shows "names t' (pool @ [b])"
proof -
  have as: "wf_table t'" "\<And>k. valid_key k \<Longrightarrow> tget t' k = (if k = LString b then LNumber (cast_num (int (Suc (length pool)))) else tget t k)"
    using a by (simp_all add: assigned_def)
  have "tget t' k = (case k of LString c \<Rightarrow> if c \<in> set (pool @ [b]) then LNumber (cast_num (int (pool_index (pool @ [b]) c))) else LNil | _ \<Rightarrow> LNil)"
    if "valid_key k" for k
    using as(2) [OF that] n that b pool_index_new [OF b] pool_index_append [where qs = "[b]" and pool = pool]
    by (cases k) (auto simp: names_def)
  with as(1) show ?thesis by (simp add: names_def)
qed

text \<open>The tables are at \<open>ha\<close> and \<open>ia\<close>; their handles are the last two positions of the bottom part \<open>base\<close> of the stack.\<close>

definition handles :: "TValue list \<Rightarrow> addr \<Rightarrow> addr \<Rightarrow> WriterStrings \<Rightarrow> bool" where
  "handles base ha ia st \<longleftrightarrow> (\<exists>bs. base = bs @ [LTable ha, LTable ia] \<and> ws_handle st = int (length bs) + 1 \<and>
     ws_index2string st = int (length bs) + 2)"

definition ws_heap :: "addr \<Rightarrow> addr \<Rightarrow> WriterStrings \<Rightarrow> bytes list \<Rightarrow> lua_State \<Rightarrow> bool" where
  "ws_heap ha ia st pool s \<longleftrightarrow> heap_ok s \<and> ha \<noteq> ia \<and> ws_size st = length pool \<and> distinct pool \<and> length pool \<le> 2 ^ 26 \<and>
     (\<exists>tH tI. l_heap s ha = Some tH \<and> names tH pool \<and> l_heap s ia = Some tI \<and> key_list tI (map LString pool))"

lemma ws_heap_stack [simp]: "ws_heap ha ia st pool (s\<lparr>l_stack := x\<rparr>) = ws_heap ha ia st pool s"
  by (simp add: ws_heap_def)

lemma ws_heap_kept:
  assumes "ws_heap ha ia st pool s" "kept P s s'" "ha \<notin> P" "ia \<notin> P"
  shows "ws_heap ha ia st pool s'"
  using assms kept_heap [OF assms(2), of ha] kept_heap [OF assms(2), of ia] kept_ok [OF assms(2)]
  unfolding ws_heap_def by blast

lemma handlesD:
  assumes "handles base ha ia st"
  shows "0 < ws_handle st" "reads (ws_handle st) (base @ ys) (LTable ha)" "0 < ws_index2string st"
    "reads (ws_index2string st) (base @ ys) (LTable ia)"
  using assms by (auto simp: handles_def reads_def nat_add_distrib nth_append)

lemma tointeger_top:
  assumes "l_stack s = xs @ [LNumber (cast_num (int n))]" "n < 2 ^ 31"
  shows "lua_tointeger (- 1) s = (Inr (int n), s)"
proof -
  have "lua_number2integer (cast_num (int n)) = int n"
    using cast_num_finite(1) [of "int n"] assms(2) by (simp add: lua_number2integer_def dbl_to_int_def)
  then show ?thesis using assms(1) by (simp add: lua_tointeger_def luaV_tonumber_def api lbind_run)
qed

lemma storeString_run:
  assumes w: "ws_heap ha ia st pool s" and hd: "handles base ha ia st" and st: "l_stack s = base @ ys"
    and r: "reads idx (l_stack s) (LString b)" and b: "b \<in> set pool \<or> length pool < 2 ^ 26" and ft: "fits s 2"
  shows "\<exists>st' s'. storeString idx st s = (Inr (pool_index (if b \<in> set pool then pool else pool @ [b]) b, st'), s') \<and>
    ws_heap ha ia st' (if b \<in> set pool then pool else pool @ [b]) s' \<and> handles base ha ia st' \<and>
    kept {ha, ia} s s' \<and> l_stack s' = l_stack s"
proof -
  obtain tH tI where t: "l_heap s ha = Some tH" "names tH pool" "l_heap s ia = Some tI" "key_list tI (map LString pool)"
    and ok: "heap_ok s" and ne: "ha \<noteq> ia" and sz: "ws_size st = length pool" "distinct pool" "length pool \<le> 2 ^ 26"
    using w unfolding ws_heap_def by blast
  note H = handlesD [OF hd]
  let ?xs = "l_stack s"
  let ?s1 = "s\<lparr>l_stack := ?xs @ [LString b]\<rparr>"
  have p1: "lua_pushvalue idx s = (Inr (), ?s1)" using reads_value [OF r] by (simp add: api lbind_run)
  have rh: "reads (ws_handle st) ?xs (LTable ha)" using H(2) st by simp
  have g: "lua_rawget (ws_handle st) ?s1 = (Inr (), ?s1\<lparr>l_stack := ?xs @ [tget tH (LString b)]\<rparr>)"
    by (rule rawget_at [OF _ H(1) rh]) (use ok t(1) in simp_all)
  show ?thesis
  proof (cases "b \<in> set pool")
    case True
    let ?n = "pool_index pool b"
    have n: "?n < 2 ^ 31" "tget tH (LString b) = LNumber (cast_num (int ?n))"
      using pool_index_nth(2) [OF True] sz(3) True names_get [OF t(2)] by simp_all
    let ?s2 = "s\<lparr>l_stack := ?xs @ [LNumber (cast_num (int ?n))]\<rparr>"
    have "lua_tointeger (- 1) ?s2 = (Inr (int ?n), ?s2)" by (rule tointeger_top [OF _ n(1)]) simp
    moreover have "lua_isnil (- 1) ?s2 = (Inr False, ?s2)"
      using reads_type [of "- 1" ?s2 "LNumber (cast_num (int ?n))"] by (simp add: lua_isnil_def lbind_run)
    moreover have "nat (int ?n mod 2 ^ 64) = ?n" using n(1) by simp
    ultimately have "storeString idx st s = (Inr (?n, st), s)"
      using p1 g n(2) ft by (simp add: storeString_def lbind_run api fits_def)
    then show ?thesis using True w hd ok by (intro exI [of _ st] exI [of _ s]) simp
  next
    case False
    let ?n = "length pool + 1"
    have n: "length pool < 2 ^ 26" using False b by simp
    define st' where "st' = st\<lparr>ws_size := ?n, ws_cacheSize := ws_cacheSize st + length b\<rparr>"
    have nil: "tget tH (LString b) = LNil" using names_get [OF t(2)] False by simp
    let ?s2 = "s\<lparr>l_stack := ?xs @ [LNil]\<rparr>"
    have isn: "lua_isnil (- 1) ?s2 = (Inr True, ?s2)"
      using reads_type [of "- 1" ?s2 LNil] by (simp add: lua_isnil_def lbind_run)
    have len: "lua_objlen idx s = (Inr (length b), s)" using reads_value [OF r] by (simp add: lua_objlen_def lbind_run)
    let ?v = "LNumber (cast_num (int ?n))"
    let ?s3 = "s\<lparr>l_stack := ?xs @ [LString b, ?v]\<rparr>"
    have lenH: "length (entries tH) < 2 ^ 26" using names_length [OF t(2)] n by simp
    obtain tH' where H': "lua_rawset (ws_handle st) ?s3 = (Inr (), ?s3\<lparr>l_heap := (l_heap ?s3)(ha \<mapsto> tH'), l_stack := ?xs\<rparr>)"
      "assigned tH (LString b) ?v tH'"
      by (rule rawset_at [OF _ H(1) rh, of ?s3 tH "LString b" ?v]) (use ok t(1) lenH in simp_all)
    have nH: "names tH' (pool @ [b])" by (rule names_snoc [OF t(2) _ False]) (use H'(2) in simp)
    let ?s4 = "s\<lparr>l_heap := (l_heap s)(ha \<mapsto> tH')\<rparr>"
    have bh: "ha < l_brk s" "ia < l_brk s" using heap_okD(2) [OF ok] t by blast+
    have ok4: "heap_ok ?s4" by (rule heap_ok_set [OF ok bh(1) names_wf [OF nH]])
    let ?s5 = "?s4\<lparr>l_stack := ?xs @ [LString b]\<rparr>"
    have "reads idx (l_stack ?s4) (LString b)" using r by simp
    then have p5: "lua_pushvalue idx ?s4 = (Inr (), ?s5)" using reads_value [of idx ?s4] by (simp add: api lbind_run)
    have lenI: "length (entries tI) < 2 ^ 26" using key_list_length [OF t(4)] n by simp
    have "reads (ws_index2string st) (l_stack ?s5) (LTable ia)" using H(4) [of "ys @ [LString b]"] st by simp
    note ri = reads_value [OF this]
    obtain tI' where I': "lua_rawseti (ws_index2string st) (int ?n) ?s5 = (Inr (), ?s5\<lparr>l_heap := (l_heap ?s5)(ia \<mapsto> tI'), l_stack := ?xs\<rparr>)"
      "assigned tI (ikey (int ?n)) (LString b) tI'"
      by (rule rawseti_at [OF _ ri, of tI ?xs "LString b" "int ?n"]) (use ok4 t(3) n lenI ne in simp_all)
    have kI: "key_list tI' (map LString (pool @ [b]))"
      using key_list_snoc [OF t(4), of "LString b" tI'] I'(2) n by simp
    let ?s6 = "s\<lparr>l_heap := (l_heap s)(ha \<mapsto> tH', ia \<mapsto> tI')\<rparr>"
    have k4: "kept {ha, ia} s ?s4" by (rule kept_set [OF _ _ bh(1) names_wf [OF nH]]) (use ok in simp_all)
    have k6: "kept {ha, ia} s ?s6"
      using kept_set [OF k4, of ia tI'] bh(2) key_list_wf [OF kI] by simp
    have s32: "sint (of_nat ?n :: 32 word) = int ?n" by (rule sint_small) (use n in simp)
    have "storeString idx st s = (Inr (?n, st'), ?s6)"
      unfolding storeString_def Let_def using p1 g nil isn len sz(1) H'(1) p5 I'(1) s32 ft
      by (simp add: lbind_run api st'_def fits_def del: fun_upd_apply)
    moreover have "ws_heap ha ia st' (pool @ [b]) ?s6"
      unfolding ws_heap_def using kept_ok [OF k6] ne sz n False nH kI by (simp add: st'_def)
    moreover have "handles base ha ia st'" using hd by (simp add: handles_def st'_def)
    ultimately show ?thesis
      using False k6 pool_index_new [OF False] by (intro exI [of _ st'] exI [of _ ?s6]) simp
  qed
qed

subsection \<open>Writing the pool\<close>

lemma ws_write_loop_run:
  assumes t: "l_heap s ia = Some tI" "key_list tI (map LString pool)" and r: "reads (ws_index2string st) (l_stack s) (LTable ia)"
    and i2s: "0 < ws_index2string st" and ok: "heap_ok s" and n: "length pool \<le> 2 ^ 26" and ft: "fits s 1"
  shows "i + c = length pool \<Longrightarrow> w_inv w \<Longrightarrow>
    \<exists>w'. ws_write_loop st (Suc i) c w s = (Inr w', s) \<and> w_inv w' \<and> contents w' = contents w @ concat (map enc_string (drop i pool))"
proof (induction c arbitrary: i w)
  case (Suc c)
  let ?b = "pool ! i"
  have i: "i < length pool" using Suc.prems by simp
  have v: "tgeti tI (Suc i) = LString ?b" using key_list_nth [OF t(2), of i] i by simp
  have s32: "sint (of_nat (Suc i) :: 32 word) = int (Suc i)"
    by (rule sint_small) (use i n in simp)
  have g: "lua_rawgeti (ws_index2string st) (int (Suc i)) s = (Inr (), s\<lparr>l_stack := l_stack s @ [LString ?b]\<rparr>)"
    using rawgeti_at [OF ok reads_value [OF r] t(1), of "int (Suc i)"] i n v by simp
  let ?s = "s\<lparr>l_stack := l_stack s @ [LString ?b]\<rparr>"
  have ts: "lua_tolstring (- 1) ?s = (Inr (Some ?b), ?s)"
    using reads_value [of "- 1" ?s "LString ?b"] by (simp add: lua_tolstring_def lbind_run)
  let ?w = "writeBytes ?b (writeNumber 2 (int (length ?b)) w)"
  have w: "w_inv ?w" "contents ?w = contents w @ enc_string ?b" using Suc.prems(2) by (simp_all add: write_bytes enc_string_def)
  obtain w' where w': "ws_write_loop st (Suc (Suc i)) c ?w s = (Inr w', s)" "w_inv w'"
    "contents w' = contents ?w @ concat (map enc_string (drop (Suc i) pool))"
    using Suc.IH [of "Suc i" ?w] Suc.prems w(1) by auto
  have d: "drop i pool = ?b # drop (Suc i) pool" using i by (rule Cons_nth_drop_Suc [symmetric])
  have "ws_write_loop st (Suc i) (Suc c) w s = (Inr w', s)"
    using g ts w'(1) s32 ft by (simp add: lbind_run api fits_def del: of_nat_Suc)
  then show ?case using w' w(2) d by (intro exI [of _ w']) simp
qed (simp add: lbind_run)

lemma ws_write_run:
  assumes w: "ws_heap ha ia st pool s" and r: "handles base ha ia st" "l_stack s = base @ ys" and wi: "w_inv w" and ft: "fits s 1"
  shows "\<exists>w'. ws_write st w s = (Inr w', s) \<and> w_inv w' \<and> contents w' = contents w @ enc_pool pool"
proof -
  obtain tI where t: "l_heap s ia = Some tI" "key_list tI (map LString pool)" "heap_ok s" "ws_size st = length pool" "length pool \<le> 2 ^ 26"
    using w unfolding ws_heap_def by blast
  have rd: "reads (ws_index2string st) (l_stack s) (LTable ia)" using handlesD(4) [OF r(1)] r(2) by simp
  let ?w = "writeNumber 4 (int (length pool)) w"
  have wn: "w_inv ?w" "contents ?w = contents w @ le_bytes 4 (int (length pool))" using wi by (simp_all add: write_bytes)
  have "\<exists>w'. ws_write_loop st (Suc 0) (length pool) ?w s = (Inr w', s) \<and> w_inv w' \<and>
      contents w' = contents ?w @ concat (map enc_string (drop 0 pool))"
    by (rule ws_write_loop_run [OF t(1,2) rd handlesD(3) [OF r(1)] t(3,5) ft]) (use wn in simp_all)
  then obtain w' where "ws_write_loop st 1 (length pool) ?w s = (Inr w', s)" "w_inv w'"
    "contents w' = contents ?w @ concat (map enc_string pool)" by auto
  then show ?thesis using wn t(4) by (intro exI [of _ w']) (simp add: ws_write_def enc_pool_def)
qed

end
