(* ===== verification/Writer_Run.thy ===== *)
theory Writer_Run
  imports Writer_Pool
begin

text \<open>
  The writer on a value: \<open>written\<close> says which document \<open>writeValue\<close> makes of a Lua value, \<open>wire_pool\<close> which strings it adds to
  the pool, and the theorems that it writes the encoding of this document and leaves the value and the rest of the state alone.
\<close>

subsection \<open>The pool after a document\<close>

fun scalar_pool :: "bytes list \<Rightarrow> TValue \<Rightarrow> bytes list" where
  "scalar_pool p (LString b) = pool_add p b"
| "scalar_pool p _ = p"

fun wire_pool :: "bytes list \<Rightarrow> wire \<Rightarrow> bytes list" where
  "wire_pool p (WVal v) = scalar_pool p v"
| "wire_pool p (WArr ws) = fold (\<lambda>w q. wire_pool q w) ws p"
| "wire_pool p (WMap kvs) = fold (\<lambda>kw q. wire_pool (scalar_pool q (fst kw)) (snd kw)) kvs p"

abbreviation items_pool :: "wire list \<Rightarrow> bytes list \<Rightarrow> bytes list" where
  "items_pool \<equiv> fold (\<lambda>w q. wire_pool q w)"

abbreviation pairs_pool :: "(TValue \<times> wire) list \<Rightarrow> bytes list \<Rightarrow> bytes list" where
  "pairs_pool \<equiv> fold (\<lambda>kw q. wire_pool (scalar_pool q (fst kw)) (snd kw))"

fun in_pool :: "bytes list \<Rightarrow> TValue \<Rightarrow> bool" where
  "in_pool p (LString b) = (b = [] \<or> b \<in> set p)"
| "in_pool p _ = True"

fun covered :: "bytes list \<Rightarrow> wire \<Rightarrow> bool" where
  "covered p (WVal v) = in_pool p v"
| "covered p (WArr ws) = (\<forall>w \<in> set ws. covered p w)"
| "covered p (WMap kvs) = (\<forall>kw \<in> set kvs. in_pool p (fst kw) \<and> covered p (snd kw))"

definition extends :: "bytes list \<Rightarrow> bytes list \<Rightarrow> bool" where
  "extends p q \<longleftrightarrow> (\<exists>r. q = p @ r)"

lemma extends_refl [simp]: "extends p p"
  by (simp add: extends_def)

lemma extends_trans: "extends p q \<Longrightarrow> extends q r \<Longrightarrow> extends p r"
  by (auto simp: extends_def)

lemma extends_fold: "(\<And>x q. x \<in> set xs \<Longrightarrow> extends q (f x q)) \<Longrightarrow> extends p (fold f xs p)"
  by (induction xs arbitrary: p) (auto intro: extends_trans)

lemma extends_scalar [simp]: "extends p (scalar_pool p v)"
  by (cases v) (simp_all add: pool_add_def extends_def)

lemma extends_pool [simp]: "extends p (wire_pool p w)"
proof (induction p w rule: wire_pool.induct)
  case (2 p ws)
  then show ?case by (simp add: extends_fold)
next
  case (3 p kvs)
  then show ?case unfolding wire_pool.simps by (intro extends_fold) (rule extends_trans [OF extends_scalar])
qed simp

lemma in_pool_mono: "in_pool p v \<Longrightarrow> extends p q \<Longrightarrow> in_pool q v"
  by (cases v) (auto simp: extends_def)

lemma wire_induct [case_names val arr tab]:
  assumes "\<And>v. P (WVal v)" "\<And>ws. \<forall>w \<in> set ws. P w \<Longrightarrow> P (WArr ws)" "\<And>kvs. \<forall>kw \<in> set kvs. P (snd kw) \<Longrightarrow> P (WMap kvs)"
  shows "P w"
proof (induction w)
  case (WMap kvs)
  have "P (snd kw)" if "kw \<in> set kvs" for kw
    using WMap [OF that] by (cases kw) simp
  then show ?case using assms(3) by blast
qed (use assms in blast)+

lemma covered_mono: "covered p w \<Longrightarrow> extends p q \<Longrightarrow> covered q w"
proof (induction w rule: wire_induct)
  case (tab kvs)
  then show ?case using in_pool_mono [of p _ q] by simp
qed (simp_all add: in_pool_mono)

lemma in_scalar_pool [simp]: "in_pool (scalar_pool p v) v"
  by (cases v) (auto simp: pool_add_def)

lemma enc_scalar_mono: "in_pool p v \<Longrightarrow> extends p q \<Longrightarrow> enc_scalar q v = enc_scalar p v"
  by (cases v) (auto simp: extends_def pool_index_append)

lemma enc_mono: "covered p w \<Longrightarrow> extends p q \<Longrightarrow> enc q w = enc p w"
proof (induction w rule: wire_induct)
  case (val v)
  then show ?case by (simp add: enc_scalar_mono [of p _ q])
next
  case (arr ws)
  then have "map (enc q) ws = map (enc p) ws" by simp
  then show ?case by (simp only: enc.simps length_map)
next
  case (tab kvs)
  then have "map (\<lambda>kw. enc_scalar q (fst kw) @ enc q (snd kw)) kvs = map (\<lambda>kw. enc_scalar p (fst kw) @ enc p (snd kw)) kvs"
    by (simp add: enc_scalar_mono [of p _ q])
  then show ?case by (simp only: enc.simps length_map)
qed

text \<open>A fold over the parts covers every part.\<close>

lemma fold_covers:
  assumes "\<And>x q. x \<in> set xs \<Longrightarrow> extends q (f x q)" "\<And>x q. x \<in> set xs \<Longrightarrow> P (f x q) x" "\<And>x q r. P q x \<Longrightarrow> extends q r \<Longrightarrow> P r x"
  shows "x \<in> set xs \<Longrightarrow> P (fold f xs p) x"
  using assms
proof (induction xs arbitrary: p)
  case (Cons y ys)
  show ?case
  proof (cases "x \<in> set ys")
    case True
    have "P (fold f ys (f y p)) x" by (rule Cons.IH [OF True]) (use Cons.prems in auto)
    then show ?thesis by simp
  next
    case False
    then have "P (f y p) x" using Cons.prems by auto
    moreover have "extends (f y p) (fold f ys (f y p))" by (rule extends_fold) (use Cons.prems in auto)
    ultimately show ?thesis using Cons.prems(4) by simp
  qed
qed simp

lemma covered_pool [simp]: "covered (wire_pool p w) w"
proof (induction p w rule: wire_pool.induct)
  case (2 p ws)
  have "covered (items_pool ws p) w" if "w \<in> set ws" for w
    by (rule fold_covers [where P = covered, OF _ _ _ that]) (use 2 in \<open>auto intro: covered_mono\<close>)
  then show ?case by simp
next
  case (3 p kvs)
  let ?P = "\<lambda>q kw. in_pool q (fst kw) \<and> covered q (snd kw)"
  have "?P (pairs_pool kvs p) kw" if "kw \<in> set kvs" for kw
    by (rule fold_covers [where P = ?P, OF _ _ _ that])
      (use 3 in \<open>auto intro: covered_mono in_pool_mono extends_trans [OF extends_scalar extends_pool] in_pool_mono [OF in_scalar_pool extends_pool]\<close>)
  then show ?case by simp
qed simp

subsection \<open>What is written\<close>

fun is_scalar :: "TValue \<Rightarrow> bool" where
  "is_scalar LNil = True" | "is_scalar (LBoolean b) = True" | "is_scalar (LNumber n) = True" | "is_scalar (LString b) = True"
| "is_scalar _ = False"

definition key_sorted :: "TValue list \<Rightarrow> bool" where
  "key_sorted ks \<longleftrightarrow> (\<forall>i j. i < j \<longrightarrow> j < length ks \<longrightarrow> \<not> key_lt (ks ! j) (ks ! i))"

text \<open>
  A table is written as an array when its number of entries is its length (the border \<open>luaH_getn\<close> finds), else under its sorted
  keys.
\<close>

inductive written :: "(addr \<Rightarrow> Table option) \<Rightarrow> TValue \<Rightarrow> wire \<Rightarrow> bool" for h where
  scalar: "is_scalar v \<Longrightarrow> written h v (WVal v)"
| empty: "h a = Some t \<Longrightarrow> entries t = [] \<Longrightarrow> written h (LTable a) (WMap [])"
| array: "h a = Some t \<Longrightarrow> ws \<noteq> [] \<Longrightarrow> length (entries t) = length ws \<Longrightarrow> luaH_getn t = Inr (length ws) \<Longrightarrow>
    \<forall>i < length ws. written h (tgeti t (Suc i)) (ws ! i) \<Longrightarrow> written h (LTable a) (WArr ws)"
| dict: "h a = Some t \<Longrightarrow> kvs \<noteq> [] \<Longrightarrow> luaH_getn t \<noteq> Inr (length kvs) \<Longrightarrow> mset (map fst kvs) = mset (map fst (entries t)) \<Longrightarrow>
    key_sorted (map fst kvs) \<Longrightarrow> \<forall>kw \<in> set kvs. written h (tget t (fst kw)) (snd kw) \<Longrightarrow> written h (LTable a) (WMap kvs)"

inductive_cases written_scalarE: "written h LNil w" "written h (LBoolean b) w" "written h (LNumber n) w" "written h (LString b) w"
inductive_cases written_tableE: "written h (LTable a) w"

lemma written_scalar: "is_scalar v \<Longrightarrow> written h v w \<Longrightarrow> w = WVal v"
  by (cases v) (auto elim: written_scalarE)

text \<open>
  The values the writer accepts: scalars, and tables of such values nested at most \<open>d\<close> deep, with at most 2^26 entries, whose
  keys are numbers and strings unless they form an array. The strings are taken from a set.
\<close>

inductive writable :: "(addr \<Rightarrow> Table option) \<Rightarrow> bytes set \<Rightarrow> nat \<Rightarrow> TValue \<Rightarrow> bool" for h S where
  nil: "writable h S d LNil"
| boolean: "writable h S d (LBoolean b)"
| number: "writable h S d (LNumber n)"
| string: "b = [] \<or> b \<in> S \<Longrightarrow> writable h S d (LString b)"
| tab: "h a = Some t \<Longrightarrow> length (entries t) \<le> 2 ^ 26 \<Longrightarrow>
    luaH_getn t = Inr (length (entries t)) \<or> (\<forall>kv \<in> set (entries t). sort_key (fst kv) \<and> (\<forall>b. fst kv = LString b \<longrightarrow> b \<in> insert [] S)) \<Longrightarrow>
    \<forall>k. valid_key k \<longrightarrow> writable h S d (tget t k) \<Longrightarrow> writable h S (Suc d) (LTable a)"

inductive_cases writable_tabE: "writable h S d (LTable a)"
inductive_cases writable_stringE: "writable h S d (LString b)"

lemma writable_cases: "writable h S d v \<Longrightarrow> is_scalar v \<or> (\<exists>a. v = LTable a)"
  by (cases rule: writable.cases) auto

lemma writable_key: "sort_key k \<Longrightarrow> (\<forall>b. k = LString b \<longrightarrow> b \<in> insert [] S) \<Longrightarrow> writable h S d k"
  by (cases k) (auto intro: writable.intros)

subsection \<open>The state of the writer\<close>

definition w_state :: "lua_State \<Rightarrow> bytes set \<Rightarrow> TValue list \<Rightarrow> addr \<Rightarrow> addr \<Rightarrow> WriterStrings \<Rightarrow> bytes list \<Rightarrow> lua_State \<Rightarrow> bool" where
  "w_state s0 S base ha ia st pool s \<longleftrightarrow> kept {} s0 s \<and> ws_heap ha ia st pool s \<and> handles base ha ia st \<and>
     l_brk s0 \<le> ha \<and> l_brk s0 \<le> ia \<and> set pool \<subseteq> S \<and> [] \<notin> set pool"

lemma w_stateD:
  assumes "w_state s0 S base ha ia st pool s"
  shows "kept {} s0 s" "heap_ok s" "ws_heap ha ia st pool s" "handles base ha ia st" "l_brk s0 \<le> ha" "l_brk s0 \<le> ia"
    "ha < l_brk s" "ia < l_brk s" "set pool \<subseteq> S" "distinct pool"
  using assms by (auto simp: w_state_def ws_heap_def dest: heap_okD(2))

lemma w_state_stack [simp]: "w_state s0 S base ha ia st pool (s\<lparr>l_stack := x\<rparr>) = w_state s0 S base ha ia st pool s"
  by (simp add: w_state_def)

lemma w_state_heap: "w_state s0 S base ha ia st pool s \<Longrightarrow> heap_ok s0 \<Longrightarrow> l_heap s0 a = Some t \<Longrightarrow> l_heap s a = Some t"
  by (rule kept_heap [of "{}" s0]) (simp_all add: w_state_def)

lemma kept_base: "kept {} s0 s \<Longrightarrow> kept P s s' \<Longrightarrow> \<forall>p \<in> P. l_brk s0 \<le> p \<Longrightarrow> kept {} s0 s'"
  unfolding kept_def by (metis empty_iff less_le_trans not_less)

lemma w_state_kept:
  assumes "w_state s0 S base ha ia st pool s" "kept {} s s'"
  shows "w_state s0 S base ha ia st pool s'"
  using assms kept_base [OF _ assms(2)] ws_heap_kept [OF _ assms(2)] by (simp add: w_state_def)

text \<open>What a writer function does with a value it finds at an index.\<close>

definition writes :: "lua_State \<Rightarrow> bytes set \<Rightarrow> TValue list \<Rightarrow> addr \<Rightarrow> addr \<Rightarrow> (wstate \<Rightarrow> (bool \<times> wstate) lua) \<Rightarrow> bytes list \<Rightarrow>
    WriterStrings \<Rightarrow> BinaryWriter \<Rightarrow> lua_State \<Rightarrow> bytes list \<Rightarrow> bytes \<Rightarrow> bool" where
  "writes s0 S base ha ia m pool st w s pool' bs \<longleftrightarrow> (\<exists>st' w' s'. m (st, w) s = (Inr (True, (st', w')), s') \<and>
     w_state s0 S base ha ia st' pool' s' \<and> kept {ha, ia} s s' \<and> l_stack s' = l_stack s \<and> w_inv w' \<and> contents w' = contents w @ bs)"

text \<open>
  A writer of values of depth \<open>d\<close> takes at most \<open>slots_for d\<close> slots: two for every level, a key and its table of keys, and three
  more to store a string or to call \<^verbatim>\<open>table.sort\<close>.
\<close>

definition slots_for :: "nat \<Rightarrow> nat" where
  "slots_for d = 2 * d + 3"

definition good_writer :: "lua_State \<Rightarrow> bytes set \<Rightarrow> TValue list \<Rightarrow> addr \<Rightarrow> addr \<Rightarrow> nat \<Rightarrow> write_fun \<Rightarrow> bool" where
  "good_writer s0 S base ha ia d wv \<longleftrightarrow> (\<forall>idx v pool st w s ys. writable (l_heap s0) S d v \<longrightarrow> w_state s0 S base ha ia st pool s \<longrightarrow>
     l_stack s = base @ ys \<longrightarrow> reads idx (l_stack s) v \<longrightarrow> w_inv w \<longrightarrow> fits s (slots_for d) \<longrightarrow>
     (\<exists>wr. written (l_heap s0) v wr \<and> writes s0 S base ha ia (wv idx) pool st w s (wire_pool pool wr) (enc (wire_pool pool wr) wr)))"

lemma good_writerE:
  assumes "good_writer s0 S base ha ia d wv" "writable (l_heap s0) S d v" "w_state s0 S base ha ia st pool s"
    "l_stack s = base @ ys" "reads idx (l_stack s) v" "w_inv w" "fits s (slots_for d)"
  obtains wr st' w' s' where "written (l_heap s0) v wr" "wv idx (st, w) s = (Inr (True, (st', w')), s')"
    "w_state s0 S base ha ia st' (wire_pool pool wr) s'" "kept {ha, ia} s s'" "l_stack s' = l_stack s" "w_inv w'"
    "contents w' = contents w @ enc (wire_pool pool wr) wr"
  using assms unfolding good_writer_def writes_def by blast

lemma good_writer_topE:
  assumes "good_writer s0 S base ha ia d wv" "writable (l_heap s0) S d v" "w_state s0 S base ha ia st pool s"
    "l_stack s = base @ ys @ [v]" "w_inv w" "fits s (slots_for d)"
  obtains wr st' w' s' where "written (l_heap s0) v wr" "wv (- 1) (st, w) s = (Inr (True, (st', w')), s')"
    "w_state s0 S base ha ia st' (wire_pool pool wr) s'" "kept {ha, ia} s s'" "l_stack s' = l_stack s" "w_inv w'"
    "contents w' = contents w @ enc (wire_pool pool wr) wr"
proof (rule good_writerE [OF assms(1-4) _ assms(5,6)])
  show "reads (- 1) (l_stack s) v" using reads_top [of "base @ ys" v] assms(4) by simp
qed (rule that)

lemma writesI:
  "m (st, w) s = (Inr (True, (st', w')), s') \<Longrightarrow> w_state s0 S base ha ia st' pool' s' \<Longrightarrow> kept {ha, ia} s s' \<Longrightarrow>
    l_stack s' = l_stack s \<Longrightarrow> w_inv w' \<Longrightarrow> contents w' = contents w @ bs \<Longrightarrow> writes s0 S base ha ia m pool st w s pool' bs"
  unfolding writes_def by blast

lemma extends_fold_pool: "extends p (items_pool ws p)"
  by (rule extends_fold) simp

lemma extends_fold_pairs: "extends p (pairs_pool kvs p)"
  by (rule extends_fold) (rule extends_trans [OF extends_scalar extends_pool])

subsection \<open>Arrays\<close>

lemma write_items_run:
  assumes gw: "good_writer s0 S base ha ia d wv" and ok0: "heap_ok s0" and t: "l_heap s0 a = Some t"
    and el: "\<forall>k. valid_key k \<longrightarrow> writable (l_heap s0) S d (tget t k)"
  shows "w_state s0 S base ha ia st pool s \<Longrightarrow> l_stack s = base @ ys \<Longrightarrow> reads index (l_stack s) (LTable a) \<Longrightarrow> w_inv w \<Longrightarrow> i + n < 2 ^ 31 \<Longrightarrow> fits s (Suc (slots_for d)) \<Longrightarrow>
    \<exists>ws. length ws = n \<and> (\<forall>j < n. written (l_heap s0) (tgeti t (i + j)) (ws ! j)) \<and>
      writes s0 S base ha ia (write_items wv index i n) pool st w s (items_pool ws pool)
        (concat (map (enc (items_pool ws pool)) ws))"
proof (induction n arbitrary: i pool st w s)
  case 0
  then show ?case by (auto intro!: writesI simp: w_stateD)
next
  case (Suc n)
  note D = w_stateD [OF Suc.prems(1)]
  let ?v = "tgeti t i"
  have ta: "l_heap s a = Some t" by (rule w_state_heap [OF Suc.prems(1) ok0 t])
  have s32: "sint (of_nat i :: 32 word) = int i" by (rule sint_small) (use Suc.prems(5) in simp)
  have vk: "valid_key (LNumber (cast_num (int i)))" by (rule valid_int_key) (use Suc.prems(5) in simp)
  let ?s1 = "s\<lparr>l_stack := l_stack s @ [?v]\<rparr>"
  have g: "lua_rawgeti index (int i) s = (Inr (), ?s1)"
    by (rule rawgeti_at [OF D(2) reads_value [OF Suc.prems(3)] ta]) (use Suc.prems(5) in simp_all)
  have "w_state s0 S base ha ia st pool ?s1" using Suc.prems(1) by simp
  then obtain wr st1 w1 s2 where r: "written (l_heap s0) ?v wr" "wv (- 1) (st, w) ?s1 = (Inr (True, (st1, w1)), s2)"
    "w_state s0 S base ha ia st1 (wire_pool pool wr) s2" "kept {ha, ia} ?s1 s2" "l_stack s2 = l_stack ?s1" "w_inv w1"
    "contents w1 = contents w @ enc (wire_pool pool wr) wr"
    by (rule good_writer_topE [OF gw el [THEN spec, THEN mp, OF vk], where ys = ys])
      (use Suc.prems(2,4,6) in \<open>simp_all add: fits_def\<close>)
  let ?s3 = "s2\<lparr>l_stack := l_stack s\<rparr>"
  have pop: "lua_pop 1 s2 = (Inr (), ?s3)" using r(5) by (simp add: api)
  have "w_state s0 S base ha ia st1 (wire_pool pool wr) ?s3" using r(3) by simp
  then obtain ws where ws: "length ws = n" "\<forall>j < n. written (l_heap s0) (tgeti t (Suc i + j)) (ws ! j)"
    "writes s0 S base ha ia (write_items wv index (Suc i) n) (wire_pool pool wr) st1 w1 ?s3 (items_pool ws (wire_pool pool wr))
        (concat (map (enc (items_pool ws (wire_pool pool wr))) ws))"
    using Suc.IH [of st1 "wire_pool pool wr" ?s3 w1 "Suc i"] Suc.prems r(6) kept_ci_top [OF r(4)] by (auto simp: fits_def)
  let ?p = "items_pool ws (wire_pool pool wr)"
  obtain st' w' s' where f: "write_items wv index (Suc i) n (st1, w1) ?s3 = (Inr (True, (st', w')), s')"
    "w_state s0 S base ha ia st' ?p s'" "kept {ha, ia} ?s3 s'" "l_stack s' = l_stack ?s3" "w_inv w'"
    "contents w' = contents w1 @ concat (map (enc ?p) ws)" using ws(3) unfolding writes_def by blast
  have "enc ?p wr = enc (wire_pool pool wr) wr" by (rule enc_mono [OF covered_pool extends_fold_pool])
  then have c: "contents w' = contents w @ concat (map (enc ?p) (wr # ws))" using f(6) r(7) by simp
  have kp: "kept {ha, ia} s s'" using r(4) f(3) by (auto intro: kept_trans)
  have run: "write_items wv index i (Suc n) (st, w) s = (Inr (True, (st', w')), s')"
    using g r(2) pop f(1) s32 Suc.prems(6) by (simp add: lbind_run api_incr_top_run fits_def)
  have "writes s0 S base ha ia (write_items wv index i (Suc n)) pool st w s ?p (concat (map (enc ?p) (wr # ws)))"
    by (rule writesI, rule run, rule f(2), rule kp, simp add: f(4), rule f(5), rule c)
  moreover have "\<forall>j < Suc n. written (l_heap s0) (tgeti t (i + j)) ((wr # ws) ! j)"
    using ws(2) r(1) by (simp add: All_less_Suc2 ac_simps)
  ultimately show ?case using ws(1) by (intro exI [of _ "wr # ws"]) (simp del: write_items.simps)
qed

subsection \<open>Tables by key\<close>

lemma write_pairs_run:
  assumes gw: "good_writer s0 S base ha ia d wv" and ok0: "heap_ok s0" and t: "l_heap s0 a = Some t"
    and el: "\<forall>k. valid_key k \<longrightarrow> writable (l_heap s0) S d (tget t k)" and r: "0 < index" "reads index (base @ ys) (LTable a)"
    and kn: "ka \<noteq> ha" "ka \<noteq> ia" and kl: "key_list kt ks" and nk: "length ks \<le> 2 ^ 26"
    and ke: "\<forall>k \<in> set ks. valid_key k \<and> is_scalar k \<and> writable (l_heap s0) S d k"
  shows "w_state s0 S base ha ia st pool s \<Longrightarrow> l_heap s ka = Some kt \<Longrightarrow> l_stack s = base @ ys @ [LTable ka] \<Longrightarrow> w_inv w \<Longrightarrow> i + n = length ks \<Longrightarrow> fits s (Suc (slots_for d)) \<Longrightarrow>
    \<exists>kvs. map fst kvs = drop i ks \<and> (\<forall>kw \<in> set kvs. written (l_heap s0) (tget t (fst kw)) (snd kw)) \<and>
      writes s0 S base ha ia (write_pairs wv index (Suc i) n) pool st w s (pairs_pool kvs pool)
        (concat (map (\<lambda>kw. enc_scalar (pairs_pool kvs pool) (fst kw) @
           enc (pairs_pool kvs pool) (snd kw)) kvs))"
proof (induction n arbitrary: i pool st w s)
  case 0
  have "writes s0 S base ha ia (write_pairs wv index (Suc i) 0) pool st w s pool []"
    by (rule writesI [where st' = st and w' = w and s' = s]) (use 0 in \<open>simp_all add: w_stateD\<close>)
  then show ?case using 0 by (intro exI [of _ "[]"]) (simp del: write_pairs.simps)
next
  case (Suc n)
  note D = w_stateD [OF Suc.prems(1)]
  let ?k = "ks ! i"
  have i: "i < length ks" using Suc.prems(5) by simp
  have k: "valid_key ?k" "is_scalar ?k" "writable (l_heap s0) S d ?k" using ke i by auto
  let ?s1 = "s\<lparr>l_stack := base @ ys @ [LTable ka, ?k]\<rparr>"
  have "reads (- 1) (l_stack s) (LTable ka)" using reads_top [of "base @ ys" "LTable ka"] Suc.prems(3) by simp
  then have g: "lua_rawgeti (- 1) (int (Suc i)) s = (Inr (), ?s1)"
    using rawgeti_at [OF D(2) reads_value Suc.prems(2), of "- 1" "int (Suc i)"] key_list_nth [OF kl i] i nk Suc.prems(3) by simp
  have "w_state s0 S base ha ia st pool ?s1" using Suc.prems(1) by simp
  then obtain wk st1 w1 s2 where 1: "written (l_heap s0) ?k wk" "wv (- 1) (st, w) ?s1 = (Inr (True, (st1, w1)), s2)"
    "w_state s0 S base ha ia st1 (wire_pool pool wk) s2" "kept {ha, ia} ?s1 s2" "l_stack s2 = l_stack ?s1" "w_inv w1"
    "contents w1 = contents w @ enc (wire_pool pool wk) wk"
    by (rule good_writer_topE [OF gw k(3), where ys = "ys @ [LTable ka]"]) (use Suc.prems(3,4,6) in \<open>simp_all add: fits_def\<close>)
  have wk: "wk = WVal ?k" by (rule written_scalar [OF k(2) 1(1)])
  let ?q = "scalar_pool pool ?k"
  note D1 = w_stateD [OF 1(3)]
  have ta: "l_heap s2 a = Some t" by (rule w_state_heap [OF 1(3) ok0 t])
  let ?v = "tget t ?k"
  let ?s3 = "s2\<lparr>l_stack := base @ ys @ [LTable ka, ?v]\<rparr>"
  have rg: "lua_rawget index s2 = (Inr (), ?s3)"
    using rawget_at [OF D1(2) r(1) reads_append [OF r, of "[LTable ka]"] ta _ k(1)] 1(5) by simp
  have "w_state s0 S base ha ia st1 ?q ?s3" using 1(3) wk by simp
  then obtain wr st2 w2 s4 where 2: "written (l_heap s0) ?v wr" "wv (- 1) (st1, w1) ?s3 = (Inr (True, (st2, w2)), s4)"
    "w_state s0 S base ha ia st2 (wire_pool ?q wr) s4" "kept {ha, ia} ?s3 s4" "l_stack s4 = l_stack ?s3" "w_inv w2"
    "contents w2 = contents w1 @ enc (wire_pool ?q wr) wr"
    by (rule good_writer_topE [OF gw el [THEN spec, THEN mp, OF k(1)], where ys = "ys @ [LTable ka]"])
      (use 1(6) Suc.prems(3,6) kept_ci_top [OF 1(4)] in \<open>simp_all add: fits_def\<close>)
  let ?s5 = "s4\<lparr>l_stack := base @ ys @ [LTable ka]\<rparr>"
  have pop: "lua_pop 1 s4 = (Inr (), ?s5)" using 2(5) by (simp add: api)
  have k5: "kept {ha, ia} s ?s5" using 1(4) 2(4) by (auto intro: kept_trans)
  have kt5: "l_heap ?s5 ka = Some kt" using kept_heap [OF k5 D(2) Suc.prems(2)] kn by simp
  let ?F = pairs_pool
  have "w_state s0 S base ha ia st2 (wire_pool ?q wr) ?s5" using 2(3) by simp
  then obtain kvs where kvs: "map fst kvs = drop (Suc i) ks" "\<forall>kw \<in> set kvs. written (l_heap s0) (tget t (fst kw)) (snd kw)"
    "writes s0 S base ha ia (write_pairs wv index (Suc (Suc i)) n) (wire_pool ?q wr) st2 w2 ?s5 (?F kvs (wire_pool ?q wr))
      (concat (map (\<lambda>kw. enc_scalar (?F kvs (wire_pool ?q wr)) (fst kw) @ enc (?F kvs (wire_pool ?q wr)) (snd kw)) kvs))"
    using Suc.IH [of st2 "wire_pool ?q wr" ?s5 w2 "Suc i"] Suc.prems(3,5,6) kt5 2(6) kept_ci_top [OF k5] by (auto simp: fits_def)
  let ?p = "?F kvs (wire_pool ?q wr)"
  obtain st' w' s' where f: "write_pairs wv index (Suc (Suc i)) n (st2, w2) ?s5 = (Inr (True, (st', w')), s')"
    "w_state s0 S base ha ia st' ?p s'" "kept {ha, ia} ?s5 s'" "l_stack s' = l_stack ?s5" "w_inv w'"
    "contents w' = contents w2 @ concat (map (\<lambda>kw. enc_scalar ?p (fst kw) @ enc ?p (snd kw)) kvs)" using kvs(3) unfolding writes_def by blast
  have e: "enc ?p wr = enc (wire_pool ?q wr) wr" by (rule enc_mono [OF covered_pool extends_fold_pairs])
  have "extends ?q ?p" by (rule extends_trans [OF extends_pool extends_fold_pairs])
  then have es: "enc_scalar ?p ?k = enc_scalar ?q ?k" by (rule enc_scalar_mono [OF in_scalar_pool])
  have c: "contents w' = contents w @ concat (map (\<lambda>kw. enc_scalar ?p (fst kw) @ enc ?p (snd kw)) ((?k, wr) # kvs))"
    using f(6) 2(7) 1(7) e es wk by simp
  have kp: "kept {ha, ia} s s'" by (rule kept_trans [OF k5 f(3)])
  have run: "write_pairs wv index (Suc i) (Suc n) (st, w) s = (Inr (True, (st', w')), s')"
    using g 1(2) rg 2(2) pop f(1) Suc.prems(3,6) by (simp add: lbind_run api_incr_top_run fits_def)
  have "writes s0 S base ha ia (write_pairs wv index (Suc i) (Suc n)) pool st w s ?p
      (concat (map (\<lambda>kw. enc_scalar ?p (fst kw) @ enc ?p (snd kw)) ((?k, wr) # kvs)))"
    by (rule writesI, rule run, rule f(2), rule kp, simp add: f(4) Suc.prems(3), rule f(5), rule c)
  moreover have "map fst ((?k, wr) # kvs) = drop i ks" using kvs(1) Cons_nth_drop_Suc [OF i] by simp
  moreover have "\<forall>kw \<in> set ((?k, wr) # kvs). written (l_heap s0) (tget t (fst kw)) (snd kw)" using kvs(2) 2(1) by simp
  ultimately show ?case by (intro exI [of _ "(?k, wr) # kvs"]) (simp del: write_pairs.simps)
qed

subsection \<open>Tables\<close>

lemma getn_total: "wf_table t \<Longrightarrow> \<exists>n. luaH_getn t = Inr n"
  using luaH_getn_spec by blast

lemma objlen_table:
  assumes "reads i (l_stack s) (LTable a)" "l_heap s a = Some t" "luaH_getn t = Inr n"
  shows "lua_objlen i s = (Inr n, s)"
  using reads_value [OF assms(1)] assms(2,3) by (simp add: lua_objlen_def api lbind_run)

lemma writeTable_abs:
  assumes "reads index0 (l_stack s) (LTable a)"
  shows "writeTable prog wv index0 ws s = writeTable prog wv (absidx index0 (l_stack s)) ws s"
  using reads_abs [OF assms] by (simp add: writeTable_def absidx_def api lbind_run)

lemma writes_tagged:
  assumes "writes s0 S base ha ia m pool st w1 s pool' bs" "contents w1 = contents w @ tag" "\<And>x. m' (st, w) x = m (st, w1) x"
  shows "writes s0 S base ha ia m' pool st w s pool' (tag @ bs)"
  using assms unfolding writes_def by auto

lemma writeTable_run:
  assumes gw: "good_writer s0 S base ha ia d wv" and ok0: "heap_ok s0" and sr: "sort_ready s0"
    and wv: "writable (l_heap s0) S (Suc d) (LTable a)" and w: "w_state s0 S base ha ia st pool s" and st: "l_stack s = base @ ys"
    and r: "0 < index" "reads index (l_stack s) (LTable a)" and wi: "w_inv w" and ft: "fits s (slots_for (Suc d))"
  shows "\<exists>wr. written (l_heap s0) (LTable a) wr \<and>
    writes s0 S base ha ia (writeTable (program_of ext (Suc (Suc m))) wv index) pool st w s (wire_pool pool wr) (enc (wire_pool pool wr) wr)"
proof -
  let ?prog = "program_of ext (Suc (Suc m))"
  from wv obtain t where t0: "l_heap s0 a = Some t" "length (entries t) \<le> 2 ^ 26"
    "luaH_getn t = Inr (length (entries t)) \<or> (\<forall>kv \<in> set (entries t). sort_key (fst kv) \<and> (\<forall>b. fst kv = LString b \<longrightarrow> b \<in> insert [] S))"
    "\<forall>k. valid_key k \<longrightarrow> writable (l_heap s0) S d (tget t k)"
    by (auto elim: writable_tabE)
  let ?n = "length (entries t)"
  note D = w_stateD [OF w]
  have t: "l_heap s a = Some t" by (rule w_state_heap [OF w ok0 t0(1)])
  have wf: "wf_table t" by (rule heap_okD(1) [OF ok0 t0(1)])
  obtain g where g: "luaH_getn t = Inr g" using getn_total [OF wf] by blast
  have cnt: "countTableLength index s = (Inr ?n, s)" by (rule countTableLength_run [OF D(2) _ r t]) (use ft in \<open>simp add: fits_def slots_for_def\<close>)
  have ol: "lua_objlen index s = (Inr g, s)" by (rule objlen_table [OF r(2) t g])
  have start: "writeTable ?prog wv index (st, w') s = (if ?n = 0 then (Inr (True, (st, writeType T_TABLE0 w')), s)
      else if ?n = g then write_items wv index 1 ?n (st, writeLength T_ARRAY0 ?n w') s
      else lbind (getSortedTableKeys ?prog index) (\<lambda>sorted. if \<not> sorted then lret (False, (st, writeLength T_TABLE0 ?n w'))
             else lbind (write_pairs wv index 1 ?n (st, writeLength T_TABLE0 ?n w')) (\<lambda>(ok, ws2).
                 if \<not> ok then lret (False, ws2) else lbind (lua_pop 1) (\<lambda>_. lret (True, ws2)))) s)" for w'
    using cnt ol r(1) by (simp add: writeTable_def Let_def api lbind_run)
  consider (empty) "?n = 0" | (arr) "?n \<noteq> 0" "?n = g" | (dict) "?n \<noteq> 0" "?n \<noteq> g" by blast
  then show ?thesis
  proof cases
    case empty
    have "written (l_heap s0) (LTable a) (WMap [])" by (rule written.empty [where h = "l_heap s0", OF t0(1)]) (use empty in simp)
    moreover have "writes s0 S base ha ia (writeTable ?prog wv index) pool st w s pool [of_nat T_TABLE0]"
      by (rule writesI [where st' = st and w' = "writeType T_TABLE0 w" and s' = s]) (use start empty w wi D in \<open>simp_all add: write_bytes\<close>)
    ultimately show ?thesis by (intro exI [of _ "WMap []"]) (simp add: enc_len_def len_class_def len_width_def)
  next
    case arr
    let ?w1 = "writeLength T_ARRAY0 ?n w"
    have w1: "w_inv ?w1" "contents ?w1 = contents w @ enc_len T_ARRAY0 ?n" using writeLength_bytes [OF wi] by blast+
    obtain ws where ws: "length ws = ?n" "\<forall>j < ?n. written (l_heap s0) (tgeti t (1 + j)) (ws ! j)"
      "writes s0 S base ha ia (write_items wv index 1 ?n) pool st ?w1 s (items_pool ws pool) (concat (map (enc (items_pool ws pool)) ws))"
      using write_items_run [OF gw ok0 t0(1,4) w st r(2) w1(1), of 1 ?n] t0(2) ft by (auto simp: fits_def slots_for_def)
    have "written (l_heap s0) (LTable a) (WArr ws)"
      by (rule written.array [where h = "l_heap s0", OF t0(1)]) (use ws(1,2) arr g in auto)
    moreover have "writes s0 S base ha ia (writeTable ?prog wv index) pool st w s (items_pool ws pool)
        (enc_len T_ARRAY0 ?n @ concat (map (enc (items_pool ws pool)) ws))"
    proof -
      obtain st' w' s' where "write_items wv index 1 ?n (st, ?w1) s = (Inr (True, (st', w')), s')"
        "w_state s0 S base ha ia st' (items_pool ws pool) s'" "kept {ha, ia} s s'" "l_stack s' = l_stack s" "w_inv w'"
        "contents w' = contents ?w1 @ concat (map (enc (items_pool ws pool)) ws)" using ws(3) unfolding writes_def by blast
      then show ?thesis using start arr w1(2) by (intro writesI [where st' = st' and w' = w' and s' = s']) simp_all
    qed
    ultimately show ?thesis using ws(1) by (intro exI [of _ "WArr ws"]) simp
  next
    case dict
    let ?w1 = "writeLength T_TABLE0 ?n w"
    have w1: "w_inv ?w1" "contents ?w1 = contents w @ enc_len T_TABLE0 ?n" using writeLength_bytes [OF wi] by blast+
    have keys: "\<forall>kv \<in> set (entries t). sort_key (fst kv) \<and> (\<forall>b. fst kv = LString b \<longrightarrow> b \<in> insert [] S)" using t0(3) g dict by auto
    have ft5: "fits s 5" using ft by (simp add: fits_def slots_for_def)
    obtain s1 ka kt ks where s1: "getSortedTableKeys ?prog index s = (Inr True, s1)" "kept {} s s1" "l_stack s1 = l_stack s @ [LTable ka]"
      "l_brk s \<le> ka" "ka < l_brk s1" "l_heap s1 ka = Some kt" "key_list kt ks" "mset ks = mset (map fst (entries t))"
      "\<forall>i j. i < j \<longrightarrow> j < length ks \<longrightarrow> \<not> key_lt (ks ! j) (ks ! i)"
      using getSortedTableKeys_run [OF D(2) ft5 sort_ready_kept [OF sr D(1) ok0] r t t0(2), where ext = ext and m = m] keys by blast
    have len: "length ks = ?n" using s1(8) by (metis length_map size_mset)
    have sets: "set ks = fst ` set (entries t)" using s1(8) by (metis set_map set_mset_mset)
    have ke: "\<forall>k \<in> set ks. valid_key k \<and> is_scalar k \<and> writable (l_heap s0) S d k"
    proof
      fix k assume "k \<in> set ks"
      then obtain kv where kv: "kv \<in> set (entries t)" "k = fst kv" using sets by auto
      then have sk: "sort_key k" "\<forall>b. k = LString b \<longrightarrow> b \<in> insert [] S" using keys by auto
      have "valid_key k" using entries_valid [OF wf kv(1)] kv(2) by simp
      moreover have "is_scalar k" using sk(1) by (cases k) simp_all
      ultimately show "valid_key k \<and> is_scalar k \<and> writable (l_heap s0) S d k" using writable_key [OF sk] by blast
    qed
    have ws1: "w_state s0 S base ha ia st pool s1" by (rule w_state_kept [OF w s1(2)])
    have rb: "reads index (base @ ys) (LTable a)" using r(2) st by simp
    have kn: "ka \<noteq> ha" "ka \<noteq> ia" using s1(4) D(7,8) by auto
    have nk: "length ks \<le> 2 ^ 26" using len t0(2) by simp
    have stk: "l_stack s1 = base @ ys @ [LTable ka]" using s1(3) st by simp
    have il: "0 + ?n = length ks" using len by simp
    have fk: "fits s1 (Suc (slots_for d))" using kept_fits [OF s1(2,3)] ft by (simp add: fits_def slots_for_def)
    obtain kvs where kvs: "map fst kvs = drop 0 ks" "\<forall>kw \<in> set kvs. written (l_heap s0) (tget t (fst kw)) (snd kw)"
      "writes s0 S base ha ia (write_pairs wv index (Suc 0) ?n) pool st ?w1 s1 (pairs_pool kvs pool)
        (concat (map (\<lambda>kw. enc_scalar (pairs_pool kvs pool) (fst kw) @ enc (pairs_pool kvs pool) (snd kw)) kvs))"
      using write_pairs_run [OF gw ok0 t0(1,4) r(1) rb kn s1(7) nk ke ws1 s1(6) stk w1(1) il fk] by blast
    obtain st' w' s' where f: "write_pairs wv index (Suc 0) ?n (st, ?w1) s1 = (Inr (True, (st', w')), s')"
      "w_state s0 S base ha ia st' (pairs_pool kvs pool) s'" "kept {ha, ia} s1 s'" "l_stack s' = l_stack s1" "w_inv w'"
      "contents w' = contents ?w1 @ concat (map (\<lambda>kw. enc_scalar (pairs_pool kvs pool) (fst kw) @ enc (pairs_pool kvs pool) (snd kw)) kvs)"
      using kvs(3) unfolding writes_def by blast
    have lk: "length kvs = ?n" using arg_cong [OF kvs(1), of length] len by simp
    have "written (l_heap s0) (LTable a) (WMap kvs)"
    proof (rule written.dict [where h = "l_heap s0", OF t0(1)])
      show "luaH_getn t \<noteq> Inr (length kvs)" using g dict lk by simp
      show "mset (map fst kvs) = mset (map fst (entries t))" "key_sorted (map fst kvs)"
        using kvs(1) s1(8,9) by (simp_all add: key_sorted_def)
    qed (use kvs(2) lk dict in auto)
    moreover have "writes s0 S base ha ia (writeTable ?prog wv index) pool st w s (pairs_pool kvs pool)
        (enc_len T_TABLE0 ?n @ concat (map (\<lambda>kw. enc_scalar (pairs_pool kvs pool) (fst kw) @ enc (pairs_pool kvs pool) (snd kw)) kvs))"
    proof (rule writesI [where st' = st' and w' = w' and s' = "s'\<lparr>l_stack := l_stack s\<rparr>"])
      show "kept {ha, ia} s (s'\<lparr>l_stack := l_stack s\<rparr>)" using kept_trans [OF kept_mono [OF s1(2)] f(3)] by simp
      show "writeTable ?prog wv index (st, w) s = (Inr (True, st', w'), s'\<lparr>l_stack := l_stack s\<rparr>)"
        using start dict s1(1,3) f(1,4) by (simp add: lbind_run api)
    qed (use f w1(2) in simp_all)
    ultimately show ?thesis using lk by (intro exI [of _ "WMap kvs"]) simp
  qed
qed

subsection \<open>Values\<close>

lemma pool_room:
  assumes "w_state s0 S base ha ia st pool s" "finite S" "card S \<le> 2 ^ 26" "b \<in> S"
  shows "b \<in> set pool \<or> length pool < 2 ^ 26"
proof (cases "b \<in> set pool")
  case False
  have "set pool \<subset> S" using w_stateD(9) [OF assms(1)] assms(4) False by blast
  then have "card (set pool) < card S" by (rule psubset_card_mono [OF assms(2)])
  then show ?thesis using distinct_card [OF w_stateD(10) [OF assms(1)]] assms(3) by simp
qed simp

lemma writeValue_scalar:
  assumes fin: "finite S" "card S \<le> 2 ^ 26" and wv: "writable (l_heap s0) S d v" and sc: "is_scalar v"
    and w: "w_state s0 S base ha ia st pool s" and st: "l_stack s = base @ ys" and r: "reads idx (l_stack s) v" and wi: "w_inv w" and ft: "fits s 2"
  shows "writes s0 S base ha ia (writeValue prog (Suc f) idx) pool st w s (scalar_pool pool v) (enc_scalar (scalar_pool pool v) v)"
proof -
  note D = w_stateD [OF w]
  note ty = reads_type [OF r] and va = reads_value [OF r]
  have const: "writes s0 S base ha ia (writeValue prog (Suc f) idx) pool st w s pool bs"
    if "writeValue prog (Suc f) idx (st, w) s = (Inr (True, (st, w')), s)" "w_inv w'" "contents w' = contents w @ bs" for w' bs
    by (rule writesI [where st' = st and w' = w' and s' = s]) (use that w D in \<open>simp_all del: writeValue.simps\<close>)
  show ?thesis
  proof (cases v)
    case LNil
    then show ?thesis using ty wi by (auto intro!: const simp: lbind_run write_bytes)
  next
    case (LBoolean b)
    have "lua_toboolean idx s = (Inr b, s)" using va LBoolean by (simp add: lua_toboolean_def lbind_run)
    then show ?thesis using ty wi LBoolean by (auto intro!: const simp: lbind_run write_bytes)
  next
    case (LNumber x)
    have n: "lua_tonumber idx s = (Inr x, s)" using va LNumber by (simp add: lua_tonumber_def luaV_tonumber_def lbind_run)
    let ?w = "if luai_numeq x (dbl_round x) then writeInteger (dbl_to_int 64 (dbl_round x)) w else writeFloat x w"
    have "writes s0 S base ha ia (writeValue prog (Suc f) idx) pool st w s pool (enc_num x)"
      by (rule const [of ?w]) (use n ty LNumber write_number_bytes [OF wi, of x] in \<open>simp_all add: lbind_run Let_def\<close>)
    then show ?thesis using LNumber by simp
  next
    case (LString b)
    have len: "lua_objlen idx s = (Inr (length b), s)" using va LString by (simp add: lua_objlen_def lbind_run)
    show ?thesis
    proof (cases "b = []")
      case True
      then show ?thesis using ty len wi LString
        by (auto intro!: const simp: lbind_run write_bytes pool_add_def)
    next
      case False
      have bS: "b \<in> S" using wv LString False by (auto elim: writable_stringE)
      let ?q = "if b \<in> set pool then pool else pool @ [b]"
      have q: "scalar_pool pool v = ?q" "set ?q \<subseteq> S" "[] \<notin> set ?q"
        using LString False bS D(9) w by (auto simp: pool_add_def w_state_def)
      obtain st' s' where ss: "storeString idx st s = (Inr (pool_index ?q b, st'), s')" "ws_heap ha ia st' ?q s'" "handles base ha ia st'"
        "kept {ha, ia} s s'" "l_stack s' = l_stack s"
        using storeString_run [OF D(3,4) st _ pool_room [OF w fin bS] ft, of idx] r LString by blast
      have w': "w_state s0 S base ha ia st' (scalar_pool pool v) s'"
        unfolding w_state_def q(1) using ss(2,3) q(2,3) D(5,6) kept_base [OF D(1) ss(4)] by simp
      let ?w = "writeLength T_STRING0 (pool_index ?q b) w"
      have wl: "w_inv ?w" "contents ?w = contents w @ enc_len T_STRING0 (pool_index ?q b)" using writeLength_bytes [OF wi] by blast+
      have e: "enc_scalar (scalar_pool pool v) v = enc_len T_STRING0 (pool_index ?q b)" using LString False q(1) by simp
      have run: "writeValue prog (Suc f) idx (st, w) s = (Inr (True, (st', ?w)), s')"
        using ty len ss(1) LString False by (simp add: lbind_run)
      show ?thesis
        unfolding e by (rule writesI, rule run, rule w', rule ss(4), rule ss(5), rule wl(1), rule wl(2))
    qed
  qed (use sc in simp_all)
qed

lemma writeValue_good:
  assumes ok0: "heap_ok s0" and sr: "sort_ready s0" and fin: "finite S" "card S \<le> 2 ^ 26"
  shows "d < f \<Longrightarrow> good_writer s0 S base ha ia d (writeValue (program_of ext (Suc (Suc m))) f)"
proof (induction f arbitrary: d)
  case (Suc f)
  let ?prog = "program_of ext (Suc (Suc m))"
  show ?case
    unfolding good_writer_def
  proof (intro allI impI)
    fix idx v pool st w s ys
    assume a: "writable (l_heap s0) S d v" "w_state s0 S base ha ia st pool s" "l_stack s = base @ ys" "reads idx (l_stack s) v" "w_inv w" "fits s (slots_for d)"
    have ft: "fits s 2" using a(6) by (simp add: fits_def slots_for_def)
    from writable_cases [OF a(1)] show "\<exists>wr. written (l_heap s0) v wr \<and>
        writes s0 S base ha ia (writeValue ?prog (Suc f) idx) pool st w s (wire_pool pool wr) (enc (wire_pool pool wr) wr)"
    proof
      assume "is_scalar v"
      then show ?thesis
        using writeValue_scalar [OF fin a(1) _ a(2-5) ft, of ?prog f] written.scalar by (intro exI [of _ "WVal v"]) (simp del: writeValue.simps)
    next
      assume "\<exists>a. v = LTable a"
      then obtain x where v: "v = LTable x" by blast
      from a(1) obtain d' where d: "d = Suc d'" unfolding v by (auto elim: writable_tabE)
      have gw: "good_writer s0 S base ha ia d' (writeValue ?prog f)" by (rule Suc.IH) (use Suc.prems d in simp)
      have ab: "0 < absidx idx (l_stack s)" "reads (absidx idx (l_stack s)) (l_stack s) (LTable x)"
        using reads_abs [OF a(4)] v by auto
      obtain wr where wr: "written (l_heap s0) v wr"
        "writes s0 S base ha ia (writeTable ?prog (writeValue ?prog f) (absidx idx (l_stack s))) pool st w s (wire_pool pool wr) (enc (wire_pool pool wr) wr)"
        using writeTable_run [OF gw ok0 sr _ a(2,3) ab a(5) a(6) [unfolded d], where ext = ext and m = m] a(1) v d by blast
      have "writeValue ?prog (Suc f) idx (st, w) s = writeTable ?prog (writeValue ?prog f) (absidx idx (l_stack s)) (st, w) s"
        using reads_type [OF a(4)] v writeTable_abs [of idx s x] a(4) by (simp add: lbind_run)
      with wr show ?thesis unfolding writes_def by (intro exI [of _ wr]) simp
    qed
  qed
qed simp

end
