(* ===== verification/Roundtrip.thy ===== *)
theory Roundtrip
  imports Writer_Run
begin

text \<open>
  \<open>writeBinaryTable\<close> makes the encoding of a document with its string pool; and the parser, on this
  encoding, makes a copy of the value that was written.
\<close>

subsection \<open>The whole stream\<close>

lemma ws_new_run:
  assumes ok: "heap_ok s" and ft: "fits s 2"
  obtains st s1 where "ws_new s = (Inr st, s1)" "kept {} s s1"
    "l_stack s1 = l_stack s @ [LTable (l_brk s), LTable (l_brk s + 64)]"
    "w_state s S (l_stack s @ [LTable (l_brk s), LTable (l_brk s + 64)]) (l_brk s) (l_brk s + 64) st [] s1"
proof -
  let ?a = "l_brk s"
  have f1: "fits s 1" using ft by (simp add: fits_def)
  obtain t0 where t0: "api_incr_top lua_newtable s = (Inr (), s\<lparr>l_brk := ?a + 64, l_heap := (l_heap s)(?a \<mapsto> t0), l_stack := l_stack s @ [LTable ?a]\<rparr>)"
    "wf_table t0" "\<forall>k. valid_key k \<longrightarrow> tget t0 k = LNil" by (rule newtable_at [OF ok f1])
  let ?s0 = "s\<lparr>l_brk := ?a + 64, l_heap := (l_heap s)(?a \<mapsto> t0), l_stack := l_stack s @ [LTable ?a]\<rparr>"
  have k0: "kept {} s ?s0" by (rule kept_newtable [OF ok t0(2)])
  have f2: "fits ?s0 1" using ft by (simp add: fits_def)
  obtain t1 where t1: "api_incr_top lua_newtable ?s0 = (Inr (), ?s0\<lparr>l_brk := l_brk ?s0 + 64, l_heap := (l_heap ?s0)(l_brk ?s0 \<mapsto> t1),
      l_stack := l_stack ?s0 @ [LTable (l_brk ?s0)]\<rparr>)" "wf_table t1" "\<forall>k. valid_key k \<longrightarrow> tget t1 k = LNil"
    by (rule newtable_at [OF kept_ok [OF k0] f2])
  let ?s1 = "?s0\<lparr>l_brk := l_brk ?s0 + 64, l_heap := (l_heap ?s0)(l_brk ?s0 \<mapsto> t1), l_stack := l_stack ?s0 @ [LTable (l_brk ?s0)]\<rparr>"
  have k1: "kept {} s ?s1" by (rule kept_trans [OF k0 kept_newtable [OF kept_ok [OF k0] t1(2)]])
  let ?st = "\<lparr>ws_handle = int (length (l_stack s)) + 1, ws_index2string = int (length (l_stack s)) + 2, ws_size = 0, ws_cacheSize = 0\<rparr>"
  have run: "ws_new s = (Inr ?st, ?s1)" using t0(1) t1(1) by (simp add: ws_new_def lua_gettop_run)
  have "names t0 []" "key_list t1 []" using t0(2,3) t1(2,3) by (auto simp: names_def key_list_def split: TValue.split)
  then have "ws_heap ?a (?a + 64) ?st [] ?s1" using kept_ok [OF k1] by (simp add: ws_heap_def)
  then have "w_state s S (l_stack s @ [LTable ?a, LTable (?a + 64)]) ?a (?a + 64) ?st [] ?s1"
    using k1 by (simp add: w_state_def handles_def)
  with run k1 show ?thesis by (intro that [of ?st ?s1]) simp_all
qed

lemma ws_destroy_run:
  assumes "handles base ha ia st" "l_stack s = base" "base = xs @ [LTable ha, LTable ia]"
  shows "ws_destroy st s = (Inr (), s\<lparr>l_stack := xs\<rparr>)"
proof -
  have h: "ws_handle st = int (length xs) + 1" "ws_index2string st = int (length xs) + 2" using assms by (auto simp: handles_def)
  have "lua_remove (ws_index2string st) s = (Inr (), s\<lparr>l_stack := xs @ [LTable ha]\<rparr>)"
    using lua_remove_pos [of "ws_index2string st" s] h assms by (simp add: nat_add_distrib)
  moreover have "lua_remove (ws_handle st) (s\<lparr>l_stack := xs @ [LTable ha]\<rparr>) = (Inr (), s\<lparr>l_stack := xs\<rparr>)"
    using lua_remove_pos [of "ws_handle st" "s\<lparr>l_stack := xs @ [LTable ha]\<rparr>"] h by (simp add: nat_add_distrib)
  ultimately show ?thesis by (simp add: ws_destroy_def)
qed

lemma writeBinaryTable_run:
  assumes ok: "heap_ok s" and sr: "sort_ready s" and fin: "finite S" "card S \<le> 2 ^ 26"
    and v: "writable (l_heap s) S d v" "d < f" and r: "reads idx (l_stack s) v" and ft: "fits s (2 + slots_for d)"
  shows "\<exists>D s' wr. writeBinaryTable (program_of ext (Suc (Suc m))) f idx s = (Inr (Some D), s') \<and> contents D = enc_doc (wire_pool [] wr) wr \<and>
    written (l_heap s) v wr \<and> kept {} s s' \<and> l_stack s' = l_stack s \<and>
    distinct (wire_pool [] wr) \<and> length (wire_pool [] wr) \<le> 2 ^ 26 \<and> set (wire_pool [] wr) \<subseteq> S \<and> [] \<notin> set (wire_pool [] wr)"
proof -
  let ?prog = "program_of ext (Suc (Suc m))" and ?ha = "l_brk s" and ?ia = "l_brk s + 64"
  let ?base = "l_stack s @ [LTable ?ha, LTable ?ia]"
  obtain st s1 where s1: "ws_new s = (Inr st, s1)" "kept {} s s1" "l_stack s1 = ?base" "w_state s S ?base ?ha ?ia st [] s1"
    by (rule ws_new_run [OF ok]) (use ft in \<open>simp add: fits_def\<close>)
  let ?i = "absidx idx (l_stack s)"
  have ab: "0 < ?i" "reads ?i (l_stack s) v" using reads_abs [OF r] by blast+
  have rd: "reads ?i (l_stack s1) v" using reads_append [OF ab] s1(3) by simp
  have st1: "l_stack s1 = ?base @ []" using s1(3) by simp
  have ft1: "fits s1 (slots_for d)" using kept_fits [OF s1(2,3)] ft by simp
  then have ft2: "fits s1 1" by (simp add: fits_def slots_for_def)
  obtain wr st' w s2 where w: "written (l_heap s) v wr" "writeValue ?prog f ?i (st, new_writer) s1 = (Inr (True, (st', w)), s2)"
    "w_state s S ?base ?ha ?ia st' (wire_pool [] wr) s2" "kept {?ha, ?ia} s1 s2" "l_stack s2 = l_stack s1" "w_inv w"
    "contents w = contents new_writer @ enc (wire_pool [] wr) wr"
    by (rule good_writerE [OF writeValue_good [OF ok sr fin v(2)] v(1) s1(4) st1 rd w_inv_new(1) ft1])
  let ?p = "wire_pool [] wr"
  note D = w_stateD [OF w(3)]
  let ?r = "reserve (4 + ws_cacheSize st' + w_size w) new_writer"
  let ?w1 = "writeNumber 2 LUABT_VERSION (writeNumber 2 MAGIC_NUMBER ?r)"
  have r1: "w_inv ?r" "contents ?r = []" using reserve_spec [of new_writer] by simp_all
  then have w1: "w_inv ?w1" "contents ?w1 = le_bytes 2 MAGIC_NUMBER @ le_bytes 2 LUABT_VERSION" by (simp_all add: write_bytes)
  obtain w2 where w2: "ws_write st' ?w1 s2 = (Inr w2, s2)" "w_inv w2" "contents w2 = contents ?w1 @ enc_pool ?p"
    using ws_write_run [OF D(3,4) _ w1(1), of "[]"] w(5) s1(3) ft2 kept_ci_top [OF w(4)] by (auto simp: fits_def)
  let ?s3 = "s2\<lparr>l_stack := l_stack s\<rparr>"
  have ds: "ws_destroy st' s2 = (Inr (), ?s3)" by (rule ws_destroy_run [OF D(4) _ refl]) (use w(5) s1(3) in simp)
  let ?D = "writeBytes (contents w) w2"
  have "w_inv ?D" using w2(2) by (rule writer.wr_inv)
  then have "\<not> w_overrun w" "\<not> w_overrun ?D" using w(6) by (simp_all add: w_inv_def)
  then have "writeBinaryTable ?prog f idx s = (Inr (Some ?D), ?s3)"
    using s1(1) w(2) w2(1) ds by (simp add: writeBinaryTable_def lua_gettop_run absidx_def [symmetric] Let_def)
  moreover have "contents ?D = enc_doc ?p wr" using w2(2,3) w1(2) w(7) by (simp add: enc_doc_def)
  moreover have "kept {} s ?s3"
    using D(1) by simp
  moreover have "length ?p \<le> 2 ^ 26" "[] \<notin> set ?p" using w(3) by (simp_all add: w_state_def ws_heap_def)
  ultimately show ?thesis using w(1) D(9,10) by (intro exI [of _ ?D] exI [of _ ?s3] exI [of _ wr]) simp
qed

text \<open>
  Values that survive writing and parsing, and deep copies. \<open>same\<close> compares two values in two heaps by their contents; a negative
  zero is copied as zero.
\<close>

inductive same :: "(addr \<Rightarrow> Table option) \<Rightarrow> (addr \<Rightarrow> Table option) \<Rightarrow> TValue \<Rightarrow> TValue \<Rightarrow> bool" for h h' where
  scalar: "is_scalar v \<Longrightarrow> same h h' v (canon v)"
| tab: "h a = Some t \<Longrightarrow> h' b = Some t' \<Longrightarrow> \<forall>k. valid_key k \<longrightarrow> same h h' (tget t k) (tget t' k) \<Longrightarrow> same h h' (LTable a) (LTable b)"

text \<open>A table whose keys are exactly 1 to \<open>n\<close>.\<close>

definition array_like :: "Table \<Rightarrow> bool" where
  "array_like t \<longleftrightarrow> (\<exists>vs. key_list t vs \<and> LNil \<notin> set vs)"

fun storable_key :: "bytes set \<Rightarrow> TValue \<Rightarrow> bool" where
  "storable_key S (LNumber n) = (\<not> dbl_isnan n \<and> num_ok n)"
| "storable_key S (LString b) = (b \<in> insert [] S)"
| "storable_key S _ = False"

inductive storable :: "(addr \<Rightarrow> Table option) \<Rightarrow> bytes set \<Rightarrow> nat \<Rightarrow> TValue \<Rightarrow> bool" for h S where
  nil: "storable h S d LNil"
| boolean: "storable h S d (LBoolean b)"
| number: "num_ok n \<Longrightarrow> storable h S d (LNumber n)"
| string: "b \<in> insert [] S \<Longrightarrow> storable h S d (LString b)"
| tab: "h a = Some t \<Longrightarrow> length (entries t) \<le> 2 ^ 26 \<Longrightarrow>
    array_like t \<or> luaH_getn t \<noteq> Inr (length (entries t)) \<and> (\<forall>kv \<in> set (entries t). storable_key S (fst kv)) \<Longrightarrow>
    \<forall>k. valid_key k \<longrightarrow> storable h S d (tget t k) \<Longrightarrow> storable h S (Suc d) (LTable a)"

inductive_cases storable_tabE: "storable h S d (LTable a)"

lemma storable_scalar:
  assumes "storable h S d v" "is_scalar v" "in_pool pool v"
  shows "scalar_ok pool v"
  using assms by (cases rule: storable.cases) auto

subsection \<open>Arrays\<close>

lemma array_like_length:
  assumes l: "key_list t vs" and nn: "LNil \<notin> set vs" and n: "length vs < 2 ^ 31 - 1"
  shows "length (entries t) = length vs"
proof (rule antisym [OF key_list_length [OF l]])
  note wf = key_list_wf [OF l]
  have "\<exists>i < length (entries t). luaO_rawequalObj (fst (entries t ! i)) (ikey (int (Suc j)))" if j: "j < length vs" for j
  proof -
    have v: "valid_key (ikey (int (Suc j)))" by (rule ikey_valid) (use j n in simp_all)
    have "tget t (ikey (int (Suc j))) = vs ! j" using key_list_nth [OF l j] by (simp add: ikey_def)
    moreover have "vs ! j \<noteq> LNil" using nn j by (metis nth_mem)
    ultimately obtain kv where "kv \<in> set (entries t)" "luaO_rawequalObj (fst kv) (ikey (int (Suc j)))"
      using entries_iff [OF wf v, of "vs ! j"] by blast
    then show ?thesis by (metis in_set_conv_nth)
  qed
  then obtain f where f: "\<And>j. j < length vs \<Longrightarrow> f j < length (entries t) \<and> luaO_rawequalObj (fst (entries t ! f j)) (ikey (int (Suc j)))" by metis
  have "inj_on f {..<length vs}"
  proof (rule inj_onI)
    fix i j assume ij: "i \<in> {..<length vs}" "j \<in> {..<length vs}" "f i = f j"
    then have "luaO_rawequalObj (ikey (int (Suc i))) (ikey (int (Suc j)))"
      using f [of i] f [of j] rawequal_trans rawequal_sym by (metis lessThan_iff)
    then show "i = j" using ikey_eq [of "int (Suc i)" "int (Suc j)"] ij n by simp
  qed
  then have "card {..<length vs} \<le> card {..<length (entries t)}" by (rule card_inj_on_le) (use f in auto)
  then show "length vs \<le> length (entries t)" by simp
qed

lemma array_like_getn:
  assumes "array_like t" "length (entries t) \<le> 2 ^ 26" "wf_table t"
  obtains vs where "key_list t vs" "LNil \<notin> set vs" "length (entries t) = length vs" "luaH_getn t = Inr (length vs)"
proof -
  obtain vs where vs: "key_list t vs" "LNil \<notin> set vs" using assms(1) unfolding array_like_def by blast
  have b: "length vs \<le> 2 ^ 27"
  proof (rule ccontr)
    assume big: "\<not> length vs \<le> 2 ^ 27"
    have "(2::nat) ^ 27 + 1 \<le> sizearray t + sizenode t"
    proof (rule nonnil_prefix_bound [OF assms(3)])
      fix i :: nat assume i: "1 \<le> i" "i \<le> 2 ^ 27 + 1"
      then have "i - 1 < length vs" "i = Suc (i - 1)" using big by simp_all
      then show "tgeti t i \<noteq> LNil" using key_list_nth [OF vs(1), of "i - 1"] vs(2) by (metis nth_mem)
    qed simp
    with wf_sizes [OF assms(3)] show False by simp
  qed
  then have n: "length vs < 2 ^ 31 - 1" by simp
  show ?thesis by (rule that [OF vs array_like_length [OF vs n] key_list_getn [OF vs n]])
qed

lemma storable_writable:
  assumes "storable h S d v" "\<And>a t. h a = Some t \<Longrightarrow> wf_table t"
  shows "writable h S d v"
  using assms(1)
proof induction
  case (tab a t d)
  have "luaH_getn t = Inr (length (entries t)) \<or> (\<forall>kv \<in> set (entries t). sort_key (fst kv) \<and> (\<forall>b. fst kv = LString b \<longrightarrow> b \<in> insert [] S))"
  proof (cases "array_like t")
    case True
    then show ?thesis using array_like_getn [OF _ tab(2) assms(2) [OF tab(1)]] by metis
  next
    case False
    have "sort_key k \<and> (\<forall>b. k = LString b \<longrightarrow> b \<in> insert [] S)" if "storable_key S k" for k using that by (cases k) auto
    then show ?thesis using False tab(3) by blast
  qed
  then show ?case using tab by (intro writable.tab) auto
qed (auto intro: writable.intros)

subsection \<open>The document fits the format\<close>

lemma distinct_keys_iff:
  assumes "\<forall>k \<in> set ks. valid_key k"
  shows "distinct_keys ks \<longleftrightarrow> distinct ks \<and> (\<forall>x \<in> set ks. \<forall>y \<in> set ks. luaO_rawequalObj x y \<longrightarrow> x = y)"
proof
  assume d: "distinct_keys ks"
  have "distinct ks"
    unfolding distinct_conv_nth using d assms rawequal_refl unfolding distinct_keys_def by (metis nth_mem)
  moreover have "x = y" if xy: "x \<in> set ks" "y \<in> set ks" "luaO_rawequalObj x y" for x y
  proof -
    obtain i j where "i < length ks" "x = ks ! i" "j < length ks" "y = ks ! j" using xy by (metis in_set_conv_nth)
    with d xy(3) show ?thesis unfolding distinct_keys_def by metis
  qed
  ultimately show "distinct ks \<and> (\<forall>x \<in> set ks. \<forall>y \<in> set ks. luaO_rawequalObj x y \<longrightarrow> x = y)" by blast
next
  assume "distinct ks \<and> (\<forall>x \<in> set ks. \<forall>y \<in> set ks. luaO_rawequalObj x y \<longrightarrow> x = y)"
  then show "distinct_keys ks" unfolding distinct_keys_def by (metis nth_mem nth_eq_iff_index_eq)
qed

lemma entries_keys:
  assumes wf: "wf_table t" and m: "mset ks = mset (map fst (entries t))"
  shows "\<forall>k \<in> set ks. valid_key k" "distinct_keys ks" "length ks = length (entries t)"
    "set ks = fst ` set (entries t)"
proof -
  show s: "set ks = fst ` set (entries t)" using m by (metis set_map set_mset_mset)
  then show v: "\<forall>k \<in> set ks. valid_key k" using entries_valid [OF wf] by auto
  show "length ks = length (entries t)" using m by (metis length_map size_mset)
  have "distinct_keys (map fst (entries t))" using entries_distinct [OF wf] by (simp add: distinct_keys_def)
  moreover have "distinct ks \<longleftrightarrow> distinct (map fst (entries t))" by (rule mset_eq_imp_distinct_iff [OF m])
  ultimately show "distinct_keys ks"
    using distinct_keys_iff [OF v] distinct_keys_iff [of "map fst (entries t)"] v s by simp
qed

lemma written_wire_ok:
  assumes "written h v wr" "storable h S d v" "covered pool wr" "\<And>a t. h a = Some t \<Longrightarrow> wf_table t"
  shows "wire_ok pool wr"
  using assms(1-3)
proof (induction arbitrary: d)
  case (scalar v)
  then show ?case using storable_scalar by simp
next
  case (empty a t)
  show ?case by (simp add: distinct_keys_def)
next
  case (array a t ws)
  from array.prems(1) array(1) obtain d' where d: "length (entries t) \<le> 2 ^ 26" "\<forall>k. valid_key k \<longrightarrow> storable h S d' (tget t k)"
    by (auto elim: storable_tabE)
  have "wire_ok pool (ws ! i)" if i: "i < length ws" for i
  proof -
    have "valid_key (LNumber (cast_num (int (Suc i))))" by (rule valid_int_key) (use i d(1) array(3) in simp)
    with d(2) have "storable h S d' (tgeti t (Suc i))" by blast
    moreover have "covered pool (ws ! i)" using array.prems(2) i by simp
    ultimately show ?thesis using array.IH i by blast
  qed
  then have "\<forall>w \<in> set ws. wire_ok pool w" by (metis in_set_conv_nth)
  then show ?case using d(1) array(3) by simp
next
  case (dict a t kvs)
  note wf = assms(4) [OF dict(1)]
  note K = entries_keys [OF wf dict(4)]
  from dict.prems(1) dict(1) obtain d' where d: "length (entries t) \<le> 2 ^ 26" "\<forall>k. valid_key k \<longrightarrow> storable h S d' (tget t k)"
    "array_like t \<or> (\<forall>kv \<in> set (entries t). storable_key S (fst kv))"
    by (auto elim: storable_tabE)
  have "\<not> array_like t" using array_like_getn [OF _ d(1) wf] dict(3) K(3) by (metis length_map)
  then have sk: "storable_key S k" if "k \<in> set (map fst kvs)" for k using d(3) K(4) that by auto
  have "valid_key (fst kw) \<and> scalar_ok pool (fst kw) \<and> wire_ok pool (snd kw)" if kw: "kw \<in> set kvs" for kw
  proof -
    have k: "valid_key (fst kw)" "storable_key S (fst kw)" using K(1) sk kw by auto
    have c: "in_pool pool (fst kw)" "covered pool (snd kw)" using dict.prems(2) kw by auto
    have "scalar_ok pool (fst kw)" using k(2) c(1) by (cases "fst kw") simp_all
    moreover have "storable h S d' (tget t (fst kw))" using d(2) k(1) by blast
    then have "wire_ok pool (snd kw)" using dict.IH kw c(2) by blast
    ultimately show ?thesis using k(1) by simp
  qed
  then show ?case using K(2,3) d(1) by simp
qed

text \<open>The slots that reading the document takes.\<close>

lemma written_slots:
  assumes "written h v wr" "writable h S d v" "\<And>a t. h a = Some t \<Longrightarrow> wf_table t"
  shows "slots wr \<le> 2 * d + 1"
  using assms(1,2)
proof (induction arbitrary: d)
  case (array a t ws)
  from array.prems array(1) obtain d' where d: "d = Suc d'" "length (entries t) \<le> 2 ^ 26" "\<forall>k. valid_key k \<longrightarrow> writable h S d' (tget t k)"
    by (auto elim: writable_tabE)
  have "slots (ws ! i) \<le> 2 * d' + 1" if i: "i < length ws" for i
  proof -
    have "valid_key (LNumber (cast_num (int (Suc i))))" by (rule valid_int_key) (use i d(2) array(3) in simp)
    with d(3) array.IH i show ?thesis by blast
  qed
  then have "foldr max (map slots ws) 0 \<le> 2 * d' + 1" unfolding foldr_max_le by (metis in_set_conv_nth)
  then show ?case using d(1) by simp
next
  case (dict a t kvs)
  note K = entries_keys [OF assms(3) [OF dict(1)] dict(4)]
  from dict.prems dict(1) obtain d' where d: "d = Suc d'" "\<forall>k. valid_key k \<longrightarrow> writable h S d' (tget t k)"
    by (auto elim: writable_tabE)
  have "slots (snd kw) \<le> 2 * d' + 1" if kw: "kw \<in> set kvs" for kw
    using dict.IH kw d(2) K(1) by auto
  then have "foldr max (map (\<lambda>kw. Suc (slots (snd kw))) kvs) 0 \<le> 2 * d' + 2" unfolding foldr_max_le by fastforce
  then show ?case using d(1) by simp
qed simp_all

subsection \<open>The document denotes a copy\<close>

lemma tget_entry:
  assumes "wf_table t" "valid_key k" "tget t k \<noteq> LNil"
  obtains kv where "kv \<in> set (entries t)" "luaO_rawequalObj (fst kv) k"
  using entries_iff [OF assms(1,2), of "tget t k"] assms(3) by blast

lemma denotes_arrayE:
  assumes "denotes h' lo v' (WArr ws)"
  obtains b t' where "v' = LTable b" "lo \<le> b" "h' b = Some t'" "wf_table t'"
    "\<forall>i < length ws. denotes h' lo (tgeti t' (Suc i)) (ws ! i)"
    "\<forall>k. valid_key k \<longrightarrow> (\<forall>i < length ws. \<not> luaO_rawequalObj k (LNumber (cast_num (int (Suc i))))) \<longrightarrow> tget t' k = LNil"
  using assms
proof (cases rule: denotes.cases)
  case (array a t)
  then show ?thesis using that by blast
qed

lemma same_nil: "same h h' LNil LNil"
  using same.scalar [of LNil h h'] by simp

lemma written_same:
  assumes "written h v wr" "storable h S d v" "denotes h' lo v' wr" "\<And>a t. h a = Some t \<Longrightarrow> wf_table t"
  shows "same h h' v v'"
  using assms(1-3)
proof (induction arbitrary: d v')
  case (scalar v)
  from scalar.prems(2) have "v' = canon v" by (rule denotes_WVal)
  then show ?case using same.scalar [OF scalar.hyps] by simp
next
  case (empty a t)
  from empty.prems(2) obtain b t' where b: "v' = LTable b" "h' b = Some t'" "\<forall>k. valid_key k \<longrightarrow> tget t' k = LNil"
    by (rule denotes_WMap) auto
  have "tget t k = LNil" if "valid_key k" for k
    using tget_entry [OF assms(4) [OF empty(1)] that] empty(2) by fastforce
  then show ?case unfolding b(1) using b(3) by (intro same.tab [where h = h and h' = h', OF empty(1) b(2)]) (simp add: same_nil)
next
  case (array a t ws)
  from array.prems(2) obtain b t' where b1: "v' = LTable b" and "lo \<le> b" and b2: "h' b = Some t'" "wf_table t'"
    "\<forall>i < length ws. denotes h' lo (tgeti t' (Suc i)) (ws ! i)"
    "\<forall>k. valid_key k \<longrightarrow> (\<forall>i < length ws. \<not> luaO_rawequalObj k (LNumber (cast_num (int (Suc i))))) \<longrightarrow> tget t' k = LNil"
    by (rule denotes_arrayE)
  note b = b1 b2
  note wf = assms(4) [OF array(1)]
  from array.prems(1) array(1,3,4) obtain d' where d: "length (entries t) \<le> 2 ^ 26" "\<forall>k. valid_key k \<longrightarrow> storable h S d' (tget t k)" "array_like t"
    by (auto elim: storable_tabE)
  obtain vs where vs: "key_list t vs" "length (entries t) = length vs" by (rule array_like_getn [OF d(3,1) wf])
  have "same h h' (tget t k) (tget t' k)" if k: "valid_key k" for k
  proof (cases "\<exists>i < length ws. luaO_rawequalObj k (LNumber (cast_num (int (Suc i))))")
    case True
    then obtain i where i: "i < length ws" "luaO_rawequalObj k (LNumber (cast_num (int (Suc i))))" by blast
    have v: "valid_key (LNumber (cast_num (int (Suc i))))" by (rule valid_int_key) (use i(1) d(1) array(3) in simp)
    have "same h h' (tgeti t (Suc i)) (tgeti t' (Suc i))" using array.IH i(1) d(2) v b(4) by blast
    then show ?thesis using tget_rawequal [OF wf v i(2)] tget_rawequal [OF b(3) v i(2)] by simp
  next
    case False
    moreover have "length ws = length vs" using array(3) vs(2) by simp
    ultimately have "tget t k = LNil" using vs(1) k by (simp add: key_list_def ikey_def)
    moreover have "tget t' k = LNil" using False b(5) k by blast
    ultimately show ?thesis by (simp add: same_nil)
  qed
  then show ?case unfolding b(1) by (intro same.tab [where h = h and h' = h', OF array(1) b(2)]) blast
next
  case (dict a t kvs)
  from dict.prems(2) obtain b t' where b1: "v' = LTable b" and "lo \<le> b" and b2: "h' b = Some t'" "wf_table t'"
    "\<forall>kw \<in> set kvs. denotes h' lo (tget t' (fst kw)) (snd kw)"
    "\<forall>k. valid_key k \<longrightarrow> (\<forall>kw \<in> set kvs. \<not> luaO_rawequalObj k (fst kw)) \<longrightarrow> tget t' k = LNil"
    by (rule denotes_WMap)
  note b = b1 b2
  note wf = assms(4) [OF dict(1)]
  note K = entries_keys [OF wf dict(4)]
  from dict.prems(1) dict(1) obtain d' where d: "\<forall>k. valid_key k \<longrightarrow> storable h S d' (tget t k)" by (auto elim: storable_tabE)
  have "same h h' (tget t k) (tget t' k)" if k: "valid_key k" for k
  proof (cases "\<exists>kw \<in> set kvs. luaO_rawequalObj k (fst kw)")
    case True
    then obtain kw where kw: "kw \<in> set kvs" "luaO_rawequalObj k (fst kw)" by blast
    then have v: "valid_key (fst kw)" using K(1) by simp
    have "same h h' (tget t (fst kw)) (tget t' (fst kw))" using dict.IH kw(1) d v b(4) by blast
    then show ?thesis using tget_rawequal [OF wf v kw(2)] tget_rawequal [OF b(3) v kw(2)] by simp
  next
    case False
    have "tget t k = LNil"
    proof (rule ccontr)
      assume "tget t k \<noteq> LNil"
      then obtain kv where kv: "kv \<in> set (entries t)" "luaO_rawequalObj (fst kv) k" by (rule tget_entry [OF wf k])
      then have "fst kv \<in> set (map fst kvs)" using K(4) by simp
      with False kv(2) show False using rawequal_sym by auto
    qed
    moreover have "tget t' k = LNil" using False b(5) k by blast
    ultimately show ?thesis by (simp add: same_nil)
  qed
  then show ?case unfolding b(1) by (intro same.tab [where h = h and h' = h', OF dict(1) b(2)]) blast
qed

subsection \<open>The module functions\<close>

lemma LuaBinaryTable_write_run:
  assumes "heap_ok s" "sort_ready s" "finite S" "card S \<le> 2 ^ 26" "writable (l_heap s) S d v" "d < f" "l_stack s = [v]"
    "2 * d + 6 \<le> l_ci_top s"
  shows "\<exists>s' wr. LuaBinaryTable_write (program_of ext (Suc (Suc m))) f s = (Inr 1, s') \<and>
    l_stack s' = [v, LString (enc_doc (wire_pool [] wr) wr)] \<and> written (l_heap s) v wr \<and> kept {} s s' \<and>
    distinct (wire_pool [] wr) \<and> length (wire_pool [] wr) \<le> 2 ^ 26 \<and> set (wire_pool [] wr) \<subseteq> S \<and> [] \<notin> set (wire_pool [] wr)"
proof -
  have "reads 1 (l_stack s) v" using assms(7) by (simp add: reads_def)
  then obtain D s1 wr where r: "writeBinaryTable (program_of ext (Suc (Suc m))) f 1 s = (Inr (Some D), s1)"
    "contents D = enc_doc (wire_pool [] wr) wr" "written (l_heap s) v wr" "kept {} s s1" "l_stack s1 = l_stack s"
    "distinct (wire_pool [] wr)" "length (wire_pool [] wr) \<le> 2 ^ 26" "set (wire_pool [] wr) \<subseteq> S" "[] \<notin> set (wire_pool [] wr)"
    using writeBinaryTable_run [OF assms(1-6), of 1 ext m] assms(7,8) by (auto simp: fits_def slots_for_def)
  let ?s2 = "s1\<lparr>l_stack := [v, LString (enc_doc (wire_pool [] wr) wr)]\<rparr>"
  have "LuaBinaryTable_write (program_of ext (Suc (Suc m))) f s = (Inr 1, ?s2)"
    using r(1,2,5) assms(7,8) kept_ci_top [OF r(4)] by (simp add: LuaBinaryTable_write_def lbind_run api)
  with r show ?thesis by (intro exI [of _ ?s2] exI [of _ wr]) simp
qed

lemma LuaBinaryTable_parse_run:
  assumes "heap_ok s" "l_stack s = [LString b]" "parseBinaryTable b s = (Inr 1, s')"
  shows "LuaBinaryTable_parse s = (Inr 1, s')"
proof -
  have "lua_tolstring 1 s = (Inr (Some b), s)" using assms(2) by (simp add: lua_tolstring_def lbind_run api)
  then show ?thesis using assms(3) by (simp add: LuaBinaryTable_parse_def luaL_checklstring_def lbind_run)
qed

lemma write_then_parse:
  assumes ok: "heap_ok s" and sr: "sort_ready s" and S: "finite S" "card S \<le> 2 ^ 26" "\<forall>b \<in> S. length b < 2 ^ 16"
    and v: "storable (l_heap s) S d v" "d < f" "l_stack s = [v]" and ft: "2 * d + 6 \<le> l_ci_top s"
  shows "\<exists>b s1. LuaBinaryTable_write (program_of ext (Suc (Suc m))) f s = (Inr 1, s1) \<and> l_stack s1 = [v, LString b] \<and> kept {} s s1 \<and>
    (\<forall>s2. heap_ok s2 \<longrightarrow> l_stack s2 = [LString b] \<longrightarrow> 2 * d + 3 \<le> l_ci_top s2 \<longrightarrow>
      (\<exists>s3 v'. LuaBinaryTable_parse s2 = (Inr 1, s3) \<and> l_stack s3 = [LString b, v'] \<and> grown s2 s3 \<and> same (l_heap s) (l_heap s3) v v'))"
proof -
  have wf: "\<And>a t. l_heap s a = Some t \<Longrightarrow> wf_table t" by (rule heap_okD(1) [OF ok])
  have wv: "writable (l_heap s) S d v" by (rule storable_writable [OF v(1) wf])
  obtain s1 wr where w: "LuaBinaryTable_write (program_of ext (Suc (Suc m))) f s = (Inr 1, s1)"
    "l_stack s1 = [v, LString (enc_doc (wire_pool [] wr) wr)]" "written (l_heap s) v wr" "kept {} s s1"
    "distinct (wire_pool [] wr)" "length (wire_pool [] wr) \<le> 2 ^ 26" "set (wire_pool [] wr) \<subseteq> S" "[] \<notin> set (wire_pool [] wr)"
    using LuaBinaryTable_write_run [OF ok sr S(1,2) wv v(2,3) ft] by blast
  let ?p = "wire_pool [] wr" and ?b = "enc_doc (wire_pool [] wr) wr"
  have pf: "pool_fits ?p" using w(5-8) S(3) by (auto simp: pool_fits_def)
  have wo: "wire_ok ?p wr" by (rule written_wire_ok [OF w(3) v(1) covered_pool wf])
  have "\<exists>s3 v'. LuaBinaryTable_parse s2 = (Inr 1, s3) \<and> l_stack s3 = [LString ?b, v'] \<and> grown s2 s3 \<and> same (l_heap s) (l_heap s3) v v'"
    if s2: "heap_ok s2" "l_stack s2 = [LString ?b]" and f2: "2 * d + 3 \<le> l_ci_top s2" for s2
  proof -
    have "slots wr \<le> 2 * d + 1" by (rule written_slots [OF w(3) wv wf])
    then have "fits s2 (1 + slots wr)" using s2(2) f2 by (simp add: fits_def)
    then obtain s3 v' where p: "parseBinaryTable ?b s2 = (Inr 1, s3)" "grown s2 s3" "l_stack s3 = l_stack s2 @ [v']"
      "denotes (l_heap s3) (l_brk s2) v' wr" using parse_document [OF s2(1) pf wo, of "[]"] by (auto split: if_splits)
    have "same (l_heap s) (l_heap s3) v v'" by (rule written_same [OF w(3) v(1) p(4) wf])
    then show ?thesis using LuaBinaryTable_parse_run [OF s2 p(1)] p(2,3) s2(2) by (intro exI [of _ s3] exI [of _ v']) simp
  qed
  with w show ?thesis by blast
qed

end
