(* ===== verification/Roundtrip_Props.thy ===== *)
theory Roundtrip_Props
  imports Roundtrip Binary_Props
begin

text \<open>
  Writing and parsing together: what \<open>LuaBinaryTable_write\<close> produces, and that \<open>LuaBinaryTable_parse\<close> makes a copy of it; with a
  small state that has a table library and two tables to write.
\<close>

subsection \<open>A small state\<close>

text \<open>A table with one entry, in its node.\<close>

definition single :: "TValue \<Rightarrow> TValue \<Rightarrow> Table" where
  "single k v = \<lparr>t_flags = 0, t_lsizenode = 0, t_metatable = None, t_array = [],
     t_node = Some [\<lparr>i_val = v, i_key = k, i_next = None\<rparr>], t_lastfree = 1\<rparr>"

lemma single_parts [simp]: "sizenode (single k v) = 1" "sizearray (single k v) = 0"
  "gnode (single k v) 0 = \<lparr>i_val = v, i_key = k, i_next = None\<rparr>" "t_array (single k v) = []"
  "t_node (single k v) = Some [\<lparr>i_val = v, i_key = k, i_next = None\<rparr>]"
  "t_lsizenode (single k v) = 0" "t_lastfree (single k v) = 1"
  by (simp_all add: single_def sizenode_def twoto_def sizearray_def gnode_def nodes_def)

lemma single_in_array [simp]: "\<not> in_array (single k v) x"
  by (simp add: in_array_def)

lemma single_wf:
  assumes "valid_key k"
  shows "wf_table (single k v)"
proof -
  have m: "mainposition (single k v) k = 0" using mainposition_less [of "single k v" k] by simp
  have "wf_shape (single k v)" by (simp add: wf_shape_def MAXBITS_def)
  then show ?thesis
    unfolding wf_table_def chain_inv_def using assms m
    by (simp add: valid_key_not_nil)
qed

lemma single_get: "valid_key k \<Longrightarrow> valid_key x \<Longrightarrow> tget (single k v) x = (if luaO_rawequalObj k x then v else LNil)"
  by (simp add: tget_find [OF single_wf] find_key_def slot_value_def)

lemma single_entries: "v \<noteq> LNil \<Longrightarrow> entries (single k v) = [(k, v)]"
  by (simp add: entries_def live_pos_def pos_kv_def)

lemma single_getn: "luaH_getn (single (LString b) v) = Inr 0"
proof -
  have wf: "wf_table (single (LString b) v)" by (rule single_wf) simp
  obtain n where n: "luaH_getn (single (LString b) v) = Inr n" "border (single (LString b) v) n" "n < MAX_INT"
    using luaH_getn_spec [OF wf] by blast
  have "tgeti (single (LString b) v) n = LNil" using n(3) valid_int_key [of n] by (simp add: single_get MAX_INT_def)
  with n show ?thesis by (simp add: border_def)
qed

lemma single_not_array: "v \<noteq> LNil \<Longrightarrow> \<not> array_like (single (LString b) v)"
  using array_like_getn [of "single (LString b) v"] single_wf [of "LString b" v] single_getn [of b v] single_entries [of v "LString b"]
  by fastforce

definition demo_lossy :: Table where
  "demo_lossy = demo_table\<lparr>t_array := [LNil, LBoolean True]\<rparr>"

definition demo_rt :: "addr \<Rightarrow> lua_State" where
  "demo_rt a = demo_state\<lparr>l_stack := [LTable a], l_gt := 64, l_brk := 512, l_closures := [256 \<mapsto> \<lparr>c_f = CSort, c_env = 64, c_upvalue = []\<rparr>],
     l_heap := [64 \<mapsto> single (LString (str ''table'')) (LTable 128), 128 \<mapsto> single (LString (str ''sort'')) (LFunction 256),
       320 \<mapsto> single (LString (str ''k'')) (LNumber (cast_num 7)), 384 \<mapsto> demo_lossy]\<rparr>"

lemma demo_lossy_sizes [simp]: "sizenode demo_lossy = 2" "sizearray demo_lossy = 2" "t_array demo_lossy = [LNil, LBoolean True]"
  "gnode demo_lossy 0 = gnode demo_table 0" "gnode demo_lossy (Suc 0) = dummynode"
  by (simp_all add: demo_lossy_def demo_table_def sizenode_def twoto_def sizearray_def gnode_def nodes_def)

lemma demo_lossy_wf: "wf_table demo_lossy"
  unfolding wf_table_def chain_inv_def
  using demo_hash by (simp add: less_2_cases_iff dummynode_def in_array_def hashstr_def hashpow2_def)
    (simp add: wf_shape_def sizearray_def demo_table_def demo_lossy_def MAXBITS_def sizenode_def twoto_def)

lemma lossy_get: "valid_key k \<Longrightarrow> tget demo_lossy k = (if in_array demo_lossy k then [LNil, LBoolean True] ! nat (arrayindex k - 1)
    else if luaO_rawequalObj (LString (str ''a'')) k then LBoolean False else LNil)"
  by (simp add: tget_find [OF demo_lossy_wf] find_key_def upt_conv_Cons slot_value_def dummynode_def)

lemma lossy_scalar: "valid_key k \<Longrightarrow> tget demo_lossy k = LNil \<or> (\<exists>b. tget demo_lossy k = LBoolean b)"
  by (auto simp: lossy_get in_array_def nth_Cons split: nat.splits)

lemma lossy_tgeti: "tgeti demo_lossy (Suc 0) = LNil" "tgeti demo_lossy 2 = LBoolean True" "tgeti demo_lossy 3 = LNil"
  using tgeti_array [OF demo_lossy_wf, of "Suc 0"] tgeti_array [OF demo_lossy_wf, of 2] valid_int_key [of 3]
  by (simp_all add: lossy_get in_array_def)

lemma lossy_getn: "luaH_getn demo_lossy = Inr 2"
proof -
  have n: "getnum_nil demo_lossy 3 = Inr True" using getnum_nil_eq [OF demo_lossy_wf, of 3] lossy_tgeti(3) by simp
  have "t_node demo_lossy \<noteq> None" by (simp add: demo_lossy_def demo_table_def)
  then show ?thesis
    using n by (simp add: luaH_getn_def unbound_search_def unbound_loop.simps [of _ 2] border_search.simps [of _ 2])
qed

lemma demo_rt_ok [simp]: "heap_ok (demo_rt a)" "l_stack (demo_rt a) = [LTable a]" "l_ci_top (demo_rt a) = 21"
  using demo_lossy_wf by (auto simp: demo_rt_def heap_ok_def single_wf)

lemma demo_rt_sort: "sort_ready (demo_rt a)"
  unfolding sort_ready_def
  by (simp add: demo_rt_def demo_state_def single_get)

subsection \<open>The round trip\<close>

text \<open>
  C1. What is written can be read back: for every value made of nil, booleans, numbers, strings and tables of such values,
  \<open>LuaBinaryTable_write\<close> returns one string and changes no table that existed before, and \<open>LuaBinaryTable_parse\<close> on this string,
  in any state of any Lua thread, returns one new value with the same contents, key by key to every depth; only a negative zero
  comes back as zero. Neither function asks for stack slots, so the frame must have them: 2d + 6 to write tables nested \<open>d\<close> deep and
  2d + 3 to read them, that is, \<open>d\<close> is at most 7 in the frame of a call with one argument, which has 21. The other conditions
  (\<open>storable\<close>) are those of the format: no number is infinite and the integral ones fit 64 bits, strings have less than
  2^16 bytes and there are at most 2^26 of them, tables have at most 2^26 entries, keys are numbers and strings; and a table
  that is not an array from 1 to n must not have as many entries as its length, which the writer would take for an array.
\<close>

theorem write_parse_roundtrip:
  assumes "heap_ok s" "sort_ready s" "finite S" "card S \<le> 2 ^ 26" "\<forall>b \<in> S. length b < 2 ^ 16"
    and "storable (l_heap s) S d v" "d < f" "l_stack s = [v]" "2 * d + 6 \<le> l_ci_top s"
  shows "\<exists>b s1. LuaBinaryTable_write (program_of ext (Suc (Suc m))) f s = (Inr 1, s1) \<and> l_stack s1 = [v, LString b] \<and> kept {} s s1 \<and>
    (\<forall>s2. heap_ok s2 \<longrightarrow> l_stack s2 = [LString b] \<longrightarrow> 2 * d + 3 \<le> l_ci_top s2 \<longrightarrow>
      (\<exists>s3 v'. LuaBinaryTable_parse s2 = (Inr 1, s3) \<and> l_stack s3 = [LString b, v'] \<and> grown s2 s3 \<and> same (l_heap s) (l_heap s3) v v'))"
  by (rule write_then_parse [OF assms])

lemma demo_storable: "storable (l_heap (demo_rt a)) {str ''k''} 1 (LTable 320)"
proof -
  let ?t = "single (LString (str ''k'')) (LNumber (cast_num 7))"
  have h: "l_heap (demo_rt a) 320 = Some ?t" by (simp add: demo_rt_def)
  have n: "num_ok (cast_num 7)" using cast_num_finite(1) [of 7] by (simp add: num_ok_def)
  show ?thesis
    unfolding One_nat_def
    by (rule storable.tab [where h = "l_heap (demo_rt a)", OF h])
      (auto simp: single_entries single_getn single_get n intro: storable.intros)
qed

theorem write_parse_roundtrip_witness:
  "\<exists>b s1. LuaBinaryTable_write (program_of (\<lambda>_ _. undefined) 2) 2 (demo_rt 320) = (Inr 1, s1) \<and> l_stack s1 = [LTable 320, LString b]"
proof -
  have "\<exists>b s1. LuaBinaryTable_write (program_of (\<lambda>_ _. undefined) (Suc (Suc 0))) 2 (demo_rt 320) = (Inr 1, s1) \<and> l_stack s1 = [LTable 320, LString b] \<and>
    kept {} (demo_rt 320) s1 \<and>
    (\<forall>s2. heap_ok s2 \<longrightarrow> l_stack s2 = [LString b] \<longrightarrow> 2 * 1 + 3 \<le> l_ci_top s2 \<longrightarrow>
      (\<exists>s3 v'. LuaBinaryTable_parse s2 = (Inr 1, s3) \<and> l_stack s3 = [LString b, v'] \<and> grown s2 s3 \<and>
        same (l_heap (demo_rt 320)) (l_heap s3) (LTable 320) v'))"
    by (rule write_parse_roundtrip [OF demo_rt_ok(1) demo_rt_sort _ _ _ demo_storable]) (simp_all add: str_def)
  then show ?thesis unfolding numeral_2_eq_2 by blast
qed

text \<open>
  C2. The writer produces the format: on every writable value, nested no deeper than the slots of the frame allow (2d + 6 for depth
  \<open>d\<close>), \<open>LuaBinaryTable_write\<close> returns the encoding of the document that
  \<open>written\<close> describes, after the pool of its strings in the order of their first use, each once: a table whose number of entries equals its
  length as an array of its elements, every other table under its keys, sorted with the numbers before the strings, and these in the order of the C locale. An infinity or an integral
  number that does not fit 64 bits is written as the integer to which x86-64 casts it, -2^63 (C leaves this cast undefined).
\<close>

theorem write_encodes:
  assumes "heap_ok s" "sort_ready s" "finite S" "card S \<le> 2 ^ 26" "writable (l_heap s) S d v" "d < f" "l_stack s = [v]"
    "2 * d + 6 \<le> l_ci_top s"
  shows "\<exists>s' w. LuaBinaryTable_write (program_of ext (Suc (Suc m))) f s = (Inr 1, s') \<and>
    l_stack s' = [v, LString (enc_doc (wire_pool [] w) w)] \<and> written (l_heap s) v w \<and> kept {} s s' \<and>
    distinct (wire_pool [] w) \<and> set (wire_pool [] w) \<subseteq> S"
  using LuaBinaryTable_write_run [OF assms] by blast

theorem write_encodes_witness:
  "\<exists>s' w. LuaBinaryTable_write (program_of (\<lambda>_ _. undefined) 2) 2 (demo_rt 320) = (Inr 1, s') \<and>
    l_stack s' = [LTable 320, LString (enc_doc (wire_pool [] w) w)] \<and> written (l_heap (demo_rt 320)) (LTable 320) w"
proof -
  have w: "writable (l_heap (demo_rt 320)) {str ''k''} 1 (LTable 320)"
    by (rule storable_writable [OF demo_storable]) (use demo_rt_ok(1) [of 320] in \<open>simp add: heap_ok_def\<close>)
  have "\<exists>s' w. LuaBinaryTable_write (program_of (\<lambda>_ _. undefined) (Suc (Suc 0))) 2 (demo_rt 320) = (Inr 1, s') \<and>
    l_stack s' = [LTable 320, LString (enc_doc (wire_pool [] w) w)] \<and> written (l_heap (demo_rt 320)) (LTable 320) w \<and>
    kept {} (demo_rt 320) s' \<and> distinct (wire_pool [] w) \<and> set (wire_pool [] w) \<subseteq> {str ''k''}"
    by (rule write_encodes [OF demo_rt_ok(1) demo_rt_sort _ _ w]) simp_all
  then show ?thesis unfolding numeral_2_eq_2 by blast
qed

text \<open>
  C17. The test for arrays loses data: the writer takes every table whose number of entries equals its length for an array, and the length of a
  Lua table is any border. The table with \<open>true\<close> at 2, nothing at 1, and one more entry under a string has two entries and length 2; it is
  written as the array of nil and \<open>true\<close>, without the other entry.
\<close>

theorem write_drops_entries:
  "\<exists>s s' a t k. heap_ok s \<and> l_stack s = [LTable a] \<and> l_heap s a = Some t \<and> valid_key k \<and> tget t k \<noteq> LNil \<and> k = LString (str ''a'') \<and>
    LuaBinaryTable_write (program_of (\<lambda>_ _. undefined) 2) 2 s = (Inr 1, s') \<and>
    l_stack s' = [LTable a, LString (enc_doc [] (WArr [WVal LNil, WVal (LBoolean True)]))]"
proof -
  let ?s = "demo_rt 384" and ?t = demo_lossy
  have h: "l_heap ?s 384 = Some ?t" by (simp add: demo_rt_def)
  have e: "entries ?t = [(LNumber (cast_num 2), LBoolean True), (LString (str ''a''), LBoolean False)]"
    by (simp add: entries_def live_pos_def pos_kv_def upt_conv_Cons) (simp add: dummynode_def)
  have scalar: "writable (l_heap ?s) {} 0 (tget ?t k)" if "valid_key k" for k
    using lossy_scalar [OF that] by (auto intro: writable.intros)
  have w: "writable (l_heap ?s) {} (Suc 0) (LTable 384)"
    by (rule writable.tab [where h = "l_heap ?s", OF h]) (simp_all add: e lossy_getn scalar)
  obtain s' wr where r: "LuaBinaryTable_write (program_of (\<lambda>_ _. undefined) (Suc (Suc 0))) 2 ?s = (Inr 1, s')"
    "l_stack s' = [LTable 384, LString (enc_doc (wire_pool [] wr) wr)]" "written (l_heap ?s) (LTable 384) wr"
    using LuaBinaryTable_write_run [OF demo_rt_ok(1) demo_rt_sort _ _ w, where f = 2 and m = 0] by fastforce
  from r(3) have wr: "wr = WArr [WVal LNil, WVal (LBoolean True)]"
  proof (cases rule: written.cases)
    case (array t ws)
    have len: "length ws = 2" using array h e by simp
    have ws: "written (l_heap ?s) (tgeti ?t (Suc i)) (ws ! i)" if "i < 2" for i using array h len that by auto
    have "written (l_heap ?s) LNil (ws ! 0)" "written (l_heap ?s) (LBoolean True) (ws ! 1)"
      using ws [of 0] ws [of 1] lossy_tgeti by (simp_all add: numeral_2_eq_2)
    then have "ws ! 0 = WVal LNil" "ws ! 1 = WVal (LBoolean True)" by (auto dest: written_scalar [rotated])
    with len array(1) show ?thesis by (auto simp: numeral_2_eq_2 length_Suc_conv)
  next
    case (dict t kvs)
    then have "length kvs = 2" using h e by (metis length_map mset_eq_length option.inject list.size(3,4) Suc_1 One_nat_def add.right_neutral add_Suc_right)
    with dict h lossy_getn show ?thesis by simp
  qed (use h e in simp_all)
  have "wire_pool [] wr = []" by (simp add: wr)
  moreover have "tget ?t (LString (str ''a'')) \<noteq> LNil" by (simp add: lossy_get in_array_def)
  ultimately show ?thesis using r h demo_rt_ok(1) [of 384] demo_rt_ok(2) [of 384] unfolding numeral_2_eq_2
    by (intro exI [of _ ?s] exI [of _ s'] exI [of _ 384] exI [of _ ?t] exI [of _ "LString (str ''a'')"]) (simp add: wr)
qed

end
