(* ===== verification/Lua_Pattern_Safe.thy ===== *)
theory Lua_Pattern_Safe
  imports Lua_Pattern
begin

text \<open>
  The matcher on any pattern, well-formed or not: it reads inside the two strings, its fuel is enough, and when it fails it has restored the
  captures. \<open>ms_ok s ms\<close> is the invariant at position \<open>s\<close> of the subject.
\<close>

definition caps :: "MatchState \<Rightarrow> capture list" where
  "caps ms = take (ms_level ms) (ms_capture ms)"

definition cap_ok :: "nat \<Rightarrow> capture \<Rightarrow> bool" where
  "cap_ok s c \<longleftrightarrow> c_init c \<le> s \<and>
     (c_len c = CAP_UNFINISHED \<or> c_len c = CAP_POSITION \<or> 0 \<le> c_len c \<and> int (c_init c) + c_len c \<le> int s)"

definition ms_ok :: "nat \<Rightarrow> MatchState \<Rightarrow> bool" where
  "ms_ok s ms \<longleftrightarrow> length (ms_capture ms) = LUA_MAXCAPTURES \<and> ms_level ms \<le> LUA_MAXCAPTURES \<and> s \<le> src_end ms \<and>
     src_end ms < 2 ^ 63 \<and> (\<forall>c \<in> set (caps ms). cap_ok s c)"

text \<open>The same subject and the same captures.\<close>

definition same_caps :: "MatchState \<Rightarrow> MatchState \<Rightarrow> bool" where
  "same_caps ms ms' \<longleftrightarrow> ms_src ms' = ms_src ms \<and> ms_level ms' = ms_level ms \<and> length (ms_capture ms') = length (ms_capture ms) \<and>
     caps ms' = caps ms"

fun good :: "MatchState \<Rightarrow> nat \<Rightarrow> match_result \<Rightarrow> bool" where
  "good ms s (Inl e) = (\<exists>m. e = RunError m)"
| "good ms s (Inr (None, ms')) = same_caps ms ms'"
| "good ms s (Inr (Some e, ms')) = (s \<le> e \<and> ms_src ms' = ms_src ms \<and> ms_ok e ms')"

definition good_match :: "match_fun \<Rightarrow> nat \<Rightarrow> nat \<Rightarrow> bool" where
  "good_match mt n p \<longleftrightarrow> (\<forall>ms s q. ms_ok s ms \<longrightarrow> p < q \<longrightarrow> q \<le> n \<longrightarrow> good ms s (mt ms s q))"

lemma good_matchD: "good_match mt n p \<Longrightarrow> ms_ok s ms \<Longrightarrow> p < q \<Longrightarrow> q \<le> n \<Longrightarrow> good ms s (mt ms s q)"
  by (simp add: good_match_def)

lemma cap_ok_mono: "cap_ok s c \<Longrightarrow> s \<le> s' \<Longrightarrow> cap_ok s' c"
  by (auto simp: cap_ok_def)

lemma ms_ok_mono: "ms_ok s ms \<Longrightarrow> s \<le> s' \<Longrightarrow> s' \<le> src_end ms \<Longrightarrow> ms_ok s' ms"
  by (auto simp: ms_ok_def intro: cap_ok_mono)

lemma ms_ok_le: "ms_ok s ms \<Longrightarrow> s \<le> length (ms_src ms)"
  by (simp add: ms_ok_def src_end_def)

lemma same_caps_refl [simp]: "same_caps ms ms"
  by (simp add: same_caps_def)

lemma same_caps_trans: "same_caps a b \<Longrightarrow> same_caps b c \<Longrightarrow> same_caps a c"
  by (simp add: same_caps_def)

lemma same_caps_ok: "same_caps ms ms' \<Longrightarrow> ms_ok s ms \<Longrightarrow> ms_ok s ms'"
  by (simp add: same_caps_def ms_ok_def src_end_def)

lemma same_caps_end: "same_caps ms ms' \<Longrightarrow> src_end ms' = src_end ms"
  by (simp add: same_caps_def src_end_def)

text \<open>A result for the same subject and captures, or from a later position, is good as well.\<close>

lemma good_same: "same_caps ms ms1 \<Longrightarrow> good ms1 s r \<Longrightarrow> good ms s r"
  by (cases "(ms, s, r)" rule: good.cases) (auto simp: same_caps_def)

lemma good_later: "good ms s' r \<Longrightarrow> s \<le> s' \<Longrightarrow> good ms s r"
  by (cases "(ms, s, r)" rule: good.cases) auto

lemma good_cases:
  assumes "good ms s r"
  obtains m where "r = Inl (RunError m)" | ms' where "r = Inr (None, ms')" "same_caps ms ms'"
    | e ms' where "r = Inr (Some e, ms')" "s \<le> e" "ms_src ms' = ms_src ms" "ms_ok e ms'"
  using assms by (cases "(ms, s, r)" rule: good.cases) auto

lemma good_bind:
  assumes "good ms s r" "\<And>res ms1. good ms s (Inr (res, ms1)) \<Longrightarrow> good ms s (k (res, ms1))"
  shows "good ms s (sum_bind r k)"
  using assms by (cases r) auto

subsection \<open>The pattern\<close>

text \<open>Outcomes of the functions on the pattern alone: an error message or a value with a property.\<close>

definition outcome :: "(rt_error + 'a) \<Rightarrow> ('a \<Rightarrow> bool) \<Rightarrow> bool" where
  "outcome r P \<longleftrightarrow> (case r of Inl e \<Rightarrow> \<exists>m. e = RunError m | Inr a \<Rightarrow> P a)"

lemma outcome_simps [simp]: "outcome (Inr a) P = P a" "outcome (Inl e) P = (\<exists>m. e = RunError m)"
  by (simp_all add: outcome_def)

lemma outcome_bind: "outcome r P \<Longrightarrow> (\<And>a. r = Inr a \<Longrightarrow> P a \<Longrightarrow> outcome (k a) Q) \<Longrightarrow> outcome (sum_bind r k) Q"
  by (cases r) auto

lemma good_outcome: "outcome r P \<Longrightarrow> (\<And>a. r = Inr a \<Longrightarrow> P a \<Longrightarrow> good ms s (k a)) \<Longrightarrow> good ms s (sum_bind r k)"
  by (cases r) auto

lemma outcome_mono: "outcome r P \<Longrightarrow> (\<And>a. P a \<Longrightarrow> Q a) \<Longrightarrow> outcome r Q"
  by (cases r) auto

lemma chr_outcome: "i \<le> length b \<Longrightarrow> outcome (chr b i) (\<lambda>c. c = 0 \<or> i < length b)"
  by (auto simp: chr_def)

lemma class_loop_step:
  assumes "chr pat p = Inr c" "c \<noteq> 0" "q = (if c = L_ESC \<and> chr pat (p + 1) \<noteq> Inr 0 then p + 2 else p + 1)" "chr pat q = Inr e"
  shows "class_loop pat p = (if e \<noteq> 93 then class_loop pat q else Inr (q + 1))" and "p < q" "q \<le> length pat"
proof -
  have p: "p < length pat" using assms(1,2) by (rule chr_nonzero)
  then obtain d where d: "chr pat (p + 1) = Inr d" using chr_ok [of "p + 1" pat] by auto
  have "(if c = L_ESC then sum_bind (chr pat (p + 1)) (\<lambda>d. Inr (if d \<noteq> 0 then p + 2 else p + 1)) else Inr (p + 1)) = (Inr q :: rt_error + nat)"
    using assms(3) d by simp
  then show "class_loop pat p = (if e \<noteq> 93 then class_loop pat q else Inr (q + 1))"
    by (simp only: class_loop.simps [of pat p] assms(1,4) sum_bind_simps if_not_P [OF assms(2)])
  show "p < q" "q \<le> length pat" using assms(3) chr_bound [OF assms(4)] by auto
qed

lemma class_loop_ok: "p \<le> length pat \<Longrightarrow> outcome (class_loop pat p) (\<lambda>ep. p < ep \<and> ep \<le> length pat)"
proof (induction "length pat - p" arbitrary: p rule: less_induct)
  case less
  obtain c where c: "chr pat p = Inr c" using chr_ok [OF less.prems] by blast
  show ?case
  proof (cases "c = 0")
    case True
    with c show ?thesis by (subst class_loop.simps) simp
  next
    case False
    with c have p: "p < length pat" by (rule chr_nonzero)
    then obtain d where d: "chr pat (p + 1) = Inr d" using chr_ok [of "p + 1" pat] by auto
    define q where "q = (if c = L_ESC \<and> chr pat (p + 1) \<noteq> Inr 0 then p + 2 else p + 1)"
    have q: "q \<le> length pat" using d p chr_nonzero [OF d] by (auto simp: q_def)
    then obtain e where e: "chr pat q = Inr e" using chr_ok by blast
    note step = class_loop_step [OF c False q_def e]
    show ?thesis
    proof (cases "e = 93")
      case True
      then show ?thesis using step chr_nonzero [OF e] by simp
    next
      case False
      have "outcome (class_loop pat q) (\<lambda>ep. q < ep \<and> ep \<le> length pat)" by (rule less.hyps) (use step q p in auto)
      then have "outcome (class_loop pat q) (\<lambda>ep. p < ep \<and> ep \<le> length pat)" by (rule outcome_mono) (use step in auto)
      with step False show ?thesis by simp
    qed
  qed
qed

lemma classend_ok:
  assumes "p < length pat"
  shows "outcome (classend pat p) (\<lambda>ep. p < ep \<and> ep \<le> length pat)"
proof -
  obtain d where d: "chr pat (p + 1) = Inr d" using chr_ok [of "p + 1" pat] assms by auto
  have "p + 2 \<le> length pat" if "d \<noteq> 0" using chr_nonzero [OF d] that by simp
  then have "outcome (class_loop pat (if d = 94 then p + 2 else p + 1)) (\<lambda>ep. (if d = 94 then p + 2 else p + 1) < ep \<and> ep \<le> length pat)"
    using assms by (intro class_loop_ok) simp
  then have "outcome (class_loop pat (if d = 94 then p + 2 else p + 1)) (\<lambda>ep. p < ep \<and> ep \<le> length pat)"
    by (rule outcome_mono) (simp split: if_splits)
  then show ?thesis using d assms chr_nonzero [OF d] by (auto simp: classend_def chr_less)
qed

lemma bracket_loop_ok: "ec \<le> length pat \<Longrightarrow> outcome (bracket_loop pat c sig p ec) (\<lambda>_. True)"
proof (induction "ec - p" arbitrary: p rule: less_induct)
  case less
  show ?case
  proof (cases "p + 1 < ec")
    case True
    then have r: "\<forall>q > p. outcome (bracket_loop pat c sig q ec) (\<lambda>_. True)" using less by simp
    show ?thesis using True less.prems r
      by (subst bracket_loop.simps) (auto intro!: outcome_bind [OF chr_outcome])
  next
    case False
    then show ?thesis by (subst bracket_loop.simps) simp
  qed
qed

lemma matchbracketclass_ok: "p < length pat \<Longrightarrow> ec \<le> length pat \<Longrightarrow> outcome (matchbracketclass pat c p ec) (\<lambda>_. True)"
  unfolding matchbracketclass_def by (auto intro!: outcome_bind [OF chr_outcome] bracket_loop_ok)

lemma singlematch_ok: "p < length pat \<Longrightarrow> ep \<le> length pat \<Longrightarrow> outcome (singlematch pat c p ep) (\<lambda>_. True)"
  unfolding singlematch_def by (auto intro!: outcome_bind [OF chr_outcome] matchbracketclass_ok)

lemma max_count_ok:
  assumes "p < length pat" "ep \<le> length pat"
  shows "s + i \<le> length src \<Longrightarrow> outcome (max_count pat src s p ep i) (\<lambda>n. s + n \<le> length src)"
proof (induction "length src - (s + i)" arbitrary: i rule: less_induct)
  case less
  show ?case
  proof (cases "s + i < length src")
    case True
    then have "outcome (max_count pat src s p ep (i + 1)) (\<lambda>n. s + n \<le> length src)" using less by simp
    then show ?thesis using True less.prems
      by (subst max_count.simps) (auto intro!: outcome_bind [OF singlematch_ok [OF assms]])
  next
    case False
    then show ?thesis using less.prems by (subst max_count.simps) simp
  qed
qed

subsection \<open>Captures\<close>

lemma caps_length: "ms_ok s ms \<Longrightarrow> length (caps ms) = ms_level ms"
  by (simp add: caps_def ms_ok_def)

lemma caps_nth: "ms_ok s ms \<Longrightarrow> l < ms_level ms \<Longrightarrow> cap_at ms l = Inr (caps ms ! l) \<and> cap_ok s (caps ms ! l)"
  using nth_mem [of l "caps ms"] caps_length [of s ms] by (auto simp: ms_ok_def cap_at_def caps_def)

lemma close_loop_ok: "ms_ok s ms \<Longrightarrow> n \<le> ms_level ms \<Longrightarrow>
    outcome (close_loop ms n) (\<lambda>l. l < n \<and> c_len (caps ms ! l) = CAP_UNFINISHED \<and> (\<forall>i. l < i \<longrightarrow> i < n \<longrightarrow> c_len (caps ms ! i) \<noteq> CAP_UNFINISHED))"
proof (induction n)
  case 0
  then show ?case by simp
next
  case (Suc n)
  have c: "cap_at ms n = Inr (caps ms ! n)" using caps_nth [of s ms n] Suc.prems by simp
  show ?case
  proof (cases "c_len (caps ms ! n) = CAP_UNFINISHED")
    case True
    with c show ?thesis by simp
  next
    case False
    have "outcome (close_loop ms n) (\<lambda>l. l < n \<and> c_len (caps ms ! l) = CAP_UNFINISHED \<and> (\<forall>i. l < i \<longrightarrow> i < n \<longrightarrow> c_len (caps ms ! i) \<noteq> CAP_UNFINISHED))"
      using Suc by simp
    then have "outcome (close_loop ms n) (\<lambda>l. l < Suc n \<and> c_len (caps ms ! l) = CAP_UNFINISHED \<and> (\<forall>i. l < i \<longrightarrow> i < Suc n \<longrightarrow> c_len (caps ms ! i) \<noteq> CAP_UNFINISHED))"
      by (rule outcome_mono) (use False in \<open>auto simp: less_Suc_eq\<close>)
    with c False show ?thesis by simp
  qed
qed

text \<open>Opening a capture appends it; closing one updates it; both can be undone.\<close>

definition open_cap :: "MatchState \<Rightarrow> nat \<Rightarrow> int \<Rightarrow> MatchState" where
  "open_cap ms s what = ms\<lparr>ms_capture := (ms_capture ms)[ms_level ms := \<lparr>c_init = s, c_len = what\<rparr>], ms_level := ms_level ms + 1\<rparr>"

definition upd_cap :: "MatchState \<Rightarrow> nat \<Rightarrow> capture \<Rightarrow> MatchState" where
  "upd_cap ms l c = ms\<lparr>ms_capture := (ms_capture ms)[l := c]\<rparr>"

lemma open_cap_caps: "ms_ok s ms \<Longrightarrow> ms_level ms < LUA_MAXCAPTURES \<Longrightarrow> caps (open_cap ms s what) = caps ms @ [\<lparr>c_init = s, c_len = what\<rparr>]"
  by (simp add: caps_def open_cap_def ms_ok_def take_Suc_conv_app_nth)

lemma open_cap_ok: "ms_ok s ms \<Longrightarrow> ms_level ms < LUA_MAXCAPTURES \<Longrightarrow> what \<in> {CAP_UNFINISHED, CAP_POSITION} \<Longrightarrow> ms_ok s (open_cap ms s what)"
  unfolding ms_ok_def [of s "open_cap ms s what"]
  by (simp only: open_cap_caps) (auto simp: open_cap_def ms_ok_def src_end_def cap_ok_def)

lemma upd_cap_caps: "ms_ok s ms \<Longrightarrow> l < ms_level ms \<Longrightarrow> caps (upd_cap ms l c) = (caps ms)[l := c]"
  by (simp add: caps_def upd_cap_def take_update_swap)

lemma upd_cap_ok: "ms_ok s ms \<Longrightarrow> l < ms_level ms \<Longrightarrow> cap_ok s c \<Longrightarrow> ms_ok s (upd_cap ms l c)"
  unfolding ms_ok_def [of s "upd_cap ms l c"]
  by (simp only: upd_cap_caps) (auto simp: upd_cap_def ms_ok_def src_end_def dest: set_update_subset_insert [THEN subsetD])

lemma start_capture_open:
  assumes "ms_ok s ms"
  shows "start_capture mt ms s p what =
     (if ms_level ms \<ge> LUA_MAXCAPTURES then Inl (RunError (str ''too many captures''))
      else sum_bind (mt (open_cap ms s what) s p) (\<lambda>(res, ms2). Inr (res, if res = None then ms2\<lparr>ms_level := ms_level ms2 - 1\<rparr> else ms2)))"
  using assms by (simp add: start_capture_def set_cap_def open_cap_def ms_ok_def)

lemma unopen_same:
  assumes "ms_ok s ms" "ms_level ms < LUA_MAXCAPTURES" "same_caps (open_cap ms s what) ms2"
  shows "same_caps ms (ms2\<lparr>ms_level := ms_level ms2 - 1\<rparr>)"
proof -
  have l: "ms_level ms2 = Suc (ms_level ms)" using assms(3) by (simp add: same_caps_def open_cap_def)
  have "caps (ms2\<lparr>ms_level := ms_level ms2 - 1\<rparr>) = take (ms_level ms) (caps ms2)" by (simp add: caps_def l)
  also have "\<dots> = caps ms"
    using assms(3) open_cap_caps [OF assms(1,2), of what] caps_length [OF assms(1)] by (simp add: same_caps_def)
  finally show ?thesis using assms(3) l by (simp add: same_caps_def open_cap_def)
qed

lemma start_capture_good:
  assumes "good_match mt n p0" "ms_ok s ms" "p0 < p" "p \<le> n" "what \<in> {CAP_UNFINISHED, CAP_POSITION}"
  shows "good ms s (start_capture mt ms s p what)"
proof (cases "ms_level ms < LUA_MAXCAPTURES")
  case True
  have "good (open_cap ms s what) s (mt (open_cap ms s what) s p)"
    by (rule good_matchD [OF assms(1) open_cap_ok [OF assms(2) True assms(5)] assms(3,4)])
  then show ?thesis using True unopen_same [OF assms(2) True, of what]
    by (cases "(ms, s, mt (open_cap ms s what) s p)" rule: good.cases)
      (auto simp: start_capture_open [OF assms(2)] open_cap_def)
next
  case False
  then show ?thesis by (simp add: start_capture_open [OF assms(2)])
qed

lemma end_capture_upd:
  assumes ok: "ms_ok s ms"
  shows "(\<exists>m. end_capture mt ms s p = Inl (RunError m) \<and> capture_to_close ms = Inl (RunError m)) \<or>
    (\<exists>l. capture_to_close ms = Inr l \<and> l < ms_level ms \<and> c_len (caps ms ! l) = CAP_UNFINISHED \<and>
       (\<forall>i. l < i \<longrightarrow> i < ms_level ms \<longrightarrow> c_len (caps ms ! i) \<noteq> CAP_UNFINISHED) \<and>
       cap_ok s ((caps ms ! l)\<lparr>c_len := int s - int (c_init (caps ms ! l))\<rparr>) \<and>
       end_capture mt ms s p = sum_bind (mt (upd_cap ms l ((caps ms ! l)\<lparr>c_len := int s - int (c_init (caps ms ! l))\<rparr>)) s p)
         (\<lambda>(res, ms2). if res = None then sum_bind (cap_at ms2 l) (\<lambda>c2. sum_bind (set_cap ms2 l (c2\<lparr>c_len := CAP_UNFINISHED\<rparr>)) (\<lambda>ms3. Inr (None, ms3)))
            else Inr (res, ms2)))"
proof -
  have o: "outcome (capture_to_close ms) (\<lambda>l. l < ms_level ms \<and> c_len (caps ms ! l) = CAP_UNFINISHED \<and>
      (\<forall>i. l < i \<longrightarrow> i < ms_level ms \<longrightarrow> c_len (caps ms ! i) \<noteq> CAP_UNFINISHED))"
    unfolding capture_to_close_def by (rule close_loop_ok [OF ok]) simp
  show ?thesis
  proof (cases "capture_to_close ms")
    case (Inl e)
    with o show ?thesis by (auto simp: end_capture_def)
  next
    case (Inr l)
    with o have l: "l < ms_level ms" "c_len (caps ms ! l) = CAP_UNFINISHED"
      "\<forall>i. l < i \<longrightarrow> i < ms_level ms \<longrightarrow> c_len (caps ms ! i) \<noteq> CAP_UNFINISHED" by auto
    have c: "cap_at ms l = Inr (caps ms ! l)" "cap_ok s (caps ms ! l)" using caps_nth [OF ok l(1)] by auto
    have "cap_ok s ((caps ms ! l)\<lparr>c_len := int s - int (c_init (caps ms ! l))\<rparr>)" using c(2) by (auto simp: cap_ok_def)
    moreover have "l < length (ms_capture ms)" using l ok by (simp add: ms_ok_def)
    ultimately show ?thesis using Inr l c by (simp add: end_capture_def set_cap_def upd_cap_def)
  qed
qed

lemma reopen_same:
  assumes "ms_ok s ms" "l < ms_level ms" "c_len (caps ms ! l) = CAP_UNFINISHED" "same_caps (upd_cap ms l ((caps ms ! l)\<lparr>c_len := x\<rparr>)) ms2"
  shows "\<exists>ms3. sum_bind (cap_at ms2 l) (\<lambda>c2. sum_bind (set_cap ms2 l (c2\<lparr>c_len := CAP_UNFINISHED\<rparr>)) (\<lambda>ms3. Inr (None, ms3))) =
    (Inr (None, ms3) :: match_result) \<and> same_caps ms ms3"
proof -
  have lev: "ms_level ms2 = ms_level ms" and len: "length (ms_capture ms2) = length (ms_capture ms)" "ms_src ms2 = ms_src ms"
    using assms(4) by (simp_all add: same_caps_def upd_cap_def)
  have cs: "caps ms2 = (caps ms)[l := (caps ms ! l)\<lparr>c_len := x\<rparr>]"
    using assms(4) upd_cap_caps [OF assms(1,2)] by (simp add: same_caps_def)
  have l: "l < length (ms_capture ms2)" "l < length (caps ms)" using assms(1,2) len caps_length [OF assms(1)] by (simp_all add: ms_ok_def)
  have n: "ms_capture ms2 ! l = (caps ms ! l)\<lparr>c_len := x\<rparr>"
    using arg_cong [OF cs, of "\<lambda>xs. xs ! l"] l assms(2) by (simp add: caps_def lev)
  let ?c = "(caps ms ! l)\<lparr>c_len := CAP_UNFINISHED\<rparr>"
  have c: "?c = caps ms ! l" using assms(3) by simp
  have "caps (upd_cap ms2 l ?c) = (caps ms2)[l := ?c]" using assms(2) lev by (simp add: caps_def upd_cap_def take_update_swap)
  also have "\<dots> = caps ms" by (simp add: cs c)
  finally show ?thesis using l n len lev
    by (intro exI [of _ "upd_cap ms2 l ?c"]) (simp add: cap_at_def set_cap_def upd_cap_def same_caps_def)
qed

lemma end_capture_good:
  assumes "good_match mt n p0" "ms_ok s ms" "p0 < p" "p \<le> n"
  shows "good ms s (end_capture mt ms s p)"
  using end_capture_upd [OF assms(2), of mt p]
proof (elim disjE exE conjE)
  fix l
  let ?c = "(caps ms ! l)\<lparr>c_len := int s - int (c_init (caps ms ! l))\<rparr>"
  assume l: "l < ms_level ms" "c_len (caps ms ! l) = CAP_UNFINISHED" and c: "cap_ok s ?c"
    and eq: "end_capture mt ms s p = sum_bind (mt (upd_cap ms l ?c) s p)
         (\<lambda>(res, ms2). if res = None then sum_bind (cap_at ms2 l) (\<lambda>c2. sum_bind (set_cap ms2 l (c2\<lparr>c_len := CAP_UNFINISHED\<rparr>)) (\<lambda>ms3. Inr (None, ms3)))
            else Inr (res, ms2))"
  have "good (upd_cap ms l ?c) s (mt (upd_cap ms l ?c) s p)"
    by (rule good_matchD [OF assms(1) upd_cap_ok [OF assms(2) l(1) c] assms(3,4)])
  then show "good ms s (end_capture mt ms s p)"
  proof (cases rule: good_cases)
    case (2 ms2)
    from reopen_same [OF assms(2) l 2(2)] 2(1) show ?thesis by (auto simp: eq)
  qed (auto simp: eq upd_cap_def)
qed simp

subsection \<open>Repetitions, items, and the whole matcher\<close>

lemma good_seq:
  assumes "good ms s r" "\<And>ms1. same_caps ms ms1 \<Longrightarrow> good ms1 s (k ms1)"
  shows "good ms s (sum_bind r (\<lambda>(res, ms1). if res \<noteq> None then Inr (res, ms1) else k ms1))"
  using assms(1) by (cases rule: good_cases) (auto intro: good_same assms(2))

lemma max_try_good:
  assumes "good_match mt n p" "p < q" "q \<le> n"
  shows "ms_ok s ms \<Longrightarrow> s + i \<le> src_end ms \<Longrightarrow> good ms s (max_try mt ms s q i)"
proof (induction i arbitrary: ms)
  case 0
  then show ?case using good_matchD [OF assms(1) _ assms(2,3)] by simp
next
  case (Suc i)
  have "ms_ok (s + Suc i) ms" using Suc.prems by (auto intro: ms_ok_mono)
  then have "good ms s (mt ms (s + Suc i) q)" by (intro good_later [OF good_matchD [OF assms(1) _ assms(2,3)]]) simp_all
  then show ?case unfolding max_try.simps
    by (rule good_seq) (rule Suc.IH, use Suc.prems in \<open>auto simp: same_caps_end intro: same_caps_ok\<close>)
qed

lemma max_expand_good:
  assumes "good_match mt n p" "p < length pat" "p < ep" "ep < n" "n \<le> length pat" "ms_ok s ms"
  shows "good ms s (max_expand mt pat ms s p ep)"
proof -
  have "outcome (max_count pat (ms_src ms) s p ep 0) (\<lambda>i. s + i \<le> length (ms_src ms))"
    by (rule max_count_ok) (use assms ms_ok_le [OF assms(6)] in auto)
  then show ?thesis unfolding max_expand_def
    by (rule good_outcome) (use assms in \<open>auto simp: src_end_def intro!: max_try_good\<close>)
qed

lemma min_loop_good:
  assumes "good_match mt n p" "p < length pat" "p < ep" "ep < n" "n \<le> length pat"
  shows "ms_ok s ms \<Longrightarrow> src_end ms - s < f \<Longrightarrow> good ms s (min_loop mt pat f ms s p ep)"
proof (induction f arbitrary: ms s)
  case 0
  then show ?case by simp
next
  case (Suc f)
  have "good ms s (mt ms s (ep + 1))" by (rule good_matchD [OF assms(1)]) (use Suc assms in auto)
  then show ?case unfolding min_loop.simps
  proof (rule good_seq)
    fix ms1 assume s1: "same_caps ms ms1"
    note ok = same_caps_ok [OF s1 Suc.prems(1)]
    show "good ms1 s (if s < src_end ms1 then
         sum_bind (chr (ms_src ms1) s) (\<lambda>c. sum_bind (singlematch pat c p ep) (\<lambda>b.
           if b then min_loop mt pat f ms1 (s + 1) p ep else Inr (None, ms1)))
       else Inr (None, ms1))"
    proof (cases "s < src_end ms1")
      case True
      have "good ms1 (s + 1) (min_loop mt pat f ms1 (s + 1) p ep)"
        by (rule Suc.IH) (use ok True Suc.prems same_caps_end [OF s1] in \<open>auto intro: ms_ok_mono\<close>)
      then have "good ms1 s (min_loop mt pat f ms1 (s + 1) p ep)" by (rule good_later) simp
      then show ?thesis using True assms ms_ok_le [OF ok]
        by (auto intro!: good_outcome [OF chr_outcome] good_outcome [OF singlematch_ok])
    qed simp
  qed
qed

lemma match_capture_ok:
  assumes ok: "ms_ok s ms"
  shows "outcome (match_capture ms s l0) (\<lambda>r. case r of None \<Rightarrow> True | Some s' \<Rightarrow> s \<le> s' \<and> s' \<le> src_end ms)"
proof -
  let ?l = "nat (uint l0 - 49)"
  show ?thesis
  proof (cases "uint l0 - 49 < 0 \<or> uint l0 - 49 \<ge> int (ms_level ms)")
    case True
    then show ?thesis by (auto simp: match_capture_def check_capture_def)
  next
    case False
    then have l: "?l < ms_level ms" by linarith
    note c = caps_nth [OF ok l, THEN conjunct1] caps_nth [OF ok l, THEN conjunct2]
    have e: "src_end ms < 2 ^ 63" "s \<le> src_end ms" using ok by (simp_all add: ms_ok_def)
    show ?thesis
    proof (cases "0 \<le> c_len (caps ms ! ?l)")
      case True
      then have "int (c_init (caps ms ! ?l)) + c_len (caps ms ! ?l) \<le> int s"
        using c(2) by (auto simp: cap_ok_def CAP_UNFINISHED_def CAP_POSITION_def)
      then show ?thesis using False c(1) True e
        by (auto simp: match_capture_def check_capture_def Let_def CAP_UNFINISHED_def le_diff_conv2 [OF e(2)])
    next
      case neg: False
      then have "c_len (caps ms ! ?l) \<in> {- 1, - 2}" using c(2) by (auto simp: cap_ok_def CAP_UNFINISHED_def CAP_POSITION_def)
      then show ?thesis using False c(1) e
        by (auto simp: match_capture_def check_capture_def Let_def CAP_UNFINISHED_def)
    qed
  qed
qed

lemma balance_loop_bound: "balance_loop src b e s cont = Some s' \<Longrightarrow> s < s' \<and> s' \<le> length src"
proof (induction src b e s cont rule: balance_loop.induct)
  case (1 src b e s cont)
  then show ?case by (subst (asm) (3) balance_loop.simps) (auto split: if_splits)
qed

lemma matchbalance_ok:
  assumes "ms_ok s ms" "p \<le> length pat"
  shows "outcome (matchbalance pat ms s p) (\<lambda>r. case r of None \<Rightarrow> True | Some s' \<Rightarrow> s \<le> s' \<and> s' \<le> src_end ms \<and> p + 2 \<le> length pat)"
  unfolding matchbalance_def using assms ms_ok_le [OF assms(1)]
  by (auto simp: src_end_def split: option.split dest!: balance_loop_bound chr_nonzero
      intro!: outcome_bind [OF chr_outcome])

lemma match_item_good:
  assumes mt: "good_match mt (length pat) p" and p: "p < length pat" and ok: "ms_ok s ms"
  shows "good ms s (match_item mt pat ms s p)"
  unfolding match_item_def
proof (rule good_outcome [OF classend_ok [OF p]], goal_cases)
  case (1 ep)
  then have ep: "p < ep" "ep \<le> length pat" by auto
  have s: "s \<le> length (ms_src ms)" by (rule ms_ok_le [OF ok])
  have m: "outcome (if s < src_end ms then sum_bind (chr (ms_src ms) s) (\<lambda>c. singlematch pat c p ep) else Inr False) (\<lambda>m. m \<longrightarrow> s < src_end ms)"
    using s p ep by (auto intro!: outcome_bind [OF chr_outcome] outcome_mono [OF singlematch_ok])
  have nxt: "good ms s (mt ms s' q)" if "p < q" "q \<le> length pat" "s \<le> s'" "s' \<le> src_end ms" for q s'
    using that ok by (intro good_later [OF good_matchD [OF mt]]) (auto intro: ms_ok_mono)
  show ?case
  proof (rule good_outcome [OF m], rule good_outcome [OF chr_outcome [OF ep(2)]], goal_cases)
    case (1 m e)
    have q: "ep + 1 \<le> length pat" if "e \<noteq> 0" using 1 that by auto
    have one: "good ms s (max_expand mt pat ms (s + 1) p ep)" if "m" "e \<noteq> 0"
      using that 1 q p ep ok by (intro good_later [OF max_expand_good [OF mt]]) (auto intro: ms_ok_mono)
    have opt: "good ms s (sum_bind (mt ms (s + 1) (ep + 1)) (\<lambda>(res, ms1). if res \<noteq> None then Inr (res, ms1) else mt ms1 s (ep + 1)))" if "m" "e \<noteq> 0"
      by (rule good_seq) (use that 1 q ep ok in \<open>auto intro!: nxt good_matchD [OF mt] dest: same_caps_ok\<close>)
    have lazy: "good ms s (min_expand mt pat ms s p ep)" if "e \<noteq> 0"
      unfolding min_expand_def by (rule min_loop_good [OF mt p]) (use that 1 q ep ok in auto)
    have "s \<le> src_end ms" using s by (simp add: src_end_def)
    then show ?case
      using 1 q ep p ok one opt lazy by (auto intro!: nxt max_expand_good [OF mt])
  qed
qed

lemma match_frontier_good:
  assumes mt: "good_match mt (length pat) p" and p: "p \<le> length pat" and ok: "ms_ok s ms"
  shows "good ms s (match_frontier mt pat ms s p)"
  unfolding match_frontier_def
proof (rule good_outcome [OF chr_outcome [OF p]], goal_cases)
  case (1 c)
  show ?case
  proof (cases "c = 91")
    case True
    then have p': "p < length pat" using 1 by auto
    have s: "s \<le> length (ms_src ms)" by (rule ms_ok_le [OF ok])
    have "good ms s (sum_bind (classend pat p) (\<lambda>ep. sum_bind (if s = 0 then Inr 0 else chr (ms_src ms) (s - 1)) (\<lambda>previous.
         sum_bind (matchbracketclass pat previous p (ep - 1)) (\<lambda>a. if a then Inr (None, ms)
           else sum_bind (chr (ms_src ms) s) (\<lambda>d. sum_bind (matchbracketclass pat d p (ep - 1)) (\<lambda>b.
             if \<not> b then Inr (None, ms) else mt ms s ep))))))"
    proof (rule good_outcome [OF classend_ok [OF p']], goal_cases)
      case (1 ep)
      have "outcome (if s = 0 then Inr 0 else chr (ms_src ms) (s - 1)) (\<lambda>_. True)" using s by (auto simp: chr_def)
      then show ?case using 1 p' s ok
        by (auto intro!: good_outcome [OF matchbracketclass_ok] good_outcome [OF chr_outcome] good_matchD [OF mt] elim!: good_outcome)
    qed
    with True show ?thesis by simp
  qed simp
qed

lemma match_run_good: "p \<le> length pat \<Longrightarrow> length pat < f + p \<Longrightarrow> ms_ok s ms \<Longrightarrow> good ms s (match_run f pat ms s p)"
proof (induction f arbitrary: ms s p)
  case 0
  then show ?case by simp
next
  case (Suc f)
  have mt: "good_match (match_run f pat) (length pat) p'" if "p \<le> p'" for p'
    using Suc.IH Suc.prems(2) that by (simp add: good_match_def)
  note run = good_matchD [OF mt [OF order_refl]]
  obtain c where c: "chr pat p = Inr c" using chr_ok [OF Suc.prems(1)] by blast
  have p: "p < length pat" if "c \<noteq> 0" using chr_nonzero [OF c] that by blast
  obtain d where d: "chr pat (p + 1) = Inr d" if "c \<noteq> 0" using chr_ok [of "p + 1" pat] p by (cases "c = 0") auto
  have p2: "p + 1 < length pat" if "c \<noteq> 0" "d \<noteq> 0" using chr_nonzero [OF d] that by blast
  have item: "good ms s (match_item (match_run f pat) pat ms s p)" if "c \<noteq> 0"
    by (rule match_item_good [OF mt p Suc.prems(3)]) (use that in auto)
  have bal: "good ms s (sum_bind (matchbalance pat ms s (p + 2))
      (\<lambda>r. case r of None \<Rightarrow> Inr (None, ms) | Some s' \<Rightarrow> match_run f pat ms s' (p + 4)))" if "p + 1 < length pat"
    using that Suc.prems
    by (intro good_outcome [OF matchbalance_ok]) (auto split: option.split intro!: good_later [OF run] intro: ms_ok_mono)
  have bref: "good ms s (sum_bind (match_capture ms s d)
      (\<lambda>r. case r of None \<Rightarrow> Inr (None, ms) | Some s' \<Rightarrow> match_run f pat ms s' (p + 2)))" if "p + 1 < length pat"
    using that Suc.prems
    by (intro good_outcome [OF match_capture_ok]) (auto split: option.split intro!: good_later [OF run] intro: ms_ok_mono)
  have fr: "good ms s (match_frontier (match_run f pat) pat ms s (p + 2))" if "p + 1 < length pat"
    by (rule match_frontier_good [OF mt _ Suc.prems(3)]) (use that in auto)
  show ?case
  proof (cases "c = 0")
    case True
    with c Suc.prems show ?thesis by (simp add: L_ESC_def)
  next
    case False
    note nz = p [OF False] d [OF False]
    consider "c = 40" | "c = 41" | "c = L_ESC" | "c = 36" | "c \<notin> {40, 41, L_ESC, 0, 36}" using False by auto
    then show ?thesis
    proof cases
      case 1
      then show ?thesis using c nz p2 [OF False] Suc.prems
        by (auto simp: Let_def intro!: start_capture_good [OF mt [OF order_refl]])
    next
      case 2
      then show ?thesis using c nz Suc.prems by (auto simp: Let_def intro!: end_capture_good [OF mt [OF order_refl]])
    next
      case 3
      have iz: "isdigit 0 = False" by (simp add: isdigit_def)
      have "d = 98 \<or> d = 102 \<or> isdigit (uint d) \<Longrightarrow> p + 1 < length pat" using p2 [OF False] iz by (cases "d = 0") auto
      with 3 c nz item bal bref fr False show ?thesis by (auto simp: Let_def L_ESC_def)
    next
      case 4
      with c nz item Suc.prems show ?thesis by (auto simp: Let_def L_ESC_def)
    next
      case 5
      with c item show ?thesis by (simp add: Let_def)
    qed
  qed
qed

end
