(* ===== verification/Lua_Pattern_Spec.thy ===== *)
theory Lua_Pattern_Spec
  imports Lua_Pattern_Safe
begin

text \<open>
  What a pattern means. \<open>pattern_at pat p its\<close> reads the pattern from position \<open>p\<close> on as a list of items; \<open>results\<close> lists all the ways to
  match the items from a position of the subject, the preferred ones first, each with its end and its captures. The
  matcher, which backtracks over one array of captures, returns the first of them.
\<close>

datatype item =
  Once "byte \<Rightarrow> bool" | Maybe "byte \<Rightarrow> bool" | Many "byte \<Rightarrow> bool" | Few "byte \<Rightarrow> bool"
| Balance byte byte | Frontier "byte \<Rightarrow> bool" | Backref nat | Open | Position | Close | AtEnd

definition plain_item :: "bytes \<Rightarrow> nat \<Rightarrow> bool" where
  "plain_item pat p \<longleftrightarrow> (\<exists>c. chr pat p = Inr c \<and> c \<notin> {0, 40, 41} \<and>
     (c = L_ESC \<longrightarrow> (\<forall>d. chr pat (p + 1) = Inr d \<longrightarrow> d \<noteq> 98 \<and> d \<noteq> 102 \<and> \<not> isdigit (uint d))) \<and>
     (c = 36 \<longrightarrow> chr pat (p + 1) \<noteq> Inr 0))"

definition single_class :: "bytes \<Rightarrow> nat \<Rightarrow> nat \<Rightarrow> (byte \<Rightarrow> bool) \<Rightarrow> bool" where
  "single_class pat p ep P \<longleftrightarrow> plain_item pat p \<and> classend pat p = Inr ep \<and> (\<forall>c. singlematch pat c p ep = Inr (P c))"

inductive pattern_at :: "bytes \<Rightarrow> nat \<Rightarrow> item list \<Rightarrow> bool" for pat where
  pend: "chr pat p = Inr 0 \<Longrightarrow> pattern_at pat p []"
| pos: "chr pat p = Inr 40 \<Longrightarrow> chr pat (p + 1) = Inr 41 \<Longrightarrow> pattern_at pat (p + 2) its \<Longrightarrow> pattern_at pat p (Position # its)"
| opn: "chr pat p = Inr 40 \<Longrightarrow> chr pat (p + 1) \<noteq> Inr 41 \<Longrightarrow> pattern_at pat (p + 1) its \<Longrightarrow> pattern_at pat p (Open # its)"
| close: "chr pat p = Inr 41 \<Longrightarrow> pattern_at pat (p + 1) its \<Longrightarrow> pattern_at pat p (Close # its)"
| balance: "chr pat p = Inr L_ESC \<Longrightarrow> chr pat (p + 1) = Inr 98 \<Longrightarrow> chr pat (p + 2) = Inr b \<Longrightarrow> b \<noteq> 0 \<Longrightarrow> chr pat (p + 3) = Inr e \<Longrightarrow> e \<noteq> 0 \<Longrightarrow>
    pattern_at pat (p + 4) its \<Longrightarrow> pattern_at pat p (Balance b e # its)"
| frontier: "chr pat p = Inr L_ESC \<Longrightarrow> chr pat (p + 1) = Inr 102 \<Longrightarrow> chr pat (p + 2) = Inr 91 \<Longrightarrow> classend pat (p + 2) = Inr ep \<Longrightarrow>
    \<forall>c. matchbracketclass pat c (p + 2) (ep - 1) = Inr (P c) \<Longrightarrow> pattern_at pat ep its \<Longrightarrow> pattern_at pat p (Frontier P # its)"
| backref: "chr pat p = Inr L_ESC \<Longrightarrow> chr pat (p + 1) = Inr d \<Longrightarrow> isdigit (uint d) \<Longrightarrow> d \<noteq> 48 \<Longrightarrow>
    pattern_at pat (p + 2) its \<Longrightarrow> pattern_at pat p (Backref (nat (uint d - 49)) # its)"
| at_end: "chr pat p = Inr 36 \<Longrightarrow> chr pat (p + 1) = Inr 0 \<Longrightarrow> pattern_at pat p [AtEnd]"
| maybe: "single_class pat p ep P \<Longrightarrow> chr pat ep = Inr 63 \<Longrightarrow> pattern_at pat (ep + 1) its \<Longrightarrow> pattern_at pat p (Maybe P # its)"
| many: "single_class pat p ep P \<Longrightarrow> chr pat ep = Inr 42 \<Longrightarrow> pattern_at pat (ep + 1) its \<Longrightarrow> pattern_at pat p (Many P # its)"
| many1: "single_class pat p ep P \<Longrightarrow> chr pat ep = Inr 43 \<Longrightarrow> pattern_at pat (ep + 1) its \<Longrightarrow> pattern_at pat p (Once P # Many P # its)"
| few: "single_class pat p ep P \<Longrightarrow> chr pat ep = Inr 45 \<Longrightarrow> pattern_at pat (ep + 1) its \<Longrightarrow> pattern_at pat p (Few P # its)"
| once: "single_class pat p ep P \<Longrightarrow> chr pat ep = Inr e \<Longrightarrow> e \<notin> {63, 42, 43, 45} \<Longrightarrow> pattern_at pat ep its \<Longrightarrow> pattern_at pat p (Once P # its)"

text \<open>Which captures are closed: the static rules that make \<open>match\<close> run without an error.\<close>

definition last_open :: "bool list \<Rightarrow> nat" where
  "last_open cl = length (dropWhile id (rev cl)) - 1"

fun well_captured :: "bool list \<Rightarrow> item list \<Rightarrow> bool" where
  "well_captured cl [] = True"
| "well_captured cl (Open # its) = (length cl < LUA_MAXCAPTURES \<and> well_captured (cl @ [False]) its)"
| "well_captured cl (Position # its) = (length cl < LUA_MAXCAPTURES \<and> well_captured (cl @ [True]) its)"
| "well_captured cl (Close # its) = (False \<in> set cl \<and> well_captured (cl[last_open cl := True]) its)"
| "well_captured cl (Backref k # its) = (k < length cl \<and> cl ! k \<and> well_captured cl its)"
| "well_captured cl (_ # its) = well_captured cl its"

subsection \<open>All the matches, in order of preference\<close>

text \<open>The nesting depth after a text that follows one opening character.\<close>

definition depth :: "byte \<Rightarrow> byte \<Rightarrow> bytes \<Rightarrow> int" where
  "depth b e xs = 1 + (if b = e then 0 else int (count_list xs b)) - int (count_list xs e)"

definition balance_end :: "bytes \<Rightarrow> byte \<Rightarrow> byte \<Rightarrow> nat \<Rightarrow> nat option" where
  "balance_end src b e s =
     (if s < length src \<and> src ! s = b
      then find (\<lambda>t. depth b e (take (t - Suc s) (drop (Suc s) src)) = 0) [s + 2..<Suc (length src)] else None)"

definition closed :: "capture \<Rightarrow> bool" where
  "closed c \<longleftrightarrow> c_len c \<noteq> CAP_UNFINISHED"

text \<open>The text of a finished capture.\<close>

definition cap_text :: "bytes \<Rightarrow> capture \<Rightarrow> bytes" where
  "cap_text src c = take (nat (c_len c)) (drop (c_init c) src)"

definition char_at :: "bytes \<Rightarrow> nat \<Rightarrow> byte" where
  "char_at src i = (if i < length src then src ! i else 0)"

type_synonym way = "nat \<times> capture list"

fun results :: "bytes \<Rightarrow> item list \<Rightarrow> nat \<Rightarrow> capture list \<Rightarrow> way list" where
  "results src [] s cs = [(s, cs)]"
| "results src (Once P # its) s cs = (if s < length src \<and> P (src ! s) then results src its (s + 1) cs else [])"
| "results src (Maybe P # its) s cs =
     (if s < length src \<and> P (src ! s) then results src its (s + 1) cs else []) @ results src its s cs"
| "results src (Many P # its) s cs =
     concat (map (\<lambda>i. results src its (s + i) cs) (rev [0..<Suc (length (takeWhile P (drop s src)))]))"
| "results src (Few P # its) s cs =
     concat (map (\<lambda>i. results src its (s + i) cs) [0..<Suc (length (takeWhile P (drop s src)))])"
| "results src (Balance b e # its) s cs =
     (case balance_end src b e s of None \<Rightarrow> [] | Some t \<Rightarrow> results src its t cs)"
| "results src (Frontier P # its) s cs =
     (if \<not> P (if s = 0 then 0 else char_at src (s - 1)) \<and> P (char_at src s) then results src its s cs else [])"
| "results src (Backref k # its) s cs =
     (if c_len (cs ! k) \<noteq> CAP_POSITION \<and> take (nat (c_len (cs ! k))) (drop s src) = cap_text src (cs ! k) \<and> s + nat (c_len (cs ! k)) \<le> length src
      then results src its (s + nat (c_len (cs ! k))) cs else [])"
| "results src (Open # its) s cs = results src its s (cs @ [\<lparr>c_init = s, c_len = CAP_UNFINISHED\<rparr>])"
| "results src (Position # its) s cs = results src its s (cs @ [\<lparr>c_init = s, c_len = CAP_POSITION\<rparr>])"
| "results src (Close # its) s cs =
     (let l = last_open (map closed cs) in results src its s (cs[l := (cs ! l)\<lparr>c_len := int s - int (c_init (cs ! l))\<rparr>]))"
| "results src (AtEnd # its) s cs = (if s = length src then results src its s cs else [])"

text \<open>The matcher's result is the head of the list.\<close>

fun agrees :: "way list \<Rightarrow> MatchState \<Rightarrow> match_result \<Rightarrow> bool" where
  "agrees [] ms r = (\<exists>ms'. r = Inr (None, ms') \<and> same_caps ms ms')"
| "agrees ((e, cs) # _) ms r = (\<exists>ms'. r = Inr (Some e, ms') \<and> ms_src ms' = ms_src ms \<and> caps ms' = cs)"

lemma agrees_same: "same_caps ms ms1 \<Longrightarrow> agrees xs ms1 r \<Longrightarrow> agrees xs ms r"
  by (cases "(xs, ms, r)" rule: agrees.cases) (auto simp: same_caps_def)

lemma agrees_append:
  assumes "agrees xs ms r" "\<And>ms1. same_caps ms ms1 \<Longrightarrow> agrees ys ms1 (k ms1)"
  shows "agrees (xs @ ys) ms (sum_bind r (\<lambda>(res, ms1). if res \<noteq> None then Inr (res, ms1) else k ms1))"
  using assms(1) by (cases "(xs, ms, r)" rule: agrees.cases) (auto intro: agrees_same [OF _ assms(2)])

subsection \<open>The pieces\<close>

lemma last_open_eq:
  assumes "l < length cl" "\<not> cl ! l" "\<And>i. l < i \<Longrightarrow> i < length cl \<Longrightarrow> cl ! i"
  shows "last_open cl = l"
proof -
  have split: "cl = take l cl @ [False] @ drop (Suc l) cl" using assms id_take_nth_drop [of l cl] by simp
  have "\<forall>x \<in> set (drop (Suc l) cl). x" using assms(3) by (auto simp: in_set_conv_nth)
  then have "dropWhile id (rev cl) = False # rev (take l cl)"
    by (subst split) (simp, subst dropWhile_append2, auto)
  then show ?thesis using assms(1) by (simp add: last_open_def)
qed

lemma max_count_eq:
  assumes "\<And>c. singlematch pat c p ep = Inr (P c)"
  shows "max_count pat src s p ep i = Inr (i + length (takeWhile P (drop (s + i) src)))"
proof (induction "length src - (s + i)" arbitrary: i rule: less_induct)
  case less
  show ?case
  proof (cases "s + i < length src")
    case True
    then have "max_count pat src s p ep (Suc i) = Inr (Suc i + length (takeWhile P (drop (s + Suc i) src)))" using less by simp
    then show ?thesis using True assms by (subst max_count.simps) (simp add: Cons_nth_drop_Suc [symmetric])
  qed (subst max_count.simps, simp)
qed

lemma max_try_agrees:
  assumes "\<And>j ms'. j \<le> i \<Longrightarrow> same_caps ms ms' \<Longrightarrow> agrees (R (s + j)) ms' (mt ms' (s + j) q)"
  shows "agrees (concat (map (\<lambda>j. R (s + j)) (rev [0..<Suc i]))) ms (max_try mt ms s q i)"
  using assms
proof (induction i arbitrary: ms)
  case 0
  then show ?case using "0.prems" [of 0 ms] by simp
next
  case (Suc i)
  have "agrees (R (s + Suc i) @ concat (map (\<lambda>j. R (s + j)) (rev [0..<Suc i]))) ms (max_try mt ms s q (Suc i))"
    unfolding max_try.simps
  proof (rule agrees_append)
    show "agrees (R (s + Suc i)) ms (mt ms (s + Suc i) q)" by (rule Suc.prems) simp_all
    show "agrees (concat (map (\<lambda>j. R (s + j)) (rev [0..<Suc i]))) ms1 (max_try mt ms1 s q i)" if "same_caps ms ms1" for ms1
      by (rule Suc.IH) (use that in \<open>auto intro!: Suc.prems intro: same_caps_trans\<close>)
  qed
  then show ?case by simp
qed

lemma min_loop_agrees:
  assumes P: "\<And>c. singlematch pat c p ep = Inr (P c)"
    and R: "\<And>t ms'. s \<le> t \<Longrightarrow> t \<le> src_end ms \<Longrightarrow> same_caps ms ms' \<Longrightarrow> agrees (R t) ms' (mt ms' t (ep + 1))"
    and "s \<le> src_end ms" "src_end ms - s < f"
  shows "agrees (concat (map (\<lambda>i. R (s + i)) [0..<Suc (length (takeWhile P (drop s (ms_src ms))))])) ms (min_loop mt pat f ms s p ep)"
  using R assms(3-)
proof (induction f arbitrary: ms s)
  case 0
  then show ?case by simp
next
  case (Suc f)
  let ?n = "\<lambda>s. length (takeWhile P (drop s (ms_src ms)))"
  have up: "concat (map (\<lambda>i. R (s + i)) [0..<Suc (?n s)]) = R s @ concat (map (\<lambda>i. R (s + Suc i)) [0..<?n s])"
    by (subst map_upt_Suc) simp
  show ?case unfolding up min_loop.simps
  proof (rule agrees_append)
    show "agrees (R s) ms (mt ms s (ep + 1))" by (rule Suc.prems(1)) (use Suc.prems in simp_all)
    fix ms1 assume s1: "same_caps ms ms1"
    then have src: "ms_src ms1 = ms_src ms" by (simp add: same_caps_def)
    show "agrees (concat (map (\<lambda>i. R (s + Suc i)) [0..<?n s])) ms1 (if s < src_end ms1 then
         sum_bind (chr (ms_src ms1) s) (\<lambda>c. sum_bind (singlematch pat c p ep) (\<lambda>b.
           if b then min_loop mt pat f ms1 (s + 1) p ep else Inr (None, ms1)))
       else Inr (None, ms1))"
    proof (cases "s < length (ms_src ms) \<and> P (ms_src ms ! s)")
      case True
      have "agrees (concat (map (\<lambda>i. R (Suc s + i)) [0..<Suc (length (takeWhile P (drop (Suc s) (ms_src ms1))))])) ms1 (min_loop mt pat f ms1 (Suc s) p ep)"
      proof (rule Suc.IH)
        show "agrees (R t) ms' (mt ms' t (ep + 1))" if "Suc s \<le> t" "t \<le> src_end ms1" "same_caps ms1 ms'" for t ms'
          using that s1 by (intro Suc.prems(1)) (auto simp: same_caps_end intro: same_caps_trans)
        show "Suc s \<le> src_end ms1" "src_end ms1 - Suc s < f" using True Suc.prems(3) src by (auto simp: src_end_def)
      qed
      moreover have "?n s = Suc (?n (Suc s))" using True by (simp add: Cons_nth_drop_Suc [symmetric])
      ultimately show ?thesis using True src P by (simp add: src_end_def chr_less)
    next
      case False
      then have "?n s = 0" by (cases "s < length (ms_src ms)") (simp_all add: Cons_nth_drop_Suc [symmetric])
      with False show ?thesis using src P by (auto simp: src_end_def chr_less)
    qed
  qed
qed

lemma depth_snoc: "depth b e (xs @ [c]) = depth b e xs + (if c = e then - 1 else if c = b then 1 else 0)"
  by (simp add: depth_def)

lemma balance_loop_eq:
  assumes "s0 \<le> s" "cont = depth b e (take (s - s0) (drop (Suc s0) src))" "0 < cont"
  shows "balance_loop src b e s cont = find (\<lambda>t. depth b e (take (t - Suc s0) (drop (Suc s0) src)) = 0) [s + 2..<Suc (length src)]"
  using assms
proof (induction src b e s cont rule: balance_loop.induct)
  case (1 src b e s cont)
  show ?case
  proof (cases "s + 1 < length src")
    case True
    let ?c = "src ! (s + 1)"
    have t: "take (Suc s - s0) (drop (Suc s0) src) = take (s - s0) (drop (Suc s0) src) @ [?c]"
      using True "1.prems"(1) by (simp add: Suc_diff_le take_Suc_conv_app_nth)
    have d: "depth b e (take (Suc s - s0) (drop (Suc s0) src)) = cont + (if ?c = e then - 1 else if ?c = b then 1 else 0)"
      unfolding t depth_snoc using "1.prems"(2) by simp
    have u: "[Suc (Suc s)..<Suc (length src)] = Suc (Suc s) # [Suc (Suc (Suc s))..<Suc (length src)]" using True by (simp add: upt_conv_Cons)
    show ?thesis
    proof (cases "?c = e \<and> cont = 1")
      case c: True
      then show ?thesis using True d by (subst balance_loop.simps) (simp add: u del: upt_Suc)
    next
      case c: False
      have nz: "depth b e (take (Suc s - s0) (drop (Suc s0) src)) \<noteq> 0" using c d "1.prems"(3) by (auto split: if_splits)
      let ?f = "find (\<lambda>t. depth b e (take (t - Suc s0) (drop (Suc s0) src)) = 0)"
      have "balance_loop src b e s cont = balance_loop src b e (s + 1) (cont + (if ?c = e then - 1 else if ?c = b then 1 else 0))"
        using True c by (subst balance_loop.simps) auto
      also have "\<dots> = ?f [(s + 1) + 2..<Suc (length src)]"
      proof (cases "?c = e")
        case True
        then show ?thesis using "1.IH"(1) [OF \<open>s + 1 < length src\<close> True] c d "1.prems" by simp
      next
        case ne: False
        show ?thesis
        proof (cases "?c = b")
          case True
          then show ?thesis using "1.IH"(2) [OF \<open>s + 1 < length src\<close> ne True] ne d "1.prems" by simp
        next
          case False
          then show ?thesis using "1.IH"(3) [OF \<open>s + 1 < length src\<close> ne False] ne d "1.prems" by simp
        qed
      qed
      also have "\<dots> = ?f [s + 2..<Suc (length src)]" using nz by (simp add: u del: upt_Suc)
      finally show ?thesis .
    qed
  next
    case False
    then have "[s + 2..<Suc (length src)] = []" by simp
    then show ?thesis using False by (subst balance_loop.simps) (simp del: upt_Suc)
  qed
qed

subsection \<open>The matcher finds the first way\<close>

lemma plain_run:
  assumes "plain_item pat p"
  shows "match_run (Suc g) pat ms s p = match_item (match_run g pat) pat ms s p"
proof -
  obtain c where c: "chr pat p = Inr c" "c \<notin> {0, 40, 41}" using assms by (auto simp: plain_item_def)
  then have "p < length pat" using chr_nonzero [OF c(1)] by simp
  then obtain d where d: "chr pat (p + 1) = Inr d" using chr_ok [of "p + 1" pat] by auto
  show ?thesis using assms c d by (auto simp: plain_item_def Let_def L_ESC_def)
qed

lemma matched_char:
  assumes "single_class pat p ep P"
  shows "(if s < src_end ms then sum_bind (chr (ms_src ms) s) (\<lambda>c. singlematch pat c p ep) else Inr False) =
    (Inr (s < length (ms_src ms) \<and> P (ms_src ms ! s)) :: rt_error + bool)"
  using assms by (auto simp: single_class_def src_end_def chr_less)

text \<open>What follows an item agrees with the ways of the rest of the pattern, in every state with the same captures.\<close>

definition rest_agrees :: "match_fun \<Rightarrow> item list \<Rightarrow> MatchState \<Rightarrow> nat \<Rightarrow> nat \<Rightarrow> bool" where
  "rest_agrees mt its ms s q \<longleftrightarrow> (\<forall>ms' t. same_caps ms ms' \<longrightarrow> s \<le> t \<longrightarrow> t \<le> src_end ms \<longrightarrow>
     agrees (results (ms_src ms) its t (caps ms)) ms' (mt ms' t q))"

lemma rest_agreesD: "rest_agrees mt its ms s q \<Longrightarrow> same_caps ms ms' \<Longrightarrow> s \<le> t \<Longrightarrow> t \<le> src_end ms \<Longrightarrow>
    agrees (results (ms_src ms) its t (caps ms)) ms' (mt ms' t q)"
  by (simp add: rest_agrees_def)

lemma max_expand_agrees:
  assumes "rest_agrees mt its ms s (ep + 1)" "single_class pat p ep P" "s \<le> t" "t \<le> src_end ms"
  shows "agrees (results (ms_src ms) (Many P # its) t (caps ms)) ms (max_expand mt pat ms t p ep)"
proof -
  let ?n = "length (takeWhile P (drop t (ms_src ms)))"
  have n: "t + ?n \<le> src_end ms" using assms(4) length_takeWhile_le [of P "drop t (ms_src ms)"] by (simp add: src_end_def)
  have "max_expand mt pat ms t p ep = max_try mt ms t (ep + 1) ?n"
    using max_count_eq [of pat p ep P "ms_src ms" t 0] assms(2) by (simp add: max_expand_def single_class_def)
  moreover have "agrees (concat (map (\<lambda>j. results (ms_src ms) its (t + j) (caps ms)) (rev [0..<Suc ?n]))) ms (max_try mt ms t (ep + 1) ?n)"
    by (rule max_try_agrees) (rule rest_agreesD [OF assms(1)], use n assms(3) in auto)
  ultimately show ?thesis by simp
qed

lemma item_agrees:
  assumes c: "single_class pat p ep P" and e: "chr pat ep = Inr e" and s: "s \<le> src_end ms"
    and rest: "rest_agrees mt its ms s (if e \<in> {63, 42, 43, 45} then ep + 1 else ep)"
  shows "agrees (results (ms_src ms) (if e = 63 then Maybe P # its else if e = 42 then Many P # its
      else if e = 43 then Once P # Many P # its else if e = 45 then Few P # its else Once P # its) s (caps ms)) ms (match_item mt pat ms s p)"
proof -
  have ce: "classend pat p = Inr ep" and sm: "\<And>c. singlematch pat c p ep = Inr (P c)" using c by (simp_all add: single_class_def)
  let ?m = "s < length (ms_src ms) \<and> P (ms_src ms ! s)"
  note item = match_item_def [of mt pat ms s p, unfolded ce sum_bind_simps matched_char [OF c] e]
  have s1: "s + 1 \<le> src_end ms" if "?m" using that by (simp add: src_end_def)
  consider "e = 63" | "e = 42" | "e = 43" | "e = 45" | "e \<notin> {63, 42, 43, 45}" by blast
  then show ?thesis
  proof cases
    case 1
    note k = rest_agreesD [OF rest]
    have "agrees (results (ms_src ms) its (s + 1) (caps ms) @ results (ms_src ms) its s (caps ms)) ms
        (sum_bind (mt ms (s + 1) (ep + 1)) (\<lambda>(res, ms1). if res \<noteq> None then Inr (res, ms1) else mt ms1 s (ep + 1)))" if "?m"
      by (rule agrees_append) (use 1 k s s1 [OF that] in auto)
    then show ?thesis using 1 k [of ms s] s by (auto simp: item)
  next
    case 2
    then show ?thesis using max_expand_agrees [OF _ c, of mt its ms s s] rest s by (simp add: item)
  next
    case 3
    then show ?thesis using max_expand_agrees [OF _ c, of mt its ms s "s + 1"] rest s1 by (auto simp: item)
  next
    case 4
    then have r: "rest_agrees mt its ms s (ep + 1)" using rest by simp
    have "agrees (results (ms_src ms) (Few P # its) s (caps ms)) ms (min_expand mt pat ms s p ep)"
      unfolding min_expand_def results.simps
      by (rule min_loop_agrees [OF sm]) (rule rest_agreesD [OF r], use s in auto)
    with 4 show ?thesis by (simp add: item)
  next
    case 5
    then show ?thesis using rest_agreesD [OF rest, of ms "s + 1"] s1 by (auto simp: item)
  qed
qed

lemma balance_end_eq: "s \<le> length (ms_src ms) \<Longrightarrow> chr pat p = Inr b \<Longrightarrow> b \<noteq> 0 \<Longrightarrow> chr pat (p + 1) = Inr e \<Longrightarrow> e \<noteq> 0 \<Longrightarrow>
    matchbalance pat ms s p = Inr (balance_end (ms_src ms) b e s)"
  using balance_loop_eq [of s s 1 b e "ms_src ms"]
  by (auto simp: matchbalance_def balance_end_def chr_def depth_def simp del: upt_Suc)

lemma close_eq:
  assumes "ms_ok s ms" "False \<in> set (map closed (caps ms))"
  shows "capture_to_close ms = Inr (last_open (map closed (caps ms)))" and "last_open (map closed (caps ms)) < ms_level ms"
    "c_len (caps ms ! last_open (map closed (caps ms))) = CAP_UNFINISHED"
proof -
  have len: "length (caps ms) = ms_level ms" by (rule caps_length [OF assms(1)])
  have no: "close_loop ms n \<noteq> Inl x" if "i < n" "n \<le> ms_level ms" "c_len (caps ms ! i) = CAP_UNFINISHED" for n i x
    using that
  proof (induction n)
    case (Suc n)
    moreover have "cap_at ms n = Inr (caps ms ! n)" using caps_nth [OF assms(1), of n] Suc.prems by simp
    ultimately show ?case by (cases "i = n") (auto simp: less_Suc_eq)
  qed simp
  obtain i where i: "i < ms_level ms" "c_len (caps ms ! i) = CAP_UNFINISHED"
    using assms(2) len by (auto simp: in_set_conv_nth closed_def)
  have o: "outcome (capture_to_close ms) (\<lambda>l. l < ms_level ms \<and> c_len (caps ms ! l) = CAP_UNFINISHED \<and>
      (\<forall>i. l < i \<longrightarrow> i < ms_level ms \<longrightarrow> c_len (caps ms ! i) \<noteq> CAP_UNFINISHED))"
    unfolding capture_to_close_def by (rule close_loop_ok [OF assms(1)]) simp
  then obtain l where l: "capture_to_close ms = Inr l" "l < ms_level ms" "c_len (caps ms ! l) = CAP_UNFINISHED"
      "\<forall>i. l < i \<longrightarrow> i < ms_level ms \<longrightarrow> c_len (caps ms ! i) \<noteq> CAP_UNFINISHED"
    using no [OF i(1) order_refl i(2)] by (cases "capture_to_close ms") (auto simp: capture_to_close_def)
  have "last_open (map closed (caps ms)) = l" by (rule last_open_eq) (use l len in \<open>auto simp: closed_def\<close>)
  with l show "capture_to_close ms = Inr (last_open (map closed (caps ms)))" "last_open (map closed (caps ms)) < ms_level ms"
    "c_len (caps ms ! last_open (map closed (caps ms))) = CAP_UNFINISHED" by simp_all
qed

lemma backref_eq:
  assumes ok: "ms_ok s ms" and d: "isdigit (uint d)" "d \<noteq> 48" and k: "k = nat (uint d - 49)" "k < ms_level ms" "closed (caps ms ! k)"
  shows "match_capture ms s d = Inr (let c = caps ms ! k in
    if c_len c \<noteq> CAP_POSITION \<and> take (nat (c_len c)) (drop s (ms_src ms)) = cap_text (ms_src ms) c \<and> s + nat (c_len c) \<le> length (ms_src ms)
    then Some (s + nat (c_len c)) else None)"
proof -
  let ?c = "caps ms ! k"
  have "uint d \<noteq> 48" using d(2) by (simp add: word_uint_eq_iff)
  then have u: "0 \<le> uint d - 49" using d(1) by (simp add: isdigit_def)
  note c = caps_nth [OF ok k(2), THEN conjunct1] caps_nth [OF ok k(2), THEN conjunct2]
  have e: "src_end ms < 2 ^ 63" "s \<le> src_end ms" using ok by (simp_all add: ms_ok_def)
  have chk: "check_capture ms d = Inr k" using u k c(1) by (simp add: check_capture_def closed_def Let_def)
  show ?thesis
  proof (cases "c_len ?c = CAP_POSITION")
    case True
    then show ?thesis using chk c(1) e by (simp add: match_capture_def CAP_POSITION_def Let_def)
  next
    case False
    then have l: "0 \<le> c_len ?c" "int (c_init ?c) + c_len ?c \<le> int s" using c(2) k(3) by (auto simp: cap_ok_def closed_def)
    then have "c_len ?c mod 2 ^ 64 = c_len ?c" using e by (intro mod_pos_pos_trivial) auto
    moreover have "c_init ?c + nat (c_len ?c) \<le> src_end ms" using l e by linarith
    ultimately show ?thesis using chk c(1) e False
      by (auto simp: match_capture_def Let_def cap_text_def src_end_def)
  qed
qed

lemma start_agrees:
  assumes "ms_ok s ms" "ms_level ms < LUA_MAXCAPTURES" "agrees xs (open_cap ms s what) (mt (open_cap ms s what) s p)"
  shows "agrees xs ms (start_capture mt ms s p what)"
  using assms(2,3) unopen_same [OF assms(1,2), of what]
  by (cases xs) (auto simp: start_capture_open [OF assms(1)] open_cap_def)

lemma end_agrees:
  assumes "ms_ok s ms" "False \<in> set (map closed (caps ms))" "l = last_open (map closed (caps ms))"
    "c = (caps ms ! l)\<lparr>c_len := int s - int (c_init (caps ms ! l))\<rparr>"
  shows "agrees xs (upd_cap ms l c) (mt (upd_cap ms l c) s p) \<Longrightarrow> agrees xs ms (end_capture mt ms s p)"
    and "l < ms_level ms" "cap_ok s c"
proof -
  note ce = close_eq [OF assms(1,2), folded assms(3)]
  show l: "l < ms_level ms" by (rule ce)
  have e: "cap_ok s c \<and> end_capture mt ms s p = sum_bind (mt (upd_cap ms l c) s p)
         (\<lambda>(res, ms2). if res = None then sum_bind (cap_at ms2 l) (\<lambda>c2. sum_bind (set_cap ms2 l (c2\<lparr>c_len := CAP_UNFINISHED\<rparr>)) (\<lambda>ms3. Inr (None, ms3)))
            else Inr (res, ms2))"
    using end_capture_upd [OF assms(1), of mt p] ce(1) assms(4) by auto
  then show "cap_ok s c" by simp
  assume a: "agrees xs (upd_cap ms l c) (mt (upd_cap ms l c) s p)"
  show "agrees xs ms (end_capture mt ms s p)"
  proof (cases xs)
    case Nil
    with a obtain ms2 where "mt (upd_cap ms l c) s p = Inr (None, ms2)" "same_caps (upd_cap ms l c) ms2" by auto
    with Nil e reopen_same [OF assms(1) l ce(3)] assms(4) show ?thesis by fastforce
  next
    case (Cons x ys)
    with a e show ?thesis by (cases x) (auto simp: upd_cap_def)
  qed
qed

lemma run_item:
  assumes IH: "\<And>f ms s. length pat < f + q \<Longrightarrow> ms_ok s ms \<Longrightarrow> well_captured (map closed (caps ms)) its \<Longrightarrow>
      agrees (results (ms_src ms) its s (caps ms)) ms (match_run f pat ms s q)"
    and q: "q = (if e \<in> {63, 42, 43, 45} then ep + 1 else ep)"
    and c: "single_class pat p ep P" "chr pat ep = Inr e"
    and f: "length pat < f + p" and ok: "ms_ok s ms" and w: "well_captured (map closed (caps ms)) its"
    and its': "its' = (if e = 63 then Maybe P # its else if e = 42 then Many P # its
      else if e = 43 then Once P # Many P # its else if e = 45 then Few P # its else Once P # its)"
  shows "agrees (results (ms_src ms) its' s (caps ms)) ms (match_run f pat ms s p)"
proof -
  obtain c0 where "chr pat p = Inr c0" "c0 \<noteq> 0" using c(1) by (auto simp: single_class_def plain_item_def)
  then have p: "p < length pat" by (rule chr_nonzero)
  then obtain g where g: "f = Suc g" using f by (cases f) auto
  have ep: "p < ep" using classend_ok [OF p] c(1) by (simp add: single_class_def)
  have "rest_agrees (match_run g pat) its ms s q"
    unfolding rest_agrees_def
  proof (intro allI impI)
    fix ms' t assume s: "same_caps ms ms'" "s \<le> t" "t \<le> src_end ms"
    have "ms_ok t ms'" by (rule ms_ok_mono [OF same_caps_ok [OF s(1) ok] s(2)]) (use s same_caps_end in simp)
    then show "agrees (results (ms_src ms) its t (caps ms)) ms' (match_run g pat ms' t q)"
      using IH [of g t ms'] s(1) w f g ep q by (simp add: same_caps_def split: if_splits)
  qed
  moreover have "s \<le> src_end ms" using ok by (simp add: ms_ok_def)
  moreover have "plain_item pat p" using c(1) by (simp add: single_class_def)
  ultimately show ?thesis unfolding g its' plain_run [OF \<open>plain_item pat p\<close>]
    using item_agrees [OF c, where mt = "match_run g pat" and its = its and ms = ms and s = s] q by simp
qed

lemma match_run_agrees:
  "pattern_at pat p its \<Longrightarrow> length pat < f + p \<Longrightarrow> ms_ok s ms \<Longrightarrow> well_captured (map closed (caps ms)) its \<Longrightarrow>
    agrees (results (ms_src ms) its s (caps ms)) ms (match_run f pat ms s p)"
proof (induction arbitrary: f ms s rule: pattern_at.induct)
  case (pend p)
  then obtain g where "f = Suc g" using chr_bound [OF pend(1)] by (cases f) auto
  with pend show ?case by (simp add: Let_def L_ESC_def)
next
  case (pos p its)
  then obtain g where f: "f = Suc g" using chr_bound [OF pos(1)] by (cases f) auto
  have lev: "ms_level ms < LUA_MAXCAPTURES" using pos.prems(3) caps_length [OF pos.prems(2)] by simp
  let ?ms = "open_cap ms s CAP_POSITION"
  have "agrees (results (ms_src ?ms) its s (caps ?ms)) ?ms (match_run g pat ?ms s (p + 2))"
    by (rule pos.IH) (use pos.prems f lev open_cap_caps [OF pos.prems(2) lev] in
      \<open>simp_all add: open_cap_ok closed_def CAP_POSITION_def CAP_UNFINISHED_def\<close>)
  then have "agrees (results (ms_src ?ms) its s (caps ?ms)) ms (start_capture (match_run g pat) ms s (p + 2) CAP_POSITION)"
    by (rule start_agrees [OF pos.prems(2) lev])
  then show ?case using pos.hyps f open_cap_caps [OF pos.prems(2) lev] by (simp add: Let_def open_cap_def)
next
  case (opn p its)
  then obtain g where f: "f = Suc g" using chr_bound [OF opn(1)] by (cases f) auto
  have lev: "ms_level ms < LUA_MAXCAPTURES" using opn.prems(3) caps_length [OF opn.prems(2)] by simp
  let ?ms = "open_cap ms s CAP_UNFINISHED"
  have "agrees (results (ms_src ?ms) its s (caps ?ms)) ?ms (match_run g pat ?ms s (p + 1))"
    by (rule opn.IH) (use opn.prems f lev open_cap_caps [OF opn.prems(2) lev] in \<open>simp_all add: open_cap_ok closed_def\<close>)
  then have "agrees (results (ms_src ?ms) its s (caps ?ms)) ms (start_capture (match_run g pat) ms s (p + 1) CAP_UNFINISHED)"
    by (rule start_agrees [OF opn.prems(2) lev])
  moreover obtain d where "chr pat (p + 1) = Inr d" using chr_ok [of "p + 1" pat] chr_nonzero [OF opn(1)] by auto
  ultimately show ?case using opn.hyps f open_cap_caps [OF opn.prems(2) lev] by (simp add: Let_def open_cap_def)
next
  case (close p its)
  then obtain g where f: "f = Suc g" using chr_bound [OF close(1)] by (cases f) auto
  define l where "l = last_open (map closed (caps ms))"
  define c where "c = (caps ms ! l)\<lparr>c_len := int s - int (c_init (caps ms ! l))\<rparr>"
  have opn: "False \<in> set (map closed (caps ms))" using close.prems(3) by simp
  note e = end_agrees [OF close.prems(2) opn l_def c_def]
  have cl: "closed c" using close_eq(3) [OF close.prems(2) opn] e(3) by (auto simp: c_def closed_def CAP_UNFINISHED_def cap_ok_def)
  have "agrees (results (ms_src (upd_cap ms l c)) its s (caps (upd_cap ms l c))) (upd_cap ms l c) (match_run g pat (upd_cap ms l c) s (p + 1))"
    by (rule close.IH) (use close.prems f cl upd_cap_caps [OF close.prems(2) e(2)] upd_cap_ok [OF close.prems(2) e(2,3)] in
      \<open>simp_all add: map_update l_def\<close>)
  then have "agrees (results (ms_src (upd_cap ms l c)) its s (caps (upd_cap ms l c))) ms (end_capture (match_run g pat) ms s (p + 1))"
    by (rule e(1))
  then show ?case
    using close.hyps f upd_cap_caps [OF close.prems(2) e(2)] by (simp add: Let_def upd_cap_def l_def c_def)
next
  case (balance p b e its)
  then obtain g where f: "f = Suc g" using chr_bound [OF balance(1)] by (cases f) auto
  have m: "matchbalance pat ms s (p + 2) = Inr (balance_end (ms_src ms) b e s)"
    by (rule balance_end_eq) (use balance ms_ok_le [OF balance.prems(2)] in \<open>simp_all add: numeral_3_eq_3\<close>)
  have bound: "outcome (matchbalance pat ms s (p + 2)) (\<lambda>r. case r of None \<Rightarrow> True | Some s' \<Rightarrow> s \<le> s' \<and> s' \<le> src_end ms \<and> p + 2 + 2 \<le> length pat)"
    by (rule matchbalance_ok [OF balance.prems(2)]) (rule chr_bound [OF balance(3)])
  show ?case
  proof (cases "balance_end (ms_src ms) b e s")
    case None
    with m balance.hyps f show ?thesis by (simp add: Let_def L_ESC_def)
  next
    case (Some t)
    have "agrees (results (ms_src ms) its t (caps ms)) ms (match_run g pat ms t (p + 4))"
      by (rule balance.IH) (use balance.prems f bound m Some in \<open>auto intro: ms_ok_mono\<close>)
    with Some m balance.hyps f show ?thesis by (simp add: Let_def L_ESC_def)
  qed
next
  case (frontier p ep P its)
  then obtain g where f: "f = Suc g" using chr_bound [OF frontier(1)] by (cases f) auto
  have s: "s \<le> length (ms_src ms)" by (rule ms_ok_le [OF frontier.prems(2)])
  have p: "p + 2 < length pat" using chr_nonzero [OF frontier(3)] by simp
  then have ep: "p + 2 < ep" using classend_ok [OF p] frontier(4) by simp
  have "agrees (results (ms_src ms) its s (caps ms)) ms (match_run g pat ms s ep)"
    by (rule frontier.IH) (use frontier.prems f ep in simp_all)
  moreover have "(if s = 0 then Inr 0 else chr (ms_src ms) (s - 1)) = (Inr (if s = 0 then 0 else char_at (ms_src ms) (s - 1)) :: rt_error + byte)"
    "chr (ms_src ms) s = Inr (char_at (ms_src ms) s)"
    using s by (auto simp: chr_def char_at_def)
  ultimately show ?case using frontier.hyps f by (simp add: Let_def L_ESC_def match_frontier_def)
next
  case (backref p d its)
  then obtain g where f: "f = Suc g" using chr_bound [OF backref(1)] by (cases f) auto
  let ?k = "nat (uint d - 49)"
  have k: "?k < ms_level ms" "closed (caps ms ! ?k)" using backref.prems(3) caps_length [OF backref.prems(2)] by auto
  have eq: "match_capture ms s d = Inr (let c = caps ms ! ?k in
    if c_len c \<noteq> CAP_POSITION \<and> take (nat (c_len c)) (drop s (ms_src ms)) = cap_text (ms_src ms) c \<and> s + nat (c_len c) \<le> length (ms_src ms)
    then Some (s + nat (c_len c)) else None)"
    by (rule backref_eq [OF backref.prems(2) backref.hyps(3,4) refl k])
  have d: "d \<noteq> 98" "d \<noteq> 102" using backref.hyps(3) by (auto simp: isdigit_def)
  have "agrees (results (ms_src ms) its t (caps ms)) ms (match_run g pat ms t (p + 2))" if "s \<le> t" "t \<le> length (ms_src ms)" for t
    by (rule backref.IH) (use backref.prems f that in \<open>auto simp: src_end_def intro: ms_ok_mono\<close>)
  with eq d backref.hyps f show ?case by (simp add: Let_def L_ESC_def)
next
  case (at_end p)
  then obtain g where "f = Suc g" using chr_bound [OF at_end(1)] by (cases f) auto
  with at_end show ?case by (simp add: Let_def L_ESC_def src_end_def)
next
  case (maybe p ep P its)
  show ?case by (rule run_item [OF maybe.IH _ maybe.hyps(1,2) maybe.prems(1,2)]) (use maybe.prems(3) in simp_all)
next
  case (many p ep P its)
  show ?case by (rule run_item [OF many.IH _ many.hyps(1,2) many.prems(1,2)]) (use many.prems(3) in simp_all)
next
  case (many1 p ep P its)
  show ?case by (rule run_item [OF many1.IH _ many1.hyps(1,2) many1.prems(1,2)]) (use many1.prems(3) in simp_all)
next
  case (few p ep P its)
  show ?case by (rule run_item [OF few.IH _ few.hyps(1,2) few.prems(1,2)]) (use few.prems(3) in simp_all)
next
  case (once p ep P e its)
  show ?case by (rule run_item [OF once.IH _ once.hyps(1,2) once.prems(1,2)]) (use once in simp_all)
qed

end
