(* ===== verification/Lua_Find.thy ===== *)
theory Lua_Find
  imports Lua_Strlib Lua_Pattern_Spec
begin

text \<open>
  Searching: \<^verbatim>\<open>lmemfind\<close> finds the first occurrence of a text, the loop of \<^verbatim>\<open>str_find_aux\<close> finds the leftmost match of a pattern, and on patterns
  without special characters the two agree.
\<close>

subsection \<open>Plain search\<close>

definition occurs :: "bytes \<Rightarrow> bytes \<Rightarrow> nat \<Rightarrow> bool" where
  "occurs src pat i \<longleftrightarrow> i + length pat \<le> length src \<and> take (length pat) (drop i src) = pat"

lemma occurs_Cons: "occurs src (c # cs) i \<longleftrightarrow> i < length src \<and> src ! i = c \<and> occurs src cs (i + 1)"
  by (auto simp: occurs_def Cons_nth_drop_Suc [symmetric] take_Suc_conv_app_nth simp del: take_eq_Nil
      dest: arg_cong [of _ _ length])

text \<open>The first position from \<open>s\<close> on with a property, up to the end of the subject.\<close>

definition first_pos :: "bytes \<Rightarrow> nat \<Rightarrow> (nat \<Rightarrow> bool) \<Rightarrow> nat option" where
  "first_pos src s P = find P [s..<Suc (length src)]"

lemma first_pos_step: "s \<le> length src \<Longrightarrow> first_pos src s P = (if P s then Some s else first_pos src (s + 1) P)"
  by (simp add: first_pos_def upt_conv_Cons del: upt_Suc)

lemma first_pos_end: "length src < s \<Longrightarrow> first_pos src s P = None"
  by (simp add: first_pos_def)

lemma first_pos_skip: "s \<le> t \<Longrightarrow> (\<And>i. s \<le> i \<Longrightarrow> i < t \<Longrightarrow> \<not> P i) \<Longrightarrow> first_pos src s P = first_pos src t P"
proof (induction t rule: dec_induct)
  case (step t)
  then have "first_pos src s P = first_pos src t P" "\<not> P t" by simp_all
  then show ?case using first_pos_step [of t src P] first_pos_end [of src t P] first_pos_end [of src "t + 1" P] by (cases "t \<le> length src") simp_all
qed simp

lemma first_pos_Some: "first_pos src s P = Some i \<Longrightarrow> s \<le> i \<and> i \<le> length src \<and> P i \<and> (\<forall>j. s \<le> j \<longrightarrow> j < i \<longrightarrow> \<not> P j)"
proof -
  assume "first_pos src s P = Some i"
  then obtain k where k: "k < length [s..<Suc (length src)]" "P ([s..<Suc (length src)] ! k)" "i = [s..<Suc (length src)] ! k"
      "\<forall>j < k. \<not> P ([s..<Suc (length src)] ! j)" unfolding first_pos_def find_Some_iff by blast
  have n: "[s..<Suc (length src)] ! j = s + j" if "j \<le> k" for j using that k(1) by (simp del: upt_Suc)
  have "\<not> P j" if "s \<le> j" "j < i" for j
  proof -
    have "j - s < k" using that k(3) n [of k] by simp
    then show ?thesis using k(4) n [of "j - s"] that by (metis le_add_diff_inverse less_imp_le)
  qed
  then show ?thesis using k n [of k] by (auto simp del: upt_Suc)
qed

lemma first_pos_None: "first_pos src s P = None \<longleftrightarrow> (\<forall>i. s \<le> i \<longrightarrow> i \<le> length src \<longrightarrow> \<not> P i)"
  by (auto simp: first_pos_def find_None_iff less_Suc_eq_le simp del: upt_Suc)

lemma memchr_first: "s + n \<le> length src \<Longrightarrow> memchr src s c n = Some i \<Longrightarrow> \<forall>j. s \<le> j \<longrightarrow> j < i \<longrightarrow> src ! j \<noteq> c"
proof -
  assume n: "s + n \<le> length src" and "memchr src s c n = Some i"
  then obtain k where k: "k < n" "i = s + k" "\<forall>j < k. src ! (s + j) \<noteq> c"
    unfolding memchr_def find_Some_iff by (auto simp del: upt_Suc)
  show ?thesis
  proof (intro allI impI)
    fix j assume "s \<le> j" "j < i"
    then have "j - s < k" "s + (j - s) = j" using k(2) by simp_all
    then show "src ! j \<noteq> c" using k(3) by metis
  qed
qed

lemma memfind_loop_first:
  "c # cs = pat \<Longrightarrow> s1 + l1 + length cs = length src \<Longrightarrow> memfind_loop src s1 l1 pat = first_pos src s1 (occurs src pat)"
proof (induction src s1 l1 pat rule: memfind_loop.induct)
  case (1 src s1 l1 pat)
  have late: "\<not> occurs src pat i" if "s1 + l1 \<le> i" for i using that 1(2,3) by (auto simp: occurs_def)
  show ?case
  proof (cases "l1 = 0")
    case True
    then show ?thesis using late by (subst memfind_loop.simps) (simp add: first_pos_None [THEN iffD2])
  next
    case False
    have c: "hd pat = c" "tl pat = cs" "length pat = Suc (length cs)" using 1(2) by auto
    show ?thesis
    proof (cases "memchr src s1 c l1")
      case None
      then have "\<not> occurs src pat i" if "s1 \<le> i" for i
        using that late [of i] 1(2) by (cases "i < s1 + l1") (auto simp: memchr_def find_None_iff occurs_Cons)
      then have "first_pos src s1 (occurs src pat) = None" by (simp add: first_pos_None)
      with None False c show ?thesis by (subst memfind_loop.simps) simp
    next
      case (Some i)
      note i = memchr_Some [OF Some]
      have before: "\<not> occurs src pat j" if "s1 \<le> j" "j < i" for j
        using memchr_first [OF _ Some] that 1(2,3) by (auto simp: occurs_Cons)
      have fp: "first_pos src s1 (occurs src pat) = first_pos src i (occurs src pat)" using i before by (intro first_pos_skip) auto
      have il: "i \<le> length src" using i 1(3) by simp
      have o: "occurs src pat i \<longleftrightarrow> take (length cs) (drop (i + 1) src) = cs" using i 1(2,3) by (auto simp: occurs_Cons) (auto simp: occurs_def)
      show ?thesis
      proof (cases "occurs src pat i")
        case True
        then show ?thesis using False Some c o fp first_pos_step [OF il, of "occurs src pat"] by (subst memfind_loop.simps) simp
      next
        case no: False
        have "memfind_loop src (i + 1) (l1 - (i + 1 - s1)) pat = first_pos src (i + 1) (occurs src pat)"
          by (rule "1.IH" [OF False _ _ 1(2)]) (use Some c o no i 1(3) in auto)
        then show ?thesis using False Some c o no fp first_pos_step [OF il, of "occurs src pat"] by (subst memfind_loop.simps) simp
      qed
    qed
  qed
qed

lemma lmemfind_is_first:
  assumes "s \<le> length src"
  shows "lmemfind src s (length src - s) pat = first_pos src s (occurs src pat)"
proof (cases pat)
  case Nil
  then show ?thesis using first_pos_step [OF assms, of "occurs src pat"] assms by (simp add: lmemfind_def occurs_def)
next
  case (Cons c cs)
  show ?thesis
  proof (cases "length pat > length src - s")
    case True
    then have "first_pos src s (occurs src pat) = None" by (auto simp: first_pos_None occurs_def)
    with True Cons show ?thesis by (simp add: lmemfind_def)
  next
    case False
    have "memfind_loop src s (length src - s - (length pat - 1)) pat = first_pos src s (occurs src pat)"
      by (rule memfind_loop_first [of c cs]) (use Cons False assms in auto)
    with False Cons show ?thesis by (simp add: lmemfind_def)
  qed
qed

subsection \<open>Leftmost matches\<close>

text \<open>The captures of a pattern are open or closed in the same way on every way to match it.\<close>

fun statuses :: "bool list \<Rightarrow> item list \<Rightarrow> bool list" where
  "statuses cl [] = cl"
| "statuses cl (Open # its) = statuses (cl @ [False]) its"
| "statuses cl (Position # its) = statuses (cl @ [True]) its"
| "statuses cl (Close # its) = statuses (cl[last_open cl := True]) its"
| "statuses cl (_ # its) = statuses cl its"

lemma new_match_ok: "s \<le> length src \<Longrightarrow> length src < 2 ^ 63 \<Longrightarrow> length (ms_capture ms) = LUA_MAXCAPTURES \<Longrightarrow> ms_src ms = src \<Longrightarrow>
    ms_ok s (ms\<lparr>ms_level := 0\<rparr>)"
  by (simp add: ms_ok_def src_end_def caps_def LUA_MAXCAPTURES_def)

lemma match_once:
  assumes "pattern_at pat p its" "well_captured [] its" "s \<le> length src" "length src < 2 ^ 63" "length (ms_capture ms) = LUA_MAXCAPTURES" "ms_src ms = src"
  shows "case results src its s [] of
      [] \<Rightarrow> \<exists>ms'. match pat (ms\<lparr>ms_level := 0\<rparr>) s p = Inr (None, ms') \<and> ms_src ms' = src \<and> length (ms_capture ms') = LUA_MAXCAPTURES
    | (e, cs) # _ \<Rightarrow> \<exists>ms'. match pat (ms\<lparr>ms_level := 0\<rparr>) s p = Inr (Some e, ms') \<and> ms_src ms' = src \<and> caps ms' = cs \<and> ms_ok e ms' \<and> s \<le> e"
proof -
  let ?ms = "ms\<lparr>ms_level := 0\<rparr>"
  have ok: "ms_ok s ?ms" by (rule new_match_ok [OF assms(3-6)])
  have p: "p \<le> length pat" using assms(1)
    by (cases rule: pattern_at.cases) (auto simp: single_class_def plain_item_def dest: chr_bound)
  have c: "caps ?ms = []" by (simp add: caps_def)
  have a: "agrees (results src its s []) ?ms (match pat ?ms s p)"
    using match_run_agrees [OF assms(1), of "length pat + 1" s ?ms] ok c assms(2,6) by (simp add: match_def)
  have g: "good ?ms s (match pat ?ms s p)" unfolding match_def by (rule match_run_good [OF p _ ok]) simp
  show ?thesis
  proof (cases "results src its s []")
    case Nil
    with a show ?thesis using assms(5,6) by (auto simp: same_caps_def)
  next
    case (Cons w ws)
    then show ?thesis using a g assms(6) by (cases w) auto
  qed
qed

definition way_at :: "bytes \<Rightarrow> item list \<Rightarrow> nat \<Rightarrow> bool" where
  "way_at src its i \<longleftrightarrow> results src its i [] \<noteq> []"

definition leftmost :: "bool \<Rightarrow> bytes \<Rightarrow> item list \<Rightarrow> nat \<Rightarrow> nat option" where
  "leftmost anchor src its s = (if anchor then (if way_at src its s then Some s else None) else first_pos src s (way_at src its))"

lemma find_loop_leftmost:
  assumes "pattern_at pat p its" "well_captured [] its" "length src < 2 ^ 63"
  shows "s \<le> length src \<Longrightarrow> length (ms_capture ms) = LUA_MAXCAPTURES \<Longrightarrow> ms_src ms = src \<Longrightarrow>
    case leftmost anchor src its s of None \<Rightarrow> find_loop pat p anchor src ms s = Inr None
    | Some i \<Rightarrow> \<exists>e cs ws ms'. results src its i [] = (e, cs) # ws \<and> find_loop pat p anchor src ms s = Inr (Some (i, e, ms')) \<and>
        ms_src ms' = src \<and> caps ms' = cs \<and> ms_ok e ms' \<and> i \<le> e"
proof (induction "length src - s" arbitrary: s ms rule: less_induct)
  case less
  note once = match_once [OF assms(1,2) less.prems(1) assms(3) less.prems(2,3)]
  show ?case
  proof (cases "results src its s []")
    case (Cons w ws)
    obtain e cs where w: "w = (e, cs)" by (cases w)
    have "leftmost anchor src its s = Some s"
      using Cons first_pos_step [OF less.prems(1), of "way_at src its"] by (simp add: leftmost_def way_at_def)
    with once Cons w show ?thesis by (subst find_loop.simps) auto
  next
    case Nil
    then obtain ms' where m: "match pat (ms\<lparr>ms_level := 0\<rparr>) s p = Inr (None, ms')" "ms_src ms' = src" "length (ms_capture ms') = LUA_MAXCAPTURES"
      using once by auto
    show ?thesis
    proof (cases "s < length src \<and> \<not> anchor")
      case True
      then have "case leftmost anchor src its (s + 1) of None \<Rightarrow> find_loop pat p anchor src ms' (s + 1) = Inr None
        | Some i \<Rightarrow> \<exists>e cs ws ms''. results src its i [] = (e, cs) # ws \<and> find_loop pat p anchor src ms' (s + 1) = Inr (Some (i, e, ms'')) \<and>
            ms_src ms'' = src \<and> caps ms'' = cs \<and> ms_ok e ms'' \<and> i \<le> e"
        using less.hyps [of "s + 1" ms'] m by auto
      moreover have "leftmost anchor src its s = leftmost anchor src its (s + 1)"
        using True Nil first_pos_step [OF less.prems(1), of "way_at src its"] by (simp add: leftmost_def way_at_def)
      moreover have "find_loop pat p anchor src ms s = find_loop pat p anchor src ms' (s + 1)"
        using True m by (subst find_loop.simps) simp
      ultimately show ?thesis by (simp only:)
    next
      case False
      then have "leftmost anchor src its s = None"
        using Nil less.prems(1) first_pos_step [OF less.prems(1), of "way_at src its"] first_pos_end [of src "s + 1" "way_at src its"]
        by (auto simp: leftmost_def way_at_def)
      then show ?thesis using False m by (subst find_loop.simps) auto
    qed
  qed
qed

subsection \<open>Patterns without special characters\<close>

definition literal :: "bytes \<Rightarrow> bool" where
  "literal pat \<longleftrightarrow> (\<forall>c \<in> set pat. c \<notin> set SPECIALS \<and> c \<noteq> 0 \<and> c \<noteq> 41)"

lemma specials: "set SPECIALS = {94, 36, 42, 43, 63, 46, 40, 91, 37, 45}"
  by (simp add: SPECIALS_def str_def)

lemma literal_pattern:
  assumes "literal pat"
  shows "p \<le> length pat \<Longrightarrow> pattern_at pat p (map (\<lambda>c. Once ((=) c)) (drop p pat))"
proof (induction "length pat - p" arbitrary: p rule: less_induct)
  case less
  show ?case
  proof (cases "p < length pat")
    case False
    then show ?thesis using less.prems by (auto intro!: pattern_at.pend simp: chr_def)
  next
    case True
    have c: "pat ! p \<notin> set SPECIALS" "pat ! p \<noteq> 0" "pat ! p \<noteq> 41" using assms True by (auto simp: literal_def)
    obtain e where e: "chr pat (p + 1) = Inr e" using chr_ok [of "p + 1" pat] True by auto
    have "e = 0 \<or> e \<in> set pat" using e by (auto simp: chr_def split: if_splits)
    then have e': "e \<notin> {63, 42, 43, 45}" using assms unfolding literal_def specials by force
    have "pat ! p \<noteq> 40" "pat ! p \<noteq> 37" "pat ! p \<noteq> 91" "pat ! p \<noteq> 46" "pat ! p \<noteq> 36" using c(1) unfolding specials by auto
    then have "single_class pat p (p + 1) ((=) (pat ! p))"
      using c(2,3) True by (simp add: single_class_def plain_item_def classend_def singlematch_def chr_less L_ESC_def)
    moreover have "pattern_at pat (p + 1) (map (\<lambda>c. Once ((=) c)) (drop (p + 1) pat))" using less.hyps [of "p + 1"] True by simp
    ultimately show ?thesis using pattern_at.once [OF _ e e'] True by (simp add: Cons_nth_drop_Suc [symmetric])
  qed
qed

lemma literal_results: "results src (map (\<lambda>c. Once ((=) c)) cs) s cps = (if occurs src cs s then [(s + length cs, cps)] else [])"
  if "s \<le> length src"
  using that
proof (induction cs arbitrary: s)
  case Nil
  then show ?case by (simp add: occurs_def)
next
  case (Cons c cs)
  then show ?case by (cases "s < length src") (auto simp: occurs_Cons)
qed

lemma literal_captures: "well_captured cl (map (\<lambda>c. Once ((=) c)) cs)"
  by (induction cs) simp_all

lemma first_pos_cong: "(\<And>i. i \<le> length src \<Longrightarrow> P i = Q i) \<Longrightarrow> first_pos src s P = first_pos src s Q"
  unfolding first_pos_def by (rule find_cong) auto

end
