(* ===== verification/Lua_Strlib_Run.thy ===== *)
theory Lua_Strlib_Run
  imports Lua_Find
begin

text \<open>The functions of the string library on the Lua stack: what \<^verbatim>\<open>find\<close> and \<^verbatim>\<open>gsub\<close> push.\<close>

subsection \<open>Captures on the stack\<close>

definition capture_value :: "bytes \<Rightarrow> capture \<Rightarrow> TValue" where
  "capture_value src c = (if c_len c = CAP_POSITION then LNumber (cast_num (int (c_init c) + 1)) else LString (cap_text src c))"

lemma push_onecapture_run:
  assumes "ms_ok e0 ms" "i < ms_level ms" "closed (caps ms ! i)"
  shows "push_onecapture ms i s e st = (Inr (), holds st (l_stack st @ [capture_value (ms_src ms) (caps ms ! i)]))"
  using caps_nth [OF assms(1,2)] assms(2,3)
  by (simp add: push_onecapture_def lift_match_def closed_def capture_value_def cap_text_def lua_pushinteger_def lua_pushlstring_def push_def holds_def Let_def)

lemma push_some_captures:
  assumes "ms_ok e0 ms" "list_all closed (caps ms)" "n \<le> ms_level ms"
  shows "lseq (map (\<lambda>i. push_onecapture ms i s e) [0..<n]) st = (Inr (), holds st (l_stack st @ map (capture_value (ms_src ms)) (take n (caps ms))))"
proof -
  have "lseq (map (\<lambda>i. push_onecapture ms i s e) [j..<n]) st = (Inr (), holds st (l_stack st @ map (capture_value (ms_src ms)) (drop j (take n (caps ms)))))"
    if "j \<le> n" for j st
    using that
  proof (induction "n - j" arbitrary: j st)
    case 0
    then show ?case by (simp add: holds_def)
  next
    case (Suc k)
    have j: "j < ms_level ms" "j < n" using Suc assms(3) by simp_all
    have len: "length (take n (caps ms)) = n" using caps_length [OF assms(1)] assms(3) by simp
    have "closed (caps ms ! j)" using assms(2) caps_length [OF assms(1)] j by (simp add: list_all_length)
    note one = push_onecapture_run [OF assms(1) j(1) this, of s e st]
    have d: "drop j (take n (caps ms)) = caps ms ! j # drop (Suc j) (take n (caps ms))"
      using Cons_nth_drop_Suc [of j "take n (caps ms)"] len j(2) by simp
    show ?case using Suc.hyps(1) [of "Suc j"] Suc.hyps(2) j one
      by (simp add: upt_conv_Cons d)
  qed
  from this [of 0 st] show ?thesis by simp
qed

lemma checkstack_run: "length (l_stack st) + n \<le> 8000 \<Longrightarrow> luaL_checkstack (int n) m st = (Inr (), st)"
  by (simp add: luaL_checkstack_def lua_checkstack_def lua_gettop_def LUAI_MAXCSTACK_def)

lemma push_captures_run:
  assumes "ms_ok e0 ms" "list_all closed (caps ms)" "length (l_stack st) \<le> 7000"
  shows "push_captures ms None e st = (Inr (length (caps ms)), holds st (l_stack st @ map (capture_value (ms_src ms)) (caps ms)))"
proof -
  have l: "ms_level ms \<le> 32" "length (caps ms) = ms_level ms" using assms(1) caps_length [OF assms(1)] by (simp_all add: ms_ok_def LUA_MAXCAPTURES_def)
  have "luaL_checkstack (int (ms_level ms)) (str ''too many captures'') st = (Inr (), st)" by (rule checkstack_run) (use l assms(3) in simp)
  then show ?thesis using push_some_captures [OF assms(1,2) order_refl, of 0 e st] l
    by (simp add: push_captures_def Let_def)
qed

lemma balance_end_later: "balance_end src b e s = Some t \<Longrightarrow> s \<le> t"
  by (auto simp: balance_end_def find_Some_iff split: if_splits simp del: upt_Suc)

lemma statuses_results:
  "(e, cs') \<in> set (results src its s cs) \<Longrightarrow> well_captured (map closed cs) its \<Longrightarrow> \<forall>c \<in> set cs. c_init c \<le> s \<Longrightarrow>
    map closed cs' = statuses (map closed cs) its"
proof (induction its arbitrary: s cs)
  case (Cons it its)
  have later: "\<forall>c \<in> set cs. c_init c \<le> t" if "s \<le> t" for t using Cons.prems(3) that by auto
  show ?case
  proof (cases it)
    case Close
    let ?l = "last_open (map closed cs)" and ?c = "\<lambda>l. (cs ! l)\<lparr>c_len := int s - int (c_init (cs ! l))\<rparr>"
    have "False \<in> set (map closed cs)" using Cons.prems(2) Close by simp
    then have "dropWhile id (rev (map closed cs)) \<noteq> []" by (auto simp: dropWhile_eq_Nil_conv)
    moreover have "length (dropWhile id (rev (map closed cs))) \<le> length cs" using length_dropWhile_le [of id "rev (map closed cs)"] by simp
    ultimately have l: "?l < length cs" by (cases "dropWhile id (rev (map closed cs))") (auto simp: last_open_def)
    then have i: "c_init (cs ! ?l) \<le> s" using Cons.prems(3) by simp
    have cl: "map closed (cs[?l := ?c ?l]) = (map closed cs)[?l := True]" using i by (simp add: map_update closed_def CAP_UNFINISHED_def)
    have "\<forall>c \<in> set (cs[?l := ?c ?l]). c_init c \<le> s"
      using Cons.prems(3) i by (auto dest!: set_update_subset_insert [THEN subsetD])
    then show ?thesis using Cons.IH [of s "cs[?l := ?c ?l]"] Cons.prems Close cl by (simp add: Let_def)
  next
    case (Balance b e')
    then obtain t where t: "balance_end src b e' s = Some t" "(e, cs') \<in> set (results src its t cs)"
      using Cons.prems(1) by (cases "balance_end src b e' s") auto
    then show ?thesis using Cons.IH [OF t(2)] Cons.prems Balance later [OF balance_end_later [OF t(1)]] by simp
  next
    case Open
    then show ?thesis using Cons.IH [of s "cs @ [\<lparr>c_init = s, c_len = CAP_UNFINISHED\<rparr>]"] Cons.prems by (simp add: closed_def)
  next
    case Position
    then show ?thesis using Cons.IH [of s "cs @ [\<lparr>c_init = s, c_len = CAP_POSITION\<rparr>]"] Cons.prems
      by (simp add: closed_def CAP_POSITION_def CAP_UNFINISHED_def)
  next
    case (Frontier P)
    then show ?thesis using Cons.IH [of s cs] Cons.prems by (simp split: if_splits)
  qed (use Cons later in \<open>auto split: if_splits\<close>)
qed simp

subsection \<open>The arguments\<close>

lemma arg_string: "l_stack st = xs \<Longrightarrow> 0 < i \<Longrightarrow> nat i \<le> length xs \<Longrightarrow> xs ! (nat i - 1) = LString b \<Longrightarrow> luaL_checklstring i st = (Inr b, st)"
  by (simp add: luaL_checklstring_def lua_tolstring_def api)

lemma arg_type: "l_stack st = xs \<Longrightarrow> 0 < i \<Longrightarrow> nat i \<le> length xs \<Longrightarrow> lua_type i st = (Inr (int (ttype (xs ! (nat i - 1)))), st)"
  by (simp add: lua_type_def api)

lemma arg_none: "0 < i \<Longrightarrow> length (l_stack st) < nat i \<Longrightarrow> luaL_optinteger i d st = (Inr d, st)"
  "0 < i \<Longrightarrow> length (l_stack st) < nat i \<Longrightarrow> lua_toboolean i st = (Inr False, st)"
  by (simp_all add: luaL_optinteger_def lua_isnoneornil_def lua_type_def lua_toboolean_def lua_value_def LUA_TNONE_def api)

lemma push_two: "lseq [lua_pushinteger a, lua_pushinteger b] st = (Inr (), holds st (l_stack st @ [LNumber (cast_num a), LNumber (cast_num b)]))"
  by (simp add: lua_pushinteger_def push_def holds_def)

definition has_specials :: "bytes \<Rightarrow> bool" where
  "has_specials p \<longleftrightarrow> (\<exists>c \<in> set (c_str p). c \<in> set SPECIALS)"

subsection \<open>string.find and string.match on two strings\<close>

definition pattern_start :: "bytes \<Rightarrow> nat" where
  "pattern_start p = (if is_anchored p then 1 else 0)"

lemma find_pattern_run:
  assumes st: "l_stack st = [LString s, LString p]" and sp: "has_specials p" and pat: "pattern_at p (pattern_start p) its"
    and wc: "well_captured [] its" "list_all id (statuses [] its)" and len: "length s < 2 ^ 63"
  shows "str_find st = (case leftmost (is_anchored p) s its 0 of
      None \<Rightarrow> (Inr 1, holds st (l_stack st @ [LNil]))
    | Some i \<Rightarrow> (case hd (results s its i []) of (e, cs) \<Rightarrow>
        (Inr (length cs + 2), holds st (l_stack st @ [LNumber (cast_num (int i + 1)), LNumber (cast_num (int e))] @ map (capture_value s) cs))))"
proof -
  have a: "luaL_checklstring 1 st = (Inr s, st)" "luaL_checklstring 2 st = (Inr p, st)" "luaL_optinteger 3 1 st = (Inr 1, st)"
    "lua_toboolean 4 st = (Inr False, st)"
    using st by (simp_all add: arg_string arg_none)
  obtain c where c: "c \<in> set (c_str p)" "c \<in> set SPECIALS" using sp by (auto simp: has_specials_def)
  then have pl: "\<not> (\<forall>c \<in> set (c_str p). c \<notin> set SPECIALS)" by blast
  have find: "str_find st = lbind (lift_match (find_loop p (pattern_start p) (is_anchored p) s (new_match s) 0)) (\<lambda>r. case r of
      None \<Rightarrow> lbind lua_pushnil (\<lambda>_. lret 1)
    | Some (s1, e, ms) \<Rightarrow> lbind (lseq [lua_pushinteger (int s1 + 1), lua_pushinteger (int e)]) (\<lambda>_. lbind (push_captures ms None 0) (\<lambda>k. lret (k + 2)))) st"
    by (simp add: a pl str_find_def str_find_aux_def posrelat_def pattern_start_def lbind_run split: prod.splits sum.splits option.splits)
  note run = find_loop_leftmost [OF pat wc(1) len le0, of "new_match s" "is_anchored p", unfolded new_match_def, simplified, folded new_match_def]
  show ?thesis
  proof (cases "leftmost (is_anchored p) s its 0")
    case None
    then have "find_loop p (pattern_start p) (is_anchored p) s (new_match s) 0 = Inr None" using run by (simp add: new_match_def)
    then show ?thesis using None by (simp add: find lift_match_def lua_pushnil_def push_def holds_def lbind_run)
  next
    case (Some i)
    then obtain e cs ws ms where r: "results s its i [] = (e, cs) # ws" "find_loop p (pattern_start p) (is_anchored p) s (new_match s) 0 = Inr (Some (i, e, ms))"
      "ms_src ms = s" "caps ms = cs" "ms_ok e ms" using run by (auto simp: new_match_def)
    have "map closed cs = statuses [] its" using statuses_results [of e cs s its i "[]"] r(1) wc(1) by simp
    then have cl: "list_all closed (caps ms)" using wc(2) r(4) by (metis list.pred_map comp_id id_comp)
    show ?thesis using Some r push_captures_run [OF r(5) cl]
      by (simp add: find lift_match_def push_two st lbind_run del: lseq.simps)
  qed
qed

lemma find_plain_run:
  assumes st: "l_stack st = [LString s, LString p]" and sp: "\<not> has_specials p"
  shows "str_find st = (case first_pos s 0 (occurs s p) of
      None \<Rightarrow> (Inr 1, holds st (l_stack st @ [LNil]))
    | Some i \<Rightarrow> (Inr 2, holds st (l_stack st @ [LNumber (cast_num (int i + 1)), LNumber (cast_num (int i + int (length p)))])))"
proof -
  have a: "luaL_checklstring 1 st = (Inr s, st)" "luaL_checklstring 2 st = (Inr p, st)" "luaL_optinteger 3 1 st = (Inr 1, st)"
    "lua_toboolean 4 st = (Inr False, st)"
    using st by (simp_all add: arg_string arg_none)
  have pl: "\<not> (\<exists>c \<in> set (c_str p). c \<in> set SPECIALS)" using sp by (simp add: has_specials_def)
  show ?thesis using a pl lmemfind_is_first [of 0 s p]
    by (cases "first_pos s 0 (occurs s p)")
      (simp_all add: str_find_def str_find_aux_def posrelat_def push_two lua_pushnil_def push_def holds_def [of st "_ @ [LNil]"] holds_def [of st "[_, _, LNil]"] st lbind_run del: lseq.simps)
qed

subsection \<open>string.gsub with the replacement "%0"\<close>

lemma add_whole_match:
  assumes b: "buffered st b s (take pos src)" and args: "length (l_stack st) = 3" "l_stack st ! 2 = LString [37, 48]"
    and ms: "ms_src ms = src" "pos \<le> e" "e \<le> length src" and len: "length src < 2 ^ 63"
  obtains b' s' where "add_value prog ms b pos e s = (Inr b', s')" "buffered st b' s' (take e src)"
proof -
  obtain ps where ps: "l_stack s = l_stack st @ map LString ps" using b by (auto simp: buffered_def)
  then have third: "l_stack s ! 2 = LString [37, 48]" "3 \<le> length (l_stack s)" using args by (simp_all add: nth_append)
  have t: "lua_type 3 s = (Inr 4, s)" "lua_tolstring 3 s = (Inr (Some [37, 48]), s)"
    using third by (simp_all add: lua_type_def lua_tolstring_def api)
  have app: "take pos src @ take (e - pos) (drop pos src) = take e src" using ms by (metis le_add_diff_inverse take_add)
  obtain b' s' where r: "luaL_addlstring prog (take (e - pos) (drop pos src)) b s = (Inr b', s')" "buffered st b' s' (take e src)"
    using addlstring_run [OF b, of "take (e - pos) (drop pos src)" prog] len ms app by (auto simp: MAX_SIZET_def)
  have fin: "add_s_loop prog ms pos e [37, 48] (Suc (Suc 0)) b' s' = (Inr b', s')" by (subst add_s_loop.simps) simp
  have dig: "isdigit (uint (48::8 word))" by (simp add: isdigit_def)
  have "add_s_loop prog ms pos e [37, 48] 0 b s = (Inr b', s')"
    using r(1) ms(1) fin dig by (subst add_s_loop.simps) (simp add: L_ESC_def chr_def lift_match_def lbind_run del: uint_numeral)
  then have "add_value prog ms b pos e s = (Inr b', s')" using t by (simp add: add_value_def add_s_def)
  then show ?thesis using r(2) by (rule that)
qed

lemma gsub_whole_match:
  assumes pat: "pattern_at p q its" "well_captured [] its" and len: "length src < 2 ^ 63"
    and args: "length (l_stack st) = 3" "l_stack st ! 2 = LString [37, 48]"
  shows "buffered st b s (take pos src) \<Longrightarrow> pos \<le> length src \<Longrightarrow> length src < f + pos \<Longrightarrow> ms_src ms = src \<Longrightarrow>
    length (ms_capture ms) = LUA_MAXCAPTURES \<Longrightarrow>
    \<exists>s' n' b' pos'. gsub_loop prog f p q anchor max_s ms pos n b s = (Inr (pos', n', b'), s') \<and> pos' \<le> length src \<and>
      buffered st b' s' (take pos' src)"
proof (induction f arbitrary: b s pos ms n)
  case 0
  then show ?case by simp
next
  case (Suc f)
  show ?case
  proof (cases "n < max_s")
    case False
    then show ?thesis using Suc.prems by (intro exI [of _ s] exI [of _ n] exI [of _ b] exI [of _ pos]) simp
  next
    case True
    have char: "\<exists>s' b'. luaL_addchar prog (src ! pos) b1 s1 = (Inr b', s') \<and> buffered st b' s' (take (pos + 1) src)"
      if b1: "buffered st b1 s1 (take pos src)" and p: "pos < length src" for b1 s1
    proof -
      have "length (take pos src) < MAX_SIZET" using len by (simp add: MAX_SIZET_def)
      then obtain b' s' where "luaL_addchar prog (src ! pos) b1 s1 = (Inr b', s')" "buffered st b' s' (take pos src @ [src ! pos])"
        by (rule addchar_run [OF b1])
      then show ?thesis using p by (auto simp: take_Suc_conv_app_nth)
    qed
    let ?next = "\<lambda>n1 ms1 src2 b2. if anchor then lret (src2, n1, b2) else gsub_loop prog f p q anchor max_s ms1 src2 n1 b2"
    have go: "\<exists>s' n' b' pos'. ?next n1 ms1 pos1 b1 s1 = (Inr (pos', n', b'), s') \<and> pos' \<le> length src \<and> buffered st b' s' (take pos' src)"
      if "buffered st b1 s1 (take pos1 src)" "pos < pos1" "pos1 \<le> length src" "ms_src ms1 = src" "length (ms_capture ms1) = LUA_MAXCAPTURES"
      for n1 ms1 pos1 b1 s1
    proof (cases anchor)
      case True
      then show ?thesis using that(1,3) by (intro exI [of _ s1] exI [of _ n1] exI [of _ b1] exI [of _ pos1]) simp
    next
      case False
      have "length src < f + pos1" using Suc.prems(3) that(2) by simp
      from Suc.IH [OF that(1,3) this that(4,5)] False show ?thesis by simp
    qed
    have move: "\<exists>s' n' b' pos'. (if pos < length src then lbind (lift_match (chr src pos)) (\<lambda>c. lbind (luaL_addchar prog c b1) (?next n1 ms1 (pos + 1)))
          else lret (pos, n1, b1)) s1 = (Inr (pos', n', b'), s') \<and> pos' \<le> length src \<and> buffered st b' s' (take pos' src)"
      if b: "buffered st b1 s1 (take pos src)" and m: "ms_src ms1 = src" "length (ms_capture ms1) = LUA_MAXCAPTURES" for n1 ms1 b1 s1
    proof (cases "pos < length src")
      case True
      obtain s2 b2 where "luaL_addchar prog (src ! pos) b1 s1 = (Inr b2, s2)" "buffered st b2 s2 (take (pos + 1) src)"
        using char [OF b True] by blast
      with go [of b2 s2 "pos + 1" ms1 n1] True m show ?thesis by (simp add: lift_match_def chr_less lbind_run)
    next
      case False
      then show ?thesis using b m Suc.prems(2) by (intro exI [of _ s1] exI [of _ n1] exI [of _ b1] exI [of _ pos]) simp
    qed
    note once = match_once [OF pat Suc.prems(2) len Suc.prems(5,4)]
    show ?thesis
    proof (cases "results src its pos []")
      case Nil
      then obtain ms1 where "match p (ms\<lparr>ms_level := 0\<rparr>) pos q = Inr (None, ms1)" "ms_src ms1 = src" "length (ms_capture ms1) = LUA_MAXCAPTURES"
        using once by auto
      with True move [OF Suc.prems(1), of ms1 n] show ?thesis
        by (cases "pos < length src") (simp_all add: lift_match_def src_end_def chr_less lbind_run)
    next
      case (Cons w ws)
      obtain e cs where w: "w = (e, cs)" by (cases w)
      then obtain ms1 where m: "match p (ms\<lparr>ms_level := 0\<rparr>) pos q = Inr (Some e, ms1)" "ms_src ms1 = src" "ms_ok e ms1" "pos \<le> e"
        using once Cons by auto
      have e: "e \<le> length src" "length (ms_capture ms1) = LUA_MAXCAPTURES" using m(2,3) by (simp_all add: ms_ok_def src_end_def)
      obtain b1 s1 where a: "add_value prog ms1 b pos e s = (Inr b1, s1)" "buffered st b1 s1 (take e src)"
        by (rule add_whole_match [OF Suc.prems(1) args m(2,4) e(1) len])
      show ?thesis
      proof (cases "pos < e")
        case True
        with go [OF a(2) True e(1) m(2) e(2), of "n + 1"] m(1) a(1) \<open>n < max_s\<close> show ?thesis
          by (cases anchor) (simp_all add: lift_match_def lbind_run Let_def)
      next
        case False
        then have "e = pos" using m(4) by simp
        with move [of b1 s1 ms1 "n + 1"] m a e \<open>n < max_s\<close> show ?thesis
          by (cases "pos < length src") (simp_all add: lift_match_def src_end_def chr_less lbind_run Let_def)
      qed
    qed
  qed
qed

lemma gsub_whole_run:
  assumes st: "l_stack st = [LString src, LString p, LString [37, 48]]" and pat: "pattern_at p (pattern_start p) its" "well_captured [] its"
    and len: "length src < 2 ^ 63"
  shows "\<exists>n. str_gsub prog st = (Inr 2, holds st (l_stack st @ [LString src, LNumber n]))"
proof -
  have a: "luaL_checklstring 1 st = (Inr src, st)" "luaL_checklstring 2 st = (Inr p, st)" "lua_type 3 st = (Inr 4, st)"
    "luaL_optint 4 (int (length src) + 1) st = (Inr (sint (word_of_int (int (length src) + 1) :: 32 word)), st)"
    using st by (simp_all add: arg_string arg_type arg_none luaL_optint_def)
  have "\<exists>s' n' b' pos'. gsub_loop prog (length src + 2) p (pattern_start p) (is_anchored p) m (new_match src) 0 0 luaL_buffinit st
      = (Inr (pos', n', b'), s') \<and> pos' \<le> length src \<and> buffered st b' s' (take pos' src)" for m
    by (rule gsub_whole_match [OF pat len]) (use st in \<open>simp_all add: new_match_def\<close>)
  then obtain s' n' b' pos' where g: "gsub_loop prog (length src + 2) p (pattern_start p) (is_anchored p)
        (sint (word_of_int (int (length src) + 1) :: 32 word)) (new_match src) 0 0 luaL_buffinit st
      = (Inr (pos', n', b'), s')" "pos' \<le> length src" "buffered st b' s' (take pos' src)" by blast
  obtain b2 s2 where l: "luaL_addlstring prog (drop pos' src) b' s' = (Inr b2, s2)" "buffered st b2 s2 src"
    using addlstring_run [OF g(3), of "drop pos' src" prog] g(2) len by (auto simp: MAX_SIZET_def)
  have "length src < MAX_SIZET" using len by (simp add: MAX_SIZET_def)
  note r = pushresult_run [OF l(2) this, of prog]
  show ?thesis
    using a g(1) l(1) r st
    by (intro exI [of _ "cast_num n'"])
      (simp add: str_gsub_def luaL_argcheck_def pattern_start_def lua_pushinteger_def push_def holds_def lbind_run Let_def
        del: gsub_loop.simps)
qed

subsection \<open>Quoting\<close>

lemma quote_run:
  "buffered s0 B s bs \<Longrightarrow> length bs + 4 * length cs \<le> MAX_SIZET \<Longrightarrow>
    \<exists>B' s'. quote_loop prog cs B s = (Inr B', s') \<and> buffered s0 B' s' (bs @ concat (map quote_char cs))"
proof (induction cs arbitrary: B s bs)
  case Nil
  then show ?case by simp
next
  case (Cons c cs)
  have l: "length (quote_char c) \<le> 4" by (simp add: quote_char_def)
  then obtain B1 s1 where r: "luaL_addlstring prog (quote_char c) B s = (Inr B1, s1)" "buffered s0 B1 s1 (bs @ quote_char c)"
    using addlstring_run [OF Cons.prems(1), of "quote_char c" prog] Cons.prems(2) by auto
  obtain B2 s2 where "quote_loop prog cs B1 s1 = (Inr B2, s2)" "buffered s0 B2 s2 ((bs @ quote_char c) @ concat (map quote_char cs))"
    using Cons.IH [OF r(2)] Cons.prems(2) l by auto
  with r(1) show ?case by simp
qed

definition quoted_text :: "bytes \<Rightarrow> bytes" where
  "quoted_text cs = [34] @ concat (map quote_char cs) @ [34]"

lemma addquoted_run:
  assumes b: "buffered s0 B s bs" and arg: "luaL_checklstring arg s = (Inr cs, s)" and len: "length bs + 4 * length cs + 2 \<le> MAX_SIZET"
  obtains B' s' where "addquoted prog B arg s = (Inr B', s')" "buffered s0 B' s' (bs @ quoted_text cs)"
proof -
  obtain B1 s1 where r1: "luaL_addchar prog 34 B s = (Inr B1, s1)" "buffered s0 B1 s1 (bs @ [34])"
    by (rule addchar_run [OF b]) (use len in auto)
  obtain B2 s2 where r2: "quote_loop prog cs B1 s1 = (Inr B2, s2)" "buffered s0 B2 s2 ((bs @ [34]) @ concat (map quote_char cs))"
    using quote_run [OF r1(2), of cs prog] len by auto
  have "length (concat (map quote_char cs)) \<le> 4 * length cs"
    by (induction cs) (simp_all add: quote_char_def)
  then have "length ((bs @ [34]) @ concat (map quote_char cs)) < MAX_SIZET" using len by simp
  then obtain B3 s3 where r3: "luaL_addchar prog 34 B2 s2 = (Inr B3, s3)" "buffered s0 B3 s3 (((bs @ [34]) @ concat (map quote_char cs)) @ [34])"
    by (rule addchar_run [OF r2(2)])
  have "addquoted prog B arg s = (Inr B3, s3)" using arg r1(1) r2(1) r3(1) by (simp add: addquoted_def lbind_run)
  moreover have "buffered s0 B3 s3 (bs @ quoted_text cs)" using r3(2) by (simp add: quoted_text_def)
  ultimately show ?thesis by (rule that)
qed

end
