(* ===== verification/String_Props.thy ===== *)
theory String_Props
  imports Lua_Strlib_Run
begin

text \<open>What the pattern matcher and the functions of the string library promise.\<close>

text \<open>A thread that has only just started, for the examples.\<close>

definition fresh_state :: lua_State where
  "fresh_state = \<lparr>l_stack = [], l_ci_top = 21, l_func = None, l_caller = \<lparr>ci_name = None, ci_method = False, ci_where = []\<rparr>, l_nCcalls = 0, l_heap = (\<lambda>_. None), l_closures = (\<lambda>_. None), l_brk = 0,
     l_gt = 0, l_registry = 0, l_mt = (\<lambda>_. None), l_umt = (\<lambda>_. None), l_ulen = (\<lambda>_. 0), l_str2d = (\<lambda>_. None)\<rparr>"

subsection \<open>The matcher\<close>

text \<open>
  C19. The pattern matcher is safe on any pattern, well-formed or not, and always ends. \<^verbatim>\<open>match\<close>, started anywhere in the subject with
  no captures, never reads outside the subject or the pattern and never runs out of its bound: it raises an error, fails with
  the captures as they were, or succeeds at a position of the subject that is not before the start, and then every capture lies
  inside the part of the subject that was matched.
\<close>

theorem match_is_safe:
  assumes "p \<le> length pat" "s \<le> length src" "length src < 2 ^ 63"
  shows "case match pat (new_match src) s p of
      Inl e \<Rightarrow> (\<exists>m. e = RunError m)
    | Inr (None, ms) \<Rightarrow> caps ms = [] \<and> ms_src ms = src
    | Inr (Some e, ms) \<Rightarrow> s \<le> e \<and> e \<le> length src \<and> ms_src ms = src \<and> length (caps ms) \<le> LUA_MAXCAPTURES \<and>
        (\<forall>c \<in> set (caps ms). c_init c \<le> e \<and>
           (c_len c \<in> {CAP_UNFINISHED, CAP_POSITION} \<or> 0 \<le> c_len c \<and> int (c_init c) + c_len c \<le> int e))"
proof -
  have ok: "ms_ok s (new_match src)"
    using assms(2,3) by (simp add: new_match_def ms_ok_def src_end_def caps_def)
  have "good (new_match src) s (match pat (new_match src) s p)"
    unfolding match_def by (rule match_run_good [OF assms(1) _ ok]) simp
  then show ?thesis
    by (cases rule: good_cases)
      (auto simp: same_caps_def caps_def new_match_def ms_ok_def src_end_def cap_ok_def)
qed

text \<open>The malformed pattern \<^verbatim>\<open>%b\<close>.\<close>

theorem match_is_safe_witness: "\<exists>m. match [37, 98] (new_match [97]) 0 0 = Inl (RunError m)"
proof -
  have "match [37, 98] (new_match [97]) 0 0 = Inl (RunError (str ''unbalanced pattern''))"
    by (simp add: match_def Let_def chr_def L_ESC_def match_item_def matchbalance_def)
  then show ?thesis using match_is_safe [of 0 "[37, 98]" 0 "[97]"] by auto
qed

text \<open>
  C18. The matcher finds the preferred match. For a pattern that reads as a list of items and whose captures are well nested,
  \<^verbatim>\<open>match\<close> fails exactly when no way of matching the items exists; otherwise it returns the end and the captures of
  the first way in the order of preference: more repetitions first for \<^verbatim>\<open>*\<close>, \<^verbatim>\<open>+\<close> and \<^verbatim>\<open>?\<close>, fewer first for \<^verbatim>\<open>-\<close>.
\<close>

theorem match_finds_first_way:
  assumes "pattern_at pat p its" "well_captured [] its" "s \<le> length src" "length src < 2 ^ 63"
  shows "map_sum id (\<lambda>(r, ms). map_option (\<lambda>e. (e, caps ms)) r) (match pat (new_match src) s p)
    = Inr (case results src its s [] of [] \<Rightarrow> None | w # _ \<Rightarrow> Some w)"
proof -
  have "(new_match src)\<lparr>ms_level := 0\<rparr> = new_match src" by (simp add: new_match_def)
  then show ?thesis
    using match_once [OF assms(1-4), of "new_match src"]
    by (auto simp: new_match_def split: list.splits)
qed

lemma b_plus: "pattern_at [98, 43] 0 [Once ((=) 98), Many ((=) 98)]"
proof (rule pattern_at.many1)
  show "single_class [98, 43] 0 1 ((=) 98)"
    by (auto simp: single_class_def plain_item_def classend_def singlematch_def chr_def L_ESC_def)
  show "pattern_at [98, 43] (1 + 1) []" by (rule pattern_at.pend) (simp add: chr_def)
qed (simp add: chr_def)

theorem match_finds_first_way_witness:
  "map_sum id (\<lambda>(r, ms). map_option (\<lambda>e. (e, caps ms)) r) (match [98, 43] (new_match [97, 98, 98]) 1 0) = Inr (Some (3, []))"
  by (subst match_finds_first_way [OF b_plus]) simp_all

subsection \<open>string.find\<close>

text \<open>
  C33. \<^verbatim>\<open>string.find\<close> on two strings, for a pattern with special characters, pushes the leftmost match. It returns nil exactly when no
  position of the subject has a match (only the first one counts under \<^verbatim>\<open>^\<close>); otherwise it returns the first and last index
  of the preferred match at the leftmost such position, counted from 1, and then the captures.
\<close>

theorem find_returns_leftmost:
  assumes "l_stack st = [LString s, LString p]" "has_specials p" "pattern_at p (pattern_start p) its"
    and "well_captured [] its" "list_all id (statuses [] its)" "length s < 2 ^ 63"
  shows "str_find st = (case leftmost (is_anchored p) s its 0 of
      None \<Rightarrow> (Inr 1, holds st (l_stack st @ [LNil]))
    | Some i \<Rightarrow> (case hd (results s its i []) of (e, cs) \<Rightarrow>
        (Inr (length cs + 2), holds st (l_stack st @ [LNumber (cast_num (int i + 1)), LNumber (cast_num (int e))] @ map (capture_value s) cs))))"
  by (rule find_pattern_run [OF assms])

theorem find_returns_leftmost_witness:
  "fst (str_find (holds fresh_state [LString [97, 98, 98], LString [98, 43]])) = Inr 2"
proof -
  have "has_specials [98, 43]" by (simp add: has_specials_def c_str_def SPECIALS_def str_def)
  moreover have "pattern_start [98, 43] = 0" "is_anchored [98, 43] = False" by (simp_all add: pattern_start_def is_anchored_def chr_def)
  ultimately show ?thesis
    using find_returns_leftmost [of "holds fresh_state [LString [97, 98, 98], LString [98, 43]]" "[97, 98, 98]" "[98, 43]" "[Once ((=) 98), Many ((=) 98)]"] b_plus
    by (simp add: holds_def leftmost_def first_pos_def way_at_def)
qed

text \<open>
  C34. The two searches of \<^verbatim>\<open>string.find\<close> agree where both apply. For a pattern without special characters the loop that tries \<^verbatim>\<open>match\<close>
  at each position finds exactly what the plain search with \<^verbatim>\<open>memchr\<close> and \<^verbatim>\<open>memcmp\<close> finds: the first position at which the
  pattern occurs, with its length and no captures, or nothing.
\<close>

theorem plain_search_is_pattern_search:
  assumes "literal p" "i \<le> length s" "length s < 2 ^ 63"
  shows "map_sum id (map_option (\<lambda>(b, e, ms). (b, e, caps ms))) (find_loop p 0 False s (new_match s) i)
    = Inr (map_option (\<lambda>b. (b, b + length p, [])) (lmemfind s i (length s - i) p))"
proof -
  let ?its = "map (\<lambda>c. Once ((=) c)) p"
  have pat: "pattern_at p 0 ?its" using literal_pattern [OF assms(1), of 0] by simp
  have "leftmost False s ?its i = first_pos s i (occurs s p)"
    by (simp add: leftmost_def, rule first_pos_cong) (simp add: way_at_def literal_results)
  then have l: "lmemfind s i (length s - i) p = leftmost False s ?its i" using lmemfind_is_first [OF assms(2)] by simp
  have run: "case leftmost False s ?its i of None \<Rightarrow> find_loop p 0 False s (new_match s) i = Inr None
    | Some b \<Rightarrow> \<exists>e cs ws ms'. results s ?its b [] = (e, cs) # ws \<and> find_loop p 0 False s (new_match s) i = Inr (Some (b, e, ms')) \<and>
        ms_src ms' = s \<and> caps ms' = cs \<and> ms_ok e ms' \<and> b \<le> e"
    by (rule find_loop_leftmost [OF pat literal_captures assms(3,2)]) (simp_all add: new_match_def)
  show ?thesis
  proof (cases "leftmost False s ?its i")
    case None
    then show ?thesis using run l by simp
  next
    case (Some b)
    then obtain e cs ws ms' where r: "results s ?its b [] = (e, cs) # ws" "find_loop p 0 False s (new_match s) i = Inr (Some (b, e, ms'))"
      "caps ms' = cs" using run by auto
    have "b \<le> length s" using first_pos_Some [of s i "way_at s ?its" b] Some by (simp add: leftmost_def)
    then have "e = b + length p" "cs = []" using r(1) literal_results [of b s p "[]"] by (auto split: if_splits)
    then show ?thesis using r l Some by simp
  qed
qed

theorem plain_search_is_pattern_search_witness:
  "map_sum id (map_option (\<lambda>(b, e, ms). (b, e, caps ms))) (find_loop [98] 0 False [97, 98] (new_match [97, 98]) 0) = Inr (Some (1, 2, []))"
proof -
  have "literal [98]" unfolding literal_def specials by simp
  moreover have "lmemfind [97, 98] 0 (length [97, 98::byte]) [98] = Some 1"
    using lmemfind_is_first [of 0 "[97, 98]" "[98]"] by (simp add: first_pos_def occurs_def)
  ultimately show ?thesis using plain_search_is_pattern_search [of "[98]" 0 "[97, 98]"] by simp
qed

subsection \<open>string.gsub and string.format\<close>

text \<open>
  C35. Replacing every match by itself changes nothing. \<^verbatim>\<open>string.gsub(s, p, "%0")\<close>, for a pattern whose captures are well nested, returns \<open>s\<close>
  and a count, whatever the pattern matches, and leaves nothing else on the stack: the loop copies each byte of the subject exactly once, matched
  or not, through the buffer.
\<close>

theorem gsub_whole_match_is_identity:
  assumes "l_stack st = [LString src, LString p, LString (str ''%0'')]" "pattern_at p (pattern_start p) its" "well_captured [] its"
    "length src < 2 ^ 63"
  shows "\<exists>n. str_gsub prog st = (Inr 2, holds st (l_stack st @ [LString src, LNumber n]))"
  by (rule gsub_whole_run [OF _ assms(2-4)]) (use assms(1) in \<open>simp add: str_def\<close>)

theorem gsub_whole_match_is_identity_witness:
  "\<exists>n. l_stack (snd (str_gsub (\<lambda>_. lundef) (holds fresh_state [LString [97, 98, 98], LString [98, 43], LString (str ''%0'')])))
    = [LString [97, 98, 98], LString [98, 43], LString (str ''%0''), LString [97, 98, 98], LNumber n]"
proof -
  have "pattern_start [98, 43] = 0" by (simp add: pattern_start_def is_anchored_def chr_def)
  then show ?thesis
    using gsub_whole_match_is_identity [of "holds fresh_state [LString [97, 98, 98], LString [98, 43], LString (str ''%0'')]" "[97, 98, 98]" "[98, 43]"
        "[Once ((=) 98), Many ((=) 98)]" "\<lambda>_. lundef"] b_plus
    by (auto simp: holds_def)
qed

text \<open>
  The conversion specification that \<^verbatim>\<open>string.format\<close> copies out of its format fits its array. When \<^verbatim>\<open>scanformat\<close> does not raise an error, the
  text of the specification with the length modifier that \<^verbatim>\<open>addintlen\<close> adds and its terminating zero takes at most \<^verbatim>\<open>MAX_FORMAT\<close> bytes,
  and the scan stays inside the format.
\<close>

theorem scanformat_fits:
  assumes "scanformat f start = Inr (p, form)" "start \<le> length f"
  shows "length (addintlen form) + 1 \<le> MAX_FORMAT \<and> start \<le> p \<and> p \<le> length f"
proof -
  let ?n = "length (takeWhile (\<lambda>c. c \<noteq> 0 \<and> c \<in> set FLAGS) (drop start f))"
  let ?p0 = "start + ?n"
  let ?p2 = "skip_digit f (skip_digit f ?p0)"
  let ?p5 = "if chr f ?p2 = Inr 46 then skip_digit f (skip_digit f (?p2 + 1)) else ?p2"
  have n: "?n \<le> 5" "p = ?p5" "form = 37 # c_str (take (?p5 - start + 1) (drop start f))"
    using assms(1) by (auto simp: scanformat_def Let_def FLAGS_def str_def split: if_splits)
  have skip: "q \<le> skip_digit f q" "skip_digit f q \<le> q + 1" for q by (simp_all add: skip_digit_def)
  have "length (takeWhile (\<lambda>c. c \<noteq> 0 \<and> c \<in> set FLAGS) (drop start f)) \<le> length (drop start f)" by (rule length_takeWhile_le)
  then have p0: "?p0 \<le> length f" using assms(2) by simp
  have stay: "skip_digit f q \<le> length f" if "q \<le> length f" for q using that by (auto simp: skip_digit_def)
  have p2: "?p2 \<le> length f" by (intro stay p0)
  have p5: "?p5 \<le> length f"
    using p2 by (auto intro!: stay simp: chr_def split: if_splits)
  have b: "?p0 \<le> ?p2" "?p2 \<le> ?p0 + 2" "?p2 \<le> ?p5" "?p5 \<le> ?p2 + 3"
    using skip [of ?p0] skip [of "skip_digit f ?p0"] skip [of "?p2 + 1"] skip [of "skip_digit f (?p2 + 1)"] by auto
  have "length (c_str (take (?p5 - start + 1) (drop start f))) \<le> ?p5 - start + 1"
    using length_takeWhile_le [of "\<lambda>c. c \<noteq> 0" "take (?p5 - start + 1) (drop start f)"] by (simp add: c_str_def)
  then have "length form \<le> 12" using n b by simp
  then show ?thesis using n b p5 by (simp add: addintlen_def MAX_FORMAT_def FLAGS_def LUA_INTFRMLEN_def str_def)
qed

theorem scanformat_fits_witness:
  "length (addintlen (snd (projr (scanformat (str ''-12.34d'') 0)))) + 1 \<le> MAX_FORMAT"
proof -
  have "scanformat (str ''-12.34d'') 0 = Inr (6, str ''%-12.34d'')"
    by (simp add: scanformat_def FLAGS_def str_def skip_digit_def isdigit_def chr_def c_str_def Let_def)
  then show ?thesis using scanformat_fits [of "str ''-12.34d''" 0 6] by simp
qed

subsection \<open>The buffers of the auxiliary library\<close>

text \<open>
  C36. A \<^verbatim>\<open>luaL_Buffer\<close> refines a byte string. After any sequence of \<^verbatim>\<open>luaL_addlstring\<close> on a fresh buffer, with the pieces it pushed, joined
  and pushed again on the way, \<^verbatim>\<open>luaL_pushresult\<close> leaves exactly one value on the stack, the concatenation of the strings.
\<close>

theorem buffer_refines_concat:
  assumes "length (concat xs) < MAX_SIZET"
  shows "lbind (foldr (\<lambda>x k b. lbind (luaL_addlstring prog x b) k) xs lret luaL_buffinit) (luaL_pushresult prog) st
    = (Inr (), holds st (l_stack st @ [LString (concat xs)]))"
proof -
  have "\<exists>B' s'. foldr (\<lambda>x k b. lbind (luaL_addlstring prog x b) k) xs lret B s = (Inr B', s') \<and> buffered st B' s' (bs @ concat xs)"
    if "buffered st B s bs" "length bs + length (concat xs) < MAX_SIZET" for B s bs
    using that
  proof (induction xs arbitrary: B s bs)
    case Nil
    then show ?case by simp
  next
    case (Cons x xs)
    obtain B1 s1 where r: "luaL_addlstring prog x B s = (Inr B1, s1)" "buffered st B1 s1 (bs @ x)"
      using addlstring_run [OF Cons.prems(1), of x prog] Cons.prems(2) by auto
    with Cons.IH [OF r(2)] Cons.prems(2) show ?case by (simp add: lbind_run)
  qed
  from this [of luaL_buffinit st "[]"] assms obtain B' s' where
    "foldr (\<lambda>x k b. lbind (luaL_addlstring prog x b) k) xs lret luaL_buffinit st = (Inr B', s')" "buffered st B' s' (concat xs)" by auto
  then show ?thesis using pushresult_run [OF _ assms, of st B' s' prog] by (simp add: lbind_run)
qed

theorem buffer_refines_concat_witness:
  "lbind (foldr (\<lambda>x k b. lbind (luaL_addlstring (\<lambda>_. lundef) x b) k) [[97], [98]] lret luaL_buffinit) (luaL_pushresult (\<lambda>_. lundef))
      fresh_state
    = (Inr (), holds fresh_state (l_stack fresh_state @ [LString [97, 98]]))"
  using buffer_refines_concat [of "[[97], [98]]" "\<lambda>_. lundef" fresh_state] by (simp add: MAX_SIZET_def)

end
