(* ===== verification/Lua_Lex.thy ===== *)
theory Lua_Lex
  imports Lua_Zio Lua_Vm
begin

text \<open>
  The lexical analyser (\<^verbatim>\<open>llex.c\<close>). A lexer action acts on the state \<open>LexState\<close> and ends with a value or an error; after an error the
  state is gone, as the code leaves through \<^verbatim>\<open>luaD_throw\<close>. A syntax error carries its message. The functions \<^verbatim>\<open>strtod\<close> and \<^verbatim>\<open>strtoul\<close> (value and
  number of characters read) and the decimal point of the locale are parameters, gathered in \<open>LexEnv\<close>.
\<close>

subsection \<open>Tokens\<close>

definition FIRST_RESERVED :: int where "FIRST_RESERVED = 257"
definition NUM_RESERVED :: nat where "NUM_RESERVED = 21"
definition TK_CONCAT :: int where "TK_CONCAT = FIRST_RESERVED + 21"
definition TK_DOTS :: int where "TK_DOTS = FIRST_RESERVED + 22"
definition TK_EQ :: int where "TK_EQ = FIRST_RESERVED + 23"
definition TK_GE :: int where "TK_GE = FIRST_RESERVED + 24"
definition TK_LE :: int where "TK_LE = FIRST_RESERVED + 25"
definition TK_NE :: int where "TK_NE = FIRST_RESERVED + 26"
definition TK_NUMBER :: int where "TK_NUMBER = FIRST_RESERVED + 27"
definition TK_NAME :: int where "TK_NAME = FIRST_RESERVED + 28"
definition TK_STRING :: int where "TK_STRING = FIRST_RESERVED + 29"
definition TK_EOS :: int where "TK_EOS = FIRST_RESERVED + 30"

lemmas token_defs = FIRST_RESERVED_def TK_CONCAT_def TK_DOTS_def TK_EQ_def TK_GE_def TK_LE_def TK_NE_def TK_NUMBER_def TK_NAME_def
  TK_STRING_def TK_EOS_def

definition luaX_tokens :: "bytes list" where
  "luaX_tokens = map str
     [''and'', ''break'', ''do'', ''else'', ''elseif'', ''end'', ''false'', ''for'', ''function'', ''if'', ''in'', ''local'', ''nil'',
      ''not'', ''or'', ''repeat'', ''return'', ''then'', ''true'', ''until'', ''while'', ''..'', ''...'', ''=='', ''>='', ''<='', ''~='',
      ''<number>'', ''<name>'', ''<string>'', ''<eof>'']"

text \<open>The field \<^verbatim>\<open>reserved\<close> of each string after the initialization.\<close>

definition luaX_init :: "bytes \<Rightarrow> nat" where
  "luaX_init = fold (\<lambda>i r. r(luaX_tokens ! i := i + 1)) [0..<NUM_RESERVED] (\<lambda>_. 0)"

datatype SemInfo = SI_none | SI_r lua_Number | SI_ts bytes

record Token =
  tk_token :: int
  tk_seminfo :: SemInfo

record Mbuffer =
  mb_bytes :: bytes   \<comment> \<open>the first \<open>n\<close> bytes of the buffer\<close>
  mb_size :: nat

record LexState =
  ls_current :: int
  ls_linenumber :: int
  ls_lastline :: int
  ls_t :: Token
  ls_ahead :: Token
  ls_h :: Table        \<comment> \<open>\<open>fs->h\<close>, which keeps the strings of the function alive\<close>
  ls_z :: Zio
  ls_buff :: Mbuffer
  ls_source :: bytes
  ls_decpoint :: byte

record LexEnv =
  le_strtod :: "bytes \<Rightarrow> lua_Number \<times> nat"
  le_strtoul :: "bytes \<Rightarrow> nat \<times> nat"
  le_decpoint :: byte

subsection \<open>Lexer actions\<close>

datatype lex_error = SyntaxError bytes | LexFault rt_error

type_synonym 'a lex = "LexState \<Rightarrow> lex_error + 'a \<times> LexState"

definition xret :: "'a \<Rightarrow> 'a lex" where "xret a = (\<lambda>ls. Inr (a, ls))"
definition xfault :: "rt_error \<Rightarrow> 'a lex" where "xfault e = (\<lambda>ls. Inl (LexFault e))"
definition xbind :: "'a lex \<Rightarrow> ('a \<Rightarrow> 'b lex) \<Rightarrow> 'b lex" where
  "xbind m f = (\<lambda>ls. case m ls of Inl e \<Rightarrow> Inl e | Inr (a, ls') \<Rightarrow> f a ls')"
definition xget :: "(LexState \<Rightarrow> 'a) \<Rightarrow> 'a lex" where "xget f = (\<lambda>ls. Inr (f ls, ls))"
definition xmod :: "(LexState \<Rightarrow> LexState) \<Rightarrow> unit lex" where "xmod f = (\<lambda>ls. Inr ((), f ls))"

fun xseq :: "unit lex list \<Rightarrow> unit lex" where
  "xseq [] = xret ()"
| "xseq (m # ms) = xbind m (\<lambda>_. xseq ms)"

lemma x_run [simp]: "xret a ls = Inr (a, ls)" "xfault e ls = Inl (LexFault e)" "xget g ls = Inr (g ls, ls)" "xmod f ls = Inr ((), f ls)"
  by (simp_all add: xret_def xfault_def xget_def xmod_def)

lemma xbind_run [simp]: "m ls = Inr (a, ls') \<Longrightarrow> xbind m f ls = f a ls'" "m ls = Inl e \<Longrightarrow> xbind m f ls = Inl e"
  by (simp_all add: xbind_def)

text \<open>The macro \<^verbatim>\<open>next\<close>.\<close>

definition lex_next :: "unit lex" where
  "lex_next = (\<lambda>ls. case zgetc (ls_z ls) of
      Inl e \<Rightarrow> Inl (LexFault e) | Inr (c, z) \<Rightarrow> Inr ((), ls\<lparr>ls_current := c, ls_z := z\<rparr>))"

definition newline :: "int \<Rightarrow> bool" where "newline c \<longleftrightarrow> c = 10 \<or> c = 13"

definition currIsNewline :: "bool lex" where
  "currIsNewline = xget (\<lambda>ls. newline (ls_current ls))"

subsection \<open>Errors and the token buffer\<close>

definition MAXSRC :: nat where "MAXSRC = 80"

text \<open>The message with the place of the error, the first half of \<^verbatim>\<open>luaX_lexerror\<close>; with no token it is thrown as it is.\<close>

definition lex_place :: "bytes \<Rightarrow> LexState \<Rightarrow> bytes option" where
  "lex_place msg ls =
     luaO_pushvfstring (str ''%s:%d: %s'') [FStr (Some (luaO_chunkid (c_str (ls_source ls)) MAXSRC)), FInt (ls_linenumber ls), FStr (Some msg)]"

definition lexerror_0 :: "bytes \<Rightarrow> 'a lex" where
  "lexerror_0 msg = (\<lambda>ls. case lex_place msg ls of None \<Rightarrow> Inl (LexFault Crash) | Some m \<Rightarrow> Inl (SyntaxError m))"

definition put_byte :: "int \<Rightarrow> LexState \<Rightarrow> LexState" where
  "put_byte c ls = ls\<lparr>ls_buff := (ls_buff ls)\<lparr>mb_bytes := mb_bytes (ls_buff ls) @ [word_of_int c]\<rparr>\<rparr>"

definition save :: "int \<Rightarrow> unit lex" where
  "save c = (\<lambda>ls.
     let b = ls_buff ls in
     if length (mb_bytes b) + 1 > mb_size b then
       if mb_size b \<ge> MAX_SIZET div 2 then lexerror_0 (str ''lexical element too long'') ls
       else
         let newsize = mb_size b * 2 in
         if length (mb_bytes b) + 1 > newsize then Inl (LexFault Crash)
         else Inr ((), put_byte c (ls\<lparr>ls_buff := b\<lparr>mb_size := newsize\<rparr>\<rparr>))
     else Inr ((), put_byte c ls))"

definition save_and_next :: "unit lex" where
  "save_and_next = xbind (xget ls_current) (\<lambda>c. xbind (save c) (\<lambda>_. lex_next))"

definition luaZ_resetbuffer :: "unit lex" where
  "luaZ_resetbuffer = xmod (\<lambda>ls. ls\<lparr>ls_buff := (ls_buff ls)\<lparr>mb_bytes := []\<rparr>\<rparr>)"

definition luaX_token2str :: "int \<Rightarrow> bytes option" where
  "luaX_token2str token =
     (if token < FIRST_RESERVED then
        (if iscntrl token then luaO_pushvfstring (str ''char(%d)'') [FInt token] else luaO_pushvfstring (str ''%c'') [FInt token])
      else if nat (token - FIRST_RESERVED) < length luaX_tokens then Some (luaX_tokens ! nat (token - FIRST_RESERVED)) else None)"

definition txtToken :: "int \<Rightarrow> bytes lex" where
  "txtToken token =
     (if token = TK_NAME \<or> token = TK_STRING \<or> token = TK_NUMBER
      then xbind (save 0) (\<lambda>_. xget (\<lambda>ls. c_str (mb_bytes (ls_buff ls))))
      else case luaX_token2str token of None \<Rightarrow> xfault Crash | Some s \<Rightarrow> xret s)"

definition luaX_lexerror :: "bytes \<Rightarrow> int \<Rightarrow> 'a lex" where
  "luaX_lexerror msg token =
     (if token = 0 then lexerror_0 msg
      else xbind (xget (lex_place msg)) (\<lambda>place. xbind (txtToken token) (\<lambda>t ls.
        case place of None \<Rightarrow> Inl (LexFault Crash)
        | Some m \<Rightarrow> (case luaO_pushvfstring (str ''%s near '' @ quoted ''%s'') [FStr (Some m), FStr (Some t)] of
            None \<Rightarrow> Inl (LexFault Crash) | Some m' \<Rightarrow> Inl (SyntaxError m')))))"

definition luaX_syntaxerror :: "bytes \<Rightarrow> 'a lex" where
  "luaX_syntaxerror msg = xbind (xget (\<lambda>ls. tk_token (ls_t ls))) (luaX_lexerror msg)"

text \<open>A string of the model is its bytes; what remains is the entry of the table that keeps it alive.\<close>

definition luaX_newstring :: "bytes \<Rightarrow> bytes lex" where
  "luaX_newstring s = (\<lambda>ls. case luaH_setstr (ls_h ls) s of
      Inl e \<Rightarrow> Inl (LexFault e)
    | Inr (t, slot) \<Rightarrow> Inr (s, ls\<lparr>ls_h := (if ttisnil (slot_value t (Some slot)) then slot_set t slot (LBoolean True) else t)\<rparr>))"

definition inclinenumber :: "unit lex" where
  "inclinenumber =
     xbind (xget ls_current) (\<lambda>old.
     xbind lex_next (\<lambda>_.
     xbind (xget ls_current) (\<lambda>c.
     xbind (if newline c \<and> c \<noteq> old then lex_next else xret ()) (\<lambda>_.
     xbind (xmod (\<lambda>ls. ls\<lparr>ls_linenumber := ls_linenumber ls + 1\<rparr>)) (\<lambda>_.
     xbind (xget ls_linenumber) (\<lambda>n.
       if n \<ge> int MAX_INT then luaX_syntaxerror (str ''chunk has too many lines'') else xret ()))))))"

text \<open>The loop of a scanner that reads as long as a condition on the current character holds, to a bound.\<close>

primrec save_while :: "(int \<Rightarrow> bool) \<Rightarrow> nat \<Rightarrow> unit lex" where
  "save_while P 0 = xfault OutOfFuel"
| "save_while P (Suc f) = xbind (xget ls_current) (\<lambda>c. if P c then xbind save_and_next (\<lambda>_. save_while P f) else xret ())"

text \<open>Every round of a loop reads a character, so the characters left bound the rounds.\<close>

definition lex_fuel :: "LexState \<Rightarrow> nat" where
  "lex_fuel ls = length (z_p (ls_z ls)) + length (concat (z_src (ls_z ls))) + 3"

definition with_fuel :: "(nat \<Rightarrow> 'a lex) \<Rightarrow> 'a lex" where
  "with_fuel m = xbind (xget lex_fuel) m"

text \<open>\<^verbatim>\<open>strchr\<close> also finds the zero that ends the set.\<close>

definition check_next :: "bytes \<Rightarrow> bool lex" where
  "check_next set_bytes = xbind (xget ls_current) (\<lambda>c.
     if (word_of_int c :: byte) \<in> set set_bytes \<or> (word_of_int c :: byte) = 0 then xbind save_and_next (\<lambda>_. xret True) else xret False)"

subsection \<open>Numbers\<close>

definition skip_space :: "bytes \<Rightarrow> nat \<Rightarrow> nat" where
  "skip_space s p = p + length (takeWhile (\<lambda>c. isspace (uint c)) (drop p s))"

definition luaO_str2d :: "LexEnv \<Rightarrow> bytes \<Rightarrow> rt_error + lua_Number option" where
  "luaO_str2d env s =
     (case le_strtod env s of (result, endp) \<Rightarrow>
      if endp = 0 then Inr None
      else sum_bind (chr s endp) (\<lambda>x.
        let (result2, endp2) = (if x = 120 \<or> x = 88 then map_prod (\<lambda>v. cast_num (int v)) id (le_strtoul env s) else (result, endp)) in
        sum_bind (chr s endp2) (\<lambda>c.
          if c = 0 then Inr (Some result2)
          else sum_bind (chr s (skip_space s endp2)) (\<lambda>d. Inr (if d \<noteq> 0 then None else Some result2)))))"

definition lex_str2d :: "LexEnv \<Rightarrow> lua_Number option lex" where
  "lex_str2d env = (\<lambda>ls. case luaO_str2d env (c_str (mb_bytes (ls_buff ls))) of Inl e \<Rightarrow> Inl (LexFault e) | Inr r \<Rightarrow> Inr (r, ls))"

definition buffreplace :: "byte \<Rightarrow> byte \<Rightarrow> unit lex" where
  "buffreplace frm to = xmod (\<lambda>ls. ls\<lparr>ls_buff := (ls_buff ls)\<lparr>mb_bytes := map (\<lambda>c. if c = frm then to else c) (mb_bytes (ls_buff ls))\<rparr>\<rparr>)"

definition trydecpoint :: "LexEnv \<Rightarrow> lua_Number lex" where
  "trydecpoint env =
     xbind (xget ls_decpoint) (\<lambda>old.
     xbind (xmod (\<lambda>ls. ls\<lparr>ls_decpoint := le_decpoint env\<rparr>)) (\<lambda>_.
     xbind (buffreplace old (le_decpoint env)) (\<lambda>_.
     xbind (lex_str2d env) (\<lambda>r. case r of
       Some x \<Rightarrow> xret x
     | None \<Rightarrow> xbind (buffreplace (le_decpoint env) 46) (\<lambda>_. luaX_lexerror (str ''malformed number'') TK_NUMBER)))))"

definition read_numeral :: "LexEnv \<Rightarrow> lua_Number lex" where
  "read_numeral env =
     xbind save_and_next (\<lambda>_.
     xbind (with_fuel (save_while (\<lambda>c. isdigit c \<or> c = 46))) (\<lambda>_.
     xbind (check_next (str ''Ee'')) (\<lambda>e.
     xbind (if e then xbind (check_next (str ''+-'')) (\<lambda>_. xret ()) else xret ()) (\<lambda>_.
     xbind (with_fuel (save_while (\<lambda>c. isalnum c \<or> c = 95))) (\<lambda>_.
     xbind (save 0) (\<lambda>_.
     xbind (xget ls_decpoint) (\<lambda>d.
     xbind (buffreplace 46 d) (\<lambda>_.
     xbind (lex_str2d env) (\<lambda>r. case r of Some x \<Rightarrow> xret x | None \<Rightarrow> trydecpoint env)))))))))"

subsection \<open>Strings\<close>

text \<open>The counter is an \<^verbatim>\<open>int\<close>, whose overflow is undefined.\<close>

primrec sep_loop :: "nat \<Rightarrow> int \<Rightarrow> int lex" where
  "sep_loop 0 n = xfault OutOfFuel"
| "sep_loop (Suc f) n = xbind (xget ls_current) (\<lambda>c.
     if c = 61 then xbind save_and_next (\<lambda>_. if n = 2 ^ 31 - 1 then xfault Crash else sep_loop f (n + 1)) else xret n)"

definition skip_sep :: "int lex" where
  "skip_sep =
     xbind (xget ls_current) (\<lambda>s.
     xbind save_and_next (\<lambda>_.
     xbind (with_fuel (\<lambda>f. sep_loop f 0)) (\<lambda>n.
     xget (\<lambda>ls. if ls_current ls = s then n else - n - 1))))"

text \<open>\<open>keep\<close> tells whether the text is wanted, or only skipped as a comment.\<close>

primrec long_loop :: "bool \<Rightarrow> int \<Rightarrow> nat \<Rightarrow> unit lex" where
  "long_loop keep sep 0 = xfault OutOfFuel"
| "long_loop keep sep (Suc f) =
     xbind (xget ls_current) (\<lambda>c.
       if c = EOZ then luaX_lexerror (if keep then str ''unfinished long string'' else str ''unfinished long comment'') TK_EOS
       else if c = 91 then
         xbind skip_sep (\<lambda>n.
           if n = sep then
             xbind save_and_next (\<lambda>_.
               if sep = 0 then luaX_lexerror (str ''nesting of [[...]] is deprecated'') 91 else long_loop keep sep f)
           else long_loop keep sep f)
       else if c = 93 then
         xbind skip_sep (\<lambda>n. if n = sep then save_and_next else long_loop keep sep f)
       else if newline c then
         xseq [save 10, inclinenumber, if keep then xret () else luaZ_resetbuffer, long_loop keep sep f]
       else xseq [if keep then save_and_next else lex_next, long_loop keep sep f])"

definition take_token :: "nat \<Rightarrow> nat \<Rightarrow> bytes lex" where
  "take_token before around = (\<lambda>ls.
     let b = mb_bytes (ls_buff ls) in
     if length b < around then Inl (LexFault Crash)
     else luaX_newstring (take (length b - around) (drop before b)) ls)"

definition read_long_string :: "bool \<Rightarrow> int \<Rightarrow> SemInfo \<Rightarrow> SemInfo lex" where
  "read_long_string keep sep si =
     xbind save_and_next (\<lambda>_.
     xbind (xget ls_current) (\<lambda>c.
     xbind (if newline c then inclinenumber else xret ()) (\<lambda>_.
     xbind (with_fuel (long_loop keep sep)) (\<lambda>_.
       if keep then xbind (take_token (2 + nat sep) (2 * (2 + nat sep))) (\<lambda>s. xret (SI_ts s)) else xret si))))"

text \<open>Up to three decimal digits of an escape sequence.\<close>

primrec digits_loop :: "nat \<Rightarrow> int \<Rightarrow> int lex" where
  "digits_loop 0 c = xret c"
| "digits_loop (Suc i) c =
     xbind (xget ls_current) (\<lambda>d.
     xbind lex_next (\<lambda>_.
     xbind (xget ls_current) (\<lambda>d2. let c2 = 10 * c + (d - 48) in if isdigit d2 then digits_loop i c2 else xret c2)))"

definition simple_escape :: "int \<Rightarrow> int option" where
  "simple_escape c =
     (if c = 97 then Some 7 else if c = 98 then Some 8 else if c = 102 then Some 12 else if c = 110 then Some 10
      else if c = 114 then Some 13 else if c = 116 then Some 9 else if c = 118 then Some 11 else None)"

definition read_escape :: "unit lex" where
  "read_escape =
     xbind lex_next (\<lambda>_.
     xbind (xget ls_current) (\<lambda>c. case simple_escape c of
       Some e \<Rightarrow> xbind (save e) (\<lambda>_. lex_next)
     | None \<Rightarrow>
         if newline c then xbind (save 10) (\<lambda>_. inclinenumber)
         else if c = EOZ then xret ()
         else if \<not> isdigit c then save_and_next
         else xbind (digits_loop 3 0) (\<lambda>v.
           if v > 255 then luaX_lexerror (str ''escape sequence too large'') TK_STRING else save v)))"

primrec string_loop :: "int \<Rightarrow> nat \<Rightarrow> unit lex" where
  "string_loop del 0 = xfault OutOfFuel"
| "string_loop del (Suc f) =
     xbind (xget ls_current) (\<lambda>c.
       if c = del then xret ()
       else xbind (if c = EOZ then luaX_lexerror (str ''unfinished string'') TK_EOS
                   else if newline c then luaX_lexerror (str ''unfinished string'') TK_STRING
                   else if c = 92 then read_escape
                   else save_and_next) (\<lambda>_. string_loop del f))"

definition read_string :: "int \<Rightarrow> bytes lex" where
  "read_string del =
     xbind save_and_next (\<lambda>_.
     xbind (with_fuel (string_loop del)) (\<lambda>_.
     xbind save_and_next (\<lambda>_. take_token 1 2)))"

subsection \<open>The next token\<close>

definition is_name_char :: "int \<Rightarrow> bool" where "is_name_char c \<longleftrightarrow> isalnum c \<or> c = 95"

primrec skip_line :: "nat \<Rightarrow> unit lex" where
  "skip_line 0 = xfault OutOfFuel"
| "skip_line (Suc f) = xbind (xget ls_current) (\<lambda>c. if \<not> newline c \<and> c \<noteq> EOZ then xbind lex_next (\<lambda>_. skip_line f) else xret ())"

text \<open>A comment, after its two dashes.\<close>

definition skip_comment :: "SemInfo \<Rightarrow> unit lex" where
  "skip_comment si =
     xbind (xget ls_current) (\<lambda>c.
     xbind (if c = 91 then xbind skip_sep (\<lambda>sep. xbind luaZ_resetbuffer (\<lambda>_. xret (if sep \<ge> 0 then Some sep else None))) else xret None) (\<lambda>r.
       case r of
         Some sep \<Rightarrow> xbind (read_long_string False sep si) (\<lambda>_. luaZ_resetbuffer)
       | None \<Rightarrow> with_fuel skip_line))"

text \<open>The operators that may be followed by \<^verbatim>\<open>=\<close>.\<close>

definition or_equal :: "int \<Rightarrow> int \<Rightarrow> int lex" where
  "or_equal c tok = xbind lex_next (\<lambda>_. xbind (xget ls_current) (\<lambda>d. if d \<noteq> 61 then xret c else xbind lex_next (\<lambda>_. xret tok)))"

definition read_name :: "SemInfo \<Rightarrow> (int \<times> SemInfo) lex" where
  "read_name si =
     xbind save_and_next (\<lambda>_.
     xbind (with_fuel (save_while is_name_char)) (\<lambda>_.
     xbind (xget (\<lambda>ls. mb_bytes (ls_buff ls))) (\<lambda>s.
     xbind (luaX_newstring s) (\<lambda>ts.
       xret (if luaX_init ts > 0 then (int (luaX_init ts) - 1 + FIRST_RESERVED, si) else (TK_NAME, SI_ts ts))))))"

primrec llex_loop :: "LexEnv \<Rightarrow> SemInfo \<Rightarrow> nat \<Rightarrow> (int \<times> SemInfo) lex" where
  "llex_loop env si 0 = xfault OutOfFuel"
| "llex_loop env si (Suc f) =
     xbind (xget ls_current) (\<lambda>c.
       if newline c then xbind inclinenumber (\<lambda>_. llex_loop env si f)
       else if c = 45 then
         xbind lex_next (\<lambda>_. xbind (xget ls_current) (\<lambda>d.
           if d \<noteq> 45 then xret (45, si)
           else xbind lex_next (\<lambda>_. xbind (skip_comment si) (\<lambda>_. llex_loop env si f))))
       else if c = 91 then
         xbind skip_sep (\<lambda>sep.
           if sep \<ge> 0 then xbind (read_long_string True sep si) (\<lambda>si2. xret (TK_STRING, si2))
           else if sep = - 1 then xret (91, si)
           else luaX_lexerror (str ''invalid long string delimiter'') TK_STRING)
       else if c = 61 then xbind (or_equal 61 TK_EQ) (\<lambda>t. xret (t, si))
       else if c = 60 then xbind (or_equal 60 TK_LE) (\<lambda>t. xret (t, si))
       else if c = 62 then xbind (or_equal 62 TK_GE) (\<lambda>t. xret (t, si))
       else if c = 126 then xbind (or_equal 126 TK_NE) (\<lambda>t. xret (t, si))
       else if c = 34 \<or> c = 39 then xbind (read_string c) (\<lambda>s. xret (TK_STRING, SI_ts s))
       else if c = 46 then
         xbind save_and_next (\<lambda>_. xbind (check_next (str ''.'')) (\<lambda>dot2.
           if dot2 then xbind (check_next (str ''.'')) (\<lambda>dot3. xret (if dot3 then TK_DOTS else TK_CONCAT, si))
           else xbind (xget ls_current) (\<lambda>d.
             if \<not> isdigit d then xret (46, si) else xbind (read_numeral env) (\<lambda>r. xret (TK_NUMBER, SI_r r)))))
       else if c = EOZ then xret (TK_EOS, si)
       else if isspace c then xbind lex_next (\<lambda>_. llex_loop env si f)
       else if isdigit c then xbind (read_numeral env) (\<lambda>r. xret (TK_NUMBER, SI_r r))
       else if isalpha c \<or> c = 95 then read_name si
       else xbind lex_next (\<lambda>_. xret (c, si)))"

definition llex :: "LexEnv \<Rightarrow> SemInfo \<Rightarrow> (int \<times> SemInfo) lex" where
  "llex env si = xbind luaZ_resetbuffer (\<lambda>_. with_fuel (llex_loop env si))"

definition luaX_next :: "LexEnv \<Rightarrow> unit lex" where
  "luaX_next env =
     xbind (xmod (\<lambda>ls. ls\<lparr>ls_lastline := ls_linenumber ls\<rparr>)) (\<lambda>_.
     xbind (xget ls_ahead) (\<lambda>a.
       if tk_token a \<noteq> TK_EOS then xmod (\<lambda>ls. ls\<lparr>ls_t := a, ls_ahead := a\<lparr>tk_token := TK_EOS\<rparr>\<rparr>)
       else xbind (xget (\<lambda>ls. tk_seminfo (ls_t ls))) (\<lambda>si. xbind (llex env si) (\<lambda>(tok, si2).
         xmod (\<lambda>ls. ls\<lparr>ls_t := \<lparr>tk_token = tok, tk_seminfo = si2\<rparr>\<rparr>)))))"

definition luaX_lookahead :: "LexEnv \<Rightarrow> unit lex" where
  "luaX_lookahead env =
     xbind (xget (\<lambda>ls. tk_seminfo (ls_ahead ls))) (\<lambda>si. xbind (llex env si) (\<lambda>(tok, si2).
       xmod (\<lambda>ls. ls\<lparr>ls_ahead := \<lparr>tk_token = tok, tk_seminfo = si2\<rparr>\<rparr>)))"

text \<open>The table belongs to the function that the parser opens, before it reads the first token.\<close>

definition luaX_setinput :: "Table \<Rightarrow> Zio \<Rightarrow> bytes \<Rightarrow> lex_error + unit \<times> LexState" where
  "luaX_setinput h z source =
     lex_next \<lparr>ls_current = 0, ls_linenumber = 1, ls_lastline = 1, ls_t = \<lparr>tk_token = 0, tk_seminfo = SI_none\<rparr>,
       ls_ahead = \<lparr>tk_token = TK_EOS, tk_seminfo = SI_none\<rparr>, ls_h = h, ls_z = z,
       ls_buff = \<lparr>mb_bytes = [], mb_size = LUA_MINBUFFER\<rparr>, ls_source = source, ls_decpoint = 46\<rparr>"

end
