(* ===== verification/Lua_Lex_Safe.thy ===== *)
theory Lua_Lex_Safe
  imports Lua_Lex
begin

text \<open>
  The lexer on any input: it does not read behind the end of the stream, where the stream has no bytes left and its counter has wrapped
  around; it ends; and its errors are syntax errors, or the overflow of the table of strings. \<open>lex_ok\<close> is the invariant, \<open>input\<close> the text that is left, with the
  current character.
\<close>

definition input :: "LexState \<Rightarrow> bytes" where
  "input ls = (if ls_current ls = EOZ then [] else word_of_int (ls_current ls) # z_rest (ls_z ls))"

definition token_ok :: "int \<Rightarrow> bool" where
  "token_ok t \<longleftrightarrow> 0 \<le> t \<and> t \<le> TK_EOS"

definition lex_ok :: "LexState \<Rightarrow> bool" where
  "lex_ok ls \<longleftrightarrow> (ls_current ls = EOZ \<or> 0 \<le> ls_current ls \<and> ls_current ls \<le> 255 \<and> z_ok (ls_z ls)) \<and>
     length (mb_bytes (ls_buff ls)) \<le> mb_size (ls_buff ls) \<and> 0 < mb_size (ls_buff ls) \<and> wf_table (ls_h ls) \<and>
     token_ok (tk_token (ls_t ls)) \<and> token_ok (tk_token (ls_ahead ls))"

text \<open>A result as it may be: with a postcondition for the values.\<close>

fun xpost :: "('a \<Rightarrow> LexState \<Rightarrow> bool) \<Rightarrow> lex_error + 'a \<times> LexState \<Rightarrow> bool" where
  "xpost P (Inl (SyntaxError m)) = True"
| "xpost P (Inl (LexFault e)) = (\<exists>m. e = RunError m)"
| "xpost P (Inr (a, ls)) = P a ls"

definition does :: "('a \<Rightarrow> LexState \<Rightarrow> bool) \<Rightarrow> 'a lex \<Rightarrow> LexState \<Rightarrow> bool" where
  "does P m ls = xpost P (m ls)"

lemma does_bind:
  assumes "does P m ls" "\<And>a ls'. P a ls' \<Longrightarrow> does Q (f a) ls'"
  shows "does Q (xbind m f) ls"
  using assms by (cases "(P, m ls)" rule: xpost.cases) (auto simp: xbind_def does_def)

lemma does_mono: "does P m ls \<Longrightarrow> (\<And>a ls. P a ls \<Longrightarrow> Q a ls) \<Longrightarrow> does Q m ls"
  unfolding does_def by (cases "(P, m ls)" rule: xpost.cases) auto

lemma does_xret [simp]: "does P (xret a) ls = P a ls"
  by (simp add: does_def)

lemma does_xmod [simp]: "does P (xmod g) ls = P () (g ls)"
  by (simp add: does_def)

lemma does_xget [simp]: "does P (xget h) ls = P (h ls) ls"
  by (simp add: does_def)

lemma does_get [simp]: "does P (xbind (xget g) f) ls = does P (f (g ls)) ls"
  by (simp add: does_def xbind_def)

lemma does_mod [simp]: "does P (xbind (xmod g) f) ls = does P (f ()) (g ls)"
  by (simp add: does_def xbind_def)

lemma does_fuel [simp]: "does P (with_fuel m) ls = does P (m (lex_fuel ls)) ls"
  by (simp add: does_def with_fuel_def xbind_def)

lemma does_ret [simp]: "does P (xbind (xret a) f) ls = does P (f a) ls"
  by (simp add: does_def xbind_def)

text \<open>At least \<open>n\<close> characters further.\<close>

definition reads :: "nat \<Rightarrow> LexState \<Rightarrow> LexState \<Rightarrow> bool" where
  "reads n ls ls' \<longleftrightarrow> lex_ok ls' \<and> length (input ls') + n \<le> length (input ls)"

abbreviation held :: "LexState \<Rightarrow> nat" where "held ls \<equiv> length (mb_bytes (ls_buff ls))"

lemma reads_refl: "lex_ok ls \<Longrightarrow> reads 0 ls ls"
  by (simp add: reads_def)

lemma reads_trans: "reads m a b \<Longrightarrow> reads n b c \<Longrightarrow> k \<le> m + n \<Longrightarrow> reads k a c"
  by (auto simp: reads_def)

lemma reads_ok: "reads n ls ls' \<Longrightarrow> lex_ok ls'"
  by (simp add: reads_def)

lemma fuel_enough: "lex_ok ls \<Longrightarrow> length (input ls) + 1 < lex_fuel ls"
proof -
  have "length (concat (takeWhile P xs)) \<le> length (concat xs)" for P and xs :: "bytes list"
    by (induction xs) auto
  from this [of "\<lambda>b. b \<noteq> []" "z_src (ls_z ls)"] show ?thesis
    by (simp add: input_def lex_fuel_def z_rest_def)
qed

subsection \<open>One character\<close>

lemma zgetc_spec:
  assumes "z_ok z"
  shows "\<exists>c z'. zgetc z = Inr (c, z') \<and>
    (case z_rest z of [] \<Rightarrow> c = EOZ | b # bs \<Rightarrow> c = uint b \<and> z_ok z' \<and> z_rest z' = bs)"
proof (cases "z_p z")
  case Cons
  then show ?thesis using assms by (auto simp: zgetc_def z_ok_def z_rest_def)
next
  case Nil
  then show ?thesis using assms
    by (cases "z_src z"; cases "hd (z_src z)") (auto simp: zgetc_def z_ok_def z_rest_def luaZ_fill_def)
qed

lemma byte_not_EOZ: "uint (b :: byte) \<noteq> EOZ"
  using uint_ge_0 [of b] by (auto simp only: EOZ_def)

lemma byte_range: "uint (b :: byte) \<le> 255"
  using uint_lt2p [of b] by simp

lemma next_run:
  assumes ok: "lex_ok ls" and cur: "ls_current ls \<noteq> EOZ"
  obtains c' z' where "lex_next ls = Inr ((), ls\<lparr>ls_current := c', ls_z := z'\<rparr>)"
    "lex_ok (ls\<lparr>ls_current := c', ls_z := z'\<rparr>)" "input (ls\<lparr>ls_current := c', ls_z := z'\<rparr>) = tl (input ls)"
proof -
  have "z_ok (ls_z ls)" using ok cur by (simp add: lex_ok_def)
  from zgetc_spec [OF this] obtain c' z' where z: "zgetc (ls_z ls) = Inr (c', z')"
    "case z_rest (ls_z ls) of [] \<Rightarrow> c' = EOZ | b # bs \<Rightarrow> c' = uint b \<and> z_ok z' \<and> z_rest z' = bs" by blast
  show ?thesis
  proof (rule that)
    show "lex_next ls = Inr ((), ls\<lparr>ls_current := c', ls_z := z'\<rparr>)" using z(1) by (simp add: lex_next_def)
    show "lex_ok (ls\<lparr>ls_current := c', ls_z := z'\<rparr>)"
      using z(2) ok byte_range by (cases "z_rest (ls_z ls)") (auto simp: lex_ok_def)
    show "input (ls\<lparr>ls_current := c', ls_z := z'\<rparr>) = tl (input ls)"
      using z(2) cur byte_not_EOZ by (cases "z_rest (ls_z ls)") (auto simp: input_def)
  qed
qed

lemma input_Cons: "lex_ok ls \<Longrightarrow> ls_current ls \<noteq> EOZ \<Longrightarrow> input ls = word_of_int (ls_current ls) # tl (input ls)"
  by (simp add: input_def)

lemma next_safe:
  assumes "lex_ok ls" "ls_current ls \<noteq> EOZ"
  shows "does (\<lambda>_ ls'. reads 1 ls ls' \<and> held ls' = held ls) lex_next ls"
proof -
  obtain c' z' where n: "lex_next ls = Inr ((), ls\<lparr>ls_current := c', ls_z := z'\<rparr>)"
    "lex_ok (ls\<lparr>ls_current := c', ls_z := z'\<rparr>)" "input (ls\<lparr>ls_current := c', ls_z := z'\<rparr>) = tl (input ls)"
    by (rule next_run [OF assms])
  have "0 < length (input ls)" using assms(2) by (simp add: input_def)
  then show ?thesis using n by (simp add: does_def reads_def)
qed

subsection \<open>Errors and the buffer\<close>

lemma lex_place_ok: "\<exists>m. lex_place msg ls = Some m"
  by (simp add: lex_place_def str_def)

lemma lexerror_0_safe: "does P (lexerror_0 msg) ls"
  using lex_place_ok [of msg ls] by (auto simp: lexerror_0_def does_def)

lemma save_run:
  assumes "lex_ok ls"
  shows "does (\<lambda>_ ls'. lex_ok ls' \<and> ls' = ls\<lparr>ls_buff := ls_buff ls'\<rparr> \<and>
    mb_bytes (ls_buff ls') = mb_bytes (ls_buff ls) @ [word_of_int c]) (save c) ls"
  using assms lexerror_0_safe [of _ "str ''lexical element too long''" ls]
  by (auto simp: save_def put_byte_def lex_ok_def Let_def does_def)

lemma input_buff [simp]: "input (ls\<lparr>ls_buff := b\<rparr>) = input ls" "input (ls\<lparr>ls_linenumber := n\<rparr>) = input ls"
  by (simp_all add: input_def)

definition saved :: "LexState \<Rightarrow> LexState \<Rightarrow> bool" where
  "saved ls ls' \<longleftrightarrow> lex_ok ls' \<and> input ls' = input ls \<and> ls_current ls' = ls_current ls \<and> held ls' = held ls + 1"

lemma save_safe: "lex_ok ls \<Longrightarrow> does (\<lambda>_. saved ls) (save c) ls"
proof (rule does_mono [OF save_run])
  fix ls' assume "lex_ok ls' \<and> ls' = ls\<lparr>ls_buff := ls_buff ls'\<rparr> \<and> mb_bytes (ls_buff ls') = mb_bytes (ls_buff ls) @ [word_of_int c]"
  then have r: "lex_ok ls'" "ls' = ls\<lparr>ls_buff := ls_buff ls'\<rparr>" "held ls' = held ls + 1" by simp_all
  have "input ls' = input ls" "ls_current ls' = ls_current ls" by (subst r(2), simp)+
  with r(1,3) show "saved ls ls'" by (simp add: saved_def)
qed

lemma save_and_next_safe:
  assumes "lex_ok ls" "ls_current ls \<noteq> EOZ"
  shows "does (\<lambda>_ ls'. reads 1 ls ls' \<and> held ls' = held ls + 1) save_and_next ls"
  unfolding save_and_next_def does_get
proof (rule does_bind [OF save_safe [OF assms(1)]])
  fix a ls1 assume s: "saved ls ls1"
  show "does (\<lambda>_ ls'. reads 1 ls ls' \<and> held ls' = held ls + 1) lex_next ls1"
    by (rule does_mono [OF next_safe]) (use s assms(2) in \<open>auto simp: saved_def reads_def\<close>)
qed

lemma token2str_ok: "token_ok t \<Longrightarrow> \<exists>s. luaX_token2str t = Some s"
  by (auto simp: token_ok_def luaX_token2str_def luaX_tokens_def token_defs str_def)

lemma lexerror_safe:
  assumes "lex_ok ls" "token_ok t"
  shows "does P (luaX_lexerror msg t) ls"
proof (cases "t = 0")
  case True
  then show ?thesis using lexerror_0_safe by (simp add: luaX_lexerror_def)
next
  case False
  obtain place where p: "lex_place msg ls = Some place" using lex_place_ok by blast
  have t: "does (\<lambda>_ _. True) (txtToken t) ls"
  proof (cases "t = TK_NAME \<or> t = TK_STRING \<or> t = TK_NUMBER")
    case True
    show ?thesis unfolding txtToken_def if_P [OF True] by (rule does_bind [OF save_safe [OF assms(1)]]) simp
  next
    case False
    then show ?thesis using token2str_ok [OF assms(2)] by (auto simp: txtToken_def)
  qed
  have m: "\<exists>m'. luaO_pushvfstring (str ''%s near '' @ quoted ''%s'') [FStr (Some place), FStr (Some tok)] = Some m'" for tok
    by (simp add: str_def quoted_def)
  show ?thesis unfolding luaX_lexerror_def if_not_P [OF False] does_get p option.case
  proof (rule does_bind [OF t])
    fix tok ls' show "does P (\<lambda>ls. case luaO_pushvfstring (str ''%s near '' @ quoted ''%s'') [FStr (Some place), FStr (Some tok)] of
        None \<Rightarrow> Inl (LexFault Crash) | Some m' \<Rightarrow> Inl (SyntaxError m')) ls'"
      using m [of tok] by (auto simp: does_def)
  qed
qed

lemma tokens_ok [simp]: "token_ok TK_EOS" "token_ok TK_STRING" "token_ok TK_NUMBER" "token_ok TK_NAME" "token_ok 91"
  by (simp_all add: token_ok_def token_defs)

lemma reset_safe: "lex_ok ls \<Longrightarrow> does (\<lambda>_ ls'. lex_ok ls' \<and> input ls' = input ls \<and> ls_current ls' = ls_current ls \<and> held ls' = 0) luaZ_resetbuffer ls"
  by (simp add: luaZ_resetbuffer_def lex_ok_def)

lemma newline_not_EOZ: "newline c \<Longrightarrow> c \<noteq> EOZ"
  by (auto simp: newline_def EOZ_def)

lemma inclinenumber_safe:
  assumes ok: "lex_ok ls" and nl: "newline (ls_current ls)"
  shows "does (\<lambda>_ ls'. reads 1 ls ls' \<and> held ls' = held ls) inclinenumber ls"
  unfolding inclinenumber_def does_get
proof (rule does_bind [OF next_safe [OF ok newline_not_EOZ [OF nl]]])
  fix a ls1 assume r1: "reads 1 ls ls1 \<and> held ls1 = held ls"
  then have ok1: "lex_ok ls1" by (simp add: reads_def)
  have two: "does (\<lambda>_ ls'. reads 0 ls1 ls' \<and> held ls' = held ls1)
      (if newline (ls_current ls1) \<and> ls_current ls1 \<noteq> ls_current ls then lex_next else xret ()) ls1"
  proof (cases "newline (ls_current ls1) \<and> ls_current ls1 \<noteq> ls_current ls")
    case True
    then have "ls_current ls1 \<noteq> EOZ" by (simp add: newline_not_EOZ)
    then show ?thesis unfolding if_P [OF True] by (rule does_mono [OF next_safe [OF ok1]]) (simp add: reads_def)
  next
    case False
    show ?thesis unfolding if_not_P [OF False] using reads_refl [OF ok1] by simp
  qed
  show "does (\<lambda>_ ls'. reads 1 ls ls' \<and> held ls' = held ls) (xbind (xget ls_current) (\<lambda>c.
     xbind (if newline c \<and> c \<noteq> ls_current ls then lex_next else xret ()) (\<lambda>_.
     xbind (xmod (\<lambda>ls. ls\<lparr>ls_linenumber := ls_linenumber ls + 1\<rparr>)) (\<lambda>_.
     xbind (xget ls_linenumber) (\<lambda>n. if n \<ge> int MAX_INT then luaX_syntaxerror (str ''chunk has too many lines'') else xret ()))))) ls1"
    unfolding does_get
  proof (rule does_bind [OF two])
    fix b ls2 assume r2: "reads 0 ls1 ls2 \<and> held ls2 = held ls1"
    let ?ls3 = "ls2\<lparr>ls_linenumber := ls_linenumber ls2 + 1\<rparr>"
    have ok3: "lex_ok ?ls3" using r2 by (simp add: reads_def lex_ok_def)
    then have "does P (luaX_syntaxerror (str ''chunk has too many lines'')) ?ls3" for P :: "unit \<Rightarrow> LexState \<Rightarrow> bool"
      unfolding luaX_syntaxerror_def does_get by (rule lexerror_safe) (use ok3 in \<open>simp add: lex_ok_def\<close>)
    moreover have "reads 1 ls ?ls3 \<and> held ?ls3 = held ls" using r1 r2 ok3 by (simp add: reads_def)
    ultimately show "does (\<lambda>_ ls'. reads 1 ls ls' \<and> held ls' = held ls) (xbind (xmod (\<lambda>ls. ls\<lparr>ls_linenumber := ls_linenumber ls + 1\<rparr>)) (\<lambda>_.
       xbind (xget ls_linenumber) (\<lambda>n. if n \<ge> int MAX_INT then luaX_syntaxerror (str ''chunk has too many lines'') else xret ()))) ls2"
      by simp
  qed
qed

subsection \<open>Strings that the function keeps\<close>

lemma slot_set_same [simp]: "slot_set t s (slot_val t s) = t"
proof (cases s)
  case (SArray i)
  then show ?thesis by simp
next
  case (SNode i)
  then show ?thesis by (cases "t_node t") (simp_all add: upd_node_def gnode_def nodes_def)
qed

lemma luaH_setstr_spec:
  assumes wf: "wf_table t"
  obtains t' s where "luaH_setstr t b = Inr (t', s)" "wf_table t'" "\<And>v. wf_table (slot_set t' s v)"
  | "luaH_setstr t b = Inl (RunError (str ''table overflow''))" "2 ^ 26 \<le> live_count t"
proof -
  let ?k = "LString b"
  have k: "valid_key ?k" by simp
  have g: "luaH_getstr t b = Inr (find_key t ?k)" using luaH_get_find [OF wf k] by simp
  show ?thesis
  proof (cases "find_key t ?k")
    case (Some s)
    have "wf_table (slot_set t s v)" for v using slot_set_spec [OF wf k Some, where v = v] by simp
    then show ?thesis using that(1) [of t s] Some g wf by (simp add: luaH_setstr_def luaH_setstr_with_def)
  next
    case None
    then have eq: "luaH_setstr t b = newkey (grow 1) t ?k" using g by (simp add: luaH_setstr_def luaH_setstr_with_def)
    show ?thesis
    proof (cases rule: newkey_grow [OF wf k None, where v = LNil])
      case (1 t' s)
      have w: "wf_table (slot_set t' s v)" for v
        by (cases rule: newkey_grow [OF wf k None, where v = v]) (use 1(1) in \<open>auto simp: assigned_def\<close>)
      then have "wf_table t'" using w [of "slot_val t' s"] by simp
      with w show ?thesis using that(1) [of t' s] 1(1) eq by simp
    qed (use eq that(2) in simp)
  qed
qed

lemma newstring_safe:
  assumes "lex_ok ls"
  shows "does (\<lambda>r ls'. r = s \<and> lex_ok ls' \<and> input ls' = input ls \<and> ls_current ls' = ls_current ls) (luaX_newstring s) ls"
proof -
  have wf: "wf_table (ls_h ls)" using assms by (simp add: lex_ok_def)
  show ?thesis
    by (cases rule: luaH_setstr_spec [OF wf, of s])
      (use assms in \<open>simp_all add: luaX_newstring_def does_def lex_ok_def input_def\<close>)
qed

lemma take_token_safe:
  assumes "lex_ok ls" "around \<le> held ls"
  shows "does (\<lambda>_. reads 0 ls) (take_token before around) ls"
proof -
  have "does (\<lambda>_. reads 0 ls) (luaX_newstring s) ls" for s
    by (rule does_mono [OF newstring_safe [OF assms(1)]]) (simp add: reads_def)
  then show ?thesis using assms(2) by (simp add: take_token_def does_def Let_def)
qed

subsection \<open>Loops\<close>

definition env_ok :: "LexEnv \<Rightarrow> bool" where
  "env_ok env \<longleftrightarrow> (\<forall>s. 0 \<notin> set s \<longrightarrow> snd (le_strtod env s) \<le> length s \<and> snd (le_strtoul env s) \<le> length s)"

lemma save_while_safe:
  assumes "\<not> P EOZ"
  shows "lex_ok ls \<Longrightarrow> length (input ls) < f \<Longrightarrow> does (\<lambda>_ ls'. reads 0 ls ls' \<and> held ls \<le> held ls') (save_while P f) ls"
proof (induction f arbitrary: ls)
  case (Suc f)
  show ?case
  proof (cases "P (ls_current ls)")
    case True
    then have c: "ls_current ls \<noteq> EOZ" using assms by auto
    show ?thesis unfolding save_while.simps does_get if_P [OF True]
    proof (rule does_bind [OF save_and_next_safe [OF Suc.prems(1) c]])
      fix a ls1 assume r: "reads 1 ls ls1 \<and> held ls1 = held ls + 1"
      show "does (\<lambda>_ ls'. reads 0 ls ls' \<and> held ls \<le> held ls') (save_while P f) ls1"
        by (rule does_mono [OF Suc.IH]) (use r Suc.prems(2) in \<open>auto simp: reads_def\<close>)
    qed
  next
    case False
    show ?thesis unfolding save_while.simps does_get if_not_P [OF False] using reads_refl [OF Suc.prems(1)] by simp
  qed
qed simp

lemma check_next_safe:
  assumes "lex_ok ls" "255 \<notin> set s"
  shows "does (\<lambda>_ ls'. reads 0 ls ls' \<and> held ls \<le> held ls') (check_next s) ls"
proof (cases "(word_of_int (ls_current ls) :: byte) \<in> set s \<or> (word_of_int (ls_current ls) :: byte) = 0")
  case True
  have "(word_of_int EOZ :: byte) = 255" by (simp add: EOZ_def)
  then have "ls_current ls \<noteq> EOZ" using True assms(2) by auto
  note sn = save_and_next_safe [OF assms(1) this]
  show ?thesis unfolding check_next_def does_get if_P [OF True]
    by (rule does_bind [OF sn]) (simp add: reads_def)
qed (use reads_refl [OF assms(1)] in \<open>simp add: check_next_def\<close>)

lemma str2d_ok:
  assumes "env_ok env" "0 \<notin> set s"
  shows "\<exists>r. luaO_str2d env s = Inr r"
proof -
  have len: "snd (le_strtod env s) \<le> length s" "snd (le_strtoul env s) \<le> length s" using assms by (auto simp: env_ok_def)
  have skip: "skip_space s p \<le> length s" if "p \<le> length s" for p
    using that length_takeWhile_le [of "\<lambda>c. isspace (uint c)" "drop p s"] by (simp add: skip_space_def)
  obtain r p where d: "le_strtod env s = (r, p)" by (cases "le_strtod env s")
  obtain u q where u: "le_strtoul env s = (u, q)" by (cases "le_strtoul env s")
  obtain x where x: "chr s p = Inr x" using chr_ok [of p s] len(1) d by auto
  define e where "e = (if x = 120 \<or> x = 88 then q else p)"
  have e: "e \<le> length s" using len d u by (simp add: e_def)
  obtain c where c: "chr s e = Inr c" using chr_ok [OF e] by auto
  obtain y where y: "chr s (skip_space s e) = Inr y" using chr_ok [OF skip [OF e]] by auto
  show ?thesis using d u x c y by (auto simp: luaO_str2d_def e_def Let_def split: if_splits)
qed

lemma c_str_nonzero: "0 \<notin> set (c_str b)"
  by (auto simp: c_str_def dest: set_takeWhileD)

lemma lex_str2d_safe: "env_ok env \<Longrightarrow> does (\<lambda>_ ls'. ls' = ls) (lex_str2d env) ls"
  using str2d_ok [of env "c_str (mb_bytes (ls_buff ls))"] c_str_nonzero by (auto simp: lex_str2d_def does_def)

lemma buffreplace_safe: "lex_ok ls \<Longrightarrow> does (\<lambda>_. reads 0 ls) (buffreplace a b) ls"
  by (simp add: buffreplace_def reads_def lex_ok_def)

lemma trydecpoint_safe:
  assumes ok: "lex_ok ls" and env: "env_ok env"
  shows "does (\<lambda>_. reads 0 ls) (trydecpoint env) ls"
proof -
  let ?ls1 = "ls\<lparr>ls_decpoint := le_decpoint env\<rparr>"
  have 1: "reads 0 ls ?ls1" using ok by (simp add: reads_def lex_ok_def input_def)
  note rt = reads_trans [where k = 0, OF _ _ le0]
  show ?thesis unfolding trydecpoint_def does_get does_mod
  proof (rule does_bind [OF buffreplace_safe [OF reads_ok [OF 1]]], rule does_bind [OF lex_str2d_safe [OF env]])
    fix a ls2 r ls3 assume 2: "reads 0 ?ls1 ls2" and 3: "ls3 = ls2"
    show "does (\<lambda>_. reads 0 ls) (case r of Some x \<Rightarrow> xret x
        | None \<Rightarrow> xbind (buffreplace (le_decpoint env) 46) (\<lambda>_. luaX_lexerror (str ''malformed number'') TK_NUMBER)) ls3"
    proof (cases r)
      case None
      have "does (\<lambda>_. reads 0 ls) (xbind (buffreplace (le_decpoint env) 46) (\<lambda>_. luaX_lexerror (str ''malformed number'') TK_NUMBER)) ls2"
        by (rule does_bind [OF buffreplace_safe [OF reads_ok [OF 2]]]) (auto intro: lexerror_safe dest: reads_ok)
      then show ?thesis using None 3 by simp
    qed (use 3 rt [OF 1 2] in simp)
  qed
qed

text \<open>Sequences: \<open>n\<close> characters further, and if \<open>k\<close> then \<open>g\<close> more in the buffer.\<close>

definition wentk :: "bool \<Rightarrow> nat \<Rightarrow> nat \<Rightarrow> LexState \<Rightarrow> LexState \<Rightarrow> bool" where
  "wentk k n g ls ls' \<longleftrightarrow> reads n ls ls' \<and> (k \<longrightarrow> held ls + g \<le> held ls')"

abbreviation went :: "nat \<Rightarrow> nat \<Rightarrow> LexState \<Rightarrow> LexState \<Rightarrow> bool" where "went \<equiv> wentk True"

lemmas went_def = wentk_def

lemma went_ok: "wentk k n g ls ls' \<Longrightarrow> lex_ok ls'"
  by (simp add: went_def reads_def)

lemma went_refl: "lex_ok ls \<Longrightarrow> wentk k 0 0 ls ls"
  by (simp add: went_def reads_def)

lemma went_weaken: "does (\<lambda>_. wentk k n g ls) m ls \<Longrightarrow> n' \<le> n \<Longrightarrow> g' \<le> g \<Longrightarrow> does (\<lambda>_. wentk k n' g' ls) m ls"
  by (erule does_mono) (auto simp: went_def reads_def)

lemma went_bind:
  assumes "does (\<lambda>_. wentk k m g ls) p ls" "\<And>a ls1. wentk k m g ls ls1 \<Longrightarrow> does (\<lambda>_. wentk k n h ls1) (f a) ls1"
    "n' \<le> m + n" "g' \<le> g + h"
  shows "does (\<lambda>_. wentk k n' g' ls) (xbind p f) ls"
proof (rule does_bind [OF assms(1)])
  fix a ls1 assume w: "wentk k m g ls ls1"
  show "does (\<lambda>_. wentk k n' g' ls) (f a) ls1"
    by (rule does_mono [OF assms(2) [OF w]]) (use w assms(3,4) in \<open>auto simp: went_def reads_def\<close>)
qed

lemma went_any: "does (\<lambda>_. went n g ls) m ls \<Longrightarrow> does (\<lambda>_. wentk k n g ls) m ls"
  by (erule does_mono) (simp add: went_def)

lemma went_reads: "does (\<lambda>_. wentk k n g ls) m ls \<Longrightarrow> does (\<lambda>_. reads n ls) m ls"
  by (erule does_mono) (simp add: went_def)

lemma reads_bind:
  assumes "does (\<lambda>_. reads m ls) p ls" "\<And>a ls1. reads m ls ls1 \<Longrightarrow> does (\<lambda>_. reads n ls1) (f a) ls1" "n' \<le> m + n"
  shows "does (\<lambda>_. reads n' ls) (xbind p f) ls"
proof (rule does_bind [OF assms(1)])
  fix a ls1 assume w: "reads m ls ls1"
  show "does (\<lambda>_. reads n' ls) (f a) ls1"
    by (rule does_mono [OF assms(2) [OF w]]) (use w assms(3) in \<open>auto simp: reads_def\<close>)
qed

lemma save_and_next_went: "lex_ok ls \<Longrightarrow> ls_current ls \<noteq> EOZ \<Longrightarrow> does (\<lambda>_. went 1 1 ls) save_and_next ls"
  by (rule does_mono [OF save_and_next_safe]) (simp_all add: went_def)

lemma next_went: "lex_ok ls \<Longrightarrow> ls_current ls \<noteq> EOZ \<Longrightarrow> does (\<lambda>_. went 1 0 ls) lex_next ls"
  by (rule does_mono [OF next_safe]) (simp_all add: went_def)

lemma save_went: "lex_ok ls \<Longrightarrow> does (\<lambda>_. went 0 1 ls) (save c) ls"
  by (rule does_mono [OF save_safe]) (simp_all add: went_def saved_def reads_def)

lemma inclinenumber_went: "lex_ok ls \<Longrightarrow> newline (ls_current ls) \<Longrightarrow> does (\<lambda>_. went 1 0 ls) inclinenumber ls"
  by (rule does_mono [OF inclinenumber_safe]) (simp_all add: went_def)

lemma fuel_gt: "lex_ok ls \<Longrightarrow> length (input ls) < lex_fuel ls"
  using fuel_enough by fastforce

lemma save_while_went: "\<not> P EOZ \<Longrightarrow> lex_ok ls \<Longrightarrow> does (\<lambda>_. went 0 0 ls) (with_fuel (save_while P)) ls"
  unfolding does_fuel by (rule does_mono [OF save_while_safe]) (auto simp: went_def fuel_gt)

lemma check_next_went: "lex_ok ls \<Longrightarrow> 255 \<notin> set s \<Longrightarrow> does (\<lambda>_. went 0 0 ls) (check_next s) ls"
  by (rule does_mono [OF check_next_safe]) (auto simp: went_def)

lemma digit_not_EOZ: "\<not> isdigit EOZ" "\<not> isalnum EOZ" "\<not> is_name_char EOZ" "\<not> isspace EOZ"
  by (simp_all add: EOZ_def ctype_defs is_name_char_def)

lemma read_numeral_safe:
  assumes ok: "lex_ok ls" and c: "ls_current ls \<noteq> EOZ" and env: "env_ok env"
  shows "does (\<lambda>_. reads 1 ls) (read_numeral env) ls"
  unfolding read_numeral_def
proof (rule reads_bind [OF went_reads [OF save_and_next_went [OF ok c]]])
  fix a ls1 assume "reads 1 ls ls1"
  then have ok1: "lex_ok ls1" by (rule reads_ok)
  let ?rest = "xbind (save 0) (\<lambda>_. xbind (xget ls_decpoint) (\<lambda>d. xbind (buffreplace 46 d) (\<lambda>_.
     xbind (lex_str2d env) (\<lambda>r. case r of Some x \<Rightarrow> xret x | None \<Rightarrow> trydecpoint env))))"
  have rest: "does (\<lambda>_. reads 0 l) ?rest l" if "lex_ok l" for l
  proof (rule reads_bind [OF went_reads [OF save_went [OF that]]])
    fix b l1 assume "reads 0 l l1"
    then have o1: "lex_ok l1" by (rule reads_ok)
    show "does (\<lambda>_. reads 0 l1) (xbind (xget ls_decpoint) (\<lambda>d. xbind (buffreplace 46 d) (\<lambda>_.
       xbind (lex_str2d env) (\<lambda>r. case r of Some x \<Rightarrow> xret x | None \<Rightarrow> trydecpoint env)))) l1"
      unfolding does_get
    proof (rule reads_bind [OF buffreplace_safe [OF o1]], rule does_bind [OF lex_str2d_safe [OF env]])
      fix a' l2 r l3 assume "reads 0 l1 l2" "l3 = l2"
      then show "does (\<lambda>_. reads 0 l2) (case r of Some x \<Rightarrow> xret x | None \<Rightarrow> trydecpoint env) l3"
        using trydecpoint_safe [OF _ env, of l2] by (auto simp: reads_def split: option.split)
    qed simp
  qed simp
  show "does (\<lambda>_. reads 0 ls1) (xbind (with_fuel (save_while (\<lambda>c. isdigit c \<or> c = 46))) (\<lambda>_.
     xbind (check_next (str ''Ee'')) (\<lambda>e. xbind (if e then xbind (check_next (str ''+-'')) (\<lambda>_. xret ()) else xret ()) (\<lambda>_.
     xbind (with_fuel (save_while (\<lambda>c. isalnum c \<or> c = 95))) (\<lambda>_. ?rest))))) ls1"
  proof (rule reads_bind [OF went_reads [OF save_while_went [OF _ ok1]]])
    fix b ls2 assume "reads 0 ls1 ls2"
    then have ok2: "lex_ok ls2" by (rule reads_ok)
    show "does (\<lambda>_. reads 0 ls2) (xbind (check_next (str ''Ee'')) (\<lambda>e.
       xbind (if e then xbind (check_next (str ''+-'')) (\<lambda>_. xret ()) else xret ()) (\<lambda>_.
       xbind (with_fuel (save_while (\<lambda>c. isalnum c \<or> c = 95))) (\<lambda>_. ?rest)))) ls2"
    proof (rule reads_bind [OF went_reads [OF check_next_went [OF ok2]]])
      fix e ls3 assume "reads 0 ls2 ls3"
      then have ok3: "lex_ok ls3" by (rule reads_ok)
      have sign: "does (\<lambda>_. reads 0 ls3) (xbind (check_next (str ''+-'')) (\<lambda>_. xret ())) ls3"
        by (rule reads_bind [OF went_reads [OF check_next_went [OF ok3]]]) (auto simp: reads_def str_def)
      show "does (\<lambda>_. reads 0 ls3) (xbind (if e then xbind (check_next (str ''+-'')) (\<lambda>_. xret ()) else xret ()) (\<lambda>_.
         xbind (with_fuel (save_while (\<lambda>c. isalnum c \<or> c = 95))) (\<lambda>_. ?rest))) ls3"
      proof (rule reads_bind [where m = 0])
        show "does (\<lambda>_. reads 0 ls3) (if e then xbind (check_next (str ''+-'')) (\<lambda>_. xret ()) else xret ()) ls3"
          using sign reads_refl [OF ok3] by simp
        fix a ls4 assume "reads 0 ls3 ls4"
        then have ok4: "lex_ok ls4" by (rule reads_ok)
        show "does (\<lambda>_. reads 0 ls4) (xbind (with_fuel (save_while (\<lambda>c. isalnum c \<or> c = 95))) (\<lambda>_. ?rest)) ls4"
          by (rule reads_bind [OF went_reads [OF save_while_went [OF _ ok4]]]) (auto simp: digit_not_EOZ EOZ_def ctype_defs intro: rest dest: reads_ok)
      qed simp
    qed (simp_all add: str_def)
  qed (simp_all add: EOZ_def isdigit_def)
qed simp

subsection \<open>Strings and comments\<close>

lemma sep_loop_safe:
  "lex_ok ls \<Longrightarrow> length (input ls) < f \<Longrightarrow> 0 \<le> n \<Longrightarrow> n + int (length (input ls)) < 2 ^ 31 \<Longrightarrow>
    does (\<lambda>r ls'. n \<le> r \<and> went 0 (nat (r - n)) ls ls') (sep_loop f n) ls"
proof (induction f arbitrary: ls n)
  case (Suc f)
  show ?case
  proof (cases "ls_current ls = 61")
    case True
    then have c: "ls_current ls \<noteq> EOZ" by (simp add: EOZ_def)
    show ?thesis unfolding sep_loop.simps does_get if_P [OF True]
    proof (rule does_bind [OF save_and_next_went [OF Suc.prems(1) c]])
      fix a ls1 assume w: "went 1 1 ls ls1"
      then have l: "length (input ls1) < f" "(n + 1) + int (length (input ls1)) < 2 ^ 31" "n \<noteq> 2 ^ 31 - 1"
        using Suc.prems(2-4) by (auto simp: went_def reads_def)
      have "does (\<lambda>r ls'. n + 1 \<le> r \<and> went 0 (nat (r - (n + 1))) ls1 ls') (sep_loop f (n + 1)) ls1"
        by (rule Suc.IH [OF went_ok [OF w]]) (use l Suc.prems(3) in auto)
      then have "does (\<lambda>r ls'. n \<le> r \<and> went 0 (nat (r - n)) ls ls') (sep_loop f (n + 1)) ls1"
        by (rule does_mono) (use w in \<open>auto simp: went_def reads_def\<close>)
      then show "does (\<lambda>r ls'. n \<le> r \<and> went 0 (nat (r - n)) ls ls') (if n = 2 ^ 31 - 1 then xfault Crash else sep_loop f (n + 1)) ls1"
        using l(3) by simp
    qed
  next
    case False
    show ?thesis unfolding sep_loop.simps does_get if_not_P [OF False] using went_refl [OF Suc.prems(1)] by simp
  qed
qed simp

lemma skip_sep_safe:
  assumes ok: "lex_ok ls" and c: "ls_current ls \<noteq> EOZ" and len: "length (input ls) < 2 ^ 31"
  shows "does (\<lambda>r ls'. went 1 1 ls ls' \<and> (0 \<le> r \<longrightarrow> went 1 (1 + nat r) ls ls' \<and> ls_current ls' = ls_current ls)) skip_sep ls"
  unfolding skip_sep_def does_get
proof (rule does_bind [OF save_and_next_went [OF ok c]])
  fix a ls1 assume w: "went 1 1 ls ls1"
  have "does (\<lambda>r ls'. 0 \<le> r \<and> went 0 (nat (r - 0)) ls1 ls') (with_fuel (\<lambda>f. sep_loop f 0)) ls1"
    unfolding does_fuel
    by (rule sep_loop_safe) (use went_ok [OF w] fuel_gt len w in \<open>auto simp: went_def reads_def\<close>)
  then show "does (\<lambda>r ls'. went 1 1 ls ls' \<and> (0 \<le> r \<longrightarrow> went 1 (1 + nat r) ls ls' \<and> ls_current ls' = ls_current ls))
      (xbind (with_fuel (\<lambda>f. sep_loop f 0)) (\<lambda>n. xget (\<lambda>l. if ls_current l = ls_current ls then n else - n - 1))) ls1"
    by (rule does_bind) (use w in \<open>auto simp: went_def reads_def\<close>)
qed

lemma long_loop_safe:
  assumes "0 \<le> sep"
  shows "lex_ok ls \<Longrightarrow> length (input ls) < f \<Longrightarrow> length (input ls) < 2 ^ 31 \<Longrightarrow>
    does (\<lambda>_. wentk keep 0 (2 + nat sep) ls) (long_loop keep sep f) ls"
proof (induction f arbitrary: ls)
  case (Suc f)
  let ?P = "\<lambda>_. wentk keep 0 (2 + nat sep) ls" and ?c = "ls_current ls"
  have go: "does (\<lambda>_. wentk keep 0 (2 + nat sep) ls1) (long_loop keep sep f) ls1" if "wentk k 1 g ls ls1" for k g ls1
    by (rule Suc.IH) (use that Suc.prems(2,3) in \<open>auto simp: went_def reads_def\<close>)
  show ?case
  proof (cases "?c = EOZ")
    case True
    show ?thesis unfolding long_loop.simps does_get if_P [OF True] by (rule lexerror_safe [OF Suc.prems(1)]) simp
  next
    case c: False
    note sep = skip_sep_safe [OF Suc.prems(1) c Suc.prems(3)]
    consider "?c = 91" | "?c = 93" | "newline ?c" "?c \<noteq> 91" "?c \<noteq> 93" | "\<not> newline ?c" "?c \<noteq> 91" "?c \<noteq> 93" by blast
    then show ?thesis
    proof cases
      case 1
      have "does ?P (xbind skip_sep (\<lambda>n. if n = sep then xbind save_and_next (\<lambda>_.
          if sep = 0 then luaX_lexerror (str ''nesting of [[...]] is deprecated'') 91 else long_loop keep sep f) else long_loop keep sep f)) ls"
      proof (rule does_bind [OF sep])
        fix n ls1 assume w: "went 1 1 ls ls1 \<and> (0 \<le> n \<longrightarrow> went 1 (1 + nat n) ls ls1 \<and> ls_current ls1 = ?c)"
        then have w1: "wentk keep 1 1 ls ls1" "lex_ok ls1" by (auto simp: went_def reads_def)
        have other: "does ?P (long_loop keep sep f) ls2" if "wentk keep 1 1 ls ls2" for ls2
          by (rule does_mono [OF go [OF that]]) (use that in \<open>auto simp: went_def reads_def\<close>)
        have "does ?P (xbind save_and_next (\<lambda>_.
          if sep = 0 then luaX_lexerror (str ''nesting of [[...]] is deprecated'') 91 else long_loop keep sep f)) ls1" if "n = sep"
        proof (rule does_bind [OF save_and_next_went [OF w1(2)]])
          show "ls_current ls1 \<noteq> EOZ" using w that assms c by auto
          fix b ls2 assume "went 1 1 ls1 ls2"
          then have "wentk keep 1 1 ls ls2" "lex_ok ls2" using w1 by (auto simp: went_def reads_def)
          then show "does ?P (if sep = 0 then luaX_lexerror (str ''nesting of [[...]] is deprecated'') 91 else long_loop keep sep f) ls2"
            using other by (simp add: lexerror_safe)
        qed
        then show "does ?P (if n = sep then xbind save_and_next (\<lambda>_.
          if sep = 0 then luaX_lexerror (str ''nesting of [[...]] is deprecated'') 91 else long_loop keep sep f) else long_loop keep sep f) ls1"
          using other [OF w1(1)] by simp
      qed
      then show ?thesis unfolding long_loop.simps does_get using 1 c by simp
    next
      case 2
      have "does ?P (xbind skip_sep (\<lambda>n. if n = sep then save_and_next else long_loop keep sep f)) ls"
      proof (rule does_bind [OF sep])
        fix n ls1 assume w: "went 1 1 ls ls1 \<and> (0 \<le> n \<longrightarrow> went 1 (1 + nat n) ls ls1 \<and> ls_current ls1 = ?c)"
        then have w1: "wentk keep 1 1 ls ls1" "lex_ok ls1" by (auto simp: went_def reads_def)
        have "does ?P save_and_next ls1" if "n = sep"
          by (rule does_mono [OF save_and_next_went [OF w1(2)]]) (use w that assms c in \<open>auto simp: went_def reads_def\<close>)
        moreover have "does ?P (long_loop keep sep f) ls1"
          by (rule does_mono [OF go [OF w1(1)]]) (use w1 in \<open>auto simp: went_def reads_def\<close>)
        ultimately show "does ?P (if n = sep then save_and_next else long_loop keep sep f) ls1" by simp
      qed
      then show ?thesis unfolding long_loop.simps does_get using 2 c by simp
    next
      case 3
      have reset: "does (\<lambda>_. wentk keep 0 0 l) (if keep then xret () else luaZ_resetbuffer) l" if "lex_ok l" for l
        by (cases keep) (use went_refl [OF that] reset_safe [OF that] in \<open>auto simp: went_def reads_def elim: does_mono\<close>)
      have "does ?P (xseq [save 10, inclinenumber, if keep then xret () else luaZ_resetbuffer, long_loop keep sep f]) ls"
        unfolding xseq.simps
      proof (rule does_bind [OF save_safe [OF Suc.prems(1)]])
        fix a ls1 assume s: "saved ls ls1"
        then have i: "does (\<lambda>_. went 1 0 ls1) inclinenumber ls1" using inclinenumber_went [of ls1] 3 by (simp add: saved_def)
        show "does ?P (xbind inclinenumber (\<lambda>_. xbind (if keep then xret () else luaZ_resetbuffer) (\<lambda>_. xbind (long_loop keep sep f) (\<lambda>_. xret ())))) ls1"
        proof (rule does_bind [OF i])
          fix b ls2 assume w2: "went 1 0 ls1 ls2"
          show "does ?P (xbind (if keep then xret () else luaZ_resetbuffer) (\<lambda>_. xbind (long_loop keep sep f) (\<lambda>_. xret ()))) ls2"
          proof (rule does_bind [OF reset [OF went_ok [OF w2]]])
            fix d ls3 assume "wentk keep 0 0 ls2 ls3"
            then have w3: "wentk keep 1 1 ls ls3" using s w2 by (auto simp: went_def reads_def saved_def)
            show "does ?P (xbind (long_loop keep sep f) (\<lambda>_. xret ())) ls3"
              by (rule does_bind [OF go [OF w3]]) (use w3 in \<open>auto simp: went_def reads_def\<close>)
          qed
        qed
      qed
      then show ?thesis unfolding long_loop.simps does_get using 3 c by simp
    next
      case 4
      have step: "does (\<lambda>_. wentk keep 1 0 ls) (if keep then save_and_next else lex_next) ls"
        using save_and_next_went [OF Suc.prems(1) c] next_went [OF Suc.prems(1) c]
        by (cases keep) (auto intro: went_any elim: went_weaken)
      have "does ?P (xseq [if keep then save_and_next else lex_next, long_loop keep sep f]) ls"
        unfolding xseq.simps
      proof (rule does_bind [OF step])
        fix a ls1 assume w: "wentk keep 1 0 ls ls1"
        show "does ?P (xbind (long_loop keep sep f) (\<lambda>_. xret ())) ls1"
          by (rule does_bind [OF go [OF w]]) (use w in \<open>auto simp: went_def reads_def\<close>)
      qed
      then show ?thesis unfolding long_loop.simps does_get using 4 c by simp
    qed
  qed
qed simp

lemma read_long_string_safe:
  assumes ok: "lex_ok ls" and c: "ls_current ls \<noteq> EOZ" and len: "length (input ls) < 2 ^ 31" and sep: "0 \<le> sep"
    and held: "keep \<Longrightarrow> 1 + nat sep \<le> held ls"
  shows "does (\<lambda>_. reads 1 ls) (read_long_string keep sep si) ls"
  unfolding read_long_string_def
proof (rule does_bind [OF save_and_next_went [OF ok c]])
  fix a ls1 assume w1: "went 1 1 ls ls1"
  have nl: "does (\<lambda>_. went 0 0 ls1) (if newline (ls_current ls1) then inclinenumber else xret ()) ls1"
    using inclinenumber_went [OF went_ok [OF w1]] went_refl [OF went_ok [OF w1]] by (auto elim: went_weaken)
  show "does (\<lambda>_. reads 1 ls) (xbind (xget ls_current) (\<lambda>c. xbind (if newline c then inclinenumber else xret ()) (\<lambda>_.
     xbind (with_fuel (long_loop keep sep)) (\<lambda>_.
       if keep then xbind (take_token (2 + nat sep) (2 * (2 + nat sep))) (\<lambda>s. xret (SI_ts s)) else xret si)))) ls1"
    unfolding does_get
  proof (rule does_bind [OF nl])
    fix b ls2 assume w2: "went 0 0 ls1 ls2"
    have loop: "does (\<lambda>_. wentk keep 0 (2 + nat sep) ls2) (with_fuel (long_loop keep sep)) ls2"
      unfolding does_fuel
      by (rule long_loop_safe [OF sep went_ok [OF w2] fuel_gt [OF went_ok [OF w2]]]) (use len w1 w2 in \<open>auto simp: went_def reads_def\<close>)
    show "does (\<lambda>_. reads 1 ls) (xbind (with_fuel (long_loop keep sep)) (\<lambda>_.
       if keep then xbind (take_token (2 + nat sep) (2 * (2 + nat sep))) (\<lambda>s. xret (SI_ts s)) else xret si)) ls2"
    proof (rule does_bind [OF loop])
      fix d ls3 assume w3: "wentk keep 0 (2 + nat sep) ls2 ls3"
      then have r: "reads 1 ls ls3" using w1 w2 by (auto simp: went_def reads_def)
      have "does (\<lambda>_. reads 1 ls) (xbind (take_token (2 + nat sep) (2 * (2 + nat sep))) (\<lambda>s. xret (SI_ts s))) ls3" if keep
        by (rule does_bind [OF take_token_safe [OF reads_ok [OF r]]])
          (use w1 w2 w3 that held [OF that] in \<open>auto simp: went_def reads_def\<close>)
      then show "does (\<lambda>_. reads 1 ls) (if keep then xbind (take_token (2 + nat sep) (2 * (2 + nat sep))) (\<lambda>s. xret (SI_ts s)) else xret si) ls3"
        using r by simp
    qed
  qed
qed

lemma digits_loop_safe:
  "lex_ok ls \<Longrightarrow> (0 < i \<longrightarrow> ls_current ls \<noteq> EOZ) \<Longrightarrow> does (\<lambda>_. went (min i 1) 0 ls) (digits_loop i v) ls"
proof (induction i arbitrary: ls v)
  case (Suc i)
  have c: "ls_current ls \<noteq> EOZ" using Suc.prems(2) by simp
  show ?case unfolding digits_loop.simps does_get
  proof (rule does_bind [OF next_went [OF Suc.prems(1) c]])
    fix a ls1 assume w: "went 1 0 ls ls1"
    let ?v = "10 * v + (ls_current ls - 48)"
    have "does (\<lambda>_. went (min (Suc i) 1) 0 ls) (digits_loop i ?v) ls1" if "isdigit (ls_current ls1)"
      by (rule does_mono [OF Suc.IH [OF went_ok [OF w]]]) (use that w digit_not_EOZ in \<open>auto simp: went_def reads_def\<close>)
    then show "does (\<lambda>_. went (min (Suc i) 1) 0 ls) (xbind (xget ls_current)
        (\<lambda>d2. let c2 = 10 * v + (ls_current ls - 48) in if isdigit d2 then digits_loop i c2 else xret c2)) ls1"
      unfolding does_get Let_def using w by simp
  qed
qed (simp add: went_refl)

lemma read_escape_safe:
  assumes ok: "lex_ok ls" and c: "ls_current ls \<noteq> EOZ"
  shows "does (\<lambda>_. went 1 0 ls) read_escape ls"
  unfolding read_escape_def
proof (rule went_bind [OF next_went [OF ok c], where n = 0 and h = 0])
  fix a ls1 assume w: "went 1 0 ls ls1"
  note ok1 = went_ok [OF w]
  let ?c = "ls_current ls1"
  show "does (\<lambda>_. went 0 0 ls1) (xbind (xget ls_current) (\<lambda>c. case simple_escape c of
       Some e \<Rightarrow> xbind (save e) (\<lambda>_. lex_next)
     | None \<Rightarrow>
         if newline c then xbind (save 10) (\<lambda>_. inclinenumber)
         else if c = EOZ then xret ()
         else if \<not> isdigit c then save_and_next
         else xbind (digits_loop 3 0) (\<lambda>v.
           if v > 255 then luaX_lexerror (str ''escape sequence too large'') TK_STRING else save v))) ls1"
    unfolding does_get
  proof (cases "simple_escape ?c")
    case (Some e)
    have ne: "?c \<noteq> EOZ" using Some by (auto simp: simple_escape_def EOZ_def)
    have "does (\<lambda>_. went 0 0 ls1) (xbind (save e) (\<lambda>_. lex_next)) ls1"
    proof (rule does_bind [OF save_safe [OF ok1]])
      fix b ls2 assume s: "saved ls1 ls2"
      show "does (\<lambda>_. went 0 0 ls1) lex_next ls2"
        by (rule does_mono [OF next_went]) (use s ne in \<open>auto simp: saved_def went_def reads_def\<close>)
    qed
    then show "does (\<lambda>_. went 0 0 ls1) (case simple_escape ?c of Some e \<Rightarrow> xbind (save e) (\<lambda>_. lex_next)
     | None \<Rightarrow> if newline ?c then xbind (save 10) (\<lambda>_. inclinenumber) else if ?c = EOZ then xret ()
         else if \<not> isdigit ?c then save_and_next
         else xbind (digits_loop 3 0) (\<lambda>v. if v > 255 then luaX_lexerror (str ''escape sequence too large'') TK_STRING else save v)) ls1"
      using Some by simp
  next
    case None
    have nl: "does (\<lambda>_. went 0 0 ls1) (xbind (save 10) (\<lambda>_. inclinenumber)) ls1" if "newline ?c"
    proof (rule does_bind [OF save_safe [OF ok1]])
      fix b ls2 assume s: "saved ls1 ls2"
      show "does (\<lambda>_. went 0 0 ls1) inclinenumber ls2"
        by (rule does_mono [OF inclinenumber_went]) (use s that in \<open>auto simp: saved_def went_def reads_def\<close>)
    qed
    have other: "does (\<lambda>_. went 0 0 ls1) save_and_next ls1" if "?c \<noteq> EOZ"
      by (rule went_weaken [OF save_and_next_went [OF ok1 that]]) simp_all
    have num: "does (\<lambda>_. went 0 0 ls1) (xbind (digits_loop 3 0)
        (\<lambda>v. if v > 255 then luaX_lexerror (str ''escape sequence too large'') TK_STRING else save v)) ls1" if "?c \<noteq> EOZ"
    proof (rule does_bind [OF digits_loop_safe [OF ok1]])
      fix v ls2 assume w2: "went (min 3 1) 0 ls1 ls2"
      have "does (\<lambda>_. went 0 0 ls1) (save v) ls2"
        by (rule does_mono [OF save_went [OF went_ok [OF w2]]]) (use w2 in \<open>auto simp: went_def reads_def\<close>)
      then show "does (\<lambda>_. went 0 0 ls1) (if v > 255 then luaX_lexerror (str ''escape sequence too large'') TK_STRING else save v) ls2"
        by (simp add: lexerror_safe [OF went_ok [OF w2]])
    qed (use that in simp)
    show "does (\<lambda>_. went 0 0 ls1) (case simple_escape ?c of Some e \<Rightarrow> xbind (save e) (\<lambda>_. lex_next)
     | None \<Rightarrow> if newline ?c then xbind (save 10) (\<lambda>_. inclinenumber) else if ?c = EOZ then xret ()
         else if \<not> isdigit ?c then save_and_next
         else xbind (digits_loop 3 0) (\<lambda>v. if v > 255 then luaX_lexerror (str ''escape sequence too large'') TK_STRING else save v)) ls1"
      using None nl other num went_refl [OF ok1] by simp
  qed
qed simp_all

lemma string_loop_safe:
  assumes "del \<noteq> EOZ"
  shows "lex_ok ls \<Longrightarrow> length (input ls) < f \<Longrightarrow> does (\<lambda>_ ls'. went 0 0 ls ls' \<and> ls_current ls' = del) (string_loop del f) ls"
proof (induction f arbitrary: ls)
  case (Suc f)
  let ?c = "ls_current ls"
  show ?case
  proof (cases "?c = del")
    case True
    show ?thesis unfolding string_loop.simps does_get if_P [OF True] using went_refl [OF Suc.prems(1)] True by simp
  next
    case False
    have step: "does (\<lambda>_. went 1 0 ls) (if ?c = EOZ then luaX_lexerror (str ''unfinished string'') TK_EOS
                   else if newline ?c then luaX_lexerror (str ''unfinished string'') TK_STRING
                   else if ?c = 92 then read_escape else save_and_next) ls"
      using read_escape_safe [OF Suc.prems(1)] went_weaken [OF save_and_next_went [OF Suc.prems(1)], where n' = 1 and g' = 0]
      by (simp add: lexerror_safe [OF Suc.prems(1)])
    show ?thesis unfolding string_loop.simps does_get if_not_P [OF False]
    proof (rule does_bind [OF step])
      fix a ls1 assume w: "went 1 0 ls ls1"
      show "does (\<lambda>_ ls'. went 0 0 ls ls' \<and> ls_current ls' = del) (string_loop del f) ls1"
        by (rule does_mono [OF Suc.IH [OF went_ok [OF w]]]) (use w Suc.prems(2) in \<open>auto simp: went_def reads_def\<close>)
    qed
  qed
qed simp

lemma read_string_safe:
  assumes ok: "lex_ok ls" and c: "ls_current ls \<noteq> EOZ" and del: "del \<noteq> EOZ"
  shows "does (\<lambda>_. reads 1 ls) (read_string del) ls"
  unfolding read_string_def
proof (rule does_bind [OF save_and_next_went [OF ok c]])
  fix a ls1 assume w1: "went 1 1 ls ls1"
  have loop: "does (\<lambda>_ ls'. went 0 0 ls1 ls' \<and> ls_current ls' = del) (with_fuel (string_loop del)) ls1"
    unfolding does_fuel by (rule string_loop_safe [OF del went_ok [OF w1] fuel_gt [OF went_ok [OF w1]]])
  show "does (\<lambda>_. reads 1 ls) (xbind (with_fuel (string_loop del)) (\<lambda>_. xbind save_and_next (\<lambda>_. take_token 1 2))) ls1"
  proof (rule does_bind [OF loop])
    fix b ls2 assume w2: "went 0 0 ls1 ls2 \<and> ls_current ls2 = del"
    show "does (\<lambda>_. reads 1 ls) (xbind save_and_next (\<lambda>_. take_token 1 2)) ls2"
    proof (rule does_bind [OF save_and_next_went])
      fix d ls3 assume w3: "went 1 1 ls2 ls3"
      show "does (\<lambda>_. reads 1 ls) (take_token 1 2) ls3"
        by (rule does_mono [OF take_token_safe [OF went_ok [OF w3]]]) (use w1 w2 w3 in \<open>auto simp: went_def reads_def\<close>)
    qed (use w2 del went_ok in auto)
  qed
qed

subsection \<open>The next token\<close>

lemma skip_line_safe: "lex_ok ls \<Longrightarrow> length (input ls) < f \<Longrightarrow> does (\<lambda>_. reads 0 ls) (skip_line f) ls"
proof (induction f arbitrary: ls)
  case (Suc f)
  show ?case
  proof (cases "\<not> newline (ls_current ls) \<and> ls_current ls \<noteq> EOZ")
    case True
    then have c: "ls_current ls \<noteq> EOZ" by simp
    show ?thesis unfolding skip_line.simps does_get if_P [OF True]
    proof (rule does_bind [OF next_went [OF Suc.prems(1) c]])
      fix a ls1 assume w: "went 1 0 ls ls1"
      show "does (\<lambda>_. reads 0 ls) (skip_line f) ls1"
        by (rule does_mono [OF Suc.IH [OF went_ok [OF w]]]) (use w Suc.prems(2) in \<open>auto simp: went_def reads_def\<close>)
    qed
  next
    case False
    show ?thesis unfolding skip_line.simps does_get if_not_P [OF False] using reads_refl [OF Suc.prems(1)] by simp
  qed
qed simp

lemma skip_comment_safe:
  assumes ok: "lex_ok ls" and len: "length (input ls) < 2 ^ 31"
  shows "does (\<lambda>_. reads 0 ls) (skip_comment si) ls"
  unfolding skip_comment_def does_get
proof (rule does_bind)
  show "does (\<lambda>r ls'. reads 0 ls ls' \<and> (\<forall>sep. r = Some sep \<longrightarrow> 0 \<le> sep \<and> ls_current ls' \<noteq> EOZ))
      (if ls_current ls = 91 then xbind skip_sep (\<lambda>sep. xbind luaZ_resetbuffer (\<lambda>_. xret (if sep \<ge> 0 then Some sep else None))) else xret None) ls"
  proof (cases "ls_current ls = 91")
    case True
    then have c: "ls_current ls \<noteq> EOZ" by (simp add: EOZ_def)
    show ?thesis unfolding if_P [OF True]
    proof (rule does_bind [OF skip_sep_safe [OF ok c len]])
      fix sep ls1 assume w: "went 1 1 ls ls1 \<and> (0 \<le> sep \<longrightarrow> went 1 (1 + nat sep) ls ls1 \<and> ls_current ls1 = ls_current ls)"
      then have ok1: "lex_ok ls1" by (auto simp: went_def reads_def)
      show "does (\<lambda>r ls'. reads 0 ls ls' \<and> (\<forall>sep. r = Some sep \<longrightarrow> 0 \<le> sep \<and> ls_current ls' \<noteq> EOZ))
          (xbind luaZ_resetbuffer (\<lambda>_. xret (if sep \<ge> 0 then Some sep else None))) ls1"
        by (rule does_bind [OF reset_safe [OF ok1]]) (use w c in \<open>auto simp: went_def reads_def\<close>)
    qed
  next
    case False
    show ?thesis unfolding if_not_P [OF False] using reads_refl [OF ok] by simp
  qed
  fix r :: "int option" and ls1 assume r: "reads 0 ls ls1 \<and> (\<forall>sep. r = Some sep \<longrightarrow> 0 \<le> sep \<and> ls_current ls1 \<noteq> EOZ)"
  then have ok1: "lex_ok ls1" by (simp add: reads_def)
  show "does (\<lambda>_. reads 0 ls) (case r of Some sep \<Rightarrow> xbind (read_long_string False sep si) (\<lambda>_. luaZ_resetbuffer) | None \<Rightarrow> with_fuel skip_line) ls1"
  proof (cases r)
    case None
    have "does (\<lambda>_. reads 0 ls) (with_fuel skip_line) ls1" unfolding does_fuel
      by (rule does_mono [OF skip_line_safe [OF ok1 fuel_gt [OF ok1]]]) (use r in \<open>auto simp: reads_def\<close>)
    then show ?thesis using None by simp
  next
    case (Some sep)
    have l: "does (\<lambda>_. reads 1 ls1) (read_long_string False sep si) ls1"
      by (rule read_long_string_safe [OF ok1]) (use r Some len in \<open>auto simp: reads_def\<close>)
    have "does (\<lambda>_. reads 0 ls) (xbind (read_long_string False sep si) (\<lambda>_. luaZ_resetbuffer)) ls1"
    proof (rule does_bind [OF l])
      fix a ls2 assume r2: "reads 1 ls1 ls2"
      show "does (\<lambda>_. reads 0 ls) luaZ_resetbuffer ls2"
        by (rule does_mono [OF reset_safe [OF reads_ok [OF r2]]]) (use r r2 in \<open>auto simp: reads_def\<close>)
    qed
    then show ?thesis using Some by simp
  qed
qed

text \<open>A token is valid, and a token that has been read has taken at least a character.\<close>

definition token_read :: "LexState \<Rightarrow> int \<times> SemInfo \<Rightarrow> LexState \<Rightarrow> bool" where
  "token_read ls r ls' \<longleftrightarrow> reads 0 ls ls' \<and> token_ok (fst r) \<and> (fst r \<noteq> TK_EOS \<longrightarrow> reads 1 ls ls')"

lemma or_equal_safe:
  assumes "lex_ok ls" "ls_current ls \<noteq> EOZ"
  shows "does (\<lambda>t ls'. (t = c \<or> t = tok) \<and> reads 1 ls ls') (or_equal c tok) ls"
  unfolding or_equal_def
proof (rule does_bind [OF next_went [OF assms]])
  fix a ls1 assume w: "went 1 0 ls ls1"
  show "does (\<lambda>t ls'. (t = c \<or> t = tok) \<and> reads 1 ls ls') (xbind (xget ls_current) (\<lambda>d. if d \<noteq> 61 then xret c else xbind lex_next (\<lambda>_. xret tok))) ls1"
    unfolding does_get
  proof (cases "ls_current ls1 = 61")
    case True
    have "does (\<lambda>t ls'. (t = c \<or> t = tok) \<and> reads 1 ls ls') (xbind lex_next (\<lambda>_. xret tok)) ls1"
      by (rule does_bind [OF next_went [OF went_ok [OF w]]]) (use True w in \<open>auto simp: went_def reads_def EOZ_def\<close>)
    then show "does (\<lambda>t ls'. (t = c \<or> t = tok) \<and> reads 1 ls ls') (if ls_current ls1 \<noteq> 61 then xret c else xbind lex_next (\<lambda>_. xret tok)) ls1"
      using True by simp
  qed (use w in \<open>simp add: went_def\<close>)
qed

lemma reserved_bound: "luaX_init s \<le> 21"
proof -
  have "fold (\<lambda>i r. r(luaX_tokens ! i := i + 1)) [0..<n] (\<lambda>_. 0) s \<le> n" for n
    by (induction n) auto
  then show ?thesis by (simp add: luaX_init_def NUM_RESERVED_def)
qed

lemma read_name_safe:
  assumes "lex_ok ls" "ls_current ls \<noteq> EOZ"
  shows "does (token_read ls) (read_name si) ls"
  unfolding read_name_def
proof (rule does_bind [OF save_and_next_went [OF assms]])
  fix a ls1 assume w1: "went 1 1 ls ls1"
  show "does (token_read ls) (xbind (with_fuel (save_while is_name_char)) (\<lambda>_. xbind (xget (\<lambda>ls. mb_bytes (ls_buff ls))) (\<lambda>s.
       xbind (luaX_newstring s) (\<lambda>ts.
       xret (if luaX_init ts > 0 then (int (luaX_init ts) - 1 + FIRST_RESERVED, si) else (TK_NAME, SI_ts ts)))))) ls1"
  proof (rule does_bind [OF save_while_went [where P = is_name_char, OF digit_not_EOZ(3) went_ok [OF w1]]])
    fix b ls2 assume w2: "went 0 0 ls1 ls2"
    show "does (token_read ls) (xbind (xget (\<lambda>ls. mb_bytes (ls_buff ls))) (\<lambda>s. xbind (luaX_newstring s) (\<lambda>ts.
         xret (if luaX_init ts > 0 then (int (luaX_init ts) - 1 + FIRST_RESERVED, si) else (TK_NAME, SI_ts ts))))) ls2"
      unfolding does_get
    proof (rule does_bind [OF newstring_safe [OF went_ok [OF w2]]])
      fix ts ls3 assume "ts = mb_bytes (ls_buff ls2) \<and> lex_ok ls3 \<and> input ls3 = input ls2 \<and> ls_current ls3 = ls_current ls2"
      then show "does (token_read ls) (xret (if luaX_init ts > 0 then (int (luaX_init ts) - 1 + FIRST_RESERVED, si) else (TK_NAME, SI_ts ts))) ls3"
        using w1 w2 reserved_bound [of ts] by (auto simp: token_read_def went_def reads_def token_ok_def token_defs)
    qed
  qed
qed

lemma token_later:
  assumes "reads n ls ls1" "does (token_read ls1) m ls1"
  shows "does (token_read ls) m ls1"
  by (rule does_mono [OF assms(2)]) (use assms(1) in \<open>auto simp: token_read_def reads_def\<close>)

lemma token_bind:
  assumes "does (\<lambda>_. reads 1 ls) m ls" "\<And>a. token_ok (fst (g a))"
  shows "does (token_read ls) (xbind m (\<lambda>a. xret (g a))) ls"
  by (rule does_bind [OF assms(1)]) (use assms(2) in \<open>auto simp: token_read_def reads_def\<close>)

lemma current_range: "lex_ok ls \<Longrightarrow> ls_current ls \<noteq> EOZ \<Longrightarrow> token_ok (ls_current ls)"
  by (simp add: lex_ok_def token_ok_def token_defs)

lemma dash_safe:
  assumes ok: "lex_ok ls" and c: "ls_current ls \<noteq> EOZ" and len: "length (input ls) < 2 ^ 31"
    and rest: "\<And>ls1. reads 1 ls ls1 \<Longrightarrow> does (token_read ls1) k ls1"
  shows "does (token_read ls) (xbind lex_next (\<lambda>_. xbind (xget ls_current) (\<lambda>d.
      if d \<noteq> 45 then xret (45, si) else xbind lex_next (\<lambda>_. xbind (skip_comment si) (\<lambda>_. k))))) ls"
proof (rule does_bind [OF next_went [OF ok c]])
  fix a ls1 assume w: "went 1 0 ls ls1"
  show "does (token_read ls) (xbind (xget ls_current) (\<lambda>d.
      if d \<noteq> 45 then xret (45, si) else xbind lex_next (\<lambda>_. xbind (skip_comment si) (\<lambda>_. k)))) ls1"
  proof (cases "ls_current ls1 = 45")
    case False
    then show ?thesis using w by (simp add: token_read_def went_def token_ok_def token_defs reads_def)
  next
    case True
    then have c1: "ls_current ls1 \<noteq> EOZ" by (simp add: EOZ_def)
    have "does (token_read ls) (xbind lex_next (\<lambda>_. xbind (skip_comment si) (\<lambda>_. k))) ls1"
    proof (rule does_bind [OF next_went [OF went_ok [OF w] c1]])
      fix b ls2 assume w2: "went 1 0 ls1 ls2"
      have l2: "length (input ls2) < 2 ^ 31" using w w2 len by (auto simp: went_def reads_def)
      show "does (token_read ls) (xbind (skip_comment si) (\<lambda>_. k)) ls2"
      proof (rule does_bind [OF skip_comment_safe [OF went_ok [OF w2] l2]])
        fix d ls3 assume "reads 0 ls2 ls3"
        then have r: "reads 1 ls ls3" using w w2 by (auto simp: went_def reads_def)
        show "does (token_read ls) k ls3" by (rule token_later [OF r rest [OF r]])
      qed
    qed
    then show ?thesis using True by simp
  qed
qed

lemma bracket_safe:
  assumes ok: "lex_ok ls" and c: "ls_current ls \<noteq> EOZ" and len: "length (input ls) < 2 ^ 31"
  shows "does (token_read ls) (xbind skip_sep (\<lambda>sep.
      if sep \<ge> 0 then xbind (read_long_string True sep si) (\<lambda>si2. xret (TK_STRING, si2))
      else if sep = - 1 then xret (91, si)
      else luaX_lexerror (str ''invalid long string delimiter'') TK_STRING)) ls"
proof (rule does_bind [OF skip_sep_safe [OF ok c len]])
  fix sep ls1 assume w: "went 1 1 ls ls1 \<and> (0 \<le> sep \<longrightarrow> went 1 (1 + nat sep) ls ls1 \<and> ls_current ls1 = ls_current ls)"
  then have ok1: "lex_ok ls1" by (auto simp: went_def reads_def)
  have "does (token_read ls) (xbind (read_long_string True sep si) (\<lambda>si2. xret (TK_STRING, si2))) ls1" if s: "0 \<le> sep"
  proof -
    have "does (\<lambda>_. reads 1 ls1) (read_long_string True sep si) ls1"
      by (rule read_long_string_safe [OF ok1]) (use w c len s in \<open>auto simp: went_def reads_def\<close>)
    from token_bind [OF this, of "\<lambda>si2. (TK_STRING, si2)"] show ?thesis
      using token_later [of 1 ls ls1] w by (simp add: went_def)
  qed
  then show "does (token_read ls) (if sep \<ge> 0 then xbind (read_long_string True sep si) (\<lambda>si2. xret (TK_STRING, si2))
      else if sep = - 1 then xret (91, si) else luaX_lexerror (str ''invalid long string delimiter'') TK_STRING) ls1"
    using w by (auto simp: lexerror_safe [OF ok1] token_read_def went_def reads_def)
qed

lemma dot_safe:
  assumes ok: "lex_ok ls" and c: "ls_current ls \<noteq> EOZ" and env: "env_ok env"
  shows "does (token_read ls) (xbind save_and_next (\<lambda>_. xbind (check_next (str ''.'')) (\<lambda>dot2.
      if dot2 then xbind (check_next (str ''.'')) (\<lambda>dot3. xret (if dot3 then TK_DOTS else TK_CONCAT, si))
      else xbind (xget ls_current) (\<lambda>d. if \<not> isdigit d then xret (46, si) else xbind (read_numeral env) (\<lambda>r. xret (TK_NUMBER, SI_r r)))))) ls"
proof (rule does_bind [OF save_and_next_went [OF ok c]])
  fix a ls1 assume w1: "went 1 1 ls ls1"
  have s: "255 \<notin> set (str ''.'')" by (simp add: str_def)
  show "does (token_read ls) (xbind (check_next (str ''.'')) (\<lambda>dot2.
      if dot2 then xbind (check_next (str ''.'')) (\<lambda>dot3. xret (if dot3 then TK_DOTS else TK_CONCAT, si))
      else xbind (xget ls_current) (\<lambda>d. if \<not> isdigit d then xret (46, si) else xbind (read_numeral env) (\<lambda>r. xret (TK_NUMBER, SI_r r))))) ls1"
  proof (rule does_bind [OF check_next_went [OF went_ok [OF w1] s]])
    fix dot2 ls2 assume w2: "went 0 0 ls1 ls2"
    then have r: "reads 1 ls ls2" using w1 by (auto simp: went_def reads_def)
    have dots: "does (token_read ls) (xbind (check_next (str ''.'')) (\<lambda>dot3. xret (if dot3 then TK_DOTS else TK_CONCAT, si))) ls2"
      by (rule does_bind [OF check_next_went [OF went_ok [OF w2] s]]) (use r in \<open>auto simp: token_read_def went_def reads_def token_ok_def token_defs\<close>)
    have num: "does (token_read ls) (xbind (read_numeral env) (\<lambda>r. xret (TK_NUMBER, SI_r r))) ls2" if "isdigit (ls_current ls2)"
    proof -
      have "ls_current ls2 \<noteq> EOZ" using that digit_not_EOZ(1) by auto
      from token_bind [OF read_numeral_safe [OF went_ok [OF w2] this env], of "\<lambda>r. (TK_NUMBER, SI_r r)"] token_later [OF r]
      show ?thesis by simp
    qed
    show "does (token_read ls) (if dot2 then xbind (check_next (str ''.'')) (\<lambda>dot3. xret (if dot3 then TK_DOTS else TK_CONCAT, si))
      else xbind (xget ls_current) (\<lambda>d. if \<not> isdigit d then xret (46, si) else xbind (read_numeral env) (\<lambda>r. xret (TK_NUMBER, SI_r r)))) ls2"
    proof (cases dot2)
      case False
      show ?thesis unfolding if_not_P [OF False] does_get
        using num r by (auto simp: token_read_def token_ok_def token_defs reads_def)
    qed (use dots in simp)
  qed
qed

lemma or_equal_token:
  assumes "lex_ok ls" "ls_current ls \<noteq> EOZ" "token_ok c" "token_ok tok"
  shows "does (token_read ls) (xbind (or_equal c tok) (\<lambda>t. xret (t, si))) ls"
  by (rule does_bind [OF or_equal_safe [OF assms(1,2)]]) (use assms(3,4) in \<open>auto simp: token_read_def reads_def\<close>)

lemma does_if: "(b \<Longrightarrow> does P m ls) \<Longrightarrow> (\<not> b \<Longrightarrow> does P n ls) \<Longrightarrow> does P (if b then m else n) ls"
  by simp

lemma llex_loop_safe:
  assumes env: "env_ok env"
  shows "lex_ok ls \<Longrightarrow> length (input ls) < f \<Longrightarrow> length (input ls) < 2 ^ 31 \<Longrightarrow> does (token_read ls) (llex_loop env si f) ls"
proof (induction f arbitrary: ls)
  case (Suc f)
  note ok = Suc.prems(1)
  let ?c = "ls_current ls"
  have rest: "does (token_read ls1) (llex_loop env si f) ls1" if "reads 1 ls ls1" for ls1
    by (rule Suc.IH [OF reads_ok [OF that]]) (use that Suc.prems(2,3) in \<open>auto simp: reads_def\<close>)
  have again: "does (token_read ls) (xbind m (\<lambda>_. llex_loop env si f)) ls" if "does (\<lambda>_. went 1 0 ls) m ls" for m :: "unit lex"
  proof (rule does_bind [OF that])
    fix a ls1 assume "went 1 0 ls ls1"
    then have r: "reads 1 ls ls1" by (simp add: went_def)
    show "does (token_read ls) (llex_loop env si f) ls1" by (rule token_later [OF r rest [OF r]])
  qed
  have toks: "token_ok 61" "token_ok 60" "token_ok 62" "token_ok 126" "token_ok TK_EQ" "token_ok TK_LE" "token_ok TK_GE" "token_ok TK_NE"
    by (simp_all add: token_ok_def token_defs)
  show ?case
  proof (cases "?c = EOZ")
    case True
    then have n: "\<not> newline ?c" "?c \<noteq> 45" "?c \<noteq> 91" "?c \<noteq> 61" "?c \<noteq> 60" "?c \<noteq> 62" "?c \<noteq> 126" "?c \<noteq> 34" "?c \<noteq> 39" "?c \<noteq> 46"
      by (simp_all add: EOZ_def newline_def)
    show ?thesis unfolding llex_loop.simps does_get using n True reads_refl [OF ok] by (simp add: token_read_def)
  next
    case c: False
    note dash = dash_safe [OF ok c Suc.prems(3) rest, of si]
    have str: "does (token_read ls) (xbind (read_string ?c) (\<lambda>s. xret (TK_STRING, SI_ts s))) ls"
      by (rule token_bind [OF read_string_safe [OF ok c c]]) simp
    have num: "does (token_read ls) (xbind (read_numeral env) (\<lambda>r. xret (TK_NUMBER, SI_r r))) ls"
      by (rule token_bind [OF read_numeral_safe [OF ok c env]]) simp
    have char: "does (token_read ls) (xbind lex_next (\<lambda>_. xret (?c, si))) ls"
      by (rule token_bind [OF went_reads [OF next_went [OF ok c]]]) (simp add: current_range [OF ok c])
    note nl = again [OF inclinenumber_went [OF ok]] and blank = again [OF next_went [OF ok c]]
      and bracket = bracket_safe [OF ok c Suc.prems(3), of si]
    show ?thesis unfolding llex_loop.simps does_get
      by (intro does_if nl dash bracket or_equal_token [OF ok c] toks str num char blank dot_safe [OF ok c env] read_name_safe [OF ok c])
        (use c in simp_all)
  qed
qed simp

lemma llex_safe:
  assumes ok: "lex_ok ls" and env: "env_ok env" and len: "length (input ls) < 2 ^ 31"
  shows "does (token_read ls) (llex env si) ls"
  unfolding llex_def
proof (rule does_bind [OF reset_safe [OF ok]])
  fix a ls1 assume r: "lex_ok ls1 \<and> input ls1 = input ls \<and> ls_current ls1 = ls_current ls \<and> held ls1 = 0"
  then have ok1: "lex_ok ls1" by simp
  have "does (token_read ls1) (with_fuel (llex_loop env si)) ls1" unfolding does_fuel
    by (rule llex_loop_safe [OF env ok1 fuel_gt [OF ok1]]) (use r len in simp)
  then show "does (token_read ls) (with_fuel (llex_loop env si)) ls1"
    by (rule does_mono) (use r in \<open>auto simp: token_read_def reads_def\<close>)
qed

lemma luaX_next_safe:
  assumes ok: "lex_ok ls" and env: "env_ok env" and len: "length (input ls) < 2 ^ 31"
  shows "does (\<lambda>_ ls'. reads 0 ls ls' \<and> (tk_token (ls_ahead ls) = TK_EOS \<longrightarrow> tk_token (ls_t ls') \<noteq> TK_EOS \<longrightarrow> reads 1 ls ls'))
    (luaX_next env) ls"
proof -
  let ?ls = "ls\<lparr>ls_lastline := ls_linenumber ls\<rparr>"
  have ok1: "lex_ok ?ls" and i: "input ?ls = input ls" using ok by (simp_all add: lex_ok_def input_def)
  show ?thesis
  proof (cases "tk_token (ls_ahead ls) = TK_EOS")
    case False
    then show ?thesis unfolding luaX_next_def does_mod does_get
      using ok by (simp add: reads_def lex_ok_def input_def)
  next
    case True
    have "does (\<lambda>_ ls'. reads 0 ls ls' \<and> (tk_token (ls_ahead ls) = TK_EOS \<longrightarrow> tk_token (ls_t ls') \<noteq> TK_EOS \<longrightarrow> reads 1 ls ls'))
        (xbind (llex env (tk_seminfo (ls_t ?ls))) (\<lambda>(tok, si2). xmod (\<lambda>ls. ls\<lparr>ls_t := \<lparr>tk_token = tok, tk_seminfo = si2\<rparr>\<rparr>))) ?ls"
    proof (rule does_bind [OF llex_safe [OF ok1 env]])
      show "length (input ?ls) < 2 ^ 31" using len i by simp
      fix r ls' assume "token_read ?ls r ls'"
      then show "does (\<lambda>_ ls'. reads 0 ls ls' \<and> (tk_token (ls_ahead ls) = TK_EOS \<longrightarrow> tk_token (ls_t ls') \<noteq> TK_EOS \<longrightarrow> reads 1 ls ls'))
          (case r of (tok, si2) \<Rightarrow> xmod (\<lambda>ls. ls\<lparr>ls_t := \<lparr>tk_token = tok, tk_seminfo = si2\<rparr>\<rparr>)) ls'"
        using i by (cases r) (auto simp: token_read_def reads_def lex_ok_def input_def)
    qed
    then show ?thesis unfolding luaX_next_def does_mod does_get using True by simp
  qed
qed

lemma setinput_ok:
  assumes "wf_table h" "z_ok z"
  obtains ls where "luaX_setinput h z source = Inr ((), ls)" "lex_ok ls" "input ls = z_rest z" "ls_h ls = h" "mb_bytes (ls_buff ls) = []"
    "ls_linenumber ls = 1" "tk_token (ls_ahead ls) = TK_EOS" "ls_source ls = source"
proof -
  let ?ls = "\<lparr>ls_current = 0, ls_linenumber = 1, ls_lastline = 1, ls_t = \<lparr>tk_token = 0, tk_seminfo = SI_none\<rparr>,
       ls_ahead = \<lparr>tk_token = TK_EOS, tk_seminfo = SI_none\<rparr>, ls_h = h, ls_z = z,
       ls_buff = \<lparr>mb_bytes = [], mb_size = LUA_MINBUFFER\<rparr>, ls_source = source, ls_decpoint = 46\<rparr>"
  have "lex_ok ?ls" "ls_current ?ls \<noteq> EOZ"
    using assms by (simp_all add: lex_ok_def token_ok_def token_defs LUA_MINBUFFER_def EOZ_def)
  then obtain c' z' where n: "lex_next ?ls = Inr ((), ?ls\<lparr>ls_current := c', ls_z := z'\<rparr>)"
    "lex_ok (?ls\<lparr>ls_current := c', ls_z := z'\<rparr>)" "input (?ls\<lparr>ls_current := c', ls_z := z'\<rparr>) = tl (input ?ls)" by (rule next_run)
  show ?thesis
    by (rule that [of "?ls\<lparr>ls_current := c', ls_z := z'\<rparr>"]) (use n in \<open>simp_all add: luaX_setinput_def input_def [of ?ls] EOZ_def\<close>)
qed

end
