(* ===== verification/Lua_Lex_Quote.thy ===== *)
theory Lua_Lex_Quote
  imports Lua_Lex_Safe Lua_Strlib_Run
begin

text \<open>
  The lexer on the text that \<^verbatim>\<open>%q\<close> of \<^verbatim>\<open>string.format\<close> makes of a string. \<open>lex_at\<close> describes a state: the table of strings, the line, the text that is
  left and the contents of the buffer.
\<close>

definition lex_at :: "Table \<Rightarrow> int \<Rightarrow> bytes \<Rightarrow> bytes \<Rightarrow> LexState \<Rightarrow> bool" where
  "lex_at h n inp bs ls \<longleftrightarrow> lex_ok ls \<and> ls_h ls = h \<and> ls_linenumber ls = n \<and> input ls = inp \<and> mb_bytes (ls_buff ls) = bs"

lemma at_ok: "lex_at h n inp bs ls \<Longrightarrow> lex_ok ls"
  by (simp add: lex_at_def)

lemma at_current: "lex_at h n (c # inp) bs ls \<Longrightarrow> ls_current ls = uint c"
  by (auto simp: lex_at_def input_def lex_ok_def EOZ_def unsigned_of_int take_bit_int_eq_self split: if_splits)

lemma at_current_EOZ: "lex_at h n (c # inp) bs ls \<Longrightarrow> ls_current ls \<noteq> EOZ"
  using at_current byte_not_EOZ by simp

lemma at_next:
  assumes "lex_at h n (c # inp) bs ls"
  obtains ls' where "lex_next ls = Inr ((), ls')" "lex_at h n inp bs ls'"
  by (rule next_run [OF at_ok [OF assms] at_current_EOZ [OF assms]]) (use assms in \<open>auto simp: lex_at_def\<close>)

lemma at_save:
  assumes "lex_at h n inp bs ls" "length bs < 2 ^ 62"
  obtains ls' where "save c ls = Inr ((), ls')" "lex_at h n inp (bs @ [word_of_int c]) ls'"
proof -
  have "save c ls = Inr ((), put_byte c (if length bs + 1 > mb_size (ls_buff ls) then ls\<lparr>ls_buff := (ls_buff ls)\<lparr>mb_size := mb_size (ls_buff ls) * 2\<rparr>\<rparr> else ls))"
    using assms by (auto simp: save_def Let_def lex_at_def lex_ok_def MAX_SIZET_def)
  moreover have "lex_at h n inp (bs @ [word_of_int c])
      (put_byte c (if length bs + 1 > mb_size (ls_buff ls) then ls\<lparr>ls_buff := (ls_buff ls)\<lparr>mb_size := mb_size (ls_buff ls) * 2\<rparr>\<rparr> else ls))"
    using assms(1) by (auto simp: put_byte_def lex_at_def lex_ok_def)
  ultimately show ?thesis by (rule that)
qed

lemma at_save_and_next:
  assumes "lex_at h n (c # inp) bs ls" "length bs < 2 ^ 62"
  obtains ls' where "save_and_next ls = Inr ((), ls')" "lex_at h n inp (bs @ [c]) ls'"
proof -
  obtain ls1 where 1: "save (uint c) ls = Inr ((), ls1)" "lex_at h n (c # inp) (bs @ [word_of_int (uint c)]) ls1"
    by (rule at_save [OF assms])
  obtain ls2 where 2: "lex_next ls1 = Inr ((), ls2)" "lex_at h n inp (bs @ [word_of_int (uint c)]) ls2"
    by (rule at_next [OF 1(2)])
  show ?thesis by (rule that [of ls2]) (use 1(1) 2 at_current [OF assms(1)] in \<open>simp_all add: save_and_next_def xbind_def\<close>)
qed

lemma at_inclinenumber:
  assumes "lex_at h n (10 # c # inp) bs ls" "c \<noteq> 10" "c \<noteq> 13" "n + 1 < int MAX_INT"
  obtains ls' where "inclinenumber ls = Inr ((), ls')" "lex_at h (n + 1) (c # inp) bs ls'"
proof -
  obtain ls1 where 1: "lex_next ls = Inr ((), ls1)" "lex_at h n (c # inp) bs ls1" by (rule at_next [OF assms(1)])
  have "uint c \<noteq> 10" "uint c \<noteq> 13" using assms(2,3) by (simp_all add: word_uint_eq_iff)
  then have nl: "\<not> newline (ls_current ls1)" using at_current [OF 1(2)] by (simp add: newline_def)
  let ?ls2 = "ls1\<lparr>ls_linenumber := ls_linenumber ls1 + 1\<rparr>"
  have "inclinenumber ls = Inr ((), ?ls2)"
    using 1 nl assms(4) by (simp add: inclinenumber_def xbind_def lex_at_def)
  moreover have "lex_at h (n + 1) (c # inp) bs ?ls2" using 1(2) by (auto simp: lex_at_def lex_ok_def)
  ultimately show ?thesis by (rule that)
qed

subsection \<open>One character of the text\<close>

lemma at_escape:
  assumes at: "lex_at h n (92 # c # inp) bs ls" and c: "c = 34 \<or> c = 92" and len: "length bs < 2 ^ 62"
  obtains ls' where "read_escape ls = Inr ((), ls')" "lex_at h n inp (bs @ [c]) ls'"
proof -
  obtain ls1 where 1: "lex_next ls = Inr ((), ls1)" "lex_at h n (c # inp) bs ls1" by (rule at_next [OF at])
  obtain ls2 where 2: "save_and_next ls1 = Inr ((), ls2)" "lex_at h n inp (bs @ [c]) ls2" by (rule at_save_and_next [OF 1(2) len])
  have "ls_current ls1 = 34 \<or> ls_current ls1 = 92" using at_current [OF 1(2)] c by auto
  then have "read_escape ls = Inr ((), ls2)"
    using 1(1) 2(1) by (auto simp: read_escape_def xbind_def simple_escape_def newline_def isdigit_def EOZ_def)
  then show ?thesis using 2(2) by (rule that)
qed

lemma at_escape_return:
  assumes at: "lex_at h n (92 # 114 # inp) bs ls" and len: "length bs < 2 ^ 62"
  obtains ls' where "read_escape ls = Inr ((), ls')" "lex_at h n inp (bs @ [13]) ls'"
proof -
  obtain ls1 where 1: "lex_next ls = Inr ((), ls1)" "lex_at h n (114 # inp) bs ls1" by (rule at_next [OF at])
  obtain ls2 where 2: "save 13 ls1 = Inr ((), ls2)" "lex_at h n (114 # inp) (bs @ [word_of_int 13]) ls2" by (rule at_save [OF 1(2) len])
  obtain ls3 where 3: "lex_next ls2 = Inr ((), ls3)" "lex_at h n inp (bs @ [word_of_int 13]) ls3" by (rule at_next [OF 2(2)])
  have "ls_current ls1 = 114" using at_current [OF 1(2)] by simp
  then have "read_escape ls = Inr ((), ls3)" using 1(1) 2(1) 3(1) by (simp add: read_escape_def xbind_def simple_escape_def)
  then show ?thesis using 3(2) by (intro that [of ls3]) simp_all
qed

lemma at_escape_newline:
  assumes at: "lex_at h n (92 # 10 # c # inp) bs ls" and c: "c \<noteq> 10" "c \<noteq> 13" and len: "length bs < 2 ^ 62" and n: "n + 1 < int MAX_INT"
  obtains ls' where "read_escape ls = Inr ((), ls')" "lex_at h (n + 1) (c # inp) (bs @ [10]) ls'"
proof -
  obtain ls1 where 1: "lex_next ls = Inr ((), ls1)" "lex_at h n (10 # c # inp) bs ls1" by (rule at_next [OF at])
  obtain ls2 where 2: "save 10 ls1 = Inr ((), ls2)" "lex_at h n (10 # c # inp) (bs @ [word_of_int 10]) ls2" by (rule at_save [OF 1(2) len])
  obtain ls3 where 3: "inclinenumber ls2 = Inr ((), ls3)" "lex_at h (n + 1) (c # inp) (bs @ [word_of_int 10]) ls3"
    by (rule at_inclinenumber [OF 2(2) c n])
  have "ls_current ls1 = 10" using at_current [OF 1(2)] by simp
  then have "read_escape ls = Inr ((), ls3)" using 1(1) 2(1) 3(1) by (simp add: read_escape_def xbind_def simple_escape_def newline_def)
  then show ?thesis using 3(2) by (intro that [of ls3]) simp_all
qed

lemma at_escape_zero:
  assumes at: "lex_at h n (92 # 48 # 48 # 48 # inp) bs ls" and len: "length bs < 2 ^ 62"
  obtains ls' where "read_escape ls = Inr ((), ls')" "lex_at h n inp (bs @ [0]) ls'"
proof -
  obtain ls1 where 1: "lex_next ls = Inr ((), ls1)" "lex_at h n (48 # 48 # 48 # inp) bs ls1" by (rule at_next [OF at])
  obtain ls2 where 2: "lex_next ls1 = Inr ((), ls2)" "lex_at h n (48 # 48 # inp) bs ls2" by (rule at_next [OF 1(2)])
  obtain ls3 where 3: "lex_next ls2 = Inr ((), ls3)" "lex_at h n (48 # inp) bs ls3" by (rule at_next [OF 2(2)])
  obtain ls4 where 4: "lex_next ls3 = Inr ((), ls4)" "lex_at h n inp bs ls4" by (rule at_next [OF 3(2)])
  obtain ls5 where 5: "save 0 ls4 = Inr ((), ls5)" "lex_at h n inp (bs @ [word_of_int 0]) ls5" by (rule at_save [OF 4(2) len])
  have c: "ls_current ls1 = 48" "ls_current ls2 = 48" "ls_current ls3 = 48"
    using at_current [OF 1(2)] at_current [OF 2(2)] at_current [OF 3(2)] by simp_all
  have "digits_loop (Suc (Suc (Suc 0))) 0 ls1 = Inr (0, ls4)"
    using c 2(1) 3(1) 4(1) by (simp add: xbind_def isdigit_def)
  then have "read_escape ls = Inr ((), ls5)"
    using 1(1) 5(1) c by (simp add: read_escape_def xbind_def simple_escape_def newline_def isdigit_def EOZ_def numeral_3_eq_3 del: digits_loop.simps)
  then show ?thesis using 5(2) by (intro that [of ls5]) simp_all
qed

subsection \<open>The whole text\<close>

lemma quoted_head: "\<exists>c inp'. concat (map quote_char cs) @ 34 # inp = c # inp' \<and> c \<noteq> 10 \<and> c \<noteq> 13"
  by (cases cs) (auto simp: quote_char_def)

lemma string_loop_quoted:
  "lex_at h n (concat (map quote_char cs) @ 34 # inp) bs ls \<Longrightarrow> length bs + length cs < 2 ^ 62 \<Longrightarrow>
    n + int (count_list cs 10) < int MAX_INT \<Longrightarrow> length cs < f \<Longrightarrow>
    \<exists>ls'. string_loop 34 f ls = Inr ((), ls') \<and> lex_at h (n + int (count_list cs 10)) (34 # inp) (bs @ cs) ls'"
proof (induction cs arbitrary: n bs ls f)
  case Nil
  then obtain g where "f = Suc g" by (cases f) auto
  then show ?case using Nil at_current [of h n 34 inp bs ls] by simp
next
  case (Cons c cs)
  obtain g where f: "f = Suc g" using Cons.prems(4) by (cases f) auto
  let ?rest = "concat (map quote_char cs) @ 34 # inp"
  have len: "length bs < 2 ^ 62" using Cons.prems(2) by simp
  let ?m = "\<lambda>c. if c = EOZ then luaX_lexerror (str ''unfinished string'') TK_EOS
                   else if newline c then luaX_lexerror (str ''unfinished string'') TK_STRING
                   else if c = 92 then read_escape else save_and_next"
  have body: "\<exists>ls1. ls_current ls \<noteq> 34 \<and> ?m (ls_current ls) ls = Inr ((), ls1) \<and>
      lex_at h (n + (if c = 10 then 1 else 0)) ?rest (bs @ [c]) ls1"
  proof -
    have at: "lex_at h n (quote_char c @ ?rest) bs ls" using Cons.prems(1) by simp
    have esc: "ls_current ls \<noteq> 34 \<and> ?m (ls_current ls) = read_escape" if "lex_at h n (92 # xs) bs ls" for xs
      using at_current [OF that] by (simp add: newline_def EOZ_def)
    consider "c = 34 \<or> c = 92" | "c = 10" | "c = 13" | "c = 0" | "c \<notin> {34, 92, 10, 13, 0}" by blast
    then show ?thesis
    proof cases
      case 1
      then have a: "lex_at h n (92 # c # ?rest) bs ls" using at by (auto simp: quote_char_def)
      obtain ls1 where "read_escape ls = Inr ((), ls1)" "lex_at h n ?rest (bs @ [c]) ls1" by (rule at_escape [OF a 1 len])
      with esc [OF a] 1 show ?thesis by auto
    next
      case 2
      obtain d inp' where d: "?rest = d # inp'" "d \<noteq> 10" "d \<noteq> 13" using quoted_head by blast
      have a: "lex_at h n (92 # 10 # d # inp') bs ls" using at 2 d(1) by (simp add: quote_char_def)
      have "n + 1 < int MAX_INT" using Cons.prems(3) 2 by simp
      then obtain ls1 where "read_escape ls = Inr ((), ls1)" "lex_at h (n + 1) (d # inp') (bs @ [10]) ls1"
        by (rule at_escape_newline [OF a d(2,3) len])
      with esc [OF a] 2 d(1) show ?thesis by auto
    next
      case 3
      then have a: "lex_at h n (92 # 114 # ?rest) bs ls" using at by (simp add: quote_char_def)
      obtain ls1 where "read_escape ls = Inr ((), ls1)" "lex_at h n ?rest (bs @ [13]) ls1" by (rule at_escape_return [OF a len])
      with esc [OF a] 3 show ?thesis by auto
    next
      case 4
      then have a: "lex_at h n (92 # 48 # 48 # 48 # ?rest) bs ls" using at by (simp add: quote_char_def)
      obtain ls1 where "read_escape ls = Inr ((), ls1)" "lex_at h n ?rest (bs @ [0]) ls1" by (rule at_escape_zero [OF a len])
      with esc [OF a] 4 show ?thesis by auto
    next
      case 5
      then have a: "lex_at h n (c # ?rest) bs ls" using at by (simp add: quote_char_def)
      obtain ls1 where 1: "save_and_next ls = Inr ((), ls1)" "lex_at h n ?rest (bs @ [c]) ls1" by (rule at_save_and_next [OF a len])
      have "uint c \<noteq> 34" "uint c \<noteq> 92" "uint c \<noteq> 10" "uint c \<noteq> 13" using 5 by (simp_all add: word_uint_eq_iff)
      then show ?thesis using at_current [OF a] 1 5 byte_not_EOZ [of c] by (auto simp: newline_def)
    qed
  qed
  then obtain ls1 where 1: "ls_current ls \<noteq> 34" "?m (ls_current ls) ls = Inr ((), ls1)"
    "lex_at h (n + (if c = 10 then 1 else 0)) ?rest (bs @ [c]) ls1" by blast
  obtain ls2 where "string_loop 34 g ls1 = Inr ((), ls2)"
    "lex_at h ((n + (if c = 10 then 1 else 0)) + int (count_list cs 10)) (34 # inp) ((bs @ [c]) @ cs) ls2"
    using Cons.IH [OF 1(3), of g] Cons.prems(2-4) f by (auto split: if_splits)
  moreover have "string_loop 34 f ls = string_loop 34 g ls1" using 1(1,2) f by (simp add: xbind_def)
  ultimately show ?case by (auto simp: algebra_simps)
qed

lemma newstring_run:
  assumes at: "lex_at h n inp bs ls" and room: "live_count h < 2 ^ 26"
  obtains ls' where "luaX_newstring s ls = Inr (s, ls')" "lex_ok ls'" "input ls' = inp" "ls_ahead ls' = ls_ahead ls"
proof -
  have wf: "wf_table h" using at by (auto simp: lex_at_def lex_ok_def)
  then obtain t' slot where r: "luaH_setstr h s = Inr (t', slot)" "wf_table t'" "\<And>v. wf_table (slot_set t' slot v)"
    by (cases rule: luaH_setstr_spec [OF wf, of s]) (use room in auto)
  let ?ls = "ls\<lparr>ls_h := if ttisnil (slot_value t' (Some slot)) then slot_set t' slot (LBoolean True) else t'\<rparr>"
  show ?thesis
  proof (rule that [of ?ls])
    show "luaX_newstring s ls = Inr (s, ?ls)" using at r(1) by (simp add: luaX_newstring_def lex_at_def)
    show "lex_ok ?ls" using at r(2,3) by (auto simp: lex_at_def lex_ok_def)
    have "input ?ls = input ls" by (simp add: input_def)
    then show "input ?ls = inp" using at by (simp add: lex_at_def)
  qed simp
qed

lemma quoted_length: "length cs \<le> length (concat (map quote_char cs))"
  by (induction cs) (auto simp: quote_char_def)

lemma read_string_quoted:
  assumes at: "lex_at h n (quoted_text cs @ inp) [] ls" and len: "length cs < 2 ^ 61" and lines: "n + int (count_list cs 10) < int MAX_INT"
    and room: "live_count h < 2 ^ 26"
  obtains ls' where "read_string 34 ls = Inr (cs, ls')" "lex_ok ls'" "input ls' = inp"
proof -
  have a0: "lex_at h n (34 # concat (map quote_char cs) @ 34 # inp) [] ls" using at by (simp add: quoted_text_def)
  obtain ls1 where 1: "save_and_next ls = Inr ((), ls1)" "lex_at h n (concat (map quote_char cs) @ 34 # inp) ([] @ [34]) ls1"
    by (rule at_save_and_next [OF a0]) simp
  have f: "length cs < lex_fuel ls1"
    using fuel_gt [OF at_ok [OF 1(2)]] 1(2) quoted_length [of cs] by (simp add: lex_at_def)
  obtain ls2 where 2: "string_loop 34 (lex_fuel ls1) ls1 = Inr ((), ls2)"
    "lex_at h (n + int (count_list cs 10)) (34 # inp) (([] @ [34]) @ cs) ls2"
    using string_loop_quoted [OF 1(2) _ lines f] len by auto
  obtain ls3 where 3: "save_and_next ls2 = Inr ((), ls3)" "lex_at h (n + int (count_list cs 10)) inp ((([] @ [34]) @ cs) @ [34]) ls3"
    by (rule at_save_and_next [OF 2(2)]) (use len in simp)
  have b: "mb_bytes (ls_buff ls3) = 34 # cs @ [34]" using 3(2) by (simp add: lex_at_def)
  obtain ls4 where 4: "luaX_newstring cs ls3 = Inr (cs, ls4)" "lex_ok ls4" "input ls4 = inp" by (rule newstring_run [OF 3(2) room])
  have "read_string 34 ls = Inr (cs, ls4)"
    using 1(1) 2(1) 3(1) 4(1) b by (simp add: read_string_def xbind_def with_fuel_def take_token_def Let_def)
  then show ?thesis using 4(2,3) by (rule that)
qed

end
