(* ===== verification/Lex_Props.thy ===== *)
theory Lex_Props
  imports Lua_Table_Props Lua_Lex_Quote String_Props
begin

text \<open>What the lexical analyser promises.\<close>

subsection \<open>Any input\<close>

text \<open>
  C21. The lexer is safe on any input and always ends. \<^verbatim>\<open>luaX_next\<close>, on input of fewer than 2^31 bytes, delivers a valid token or ends with a
  syntax error or with the overflow of the table of strings: it never reads behind the end of the stream, where the counter of \<^verbatim>\<open>zgetc\<close> has wrapped around, nor outside
  its buffer. A token other than the end of the stream has taken at least one character.
\<close>

theorem luaX_next_is_safe:
  assumes "lex_ok ls" "env_ok env" "length (input ls) < 2 ^ 31"
  shows "case luaX_next env ls of
      Inl (SyntaxError m) \<Rightarrow> True
    | Inl (LexFault e) \<Rightarrow> \<exists>m. e = RunError m
    | Inr (_, ls') \<Rightarrow> lex_ok ls' \<and> token_ok (tk_token (ls_t ls')) \<and> length (input ls') \<le> length (input ls) \<and>
        (tk_token (ls_ahead ls) = TK_EOS \<longrightarrow> tk_token (ls_t ls') \<noteq> TK_EOS \<longrightarrow> length (input ls') < length (input ls))"
  using luaX_next_safe [OF assms]
  by (auto simp: does_def reads_def lex_ok_def split: sum.splits lex_error.splits prod.splits)

text \<open>An environment that knows no numbers.\<close>

definition no_numbers :: LexEnv where
  "no_numbers = \<lparr>le_strtod = (\<lambda>_. (0, 0)), le_strtoul = (\<lambda>_. (0, 0)), le_decpoint = 46\<rparr>"

theorem luaX_next_is_safe_witness:
  "\<exists>h ls. luaX_setinput h (luaZ_init [[34], [97, 34]]) (str ''=x'') = Inr ((), ls) \<and>
    (case luaX_next no_numbers ls of Inl (SyntaxError m) \<Rightarrow> True | Inl (LexFault e) \<Rightarrow> \<exists>m. e = RunError m | Inr (_, ls') \<Rightarrow> lex_ok ls')"
proof -
  obtain h where h: "wf_table h" using demo_wf by blast
  obtain ls where ls: "luaX_setinput h (luaZ_init [[34], [97, 34]]) (str ''=x'') = Inr ((), ls)" "lex_ok ls"
    "input ls = z_rest (luaZ_init [[34], [97, 34]])"
    using setinput_ok [OF h, of "luaZ_init [[34], [97, 34]]" "str ''=x''"] by (metis z_init(1))
  have "env_ok no_numbers" by (simp add: env_ok_def no_numbers_def)
  from luaX_next_is_safe [OF ls(2) this] have
    "case luaX_next no_numbers ls of Inl (SyntaxError m) \<Rightarrow> True | Inl (LexFault e) \<Rightarrow> \<exists>m. e = RunError m | Inr (_, ls') \<Rightarrow> lex_ok ls'"
    using ls(3) by (simp split: sum.splits lex_error.splits prod.splits)
  then show ?thesis using ls(1) by blast
qed

subsection \<open>Quoted strings\<close>

text \<open>
  C20. What \<^verbatim>\<open>string.format("%q", s)\<close> writes, the lexer reads back. The text that \<^verbatim>\<open>addquoted\<close> appends to a buffer for a string \<open>cs\<close> of any
  bytes, given to the lexer in any blocks, is one token: a string literal with the value \<open>cs\<close>, after which the input is at its end.
\<close>

theorem quoted_string_is_read_back:
  assumes arg: "luaL_checklstring arg st = (Inr cs, st)" and len: "length cs < 2 ^ 30"
    and h: "wf_table h" "length (entries h) < 2 ^ 26"
  shows "\<exists>b s' txt. addquoted prog luaL_buffinit arg st = (Inr b, s') \<and>
    luaL_pushresult prog b s' = (Inr (), holds st (l_stack st @ [LString txt])) \<and>
    (\<forall>blocks. concat blocks = txt \<longrightarrow> [] \<notin> set blocks \<longrightarrow>
      (\<exists>ls ls'. luaX_setinput h (luaZ_init blocks) source = Inr ((), ls) \<and> luaX_next env ls = Inr ((), ls') \<and>
        ls_t ls' = \<lparr>tk_token = TK_STRING, tk_seminfo = SI_ts cs\<rparr> \<and> ls_current ls' = EOZ))"
proof -
  have "length (concat (map quote_char cs)) \<le> 4 * length cs" by (induction cs) (auto simp: quote_char_def)
  then have tl: "length (quoted_text cs) \<le> 4 * length cs + 2" by (simp add: quoted_text_def)
  obtain b s' where b: "addquoted prog luaL_buffinit arg st = (Inr b, s')" "buffered st b s' (quoted_text cs)"
    using addquoted_run [OF buffered_init arg, of prog] len by (auto simp: MAX_SIZET_def)
  have r: "luaL_pushresult prog b s' = (Inr (), holds st (l_stack st @ [LString (quoted_text cs)]))"
    by (rule pushresult_run [OF b(2)]) (use tl len in \<open>simp add: MAX_SIZET_def\<close>)
  have "\<exists>ls ls'. luaX_setinput h (luaZ_init blocks) source = Inr ((), ls) \<and> luaX_next env ls = Inr ((), ls') \<and>
      ls_t ls' = \<lparr>tk_token = TK_STRING, tk_seminfo = SI_ts cs\<rparr> \<and> ls_current ls' = EOZ"
    if bl: "concat blocks = quoted_text cs" "[] \<notin> set blocks" for blocks
  proof -
    have "takeWhile (\<lambda>b. b \<noteq> []) blocks = blocks" using bl(2) by (auto simp: takeWhile_eq_all_conv)
    then have z: "z_rest (luaZ_init blocks) = quoted_text cs" using bl(1) by (simp only: z_init)
    obtain ls where ls: "luaX_setinput h (luaZ_init blocks) source = Inr ((), ls)" "lex_ok ls" "input ls = z_rest (luaZ_init blocks)" "ls_h ls = h"
      "mb_bytes (ls_buff ls) = []" "ls_linenumber ls = 1" "tk_token (ls_ahead ls) = TK_EOS" "ls_source ls = source"
      by (rule setinput_ok [OF h(1) z_init(1)])
    let ?ls = "ls\<lparr>ls_lastline := ls_linenumber ls\<rparr>"
    let ?ls1 = "?ls\<lparr>ls_buff := (ls_buff ls)\<lparr>mb_bytes := []\<rparr>\<rparr>"
    have a: "lex_at h 1 (quoted_text cs @ []) [] ?ls1"
      using ls z by (auto simp: lex_at_def lex_ok_def input_def)
    have "count_list cs 10 \<le> length cs" by (rule count_le_length)
    then have lines: "1 + int (count_list cs 10) < int MAX_INT" using len by (simp add: MAX_INT_def)
    obtain ls2 where r2: "read_string 34 ?ls1 = Inr (cs, ls2)" "lex_ok ls2" "input ls2 = []"
      by (rule read_string_quoted [OF a _ lines]) (use len h live_count_entries [OF h(1)] in auto)
    have "quoted_text cs = 34 # concat (map quote_char cs) @ [34]" by (simp add: quoted_text_def)
    then have c: "ls_current ?ls1 = 34" using at_current [of h 1 34 "concat (map quote_char cs) @ [34]" "[]" ?ls1] a by simp
    obtain g where g: "lex_fuel ?ls1 = Suc g" by (simp add: lex_fuel_def)
    have "llex env si ?ls = Inr ((TK_STRING, SI_ts cs), ls2)" for si
      using r2(1) c g by (simp add: llex_def luaZ_resetbuffer_def xbind_def with_fuel_def newline_def)
    then have "luaX_next env ls = Inr ((), ls2\<lparr>ls_t := \<lparr>tk_token = TK_STRING, tk_seminfo = SI_ts cs\<rparr>\<rparr>)"
      using ls(7) by (simp add: luaX_next_def xbind_def)
    moreover have "ls_current ls2 = EOZ" using r2(3) by (auto simp: input_def split: if_splits)
    ultimately show ?thesis using ls(1)
      by (intro exI [of _ ls] exI [of _ "ls2\<lparr>ls_t := \<lparr>tk_token = TK_STRING, tk_seminfo = SI_ts cs\<rparr>\<rparr>"]) simp
  qed
  with b(1) r show ?thesis by blast
qed

text \<open>A string of a quote, a line end and a zero.\<close>

theorem quoted_string_is_read_back_witness:
  "\<exists>b s' txt. addquoted (\<lambda>_. lundef) luaL_buffinit 1 (holds fresh_state [LString [34, 10, 0]]) = (Inr b, s') \<and>
    luaL_pushresult (\<lambda>_. lundef) b s' = (Inr (), holds fresh_state [LString [34, 10, 0], LString txt]) \<and>
    (\<forall>blocks. concat blocks = txt \<longrightarrow> [] \<notin> set blocks \<longrightarrow>
      (\<exists>ls ls'. luaX_setinput demo_table (luaZ_init blocks) [] = Inr ((), ls) \<and> luaX_next no_numbers ls = Inr ((), ls') \<and>
        ls_t ls' = \<lparr>tk_token = TK_STRING, tk_seminfo = SI_ts [34, 10, 0]\<rparr> \<and> ls_current ls' = EOZ))"
proof -
  have "luaL_checklstring 1 (holds fresh_state [LString [34, 10, 0]]) = (Inr [34, 10, 0], holds fresh_state [LString [34, 10, 0]])"
    by (rule arg_string [OF refl]) (simp_all add: holds_def)
  from quoted_string_is_read_back [OF this _ demo_wf, of "\<lambda>_. lundef" "[]" no_numbers] show ?thesis
    by (simp add: demo_entries holds_def)
qed

subsection \<open>A zero byte after a dot\<close>

text \<open>
  C40. A zero byte counts as any character that \<^verbatim>\<open>check_next\<close> looks for, as \<^verbatim>\<open>strchr\<close> also finds the end of its string: a dot that a zero byte
  follows is read as the concatenation operator, or as the vararg mark if there are two of them.
\<close>

theorem zero_byte_is_a_dot:
  assumes "lex_at h n (46 # 0 # c # inp) [] ls" "tk_token (ls_ahead ls) = TK_EOS"
  shows "\<exists>ls'. luaX_next env ls = Inr ((), ls') \<and> tk_token (ls_t ls') = (if c = 0 \<or> c = 46 then TK_DOTS else TK_CONCAT)"
proof -
  let ?ls = "ls\<lparr>ls_lastline := ls_linenumber ls\<rparr>"
  let ?ls1 = "?ls\<lparr>ls_buff := (ls_buff ls)\<lparr>mb_bytes := []\<rparr>\<rparr>"
  have a: "lex_at h n (46 # 0 # c # inp) [] ?ls1"
    using assms(1) by (auto simp: lex_at_def lex_ok_def input_def)
  obtain ls2 where 2: "save_and_next ?ls1 = Inr ((), ls2)" "lex_at h n (0 # c # inp) ([] @ [46]) ls2"
    by (rule at_save_and_next [OF a]) simp
  obtain ls3 where 3: "save_and_next ls2 = Inr ((), ls3)" "lex_at h n (c # inp) (([] @ [46]) @ [0]) ls3"
    by (rule at_save_and_next [OF 2(2)]) simp
  obtain ls4 where 4: "save_and_next ls3 = Inr ((), ls4)" "lex_at h n inp ((([] @ [46]) @ [0]) @ [c]) ls4"
    by (rule at_save_and_next [OF 3(2)]) simp
  have cur: "ls_current ?ls1 = 46" "ls_current ls2 = 0" "ls_current ls3 = uint c"
    using at_current [OF a] at_current [OF 2(2)] at_current [OF 3(2)] by simp_all
  have dot2: "check_next (str ''.'') ls2 = Inr (True, ls3)" using cur(2) 3(1) by (simp add: check_next_def xbind_def)
  have dot3: "check_next (str ''.'') ls3 = Inr (c = 0 \<or> c = 46, if c = 0 \<or> c = 46 then ls4 else ls3)"
    using cur(3) 4(1) by (auto simp: check_next_def xbind_def str_def)
  obtain g where g: "lex_fuel ?ls1 = Suc g" by (simp add: lex_fuel_def)
  have "llex env si ?ls = Inr ((if c = 0 \<or> c = 46 then TK_DOTS else TK_CONCAT, si), if c = 0 \<or> c = 46 then ls4 else ls3)" for si
    using 2(1) dot2 dot3 cur(1) g by (simp add: llex_def luaZ_resetbuffer_def xbind_def with_fuel_def newline_def)
  then show ?thesis using assms(2) by (simp add: luaX_next_def xbind_def)
qed

theorem zero_byte_is_a_dot_witness:
  "\<exists>ls ls'. luaX_setinput demo_table (luaZ_init [[46, 0, 97]]) [] = Inr ((), ls) \<and> luaX_next no_numbers ls = Inr ((), ls') \<and>
    tk_token (ls_t ls') = TK_CONCAT"
proof -
  obtain ls where ls: "luaX_setinput demo_table (luaZ_init [[46, 0, 97]]) [] = Inr ((), ls)" "lex_ok ls" "input ls = z_rest (luaZ_init [[46, 0, 97]])"
    "ls_h ls = demo_table" "mb_bytes (ls_buff ls) = []" "ls_linenumber ls = 1" "tk_token (ls_ahead ls) = TK_EOS" "ls_source ls = []"
    by (rule setinput_ok [OF demo_wf z_init(1)])
  then have "lex_at demo_table 1 (46 # 0 # 97 # []) [] ls" by (simp add: lex_at_def)
  from zero_byte_is_a_dot [OF this ls(7), of no_numbers] ls(1) show ?thesis by auto
qed

end
