(* ===== verification/Lua_Tablib.thy ===== *)
theory Lua_Tablib
  imports Lua_Sort Lua_Buffer
begin

text \<open>
  The table library (\<^verbatim>\<open>ltablib.c\<close>) without \<^verbatim>\<open>sort\<close>, which has a theory of its own. A traversal that calls a function has an explicit bound, as that
  function may change the table; the loops over indices are bounded by their limits.
\<close>

primrec foreachi_loop :: "program \<Rightarrow> nat \<Rightarrow> int \<Rightarrow> int \<Rightarrow> nat lua" where
  "foreachi_loop prog 0 i n = lret 0"
| "foreachi_loop prog (Suc f) i n =
     (if i \<le> n then
        lbind (lseq [lua_pushvalue 2, lua_pushinteger i, lua_rawgeti 1 i, lua_call prog 2 1]) (\<lambda>_.
        lbind (lua_isnil (- 1)) (\<lambda>b.
          if \<not> b then lret 1 else lbind (lua_pop 1) (\<lambda>_. foreachi_loop prog f (i + 1) n)))
      else lret 0)"

definition foreachi :: "program \<Rightarrow> C_function" where
  "foreachi prog =
     lbind (aux_getn 1) (\<lambda>n. lbind (luaL_checktype 2 6) (\<lambda>_. foreachi_loop prog (nat n) 1 n))"

primrec foreach_loop :: "program \<Rightarrow> nat \<Rightarrow> nat lua" where
  "foreach_loop prog 0 = lthrow NoFuel"
| "foreach_loop prog (Suc f) =
     lbind (lua_next 1) (\<lambda>more.
       if more then
         lbind (lseq [lua_pushvalue 2, lua_pushvalue (- 3), lua_pushvalue (- 3), lua_call prog 2 1]) (\<lambda>_.
         lbind (lua_isnil (- 1)) (\<lambda>b.
           if \<not> b then lret 1 else lbind (lua_pop 2) (\<lambda>_. foreach_loop prog f)))
       else lret 0)"

definition foreach :: "program \<Rightarrow> nat \<Rightarrow> C_function" where
  "foreach prog fuel =
     lbind (luaL_checktype 1 5) (\<lambda>_. lbind (luaL_checktype 2 6) (\<lambda>_. lbind lua_pushnil (\<lambda>_. foreach_loop prog fuel)))"

primrec maxn_loop :: "nat \<Rightarrow> lua_Number \<Rightarrow> lua_Number lua" where
  "maxn_loop 0 m = lthrow NoFuel"
| "maxn_loop (Suc f) m =
     lbind (lua_next 1) (\<lambda>more.
       if more then
         lbind (lua_pop 1) (\<lambda>_. lbind (lua_type (- 1)) (\<lambda>t.
           if t = 3 then lbind (lua_tonumber (- 1)) (\<lambda>v. maxn_loop f (if luai_numlt m v then v else m))
           else maxn_loop f m))
       else lret m)"

text \<open>A traversal of a table that nobody changes has at most one step for each slot, and the last one.\<close>

definition maxn :: C_function where
  "maxn =
     lbind (luaL_checktype 1 5) (\<lambda>_. lbind lua_pushnil (\<lambda>_.
     lbind (lbind (lua_value 1) (\<lambda>v. lbind (table_at v) (\<lambda>(_, t). lret (Suc (sizearray t + sizenode t))))) (\<lambda>f.
     lbind (maxn_loop f 0) (\<lambda>m. lbind (lua_pushnumber m) (\<lambda>_. lret 1)))))"

definition getn :: C_function where
  "getn = lbind (aux_getn 1) (\<lambda>n. lbind (lua_pushinteger n) (\<lambda>_. lret 1))"

definition setn :: C_function where
  "setn =
     lbind (luaL_checktype 1 5) (\<lambda>_. lbind (luaL_error (quoted ''setn'' @ str '' is obsolete'') []) (\<lambda>_ :: unit.
     lbind (lua_pushvalue 1) (\<lambda>_. lret 1)))"

text \<open>Moves the elements from \<open>i - n\<close> to \<open>i - 1\<close> up by one, the last one first.\<close>

primrec move_up :: "nat \<Rightarrow> int \<Rightarrow> unit lua" where
  "move_up 0 i = lret ()"
| "move_up (Suc n) i = lbind (lseq [lua_rawgeti 1 (i - 1), lua_rawseti 1 i]) (\<lambda>_. move_up n (i - 1))"

definition tinsert :: C_function where
  "tinsert =
     lbind (aux_getn 1) (\<lambda>n.
     let e = n + 1 in
     lbind lua_gettop (\<lambda>top.
     lbind (if top = 2 then lret e
            else if top = 3 then
              lbind (luaL_checkint 2) (\<lambda>pos.
              let e' = (if pos > e then pos else e) in
              lbind (move_up (nat (e' - pos)) e') (\<lambda>_. lret pos))
            else luaL_error (str ''wrong number of arguments to '' @ quoted ''insert'') []) (\<lambda>pos.
     lbind (lua_rawseti 1 pos) (\<lambda>_. lret 0))))"

text \<open>Moves the \<open>n\<close> elements behind \<open>i\<close> down by one.\<close>

primrec move_down :: "nat \<Rightarrow> int \<Rightarrow> unit lua" where
  "move_down 0 i = lret ()"
| "move_down (Suc n) i = lbind (lseq [lua_rawgeti 1 (i + 1), lua_rawseti 1 i]) (\<lambda>_. move_down n (i + 1))"

definition tremove :: C_function where
  "tremove =
     lbind (aux_getn 1) (\<lambda>e.
     lbind (luaL_optint 2 e) (\<lambda>pos.
       if \<not> (1 \<le> pos \<and> pos \<le> e) then lret 0
       else lbind (lseq [lua_rawgeti 1 pos, move_down (nat (e - pos)) pos, lua_pushnil, lua_rawseti 1 e]) (\<lambda>_. lret 1)))"

definition addfield :: "program \<Rightarrow> luaL_Buffer \<Rightarrow> int \<Rightarrow> luaL_Buffer lua" where
  "addfield prog b i =
     lbind (lua_rawgeti 1 i) (\<lambda>_.
     lbind (lua_isstring (- 1)) (\<lambda>ok.
     lbind (if \<not> ok then lbind (lua_type (- 1)) (\<lambda>t.
              luaL_error (str ''invalid value (%s) at index %d in table for '' @ quoted ''concat'') [FStr (Some (lua_typename t)), FInt i])
            else lret ()) (\<lambda>_. luaL_addvalue prog b)))"

primrec concat_fields :: "program \<Rightarrow> bytes \<Rightarrow> nat \<Rightarrow> int \<Rightarrow> luaL_Buffer \<Rightarrow> luaL_Buffer lua" where
  "concat_fields prog sep 0 i b = lret b"
| "concat_fields prog sep (Suc n) i b =
     lbind (addfield prog b i) (\<lambda>b1. lbind (luaL_addlstring prog sep b1) (\<lambda>b2. concat_fields prog sep n (i + 1) b2))"

definition tconcat :: "program \<Rightarrow> C_function" where
  "tconcat prog =
     lbind (luaL_optlstring 2 []) (\<lambda>sep.
     lbind (luaL_checktype 1 5) (\<lambda>_.
     lbind (luaL_optint 3 1) (\<lambda>i.
     lbind (lbind (lua_isnoneornil 4) (\<lambda>b. if b then luaL_getn 1 else luaL_checkint 4)) (\<lambda>last_index.
     lbind (concat_fields prog sep (nat (last_index - i)) i luaL_buffinit) (\<lambda>b.
     lbind (if i \<le> last_index then addfield prog b last_index else lret b) (\<lambda>b1.
     lbind (luaL_pushresult prog b1) (\<lambda>_. lret 1)))))))"

end
