(* ===== verification/Lua_Tablib_Run.thy ===== *)
theory Lua_Tablib_Run
  imports Lua_Tablib Lua_Sort_Props
begin

text \<open>The functions of the table library on the stack and the heap. A table argument is at index 1 of the stack; \<open>entry t i\<close> is its element \<open>i\<close>.\<close>

definition entry :: "Table \<Rightarrow> int \<Rightarrow> TValue" where
  "entry t i = tget t (ikey i)"

text \<open>\<open>t'\<close> has the elements \<open>A\<close> at the indices 1 to \<open>n\<close>, and is \<open>t\<close> elsewhere.\<close>

definition changed :: "int \<Rightarrow> Table \<Rightarrow> (int \<Rightarrow> TValue) \<Rightarrow> Table \<Rightarrow> bool" where
  "changed n t A t' \<longleftrightarrow> wf_table t' \<and> (\<forall>i. 1 \<le> i \<longrightarrow> i \<le> n \<longrightarrow> entry t' i = A i) \<and>
     (\<forall>k. valid_key k \<longrightarrow> (\<forall>i. 1 \<le> i \<longrightarrow> i \<le> n \<longrightarrow> \<not> luaO_rawequalObj k (ikey i)) \<longrightarrow> tget t' k = tget t k)"

definition with_table :: "lua_State \<Rightarrow> addr \<Rightarrow> Table \<Rightarrow> TValue list \<Rightarrow> lua_State" where
  "with_table s a t xs = s\<lparr>l_heap := (l_heap s)(a \<mapsto> t), l_stack := LTable a # xs\<rparr>"

lemma with_table_fields [simp]: "l_stack (with_table s a t xs) = LTable a # xs" "l_heap (with_table s a t xs) a = Some t"
  "(with_table s a t xs)\<lparr>l_stack := LTable a # ys\<rparr> = with_table s a t ys"
  "(with_table s a t xs)\<lparr>l_heap := (l_heap (with_table s a t xs))(a \<mapsto> t')\<rparr> = with_table s a t' xs"
  by (simp_all add: with_table_def)

lemma with_table_self: "l_heap s a = Some t \<Longrightarrow> l_stack s = LTable a # xs \<Longrightarrow> s = with_table s a t xs"
  by (cases s) (auto simp: with_table_def fun_upd_idem)

lemma rawgeti_table:
  assumes "wf_table t" "1 \<le> i" "i < 2 ^ 31"
  shows "lua_rawgeti 1 i (with_table s a t xs) = (Inr (), with_table s a t (xs @ [entry t i]))"
proof -
  have k: "valid_key (ikey i)" by (rule ikey_valid) (use assms in simp_all)
  have "luaH_getnum t i = Inr (find_key t (ikey i))" using luaH_getnum_find [OF assms(1), of i] assms(2,3) by (simp add: ikey_def)
  then show ?thesis using tget_find [OF assms(1) k] by (simp add: lua_rawgeti_def api lbind_run entry_def)
qed

lemma rawseti_table:
  assumes wf: "wf_table t" and i: "1 \<le> i" "i < 2 ^ 31"
  obtains t' where "lua_rawseti 1 i (with_table s a t (xs @ [v])) = (Inr (), with_table s a t' xs)" "assigned t (ikey i) v t'"
  | "lua_rawseti 1 i (with_table s a t (xs @ [v])) = (Inl (LuaError (LString (str ''table overflow''))), with_table s a t (xs @ [v]))"
proof -
  have "- (2 ^ 31) \<le> i" using i by simp
  from wf this i(2) show ?thesis
  proof (cases rule: luaH_setnum_spec [where v = v])
    case (1 t' p)
    then show ?thesis using that(1) [of "slot_set t' p v"] by (simp add: lua_rawseti_def api lbind_run ikey_def)
  next
    case 2
    then show ?thesis using that(2) by (simp add: lua_rawseti_def api lbind_run)
  qed
qed

lemma changed_refl: "wf_table t \<Longrightarrow> changed n t (entry t) t"
  by (simp add: changed_def)

lemma changed_assign:
  assumes c: "changed n t A t1" and i: "1 \<le> i" "i \<le> n" and n: "n < 2 ^ 31" and as: "assigned t1 (ikey i) v t2"
  shows "changed n t (A(i := v)) t2"
  unfolding changed_def
proof (intro conjI allI impI)
  show "wf_table t2" using as by (simp add: assigned_def)
  fix j assume j: "1 \<le> j" "j \<le> n"
  have "valid_key (ikey j)" by (rule ikey_valid) (use j n in simp_all)
  then have "entry t2 j = (if j = i then v else entry t1 j)" using as ikey_eq [of j i] i j n by (simp add: assigned_def entry_def)
  then show "entry t2 j = (A(i := v)) j" using c j by (simp add: changed_def)
next
  fix k assume k: "valid_key k" "\<forall>i. 1 \<le> i \<longrightarrow> i \<le> n \<longrightarrow> \<not> luaO_rawequalObj k (ikey i)"
  then show "tget t2 k = tget t k" using as c i by (simp add: assigned_def changed_def)
qed

subsection \<open>Moving elements\<close>

definition overflows :: "(exn + 'a) \<times> lua_State \<Rightarrow> bool" where
  "overflows r \<longleftrightarrow> fst r = Inl (LuaError (LString (str ''table overflow'')))"

lemma overflows_bind: "overflows (m s) \<Longrightarrow> overflows (lbind m f s)"
  by (cases "m s") (auto simp: overflows_def lbind_def)

lemma copy_entry:
  assumes c: "changed n t A t1" and i: "1 \<le> i" "i \<le> n" "1 \<le> j" "j \<le> n" and n: "n < 2 ^ 31"
  shows "overflows (lseq [lua_rawgeti 1 i, lua_rawseti 1 j] (with_table s a t1 xs)) \<or>
    (\<exists>t2. lseq [lua_rawgeti 1 i, lua_rawseti 1 j] (with_table s a t1 xs) = (Inr (), with_table s a t2 xs) \<and> changed n t (A(j := A i)) t2)"
proof -
  have wf: "wf_table t1" and v: "entry t1 i = A i" using c i by (simp_all add: changed_def)
  note g = rawgeti_table [OF wf i(1), of s a xs]
  have "j < 2 ^ 31" using i n by simp
  with wf i(3) show ?thesis
  proof (cases rule: rawseti_table [where s = s and a = a and xs = xs and v = "entry t1 i"])
    case (1 t2)
    then show ?thesis using g i n changed_assign [OF c i(3,4) n 1(2)] v by (auto simp: lbind_run)
  next
    case 2
    then show ?thesis using g i n by (simp add: lbind_run overflows_def)
  qed
qed

lemma move_up_run:
  assumes n: "n < 2 ^ 31"
  shows "changed n t A t1 \<Longrightarrow> 1 \<le> i - int m \<Longrightarrow> i \<le> n \<Longrightarrow>
    overflows (move_up m i (with_table s a t1 xs)) \<or>
    (\<exists>t2. move_up m i (with_table s a t1 xs) = (Inr (), with_table s a t2 xs) \<and>
      changed n t (\<lambda>j. if i - int m < j \<and> j \<le> i then A (j - 1) else A j) t2)"
proof (induction m arbitrary: i A t1)
  case 0
  moreover have "(\<lambda>j. if i - int 0 < j \<and> j \<le> i then A (j - 1) else A j) = A" by (rule ext) auto
  ultimately show ?case by auto
next
  case (Suc m)
  have b: "1 \<le> i - 1" "i - 1 \<le> n" "1 \<le> i" "i \<le> n" using Suc.prems by simp_all
  from copy_entry [OF Suc.prems(1) b n, of s a xs] show ?case
  proof
    assume "overflows (lseq [lua_rawgeti 1 (i - 1), lua_rawseti 1 i] (with_table s a t1 xs))"
    then show ?thesis unfolding move_up.simps by (intro disjI1 overflows_bind)
  next
    assume "\<exists>t2. lseq [lua_rawgeti 1 (i - 1), lua_rawseti 1 i] (with_table s a t1 xs) = (Inr (), with_table s a t2 xs) \<and>
      changed n t (A(i := A (i - 1))) t2"
    then obtain t2 where t2: "lseq [lua_rawgeti 1 (i - 1), lua_rawseti 1 i] (with_table s a t1 xs) = (Inr (), with_table s a t2 xs)"
      "changed n t (A(i := A (i - 1))) t2" by blast
    have e: "(\<lambda>j. if i - 1 - int m < j \<and> j \<le> i - 1 then (A(i := A (i - 1))) (j - 1) else (A(i := A (i - 1))) j)
      = (\<lambda>j. if i - int (Suc m) < j \<and> j \<le> i then A (j - 1) else A j)" by (auto simp: fun_eq_iff)
    have "move_up (Suc m) i (with_table s a t1 xs) = move_up m (i - 1) (with_table s a t2 xs)" using t2(1) by (simp del: lseq.simps)
    then show ?thesis using Suc.IH [OF t2(2), of "i - 1"] Suc.prems(2,3) unfolding e by simp
  qed
qed

lemma move_down_run:
  assumes n: "n < 2 ^ 31"
  shows "changed n t A t1 \<Longrightarrow> 1 \<le> i \<Longrightarrow> i + int m \<le> n \<Longrightarrow>
    overflows (move_down m i (with_table s a t1 xs)) \<or>
    (\<exists>t2. move_down m i (with_table s a t1 xs) = (Inr (), with_table s a t2 xs) \<and>
      changed n t (\<lambda>j. if i \<le> j \<and> j < i + int m then A (j + 1) else A j) t2)"
proof (induction m arbitrary: i A t1)
  case 0
  moreover have "(\<lambda>j. if i \<le> j \<and> j < i + int 0 then A (j + 1) else A j) = A" by (rule ext) auto
  ultimately show ?case by auto
next
  case (Suc m)
  have b: "1 \<le> i + 1" "i + 1 \<le> n" "1 \<le> i" "i \<le> n" using Suc.prems by simp_all
  from copy_entry [OF Suc.prems(1) b n, of s a xs] show ?case
  proof
    assume "overflows (lseq [lua_rawgeti 1 (i + 1), lua_rawseti 1 i] (with_table s a t1 xs))"
    then show ?thesis unfolding move_down.simps by (intro disjI1 overflows_bind)
  next
    assume "\<exists>t2. lseq [lua_rawgeti 1 (i + 1), lua_rawseti 1 i] (with_table s a t1 xs) = (Inr (), with_table s a t2 xs) \<and>
      changed n t (A(i := A (i + 1))) t2"
    then obtain t2 where t2: "lseq [lua_rawgeti 1 (i + 1), lua_rawseti 1 i] (with_table s a t1 xs) = (Inr (), with_table s a t2 xs)"
      "changed n t (A(i := A (i + 1))) t2" by blast
    have e: "(\<lambda>j. if i + 1 \<le> j \<and> j < i + 1 + int m then (A(i := A (i + 1))) (j + 1) else (A(i := A (i + 1))) j)
      = (\<lambda>j. if i \<le> j \<and> j < i + int (Suc m) then A (j + 1) else A j)" by (auto simp: fun_eq_iff)
    have "move_down (Suc m) i (with_table s a t1 xs) = move_down m (i + 1) (with_table s a t2 xs)" using t2(1) by (simp del: lseq.simps)
    then show ?thesis using Suc.IH [OF t2(2), of "i + 1"] Suc.prems(2,3) unfolding e by simp
  qed
qed

lemma aux_getn_run:
  assumes "luaH_getn t = Inr n" "n < MAX_INT"
  shows "aux_getn 1 (with_table s a t xs) = (Inr (int n), with_table s a t xs)"
proof -
  have "n < 2 ^ 31" using assms(2) by (simp add: MAX_INT_def)
  then have "sint (of_nat n :: 32 word) = int n" by (simp add: signed_of_nat signed_take_bit_int_eq_self)
  then show ?thesis
    using assms(1) by (simp add: aux_getn_def luaL_checktype_def lua_type_def luaL_getn_def lua_objlen_def api)
qed

subsection \<open>Concatenation\<close>

definition joined :: "bytes \<Rightarrow> bytes list \<Rightarrow> bytes" where
  "joined sep xs = concat (map (\<lambda>x. x @ sep) xs)"

text \<open>While the result is built, the table is at index 1 and its pieces are above the arguments.\<close>

lemma addfield_run:
  assumes b: "buffered st B s bs" and st: "l_stack st = LTable a # args" and t: "l_heap st a = Some t" and wf: "wf_table t"
    and i: "1 \<le> i" "i < 2 ^ 31" and v: "entry t i = LString x" and small: "length bs + length x < MAX_SIZET"
  obtains B' s' where "addfield prog B i s = (Inr B', s')" "buffered st B' s' (bs @ x)"
proof -
  obtain ps where s: "s = Lua_Buffer.holds st (l_stack st @ map LString ps)" using b by (auto simp: buffered_def)
  have "s = with_table s a t (args @ map LString ps)" by (rule with_table_self) (use s st t in \<open>simp_all add: Lua_Buffer.holds_def\<close>)
  then have "lua_rawgeti 1 i s = (Inr (), with_table s a t ((args @ map LString ps) @ [LString x]))"
    using rawgeti_table [OF wf i, of s a "args @ map LString ps"] v by simp
  moreover have "with_table s a t ((args @ map LString ps) @ [LString x]) = Lua_Buffer.holds s (l_stack s @ [LString x])"
    using s st t by (cases st) (simp add: with_table_def Lua_Buffer.holds_def fun_upd_idem)
  ultimately have g: "lua_rawgeti 1 i s = (Inr (), Lua_Buffer.holds s (l_stack s @ [LString x]))" by simp
  obtain B' s' where r: "luaL_addvalue prog B (Lua_Buffer.holds s (l_stack s @ [LString x])) = (Inr B', s')" "buffered st B' s' (bs @ x)"
    by (rule addvalue_run [OF b small])
  have "lua_isstring (- 1) (Lua_Buffer.holds s (l_stack s @ [LString x])) = (Inr True, Lua_Buffer.holds s (l_stack s @ [LString x]))"
    by (simp add: lua_isstring_def lua_type_def api)
  then have "addfield prog B i s = (Inr B', s')" using g r(1) by (simp add: addfield_def lbind_run)
  then show ?thesis using r(2) by (rule that)
qed

lemma concat_fields_run:
  assumes st: "l_stack st = LTable a # args" and t: "l_heap st a = Some t" and wf: "wf_table t"
  shows "buffered st B s bs \<Longrightarrow> 1 \<le> i \<Longrightarrow> i + int (length xs) < 2 ^ 31 \<Longrightarrow> (\<forall>k < length xs. entry t (i + int k) = LString (xs ! k)) \<Longrightarrow>
    length bs + length (joined sep xs) < MAX_SIZET \<Longrightarrow>
    \<exists>B' s'. concat_fields prog sep (length xs) i B s = (Inr B', s') \<and> buffered st B' s' (bs @ joined sep xs)"
proof (induction xs arbitrary: i B s bs)
  case Nil
  then show ?case by (simp add: joined_def)
next
  case (Cons x xs)
  have v: "entry t i = LString x" using spec [OF Cons.prems(4), of 0] by simp
  obtain B1 s1 where 1: "addfield prog B i s = (Inr B1, s1)" "buffered st B1 s1 (bs @ x)"
    by (rule addfield_run [OF Cons.prems(1) st t wf Cons.prems(2) _ v]) (use Cons.prems(3,5) in \<open>simp_all add: joined_def\<close>)
  obtain B2 s2 where 2: "luaL_addlstring prog sep B1 s1 = (Inr B2, s2)" "buffered st B2 s2 ((bs @ x) @ sep)"
    using addlstring_run [OF 1(2), of sep prog] Cons.prems(5) by (auto simp: joined_def)
  have "\<forall>k < length xs. entry t (i + 1 + int k) = LString (xs ! k)"
  proof (intro allI impI)
    fix k assume "k < length xs"
    then have "entry t (i + int (Suc k)) = LString ((x # xs) ! Suc k)" using Cons.prems(4) by fastforce
    then show "entry t (i + 1 + int k) = LString (xs ! k)" by (simp add: algebra_simps)
  qed
  then obtain B3 s3 where "concat_fields prog sep (length xs) (i + 1) B2 s2 = (Inr B3, s3)" "buffered st B3 s3 (((bs @ x) @ sep) @ joined sep xs)"
    using Cons.IH [OF 2(2), of "i + 1"] Cons.prems(2,3,5) by (auto simp: joined_def)
  then show ?case using 1(1) 2(1) by (simp add: lbind_run joined_def)
qed

end
