(* ===== verification/Tablib_Props.thy ===== *)
theory Tablib_Props
  imports Lua_Tablib_Run Lua_Table_Props String_Props
begin

text \<open>What the functions of the table library promise.\<close>

subsection \<open>table.insert and table.remove\<close>

text \<open>
  C37. \<^verbatim>\<open>table.insert(t, pos, v)\<close>, at a position from 1 to one past the length, moves the elements from \<open>pos\<close> on up by one and stores \<open>v\<close> at \<open>pos\<close>; no other
  key of the table changes, and no other table. The only other outcome is the error of a table that cannot grow.
\<close>

theorem tinsert_shifts_up:
  assumes st: "l_stack s = [LTable a, p, v]" and t: "l_heap s a = Some t" "wf_table t" and n: "luaH_getn t = Inr n"
    and pos: "luaL_checkint 2 s = (Inr pos, s)" "1 \<le> pos" "pos \<le> int n + 1"
  shows "overflows (tinsert s) \<or>
    (\<exists>t'. tinsert s = (Inr 0, s\<lparr>l_heap := (l_heap s)(a \<mapsto> t'), l_stack := [LTable a, p]\<rparr>) \<and> wf_table t' \<and>
      (\<forall>i. 1 \<le> i \<longrightarrow> i \<le> int n + 1 \<longrightarrow> entry t' i = (if i < pos then entry t i else if i = pos then v else entry t (i - 1))) \<and>
      (\<forall>k. valid_key k \<longrightarrow> (\<forall>i. 1 \<le> i \<longrightarrow> i \<le> int n + 1 \<longrightarrow> \<not> luaO_rawequalObj k (ikey i)) \<longrightarrow> tget t' k = tget t k))"
proof -
  let ?e = "int n + 1"
  have s: "s = with_table s a t [p, v]" by (rule with_table_self [OF t(1) st])
  have nm: "n < MAX_INT" using luaH_getn_spec [OF t(2)] n by auto
  then have e: "?e < 2 ^ 31" by (simp add: MAX_INT_def)
  have g: "aux_getn 1 s = (Inr (int n), s)" using aux_getn_run [OF n nm, of s a "[p, v]"] s by simp
  have start: "tinsert s = lbind (move_up (nat (?e - pos)) ?e) (\<lambda>_. lbind (lua_rawseti 1 pos) (\<lambda>_. lret 0)) s"
    using g pos st by (simp add: tinsert_def lua_gettop_def Let_def lbind_run split: prod.splits sum.splits)
  let ?A = "\<lambda>j. if pos < j \<and> j \<le> ?e then entry t (j - 1) else entry t j"
  have "overflows (move_up (nat (?e - pos)) ?e (with_table s a t [p, v])) \<or>
    (\<exists>t2. move_up (nat (?e - pos)) ?e (with_table s a t [p, v]) = (Inr (), with_table s a t2 [p, v]) \<and> changed ?e t ?A t2)"
    using move_up_run [OF e changed_refl [OF t(2)], of ?e "nat (?e - pos)" s a "[p, v]"] pos(2,3) by simp
  then consider "overflows (move_up (nat (?e - pos)) ?e s)"
    | t2 where "move_up (nat (?e - pos)) ?e s = (Inr (), with_table s a t2 [p, v])" "changed ?e t ?A t2" by (auto simp: s [symmetric])
  then show ?thesis
  proof cases
    case 1
    then show ?thesis unfolding start by (simp add: overflows_bind)
  next
    case (2 t2)
    have w2: "wf_table t2" and pb: "pos < 2 ^ 31" using 2(2) pos(3) e by (simp_all add: changed_def)
    from w2 pos(2) pb show ?thesis
    proof (cases rule: rawseti_table [where s = s and a = a and xs = "[p]" and v = v])
      case (1 t3)
      have c: "changed ?e t (?A(pos := v)) t3" by (rule changed_assign [OF 2(2) pos(2,3) e 1(2)])
      have "tinsert s = (Inr 0, with_table s a t3 [p])" unfolding start using 2(1) 1(1) by (simp add: lbind_run)
      then show ?thesis using c pos(2,3) by (intro disjI2 exI [of _ t3]) (auto simp: with_table_def changed_def)
    next
      case 2
      then show ?thesis unfolding start using \<open>move_up _ _ s = _\<close> by (simp add: lbind_run overflows_def)
    qed
  qed
qed

text \<open>
  C38. \<^verbatim>\<open>table.remove(t, pos)\<close>, at a position within the length, returns the element there, moves the elements behind it down by one and clears the last
  one; no other key of the table changes.
\<close>

theorem tremove_shifts_down:
  assumes st: "l_stack s = [LTable a, p]" and t: "l_heap s a = Some t" "wf_table t" and n: "luaH_getn t = Inr n"
    and pos: "luaL_optint 2 (int n) s = (Inr pos, s)" "1 \<le> pos" "pos \<le> int n"
  shows "overflows (tremove s) \<or>
    (\<exists>t'. tremove s = (Inr 1, s\<lparr>l_heap := (l_heap s)(a \<mapsto> t'), l_stack := [LTable a, p, entry t pos]\<rparr>) \<and> wf_table t' \<and>
      (\<forall>i. 1 \<le> i \<longrightarrow> i \<le> int n \<longrightarrow> entry t' i = (if i < pos then entry t i else if i < int n then entry t (i + 1) else LNil)) \<and>
      (\<forall>k. valid_key k \<longrightarrow> (\<forall>i. 1 \<le> i \<longrightarrow> i \<le> int n \<longrightarrow> \<not> luaO_rawequalObj k (ikey i)) \<longrightarrow> tget t' k = tget t k))"
proof -
  have s: "s = with_table s a t [p]" by (rule with_table_self [OF t(1) st])
  have nm: "n < MAX_INT" using luaH_getn_spec [OF t(2)] n by auto
  then have e: "int n < 2 ^ 31" by (simp add: MAX_INT_def)
  have g: "aux_getn 1 s = (Inr (int n), s)" using aux_getn_run [OF n nm, of s a "[p]"] s by simp
  have "pos < 2 ^ 31" using pos(3) e by simp
  then have r: "lua_rawgeti 1 pos s = (Inr (), with_table s a t [p, entry t pos])"
    using rawgeti_table [OF t(2) pos(2), of s a "[p]"] s by simp
  have start: "tremove s = lbind (move_down (nat (int n - pos)) pos) (\<lambda>_. lbind (lseq [lua_pushnil, lua_rawseti 1 (int n)]) (\<lambda>_. lret 1))
      (with_table s a t [p, entry t pos])"
    using g pos r by (simp add: tremove_def lbind_run split: prod.splits sum.splits)
  let ?A = "\<lambda>j. if pos \<le> j \<and> j < int n then entry t (j + 1) else entry t j"
  have "overflows (move_down (nat (int n - pos)) pos (with_table s a t [p, entry t pos])) \<or>
    (\<exists>t2. move_down (nat (int n - pos)) pos (with_table s a t [p, entry t pos]) = (Inr (), with_table s a t2 [p, entry t pos]) \<and> changed (int n) t ?A t2)"
    using move_down_run [OF e changed_refl [OF t(2)] pos(2), of "nat (int n - pos)" s a "[p, entry t pos]"] pos(3) by simp
  then show ?thesis
  proof (elim disjE exE conjE)
    assume "overflows (move_down (nat (int n - pos)) pos (with_table s a t [p, entry t pos]))"
    then show ?thesis unfolding start by (simp add: overflows_bind)
  next
    fix t2 assume m: "move_down (nat (int n - pos)) pos (with_table s a t [p, entry t pos]) = (Inr (), with_table s a t2 [p, entry t pos])"
      and c2: "changed (int n) t ?A t2"
    have w2: "wf_table t2" and n1: "1 \<le> int n" using c2 pos by (simp_all add: changed_def)
    have nil: "lua_pushnil (with_table s a t2 [p, entry t pos]) = (Inr (), with_table s a t2 ([p, entry t pos] @ [LNil]))" by (simp add: api)
    from w2 n1 e show ?thesis
    proof (cases rule: rawseti_table [where s = s and a = a and xs = "[p, entry t pos]" and v = LNil])
      case (1 t3)
      have c: "changed (int n) t (?A(int n := LNil)) t3" by (rule changed_assign [OF c2 n1 order_refl e 1(2)])
      have "tremove s = (Inr 1, with_table s a t3 [p, entry t pos])" unfolding start using m nil 1(1) by (simp add: lbind_run)
      then show ?thesis using c pos(2,3) by (intro disjI2 exI [of _ t3]) (auto simp: with_table_def changed_def)
    next
      case 2
      then show ?thesis unfolding start using m nil by (simp add: lbind_run overflows_def)
    qed
  qed
qed

subsection \<open>table.concat\<close>

text \<open>
  C39. \<^verbatim>\<open>table.concat(t, sep)\<close> on a table whose elements 1 to \<open>n\<close>, its length, are strings returns these strings in their order with \<open>sep\<close> between
  each two of them, and leaves table and arguments as they are.
\<close>

theorem tconcat_joins:
  assumes st: "l_stack s = [LTable a, LString sep]" and t: "l_heap s a = Some t" "wf_table t" and n: "luaH_getn t = Inr (Suc m)"
    and xs: "length xs = m" "\<forall>k < m. entry t (1 + int k) = LString (xs ! k)" "entry t (int (Suc m)) = LString x"
    and len: "length (joined sep xs) + length x < MAX_SIZET"
  shows "tconcat prog s = (Inr 1, s\<lparr>l_stack := [LTable a, LString sep, LString (joined sep xs @ x)]\<rparr>)"
proof -
  have nm: "Suc m < MAX_INT" using luaH_getn_spec [OF t(2)] n by auto
  then have m: "Suc m < 2 ^ 31" by (simp add: MAX_INT_def)
  have gn: "luaL_getn 1 s = (Inr (int (Suc m)), s)"
    using st t(1) n m by (simp add: luaL_getn_def lua_objlen_def api signed_of_nat signed_take_bit_int_eq_self del: of_nat_Suc)
  have "lua_isnoneornil 2 s = (Inr False, s)" using st by (simp add: lua_isnoneornil_def lua_type_def api)
  moreover have "luaL_checklstring 2 s = (Inr sep, s)" using st by (simp add: luaL_checklstring_def lua_tolstring_def api)
  ultimately have arg2: "luaL_optlstring 2 [] s = (Inr sep, s)" by (simp add: luaL_optlstring_def lbind_run)
  have args: "luaL_checktype 1 5 s = (Inr (), s)" "luaL_optint 3 1 s = (Inr 1, s)"
    "lua_isnoneornil 4 s = (Inr True, s)"
    using st by (simp_all add: luaL_checktype_def lua_type_def luaL_optint_def arg_none
      lua_isnoneornil_def LUA_TNONE_def api)
  obtain B1 s1 where 1: "concat_fields prog sep (length xs) 1 luaL_buffinit s = (Inr B1, s1)" "buffered s B1 s1 ([] @ joined sep xs)"
    using concat_fields_run [OF st t buffered_init, of 1 xs sep prog] xs m len by auto
  have b1: "buffered s B1 s1 (joined sep xs)" using 1(2) by simp
  obtain B2 s2 where 2: "addfield prog B1 (int (Suc m)) s1 = (Inr B2, s2)" "buffered s B2 s2 (joined sep xs @ x)"
    by (rule addfield_run [OF b1 st t _ _ xs(3) len]) (use m in simp_all)
  have "luaL_pushresult prog B2 s2 = (Inr (), Lua_Buffer.holds s (l_stack s @ [LString (joined sep xs @ x)]))"
    by (rule pushresult_run [OF 2(2)]) (use len in simp)
  then show ?thesis using arg2 args gn 1(1) 2(1) xs(1) st by (simp add: tconcat_def lbind_run Lua_Buffer.holds_def)
qed

subsection \<open>The properties on concrete tables\<close>

text \<open>The array of two strings, \<^verbatim>\<open>{"a", "b"}\<close>.\<close>

definition two_words :: Table where
  "two_words = \<lparr>t_flags = 0, t_lsizenode = 0, t_metatable = None, t_array = [LString [97], LString [98]], t_node = None, t_lastfree = 0\<rparr>"

lemma two_words_sizes [simp]: "sizenode two_words = 1" "sizearray two_words = 2" "gnode two_words 0 = dummynode"
  by (simp_all add: two_words_def sizenode_def twoto_def sizearray_def gnode_def nodes_def)

lemma two_words_wf: "wf_table two_words"
  unfolding wf_table_def chain_inv_def
  by (simp add: less_2_cases_iff dummynode_def in_array_def)
    (simp add: wf_shape_def sizearray_def two_words_def MAXBITS_def sizenode_def twoto_def)

lemma two_words_getn: "luaH_getn two_words = Inr (Suc 1)"
  by (simp add: luaH_getn_def) (simp add: two_words_def)

lemma two_words_entry: "entry two_words 1 = LString [97]" "entry two_words 2 = LString [98]"
proof -
  have a: "entry two_words i = t_array two_words ! (nat i - 1)" if i: "i = 1 \<or> i = 2" for i
  proof -
    have "arrayindex (ikey i) = i" using arrayindex_index [of "nat i - 1"] i by (auto simp: ikey_def)
    then have "find_key two_words (ikey i) = Some (SArray (nat i - 1))" using i by (auto simp: find_key_def in_array_def)
    then show ?thesis using tget_find [OF two_words_wf ikey_valid, of i] i by (auto simp: slot_value_def entry_def)
  qed
  show "entry two_words 1 = LString [97]" "entry two_words 2 = LString [98]" by (simp_all add: a) (simp_all add: two_words_def)
qed

text \<open>A state with this table at index 1.\<close>

definition words_state :: "TValue list \<Rightarrow> lua_State" where
  "words_state xs = fresh_state\<lparr>l_stack := LTable 64 # xs, l_heap := [64 \<mapsto> two_words]\<rparr>"

lemma words_state_fields [simp]: "l_stack (words_state xs) = LTable 64 # xs" "l_heap (words_state xs) = [64 \<mapsto> two_words]"
  by (simp_all add: words_state_def)

lemma words_checkint: "luaL_checkint 2 (words_state (LNumber (cast_num 1) # xs)) = (Inr 1, words_state (LNumber (cast_num 1) # xs))"
proof -
  have "lua_number2integer (cast_num 1) = 1" using cast_num_finite(1) [of 1] by (simp add: lua_number2integer_def dbl_to_int_def)
  then show ?thesis by (simp add: luaL_checkint_def luaL_checkinteger_def lua_tointeger_def luaV_tonumber_def api lbind_run)
qed

theorem tinsert_shifts_up_witness:
  "overflows (tinsert (words_state [LNumber (cast_num 1), LBoolean True])) \<or>
    (\<exists>t. l_heap (snd (tinsert (words_state [LNumber (cast_num 1), LBoolean True]))) 64 = Some t \<and>
      entry t 1 = LBoolean True \<and> entry t 2 = LString [97] \<and> entry t 3 = LString [98])"
  using tinsert_shifts_up [of "words_state [LNumber (cast_num 1), LBoolean True]" 64 "LNumber (cast_num 1)" "LBoolean True" two_words, OF _ _ two_words_wf two_words_getn words_checkint]
  by (auto simp: two_words_entry)

theorem tremove_shifts_down_witness:
  "overflows (tremove (words_state [LNumber (cast_num 1)])) \<or>
    (\<exists>t. l_heap (snd (tremove (words_state [LNumber (cast_num 1)]))) 64 = Some t \<and>
      l_stack (snd (tremove (words_state [LNumber (cast_num 1)]))) = [LTable 64, LNumber (cast_num 1), LString [97]] \<and>
      entry t 1 = LString [98] \<and> entry t 2 = LNil)"
proof -
  have "luaL_optint 2 (int (Suc 1)) (words_state [LNumber (cast_num 1)]) = (Inr 1, words_state [LNumber (cast_num 1)])"
    using words_checkint [of "[]"]
    by (simp add: luaL_optint_def luaL_optinteger_def lua_isnoneornil_def lua_type_def luaL_checkint_def api lbind_run)
  from tremove_shifts_down [of "words_state [LNumber (cast_num 1)]" 64 "LNumber (cast_num 1)" two_words, OF _ _ two_words_wf two_words_getn this]
  show ?thesis by (auto simp: two_words_entry)
qed

theorem tconcat_joins_witness:
  "tconcat (\<lambda>_. lundef) (words_state [LString [44]]) = (Inr 1, words_state [LString [44], LString [97, 44, 98]])"
proof -
  have x: "entry two_words (int (Suc 1)) = LString [98]" by (simp add: two_words_entry)
  have "tconcat (\<lambda>_. lundef) (words_state [LString [44]]) =
    (Inr 1, (words_state [LString [44]])\<lparr>l_stack := [LTable 64, LString [44], LString (joined [44] [[97]] @ [98])]\<rparr>)"
    by (rule tconcat_joins [OF _ _ two_words_wf two_words_getn _ _ x]) (simp_all add: two_words_entry joined_def MAX_SIZET_def)
  then show ?thesis by (simp add: joined_def words_state_def)
qed

end
