(* ===== verification/Lua_Gc.thy ===== *)
theory Lua_Gc
  imports Lua_String Lua_Format "HOL-Library.While_Combinator"
begin

text \<open>
  The garbage collector (\<^verbatim>\<open>lgc.c\<close>, \<^verbatim>\<open>lgc.h\<close>) on a heap of its own, in which every collectable object, strings included, has an address, a mark and its
  references. What an object holds besides references is sweep_keeps only where the collector looks at it: the bytes of a string, for the mode of a weak
  table, and sizes. The lists of the collector that C links through the objects are lists of addresses. An operation on an address without an object does
  nothing; that the collector never comes to such an address is a theorem.
\<close>

subsection \<open>Marks\<close>

type_synonym mark = "8 word"

definition WHITEBITS :: mark where "WHITEBITS = 3"
definition BLACKMASK :: mark where "BLACKMASK = 4"
definition FINALIZEDMASK :: mark where "FINALIZEDMASK = 8"
definition KEYWEAK :: mark where "KEYWEAK = 8"
definition VALUEWEAK :: mark where "VALUEWEAK = 16"
definition FIXEDMASK :: mark where "FIXEDMASK = 32"
definition SFIXEDMASK :: mark where "SFIXEDMASK = 64"

lemmas mask_defs = WHITEBITS_def BLACKMASK_def FINALIZEDMASK_def KEYWEAK_def VALUEWEAK_def FIXEDMASK_def SFIXEDMASK_def

definition m_white :: "mark \<Rightarrow> bool" where "m_white m \<longleftrightarrow> m AND WHITEBITS \<noteq> 0"
definition m_black :: "mark \<Rightarrow> bool" where "m_black m \<longleftrightarrow> m AND BLACKMASK \<noteq> 0"
definition m_finalized :: "mark \<Rightarrow> bool" where "m_finalized m \<longleftrightarrow> m AND FINALIZEDMASK \<noteq> 0"

definition m_white2gray :: "mark \<Rightarrow> mark" where "m_white2gray m = m AND NOT WHITEBITS"
definition m_gray2black :: "mark \<Rightarrow> mark" where "m_gray2black m = m OR BLACKMASK"
definition m_black2gray :: "mark \<Rightarrow> mark" where "m_black2gray m = m AND NOT BLACKMASK"
definition m_changewhite :: "mark \<Rightarrow> mark" where "m_changewhite m = m XOR WHITEBITS"

subsection \<open>Objects\<close>

text \<open>A value: \<open>nil\<close>, a value without an object (boolean, number, light userdata), an object with its type tag, and the key of a removed entry.\<close>

datatype gval = GNil | GPlain | GObj nat addr | GDead addr

abbreviation (input) TSTRING :: nat where "TSTRING \<equiv> 4"
abbreviation (input) TTABLE :: nat where "TTABLE \<equiv> 5"
abbreviation (input) TFUNCTION :: nat where "TFUNCTION \<equiv> 6"
abbreviation (input) TUSERDATA :: nat where "TUSERDATA \<equiv> 7"
abbreviation (input) TTHREAD :: nat where "TTHREAD \<equiv> 8"
abbreviation (input) TPROTO :: nat where "TPROTO \<equiv> 9"
abbreviation (input) TUPVAL :: nat where "TUPVAL \<equiv> 10"
abbreviation (input) TDEADKEY :: nat where "TDEADKEY \<equiv> 11"

text \<open>An open upvalue points to a slot of the stack of a thread. A table with \<open>dummynode\<close> has no nodes.\<close>

datatype gupval = UOpen addr nat | UClosed gval

datatype gclosure = CCl (cl_env: addr) "gval list" | LCl (cl_env: addr) addr "addr list"

record gtable =
  h_flags :: "8 word"
  h_metatable :: "addr option"
  h_array :: "gval list"
  h_node :: "(gval \<times> gval) list"

record gthread =
  th_stack :: "gval list"
  th_top :: nat
  th_ci_tops :: "nat list"   \<comment> \<open>\<open>ci->top\<close> from \<open>base_ci\<close> to \<open>ci\<close>\<close>
  th_size_ci :: nat
  th_gt :: gval
  th_openupval :: "addr list"

record gproto =
  gp_source :: "addr option"
  gp_k :: "gval list"
  gp_upvalues :: "addr option list"
  gp_p :: "addr option list"
  gp_locvars :: "addr option list"
  gp_sizecode :: nat
  gp_sizelineinfo :: nat

datatype gbody =
    BString bytes
  | BUdata "addr option" addr nat
  | BUpval gupval
  | BFunction gclosure
  | BTable gtable
  | BThread gthread
  | BProto gproto

fun gc_tt :: "gbody \<Rightarrow> nat" where
  "gc_tt (BString _) = TSTRING"
| "gc_tt (BTable _) = TTABLE"
| "gc_tt (BFunction _) = TFUNCTION"
| "gc_tt (BUdata _ _ _) = TUSERDATA"
| "gc_tt (BThread _) = TTHREAD"
| "gc_tt (BProto _) = TPROTO"
| "gc_tt (BUpval _) = TUPVAL"

record GCObject =
  gc_marked :: mark
  gc_body :: gbody

datatype gcstate = GCSpause | GCSpropagate | GCSsweepstring | GCSsweep | GCSfinalize

text \<open>
  The global state. \<open>g_sweepgc\<close> is the link the sweep has come to: the head of the list of all objects or the field \<open>next\<close> of an object. \<open>g_tmudata\<close> starts
  with the object that is finalized first. \<open>g_mode\<close> and \<open>g_gc\<close> are the names of the events \<^verbatim>\<open>__mode\<close> and \<^verbatim>\<open>__gc\<close>.
\<close>

record gstate =
  g_heap :: "addr \<Rightarrow> GCObject option"
  g_rootgc :: "addr list"
  g_sweepgc :: "addr option"
  g_strt :: "addr list list"
  g_nuse :: nat
  g_sweepstrgc :: nat
  g_gray :: "addr list"
  g_grayagain :: "addr list"
  g_weak :: "addr list"
  g_tmudata :: "addr list"
  g_uvhead :: "addr list"
  g_currentwhite :: mark
  g_gcstate :: gcstate
  g_mainthread :: addr
  g_L :: addr
  g_registry :: gval
  g_mt :: "addr option list"
  g_mode :: addr
  g_gc :: addr
  g_totalbytes :: "64 word"
  g_estimate :: "64 word"
  g_GCthreshold :: "64 word"
  g_gcdept :: "64 word"
  g_gcpause :: int
  g_gcstepmul :: int
  g_buffsize :: nat

definition body :: "gstate \<Rightarrow> addr \<Rightarrow> gbody option" where
  "body g a = map_option gc_body (g_heap g a)"

definition marked :: "gstate \<Rightarrow> addr \<Rightarrow> mark" where
  "marked g a = (case g_heap g a of None \<Rightarrow> 0 | Some ob \<Rightarrow> gc_marked ob)"

definition set_mark :: "addr \<Rightarrow> (mark \<Rightarrow> mark) \<Rightarrow> gstate \<Rightarrow> gstate" where
  "set_mark a f g = (case g_heap g a of None \<Rightarrow> g
     | Some ob \<Rightarrow> g\<lparr>g_heap := (g_heap g)(a \<mapsto> ob\<lparr>gc_marked := f (gc_marked ob)\<rparr>)\<rparr>)"

definition set_body :: "addr \<Rightarrow> gbody \<Rightarrow> gstate \<Rightarrow> gstate" where
  "set_body a b g = (case g_heap g a of None \<Rightarrow> g | Some ob \<Rightarrow> g\<lparr>g_heap := (g_heap g)(a \<mapsto> ob\<lparr>gc_body := b\<rparr>)\<rparr>)"

definition iswhite :: "gstate \<Rightarrow> addr \<Rightarrow> bool" where "iswhite g a \<longleftrightarrow> m_white (marked g a)"
definition isblack :: "gstate \<Rightarrow> addr \<Rightarrow> bool" where "isblack g a \<longleftrightarrow> m_black (marked g a)"
definition isgray :: "gstate \<Rightarrow> addr \<Rightarrow> bool" where "isgray g a \<longleftrightarrow> \<not> isblack g a \<and> \<not> iswhite g a"
definition isfinalized :: "gstate \<Rightarrow> addr \<Rightarrow> bool" where "isfinalized g a \<longleftrightarrow> m_finalized (marked g a)"

definition otherwhite :: "gstate \<Rightarrow> mark" where "otherwhite g = g_currentwhite g XOR WHITEBITS"
definition luaC_white :: "gstate \<Rightarrow> mark" where "luaC_white g = g_currentwhite g AND WHITEBITS"
definition isdead :: "gstate \<Rightarrow> addr \<Rightarrow> bool" where "isdead g a \<longleftrightarrow> marked g a AND otherwhite g AND WHITEBITS \<noteq> 0"

definition white2gray :: "addr \<Rightarrow> gstate \<Rightarrow> gstate" where "white2gray a = set_mark a m_white2gray"
definition gray2black :: "addr \<Rightarrow> gstate \<Rightarrow> gstate" where "gray2black a = set_mark a m_gray2black"
definition black2gray :: "addr \<Rightarrow> gstate \<Rightarrow> gstate" where "black2gray a = set_mark a m_black2gray"
definition stringmark :: "addr \<Rightarrow> gstate \<Rightarrow> gstate" where "stringmark a = set_mark a m_white2gray"
definition changewhite :: "addr \<Rightarrow> gstate \<Rightarrow> gstate" where "changewhite a = set_mark a m_changewhite"
definition markfinalized :: "addr \<Rightarrow> gstate \<Rightarrow> gstate" where "markfinalized a = set_mark a (\<lambda>m. m OR FINALIZEDMASK)"

definition maskmarks :: mark where "maskmarks = NOT (BLACKMASK OR WHITEBITS)"

definition makewhite :: "addr \<Rightarrow> gstate \<Rightarrow> gstate" where
  "makewhite a g = set_mark a (\<lambda>m. (m AND maskmarks) OR luaC_white g) g"

text \<open>A value that an upvalue refers to.\<close>

definition stack_slot :: "gthread \<Rightarrow> nat \<Rightarrow> gval" where
  "stack_slot th i = (if i < length (th_stack th) then th_stack th ! i else GNil)"

fun upval_value :: "gstate \<Rightarrow> gupval \<Rightarrow> gval" where
  "upval_value g (UClosed v) = v"
| "upval_value g (UOpen th i) = (case body g th of Some (BThread t) \<Rightarrow> stack_slot t i | _ \<Rightarrow> GNil)"

subsection \<open>Marking\<close>

text \<open>
  \<open>reallymarkobject\<close> calls itself for the parts of an upvalue and of a userdata only: an upvalue may hold a userdata, and this has a metatable
  and an environment, which are tables. So three levels are enough.
\<close>

definition markobject_with :: "(addr \<Rightarrow> gstate \<Rightarrow> gstate) \<Rightarrow> addr \<Rightarrow> gstate \<Rightarrow> gstate" where
  "markobject_with really a g = (if iswhite g a then really a g else g)"

definition markopt_with :: "(addr \<Rightarrow> gstate \<Rightarrow> gstate) \<Rightarrow> addr option \<Rightarrow> gstate \<Rightarrow> gstate" where
  "markopt_with really p g = (case p of None \<Rightarrow> g | Some a \<Rightarrow> markobject_with really a g)"

definition markvalue_with :: "(addr \<Rightarrow> gstate \<Rightarrow> gstate) \<Rightarrow> gval \<Rightarrow> gstate \<Rightarrow> gstate" where
  "markvalue_with really v g = (case v of GObj _ a \<Rightarrow> markobject_with really a g | _ \<Rightarrow> g)"

primrec really_mark :: "nat \<Rightarrow> addr \<Rightarrow> gstate \<Rightarrow> gstate" where
  "really_mark 0 a g = g"
| "really_mark (Suc n) a g =
     (let g1 = white2gray a g in
      case body g a of
        None \<Rightarrow> g1
      | Some (BString _) \<Rightarrow> g1
      | Some (BUdata mt env _) \<Rightarrow>
          markobject_with (really_mark n) env (markopt_with (really_mark n) mt (gray2black a g1))
      | Some (BUpval uv) \<Rightarrow>
          let g2 = markvalue_with (really_mark n) (upval_value g1 uv) g1
          in (case uv of UClosed _ \<Rightarrow> gray2black a g2 | UOpen _ _ \<Rightarrow> g2)
      | Some _ \<Rightarrow> g1\<lparr>g_gray := a # g_gray g1\<rparr>)"

definition reallymarkobject :: "addr \<Rightarrow> gstate \<Rightarrow> gstate" where "reallymarkobject = really_mark 3"
definition markobject :: "addr \<Rightarrow> gstate \<Rightarrow> gstate" where "markobject = markobject_with reallymarkobject"
definition markopt :: "addr option \<Rightarrow> gstate \<Rightarrow> gstate" where "markopt = markopt_with reallymarkobject"
definition markvalue :: "gval \<Rightarrow> gstate \<Rightarrow> gstate" where "markvalue = markvalue_with reallymarkobject"

definition stringmark_opt :: "addr option \<Rightarrow> gstate \<Rightarrow> gstate" where
  "stringmark_opt p g = (case p of None \<Rightarrow> g | Some a \<Rightarrow> stringmark a g)"

subsection \<open>Traversals\<close>

text \<open>\<open>luaT_gettm\<close> through \<open>gfasttm\<close>: the value under an event name in a metatable; that it is absent is noted in the flags of the metatable.\<close>

definition gfasttm :: "gstate \<Rightarrow> addr option \<Rightarrow> nat \<Rightarrow> addr \<Rightarrow> gval \<times> gstate" where
  "gfasttm g mt e nm = (case mt of None \<Rightarrow> (GNil, g) | Some a \<Rightarrow>
     (case body g a of
        Some (BTable h) \<Rightarrow>
          if bit (h_flags h) e then (GNil, g)
          else (case find (\<lambda>(k, v). k = GObj TSTRING nm) (h_node h) of
                  Some (k, v) \<Rightarrow> if v = GNil then (GNil, set_body a (BTable (h\<lparr>h_flags := set_bit e (h_flags h)\<rparr>)) g) else (v, g)
                | None \<Rightarrow> (GNil, set_body a (BTable (h\<lparr>h_flags := set_bit e (h_flags h)\<rparr>)) g))
      | _ \<Rightarrow> (GNil, g)))"

definition removeentry :: "gval \<Rightarrow> gval" where
  "removeentry k = (case k of GObj _ a \<Rightarrow> GDead a | _ \<Rightarrow> k)"

definition weak_mode :: "gstate \<Rightarrow> gval \<Rightarrow> bool \<times> bool" where
  "weak_mode g mode = (case mode of
     GObj tt s \<Rightarrow> if tt = TSTRING then (case body g s of
         Some (BString b) \<Rightarrow> (0x6B \<in> set (c_str b), 0x76 \<in> set (c_str b)) | _ \<Rightarrow> (False, False)) else (False, False)
   | _ \<Rightarrow> (False, False))"

definition mark_node :: "bool \<Rightarrow> bool \<Rightarrow> gval \<times> gval \<Rightarrow> gstate \<Rightarrow> gstate" where
  "mark_node weakkey weakvalue n g =
     (if snd n = GNil then g
      else (if weakvalue then id else markvalue (snd n)) ((if weakkey then id else markvalue (fst n)) g))"

definition clean_node :: "gval \<times> gval \<Rightarrow> gval \<times> gval" where
  "clean_node n = (if snd n = GNil then (removeentry (fst n), snd n) else n)"

definition weak_bits :: "bool \<Rightarrow> bool \<Rightarrow> mark \<Rightarrow> mark" where
  "weak_bits wk wv m = (m AND NOT (KEYWEAK OR VALUEWEAK)) OR (if wk then KEYWEAK else 0) OR (if wv then VALUEWEAK else 0)"

definition clean_table :: "addr \<Rightarrow> gstate \<Rightarrow> gstate" where
  "clean_table a g = (case body g a of Some (BTable h') \<Rightarrow> set_body a (BTable (h'\<lparr>h_node := map clean_node (h_node h')\<rparr>)) g | _ \<Rightarrow> g)"

text \<open>The second loop over the nodes changes only keys without a value, which no other part of the traversal looks at.\<close>

definition traversetable :: "addr \<Rightarrow> gtable \<Rightarrow> gstate \<Rightarrow> bool \<times> gstate" where
  "traversetable a h g =
     (let g1 = markopt (h_metatable h) g;
          (mode, g2) = gfasttm g1 (h_metatable h) 3 (g_mode g1);
          (weakkey, weakvalue) = weak_mode g2 mode;
          g3 = (if weakkey \<or> weakvalue then
                  (set_mark a (weak_bits weakkey weakvalue) g2)\<lparr>g_weak := a # g_weak g2\<rparr>
                else g2)
      in if weakkey \<and> weakvalue then (True, g3)
         else
           let g4 = (if weakvalue then g3 else fold markvalue (rev (h_array h)) g3);
               g5 = fold (mark_node weakkey weakvalue) (rev (h_node h)) g4
           in (weakkey \<or> weakvalue, clean_table a g5))"

definition traverseproto :: "gproto \<Rightarrow> gstate \<Rightarrow> gstate" where
  "traverseproto f g =
     fold stringmark_opt (gp_locvars f) (fold markopt (gp_p f) (fold stringmark_opt (gp_upvalues f)
       (fold markvalue (gp_k f) (stringmark_opt (gp_source f) g))))"

fun traverseclosure :: "gclosure \<Rightarrow> gstate \<Rightarrow> gstate" where
  "traverseclosure (CCl e vs) g = fold markvalue vs (markobject e g)"
| "traverseclosure (LCl e p us) g = fold markobject us (markobject p (markobject e g))"

definition BASIC_CI_SIZE :: nat where "BASIC_CI_SIZE = 8"
definition BASIC_STACK_SIZE :: nat where "BASIC_STACK_SIZE = 40"
definition EXTRA_STACK :: nat where "EXTRA_STACK = 5"
definition LUAI_MAXCALLS :: nat where "LUAI_MAXCALLS = 20000"

definition luaD_reallocCI :: "nat \<Rightarrow> gthread \<Rightarrow> gthread" where
  "luaD_reallocCI newsize th = th\<lparr>th_size_ci := newsize\<rparr>"

definition luaD_reallocstack :: "nat \<Rightarrow> gthread \<Rightarrow> gthread" where
  "luaD_reallocstack newsize th =
     (let realsize = newsize + 1 + EXTRA_STACK; n = length (th_stack th)
      in th\<lparr>th_stack := take realsize (th_stack th) @ replicate (realsize - n) GNil\<rparr>)"

definition checkstacksizes :: "nat \<Rightarrow> gthread \<Rightarrow> gthread" where
  "checkstacksizes s_used th =
     (let ci_used = length (th_ci_tops th) - 1
      in if th_size_ci th > LUAI_MAXCALLS then th
         else
           let th1 = (if 4 * ci_used < th_size_ci th \<and> 2 * BASIC_CI_SIZE < th_size_ci th
                      then luaD_reallocCI (th_size_ci th div 2) th else th)
           in if 4 * s_used < length (th_stack th1) \<and> 2 * (BASIC_STACK_SIZE + EXTRA_STACK) < length (th_stack th1)
              then luaD_reallocstack (length (th_stack th1) div 2) th1 else th1)"

definition clear_stack :: "nat \<Rightarrow> gthread \<Rightarrow> gthread" where
  "clear_stack lim th = th\<lparr>th_stack := map (\<lambda>i. if th_top th \<le> i \<and> i \<le> lim then GNil else th_stack th ! i) [0..<length (th_stack th)]\<rparr>"

definition traversestack :: "addr \<Rightarrow> gthread \<Rightarrow> gstate \<Rightarrow> gstate" where
  "traversestack a th g =
     (let g1 = markvalue (th_gt th) g;
          lim = fold max (th_ci_tops th) (th_top th);
          g2 = fold markvalue (take (th_top th) (th_stack th)) g1
      in set_body a (BThread (checkstacksizes lim (clear_stack lim th))) g2)"

subsection \<open>Sizes of objects\<close>

definition sizeCclosure :: "nat \<Rightarrow> nat" where "sizeCclosure n = 40 + 16 * n"
definition sizeLclosure :: "nat \<Rightarrow> nat" where "sizeLclosure n = 40 + 8 * n"

fun traversed_size :: "gbody \<Rightarrow> nat" where
  "traversed_size (BTable h) = 64 + 16 * length (h_array h) + 40 * max 1 (length (h_node h))"
| "traversed_size (BFunction (CCl _ vs)) = sizeCclosure (length vs)"
| "traversed_size (BFunction (LCl _ _ us)) = sizeLclosure (length us)"
| "traversed_size (BThread th) = 184 + 16 * length (th_stack th) + 40 * th_size_ci th"
| "traversed_size (BProto p) = 120 + 4 * gp_sizecode p + 8 * length (gp_p p) + 16 * length (gp_k p) + 4 * gp_sizelineinfo p
     + 16 * length (gp_locvars p) + 8 * length (gp_upvalues p)"
| "traversed_size _ = 0"

fun object_size :: "gbody \<Rightarrow> nat" where
  "object_size (BString b) = 24 + length b + 1"
| "object_size (BUdata _ _ n) = 40 + n"
| "object_size (BUpval _) = 40"
| "object_size (BTable h) = 64 + 16 * length (h_array h) + 40 * length (h_node h)"
| "object_size b = traversed_size b"

definition propagatemark :: "gstate \<Rightarrow> nat \<times> gstate" where
  "propagatemark g = (case g_gray g of [] \<Rightarrow> (0, g) | a # rest \<Rightarrow>
     let g1 = (gray2black a g)\<lparr>g_gray := rest\<rparr> in
     case body g a of
       Some (BTable h) \<Rightarrow>
         let (weak, g2) = traversetable a h g1
         in (traversed_size (BTable h), if weak then black2gray a g2 else g2)
     | Some (BFunction cl) \<Rightarrow> (traversed_size (BFunction cl), traverseclosure cl g1)
     | Some (BThread th) \<Rightarrow>
         let g2 = traversestack a th (black2gray a (g1\<lparr>g_grayagain := a # g_grayagain g1\<rparr>))
         in (case body g2 a of Some b \<Rightarrow> traversed_size b | None \<Rightarrow> 0, g2)
     | Some (BProto f) \<Rightarrow> (traversed_size (BProto f), traverseproto f g1)
     | _ \<Rightarrow> (0, g1))"

definition propagateall :: "gstate \<Rightarrow> nat \<times> gstate" where
  "propagateall g = while (\<lambda>(m, g). g_gray g \<noteq> []) (\<lambda>(m, g). let (k, g') = propagatemark g in (m + k, g')) (0, g)"

end
