(* ===== verification/Lua_Gc_Step.thy ===== *)
theory Lua_Gc_Step
  imports Lua_Gc
begin

text \<open>The phases of the collector (\<^verbatim>\<open>lgc.c\<close>) after marking, its steps, the write barriers, and the upvalues of \<^verbatim>\<open>lfunc.c\<close>.\<close>

subsection \<open>Barriers and links\<close>

definition valiswhite :: "gstate \<Rightarrow> gval \<Rightarrow> bool" where
  "valiswhite g v = (case v of GObj _ a \<Rightarrow> iswhite g a | _ \<Rightarrow> False)"

definition luaC_barrierf :: "addr \<Rightarrow> addr \<Rightarrow> gstate \<Rightarrow> gstate" where
  "luaC_barrierf ob v g = (if g_gcstate g = GCSpropagate then reallymarkobject v g else makewhite ob g)"

definition luaC_barrierback :: "addr \<Rightarrow> gstate \<Rightarrow> gstate" where
  "luaC_barrierback t g = (let g1 = black2gray t g in g1\<lparr>g_grayagain := t # g_grayagain g1\<rparr>)"

definition luaC_barrier :: "addr \<Rightarrow> gval \<Rightarrow> gstate \<Rightarrow> gstate" where
  "luaC_barrier p v g = (case v of GObj _ a \<Rightarrow> if valiswhite g v \<and> isblack g p then luaC_barrierf p a g else g | _ \<Rightarrow> g)"

definition luaC_barriert :: "addr \<Rightarrow> gval \<Rightarrow> gstate \<Rightarrow> gstate" where
  "luaC_barriert t v g = (if valiswhite g v \<and> isblack g t then luaC_barrierback t g else g)"

definition luaC_objbarrier :: "addr \<Rightarrow> addr \<Rightarrow> gstate \<Rightarrow> gstate" where
  "luaC_objbarrier p ob g = (if iswhite g ob \<and> isblack g p then luaC_barrierf p ob g else g)"

definition luaC_objbarriert :: "addr \<Rightarrow> addr \<Rightarrow> gstate \<Rightarrow> gstate" where
  "luaC_objbarriert t ob g = (if iswhite g ob \<and> isblack g t then luaC_barrierback t g else g)"

definition luaC_link :: "addr \<Rightarrow> gbody \<Rightarrow> gstate \<Rightarrow> gstate" where
  "luaC_link a b g = g\<lparr>g_rootgc := a # g_rootgc g, g_heap := (g_heap g)(a \<mapsto> \<lparr>gc_marked = luaC_white g, gc_body = b\<rparr>),
     g_totalbytes := g_totalbytes g + of_nat (object_size b)\<rparr>"

definition luaC_linkupval :: "addr \<Rightarrow> gstate \<Rightarrow> gstate" where
  "luaC_linkupval a g =
     (let g1 = g\<lparr>g_rootgc := a # g_rootgc g\<rparr> in
      if isgray g1 a then
        if g_gcstate g1 = GCSpropagate then
          (case body g1 a of Some (BUpval uv) \<Rightarrow> luaC_barrier a (upval_value g1 uv) (gray2black a g1) | _ \<Rightarrow> g1)
        else makewhite a g1
      else g1)"

subsection \<open>Freeing objects\<close>

definition luaM_free :: "addr \<Rightarrow> nat \<Rightarrow> gstate \<Rightarrow> gstate" where
  "luaM_free a n g = g\<lparr>g_heap := (g_heap g)(a := None), g_totalbytes := g_totalbytes g - of_nat n\<rparr>"

definition unlinkupval :: "addr \<Rightarrow> gstate \<Rightarrow> gstate" where
  "unlinkupval a g = g\<lparr>g_uvhead := removeAll a (g_uvhead g)\<rparr>"

definition luaF_freeupval :: "addr \<Rightarrow> gstate \<Rightarrow> gstate" where
  "luaF_freeupval a g = luaM_free a 40 (case body g a of Some (BUpval (UOpen _ _)) \<Rightarrow> unlinkupval a g | _ \<Rightarrow> g)"

definition set_openupval :: "addr \<Rightarrow> addr list \<Rightarrow> gstate \<Rightarrow> gstate" where
  "set_openupval th us g = (case body g th of Some (BThread t) \<Rightarrow> set_body th (BThread (t\<lparr>th_openupval := us\<rparr>)) g | _ \<Rightarrow> g)"

definition close_upval :: "addr \<Rightarrow> gstate \<Rightarrow> gstate" where
  "close_upval u g =
     (if isdead g u then luaF_freeupval u g
      else case body g u of
        Some (BUpval uv) \<Rightarrow> luaC_linkupval u (set_body u (BUpval (UClosed (upval_value g uv))) (unlinkupval u g))
      | _ \<Rightarrow> g)"

primrec close_upvals :: "addr \<Rightarrow> nat \<Rightarrow> addr list \<Rightarrow> gstate \<Rightarrow> gstate" where
  "close_upvals th level [] g = g"
| "close_upvals th level (u # us) g = (case body g u of
     Some (BUpval (UOpen _ i)) \<Rightarrow> if level \<le> i then close_upvals th level us (close_upval u (set_openupval th us g)) else g
   | _ \<Rightarrow> g)"

definition luaF_close :: "addr \<Rightarrow> nat \<Rightarrow> gstate \<Rightarrow> gstate" where
  "luaF_close th level g = (case body g th of Some (BThread t) \<Rightarrow> close_upvals th level (th_openupval t) g | _ \<Rightarrow> g)"

definition luaE_freethread :: "addr \<Rightarrow> gthread \<Rightarrow> gstate \<Rightarrow> gstate" where
  "luaE_freethread a t g = luaM_free a (object_size (BThread t)) (luaF_close a 0 g)"

definition freeobj :: "addr \<Rightarrow> gstate \<Rightarrow> gstate" where
  "freeobj a g = (case body g a of
     None \<Rightarrow> g
   | Some (BUpval uv) \<Rightarrow> luaF_freeupval a g
   | Some (BThread t) \<Rightarrow> luaE_freethread a t g
   | Some (BString b) \<Rightarrow> luaM_free a (object_size (BString b)) (g\<lparr>g_nuse := g_nuse g - 1\<rparr>)
   | Some b \<Rightarrow> luaM_free a (object_size b) g)"

subsection \<open>Sweeping\<close>

definition sweep_keeps :: "gstate \<Rightarrow> addr \<Rightarrow> bool" where
  "sweep_keeps g a \<longleftrightarrow> (marked g a XOR WHITEBITS) AND otherwhite g \<noteq> 0"

text \<open>\<open>sweeplist\<close> on a whole list in which there is no thread: a chain of the string table, the open upvalues of a thread.\<close>

primrec sweep_chain :: "addr list \<Rightarrow> gstate \<Rightarrow> addr list \<times> gstate" where
  "sweep_chain [] g = ([], g)"
| "sweep_chain (a # as) g =
     (if sweep_keeps g a then let (l, g') = sweep_chain as (makewhite a g) in (a # l, g')
      else sweep_chain as (freeobj a g))"

text \<open>\<open>sweeplist\<close> on the list of all objects, from a link on.\<close>

definition after_link :: "gstate \<Rightarrow> addr option \<Rightarrow> addr list" where
  "after_link g link = (case link of None \<Rightarrow> g_rootgc g | Some p \<Rightarrow> tl (dropWhile (\<lambda>x. x \<noteq> p) (g_rootgc g)))"

definition sweep_open :: "addr \<Rightarrow> gstate \<Rightarrow> gstate" where
  "sweep_open a g = (case body g a of
     Some (BThread t) \<Rightarrow> (let (us, g') = sweep_chain (th_openupval t) g in set_openupval a us g') | _ \<Rightarrow> g)"

primrec sweeplist :: "nat \<Rightarrow> addr option \<Rightarrow> gstate \<Rightarrow> addr option \<times> gstate" where
  "sweeplist 0 link g = (link, g)"
| "sweeplist (Suc n) link g = (case after_link g link of
     [] \<Rightarrow> (link, g)
   | a # _ \<Rightarrow>
       let g1 = sweep_open a g in
       if sweep_keeps g1 a then sweeplist n (Some a) (makewhite a g1)
       else sweeplist n link (freeobj a (g1\<lparr>g_rootgc := remove1 a (g_rootgc g1)\<rparr>)))"

definition sweep_bucket :: "nat \<Rightarrow> gstate \<Rightarrow> gstate" where
  "sweep_bucket i g =
     (if i < length (g_strt g) then let (l, g') = sweep_chain (g_strt g ! i) g in g'\<lparr>g_strt := (g_strt g')[i := l]\<rparr> else g)"

definition rechain_string :: "nat \<Rightarrow> gstate \<Rightarrow> addr list list \<Rightarrow> addr \<Rightarrow> addr list list" where
  "rechain_string newsize g nh a =
     (let h1 = (case body g a of Some (BString b) \<Rightarrow> lmod (luaS_hash b) newsize | _ \<Rightarrow> 0) in nh[h1 := a # nh ! h1])"

definition strt_resize :: "nat \<Rightarrow> gstate \<Rightarrow> gstate" where
  "strt_resize newsize g =
     (if g_gcstate g = GCSsweepstring then g
      else g\<lparr>g_strt := foldl (foldl (rechain_string newsize g)) (replicate newsize []) (g_strt g)\<rparr>)"

definition MINSTRTABSIZE :: nat where "MINSTRTABSIZE = 32"

definition checkSizes :: "gstate \<Rightarrow> gstate" where
  "checkSizes g =
     (let g1 = (if g_nuse g < length (g_strt g) div 4 \<and> length (g_strt g) > MINSTRTABSIZE * 2
                then strt_resize (length (g_strt g) div 2) g else g)
      in if g_buffsize g1 > 32 * 2 then g1\<lparr>g_buffsize := g_buffsize g1 div 2\<rparr> else g1)"

subsection \<open>Userdata with finalizers\<close>

definition udata_metatable :: "gstate \<Rightarrow> addr \<Rightarrow> addr option" where
  "udata_metatable g a = (case body g a of Some (BUdata mt _ _) \<Rightarrow> mt | _ \<Rightarrow> None)"

definition udata_size :: "gstate \<Rightarrow> addr \<Rightarrow> nat" where
  "udata_size g a = (case body g a of Some (BUdata mt e n) \<Rightarrow> object_size (BUdata mt e n) | _ \<Rightarrow> 0)"

primrec separate_loop :: "bool \<Rightarrow> addr list \<Rightarrow> gstate \<Rightarrow> nat \<times> addr list \<times> gstate" where
  "separate_loop all [] g = (0, [], g)"
| "separate_loop all (u # us) g =
     (if \<not> (iswhite g u \<or> all) \<or> isfinalized g u then
        let (d, l, g') = separate_loop all us g in (d, u # l, g')
      else
        let (tm, g1) = gfasttm g (udata_metatable g u) 2 (g_gc g);
            g2 = markfinalized u g1
        in if tm = GNil then let (d, l, g') = separate_loop all us g2 in (d, u # l, g')
           else let (d, l, g') = separate_loop all us (g2\<lparr>g_tmudata := g_tmudata g2 @ [u]\<rparr>) in (udata_size g2 u + d, l, g'))"

definition luaC_separateudata :: "bool \<Rightarrow> gstate \<Rightarrow> nat \<times> gstate" where
  "luaC_separateudata all g =
     (let (d, l, g') = separate_loop all (after_link g (Some (g_mainthread g))) g
      in (d, g'\<lparr>g_rootgc := takeWhile (\<lambda>x. x \<noteq> g_mainthread g) (g_rootgc g) @ g_mainthread g # l\<rparr>))"

definition marktmu :: "gstate \<Rightarrow> gstate" where
  "marktmu g = fold (\<lambda>u g. reallymarkobject u (makewhite u g)) (g_tmudata g) g"

definition push_finalizer :: "gval \<Rightarrow> addr \<Rightarrow> gstate \<Rightarrow> gstate" where
  "push_finalizer tm u g = (case body g (g_L g) of
     Some (BThread t) \<Rightarrow> set_body (g_L g) (BThread (t\<lparr>th_stack := take (th_top t) (th_stack t) @ [tm, GObj TUSERDATA u] @ drop (th_top t + 2) (th_stack t),
        th_top := th_top t + 2\<rparr>)) g
   | _ \<Rightarrow> g)"

text \<open>\<open>GCTM\<close> up to the call of the finalizer, with the old threshold when there is a finalizer to call.\<close>

definition GCTM_begin :: "gstate \<Rightarrow> 64 word option \<times> gstate" where
  "GCTM_begin g = (case g_tmudata g of [] \<Rightarrow> (None, g) | u # us \<Rightarrow>
     let pre = takeWhile (\<lambda>x. x \<noteq> g_mainthread g) (g_rootgc g);
         g1 = makewhite u (g\<lparr>g_tmudata := us, g_rootgc := pre @ g_mainthread g # u # after_link g (Some (g_mainthread g))\<rparr>);
         (tm, g2) = gfasttm g1 (udata_metatable g1 u) 2 (g_gc g1)
     in if tm = GNil then (None, g2)
        else (Some (g_GCthreshold g2), push_finalizer tm u (g2\<lparr>g_GCthreshold := 2 * g_totalbytes g2\<rparr>)))"

definition GCTM :: "(gstate \<Rightarrow> gstate) \<Rightarrow> gstate \<Rightarrow> gstate" where
  "GCTM call g = (case GCTM_begin g of
     (None, g1) \<Rightarrow> g1
   | (Some oldt, g1) \<Rightarrow> (call g1)\<lparr>g_GCthreshold := oldt\<rparr>)"

subsection \<open>Weak tables\<close>

definition iscleared :: "gval \<Rightarrow> bool \<Rightarrow> gstate \<Rightarrow> bool \<times> gstate" where
  "iscleared v iskey g = (case v of
     GObj tt a \<Rightarrow> if tt = TSTRING then (False, stringmark a g)
       else (iswhite g a \<or> (tt = TUSERDATA \<and> \<not> iskey \<and> isfinalized g a), g)
   | _ \<Rightarrow> (False, g))"

primrec clear_array :: "gval list \<Rightarrow> gstate \<Rightarrow> gval list \<times> gstate" where
  "clear_array [] g = ([], g)"
| "clear_array (v # vs) g =
     (let (vs', g1) = clear_array vs g; (c, g2) = iscleared v False g1 in ((if c then GNil else v) # vs', g2))"

definition clear_node :: "gval \<times> gval \<Rightarrow> gstate \<Rightarrow> (gval \<times> gval) \<times> gstate" where
  "clear_node n g =
     (if snd n = GNil then (n, g)
      else
        let (ck, g1) = iscleared (fst n) True g in
        if ck then ((removeentry (fst n), GNil), g1)
        else let (cv, g2) = iscleared (snd n) False g1 in (if cv then (removeentry (fst n), GNil) else n, g2))"

primrec clear_nodes :: "(gval \<times> gval) list \<Rightarrow> gstate \<Rightarrow> (gval \<times> gval) list \<times> gstate" where
  "clear_nodes [] g = ([], g)"
| "clear_nodes (n # ns) g = (let (ns', g1) = clear_nodes ns g; (n', g2) = clear_node n g1 in (n' # ns', g2))"

definition clear_one :: "addr \<Rightarrow> gstate \<Rightarrow> gstate" where
  "clear_one a g = (case body g a of
     Some (BTable h) \<Rightarrow>
       let (arr, g1) = (if marked g a AND VALUEWEAK \<noteq> 0 then clear_array (h_array h) g else (h_array h, g));
           (ns, g2) = clear_nodes (h_node h) g1
       in set_body a (BTable (h\<lparr>h_array := arr, h_node := ns\<rparr>)) g2
   | _ \<Rightarrow> g)"

definition cleartable :: "addr list \<Rightarrow> gstate \<Rightarrow> gstate" where
  "cleartable l g = fold clear_one l g"

subsection \<open>The steps of a collection\<close>

definition markmt :: "gstate \<Rightarrow> gstate" where
  "markmt g = fold markopt (g_mt g) g"

definition gt_main :: "gstate \<Rightarrow> gval" where
  "gt_main g = (case body g (g_mainthread g) of Some (BThread t) \<Rightarrow> th_gt t | _ \<Rightarrow> GNil)"

definition markroot :: "gstate \<Rightarrow> gstate" where
  "markroot g =
     (let g0 = g\<lparr>g_gray := [], g_grayagain := [], g_weak := []\<rparr>;
          g1 = markobject (g_mainthread g0) g0;
          g2 = markvalue (gt_main g1) g1;
          g3 = markvalue (g_registry g2) g2
      in (markmt g3)\<lparr>g_gcstate := GCSpropagate\<rparr>)"

definition remark_upval :: "addr \<Rightarrow> gstate \<Rightarrow> gstate" where
  "remark_upval u g =
     (if isgray g u then (case body g u of Some (BUpval uv) \<Rightarrow> markvalue (upval_value g uv) g | _ \<Rightarrow> g) else g)"

definition remarkupvals :: "gstate \<Rightarrow> gstate" where
  "remarkupvals g = fold remark_upval (g_uvhead g) g"

definition atomic :: "gstate \<Rightarrow> gstate" where
  "atomic g =
     (let g1 = snd (propagateall (remarkupvals g));
          g2 = snd (propagateall (markmt (markobject (g_L g1) (g1\<lparr>g_gray := g_weak g1, g_weak := []\<rparr>))));
          g3 = snd (propagateall (g2\<lparr>g_gray := g_grayagain g2, g_grayagain := []\<rparr>));
          (ud, g4) = luaC_separateudata False g3;
          (m, g5) = propagateall (marktmu g4);
          g6 = cleartable (g_weak g5) g5
      in g6\<lparr>g_currentwhite := otherwhite g6, g_sweepstrgc := 0, g_sweepgc := None, g_gcstate := GCSsweepstring,
            g_estimate := g_totalbytes g6 - of_nat (ud + m)\<rparr>)"

definition GCSWEEPMAX :: nat where "GCSWEEPMAX = 40"
definition GCSWEEPCOST :: int where "GCSWEEPCOST = 10"
definition GCFINALIZECOST :: int where "GCFINALIZECOST = 100"
definition GCSTEPSIZE :: nat where "GCSTEPSIZE = 1024"
definition MAX_LUMEM :: nat where "MAX_LUMEM = 2 ^ 64 - 3"

definition freed_since :: "64 word \<Rightarrow> gstate \<Rightarrow> gstate" where
  "freed_since old g = g\<lparr>g_estimate := g_estimate g - (old - g_totalbytes g)\<rparr>"

definition sweepstring_step :: "gstate \<Rightarrow> gstate" where
  "sweepstring_step g =
     (let g1 = (sweep_bucket (g_sweepstrgc g) g)\<lparr>g_sweepstrgc := Suc (g_sweepstrgc g)\<rparr>
      in freed_since (g_totalbytes g) (if length (g_strt g1) \<le> g_sweepstrgc g1 then g1\<lparr>g_gcstate := GCSsweep\<rparr> else g1))"

definition sweep_step :: "gstate \<Rightarrow> gstate" where
  "sweep_step g =
     (let (link, g1) = sweeplist GCSWEEPMAX (g_sweepgc g) g; g2 = g1\<lparr>g_sweepgc := link\<rparr>
      in freed_since (g_totalbytes g) (if after_link g2 link = [] then (checkSizes g2)\<lparr>g_gcstate := GCSfinalize\<rparr> else g2))"

definition singlestep :: "(gstate \<Rightarrow> gstate) \<Rightarrow> gstate \<Rightarrow> int \<times> gstate" where
  "singlestep call g = (case g_gcstate g of
     GCSpause \<Rightarrow> (0, markroot g)
   | GCSpropagate \<Rightarrow> if g_gray g \<noteq> [] then (let (m, g') = propagatemark g in (int m, g')) else (0, atomic g)
   | GCSsweepstring \<Rightarrow> (GCSWEEPCOST, sweepstring_step g)
   | GCSsweep \<Rightarrow> (int GCSWEEPMAX * GCSWEEPCOST, sweep_step g)
   | GCSfinalize \<Rightarrow>
       if g_tmudata g \<noteq> [] then
         let g1 = GCTM call g
         in (GCFINALIZECOST, if uint (g_estimate g1) > GCFINALIZECOST then g1\<lparr>g_estimate := g_estimate g1 - word_of_int GCFINALIZECOST\<rparr> else g1)
       else (0, g\<lparr>g_gcstate := GCSpause, g_gcdept := 0\<rparr>))"

definition setthreshold :: "gstate \<Rightarrow> gstate" where
  "setthreshold g = g\<lparr>g_GCthreshold := (g_estimate g div 100) * word_of_int (g_gcpause g)\<rparr>"

text \<open>\<open>(GCSTEPSIZE/100) * g->gcstepmul\<close> is computed on 32 bits without a sign.\<close>

definition step_limit :: "gstate \<Rightarrow> int" where
  "step_limit g =
     (let lim = uint (word_of_int (int (GCSTEPSIZE div 100) * g_gcstepmul g) :: 32 word) in if lim = 0 then (int MAX_LUMEM - 1) div 2 else lim)"

definition luaC_step :: "(gstate \<Rightarrow> gstate) \<Rightarrow> gstate \<Rightarrow> gstate" where
  "luaC_step call g =
     (let g0 = g\<lparr>g_gcdept := g_gcdept g + (g_totalbytes g - g_GCthreshold g)\<rparr>;
          turn = (\<lambda>(lim, g). let (k, g') = singlestep call g in (lim - k, g'));
          g1 = snd (while (\<lambda>(lim, g). g_gcstate g \<noteq> GCSpause \<and> lim > 0) turn (turn (step_limit g, g0)))
      in if g_gcstate g1 \<noteq> GCSpause then
           if unat (g_gcdept g1) < GCSTEPSIZE then g1\<lparr>g_GCthreshold := g_totalbytes g1 + of_nat GCSTEPSIZE\<rparr>
           else g1\<lparr>g_gcdept := g_gcdept g1 - of_nat GCSTEPSIZE, g_GCthreshold := g_totalbytes g1\<rparr>
         else setthreshold g1)"

definition fullgc_reset :: "gstate \<Rightarrow> gstate" where
  "fullgc_reset g =
     (if g_gcstate g = GCSpause \<or> g_gcstate g = GCSpropagate
      then g\<lparr>g_sweepstrgc := 0, g_sweepgc := None, g_gray := [], g_grayagain := [], g_weak := [], g_gcstate := GCSsweepstring\<rparr>
      else g)"

definition luaC_fullgc :: "(gstate \<Rightarrow> gstate) \<Rightarrow> gstate \<Rightarrow> gstate" where
  "luaC_fullgc call g =
     (let g1 = while (\<lambda>g. g_gcstate g \<noteq> GCSfinalize) (snd \<circ> singlestep call) (fullgc_reset g)
      in setthreshold (while (\<lambda>g. g_gcstate g \<noteq> GCSpause) (snd \<circ> singlestep call) (markroot g1)))"

definition luaC_callGCTM :: "(gstate \<Rightarrow> gstate) \<Rightarrow> gstate \<Rightarrow> gstate" where
  "luaC_callGCTM call g = while (\<lambda>g. g_tmudata g \<noteq> []) (GCTM call) g"

definition luaC_freeall :: "gstate \<Rightarrow> gstate" where
  "luaC_freeall g =
     (let g1 = snd (sweeplist MAX_LUMEM None (g\<lparr>g_currentwhite := WHITEBITS OR SFIXEDMASK\<rparr>))
      in fold sweep_bucket [0..<length (g_strt g1)] g1)"

subsection \<open>lua_gc\<close>

datatype gc_what = LUA_GCSTOP | LUA_GCRESTART | LUA_GCCOLLECT | LUA_GCCOUNT | LUA_GCCOUNTB | LUA_GCSTEP | LUA_GCSETPAUSE | LUA_GCSETSTEPMUL

definition lua_gc :: "(gstate \<Rightarrow> gstate) \<Rightarrow> gc_what \<Rightarrow> int \<Rightarrow> gstate \<Rightarrow> int \<times> gstate" where
  "lua_gc call what data g = (case what of
     LUA_GCSTOP \<Rightarrow> (0, g\<lparr>g_GCthreshold := of_nat MAX_LUMEM\<rparr>)
   | LUA_GCRESTART \<Rightarrow> (0, g\<lparr>g_GCthreshold := g_totalbytes g\<rparr>)
   | LUA_GCCOLLECT \<Rightarrow> (0, luaC_fullgc call g)
   | LUA_GCCOUNT \<Rightarrow> (sint (ucast (drop_bit 10 (g_totalbytes g)) :: 32 word), g)
   | LUA_GCCOUNTB \<Rightarrow> (sint (ucast (g_totalbytes g AND 0x3FF) :: 32 word), g)
   | LUA_GCSTEP \<Rightarrow>
       let a = push_bit 10 (word_of_int data) :: 64 word;
           g0 = g\<lparr>g_GCthreshold := if a \<le> g_totalbytes g then g_totalbytes g - a else 0\<rparr>
       in while (\<lambda>(res, g). res = 0 \<and> g_GCthreshold g \<le> g_totalbytes g)
            (\<lambda>(res, g). let g' = luaC_step call g in (if g_gcstate g' = GCSpause then 1 else 0, g')) (0, g0)
   | LUA_GCSETPAUSE \<Rightarrow> (g_gcpause g, g\<lparr>g_gcpause := data\<rparr>)
   | LUA_GCSETSTEPMUL \<Rightarrow> (g_gcstepmul g, g\<lparr>g_gcstepmul := data\<rparr>))"

end
