(* ===== verification/Lua_Gc_Refs.thy ===== *)
theory Lua_Gc_Refs
  imports Lua_Gc_Step
begin

text \<open>Marks bit by bit, how the operations on objects act on the heap, and the references of an object.\<close>

subsection \<open>Marks\<close>

lemma less_8: "(n :: nat) < 8 \<longleftrightarrow> n = 0 \<or> n = Suc 0 \<or> n = 2 \<or> n = 3 \<or> n = 4 \<or> n = 5 \<or> n = 6 \<or> n = 7"
  by auto

lemma mark_eq_iff: "(m :: mark) = m' \<longleftrightarrow> (bit m 0 = bit m' 0 \<and> bit m (Suc 0) = bit m' (Suc 0) \<and> bit m 2 = bit m' 2 \<and> bit m 3 = bit m' 3 \<and>
    bit m 4 = bit m' 4 \<and> bit m 5 = bit m' 5 \<and> bit m 6 = bit m' 6 \<and> bit m 7 = bit m' 7)" (is "?lhs \<longleftrightarrow> ?rhs")
proof
  assume r: ?rhs
  show ?lhs
  proof (rule bit_word_eqI)
    fix n assume "n < LENGTH(8)"
    then have "n = 0 \<or> n = Suc 0 \<or> n = 2 \<or> n = 3 \<or> n = 4 \<or> n = 5 \<or> n = 6 \<or> n = 7" by (simp add: less_8)
    then show "bit m n = bit m' n" using r by (elim disjE) simp_all
  qed
qed simp

lemma mark_bits [simp]:
  "bit (3 :: mark) 0" "bit (3 :: mark) (Suc 0)" "\<not> bit (3 :: mark) 2" "\<not> bit (3 :: mark) 5" "\<not> bit (3 :: mark) 6"
  "\<not> bit (4 :: mark) 0" "\<not> bit (4 :: mark) (Suc 0)" "bit (4 :: mark) 2"
  by simp_all

lemma m_white_bits: "m_white m \<longleftrightarrow> bit m 0 \<or> bit m (Suc 0)"
  by (simp add: m_white_def WHITEBITS_def mark_eq_iff bit_and_iff)

lemma m_black_bit: "m_black m \<longleftrightarrow> bit m 2"
  by (simp add: m_black_def BLACKMASK_def mark_eq_iff bit_and_iff)

lemma m_white2gray [simp]: "\<not> m_white (m_white2gray m)" "m_black (m_white2gray m) = m_black m"
  by (simp_all add: m_white_bits m_black_bit m_white2gray_def WHITEBITS_def bit_and_iff bit_not_iff)

lemma m_gray2black [simp]: "m_white (m_gray2black m) = m_white m" "m_black (m_gray2black m)"
  by (simp_all add: m_white_bits m_black_bit m_gray2black_def BLACKMASK_def bit_or_iff)

lemma m_black2gray [simp]: "m_white (m_black2gray m) = m_white m" "\<not> m_black (m_black2gray m)"
  by (simp_all add: m_white_bits m_black_bit m_black2gray_def BLACKMASK_def bit_and_iff bit_not_iff)

lemma high_bits [simp]: "bit (m_white2gray m) 5 = bit m 5" "bit (m_gray2black m) 5 = bit m 5" "bit (m_black2gray m) 5 = bit m 5"
  "bit (m_black2gray m) 3 = bit m 3" "bit (m_black2gray m) 4 = bit m 4"
  by (simp_all add: m_white2gray_def m_gray2black_def m_black2gray_def mask_defs bit_and_iff bit_or_iff bit_not_iff)

subsection \<open>The heap\<close>

declare white2gray_def [simp] gray2black_def [simp] black2gray_def [simp] stringmark_def [simp] changewhite_def [simp]
  markfinalized_def [simp] makewhite_def [simp]

lemma set_mark_fields [simp]:
  "g_rootgc (set_mark a f g) = g_rootgc g" "g_sweepgc (set_mark a f g) = g_sweepgc g" "g_strt (set_mark a f g) = g_strt g"
  "g_nuse (set_mark a f g) = g_nuse g" "g_sweepstrgc (set_mark a f g) = g_sweepstrgc g" "g_gray (set_mark a f g) = g_gray g"
  "g_grayagain (set_mark a f g) = g_grayagain g" "g_weak (set_mark a f g) = g_weak g" "g_tmudata (set_mark a f g) = g_tmudata g"
  "g_uvhead (set_mark a f g) = g_uvhead g" "g_currentwhite (set_mark a f g) = g_currentwhite g" "g_gcstate (set_mark a f g) = g_gcstate g"
  "g_mainthread (set_mark a f g) = g_mainthread g" "g_L (set_mark a f g) = g_L g" "g_registry (set_mark a f g) = g_registry g"
  "g_mt (set_mark a f g) = g_mt g" "g_mode (set_mark a f g) = g_mode g" "g_gc (set_mark a f g) = g_gc g"
  "g_totalbytes (set_mark a f g) = g_totalbytes g" "g_estimate (set_mark a f g) = g_estimate g" "g_GCthreshold (set_mark a f g) = g_GCthreshold g"
  "g_gcdept (set_mark a f g) = g_gcdept g" "g_gcpause (set_mark a f g) = g_gcpause g" "g_gcstepmul (set_mark a f g) = g_gcstepmul g"
  "g_buffsize (set_mark a f g) = g_buffsize g"
  by (simp_all add: set_mark_def split: option.splits)

lemma set_body_fields [simp]:
  "g_rootgc (set_body a b g) = g_rootgc g" "g_sweepgc (set_body a b g) = g_sweepgc g" "g_strt (set_body a b g) = g_strt g"
  "g_nuse (set_body a b g) = g_nuse g" "g_sweepstrgc (set_body a b g) = g_sweepstrgc g" "g_gray (set_body a b g) = g_gray g"
  "g_grayagain (set_body a b g) = g_grayagain g" "g_weak (set_body a b g) = g_weak g" "g_tmudata (set_body a b g) = g_tmudata g"
  "g_uvhead (set_body a b g) = g_uvhead g" "g_currentwhite (set_body a b g) = g_currentwhite g" "g_gcstate (set_body a b g) = g_gcstate g"
  "g_mainthread (set_body a b g) = g_mainthread g" "g_L (set_body a b g) = g_L g" "g_registry (set_body a b g) = g_registry g"
  "g_mt (set_body a b g) = g_mt g" "g_mode (set_body a b g) = g_mode g" "g_gc (set_body a b g) = g_gc g"
  "g_totalbytes (set_body a b g) = g_totalbytes g" "g_estimate (set_body a b g) = g_estimate g" "g_GCthreshold (set_body a b g) = g_GCthreshold g"
  "g_gcdept (set_body a b g) = g_gcdept g" "g_gcpause (set_body a b g) = g_gcpause g" "g_gcstepmul (set_body a b g) = g_gcstepmul g"
  "g_buffsize (set_body a b g) = g_buffsize g"
  by (simp_all add: set_body_def split: option.splits)

lemma body_updates [simp]:
  "body (g\<lparr>g_rootgc := x_rootgc\<rparr>) = body g" "body (g\<lparr>g_sweepgc := x_sweepgc\<rparr>) = body g"
  "body (g\<lparr>g_strt := x_strt\<rparr>) = body g" "body (g\<lparr>g_nuse := x_nuse\<rparr>) = body g"
  "body (g\<lparr>g_sweepstrgc := x_sweepstrgc\<rparr>) = body g" "body (g\<lparr>g_gray := x_gray\<rparr>) = body g"
  "body (g\<lparr>g_grayagain := x_grayagain\<rparr>) = body g" "body (g\<lparr>g_weak := x_weak\<rparr>) = body g"
  "body (g\<lparr>g_tmudata := x_tmudata\<rparr>) = body g" "body (g\<lparr>g_uvhead := x_uvhead\<rparr>) = body g"
  "body (g\<lparr>g_currentwhite := x_currentwhite\<rparr>) = body g" "body (g\<lparr>g_gcstate := x_gcstate\<rparr>) = body g"
  "body (g\<lparr>g_mainthread := x_mainthread\<rparr>) = body g" "body (g\<lparr>g_L := x_L\<rparr>) = body g"
  "body (g\<lparr>g_registry := x_registry\<rparr>) = body g" "body (g\<lparr>g_mt := x_mt\<rparr>) = body g"
  "body (g\<lparr>g_mode := x_mode\<rparr>) = body g" "body (g\<lparr>g_gc := x_gc\<rparr>) = body g"
  "body (g\<lparr>g_totalbytes := x_totalbytes\<rparr>) = body g" "body (g\<lparr>g_estimate := x_estimate\<rparr>) = body g"
  "body (g\<lparr>g_GCthreshold := x_GCthreshold\<rparr>) = body g" "body (g\<lparr>g_gcdept := x_gcdept\<rparr>) = body g"
  "body (g\<lparr>g_gcpause := x_gcpause\<rparr>) = body g" "body (g\<lparr>g_gcstepmul := x_gcstepmul\<rparr>) = body g"
  "body (g\<lparr>g_buffsize := x_buffsize\<rparr>) = body g"
  by (simp_all add: body_def fun_eq_iff)

lemma marked_updates [simp]:
  "marked (g\<lparr>g_rootgc := x_rootgc\<rparr>) = marked g" "marked (g\<lparr>g_sweepgc := x_sweepgc\<rparr>) = marked g"
  "marked (g\<lparr>g_strt := x_strt\<rparr>) = marked g" "marked (g\<lparr>g_nuse := x_nuse\<rparr>) = marked g"
  "marked (g\<lparr>g_sweepstrgc := x_sweepstrgc\<rparr>) = marked g" "marked (g\<lparr>g_gray := x_gray\<rparr>) = marked g"
  "marked (g\<lparr>g_grayagain := x_grayagain\<rparr>) = marked g" "marked (g\<lparr>g_weak := x_weak\<rparr>) = marked g"
  "marked (g\<lparr>g_tmudata := x_tmudata\<rparr>) = marked g" "marked (g\<lparr>g_uvhead := x_uvhead\<rparr>) = marked g"
  "marked (g\<lparr>g_currentwhite := x_currentwhite\<rparr>) = marked g" "marked (g\<lparr>g_gcstate := x_gcstate\<rparr>) = marked g"
  "marked (g\<lparr>g_mainthread := x_mainthread\<rparr>) = marked g" "marked (g\<lparr>g_L := x_L\<rparr>) = marked g"
  "marked (g\<lparr>g_registry := x_registry\<rparr>) = marked g" "marked (g\<lparr>g_mt := x_mt\<rparr>) = marked g"
  "marked (g\<lparr>g_mode := x_mode\<rparr>) = marked g" "marked (g\<lparr>g_gc := x_gc\<rparr>) = marked g"
  "marked (g\<lparr>g_totalbytes := x_totalbytes\<rparr>) = marked g" "marked (g\<lparr>g_estimate := x_estimate\<rparr>) = marked g"
  "marked (g\<lparr>g_GCthreshold := x_GCthreshold\<rparr>) = marked g" "marked (g\<lparr>g_gcdept := x_gcdept\<rparr>) = marked g"
  "marked (g\<lparr>g_gcpause := x_gcpause\<rparr>) = marked g" "marked (g\<lparr>g_gcstepmul := x_gcstepmul\<rparr>) = marked g"
  "marked (g\<lparr>g_buffsize := x_buffsize\<rparr>) = marked g"
  by (simp_all add: marked_def fun_eq_iff)

lemma body_set_mark [simp]: "body (set_mark a f g) = body g"
  by (auto simp: set_mark_def body_def fun_eq_iff split: option.splits)

lemma marked_set_mark: "marked (set_mark a f g) b = (if b = a \<and> body g a \<noteq> None then f (marked g a) else marked g b)"
  by (auto simp: set_mark_def body_def marked_def split: option.splits)

lemma body_set_body: "body (set_body a b g) c = (if c = a \<and> body g a \<noteq> None then Some b else body g c)"
  by (auto simp: set_body_def body_def split: option.splits)

lemma marked_set_body [simp]: "marked (set_body a b g) = marked g"
  by (auto simp: set_body_def marked_def fun_eq_iff split: option.splits)

lemma marked_none: "body g a = None \<Longrightarrow> marked g a = 0"
  by (simp add: body_def marked_def)

lemma iswhite_body: "iswhite g a \<Longrightarrow> body g a \<noteq> None"
  by (cases "body g a = None") (simp_all add: marked_none iswhite_def m_white_def)

lemma isblack_body: "isblack g a \<Longrightarrow> body g a \<noteq> None"
  by (cases "body g a = None") (simp_all add: marked_none isblack_def m_black_def)

lemma isdead_body: "isdead g a \<Longrightarrow> body g a \<noteq> None"
  by (cases "body g a = None") (simp_all add: marked_none isdead_def)

lemmas colour_defs = iswhite_def isblack_def isgray_def isdead_def otherwhite_def luaC_white_def

subsection \<open>References\<close>

text \<open>
  The references of a value and of an object, each with the type its holder takes for granted. A value with the tag of a function prototype
  or an upvalue does not exist; its tag is replaced by one that no object has, and so is that of a dead key.
\<close>

fun vrefs :: "gval \<Rightarrow> (nat \<times> addr) set" where
  "vrefs (GObj tt a) = {(if tt \<le> TTHREAD then tt else TDEADKEY, a)}"
| "vrefs (GDead a) = {(TDEADKEY, a)}"
| "vrefs _ = {}"

definition orefs :: "nat \<Rightarrow> addr option \<Rightarrow> (nat \<times> addr) set" where
  "orefs tt p = (case p of None \<Rightarrow> {} | Some a \<Rightarrow> {(tt, a)})"

definition nrefs :: "gval \<times> gval \<Rightarrow> (nat \<times> addr) set" where
  "nrefs n = (if snd n = GNil then {} else vrefs (fst n) \<union> vrefs (snd n))"

fun brefs :: "gstate \<Rightarrow> gbody \<Rightarrow> (nat \<times> addr) set" where
  "brefs g (BString b) = {}"
| "brefs g (BUdata mt env n) = orefs TTABLE mt \<union> {(TTABLE, env)}"
| "brefs g (BUpval uv) = vrefs (upval_value g uv)"
| "brefs g (BFunction (CCl e vs)) = {(TTABLE, e)} \<union> (\<Union>v \<in> set vs. vrefs v)"
| "brefs g (BFunction (LCl e p us)) = {(TTABLE, e), (TPROTO, p)} \<union> Pair TUPVAL ` set us"
| "brefs g (BTable h) = orefs TTABLE (h_metatable h) \<union> (\<Union>v \<in> set (h_array h). vrefs v) \<union> (\<Union>n \<in> set (h_node h). nrefs n)"
| "brefs g (BThread t) = vrefs (th_gt t) \<union> (\<Union>v \<in> set (take (th_top t) (th_stack t)). vrefs v)"
| "brefs g (BProto f) = orefs TSTRING (gp_source f) \<union> (\<Union>v \<in> set (gp_k f). vrefs v) \<union> (\<Union>p \<in> set (gp_upvalues f). orefs TSTRING p)
     \<union> (\<Union>p \<in> set (gp_p f). orefs TPROTO p) \<union> (\<Union>p \<in> set (gp_locvars f). orefs TSTRING p)"

definition refs :: "gstate \<Rightarrow> addr \<Rightarrow> (nat \<times> addr) set" where
  "refs g a = (case body g a of None \<Rightarrow> {} | Some b \<Rightarrow> brefs g b)"

definition is_open :: "gbody \<Rightarrow> bool" where
  "is_open b = (case b of BUpval (UOpen _ _) \<Rightarrow> True | _ \<Rightarrow> False)"

text \<open>The references of an object depend on the bodies only.\<close>

lemma upval_value_cong: "body g = body g' \<Longrightarrow> upval_value g uv = upval_value g' uv"
  by (cases uv) simp_all

lemma brefs_cong: "body g = body g' \<Longrightarrow> brefs g b = brefs g' b"
proof -
  assume b: "body g = body g'"
  have "upval_value g = upval_value g'" using upval_value_cong [OF b] by (simp add: fun_eq_iff)
  then show ?thesis by (cases "(g, b)" rule: brefs.cases) simp_all
qed

lemma refs_cong: "body g = body g' \<Longrightarrow> refs g = refs g'"
proof -
  assume b: "body g = body g'"
  have "brefs g = brefs g'" by (rule ext) (rule brefs_cong [OF b])
  then show ?thesis using b by (intro ext) (simp add: refs_def split: option.split)
qed

text \<open>Every reference leads to an object of its type.\<close>

definition typed_at :: "gstate \<Rightarrow> nat \<Rightarrow> addr \<Rightarrow> bool" where
  "typed_at g tt a \<longleftrightarrow> (\<exists>b. body g a = Some b \<and> gc_tt b = tt)"

definition typed :: "gstate \<Rightarrow> bool" where
  "typed g \<longleftrightarrow> (\<forall>a. \<forall>(tt, r) \<in> refs g a. typed_at g tt r)"

definition ok :: "gstate \<Rightarrow> addr \<Rightarrow> bool" where
  "ok g a \<longleftrightarrow> (\<forall>(tt, r) \<in> refs g a. \<not> iswhite g r)"

end
