(* ===== verification/Lua_Gc_Mark.thy ===== *)
theory Lua_Gc_Mark
  imports Lua_Gc_Refs
begin

text \<open>
  What a marking operation does, as a relation between states: white objects turn gray or black, a gray one with references that are not
  marked yet is in the list of gray objects, all other marks stay, and objects only lose references.
\<close>

subsection \<open>Objects that lose references\<close>

definition shr :: "gbody \<Rightarrow> gbody \<Rightarrow> bool" where
  "shr b b' \<longleftrightarrow> b' = b \<or>
     (\<exists>h h'. b = BTable h \<and> b' = BTable h' \<and> h_metatable h' = h_metatable h \<and> h_array h' = h_array h \<and>
        list_all2 (\<lambda>n n'. snd n' = snd n \<and> (fst n' = fst n \<or> snd n = GNil)) (h_node h) (h_node h')) \<or>
     (\<exists>t t'. b = BThread t \<and> b' = BThread t' \<and> th_gt t' = th_gt t \<and> th_top t' = th_top t \<and> th_openupval t' = th_openupval t \<and>
        (\<forall>i. stack_slot t' i = stack_slot t i \<or> stack_slot t' i = GNil))"

lemma shr_refl [simp]: "shr b b"
  by (simp add: shr_def)

lemma shr_trans: "shr b1 b2 \<Longrightarrow> shr b2 b3 \<Longrightarrow> shr b1 b3"
proof -
  assume 1: "shr b1 b2" and 2: "shr b2 b3"
  let ?R = "\<lambda>n n'. snd n' = snd n \<and> (fst n' = fst n \<or> snd n = GNil)"
  have t: "list_all2 ?R xs zs" if "list_all2 ?R xs ys" "list_all2 ?R ys zs" for xs ys zs :: "(gval \<times> gval) list"
    by (rule list_all2_trans [OF _ that]) auto
  show ?thesis
  proof (cases "b2 = b1 \<or> b3 = b2")
    case True
    then show ?thesis using 1 2 by auto
  next
    case False
    with 1 consider h h' where "b1 = BTable h" "b2 = BTable h'" "h_metatable h' = h_metatable h" "h_array h' = h_array h" "list_all2 ?R (h_node h) (h_node h')"
      | u u' where "b1 = BThread u" "b2 = BThread u'" "th_gt u' = th_gt u" "th_top u' = th_top u" "th_openupval u' = th_openupval u"
          "\<forall>i. stack_slot u' i = stack_slot u i \<or> stack_slot u' i = GNil"
      unfolding shr_def by blast
    then show ?thesis
    proof cases
      case 1
      with 2 False show ?thesis unfolding shr_def by (auto intro: t)
    next
      case 2
      with \<open>shr b2 b3\<close> False show ?thesis unfolding shr_def by (auto; metis)
    qed
  qed
qed

lemma shr_tt: "shr b b' \<Longrightarrow> gc_tt b' = gc_tt b"
  by (auto simp: shr_def)

lemma shr_cases [consumes 1]: "shr b b' \<Longrightarrow> (b' = b \<Longrightarrow> P) \<Longrightarrow> (gc_tt b = TTABLE \<Longrightarrow> P) \<Longrightarrow> (gc_tt b = TTHREAD \<Longrightarrow> P) \<Longrightarrow> P"
  by (auto simp: shr_def)

lemma thread_refs: "(\<Union>v \<in> set (take (th_top t) (th_stack t)). vrefs v) = (\<Union>i \<in> {..<th_top t}. vrefs (stack_slot t i))"
  by (fastforce simp: in_set_conv_nth stack_slot_def split: if_splits)

lemma list_all2_Union:
  assumes "list_all2 R xs ys" "\<And>x y. R x y \<Longrightarrow> f y \<subseteq> f x"
  shows "(\<Union>y \<in> set ys. f y) \<subseteq> (\<Union>x \<in> set xs. f x)"
  using assms(1)
proof induction
  case (Cons x xs y ys)
  then show ?case using assms(2) [of x y] by (auto dest: subsetD)
qed simp

lemma stack_slot_refs: "stack_slot t' i = stack_slot t i \<or> stack_slot t' i = GNil \<Longrightarrow> vrefs (stack_slot t' i) \<subseteq> vrefs (stack_slot t i)"
  by (elim disjE) simp_all

abbreviation shrinks :: "gstate \<Rightarrow> gstate \<Rightarrow> bool" where
  "shrinks g g' \<equiv> \<forall>a. rel_option shr (body g a) (body g' a)"

lemma shrinks_open_value:
  assumes "shrinks g g'"
  shows "vrefs (upval_value g' uv) \<subseteq> vrefs (upval_value g uv)"
proof (cases uv)
  case (UOpen th i)
  from spec [OF assms, of th] show ?thesis unfolding UOpen
    by (cases "body g th"; cases "body g' th") (auto simp: shr_def split: gbody.splits dest!: spec [of _ i])
qed simp

lemma shrinks_refs:
  assumes s: "shrinks g g'"
  shows "refs g' a \<subseteq> refs g a"
proof (cases "body g a")
  case None
  then show ?thesis using spec [OF s, of a] by (simp add: refs_def)
next
  case (Some b)
  then obtain b' where b': "body g' a = Some b'" "shr b b'" using spec [OF s, of a] by (cases "body g' a") auto
  have same: "brefs g' b \<subseteq> brefs g b" using shrinks_open_value [OF s] by (cases "(g, b)" rule: brefs.cases) auto
  from b'(2) have "brefs g' b' \<subseteq> brefs g b" unfolding shr_def
  proof (elim disjE exE conjE)
    assume "b' = b"
    then show ?thesis by (simp only: same)
  next
    fix h h' assume h: "b = BTable h" "b' = BTable h'" "h_metatable h' = h_metatable h" "h_array h' = h_array h"
      "list_all2 (\<lambda>n n'. snd n' = snd n \<and> (fst n' = fst n \<or> snd n = GNil)) (h_node h) (h_node h')"
    have "(\<Union>n \<in> set (h_node h'). nrefs n) \<subseteq> (\<Union>n \<in> set (h_node h). nrefs n)"
      by (rule list_all2_Union [OF h(5)]) (auto simp: nrefs_def)
    then show ?thesis using h by auto
  next
    fix u u' assume u: "b = BThread u" "b' = BThread u'" "th_gt u' = th_gt u" "th_top u' = th_top u" "\<forall>i. stack_slot u' i = stack_slot u i \<or> stack_slot u' i = GNil"
    have "vrefs (stack_slot u' i) \<subseteq> vrefs (stack_slot u i)" for i by (rule stack_slot_refs) (use u(5) in simp)
    then show ?thesis unfolding u(1,2) brefs.simps thread_refs unfolding u(3,4) by (intro Un_mono UN_mono order_refl)
  qed
  then show ?thesis using Some b' by (simp add: refs_def)
qed

lemma shrinks_typed_at: "shrinks g g' \<Longrightarrow> typed_at g' tt a = typed_at g tt a"
  unfolding typed_at_def by (metis option.rel_cases option.sel rel_option_None1 shr_tt option.distinct(1))

lemma shrinks_typed: "shrinks g g' \<Longrightarrow> typed g \<Longrightarrow> typed g'"
  using shrinks_refs [of g g'] by (fastforce simp: typed_def shrinks_typed_at)

lemma shrinks_trans: "shrinks g1 g2 \<Longrightarrow> shrinks g2 g3 \<Longrightarrow> shrinks g1 g3"
proof
  fix a assume "shrinks g1 g2" "shrinks g2 g3"
  then have "rel_option shr (body g1 a) (body g2 a)" "rel_option shr (body g2 a) (body g3 a)" by simp_all
  then show "rel_option shr (body g1 a) (body g3 a)"
    by (cases "body g1 a"; cases "body g2 a"; cases "body g3 a") (auto intro: shr_trans)
qed

subsection \<open>The effect of marking\<close>

definition gray_kind :: "gbody \<Rightarrow> bool" where
  "gray_kind b \<longleftrightarrow> gc_tt b = TTABLE \<or> gc_tt b = TFUNCTION \<or> gc_tt b = TTHREAD \<or> gc_tt b = TPROTO"

definition black_kind :: "gbody \<Rightarrow> bool" where
  "black_kind b \<longleftrightarrow> gc_tt b = TUSERDATA \<or> gc_tt b = TUPVAL \<and> \<not> is_open b"

definition settled :: "gstate \<Rightarrow> addr \<Rightarrow> bool" where
  "settled g a \<longleftrightarrow> (\<exists>b. body g a = Some b \<and>
     (if gray_kind b then a \<in> set (g_gray g) \<and> \<not> isblack g a else ok g a \<and> (isblack g a \<longleftrightarrow> black_kind b)))"

lemma settled_body: "body g a = Some b \<Longrightarrow>
    settled g a \<longleftrightarrow> (if gray_kind b then a \<in> set (g_gray g) \<and> \<not> isblack g a else ok g a \<and> (isblack g a \<longleftrightarrow> black_kind b))"
  by (simp add: settled_def)

definition upper_bits :: "mark \<Rightarrow> mark" where "upper_bits m = m AND NOT (BLACKMASK OR WHITEBITS)"

definition gray_at :: "gstate \<Rightarrow> addr \<Rightarrow> bool" where
  "gray_at g a \<longleftrightarrow> (\<exists>b. body g a = Some b \<and> gray_kind b)"

text \<open>Two states that differ in the heap and in the list of gray objects only.\<close>

definition rest_eq :: "gstate \<Rightarrow> gstate \<Rightarrow> bool" where
  "rest_eq g g' \<longleftrightarrow> (\<forall>h gr. g'\<lparr>g_heap := h, g_gray := gr\<rparr> = g\<lparr>g_heap := h, g_gray := gr\<rparr>)"

lemma rest_eq_refl [simp]: "rest_eq g g"
  by (simp add: rest_eq_def)

lemma rest_eq_trans: "rest_eq g1 g2 \<Longrightarrow> rest_eq g2 g3 \<Longrightarrow> rest_eq g1 g3"
  by (simp add: rest_eq_def)

lemma rest_eq_set_mark [simp]: "rest_eq g (set_mark a f g') = rest_eq g g'" "rest_eq (set_mark a f g) g' = rest_eq g g'"
  by (simp_all add: rest_eq_def set_mark_def split: option.splits)

lemma rest_eq_set_body [simp]: "rest_eq g (set_body a b g') = rest_eq g g'" "rest_eq (set_body a b g) g' = rest_eq g g'"
  by (simp_all add: rest_eq_def set_body_def split: option.splits)

lemma rest_eq_gray [simp]: "rest_eq g (g'\<lparr>g_gray := gr\<rparr>) = rest_eq g g'" "rest_eq (g\<lparr>g_gray := gr\<rparr>) g' = rest_eq g g'"
proof -
  have e: "x\<lparr>g_gray := gr\<rparr>\<lparr>g_heap := h, g_gray := gr'\<rparr> = x\<lparr>g_heap := h, g_gray := gr'\<rparr>" for x :: gstate and h gr' by (cases x) simp
  show "rest_eq g (g'\<lparr>g_gray := gr\<rparr>) = rest_eq g g'" "rest_eq (g\<lparr>g_gray := gr\<rparr>) g' = rest_eq g g'" by (simp_all only: rest_eq_def e)
qed

lemma rest_eq_field: "rest_eq g g' \<Longrightarrow> (\<And>x h gr. F (x\<lparr>g_heap := h, g_gray := gr\<rparr>) = F x) \<Longrightarrow> F g' = F g"
  unfolding rest_eq_def by metis

definition marks :: "gstate \<Rightarrow> gstate \<Rightarrow> bool" where
  "marks g g' \<longleftrightarrow> rest_eq g g' \<and> shrinks g g' \<and>
     (\<forall>a. iswhite g a \<and> \<not> iswhite g' a \<or> marked g' a = marked g a) \<and>
     (\<forall>a. iswhite g a \<longrightarrow> \<not> iswhite g' a \<longrightarrow> settled g' a \<and> upper_bits (marked g' a) = upper_bits (marked g a)) \<and>
     (\<exists>xs. g_gray g' = xs @ g_gray g \<and> distinct xs \<and> (\<forall>x \<in> set xs. iswhite g x \<and> \<not> iswhite g' x \<and> gray_at g x))"

lemma marks_refl [simp]: "marks g g"
proof -
  have "rel_option shr x x" for x :: "gbody option" by (cases x) simp_all
  then show ?thesis by (simp add: marks_def)
qed

lemma marks_fields:
  "marks g g' \<Longrightarrow> g_rootgc g' = g_rootgc g" "marks g g' \<Longrightarrow> g_sweepgc g' = g_sweepgc g"
  "marks g g' \<Longrightarrow> g_strt g' = g_strt g" "marks g g' \<Longrightarrow> g_nuse g' = g_nuse g"
  "marks g g' \<Longrightarrow> g_sweepstrgc g' = g_sweepstrgc g" "marks g g' \<Longrightarrow> g_grayagain g' = g_grayagain g"
  "marks g g' \<Longrightarrow> g_weak g' = g_weak g" "marks g g' \<Longrightarrow> g_tmudata g' = g_tmudata g"
  "marks g g' \<Longrightarrow> g_uvhead g' = g_uvhead g" "marks g g' \<Longrightarrow> g_currentwhite g' = g_currentwhite g"
  "marks g g' \<Longrightarrow> g_gcstate g' = g_gcstate g" "marks g g' \<Longrightarrow> g_mainthread g' = g_mainthread g"
  "marks g g' \<Longrightarrow> g_L g' = g_L g" "marks g g' \<Longrightarrow> g_registry g' = g_registry g"
  "marks g g' \<Longrightarrow> g_mt g' = g_mt g" "marks g g' \<Longrightarrow> g_mode g' = g_mode g" "marks g g' \<Longrightarrow> g_gc g' = g_gc g"
  "marks g g' \<Longrightarrow> g_totalbytes g' = g_totalbytes g" "marks g g' \<Longrightarrow> g_estimate g' = g_estimate g"
  "marks g g' \<Longrightarrow> g_GCthreshold g' = g_GCthreshold g" "marks g g' \<Longrightarrow> g_gcdept g' = g_gcdept g"
  "marks g g' \<Longrightarrow> g_gcpause g' = g_gcpause g" "marks g g' \<Longrightarrow> g_gcstepmul g' = g_gcstepmul g"
  "marks g g' \<Longrightarrow> g_buffsize g' = g_buffsize g"
  unfolding marks_def by ((elim conjE, erule rest_eq_field, simp)+)

lemma marks_white: "marks g g' \<Longrightarrow> iswhite g' a \<Longrightarrow> iswhite g a"
  unfolding marks_def by (metis iswhite_def)

lemma marks_shrinks: "marks g g' \<Longrightarrow> shrinks g g'"
  by (simp add: marks_def)

lemma marks_gray: "marks g g' \<Longrightarrow> set (g_gray g) \<subseteq> set (g_gray g')"
  by (auto simp: marks_def)

lemma marks_ok: "marks g g' \<Longrightarrow> ok g a \<Longrightarrow> ok g' a"
  using shrinks_refs [OF marks_shrinks] marks_white by (fastforce simp: ok_def)

lemma gray_kind_shr: "shr b b' \<Longrightarrow> gray_kind b' = gray_kind b" "shr b b' \<Longrightarrow> black_kind b' = black_kind b" "shr b b' \<Longrightarrow> is_open b' = is_open b"
  by (auto simp: shr_def gray_kind_def black_kind_def is_open_def)

lemma gray_at_shrinks: "shrinks g g' \<Longrightarrow> gray_at g' a = gray_at g a"
  by (drule spec [of _ a], cases "body g a"; cases "body g' a") (auto simp: gray_at_def gray_kind_shr)

lemma marks_settled:
  assumes m: "marks g g'" and s: "settled g a" and w: "\<not> iswhite g a"
  shows "settled g' a"
proof -
  obtain b where b: "body g a = Some b" "if gray_kind b then a \<in> set (g_gray g) \<and> \<not> isblack g a else ok g a \<and> (isblack g a \<longleftrightarrow> black_kind b)"
    using s by (auto simp: settled_def)
  have "rel_option shr (body g a) (body g' a)" using m by (simp add: marks_def)
  then obtain b' where b': "body g' a = Some b'" "shr b b'" using b(1) by (cases "body g' a") auto
  have "marked g' a = marked g a" using m w by (auto simp: marks_def)
  then have "isblack g' a = isblack g a" by (simp add: isblack_def)
  then show ?thesis using b b' gray_kind_shr [OF b'(2)] marks_gray [OF m] marks_ok [OF m] by (auto simp: settled_def)
qed

lemma marks_trans:
  assumes 1: "marks g1 g2" and 2: "marks g2 g3"
  shows "marks g1 g3"
  unfolding marks_def
proof (intro conjI allI impI)
  show "rest_eq g1 g3" using 1 2 unfolding marks_def by (blast intro: rest_eq_trans)
  show "rel_option shr (body g1 a) (body g3 a)" for a using shrinks_trans [OF marks_shrinks [OF 1] marks_shrinks [OF 2]] by simp
next
  fix a
  show "iswhite g1 a \<and> \<not> iswhite g3 a \<or> marked g3 a = marked g1 a"
    using 1 2 marks_white [OF 1, of a] marks_white [OF 2, of a] unfolding marks_def by metis
next
  fix a assume a: "iswhite g1 a" "\<not> iswhite g3 a"
  have "settled g3 a \<and> upper_bits (marked g3 a) = upper_bits (marked g1 a)"
  proof (cases "iswhite g2 a")
    case True
    then have "marked g2 a = marked g1 a" using 1 by (auto simp: marks_def)
    then show ?thesis using 2 True a by (auto simp: marks_def)
  next
    case False
    then have "settled g2 a" "upper_bits (marked g2 a) = upper_bits (marked g1 a)" using 1 a by (auto simp: marks_def)
    moreover have "marked g3 a = marked g2 a" using 2 False by (auto simp: marks_def)
    ultimately show ?thesis using marks_settled [OF 2 _ False] by simp
  qed
  then show "settled g3 a" "upper_bits (marked g3 a) = upper_bits (marked g1 a)" by simp_all
next
  obtain xs where xs: "g_gray g2 = xs @ g_gray g1" "distinct xs" "\<forall>x \<in> set xs. iswhite g1 x \<and> \<not> iswhite g2 x \<and> gray_at g1 x" using 1 by (auto simp: marks_def)
  obtain ys where ys: "g_gray g3 = ys @ g_gray g2" "distinct ys" "\<forall>y \<in> set ys. iswhite g2 y \<and> \<not> iswhite g3 y \<and> gray_at g2 y" using 2 by (auto simp: marks_def)
  have "g_gray g3 = (ys @ xs) @ g_gray g1" "distinct (ys @ xs)" "\<forall>x \<in> set (ys @ xs). iswhite g1 x \<and> \<not> iswhite g3 x \<and> gray_at g1 x"
    using xs ys marks_white [OF 1] marks_white [OF 2] gray_at_shrinks [OF marks_shrinks [OF 1]] by auto
  then show "\<exists>xs. g_gray g3 = xs @ g_gray g1 \<and> distinct xs \<and> (\<forall>x \<in> set xs. iswhite g1 x \<and> \<not> iswhite g3 x \<and> gray_at g1 x)" by blast
qed

subsection \<open>One object\<close>

text \<open>While no object is dead, an object is not white and black at once.\<close>

definition wb :: "gstate \<Rightarrow> bool" where
  "wb g \<longleftrightarrow> (\<forall>a. iswhite g a \<longrightarrow> \<not> isblack g a)"

lemma marks_wb: "marks g g' \<Longrightarrow> wb g \<Longrightarrow> wb g'"
  unfolding wb_def marks_def by (metis iswhite_def isblack_def)

lemma marks_typed: "marks g g' \<Longrightarrow> typed g \<Longrightarrow> typed g'"
  using shrinks_typed marks_shrinks by blast

lemma typed_cong: "body g = body g' \<Longrightarrow> typed g = typed g'"
  using refs_cong [of g g'] by (simp add: typed_def typed_at_def)

lemma upper_bits_marks [simp]: "upper_bits (m_white2gray m) = upper_bits m" "upper_bits (m_gray2black m) = upper_bits m"
  "upper_bits (m_black2gray m) = upper_bits m"
  by (simp_all add: upper_bits_def m_white2gray_def m_gray2black_def m_black2gray_def mask_defs mark_eq_iff bit_and_iff bit_or_iff bit_not_iff)

lemma set_mark_self: "f (marked g a) = marked g a \<Longrightarrow> set_mark a f g = g"
  by (cases g) (auto simp: set_mark_def marked_def fun_upd_idem split: option.splits)

lemma set_mark_twice: "set_mark a f (set_mark a f' g) = set_mark a (f \<circ> f') g"
  by (auto simp: set_mark_def split: option.splits)

lemma marks_around:
  assumes w: "iswhite g a" and m: "marks (set_mark a f g) g2" and s: "settled (set_mark a h g2) a"
    and f: "\<not> m_white (f (marked g a))" "upper_bits (f (marked g a)) = upper_bits (marked g a)"
    and h: "\<not> m_white (h (f (marked g a)))" "upper_bits (h (f (marked g a))) = upper_bits (f (marked g a))"
  shows "marks g (set_mark a h g2)"
proof -
  let ?g1 = "set_mark a f g" and ?g' = "set_mark a h g2"
  have dom: "body g a \<noteq> None" by (rule iswhite_body [OF w])
  have m1: "marked ?g1 a = f (marked g a)" "\<And>x. x \<noteq> a \<Longrightarrow> marked ?g1 x = marked g x" using dom by (simp_all add: marked_set_mark)
  then have w1: "\<not> iswhite ?g1 a" using f by (simp add: iswhite_def)
  have m2: "marked g2 a = f (marked g a)" using m w1 m1(1) by (auto simp: marks_def)
  have dom2: "body g2 a \<noteq> None" using marks_shrinks [OF m] dom by (metis body_set_mark option.rel_distinct(2) not_None_eq)
  have m': "marked ?g' a = h (f (marked g a))" "\<And>x. x \<noteq> a \<Longrightarrow> marked ?g' x = marked g2 x" using dom2 m2 by (simp_all add: marked_set_mark)
  have w2: "\<not> iswhite g2 a" using m2 f by (simp add: iswhite_def)
  have w': "iswhite ?g' x = iswhite g2 x" for x using w2 m'(1,2) h m2 by (cases "x = a") (simp_all add: iswhite_def)
  have wg: "x \<noteq> a \<Longrightarrow> iswhite ?g1 x = iswhite g x" for x by (simp add: iswhite_def m1)
  have set': "settled ?g' x" if "settled g2 x" "x \<noteq> a" for x
  proof -
    have "isblack ?g' x = isblack g2 x" using that(2) m'(2) by (simp add: isblack_def)
    moreover have "ok ?g' x = ok g2 x" using refs_cong [of ?g' g2] w' by (simp add: ok_def)
    moreover have st: "settled g2 x" by (rule that(1))
    moreover obtain b where "body g2 x = Some b" using st by (auto simp: settled_def)
    ultimately show ?thesis using settled_body [of g2 x b] settled_body [of ?g' x b] by simp
  qed
  show ?thesis unfolding marks_def
  proof (intro conjI allI impI)
    show "rest_eq g ?g'" using m by (simp add: marks_def)
    show "rel_option shr (body g x) (body ?g' x)" for x using marks_shrinks [OF m] by simp
  next
    fix x
    show "iswhite g x \<and> \<not> iswhite ?g' x \<or> marked ?g' x = marked g x"
      using m wg [of x] w w' m'(2) [of x] m1(2) [of x] w2 unfolding marks_def by (cases "x = a") metis+
  next
    fix x assume x: "iswhite g x" "\<not> iswhite ?g' x"
    have "settled ?g' x \<and> upper_bits (marked ?g' x) = upper_bits (marked g x)"
    proof (cases "x = a")
      case True
      then show ?thesis using s m'(1) f h by simp
    next
      case False
      then have "settled g2 x \<and> upper_bits (marked g2 x) = upper_bits (marked ?g1 x)" using m x wg w' by (simp add: marks_def)
      then show ?thesis using set' False m'(2) m1(2) by simp
    qed
    then show "settled ?g' x" "upper_bits (marked ?g' x) = upper_bits (marked g x)" by simp_all
  next
    obtain xs where xs: "g_gray g2 = xs @ g_gray ?g1" "distinct xs" "\<forall>x \<in> set xs. iswhite ?g1 x \<and> \<not> iswhite g2 x \<and> gray_at ?g1 x"
      using m by (auto simp: marks_def)
    then have "\<forall>x \<in> set xs. iswhite g x \<and> \<not> iswhite ?g' x \<and> gray_at g x" using wg w' w1 unfolding gray_at_def body_set_mark by metis
    then show "\<exists>xs. g_gray ?g' = xs @ g_gray g \<and> distinct xs \<and> (\<forall>x \<in> set xs. iswhite g x \<and> \<not> iswhite ?g' x \<and> gray_at g x)" using xs by auto
  qed
qed

lemma marks_start:
  assumes "iswhite g a" "marks (set_mark a f g) g'" "settled g' a" "\<not> m_white (f (marked g a))" "upper_bits (f (marked g a)) = upper_bits (marked g a)"
  shows "marks g g'"
  using marks_around [OF assms(1,2), of id] assms(3-5) set_mark_self [of id g'] by simp

lemma marks_push:
  assumes w: "iswhite g a" and b: "body g a = Some b" "gray_kind b" and n: "\<not> isblack g a"
  shows "marks g ((white2gray a g)\<lparr>g_gray := a # g_gray g\<rparr>)"
proof -
  let ?g = "(white2gray a g)\<lparr>g_gray := a # g_gray g\<rparr>"
  have m: "marked ?g a = m_white2gray (marked g a)" "\<And>x. x \<noteq> a \<Longrightarrow> marked ?g x = marked g x"
    using b by (simp_all add: white2gray_def marked_set_mark)
  have bd: "body ?g = body g" by (simp add: white2gray_def)
  have wa: "\<not> iswhite ?g a" and wx: "\<And>x. x \<noteq> a \<Longrightarrow> iswhite ?g x = iswhite g x" using m by (simp_all add: iswhite_def)
  have "settled ?g a" using b n m settled_body [of ?g a b] by (simp add: bd isblack_def)
  moreover have "rest_eq g ?g" by simp
  moreover have "rel_option shr x x" for x :: "gbody option" by (cases x) simp_all
  ultimately show ?thesis unfolding marks_def bd
  proof (intro conjI allI impI)
    fix x
    show "iswhite g x \<and> \<not> iswhite ?g x \<or> marked ?g x = marked g x" using w wa m by (cases "x = a") auto
    assume "iswhite g x" "\<not> iswhite ?g x"
    then have "x = a" using wx by metis
    then show "settled ?g x" "upper_bits (marked ?g x) = upper_bits (marked g x)" using \<open>settled ?g a\<close> m by simp_all
  next
    show "\<exists>xs. g_gray ?g = xs @ g_gray g \<and> distinct xs \<and> (\<forall>x\<in>set xs. iswhite g x \<and> \<not> iswhite ?g x \<and> gray_at g x)"
      by (rule exI [of _ "[a]"]) (use w wa b in \<open>simp add: gray_at_def\<close>)
  qed simp_all
qed

subsection \<open>reallymarkobject\<close>

text \<open>How deep \<open>reallymarkobject\<close> calls itself on an object.\<close>

definition rank :: "gbody \<Rightarrow> nat" where
  "rank b = (if gc_tt b = TUSERDATA then 2 else if gc_tt b = TUPVAL then 3 else 1)"

lemma rank_le_3: "rank b \<le> 3"
  by (simp add: rank_def)

lemma typedD: "typed g \<Longrightarrow> (tt, r) \<in> refs g a \<Longrightarrow> typed_at g tt r"
  by (auto simp: typed_def)

lemma markobject_marks:
  assumes "iswhite g r \<Longrightarrow> marks g (F r g) \<and> \<not> iswhite (F r g) r"
  shows "marks g (markobject_with F r g) \<and> \<not> iswhite (markobject_with F r g) r"
  using assms by (simp add: markobject_with_def)

lemma wb_set_mark: "wb g \<Longrightarrow> (\<And>m. \<not> m_white (f m)) \<Longrightarrow> wb (set_mark a f g)"
  by (auto simp: wb_def iswhite_def isblack_def marked_set_mark split: if_splits)

lemma typed_set_mark: "typed (set_mark a f g) = typed g"
  by (rule typed_cong) simp

lemma marks_body: "marks g g' \<Longrightarrow> body g a = Some b \<Longrightarrow> \<exists>b'. body g' a = Some b' \<and> shr b b'"
  using marks_shrinks [of g g'] by (cases "body g' a") (fastforce dest: spec [of _ a])+

lemma marks_body_same: "marks g g' \<Longrightarrow> body g a = Some b \<Longrightarrow> gc_tt b \<noteq> TTABLE \<Longrightarrow> gc_tt b \<noteq> TTHREAD \<Longrightarrow> body g' a = Some b"
  by (auto dest!: marks_body elim!: shr_cases)

lemma marks_nonwhite: "marks g g' \<Longrightarrow> \<not> iswhite g a \<Longrightarrow> marked g' a = marked g a"
  by (auto simp: marks_def)

text \<open>A marking operation for the objects of some types, as \<open>reallymarkobject\<close> calls it for the parts of an object.\<close>

definition marker :: "(addr \<Rightarrow> gstate \<Rightarrow> gstate) \<Rightarrow> (nat \<Rightarrow> bool) \<Rightarrow> bool" where
  "marker F T \<longleftrightarrow> (\<forall>g r tt. wb g \<longrightarrow> typed g \<longrightarrow> T tt \<longrightarrow> typed_at g tt r \<longrightarrow>
     marks g (markobject_with F r g) \<and> \<not> iswhite (markobject_with F r g) r)"

lemma markerD: "marker F T \<Longrightarrow> wb g \<Longrightarrow> typed g \<Longrightarrow> T tt \<Longrightarrow> typed_at g tt r \<Longrightarrow>
    marks g (markobject_with F r g) \<and> \<not> iswhite (markobject_with F r g) r"
  by (simp add: marker_def)

lemma mark_udata:
  assumes F: "marker F (\<lambda>tt. tt = TTABLE)"
    and wb: "wb g" and ty: "typed g" and w: "iswhite g a" and b: "body g a = Some (BUdata mt env k)"
  defines "g2 \<equiv> set_mark a (m_gray2black \<circ> m_white2gray) g"
  defines "g4 \<equiv> markobject_with F env (markopt_with F mt g2)"
  shows "marks g g4 \<and> \<not> iswhite g4 a"
proof -
  have "refs g a = orefs TTABLE mt \<union> {(TTABLE, env)}" using b by (simp add: refs_def)
  then have t: "typed_at g TTABLE env" "\<And>m. mt = Some m \<Longrightarrow> typed_at g TTABLE m" using typedD [OF ty] by (auto simp: orefs_def)
  have m2: "\<not> iswhite g2 a" "isblack g2 a" using b by (simp_all add: g2_def iswhite_def isblack_def marked_set_mark)
  have wb2: "wb g2" unfolding g2_def by (rule wb_set_mark [OF wb]) simp
  have ty2: "typed g2" using ty by (simp add: g2_def typed_set_mark)
  let ?g3 = "markopt_with F mt g2"
  have 3: "marks g2 ?g3" "\<And>m. mt = Some m \<Longrightarrow> \<not> iswhite ?g3 m"
    using markerD [OF F wb2 ty2] t(2) by (simp_all add: g2_def markopt_with_def typed_at_def split: option.splits)
  have "typed_at ?g3 TTABLE env" using t(1) shrinks_typed_at [OF marks_shrinks [OF 3(1)]] by (simp add: typed_at_def g2_def)
  then have 4: "marks ?g3 g4" "\<not> iswhite g4 env" using markerD [OF F marks_wb [OF 3(1) wb2] marks_typed [OF 3(1) ty2]] by (simp_all add: g4_def)
  have 24: "marks g2 g4" by (rule marks_trans [OF 3(1) 4(1)])
  have b4: "body g4 a = Some (BUdata mt env k)" by (rule marks_body_same [OF 24]) (use b in \<open>simp_all add: g2_def\<close>)
  have a4: "marked g4 a = marked g2 a" by (rule marks_nonwhite [OF 24 m2(1)])
  have "ok g4 a" using b4 4 3(2) marks_white [OF 4(1)] by (auto simp: ok_def refs_def orefs_def split: option.splits)
  then have "settled g4 a" using b4 a4 m2 by (simp add: settled_body gray_kind_def black_kind_def isblack_def)
  then have "marks g g4" using marks_start [OF w, of "m_gray2black \<circ> m_white2gray" g4] 24 unfolding g2_def by simp
  then show ?thesis using a4 m2 by (simp add: iswhite_def)
qed

lemma mark_upval:
  assumes F: "marker F (\<lambda>tt. tt \<le> TTHREAD)"
    and wb: "wb g" and ty: "typed g" and w: "iswhite g a" and b: "body g a = Some (BUpval uv)"
  defines "g1 \<equiv> white2gray a g"
  defines "g2 \<equiv> markvalue_with F (upval_value g1 uv) g1"
  defines "g3 \<equiv> (case uv of UClosed _ \<Rightarrow> gray2black a g2 | UOpen _ _ \<Rightarrow> g2)"
  shows "marks g g3 \<and> \<not> iswhite g3 a"
proof -
  let ?v = "upval_value g1 uv"
  have v: "?v = upval_value g uv" by (rule upval_value_cong) (simp add: g1_def)
  have m1: "marked g1 a = m_white2gray (marked g a)" using b by (simp add: g1_def marked_set_mark)
  have w1: "\<not> iswhite g1 a" "\<not> isblack g1 a" using m1 wb w by (simp_all add: iswhite_def isblack_def wb_def)
  have wb1: "wb g1" unfolding g1_def white2gray_def by (rule wb_set_mark [OF wb]) simp
  have ty1: "typed g1" using ty by (simp add: g1_def typed_set_mark)
  have r: "refs g a = vrefs ?v" using b by (simp add: refs_def v)
  have 2: "marks g1 g2 \<and> (\<forall>(tt, x) \<in> vrefs ?v. \<not> iswhite g2 x)"
  proof (cases ?v)
    case (GObj tt x)
    then have "typed_at g (if tt \<le> TTHREAD then tt else TDEADKEY) x" using typedD [OF ty, of _ x a] r by auto
    then have "typed_at g1 tt x" "tt \<le> TTHREAD" by (auto simp: g1_def typed_at_def elim: gc_tt.elims split: if_splits)
    then show ?thesis using markerD [OF F wb1 ty1] GObj by (simp add: g2_def markvalue_with_def)
  next
    case (GDead x)
    then have "typed_at g TDEADKEY x" using typedD [OF ty, of _ x a] r by auto
    then show ?thesis by (auto simp: typed_at_def elim: gc_tt.elims)
  qed (simp_all add: g2_def markvalue_with_def)
  then have m2: "marks g1 g2" by simp
  have b2: "body g2 a = Some (BUpval uv)" by (rule marks_body_same [OF m2]) (use b in \<open>simp_all add: g1_def\<close>)
  have a2: "marked g2 a = m_white2gray (marked g a)" using marks_nonwhite [OF m2 w1(1)] m1 by simp
  have ok2: "ok g2 a"
  proof -
    have "refs g2 a \<subseteq> vrefs ?v" using shrinks_refs [OF marks_shrinks [OF m2], of a] r refs_cong [of g1 g] by (simp add: g1_def)
    then show ?thesis using 2 by (auto simp: ok_def)
  qed
  show ?thesis
  proof (cases uv)
    case (UOpen th i)
    then have e: "g3 = g2" by (simp add: g3_def)
    have "settled g2 a" using b2 UOpen ok2 a2 w1 m1 by (simp add: settled_body gray_kind_def black_kind_def is_open_def isblack_def)
    then have "marks g g2" using marks_start [OF w, of m_white2gray g2] m2 by (simp add: g1_def)
    then show ?thesis unfolding e using a2 by (simp add: iswhite_def)
  next
    case (UClosed x)
    then have e: "g3 = gray2black a g2" by (simp add: g3_def)
    have a3: "marked g3 a = m_gray2black (m_white2gray (marked g a))" unfolding e using b2 a2 by (simp add: marked_set_mark)
    have "iswhite g3 y = iswhite g2 y" for y unfolding e using b2 a2 by (cases "y = a") (simp_all add: iswhite_def marked_set_mark)
    then have "ok g3 a" using ok2 refs_cong [of g3 g2] by (simp add: ok_def e)
    then have "settled g3 a" using b2 UClosed a3 by (simp add: e settled_body gray_kind_def black_kind_def is_open_def isblack_def)
    then have "marks g g3" using marks_around [OF w, of m_white2gray g2 m_gray2black] m2 by (simp add: e g1_def)
    then show ?thesis using a3 by (simp add: iswhite_def)
  qed
qed

lemma stringmark_marks:
  assumes "wb g" "iswhite g a" "body g a = Some (BString x)"
  shows "marks g (set_mark a m_white2gray g)"
  by (rule marks_start [OF assms(2), of m_white2gray])
    (use assms in \<open>simp_all add: settled_body marked_set_mark gray_kind_def black_kind_def ok_def refs_def isblack_def wb_def\<close>)

lemma really_mark_marks:
  "wb g \<Longrightarrow> typed g \<Longrightarrow> iswhite g a \<Longrightarrow> (\<And>b. body g a = Some b \<Longrightarrow> rank b \<le> n) \<Longrightarrow>
   marks g (really_mark n a g) \<and> \<not> iswhite (really_mark n a g) a"
proof (induction n arbitrary: a g)
  case 0
  then show ?case using iswhite_body [of g a] by (fastforce simp: rank_def split: if_splits)
next
  case (Suc n)
  obtain b where b: "body g a = Some b" using iswhite_body [OF Suc.prems(3)] by auto
  have nb: "\<not> isblack g a" using Suc.prems(1,3) by (simp add: wb_def)
  have part: "marker (really_mark n) T" if r: "\<And>c. T (gc_tt c) \<Longrightarrow> rank c \<le> n" for T
    unfolding marker_def
  proof (intro allI impI markobject_marks)
    fix g' x tt assume a: "wb g'" "typed g'" "T tt" "typed_at g' tt x" "iswhite g' x"
    show "marks g' (really_mark n x g') \<and> \<not> iswhite (really_mark n x g') x"
      by (rule Suc.IH [OF a(1,2,5)]) (use a(3,4) r in \<open>auto simp: typed_at_def\<close>)
  qed
  note pushed = marks_push [OF Suc.prems(3) b _ nb]
  show ?case
  proof (cases b)
    case (BString x)
    then show ?thesis using stringmark_marks [OF Suc.prems(1,3), of x] b by (simp add: iswhite_def marked_set_mark)
  next
    case (BUdata mt env k)
    have "marker (really_mark n) (\<lambda>tt. tt = TTABLE)" by (rule part) (use Suc.prems(4) [OF b] BUdata in \<open>simp add: rank_def\<close>)
    from mark_udata [OF this Suc.prems(1-3)] show ?thesis using b BUdata by (simp add: set_mark_twice)
  next
    case (BUpval uv)
    have "marker (really_mark n) (\<lambda>tt. tt \<le> TTHREAD)"
      by (rule part) (use Suc.prems(4) [OF b] BUpval in \<open>auto simp: rank_def split: if_splits\<close>)
    from mark_upval [OF this Suc.prems(1-3)] show ?thesis using b BUpval by (cases uv) (simp_all add: Let_def)
  qed (use pushed b in \<open>simp_all add: gray_kind_def Let_def iswhite_def marked_set_mark\<close>)
qed

lemma markobject_step: "wb g \<Longrightarrow> typed g \<Longrightarrow> marks g (markobject a g) \<and> \<not> iswhite (markobject a g) a"
  unfolding markobject_def reallymarkobject_def by (rule markobject_marks) (rule really_mark_marks, simp_all add: rank_le_3)

lemma markopt_step: "wb g \<Longrightarrow> typed g \<Longrightarrow> marks g (markopt p g) \<and> (\<forall>(tt, r) \<in> orefs tt p. \<not> iswhite (markopt p g) r)"
  using markobject_step [of g] by (cases p) (simp_all add: markopt_def markopt_with_def markobject_def orefs_def)

lemma markvalue_step: "wb g \<Longrightarrow> typed g \<Longrightarrow> marks g (markvalue v g) \<and> (\<forall>(tt, r) \<in> vrefs v. typed_at g tt r \<longrightarrow> \<not> iswhite (markvalue v g) r)"
  using markobject_step [of g] by (cases v) (auto simp: markvalue_def markvalue_with_def markobject_def typed_at_def elim: gc_tt.elims)

end
