(* ===== verification/Lua_Gc_Trav.thy ===== *)
theory Lua_Gc_Trav
  imports Lua_Gc_Mark
begin

text \<open>The traversals of the collector: after one of them the object it has traversed has marked references only, or is a weak table in the list of these.\<close>

subsection \<open>Marking a list of things\<close>

lemma fold_marks:
  assumes step: "\<And>x g. wb g \<Longrightarrow> typed g \<Longrightarrow> P x g \<Longrightarrow> marks g (F x g) \<and> (\<forall>r \<in> X x. \<not> iswhite (F x g) r)"
    and mono: "\<And>x g g'. P x g \<Longrightarrow> marks g g' \<Longrightarrow> P x g'"
  shows "wb g \<Longrightarrow> typed g \<Longrightarrow> \<forall>x \<in> set xs. P x g \<Longrightarrow>
    marks g (fold F xs g) \<and> (\<forall>x \<in> set xs. \<forall>r \<in> X x. \<not> iswhite (fold F xs g) r)"
proof (induction xs arbitrary: g)
  case Nil
  then show ?case by simp
next
  case (Cons x xs)
  have 1: "marks g (F x g)" "\<forall>r \<in> X x. \<not> iswhite (F x g) r" using step [of g x] Cons.prems by auto
  have 2: "\<forall>y \<in> set xs. P y (F x g)" using Cons.prems mono [OF _ 1(1)] by auto
  from Cons.IH [OF marks_wb [OF 1(1) Cons.prems(1)] marks_typed [OF 1(1) Cons.prems(2)] 2]
  have 3: "marks (F x g) (fold F xs (F x g))" "\<forall>y \<in> set xs. \<forall>r \<in> X y. \<not> iswhite (fold F xs (F x g)) r" by auto
  then show ?case using 1 marks_trans [OF 1(1) 3(1)] marks_white [OF 3(1)] by auto
qed

definition targets :: "(nat \<times> addr) set \<Rightarrow> addr set" where
  "targets R = snd ` R"

definition valid_refs :: "(nat \<times> addr) set \<Rightarrow> gstate \<Rightarrow> bool" where
  "valid_refs R g \<longleftrightarrow> (\<forall>(tt, r) \<in> R. typed_at g tt r)"

lemma valid_refs_marks: "valid_refs R g \<Longrightarrow> marks g g' \<Longrightarrow> valid_refs R g'"
  using shrinks_typed_at [OF marks_shrinks] by (auto simp: valid_refs_def)

lemma ok_targets: "ok g a \<longleftrightarrow> (\<forall>r \<in> targets (refs g a). \<not> iswhite g r)"
  by (auto simp: ok_def targets_def)

lemma targets_simps [simp]: "targets {} = {}" "targets (A \<union> B) = targets A \<union> targets B" "targets (insert (tt, r) A) = insert r (targets A)"
  "targets (\<Union>x \<in> S. f x) = (\<Union>x \<in> S. targets (f x))" "targets (Pair tt ` R) = R"
  by (auto simp: targets_def image_UN image_image)

lemma valid_refs_simps [simp]: "valid_refs {} g" "valid_refs (A \<union> B) g \<longleftrightarrow> valid_refs A g \<and> valid_refs B g"
  "valid_refs (insert (tt, r) A) g \<longleftrightarrow> typed_at g tt r \<and> valid_refs A g" "valid_refs (\<Union>x \<in> S. f x) g \<longleftrightarrow> (\<forall>x \<in> S. valid_refs (f x) g)"
  by (auto simp: valid_refs_def)

lemma valid_refs_typed: "typed g \<Longrightarrow> valid_refs (refs g a) g"
  by (auto simp: typed_def valid_refs_def)

lemma markvalue_targets: "wb g \<Longrightarrow> typed g \<Longrightarrow> valid_refs (vrefs v) g \<Longrightarrow> marks g (markvalue v g) \<and> (\<forall>r \<in> targets (vrefs v). \<not> iswhite (markvalue v g) r)"
  using markvalue_step [of g v] by (auto simp: targets_def valid_refs_def)

lemma markopt_targets: "wb g \<Longrightarrow> typed g \<Longrightarrow> marks g (markopt p g) \<and> (\<forall>r \<in> targets (orefs tt p). \<not> iswhite (markopt p g) r)"
  using markopt_step [of g p tt] by (auto simp: targets_def)

lemma stringmark_targets:
  assumes "wb g" "typed g" "valid_refs (orefs TSTRING p) g"
  shows "marks g (stringmark_opt p g) \<and> (\<forall>r \<in> targets (orefs TSTRING p). \<not> iswhite (stringmark_opt p g) r)"
proof (cases p)
  case (Some a)
  then obtain b where "body g a = Some b" "gc_tt b = TSTRING" using assms(3) by (auto simp: orefs_def typed_at_def)
  then obtain x where x: "body g a = Some (BString x)" by (cases b) auto
  show ?thesis
  proof (cases "iswhite g a")
    case True
    then show ?thesis using stringmark_marks [OF assms(1) True x] Some x by (simp add: stringmark_opt_def orefs_def iswhite_def marked_set_mark)
  next
    case False
    then have "m_white2gray (marked g a) = marked g a"
      by (simp add: iswhite_def m_white_bits mark_eq_iff m_white2gray_def WHITEBITS_def bit_and_iff bit_not_iff)
    then show ?thesis using Some False set_mark_self [of m_white2gray g a] by (simp add: stringmark_opt_def orefs_def)
  qed
qed (simp add: stringmark_opt_def orefs_def)

lemma markobject_targets: "wb g \<Longrightarrow> typed g \<Longrightarrow> marks g (markobject a g) \<and> (\<forall>r \<in> {a}. \<not> iswhite (markobject a g) r)"
  using markobject_step [of g a] by simp

text \<open>The four loops of the traversals.\<close>

lemma fold_markvalue:
  "wb g \<Longrightarrow> typed g \<Longrightarrow> valid_refs (\<Union>v \<in> set vs. vrefs v) g \<Longrightarrow>
   marks g (fold markvalue vs g) \<and> (\<forall>r \<in> targets (\<Union>v \<in> set vs. vrefs v). \<not> iswhite (fold markvalue vs g) r)"
  using fold_marks [where P = "\<lambda>v. valid_refs (vrefs v)" and X = "\<lambda>v. targets (vrefs v)" and F = markvalue and g = g and xs = vs, OF markvalue_targets valid_refs_marks] by simp

lemma fold_markobject:
  "wb g \<Longrightarrow> typed g \<Longrightarrow> marks g (fold markobject us g) \<and> (\<forall>r \<in> set us. \<not> iswhite (fold markobject us g) r)"
  using fold_marks [where P = "\<lambda>_ _. True" and X = "\<lambda>a. {a}" and F = markobject and g = g and xs = us, OF markobject_targets] by simp

lemma fold_markopt:
  "wb g \<Longrightarrow> typed g \<Longrightarrow> marks g (fold markopt ps g) \<and> (\<forall>r \<in> targets (\<Union>p \<in> set ps. orefs tt p). \<not> iswhite (fold markopt ps g) r)"
  using fold_marks [where P = "\<lambda>_ _. True" and X = "\<lambda>p. targets (orefs tt p)" and F = markopt and g = g and xs = ps, OF markopt_targets] by simp

lemma fold_stringmark:
  "wb g \<Longrightarrow> typed g \<Longrightarrow> valid_refs (\<Union>p \<in> set ps. orefs TSTRING p) g \<Longrightarrow>
   marks g (fold stringmark_opt ps g) \<and> (\<forall>r \<in> targets (\<Union>p \<in> set ps. orefs TSTRING p). \<not> iswhite (fold stringmark_opt ps g) r)"
  using fold_marks [where P = "\<lambda>p. valid_refs (orefs TSTRING p)" and X = "\<lambda>p. targets (orefs TSTRING p)" and F = stringmark_opt and g = g and xs = ps,
    OF stringmark_targets valid_refs_marks]
  by simp

text \<open>One marking after another.\<close>

lemma marks_then:
  assumes "marks g g1 \<and> (\<forall>r \<in> R. \<not> iswhite g1 r)" "wb g" "typed g"
    and "wb g1 \<Longrightarrow> typed g1 \<Longrightarrow> marks g1 g2 \<and> (\<forall>r \<in> S. \<not> iswhite g2 r)"
  shows "marks g g2 \<and> (\<forall>r \<in> R \<union> S. \<not> iswhite g2 r)"
proof -
  have 2: "marks g1 g2" "\<forall>r \<in> S. \<not> iswhite g2 r" using assms marks_wb marks_typed by blast+
  then show ?thesis using assms(1) marks_trans marks_white [OF 2(1)] by blast
qed

lemma traverseclosure_marks:
  assumes "wb g" "typed g" "valid_refs (brefs g (BFunction cl)) g"
  shows "marks g (traverseclosure cl g) \<and> (\<forall>r \<in> targets (brefs g (BFunction cl)). \<not> iswhite (traverseclosure cl g) r)"
proof (cases cl)
  case (CCl e vs)
  have "marks g (fold markvalue vs (markobject e g)) \<and> (\<forall>r \<in> {e} \<union> targets (\<Union>v \<in> set vs. vrefs v). \<not> iswhite (fold markvalue vs (markobject e g)) r)"
    by (rule marks_then [OF markobject_targets assms(1,2)], rule assms(1), rule assms(2), rule fold_markvalue)
      (use assms(3) CCl valid_refs_marks markobject_step [OF assms(1,2)] in auto)
  then show ?thesis using CCl by (auto simp: targets_def)
next
  case (LCl e p us)
  let ?g1 = "markobject e g" and ?g2 = "markobject p (markobject e g)"
  have "marks g ?g2 \<and> (\<forall>r \<in> {e} \<union> {p}. \<not> iswhite ?g2 r)"
    by (rule marks_then [OF markobject_targets assms(1,2)], rule assms(1), rule assms(2), rule markobject_targets)
  from marks_then [OF this assms(1,2) fold_markobject]
  have "marks g (fold markobject us ?g2) \<and> (\<forall>r \<in> ({e} \<union> {p}) \<union> set us. \<not> iswhite (fold markobject us ?g2) r)" .
  then show ?thesis using LCl by (auto simp: targets_def)
qed

lemma traverseproto_marks:
  assumes w: "wb g" and t: "typed g" and v: "valid_refs (brefs g (BProto f)) g"
  shows "marks g (traverseproto f g) \<and> (\<forall>r \<in> targets (brefs g (BProto f)). \<not> iswhite (traverseproto f g) r)"
proof -
  let ?g1 = "stringmark_opt (gp_source f) g" let ?g2 = "fold markvalue (gp_k f) ?g1"
  let ?g3 = "fold stringmark_opt (gp_upvalues f) ?g2" let ?g4 = "fold markopt (gp_p f) ?g3"
  have 1: "marks g ?g1 \<and> (\<forall>r \<in> targets (orefs TSTRING (gp_source f)). \<not> iswhite ?g1 r)" by (rule stringmark_targets [OF w t]) (use v in simp)
  have 2: "marks g ?g2 \<and> (\<forall>r \<in> targets (orefs TSTRING (gp_source f)) \<union> targets (\<Union>v \<in> set (gp_k f). vrefs v). \<not> iswhite ?g2 r)"
    by (rule marks_then [OF 1 w t], rule fold_markvalue) (use v valid_refs_marks [OF _ conjunct1 [OF 1]] in auto)
  from marks_then [OF 2 w t fold_stringmark [of ?g2 "gp_upvalues f"]]
  have 3: "marks g ?g3 \<and> (\<forall>r \<in> (targets (orefs TSTRING (gp_source f)) \<union> targets (\<Union>v \<in> set (gp_k f). vrefs v)) \<union>
      targets (\<Union>p \<in> set (gp_upvalues f). orefs TSTRING p). \<not> iswhite ?g3 r)"
    using v valid_refs_marks [OF _ conjunct1 [OF 2]] by auto
  note 4 = marks_then [OF 3 w t fold_markopt [of ?g3 "gp_p f" TPROTO]]
  from marks_then [OF 4 w t fold_stringmark [of ?g4 "gp_locvars f"]] show ?thesis
    using v valid_refs_marks [OF _ conjunct1 [OF 4]] by (auto simp: traverseproto_def)
qed

subsection \<open>Bodies\<close>

lemma body_markobject_with: "(\<And>a g. body (F a g) = body g) \<Longrightarrow> body (markobject_with F a g) = body g"
  by (simp add: markobject_with_def)

lemma body_really_mark: "body (really_mark n a g) = body g"
proof (induction n arbitrary: a g)
  case (Suc n)
  have "body (markopt_with (really_mark n) p g) = body g" "body (markvalue_with (really_mark n) v g) = body g" for p v g
    by (simp_all add: markopt_with_def markvalue_with_def body_markobject_with [OF Suc.IH] split: option.splits gval.splits)
  then show ?case by (simp add: Let_def body_markobject_with [OF Suc.IH] split: option.splits gbody.splits gupval.splits)
qed simp

lemma body_markvalue: "body (markvalue v g) = body g"
  by (simp add: markvalue_def markvalue_with_def reallymarkobject_def body_markobject_with [OF body_really_mark] split: gval.splits)

lemma body_fold_markvalue: "body (fold markvalue vs g) = body g"
  by (induction vs arbitrary: g) (simp_all add: body_markvalue)

lemma marks_set_body:
  assumes "body g a = Some b" "shr b b'"
  shows "marks g (set_body a b' g)"
proof -
  have "rel_option shr x x" for x :: "gbody option" by (cases x) simp_all
  then show ?thesis using assms by (simp add: marks_def body_set_body iswhite_def)
qed

lemma gfasttm_marks: "gfasttm g mt e nm = (v, g') \<Longrightarrow> marks g g'"
proof -
  assume g: "gfasttm g mt e nm = (v, g')"
  have "marks g (set_body a (BTable (h\<lparr>h_flags := x\<rparr>)) g)" if "body g a = Some (BTable h)" for a h x
    by (rule marks_set_body [OF that]) (simp add: shr_def list.rel_refl)
  then show ?thesis using g by (auto simp: gfasttm_def split: option.splits gbody.splits if_splits prod.splits)
qed

subsection \<open>Stacks\<close>

lemma shr_thread_trans: "shr (BThread t) (BThread t1) \<Longrightarrow> shr (BThread t1) b \<Longrightarrow> shr (BThread t) b"
  by (rule shr_trans)

lemma clear_stack_shr: "shr (BThread t) (BThread (clear_stack lim t))"
  by (simp add: shr_def clear_stack_def stack_slot_def)

lemma checkstacksizes_shr: "shr (BThread t) (BThread (checkstacksizes n t))"
proof -
  have a: "shr (BThread t) (BThread (luaD_reallocCI k t))" for k t by (simp add: shr_def luaD_reallocCI_def stack_slot_def)
  have b: "shr (BThread t) (BThread (luaD_reallocstack k t))" for k t
    by (simp add: shr_def luaD_reallocstack_def stack_slot_def Let_def nth_append)
  show ?thesis unfolding checkstacksizes_def Let_def using a b shr_trans [OF a b] by (simp split: if_splits)
qed

lemma traversestack_marks:
  assumes w: "wb g" and t: "typed g" and b: "body g a = Some (BThread th)"
  shows "marks g (traversestack a th g) \<and> (\<forall>r \<in> targets (brefs g (BThread th)). \<not> iswhite (traversestack a th g) r)"
proof -
  let ?g1 = "markvalue (th_gt th) g" let ?vs = "take (th_top th) (th_stack th)" let ?g2 = "fold markvalue ?vs ?g1"
  let ?b = "BThread (checkstacksizes (fold max (th_ci_tops th) (th_top th)) (clear_stack (fold max (th_ci_tops th) (th_top th)) th))"
  have v: "valid_refs (brefs g (BThread th)) g" using valid_refs_typed [OF t, of a] b by (simp add: refs_def)
  have 1: "marks g ?g1 \<and> (\<forall>r \<in> targets (vrefs (th_gt th)). \<not> iswhite ?g1 r)" by (rule markvalue_targets [OF w t]) (use v in simp)
  have 2: "marks g ?g2 \<and> (\<forall>r \<in> targets (vrefs (th_gt th)) \<union> targets (\<Union>v \<in> set ?vs. vrefs v). \<not> iswhite ?g2 r)"
    by (rule marks_then [OF 1 w t], rule fold_markvalue) (use v valid_refs_marks [OF _ conjunct1 [OF 1]] in auto)
  have bd: "body ?g2 a = Some (BThread th)" using b by (simp add: body_fold_markvalue body_markvalue)
  have 3: "marks ?g2 (set_body a ?b ?g2)" by (rule marks_set_body [OF bd]) (rule shr_trans [OF clear_stack_shr checkstacksizes_shr])
  then show ?thesis using 2 marks_trans [OF _ 3] by (auto simp: traversestack_def Let_def iswhite_def)
qed

subsection \<open>Tables\<close>

text \<open>The references that a table with this mode holds on to.\<close>

definition snrefs :: "bool \<Rightarrow> bool \<Rightarrow> gval \<times> gval \<Rightarrow> (nat \<times> addr) set" where
  "snrefs wk wv n = (if snd n = GNil then {} else (if wk then {} else vrefs (fst n)) \<union> (if wv then {} else vrefs (snd n)))"

definition srefs :: "bool \<Rightarrow> bool \<Rightarrow> gtable \<Rightarrow> (nat \<times> addr) set" where
  "srefs wk wv h = orefs TTABLE (h_metatable h) \<union> (if wv then {} else \<Union>v \<in> set (h_array h). vrefs v) \<union> (\<Union>n \<in> set (h_node h). snrefs wk wv n)"

lemma srefs_strong: "srefs False False h = brefs g (BTable h)"
  by (auto simp: srefs_def snrefs_def nrefs_def)

lemma srefs_brefs: "srefs wk wv h \<subseteq> brefs g (BTable h)"
  by (auto simp: srefs_def snrefs_def nrefs_def split: if_splits)

lemma srefs_shr: "shr (BTable h) (BTable h') \<Longrightarrow> srefs wk wv h' \<subseteq> srefs wk wv h"
proof -
  assume s: "shr (BTable h) (BTable h')"
  show ?thesis
  proof (cases "h' = h")
    case False
    then have h: "h_metatable h' = h_metatable h" "h_array h' = h_array h"
      "list_all2 (\<lambda>n n'. snd n' = snd n \<and> (fst n' = fst n \<or> snd n = GNil)) (h_node h) (h_node h')" using s by (auto simp: shr_def)
    have "(\<Union>n \<in> set (h_node h'). snrefs wk wv n) \<subseteq> (\<Union>n \<in> set (h_node h). snrefs wk wv n)"
      by (rule list_all2_Union [OF h(3)]) (auto simp: snrefs_def)
    then show ?thesis unfolding srefs_def h(1,2) by (intro Un_mono order_refl)
  qed simp
qed

definition wok :: "gstate \<Rightarrow> addr \<Rightarrow> bool" where
  "wok g a \<longleftrightarrow> (\<exists>h. body g a = Some (BTable h) \<and> (\<forall>r \<in> targets (srefs (bit (marked g a) 3) (bit (marked g a) 4) h). \<not> iswhite g r))"

lemma mark_node_targets:
  assumes "wb g" "typed g" "valid_refs (nrefs n) g"
  shows "marks g (mark_node wk wv n g) \<and> (\<forall>r \<in> targets (snrefs wk wv n). \<not> iswhite (mark_node wk wv n g) r)"
proof (cases "snd n = GNil")
  case False
  let ?g1 = "(if wk then id else markvalue (fst n)) g" and ?g2 = "mark_node wk wv n g"
  have v: "valid_refs (vrefs (fst n)) g" "valid_refs (vrefs (snd n)) g" using assms(3) False by (simp_all add: nrefs_def)
  have 1: "marks g ?g1 \<and> (\<forall>r \<in> targets (if wk then {} else vrefs (fst n)). \<not> iswhite ?g1 r)"
    using markvalue_targets [OF assms(1,2) v(1)] by simp
  have g2: "?g2 = (if wv then id else markvalue (snd n)) ?g1" using False by (simp add: mark_node_def)
  have "marks g ?g2 \<and> (\<forall>r \<in> targets (if wk then {} else vrefs (fst n)) \<union> targets (if wv then {} else vrefs (snd n)). \<not> iswhite ?g2 r)"
    unfolding g2 by (rule marks_then [OF 1 assms(1,2)])
      (use markvalue_targets [OF _ _ valid_refs_marks [OF v(2) conjunct1 [OF 1]]] in auto)
  then show ?thesis using False by (simp add: snrefs_def)
qed (simp add: mark_node_def snrefs_def)

lemma fold_mark_node:
  "wb g \<Longrightarrow> typed g \<Longrightarrow> valid_refs (\<Union>n \<in> set ns. nrefs n) g \<Longrightarrow>
   marks g (fold (mark_node wk wv) ns g) \<and> (\<forall>r \<in> targets (\<Union>n \<in> set ns. snrefs wk wv n). \<not> iswhite (fold (mark_node wk wv) ns g) r)"
  using fold_marks [where P = "\<lambda>n. valid_refs (nrefs n)" and X = "\<lambda>n. targets (snrefs wk wv n)" and F = "mark_node wk wv" and g = g and xs = ns,
    OF mark_node_targets valid_refs_marks] by simp

lemma clean_shr: "shr (BTable h) (BTable (h\<lparr>h_node := map clean_node (h_node h)\<rparr>))"
  by (simp add: shr_def list_all2_map2 clean_node_def list.rel_refl)

text \<open>The mark of the table that is traversed and the two other lists do not matter to the marking of the others.\<close>

definition strip :: "addr \<Rightarrow> gstate \<Rightarrow> gstate" where
  "strip a g = (set_mark a (\<lambda>_. 0) g)\<lparr>g_grayagain := [], g_weak := []\<rparr>"

lemma body_strip [simp]: "body (strip a g) = body g"
  by (simp add: strip_def)

lemma g_gray_strip [simp]: "g_gray (strip a g) = g_gray g"
  by (simp add: strip_def)

lemma marked_strip: "marked (strip a g) x = (if x = a then 0 else marked g x)"
  using marked_none [of g a] by (simp add: strip_def marked_set_mark)

lemma strip_absorb [simp]: "strip a (set_mark a f g) = strip a g" "strip a (g\<lparr>g_weak := w\<rparr>) = strip a g" "strip a (g\<lparr>g_grayagain := w\<rparr>) = strip a g"
  by (simp_all add: strip_def set_mark_twice comp_def) (simp_all add: set_mark_def split: option.splits)

lemma strip_gray: "strip a (g\<lparr>g_gray := x\<rparr>) = (strip a g)\<lparr>g_gray := x\<rparr>"
  by (simp add: strip_def set_mark_def split: option.splits)

lemma iswhite_strip: "\<not> iswhite g a \<Longrightarrow> iswhite (strip a g) x = iswhite g x"
  by (simp add: iswhite_def marked_strip m_white_def)

lemma rest_eq_lists: "rest_eq g g' \<Longrightarrow> rest_eq (g\<lparr>g_grayagain := [], g_weak := []\<rparr>) (g'\<lparr>g_grayagain := [], g_weak := []\<rparr>)"
proof -
  have e: "x\<lparr>g_grayagain := [], g_weak := []\<rparr>\<lparr>g_heap := h, g_gray := gr\<rparr> = x\<lparr>g_heap := h, g_gray := gr\<rparr>\<lparr>g_grayagain := [], g_weak := []\<rparr>"
    for x :: gstate and h gr by (cases x) simp
  assume "rest_eq g g'"
  then show ?thesis unfolding rest_eq_def e by simp
qed

lemma marks_strip:
  assumes m: "marks g g'" and w: "\<not> iswhite g a"
  shows "marks (strip a g) (strip a g')"
proof -
  have w': "\<not> iswhite g' a" using marks_white [OF m] w by blast
  note iw = iswhite_strip [OF w] iswhite_strip [OF w']
  have set': "settled (strip a g') x" if st: "settled g' x" and xa: "x \<noteq> a" for x
  proof -
    have "ok (strip a g') x = ok g' x" using refs_cong [of "strip a g'" g'] by (simp add: ok_def iw)
    moreover have "isblack (strip a g') x = isblack g' x" using xa by (simp add: isblack_def marked_strip)
    moreover obtain b where "body g' x = Some b" using st by (auto simp: settled_def)
    ultimately show ?thesis using st settled_body [of g' x b] settled_body [of "strip a g'" x b] by simp
  qed
  show ?thesis unfolding marks_def
  proof (intro conjI allI impI)
    have "rest_eq g g'" using m by (simp add: marks_def)
    then show "rest_eq (strip a g) (strip a g')" unfolding strip_def by (intro rest_eq_lists) simp
    show "rel_option shr (body (strip a g) x) (body (strip a g') x)" for x using marks_shrinks [OF m] by simp
  next
    fix x
    show "iswhite (strip a g) x \<and> \<not> iswhite (strip a g') x \<or> marked (strip a g') x = marked (strip a g) x"
      using m by (auto simp: iw marked_strip marks_def)
    assume x: "iswhite (strip a g) x" "\<not> iswhite (strip a g') x"
    then have "x \<noteq> a" using w by (auto simp: iw)
    then show "settled (strip a g') x" "upper_bits (marked (strip a g') x) = upper_bits (marked (strip a g) x)"
      using m x set' by (simp_all add: iw marks_def marked_strip)
  next
    show "\<exists>xs. g_gray (strip a g') = xs @ g_gray (strip a g) \<and> distinct xs \<and> (\<forall>x\<in>set xs. iswhite (strip a g) x \<and> \<not> iswhite (strip a g') x \<and> gray_at (strip a g) x)"
      using m by (simp add: iw marks_def gray_at_def)
  qed
qed

text \<open>\<open>traversetable\<close> up to its last step, which removes dead keys.\<close>

lemma weak_bits [simp]: "m_white (weak_bits wk wv m) = m_white m" "m_black (weak_bits wk wv m) = m_black m"
  "bit (weak_bits wk wv m) 3 = wk" "bit (weak_bits wk wv m) 4 = wv" "bit (weak_bits wk wv m) 5 = bit m 5" "bit (weak_bits wk wv m) 6 = bit m 6"
  by (simp_all add: m_white_bits m_black_bit weak_bits_def mask_defs bit_or_iff bit_and_iff bit_not_iff)

lemma iswhite_weak_bits: "iswhite (set_mark a (weak_bits wk wv) g) x = iswhite g x" "isblack (set_mark a (weak_bits wk wv) g) x = isblack g x"
  by (simp_all add: iswhite_def isblack_def marked_set_mark)

lemma iswhite_lists: "iswhite (g\<lparr>g_weak := w\<rparr>) x = iswhite g x" "isblack (g\<lparr>g_weak := w\<rparr>) x = isblack g x"
  by (simp_all add: iswhite_def isblack_def)

lemma clean_table_marks: "marks g (clean_table a g)"
  using marks_set_body [OF _ clean_shr] by (simp add: clean_table_def split: option.splits gbody.splits)

lemma traverse_contents:
  fixes a wk wv
  assumes w: "wb g" and t: "typed g" and v: "valid_refs (brefs g (BTable h)) g"
    and mt: "\<forall>r \<in> targets (orefs TTABLE (h_metatable h)). \<not> iswhite g r"
  defines "g' \<equiv> clean_table a (fold (mark_node wk wv) (rev (h_node h)) (if wv then g else fold markvalue (rev (h_array h)) g))"
  shows "marks g g' \<and> (\<forall>r \<in> targets (srefs wk wv h). \<not> iswhite g' r)"
proof -
  let ?A = "if wv then {} else \<Union>v \<in> set (h_array h). vrefs v"
  let ?g4 = "if wv then g else fold markvalue (rev (h_array h)) g" let ?g5 = "fold (mark_node wk wv) (rev (h_node h)) ?g4"
  have 4: "marks g ?g4 \<and> (\<forall>r \<in> targets ?A. \<not> iswhite ?g4 r)" using fold_markvalue [OF w t, of "rev (h_array h)"] v by simp
  have v5: "valid_refs (\<Union>n \<in> set (rev (h_node h)). nrefs n) ?g4" by (rule valid_refs_marks [OF _ conjunct1 [OF 4]]) (use v in simp)
  have 5: "marks g ?g5 \<and> (\<forall>r \<in> targets ?A \<union> targets (\<Union>n \<in> set (h_node h). snrefs wk wv n). \<not> iswhite ?g5 r)"
    by (rule marks_then [OF 4 w t]) (use fold_mark_node [OF _ _ v5, of wk wv] in simp)
  have m: "marks ?g5 g'" unfolding g'_def by (rule clean_table_marks)
  have "marks g g'" by (rule marks_trans [OF conjunct1 [OF 5] m])
  moreover have "\<not> iswhite g' r" if r: "r \<in> targets (srefs wk wv h)" for r
  proof -
    have "r \<in> targets (orefs TTABLE (h_metatable h)) \<or> r \<in> targets ?A \<union> targets (\<Union>n \<in> set (h_node h). snrefs wk wv n)"
      using r by (simp only: srefs_def targets_simps) blast
    then show ?thesis using 5 mt marks_white [OF m, of r] marks_white [OF \<open>marks g g'\<close>, of r] by blast
  qed
  ultimately show ?thesis by blast
qed

lemma traversetable_spec:
  assumes w: "wb g" and t: "typed g" and b: "body g a = Some (BTable h)" and nw: "\<not> iswhite g a" and r: "traversetable a h g = (weak, g')"
  shows "marks (strip a g) (strip a g')" "\<not> iswhite g' a" "isblack g' a = isblack g a" "bit (marked g' a) 5 = bit (marked g a) 5"
    "g_grayagain g' = g_grayagain g" "if weak then g_weak g' = a # g_weak g \<and> wok g' a else g_weak g' = g_weak g \<and> ok g' a"
proof -
  let ?g1 = "markopt (h_metatable h) g"
  obtain mode g2 where g2: "gfasttm ?g1 (h_metatable h) 3 (g_mode ?g1) = (mode, g2)" by (cases "gfasttm ?g1 (h_metatable h) 3 (g_mode ?g1)")
  obtain wk wv where m: "weak_mode g2 mode = (wk, wv)" by (cases "weak_mode g2 mode")
  have 1: "marks g ?g1" "\<forall>r \<in> targets (orefs TTABLE (h_metatable h)). \<not> iswhite ?g1 r" using markopt_targets [OF w t, of "h_metatable h" TTABLE] by auto
  have 2: "marks ?g1 g2" by (rule gfasttm_marks [OF g2])
  have 12: "marks g g2" by (rule marks_trans [OF 1(1) 2])
  have nw2: "\<not> iswhite g2 a" using marks_white [OF 12] nw by blast
  define g3 where "g3 = (if wk \<or> wv then (set_mark a (weak_bits wk wv) g2)\<lparr>g_weak := a # g_weak g2\<rparr> else g2)"
  have f3: "iswhite g3 x = iswhite g2 x" "isblack g3 x = isblack g2 x" "body g3 = body g2" for x
    by (cases "wk \<or> wv"; simp add: g3_def iswhite_lists iswhite_weak_bits)+
  have w3: "wb g3" using marks_wb [OF 12 w] by (simp add: wb_def f3)
  have t3: "typed g3" using marks_typed [OF 12 t] typed_cong [OF f3(3)] by simp
  have s3: "strip a g3 = strip a g2" by (simp add: g3_def)
  have mt3: "\<forall>r \<in> targets (orefs TTABLE (h_metatable h)). \<not> iswhite g3 r" using 1(2) marks_white [OF 2] by (auto simp: f3)
  obtain b2 where b2: "body g2 a = Some b2" "shr (BTable h) b2" using marks_body [OF 12 b] by blast
  have v: "valid_refs (brefs g (BTable h)) g" using valid_refs_typed [OF t, of a] b by (simp add: refs_def)
  have "valid_refs (brefs g3 (BTable h)) g3" using valid_refs_marks [OF v 12] by (simp add: valid_refs_def typed_at_def f3(3))
  note 6 = traverse_contents [OF w3 t3 this mt3, where a = a and wk = wk and wv = wv]
  have r': "weak = (wk \<or> wv)" "wk \<and> wv \<Longrightarrow> g' = g3"
    "\<not> (wk \<and> wv) \<Longrightarrow> g' = clean_table a (fold (mark_node wk wv) (rev (h_node h)) (if wv then g3 else fold markvalue (rev (h_array h)) g3))"
    using r g2 m by (auto simp: traversetable_def g3_def Let_def split: if_splits)
  have 36: "marks g3 g'" "\<forall>r \<in> targets (srefs wk wv h). \<not> iswhite g' r"
    using r'(2,3) 6 mt3 by (cases "wk \<and> wv"; auto simp: srefs_def snrefs_def)+
  have nw3: "\<not> iswhite g3 a" using nw2 f3 by simp
  show "marks (strip a g) (strip a g')" using marks_trans [OF marks_strip [OF 12 nw]] marks_strip [OF 36(1) nw3] s3 by simp
  show "\<not> iswhite g' a" using marks_white [OF 36(1)] nw3 by blast
  have mk: "marked g' a = marked g3 a" by (rule marks_nonwhite [OF 36(1) nw3])
  have mk2: "marked g2 a = marked g a" by (rule marks_nonwhite [OF 12 nw])
  have m3: "marked g3 a = (if wk \<or> wv then weak_bits wk wv (marked g a) else marked g a)" using b2 mk2 by (simp add: g3_def marked_set_mark)
  show "isblack g' a = isblack g a" "bit (marked g' a) 5 = bit (marked g a) 5" by (simp_all add: isblack_def mk m3)
  show "g_grayagain g' = g_grayagain g" using marks_fields(6) [OF 36(1)] marks_fields(6) [OF 12] by (simp add: g3_def)
  obtain b' where b': "body g' a = Some b'" "shr b2 b'" using marks_body [OF 36(1)] b2 f3(3) by metis
  then obtain h' where h': "b' = BTable h'" "shr (BTable h) (BTable h')" using shr_trans [OF b2(2) b'(2)] by (auto simp: shr_def)
  have nr: "\<forall>r \<in> targets (srefs wk wv h'). \<not> iswhite g' r" using 36(2) srefs_shr [OF h'(2), of wk wv] by (auto simp: targets_def)
  have wk': "g_weak g' = g_weak g3" "g_weak g2 = g_weak g" using marks_fields(7) [OF 36(1)] marks_fields(7) [OF 12] by simp_all
  show "if weak then g_weak g' = a # g_weak g \<and> wok g' a else g_weak g' = g_weak g \<and> ok g' a"
  proof (cases "wk \<or> wv")
    case True
    have "wok g' a" unfolding wok_def using b' h' nr True m3 mk by auto
    then show ?thesis using True r'(1) wk' by (simp add: g3_def)
  next
    case False
    then have "ok g' a" using nr b' h' srefs_strong [of h' g'] by (simp add: ok_targets refs_def)
    then show ?thesis using False r'(1) wk' by (simp add: g3_def)
  qed
qed

subsection \<open>propagatemark\<close>

text \<open>What becomes of the object that is taken from the list of gray objects.\<close>

definition traversed :: "gstate \<Rightarrow> addr \<Rightarrow> gbody \<Rightarrow> gstate \<Rightarrow> bool" where
  "traversed g a b g' \<longleftrightarrow>
     gc_tt b = TTABLE \<and> g_weak g' = a # g_weak g \<and> g_grayagain g' = g_grayagain g \<and> \<not> isblack g' a \<and> wok g' a \<or>
     gc_tt b = TTHREAD \<and> g_weak g' = g_weak g \<and> g_grayagain g' = a # g_grayagain g \<and> \<not> isblack g' a \<and> ok g' a \<or>
     gc_tt b \<noteq> TTHREAD \<and> g_weak g' = g_weak g \<and> g_grayagain g' = g_grayagain g \<and> isblack g' a \<and> ok g' a"

lemma marks_lists: "marks g g' \<Longrightarrow> g_weak g' = g_weak g \<and> g_grayagain g' = g_grayagain g"
  using marks_fields(6,7) by blast

lemma ok_marks_refs: "marks g g' \<and> (\<forall>r \<in> targets (refs g a). \<not> iswhite g' r) \<Longrightarrow> ok g' a"
  using shrinks_refs [OF marks_shrinks, of g g' a] by (auto simp: ok_targets targets_def)

lemma black2gray_facts: "iswhite (black2gray a g) x = iswhite g x" "wok (black2gray a g) a = wok g a" "\<not> isblack (black2gray a g) a"
  "bit (marked (black2gray a g) a) 5 = bit (marked g a) 5" "strip a (black2gray a g) = strip a g"
  "g_weak (black2gray a g) = g_weak g" "g_grayagain (black2gray a g) = g_grayagain g"
proof -
  show w: "iswhite (black2gray a g) x = iswhite g x" for x by (simp add: iswhite_def marked_set_mark)
  have "bit (marked (black2gray a g) a) 3 = bit (marked g a) 3" "bit (marked (black2gray a g) a) 4 = bit (marked g a) 4" by (simp_all add: marked_set_mark)
  then show "wok (black2gray a g) a = wok g a" unfolding wok_def w by simp
  show "\<not> isblack (black2gray a g) a" using isblack_body [of "black2gray a g" a] by (auto simp: isblack_def marked_set_mark)
qed (simp_all add: marked_set_mark)

lemma propagatemark_spec:
  assumes w: "wb g" and t: "typed g" and gr: "g_gray g = a # rest" and b: "body g a = Some b" and k: "gray_kind b" and nw: "\<not> iswhite g a"
    and r: "propagatemark g = (n, g')"
  shows "marks (strip a (g\<lparr>g_gray := rest\<rparr>)) (strip a g') \<and> \<not> iswhite g' a \<and> bit (marked g' a) 5 = bit (marked g a) 5 \<and> traversed g a b g'"
proof -
  define g1 where "g1 = (gray2black a g)\<lparr>g_gray := rest\<rparr>"
  have f1: "body g1 = body g" "iswhite g1 x = iswhite g x" "isblack g1 a" "bit (marked g1 a) 5 = bit (marked g a) 5"
    "g_weak g1 = g_weak g" "g_grayagain g1 = g_grayagain g" for x
    using b by (simp_all add: g1_def iswhite_def isblack_def marked_set_mark)
  have w1: "wb g1" using w nw by (auto simp: wb_def f1 iswhite_def isblack_def g1_def marked_set_mark)
  have t1: "typed g1" using t typed_cong [OF f1(1)] by simp
  have s1: "strip a g1 = strip a (g\<lparr>g_gray := rest\<rparr>)" by (simp add: g1_def strip_gray)
  have nw1: "\<not> iswhite g1 a" using nw f1 by simp
  have v1: "valid_refs (brefs g1 b) g1" using valid_refs_typed [OF t1, of a] b by (simp add: refs_def f1)
  have simple: ?thesis if m: "marks g1 g' \<and> (\<forall>r \<in> targets (brefs g1 b). \<not> iswhite g' r)" and tt: "gc_tt b \<noteq> TTHREAD"
  proof -
    have "ok g' a" by (rule ok_marks_refs [of g1]) (use m b f1 in \<open>simp add: refs_def\<close>)
    moreover have "marked g' a = marked g1 a" by (rule marks_nonwhite [OF conjunct1 [OF m] nw1])
    ultimately show ?thesis using marks_strip [OF conjunct1 [OF m] nw1] marks_lists [OF conjunct1 [OF m]] s1 f1 tt nw1
      by (simp add: traversed_def iswhite_def isblack_def)
  qed
  show ?thesis
  proof (cases b)
    case (BFunction cl)
    have "g' = traverseclosure cl g1" using r gr b BFunction by (simp add: propagatemark_def g1_def)
    then show ?thesis using simple traverseclosure_marks [OF w1 t1, of cl] v1 BFunction by simp
  next
    case (BProto f)
    have "g' = traverseproto f g1" using r gr b BProto by (simp add: propagatemark_def g1_def)
    then show ?thesis using simple traverseproto_marks [OF w1 t1, of f] v1 BProto by simp
  next
    case (BTable h)
    obtain weak g2 where g2: "traversetable a h g1 = (weak, g2)" by (cases "traversetable a h g1")
    note sp = traversetable_spec [OF w1 t1 _ nw1 g2]
    have b1: "body g1 a = Some (BTable h)" using b BTable f1 by simp
    have g': "g' = (if weak then black2gray a g2 else g2)" using r gr b BTable g2 by (simp add: propagatemark_def g1_def)
    show ?thesis using sp [OF b1] s1 f1 BTable by (auto simp: g' traversed_def black2gray_facts split: if_splits simp del: black2gray_def)
  next
    case (BThread th)
    define g2 where "g2 = black2gray a (g1\<lparr>g_grayagain := a # g_grayagain g1\<rparr>)"
    have g': "g' = traversestack a th g2" using r gr b BThread by (simp add: propagatemark_def g1_def g2_def Let_def)
    have f2: "body g2 = body g" "iswhite g2 x = iswhite g x" "\<not> isblack g2 a" "bit (marked g2 a) 5 = bit (marked g a) 5" for x
      using b f1 by (simp_all add: g2_def iswhite_def isblack_def marked_set_mark)
    have w2: "wb g2" using w1 nw f2 by (auto simp: wb_def f2 f1 isblack_def g2_def marked_set_mark)
    have t2: "typed g2" using t typed_cong [OF f2(1)] by simp
    have m: "marks g2 g' \<and> (\<forall>r \<in> targets (brefs g2 (BThread th)). \<not> iswhite g' r)"
      unfolding g' by (rule traversestack_marks [OF w2 t2]) (use b BThread f2 in simp)
    have "ok g' a" by (rule ok_marks_refs [of g2]) (use m b BThread f2 in \<open>simp add: refs_def\<close>)
    moreover have nw2: "\<not> iswhite g2 a" using nw f2 by simp
    moreover have "marked g' a = marked g2 a" by (rule marks_nonwhite [OF conjunct1 [OF m] nw2])
    moreover have "strip a g2 = strip a (g\<lparr>g_gray := rest\<rparr>)" using s1 by (simp add: g2_def)
    ultimately show ?thesis using marks_strip [OF conjunct1 [OF m] nw2] marks_lists [OF conjunct1 [OF m]] f1 f2 BThread
      by (simp add: traversed_def iswhite_def isblack_def) (simp add: g2_def)
  qed (use k in \<open>simp_all add: gray_kind_def\<close>)
qed

end
