(* ===== verification/Lua_Gc_Tri.thy ===== *)
theory Lua_Gc_Tri
  imports Lua_Gc_Trav
begin

text \<open>
  The invariant of the mark phase: a black object has references to marked objects only, except those in a set of objects that the final
  phase looks at again, and a gray object that is still to be traversed is in one of the three lists, in which no object is twice.
\<close>

definition gray_lists :: "gstate \<Rightarrow> addr list" where
  "gray_lists g = g_gray g @ g_grayagain g @ g_weak g"

definition mark_lists :: "gstate \<Rightarrow> bool" where
  "mark_lists g \<longleftrightarrow> distinct (gray_lists g) \<and> (\<forall>a \<in> set (gray_lists g). gray_at g a \<and> isgray g a) \<and> (\<forall>a \<in> set (g_weak g). \<exists>h. body g a = Some (BTable h))"

definition shades :: "gstate \<Rightarrow> bool" where
  "shades g \<longleftrightarrow> (\<forall>a b. body g a = Some b \<longrightarrow> \<not> iswhite g a \<longrightarrow>
     (if gray_kind b then (isblack g a \<or> a \<in> set (gray_lists g)) \<and> (gc_tt b = TTHREAD \<longrightarrow> \<not> isblack g a) else isblack g a = black_kind b))"

definition minv :: "gstate \<Rightarrow> bool" where
  "minv g \<longleftrightarrow> wb g \<and> typed g \<and> mark_lists g \<and> shades g"

definition tri :: "gstate \<Rightarrow> addr set \<Rightarrow> bool" where
  "tri g D \<longleftrightarrow> (\<forall>a. body g a \<noteq> None \<longrightarrow> \<not> iswhite g a \<longrightarrow> a \<in> D \<or> a \<in> set (g_gray g) \<or> ok g a)"

lemma shadesD: "shades g \<Longrightarrow> body g a = Some b \<Longrightarrow> \<not> iswhite g a \<Longrightarrow>
    if gray_kind b then (isblack g a \<or> a \<in> set (gray_lists g)) \<and> (gc_tt b = TTHREAD \<longrightarrow> \<not> isblack g a) else isblack g a = black_kind b"
  by (simp add: shades_def)

lemma tri_mono: "tri g D \<Longrightarrow> D \<subseteq> D' \<Longrightarrow> tri g D'"
  by (auto simp: tri_def)

lemma settled_tri: "settled g a \<Longrightarrow> a \<in> set (g_gray g) \<or> ok g a"
  by (auto simp: settled_def split: if_splits)

lemma settled_shades: "settled g a \<Longrightarrow> body g a = Some b \<Longrightarrow>
    if gray_kind b then a \<in> set (g_gray g) \<and> \<not> isblack g a else isblack g a = black_kind b"
  by (auto simp: settled_body split: if_splits)

lemma marks_tri:
  assumes m: "marks g g'" and t: "tri g D"
  shows "tri g' D"
  unfolding tri_def
proof (intro allI impI)
  fix a assume a: "body g' a \<noteq> None" "\<not> iswhite g' a"
  show "a \<in> D \<or> a \<in> set (g_gray g') \<or> ok g' a"
  proof (cases "iswhite g a")
    case True
    then have "settled g' a" using m a by (simp add: marks_def)
    then show ?thesis using settled_tri by blast
  next
    case False
    have "body g a \<noteq> None" using spec [OF marks_shrinks [OF m], of a] a by (cases "body g a") auto
    then show ?thesis using t False marks_ok [OF m] marks_gray [OF m] unfolding tri_def by blast
  qed
qed

lemma marks_lists_eq: "marks g g' \<Longrightarrow> \<exists>xs. gray_lists g' = xs @ gray_lists g \<and> g_gray g' = xs @ g_gray g \<and> distinct xs \<and>
    (\<forall>x \<in> set xs. iswhite g x \<and> \<not> iswhite g' x \<and> gray_at g x)"
  using marks_lists [of g g'] by (auto simp: marks_def gray_lists_def)

lemma marks_mark_lists:
  assumes m: "marks g g'" and l: "mark_lists g"
  shows "mark_lists g'"
proof -
  obtain xs where xs: "gray_lists g' = xs @ gray_lists g" "g_gray g' = xs @ g_gray g" "distinct xs" "\<forall>x \<in> set xs. iswhite g x \<and> \<not> iswhite g' x \<and> gray_at g x"
    using marks_lists_eq [OF m] by blast
  note ga = gray_at_shrinks [OF marks_shrinks [OF m]]
  have "isgray g' a" if a: "a \<in> set (gray_lists g')" for a
  proof (cases "a \<in> set xs")
    case True
    then have w: "iswhite g a" "\<not> iswhite g' a" "gray_at g' a" using xs(4) ga by auto
    then have "settled g' a" using m by (simp add: marks_def)
    then show ?thesis using w by (auto simp: isgray_def gray_at_def dest: settled_shades)
  next
    case False
    then have "isgray g a" using a xs(1) l by (simp add: mark_lists_def)
    moreover from this have "marked g' a = marked g a" by (intro marks_nonwhite [OF m]) (simp add: isgray_def)
    ultimately show ?thesis by (simp add: isgray_def iswhite_def isblack_def)
  qed
  moreover have "gray_at g' a" if "a \<in> set (gray_lists g')" for a using that xs(1,4) ga l by (auto simp: mark_lists_def)
  moreover have "set xs \<inter> set (gray_lists g) = {}" using xs(4) l by (auto simp: mark_lists_def isgray_def)
  moreover have "\<exists>h. body g' a = Some (BTable h)" if "a \<in> set (g_weak g')" for a
  proof -
    have "\<exists>h. body g a = Some (BTable h)" using l that marks_lists [OF m] by (simp add: mark_lists_def)
    then show ?thesis using marks_body [OF m, of a] by (auto simp: shr_def)
  qed
  ultimately show ?thesis using xs l by (simp add: mark_lists_def)
qed

lemma marks_shades:
  assumes m: "marks g g'" and s: "shades g"
  shows "shades g'"
  unfolding shades_def
proof (intro allI impI)
  fix a b' assume a: "body g' a = Some b'" "\<not> iswhite g' a"
  show "if gray_kind b' then (isblack g' a \<or> a \<in> set (gray_lists g')) \<and> (gc_tt b' = TTHREAD \<longrightarrow> \<not> isblack g' a) else isblack g' a = black_kind b'"
  proof (cases "iswhite g a")
    case True
    then have "settled g' a" using m a by (simp add: marks_def)
    from settled_shades [OF this a(1)] show ?thesis by (auto simp: gray_lists_def split: if_splits)
  next
    case False
    obtain b where b: "body g a = Some b" using spec [OF marks_shrinks [OF m], of a] a by (cases "body g a") auto
    then have "shr b b'" using marks_body [OF m b] a by auto
    note k = gray_kind_shr [OF this] shr_tt [OF this]
    have "isblack g' a = isblack g a" using marks_nonwhite [OF m False] by (simp add: isblack_def)
    then show ?thesis using shadesD [OF s b False] k marks_lists_eq [OF m] by auto
  qed
qed

lemma marks_minv: "marks g g' \<Longrightarrow> minv g \<Longrightarrow> minv g'"
  by (simp add: minv_def marks_wb marks_typed marks_mark_lists marks_shades)

subsection \<open>propagatemark\<close>

lemma minv_head:
  assumes "minv g" "g_gray g = a # rest"
  obtains b where "body g a = Some b" "gray_kind b" "\<not> iswhite g a" "\<not> isblack g a"
  using assms by (auto simp: minv_def mark_lists_def gray_lists_def gray_at_def isgray_def)

text \<open>The effect of one step on the marks, in terms of the two states.\<close>

definition advance :: "gstate \<Rightarrow> addr \<Rightarrow> gbody \<Rightarrow> addr list \<Rightarrow> gstate \<Rightarrow> bool" where
  "advance g a b rest g' \<longleftrightarrow> shrinks g g' \<and> traversed g a b g' \<and> \<not> iswhite g' a \<and> bit (marked g' a) 5 = bit (marked g a) 5 \<and>
     (\<forall>x. x \<noteq> a \<longrightarrow> iswhite g x \<and> \<not> iswhite g' x \<or> marked g' x = marked g x) \<and>
     (\<forall>x. iswhite g x \<longrightarrow> \<not> iswhite g' x \<longrightarrow> settled g' x \<and> upper_bits (marked g' x) = upper_bits (marked g x)) \<and>
     (\<exists>xs. g_gray g' = xs @ rest \<and> distinct xs \<and> (\<forall>x \<in> set xs. iswhite g x \<and> \<not> iswhite g' x \<and> gray_at g x))"

lemma propagatemark_advance:
  assumes i: "minv g" and gr: "g_gray g = a # rest" and r: "propagatemark g = (n, g')" and b: "body g a = Some b"
  shows "advance g a b rest g'" "rest_eq (strip a g) (strip a g')"
proof -
  have k: "gray_kind b" "\<not> iswhite g a" using minv_head [OF i gr] b by auto
  have wt: "wb g" "typed g" using i by (simp_all add: minv_def)
  let ?g0 = "strip a (g\<lparr>g_gray := rest\<rparr>)" and ?g1 = "strip a g'"
  have sp: "marks ?g0 ?g1" "\<not> iswhite g' a" "bit (marked g' a) 5 = bit (marked g a) 5" "traversed g a b g'"
    using propagatemark_spec [OF wt gr b k r] by simp_all
  have w0: "iswhite ?g0 x = iswhite g x" for x using iswhite_strip [of "g\<lparr>g_gray := rest\<rparr>" a x] k(2) by (simp add: iswhite_def)
  have w1: "iswhite ?g1 x = iswhite g' x" for x by (rule iswhite_strip [OF sp(2)])
  have ok1: "ok ?g1 x = ok g' x" for x using refs_cong [of ?g1 g'] by (simp add: ok_def w1)
  have st: "settled ?g1 x \<longleftrightarrow> settled g' x" if "x \<noteq> a" for x
    using that ok1 by (simp add: settled_def isblack_def marked_strip)
  have "settled g' x \<and> upper_bits (marked g' x) = upper_bits (marked g x)" if x: "iswhite g x" "\<not> iswhite g' x" for x
  proof -
    have xa: "x \<noteq> a" using x k by auto
    have "settled ?g1 x \<and> upper_bits (marked ?g1 x) = upper_bits (marked ?g0 x)" using sp(1) x by (simp add: marks_def w0 w1)
    then show ?thesis using st [OF xa] xa by (simp add: marked_strip)
  qed
  moreover have "iswhite g x \<and> \<not> iswhite g' x \<or> marked g' x = marked g x" if xa: "x \<noteq> a" for x
  proof -
    have "iswhite ?g0 x \<and> \<not> iswhite ?g1 x \<or> marked ?g1 x = marked ?g0 x" using sp(1) unfolding marks_def by blast
    then show ?thesis using xa unfolding w0 w1 by (simp add: marked_strip)
  qed
  moreover have "\<exists>xs. g_gray g' = xs @ rest \<and> distinct xs \<and> (\<forall>x \<in> set xs. iswhite g x \<and> \<not> iswhite g' x \<and> gray_at g x)"
    using sp(1) by (simp add: marks_def w0 w1 gray_at_def)
  ultimately show "advance g a b rest g'" using marks_shrinks [OF sp(1)] sp by (simp add: advance_def)
  show "rest_eq (strip a g) (strip a g')" using sp(1) by (simp add: marks_def strip_gray)
qed

lemma advance_white: "advance g a b rest g' \<Longrightarrow> iswhite g' x \<Longrightarrow> iswhite g x"
  unfolding advance_def by (metis iswhite_def)

lemma advance_same: "advance g a b rest g' \<Longrightarrow> \<not> iswhite g x \<Longrightarrow> x \<noteq> a \<Longrightarrow> marked g' x = marked g x"
  unfolding advance_def by blast

lemma advance_body: "advance g a b rest g' \<Longrightarrow> body g x = Some d \<Longrightarrow> \<exists>d'. body g' x = Some d' \<and> shr d d'"
  unfolding advance_def by (cases "body g' x") (metis option.rel_distinct(2), metis option.rel_sel option.sel option.discI)

lemma advance_gray_at: "advance g a b rest g' \<Longrightarrow> gray_at g' x = gray_at g x"
  by (rule gray_at_shrinks) (simp add: advance_def)

lemma advance_mark_lists:
  assumes i: "minv g" and gr: "g_gray g = a # rest" and b: "body g a = Some b" and ad: "advance g a b rest g'"
  shows "mark_lists g'"
proof -
  have l: "distinct (a # rest @ g_grayagain g @ g_weak g)" "\<forall>x \<in> set (a # rest @ g_grayagain g @ g_weak g). gray_at g x \<and> isgray g x"
    "\<forall>x \<in> set (g_weak g). \<exists>h. body g x = Some (BTable h)"
    using i gr by (auto simp: minv_def mark_lists_def gray_lists_def)
  have tr: "traversed g a b g'" "\<not> iswhite g' a" and newly: "\<And>x. iswhite g x \<Longrightarrow> \<not> iswhite g' x \<Longrightarrow> settled g' x"
    using ad by (auto simp: advance_def)
  obtain xs where xs: "g_gray g' = xs @ rest" "distinct xs" "\<forall>x \<in> set xs. iswhite g x \<and> \<not> iswhite g' x \<and> gray_at g x"
    using ad by (auto simp: advance_def)
  note ga = advance_gray_at [OF ad]
  have disj: "set xs \<inter> set (a # rest @ g_grayagain g @ g_weak g) = {}" using xs(3) l(2) by (auto simp: isgray_def)
  have gray: "isgray g' x" if mem: "x \<in> set (gray_lists g')" for x
  proof -
    have "x \<in> set xs \<or> x \<in> set (rest @ g_grayagain g @ g_weak g) \<or> x = a \<and> \<not> isblack g' a"
      using mem xs(1) tr(1) by (auto simp: gray_lists_def traversed_def)
    then consider "x = a" "\<not> isblack g' a" | "x \<in> set xs" | "x \<noteq> a" "isgray g x" using l(1,2) by force
    then show ?thesis
    proof cases
      case 2
      then have "settled g' x" "gray_at g' x" using newly xs(3) ga by auto
      then show ?thesis using settled_shades [of g' x] xs(3) 2 by (auto simp: gray_at_def isgray_def)
    next
      case 3
      then show ?thesis using advance_same [OF ad, of x] by (simp add: isgray_def iswhite_def isblack_def)
    qed (use tr(2) in \<open>simp add: isgray_def\<close>)
  qed
  show ?thesis unfolding mark_lists_def
  proof (intro conjI ballI)
    show "distinct (gray_lists g')" using tr(1) xs(1,2) l(1) disj by (auto simp: gray_lists_def traversed_def)
    show "gray_at g' x" if "x \<in> set (gray_lists g')" for x
      using that tr(1) xs(1,3) l(2) by (auto simp: gray_lists_def traversed_def ga)
    show "\<exists>h. body g' x = Some (BTable h)" if "x \<in> set (g_weak g')" for x
    proof -
      have "x = a \<and> wok g' a \<or> x \<in> set (g_weak g)" using that tr(1) by (auto simp: traversed_def)
      then show ?thesis using l(3) advance_body [OF ad, of x] by (auto simp: wok_def shr_def)
    qed
  qed (use gray in blast)
qed

lemma advance_shades:
  assumes i: "minv g" and gr: "g_gray g = a # rest" and b: "body g a = Some b" and ad: "advance g a b rest g'"
  shows "shades g'"
  unfolding shades_def
proof (intro allI impI)
  fix x c assume x: "body g' x = Some c" "\<not> iswhite g' x"
  obtain b0 where k: "body g a = Some b0" "gray_kind b0" by (rule minv_head [OF i gr])
  obtain d where d: "body g x = Some d" using ad x by (cases "body g x") (force simp: advance_def dest: spec [of _ x])+
  then have "shr d c" using advance_body [OF ad d] x by simp
  note kd = gray_kind_shr [OF this] shr_tt [OF this]
  have tr: "traversed g a b g'" using ad by (simp add: advance_def)
  show "if gray_kind c then (isblack g' x \<or> x \<in> set (gray_lists g')) \<and> (gc_tt c = TTHREAD \<longrightarrow> \<not> isblack g' x) else isblack g' x = black_kind c"
  proof (cases "x = a")
    case True
    then have "gray_kind c" "gc_tt c = gc_tt b" using k b d kd by auto
    then show ?thesis using tr True by (auto simp: traversed_def gray_lists_def)
  next
    case False
    show ?thesis
    proof (cases "iswhite g x")
      case True
      then have "settled g' x" using ad x by (simp add: advance_def)
      from settled_shades [OF this x(1)] show ?thesis by (auto simp: gray_lists_def split: if_splits)
    next
      case nw: False
      have "x \<in> set (gray_lists g) \<Longrightarrow> x \<in> set (gray_lists g')" using False gr tr ad by (auto simp: gray_lists_def traversed_def advance_def)
      moreover have "isblack g' x = isblack g x" using advance_same [OF ad nw False] by (simp add: isblack_def)
      moreover have "shades g" using i by (simp add: minv_def)
      ultimately show ?thesis using shadesD [OF _ d nw] kd by auto
    qed
  qed
qed

lemma propagatemark_minv:
  assumes i: "minv g" and gr: "g_gray g = a # rest" and b: "body g a = Some b" and ad: "advance g a b rest g'"
  shows "minv g'"
proof -
  have wt: "wb g" "typed g" and k: "\<not> iswhite g' a" "shrinks g g'" using i ad by (simp_all add: minv_def advance_def)
  have "wb g'" unfolding wb_def
  proof (intro allI impI)
    fix x assume x: "iswhite g' x"
    then have "marked g' x = marked g x" using ad k(1) unfolding advance_def by metis
    then show "\<not> isblack g' x" using wt(1) x by (simp add: wb_def iswhite_def isblack_def)
  qed
  then show ?thesis using advance_mark_lists [OF assms] advance_shades [OF assms] shrinks_typed [OF k(2) wt(2)] by (simp add: minv_def)
qed

lemma propagatemark_tri:
  assumes gr: "g_gray g = a # rest" and ad: "advance g a b rest g'" and t: "tri g (set (g_weak g) \<union> E)"
  shows "tri g' (set (g_weak g') \<union> E)"
  unfolding tri_def
proof (intro allI impI)
  fix x assume x: "body g' x \<noteq> None" "\<not> iswhite g' x"
  have sh: "shrinks g g'" and tr: "traversed g a b g'" using ad by (simp_all add: advance_def)
  show "x \<in> set (g_weak g') \<union> E \<or> x \<in> set (g_gray g') \<or> ok g' x"
  proof (cases "iswhite g x")
    case True
    then have "settled g' x" using ad x by (simp add: advance_def)
    then show ?thesis using settled_tri by blast
  next
    case False
    have "body g x \<noteq> None" using spec [OF sh, of x] x by (cases "body g x") auto
    then have "x \<in> set (g_weak g) \<union> E \<or> x = a \<or> x \<in> set rest \<or> ok g x" using t False gr by (auto simp: tri_def)
    moreover have "ok g x \<Longrightarrow> ok g' x" using shrinks_refs [OF sh, of x] advance_white [OF ad] by (fastforce simp: ok_def)
    ultimately show ?thesis using tr ad by (auto simp: traversed_def advance_def)
  qed
qed

end
