(* ===== verification/Lua_Gc_Inside.thy ===== *)
theory Lua_Gc_Inside
  imports Lua_Gc_Tri
begin

text \<open>Marking does not leave a set of objects that is closed under references, so what is marked was reachable from where marking started.\<close>

definition inside :: "addr set \<Rightarrow> gstate \<Rightarrow> bool" where
  "inside M g \<longleftrightarrow> (\<forall>a \<in> M. targets (refs g a) \<subseteq> M) \<and> (\<forall>a. body g a \<noteq> None \<longrightarrow> iswhite g a \<or> a \<in> M) \<and> set (gray_lists g) \<subseteq> M"

lemma inside_closed: "inside M g \<Longrightarrow> a \<in> M \<Longrightarrow> body g a = Some b \<Longrightarrow> targets (brefs g b) \<subseteq> M"
  by (auto simp: inside_def refs_def dest!: bspec [of _ _ a])

lemma inside_marked: "inside M g \<Longrightarrow> body g a \<noteq> None \<Longrightarrow> \<not> iswhite g a \<Longrightarrow> a \<in> M"
  by (auto simp: inside_def)

lemma inside_set_mark:
  assumes i: "inside M g" and a: "a \<in> M \<or> (\<forall>m. m_white m \<longrightarrow> m_white (f m))"
  shows "inside M (set_mark a f g)"
proof -
  have "refs (set_mark a f g) = refs g" by (rule refs_cong) simp
  moreover have "iswhite (set_mark a f g) x \<or> x \<in> M" if "body g x \<noteq> None" for x
    using i a that by (cases "x = a") (auto simp: inside_def iswhite_def marked_set_mark)
  ultimately show ?thesis using i by (simp add: inside_def gray_lists_def)
qed

lemma inside_push: "inside M g \<Longrightarrow> a \<in> M \<Longrightarrow> inside M (g\<lparr>g_gray := a # g_gray g\<rparr>)" "inside M g \<Longrightarrow> a \<in> M \<Longrightarrow> inside M (g\<lparr>g_weak := a # g_weak g\<rparr>)"
  "inside M g \<Longrightarrow> a \<in> M \<Longrightarrow> inside M (g\<lparr>g_grayagain := a # g_grayagain g\<rparr>)"
proof -
  have r: "refs (g\<lparr>g_gray := x\<rparr>) = refs g" "refs (g\<lparr>g_weak := x\<rparr>) = refs g" "refs (g\<lparr>g_grayagain := x\<rparr>) = refs g" for x by (rule refs_cong; simp)+
  show "inside M g \<Longrightarrow> a \<in> M \<Longrightarrow> inside M (g\<lparr>g_gray := a # g_gray g\<rparr>)" "inside M g \<Longrightarrow> a \<in> M \<Longrightarrow> inside M (g\<lparr>g_weak := a # g_weak g\<rparr>)"
    "inside M g \<Longrightarrow> a \<in> M \<Longrightarrow> inside M (g\<lparr>g_grayagain := a # g_grayagain g\<rparr>)"
    by (simp_all add: inside_def gray_lists_def iswhite_def r)
qed

lemma inside_lists:
  assumes "inside M g" "body g' = body g" "marked g' = marked g" "set (gray_lists g') \<subseteq> M"
  shows "inside M g'"
  using assms refs_cong [OF assms(2)] by (simp add: inside_def iswhite_def)

lemma inside_move: "inside M g \<Longrightarrow> body g' = body g \<Longrightarrow> marked g' = marked g \<Longrightarrow> set (gray_lists g') \<subseteq> set (gray_lists g) \<Longrightarrow> inside M g'"
  by (rule inside_lists) (auto simp: inside_def)

lemma inside_shrinks:
  assumes i: "inside M g" and s: "shrinks g g'" and w: "\<And>x. iswhite g' x = iswhite g x" and l: "gray_lists g' = gray_lists g"
  shows "inside M g'"
proof -
  have "targets (refs g' a) \<subseteq> targets (refs g a)" for a using shrinks_refs [OF s, of a] by (auto simp: targets_def)
  moreover have "body g' a \<noteq> None \<Longrightarrow> body g a \<noteq> None" for a using spec [OF s, of a] by (cases "body g a") auto
  ultimately show ?thesis using i w l unfolding inside_def by (metis order_trans)
qed

lemma inside_set_body: "inside M g \<Longrightarrow> body g a = Some b \<Longrightarrow> shr b b' \<Longrightarrow> inside M (set_body a b' g)"
  by (erule inside_shrinks) (use marks_shrinks [OF marks_set_body] in \<open>auto simp: iswhite_def gray_lists_def\<close>)

lemma inside_fold: "(\<And>x k. x \<in> set xs \<Longrightarrow> inside M k \<Longrightarrow> inside M (F x k)) \<Longrightarrow> inside M g \<Longrightarrow> inside M (fold F xs g)"
  by (induction xs arbitrary: g) simp_all

subsection \<open>Marking\<close>

lemma really_mark_inside: "inside M g \<Longrightarrow> a \<in> M \<Longrightarrow> inside M (really_mark n a g)"
proof (induction n arbitrary: a g)
  case (Suc n)
  have wth: "inside M k \<Longrightarrow> x \<in> M \<Longrightarrow> inside M (markobject_with (really_mark n) x k)" for k x by (simp add: markobject_with_def Suc.IH)
  let ?g1 = "white2gray a g"
  have 1: "inside M ?g1" using inside_set_mark [OF Suc.prems(1)] Suc.prems(2) by (simp add: white2gray_def)
  have 2: "inside M (gray2black a k)" if "inside M k" for k using inside_set_mark [OF that] Suc.prems(2) by (simp add: gray2black_def)
  show ?case
  proof (cases "body g a")
    case None
    then show ?thesis using 1 by (simp add: Let_def)
  next
    case (Some b)
    have t: "targets (brefs g b) \<subseteq> M" by (rule inside_closed [OF Suc.prems Some])
    show ?thesis
    proof (cases b)
      case (BUdata mt e s)
      then have "e \<in> M" "\<And>m. mt = Some m \<Longrightarrow> m \<in> M" using t by (auto simp: targets_def orefs_def)
      then show ?thesis using 2 [OF 1] Some BUdata by (auto simp: Let_def markopt_with_def intro!: wth split: option.split)
    next
      case (BUpval uv)
      have "upval_value ?g1 uv = upval_value g uv" by (rule upval_value_cong) (simp add: white2gray_def)
      then have "inside M (markvalue_with (really_mark n) (upval_value ?g1 uv) ?g1)"
        using t BUpval 1 by (auto simp: markvalue_with_def targets_def intro!: wth split: gval.split)
      then show ?thesis using Some BUpval 2 by (auto simp: Let_def split: gupval.split)
    qed (use 1 Some Suc.prems(2) inside_push(1) [OF 1] in \<open>simp_all add: Let_def\<close>)
  qed
qed simp

lemma markobject_inside: "inside M g \<Longrightarrow> a \<in> M \<Longrightarrow> inside M (markobject a g)"
  by (simp add: markobject_def markobject_with_def reallymarkobject_def really_mark_inside)

lemma markopt_inside: "inside M g \<Longrightarrow> set_option p \<subseteq> M \<Longrightarrow> inside M (markopt p g)"
  using markobject_inside [of M g] by (auto simp: markopt_def markopt_with_def markobject_def split: option.split)

lemma targets_in: "targets R \<subseteq> M \<Longrightarrow> (tt, r) \<in> R \<Longrightarrow> r \<in> M"
  by (force simp: targets_def)

lemma targets_sub: "targets R \<subseteq> M \<Longrightarrow> R' \<subseteq> R \<Longrightarrow> targets R' \<subseteq> M"
  by (auto simp: targets_def)

lemma targets_orefs: "targets (orefs tt p) = set_option p"
  by (cases p) (simp_all add: orefs_def)

lemma markvalue_inside: "inside M g \<Longrightarrow> targets (vrefs v) \<subseteq> M \<Longrightarrow> inside M (markvalue v g)"
  using markobject_inside [of M g] by (auto simp: markvalue_def markvalue_with_def markobject_def targets_def split: gval.split)

lemma stringmark_inside: "inside M g \<Longrightarrow> set_option p \<subseteq> M \<Longrightarrow> inside M (stringmark_opt p g)"
  using inside_set_mark [of M g] by (auto simp: stringmark_opt_def stringmark_def split: option.split)

lemma gfasttm_inside: "gfasttm g mt e nm = (v, g') \<Longrightarrow> inside M g \<Longrightarrow> inside M g'"
proof -
  assume g: "gfasttm g mt e nm = (v, g')" and i: "inside M g"
  have "marked g' = marked g \<and> gray_lists g' = gray_lists g" using g by (auto simp: gfasttm_def gray_lists_def split: option.splits gbody.splits if_splits prod.splits)
  then show ?thesis by (intro inside_shrinks [OF i marks_shrinks [OF gfasttm_marks [OF g]]]) (simp_all add: iswhite_def)
qed

lemma clean_table_inside: "inside M g \<Longrightarrow> inside M (clean_table a g)"
  using inside_set_body [OF _ _ clean_shr] by (simp add: clean_table_def split: option.split gbody.split)

lemma traversetable_inside:
  assumes i: "inside M g" and a: "a \<in> M" and t: "targets (brefs g (BTable h)) \<subseteq> M"
  shows "inside M (snd (traversetable a h g))"
proof -
  obtain mode g2 where gf: "gfasttm (markopt (h_metatable h) g) (h_metatable h) 3 (g_mode (markopt (h_metatable h) g)) = (mode, g2)"
    by (cases "gfasttm (markopt (h_metatable h) g) (h_metatable h) 3 (g_mode (markopt (h_metatable h) g))")
  obtain wk wv where wm: "weak_mode g2 mode = (wk, wv)" by (cases "weak_mode g2 mode")
  have tt: "set_option (h_metatable h) \<subseteq> M" "\<And>v. v \<in> set (h_array h) \<Longrightarrow> targets (vrefs v) \<subseteq> M" "\<And>n. n \<in> set (h_node h) \<Longrightarrow> targets (nrefs n) \<subseteq> M"
    using t by (auto simp: orefs_def elim!: targets_sub split: option.splits)
  have 2: "inside M g2" by (rule gfasttm_inside [OF gf markopt_inside [OF i tt(1)]])
  define g3 where "g3 = (if wk \<or> wv then (set_mark a (weak_bits wk wv) g2)\<lparr>g_weak := a # g_weak g2\<rparr> else g2)"
  have "g_weak (set_mark a (weak_bits wk wv) g2) = g_weak g2" by simp
  then have 3: "inside M g3" using inside_push(2) [OF inside_set_mark [OF 2, of a "weak_bits wk wv"] a] 2 a by (simp add: g3_def)
  have arr: "inside M (fold markvalue (rev (h_array h)) g3)" by (rule inside_fold [OF _ 3]) (use tt(2) markvalue_inside in auto)
  have nodes: "inside M (fold (mark_node wk wv) (rev (h_node h)) k)" if "inside M k" for k
  proof (rule inside_fold [OF _ that])
    fix n k assume n: "n \<in> set (rev (h_node h))" and k: "inside M k"
    show "inside M (mark_node wk wv n k)"
    proof (cases "snd n = GNil")
      case False
      then have "targets (vrefs (fst n)) \<subseteq> M" "targets (vrefs (snd n)) \<subseteq> M" using tt(3) [of n] n by (auto simp: nrefs_def)
      then show ?thesis using k by (simp add: mark_node_def markvalue_inside)
    qed (simp add: mark_node_def k)
  qed
  have e: "snd (traversetable a h g) = (if wk \<and> wv then g3 else clean_table a (fold (mark_node wk wv) (rev (h_node h)) (if wv then g3 else fold markvalue (rev (h_array h)) g3)))"
    unfolding traversetable_def Let_def gf prod.case wm g3_def [symmetric] by simp
  show ?thesis unfolding e using 3 clean_table_inside [OF nodes] arr by simp
qed

lemma traverseproto_inside: "inside M g \<Longrightarrow> targets (brefs g (BProto f)) \<subseteq> M \<Longrightarrow> inside M (traverseproto f g)"
  unfolding traverseproto_def
  by (intro inside_fold stringmark_inside markopt_inside markvalue_inside)
    (simp_all add: targets_orefs UN_subset_iff)

lemma traverseclosure_inside: "inside M g \<Longrightarrow> targets (brefs g (BFunction cl)) \<subseteq> M \<Longrightarrow> inside M (traverseclosure cl g)"
proof (cases cl)
  case (CCl e vs)
  then show "inside M g \<Longrightarrow> targets (brefs g (BFunction cl)) \<subseteq> M \<Longrightarrow> ?thesis"
    unfolding CCl traverseclosure.simps by (intro inside_fold markvalue_inside markobject_inside) (auto simp: targets_def)
next
  case (LCl e p us)
  then show "inside M g \<Longrightarrow> targets (brefs g (BFunction cl)) \<subseteq> M \<Longrightarrow> ?thesis"
    unfolding LCl traverseclosure.simps by (intro inside_fold markobject_inside) (auto intro: targets_in)
qed

lemma traversestack_inside:
  assumes i: "inside M g" and t: "targets (brefs g (BThread th)) \<subseteq> M" and b: "body g a = Some (BThread th)"
  shows "inside M (traversestack a th g)"
proof -
  let ?g2 = "fold markvalue (take (th_top th) (th_stack th)) (markvalue (th_gt th) g)"
  have "inside M ?g2" by (intro inside_fold markvalue_inside i) (use t in \<open>auto simp: targets_def\<close>)
  moreover have "body ?g2 a = Some (BThread th)" using b by (simp add: body_fold_markvalue body_markvalue)
  ultimately show ?thesis unfolding traversestack_def Let_def by (rule inside_set_body) (rule shr_trans [OF clear_stack_shr checkstacksizes_shr])
qed

lemma propagatemark_inside:
  assumes i: "inside M g"
  shows "inside M (snd (propagatemark g))"
proof (cases "g_gray g")
  case Nil
  then show ?thesis using i by (simp add: propagatemark_def)
next
  case (Cons a rest)
  have a: "a \<in> M" "set (g_gray (g\<lparr>g_gray := rest\<rparr>)) \<subseteq> M" using i Cons by (auto simp: inside_def gray_lists_def)
  let ?g1 = "(gray2black a g)\<lparr>g_gray := rest\<rparr>"
  have 1: "inside M ?g1"
    by (rule inside_lists [of _ "gray2black a g"]) (use i a inside_set_mark [OF i] in \<open>auto simp: gray2black_def inside_def gray_lists_def\<close>)
  have b1: "body ?g1 = body g" by (simp add: gray2black_def)
  have bl: "inside M (black2gray a k)" if "inside M k" for k using inside_set_mark [OF that] a by (simp add: black2gray_def)
  show ?thesis
  proof (cases "body g a")
    case None
    then show ?thesis using Cons 1 by (simp add: propagatemark_def Let_def)
  next
    case (Some b)
    have t: "targets (brefs ?g1 b) \<subseteq> M" by (rule inside_closed [OF 1 a(1)]) (use Some b1 in simp)
    show ?thesis
    proof (cases b)
      case (BTable h)
      have "inside M (snd (traversetable a h ?g1))" by (rule traversetable_inside [OF 1 a(1)]) (use t BTable in simp)
      then show ?thesis using Cons Some BTable bl [of "snd (traversetable a h ?g1)"] by (cases "traversetable a h ?g1") (simp add: propagatemark_def Let_def del: black2gray_def)
    next
      case (BFunction cl)
      then show ?thesis using Cons Some traverseclosure_inside [OF 1, of cl] t by (simp add: propagatemark_def Let_def)
    next
      case (BProto f)
      then show ?thesis using Cons Some traverseproto_inside [OF 1, of f] t by (simp add: propagatemark_def Let_def)
    next
      case (BThread th)
      let ?g2 = "black2gray a (?g1\<lparr>g_grayagain := a # g_grayagain ?g1\<rparr>)"
      have 2: "inside M ?g2" by (intro bl inside_push(3) 1 a(1))
      have b2: "body ?g2 = body g" by (simp add: black2gray_def gray2black_def)
      have "targets (brefs ?g2 (BThread th)) \<subseteq> M" by (rule inside_closed [OF 2 a(1)]) (use Some BThread b2 in simp)
      from traversestack_inside [OF 2 this] show ?thesis using Cons Some BThread b2 by (simp add: propagatemark_def Let_def)
    qed (use Cons Some 1 in \<open>simp_all add: propagatemark_def Let_def\<close>)
  qed
qed

subsection \<open>The parts of the atomic phase\<close>

lemma remarkupvals_inside: "inside M g \<Longrightarrow> inside M (remarkupvals g)"
  unfolding remarkupvals_def
proof (rule inside_fold)
  fix u k assume k: "inside M k"
  show "inside M (remark_upval u k)"
  proof (cases "isgray k u \<and> (\<exists>uv. body k u = Some (BUpval uv))")
    case True
    then obtain uv where uv: "body k u = Some (BUpval uv)" "isgray k u" by blast
    then have "u \<in> M" using inside_marked [OF k, of u] by (simp add: isgray_def)
    from inside_closed [OF k this uv(1)] show ?thesis using uv k by (simp add: remark_upval_def markvalue_inside)
  qed (use k in \<open>auto simp: remark_upval_def split: option.split gbody.split\<close>)
qed

lemma markmt_inside: "inside M g \<Longrightarrow> targets (\<Union>p \<in> set (g_mt g). orefs TTABLE p) \<subseteq> M \<Longrightarrow> inside M (markmt g)"
  unfolding markmt_def by (rule inside_fold) (simp_all add: markopt_inside targets_orefs UN_subset_iff)

lemma separate_loop_inside: "inside M g \<Longrightarrow> separate_loop all us g = (d, l, g') \<Longrightarrow> inside M g'"
proof (induction us arbitrary: g d l g')
  case (Cons u us)
  show ?case
  proof (cases "\<not> (iswhite g u \<or> all) \<or> isfinalized g u")
    case True
    then show ?thesis using Cons by (auto split: prod.splits)
  next
    case False
    obtain tm g1 where gf: "gfasttm g (udata_metatable g u) 2 (g_gc g) = (tm, g1)" by (cases "gfasttm g (udata_metatable g u) 2 (g_gc g)")
    let ?g2 = "markfinalized u g1"
    have "m_white (m OR FINALIZEDMASK) = m_white m" for m by (simp add: m_white_bits mask_defs mark_eq_iff bit_or_iff bit_and_iff)
    then have 2: "inside M ?g2" using inside_set_mark [OF gfasttm_inside [OF gf Cons.prems(1)], of u "\<lambda>m. m OR FINALIZEDMASK"] by (simp add: markfinalized_def)
    have "inside M (?g2\<lparr>g_tmudata := x\<rparr>)" for x by (rule inside_lists [OF 2]) (use 2 in \<open>auto simp: inside_def gray_lists_def body_def [abs_def] marked_def [abs_def]\<close>)
    then show ?thesis using Cons.IH [OF 2] Cons.IH [of "?g2\<lparr>g_tmudata := g_tmudata ?g2 @ [u]\<rparr>"] Cons.prems(2) False gf by (auto simp: Let_def split: prod.splits if_splits)
  qed
qed simp

lemma separateudata_inside: "inside M g \<Longrightarrow> luaC_separateudata all g = (d, g') \<Longrightarrow> inside M g'"
proof -
  assume i: "inside M g" and r: "luaC_separateudata all g = (d, g')"
  obtain l g1 where s: "separate_loop all (after_link g (Some (g_mainthread g))) g = (d, l, g1)"
    using r by (cases "separate_loop all (after_link g (Some (g_mainthread g))) g") (auto simp: luaC_separateudata_def)
  have i1: "inside M g1" by (rule separate_loop_inside [OF i s])
  obtain x where "g' = g1\<lparr>g_rootgc := x\<rparr>" using r s by (auto simp: luaC_separateudata_def)
  then show "inside M g'" by (intro inside_lists [OF i1]) (use i1 in \<open>auto simp: inside_def gray_lists_def body_def [abs_def] marked_def [abs_def]\<close>)
qed

lemma marktmu_inside: "inside M g \<Longrightarrow> set (g_tmudata g) \<subseteq> M \<Longrightarrow> inside M (marktmu g)"
  unfolding marktmu_def
proof (rule inside_fold)
  fix u k assume "set (g_tmudata g) \<subseteq> M" "u \<in> set (g_tmudata g)" "inside M k"
  then have u: "u \<in> M" and k: "inside M (makewhite u k)" using inside_set_mark [of M k u] by (auto simp: makewhite_def)
  show "inside M (reallymarkobject u (makewhite u k))" unfolding reallymarkobject_def by (rule really_mark_inside [OF k u])
qed

end
