(* ===== verification/Lua_Gc_Atomic.thy ===== *)
theory Lua_Gc_Atomic
  imports Lua_Gc_Inside
begin

text \<open>The end of the mark phase: \<open>propagateall\<close> ends, and after \<open>atomic\<close> no object that is not white refers to a white one.\<close>

subsection \<open>Marking in several steps\<close>

text \<open>Two states that differ in the heap and in the three lists of gray objects only.\<close>

definition rest_eq4 :: "gstate \<Rightarrow> gstate \<Rightarrow> bool" where
  "rest_eq4 g g' \<longleftrightarrow> (\<forall>h gr ga w. g'\<lparr>g_heap := h, g_gray := gr, g_grayagain := ga, g_weak := w\<rparr> = g\<lparr>g_heap := h, g_gray := gr, g_grayagain := ga, g_weak := w\<rparr>)"

lemma rest_eq4_field: "rest_eq4 g g' \<Longrightarrow> (\<And>x h gr ga w. F (x\<lparr>g_heap := h, g_gray := gr, g_grayagain := ga, g_weak := w\<rparr>) = F x) \<Longrightarrow> F g' = F g"
  unfolding rest_eq4_def by metis

lemma rest_eq4_rest_eq: "rest_eq g g' \<Longrightarrow> rest_eq4 g g'"
  unfolding rest_eq4_def rest_eq_def by metis

lemma rest_eq4_strip: "rest_eq (strip a g) (strip a g') \<Longrightarrow> rest_eq4 g g'"
proof -
  assume r: "rest_eq (strip a g) (strip a g')"
  have e: "(strip a x)\<lparr>g_heap := h, g_gray := gr\<rparr>\<lparr>g_grayagain := ga, g_weak := w\<rparr> = x\<lparr>g_heap := h, g_gray := gr, g_grayagain := ga, g_weak := w\<rparr>" for x h gr ga w
    by (cases x) (simp add: strip_def set_mark_def split: option.splits)
  show ?thesis unfolding rest_eq4_def
  proof (intro allI)
    fix h gr ga w
    have "(strip a g')\<lparr>g_heap := h, g_gray := gr\<rparr> = (strip a g)\<lparr>g_heap := h, g_gray := gr\<rparr>" using r by (simp add: rest_eq_def)
    then show "g'\<lparr>g_heap := h, g_gray := gr, g_grayagain := ga, g_weak := w\<rparr> = g\<lparr>g_heap := h, g_gray := gr, g_grayagain := ga, g_weak := w\<rparr>"
      using e [where x = g] e [where x = g'] by (metis (no_types))
  qed
qed

definition trav :: "gstate \<Rightarrow> gstate \<Rightarrow> bool" where
  "trav g g' \<longleftrightarrow> shrinks g g' \<and> (\<forall>x. iswhite g' x \<longrightarrow> iswhite g x \<and> marked g' x = marked g x) \<and>
     (\<forall>x. bit (marked g' x) 5 = bit (marked g x) 5) \<and> rest_eq4 g g'"

lemma trav_refl [simp]: "trav g g"
  using marks_shrinks [OF marks_refl, of g] by (simp add: trav_def rest_eq4_def)

lemma trav_trans: "trav g1 g2 \<Longrightarrow> trav g2 g3 \<Longrightarrow> trav g1 g3"
  unfolding trav_def rest_eq4_def using shrinks_trans [of g1 g2 g3] by simp

lemma upper_bits_5: "upper_bits m = upper_bits m' \<Longrightarrow> bit m 5 = bit m' 5"
proof -
  assume "upper_bits m = upper_bits m'"
  then have "bit (upper_bits m) 5 = bit (upper_bits m') 5" by simp
  then show ?thesis by (simp add: upper_bits_def mask_defs bit_and_iff bit_or_iff bit_not_iff)
qed

lemma marks_trav: "marks g g' \<Longrightarrow> trav g g'"
proof -
  assume m: "marks g g'"
  have "iswhite g' x \<longrightarrow> marked g' x = marked g x" for x using m unfolding marks_def by blast
  moreover have "bit (marked g' x) 5 = bit (marked g x) 5" for x
  proof (cases "iswhite g x \<and> \<not> iswhite g' x")
    case True
    then have "upper_bits (marked g' x) = upper_bits (marked g x)" using m by (simp add: marks_def)
    then show ?thesis by (rule upper_bits_5)
  next
    case False
    then have "marked g' x = marked g x" using m unfolding marks_def by blast
    then show ?thesis by simp
  qed
  ultimately show ?thesis using marks_shrinks [OF m] marks_white [OF m] m rest_eq4_rest_eq [of g g'] by (simp add: trav_def marks_def)
qed

lemma advance_trav: "advance g a b rest g' \<Longrightarrow> rest_eq (strip a g) (strip a g') \<Longrightarrow> trav g g'"
proof -
  assume ad: "advance g a b rest g'" and r: "rest_eq (strip a g) (strip a g')"
  have "iswhite g' x \<longrightarrow> marked g' x = marked g x" for x using ad unfolding advance_def by metis
  moreover have "bit (marked g' x) 5 = bit (marked g x) 5" for x
  proof (cases "x = a")
    case False
    then show ?thesis using ad upper_bits_5 unfolding advance_def by metis
  qed (use ad in \<open>simp add: advance_def\<close>)
  ultimately show ?thesis using ad advance_white [OF ad] rest_eq4_strip [OF r] by (simp add: trav_def advance_def)
qed

lemma trav_fields:
  "trav g g' \<Longrightarrow> g_rootgc g' = g_rootgc g" "trav g g' \<Longrightarrow> g_strt g' = g_strt g" "trav g g' \<Longrightarrow> g_nuse g' = g_nuse g"
  "trav g g' \<Longrightarrow> g_tmudata g' = g_tmudata g" "trav g g' \<Longrightarrow> g_uvhead g' = g_uvhead g" "trav g g' \<Longrightarrow> g_currentwhite g' = g_currentwhite g"
  "trav g g' \<Longrightarrow> g_gcstate g' = g_gcstate g" "trav g g' \<Longrightarrow> g_mainthread g' = g_mainthread g" "trav g g' \<Longrightarrow> g_L g' = g_L g"
  "trav g g' \<Longrightarrow> g_registry g' = g_registry g" "trav g g' \<Longrightarrow> g_mt g' = g_mt g" "trav g g' \<Longrightarrow> g_mode g' = g_mode g" "trav g g' \<Longrightarrow> g_gc g' = g_gc g"
  "trav g g' \<Longrightarrow> g_sweepgc g' = g_sweepgc g" "trav g g' \<Longrightarrow> g_sweepstrgc g' = g_sweepstrgc g" "trav g g' \<Longrightarrow> g_totalbytes g' = g_totalbytes g"
  unfolding trav_def by ((elim conjE, erule rest_eq4_field, simp)+)

lemma trav_shrinks: "trav g g' \<Longrightarrow> shrinks g g'"
  by (simp add: trav_def)

lemma trav_dom: "trav g g' \<Longrightarrow> body g' a = None \<longleftrightarrow> body g a = None"
  by (drule trav_shrinks, drule spec [of _ a], cases "body g a"; cases "body g' a") auto

lemma trav_white: "trav g g' \<Longrightarrow> \<not> iswhite g a \<Longrightarrow> \<not> iswhite g' a"
  by (auto simp: trav_def)

lemma trav_ok: "trav g g' \<Longrightarrow> ok g a \<Longrightarrow> ok g' a"
  using shrinks_refs [OF trav_shrinks, of g g' a] trav_white [of g g'] by (fastforce simp: ok_def)

subsection \<open>propagateall\<close>

definition whites :: "gstate \<Rightarrow> addr set" where
  "whites g = {a. iswhite g a}"

definition objects :: "gstate \<Rightarrow> addr set" where
  "objects g = {a. body g a \<noteq> None}"

lemma whites_objects: "whites g \<subseteq> objects g"
  using iswhite_body by (auto simp: whites_def objects_def)

lemma trav_objects: "trav g g' \<Longrightarrow> objects g' = objects g"
  using trav_dom by (simp add: objects_def)

text \<open>A step takes one object from the list of gray objects, and whatever it adds to the list was white before.\<close>

definition gray_measure :: "gstate \<Rightarrow> nat" where
  "gray_measure g = card (whites g) + length (g_gray g)"

lemma advance_measure:
  assumes fin: "finite (objects g)" and gr: "g_gray g = a # rest" and ad: "advance g a b rest g'"
  shows "gray_measure g' < gray_measure g"
proof -
  obtain xs where xs: "g_gray g' = xs @ rest" "distinct xs" "\<forall>x \<in> set xs. iswhite g x \<and> \<not> iswhite g' x" using ad by (auto simp: advance_def)
  have w: "finite (whites g)" using finite_subset [OF whites_objects fin] .
  have s: "whites g' \<subseteq> whites g - set xs" using advance_white [OF ad] xs(3) by (auto simp: whites_def)
  have "card (whites g - set xs) = card (whites g) - length xs"
    using card_Diff_subset [of "set xs" "whites g"] xs(2,3) distinct_card [OF xs(2)] by (auto simp: whites_def)
  moreover have "length xs \<le> card (whites g)" using card_mono [OF w, of "set xs"] xs(3) distinct_card [OF xs(2)] by (auto simp: whites_def)
  moreover have "card (whites g') \<le> card (whites g - set xs)" by (rule card_mono) (use w s in auto)
  ultimately show ?thesis using xs(1) gr by (simp add: gray_measure_def)
qed

definition mark_step :: "gstate \<Rightarrow> addr \<Rightarrow> gbody \<Rightarrow> addr list \<Rightarrow> gstate \<Rightarrow> bool" where
  "mark_step g a b rest g' \<longleftrightarrow> minv g \<and> g_gray g = a # rest \<and> body g a = Some b \<and> advance g a b rest g' \<and> g' = snd (propagatemark g)"

lemma propagateall_inv:
  assumes fin: "finite (objects g)" and i: "minv g" and p: "P g"
    and step: "\<And>g a b rest g'. P g \<Longrightarrow> mark_step g a b rest g' \<Longrightarrow> trav g g' \<Longrightarrow> P g'"
  shows "minv (snd (propagateall g)) \<and> P (snd (propagateall g)) \<and> g_gray (snd (propagateall g)) = [] \<and> trav g (snd (propagateall g))"
    "\<exists>r. while_option (\<lambda>(m, g). g_gray g \<noteq> []) (\<lambda>(m, g). let (k, g') = propagatemark g in (m + k, g')) (0, g) = Some r"
proof -
  let ?c = "\<lambda>(m :: nat, g). g_gray g \<noteq> []" and ?f = "\<lambda>(m, g). let (k, g') = propagatemark g in (m + k, g')"
  let ?I = "\<lambda>(m :: nat, g'). minv g' \<and> P g' \<and> trav g g'"
  have s: "?I (?f x) \<and> gray_measure (snd (?f x)) < gray_measure (snd x)" if x: "?I x" "?c x" for x
  proof -
    obtain m g1 where [simp]: "x = (m, g1)" by (cases x)
    obtain a rest where gr: "g_gray g1 = a # rest" using x(2) by (cases "g_gray g1") auto
    obtain k g2 where pm: "propagatemark g1 = (k, g2)" by (cases "propagatemark g1")
    have i1: "minv g1" "P g1" "trav g g1" using x(1) by simp_all
    obtain b where b: "body g1 a = Some b" by (rule minv_head [OF i1(1) gr])
    note ad = propagatemark_advance [OF i1(1) gr pm b]
    have t: "trav g1 g2" by (rule advance_trav [OF ad])
    have "finite (objects g1)" using fin trav_objects [OF i1(3)] by simp
    from advance_measure [OF this gr ad(1)] propagatemark_minv [OF i1(1) gr b ad(1)] trav_trans [OF i1(3) t]
      step [OF i1(2) _ t, of a b rest] i1(1) gr b ad(1)
    show ?thesis by (simp add: pm mark_step_def)
  qed
  have 0: "?I (0, g)" using i p by simp
  have "?I (propagateall g) \<and> \<not> ?c (propagateall g)" unfolding propagateall_def
    by (rule while_rule [where P = ?I and r = "measure (gray_measure \<circ> snd)", OF 0]) (use s in \<open>auto simp del: split_paired_All\<close>)
  then show "minv (snd (propagateall g)) \<and> P (snd (propagateall g)) \<and> g_gray (snd (propagateall g)) = [] \<and> trav g (snd (propagateall g))"
    by (cases "propagateall g") simp
  show "\<exists>r. while_option ?c ?f (0, g) = Some r"
    by (rule measure_while_option_Some [where P = ?I and f = "gray_measure \<circ> snd", OF _ 0]) (use s in simp)
qed

text \<open>Without the objects of the list, the invariant of the mark phase with the weak tables and a set of others as exceptions.\<close>

definition weak_ok :: "gstate \<Rightarrow> bool" where
  "weak_ok g \<longleftrightarrow> (\<forall>a \<in> set (g_weak g). wok g a)"

lemma wok_mono:
  assumes "wok g a" "shrinks g g'" "marked g' a = marked g a" "\<And>x. \<not> iswhite g x \<Longrightarrow> \<not> iswhite g' x"
  shows "wok g' a"
proof -
  obtain h where h: "body g a = Some (BTable h)" "\<forall>r \<in> targets (srefs (bit (marked g a) 3) (bit (marked g a) 4) h). \<not> iswhite g r"
    using assms(1) by (auto simp: wok_def)
  obtain b' where b': "body g' a = Some b'" "shr (BTable h) b'" using spec [OF assms(2), of a] h(1) by (cases "body g' a") auto
  then obtain h' where "b' = BTable h'" by (auto simp: shr_def)
  then show ?thesis using b' h(2) srefs_shr [of h h'] assms(3,4) by (fastforce simp: wok_def targets_def)
qed

lemma mark_step_weak_ok:
  assumes ms: "mark_step g a b rest g'" and w: "weak_ok g"
  shows "weak_ok g'"
  unfolding weak_ok_def
proof
  fix x assume x: "x \<in> set (g_weak g')"
  have ad: "advance g a b rest g'" and gr: "g_gray g = a # rest" and l: "mark_lists g" using ms unfolding mark_step_def minv_def by blast+
  have "x = a \<and> wok g' a \<or> x \<in> set (g_weak g)" using x ad by (auto simp: advance_def traversed_def)
  moreover have "wok g' x" if m: "x \<in> set (g_weak g)"
  proof (rule wok_mono [of g])
    show "wok g x" using w m by (simp add: weak_ok_def)
    show "shrinks g g'" using ad by (simp add: advance_def)
    show "\<not> iswhite g y \<Longrightarrow> \<not> iswhite g' y" for y using advance_white [OF ad] by blast
    have "isgray g x" "x \<noteq> a" using l m gr by (auto simp: mark_lists_def gray_lists_def)
    then show "marked g' x = marked g x" using advance_same [OF ad, of x] by (simp add: isgray_def)
  qed
  ultimately show "wok g' x" by blast
qed

lemma marks_weak_ok:
  assumes m: "marks g g'" and l: "mark_lists g" and w: "weak_ok g"
  shows "weak_ok g'"
  unfolding weak_ok_def
proof
  fix x assume "x \<in> set (g_weak g')"
  then have x: "x \<in> set (g_weak g)" using marks_lists [OF m] by simp
  then have "\<not> iswhite g x" using l by (auto simp: mark_lists_def gray_lists_def isgray_def)
  then show "wok g' x" using wok_mono [OF _ marks_shrinks [OF m] marks_nonwhite [OF m]] w x marks_white [OF m] by (auto simp: weak_ok_def)
qed

definition propagated :: "gstate \<Rightarrow> gstate \<Rightarrow> addr set \<Rightarrow> bool" where
  "propagated g g' E \<longleftrightarrow> minv g' \<and> g_gray g' = [] \<and> tri g' (set (g_weak g') \<union> E) \<and> trav g g'"

lemma propagateall_propagated:
  assumes "finite (objects g)" "minv g" "tri g (set (g_weak g) \<union> E)"
  shows "propagated g (snd (propagateall g)) E" "set (g_grayagain g) \<subseteq> set (g_grayagain (snd (propagateall g)))"
    "weak_ok g \<Longrightarrow> weak_ok (snd (propagateall g))" "inside M g \<Longrightarrow> inside M (snd (propagateall g))"
proof -
  let ?P = "\<lambda>g'. tri g' (set (g_weak g') \<union> E) \<and> set (g_grayagain g) \<subseteq> set (g_grayagain g')"
  have s: "?P g2" if "?P g1" "mark_step g1 a b rest g2" for g1 a b rest g2
    using that propagatemark_tri [of g1 a rest b g2 E] by (auto simp: mark_step_def advance_def traversed_def)
  have 0: "?P g" using assms(3) by simp
  have "minv (snd (propagateall g)) \<and> ?P (snd (propagateall g)) \<and> g_gray (snd (propagateall g)) = [] \<and> trav g (snd (propagateall g))"
    by (rule propagateall_inv(1) [where P = ?P, OF assms(1,2) 0]) (rule s)
  then show "propagated g (snd (propagateall g)) E" "set (g_grayagain g) \<subseteq> set (g_grayagain (snd (propagateall g)))"
    by (simp_all add: propagated_def)
  assume w: "weak_ok g"
  have "minv (snd (propagateall g)) \<and> weak_ok (snd (propagateall g)) \<and> g_gray (snd (propagateall g)) = [] \<and> trav g (snd (propagateall g))"
    by (rule propagateall_inv(1) [where P = weak_ok, OF assms(1,2) w]) (rule mark_step_weak_ok)
  then show "weak_ok (snd (propagateall g))" by simp
next
  assume m: "inside M g"
  show "inside M (snd (propagateall g))"
    using propagateall_inv(1) [where P = "inside M", OF assms(1,2) m] propagatemark_inside by (simp add: mark_step_def)
qed

subsection \<open>Upvalues\<close>

definition open_ok :: "gstate \<Rightarrow> addr \<Rightarrow> bool" where
  "open_ok g u \<longleftrightarrow> (\<forall>b. body g u = Some b \<longrightarrow> is_open b \<longrightarrow> \<not> iswhite g u \<longrightarrow> ok g u)"

lemma is_open_kind: "is_open b \<Longrightarrow> \<not> gray_kind b \<and> \<not> black_kind b"
  by (auto simp: is_open_def gray_kind_def black_kind_def split: gbody.splits gupval.splits)

lemma marks_open_ok:
  assumes m: "marks g g'" and o: "open_ok g u"
  shows "open_ok g' u"
  unfolding open_ok_def
proof (intro allI impI)
  fix b' assume b': "body g' u = Some b'" "is_open b'" "\<not> iswhite g' u"
  show "ok g' u"
  proof (cases "iswhite g u")
    case True
    then have "settled g' u" using m b' by (simp add: marks_def)
    then show ?thesis using b' is_open_kind [OF b'(2)] by (simp add: settled_body)
  next
    case False
    obtain b where b: "body g u = Some b" using spec [OF marks_shrinks [OF m], of u] b' by (cases "body g u") auto
    then have "shr b b'" using marks_body [OF m b] b' by auto
    then have "is_open b" using gray_kind_shr(3) b' by blast
    then show ?thesis using o b False marks_ok [OF m] by (simp add: open_ok_def)
  qed
qed

lemma remark_upval_marks:
  assumes i: "minv g"
  shows "marks g (remark_upval u g)" "open_ok (remark_upval u g) u"
proof -
  have wt: "wb g" "typed g" "shades g" using i by (simp_all add: minv_def)
  have "marks g (remark_upval u g) \<and> open_ok (remark_upval u g) u"
  proof (cases "\<exists>uv. isgray g u \<and> body g u = Some (BUpval uv)")
    case True
    then obtain uv where uv: "isgray g u" "body g u = Some (BUpval uv)" by blast
    have e: "remark_upval u g = markvalue (upval_value g uv) g" using uv by (simp add: remark_upval_def)
    have r: "refs g u = vrefs (upval_value g uv)" using uv by (simp add: refs_def)
    have "valid_refs (vrefs (upval_value g uv)) g" using valid_refs_typed [OF wt(2), of u] r by simp
    note m = markvalue_targets [OF wt(1,2) this]
    then have "ok (markvalue (upval_value g uv) g) u" using ok_marks_refs [of g _ u] r by simp
    then show ?thesis using m e by (simp add: open_ok_def)
  next
    case False
    then have e: "remark_upval u g = g" by (auto simp: remark_upval_def split: option.splits gbody.splits)
    have "open_ok g u" unfolding open_ok_def
    proof (intro allI impI)
      fix b assume b: "body g u = Some b" "is_open b" "\<not> iswhite g u"
      then have "\<not> isblack g u" using shadesD [OF wt(3) b(1,3)] is_open_kind [OF b(2)] by simp
      then have "isgray g u" using b(3) by (simp add: isgray_def)
      then show "ok g u" using False b by (auto simp: is_open_def split: gbody.splits)
    qed
    then show ?thesis using e by simp
  qed
  then show "marks g (remark_upval u g)" "open_ok (remark_upval u g) u" by simp_all
qed

lemma fold_remark: "minv g \<Longrightarrow> marks g (fold remark_upval us g) \<and> (\<forall>u \<in> set us. open_ok (fold remark_upval us g) u)"
proof (induction us arbitrary: g)
  case (Cons u us)
  note r = remark_upval_marks [OF Cons.prems, of u]
  from Cons.IH [OF marks_minv [OF r(1) Cons.prems]] show ?case using r marks_trans [OF r(1)] marks_open_ok [OF _ r(2)] by auto
qed simp

lemma remarkupvals_tri:
  assumes i: "minv g" and t: "tri g (D \<union> {u. \<exists>b. body g u = Some b \<and> is_open b})" and uv: "\<And>u b. body g u = Some b \<Longrightarrow> is_open b \<Longrightarrow> u \<in> set (g_uvhead g)"
  shows "marks g (remarkupvals g)" "tri (remarkupvals g) D"
proof -
  have m: "marks g (remarkupvals g)" and o: "\<forall>u \<in> set (g_uvhead g). open_ok (remarkupvals g) u" using fold_remark [OF i] by (simp_all add: remarkupvals_def)
  show "marks g (remarkupvals g)" by (rule m)
  show "tri (remarkupvals g) D" unfolding tri_def
  proof (intro allI impI)
    fix a assume a: "body (remarkupvals g) a \<noteq> None" "\<not> iswhite (remarkupvals g) a"
    obtain b' where b': "body (remarkupvals g) a = Some b'" using a by auto
    obtain b where b: "body g a = Some b" using spec [OF marks_shrinks [OF m], of a] b' by (cases "body g a") auto
    then have "is_open b' = is_open b" using marks_body [OF m b] b' gray_kind_shr(3) by auto
    then have "is_open b' \<Longrightarrow> ok (remarkupvals g) a" using uv [OF b] o b' a by (auto simp: open_ok_def)
    moreover have "a \<in> D \<union> {u. \<exists>b. body g u = Some b \<and> is_open b} \<or> a \<in> set (g_gray (remarkupvals g)) \<or> ok (remarkupvals g) a"
      using marks_tri [OF m t] a by (simp add: tri_def)
    ultimately show "a \<in> D \<or> a \<in> set (g_gray (remarkupvals g)) \<or> ok (remarkupvals g) a" using b \<open>is_open b' = is_open b\<close> by auto
  qed
qed

subsection \<open>The lists of weak tables and of objects to be traversed again\<close>

text \<open>What depends on bodies and marks only.\<close>

lemma same_view:
  assumes b: "body g' = body g" and m: "marked g' = marked g"
  shows "iswhite g' a = iswhite g a" "isblack g' a = isblack g a" "isgray g' a = isgray g a" "ok g' a = ok g a" "typed g' = typed g" "wb g' = wb g"
    "gray_at g' a = gray_at g a" "wok g' a = wok g a" "objects g' = objects g" "refs g' a = refs g a"
proof -
  show w: "iswhite g' a = iswhite g a" "isblack g' a = isblack g a" for a by (simp_all add: iswhite_def isblack_def m)
  show "isgray g' a = isgray g a" by (simp add: isgray_def w)
  show r: "refs g' a = refs g a" for a using refs_cong [OF b] by simp
  show "ok g' a = ok g a" by (simp add: ok_def r w)
  show "typed g' = typed g" by (rule typed_cong [OF b])
  show "wb g' = wb g" by (simp add: wb_def w)
  show "gray_at g' a = gray_at g a" by (simp add: gray_at_def b)
  show "wok g' a = wok g a" by (simp add: wok_def b m w)
  show "objects g' = objects g" by (simp add: objects_def b)
qed

lemma minv_lists:
  assumes i: "minv g" and b: "body g' = body g" and m: "marked g' = marked g" and d: "distinct (gray_lists g')" "set (gray_lists g') = set (gray_lists g)"
    and w: "set (g_weak g') \<subseteq> set (g_weak g)"
  shows "minv g'"
  using i d w by (auto simp: minv_def same_view [OF b m] mark_lists_def shades_def b)

lemma switch_weak:
  assumes i: "minv g" and g: "g_gray g = []"
  defines "g' \<equiv> g\<lparr>g_gray := g_weak g, g_weak := []\<rparr>"
  shows "minv g'" "tri g (set (g_weak g) \<union> E) \<Longrightarrow> tri g' (set (g_weak g') \<union> E)" "weak_ok g'" "trav g g'"
proof -
  have b: "body g' = body g" "marked g' = marked g" by (simp_all add: g'_def)
  have l: "gray_lists g' = g_weak g @ g_grayagain g" "gray_lists g = g_grayagain g @ g_weak g" using g by (simp_all add: g'_def gray_lists_def)
  show "minv g'" by (rule minv_lists [OF i b]) (use i l in \<open>auto simp: minv_def mark_lists_def g'_def\<close>)
  show "tri g (set (g_weak g) \<union> E) \<Longrightarrow> tri g' (set (g_weak g') \<union> E)" unfolding tri_def same_view(1,4) [OF b] b by (auto simp: g g'_def)
  show "weak_ok g'" by (simp add: weak_ok_def g'_def)
  have "rest_eq4 g g'" unfolding rest_eq4_def g'_def by (cases g) simp
  then show "trav g g'" using marks_shrinks [OF marks_refl, of g] by (simp add: trav_def same_view [OF b] b)
qed

lemma switch_again:
  assumes i: "minv g" and g: "g_gray g = []"
  defines "g' \<equiv> g\<lparr>g_gray := g_grayagain g, g_grayagain := []\<rparr>"
  shows "minv g'" "tri g (set (g_weak g) \<union> (set (g_grayagain g) \<union> E)) \<Longrightarrow> tri g' (set (g_weak g') \<union> E)" "weak_ok g \<Longrightarrow> weak_ok g'" "trav g g'"
proof -
  have b: "body g' = body g" "marked g' = marked g" by (simp_all add: g'_def)
  have l: "gray_lists g' = gray_lists g" using g by (simp add: g'_def gray_lists_def)
  show "minv g'" by (rule minv_lists [OF i b]) (use i l in \<open>auto simp: minv_def mark_lists_def g'_def\<close>)
  show "tri g (set (g_weak g) \<union> (set (g_grayagain g) \<union> E)) \<Longrightarrow> tri g' (set (g_weak g') \<union> E)" unfolding tri_def same_view(1,4) [OF b] b by (auto simp: g g'_def)
  show "weak_ok g \<Longrightarrow> weak_ok g'" unfolding weak_ok_def same_view(8) [OF b] by (simp add: g'_def)
  have "rest_eq4 g g'" unfolding rest_eq4_def g'_def by (cases g) simp
  then show "trav g g'" using marks_shrinks [OF marks_refl, of g] by (simp add: trav_def same_view [OF b] b)
qed

text \<open>The first three stages of \<open>atomic\<close>.\<close>

definition atomic_mark :: "gstate \<Rightarrow> gstate" where
  "atomic_mark g =
     (let g1 = snd (propagateall (remarkupvals g));
          g2 = snd (propagateall (markmt (markobject (g_L g1) (g1\<lparr>g_gray := g_weak g1, g_weak := []\<rparr>))))
      in snd (propagateall (g2\<lparr>g_gray := g_grayagain g2, g_grayagain := []\<rparr>)))"

lemma markmt_marks:
  assumes "wb g" "typed g"
  shows "marks g (markmt g) \<and> (\<forall>r \<in> targets (\<Union>p \<in> set (g_mt g). orefs TTABLE p). \<not> iswhite (markmt g) r)"
  unfolding markmt_def by (rule fold_markopt [OF assms])

lemma atomic_mark_spec:
  assumes i: "minv g" and fin: "finite (objects g)" and gr: "g_gray g = []"
    and t: "tri g (set (g_grayagain g) \<union> set (g_weak g) \<union> {u. \<exists>b. body g u = Some b \<and> is_open b} \<union> E)"
    and uv: "\<And>u b. body g u = Some b \<Longrightarrow> is_open b \<Longrightarrow> u \<in> set (g_uvhead g)"
  shows "propagated g (atomic_mark g) E \<and> weak_ok (atomic_mark g) \<and> \<not> iswhite (atomic_mark g) (g_L g) \<and>
    (\<forall>r \<in> targets (\<Union>p \<in> set (g_mt g). orefs TTABLE p). \<not> iswhite (atomic_mark g) r) \<and>
    (\<forall>M. inside M g \<longrightarrow> g_L g \<in> M \<longrightarrow> targets (\<Union>p \<in> set (g_mt g). orefs TTABLE p) \<subseteq> M \<longrightarrow> inside M (atomic_mark g))"
proof -
  let ?G = "set (g_grayagain g)" and ?r = "remarkupvals g"
  have t0: "tri g ((set (g_weak g) \<union> (?G \<union> E)) \<union> {u. \<exists>b. body g u = Some b \<and> is_open b})" by (rule tri_mono [OF t]) auto
  have r: "marks g ?r" "tri ?r (set (g_weak g) \<union> (?G \<union> E))" using remarkupvals_tri [OF i t0 uv] by simp_all
  have rl: "g_weak ?r = g_weak g" "g_grayagain ?r = g_grayagain g" using marks_lists [OF r(1)] by simp_all
  have tr: "trav g ?r" by (rule marks_trav [OF r(1)])
  have fr: "finite (objects ?r)" using fin trav_objects [OF tr] by simp
  let ?g1 = "snd (propagateall ?r)"
  have p1: "propagated ?r ?g1 (?G \<union> E)" "?G \<subseteq> set (g_grayagain ?g1)"
    using propagateall_propagated(1,2) [OF fr marks_minv [OF r(1) i], of "?G \<union> E"] r rl by simp_all
  then have i1: "minv ?g1" "g_gray ?g1 = []" "tri ?g1 (set (g_weak ?g1) \<union> (?G \<union> E))" and t1: "trav g ?g1"
    using trav_trans [OF tr] by (simp_all add: propagated_def)
  let ?s = "?g1\<lparr>g_gray := g_weak ?g1, g_weak := []\<rparr>"
  note sw = switch_weak [OF i1(1,2)]
  have wts: "wb ?s" "typed ?s" using sw(1) by (simp_all add: minv_def)
  let ?o = "markobject (g_L ?g1) ?s" let ?m = "markmt ?o"
  have mo: "marks ?s ?o" "\<not> iswhite ?o (g_L ?g1)" using markobject_step [OF wts] by simp_all
  note mm = markmt_marks [OF marks_wb [OF mo(1) wts(1)] marks_typed [OF mo(1) wts(2)]]
  have sm: "marks ?s ?m" by (rule marks_trans [OF mo(1) conjunct1 [OF mm]])
  have im: "minv ?m" by (rule marks_minv [OF sm sw(1)])
  have wm: "weak_ok ?m" by (rule marks_weak_ok [OF sm _ sw(3)]) (use sw(1) in \<open>simp add: minv_def\<close>)
  have tm: "tri ?m (set (g_weak ?m) \<union> (?G \<union> E))" using marks_tri [OF sm sw(2) [OF i1(3)]] marks_lists [OF sm] by simp
  have tgm: "trav g ?m" by (rule trav_trans [OF trav_trans [OF t1 sw(4)] marks_trav [OF sm]])
  have gm: "g_grayagain ?m = g_grayagain ?g1" using marks_lists [OF sm] by simp
  have fm: "finite (objects ?m)" using fin trav_objects [OF tgm] by simp
  let ?g2 = "snd (propagateall ?m)"
  note p2 = propagateall_propagated [OF fm im tm]
  have i2: "minv ?g2" "g_gray ?g2 = []" "tri ?g2 (set (g_weak ?g2) \<union> (?G \<union> E))" and t2: "trav g ?g2"
    using p2(1) trav_trans [OF tgm] by (simp_all add: propagated_def)
  have "tri ?g2 (set (g_weak ?g2) \<union> (set (g_grayagain ?g2) \<union> E))" by (rule tri_mono [OF i2(3)]) (use p1(2) p2(2) gm in auto)
  note sa = switch_again [OF i2(1,2)] switch_again(2) [OF i2(1,2) this]
  let ?a = "?g2\<lparr>g_gray := g_grayagain ?g2, g_grayagain := []\<rparr>"
  have t3: "trav g ?a" by (rule trav_trans [OF t2 sa(4)])
  have fa: "finite (objects ?a)" using fin trav_objects [OF t3] by simp
  note p3 = propagateall_propagated [OF fa sa(1,5)]
  have e: "atomic_mark g = snd (propagateall ?a)" by (simp add: atomic_mark_def Let_def)
  have nw: "\<not> iswhite (atomic_mark g) x" if "\<not> iswhite ?m x" for x
    using that trav_white [of ?m ?g2] trav_white [OF sa(4)] trav_white [of ?a "atomic_mark g"] p2(1) p3(1) e by (simp add: propagated_def)
  have "\<not> iswhite ?m (g_L g)" using mo(2) marks_white [OF conjunct1 [OF mm]] trav_fields(9) [OF t1] by auto
  moreover have "g_mt ?o = g_mt g" using marks_fields(15) [OF mo(1)] trav_fields(11) [OF t1] by simp
  moreover have "inside M (atomic_mark g)" if M: "inside M g" "g_L g \<in> M" "targets (\<Union>p \<in> set (g_mt g). orefs TTABLE p) \<subseteq> M" for M
  proof -
    have "inside M ?g1" by (rule propagateall_propagated(4) [OF fr marks_minv [OF r(1) i] _ remarkupvals_inside [OF M(1)]]) (use r rl in simp)
    then have "inside M ?s" by (rule inside_move) (auto simp: gray_lists_def body_def [abs_def] marked_def [abs_def])
    then have "inside M ?o" by (rule markobject_inside) (use M(2) trav_fields(9) [OF t1] in simp)
    then have "inside M ?m" by (rule markmt_inside) (use M(3) \<open>g_mt ?o = g_mt g\<close> in simp)
    from p2(4) [OF this] have "inside M ?a" by (rule inside_move) (auto simp: gray_lists_def body_def [abs_def] marked_def [abs_def])
    then show ?thesis using p3(4) e by simp
  qed
  ultimately show ?thesis using p3(1,3) p2(3) [OF wm] sa(3) e trav_trans [OF t3] mm nw by (simp add: propagated_def)
qed

end
