(* ===== verification/Lua_Gc_Clear.thy ===== *)
theory Lua_Gc_Clear
  imports Lua_Gc_Atomic
begin

text \<open>The rest of \<open>atomic\<close>: userdata with finalizers are separated and marked, and weak tables lose their entries with unmarked parts.\<close>

subsection \<open>Later states\<close>

definition same_shape :: "gbody \<Rightarrow> gbody \<Rightarrow> bool" where
  "same_shape b b' \<longleftrightarrow> gc_tt b' = gc_tt b \<and>
     (b' = b \<or> gc_tt b = TTABLE \<or> (\<exists>t t'. b = BThread t \<and> b' = BThread t' \<and> th_openupval t' = th_openupval t))"

definition glob :: "gstate \<Rightarrow> addr list list \<times> addr list \<times> mark \<times> addr \<times> addr \<times> gval \<times> addr option list \<times> gcstate" where
  "glob g = (g_strt g, g_uvhead g, g_currentwhite g, g_mainthread g, g_L g, g_registry g, g_mt g, g_gcstate g)"

definition later :: "gstate \<Rightarrow> gstate \<Rightarrow> bool" where
  "later g g' \<longleftrightarrow> (\<forall>x. rel_option same_shape (body g x) (body g' x)) \<and> (\<forall>x. refs g' x \<subseteq> refs g x) \<and>
     (\<forall>x. iswhite g' x \<longrightarrow> iswhite g x \<and> marked g' x AND 7 = marked g x AND 7) \<and> (\<forall>x. bit (marked g' x) 5 = bit (marked g x) 5) \<and>
     glob g' = glob g"

lemma same_shape_refl [simp]: "same_shape b b"
  by (simp add: same_shape_def)

lemma same_shape_trans: "same_shape b1 b2 \<Longrightarrow> same_shape b2 b3 \<Longrightarrow> same_shape b1 b3"
  by (auto simp: same_shape_def)

lemma shr_same_shape: "shr b b' \<Longrightarrow> same_shape b b'"
  by (auto simp: shr_def same_shape_def)

lemma rel_option_trans: "(\<And>a b c. R a b \<Longrightarrow> R b c \<Longrightarrow> R a c) \<Longrightarrow> rel_option R x y \<Longrightarrow> rel_option R y z \<Longrightarrow> rel_option R x z"
  by (cases x; cases y; cases z) auto

lemma later_trans:
  assumes "later g1 g2" "later g2 g3"
  shows "later g1 g3"
proof -
  have "rel_option same_shape (body g1 x) (body g3 x)" for x
    by (rule rel_option_trans [of same_shape _ "body g2 x"]) (use assms same_shape_trans in \<open>auto simp: later_def\<close>)
  then show ?thesis using assms unfolding later_def by (auto; metis subsetD)
qed

lemma later_refl [simp]: "later g g"
proof -
  have "rel_option same_shape x x" for x :: "gbody option" by (cases x) simp_all
  then show ?thesis by (simp add: later_def)
qed

lemma trav_later: "trav g g' \<Longrightarrow> later g g'"
proof -
  assume t: "trav g g'"
  have "rel_option same_shape (body g x) (body g' x)" for x
    using spec [OF trav_shrinks [OF t], of x] by (cases "body g x"; cases "body g' x") (auto intro: shr_same_shape)
  then show ?thesis using t shrinks_refs [OF trav_shrinks [OF t]] trav_fields [OF t] by (simp add: later_def trav_def glob_def)
qed

lemma later_objects: "later g g' \<Longrightarrow> objects g' = objects g"
proof -
  assume "later g g'"
  then have "body g' x = None \<longleftrightarrow> body g x = None" for x unfolding later_def by (metis option.rel_distinct not_None_eq)
  then show ?thesis by (simp add: objects_def)
qed

subsection \<open>Userdata\<close>

definition quiet :: "gstate \<Rightarrow> gstate \<Rightarrow> bool" where
  "quiet g g' \<longleftrightarrow> shrinks g g' \<and> (\<forall>x. marked g' x = marked g x \<or> iswhite g x \<and> marked g' x = marked g x OR FINALIZEDMASK) \<and>
     g_gray g' = g_gray g \<and> g_grayagain g' = g_grayagain g \<and> g_weak g' = g_weak g \<and> glob g' = glob g"

lemma finalized_bits [simp]: "m_white (m OR FINALIZEDMASK) = m_white m" "m_black (m OR FINALIZEDMASK) = m_black m"
  "bit (m OR FINALIZEDMASK) 5 = bit m 5" "(m OR FINALIZEDMASK) AND 7 = m AND 7"
  by (simp_all add: m_white_bits m_black_bit mask_defs mark_eq_iff bit_or_iff bit_and_iff)

lemma quiet_view:
  assumes "quiet g g'"
  shows "iswhite g' x = iswhite g x" "isblack g' x = isblack g x" "isgray g' x = isgray g x" "gray_at g' x = gray_at g x" "ok g x \<Longrightarrow> ok g' x"
    "bit (marked g' x) 5 = bit (marked g x) 5" "marked g' x AND 7 = marked g x AND 7"
proof -
  have m: "marked g' x = marked g x \<or> iswhite g x \<and> marked g' x = marked g x OR FINALIZEDMASK" for x using assms by (simp add: quiet_def)
  have w: "iswhite g' x = iswhite g x" for x using m [of x] by (auto simp: iswhite_def)
  then show "iswhite g' x = iswhite g x" .
  show b: "isblack g' x = isblack g x" using m [of x] by (auto simp: isblack_def)
  show "isgray g' x = isgray g x" by (simp add: isgray_def w b)
  show "gray_at g' x = gray_at g x" by (rule gray_at_shrinks) (use assms in \<open>simp add: quiet_def\<close>)
  show "ok g x \<Longrightarrow> ok g' x" using shrinks_refs [of g g' x] assms by (auto simp: ok_def w quiet_def)
  show "bit (marked g' x) 5 = bit (marked g x) 5" "marked g' x AND 7 = marked g x AND 7" using m [of x] by auto
qed

lemma quiet_refl [simp]: "quiet g g"
  using marks_shrinks [OF marks_refl, of g] by (simp add: quiet_def)

lemma quiet_trans: "quiet g1 g2 \<Longrightarrow> quiet g2 g3 \<Longrightarrow> quiet g1 g3"
proof -
  assume a: "quiet g1 g2" "quiet g2 g3"
  have "(m OR FINALIZEDMASK) OR FINALIZEDMASK = m OR FINALIZEDMASK" for m :: mark by simp
  then have "marked g3 x = marked g1 x \<or> iswhite g1 x \<and> marked g3 x = marked g1 x OR FINALIZEDMASK" for x
    using a quiet_view(1) [OF a(1), of x] unfolding quiet_def by metis
  then show ?thesis using a shrinks_trans [of g1 g2 g3] by (simp add: quiet_def)
qed

lemma quiet_minv:
  assumes q: "quiet g g'" and i: "minv g"
  shows "minv g'" "tri g D \<Longrightarrow> tri g' D" "weak_ok g \<Longrightarrow> weak_ok g'" "later g g'"
proof -
  have sh: "shrinks g g'" and l: "g_gray g' = g_gray g" "g_grayagain g' = g_grayagain g" "g_weak g' = g_weak g" "glob g' = glob g"
    using q by (simp_all add: quiet_def)
  have gl: "gray_lists g' = gray_lists g" by (simp add: gray_lists_def l)
  have was: "\<exists>b. body g x = Some b \<and> shr b b'" if "body g' x = Some b'" for x b' using spec [OF sh, of x] that by (cases "body g x") auto
  have becomes: "\<exists>b'. body g' x = Some b' \<and> shr b b'" if "body g x = Some b" for x b using spec [OF sh, of x] that by (cases "body g' x") auto
  have "mark_lists g'" using i becomes by (fastforce simp: minv_def mark_lists_def gl l quiet_view [OF q] shr_def)
  moreover have "shades g'" unfolding shades_def
  proof (intro allI impI)
    fix x b' assume x: "body g' x = Some b'" "\<not> iswhite g' x"
    obtain b where b: "body g x = Some b" "shr b b'" using was [OF x(1)] by blast
    have s: "shades g" using i by (simp add: minv_def)
    from shadesD [OF s b(1)] x show "if gray_kind b' then (isblack g' x \<or> x \<in> set (gray_lists g')) \<and> (gc_tt b' = TTHREAD \<longrightarrow> \<not> isblack g' x) else isblack g' x = black_kind b'"
      using gray_kind_shr [OF b(2)] shr_tt [OF b(2)] by (simp add: gl quiet_view [OF q])
  qed
  ultimately show "minv g'" using i shrinks_typed [OF sh] by (simp add: minv_def wb_def quiet_view [OF q])
  show "tri g' D" if t: "tri g D"
    unfolding tri_def
  proof (intro allI impI)
    fix x assume x: "body g' x \<noteq> None" "\<not> iswhite g' x"
    then have "body g x \<noteq> None" using was by fastforce
    then show "x \<in> D \<or> x \<in> set (g_gray g') \<or> ok g' x" using t x quiet_view(1,5) [OF q, of x] l(1) by (auto simp: tri_def)
  qed
  show "weak_ok g'" if w: "weak_ok g"
    unfolding weak_ok_def
  proof
    fix x assume "x \<in> set (g_weak g')"
    then have x: "x \<in> set (g_weak g)" using l by simp
    then have "\<not> iswhite g x" using i by (auto simp: minv_def mark_lists_def gray_lists_def isgray_def)
    then have "marked g' x = marked g x" using q by (auto simp: quiet_def)
    then show "wok g' x" using wok_mono [OF _ sh] w x quiet_view(1) [OF q] by (auto simp: weak_ok_def)
  qed
  have "rel_option same_shape (body g x) (body g' x)" for x using spec [OF sh, of x] by (cases "body g x"; cases "body g' x") (auto intro: shr_same_shape)
  then show "later g g'" using shrinks_refs [OF sh] l quiet_view [OF q] by (simp add: later_def)
qed

lemma gfasttm_quiet: "gfasttm g mt e nm = (v, g') \<Longrightarrow> quiet g g' \<and> g_tmudata g' = g_tmudata g \<and> g_rootgc g' = g_rootgc g \<and> marked g' = marked g \<and>
    (\<forall>x. gc_tt (the (body g x)) \<noteq> TTABLE \<longrightarrow> body g' x = body g x)"
proof -
  assume g: "gfasttm g mt e nm = (v, g')"
  have m: "marks g g'" by (rule gfasttm_marks [OF g])
  have "marked g' = marked g" "g_gray g' = g_gray g" "\<forall>x. gc_tt (the (body g x)) \<noteq> TTABLE \<longrightarrow> body g' x = body g x"
    using g by (auto simp: gfasttm_def body_set_body split: option.splits gbody.splits if_splits prod.splits)
  then show ?thesis using marks_shrinks [OF m] marks_fields [OF m] by (simp add: quiet_def glob_def)
qed

lemma separate_loop_spec:
  "separate_loop False us g = (d, l, g') \<Longrightarrow> quiet g g' \<and> g_rootgc g' = g_rootgc g \<and>
   (\<exists>new. g_tmudata g' = g_tmudata g @ new \<and> mset us = mset l + mset new \<and> (\<forall>u \<in> set new. \<exists>mt e n. body g u = Some (BUdata mt e n)))"
proof (induction us arbitrary: g d l g')
  case (Cons u us)
  show ?case
  proof (cases "\<not> iswhite g u \<or> isfinalized g u")
    case True
    then show ?thesis using Cons by (force split: prod.splits)
  next
    case False
    obtain tm g1 where g1: "gfasttm g (udata_metatable g u) 2 (g_gc g) = (tm, g1)" by (cases "gfasttm g (udata_metatable g u) 2 (g_gc g)")
    note q1 = gfasttm_quiet [OF g1]
    let ?g2 = "markfinalized u g1" let ?g3 = "if tm = GNil then ?g2 else ?g2\<lparr>g_tmudata := g_tmudata ?g2 @ [u]\<rparr>"
    have "quiet g1 ?g2" using marks_shrinks [OF marks_refl, of g1] False quiet_view(1) [OF conjunct1 [OF q1]]
      by (auto simp: quiet_def glob_def marked_set_mark)
    then have q3: "quiet g ?g3" using quiet_trans [OF conjunct1 [OF q1], of ?g2] by (auto simp: quiet_def glob_def)
    obtain d' l' g4 where r: "separate_loop False us ?g3 = (d', l', g4)" by (cases "separate_loop False us ?g3")
    obtain new where new: "g_tmudata g4 = g_tmudata ?g3 @ new" "mset us = mset l' + mset new"
      "\<forall>u \<in> set new. \<exists>mt e n. body ?g3 u = Some (BUdata mt e n)" "quiet ?g3 g4" "g_rootgc g4 = g_rootgc ?g3" using Cons.IH [OF r] by blast
    have old: "\<exists>mt e n. body g x = Some (BUdata mt e n)" if "body ?g3 x = Some (BUdata mt e n)" for x mt e n
      using spec [of "\<lambda>x. rel_option shr (body g x) (body ?g3 x)" x] q3 that by (cases "body g x") (auto simp: quiet_def shr_def)
    have ud: "\<exists>mt e n. body g u = Some (BUdata mt e n)" if "tm \<noteq> GNil"
      using g1 that by (auto simp: gfasttm_def udata_metatable_def split: option.splits gbody.splits)
    have res: "g' = g4 \<and> l = (if tm = GNil then u # l' else l')" using Cons.prems False g1 r by (auto split: prod.splits if_splits)
    have "\<exists>new. g_tmudata g4 = g_tmudata g @ new \<and> mset (u # us) = mset (if tm = GNil then u # l' else l') + mset new \<and>
      (\<forall>u \<in> set new. \<exists>mt e n. body g u = Some (BUdata mt e n))"
      by (rule exI [of _ "if tm = GNil then new else u # new"]) (use new q1 ud old in auto)
    then show ?thesis using res quiet_trans [OF q3 new(4)] new(5) q1 by auto
  qed
qed simp

definition all_objects :: "gstate \<Rightarrow> addr multiset" where
  "all_objects g = mset (g_rootgc g) + mset (g_tmudata g)"

lemma quiet_rootgc: "quiet g g' \<Longrightarrow> quiet g (g'\<lparr>g_rootgc := r\<rparr>)"
  by (simp add: quiet_def glob_def)

lemma separateudata_spec:
  assumes r: "luaC_separateudata False g = (d, g')" and m: "g_mainthread g \<in> set (g_rootgc g)"
  shows "quiet g g'" "all_objects g' = all_objects g" "g_mainthread g \<in> set (g_rootgc g')"
    "\<exists>new. g_tmudata g' = g_tmudata g @ new \<and> (\<forall>u \<in> set new. \<exists>mt e n. body g u = Some (BUdata mt e n))"
    "set (after_link g' (Some (g_mainthread g))) \<subseteq> set (after_link g (Some (g_mainthread g)))"
proof -
  let ?p = "takeWhile (\<lambda>x. x \<noteq> g_mainthread g) (g_rootgc g)" and ?us = "after_link g (Some (g_mainthread g))"
  obtain l g1 where l: "separate_loop False ?us g = (d, l, g1)" using r by (cases "separate_loop False ?us g") (auto simp: luaC_separateudata_def)
  have g': "g' = g1\<lparr>g_rootgc := ?p @ g_mainthread g # l\<rparr>" using r l by (simp add: luaC_separateudata_def)
  from separate_loop_spec [OF l] obtain new where n: "quiet g g1" "g_tmudata g1 = g_tmudata g @ new" "mset ?us = mset l + mset new"
    "\<forall>u \<in> set new. \<exists>mt e n. body g u = Some (BUdata mt e n)" by blast
  show "quiet g g'" unfolding g' by (rule quiet_rootgc [OF n(1)])
  have "g_rootgc g = ?p @ dropWhile (\<lambda>x. x \<noteq> g_mainthread g) (g_rootgc g)" by simp
  moreover have "dropWhile (\<lambda>x. x \<noteq> g_mainthread g) (g_rootgc g) = g_mainthread g # ?us"
  proof -
    have "dropWhile (\<lambda>x. x \<noteq> g_mainthread g) (g_rootgc g) \<noteq> []" using m by (auto simp: dropWhile_eq_Nil_conv)
    then show ?thesis using hd_dropWhile [of "\<lambda>x. x \<noteq> g_mainthread g" "g_rootgc g"] by (cases "dropWhile (\<lambda>x. x \<noteq> g_mainthread g) (g_rootgc g)") (auto simp: after_link_def)
  qed
  ultimately have "mset (g_rootgc g) = mset ?p + mset (g_mainthread g # ?us)" by (metis mset_append)
  then show "all_objects g' = all_objects g" using n by (simp add: all_objects_def g')
  show "g_mainthread g \<in> set (g_rootgc g')" by (simp add: g')
  show "\<exists>new. g_tmudata g' = g_tmudata g @ new \<and> (\<forall>u \<in> set new. \<exists>mt e n. body g u = Some (BUdata mt e n))" using n by (auto simp: g')
  have p: "x \<noteq> g_mainthread g" if "x \<in> set ?p" for x using that by (auto dest: set_takeWhileD)
  have "after_link g' (Some (g_mainthread g)) = l"
    using dropWhile_append2 [of ?p "\<lambda>x. x \<noteq> g_mainthread g" "g_mainthread g # l"] p by (simp add: after_link_def g')
  moreover have "set l \<subseteq> set ?us" using n(3) by (metis set_mset_mset set_mset_union sup_ge1)
  ultimately show "set (after_link g' (Some (g_mainthread g))) \<subseteq> set (after_link g (Some (g_mainthread g)))" by simp
qed

text \<open>The current white is one of two bits, next to the bit for fixed objects.\<close>

definition cw_ok :: "gstate \<Rightarrow> bool" where
  "cw_ok g \<longleftrightarrow> g_currentwhite g = 33 \<or> g_currentwhite g = 34"

definition makewhite_mark :: "gstate \<Rightarrow> mark \<Rightarrow> mark" where
  "makewhite_mark g m = (m AND maskmarks) OR luaC_white g"

lemma makewhite_marks: "makewhite a g = set_mark a (makewhite_mark g) g"
  by (simp add: makewhite_mark_def [abs_def])

lemma makewhite_bits:
  assumes "cw_ok g"
  shows "m_white (makewhite_mark g m)" "\<not> m_black (makewhite_mark g m)" "bit (makewhite_mark g m) 5 = bit m 5"
    "makewhite_mark g m AND 7 = luaC_white g"
  using assms by (auto simp: cw_ok_def makewhite_mark_def luaC_white_def maskmarks_def mask_defs m_white_bits m_black_bit mark_eq_iff bit_or_iff bit_and_iff bit_not_iff)

lemma marktmu_step:
  assumes i: "minv g" and c: "cw_ok g" and b: "body g u = Some (BUdata mt e n)" and t: "tri g (set (g_weak g) \<union> E)" and w: "weak_ok g"
  defines "g' \<equiv> reallymarkobject u (makewhite u g)"
  shows "minv g'" "tri g' (set (g_weak g') \<union> (E - {u}))" "weak_ok g'" "trav g g'" "\<not> iswhite g' u"
proof -
  define g1 where "g1 = makewhite u g"
  have b1: "body g1 = body g" by (simp add: g1_def)
  have m1: "marked g1 u = makewhite_mark g (marked g u)" "\<And>x. x \<noteq> u \<Longrightarrow> marked g1 x = marked g x"
    using b by (simp_all add: g1_def makewhite_marks marked_set_mark del: makewhite_def)
  have w1: "iswhite g1 u" "\<not> isblack g1 u" "\<And>x. x \<noteq> u \<Longrightarrow> iswhite g1 x = iswhite g x" "\<And>x. x \<noteq> u \<Longrightarrow> isblack g1 x = isblack g x"
    using m1 makewhite_bits [OF c] by (simp_all add: iswhite_def isblack_def)
  have nl: "u \<notin> set (gray_lists g)" using i b by (auto simp: minv_def mark_lists_def gray_at_def gray_kind_def)
  have l1: "gray_lists g1 = gray_lists g" "g_weak g1 = g_weak g" "g_gray g1 = g_gray g" by (simp_all add: g1_def gray_lists_def)
  have i1: "minv g1" unfolding minv_def
  proof (intro conjI)
    show "wb g1" using i w1 unfolding minv_def wb_def by metis
    show "typed g1" using i typed_cong [OF b1] by (simp add: minv_def)
    have "isgray g1 x = isgray g x" if "x \<noteq> u" for x using w1(3,4) [OF that] by (simp add: isgray_def)
    then show "mark_lists g1" using i nl unfolding minv_def mark_lists_def gray_at_def l1 b1 by metis
    show "shades g1" unfolding shades_def
    proof (intro allI impI)
      fix x d assume x: "body g1 x = Some d" "\<not> iswhite g1 x"
      then have "x \<noteq> u" using w1(1) by auto
      then show "if gray_kind d then (isblack g1 x \<or> x \<in> set (gray_lists g1)) \<and> (gc_tt d = TTHREAD \<longrightarrow> \<not> isblack g1 x) else isblack g1 x = black_kind d"
        using shadesD [of g x d] x w1(3,4) [of x] i unfolding minv_def b1 l1 by simp
    qed
  qed
  then have wt: "wb g1" "typed g1" by (simp_all add: minv_def)
  have m: "marks g1 g'" and nu: "\<not> iswhite g' u"
    using really_mark_marks [OF wt w1(1) rank_le_3] by (simp_all add: g'_def g1_def reallymarkobject_def)
  show "\<not> iswhite g' u" by (rule nu)
  show "minv g'" by (rule marks_minv [OF m i1])
  have white: "iswhite g' x \<Longrightarrow> iswhite g x \<and> marked g' x = marked g x" for x
    using marks_white [OF m, of x] nu w1(3) [of x] m1(2) [of x] marks_trav [OF m] by (cases "x = u") (auto simp: trav_def)
  have sh: "shrinks g g'" using marks_shrinks [OF m] b1 by simp
  have "bit (marked g' x) 5 = bit (marked g x) 5" for x
    using marks_trav [OF m] m1 makewhite_bits(3) [OF c] by (cases "x = u") (simp_all add: trav_def)
  moreover have "rest_eq4 g g'"
  proof -
    have "rest_eq g g1" unfolding g1_def makewhite_marks by simp
    then have "rest_eq g g'" using m rest_eq_trans [of g g1 g'] by (simp add: marks_def)
    then show ?thesis by (rule rest_eq4_rest_eq)
  qed
  ultimately show tr: "trav g g'" using white sh by (simp add: trav_def)
  show "tri g' (set (g_weak g') \<union> (E - {u}))" unfolding tri_def
  proof (intro allI impI)
    fix x assume x: "body g' x \<noteq> None" "\<not> iswhite g' x"
    have gg: "set (g_gray g) \<subseteq> set (g_gray g')" "g_weak g' = g_weak g" using marks_gray [OF m] marks_lists [OF m] l1 by simp_all
    show "x \<in> set (g_weak g') \<union> (E - {u}) \<or> x \<in> set (g_gray g') \<or> ok g' x"
    proof (cases "iswhite g1 x")
      case True
      then have "settled g' x" using m x by (simp add: marks_def)
      then show ?thesis using settled_tri by blast
    next
      case False
      then have xu: "x \<noteq> u" "\<not> iswhite g x" using w1(1) w1(3) [of x] by (cases "x = u"; simp)+
      have "body g x \<noteq> None" using x trav_dom [OF tr] by simp
      then have "x \<in> set (g_weak g) \<union> E \<or> x \<in> set (g_gray g) \<or> ok g x" using t xu by (simp add: tri_def)
      then show ?thesis using gg xu trav_ok [OF tr] by auto
    qed
  qed
  show "weak_ok g'" unfolding weak_ok_def
  proof
    fix x assume "x \<in> set (g_weak g')"
    then have x: "x \<in> set (g_weak g)" using marks_lists [OF m] l1 by simp
    then have "isgray g x" "x \<noteq> u" using i nl by (auto simp: minv_def mark_lists_def gray_lists_def)
    then have "marked g' x = marked g x" using marks_nonwhite [OF m, of x] w1(3) m1(2) by (simp add: isgray_def)
    then show "wok g' x" using wok_mono [OF _ sh] w x white by (auto simp: weak_ok_def)
  qed
qed

lemma marktmu_fold:
  "minv g \<Longrightarrow> cw_ok g \<Longrightarrow> \<forall>u \<in> set us. \<exists>mt e n. body g u = Some (BUdata mt e n) \<Longrightarrow> tri g (set (g_weak g) \<union> (set us \<union> E)) \<Longrightarrow> weak_ok g \<Longrightarrow>
   g' = fold (\<lambda>u g. reallymarkobject u (makewhite u g)) us g \<Longrightarrow>
   minv g' \<and> tri g' (set (g_weak g') \<union> E) \<and> weak_ok g' \<and> trav g g' \<and> (\<forall>u \<in> set us. \<not> iswhite g' u)"
proof (induction us arbitrary: g)
  case (Cons u us)
  obtain mt e n where b: "body g u = Some (BUdata mt e n)" using Cons.prems(3) by auto
  note s = marktmu_step [OF Cons.prems(1,2) b Cons.prems(4,5)]
  let ?g1 = "reallymarkobject u (makewhite u g)"
  have bs: "\<exists>mt e n. body ?g1 v = Some (BUdata mt e n)" if v: "v \<in> set us" for v
  proof -
    obtain mt e n where "body g v = Some (BUdata mt e n)" using Cons.prems(3) v by auto
    then show ?thesis using spec [OF trav_shrinks [OF s(4)], of v] by (cases "body ?g1 v") (auto simp: shr_def)
  qed
  have c: "cw_ok ?g1" using Cons.prems(2) trav_fields(6) [OF s(4)] by (simp add: cw_ok_def)
  have "tri ?g1 (set (g_weak ?g1) \<union> (set us \<union> E))" by (rule tri_mono [OF s(2)]) auto
  from Cons.IH [OF s(1) c _ this s(3)] bs Cons.prems(6)
  have r: "minv g' \<and> tri g' (set (g_weak g') \<union> E) \<and> weak_ok g' \<and> trav ?g1 g' \<and> (\<forall>u \<in> set us. \<not> iswhite g' u)" by simp
  then show ?case using trav_trans [OF s(4)] trav_white [of ?g1 g' u] s(5) by auto
qed simp

subsection \<open>Weak tables\<close>

lemma iscleared_marks:
  assumes w: "wb g" and t: "typed g" and v: "valid_refs (vrefs v) g" and r: "iscleared v k g = (c, g')"
  shows "marks g g'" "\<not> c \<Longrightarrow> \<forall>x \<in> targets (vrefs v). \<not> iswhite g' x"
proof -
  have "marks g g' \<and> (\<not> c \<longrightarrow> (\<forall>x \<in> targets (vrefs v). \<not> iswhite g' x))"
  proof (cases v)
    case (GObj tt a)
    show ?thesis
    proof (cases "tt = TSTRING")
      case True
      then have "g' = stringmark_opt (Some a) g" using r GObj by (simp add: iscleared_def stringmark_opt_def)
      then show ?thesis using stringmark_targets [OF w t, of "Some a"] v GObj True by (simp add: orefs_def)
    next
      case False
      then show ?thesis using r GObj by (auto simp: iscleared_def)
    qed
  next
    case (GDead a)
    then have False using v by (auto simp: typed_at_def elim: gc_tt.elims)
    then show ?thesis ..
  qed (use r in \<open>simp_all add: iscleared_def\<close>)
  then show "marks g g'" "\<not> c \<Longrightarrow> \<forall>x \<in> targets (vrefs v). \<not> iswhite g' x" by simp_all
qed

lemma clear_array_marks:
  "wb g \<Longrightarrow> typed g \<Longrightarrow> valid_refs (\<Union>v \<in> set vs. vrefs v) g \<Longrightarrow> clear_array vs g = (vs', g') \<Longrightarrow>
   marks g g' \<and> body g' = body g \<and> g_gray g' = g_gray g \<and> (\<Union>v \<in> set vs'. vrefs v) \<subseteq> (\<Union>v \<in> set vs. vrefs v) \<and> (\<forall>x \<in> targets (\<Union>v \<in> set vs'. vrefs v). \<not> iswhite g' x)"
proof (induction vs arbitrary: vs' g')
  case (Cons v vs)
  obtain vs1 g1 where 1: "clear_array vs g = (vs1, g1)" by (cases "clear_array vs g")
  obtain c g2 where 2: "iscleared v False g1 = (c, g2)" by (cases "iscleared v False g1")
  have r: "vs' = (if c then GNil else v) # vs1" "g' = g2" using Cons.prems(4) 1 2 by auto
  have ih: "marks g g1" "body g1 = body g \<and> g_gray g1 = g_gray g" "(\<Union>v \<in> set vs1. vrefs v) \<subseteq> (\<Union>v \<in> set vs. vrefs v)" "\<forall>x \<in> targets (\<Union>v \<in> set vs1. vrefs v). \<not> iswhite g1 x"
    using Cons.IH [OF Cons.prems(1,2) _ 1] Cons.prems(3) by simp_all
  have v1: "valid_refs (vrefs v) g1" by (rule valid_refs_marks [OF _ ih(1)]) (use Cons.prems(3) in simp)
  note m = iscleared_marks [OF marks_wb [OF ih(1) Cons.prems(1)] marks_typed [OF ih(1) Cons.prems(2)] v1 2]
  have "body g2 = body g1 \<and> g_gray g2 = g_gray g1" using 2 by (auto simp: iscleared_def split: gval.splits if_splits)
  moreover have "\<forall>y \<in> set vs1. \<forall>x \<in> targets (vrefs y). \<not> iswhite g2 x" using ih(4) marks_white [OF m(1)] unfolding targets_simps by blast
  ultimately show ?case using ih(1-3) m(2) marks_trans [OF ih(1) m(1)] by (cases c) (auto simp: r)
qed simp

lemma clear_node_marks:
  assumes w: "wb g" and t: "typed g" and v: "valid_refs (nrefs n) g" and r: "clear_node n g = (n', g')"
  shows "marks g g' \<and> body g' = body g \<and> g_gray g' = g_gray g \<and> nrefs n' \<subseteq> nrefs n \<and> (\<forall>x \<in> targets (nrefs n'). \<not> iswhite g' x)"
proof (cases "snd n = GNil")
  case False
  obtain ck g1 where 1: "iscleared (fst n) True g = (ck, g1)" by (cases "iscleared (fst n) True g")
  obtain cv g2 where 2: "iscleared (snd n) False g1 = (cv, g2)" by (cases "iscleared (snd n) False g1")
  have vn: "valid_refs (vrefs (fst n)) g" "valid_refs (vrefs (snd n)) g" using v False by (simp_all add: nrefs_def)
  note m1 = iscleared_marks [OF w t vn(1) 1]
  note m2 = iscleared_marks [OF marks_wb [OF m1(1) w] marks_typed [OF m1(1) t] valid_refs_marks [OF vn(2) m1(1)] 2]
  have bd: "body g1 = body g" "body g2 = body g1" "g_gray g1 = g_gray g" "g_gray g2 = g_gray g1" using 1 2 by (auto simp: iscleared_def split: gval.splits if_splits)
  show ?thesis
  proof (cases ck)
    case True
    then show ?thesis using r 1 False m1 bd by (auto simp: clear_node_def nrefs_def)
  next
    case ck: False
    then have r2: "g' = g2" "n' = (if cv then (removeentry (fst n), GNil) else n)" using r 1 2 False by (auto simp: clear_node_def)
    have "\<forall>x \<in> targets (vrefs (fst n)). \<not> iswhite g2 x" using m1(2) [OF ck] marks_white [OF m2(1)] by blast
    then show ?thesis using r2 m2 marks_trans [OF m1(1) m2(1)] bd False by (cases cv) (auto simp: nrefs_def)
  qed
qed (use r in \<open>simp add: clear_node_def nrefs_def\<close>)

lemma clear_nodes_marks:
  "wb g \<Longrightarrow> typed g \<Longrightarrow> valid_refs (\<Union>n \<in> set ns. nrefs n) g \<Longrightarrow> clear_nodes ns g = (ns', g') \<Longrightarrow>
   marks g g' \<and> body g' = body g \<and> g_gray g' = g_gray g \<and> (\<Union>n \<in> set ns'. nrefs n) \<subseteq> (\<Union>n \<in> set ns. nrefs n) \<and> (\<forall>x \<in> targets (\<Union>n \<in> set ns'. nrefs n). \<not> iswhite g' x)"
proof (induction ns arbitrary: ns' g')
  case (Cons n ns)
  obtain ns1 g1 where 1: "clear_nodes ns g = (ns1, g1)" by (cases "clear_nodes ns g")
  obtain n2 g2 where 2: "clear_node n g1 = (n2, g2)" by (cases "clear_node n g1")
  have r: "ns' = n2 # ns1" "g' = g2" using Cons.prems(4) 1 2 by auto
  have ih: "marks g g1" "body g1 = body g \<and> g_gray g1 = g_gray g" "(\<Union>n \<in> set ns1. nrefs n) \<subseteq> (\<Union>n \<in> set ns. nrefs n)" "\<forall>x \<in> targets (\<Union>n \<in> set ns1. nrefs n). \<not> iswhite g1 x"
    using Cons.IH [OF Cons.prems(1,2) _ 1] Cons.prems(3) by simp_all
  have v1: "valid_refs (nrefs n) g1" by (rule valid_refs_marks [OF _ ih(1)]) (use Cons.prems(3) in simp)
  note m = clear_node_marks [OF marks_wb [OF ih(1) Cons.prems(1)] marks_typed [OF ih(1) Cons.prems(2)] v1 2]
  have "\<forall>y \<in> set ns1. \<forall>x \<in> targets (nrefs y). \<not> iswhite g2 x" using ih(4) marks_white [OF conjunct1 [OF m]] unfolding targets_simps by blast
  then show ?case using ih(1-3) m marks_trans [OF ih(1) conjunct1 [OF m]] by (auto simp: r)
qed simp

lemma weak_bit: "marked g a AND VALUEWEAK \<noteq> 0 \<longleftrightarrow> bit (marked g a) 4"
  by (simp add: VALUEWEAK_def mark_eq_iff bit_and_iff)

lemma later_body: "later g g' \<Longrightarrow> body g x = Some b \<Longrightarrow> \<exists>b'. body g' x = Some b' \<and> same_shape b b'"
  unfolding later_def by (cases "body g' x") (metis option.rel_distinct(2), metis option.rel_sel option.sel option.discI)

lemma later_typed: "later g g' \<Longrightarrow> typed g \<Longrightarrow> typed g'"
proof -
  assume l: "later g g'" and t: "typed g"
  have "typed_at g tt r \<Longrightarrow> typed_at g' tt r" for tt r using later_body [OF l, of r] by (auto simp: typed_at_def same_shape_def)
  then show ?thesis using t l unfolding typed_def later_def by blast
qed

lemma later_white: "later g g' \<Longrightarrow> \<not> iswhite g x \<Longrightarrow> \<not> iswhite g' x"
  by (auto simp: later_def)

lemma later_ok: "later g g' \<Longrightarrow> ok g x \<Longrightarrow> ok g' x"
proof -
  assume l: "later g g'" and o: "ok g x"
  have "refs g' x \<subseteq> refs g x" using l by (simp add: later_def)
  then show ?thesis using o later_white [OF l] unfolding ok_def by blast
qed

text \<open>Clearing tables: strings are marked, the tables lose entries and have marked references only.\<close>

definition cleared :: "addr set \<Rightarrow> gstate \<Rightarrow> gstate \<Rightarrow> bool" where
  "cleared A g g' \<longleftrightarrow> later g g' \<and> (\<forall>x. iswhite g x \<and> \<not> iswhite g' x \<or> marked g' x = marked g x) \<and>
     (\<forall>x. iswhite g x \<longrightarrow> \<not> iswhite g' x \<longrightarrow> ok g' x) \<and> (\<forall>x. x \<notin> A \<longrightarrow> body g' x = body g x) \<and> (\<forall>a \<in> A. ok g' a) \<and>
     g_gray g' = g_gray g \<and> g_rootgc g' = g_rootgc g \<and> g_tmudata g' = g_tmudata g"

lemma refs_set_table:
  assumes b: "body g a = Some (BTable h)" and x: "x \<noteq> a"
  shows "refs (set_body a (BTable h') g) x = refs g x"
proof -
  have "upval_value (set_body a (BTable h') g) = upval_value g"
  proof
    fix uv show "upval_value (set_body a (BTable h') g) uv = upval_value g uv" by (cases uv) (auto simp: body_set_body b)
  qed
  then have "brefs (set_body a (BTable h') g) c = brefs g c" for c by (cases "(g, c)" rule: brefs.cases) simp_all
  then show ?thesis using x by (simp add: refs_def body_set_body split: option.split)
qed

lemma clear_one_cleared:
  assumes w: "wb g" and t: "typed g" and gr: "g_gray g = []" and wk: "wok g a"
  shows "cleared {a} g (clear_one a g)"
proof -
  obtain h where h: "body g a = Some (BTable h)" "\<forall>r \<in> targets (srefs (bit (marked g a) 3) (bit (marked g a) 4) h). \<not> iswhite g r"
    using wk by (auto simp: wok_def)
  have v: "valid_refs (brefs g (BTable h)) g" using valid_refs_typed [OF t, of a] h by (simp add: refs_def)
  let ?wv = "bit (marked g a) 4"
  obtain arr g1 where 1: "(if ?wv then clear_array (h_array h) g else (h_array h, g)) = (arr, g1)"
    by (cases "if ?wv then clear_array (h_array h) g else (h_array h, g)")
  obtain ns g2 where 2: "clear_nodes (h_node h) g1 = (ns, g2)" by (cases "clear_nodes (h_node h) g1")
  let ?h = "h\<lparr>h_array := arr, h_node := ns\<rparr>" let ?g = "set_body a (BTable ?h) g2"
  have e: "clear_one a g = ?g" using h(1) 1 2 by (simp add: clear_one_def weak_bit)
  have m1: "marks g g1" "body g1 = body g" "g_gray g1 = g_gray g" "(\<Union>v \<in> set arr. vrefs v) \<subseteq> (\<Union>v \<in> set (h_array h). vrefs v)"
    "\<forall>x \<in> targets (\<Union>v \<in> set arr. vrefs v). \<not> iswhite g1 x"
    using clear_array_marks [OF w t, of "h_array h" arr g1] v 1 h(2) by (auto simp: srefs_def split: if_splits)
  have v1: "valid_refs (\<Union>n \<in> set (h_node h). nrefs n) g1" by (rule valid_refs_marks [OF _ m1(1)]) (use v in simp)
  note m2 = clear_nodes_marks [OF marks_wb [OF m1(1) w] marks_typed [OF m1(1) t] v1 2]
  have m: "marks g g2" using marks_trans [OF m1(1)] m2 by blast
  have b2: "body g2 = body g" "g_gray g2 = []" using m1 m2 gr by simp_all
  have wh: "iswhite ?g x = iswhite g2 x" for x by (simp add: iswhite_def)
  have bd: "body ?g x = (if x = a then Some (BTable ?h) else body g x)" for x using h(1) by (simp add: body_set_body b2)
  have r1: "\<not> iswhite g2 r" if "r \<in> targets (orefs TTABLE (h_metatable h))" for r using h(2) that marks_white [OF m] by (auto simp: srefs_def)
  have r2: "\<not> iswhite g2 r" if "r \<in> targets (\<Union>v \<in> set arr. vrefs v)" for r using m1(5) that marks_white [OF conjunct1 [OF m2]] by blast
  have "\<not> iswhite g2 r" if r: "r \<in> targets (brefs ?g (BTable ?h))" for r
  proof -
    have "targets (brefs ?g (BTable ?h)) = targets (orefs TTABLE (h_metatable h)) \<union> targets (\<Union>v \<in> set arr. vrefs v) \<union> targets (\<Union>n \<in> set ns. nrefs n)" by simp
    then show ?thesis using r r1 r2 m2 by blast
  qed
  then have oka: "ok ?g a" by (simp add: ok_targets refs_def bd wh)
  have rf: "refs ?g x \<subseteq> refs g x" for x
  proof (cases "x = a")
    case True
    then show ?thesis using m1(4) m2 h(1) by (auto simp: refs_def bd)
  next
    case False
    then show ?thesis using refs_set_table [of g2 a h x ?h] h(1) refs_cong [of g2 g] b2 by simp
  qed
  have "rel_option same_shape (body g x) (body ?g x)" for x
    using h(1) by (cases "x = a"; cases "body g x") (auto simp: bd same_shape_def)
  moreover have "glob ?g = glob g" using marks_fields [OF m] by (simp add: glob_def)
  ultimately have "later g ?g" using rf marks_trav [OF m] by (simp add: later_def wh trav_def)
  moreover have "ok ?g x" if x: "iswhite g x" "\<not> iswhite ?g x" for x
  proof (cases "x = a")
    case False
    have "settled g2 x" using m x by (simp add: marks_def wh)
    then have "ok g2 x" using settled_tri [of g2 x] b2 by auto
    then show ?thesis using refs_set_table [of g2 a h x ?h] h(1) b2 False by (simp add: ok_def wh)
  qed (use oka in simp)
  moreover have "iswhite g x \<and> \<not> iswhite ?g x \<or> marked ?g x = marked g x" for x using m unfolding marks_def wh by simp
  ultimately show ?thesis using oka b2 gr marks_fields(1,8) [OF m] unfolding e cleared_def by (simp add: bd)
qed

lemma cleared_mark: "cleared A g g' \<Longrightarrow> iswhite g x \<and> \<not> iswhite g' x \<or> marked g' x = marked g x"
  by (simp add: cleared_def)

lemma cleared_new: "cleared A g g' \<Longrightarrow> iswhite g x \<Longrightarrow> \<not> iswhite g' x \<Longrightarrow> ok g' x"
  by (simp add: cleared_def)

lemma cleared_trans:
  assumes 1: "cleared A g1 g2" and 2: "cleared B g2 g3"
  shows "cleared (A \<union> B) g1 g3"
proof -
  have l: "later g1 g2" "later g2 g3" using 1 2 by (simp_all add: cleared_def)
  have "iswhite g1 x \<and> \<not> iswhite g3 x \<or> marked g3 x = marked g1 x" for x
    using cleared_mark [OF 1, of x] cleared_mark [OF 2, of x] later_white [OF l(2), of x] by (auto simp: iswhite_def)
  moreover have "ok g3 x" if "iswhite g1 x" "\<not> iswhite g3 x" for x
    using that cleared_new [OF 1, of x] cleared_new [OF 2, of x] later_ok [OF l(2), of x] by blast
  moreover have "\<forall>a \<in> A \<union> B. ok g3 a" using 1 2 later_ok [OF l(2)] by (auto simp: cleared_def)
  ultimately show ?thesis using 1 2 later_trans [OF l] by (simp add: cleared_def)
qed

lemma cleared_wok: "cleared A g g' \<Longrightarrow> x \<notin> A \<Longrightarrow> wok g x \<Longrightarrow> \<not> iswhite g x \<Longrightarrow> wok g' x"
proof -
  assume c: "cleared A g g'" and x: "x \<notin> A" "wok g x" "\<not> iswhite g x"
  have "marked g' x = marked g x" "body g' x = body g x" using c x unfolding cleared_def by blast+
  moreover have "later g g'" using c by (simp add: cleared_def)
  ultimately show ?thesis using x(2) later_white by (fastforce simp: wok_def)
qed

lemma cleared_wb: "cleared A g g' \<Longrightarrow> wb g \<Longrightarrow> wb g'"
  unfolding cleared_def wb_def by (metis iswhite_def isblack_def)

lemma cleartable_cleared:
  "wb g \<Longrightarrow> typed g \<Longrightarrow> g_gray g = [] \<Longrightarrow> distinct l \<Longrightarrow> \<forall>a \<in> set l. wok g a \<and> \<not> iswhite g a \<Longrightarrow> cleared (set l) g (cleartable l g)"
proof (induction l arbitrary: g)
  case Nil
  then show ?case by (simp add: cleartable_def cleared_def)
next
  case (Cons a l)
  have c: "cleared {a} g (clear_one a g)" by (rule clear_one_cleared) (use Cons.prems in simp_all)
  have l: "later g (clear_one a g)" using c by (simp add: cleared_def)
  have "cleared (set l) (clear_one a g) (cleartable l (clear_one a g))"
  proof (rule Cons.IH)
    show "wb (clear_one a g)" by (rule cleared_wb [OF c Cons.prems(1)])
    show "typed (clear_one a g)" by (rule later_typed [OF l Cons.prems(2)])
    show "g_gray (clear_one a g) = []" using c Cons.prems(3) by (simp add: cleared_def)
    show "\<forall>b \<in> set l. wok (clear_one a g) b \<and> \<not> iswhite (clear_one a g) b"
    proof
      fix b assume "b \<in> set l"
      then have "b \<notin> {a}" "wok g b" "\<not> iswhite g b" using Cons.prems(4,5) by auto
      then show "wok (clear_one a g) b \<and> \<not> iswhite (clear_one a g) b" using cleared_wok [OF c] later_white [OF l] by blast
    qed
  qed (use Cons.prems in simp)
  from cleared_trans [OF c this] show ?case by (simp add: cleartable_def)
qed

lemma isblack_iscleared: "isblack (snd (iscleared v k g)) x = isblack g x"
  by (cases v) (auto simp: iscleared_def isblack_def marked_set_mark)

lemma isblack_clear_array: "isblack (snd (clear_array vs g)) x = isblack g x"
proof (induction vs)
  case (Cons v vs)
  obtain vs' g1 where 1: "clear_array vs g = (vs', g1)" by (cases "clear_array vs g")
  then show ?case using Cons isblack_iscleared [of v False g1 x] by (auto split: prod.split)
qed simp

lemma isblack_clear_node: "isblack (snd (clear_node n g)) x = isblack g x"
proof -
  obtain c g1 where 1: "iscleared (fst n) True g = (c, g1)" by (cases "iscleared (fst n) True g")
  then show ?thesis using isblack_iscleared [of "fst n" True g x] isblack_iscleared [of "snd n" False g1 x]
    by (auto simp: clear_node_def split: prod.split)
qed

lemma isblack_clear_nodes: "isblack (snd (clear_nodes ns g)) x = isblack g x"
proof (induction ns)
  case (Cons n ns)
  obtain ns' g1 where 1: "clear_nodes ns g = (ns', g1)" by (cases "clear_nodes ns g")
  then show ?case using Cons isblack_clear_node [of n g1 x] by (auto split: prod.split)
qed simp

lemma isblack_clear_one: "isblack (clear_one a g) x = isblack g x"
proof -
  have "isblack (let (arr, g1) = (if c then clear_array vs g else (vs, g)); (ns, g2) = clear_nodes ns0 g1 in set_body a (F arr ns) g2) x = isblack g x"
    for c vs ns0 F
    using isblack_clear_array [of vs g x] isblack_clear_nodes [of ns0 "snd (clear_array vs g)" x] isblack_clear_nodes [of ns0 g x]
    by (auto simp: isblack_def split: prod.split)
  then show ?thesis by (simp add: clear_one_def split: option.split gbody.split)
qed

lemma isblack_cleartable: "isblack (cleartable l g) x = isblack g x"
  unfolding cleartable_def by (induction l arbitrary: g) (simp_all add: isblack_clear_one)

text \<open>Clearing marks strings, but only those in a weak table.\<close>

lemma iscleared_inside: "inside M g \<Longrightarrow> targets (vrefs v) \<subseteq> M \<Longrightarrow> inside M (snd (iscleared v k g))"
  using inside_set_mark [of M g] by (auto simp: iscleared_def stringmark_def targets_def split: gval.split)

lemma clear_array_inside:
  "inside M g \<Longrightarrow> \<forall>v \<in> set vs. targets (vrefs v) \<subseteq> M \<Longrightarrow> inside M (snd (clear_array vs g)) \<and> (\<Union>v \<in> set (fst (clear_array vs g)). vrefs v) \<subseteq> (\<Union>v \<in> set vs. vrefs v)"
proof (induction vs)
  case (Cons v vs)
  obtain vs' g1 where 1: "clear_array vs g = (vs', g1)" by (cases "clear_array vs g")
  obtain c g2 where 2: "iscleared v False g1 = (c, g2)" by (cases "iscleared v False g1")
  have "inside M g1" "(\<Union>v \<in> set vs'. vrefs v) \<subseteq> (\<Union>v \<in> set vs. vrefs v)" using Cons 1 by simp_all
  then show ?case using iscleared_inside [of M g1 v False] Cons.prems(2) 1 2 by auto
qed simp

lemma clear_node_inside:
  assumes i: "inside M g" and t: "targets (nrefs n) \<subseteq> M"
  shows "inside M (snd (clear_node n g)) \<and> nrefs (fst (clear_node n g)) \<subseteq> nrefs n"
proof (cases "snd n = GNil")
  case False
  then have v: "targets (vrefs (fst n)) \<subseteq> M" "targets (vrefs (snd n)) \<subseteq> M" using t by (simp_all add: nrefs_def)
  obtain ck g1 where 1: "iscleared (fst n) True g = (ck, g1)" by (cases "iscleared (fst n) True g")
  obtain cv g2 where 2: "iscleared (snd n) False g1 = (cv, g2)" by (cases "iscleared (snd n) False g1")
  have "inside M g1" using iscleared_inside [OF i v(1), of True] 1 by simp
  then have "inside M g1" "inside M g2" using iscleared_inside [OF _ v(2), of g1 False] 2 by simp_all
  then show ?thesis using False 1 2 by (simp add: clear_node_def nrefs_def)
qed (simp add: clear_node_def i)

lemma clear_nodes_inside:
  "inside M g \<Longrightarrow> \<forall>n \<in> set ns. targets (nrefs n) \<subseteq> M \<Longrightarrow> inside M (snd (clear_nodes ns g)) \<and> (\<Union>n \<in> set (fst (clear_nodes ns g)). nrefs n) \<subseteq> (\<Union>n \<in> set ns. nrefs n)"
proof (induction ns)
  case (Cons n ns)
  obtain ns' g1 where 1: "clear_nodes ns g = (ns', g1)" by (cases "clear_nodes ns g")
  have "inside M g1" "(\<Union>n \<in> set ns'. nrefs n) \<subseteq> (\<Union>n \<in> set ns. nrefs n)" using Cons 1 by simp_all
  then show ?case using clear_node_inside [of M g1 n] Cons.prems(2) 1 by (auto split: prod.split)
qed simp

lemma body_iscleared: "body (snd (iscleared v k g)) = body g"
  by (simp add: iscleared_def stringmark_def split: gval.split)

lemma body_clear_array: "body (snd (clear_array vs g)) = body g"
proof (induction vs)
  case (Cons v vs)
  then show ?case using body_iscleared [of v False "snd (clear_array vs g)"] by (cases "clear_array vs g") (auto split: prod.split)
qed simp

lemma body_clear_nodes: "body (snd (clear_nodes ns g)) = body g"
proof (induction ns)
  case (Cons n ns)
  have "body (snd (clear_node n k)) = body k" for k
    using body_iscleared [of "fst n" True k] body_iscleared [of "snd n" False "snd (iscleared (fst n) True k)"]
    by (cases "iscleared (fst n) True k") (auto simp: clear_node_def split: prod.split)
  from this [of "snd (clear_nodes ns g)"] show ?case using Cons by (cases "clear_nodes ns g"; cases "clear_node n (snd (clear_nodes ns g))") simp
qed simp

lemma inside_table:
  assumes i: "inside M g" and b: "body g a = Some (BTable h)" and t: "targets (brefs g (BTable h')) \<subseteq> M"
  shows "inside M (set_body a (BTable h') g)"
proof -
  have r: "refs (set_body a (BTable h') g) x = (if x = a then brefs g (BTable h') else refs g x)" for x
    using refs_set_table [OF b, of x h'] b by (simp add: refs_def body_set_body)
  show ?thesis using i t b unfolding inside_def r by (auto simp: body_set_body iswhite_def gray_lists_def)
qed

lemma clear_one_inside:
  assumes i: "inside M g" and a: "a \<in> M"
  shows "inside M (clear_one a g)"
proof (cases "\<exists>h. body g a = Some (BTable h)")
  case True
  then obtain h where h: "body g a = Some (BTable h)" by blast
  have t: "targets (brefs g (BTable h)) \<subseteq> M" by (rule inside_closed [OF i a h])
  obtain arr g1 where 1: "(if marked g a AND VALUEWEAK \<noteq> 0 then clear_array (h_array h) g else (h_array h, g)) = (arr, g1)"
    by (cases "if marked g a AND VALUEWEAK \<noteq> 0 then clear_array (h_array h) g else (h_array h, g)")
  obtain ns g2 where 2: "clear_nodes (h_node h) g1 = (ns, g2)" by (cases "clear_nodes (h_node h) g1")
  have 3: "inside M g1 \<and> (\<Union>v \<in> set arr. vrefs v) \<subseteq> (\<Union>v \<in> set (h_array h). vrefs v)"
    using clear_array_inside [OF i, of "h_array h"] t i 1 by (auto simp: UN_subset_iff split: if_splits)
  have 4: "inside M g2 \<and> (\<Union>n \<in> set ns. nrefs n) \<subseteq> (\<Union>n \<in> set (h_node h). nrefs n)"
    using clear_nodes_inside [of M g1 "h_node h"] t 3 2 by (simp add: UN_subset_iff)
  let ?h' = "h\<lparr>h_array := arr, h_node := ns\<rparr>"
  have e: "clear_one a g = set_body a (BTable ?h') g2" using h 1 2 by (simp add: clear_one_def)
  show ?thesis unfolding e
  proof (rule inside_table)
    show "inside M g2" using 4 by simp
    have "brefs g2 (BTable ?h') \<subseteq> brefs g (BTable h)" using 3 4 by auto
    then show "targets (brefs g2 (BTable ?h')) \<subseteq> M" by (rule targets_sub [OF t])
    have "body g1 = body g" "body g2 = body g1"
      using body_clear_array [of "h_array h" g] body_clear_nodes [of "h_node h" g1] 1 2 by (auto split: if_splits)
    then show "body g2 a = Some (BTable h)" using h by simp
  qed
qed (use i in \<open>auto simp: clear_one_def split: option.split gbody.split\<close>)

lemma cleartable_inside: "inside M g \<Longrightarrow> set l \<subseteq> M \<Longrightarrow> inside M (cleartable l g)"
  unfolding cleartable_def by (rule inside_fold) (auto intro: clear_one_inside)

subsection \<open>atomic\<close>

text \<open>Before the flip of the current white: what is marked refers to marked objects only, and so do the roots.\<close>

definition atomic_done :: "gstate \<Rightarrow> gstate \<Rightarrow> bool" where
  "atomic_done g g' \<longleftrightarrow> later g g' \<and> typed g' \<and> (\<forall>x. body g' x \<noteq> None \<longrightarrow> \<not> iswhite g' x \<longrightarrow> ok g' x) \<and>
     all_objects g' = all_objects g \<and> g_mainthread g \<in> set (g_rootgc g') \<and>
     (\<forall>u \<in> set (g_tmudata g'). isblack g' u \<and> \<not> iswhite g' u \<and> (\<exists>mt e n. body g' u = Some (BUdata mt e n))) \<and>
     set (after_link g' (Some (g_mainthread g))) \<subseteq> set (after_link g (Some (g_mainthread g))) \<and>
     (\<forall>u b. body g' u = Some b \<longrightarrow> is_open b \<longrightarrow> \<not> isblack g' u) \<and> \<not> iswhite g' (g_L g) \<and> (\<forall>r \<in> targets (\<Union>p \<in> set (g_mt g). orefs TTABLE p). \<not> iswhite g' r)"

definition flip :: "gstate \<Rightarrow> 64 word \<Rightarrow> gstate" where
  "flip g e = g\<lparr>g_currentwhite := otherwhite g, g_sweepstrgc := 0, g_sweepgc := None, g_gcstate := GCSsweepstring, g_estimate := e\<rparr>"

lemma udata_later: "later g g' \<Longrightarrow> body g u = Some (BUdata mt e n) \<Longrightarrow> body g' u = Some (BUdata mt e n)"
  using later_body [of g g' u "BUdata mt e n"] by (auto simp: same_shape_def)

lemma atomic_spec:
  assumes i: "minv g" and fin: "finite (objects g)" and gr: "g_gray g = []"
    and t: "tri g (set (g_grayagain g) \<union> set (g_weak g) \<union> {u. \<exists>b. body g u = Some b \<and> is_open b} \<union> set (g_tmudata g))"
    and uv: "\<And>u b. body g u = Some b \<Longrightarrow> is_open b \<Longrightarrow> u \<in> set (g_uvhead g)" and c: "cw_ok g"
    and ud: "\<forall>u \<in> set (g_tmudata g). \<exists>mt e n. body g u = Some (BUdata mt e n)" and main: "g_mainthread g \<in> set (g_rootgc g)"
  obtains g' e where "atomic g = flip g' e" "atomic_done g g'"
    "\<And>M. inside M g \<Longrightarrow> g_L g \<in> M \<Longrightarrow> targets (\<Union>p \<in> set (g_mt g). orefs TTABLE p) \<subseteq> M \<Longrightarrow> set (g_tmudata g') \<subseteq> M \<Longrightarrow> inside M g'"
proof -
  let ?g3 = "atomic_mark g"
  from atomic_mark_spec [OF i fin gr t uv]
  have 3: "minv ?g3" "g_gray ?g3 = []" "tri ?g3 (set (g_weak ?g3) \<union> set (g_tmudata g))" "trav g ?g3" "weak_ok ?g3" "\<not> iswhite ?g3 (g_L g)"
    "\<forall>r \<in> targets (\<Union>p \<in> set (g_mt g). orefs TTABLE p). \<not> iswhite ?g3 r"
    "\<forall>M. inside M g \<longrightarrow> g_L g \<in> M \<longrightarrow> targets (\<Union>p \<in> set (g_mt g). orefs TTABLE p) \<subseteq> M \<longrightarrow> inside M ?g3" by (simp_all add: propagated_def)
  obtain d g4 where 4: "luaC_separateudata False ?g3 = (d, g4)" by (cases "luaC_separateudata False ?g3")
  have main3: "g_mainthread ?g3 \<in> set (g_rootgc ?g3)" using main trav_fields(1,8) [OF 3(4)] by simp
  note sp = separateudata_spec [OF 4 main3]
  note q = quiet_minv [OF sp(1) 3(1)]
  obtain new where new: "g_tmudata g4 = g_tmudata g @ new" "\<forall>u \<in> set new. \<exists>mt e n. body ?g3 u = Some (BUdata mt e n)"
    using sp(4) trav_fields(4) [OF 3(4)] by auto
  have l34: "later g ?g3" "later ?g3 g4" using trav_later [OF 3(4)] q(4) by simp_all
  have l4: "later g g4" by (rule later_trans [OF l34])
  have ud4: "\<forall>u \<in> set (g_tmudata g4). \<exists>mt e n. body g4 u = Some (BUdata mt e n)"
    using new ud udata_later [OF l4] udata_later [OF l34(2)] by fastforce
  have t4: "tri g4 (set (g_weak g4) \<union> (set (g_tmudata g4) \<union> {}))"
    by (rule tri_mono [OF q(2) [OF 3(3)]]) (use sp(1) new in \<open>auto simp: quiet_def\<close>)
  have c4: "cw_ok g4" using c l4 by (simp add: cw_ok_def later_def glob_def)
  have gr4: "g_gray g4 = []" using sp(1) 3(2) by (simp add: quiet_def)
  let ?m = "marktmu g4"
  have m: "minv ?m" "tri ?m (set (g_weak ?m) \<union> {})" "weak_ok ?m" "trav g4 ?m" "\<forall>u \<in> set (g_tmudata g4). \<not> iswhite ?m u"
    using marktmu_fold [OF q(1) c4 ud4 t4 q(3) [OF 3(5)]] by (simp_all add: marktmu_def)
  have lm: "later g ?m" by (rule later_trans [OF l4 trav_later [OF m(4)]])
  have fm: "finite (objects ?m)" using fin later_objects [OF lm] by simp
  obtain k g5 where 5: "propagateall ?m = (k, g5)" by (cases "propagateall ?m")
  note p = propagateall_propagated [OF fm m(1,2)]
  have g5: "minv g5" "g_gray g5 = []" "tri g5 (set (g_weak g5))" "trav ?m g5" "weak_ok g5" using p(1) p(3) [OF m(3)] 5 by (simp_all add: propagated_def)
  have l5: "later g g5" by (rule later_trans [OF lm trav_later [OF g5(4)]])
  let ?g6 = "cleartable (g_weak g5) g5"
  have "distinct (g_weak g5)" "\<forall>a \<in> set (g_weak g5). wok g5 a \<and> \<not> iswhite g5 a"
    using g5(1,5) by (auto simp: minv_def mark_lists_def gray_lists_def weak_ok_def isgray_def)
  then have c6: "cleared (set (g_weak g5)) g5 ?g6" using cleartable_cleared [of g5] g5(1,2) by (simp add: minv_def)
  then have l56: "later g5 ?g6" by (simp add: cleared_def)
  have l6: "later g ?g6" by (rule later_trans [OF l5 l56])
  have lists: "g_rootgc ?g6 = g_rootgc g4" "g_tmudata ?g6 = g_tmudata g4"
    using c6 trav_fields(1,4) [OF g5(4)] trav_fields(1,4) [OF m(4)] by (simp_all add: cleared_def)
  have l46: "later g4 ?g6" by (rule later_trans [OF later_trans [OF trav_later [OF m(4)] trav_later [OF g5(4)]] l56])
  have l36: "later ?g3 ?g6" by (rule later_trans [OF l34(2) l46])
  have okk: "ok ?g6 x" if x: "body ?g6 x \<noteq> None" "\<not> iswhite ?g6 x" for x
  proof (cases "iswhite g5 x")
    case True
    then show ?thesis using cleared_new [OF c6] x by blast
  next
    case False
    have "body g5 x \<noteq> None" using later_objects [OF l56] x by (auto simp: objects_def)
    then have "x \<in> set (g_weak g5) \<or> ok g5 x" using g5(2,3) False by (auto simp: tri_def)
    then show ?thesis using c6 later_ok [OF l56] by (auto simp: cleared_def)
  qed
  have "typed ?g6" using later_typed [OF l6] i by (simp add: minv_def)
  moreover have "isblack ?g6 u \<and> \<not> iswhite ?g6 u \<and> (\<exists>mt e n. body ?g6 u = Some (BUdata mt e n))" if u: "u \<in> set (g_tmudata g4)" for u
  proof -
    obtain mt e n where b: "body g4 u = Some (BUdata mt e n)" using ud4 u by blast
    have w: "\<not> iswhite g5 u" using m(5) u trav_white [OF g5(4)] by blast
    have "body g5 u = Some (BUdata mt e n)"
      using udata_later [OF later_trans [OF trav_later [OF m(4)] trav_later [OF g5(4)]] b] .
    then have "isblack g5 u" using g5(1) shadesD [of g5 u "BUdata mt e n"] w by (simp add: minv_def gray_kind_def black_kind_def)
    then have "isblack ?g6 u" using cleared_mark [OF c6, of u] w by (simp add: isblack_def)
    then show ?thesis using udata_later [OF l46 b] later_white [OF l56 w] by blast
  qed
  moreover have "\<not> isblack ?g6 u" if u: "body ?g6 u = Some b" "is_open b" for u b
  proof -
    have "gc_tt b = TUPVAL" using u(2) by (auto simp: is_open_def split: gbody.splits)
    then have "u \<notin> set (g_weak g5)" using u(1) l56 g5(1) later_body [OF l56, of u] by (fastforce simp: minv_def mark_lists_def same_shape_def)
    then have "body g5 u = Some b" using c6 u(1) by (simp add: cleared_def)
    moreover have "\<not> gray_kind b \<and> \<not> black_kind b" by (rule is_open_kind [OF u(2)])
    ultimately have "\<not> isblack g5 u" using g5(1) shadesD [of g5 u b] by (cases "iswhite g5 u") (auto simp: minv_def wb_def)
    then show ?thesis by (simp add: isblack_cleartable)
  qed
  moreover have "set (after_link ?g6 (Some (g_mainthread g))) \<subseteq> set (after_link g (Some (g_mainthread g)))"
    using sp(5) lists(1) trav_fields(1,8) [OF 3(4)] by (simp add: after_link_def)
  moreover have "all_objects ?g6 = all_objects g"
    using lists sp(2) trav_fields(1,4) [OF 3(4)] by (simp add: all_objects_def)
  moreover have "g_mainthread g \<in> set (g_rootgc ?g6)" using lists sp(3) trav_fields(8) [OF 3(4)] by simp
  moreover have "\<not> iswhite ?g6 x" if "\<not> iswhite ?g3 x" for x by (rule later_white [OF l36 that])
  ultimately have "atomic_done g ?g6" using l6 okk 3(6,7) lists by (simp add: atomic_done_def)
  moreover have "atomic g = flip ?g6 (g_totalbytes ?g6 - of_nat (d + k))"
  proof -
    have "?g3 = snd (propagateall ((\<lambda>g2. g2\<lparr>g_gray := g_grayagain g2, g_grayagain := []\<rparr>) (snd (propagateall (markmt (markobject (g_L (snd (propagateall (remarkupvals g))))
      ((snd (propagateall (remarkupvals g)))\<lparr>g_gray := g_weak (snd (propagateall (remarkupvals g))), g_weak := []\<rparr>)))))))" by (simp add: atomic_mark_def Let_def)
    then show ?thesis using 4 5 by (simp add: atomic_def Let_def flip_def)
  qed
  moreover have "inside M ?g6" if M: "inside M g" "g_L g \<in> M" "targets (\<Union>p \<in> set (g_mt g). orefs TTABLE p) \<subseteq> M" "set (g_tmudata ?g6) \<subseteq> M" for M
  proof -
    have "inside M ?g3" using 3(8) M by blast
    then have "inside M ?m" by (intro marktmu_inside separateudata_inside [OF _ 4]) (use M(4) lists in simp_all)
    then have i5: "inside M g5" using p(4) 5 by simp
    moreover from this have "set (g_weak g5) \<subseteq> M" by (simp add: inside_def gray_lists_def)
    ultimately show ?thesis by (rule cleartable_inside)
  qed
  ultimately show ?thesis using that by blast
qed

end
