(* ===== verification/Lua_Gc_Inv.thy ===== *)
theory Lua_Gc_Inv
  imports Lua_Gc_Clear
begin

text \<open>The invariant of the heap over all phases of a collection, and that the steps of the mark phase keep it.\<close>

subsection \<open>The invariant\<close>

definition live :: "gstate \<Rightarrow> nat \<Rightarrow> addr \<Rightarrow> bool" where
  "live g tt r \<longleftrightarrow> typed_at g tt r \<and> \<not> isdead g r"

definition refs_live :: "gstate \<Rightarrow> (nat \<times> addr) set \<Rightarrow> bool" where
  "refs_live g R \<longleftrightarrow> (\<forall>(tt, r) \<in> R. live g tt r)"

definition sound :: "gstate \<Rightarrow> bool" where
  "sound g \<longleftrightarrow> (\<forall>a. \<not> isdead g a \<longrightarrow> refs_live g (refs g a))"

definition mt_refs :: "gstate \<Rightarrow> (nat \<times> addr) set" where
  "mt_refs g = (\<Union>p \<in> set (g_mt g). orefs TTABLE p)"

definition roots :: "gstate \<Rightarrow> (nat \<times> addr) set" where
  "roots g = {(TTHREAD, g_mainthread g), (TTHREAD, g_L g)} \<union> vrefs (g_registry g) \<union> mt_refs g \<union> Pair TUSERDATA ` set (g_tmudata g)"

inductive reach :: "gstate \<Rightarrow> nat \<times> addr \<Rightarrow> bool" for g where
  reach_root: "x \<in> roots g \<Longrightarrow> reach g x"
| reach_ref: "reach g (tt, a) \<Longrightarrow> x \<in> refs g a \<Longrightarrow> reach g x"

text \<open>Every object is in exactly one of the lists of the collector, which one depends on its kind.\<close>

definition open_upvals :: "gstate \<Rightarrow> addr \<Rightarrow> addr list" where
  "open_upvals g t = (case body g t of Some (BThread th) \<Rightarrow> th_openupval th | _ \<Rightarrow> [])"

definition open_at :: "gstate \<Rightarrow> addr \<Rightarrow> addr set" where
  "open_at g t = {u. \<exists>i. body g u = Some (BUpval (UOpen t i))}"

definition listed_at :: "gstate \<Rightarrow> addr \<Rightarrow> bool" where
  "listed_at g a \<longleftrightarrow> (\<exists>b. body g a = Some b \<and> gc_tt b \<noteq> TSTRING \<and> \<not> is_open b)"

definition struct :: "gstate \<Rightarrow> bool" where
  "struct g \<longleftrightarrow> finite (objects g) \<and> g_strt g \<noteq> [] \<and> distinct (concat (g_strt g)) \<and> set (concat (g_strt g)) = {a. typed_at g TSTRING a} \<and>
     distinct (g_rootgc g @ g_tmudata g) \<and> set (g_rootgc g @ g_tmudata g) = {a. listed_at g a} \<and>
     distinct (g_uvhead g) \<and> set (g_uvhead g) = (\<Union>t. open_at g t) \<and> (\<forall>t. distinct (open_upvals g t) \<and> set (open_upvals g t) = open_at g t) \<and>
     g_mainthread g \<in> set (g_rootgc g) \<and> (\<forall>u \<in> set (g_tmudata g). typed_at g TUSERDATA u) \<and>
     (\<forall>u \<in> set (after_link g (Some (g_mainthread g))). typed_at g TUSERDATA u) \<and>
     (\<forall>a. bit (marked g a) 5 \<longrightarrow> a = g_mainthread g \<or> typed_at g TSTRING a)"

definition colours :: "gstate \<Rightarrow> bool" where
  "colours g \<longleftrightarrow> (\<forall>a. marked g a AND 3 \<noteq> 3) \<and> wb g"

definition opens :: "gstate \<Rightarrow> addr set" where
  "opens g = {u. \<exists>b. body g u = Some b \<and> is_open b}"

text \<open>Outside the mark phase an object has the current white unless the sweep is still to come to it or it waits for its finalizer.\<close>

definition current :: "gstate \<Rightarrow> addr \<Rightarrow> bool" where
  "current g a \<longleftrightarrow> marked g a AND 7 = luaC_white g"

definition pending_at :: "addr option \<Rightarrow> gstate \<Rightarrow> addr set" where
  "pending_at link g = (case g_gcstate g of
     GCSsweepstring \<Rightarrow> {a. body g a \<noteq> None \<and> \<not> typed_at g TSTRING a} \<union> set (concat (drop (g_sweepstrgc g) (g_strt g)))
   | GCSsweep \<Rightarrow> set (after_link g link) \<union> (\<Union>t \<in> set (after_link g link). open_at g t)
   | _ \<Rightarrow> {})"

definition swept_at :: "addr option \<Rightarrow> gstate \<Rightarrow> bool" where
  "swept_at link g \<longleftrightarrow> (\<forall>a. body g a \<noteq> None \<longrightarrow> a \<in> pending_at link g \<or> a \<in> set (g_tmudata g) \<or> current g a) \<and>
     (\<forall>u \<in> set (g_tmudata g). iswhite g u \<or> isblack g u) \<and> (\<forall>u \<in> opens g. \<not> isblack g u) \<and>
     (g_gcstate g = GCSsweep \<longrightarrow> (\<forall>p. link = Some p \<longrightarrow> p \<in> set (g_rootgc g))) \<and>
     (g_gcstate g = GCSsweepstring \<longrightarrow> link = None \<and> g_sweepstrgc g < length (g_strt g))"

abbreviation pending :: "gstate \<Rightarrow> addr set" where "pending g \<equiv> pending_at (g_sweepgc g) g"
abbreviation swept :: "gstate \<Rightarrow> bool" where "swept g \<equiv> swept_at (g_sweepgc g) g"

definition excused :: "gstate \<Rightarrow> addr set" where
  "excused g = set (g_grayagain g) \<union> set (g_weak g) \<union> opens g \<union> set (g_tmudata g)"

definition marking :: "addr set \<Rightarrow> gstate \<Rightarrow> bool" where
  "marking E g \<longleftrightarrow> minv g \<and> tri g (excused g \<union> E) \<and> (\<forall>a. \<not> isdead g a) \<and> \<not> iswhite g (g_mainthread g) \<and>
     (\<forall>r \<in> targets (vrefs (g_registry g)). \<not> iswhite g r)"

definition heap_ok :: "gstate \<Rightarrow> bool" where
  "heap_ok g \<longleftrightarrow> cw_ok g \<and> colours g \<and> struct g \<and> sound g \<and> refs_live g (roots g)"

definition inv_except :: "addr set \<Rightarrow> gstate \<Rightarrow> bool" where
  "inv_except E g \<longleftrightarrow> heap_ok g \<and> (if g_gcstate g = GCSpropagate then marking E g else swept g)"

text \<open>Inside \<open>sweeplist\<close> the link is a variable of its own.\<close>

definition inv_at :: "addr option \<Rightarrow> gstate \<Rightarrow> bool" where
  "inv_at link g \<longleftrightarrow> heap_ok g \<and> (if g_gcstate g = GCSpropagate then marking {} g else swept_at link g)"

definition gc_inv :: "gstate \<Rightarrow> bool" where
  "gc_inv g \<longleftrightarrow> inv_except {} g"

lemma refs_liveI: "(\<And>tt r. (tt, r) \<in> R \<Longrightarrow> live g tt r) \<Longrightarrow> refs_live g R"
  by (auto simp: refs_live_def)

lemma refs_liveD: "refs_live g R \<Longrightarrow> (tt, r) \<in> R \<Longrightarrow> live g tt r"
  by (auto simp: refs_live_def)

lemma gc_inv_at: "gc_inv g = inv_at (g_sweepgc g) g"
  by (simp add: gc_inv_def inv_except_def inv_at_def)

text \<open>What can be reached from the roots is an object of the expected type that no sweep will free.\<close>

lemma reach_live: "gc_inv g \<Longrightarrow> reach g (tt, a) \<Longrightarrow> live g tt a"
proof -
  assume i: "gc_inv g"
  have "reach g x \<Longrightarrow> live g (fst x) (snd x)" for x
  proof (induction rule: reach.induct)
    case (reach_root x)
    then show ?case using i refs_liveD [of g "roots g" "fst x" "snd x"] by (simp add: gc_inv_def inv_except_def heap_ok_def)
  next
    case (reach_ref tt a x)
    then have "\<not> isdead g a" by (simp add: live_def)
    then have "refs_live g (refs g a)" using i by (simp add: gc_inv_def inv_except_def heap_ok_def sound_def)
    then show ?case using refs_liveD [of g "refs g a" "fst x" "snd x"] reach_ref.hyps(2) by simp
  qed
  then show "reach g (tt, a) \<Longrightarrow> live g tt a" by force
qed

lemma refs_live_mono: "refs_live g R \<Longrightarrow> R' \<subseteq> R \<Longrightarrow> refs_live g R'"
  by (auto simp: refs_live_def)

lemma reach_refs_live: "gc_inv g \<Longrightarrow> (\<And>x. x \<in> R \<Longrightarrow> reach g x) \<Longrightarrow> refs_live g R"
  by (rule refs_liveI) (blast intro: reach_live)

subsection \<open>Dead objects\<close>

lemma isdead_white: "isdead g a \<Longrightarrow> iswhite g a"
proof -
  have "m AND n AND WHITEBITS \<noteq> 0 \<Longrightarrow> m AND WHITEBITS \<noteq> 0" for m n :: mark
    by (auto simp: mark_eq_iff bit_and_iff)
  then show "isdead g a \<Longrightarrow> iswhite g a" by (simp add: isdead_def iswhite_def m_white_def)
qed

lemma isdead_and7: "isdead g a \<longleftrightarrow> (marked g a AND 7) AND otherwhite g AND WHITEBITS \<noteq> 0"
  by (simp add: isdead_def WHITEBITS_def mark_eq_iff bit_and_iff)

lemma current_alive: "cw_ok g \<Longrightarrow> current g a \<Longrightarrow> \<not> isdead g a"
  by (auto simp: isdead_and7 current_def cw_ok_def luaC_white_def otherwhite_def WHITEBITS_def)

lemma and3_and7: "(m :: mark) AND 3 = (m AND 7) AND 3"
  by (simp add: mark_eq_iff bit_and_iff)

lemma white_alive_current: "cw_ok g \<Longrightarrow> colours g \<Longrightarrow> iswhite g a \<Longrightarrow> \<not> isdead g a \<Longrightarrow> current g a"
proof -
  assume c: "cw_ok g" "colours g" and a: "iswhite g a" "\<not> isdead g a"
  let ?m = "marked g a"
  have "\<not> bit ?m 2" "bit ?m 0 \<or> bit ?m (Suc 0)" "\<not> (bit ?m 0 \<and> bit ?m (Suc 0))"
    using c(2) a(1) by (auto simp: colours_def wb_def isblack_def iswhite_def m_black_bit m_white_bits mark_eq_iff bit_and_iff)
  then show ?thesis using a(2) c(1)
    by (auto simp: isdead_def current_def cw_ok_def luaC_white_def otherwhite_def WHITEBITS_def mark_eq_iff bit_and_iff bit_xor_iff)
qed

lemma current_white: "cw_ok g \<Longrightarrow> current g a \<Longrightarrow> iswhite g a \<and> \<not> isblack g a"
proof -
  assume c: "cw_ok g" "current g a"
  have "bit (marked g a) n = bit (luaC_white g) n" if "n < 3" for n
  proof -
    have "bit (marked g a AND 7) n = bit (luaC_white g) n" using c(2) by (simp add: current_def)
    moreover have "n = 0 \<or> n = Suc 0 \<or> n = 2" using that by auto
    ultimately show ?thesis by (auto simp: bit_and_iff)
  qed
  from this [of 0] this [of "Suc 0"] this [of 2] show ?thesis using c(1)
    by (auto simp: iswhite_def isblack_def m_white_bits m_black_bit cw_ok_def luaC_white_def WHITEBITS_def)
qed

subsection \<open>Later states\<close>

lemma later_same: "later g g' \<Longrightarrow> body g a = Some b \<Longrightarrow> gc_tt b \<noteq> TTABLE \<Longrightarrow> gc_tt b \<noteq> TTHREAD \<Longrightarrow> body g' a = Some b"
  using later_body [of g g' a b] by (auto simp: same_shape_def)

lemma later_none: "later g g' \<Longrightarrow> body g a = None \<Longrightarrow> body g' a = None"
  using later_objects [of g g'] unfolding objects_def by blast

lemma same_shape_kind: "same_shape b b' \<Longrightarrow> gc_tt b' = gc_tt b \<and> is_open b' = is_open b"
  by (cases b; cases b') (auto simp: same_shape_def is_open_def)

lemma later_back: "later g g' \<Longrightarrow> body g' a = Some b' \<Longrightarrow> \<exists>b. body g a = Some b \<and> same_shape b b'"
  using later_none [of g g' a] later_body [of g g' a] by (cases "body g a") auto

lemma later_upval: "later g g' \<Longrightarrow> body g' u = Some (BUpval uv) \<longleftrightarrow> body g u = Some (BUpval uv)"
  using later_same [of g g' u "BUpval uv"] later_back [of g g' u "BUpval uv"] by (auto simp: same_shape_def)

lemma later_views:
  assumes l: "later g g'"
  shows "typed_at g' tt a = typed_at g tt a" "listed_at g' a = listed_at g a" "open_at g' t = open_at g t" "open_upvals g' t = open_upvals g t"
    "opens g' = opens g"
proof -
  show "typed_at g' tt a = typed_at g tt a" using later_body [OF l, of a] later_back [OF l, of a] by (auto simp: typed_at_def dest!: same_shape_kind)
  show "listed_at g' a = listed_at g a" using later_body [OF l, of a] later_back [OF l, of a] by (auto simp: listed_at_def dest!: same_shape_kind)
  show "open_at g' t = open_at g t" by (simp add: open_at_def later_upval [OF l])
  show "opens g' = opens g"
  proof -
    have "u \<in> opens g' \<longleftrightarrow> u \<in> opens g" for u using later_body [OF l, of u] later_back [OF l, of u] by (auto simp: opens_def dest!: same_shape_kind)
    then show ?thesis by blast
  qed
  show "open_upvals g' t = open_upvals g t"
  proof (cases "body g t")
    case None
    then show ?thesis using later_none [OF l] by (simp add: open_upvals_def)
  next
    case (Some b)
    obtain b' where b': "body g' t = Some b'" "same_shape b b'" using later_body [OF l Some] by blast
    show ?thesis
    proof (cases b)
      case (BTable h)
      then obtain h' where "b' = BTable h'" using b'(2) by (cases b') (auto simp: same_shape_def)
      then show ?thesis using Some b' BTable by (simp add: open_upvals_def)
    qed (use Some b' in \<open>auto simp: open_upvals_def same_shape_def\<close>)
  qed
qed

lemma later_isdead:
  assumes l: "later g g'" and d: "isdead g' a"
  shows "isdead g a"
proof -
  have "iswhite g' a" by (rule isdead_white [OF d])
  then have "marked g' a AND 7 = marked g a AND 7" using l by (simp add: later_def)
  moreover have "otherwhite g' = otherwhite g" using l by (simp add: later_def glob_def otherwhite_def)
  ultimately show ?thesis using d by (simp add: isdead_and7)
qed

lemma later_live: "later g g' \<Longrightarrow> live g tt a \<Longrightarrow> live g' tt a"
  by (auto simp: live_def later_views dest: later_isdead)

lemma later_refs_live: "later g g' \<Longrightarrow> refs_live g R \<Longrightarrow> refs_live g' R"
  by (auto simp: refs_live_def dest: later_live)

lemma later_colours:
  assumes l: "later g g'" and c: "colours g"
  shows "colours g'"
proof -
  have "marked g' a AND 3 \<noteq> 3 \<and> (iswhite g' a \<longrightarrow> \<not> isblack g' a)" for a
  proof (cases "iswhite g' a")
    case True
    then have e: "marked g' a AND 7 = marked g a AND 7" "iswhite g a" using l by (auto simp: later_def)
    then have "bit (marked g' a) 2 = bit (marked g a) 2" by (simp add: mark_eq_iff bit_and_iff)
    then show ?thesis using c e and3_and7 [of "marked g' a"] and3_and7 [of "marked g a"]
      by (auto simp: colours_def wb_def isblack_def m_black_bit)
  next
    case False
    then show ?thesis by (simp add: iswhite_def m_white_bits mark_eq_iff bit_and_iff)
  qed
  then show ?thesis by (simp add: colours_def wb_def)
qed

lemma after_main:
  "g_mainthread g \<in> set (g_rootgc g) \<Longrightarrow> g_rootgc g = takeWhile (\<lambda>x. x \<noteq> g_mainthread g) (g_rootgc g) @ g_mainthread g # after_link g (Some (g_mainthread g))"
proof -
  assume m: "g_mainthread g \<in> set (g_rootgc g)"
  then have "dropWhile (\<lambda>x. x \<noteq> g_mainthread g) (g_rootgc g) \<noteq> []" by (auto simp: dropWhile_eq_Nil_conv)
  then have "dropWhile (\<lambda>x. x \<noteq> g_mainthread g) (g_rootgc g) = g_mainthread g # after_link g (Some (g_mainthread g))"
    using hd_dropWhile [of "\<lambda>x. x \<noteq> g_mainthread g" "g_rootgc g"]
    by (cases "dropWhile (\<lambda>x. x \<noteq> g_mainthread g) (g_rootgc g)") (auto simp: after_link_def)
  then show ?thesis by (metis takeWhile_dropWhile_id)
qed

lemma later_struct:
  assumes l: "later g g'" and s: "struct g" and o: "all_objects g' = all_objects g" and m: "g_mainthread g \<in> set (g_rootgc g')"
    and u: "\<forall>u \<in> set (g_tmudata g'). typed_at g TUSERDATA u" and a: "\<forall>u \<in> set (after_link g' (Some (g_mainthread g))). typed_at g TUSERDATA u"
  shows "struct g'"
proof -
  have gl: "g_strt g' = g_strt g" "g_uvhead g' = g_uvhead g" "g_mainthread g' = g_mainthread g" using l by (simp_all add: later_def glob_def)
  have e: "mset (g_rootgc g' @ g_tmudata g') = mset (g_rootgc g @ g_tmudata g)" using o by (simp add: all_objects_def)
  note d = mset_eq_imp_distinct_iff [OF e] mset_eq_setD [OF e]
  then show ?thesis using s m u a l later_objects [OF l] unfolding struct_def later_views [OF l] gl d by (simp add: later_def)
qed

lemma trav_struct: "trav g g' \<Longrightarrow> struct g \<Longrightarrow> struct g'"
proof -
  assume t: "trav g g'" and s: "struct g"
  note f = trav_fields [OF t]
  show "struct g'" by (rule later_struct [OF trav_later [OF t] s]) (use s f in \<open>auto simp: all_objects_def struct_def after_link_def\<close>)
qed

lemma later_sound:
  assumes l: "later g g'" and s: "sound g" and n: "\<And>a. isdead g a \<Longrightarrow> isdead g' a"
  shows "sound g'"
  unfolding sound_def
proof (intro allI impI)
  fix a assume "\<not> isdead g' a"
  then have "refs_live g (refs g a)" using s n by (auto simp: sound_def)
  then have "refs_live g (refs g' a)" by (rule refs_live_mono) (use l in \<open>simp add: later_def\<close>)
  then show "refs_live g' (refs g' a)" by (rule later_refs_live [OF l])
qed

text \<open>The steps of the mark phase keep the invariant: its start, \<open>propagatemark\<close>, \<open>atomic\<close>, and giving it up for a full collection.\<close>

lemma heap_ok_cong:
  assumes b: "body g' = body g" and m: "marked g' = marked g"
    and f: "g_rootgc g' = g_rootgc g" "g_strt g' = g_strt g" "g_tmudata g' = g_tmudata g" "g_uvhead g' = g_uvhead g"
      "g_currentwhite g' = g_currentwhite g" "g_mainthread g' = g_mainthread g" "g_L g' = g_L g" "g_registry g' = g_registry g" "g_mt g' = g_mt g"
  shows "heap_ok g' = heap_ok g"
proof -
  have d: "isdead g' a = isdead g a" for a by (simp add: isdead_def otherwhite_def m f)
  have t: "typed_at g' tt a = typed_at g tt a" for tt a by (simp add: typed_at_def b)
  have r: "refs_live g' R = refs_live g R" for R by (simp add: refs_live_def live_def d t)
  have rf: "refs g' = refs g" by (rule refs_cong [OF b])
  have "struct g' = struct g"
    by (simp add: struct_def objects_def open_at_def open_upvals_def listed_at_def after_link_def t b m f)
  moreover have "colours g' = colours g" by (simp add: colours_def wb_def iswhite_def isblack_def m)
  ultimately show ?thesis by (simp add: heap_ok_def cw_ok_def sound_def roots_def mt_refs_def d r rf f)
qed

lemma later_roots: "later g g' \<Longrightarrow> set (g_tmudata g') = set (g_tmudata g) \<Longrightarrow> roots g' = roots g"
  by (simp add: later_def glob_def roots_def mt_refs_def)

lemma later_cw: "later g g' \<Longrightarrow> cw_ok g \<Longrightarrow> cw_ok g'"
  by (simp add: later_def glob_def cw_ok_def)

lemma trav_heap_ok:
  assumes t: "trav g g'" and h: "heap_ok g" and n: "\<And>a. \<not> isdead g a"
  shows "heap_ok g'"
proof -
  have l: "later g g'" by (rule trav_later [OF t])
  have "sound g'" by (rule later_sound [OF l]) (use h n in \<open>auto simp: heap_ok_def\<close>)
  moreover have "refs_live g' (roots g')" using later_refs_live [OF l] later_roots [OF l] trav_fields(4) [OF t] h by (simp add: heap_ok_def)
  ultimately show ?thesis using h later_colours [OF l] trav_struct [OF t] later_cw [OF l] by (simp add: heap_ok_def)
qed

lemma trav_alive: "trav g g' \<Longrightarrow> \<not> isdead g a \<Longrightarrow> \<not> isdead g' a"
  using later_isdead [OF trav_later] by blast

lemma trav_inv:
  assumes t: "trav g g'" and i: "inv_except F g" and p: "g_gcstate g = GCSpropagate"
    and m: "minv g'" and tri: "tri g' (excused g' \<union> E)"
  shows "inv_except E g'"
proof -
  have h: "heap_ok g" "marking F g" using i p by (simp_all add: inv_except_def)
  have n: "\<not> isdead g a" for a using h(2) by (simp add: marking_def)
  have "marking E g'" using h(2) m tri trav_alive [OF t n] trav_white [OF t] trav_fields(8,10) [OF t] by (auto simp: marking_def)
  then show ?thesis using trav_heap_ok [OF t h(1) n] trav_fields(7) [OF t] p by (simp add: inv_except_def)
qed

lemma trav_excused: "trav g g' \<Longrightarrow> excused g' = set (g_grayagain g') \<union> set (g_weak g') \<union> opens g \<union> set (g_tmudata g)"
  using later_views(5) [OF trav_later, of g g'] trav_fields(4) [of g g'] by (simp add: excused_def)

lemma marks_excused: "marks g g' \<Longrightarrow> excused g' = excused g"
  using trav_excused [OF marks_trav, of g g'] marks_lists [of g g'] by (simp add: excused_def)

lemma marks_inv:
  assumes m: "marks g g'" and i: "inv_except E g" and p: "g_gcstate g = GCSpropagate"
  shows "inv_except E g'"
proof (rule trav_inv [OF marks_trav [OF m] i p])
  have h: "marking E g" using i p by (simp add: inv_except_def)
  show "minv g'" by (rule marks_minv [OF m]) (use h in \<open>simp add: marking_def\<close>)
  show "tri g' (excused g' \<union> E)" using marks_tri [OF m] h marks_excused [OF m] by (simp add: marking_def)
qed

lemma propagatemark_inv:
  assumes i: "gc_inv g" and p: "g_gcstate g = GCSpropagate" and gr: "g_gray g \<noteq> []"
  shows "gc_inv (snd (propagatemark g))"
proof -
  obtain a rest where ar: "g_gray g = a # rest" using gr by (cases "g_gray g") auto
  obtain n g' where r: "propagatemark g = (n, g')" by (cases "propagatemark g")
  have m: "minv g" "tri g (excused g)" using i p by (simp_all add: gc_inv_def inv_except_def marking_def)
  obtain b where b: "body g a = Some b" using minv_head [OF m(1) ar] by blast
  note ad = propagatemark_advance [OF m(1) ar r b]
  have t: "trav g g'" by (rule advance_trav [OF ad])
  let ?E = "set (g_grayagain g) \<union> opens g \<union> set (g_tmudata g)"
  have "tri g (set (g_weak g) \<union> ?E)" by (rule tri_mono [OF m(2)]) (auto simp: excused_def)
  then have "tri g' (set (g_weak g') \<union> ?E)" by (rule propagatemark_tri [OF ar ad(1)])
  moreover have "set (g_grayagain g) \<subseteq> set (g_grayagain g')" using ad(1) by (auto simp: advance_def traversed_def)
  ultimately have "tri g' (excused g' \<union> {})" by (elim tri_mono) (auto simp: trav_excused [OF t])
  then have "inv_except {} g'" using i p propagatemark_minv [OF m(1) ar b ad(1)] unfolding gc_inv_def by (intro trav_inv [OF t])
  then show ?thesis using r by (simp add: gc_inv_def)
qed

subsection \<open>The start of a collection\<close>

lemma swept_alive:
  assumes h: "heap_ok g" and s: "swept g" and p: "pending g = {}"
  shows "\<not> isdead g a"
proof
  assume d: "isdead g a"
  have "body g a \<noteq> None" by (rule isdead_body [OF d])
  then have "a \<in> set (g_tmudata g) \<or> current g a" using s p by (auto simp: swept_at_def)
  then show False
  proof
    assume "a \<in> set (g_tmudata g)"
    then have "live g TUSERDATA a" using h by (intro refs_liveD [of g "roots g"]) (auto simp: heap_ok_def roots_def)
    then show False using d by (simp add: live_def)
  next
    assume "current g a"
    then show False using current_alive [of g a] h d by (simp add: heap_ok_def)
  qed
qed

lemma alive_typed: "sound g \<Longrightarrow> (\<And>a. \<not> isdead g a) \<Longrightarrow> typed g"
  by (fastforce simp: sound_def typed_def refs_live_def live_def)

lemma minv_gcstate: "minv g \<Longrightarrow> minv (g\<lparr>g_gcstate := x\<rparr>)"
  by (rule minv_lists) (auto simp: gray_lists_def minv_def mark_lists_def)

lemma markroot_inv:
  assumes i: "gc_inv g" and p: "g_gcstate g = GCSpause \<or> g_gcstate g = GCSfinalize"
  shows "gc_inv (markroot g)"
proof -
  have h: "heap_ok g" "swept g" and pe: "pending g = {}" using i p by (auto simp: gc_inv_def inv_except_def pending_at_def)
  have n: "\<not> isdead g a" for a by (rule swept_alive [OF h pe])
  let ?g0 = "g\<lparr>g_gray := [], g_grayagain := [], g_weak := []\<rparr>"
  have v: "body ?g0 = body g" "marked ?g0 = marked g" by simp_all
  note sv = same_view [OF v]
  have white: "iswhite g a \<or> a \<in> set (g_tmudata g)" if "body g a \<noteq> None" for a
    using h that pe current_white [of g a] by (auto simp: swept_at_def heap_ok_def)
  have cm: "colours g" "sound g" "struct g" using h by (simp_all add: heap_ok_def)
  have wt: "wb ?g0" "typed ?g0" using cm n alive_typed unfolding sv by (simp_all add: colours_def)
  have sh: "shades ?g0" unfolding shades_def sv v
  proof (intro allI impI)
    fix a b assume a: "body g a = Some b" "\<not> iswhite g a"
    then have u: "a \<in> set (g_tmudata g)" using white [of a] by simp
    then have "gc_tt b = TUSERDATA" "isblack g a" using cm(3) h(2) a by (auto simp: struct_def typed_at_def swept_at_def)
    then show "if gray_kind b then (isblack g a \<or> a \<in> set (gray_lists ?g0)) \<and> (gc_tt b = TTHREAD \<longrightarrow> \<not> isblack g a) else isblack g a = black_kind b"
      by (simp add: gray_kind_def black_kind_def)
  qed
  have m0: "minv ?g0" using wt sh by (simp add: minv_def mark_lists_def gray_lists_def)
  have t0: "tri ?g0 (excused ?g0)" using white unfolding tri_def sv v by (auto simp: excused_def)
  let ?g1 = "markobject (g_mainthread ?g0) ?g0" let ?g2 = "markvalue (gt_main ?g1) ?g1" let ?g3 = "markvalue (g_registry ?g2) ?g2"
  have m1: "marks ?g0 ?g1 \<and> \<not> iswhite ?g1 (g_mainthread ?g0)" by (rule markobject_step [OF wt])
  note w1 = marks_wb [OF conjunct1 [OF m1] wt(1)] marks_typed [OF conjunct1 [OF m1] wt(2)]
  have m2: "marks ?g1 ?g2" using markvalue_step [OF w1] by blast
  note w2 = marks_wb [OF m2 w1(1)] marks_typed [OF m2 w1(2)]
  have m3: "marks ?g2 ?g3" "\<forall>(tt, r) \<in> vrefs (g_registry ?g2). typed_at ?g2 tt r \<longrightarrow> \<not> iswhite ?g3 r" using markvalue_step [OF w2] by blast+
  have m4: "marks ?g3 (markmt ?g3)" using markmt_marks [OF marks_wb [OF m3(1) w2(1)] marks_typed [OF m3(1) w2(2)]] by blast
  have m02: "marks ?g0 ?g2" by (rule marks_trans [OF conjunct1 [OF m1] m2])
  have m: "marks ?g0 (markmt ?g3)" by (rule marks_trans [OF m02 marks_trans [OF m3(1) m4]])
  have t: "trav ?g0 (markmt ?g3)" by (rule marks_trav [OF m])
  have h0: "heap_ok ?g0" using h(1) by (subst heap_ok_cong [of _ g]) simp_all
  have n0: "\<not> isdead ?g0 a" for a using n [of a] by (simp add: isdead_def otherwhite_def)
  let ?r = "(markmt ?g3)\<lparr>g_gcstate := GCSpropagate\<rparr>"
  have v3: "body ?r = body (markmt ?g3)" "marked ?r = marked (markmt ?g3)" by simp_all
  note sv3 = same_view [OF v3]
  have main: "\<not> iswhite ?r (g_mainthread ?r)"
    using m1 marks_white [OF m4] marks_white [OF m3(1)] marks_white [OF m2] trav_fields(8) [OF t] unfolding sv3 by auto
  have "\<not> iswhite (markmt ?g3) r" if r: "r \<in> targets (vrefs (g_registry g))" for r
  proof -
    obtain tt where tr: "(tt, r) \<in> vrefs (g_registry g)" using r by (auto simp: targets_def)
    then have "live g tt r" using h(1) by (intro refs_liveD [of g "roots g"]) (auto simp: heap_ok_def roots_def)
    then have "typed_at ?g0 tt r" by (simp add: live_def typed_at_def)
    then have "typed_at ?g2 tt r" unfolding later_views(1) [OF trav_later [OF marks_trav [OF m02]]] .
    moreover have "g_registry ?g2 = g_registry g" using marks_fields(14) [OF m02] by simp
    ultimately show ?thesis using m3(2) tr marks_white [OF m4] by auto
  qed
  then have "\<forall>r \<in> targets (vrefs (g_registry ?r)). \<not> iswhite ?r r" using trav_fields(10) [OF t] unfolding sv3 by simp
  moreover have "\<not> isdead ?r a" for a using trav_alive [OF t n0, of a] by (simp add: isdead_def otherwhite_def)
  moreover have "minv (markmt ?g3)" by (rule marks_minv [OF m m0])
  then have "minv ?r" by (rule minv_gcstate)
  moreover have "tri ?r (excused ?r)"
    using marks_tri [OF m t0] marks_excused [OF m] unfolding tri_def sv3 by (simp add: excused_def opens_def)
  moreover have "heap_ok ?r" using trav_heap_ok [OF t h0 n0] by (subst heap_ok_cong [of _ "markmt ?g3"]) simp_all
  ultimately have "gc_inv ?r" using main by (simp add: gc_inv_def inv_except_def marking_def)
  then show ?thesis by (simp add: markroot_def Let_def)
qed

subsection \<open>The end of the mark phase\<close>

lemma flip_views: "body (flip g e) = body g" "marked (flip g e) = marked g" "otherwhite (flip g e) = (g_currentwhite g XOR WHITEBITS) XOR WHITEBITS"
  by (simp_all add: flip_def otherwhite_def)

lemma flip_dead:
  assumes c: "cw_ok g" "colours g" and n: "\<And>a. \<not> isdead g a"
  shows "isdead (flip g e) a \<longleftrightarrow> iswhite g a"
proof
  show "iswhite g a" if "isdead (flip g e) a" using isdead_white [OF that] by (simp add: iswhite_def flip_views)
next
  assume w: "iswhite g a"
  have "current g a" by (rule white_alive_current [OF c w n])
  then show "isdead (flip g e) a" using c(1)
    by (auto simp: isdead_and7 flip_views current_def cw_ok_def luaC_white_def WHITEBITS_def)
qed

lemma all_pending: "struct g \<Longrightarrow> g_gcstate g = GCSsweepstring \<Longrightarrow> g_sweepstrgc g = 0 \<Longrightarrow> body g a \<noteq> None \<Longrightarrow> a \<in> pending g"
  by (simp add: struct_def pending_at_def)

lemma atomic_flip:
  assumes i: "gc_inv g" and p: "g_gcstate g = GCSpropagate" and gr: "g_gray g = []"
  obtains g' e where "atomic g = flip g' e" "atomic_done g g'"
    "\<And>M. inside M g \<Longrightarrow> g_L g \<in> M \<Longrightarrow> targets (mt_refs g) \<subseteq> M \<Longrightarrow> set (g_tmudata g') \<subseteq> M \<Longrightarrow> inside M g'"
proof -
  have h: "heap_ok g" "marking {} g" using i p by (simp_all add: gc_inv_def inv_except_def)
  then have st: "struct g" by (simp add: heap_ok_def)
  have 1: "tri g (set (g_grayagain g) \<union> set (g_weak g) \<union> {u. \<exists>b. body g u = Some b \<and> is_open b} \<union> set (g_tmudata g))"
    using h(2) by (simp add: marking_def excused_def opens_def)
  have 2: "u \<in> set (g_uvhead g)" if "body g u = Some b" "is_open b" for u b
    using st that by (auto simp: struct_def open_at_def is_open_def split: gbody.splits gupval.splits)
  have 3: "\<forall>u \<in> set (g_tmudata g). \<exists>mt e n. body g u = Some (BUdata mt e n)"
  proof
    fix u assume "u \<in> set (g_tmudata g)"
    then have "typed_at g TUSERDATA u" using st by (simp add: struct_def)
    then show "\<exists>mt e n. body g u = Some (BUdata mt e n)" by (auto simp: typed_at_def elim: gc_tt.elims)
  qed
  show ?thesis
    by (rule atomic_spec [OF _ _ gr 1 2 _ 3]) (use h st that in \<open>auto simp: marking_def heap_ok_def struct_def mt_refs_def\<close>)
qed

lemma atomic_inv:
  assumes i: "gc_inv g" and p: "g_gcstate g = GCSpropagate" and gr: "g_gray g = []"
  shows "gc_inv (atomic g)"
proof -
  have h: "heap_ok g" "marking {} g" using i p by (simp_all add: gc_inv_def inv_except_def)
  then have st: "struct g" and n: "\<not> isdead g a" for a by (simp_all add: heap_ok_def marking_def)
  obtain g' e where g': "atomic g = flip g' e" "atomic_done g g'" by (rule atomic_flip [OF i p gr])
  then have l: "later g g'" and ty: "typed g'" and oks: "\<And>x. body g' x \<noteq> None \<Longrightarrow> \<not> iswhite g' x \<Longrightarrow> ok g' x"
    and u: "\<forall>u \<in> set (g_tmudata g'). isblack g' u \<and> \<not> iswhite g' u \<and> typed_at g' TUSERDATA u"
    by (auto simp: atomic_done_def typed_at_def)
  have gl: "g_mainthread g' = g_mainthread g" "g_L g' = g_L g" "g_registry g' = g_registry g" "g_mt g' = g_mt g" using l by (simp_all add: later_def glob_def)
  have c: "cw_ok g'" "colours g'" using later_cw [OF l] later_colours [OF l] h by (simp_all add: heap_ok_def)
  have n': "\<not> isdead g' a" for a using later_isdead [OF l] n by blast
  let ?f = "flip g' e"
  note fd = flip_dead [OF c n', of e]
  note v = same_view [OF flip_views(1,2)]
  have ta: "typed_at ?f tt a = typed_at g' tt a" for tt a by (simp add: typed_at_def flip_views)
  have rl: "refs_live ?f R" if "\<And>tt r. (tt, r) \<in> R \<Longrightarrow> typed_at g' tt r \<and> \<not> iswhite g' r" for R
    using that by (auto simp: refs_live_def live_def fd ta)
  have s': "struct g'"
    by (rule later_struct [OF l st]) (use g'(2) st u in \<open>auto simp: atomic_done_def later_views [OF l] struct_def\<close>)
  then have sf: "struct ?f" by (simp add: struct_def objects_def open_at_def open_upvals_def listed_at_def after_link_def typed_at_def flip_def)
  have "sound ?f" unfolding sound_def
  proof (intro allI impI)
    fix a assume a: "\<not> isdead ?f a"
    show "refs_live ?f (refs ?f a)"
    proof (rule rl)
      fix tt r assume r: "(tt, r) \<in> refs ?f a"
      then have r': "(tt, r) \<in> refs g' a" unfolding v .
      then have "body g' a \<noteq> None" by (cases "body g' a") (simp_all add: refs_def)
      then have "ok g' a" using oks a fd by blast
      then show "typed_at g' tt r \<and> \<not> iswhite g' r" using r' ty by (auto simp: ok_def typed_def)
    qed
  qed
  moreover have "refs_live ?f (roots ?f)"
  proof (rule rl)
    fix tt r assume r: "(tt, r) \<in> roots ?f"
    have "live g tt r \<and> \<not> iswhite g' r \<or> (tt, r) \<in> Pair TUSERDATA ` set (g_tmudata g')"
    proof -
      have "(tt, r) \<in> roots g \<Longrightarrow> live g tt r" using h refs_liveD [of g "roots g"] by (simp add: heap_ok_def)
      moreover have "(tt, r) \<in> vrefs (g_registry g) \<Longrightarrow> \<not> iswhite g' r" "\<not> iswhite g' (g_mainthread g)"
        using h later_white [OF l] by (force simp: marking_def targets_def)+
      moreover have "(tt, r) \<in> mt_refs g \<Longrightarrow> \<not> iswhite g' r" "\<not> iswhite g' (g_L g)" using g'(2) by (force simp: atomic_done_def mt_refs_def targets_def)+
      ultimately show ?thesis using r gl by (auto simp: roots_def flip_def mt_refs_def)
    qed
    then show "typed_at g' tt r \<and> \<not> iswhite g' r" using u by (auto simp: live_def later_views [OF l])
  qed
  moreover have "colours ?f" using c(2) unfolding colours_def v by (simp add: flip_views)
  moreover have "cw_ok ?f" using c(1) by (auto simp: cw_ok_def flip_def otherwhite_def WHITEBITS_def)
  moreover have "swept ?f"
  proof -
    have "a \<in> pending ?f" if "body ?f a \<noteq> None" for a by (rule all_pending [OF sf _ _ that]) (simp_all add: flip_def)
    moreover have "\<forall>u \<in> opens ?f. \<not> isblack g' u" using g'(2) by (auto simp: opens_def flip_views atomic_done_def)
    ultimately show ?thesis using u sf unfolding swept_at_def v by (simp add: flip_def struct_def)
  qed
  ultimately have "gc_inv ?f" using sf by (simp add: gc_inv_def inv_except_def heap_ok_def) (simp add: flip_def)
  then show ?thesis using g'(1) by simp
qed

subsection \<open>Giving up a mark phase\<close>

lemma fullgc_reset_inv:
  assumes i: "gc_inv g"
  shows "gc_inv (fullgc_reset g)"
proof (cases "g_gcstate g = GCSpause \<or> g_gcstate g = GCSpropagate")
  case True
  let ?r = "g\<lparr>g_sweepstrgc := 0, g_sweepgc := None, g_gray := [], g_grayagain := [], g_weak := [], g_gcstate := GCSsweepstring\<rparr>"
  have h: "heap_ok ?r" using i by (subst heap_ok_cong [of _ g]) (simp_all add: gc_inv_def inv_except_def)
  then have st: "struct ?r" by (simp add: heap_ok_def)
  have "iswhite g u \<or> isblack g u" if u: "u \<in> set (g_tmudata g)" for u
  proof (cases "g_gcstate g = GCSpropagate")
    case False
    then show ?thesis using i u by (auto simp: gc_inv_def inv_except_def swept_at_def)
  next
    case True
    then have "typed_at g TUSERDATA u" "shades g" using i u by (auto simp: gc_inv_def inv_except_def heap_ok_def struct_def marking_def minv_def)
    then obtain b where "body g u = Some b" "gc_tt b = TUSERDATA" "shades g" by (auto simp: typed_at_def)
    then show ?thesis using shadesD [of g u b] by (cases "iswhite g u") (simp_all add: gray_kind_def black_kind_def)
  qed
  moreover have "\<not> isblack g u" if u: "body g u = Some b" "is_open b" for u b
  proof (cases "g_gcstate g = GCSpropagate")
    case False
    then show ?thesis using i u by (auto simp: gc_inv_def inv_except_def swept_at_def opens_def)
  next
    case True
    then have "minv g" using i by (simp add: gc_inv_def inv_except_def marking_def)
    then show ?thesis using shadesD [of g u b] u is_open_kind [OF u(2)] by (cases "iswhite g u") (auto simp: minv_def wb_def)
  qed
  moreover have "a \<in> pending ?r" if "body ?r a \<noteq> None" for a by (rule all_pending [OF st _ _ that]) simp_all
  ultimately have "swept ?r" using st by (auto simp: swept_at_def struct_def iswhite_def isblack_def opens_def)
  then show ?thesis using True h by (auto simp: fullgc_reset_def gc_inv_def inv_except_def)
qed (use i in \<open>simp add: fullgc_reset_def\<close>)

end
