(* ===== verification/Lua_Gc_Sweep.thy ===== *)
theory Lua_Gc_Sweep
  imports Lua_Gc_Inv
begin

text \<open>The sweep of the strings and of a list of upvalues keeps the invariant of the heap.\<close>

subsection \<open>The effect of a sweep\<close>

lemma keeps_iff: "cw_ok g \<Longrightarrow> sweep_keeps g a \<longleftrightarrow> \<not> isdead g a \<or> bit (marked g a) 5"
  by (auto simp: sweep_keeps_def isdead_def cw_ok_def otherwhite_def WHITEBITS_def mark_eq_iff bit_and_iff bit_xor_iff)

definition sweeps :: "addr set \<Rightarrow> gstate \<Rightarrow> gstate \<Rightarrow> bool" where
  "sweeps S g g' \<longleftrightarrow> (\<forall>x. body g' x = (if x \<in> S \<and> \<not> sweep_keeps g x then None else body g x)) \<and>
     (\<forall>x. marked g' x = (if x \<notin> S then marked g x else if sweep_keeps g x then makewhite_mark g (marked g x) else 0)) \<and>
     g_currentwhite g' = g_currentwhite g \<and> g_mainthread g' = g_mainthread g \<and> g_L g' = g_L g \<and> g_registry g' = g_registry g \<and>
     g_mt g' = g_mt g \<and> g_tmudata g' = g_tmudata g \<and> g_gcstate g' = g_gcstate g \<and> g_sweepgc g' = g_sweepgc g \<and> g_sweepstrgc g' = g_sweepstrgc g \<and>
     g_rootgc g' = g_rootgc g"

lemma sweeps_fields: "sweeps S g g' \<Longrightarrow> g_currentwhite g' = g_currentwhite g" "sweeps S g g' \<Longrightarrow> g_mainthread g' = g_mainthread g"
  "sweeps S g g' \<Longrightarrow> g_L g' = g_L g" "sweeps S g g' \<Longrightarrow> g_registry g' = g_registry g" "sweeps S g g' \<Longrightarrow> g_mt g' = g_mt g"
  "sweeps S g g' \<Longrightarrow> g_tmudata g' = g_tmudata g" "sweeps S g g' \<Longrightarrow> g_gcstate g' = g_gcstate g" "sweeps S g g' \<Longrightarrow> g_sweepgc g' = g_sweepgc g"
  "sweeps S g g' \<Longrightarrow> g_sweepstrgc g' = g_sweepstrgc g" "sweeps S g g' \<Longrightarrow> g_rootgc g' = g_rootgc g"
  by (simp_all add: sweeps_def)

lemma sweeps_body: "sweeps S g g' \<Longrightarrow> body g' x = (if x \<in> S \<and> \<not> sweep_keeps g x then None else body g x)"
  unfolding sweeps_def by blast

lemma sweeps_mark: "sweeps S g g' \<Longrightarrow> marked g' x = (if x \<notin> S then marked g x else if sweep_keeps g x then makewhite_mark g (marked g x) else 0)"
  unfolding sweeps_def by blast

text \<open>What is live stays live in a step, and what is not dead afterwards refers to what was live before.\<close>

definition lives :: "gstate \<Rightarrow> gstate \<Rightarrow> bool" where
  "lives g g' \<longleftrightarrow> (\<forall>tt r. live g tt r \<longrightarrow> live g' tt r)"

lemma lives_refs: "lives g g' \<Longrightarrow> refs_live g R \<Longrightarrow> refs_live g' R"
  by (auto simp: lives_def refs_live_def)

lemma sound_step: "lives g g' \<Longrightarrow> (\<And>a. \<not> isdead g' a \<Longrightarrow> refs_live g (refs g' a)) \<Longrightarrow> sound g'"
  unfolding sound_def by (blast intro: lives_refs)

lemma current_mark: "cw_ok g \<Longrightarrow> current g' a \<longleftrightarrow> marked g' a AND 7 = luaC_white g'"
  by (simp add: current_def)

lemma sweeps_current: "sweeps S g g' \<Longrightarrow> cw_ok g \<Longrightarrow> x \<in> S \<Longrightarrow> sweep_keeps g x \<Longrightarrow> current g' x"
  using sweeps_mark [of S g g' x] makewhite_bits(4) [of g "marked g x"] sweeps_fields(1) [of S g g'] by (simp add: current_def luaC_white_def)

lemma sweeps_unmarked: "sweeps S g g' \<Longrightarrow> x \<notin> S \<Longrightarrow> isdead g' x = isdead g x \<and> iswhite g' x = iswhite g x \<and> isblack g' x = isblack g x \<and> current g' x = current g x"
  using sweeps_mark [of S g g' x] sweeps_fields(1) [of S g g'] by (simp add: isdead_def iswhite_def isblack_def current_def otherwhite_def luaC_white_def)

lemma sweeps_cw: "sweeps S g g' \<Longrightarrow> cw_ok g' = cw_ok g"
  by (simp add: cw_ok_def sweeps_fields)

lemma sweeps_dead:
  assumes s: "sweeps S g g'" and c: "cw_ok g" and d: "isdead g' x"
  shows "x \<notin> S \<and> isdead g x"
proof -
  have "x \<notin> S"
  proof
    assume x: "x \<in> S"
    show False
    proof (cases "sweep_keeps g x")
      case True
      then have "current g' x" by (rule sweeps_current [OF s c x])
      then show False using current_alive [of g' x] sweeps_cw [OF s] c d by simp
    next
      case False
      then have "marked g' x = 0" using sweeps_mark [OF s, of x] x by simp
      then show False using d by (simp add: isdead_def)
    qed
  qed
  then show ?thesis using sweeps_unmarked [OF s] d by blast
qed

lemma sweeps_lives: "sweeps S g g' \<Longrightarrow> cw_ok g \<Longrightarrow> lives g g'"
  using sweeps_body [of S g g'] sweeps_dead [of S g g'] keeps_iff [of g] by (auto simp: lives_def live_def typed_at_def)

text \<open>A string or a live object that is kept brings no reference to a dead object.\<close>

lemma upval_value_shrinks:
  assumes "\<And>t th. body g' t = Some (BThread th) \<Longrightarrow> \<exists>th0. body g t = Some (BThread th0) \<and> stack_slot th = stack_slot th0"
  shows "vrefs (upval_value g' uv) \<subseteq> vrefs (upval_value g uv)"
proof (cases uv)
  case (UOpen t i)
  show ?thesis
  proof (cases "body g' t")
    case (Some b)
    then show ?thesis using assms [of t] UOpen by (cases b) auto
  qed (use UOpen in simp)
qed simp

lemma refs_shrink:
  assumes b: "body g' x = None \<or> body g' x = body g x"
    and t: "\<And>t th. body g' t = Some (BThread th) \<Longrightarrow> \<exists>th0. body g t = Some (BThread th0) \<and> stack_slot th = stack_slot th0"
  shows "refs g' x \<subseteq> refs g x"
proof (cases "body g' x")
  case (Some c)
  then have "body g x = Some c" using b by simp
  then show ?thesis using Some upval_value_shrinks [of g' g, OF t] by (cases "(g, c)" rule: brefs.cases) (auto simp: refs_def)
qed (simp add: refs_def)

lemma string_refs: "typed_at g TSTRING a \<Longrightarrow> refs g a = {}"
  by (auto simp: typed_at_def refs_def elim: gc_tt.elims)

lemma sweeps_refs: "sweeps S g g' \<Longrightarrow> refs g' x \<subseteq> refs g x"
  by (rule refs_shrink) (auto simp: sweeps_body split: if_splits)

lemma roots_live_step:
  assumes "lives g g'" "refs_live g (roots g)" "g_mainthread g' = g_mainthread g" "g_L g' = g_L g" "g_registry g' = g_registry g"
    "g_mt g' = g_mt g" "set (g_tmudata g') \<subseteq> set (g_tmudata g)"
  shows "refs_live g' (roots g')"
proof (rule lives_refs [OF assms(1)])
  show "refs_live g (roots g')" by (rule refs_live_mono [OF assms(2)]) (use assms(3-7) in \<open>auto simp: roots_def mt_refs_def\<close>)
qed

lemma sweeps_colours: "sweeps S g g' \<Longrightarrow> cw_ok g \<Longrightarrow> colours g \<Longrightarrow> colours g'"
proof -
  assume s: "sweeps S g g'" and c: "cw_ok g" and k: "colours g"
  have "marked g' x AND 3 \<noteq> 3 \<and> (iswhite g' x \<longrightarrow> \<not> isblack g' x)" for x
  proof (cases "x \<in> S")
    case True
    show ?thesis
    proof (cases "sweep_keeps g x")
      case kp: True
      have cu: "current g' x" by (rule sweeps_current [OF s c True kp])
      then have "marked g' x AND 3 = luaC_white g' AND 3" using and3_and7 [of "marked g' x"] by (simp add: current_def)
      then show ?thesis using current_white [OF _ cu] sweeps_cw [OF s] c by (auto simp: luaC_white_def cw_ok_def WHITEBITS_def)
    next
      case False
      then show ?thesis using sweeps_mark [OF s, of x] True by (simp add: iswhite_def m_white_def)
    qed
  next
    case False
    then show ?thesis using k sweeps_mark [OF s, of x] by (simp add: colours_def wb_def iswhite_def isblack_def)
  qed
  then show ?thesis by (simp add: colours_def wb_def)
qed

text \<open>The part of the invariant of the heap that does not speak of the lists.\<close>

definition core :: "gstate \<Rightarrow> bool" where
  "core g \<longleftrightarrow> cw_ok g \<and> colours g \<and> sound g \<and> refs_live g (roots g)"

lemma heap_ok_core: "heap_ok g \<longleftrightarrow> core g \<and> struct g"
  by (auto simp: heap_ok_def core_def)

lemma core_cong:
  assumes t: "\<And>tt a. typed_at g' tt a = typed_at g tt a" and m: "marked g' = marked g" and r: "\<And>a. refs g' a \<subseteq> refs g a"
    and f: "g_tmudata g' = g_tmudata g" "g_currentwhite g' = g_currentwhite g" "g_mainthread g' = g_mainthread g" "g_L g' = g_L g"
      "g_registry g' = g_registry g" "g_mt g' = g_mt g"
    and c: "core g"
  shows "core g'"
proof -
  have d: "isdead g' a = isdead g a" for a by (simp add: isdead_def otherwhite_def m f)
  have l: "refs_live g' R = refs_live g R" for R by (simp add: refs_live_def live_def d t)
  have "sound g'" unfolding sound_def l d using c r refs_live_mono by (auto simp: core_def sound_def)
  then show ?thesis using c by (simp add: core_def cw_ok_def colours_def wb_def iswhite_def isblack_def roots_def mt_refs_def l m f)
qed

lemma sweeps_core:
  assumes s: "sweeps S g g'" and h: "core g" and k: "\<And>x. x \<in> S \<Longrightarrow> sweep_keeps g x \<Longrightarrow> \<not> isdead g x \<or> refs g x = {}"
  shows "core g'"
proof -
  have c: "cw_ok g" using h by (simp add: core_def)
  have l: "lives g g'" by (rule sweeps_lives [OF s c])
  have "sound g'"
  proof (rule sound_step [OF l])
    fix a assume a: "\<not> isdead g' a"
    have "\<not> isdead g a \<or> refs g' a = {}"
    proof (cases "a \<in> S \<and> \<not> sweep_keeps g a")
      case True
      then show ?thesis using sweeps_body [OF s, of a] by (simp add: refs_def)
    next
      case False
      then show ?thesis using k [of a] sweeps_unmarked [OF s, of a] a sweeps_refs [OF s, of a] by blast
    qed
    then show "refs_live g (refs g' a)"
    proof
      assume "\<not> isdead g a"
      then have "refs_live g (refs g a)" using h by (simp add: core_def sound_def)
      then show ?thesis by (rule refs_live_mono [OF _ sweeps_refs [OF s]])
    qed (simp add: refs_live_def)
  qed
  moreover have "refs_live g' (roots g')" by (rule roots_live_step [OF l]) (use h sweeps_fields [OF s] in \<open>simp_all add: core_def\<close>)
  ultimately show ?thesis using sweeps_colours [OF s c] sweeps_cw [OF s] h by (simp add: core_def)
qed

lemma sweeps_heap_ok:
  "sweeps S g g' \<Longrightarrow> heap_ok g \<Longrightarrow> struct g' \<Longrightarrow> (\<And>x. x \<in> S \<Longrightarrow> sweep_keeps g x \<Longrightarrow> \<not> isdead g x \<or> refs g x = {}) \<Longrightarrow> heap_ok g'"
  using sweeps_core [of S g g'] by (simp add: heap_ok_core)

subsection \<open>Chains\<close>

lemma sweeps_trans:
  assumes 1: "sweeps S g1 g2" and 2: "sweeps T g2 g3" and d: "S \<inter> T = {}"
  shows "sweeps (S \<union> T) g1 g3"
proof -
  have k: "sweep_keeps g2 x = sweep_keeps g1 x" if "x \<notin> S" for x
    using sweeps_mark [OF 1, of x] sweeps_fields(1) [OF 1] that by (simp add: sweep_keeps_def otherwhite_def)
  have w: "makewhite_mark g2 = makewhite_mark g1" using sweeps_fields(1) [OF 1] by (simp add: makewhite_mark_def luaC_white_def fun_eq_iff)
  show ?thesis unfolding sweeps_def
  proof (intro conjI allI)
    fix x
    show "body g3 x = (if x \<in> S \<union> T \<and> \<not> sweep_keeps g1 x then None else body g1 x)"
      using sweeps_body [OF 1, of x] sweeps_body [OF 2, of x] k [of x] d by auto
    show "marked g3 x = (if x \<notin> S \<union> T then marked g1 x else if sweep_keeps g1 x then makewhite_mark g1 (marked g1 x) else 0)"
      using sweeps_mark [OF 1, of x] sweeps_mark [OF 2, of x] k [of x] w d by auto
  qed (use 1 2 in \<open>simp_all add: sweeps_fields\<close>)
qed

lemma body_free: "body (luaM_free a n g) x = (if x = a then None else body g x)" "marked (luaM_free a n g) x = (if x = a then 0 else marked g x)"
  by (simp_all add: luaM_free_def body_def marked_def)

lemma free_fields [simp]: "g_currentwhite (luaM_free a n g) = g_currentwhite g" "g_mainthread (luaM_free a n g) = g_mainthread g"
  "g_L (luaM_free a n g) = g_L g" "g_registry (luaM_free a n g) = g_registry g" "g_mt (luaM_free a n g) = g_mt g"
  "g_tmudata (luaM_free a n g) = g_tmudata g" "g_gcstate (luaM_free a n g) = g_gcstate g" "g_sweepgc (luaM_free a n g) = g_sweepgc g"
  "g_sweepstrgc (luaM_free a n g) = g_sweepstrgc g" "g_rootgc (luaM_free a n g) = g_rootgc g" "g_strt (luaM_free a n g) = g_strt g"
  "g_uvhead (luaM_free a n g) = g_uvhead g" "g_gray (luaM_free a n g) = g_gray g" "g_grayagain (luaM_free a n g) = g_grayagain g"
  "g_weak (luaM_free a n g) = g_weak g"
  by (simp_all add: luaM_free_def)

lemma unlink_fields [simp]: "body (unlinkupval a g) = body g" "marked (unlinkupval a g) = marked g" "g_currentwhite (unlinkupval a g) = g_currentwhite g"
  "g_mainthread (unlinkupval a g) = g_mainthread g" "g_L (unlinkupval a g) = g_L g" "g_registry (unlinkupval a g) = g_registry g"
  "g_mt (unlinkupval a g) = g_mt g" "g_tmudata (unlinkupval a g) = g_tmudata g" "g_gcstate (unlinkupval a g) = g_gcstate g"
  "g_sweepgc (unlinkupval a g) = g_sweepgc g" "g_sweepstrgc (unlinkupval a g) = g_sweepstrgc g" "g_rootgc (unlinkupval a g) = g_rootgc g"
  "g_strt (unlinkupval a g) = g_strt g" "g_uvhead (unlinkupval a g) = removeAll a (g_uvhead g)" "g_gray (unlinkupval a g) = g_gray g"
  "g_grayagain (unlinkupval a g) = g_grayagain g" "g_weak (unlinkupval a g) = g_weak g"
  by (simp_all add: unlinkupval_def)

lemma sweep_one:
  assumes b: "body g a = Some b" and t: "gc_tt b \<noteq> TTHREAD"
  defines "g' \<equiv> if sweep_keeps g a then makewhite a g else freeobj a g"
  shows "sweeps {a} g g'" "g_strt g' = g_strt g" "g_uvhead g' = filter (\<lambda>u. u \<noteq> a \<or> sweep_keeps g a \<or> \<not> is_open b) (g_uvhead g)"
proof -
  have "sweeps {a} g g' \<and> g_strt g' = g_strt g \<and> g_uvhead g' = filter (\<lambda>u. u \<noteq> a \<or> sweep_keeps g a \<or> \<not> is_open b) (g_uvhead g)"
  proof (cases "sweep_keeps g a")
    case True
    then have g': "g' = set_mark a (makewhite_mark g) g" unfolding g'_def makewhite_marks by simp
    show ?thesis using b True by (simp add: g' sweeps_def marked_set_mark)
  next
    case False
    have "g_uvhead g = filter (\<lambda>u. True) (g_uvhead g)" by simp
    then show ?thesis using False b t
      by (cases b) (auto simp: g'_def freeobj_def sweeps_def body_free luaF_freeupval_def is_open_def removeAll_filter_not_eq intro!: filter_cong split: gupval.splits)
  qed
  then show "sweeps {a} g g'" "g_strt g' = g_strt g" "g_uvhead g' = filter (\<lambda>u. u \<noteq> a \<or> sweep_keeps g a \<or> \<not> is_open b) (g_uvhead g)" by simp_all
qed

lemma sweep_chain_sweeps:
  "distinct as \<Longrightarrow> \<forall>a \<in> set as. \<exists>b. body g a = Some b \<and> gc_tt b \<noteq> TTHREAD \<Longrightarrow> sweep_chain as g = (l, g') \<Longrightarrow>
   l = filter (sweep_keeps g) as \<and> sweeps (set as) g g' \<and> g_strt g' = g_strt g \<and>
   g_uvhead g' = filter (\<lambda>u. u \<notin> set as \<or> sweep_keeps g u \<or> u \<notin> opens g) (g_uvhead g)"
proof (induction as arbitrary: g l)
  case Nil
  then show ?case by (simp add: sweeps_def)
next
  case (Cons a as)
  obtain b where b: "body g a = Some b" "gc_tt b \<noteq> TTHREAD" using Cons.prems(2) by auto
  let ?g = "if sweep_keeps g a then makewhite a g else freeobj a g"
  note o = sweep_one [OF b]
  obtain l1 where l1: "sweep_chain as ?g = (l1, g')" "l = (if sweep_keeps g a then a # l1 else l1)"
    using Cons.prems(3) by (auto split: prod.splits if_splits)
  have bd: "body ?g x = body g x" if "x \<in> set as" for x using sweeps_body [OF o(1), of x] Cons.prems(1) that by auto
  have k: "sweep_keeps ?g x = sweep_keeps g x" if "x \<in> set as" for x
    using sweeps_mark [OF o(1), of x] sweeps_fields(1) [OF o(1)] Cons.prems(1) that by (auto simp: sweep_keeps_def otherwhite_def)
  have "\<forall>x \<in> set as. \<exists>b. body ?g x = Some b \<and> gc_tt b \<noteq> TTHREAD" using Cons.prems(2) bd by auto
  from Cons.IH [OF _ this l1(1)] Cons.prems(1)
  have ih: "l1 = filter (sweep_keeps ?g) as" "sweeps (set as) ?g g'" "g_strt g' = g_strt ?g"
    "g_uvhead g' = filter (\<lambda>u. u \<notin> set as \<or> sweep_keeps ?g u \<or> u \<notin> opens ?g) (g_uvhead ?g)" by simp_all
  have "l1 = filter (sweep_keeps g) as" using ih(1) k by (simp cong: filter_cong)
  then have "l = filter (sweep_keeps g) (a # as)" using l1(2) by simp
  moreover have "sweeps (set (a # as)) g g'" using sweeps_trans [OF o(1) ih(2)] Cons.prems(1) by simp
  moreover have "g_uvhead g' = filter (\<lambda>u. u \<notin> set (a # as) \<or> sweep_keeps g u \<or> u \<notin> opens g) (g_uvhead g)"
    unfolding ih(4) o(3) using Cons.prems(1) b(1) k bd by (auto simp: opens_def intro!: filter_cong)
  ultimately show ?case using ih(3) o(2) by simp
qed

subsection \<open>The string table\<close>

lemma concat_update:
  assumes d: "distinct (concat xss)" and i: "i < length xss" and s: "set ys \<subseteq> set (xss ! i)" and y: "distinct ys"
  shows "distinct (concat (xss[i := ys]))" "set (concat (xss[i := ys])) = set (concat xss) - (set (xss ! i) - set ys)"
proof -
  let ?p = "concat (take i xss)" and ?q = "concat (drop (Suc i) xss)"
  have "xss = take i xss @ xss ! i # drop (Suc i) xss" by (rule id_take_nth_drop [OF i])
  then have c: "concat xss = ?p @ xss ! i @ ?q" by (metis concat.simps(2) concat_append)
  have c': "concat (xss[i := ys]) = ?p @ ys @ ?q" using upd_conv_take_nth_drop [OF i, of ys] by simp
  show "distinct (concat (xss[i := ys]))" using d s y unfolding c c' by (auto simp del: set_concat)
  show "set (concat (xss[i := ys])) = set (concat xss) - (set (xss ! i) - set ys)" using d s unfolding c c' by (auto simp del: set_concat)
qed

lemma open_at_thread:
  assumes s: "struct g" and u: "u \<in> open_at g t"
  shows "t \<in> set (g_rootgc g) \<and> (\<exists>th. body g t = Some (BThread th))"
proof -
  have "u \<in> set (open_upvals g t)" using s u by (simp add: struct_def)
  then obtain th where th: "body g t = Some (BThread th)" by (cases "body g t"; cases "the (body g t)") (simp_all add: open_upvals_def)
  then have "t \<in> set (g_rootgc g @ g_tmudata g)" using s by (simp add: struct_def listed_at_def is_open_def)
  moreover have "t \<notin> set (g_tmudata g)" using s th by (auto simp: struct_def typed_at_def)
  ultimately show ?thesis using th by simp
qed

lemma root_pending:
  assumes s: "struct g" and b: "body g a \<noteq> None" "\<not> typed_at g TSTRING a"
  shows "a \<in> set (g_tmudata g) \<or> a \<in> set (g_rootgc g) \<union> (\<Union>t \<in> set (g_rootgc g). open_at g t)"
proof (cases "a \<in> (\<Union>t. open_at g t)")
  case True
  then show ?thesis using open_at_thread [OF s] by blast
next
  case False
  obtain b' where b': "body g a = Some b'" using b by auto
  have "\<not> is_open b'" using False b' by (auto simp: open_at_def is_open_def split: gbody.splits gupval.splits)
  then have "listed_at g a" using b b' by (auto simp: listed_at_def typed_at_def)
  then show ?thesis using s by (auto simp: struct_def)
qed

lemma typed_at_unique: "typed_at g tt a \<Longrightarrow> typed_at g tt' a \<Longrightarrow> tt = tt'"
  by (auto simp: typed_at_def)

lemma bucket_string: "struct g \<Longrightarrow> i < length (g_strt g) \<Longrightarrow> a \<in> set (g_strt g ! i) \<Longrightarrow> typed_at g TSTRING a"
proof -
  assume s: "struct g" and i: "i < length (g_strt g)" "a \<in> set (g_strt g ! i)"
  have "a \<in> set (concat (g_strt g))" using nth_mem [OF i(1)] i(2) by auto
  then show ?thesis using s by (simp add: struct_def del: set_concat)
qed

lemma sweep_bucket_spec:
  assumes h: "heap_ok g" and i: "i < length (g_strt g)"
  shows "sweeps (set (g_strt g ! i)) g (sweep_bucket i g)" "heap_ok (sweep_bucket i g)"
    "g_strt (sweep_bucket i g) = (g_strt g)[i := filter (sweep_keeps g) (g_strt g ! i)]"
proof -
  have st: "struct g" and c: "cw_ok g" using h by (simp_all add: heap_ok_def)
  let ?S = "set (g_strt g ! i)"
  obtain l g1 where r: "sweep_chain (g_strt g ! i) g = (l, g1)" by (cases "sweep_chain (g_strt g ! i) g")
  note str = bucket_string [OF st i]
  have dst: "distinct (g_strt g ! i)" using st i by (auto simp: struct_def distinct_concat_iff)
  have "\<forall>a \<in> ?S. \<exists>b. body g a = Some b \<and> gc_tt b \<noteq> TTHREAD" using str by (fastforce simp: typed_at_def)
  note sc = sweep_chain_sweeps [OF dst this r]
  have e: "sweep_bucket i g = g1\<lparr>g_strt := (g_strt g)[i := filter (sweep_keeps g) (g_strt g ! i)]\<rparr>" using i r sc by (simp add: sweep_bucket_def)
  then show 3: "g_strt (sweep_bucket i g) = (g_strt g)[i := filter (sweep_keeps g) (g_strt g ! i)]" by simp
  show sw: "sweeps ?S g (sweep_bucket i g)" unfolding e using sc by (simp add: sweeps_def)
  let ?r = "sweep_bucket i g"
  have b: "body ?r x = body g x \<or> body ?r x = None \<and> typed_at g TSTRING x" for x using sweeps_body [OF sw, of x] str by auto
  have other: "body ?r x = Some c \<longleftrightarrow> body g x = Some c" if "gc_tt c \<noteq> TSTRING" for x c using b [of x] that by (auto simp: typed_at_def)
  have la: "listed_at ?r x = listed_at g x" for x using other by (auto simp: listed_at_def)
  have op: "open_at ?r t = open_at g t" for t using other by (auto simp: open_at_def)
  have ou: "open_upvals ?r t = open_upvals g t" for t
    using b [of t] by (auto simp: open_upvals_def typed_at_def split: option.split gbody.splits)
  have ty: "typed_at ?r tt x = typed_at g tt x" if "tt \<noteq> TSTRING" for tt x using other that by (auto simp: typed_at_def)
  have s: "{a. typed_at ?r TSTRING a} = {a. typed_at g TSTRING a} - (?S - {a \<in> ?S. sweep_keeps g a})"
    by (auto simp: typed_at_def sweeps_body [OF sw])
  have "objects ?r \<subseteq> objects g" by (auto simp: objects_def sweeps_body [OF sw] split: if_splits)
  then have fin: "finite (objects ?r)" using st finite_subset by (auto simp: struct_def)
  have m5: "bit (marked ?r x) 5 \<longrightarrow> x = g_mainthread g \<or> typed_at ?r TSTRING x" for x
  proof (cases "x \<in> ?S")
    case True
    then show ?thesis using sweeps_mark [OF sw, of x] sweeps_body [OF sw, of x] str [OF True] by (auto simp: typed_at_def)
  next
    case False
    then show ?thesis using sweeps_mark [OF sw, of x] sweeps_body [OF sw, of x] st by (auto simp: struct_def typed_at_def)
  qed
  have "g_uvhead ?r = filter (\<lambda>u. u \<notin> ?S \<or> sweep_keeps g u \<or> u \<notin> opens g) (g_uvhead g)" using sc by (simp add: e)
  also have "\<dots> = g_uvhead g"
  proof (rule filter_True, rule ballI)
    fix u assume "u \<in> set (g_uvhead g)"
    then obtain t j where "body g u = Some (BUpval (UOpen t j))" using st by (auto simp: struct_def open_at_def)
    then show "u \<notin> ?S \<or> sweep_keeps g u \<or> u \<notin> opens g" using str [of u] by (auto simp: typed_at_def)
  qed
  finally have uv: "g_uvhead ?r = g_uvhead g" .
  note cu = concat_update [of "g_strt g" i "filter (sweep_keeps g) (g_strt g ! i)"]
  have al: "after_link ?r (Some m) = after_link g (Some m)" for m using sweeps_fields(10) [OF sw] by (simp add: after_link_def)
  have "set (concat (g_strt ?r)) = {a. typed_at ?r TSTRING a}" unfolding s 3 using cu(2) st i dst by (simp add: struct_def del: set_concat)
  moreover have "distinct (concat (g_strt ?r))" unfolding 3 using cu(1) st i dst by (simp add: struct_def)
  moreover have "g_strt ?r \<noteq> []" using i 3 by auto
  ultimately have "struct ?r" using st fin m5 uv unfolding struct_def la op ou al sweeps_fields [OF sw] by (simp add: ty del: set_concat)
  then show "heap_ok ?r" by (rule sweeps_heap_ok [OF sw h]) (use str string_refs in blast)
qed

lemma sweepstring_step_inv:
  assumes i: "gc_inv g" and p: "g_gcstate g = GCSsweepstring"
  shows "gc_inv (sweepstring_step g)"
proof -
  have h: "heap_ok g" and sw: "swept g" using i p by (simp_all add: gc_inv_def inv_except_def)
  let ?i = "g_sweepstrgc g"
  have lt: "?i < length (g_strt g)" using sw p by (simp add: swept_at_def)
  let ?b = "sweep_bucket ?i g" let ?S = "set (g_strt g ! ?i)"
  note b = sweep_bucket_spec [OF h lt]
  note f = sweeps_fields [OF b(1)]
  have c: "cw_ok g" using h by (simp add: heap_ok_def)
  let ?next = "length (g_strt g) \<le> Suc ?i"
  obtain e where e: "sweepstring_step g = ?b\<lparr>g_sweepstrgc := Suc ?i, g_gcstate := if ?next then GCSsweep else GCSsweepstring, g_estimate := e\<rparr>"
    using f p b(3) by (cases ?b) (auto simp: sweepstring_step_def Let_def freed_since_def)
  let ?r = "?b\<lparr>g_sweepstrgc := Suc ?i, g_gcstate := if ?next then GCSsweep else GCSsweepstring, g_estimate := e\<rparr>"
  have hr: "heap_ok ?r" using b(2) by (subst heap_ok_cong [of _ ?b]) simp_all
  have st: "struct ?r" using hr by (simp add: heap_ok_def)
  have v: "body ?r = body ?b" "marked ?r = marked ?b" by simp_all
  have td: "typed_at ?r tt a = typed_at ?b tt a" for tt a by (simp add: typed_at_def)
  have str: "typed_at g TSTRING a \<Longrightarrow> a \<in> ?S \<or> a \<in> pending ?r \<or> current g a \<or> a \<in> set (g_tmudata g)" for a
  proof -
    assume a: "typed_at g TSTRING a"
    then have "a \<in> pending g \<or> a \<in> set (g_tmudata g) \<or> current g a" using sw by (auto simp: swept_at_def typed_at_def)
    moreover have "a \<in> ?S \<or> a \<in> pending ?r" if "a \<in> pending g"
    proof -
      have "a \<in> set (concat (drop ?i (g_strt g)))" using that a p by (simp add: pending_at_def)
      then have "a \<in> ?S \<or> a \<in> set (concat (drop (Suc ?i) (g_strt g)))" using Cons_nth_drop_Suc [OF lt] by (metis UnE concat.simps(2) set_append)
      then show ?thesis using b(3) by (auto simp: pending_at_def)
    qed
    ultimately show ?thesis by blast
  qed
  have "a \<in> pending ?r \<or> a \<in> set (g_tmudata ?r) \<or> current ?r a" if a: "body ?r a \<noteq> None" for a
  proof (cases "typed_at ?r TSTRING a")
    case True
    then have tg: "typed_at g TSTRING a" by (auto simp: td typed_at_def sweeps_body [OF b(1)] split: if_splits)
    have cr: "current ?r a = current ?b a" by (simp add: current_def luaC_white_def)
    show ?thesis
    proof (cases "a \<in> ?S")
      case True
      then have "sweep_keeps g a" using a sweeps_body [OF b(1), of a] by (simp split: if_splits)
      then show ?thesis using sweeps_current [OF b(1) c True] cr by simp
    next
      case False
      then show ?thesis using str [OF tg] sweeps_unmarked [OF b(1) False] cr f by auto
    qed
  next
    case False
    show ?thesis
    proof (cases ?next)
      case True
      have "g_sweepgc ?r = None" using sw p f by (simp add: swept_at_def)
      then show ?thesis using root_pending [OF st a False] True by (auto simp: pending_at_def after_link_def)
    next
      case False
      then show ?thesis using a \<open>\<not> typed_at ?r TSTRING a\<close> by (simp add: pending_at_def)
    qed
  qed
  moreover have "\<forall>u \<in> set (g_tmudata ?r). iswhite ?r u \<or> isblack ?r u"
  proof
    fix u assume "u \<in> set (g_tmudata ?r)"
    then have u: "u \<in> set (g_tmudata g)" using f by simp
    then have "typed_at g TUSERDATA u" using h by (simp add: heap_ok_def struct_def)
    then have "u \<notin> ?S" using bucket_string [OF _ lt, of u] h typed_at_unique [of g TUSERDATA u TSTRING] by (auto simp: heap_ok_def)
    then show "iswhite ?r u \<or> isblack ?r u" using sweeps_unmarked [OF b(1), of u] sw u by (simp add: swept_at_def iswhite_def isblack_def)
  qed
  moreover have "\<forall>u \<in> opens ?r. \<not> isblack ?r u"
  proof
    fix u assume "u \<in> opens ?r"
    then obtain d where d: "body ?b u = Some d" "is_open d" by (auto simp: opens_def)
    then have dg: "body g u = Some d" using sweeps_body [OF b(1), of u] by (simp split: if_splits)
    then have "\<not> isblack g u" using d sw by (auto simp: swept_at_def opens_def)
    moreover have "\<not> isblack ?b u" if uS: "u \<in> ?S"
    proof -
      have "sweep_keeps g u" using sweeps_body [OF b(1), of u] d(1) uS by (simp split: if_splits)
      then have "current ?b u" by (rule sweeps_current [OF b(1) c uS])
      then show ?thesis using current_white [of ?b u] sweeps_cw [OF b(1)] c by simp
    qed
    ultimately have "\<not> isblack ?b u" using sweeps_unmarked [OF b(1), of u] by blast
    then show "\<not> isblack ?r u" by (simp add: isblack_def)
  qed
  ultimately have "swept ?r" using sw p f b(3) by (simp add: swept_at_def)
  then show ?thesis unfolding e using hr by (simp add: gc_inv_def inv_except_def)
qed

subsection \<open>What a sweep does to an object\<close>

text \<open>The contents of an object: whether an upvalue is open, and in which list it is then, does not count.\<close>

fun content :: "gstate \<Rightarrow> gbody \<Rightarrow> gbody" where
  "content g (BUpval uv) = BUpval (UClosed (upval_value g uv))"
| "content g (BThread t) = BThread (t\<lparr>th_openupval := []\<rparr>)"
| "content g b = b"

definition contents :: "gstate \<Rightarrow> addr \<Rightarrow> gbody option" where
  "contents g x = map_option (content g) (body g x)"

definition collects :: "gstate \<Rightarrow> gstate \<Rightarrow> bool" where
  "collects g g' \<longleftrightarrow> (\<forall>x. body g x \<noteq> None \<longrightarrow> (if sweep_keeps g x then sweep_keeps g' x \<and> contents g' x = contents g x else body g' x = None \<or> \<not> sweep_keeps g' x)) \<and>
     (\<forall>x. body g x = None \<longrightarrow> body g' x = None)"

lemma contents_None [simp]: "contents g x = None \<longleftrightarrow> body g x = None"
  by (simp add: contents_def)

lemma collects_refl [simp]: "collects g g"
  by (simp add: collects_def)

lemma collects_trans: "collects g1 g2 \<Longrightarrow> collects g2 g3 \<Longrightarrow> collects g1 g3"
  unfolding collects_def by (metis contents_None)

lemma collects_cong:
  assumes b: "body g' = body g" and k: "\<And>x. body g x \<noteq> None \<Longrightarrow> sweep_keeps g' x = sweep_keeps g x"
  shows "collects g g'"
proof -
  have "upval_value g' = upval_value g" using upval_value_cong [OF b [symmetric]] by (simp add: fun_eq_iff)
  then have "content g' c = content g c" for c by (cases "(g, c)" rule: content.cases) simp_all
  then have "contents g' x = contents g x" for x by (simp add: contents_def b cong: option.map_cong)
  then show ?thesis using b k by (simp add: collects_def)
qed

lemma content_closed: "(\<And>th i. c \<noteq> BUpval (UOpen th i)) \<Longrightarrow> content g' c = content g c"
proof (cases c)
  case (BUpval uv)
  assume n: "\<And>th i. c \<noteq> BUpval (UOpen th i)"
  show ?thesis
  proof (cases uv)
    case (UOpen th i)
    then show ?thesis using n [of th i] BUpval by blast
  qed (simp add: BUpval)
qed simp_all

lemma sweeps_collects:
  assumes sw: "sweeps S g g'" and c: "cw_ok g" and s: "struct g" and t: "\<And>x. x \<in> S \<Longrightarrow> \<not> typed_at g TTHREAD x"
  shows "collects g g'"
proof -
  note b = sweeps_body [OF sw]
  have ct: "contents g' x = contents g x" if x: "body g' x = body g x" for x
  proof (cases "body g x")
    case None
    then show ?thesis using x by (simp add: contents_def)
  next
    case (Some d)
    have "content g' d = content g d"
    proof (cases "\<exists>th i. d = BUpval (UOpen th i)")
      case True
      then obtain th i where d: "d = BUpval (UOpen th i)" by blast
      then have "x \<in> open_at g th" using Some by (auto simp: open_at_def)
      then obtain t0 where t0: "body g th = Some (BThread t0)" using open_at_thread [OF s] by blast
      then have "th \<notin> S" using t [of th] by (force simp: typed_at_def)
      then have "body g' th = body g th" using b by simp
      then show ?thesis using d by simp
    next
      case False
      then show ?thesis by (intro content_closed) blast
    qed
    then show ?thesis using x Some by (simp add: contents_def)
  qed
  have k: "sweep_keeps g' x" if "sweep_keeps g x" for x
  proof (cases "x \<in> S")
    case True
    then have "current g' x" by (rule sweeps_current [OF sw c _ that])
    moreover have "cw_ok g'" using sweeps_cw [OF sw] c by simp
    ultimately show ?thesis using current_alive keeps_iff by blast
  next
    case False
    then show ?thesis using that sweeps_mark [OF sw, of x] sweeps_fields(1) [OF sw] by (simp add: sweep_keeps_def otherwhite_def)
  qed
  have nk: "\<not> sweep_keeps g' x" if "\<not> sweep_keeps g x" "x \<notin> S" for x
    using that sweeps_mark [OF sw, of x] sweeps_fields(1) [OF sw] by (simp add: sweep_keeps_def otherwhite_def)
  show ?thesis unfolding collects_def
  proof (intro conjI allI impI)
    fix x assume "body g x \<noteq> None"
    show "if sweep_keeps g x then sweep_keeps g' x \<and> contents g' x = contents g x else body g' x = None \<or> \<not> sweep_keeps g' x"
      using ct [of x] k [of x] nk [of x] b [of x] by (cases "x \<in> S") auto
  qed (use b in auto)
qed

lemma openupval_collects:
  assumes b: "body g a = Some (BThread t)" and g': "\<And>x. body g' x = (if x = a then Some (BThread (t\<lparr>th_openupval := us\<rparr>)) else body g x)"
    and m: "marked g' = marked g" "g_currentwhite g' = g_currentwhite g"
  shows "collects g g'"
proof -
  have "upval_value g' uv = upval_value g uv" for uv
    using b by (cases uv) (auto simp: g' stack_slot_def split: option.split)
  then have "content g' c = content g c" for c by (cases "(g, c)" rule: content.cases) simp_all
  then have "contents g' x = contents g x" for x using b by (cases "x = a") (simp_all add: contents_def g' cong: option.map_cong)
  moreover have "sweep_keeps g' x = sweep_keeps g x" for x by (simp add: sweep_keeps_def otherwhite_def m)
  ultimately show ?thesis using b by (auto simp: collects_def g')
qed

lemma sweepstring_step_collects:
  assumes i: "gc_inv g" and p: "g_gcstate g = GCSsweepstring"
  shows "collects g (sweepstring_step g)"
    "g_gcstate (sweepstring_step g) = GCSsweep \<or> g_gcstate (sweepstring_step g) = GCSsweepstring \<and>
       length (g_strt (sweepstring_step g)) - g_sweepstrgc (sweepstring_step g) < length (g_strt g) - g_sweepstrgc g"
proof -
  have h: "heap_ok g" and sw: "swept g" using i p by (simp_all add: gc_inv_def inv_except_def)
  then have st: "struct g" and c: "cw_ok g" by (simp_all add: heap_ok_def)
  let ?i = "g_sweepstrgc g"
  have lt: "?i < length (g_strt g)" using sw p by (simp add: swept_at_def)
  let ?b = "sweep_bucket ?i g"
  note b = sweep_bucket_spec [OF h lt]
  have c1: "collects g ?b"
    by (rule sweeps_collects [OF b(1) c st]) (use bucket_string [OF st lt] typed_at_unique in fastforce)
  have e: "\<exists>s e. sweepstring_step g = ?b\<lparr>g_sweepstrgc := Suc ?i, g_gcstate := s, g_estimate := e\<rparr>"
    using sweeps_fields [OF b(1)] p by (cases ?b) (auto simp: sweepstring_step_def Let_def freed_since_def)
  then obtain s e where e: "sweepstring_step g = ?b\<lparr>g_sweepstrgc := Suc ?i, g_gcstate := s, g_estimate := e\<rparr>" by blast
  have "collects ?b (?b\<lparr>g_sweepstrgc := Suc ?i, g_gcstate := s, g_estimate := e\<rparr>)"
    by (rule collects_cong) (simp_all add: sweep_keeps_def otherwhite_def)
  then show "collects g (sweepstring_step g)" using collects_trans [OF c1] e by simp
  show "g_gcstate (sweepstring_step g) = GCSsweep \<or> g_gcstate (sweepstring_step g) = GCSsweepstring \<and>
       length (g_strt (sweepstring_step g)) - g_sweepstrgc (sweepstring_step g) < length (g_strt g) - g_sweepstrgc g"
    using lt p b(3) sweeps_fields [OF b(1)] by (auto simp: sweepstring_step_def Let_def freed_since_def)
qed

end
