(* ===== verification/Lua_Gc_Barrier.thy ===== *)
theory Lua_Gc_Barrier
  imports Lua_Gc_Sweep
begin

text \<open>The write barriers, and that they restore the invariant after a store.\<close>

subsection \<open>Outside the mark phase\<close>

lemma after_link_cong: "g_rootgc g' = g_rootgc g \<Longrightarrow> after_link g' l = after_link g l"
  by (cases l) (simp_all add: after_link_def)

lemma pending_cong:
  assumes "body g' = body g" "g_rootgc g' = g_rootgc g" "g_gcstate g' = g_gcstate g" "g_strt g' = g_strt g" "g_sweepstrgc g' = g_sweepstrgc g"
  shows "pending_at l g' = pending_at l g" "opens g' = opens g"
  using assms after_link_cong [OF assms(2), of l] by (simp_all add: pending_at_def opens_def open_at_def typed_at_def split: gcstate.split)

lemma swept_makewhite:
  assumes i: "inv_at l g" and p: "g_gcstate g \<noteq> GCSpropagate" and b: "body g a \<noteq> None" and d: "\<not> isdead g a"
  shows "inv_at l (makewhite a g)"
proof -
  have h: "heap_ok g" and s: "swept_at l g" using i p by (simp_all add: inv_at_def)
  then have c: "cw_ok g" and st: "struct g" by (simp_all add: heap_ok_def)
  let ?r = "makewhite a g"
  have k: "sweep_keeps g a" using keeps_iff [OF c] d by simp
  have sw: "sweeps {a} g ?r"
    using b k unfolding makewhite_marks by (simp add: sweeps_def marked_set_mark)
  have bd: "body ?r = body g" by simp
  have "struct ?r" using st makewhite_bits(3) [OF c] unfolding makewhite_marks
    by (simp add: struct_def objects_def open_at_def open_upvals_def listed_at_def after_link_def typed_at_def marked_set_mark del: set_concat)
  then have h': "heap_ok ?r" by (rule sweeps_heap_ok [OF sw h]) (use d in simp)
  have cu: "current ?r a" by (rule sweeps_current [OF sw c _ k]) simp
  have w: "iswhite ?r a" "\<not> isblack ?r a" using current_white [OF _ cu] c sweeps_cw [OF sw] by simp_all
  have o: "pending_at l ?r = pending_at l g" "opens ?r = opens g"
    by (rule pending_cong; simp)+
  have "swept_at l ?r" unfolding swept_at_def o
  proof (intro conjI allI impI ballI)
    show "x \<in> pending_at l g \<or> x \<in> set (g_tmudata ?r) \<or> current ?r x" if "body ?r x \<noteq> None" for x
      using s that cu sweeps_unmarked [OF sw, of x] by (cases "x = a") (auto simp: swept_at_def)
    show "iswhite ?r u \<or> isblack ?r u" if "u \<in> set (g_tmudata ?r)" for u
      using s that w sweeps_unmarked [OF sw, of u] by (cases "u = a") (auto simp: swept_at_def)
    show "\<not> isblack ?r u" if "u \<in> opens g" for u
      using s that w sweeps_unmarked [OF sw, of u] by (cases "u = a") (auto simp: swept_at_def)
  qed (use s in \<open>auto simp: swept_at_def\<close>)
  then show ?thesis using h' p by (simp add: inv_at_def)
qed

lemma gray_mark: "(m_black2gray m) AND 3 = m AND 3"
  by (simp add: m_black2gray_def mask_defs mark_eq_iff bit_and_iff bit_not_iff)

lemma swept_black2gray:
  assumes i: "inv_at l g" and p: "g_gcstate g \<noteq> GCSpropagate" and b: "body g a = Some (BTable h)" and bl: "isblack g a"
  shows "inv_at l (luaC_barrierback a g)"
proof -
  have h: "heap_ok g" and s: "swept_at l g" using i p by (simp_all add: inv_at_def)
  then have c: "cw_ok g" "colours g" and st: "struct g" by (simp_all add: heap_ok_def)
  let ?r = "luaC_barrierback a g"
  have bd: "body ?r = body g" by (simp add: luaC_barrierback_def Let_def)
  have mk: "marked ?r x = (if x = a then m_black2gray (marked g a) else marked g x)" for x
    using b by (simp add: luaC_barrierback_def Let_def marked_set_mark)
  have fl: "g_rootgc ?r = g_rootgc g" "g_strt ?r = g_strt g" "g_tmudata ?r = g_tmudata g" "g_uvhead ?r = g_uvhead g" "g_currentwhite ?r = g_currentwhite g"
    "g_mainthread ?r = g_mainthread g" "g_L ?r = g_L g" "g_registry ?r = g_registry g" "g_mt ?r = g_mt g" "g_gcstate ?r = g_gcstate g"
    "g_sweepgc ?r = g_sweepgc g" "g_sweepstrgc ?r = g_sweepstrgc g"
    by (simp_all add: luaC_barrierback_def Let_def)
  have nw: "\<not> iswhite g a" using c bl by (auto simp: colours_def wb_def)
  have nc: "\<not> current g a" using current_white [of g a] c nw by blast
  have d: "isdead ?r x = isdead g x" for x
    using isdead_white [of g a] isdead_white [of ?r a] nw by (cases "x = a") (auto simp: isdead_def otherwhite_def fl mk iswhite_def)
  have ty: "typed_at ?r tt x = typed_at g tt x" for tt x by (simp add: typed_at_def bd)
  have rl: "refs_live ?r R = refs_live g R" for R by (simp add: refs_live_def live_def d ty)
  have rf: "refs ?r = refs g" by (rule refs_cong [OF bd])
  have "struct ?r" using st by (simp add: struct_def objects_def open_at_def open_upvals_def listed_at_def after_link_def ty bd fl mk del: set_concat)
  moreover have "colours ?r" using c(2) by (auto simp: colours_def wb_def iswhite_def isblack_def mk gray_mark)
  ultimately have h': "heap_ok ?r" using h by (simp add: heap_ok_def cw_ok_def sound_def roots_def mt_refs_def d rl rf fl)
  have at: "a \<notin> set (g_tmudata g)" using st b by (auto simp: struct_def typed_at_def)
  have o: "pending_at l ?r = pending_at l g" "opens ?r = opens g"
    by (rule pending_cong; simp add: bd fl)+
  have cu: "x \<noteq> a \<Longrightarrow> current ?r x = current g x \<and> iswhite ?r x = iswhite g x \<and> isblack ?r x = isblack g x" for x
    by (simp add: current_def luaC_white_def fl mk iswhite_def isblack_def)
  have "swept_at l ?r" unfolding swept_at_def o
  proof (intro conjI allI impI ballI)
    show "x \<in> pending_at l g \<or> x \<in> set (g_tmudata ?r) \<or> current ?r x" if "body ?r x \<noteq> None" for x
      using s that cu [of x] nc at by (cases "x = a") (auto simp: swept_at_def bd fl)
    show "iswhite ?r u \<or> isblack ?r u" if "u \<in> set (g_tmudata ?r)" for u
      using s that at cu [of u] by (cases "u = a") (auto simp: swept_at_def fl)
    show "\<not> isblack ?r u" if "u \<in> opens g" for u
      using s that cu [of u] b by (cases "u = a") (auto simp: swept_at_def opens_def is_open_def)
  qed (use s in \<open>auto simp: swept_at_def fl\<close>)
  then show ?thesis using h' p by (simp add: inv_at_def fl)
qed

subsection \<open>In the mark phase\<close>

lemma inv_except_settle:
  assumes i: "inv_except E g" and p: "g_gcstate g = GCSpropagate" and e: "\<And>x. x \<in> E \<Longrightarrow> iswhite g x \<or> x \<in> excused g \<or> x \<in> set (g_gray g) \<or> ok g x"
  shows "gc_inv g"
proof -
  have "tri g (excused g \<union> E)" using i p by (simp add: inv_except_def marking_def)
  then have "tri g (excused g \<union> {})" using e by (auto simp: tri_def)
  then show ?thesis using i p by (simp add: gc_inv_def inv_except_def marking_def)
qed

lemma not_black_excused:
  assumes m: "marking E g" and b: "body g a = Some b" and n: "\<not> isblack g a" "\<not> iswhite g a"
  shows "a \<in> excused g \<or> a \<in> set (g_gray g) \<or> ok g a"
proof -
  have s: "shades g" using m by (simp add: marking_def minv_def)
  show ?thesis
  proof (cases "gray_kind b")
    case True
    then show ?thesis using shadesD [OF s b n(2)] n by (auto simp: gray_lists_def excused_def)
  next
    case False
    then have "\<not> black_kind b" using shadesD [OF s b n(2)] n by simp
    then show ?thesis using False b by (cases b) (auto simp: gray_kind_def black_kind_def excused_def opens_def ok_def refs_def)
  qed
qed

lemma barrierf_inv:
  assumes i: "inv_except {p} g" and ph: "g_gcstate g = GCSpropagate" and b: "body g p = Some b"
    and r: "\<And>x. x \<in> targets (refs g p) \<Longrightarrow> x = v \<or> \<not> iswhite g x"
  shows "gc_inv (if iswhite g v \<and> isblack g p then luaC_barrierf p v g else g)"
proof (cases "iswhite g v \<and> isblack g p")
  case True
  have mk: "marking {p} g" using i ph by (simp add: inv_except_def)
  then have wt: "wb g" "typed g" by (simp_all add: marking_def minv_def)
  have e: "luaC_barrierf p v g = really_mark 3 v g" using ph by (simp add: luaC_barrierf_def reallymarkobject_def)
  have m: "marks g (really_mark 3 v g)" "\<not> iswhite (really_mark 3 v g) v"
    using really_mark_marks [OF wt _ rank_le_3] True by auto
  have i': "inv_except {p} (really_mark 3 v g)" by (rule marks_inv [OF m(1) i ph])
  have "ok (really_mark 3 v g) p" by (rule ok_marks_refs [of g]) (use m r marks_white [OF m(1)] in blast)
  then have "gc_inv (really_mark 3 v g)" using marks_fields(11) [OF m(1)] ph by (intro inv_except_settle [OF i']) auto
  then show ?thesis using True e by simp
next
  case False
  have mk: "marking {p} g" using i ph by (simp add: inv_except_def)
  have "iswhite g p \<or> p \<in> excused g \<or> p \<in> set (g_gray g) \<or> ok g p"
  proof (cases "iswhite g v")
    case True
    then show ?thesis using False not_black_excused [OF mk b] by blast
  next
    case w: False
    then have "ok g p" using r by (auto simp: ok_targets)
    then show ?thesis by simp
  qed
  then have "gc_inv g" by (intro inv_except_settle [OF i ph]) simp
  then show ?thesis by (simp only: False if_False)
qed

lemma barrierback_inv:
  assumes i: "inv_except {a} g" and ph: "g_gcstate g = GCSpropagate" and b: "body g a = Some (BTable h)" and bl: "isblack g a"
  shows "gc_inv (luaC_barrierback a g)"
proof -
  have h: "heap_ok g" and mk: "marking {a} g" using i ph by (simp_all add: inv_except_def)
  let ?r = "luaC_barrierback a g"
  have m: "minv g" and st: "struct g" and c: "colours g" using mk h by (simp_all add: marking_def heap_ok_def)
  have nw: "\<not> iswhite g a" using c bl by (auto simp: colours_def wb_def)
  have nl: "a \<notin> set (gray_lists g)" using m bl by (auto simp: minv_def mark_lists_def isgray_def)
  have bd: "body ?r = body g" by (simp add: luaC_barrierback_def Let_def)
  have mkd: "marked ?r x = (if x = a then m_black2gray (marked g a) else marked g x)" for x
    using b by (simp add: luaC_barrierback_def Let_def marked_set_mark)
  have fl: "g_gray ?r = g_gray g" "g_grayagain ?r = a # g_grayagain g" "g_weak ?r = g_weak g" "g_tmudata ?r = g_tmudata g" "g_gcstate ?r = g_gcstate g"
    "g_mainthread ?r = g_mainthread g" "g_registry ?r = g_registry g" "g_currentwhite ?r = g_currentwhite g"
    by (simp_all add: luaC_barrierback_def Let_def)
  have w: "iswhite ?r x = iswhite g x" for x by (simp add: iswhite_def mkd gray_mark)
  have bk: "isblack ?r x \<longleftrightarrow> x \<noteq> a \<and> isblack g x" for x by (simp add: isblack_def mkd)
  have gr: "isgray ?r x \<longleftrightarrow> x = a \<or> isgray g x" for x using nw by (auto simp: isgray_def w bk)
  have ga: "gray_at ?r x = gray_at g x" for x by (simp add: gray_at_def bd)
  have rf: "refs ?r = refs g" by (rule refs_cong [OF bd])
  have okk: "ok ?r x = ok g x" for x by (simp add: ok_def rf w)
  have tt: "typed_at ?r = typed_at g" by (simp add: typed_at_def bd fun_eq_iff)
  have l: "gray_lists ?r = g_gray g @ a # g_grayagain g @ g_weak g" by (simp add: gray_lists_def fl)
  have sl: "set (gray_lists ?r) = insert a (set (gray_lists g))" unfolding l by (auto simp: gray_lists_def)
  have "distinct (gray_lists ?r)" unfolding l using m nl by (auto simp: minv_def mark_lists_def gray_lists_def)
  moreover have "gray_at g a" using b by (simp add: gray_at_def gray_kind_def)
  ultimately have "mark_lists ?r" unfolding mark_lists_def sl gr ga bd fl using m by (simp add: minv_def mark_lists_def)
  moreover have "shades ?r" unfolding shades_def sl bk w bd
  proof (intro allI impI)
    fix x c assume x: "body g x = Some c" "\<not> iswhite g x"
    have "shades g" using m by (simp add: minv_def)
    from shadesD [OF this x] show "if gray_kind c then (x \<noteq> a \<and> isblack g x \<or> x \<in> insert a (set (gray_lists g))) \<and> (gc_tt c = TTHREAD \<longrightarrow> \<not> (x \<noteq> a \<and> isblack g x))
        else (x \<noteq> a \<and> isblack g x) = black_kind c"
      using x b by (cases "x = a") (auto simp: gray_kind_def split: if_splits)
  qed
  moreover have "wb ?r" using m by (auto simp: minv_def wb_def w bk)
  moreover have "typed ?r" using m typed_cong [OF bd] by (simp add: minv_def)
  ultimately have mi: "minv ?r" by (simp add: minv_def)
  have "tri g (excused g \<union> {a})" using mk by (simp add: marking_def)
  then have "tri ?r (excused ?r \<union> {})" unfolding tri_def w okk bd by (auto simp: excused_def fl opens_def bd)
  moreover have "isdead ?r x = isdead g x" for x
    using isdead_white [of g a] isdead_white [of ?r a] nw by (cases "x = a") (auto simp: isdead_def otherwhite_def fl mkd iswhite_def)
  ultimately have mk': "marking {} ?r" using mk mi by (simp add: marking_def w fl)
  have d: "isdead ?r x = isdead g x" for x
    using mk mk' by (simp add: marking_def)
  have rl: "refs_live ?r R = refs_live g R" for R by (simp add: refs_live_def live_def d tt)
  have ff: "g_rootgc ?r = g_rootgc g" "g_strt ?r = g_strt g" "g_uvhead ?r = g_uvhead g" "g_L ?r = g_L g" "g_mt ?r = g_mt g"
    by (simp_all add: luaC_barrierback_def Let_def)
  have "struct ?r" using st by (simp add: struct_def objects_def open_at_def open_upvals_def listed_at_def after_link_def tt bd fl ff mkd del: set_concat)
  moreover have "colours ?r" using c by (auto simp: colours_def wb_def iswhite_def isblack_def mkd gray_mark)
  ultimately have "heap_ok ?r" using h by (simp add: heap_ok_def cw_ok_def sound_def roots_def mt_refs_def d rl rf fl ff)
  then show ?thesis using mk' ph by (simp add: gc_inv_def inv_except_def fl)
qed

end
