(* ===== verification/Lua_Gc_Close.thy ===== *)
theory Lua_Gc_Close
  imports Lua_Gc_Barrier
begin

text \<open>Closing the upvalues of a thread keeps the invariant in every phase.\<close>

subsection \<open>An upvalue leaves the list of its thread\<close>

definition closes :: "gstate \<Rightarrow> addr \<Rightarrow> gthread \<Rightarrow> addr \<Rightarrow> addr list \<Rightarrow> gbody option \<Rightarrow> gstate \<Rightarrow> bool" where
  "closes g th t u us c g' \<longleftrightarrow>
     (\<forall>x. body g' x = (if x = u then c else if x = th then Some (BThread (t\<lparr>th_openupval := us\<rparr>)) else body g x)) \<and>
     (\<forall>x. x \<noteq> u \<longrightarrow> marked g' x = marked g x) \<and> (bit (marked g' u) 5 \<longrightarrow> bit (marked g u) 5) \<and>
     marked g' u AND 3 \<noteq> 3 \<and> (iswhite g' u \<longrightarrow> \<not> isblack g' u) \<and>
     g_rootgc g' = (if c = None then g_rootgc g else u # g_rootgc g) \<and> g_uvhead g' = removeAll u (g_uvhead g) \<and>
     g_currentwhite g' = g_currentwhite g \<and> g_mainthread g' = g_mainthread g \<and> g_L g' = g_L g \<and> g_registry g' = g_registry g \<and>
     g_mt g' = g_mt g \<and> g_tmudata g' = g_tmudata g \<and> g_gcstate g' = g_gcstate g \<and> g_strt g' = g_strt g \<and> g_sweepstrgc g' = g_sweepstrgc g \<and> g_sweepgc g' = g_sweepgc g \<and>
     g_gray g' = g_gray g \<and> g_grayagain g' = g_grayagain g \<and> g_weak g' = g_weak g"

definition closing :: "gstate \<Rightarrow> addr \<Rightarrow> gthread \<Rightarrow> addr \<Rightarrow> addr list \<Rightarrow> nat \<Rightarrow> gbody option \<Rightarrow> gstate \<Rightarrow> bool" where
  "closing g th t u us i c g' \<longleftrightarrow> body g th = Some (BThread t) \<and> th_openupval t = u # us \<and> body g u = Some (BUpval (UOpen th i)) \<and>
     closes g th t u us c g' \<and> (if c = None then isdead g u \<and> marked g' u = 0 else c = Some (BUpval (UClosed (stack_slot t i))) \<and> \<not> isdead g u \<and> \<not> isdead g' u)"

lemma closingD:
  assumes "closing g th t u us i c g'"
  shows "body g th = Some (BThread t)" "th_openupval t = u # us" "body g u = Some (BUpval (UOpen th i))" "u \<noteq> th"
    "body g' x = (if x = u then c else if x = th then Some (BThread (t\<lparr>th_openupval := us\<rparr>)) else body g x)"
    "x \<noteq> u \<Longrightarrow> marked g' x = marked g x" "x \<noteq> u \<Longrightarrow> isdead g' x = isdead g x" "x \<noteq> u \<Longrightarrow> iswhite g' x = iswhite g x"
    "x \<noteq> u \<Longrightarrow> isblack g' x = isblack g x" "x \<noteq> u \<Longrightarrow> current g' x = current g x" "\<not> isdead g' u"
proof -
  have cl: "closes g th t u us c g'" and b: "body g th = Some (BThread t)" "th_openupval t = u # us" "body g u = Some (BUpval (UOpen th i))"
    using assms unfolding closing_def by blast+
  show "body g th = Some (BThread t)" "th_openupval t = u # us" "body g u = Some (BUpval (UOpen th i))" by (fact b)+
  show "u \<noteq> th" using b by auto
  show "body g' x = (if x = u then c else if x = th then Some (BThread (t\<lparr>th_openupval := us\<rparr>)) else body g x)" using cl unfolding closes_def by blast
  have m: "x \<noteq> u \<Longrightarrow> marked g' x = marked g x" using cl unfolding closes_def by blast
  then show "x \<noteq> u \<Longrightarrow> marked g' x = marked g x" .
  have w: "g_currentwhite g' = g_currentwhite g" using cl unfolding closes_def by blast
  show "x \<noteq> u \<Longrightarrow> isdead g' x = isdead g x" "x \<noteq> u \<Longrightarrow> iswhite g' x = iswhite g x"
    "x \<noteq> u \<Longrightarrow> isblack g' x = isblack g x" "x \<noteq> u \<Longrightarrow> current g' x = current g x"
    using m w by (simp_all add: isdead_def iswhite_def isblack_def current_def otherwhite_def luaC_white_def)
  show "\<not> isdead g' u" using assms unfolding closing_def by (simp add: isdead_def split: if_splits)
qed

lemma closing_fields:
  assumes "closing g th t u us i c g'"
  shows "g_rootgc g' = (if c = None then g_rootgc g else u # g_rootgc g)" "g_uvhead g' = removeAll u (g_uvhead g)" "g_currentwhite g' = g_currentwhite g"
    "g_mainthread g' = g_mainthread g" "g_L g' = g_L g" "g_registry g' = g_registry g" "g_mt g' = g_mt g" "g_tmudata g' = g_tmudata g"
    "g_gcstate g' = g_gcstate g" "g_strt g' = g_strt g" "g_sweepstrgc g' = g_sweepstrgc g" "g_gray g' = g_gray g" "g_grayagain g' = g_grayagain g" "g_weak g' = g_weak g"
    "g_sweepgc g' = g_sweepgc g"
  using assms by (simp_all add: closing_def closes_def)

lemma closing_cases:
  assumes "closing g th t u us i c g'"
  obtains (freed) "c = None" "isdead g u" "marked g' u = 0" | (closed) "c = Some (BUpval (UClosed (stack_slot t i)))" "\<not> isdead g u"
proof (cases "c = None")
  case True
  then show ?thesis using assms freed unfolding closing_def by simp
next
  case False
  then show ?thesis using assms closed unfolding closing_def by simp
qed

lemma closing_views:
  assumes c: "closing g th t u us i c g'"
  shows "x \<noteq> u \<Longrightarrow> typed_at g' tt x = typed_at g tt x" "listed_at g' x \<longleftrightarrow> listed_at g x \<or> x = u \<and> c \<noteq> None"
    "open_at g' s = open_at g s - {u}" "open_upvals g' s = (if s = th then us else open_upvals g s)" "opens g' = opens g - {u}"
    "tt \<noteq> TUPVAL \<Longrightarrow> typed_at g' tt x = typed_at g tt x"
proof -
  note d = closingD [OF c]
  have nu: "c = None \<or> (\<exists>v. c = Some (BUpval (UClosed v)))" using closing_cases [OF c] by metis
  show "x \<noteq> u \<Longrightarrow> typed_at g' tt x = typed_at g tt x" using d(1) by (auto simp: typed_at_def d(5))
  show "listed_at g' x \<longleftrightarrow> listed_at g x \<or> x = u \<and> c \<noteq> None" using d(1,3) nu by (auto simp: listed_at_def d(5) is_open_def)
  show "open_at g' s = open_at g s - {u}" using d(1) nu by (auto simp: open_at_def d(5) split: if_splits)
  show "open_upvals g' s = (if s = th then us else open_upvals g s)" using d(1,3,4) nu by (auto simp: open_upvals_def d(5))
  show "opens g' = opens g - {u}" using d(1) nu by (auto simp: opens_def d(5) is_open_def split: if_splits)
  show "tt \<noteq> TUPVAL \<Longrightarrow> typed_at g' tt x = typed_at g tt x" using d(1,3) nu by (auto simp: typed_at_def d(5))
qed

lemma closing_struct:
  assumes c: "closing g th t u us i c g'" and s: "struct g"
  shows "struct g'"
proof -
  note d = closingD [OF c] and f = closing_fields [OF c] and v = closing_views [OF c]
  have ou: "open_upvals g th = u # us" using d(1,2) by (simp add: open_upvals_def)
  have "distinct (open_upvals g th) \<and> set (open_upvals g th) = open_at g th" using s by (simp add: struct_def)
  then have th: "distinct us \<and> set us = open_at g th - {u}" unfolding ou by auto
  have uo: "u \<in> open_at g th" using d(3) by (simp add: open_at_def)
  have nl: "\<not> listed_at g u" using d(3) by (simp add: listed_at_def is_open_def)
  then have nr: "u \<notin> set (g_rootgc g)" "u \<notin> set (g_tmudata g)" using s by (auto simp: struct_def)
  have other: "s \<noteq> th \<Longrightarrow> u \<notin> open_at g s" for s using d(3) by (simp add: open_at_def)
  have "objects g' \<subseteq> objects g" using d(1,3) by (auto simp: objects_def d(5) split: if_splits)
  then have "finite (objects g')" using s finite_subset by (auto simp: struct_def)
  moreover have "\<forall>s. distinct (open_upvals g' s) \<and> set (open_upvals g' s) = open_at g' s"
    unfolding v(3,4) using s th other by (auto simp: struct_def)
  moreover have "distinct (removeAll u (g_uvhead g)) \<and> set (removeAll u (g_uvhead g)) = (\<Union>s. open_at g' s)"
    unfolding v(3) using s by (auto simp: struct_def distinct_removeAll)
  moreover have "set (g_rootgc g' @ g_tmudata g') = {a. listed_at g' a}" "distinct (g_rootgc g' @ g_tmudata g')"
    unfolding v(2) f(1,8) using s nr by (auto simp: struct_def)
  moreover have "set (after_link g' (Some (g_mainthread g))) = set (after_link g (Some (g_mainthread g)))"
    using nr(1) s unfolding f(1) after_link_def by (auto simp: f(1) struct_def)
  moreover have "bit (marked g' x) 5 \<longrightarrow> x = g_mainthread g \<or> typed_at g TSTRING x" for x
    using s d(6) [of x] c by (cases "x = u") (auto simp: struct_def closing_def closes_def)
  moreover have "typed_at g' TSTRING = typed_at g TSTRING" "typed_at g' TUSERDATA = typed_at g TUSERDATA" by (simp_all add: fun_eq_iff v(6))
  ultimately show ?thesis using s unfolding struct_def f(2,4,8,10) by (simp add: f(1) del: set_concat)
qed

lemma closing_refs:
  assumes c: "closing g th t u us i c g'"
  shows "refs g' x \<subseteq> refs g x"
proof -
  note d = closingD [OF c]
  have th: "\<exists>th0. body g s = Some (BThread th0) \<and> stack_slot tb = stack_slot th0" if "body g' s = Some (BThread tb)" for s tb
    using that d(1,3) closing_cases [OF c] unfolding d(5) by (fastforce simp: stack_slot_def fun_eq_iff split: if_splits)
  show ?thesis
  proof (cases "x = u")
    case True
    show ?thesis by (rule closing_cases [OF c]) (use d(1,3) d(5) [of u] True in \<open>simp_all add: refs_def\<close>)
  next
    case False
    show ?thesis
    proof (cases "x = th")
      case True
      then show ?thesis using d(1,4,5) by (simp add: refs_def)
    next
      case xth: False
      show ?thesis by (rule refs_shrink [OF _ th]) (use False xth in \<open>auto simp: d(5)\<close>)
    qed
  qed
qed

lemma closing_lives: "closing g th t u us i c g' \<Longrightarrow> lives g g'"
proof -
  assume c: "closing g th t u us i c g'"
  note d = closingD [OF c]
  have "live g' tt r" if l: "live g tt r" for tt r
  proof (cases "r = u")
    case True
    then have "c = Some (BUpval (UClosed (stack_slot t i)))" using closing_cases [OF c] l by (auto simp: live_def)
    then show ?thesis using l d(3,5,11) True by (auto simp: live_def typed_at_def)
  next
    case False
    then show ?thesis using l d(7) closing_views(1) [OF c] by (simp add: live_def)
  qed
  then show ?thesis by (simp add: lives_def)
qed

lemma closing_heap_ok:
  assumes c: "closing g th t u us i c g'" and h: "heap_ok g"
  shows "heap_ok g'"
proof -
  note d = closingD [OF c] and f = closing_fields [OF c]
  have l: "lives g g'" by (rule closing_lives [OF c])
  have "sound g'"
  proof (rule sound_step [OF l])
    fix a assume a: "\<not> isdead g' a"
    show "refs_live g (refs g' a)"
    proof (cases "a = u")
      case True
      show ?thesis
      proof (rule closing_cases [OF c])
        assume "c = None"
        then show ?thesis using True d(5) [of u] by (simp add: refs_def refs_live_def)
      next
        assume "\<not> isdead g u"
        then have "refs_live g (refs g u)" using h by (simp add: heap_ok_def sound_def)
        then show ?thesis using closing_refs [OF c, of a] True by (auto intro: refs_live_mono)
      qed
    next
      case False
      then have "refs_live g (refs g a)" using h a d(7) by (simp add: heap_ok_def sound_def)
      then show ?thesis using closing_refs [OF c, of a] by (rule refs_live_mono)
    qed
  qed
  moreover have "refs_live g' (roots g')" by (rule roots_live_step [OF l]) (use h f in \<open>simp_all add: heap_ok_def\<close>)
  moreover have "colours g'"
  proof -
    have "marked g' x AND 3 \<noteq> 3 \<and> (iswhite g' x \<longrightarrow> \<not> isblack g' x)" for x
      using h c d(6,8,9) [of x] by (cases "x = u") (auto simp: heap_ok_def colours_def wb_def closing_def closes_def)
    then show ?thesis by (simp add: colours_def wb_def)
  qed
  ultimately show ?thesis using h closing_struct [OF c] f by (simp add: heap_ok_def cw_ok_def)
qed

subsection \<open>Phases\<close>

lemma closing_pending:
  assumes c: "closing g th t u us i c g'" and st: "struct g" and s: "swept_at l g" and x: "x \<in> pending_at l g" "x \<noteq> u" and b: "body g' x \<noteq> None"
  shows "x \<in> pending_at l g'"
proof -
  note f = closing_fields [OF c] and v = closing_views [OF c]
  show ?thesis
  proof (cases "g_gcstate g")
    case GCSsweepstring
    then show ?thesis using x b f v(1) [OF x(2)] by (auto simp: pending_at_def)
  next
    case GCSsweep
    have "\<not> listed_at g u" using closingD(3) [OF c] by (simp add: listed_at_def is_open_def)
    then have nr: "u \<notin> set (g_rootgc g)" using st by (auto simp: struct_def)
    have sub: "set (after_link g l) \<subseteq> set (after_link g' l)"
    proof (cases l)
      case None
      then show ?thesis by (auto simp: after_link_def f(1))
    next
      case (Some p)
      then have "p \<in> set (g_rootgc g)" using s GCSsweep by (simp add: swept_at_def)
      then have "p \<noteq> u" using nr by auto
      then show ?thesis using Some by (simp add: after_link_def f(1))
    qed
    have "x \<in> set (after_link g l) \<or> (\<exists>t \<in> set (after_link g l). x \<in> open_at g t)" using x GCSsweep by (auto simp: pending_at_def)
    then show ?thesis using sub x(2) GCSsweep f(9) unfolding pending_at_def by (auto simp: v(3))
  qed (use x in \<open>simp_all add: pending_at_def\<close>)
qed

lemma closing_swept:
  assumes c: "closing g th t u us i c g'" and i: "inv_at l g" and p: "g_gcstate g \<noteq> GCSpropagate" and cu: "c \<noteq> None \<Longrightarrow> current g' u"
  shows "inv_at l g'"
proof -
  note d = closingD [OF c] and f = closing_fields [OF c] and v = closing_views [OF c]
  have h: "heap_ok g" and s: "swept_at l g" and st: "struct g" using i p by (simp_all add: inv_at_def heap_ok_def)
  have h': "heap_ok g'" by (rule closing_heap_ok [OF c h])
  have nt: "u \<notin> set (g_tmudata g)" using st d(3) by (auto simp: struct_def typed_at_def)
  have "swept_at l g'" unfolding swept_at_def f
  proof (intro conjI allI impI ballI)
    fix x assume b: "body g' x \<noteq> None"
    show "x \<in> pending_at l g' \<or> x \<in> set (g_tmudata g) \<or> current g' x"
    proof (cases "x = u")
      case True
      then show ?thesis using cu b d(5) [of u] by auto
    next
      case False
      then have "body g x \<noteq> None" using b d(1,5) by (auto split: if_splits)
      then have "x \<in> pending_at l g \<or> x \<in> set (g_tmudata g) \<or> current g x" using s by (simp add: swept_at_def)
      then show ?thesis using closing_pending [OF c st s _ False b] d(10) [OF False] by auto
    qed
  next
    fix x assume x: "x \<in> set (g_tmudata g)"
    then show "iswhite g' x \<or> isblack g' x" using s nt d(8,9) [of x] by (cases "x = u") (auto simp: swept_at_def)
  next
    fix x assume "x \<in> opens g'"
    then show "\<not> isblack g' x" using s d(9) [of x] by (auto simp: swept_at_def v)
  next
    fix q assume "g_gcstate g = GCSsweep" "l = Some q"
    then show "q \<in> set (if c = None then g_rootgc g else u # g_rootgc g)" using s by (auto simp: swept_at_def)
  qed (use s in \<open>auto simp: swept_at_def\<close>)
  then show ?thesis using h' p f by (simp add: inv_at_def)
qed

lemma closing_marking:
  assumes c: "closing g th t u us i c g'" and i: "inv_at l g" and p: "g_gcstate g = GCSpropagate"
    and w: "iswhite g' u \<and> iswhite g u \<or> isblack g' u \<and> \<not> iswhite g' u \<and> \<not> iswhite g u"
  shows "inv_except {u} g'"
proof -
  note d = closingD [OF c] and f = closing_fields [OF c] and v = closing_views [OF c]
  have h: "heap_ok g" and mk: "marking {} g" using i p by (simp_all add: inv_at_def)
  have cu: "c = Some (BUpval (UClosed (stack_slot t i)))" using closing_cases [OF c] mk by (auto simp: marking_def)
  have m: "minv g" and st: "struct g" using mk h by (simp_all add: marking_def heap_ok_def)
  have white: "iswhite g' x = iswhite g x" for x using w d(8) [of x] by (cases "x = u") auto
  have bl: "isblack g' x = isblack g x" if "x \<noteq> u" for x using d(9) that by simp
  have gl: "gray_lists g' = gray_lists g" by (simp add: gray_lists_def f)
  have nu: "u \<notin> set (gray_lists g)" using m d(3) by (auto simp: minv_def mark_lists_def gray_at_def gray_kind_def)
  have kind: "\<exists>b. body g x = Some b \<and> gc_tt b = gc_tt b' \<and> (is_open b \<longleftrightarrow> is_open b')" if "body g' x = Some b'" "x \<noteq> u" for x b'
    using that d(1) unfolding d(5) by (auto simp: is_open_def split: if_splits)
  have tb: "\<exists>h'. body g' x = Some (BTable h')" if "body g x = Some (BTable h)" for x h using that d(1,3) by (auto simp: d(5))
  have ga: "gray_at g' x" if g: "gray_at g x" for x
    using g d(1,3) by (auto simp: gray_at_def d(5) gray_kind_def)
  have "mark_lists g'" unfolding mark_lists_def gl f(14)
  proof (intro conjI ballI)
    fix x assume x: "x \<in> set (gray_lists g)"
    then show "gray_at g' x" using m ga by (simp add: minv_def mark_lists_def)
    have "x \<noteq> u" using x nu by auto
    then show "isgray g' x" using m x bl white by (simp add: minv_def mark_lists_def isgray_def)
  qed (use m tb in \<open>auto simp: minv_def mark_lists_def\<close>)
  moreover have "shades g'" unfolding shades_def gl
  proof (intro allI impI)
    fix x b' assume x: "body g' x = Some b'" "\<not> iswhite g' x"
    show "if gray_kind b' then (isblack g' x \<or> x \<in> set (gray_lists g)) \<and> (gc_tt b' = TTHREAD \<longrightarrow> \<not> isblack g' x) else isblack g' x = black_kind b'"
    proof (cases "x = u")
      case True
      then show ?thesis using x w d(5) [of u] cu by (auto simp: gray_kind_def black_kind_def is_open_def)
    next
      case False
      obtain b where b: "body g x = Some b" "gc_tt b = gc_tt b'" "is_open b \<longleftrightarrow> is_open b'" using kind [OF x(1) False] by blast
      have "shades g" using m by (simp add: minv_def)
      from shadesD [OF this b(1)] show ?thesis using x(2) white bl [OF False] b(2,3) by (simp add: gray_kind_def black_kind_def)
    qed
  qed
  moreover have "colours g'" using closing_heap_ok [OF c h] by (simp add: heap_ok_def)
  moreover have dead: "\<not> isdead g' x" for x using d(7) [of x] d(11) mk by (cases "x = u") (auto simp: marking_def)
  moreover have "sound g'" using closing_heap_ok [OF c h] by (simp add: heap_ok_def)
  ultimately have "minv g'" using alive_typed [of g'] by (simp add: minv_def colours_def)
  moreover have "tri g' (excused g' \<union> {u})" unfolding tri_def
  proof (intro allI impI)
    fix x assume x: "body g' x \<noteq> None" "\<not> iswhite g' x"
    show "x \<in> excused g' \<union> {u} \<or> x \<in> set (g_gray g') \<or> ok g' x"
    proof (cases "x = u")
      case False
      then have "body g x \<noteq> None" using x d(1) by (auto simp: d(5) split: if_splits)
      then have "x \<in> excused g \<or> x \<in> set (g_gray g) \<or> ok g x" using mk x white by (auto simp: marking_def tri_def)
      moreover have "ok g x \<Longrightarrow> ok g' x" using closing_refs [OF c, of x] white by (auto simp: ok_def)
      moreover have "x \<in> excused g \<Longrightarrow> x \<in> excused g'" using False by (auto simp: excused_def f v)
      ultimately show ?thesis by (auto simp: f)
    qed simp
  qed
  ultimately have "marking {u} g'" using mk dead white by (simp add: marking_def f)
  then show ?thesis using closing_heap_ok [OF c h] p f by (simp add: inv_except_def)
qed

subsection \<open>luaF_close\<close>

definition first_open :: "gstate \<Rightarrow> addr \<Rightarrow> gthread \<Rightarrow> addr \<Rightarrow> addr list \<Rightarrow> nat \<Rightarrow> bool" where
  "first_open g th t u us i \<longleftrightarrow> body g th = Some (BThread t) \<and> th_openupval t = u # us \<and> body g u = Some (BUpval (UOpen th i))"

lemma close_dead:
  assumes o: "first_open g th t u us i" and d: "isdead g u"
  shows "closing g th t u us i None (close_upval u (set_openupval th us g))"
proof -
  have b: "body g th = Some (BThread t)" "th_openupval t = u # us" "body g u = Some (BUpval (UOpen th i))" "u \<noteq> th" using o by (auto simp: first_open_def)
  let ?g1 = "set_body th (BThread (t\<lparr>th_openupval := us\<rparr>)) g"
  have g1: "set_openupval th us g = ?g1" using b by (simp add: set_openupval_def)
  have "isdead ?g1 u" using d by (simp add: isdead_def otherwhite_def)
  then have e: "close_upval u (set_openupval th us g) = luaM_free u 40 (unlinkupval u ?g1)"
    using b by (simp add: g1 close_upval_def luaF_freeupval_def body_set_body)
  show ?thesis unfolding e closing_def closes_def using b d
    by (auto simp: body_free body_set_body iswhite_def m_white_def isblack_def m_black_def)
qed

lemma close_alive:
  assumes o: "first_open g th t u us i" and d: "\<not> isdead g u"
  defines "g1 \<equiv> set_body u (BUpval (UClosed (stack_slot t i))) (unlinkupval u (set_body th (BThread (t\<lparr>th_openupval := us\<rparr>)) g))"
  defines "g2 \<equiv> g1\<lparr>g_rootgc := u # g_rootgc g1\<rparr>"
  shows "close_upval u (set_openupval th us g) = (if isgray g u then
      if g_gcstate g = GCSpropagate then luaC_barrier u (stack_slot t i) (gray2black u g2) else makewhite u g2 else g2)"
    "bit (F (marked g u)) 5 = bit (marked g u) 5 \<Longrightarrow> F (marked g u) AND 3 \<noteq> 3 \<Longrightarrow>
     (m_white (F (marked g u)) \<Longrightarrow> \<not> m_black (F (marked g u))) \<Longrightarrow> F (marked g u) AND otherwhite g AND WHITEBITS = 0 \<Longrightarrow>
     closing g th t u us i (Some (BUpval (UClosed (stack_slot t i)))) (set_mark u F g2)"
proof -
  have b: "body g th = Some (BThread t)" "th_openupval t = u # us" "body g u = Some (BUpval (UOpen th i))" "u \<noteq> th" using o by (auto simp: first_open_def)
  let ?g0 = "set_body th (BThread (t\<lparr>th_openupval := us\<rparr>)) g"
  have g0: "set_openupval th us g = ?g0" using b by (simp add: set_openupval_def)
  have d0: "\<not> isdead ?g0 u" using d by (simp add: isdead_def otherwhite_def)
  have v: "upval_value ?g0 (UOpen th i) = stack_slot t i" using b by (simp add: body_set_body stack_slot_def)
  have b2: "body g2 u = Some (BUpval (UClosed (stack_slot t i)))" "isgray g2 u = isgray g u" "g_gcstate g2 = g_gcstate g"
    using b by (simp_all add: g2_def g1_def body_set_body isgray_def isblack_def iswhite_def)
  have "close_upval u ?g0 = luaC_linkupval u g1" using d0 b v by (simp add: close_upval_def body_set_body g1_def)
  moreover have "luaC_linkupval u g1 = (if isgray g u then
      if g_gcstate g = GCSpropagate then luaC_barrier u (stack_slot t i) (gray2black u g2) else makewhite u g2 else g2)"
    using b2 by (simp add: luaC_linkupval_def Let_def g2_def)
  ultimately show "close_upval u (set_openupval th us g) = (if isgray g u then
      if g_gcstate g = GCSpropagate then luaC_barrier u (stack_slot t i) (gray2black u g2) else makewhite u g2 else g2)" by (simp add: g0)
  show "closing g th t u us i (Some (BUpval (UClosed (stack_slot t i)))) (set_mark u F g2)"
    if "bit (F (marked g u)) 5 = bit (marked g u) 5" "F (marked g u) AND 3 \<noteq> 3" "m_white (F (marked g u)) \<Longrightarrow> \<not> m_black (F (marked g u))"
      "F (marked g u) AND otherwhite g AND WHITEBITS = 0"
    unfolding closing_def closes_def using b d that
    by (auto simp: g2_def g1_def body_set_body marked_set_mark iswhite_def isblack_def isdead_def otherwhite_def)
qed

lemma mark_bits_shift: "m AND 3 \<noteq> 3 \<Longrightarrow> m_gray2black m AND 3 \<noteq> 3" "bit (m_gray2black m) 5 = bit m 5" "m_gray2black m AND n AND WHITEBITS = m AND n AND WHITEBITS"
  by (simp_all add: m_gray2black_def mask_defs mark_eq_iff bit_and_iff bit_or_iff)

lemma barrier_value:
  assumes i: "inv_except {p} g" and ph: "g_gcstate g = GCSpropagate" and b: "body g p = Some b" and r: "refs g p \<subseteq> vrefs v"
  shows "gc_inv (luaC_barrier p v g)"
proof -
  have nb: "\<not> (iswhite g p \<and> isblack g p)" using i by (auto simp: inv_except_def heap_ok_def colours_def wb_def)
  show ?thesis
  proof (cases v)
    case (GObj tt a)
    have "luaC_barrier p v g = (if iswhite g a \<and> isblack g p then luaC_barrierf p a g else g)" by (simp add: luaC_barrier_def valiswhite_def GObj)
    moreover have "x = a \<or> \<not> iswhite g x" if "x \<in> targets (refs g p)" for x using that r GObj by (auto simp: targets_def)
    ultimately show ?thesis using barrierf_inv [OF i ph b, of a] by simp
  next
    case (GDead a)
    then have "luaC_barrier p v g = (if iswhite g p \<and> isblack g p then luaC_barrierf p p g else g)"
      using nb by (auto simp: luaC_barrier_def)
    moreover have "x = p \<or> \<not> iswhite g x" if x: "x \<in> targets (refs g p)" for x
    proof -
      have mk: "typed g" using i ph by (simp add: inv_except_def marking_def minv_def)
      obtain tt where "(tt, x) \<in> refs g p" using x by (auto simp: targets_def)
      moreover from this have "tt = TDEADKEY" using r GDead by auto
      ultimately have "typed_at g TDEADKEY x" using mk by (auto simp: typed_def)
      then show ?thesis by (auto simp: typed_at_def elim: gc_tt.elims)
    qed
    ultimately show ?thesis using barrierf_inv [OF i ph b, of p] by simp
  next
    case GNil
    then show ?thesis using barrierf_inv [OF i ph b, of p] r nb by (simp add: luaC_barrier_def targets_def)
  next
    case GPlain
    then show ?thesis using barrierf_inv [OF i ph b, of p] r nb by (simp add: luaC_barrier_def targets_def)
  qed
qed

lemma barrier_marks:
  assumes i: "inv_except E g" and ph: "g_gcstate g = GCSpropagate"
  shows "marks g (luaC_barrier p v g) \<and> body (luaC_barrier p v g) = body g"
proof (cases v)
  case (GObj tt x)
  show ?thesis
  proof (cases "iswhite g x \<and> isblack g p")
    case True
    then have e: "luaC_barrier p v g = really_mark 3 x g" using GObj ph by (simp add: luaC_barrier_def valiswhite_def luaC_barrierf_def reallymarkobject_def)
    have "marks g (really_mark 3 x g)" using i ph really_mark_marks [of g x 3] True rank_le_3 by (simp add: inv_except_def marking_def minv_def)
    then show ?thesis by (simp add: e body_really_mark)
  next
    case False
    then show ?thesis using GObj by (auto simp: luaC_barrier_def valiswhite_def)
  qed
qed (simp_all add: luaC_barrier_def)

lemma marked_collects:
  assumes l: "later g g'" and b: "body g' = body g" and c: "cw_ok g" and n: "\<And>x. \<not> isdead g x"
  shows "collects g g'"
proof (rule collects_cong [OF b])
  fix x
  have c': "cw_ok g'" using l c by (simp add: later_def glob_def cw_ok_def)
  have "\<not> isdead g' x" using later_isdead [OF l] n by blast
  then show "sweep_keeps g' x = sweep_keeps g x" using keeps_iff [OF c] keeps_iff [OF c'] n by simp
qed

text \<open>What closing upvalues does besides: nothing live dies, nothing but dead upvalues is freed, and what is linked was open before.\<close>

definition closed :: "gstate \<Rightarrow> gstate \<Rightarrow> bool" where
  "closed g g' \<longleftrightarrow> lives g g' \<and> opens g' \<subseteq> opens g \<and> (\<exists>pre. g_rootgc g' = pre @ g_rootgc g \<and> distinct pre \<and> set pre \<subseteq> opens g - opens g') \<and> collects g g'"

lemma closed_refl [simp]: "closed g g"
  by (simp add: closed_def lives_def)

lemma closed_trans:
  assumes 1: "closed g1 g2" and 2: "closed g2 g3"
  shows "closed g1 g3"
proof -
  obtain p q where p: "g_rootgc g2 = p @ g_rootgc g1" "distinct p" "set p \<subseteq> opens g1 - opens g2"
    and q: "g_rootgc g3 = q @ g_rootgc g2" "distinct q" "set q \<subseteq> opens g2 - opens g3" using 1 2 by (auto simp: closed_def)
  have o: "opens g2 \<subseteq> opens g1" "opens g3 \<subseteq> opens g2" using 1 2 by (simp_all add: closed_def)
  have "g_rootgc g3 = (q @ p) @ g_rootgc g1" "distinct (q @ p)" "set (q @ p) \<subseteq> opens g1 - opens g3" using p q o by auto
  moreover have "lives g1 g3" using 1 2 by (simp add: closed_def lives_def)
  moreover have "collects g1 g3" using 1 2 collects_trans by (auto simp: closed_def)
  ultimately show ?thesis using o unfolding closed_def by blast
qed

lemma closing_contents:
  assumes cl: "closing g th t u us j c g'" and x: "x \<noteq> u \<or> c \<noteq> None"
  shows "contents g' x = contents g x"
proof -
  note d = closingD [OF cl]
  have uv: "upval_value g' (UOpen s i) = upval_value g (UOpen s i)" for s i
  proof (cases "s = u")
    case True
    have "body g' u = None \<or> (\<exists>v. body g' u = Some (BUpval v))" using d(5) [of u] cl by (auto simp: closing_def split: if_splits)
    then show ?thesis using True d(3) by auto
  next
    case False
    then show ?thesis using d(1) d(5) [of s] by (auto simp: stack_slot_def split: option.split)
  qed
  have ct: "content g' b = content g b" for b
  proof (cases "\<exists>s i. b = BUpval (UOpen s i)")
    case True
    then show ?thesis using uv by (auto simp del: upval_value.simps)
  qed (auto intro: content_closed)
  consider "x = u" | "x = th" | "x \<noteq> u" "x \<noteq> th" by blast
  then show ?thesis
  proof cases
    case 1
    then have "c = Some (BUpval (UClosed (stack_slot t j)))" using x cl by (simp add: closing_def split: if_splits)
    then show ?thesis using 1 d(1,3) d(5) [of u] by (simp add: contents_def)
  next
    case 2
    then show ?thesis using d(1,4) d(5) [of th] by (simp add: contents_def)
  next
    case 3
    then show ?thesis using d(5) [of x] ct by (simp add: contents_def cong: option.map_cong)
  qed
qed

lemma closing_closed:
  assumes cl: "closing g th t u us j c g'" and c: "cw_ok g" and st: "struct g"
  shows "closed g g'"
proof -
  note d = closingD [OF cl] and f = closing_fields [OF cl]
  have "listed_at g (g_mainthread g)" using st by (auto simp: struct_def)
  then have "u \<noteq> g_mainthread g" using d(3) by (auto simp: listed_at_def is_open_def)
  then have n5: "\<not> bit (marked g u) 5" using st d(3) by (auto simp: struct_def typed_at_def)
  have opn: "opens g' = opens g - {u}"
  proof -
    have "y \<in> opens g' \<longleftrightarrow> y \<in> opens g - {u}" for y
      using d(1,3,4) d(5) [of y] cl by (cases "y = u"; cases "y = th") (auto simp: opens_def is_open_def closing_def split: if_splits)
    then show ?thesis by blast
  qed
  have kp: "sweep_keeps g' y = sweep_keeps g y" if "y \<noteq> u" for y using d(6) [OF that] f(3) by (simp add: sweep_keeps_def otherwhite_def)
  have ku: "c \<noteq> None \<Longrightarrow> sweep_keeps g' u \<and> sweep_keeps g u"
    using cl keeps_iff [OF c, of u] keeps_iff [of g' u] c f(3) d(11) by (simp add: closing_def cw_ok_def)
  have ud: "c = None \<Longrightarrow> \<not> sweep_keeps g u \<and> body g' u = None" using cl keeps_iff [OF c, of u] n5 d(5) [of u] by (simp add: closing_def)
  have "collects g g'" unfolding collects_def
  proof (intro conjI allI impI)
    fix y assume "body g y \<noteq> None"
    show "if sweep_keeps g y then sweep_keeps g' y \<and> contents g' y = contents g y else body g' y = None \<or> \<not> sweep_keeps g' y"
      using kp [of y] ku ud closing_contents [OF cl, of y] by (cases "y = u"; cases "c = None") auto
  next
    fix y assume "body g y = None"
    then show "body g' y = None" using d(1,3) d(5) [of y] by (auto split: if_splits)
  qed
  moreover have "\<exists>pre. g_rootgc g' = pre @ g_rootgc g \<and> distinct pre \<and> set pre \<subseteq> opens g - opens g'"
  proof (cases "c = None")
    case True
    then show ?thesis using f(1) by (intro exI [of _ "[]"]) simp
  next
    case False
    have "u \<in> opens g" using d(3) by (auto simp: opens_def is_open_def)
    then show ?thesis using f(1) False opn by (intro exI [of _ "[u]"]) simp
  qed
  ultimately show ?thesis using closing_lives [OF cl] opn unfolding closed_def by blast
qed

lemma close_upval_inv:
  assumes i: "inv_at l g" and o: "first_open g th t u us j"
  defines "g' \<equiv> close_upval u (set_openupval th us g)"
  shows "inv_at l g'" "g_gcstate g' = g_gcstate g" "g_sweepgc g' = g_sweepgc g" "\<exists>t'. body g' th = Some (BThread t') \<and> th_openupval t' = us"
    "g_gcstate g \<noteq> GCSpropagate \<Longrightarrow> isdead g' th = isdead g th" "closed g g'"
proof -
  have h: "heap_ok g" using i by (simp add: inv_at_def)
  then have c: "cw_ok g" and co: "colours g" and st: "struct g" by (simp_all add: heap_ok_def)
  have uo: "u \<in> opens g" using o by (auto simp: first_open_def opens_def is_open_def)
  have fin: "inv_at l g' \<and> g_gcstate g' = g_gcstate g \<and> g_sweepgc g' = g_sweepgc g \<and> (\<exists>t'. body g' th = Some (BThread t') \<and> th_openupval t' = us) \<and>
      (g_gcstate g \<noteq> GCSpropagate \<longrightarrow> isdead g' th = isdead g th) \<and> closed g g'"
    if r: "inv_at l g'" "closing g th t u us j c g'" for c
    using r closing_fields [OF r(2)] closingD(1,2,4,5,7) [OF r(2)] closing_closed [OF r(2) \<open>cw_ok g\<close> st] by auto
  have "inv_at l g' \<and> g_gcstate g' = g_gcstate g \<and> g_sweepgc g' = g_sweepgc g \<and> (\<exists>t'. body g' th = Some (BThread t') \<and> th_openupval t' = us) \<and>
      (g_gcstate g \<noteq> GCSpropagate \<longrightarrow> isdead g' th = isdead g th) \<and> closed g g'"
  proof (cases "isdead g u")
    case True
    then have cl: "closing g th t u us j None g'" unfolding g'_def by (rule close_dead [OF o])
    have "g_gcstate g \<noteq> GCSpropagate" using i True by (auto simp: inv_at_def marking_def)
    then have "inv_at l g'" by (rule closing_swept [OF cl i]) simp
    then show ?thesis using fin [OF _ cl] by blast
  next
    case False
    let ?g2 = "(set_body u (BUpval (UClosed (stack_slot t j))) (unlinkupval u (set_body th (BThread (t\<lparr>th_openupval := us\<rparr>)) g)))
        \<lparr>g_rootgc := u # g_rootgc (set_body u (BUpval (UClosed (stack_slot t j))) (unlinkupval u (set_body th (BThread (t\<lparr>th_openupval := us\<rparr>)) g)))\<rparr>"
    let ?c = "Some (BUpval (UClosed (stack_slot t j)))"
    note a = close_alive [OF o False]
    have gm: "marked g u AND 3 \<noteq> 3" "m_white (marked g u) \<Longrightarrow> \<not> m_black (marked g u)" using co by (auto simp: colours_def wb_def iswhite_def isblack_def)
    have al: "marked g u AND otherwhite g AND WHITEBITS = 0" using False by (simp add: isdead_def)
    have c2: "closing g th t u us j ?c ?g2" using a(2) [of id] gm al set_mark_self [of id ?g2 u] by simp
    show ?thesis
    proof (cases "isgray g u")
      case gray: False
      then have e: "g' = ?g2" using a(1) by (simp add: g'_def)
      have "inv_at l ?g2"
      proof (cases "g_gcstate g = GCSpropagate")
        case True
        then have "shades g" using i by (simp add: inv_at_def marking_def minv_def)
        then have "iswhite g u" using gray o shadesD [of g u "BUpval (UOpen th j)"] by (auto simp: isgray_def first_open_def gray_kind_def black_kind_def is_open_def)
        moreover have "iswhite ?g2 u = iswhite g u" by (simp add: iswhite_def)
        ultimately have "inv_except {u} ?g2" "iswhite ?g2 u" using closing_marking [OF c2 i True] by simp_all
        then have "gc_inv ?g2" using True by (intro inv_except_settle) auto
        then show ?thesis using True by (simp add: gc_inv_def inv_except_def inv_at_def)
      next
        case np: False
        then have "\<not> isblack g u" using i uo by (auto simp: inv_at_def swept_at_def)
        then have "iswhite g u" using gray by (simp add: isgray_def)
        then have "current g u" using white_alive_current [OF c co _ False] by simp
        then have "current ?g2 u" by (simp add: current_def luaC_white_def)
        then show ?thesis by (intro closing_swept [OF c2 i np])
      qed
      moreover have "closing g th t u us j ?c g'" using c2 by (simp only: e)
      ultimately show ?thesis by (intro fin) (simp_all only: e)
    next
      case gray: True
      show ?thesis
      proof (cases "g_gcstate g = GCSpropagate")
        case True
        let ?g3 = "gray2black u ?g2"
        have e: "g' = luaC_barrier u (stack_slot t j) ?g3" using a(1) gray True by (simp add: g'_def)
        have c3: "closing g th t u us j ?c ?g3" unfolding gray2black_def
          by (rule a(2)) (use gm gray al mark_bits_shift in \<open>auto simp: isgray_def iswhite_def\<close>)
        have "isblack ?g3 u \<and> \<not> iswhite ?g3 u" using closingD(5) [OF c2, of u] gray by (simp add: isblack_def iswhite_def marked_set_mark isgray_def)
        then have i3: "inv_except {u} ?g3" using closing_marking [OF c3 i True] gray by (simp add: isgray_def)
        have b3: "body ?g3 u = ?c" using closingD(5) [OF c3, of u] by simp
        have p3: "g_gcstate ?g3 = GCSpropagate" using True by simp
        have "gc_inv g'" unfolding e by (rule barrier_value [OF i3 p3 b3]) (use b3 in \<open>simp add: refs_def del: gray2black_def\<close>)
        moreover have m: "marks ?g3 g'" "body g' = body ?g3" unfolding e using barrier_marks [OF i3 p3] by blast+
        moreover have "g_gcstate g' = g_gcstate ?g3 \<and> g_sweepgc g' = g_sweepgc ?g3" using marks_fields(2,11) [OF m(1)] by blast
        moreover have "closed ?g3 g'"
        proof -
          have l: "later ?g3 g'" by (rule trav_later [OF marks_trav [OF m(1)]])
          have "collects ?g3 g'" by (rule marked_collects [OF l m(2)]) (use i3 p3 in \<open>simp_all add: inv_except_def heap_ok_def marking_def del: gray2black_def\<close>)
          then show ?thesis using later_live [OF l] marks_fields(1) [OF m(1)] m(2) by (simp add: closed_def lives_def opens_def del: gray2black_def)
        qed
        then have "closed g g'" using closed_trans [OF closing_closed [OF c3 c st]] by blast
        ultimately show ?thesis using closing_fields(9,15) [OF c3] closingD(1,2,4) [OF c3] closingD(5) [OF c3, of th] True
          by (auto simp: gc_inv_def inv_except_def inv_at_def simp del: gray2black_def)
      next
        case np: False
        let ?g3 = "set_mark u (makewhite_mark ?g2) ?g2"
        have e: "g' = ?g3" using a(1) gray np unfolding makewhite_marks by (simp add: g'_def)
        have cw2: "cw_ok ?g2" using c by (simp add: cw_ok_def)
        note mb = makewhite_bits [OF cw2]
        have "makewhite_mark ?g2 (marked g u) AND 3 = luaC_white ?g2 AND 3" using and3_and7 [of "makewhite_mark ?g2 (marked g u)"] mb(4) by simp
        moreover have "makewhite_mark ?g2 (marked g u) AND otherwhite g AND WHITEBITS = (makewhite_mark ?g2 (marked g u) AND 7) AND otherwhite g AND WHITEBITS"
          by (simp add: WHITEBITS_def mark_eq_iff bit_and_iff)
        ultimately have c3: "closing g th t u us j ?c ?g3"
          by (intro a(2)) (use mb c in \<open>auto simp: luaC_white_def otherwhite_def cw_ok_def WHITEBITS_def\<close>)
        have "current ?g3 u" using closingD(5) [OF c2, of u] mb(4) by (simp add: current_def marked_set_mark luaC_white_def)
        then have "inv_at l ?g3" by (intro closing_swept [OF c3 i np])
        moreover have "closing g th t u us j ?c g'" using c3 by (simp only: e)
        ultimately show ?thesis by (intro fin) (simp_all only: e)
      qed
    qed
  qed
  then show "inv_at l g'" "g_gcstate g' = g_gcstate g" "g_sweepgc g' = g_sweepgc g" "\<exists>t'. body g' th = Some (BThread t') \<and> th_openupval t' = us"
    "g_gcstate g \<noteq> GCSpropagate \<Longrightarrow> isdead g' th = isdead g th" "closed g g'" by blast+
qed

lemma close_upvals_inv:
  "inv_at l g \<Longrightarrow> body g th = Some (BThread t) \<Longrightarrow> th_openupval t = us \<Longrightarrow>
   inv_at l (close_upvals th level us g) \<and> g_gcstate (close_upvals th level us g) = g_gcstate g \<and> g_sweepgc (close_upvals th level us g) = g_sweepgc g \<and>
   (level = 0 \<longrightarrow> open_upvals (close_upvals th level us g) th = []) \<and> (\<exists>t'. body (close_upvals th level us g) th = Some (BThread t')) \<and>
   (g_gcstate g \<noteq> GCSpropagate \<longrightarrow> isdead (close_upvals th level us g) th = isdead g th) \<and> closed g (close_upvals th level us g)"
proof (induction us arbitrary: g t)
  case Nil
  then show ?case by (simp add: open_upvals_def)
next
  case (Cons u us)
  have "u \<in> set (open_upvals g th)" using Cons.prems by (simp add: open_upvals_def)
  then have "u \<in> open_at g th" using Cons.prems(1) by (simp add: inv_at_def heap_ok_def struct_def)
  then obtain j where j: "body g u = Some (BUpval (UOpen th j))" by (auto simp: open_at_def)
  show ?case
  proof (cases "level \<le> j")
    case True
    have o: "first_open g th t u us j" using Cons.prems j by (simp add: first_open_def)
    note ci = close_upval_inv [OF Cons.prems(1) o]
    obtain t' where t': "body (close_upval u (set_openupval th us g)) th = Some (BThread t')" "th_openupval t' = us" using ci(4) by blast
    show ?thesis using Cons.IH [OF ci(1) t'] ci(2,3,5) closed_trans [OF ci(6)] j True by simp
  next
    case False
    then show ?thesis using Cons.prems j by auto
  qed
qed

lemma luaF_close_inv:
  assumes i: "inv_at l g"
  shows "inv_at l (luaF_close th level g)" "g_gcstate (luaF_close th level g) = g_gcstate g" "g_sweepgc (luaF_close th level g) = g_sweepgc g"
    "level = 0 \<Longrightarrow> open_upvals (luaF_close th level g) th = []"
    "body g th = Some (BThread t) \<Longrightarrow> \<exists>t'. body (luaF_close th level g) th = Some (BThread t')"
    "g_gcstate g \<noteq> GCSpropagate \<Longrightarrow> isdead (luaF_close th level g) th = isdead g th" "closed g (luaF_close th level g)"
proof -
  have "inv_at l (luaF_close th level g) \<and> g_gcstate (luaF_close th level g) = g_gcstate g \<and> g_sweepgc (luaF_close th level g) = g_sweepgc g \<and>
    (level = 0 \<longrightarrow> open_upvals (luaF_close th level g) th = []) \<and> (body g th = Some (BThread t) \<longrightarrow> (\<exists>t'. body (luaF_close th level g) th = Some (BThread t'))) \<and>
    (g_gcstate g \<noteq> GCSpropagate \<longrightarrow> isdead (luaF_close th level g) th = isdead g th) \<and> closed g (luaF_close th level g)"
  proof (cases "\<exists>t. body g th = Some (BThread t)")
    case True
    then obtain t0 where "body g th = Some (BThread t0)" by blast
    then show ?thesis using close_upvals_inv [OF i, of th t0 "th_openupval t0" level] by (auto simp: luaF_close_def)
  next
    case False
    then have "luaF_close th level g = g" "open_upvals g th = []" by (auto simp: luaF_close_def open_upvals_def split: option.split gbody.split)
    then show ?thesis using i False by auto
  qed
  then show "inv_at l (luaF_close th level g)" "g_gcstate (luaF_close th level g) = g_gcstate g" "g_sweepgc (luaF_close th level g) = g_sweepgc g"
    "level = 0 \<Longrightarrow> open_upvals (luaF_close th level g) th = []"
    "body g th = Some (BThread t) \<Longrightarrow> \<exists>t'. body (luaF_close th level g) th = Some (BThread t')"
    "g_gcstate g \<noteq> GCSpropagate \<Longrightarrow> isdead (luaF_close th level g) th = isdead g th" "closed g (luaF_close th level g)" by blast+
qed

end
