(* ===== verification/Lua_Gc_Sweeplist.thy ===== *)
theory Lua_Gc_Sweeplist
  imports Lua_Gc_Close
begin

text \<open>The sweep of the list of all objects keeps the invariant.\<close>

subsection \<open>The open upvalues of a thread\<close>

lemma sweep_open_other: "(\<And>t. body g a \<noteq> Some (BThread t)) \<Longrightarrow> sweep_open a g = g"
  by (auto simp: sweep_open_def split: option.split gbody.split)

lemma main_live: "core g \<Longrightarrow> live g TTHREAD (g_mainthread g)"
  by (rule refs_liveD [of g "roots g"]) (simp_all add: core_def roots_def)

lemma fixed_bit:
  assumes h: "heap_ok g" and b: "bit (marked g x) 5"
  shows "typed_at g TTHREAD x \<or> typed_at g TSTRING x"
proof -
  have "x = g_mainthread g \<or> typed_at g TSTRING x" using h b by (simp add: heap_ok_def struct_def)
  then show ?thesis using main_live [of g] h by (auto simp: heap_ok_core live_def)
qed

lemma refs_openupval:
  assumes a: "body g a = Some (BThread t)"
  shows "refs (set_body a (BThread (t\<lparr>th_openupval := us\<rparr>)) g) x = refs g x"
proof -
  let ?r = "set_body a (BThread (t\<lparr>th_openupval := us\<rparr>)) g"
  have "upval_value ?r = upval_value g"
  proof
    fix uv show "upval_value ?r uv = upval_value g uv" using a by (cases uv) (auto simp: body_set_body stack_slot_def)
  qed
  then have "brefs ?r b = brefs g b" for b by (cases "(g, b)" rule: brefs.cases) simp_all
  then show ?thesis using a by (cases "x = a") (auto simp: refs_def body_set_body split: option.split)
qed

lemma sweep_open_inv:
  assumes i: "inv_at l g" and p: "g_gcstate g = GCSsweep" and a: "body g a = Some (BThread t)"
  defines "g' \<equiv> sweep_open a g"
  shows "inv_at l g'" "g_gcstate g' = g_gcstate g" "g_rootgc g' = g_rootgc g" "g_sweepgc g' = g_sweepgc g" "\<And>x. x \<in> open_at g' a \<Longrightarrow> current g' x"
    "isdead g' a = isdead g a" "\<And>x. typed_at g' TSTRING x = typed_at g TSTRING x" "g_tmudata g' = g_tmudata g" "g_mainthread g' = g_mainthread g"
    "opens g' \<subseteq> opens g" "collects g g'"
proof -
  have h: "heap_ok g" and s: "swept_at l g" using i p by (simp_all add: inv_at_def)
  then have st: "struct g" and c: "cw_ok g" and k: "core g" by (simp_all add: heap_ok_def core_def)
  let ?S = "set (th_openupval t)"
  have "open_upvals g a = th_openupval t" using a by (simp add: open_upvals_def)
  then have S: "?S = open_at g a" "distinct (th_openupval t)" using st unfolding struct_def by metis+
  have Sb: "\<exists>i. body g x = Some (BUpval (UOpen a i))" if "x \<in> ?S" for x using that unfolding S(1) by (simp add: open_at_def)
  obtain us g1 where r: "sweep_chain (th_openupval t) g = (us, g1)" by (cases "sweep_chain (th_openupval t) g")
  have "\<forall>x \<in> ?S. \<exists>b. body g x = Some b \<and> gc_tt b \<noteq> TTHREAD" unfolding S(1) by (auto simp: open_at_def)
  note sc = sweep_chain_sweeps [OF S(2) this r]
  then have sw: "sweeps ?S g g1" and us: "us = filter (sweep_keeps g) (th_openupval t)" by simp_all
  have aS: "a \<notin> ?S" using a unfolding S(1) by (auto simp: open_at_def)
  then have a1: "body g1 a = Some (BThread t)" using sweeps_body [OF sw, of a] a by simp
  have g': "g' = set_body a (BThread (t\<lparr>th_openupval := us\<rparr>)) g1" using a a1 r by (simp add: g'_def sweep_open_def set_openupval_def)
  have bd: "body g' x = (if x = a then Some (BThread (t\<lparr>th_openupval := us\<rparr>)) else if x \<in> ?S \<and> \<not> sweep_keeps g x then None else body g x)" for x
    using a1 sweeps_body [OF sw, of x] by (auto simp: g' body_set_body)
  have mk: "marked g' = marked g1" by (simp add: g')
  note f1 = sweeps_fields [OF sw]
  show fl: "g_gcstate g' = g_gcstate g" "g_rootgc g' = g_rootgc g" "g_sweepgc g' = g_sweepgc g" "g_tmudata g' = g_tmudata g" "g_mainthread g' = g_mainthread g"
    by (simp_all add: g' f1)
  have nobit: "\<not> bit (marked g x) 5" if "x \<in> ?S" for x
    using fixed_bit [OF h, of x] that unfolding S(1) by (auto simp: open_at_def typed_at_def)
  have dead: "sweep_keeps g x \<longleftrightarrow> \<not> isdead g x" if "x \<in> ?S" for x using keeps_iff [OF c] nobit [OF that] by simp
  have "core g1" by (rule sweeps_core [OF sw k]) (use dead in blast)
  then have "core g'"
  proof (rule core_cong [rotated -1])
    show "typed_at g' tt x = typed_at g1 tt x" for tt x using a1 by (auto simp: typed_at_def g' body_set_body)
    show "refs g' x \<subseteq> refs g1 x" for x using refs_openupval [OF a1] by (simp add: g')
  qed (simp_all add: mk g')
  moreover have nk: "is_open b \<Longrightarrow> body g x = Some b \<Longrightarrow> x \<notin> ?S \<Longrightarrow> body g' x = Some b" for x b using a by (auto simp: bd is_open_def)
  have ty: "typed_at g' tt x = typed_at g tt x" if "tt \<noteq> TUPVAL" for tt x
    using a that Sb [of x] by (cases "x \<in> ?S") (auto simp: typed_at_def bd)
  have la: "listed_at g' x = listed_at g x" for x using a Sb [of x] by (cases "x \<in> ?S") (auto simp: listed_at_def bd is_open_def)
  have oa: "open_at g' x = (if x = a then {u \<in> ?S. sweep_keeps g u} else open_at g x)" for x
  proof -
    have "u \<in> open_at g' x \<longleftrightarrow> u \<in> (if x = a then {u \<in> ?S. sweep_keeps g u} else open_at g x)" for u
      using a Sb [of u] by (cases "u \<in> ?S") (auto simp: open_at_def bd S(1))
    then show ?thesis by blast
  qed
  have ou: "open_upvals g' x = (if x = a then us else open_upvals g x)" for x
    using a Sb [of x] by (cases "x \<in> ?S") (auto simp: open_upvals_def bd)
  have uv: "g_uvhead g' = filter (\<lambda>u. u \<notin> ?S \<or> sweep_keeps g u) (g_uvhead g)"
    using sc by (auto simp: g' opens_def is_open_def dest: Sb intro!: filter_cong)
  have opd: "opens g' = opens g - {u \<in> ?S. \<not> sweep_keeps g u}"
    using a by (auto simp: opens_def bd is_open_def split: if_splits)
  have "objects g' \<subseteq> objects g" using a by (auto simp: objects_def bd split: if_splits)
  then have fin: "finite (objects g')" using st finite_subset by (auto simp: struct_def)
  have m5: "bit (marked g' x) 5 \<longrightarrow> x = g_mainthread g \<or> typed_at g TSTRING x" for x
    using sweeps_mark [OF sw, of x] nobit [of x] makewhite_bits(3) [OF c] st by (cases "x \<in> ?S") (auto simp: mk struct_def)
  have str: "g_strt g' = g_strt g" using sc by (simp add: g')
  have uo: "set (g_uvhead g') = (\<Union>x. open_at g' x)"
  proof -
    have u0: "set (g_uvhead g) = (\<Union>x. open_at g x)" using st by (simp add: struct_def)
    have "u \<in> (\<Union>x. open_at g' x) \<longleftrightarrow> u \<in> (\<Union>x. open_at g x) \<and> (u \<notin> ?S \<or> sweep_keeps g u)" for u
    proof (cases "u \<in> ?S")
      case True
      then obtain i where u: "body g u = Some (BUpval (UOpen a i))" using Sb by blast
      then have "u \<in> open_at g x \<longleftrightarrow> x = a" for x by (auto simp: open_at_def)
      then show ?thesis using True by (auto simp: oa)
    next
      case False
      then have "u \<notin> open_at g a" by (simp add: S(1))
      then show ?thesis using False by (auto simp: oa)
    qed
    then show ?thesis unfolding uv set_filter u0 by blast
  qed
  have "typed_at g' TSTRING = typed_at g TSTRING" "typed_at g' TUSERDATA = typed_at g TUSERDATA" by (simp_all add: fun_eq_iff ty)
  moreover have "after_link g' l = after_link g l" for l by (rule after_link_cong) (simp add: fl)
  moreover have "\<forall>x. distinct (open_upvals g' x) \<and> set (open_upvals g' x) = open_at g' x" unfolding ou oa us using st S by (simp add: struct_def)
  moreover have "distinct (g_uvhead g')" using st by (simp add: uv struct_def)
  ultimately have "struct g'" using st fin m5 unfolding struct_def la uo fl str by (simp del: set_concat)
  with \<open>core g'\<close> have h': "heap_ok g'" by (simp add: heap_ok_core)
  have cu: "current g' x" if "x \<in> ?S" "sweep_keeps g x" for x
    using sweeps_current [OF sw c that] by (simp add: current_def luaC_white_def mk g')
  have same: "isdead g' x = isdead g x \<and> current g' x = current g x \<and> iswhite g' x = iswhite g x \<and> isblack g' x = isblack g x" if "x \<notin> ?S" for x
    using sweeps_unmarked [OF sw that] by (simp add: isdead_def current_def iswhite_def isblack_def otherwhite_def luaC_white_def mk g')
  show "\<And>x. x \<in> open_at g' a \<Longrightarrow> current g' x" using cu by (simp add: oa)
  show "isdead g' a = isdead g a" using same [OF aS] by simp
  show "opens g' \<subseteq> opens g" by (auto simp: opd)
  have "collects g g1" by (rule sweeps_collects [OF sw c st]) (use Sb in \<open>fastforce simp: typed_at_def\<close>)
  moreover have "collects g1 g'" by (rule openupval_collects [OF a1]) (use a1 in \<open>simp_all add: g' body_set_body\<close>)
  ultimately show "collects g g'" by (rule collects_trans)
  show "\<And>x. typed_at g' TSTRING x = typed_at g TSTRING x" by (simp add: ty)
  have al: "after_link g' l = after_link g l" by (rule after_link_cong) (simp add: fl)
  have pe: "x \<in> pending_at l g \<Longrightarrow> x \<notin> ?S \<Longrightarrow> x \<in> pending_at l g'" for x
    using p by (auto simp: pending_at_def fl al oa S(1))
  have "swept_at l g'" unfolding swept_at_def fl
  proof (intro conjI allI impI ballI)
    fix x assume b: "body g' x \<noteq> None"
    show "x \<in> pending_at l g' \<or> x \<in> set (g_tmudata g) \<or> current g' x"
    proof (cases "x \<in> ?S")
      case True
      then have "sweep_keeps g x" using b aS by (auto simp: bd split: if_splits)
      then show ?thesis using cu [OF True] by simp
    next
      case False
      have "body g x \<noteq> None" using b a by (auto simp: bd split: if_splits)
      then have "x \<in> pending_at l g \<or> x \<in> set (g_tmudata g) \<or> current g x" using s by (simp add: swept_at_def)
      then show ?thesis using pe same False by blast
    qed
  next
    fix x assume x: "x \<in> set (g_tmudata g)"
    then have "x \<notin> ?S" using st S(1) by (auto simp: struct_def typed_at_def open_at_def)
    then show "iswhite g' x \<or> isblack g' x" using same s x by (simp add: swept_at_def)
  next
    fix x assume x: "x \<in> opens g'"
    show "\<not> isblack g' x"
    proof (cases "x \<in> ?S")
      case True
      then have "current g' x" using x cu by (simp add: opd)
      then show ?thesis using current_white [of g' x] h' by (simp add: heap_ok_def)
    next
      case False
      then show ?thesis using x s same by (simp add: opd swept_at_def)
    qed
  qed (use s p in \<open>auto simp: swept_at_def\<close>)
  then show "inv_at l g'" using h' p fl by (simp add: inv_at_def)
qed

subsection \<open>One object\<close>

definition unlink :: "addr \<Rightarrow> gstate \<Rightarrow> gstate" where
  "unlink a g = g\<lparr>g_rootgc := remove1 a (g_rootgc g)\<rparr>"

lemma unlink_views [simp]: "body (unlink a g) = body g" "marked (unlink a g) = marked g" "g_gcstate (unlink a g) = g_gcstate g"
  "g_rootgc (unlink a g) = remove1 a (g_rootgc g)"
  by (simp_all add: unlink_def)

lemma after_link_suffix: "\<exists>pre. g_rootgc g = pre @ after_link g l"
proof (cases l)
  case (Some p)
  let ?t = "takeWhile (\<lambda>x. x \<noteq> p) (g_rootgc g)" and ?d = "dropWhile (\<lambda>x. x \<noteq> p) (g_rootgc g)"
  have "g_rootgc g = ?t @ ?d" by (rule takeWhile_dropWhile_id [symmetric])
  moreover have "xs = take 1 xs @ tl xs" for xs :: "addr list" by (cases xs) simp_all
  from this [of ?d] have "?d = take 1 ?d @ tl ?d" .
  ultimately have "g_rootgc g = (?t @ take 1 ?d) @ tl ?d" by (metis append.assoc)
  then show ?thesis unfolding after_link_def Some option.case by (rule exI)
qed (simp add: after_link_def)

lemma after_link_next:
  assumes "struct g" "after_link g l = a # rest"
  shows "after_link g (Some a) = rest" "a \<in> set (g_rootgc g)"
proof -
  obtain pre where pre: "g_rootgc g = pre @ a # rest" using after_link_suffix [of g l] assms(2) by auto
  moreover have "distinct (g_rootgc g)" using assms(1) by (simp add: struct_def)
  ultimately have ni: "a \<notin> set pre" by simp
  have "dropWhile (\<lambda>x. x \<noteq> a) (pre @ a # rest) = dropWhile (\<lambda>x. x \<noteq> a) (a # rest)" by (rule dropWhile_append2) (use ni in auto)
  then have "dropWhile (\<lambda>x. x \<noteq> a) (g_rootgc g) = a # rest" by (simp add: pre)
  then show "after_link g (Some a) = rest" by (simp add: after_link_def)
  show "a \<in> set (g_rootgc g)" using pre by simp
qed

lemma remove1_suffix:
  assumes d: "distinct xs" and a: "a \<in> set (tl (dropWhile (\<lambda>x. x \<noteq> p) xs))"
  shows "set (tl (dropWhile (\<lambda>x. x \<noteq> p) (remove1 a xs))) = set (tl (dropWhile (\<lambda>x. x \<noteq> p) xs)) - {a}" "p \<in> set (remove1 a xs)"
proof -
  let ?d = "dropWhile (\<lambda>x. x \<noteq> p) xs" let ?t = "takeWhile (\<lambda>x. x \<noteq> p) xs"
  obtain ys where ys: "?d = p # ys" using a hd_dropWhile [of "\<lambda>x. x \<noteq> p" xs] by (cases ?d) auto
  have x: "xs = ?t @ p # ys" using takeWhile_dropWhile_id [of "\<lambda>x. x \<noteq> p" xs] ys by simp
  have ay: "a \<in> set ys" using a ys by simp
  have dd: "distinct (?t @ p # ys)" using d x by simp
  then have ni: "a \<notin> set ?t" "a \<noteq> p" using ay by auto
  have r: "remove1 a xs = ?t @ p # remove1 a ys"
  proof -
    have "remove1 a (?t @ p # ys) = ?t @ p # remove1 a ys" using ni by (simp add: remove1_append)
    then show ?thesis using x by simp
  qed
  have "dropWhile (\<lambda>x. x \<noteq> p) (?t @ p # remove1 a ys) = p # remove1 a ys" by (subst dropWhile_append2) (auto dest: set_takeWhileD)
  then show "set (tl (dropWhile (\<lambda>x. x \<noteq> p) (remove1 a xs))) = set (tl ?d) - {a}" using dd by (simp add: r ys)
  show "p \<in> set (remove1 a xs)" by (simp add: r)
qed

lemma after_unlink:
  assumes d: "distinct (g_rootgc g)" and a: "a \<in> set (after_link g l)"
  shows "set (after_link (unlink a g) l) = set (after_link g l) - {a}" "l = Some p \<Longrightarrow> p \<in> set (g_rootgc (unlink a g))"
  using remove1_suffix [of "g_rootgc g" a] assms by (cases l; simp add: after_link_def unlink_def)+

lemma after_unlink_length: "distinct (g_rootgc g) \<Longrightarrow> a \<in> set (after_link g l) \<Longrightarrow> length (after_link (unlink a g) l) < length (after_link g l)"
proof -
  assume d: "distinct (g_rootgc g)" and a: "a \<in> set (after_link g l)"
  have s: "distinct (after_link k l)" if "distinct (g_rootgc k)" for k using that after_link_suffix [of k l] by auto
  have "distinct (g_rootgc (unlink a g))" using d by (simp add: unlink_def)
  then have "length (after_link (unlink a g) l) = card (set (after_link g l) - {a})" using distinct_card [OF s] after_unlink(1) [OF d a] by metis
  also have "\<dots> < card (set (after_link g l))" using a by (intro psubset_card_mono) auto
  also have "\<dots> = length (after_link g l)" using distinct_card [OF s [OF d]] by simp
  finally show ?thesis .
qed

lemma remove1_after: "a \<noteq> p \<Longrightarrow> set (tl (dropWhile (\<lambda>x. x \<noteq> p) (remove1 a xs))) \<subseteq> set (tl (dropWhile (\<lambda>x. x \<noteq> p) xs))"
proof (induction xs)
  case (Cons x xs)
  then show ?case using set_remove1_subset [of a xs] by (cases "x = p") auto
qed simp

lemma free_listed:
  fixes n :: nat
  assumes i: "inv_at l g" and p: "g_gcstate g = GCSsweep" and a: "a \<in> set (after_link g l)" and d: "isdead g a" and o: "open_at g a = {}"
  defines "g' \<equiv> luaM_free a n (unlink a g)"
  shows "inv_at l g'" "opens g' \<subseteq> opens g" "collects g g'" "length (after_link g' l) < length (after_link g l)"
proof -
  have h: "heap_ok g" and s: "swept_at l g" using i p by (simp_all add: inv_at_def)
  then have st: "struct g" and c: "cw_ok g" and k: "core g" by (simp_all add: heap_ok_def core_def)
  have ar: "a \<in> set (g_rootgc g)" using a after_link_suffix [of g l] by auto
  then have la: "listed_at g a" "a \<notin> set (g_tmudata g)" using st by (auto simp: struct_def)
  have am: "a \<noteq> g_mainthread g" using main_live [OF k] d by (auto simp: live_def)
  then have nb: "\<not> bit (marked g a) 5" using st la by (auto simp: struct_def typed_at_def listed_at_def)
  have bd: "body g' x = (if x = a then None else body g x)" for x by (simp add: g'_def body_free)
  have mk: "marked g' x = (if x = a then 0 else marked g x)" for x by (simp add: g'_def body_free)
  have fl: "g_strt g' = g_strt g" "g_tmudata g' = g_tmudata g" "g_uvhead g' = g_uvhead g" "g_currentwhite g' = g_currentwhite g"
    "g_mainthread g' = g_mainthread g" "g_L g' = g_L g" "g_registry g' = g_registry g" "g_mt g' = g_mt g" "g_gcstate g' = g_gcstate g"
    "g_sweepgc g' = g_sweepgc g" "g_sweepstrgc g' = g_sweepstrgc g" "g_rootgc g' = remove1 a (g_rootgc g)"
    by (simp_all add: g'_def) (simp_all add: unlink_def)
  let ?r = "luaM_free a n g"
  have "sweeps {a} g ?r" using keeps_iff [OF c] d nb by (simp add: sweeps_def body_free)
  then have "core ?r" by (rule sweeps_core [OF _ k]) (use keeps_iff [OF c] d nb in auto)
  then have "core g'"
  proof (rule core_cong [rotated -1])
    have b: "body g' = body ?r" by (simp add: fun_eq_iff bd body_free)
    show "typed_at g' tt x = typed_at ?r tt x" for tt x by (simp add: typed_at_def b)
    show "refs g' x \<subseteq> refs ?r x" for x using refs_cong [OF b] by simp
    show "marked g' = marked ?r" by (simp add: fun_eq_iff mk body_free)
  qed (simp_all add: fl)
  have ta: "typed_at g' tt x \<longleftrightarrow> typed_at g tt x \<and> x \<noteq> a" for tt x by (auto simp: typed_at_def bd)
  have lx: "listed_at g' x \<longleftrightarrow> listed_at g x \<and> x \<noteq> a" for x by (auto simp: listed_at_def bd)
  have oa: "open_at g' x = open_at g x" for x using la(1) by (auto simp: open_at_def bd listed_at_def is_open_def)
  have ou: "open_upvals g' x = open_upvals g x" for x
  proof (cases "x = a")
    case True
    have "set (open_upvals g a) = {}" using o st unfolding struct_def by metis
    then have "open_upvals g a = []" by simp
    then show ?thesis using True by (simp add: open_upvals_def bd)
  qed (simp add: open_upvals_def bd)
  have ns: "\<not> typed_at g TSTRING a" using la(1) by (auto simp: listed_at_def typed_at_def)
  have "objects g' \<subseteq> objects g" by (auto simp: objects_def bd)
  then have fin: "finite (objects g')" using st finite_subset by (auto simp: struct_def)
  have dr: "distinct (g_rootgc g)" using st by (simp add: struct_def)
  have "typed_at g' TSTRING = typed_at g TSTRING" using ns by (auto simp: fun_eq_iff ta)
  moreover have "set (g_rootgc g' @ g_tmudata g') = {x. listed_at g' x}" "distinct (g_rootgc g' @ g_tmudata g')"
    using st la(2) dr by (auto simp: struct_def fl lx)
  moreover have "set (after_link g' (Some (g_mainthread g))) \<subseteq> set (after_link g (Some (g_mainthread g)))"
  proof -
    have "after_link g' (Some (g_mainthread g)) = tl (dropWhile (\<lambda>x. x \<noteq> g_mainthread g) (remove1 a (g_rootgc g)))" by (simp add: after_link_def fl)
    moreover have "after_link g (Some (g_mainthread g)) = tl (dropWhile (\<lambda>x. x \<noteq> g_mainthread g) (g_rootgc g))" by (simp add: after_link_def)
    ultimately show ?thesis using remove1_after [OF am, of "g_rootgc g"] by simp
  qed
  moreover have "typed_at g' TUSERDATA x" if "x \<in> set (after_link g' (Some (g_mainthread g))) \<or> x \<in> set (g_tmudata g)" for x
  proof -
    have ty: "typed_at g TUSERDATA x" using that st calculation(4) by (auto simp: struct_def)
    obtain pre where "remove1 a (g_rootgc g) = pre @ after_link g' (Some (g_mainthread g))" using after_link_suffix [of g' "Some (g_mainthread g)"] by (auto simp: fl)
    then have "set (after_link g' (Some (g_mainthread g))) \<subseteq> set (g_rootgc g) - {a}" using dr by (metis Un_upper2 set_append set_remove1_eq)
    then have "x \<noteq> a" using that la(2) by blast
    with ty show ?thesis by (simp add: ta)
  qed
  moreover have "bit (marked g' x) 5 \<longrightarrow> x = g_mainthread g \<or> typed_at g TSTRING x" for x using st by (auto simp: mk struct_def)
  ultimately have "struct g'" using st fin am unfolding struct_def oa ou by (simp add: fl del: set_concat)
  with \<open>core g'\<close> have h': "heap_ok g'" by (simp add: heap_ok_core)
  have same: "current g' x = current g x \<and> iswhite g' x = iswhite g x \<and> isblack g' x = isblack g x" if "x \<noteq> a" for x
    using that by (simp add: current_def iswhite_def isblack_def luaC_white_def mk fl)
  note au = after_unlink [OF dr a]
  have al: "after_link g' l = after_link (unlink a g) l" by (rule after_link_cong) (simp add: fl)
  have "swept_at l g'" unfolding swept_at_def fl
  proof (intro conjI allI impI ballI)
    fix x assume "body g' x \<noteq> None"
    then have x: "x \<noteq> a" "body g x \<noteq> None" by (auto simp: bd split: if_splits)
    then have "x \<in> pending_at l g \<or> x \<in> set (g_tmudata g) \<or> current g x" using s by (simp add: swept_at_def)
    moreover have "x \<in> pending_at l g \<Longrightarrow> x \<in> pending_at l g'" using p x(1) o by (auto simp: pending_at_def fl oa al au)
    ultimately show "x \<in> pending_at l g' \<or> x \<in> set (g_tmudata g) \<or> current g' x" using same [OF x(1)] by blast
  next
    fix x assume "x \<in> set (g_tmudata g)"
    then show "iswhite g' x \<or> isblack g' x" using s same [of x] la(2) by (auto simp: swept_at_def)
  next
    fix x assume "x \<in> opens g'"
    then have "x \<noteq> a \<and> x \<in> opens g" by (auto simp: opens_def bd split: if_splits)
    then show "\<not> isblack g' x" using s same [of x] by (simp add: swept_at_def)
  next
    fix q assume "l = Some q"
    then show "q \<in> set (remove1 a (g_rootgc g))" using au(2) by simp
  qed (use p in simp_all)
  then show "inv_at l g'" using h' p fl by (simp add: inv_at_def)
  show "opens g' \<subseteq> opens g" by (auto simp: opens_def bd)
  have nk: "\<not> sweep_keeps g a" using keeps_iff [OF c] d nb by simp
  have uv: "content g' b = content g b" if "body g x = Some b" for x b
  proof (cases "\<exists>s j. b = BUpval (UOpen s j)")
    case True
    then obtain s j where s: "b = BUpval (UOpen s j)" by blast
    then have "x \<in> open_at g s" using that by (auto simp: open_at_def)
    then have "s \<noteq> a" using o by auto
    then show ?thesis using s by (simp add: bd)
  qed (auto intro: content_closed)
  show "collects g g'" unfolding collects_def
  proof (intro conjI allI impI)
    fix x assume "body g x \<noteq> None"
    then obtain b where b: "body g x = Some b" by blast
    have "x \<noteq> a \<Longrightarrow> sweep_keeps g' x = sweep_keeps g x" by (simp add: sweep_keeps_def otherwhite_def mk fl)
    then show "if sweep_keeps g x then sweep_keeps g' x \<and> contents g' x = contents g x else body g' x = None \<or> \<not> sweep_keeps g' x"
      using nk b uv [OF b] by (cases "x = a") (auto simp: contents_def bd)
  qed (simp add: bd)
  show "length (after_link g' l) < length (after_link g l)" using after_unlink_length [OF dr a] al by simp
qed

subsection \<open>An object is unlinked before its upvalues are closed\<close>

lemma unlink_set: "set_mark x f (unlink a g) = unlink a (set_mark x f g)" "set_body x b (unlink a g) = unlink a (set_body x b g)"
  "makewhite x (unlink a g) = unlink a (makewhite x g)" "luaM_free x n (unlink a g) = unlink a (luaM_free x n g)"
  "unlinkupval x (unlink a g) = unlink a (unlinkupval x g)" "isdead (unlink a g) = isdead g" "isgray (unlink a g) = isgray g" "luaC_white (unlink a g) = luaC_white g"
  by (auto simp: fun_eq_iff set_mark_def set_body_def makewhite_def luaM_free_def unlinkupval_def unlink_def luaC_white_def isdead_def otherwhite_def
      isgray_def iswhite_def isblack_def marked_def split: option.split)

lemma unlink_upval_value: "upval_value (unlink a g) uv = upval_value g uv"
  by (cases uv) (simp_all)

lemma unlink_linkupval: "x \<noteq> a \<Longrightarrow> g_gcstate g \<noteq> GCSpropagate \<Longrightarrow> luaC_linkupval x (unlink a g) = unlink a (luaC_linkupval x g)"
proof -
  assume x: "x \<noteq> a" and p: "g_gcstate g \<noteq> GCSpropagate"
  let ?r = "g\<lparr>g_rootgc := x # g_rootgc g\<rparr>"
  have e: "(unlink a g)\<lparr>g_rootgc := x # g_rootgc (unlink a g)\<rparr> = unlink a ?r" using x by (simp add: unlink_def)
  show ?thesis using p unfolding luaC_linkupval_def Let_def e by (simp add: unlink_set makewhite_def)
qed

lemma unlink_close_upval:
  assumes "u \<noteq> a" "g_gcstate g \<noteq> GCSpropagate"
  shows "close_upval u (unlink a g) = unlink a (close_upval u g)"
proof (cases "isdead g u")
  case True
  then show ?thesis by (simp add: close_upval_def luaF_freeupval_def unlink_set split: option.split gbody.split gupval.split)
next
  case False
  have "g_gcstate (set_body u b (unlinkupval u g)) \<noteq> GCSpropagate" for b using assms(2) by simp
  then show ?thesis using False assms(1)
    by (simp add: close_upval_def unlink_set unlink_upval_value unlink_linkupval split: option.split gbody.split)
qed

lemma unlink_set_openupval: "set_openupval th us (unlink a g) = unlink a (set_openupval th us g)"
  by (simp add: set_openupval_def unlink_set split: option.split gbody.split)

lemma close_upval_gcstate: "g_gcstate g \<noteq> GCSpropagate \<Longrightarrow> g_gcstate (close_upval u (set_openupval th us g)) = g_gcstate g"
  by (simp add: close_upval_def luaF_freeupval_def luaC_linkupval_def set_openupval_def Let_def split: option.split gbody.split gupval.split)

lemma unlink_close_upvals:
  "a \<notin> set us \<Longrightarrow> g_gcstate g \<noteq> GCSpropagate \<Longrightarrow> close_upvals th level us (unlink a g) = unlink a (close_upvals th level us g)"
proof (induction us arbitrary: g)
  case (Cons u us)
  let ?r = "close_upval u (set_openupval th us g)"
  have e: "close_upval u (set_openupval th us (unlink a g)) = unlink a ?r"
    unfolding unlink_set_openupval
    by (rule unlink_close_upval) (use Cons.prems in \<open>auto simp: set_openupval_def split: option.split gbody.split\<close>)
  have "g_gcstate ?r \<noteq> GCSpropagate" using close_upval_gcstate Cons.prems(2) by simp
  from Cons.IH [OF _ this] show ?case using Cons.prems(1) by (simp add: e split: option.split gbody.split gupval.split)
qed simp

text \<open>One turn of \<open>sweeplist\<close>, the whole list, and the step of the sweep phase keep the invariant.\<close>

subsection \<open>One turn\<close>

lemma sweep_open_any:
  fixes a :: addr
  assumes i: "inv_at l g" and p: "g_gcstate g = GCSsweep"
  defines "g' \<equiv> sweep_open a g"
  shows "inv_at l g'" "g_gcstate g' = g_gcstate g" "g_rootgc g' = g_rootgc g" "g_sweepgc g' = g_sweepgc g" "\<And>x. x \<in> open_at g' a \<Longrightarrow> current g' x"
    "isdead g' a = isdead g a" "g_tmudata g' = g_tmudata g" "g_mainthread g' = g_mainthread g"
    "opens g' \<subseteq> opens g" "collects g g'"
proof -
  have "inv_at l g' \<and> g_gcstate g' = g_gcstate g \<and> g_rootgc g' = g_rootgc g \<and> g_sweepgc g' = g_sweepgc g \<and> (\<forall>x. x \<in> open_at g' a \<longrightarrow> current g' x) \<and>
    isdead g' a = isdead g a \<and> g_tmudata g' = g_tmudata g \<and> g_mainthread g' = g_mainthread g \<and> opens g' \<subseteq> opens g \<and> collects g g'"
  proof (cases "\<exists>t. body g a = Some (BThread t)")
    case True
    then obtain t where "body g a = Some (BThread t)" by blast
    from sweep_open_inv [OF i p this] show ?thesis unfolding g'_def by blast
  next
    case False
    then have "g' = g" unfolding g'_def by (intro sweep_open_other) blast
    moreover have "open_at g a = {}"
    proof (rule ccontr)
      assume "open_at g a \<noteq> {}"
      then obtain u where "u \<in> open_at g a" by blast
      then show False using open_at_thread [of g u a] i False by (auto simp: inv_at_def heap_ok_def)
    qed
    ultimately show ?thesis using i by simp
  qed
  then show "inv_at l g'" "g_gcstate g' = g_gcstate g" "g_rootgc g' = g_rootgc g" "g_sweepgc g' = g_sweepgc g" "\<And>x. x \<in> open_at g' a \<Longrightarrow> current g' x"
    "isdead g' a = isdead g a" "g_tmudata g' = g_tmudata g" "g_mainthread g' = g_mainthread g" "opens g' \<subseteq> opens g" "collects g g'" by blast+
qed

text \<open>What the sweep of the list has yet to do: every turn leaves less of it, as the upvalues a thread closes when it is freed were open before.\<close>

definition sweep_left :: "addr option \<Rightarrow> gstate \<Rightarrow> nat" where
  "sweep_left l g = card (opens g) + length (after_link g l)"

lemma finite_opens: "struct g \<Longrightarrow> finite (opens g)"
proof -
  assume "struct g"
  then have "finite (objects g)" by (simp add: struct_def)
  moreover have "opens g \<subseteq> objects g" by (auto simp: opens_def objects_def)
  ultimately show ?thesis by (rule finite_subset [rotated])
qed

lemma sweep_left_le: "struct g \<Longrightarrow> opens g' \<subseteq> opens g \<Longrightarrow> length (after_link g' l') \<le> length (after_link g l) \<Longrightarrow> sweep_left l' g' \<le> sweep_left l g"
  using card_mono [OF finite_opens, of g "opens g'"] by (simp add: sweep_left_def)

lemma sweep_left_less: "struct g \<Longrightarrow> opens g' \<subseteq> opens g \<Longrightarrow> length (after_link g' l') < length (after_link g l) \<Longrightarrow> sweep_left l' g' < sweep_left l g"
  using card_mono [OF finite_opens, of g "opens g'"] by (simp add: sweep_left_def)

lemma listed_object: "struct g \<Longrightarrow> a \<in> set (g_rootgc g) \<Longrightarrow> listed_at g a \<and> a \<notin> set (g_tmudata g)"
  by (auto simp: struct_def)

lemma turn_keeps:
  assumes i: "inv_at l g" and p: "g_gcstate g = GCSsweep" and a: "after_link g l = a # rest" and k: "sweep_keeps g a"
    and o: "\<And>x. x \<in> open_at g a \<Longrightarrow> current g x"
  shows "inv_at (Some a) (makewhite a g)" "g_gcstate (makewhite a g) = GCSsweep" "collects g (makewhite a g)"
    "sweep_left (Some a) (makewhite a g) < sweep_left l g"
proof -
  have h: "heap_ok g" using i by (simp add: inv_at_def)
  then have st: "struct g" and c: "cw_ok g" and co: "core g" by (simp_all add: heap_ok_core) (simp_all add: core_def)
  note nx = after_link_next [OF st a]
  have la: "listed_at g a" using listed_object [OF st nx(2)] by blast
  have nd: "\<not> isdead g a"
  proof -
    have "bit (marked g a) 5 \<Longrightarrow> a = g_mainthread g" using st la by (auto simp: struct_def listed_at_def typed_at_def)
    then show ?thesis using k keeps_iff [OF c] main_live [OF co] by (auto simp: live_def)
  qed
  have b: "body g a \<noteq> None" using la by (auto simp: listed_at_def)
  define r where "r = makewhite a g"
  have ir: "inv_at l r" unfolding r_def by (rule swept_makewhite [OF i _ b nd]) (simp add: p)
  have fl: "body r = body g" "g_rootgc r = g_rootgc g" "g_gcstate r = g_gcstate g" "g_tmudata r = g_tmudata g" "g_currentwhite r = g_currentwhite g"
    by (simp_all add: r_def)
  have pr: "g_gcstate r = GCSsweep" using p fl by simp
  have cur: "current r a" using makewhite_bits(4) [OF c, of "marked g a"] b by (simp add: r_def current_def marked_set_mark luaC_white_def makewhite_mark_def)
  have co: "x \<in> open_at g a \<Longrightarrow> current r x" for x
  proof -
    assume x: "x \<in> open_at g a"
    then have "current g x" by (rule o)
    then show "current r x" using cur by (cases "x = a") (simp_all add: r_def current_def marked_set_mark luaC_white_def)
  qed
  have pd: "x \<in> pending_at l r \<Longrightarrow> x \<in> pending_at (Some a) r \<or> current r x" for x
  proof -
    assume x: "x \<in> pending_at l r"
    have e: "after_link r l = a # rest" "after_link r (Some a) = rest" using a nx(1) after_link_cong [OF fl(2)] by metis+
    have oa: "open_at r y = open_at g y" for y by (simp add: open_at_def fl)
    have "x = a \<or> x \<in> open_at g a \<or> x \<in> pending_at (Some a) r" using x p by (auto simp: pending_at_def fl e oa)
    then show ?thesis using co cur by blast
  qed
  have "swept_at l r" using ir p fl by (simp add: inv_at_def)
  then have "swept_at (Some a) r" using pd nx(2) p fl unfolding swept_at_def by (auto simp: fl)
  then have "inv_at (Some a) r" using ir p fl by (simp add: inv_at_def)
  with pr show "inv_at (Some a) (makewhite a g)" "g_gcstate (makewhite a g) = GCSsweep" unfolding r_def by blast+
  have "cw_ok r" using c fl by (simp add: cw_ok_def)
  then have "sweep_keeps r a" using current_alive [OF _ cur] keeps_iff [of r] by simp
  then have "sweep_keeps r x = sweep_keeps g x" for x
    using k fl(5) by (cases "x = a") (simp_all add: r_def sweep_keeps_def marked_set_mark otherwhite_def)
  then have "collects g r" using collects_cong [OF fl(1)] by blast
  then show "collects g (makewhite a g)" unfolding r_def .
  have "opens r = opens g" by (simp add: opens_def fl)
  moreover have "after_link r (Some a) = rest" using nx(1) after_link_cong [OF fl(2)] by metis
  ultimately have "sweep_left (Some a) r < sweep_left l g" using a by (simp add: sweep_left_def)
  then show "sweep_left (Some a) (makewhite a g) < sweep_left l g" unfolding r_def .
qed

lemma unlink_free: "freeobj a (unlink a g) = (case body g a of
     None \<Rightarrow> unlink a g
   | Some (BThread t) \<Rightarrow> luaM_free a (object_size (BThread t)) (luaF_close a 0 (unlink a g))
   | Some (BString b) \<Rightarrow> luaM_free a (object_size (BString b)) ((unlink a g)\<lparr>g_nuse := g_nuse (unlink a g) - 1\<rparr>)
   | Some (BUpval uv) \<Rightarrow> luaF_freeupval a (unlink a g)
   | Some b \<Rightarrow> luaM_free a (object_size b) (unlink a g))"
  by (simp add: freeobj_def luaE_freethread_def split: option.split gbody.split)

lemma luaF_close_unlink: "a \<notin> opens g \<Longrightarrow> struct g \<Longrightarrow> g_gcstate g \<noteq> GCSpropagate \<Longrightarrow> luaF_close a 0 (unlink a g) = unlink a (luaF_close a 0 g)"
proof -
  assume a: "a \<notin> opens g" and s: "struct g" and p: "g_gcstate g \<noteq> GCSpropagate"
  show ?thesis
  proof (cases "\<exists>t. body g a = Some (BThread t)")
    case True
    then obtain t where t: "body g a = Some (BThread t)" by blast
    have "set (open_upvals g a) = open_at g a" using s unfolding struct_def by blast
    then have "set (th_openupval t) = open_at g a" using t by (simp add: open_upvals_def)
    then have "a \<notin> set (th_openupval t)" using t by (auto simp: open_at_def)
    then show ?thesis using unlink_close_upvals [OF _ p] t by (simp add: luaF_close_def)
  qed (auto simp: luaF_close_def split: option.split gbody.split)
qed

lemma close_upval_pushes: "g_gcstate g \<noteq> GCSpropagate \<Longrightarrow> \<exists>pre. g_rootgc (close_upval u (set_openupval th us g)) = pre @ g_rootgc g"
proof -
  assume p: "g_gcstate g \<noteq> GCSpropagate"
  let ?g = "set_openupval th us g"
  have e: "g_rootgc ?g = g_rootgc g" "g_gcstate ?g = g_gcstate g" by (simp_all add: set_openupval_def split: option.split gbody.split)
  have l: "g_rootgc (luaC_linkupval u k) = u # g_rootgc k" if "g_gcstate k \<noteq> GCSpropagate" for k using that by (simp add: luaC_linkupval_def Let_def)
  have "g_rootgc (close_upval u ?g) = g_rootgc ?g \<or> g_rootgc (close_upval u ?g) = u # g_rootgc ?g"
    using p e by (auto simp: close_upval_def luaF_freeupval_def l split: option.split gbody.split gupval.split)
  then show ?thesis using e by auto
qed

lemma close_upvals_pushes: "g_gcstate g \<noteq> GCSpropagate \<Longrightarrow> \<exists>pre. g_rootgc (close_upvals th level us g) = pre @ g_rootgc g"
proof (induction us arbitrary: g)
  case (Cons u us)
  let ?r = "close_upval u (set_openupval th us g)"
  obtain pre where pre: "g_rootgc ?r = pre @ g_rootgc g" using close_upval_pushes [OF Cons.prems] by blast
  obtain pre' where "g_rootgc (close_upvals th level us ?r) = pre' @ g_rootgc ?r"
    using Cons.IH [of ?r] close_upval_gcstate [OF Cons.prems] Cons.prems by auto
  then have "g_rootgc (close_upvals th level us ?r) = (pre' @ pre) @ g_rootgc g" using pre by simp
  then show ?case by (auto split: option.split gbody.split gupval.split)
qed simp

lemma after_link_pushed:
  assumes r: "g_rootgc g' = pre @ g_rootgc g" and s: "distinct (g_rootgc g')" and l: "\<And>p. l = Some p \<Longrightarrow> p \<in> set (g_rootgc g)"
  shows "set (after_link g l) \<subseteq> set (after_link g' l)"
proof (cases l)
  case (Some p)
  then have "p \<notin> set pre" using l [of p] r s by auto
  then have "dropWhile (\<lambda>x. x \<noteq> p) (pre @ g_rootgc g) = dropWhile (\<lambda>x. x \<noteq> p) (g_rootgc g)" by (intro dropWhile_append2) auto
  then show ?thesis using Some r by (simp add: after_link_def)
qed (simp add: after_link_def r)

lemma closed_left:
  assumes cl: "closed g g'" and s: "struct g" "struct g'" and l: "\<And>p. l = Some p \<Longrightarrow> p \<in> set (g_rootgc g)"
  shows "sweep_left l g' \<le> sweep_left l g"
proof -
  obtain pre where pre: "g_rootgc g' = pre @ g_rootgc g" "distinct pre" "set pre \<subseteq> opens g - opens g'" and o: "opens g' \<subseteq> opens g" using cl by (auto simp: closed_def)
  note fin = finite_opens [OF s(1)]
  have "card (opens g') + length pre = card (opens g' \<union> set pre)"
    using pre(2,3) fin o finite_subset by (subst card_Un_disjoint) (auto simp: distinct_card)
  also have "\<dots> \<le> card (opens g)" using pre(3) o by (intro card_mono [OF fin]) blast
  finally have c: "card (opens g') + length pre \<le> card (opens g)" .
  have "length (after_link g' l) \<le> length pre + length (after_link g l)"
  proof (cases l)
    case (Some p)
    have "distinct (g_rootgc g')" using s(2) by (simp add: struct_def)
    then have "p \<notin> set pre" using l [OF Some] pre(1) by auto
    then have "dropWhile (\<lambda>x. x \<noteq> p) (pre @ g_rootgc g) = dropWhile (\<lambda>x. x \<noteq> p) (g_rootgc g)" by (intro dropWhile_append2) auto
    then show ?thesis using Some pre(1) by (simp add: after_link_def)
  qed (simp add: after_link_def pre(1))
  then show ?thesis using c by (simp add: sweep_left_def)
qed

lemma turn_frees:
  assumes i: "inv_at l g" and p: "g_gcstate g = GCSsweep" and a: "after_link g l = a # rest" and k: "\<not> sweep_keeps g a"
  shows "inv_at l (freeobj a (unlink a g))" "g_gcstate (freeobj a (unlink a g)) = GCSsweep" "collects g (freeobj a (unlink a g))"
    "sweep_left l (freeobj a (unlink a g)) < sweep_left l g"
proof -
  have h: "heap_ok g" and sw: "swept_at l g" using i p by (simp_all add: inv_at_def)
  then have st: "struct g" and c: "cw_ok g" by (simp_all add: heap_ok_def)
  note nx = after_link_next [OF st a]
  have la: "listed_at g a" using listed_object [OF st nx(2)] by blast
  then obtain b where b: "body g a = Some b" "gc_tt b \<noteq> TSTRING" "\<not> is_open b" by (auto simp: listed_at_def)
  have d: "isdead g a" using k keeps_iff [OF c] by simp
  have aft: "a \<in> set (after_link g l)" using a by simp
  have "inv_at l (freeobj a (unlink a g)) \<and> g_gcstate (freeobj a (unlink a g)) = GCSsweep \<and> collects g (freeobj a (unlink a g)) \<and>
    sweep_left l (freeobj a (unlink a g)) < sweep_left l g"
  proof (cases "\<exists>t. b = BThread t")
    case True
    then obtain t where t: "b = BThread t" by blast
    let ?r = "luaF_close a 0 g"
    note cl = luaF_close_inv [OF i, where th = a and level = 0]
    have ir: "inv_at l ?r" "g_gcstate ?r = GCSsweep" "isdead ?r a" using cl(1,2,6) p d by simp_all
    have sr: "struct ?r" using ir(1) by (simp add: inv_at_def heap_ok_def)
    obtain pre where "g_rootgc ?r = pre @ g_rootgc g" using close_upvals_pushes [of g a 0 "th_openupval t"] p b(1) t by (auto simp: luaF_close_def)
    then have "set (after_link g l) \<subseteq> set (after_link ?r l)" using sr sw p by (intro after_link_pushed) (auto simp: struct_def swept_at_def)
    then have ar: "a \<in> set (after_link ?r l)" using aft by blast
    have "open_at ?r a = {}" using cl(4) sr unfolding struct_def by (metis empty_set)
    note fr = free_listed [OF ir(1,2) ar ir(3) this]
    have "a \<notin> opens g" using b by (auto simp: opens_def)
    then have "freeobj a (unlink a g) = luaM_free a (object_size (BThread t)) (unlink a ?r)"
      using luaF_close_unlink [OF _ st, of a] p b(1) t by (simp add: unlink_free)
    moreover have "collects g ?r" using cl(7) by (simp add: closed_def)
    moreover have "sweep_left l ?r \<le> sweep_left l g" by (rule closed_left [OF cl(7) st sr]) (use sw p in \<open>simp add: swept_at_def\<close>)
    ultimately show ?thesis using fr(1) ir(2) collects_trans [OF _ fr(3)] order_less_le_trans [OF sweep_left_less [OF sr fr(2,4)]] by simp
  next
    case False
    have o: "open_at g a = {}"
    proof (rule ccontr)
      assume "open_at g a \<noteq> {}"
      then obtain u where "u \<in> open_at g a" by blast
      then show False using open_at_thread [OF st, of u a] False b(1) by auto
    qed
    note fr = free_listed [OF i p aft d o]
    have "\<exists>n. freeobj a (unlink a g) = luaM_free a n (unlink a g)"
      using b False by (cases b) (auto simp: unlink_free luaF_freeupval_def is_open_def split: gupval.split gupval.splits)
    then show ?thesis using fr(1,3) sweep_left_less [OF st fr(2,4)] p by auto
  qed
  then show "inv_at l (freeobj a (unlink a g))" "g_gcstate (freeobj a (unlink a g)) = GCSsweep" "collects g (freeobj a (unlink a g))"
    "sweep_left l (freeobj a (unlink a g)) < sweep_left l g" by blast+
qed

subsection \<open>The list\<close>

lemma sweeplist_inv:
  "inv_at l g \<Longrightarrow> g_gcstate g = GCSsweep \<Longrightarrow> sweeplist n l g = (l', g') \<Longrightarrow> inv_at l' g' \<and> g_gcstate g' = GCSsweep \<and> collects g g' \<and>
   sweep_left l' g' \<le> sweep_left l g \<and> (0 < n \<longrightarrow> after_link g l \<noteq> [] \<longrightarrow> sweep_left l' g' < sweep_left l g)"
proof (induction n arbitrary: l g)
  case (Suc n)
  show ?case
  proof (cases "after_link g l")
    case Nil
    then show ?thesis using Suc.prems by simp
  next
    case (Cons a rest)
    let ?r = "sweep_open a g"
    note o = sweep_open_any [OF Suc.prems(1,2), where a = a]
    have p: "g_gcstate ?r = GCSsweep" using o(2) Suc.prems(2) by simp
    have al: "after_link ?r l = a # rest" using after_link_cong [OF o(3), of l] Cons by simp
    have "struct g" using Suc.prems(1) by (simp add: inv_at_def heap_ok_def)
    then have left: "sweep_left l ?r \<le> sweep_left l g" by (rule sweep_left_le [OF _ o(9)]) (simp add: al Cons)
    have step: ?thesis if t: "inv_at m k" "g_gcstate k = GCSsweep" "collects ?r k" "sweep_left m k < sweep_left l ?r" and e: "sweeplist (Suc n) l g = sweeplist n m k" for m k
    proof -
      have "sweeplist n m k = (l', g')" using e Suc.prems(3) by argo
      note ih = Suc.IH [OF t(1,2) this]
      have "collects g g'" using collects_trans [OF o(10)] collects_trans [OF t(3)] ih by blast
      then show ?thesis using ih t(4) left by linarith
    qed
    show ?thesis
    proof (cases "sweep_keeps ?r a")
      case True
      have tk: "inv_at (Some a) (makewhite a ?r)" "g_gcstate (makewhite a ?r) = GCSsweep" "collects ?r (makewhite a ?r)"
        "sweep_left (Some a) (makewhite a ?r) < sweep_left l ?r" by (rule turn_keeps [OF o(1) p al True], erule o(5))+
      show ?thesis by (rule step [OF tk]) (use Cons True in \<open>simp add: Let_def\<close>)
    next
      case False
      note tf = turn_frees [OF o(1) p al False]
      show ?thesis by (rule step [OF tf]) (use Cons False in \<open>simp add: Let_def unlink_def\<close>)
    qed
  qed
qed simp

subsection \<open>The string table and the end of the sweep\<close>

lemma lmod_bound: "0 < n \<Longrightarrow> lmod h n < n"
proof -
  assume n: "0 < n"
  have "unat (h AND (of_nat n - 1 :: 32 word)) \<le> unat (of_nat n - 1 :: 32 word)" by (metis word_and_le1 word_le_nat_alt)
  moreover have "unat (of_nat n - 1 :: 32 word) < n"
  proof (cases "(of_nat n :: 32 word) = 0")
    case True
    have "n mod 2 ^ 32 = 0" using arg_cong [OF True, of unat] by (simp add: unat_of_nat take_bit_eq_mod)
    then have "2 ^ 32 \<le> n" using n by (metis mod_less not_less neq0_conv)
    moreover have "unat (of_nat n - 1 :: 32 word) < 2 ^ 32" by (rule order_less_le_trans [OF unsigned_less]) simp
    ultimately show ?thesis by (rule order_less_le_trans [rotated])
  next
    case False
    then have "unat (of_nat n - 1 :: 32 word) = unat (of_nat n :: 32 word) - 1" by (rule unat_minus_one)
    moreover have "unat (of_nat n :: 32 word) \<le> n" by (simp add: unat_of_nat take_bit_nat_eq_self_iff take_bit_eq_mod)
    ultimately show ?thesis using n by linarith
  qed
  ultimately show ?thesis by (simp add: lmod_def)
qed

lemma mset_concat_upd: "i < length nh \<Longrightarrow> mset (concat (nh[i := a # nh ! i])) = add_mset a (mset (concat nh))"
proof (induction nh arbitrary: i)
  case (Cons x nh)
  then show ?case by (cases i) simp_all
qed simp

lemma rechain_string_mset: "0 < n \<Longrightarrow> length nh = n \<Longrightarrow> length (rechain_string n g nh a) = n \<and> mset (concat (rechain_string n g nh a)) = add_mset a (mset (concat nh))"
  using lmod_bound [of n] unfolding rechain_string_def Let_def
  by (subst mset_concat_upd) (auto split: option.split gbody.split)

lemma rechain_chain: "0 < n \<Longrightarrow> length nh = n \<Longrightarrow> length (foldl (rechain_string n g) nh as) = n \<and> mset (concat (foldl (rechain_string n g) nh as)) = mset as + mset (concat nh)"
proof (induction as arbitrary: nh)
  case (Cons a as)
  then show ?case using rechain_string_mset [of n nh g a] Cons.IH [of "rechain_string n g nh a"] by simp
qed simp

lemma rechain_chains: "0 < n \<Longrightarrow> length nh = n \<Longrightarrow> length (foldl (foldl (rechain_string n g)) nh ass) = n \<and>
   mset (concat (foldl (foldl (rechain_string n g)) nh ass)) = mset (concat ass) + mset (concat nh)"
proof (induction ass arbitrary: nh)
  case (Cons as ass)
  then show ?case using rechain_chain [of n nh g as] Cons.IH [of "foldl (rechain_string n g) nh as"] by (simp add: ac_simps)
qed simp

lemma strt_resize_mset:
  assumes "0 < n" "g_gcstate g \<noteq> GCSsweepstring"
  shows "length (g_strt (strt_resize n g)) = n" "mset (concat (g_strt (strt_resize n g))) = mset (concat (g_strt g))"
  using rechain_chains [OF assms(1), of "replicate n []" g "g_strt g"] assms by (simp_all add: strt_resize_def del: mset_concat)

lemma checkSizes_strt:
  assumes "g_gcstate g \<noteq> GCSsweepstring" "g_strt g \<noteq> []"
  shows "\<exists>s b. checkSizes g = g\<lparr>g_strt := s, g_buffsize := b\<rparr> \<and> s \<noteq> [] \<and> mset (concat s) = mset (concat (g_strt g))"
proof -
  let ?n = "length (g_strt g) div 2"
  let ?s = "if g_nuse g < length (g_strt g) div 4 \<and> length (g_strt g) > MINSTRTABSIZE * 2 then g_strt (strt_resize ?n g) else g_strt g"
  have n: "length (g_strt g) > MINSTRTABSIZE * 2 \<Longrightarrow> 0 < ?n" by (simp add: MINSTRTABSIZE_def)
  have s: "?s \<noteq> [] \<and> mset (concat ?s) = mset (concat (g_strt g))"
    using strt_resize_mset [OF n assms(1)] n assms(2) by (auto simp del: mset_concat)
  have "\<exists>b. checkSizes g = g\<lparr>g_strt := ?s, g_buffsize := b\<rparr>"
    using assms(1) by (cases g) (auto simp: checkSizes_def strt_resize_def Let_def)
  then show ?thesis using s by blast
qed

lemma strt_inv:
  assumes h: "heap_ok g" and s: "s \<noteq> []" "mset (concat s) = mset (concat (g_strt g))"
  shows "heap_ok (g\<lparr>g_strt := s\<rparr>)"
proof -
  let ?r = "g\<lparr>g_strt := s\<rparr>"
  have "distinct (concat s) = distinct (concat (g_strt g))" "set (concat s) = set (concat (g_strt g))"
    using s(2) by (metis mset_eq_imp_distinct_iff, metis mset_eq_setD)
  moreover have "typed_at ?r = typed_at g" "listed_at ?r = listed_at g" "open_at ?r = open_at g" "open_upvals ?r = open_upvals g" "objects ?r = objects g"
    "after_link ?r (Some (g_mainthread g)) = after_link g (Some (g_mainthread g))"
    by (simp_all add: fun_eq_iff typed_at_def listed_at_def open_at_def open_upvals_def after_link_def objects_def)
  ultimately have "struct ?r" using h s(1) unfolding heap_ok_def struct_def by (simp del: set_concat)
  moreover have "core ?r" using h unfolding heap_ok_core by (elim conjE, rule_tac core_cong [of _ g]) (simp_all add: typed_at_def refs_cong [of ?r g])
  ultimately show ?thesis by (simp add: heap_ok_core)
qed

lemma sweep_step_inv:
  assumes i: "gc_inv g" and p: "g_gcstate g = GCSsweep"
  shows "gc_inv (sweep_step g)" "collects g (sweep_step g)"
    "g_gcstate (sweep_step g) = GCSfinalize \<or> g_gcstate (sweep_step g) = GCSsweep \<and>
       sweep_left (g_sweepgc (sweep_step g)) (sweep_step g) < sweep_left (g_sweepgc g) g"
proof -
  obtain link g1 where r: "sweeplist GCSWEEPMAX (g_sweepgc g) g = (link, g1)" by (cases "sweeplist GCSWEEPMAX (g_sweepgc g) g")
  have j: "inv_at link g1" "g_gcstate g1 = GCSsweep" and cs: "collects g g1" and less: "after_link g (g_sweepgc g) \<noteq> [] \<Longrightarrow> sweep_left link g1 < sweep_left (g_sweepgc g) g"
    using sweeplist_inv [OF _ p r] i by (simp_all add: gc_inv_at GCSWEEPMAX_def)
  have h1: "heap_ok g1" and s1: "swept_at link g1" using j by (simp_all add: inv_at_def)
  let ?g2 = "g1\<lparr>g_sweepgc := link\<rparr>"
  have fr: "\<exists>e. freed_since old k = k\<lparr>g_estimate := e\<rparr>" for old k by (auto simp: freed_since_def)
  have cc: "collects g k" if "body k = body g1" "marked k = marked g1" "g_currentwhite k = g_currentwhite g1" for k
    by (rule collects_trans [OF cs collects_cong]) (use that in \<open>simp_all add: sweep_keeps_def otherwhite_def\<close>)
  have "gc_inv (sweep_step g) \<and> collects g (sweep_step g) \<and> (g_gcstate (sweep_step g) = GCSfinalize \<or> g_gcstate (sweep_step g) = GCSsweep \<and>
       sweep_left (g_sweepgc (sweep_step g)) (sweep_step g) < sweep_left (g_sweepgc g) g)"
  proof (cases "after_link ?g2 link = []")
    case False
    then obtain e where e: "sweep_step g = g1\<lparr>g_sweepgc := link, g_estimate := e\<rparr>" using fr [of "g_totalbytes g" ?g2] r by (auto simp: sweep_step_def Let_def)
    let ?r = "g1\<lparr>g_sweepgc := link, g_estimate := e\<rparr>"
    have "heap_ok ?r" using h1 by (subst heap_ok_cong [of _ g1]) simp_all
    moreover have "swept_at link ?r" using s1 pending_cong(1) [of ?r g1 link] pending_cong(2) [of ?r g1]
      by (simp add: swept_at_def current_def iswhite_def isblack_def luaC_white_def)
    moreover have "after_link g (g_sweepgc g) \<noteq> []"
    proof
      assume n: "after_link g (g_sweepgc g) = []"
      have "sweeplist GCSWEEPMAX (g_sweepgc g) g = (g_sweepgc g, g)" using n by (simp add: GCSWEEPMAX_def eval_nat_numeral)
      then have "link = g_sweepgc g \<and> g1 = g" using r by auto
      then have "after_link g1 link = []" using n by metis
      then show False using False after_link_cong [of ?g2 g1 link] by simp
    qed
    then have "sweep_left link ?r < sweep_left (g_sweepgc g) g" using less after_link_cong [of ?r g1 link] by (simp add: sweep_left_def opens_def)
    moreover have "collects g ?r" by (rule cc) simp_all
    ultimately show ?thesis unfolding e using j(2) by (simp add: gc_inv_def inv_except_def)
  next
    case True
    have al: "after_link g1 link = []" using True after_link_cong [of ?g2 g1 link] by simp
    have "g_strt ?g2 \<noteq> []" "g_gcstate ?g2 \<noteq> GCSsweepstring" using h1 j(2) by (simp_all add: heap_ok_def struct_def)
    then obtain s b where sb: "checkSizes ?g2 = ?g2\<lparr>g_strt := s, g_buffsize := b\<rparr>" "s \<noteq> []" "mset (concat s) = mset (concat (g_strt g1))"
      using checkSizes_strt [of ?g2] by auto
    obtain e where e: "sweep_step g = g1\<lparr>g_sweepgc := link, g_strt := s, g_buffsize := b, g_gcstate := GCSfinalize, g_estimate := e\<rparr>"
      using fr [of "g_totalbytes g" "(checkSizes ?g2)\<lparr>g_gcstate := GCSfinalize\<rparr>"] r True sb(1) by (auto simp: sweep_step_def Let_def)
    let ?r = "g1\<lparr>g_sweepgc := link, g_strt := s, g_buffsize := b, g_gcstate := GCSfinalize, g_estimate := e\<rparr>"
    have "heap_ok (g1\<lparr>g_strt := s\<rparr>)" by (rule strt_inv [OF h1 sb(2,3)])
    then have "heap_ok ?r" by (subst heap_ok_cong [of _ "g1\<lparr>g_strt := s\<rparr>"]) simp_all
    moreover have "pending_at link g1 = {}" using al j(2) by (simp add: pending_at_def)
    then have "swept_at link ?r" using s1 j(2)
      by (simp add: swept_at_def current_def iswhite_def isblack_def luaC_white_def opens_def)
    moreover have "collects g ?r" by (rule cc) simp_all
    ultimately show ?thesis unfolding e by (simp add: gc_inv_def inv_except_def)
  qed
  then show "gc_inv (sweep_step g)" "collects g (sweep_step g)"
    "g_gcstate (sweep_step g) = GCSfinalize \<or> g_gcstate (sweep_step g) = GCSsweep \<and>
       sweep_left (g_sweepgc (sweep_step g)) (sweep_step g) < sweep_left (g_sweepgc g) g" by blast+
qed

end
