(* ===== verification/Lua_Gc_Store.thy ===== *)
theory Lua_Gc_Store
  imports Lua_Gc_Sweeplist
begin

text \<open>Writing a field of an object: what the invariant asks of it in each phase; the finalizer of a userdata is such a write.\<close>

subsection \<open>What the invariant depends on\<close>

definition same_collector :: "gstate \<Rightarrow> gstate \<Rightarrow> bool" where
  "same_collector g g' \<longleftrightarrow> g_rootgc g' = g_rootgc g \<and> g_sweepgc g' = g_sweepgc g \<and> g_strt g' = g_strt g \<and> g_sweepstrgc g' = g_sweepstrgc g \<and>
     g_gray g' = g_gray g \<and> g_grayagain g' = g_grayagain g \<and> g_weak g' = g_weak g \<and> g_tmudata g' = g_tmudata g \<and> g_uvhead g' = g_uvhead g \<and>
     g_currentwhite g' = g_currentwhite g \<and> g_gcstate g' = g_gcstate g \<and> g_mainthread g' = g_mainthread g \<and> g_registry g' = g_registry g"

lemma same_collector_refl [simp]: "same_collector g g"
  by (simp add: same_collector_def)

definition same_kind :: "gbody \<Rightarrow> gbody \<Rightarrow> bool" where
  "same_kind b b' \<longleftrightarrow> gc_tt b' = gc_tt b \<and> (is_open b \<longrightarrow> b' = b) \<and> (is_open b' \<longrightarrow> b' = b) \<and>
     (\<forall>t. b = BThread t \<longrightarrow> (\<exists>t'. b' = BThread t' \<and> th_openupval t' = th_openupval t))"

lemma same_kind_refl [simp]: "same_kind b b"
  by (simp add: same_kind_def)

lemma same_kind_open: "same_kind b b' \<Longrightarrow> is_open b' = is_open b"
  by (auto simp: same_kind_def)

lemma rewrite_views:
  assumes b: "\<And>x. rel_option same_kind (body g x) (body g' x)" and m: "marked g' = marked g" and f: "same_collector g g'"
  shows "typed_at g' tt x = typed_at g tt x" "listed_at g' x = listed_at g x" "open_at g' x = open_at g x" "open_upvals g' x = open_upvals g x"
    "opens g' = opens g" "objects g' = objects g" "isdead g' x = isdead g x" "live g' tt x = live g tt x" "iswhite g' x = iswhite g x" "isblack g' x = isblack g x"
    "current g' x = current g x" "after_link g' l = after_link g l" "gray_at g' x = gray_at g x" "isgray g' x = isgray g x" "pending_at l g' = pending_at l g"
proof -
  have bx: "body g x = None \<and> body g' x = None \<or> (\<exists>c c'. body g x = Some c \<and> body g' x = Some c' \<and> same_kind c c')" for x
    using b [of x] by (cases "body g x"; cases "body g' x") simp_all
  show "typed_at g' tt x = typed_at g tt x" for tt x using bx [of x] by (auto simp: typed_at_def same_kind_def)
  note t = this
  have iu: "body g' u = Some (BUpval (UOpen s i)) \<longleftrightarrow> body g u = Some (BUpval (UOpen s i))" for u s i
    using bx [of u] by (auto simp: same_kind_def is_open_def)
  show oa: "open_at g' x = open_at g x" for x by (simp add: open_at_def iu)
  show "listed_at g' x = listed_at g x" using bx [of x] by (auto simp: listed_at_def same_kind_def)
  show "open_upvals g' x = open_upvals g x"
  proof (cases "\<exists>t. body g x = Some (BThread t)")
    case True
    then show ?thesis using bx [of x] by (auto simp: open_upvals_def same_kind_def)
  next
    case False
    have "\<not> (\<exists>t. body g' x = Some (BThread t))"
    proof
      assume "\<exists>t. body g' x = Some (BThread t)"
      then have "typed_at g TTHREAD x" using t [of TTHREAD x] by (auto simp: typed_at_def)
      then show False using False by (auto simp: typed_at_def elim: gc_tt.elims)
    qed
    then show ?thesis using False by (auto simp: open_upvals_def split: option.split gbody.split)
  qed
  have "u \<in> opens g' \<longleftrightarrow> u \<in> opens g" for u using bx [of u] same_kind_open by (auto simp: opens_def)
  then show "opens g' = opens g" by blast
  have "u \<in> objects g' \<longleftrightarrow> u \<in> objects g" for u using bx [of u] by (auto simp: objects_def)
  then show "objects g' = objects g" by blast
  show d: "isdead g' x = isdead g x" using m f by (simp add: isdead_def otherwhite_def same_collector_def)
  show "live g' tt x = live g tt x" by (simp add: live_def t d)
  show "iswhite g' x = iswhite g x" "isblack g' x = isblack g x" "current g' x = current g x" "isgray g' x = isgray g x"
    using m f by (simp_all add: iswhite_def isblack_def current_def luaC_white_def isgray_def same_collector_def)
  show al: "after_link g' l = after_link g l" for l by (rule after_link_cong) (use f in \<open>simp add: same_collector_def\<close>)
  show "gray_at g' x = gray_at g x" using bx [of x] by (auto simp: gray_at_def gray_kind_def same_kind_def)
  have n: "(body g' x = None) = (body g x = None)" for x using bx [of x] by auto
  show "pending_at l g' = pending_at l g" unfolding pending_at_def al oa t n using f by (simp add: same_collector_def split: gcstate.split)
qed

text \<open>
  A write keeps the invariant up to the objects \<open>E\<close> written to, when what is not dead refers to live objects afterwards. In the mark phase these may then
  refer to white objects, which the barriers have to see to.
\<close>

lemma rewrite_inv:
  assumes i: "inv_except D g" and b: "\<And>x. rel_option same_kind (body g x) (body g' x)" and m: "marked g' = marked g" and f: "same_collector g g'"
    and r: "\<And>x. \<not> isdead g x \<Longrightarrow> refs_live g (refs g' x)" and ro: "refs_live g (roots g')"
    and e: "\<And>x. x \<notin> E \<Longrightarrow> x \<notin> opens g \<Longrightarrow> refs g' x = refs g x"
  shows "inv_except (D \<union> E) g'"
proof -
  note v = rewrite_views [OF b m f]
  have h: "heap_ok g" using i by (simp add: inv_except_def)
  have fl: "g_rootgc g' = g_rootgc g" "g_sweepgc g' = g_sweepgc g" "g_strt g' = g_strt g" "g_sweepstrgc g' = g_sweepstrgc g"
     "g_gray g' = g_gray g" "g_grayagain g' = g_grayagain g" "g_weak g' = g_weak g" "g_tmudata g' = g_tmudata g" "g_uvhead g' = g_uvhead g"
     "g_currentwhite g' = g_currentwhite g" "g_gcstate g' = g_gcstate g" "g_mainthread g' = g_mainthread g" "g_registry g' = g_registry g"
    using f by (simp_all add: same_collector_def)
  have rl: "refs_live g' R = refs_live g R" for R by (simp add: refs_live_def v)
  have bn: "(body g' x = None) = (body g x = None)" for x using b [of x] by (cases "body g x"; cases "body g' x") simp_all
  have "struct g'" using h unfolding heap_ok_def struct_def v fl m by blast
  moreover have "sound g'" unfolding sound_def v rl using r by blast
  moreover have "colours g'" using h by (simp add: heap_ok_def colours_def wb_def v m)
  moreover have "cw_ok g'" using h by (simp add: heap_ok_def cw_ok_def fl)
  ultimately have h': "heap_ok g'" using ro by (simp add: heap_ok_def rl)
  show ?thesis
  proof (cases "g_gcstate g = GCSpropagate")
    case True
    have mk: "marking D g" using i True by (simp add: inv_except_def)
    have n: "\<not> isdead g x" for x using mk by (simp add: marking_def)
    have ty: "typed g'" by (rule alive_typed) (use h' n v in \<open>simp_all add: heap_ok_def\<close>)
    have gl: "gray_lists g' = gray_lists g" by (simp add: gray_lists_def fl)
    have tb: "(\<exists>h. body g' a = Some (BTable h)) = (\<exists>h. body g a = Some (BTable h))" for a
    proof -
      have "(\<exists>h. body k a = Some (BTable h)) = typed_at k TTABLE a" for k by (auto simp: typed_at_def elim: gc_tt.elims)
      then show ?thesis by (simp add: v)
    qed
    have "mark_lists g' = mark_lists g" by (simp only: mark_lists_def gl v tb fl)
    then have ml: "mark_lists g'" using mk by (simp add: marking_def minv_def)
    have sh: "shades g'" unfolding shades_def v gl
    proof (intro allI impI)
      fix x c' assume x: "body g' x = Some c'" "\<not> iswhite g x"
      then obtain c where c: "body g x = Some c" "same_kind c c'" using b [of x] by (cases "body g x") auto
      have tt: "gc_tt c' = gc_tt c" using c(2) unfolding same_kind_def by blast
      have "gray_kind c' = gray_kind c" "black_kind c' = black_kind c"
        by (simp_all add: gray_kind_def black_kind_def tt same_kind_open [OF c(2)])
      moreover have "shades g" using mk by (simp add: marking_def minv_def)
      ultimately show "if gray_kind c' then (isblack g x \<or> x \<in> set (gray_lists g)) \<and> (gc_tt c' = TTHREAD \<longrightarrow> \<not> isblack g x) else isblack g x = black_kind c'"
        using shadesD [OF _ c(1) x(2)] tt by simp
    qed
    have "wb g'" using mk by (simp add: marking_def minv_def wb_def v)
    with ty ml sh have mi: "minv g'" by (simp add: minv_def)
    have ex: "excused g' = excused g" by (simp add: excused_def fl v)
    have "tri g (excused g \<union> D)" using mk by (simp add: marking_def)
    then have "tri g' (excused g' \<union> (D \<union> E))" unfolding tri_def ex v bn fl
    proof (intro allI impI)
      fix x assume t: "\<forall>x. body g x \<noteq> None \<longrightarrow> \<not> iswhite g x \<longrightarrow> x \<in> excused g \<union> D \<or> x \<in> set (g_gray g) \<or> ok g x" and x: "body g x \<noteq> None" "\<not> iswhite g x"
      have "x \<notin> E \<Longrightarrow> x \<notin> opens g \<Longrightarrow> ok g' x = ok g x" using e [of x] by (simp add: ok_def v)
      then show "x \<in> excused g \<union> (D \<union> E) \<or> x \<in> set (g_gray g) \<or> ok g' x" using t x by (auto simp: excused_def)
    qed
    then have "marking (D \<union> E) g'" using mi n mk by (simp add: marking_def v fl)
    then show ?thesis using h' True by (simp add: inv_except_def fl)
  next
    case False
    then have "swept g" using i by (simp add: inv_except_def)
    then have "swept g'" using bn by (simp add: swept_at_def v fl)
    then show ?thesis using h' False by (simp add: inv_except_def fl)
  qed
qed

subsection \<open>One object is written\<close>

lemma set_body_same [simp]: "same_collector g (set_body a b g')= same_collector g g'"
  by (simp add: same_collector_def)

lemma set_body_kind:
  assumes "body g a = Some b" "same_kind b b'"
  shows "rel_option same_kind (body g x) (body (set_body a b' g) x)"
  using assms by (cases "body g x") (auto simp: body_set_body)

lemma roots_cong: "g_mainthread g' = g_mainthread g \<Longrightarrow> g_L g' = g_L g \<Longrightarrow> g_registry g' = g_registry g \<Longrightarrow> g_mt g' = g_mt g \<Longrightarrow> g_tmudata g' = g_tmudata g \<Longrightarrow>
   roots g' = roots g"
  by (simp add: roots_def mt_refs_def)

lemma set_body_roots [simp]: "roots (set_body a b g) = roots g"
  by (rule roots_cong) simp_all

lemma heap_refs: "heap_ok g \<Longrightarrow> \<not> isdead g x \<Longrightarrow> refs_live g (refs g x)"
  by (simp add: heap_ok_def sound_def)

lemma heap_roots: "heap_ok g \<Longrightarrow> refs_live g (roots g)"
  by (simp add: heap_ok_def)

lemma refs_live_Un [simp]: "refs_live g (A \<union> B) \<longleftrightarrow> refs_live g A \<and> refs_live g B"
  by (auto simp: refs_live_def)

lemma refs_live_empty [simp]: "refs_live g {}"
  by (simp add: refs_live_def)

lemma inv_heap: "inv_except E g \<Longrightarrow> heap_ok g"
  by (simp add: inv_except_def)

text \<open>Threads aside, no object but the one that is written refers to something else than before.\<close>

lemma set_body_refs:
  assumes b: "body g a = Some b" and t: "gc_tt b \<noteq> TTHREAD" "gc_tt b' \<noteq> TTHREAD"
  shows "refs (set_body a b' g) x = (if x = a then brefs g b' else refs g x)"
proof -
  let ?r = "set_body a b' g"
  have "upval_value ?r uv = upval_value g uv" for uv
    using b t by (cases uv) (auto simp: body_set_body split: gbody.split option.split)
  then have "upval_value ?r = upval_value g" by blast
  then have "brefs ?r c = brefs g c" for c by (cases "(g, c)" rule: brefs.cases) simp_all
  then show ?thesis using b by (auto simp: refs_def body_set_body split: option.split)
qed

lemma store_inv:
  assumes i: "inv_except D g" and b: "body g a = Some b" and k: "same_kind b b'" and t: "gc_tt b \<noteq> TTHREAD" and r: "refs_live g (brefs g b')"
  shows "inv_except (D \<union> {a}) (set_body a b' g)"
proof (rule rewrite_inv [OF i set_body_kind [OF b k]])
  have t': "gc_tt b' \<noteq> TTHREAD" using t k by (simp add: same_kind_def)
  note sr = set_body_refs [OF b t t']
  show "refs_live g (refs (set_body a b' g) x)" if "\<not> isdead g x" for x using that r heap_refs [OF inv_heap [OF i]] by (simp add: sr)
  show "refs (set_body a b' g) x = refs g x" if "x \<notin> {a}" for x using that by (simp add: sr)
  show "marked (set_body a b' g) = marked g" by simp
  show "refs_live g (roots (set_body a b' g))" using heap_roots [OF inv_heap [OF i]] by simp
qed simp

text \<open>A thread is never black in the mark phase, so that a write to a stack needs no barrier.\<close>

lemma stack_refs:
  assumes b: "body g a = Some (BThread t)" and v: "\<And>i. refs_live g (vrefs (stack_slot t' i)) \<or> stack_slot t' i = stack_slot t i"
    and th: "x = a \<Longrightarrow> refs_live g (brefs g (BThread t'))" and x: "refs_live g (refs g x)"
  shows "refs_live g (refs (set_body a (BThread t') g) x)"
proof -
  let ?r = "set_body a (BThread t') g"
  have bt: "brefs ?r (BThread t') = brefs g (BThread t')" by simp
  show ?thesis
  proof (cases "x = a")
    case True
    then show ?thesis using b th by (simp add: refs_def body_set_body)
  next
    case False
    show ?thesis
    proof (cases "\<exists>i. body g x = Some (BUpval (UOpen a i))")
      case True
      then obtain i where i: "body g x = Some (BUpval (UOpen a i))" by blast
      then have "refs ?r x = vrefs (stack_slot t' i)" "refs g x = vrefs (stack_slot t i)" using False b by (simp_all add: refs_def body_set_body)
      then show ?thesis using v [of i] x by auto
    next
      case no: False
      have "refs ?r x = refs g x"
      proof (cases "body g x")
        case (Some c)
        have "brefs ?r c = brefs g c"
        proof (cases "\<exists>uv. c = BUpval uv")
          case True
          then obtain uv where uv: "c = BUpval uv" by blast
          have "upval_value ?r uv = upval_value g uv" using no Some uv b by (cases uv) (auto simp: body_set_body)
          then show ?thesis using uv by simp
        next
          case False
          then show ?thesis by (cases "(g, c)" rule: brefs.cases) auto
        qed
        then show ?thesis using Some False by (simp add: refs_def body_set_body)
      qed (use False in \<open>simp add: refs_def body_set_body\<close>)
      then show ?thesis using x by simp
    qed
  qed
qed

lemma stack_inv:
  assumes i: "gc_inv g" and b: "body g a = Some (BThread t)" and o: "th_openupval t' = th_openupval t"
    and v: "\<And>i. refs_live g (vrefs (stack_slot t' i)) \<or> stack_slot t' i = stack_slot t i" and th: "\<not> isdead g a \<Longrightarrow> refs_live g (brefs g (BThread t'))"
  shows "gc_inv (set_body a (BThread t') g)"
proof -
  let ?r = "set_body a (BThread t') g"
  have i0: "inv_except {} g" using i by (simp add: gc_inv_def)
  note h = inv_heap [OF i0]
  have k: "same_kind (BThread t) (BThread t')" using o by (simp add: same_kind_def is_open_def)
  have j: "inv_except ({} \<union> {a}) ?r"
  proof (rule rewrite_inv [OF i0 set_body_kind [OF b k]])
    show "refs_live g (refs ?r x)" if "\<not> isdead g x" for x by (rule stack_refs [OF b v _ heap_refs [OF h that]]) (use th that in blast)
    show "refs_live g (roots ?r)" using heap_roots [OF h] by simp
    show "refs ?r x = refs g x" if x: "x \<notin> {a}" "x \<notin> opens g" for x
    proof (cases "body g x")
      case (Some c)
      have "brefs ?r c = brefs g c"
      proof (cases "\<exists>uv. c = BUpval uv")
        case True
        then obtain uv where uv: "c = BUpval uv" by blast
        have "upval_value ?r uv = upval_value g uv" using x Some uv by (cases uv) (auto simp: opens_def is_open_def)
        then show ?thesis using uv by simp
      next
        case False
        then show ?thesis by (cases "(g, c)" rule: brefs.cases) auto
      qed
      then show ?thesis using Some x by (simp add: refs_def body_set_body)
    qed (use x in \<open>simp add: refs_def body_set_body\<close>)
  qed simp_all
  show ?thesis
  proof (cases "g_gcstate g = GCSpropagate")
    case True
    have mk: "marking ({} \<union> {a}) ?r" using j True by (simp add: inv_except_def)
    have bt: "body ?r a = Some (BThread t')" using b by (simp add: body_set_body)
    have "iswhite ?r a \<or> \<not> isblack ?r a"
      using shadesD [of ?r a "BThread t'"] mk bt by (auto simp: marking_def minv_def gray_kind_def)
    then show ?thesis using not_black_excused [OF mk bt] True by (intro inv_except_settle [OF j]) auto
  next
    case False
    then show ?thesis using j by (simp add: gc_inv_def inv_except_def)
  qed
qed

subsection \<open>Finalizers\<close>

lemma main_split: "struct g \<Longrightarrow> g_rootgc g = takeWhile (\<lambda>x. x \<noteq> g_mainthread g) (g_rootgc g) @ g_mainthread g # after_link g (Some (g_mainthread g))"
  by (rule after_main) (simp add: struct_def)

lemma after_main_append: "m \<notin> set pre \<Longrightarrow> tl (dropWhile (\<lambda>x. x \<noteq> m) (pre @ m # ys)) = ys"
proof -
  assume m: "m \<notin> set pre"
  have "dropWhile (\<lambda>x. x \<noteq> m) (pre @ m # ys) = dropWhile (\<lambda>x. x \<noteq> m) (m # ys)" by (rule dropWhile_append2) (use m in auto)
  then show ?thesis by simp
qed

text \<open>A userdata that has the current white returns to the list of all objects.\<close>

lemma return_udata:
  assumes i: "gc_inv g" and p: "g_gcstate g = GCSfinalize" and u: "g_tmudata g = u # us" and c: "current g u"
  defines "g' \<equiv> g\<lparr>g_tmudata := us, g_rootgc := takeWhile (\<lambda>x. x \<noteq> g_mainthread g) (g_rootgc g) @ g_mainthread g # u # after_link g (Some (g_mainthread g))\<rparr>"
  shows "gc_inv g'"
proof -
  have h: "heap_ok g" and s: "swept g" using i p by (simp_all add: gc_inv_def inv_except_def)
  then have st: "struct g" by (simp add: heap_ok_def)
  let ?pre = "takeWhile (\<lambda>x. x \<noteq> g_mainthread g) (g_rootgc g)"
  have r: "g_rootgc g = ?pre @ g_mainthread g # after_link g (Some (g_mainthread g))" by (rule main_split [OF st])
  have mp: "g_mainthread g \<notin> set ?pre" by (auto dest: set_takeWhileD)
  have v: "body g' = body g" "marked g' = marked g" by (simp_all add: g'_def)
  have fl: "g_tmudata g' = us" "g_strt g' = g_strt g" "g_uvhead g' = g_uvhead g" "g_currentwhite g' = g_currentwhite g"
    "g_mainthread g' = g_mainthread g" "g_L g' = g_L g" "g_registry g' = g_registry g" "g_mt g' = g_mt g" "g_gcstate g' = g_gcstate g"
    "g_rootgc g' = ?pre @ g_mainthread g # u # after_link g (Some (g_mainthread g))"
    by (simp_all add: g'_def)
  have d: "isdead g' x = isdead g x" "current g' x = current g x" "iswhite g' x = iswhite g x" "isblack g' x = isblack g x" for x
    by (simp_all add: isdead_def otherwhite_def current_def luaC_white_def iswhite_def isblack_def v fl)
  have t: "typed_at g' = typed_at g" "listed_at g' = listed_at g" "open_at g' = open_at g" "open_upvals g' = open_upvals g" "objects g' = objects g" "opens g' = opens g"
    by (simp_all add: fun_eq_iff typed_at_def listed_at_def open_at_def open_upvals_def objects_def opens_def v)
  have rf: "refs g' = refs g" by (rule refs_cong [OF v(1)])
  have rl: "refs_live g' R = refs_live g R" for R by (simp add: refs_live_def live_def d t)
  have al: "after_link g' (Some (g_mainthread g')) = u # after_link g (Some (g_mainthread g))"
    using after_main_append [OF mp] by (simp add: after_link_def fl)
  have e: "mset (g_rootgc g' @ g_tmudata g') = mset (g_rootgc g @ g_tmudata g)"
  proof -
    have "mset (g_rootgc g) = mset ?pre + {#g_mainthread g#} + mset (after_link g (Some (g_mainthread g)))" using arg_cong [OF r, of mset] by simp
    then show ?thesis by (simp add: fl u)
  qed
  have sr: "set (g_rootgc g @ g_tmudata g) = {a. listed_at g a}" "distinct (g_rootgc g @ g_tmudata g)" using st unfolding struct_def by blast+
  then have "set (g_rootgc g' @ g_tmudata g') = {a. listed_at g' a}" "distinct (g_rootgc g' @ g_tmudata g')"
    using mset_eq_setD [OF e] mset_eq_imp_distinct_iff [OF e] unfolding t by blast+
  moreover have "\<forall>x \<in> set (after_link g' (Some (g_mainthread g'))). typed_at g' TUSERDATA x" using st u unfolding al t by (simp add: struct_def)
  moreover have "g_mainthread g' \<in> set (g_rootgc g')" "\<forall>x \<in> set (g_tmudata g'). typed_at g' TUSERDATA x" using st u by (simp_all add: fl t struct_def)
  ultimately have "struct g'" using st unfolding struct_def t fl(2,3) v(2) fl(5) by blast
  moreover have "roots g' \<subseteq> roots g" using u by (auto simp: roots_def mt_refs_def fl)
  ultimately have h': "heap_ok g'" using h refs_live_mono unfolding heap_ok_def cw_ok_def colours_def wb_def sound_def rl rf d v fl by blast
  have "swept g'" using s c u p by (auto simp: swept_at_def pending_at_def v fl d t)
  then show ?thesis using h' p by (simp add: gc_inv_def inv_except_def fl)
qed

lemma gfasttm_cases:
  obtains "gfasttm g mt e nm = (GNil, g)"
    | a h where "mt = Some a" "body g a = Some (BTable h)" "gfasttm g mt e nm = (GNil, set_body a (BTable (h\<lparr>h_flags := set_bit e (h_flags h)\<rparr>)) g)"
    | a h k v where "mt = Some a" "body g a = Some (BTable h)" "(k, v) \<in> set (h_node h)" "v \<noteq> GNil" "gfasttm g mt e nm = (v, g)"
proof (cases mt)
  case None
  then show ?thesis using that(1) by (simp add: gfasttm_def)
next
  case mt: (Some a)
  show ?thesis
  proof (cases "\<exists>h. body g a = Some (BTable h)")
    case True
    then obtain h where h: "body g a = Some (BTable h)" by blast
    show ?thesis
    proof (cases "bit (h_flags h) e")
      case True
      then show ?thesis using that(1) mt h by (simp add: gfasttm_def)
    next
      case False
      show ?thesis
      proof (cases "find (\<lambda>(k, v). k = GObj TSTRING nm) (h_node h)")
        case None
        then show ?thesis using that(2) [OF mt h] False mt h by (simp add: gfasttm_def)
      next
        case (Some n)
        obtain k v where n: "n = (k, v)" by (cases n)
        have "n \<in> set (h_node h)" using Some by (auto simp: find_Some_iff in_set_conv_nth)
        then show ?thesis using that(2) [OF mt h] that(3) [OF mt h, of k v] Some False mt h n by (cases "v = GNil") (simp_all add: gfasttm_def)
      qed
    qed
  next
    case False
    then show ?thesis using that(1) mt by (auto simp: gfasttm_def split: option.split gbody.split)
  qed
qed

lemma gfasttm_inv:
  assumes i: "gc_inv g" and m: "gfasttm g mt e nm = (tm, g')" and l: "refs_live g (orefs TTABLE mt)"
  shows "gc_inv g'" "refs_live g' (vrefs tm)" "\<And>tt x. live g' tt x = live g tt x" "g_gcstate g' = g_gcstate g" "g_tmudata g' = g_tmudata g" "g_L g' = g_L g"
proof -
  have i0: "inv_except {} g" using i by (simp add: gc_inv_def)
  note h = inv_heap [OF i0]
  have "gc_inv g' \<and> refs_live g' (vrefs tm) \<and> (\<forall>tt x. live g' tt x = live g tt x) \<and> g_gcstate g' = g_gcstate g \<and> g_tmudata g' = g_tmudata g \<and> g_L g' = g_L g"
  proof (cases rule: gfasttm_cases [of g mt e nm])
    case 1
    then show ?thesis using m i by simp
  next
    case (2 a t)
    let ?b = "BTable (t\<lparr>h_flags := set_bit e (h_flags t)\<rparr>)"
    have k: "same_kind (BTable t) ?b" by (simp add: same_kind_def is_open_def)
    have g': "g' = set_body a ?b g" "tm = GNil" using 2(3) m by simp_all
    have "brefs g ?b = refs g a" using 2(2) by (simp add: refs_def)
    have t: "gc_tt (BTable t) \<noteq> TTHREAD" "gc_tt ?b \<noteq> TTHREAD" by simp_all
    have r: "refs (set_body a ?b g) x = refs g x" for x using set_body_refs [OF 2(2) t] 2(2) by (simp add: refs_def)
    have "inv_except ({} \<union> {}) (set_body a ?b g)"
      by (rule rewrite_inv [OF i0 set_body_kind [OF 2(2) k]]) (use heap_refs [OF h] heap_roots [OF h] in \<open>simp_all add: r\<close>)
    moreover have "live (set_body a ?b g) tt x = live g tt x" for tt x
      by (rule rewrite_views(8) [OF set_body_kind [OF 2(2) k]]) simp_all
    ultimately show ?thesis using g' by (simp add: gc_inv_def)
  next
    case (3 a t k v)
    have "live g TTABLE a" using l 3(1) by (simp add: orefs_def refs_live_def)
    then have "refs_live g (refs g a)" by (intro heap_refs [OF h]) (simp add: live_def)
    moreover have "vrefs v \<subseteq> refs g a" using 3(2,3,4) by (force simp: refs_def nrefs_def)
    ultimately have "refs_live g (vrefs v)" by (rule refs_live_mono)
    then show ?thesis using 3(5) m i by simp
  qed
  then show "gc_inv g'" "refs_live g' (vrefs tm)" "\<And>tt x. live g' tt x = live g tt x" "g_gcstate g' = g_gcstate g" "g_tmudata g' = g_tmudata g" "g_L g' = g_L g" by blast+
qed

end
