(* ===== verification/Lua_Gc_Cycle.thy ===== *)
theory Lua_Gc_Cycle
  imports Lua_Gc_Store
begin

text \<open>The finalizers and the collector as a whole: each of its steps keeps the invariant, and the sweep ends with no dead object left.\<close>

subsection \<open>Parameters of the collector\<close>

lemma inv_cong:
  assumes "body g' = body g" "marked g' = marked g" "same_collector g g'" "g_L g' = g_L g" "g_mt g' = g_mt g"
  shows "gc_inv g \<Longrightarrow> gc_inv g'"
proof -
  assume "gc_inv g"
  then have i: "inv_except {} g" by (simp add: gc_inv_def)
  have r: "refs g' = refs g" by (rule refs_cong [OF assms(1)])
  have ro: "roots g' = roots g" by (rule roots_cong) (use assms in \<open>simp_all add: same_collector_def\<close>)
  have "rel_option same_kind (body g x) (body g' x)" for x using assms(1) by (cases "body g x") simp_all
  then have "inv_except ({} \<union> {}) g'"
    by (rule rewrite_inv [OF i _ assms(2,3)]) (use heap_refs [OF inv_heap [OF i]] heap_roots [OF inv_heap [OF i]] in \<open>simp_all add: r ro\<close>)
  then show ?thesis by (simp add: gc_inv_def)
qed

subsection \<open>Finalizers\<close>

lemma push_slots:
  assumes "t' = t\<lparr>th_stack := take (th_top t) (th_stack t) @ [x, y] @ drop (th_top t + 2) (th_stack t), th_top := th_top t + 2\<rparr>"
  shows "stack_slot t' i = stack_slot t i \<or> stack_slot t' i = x \<or> stack_slot t' i = y \<or> stack_slot t' i = GNil"
    "set (take (th_top t') (th_stack t')) \<subseteq> set (take (th_top t) (th_stack t)) \<union> {x, y}"
proof -
  let ?s = "th_stack t" and ?n = "th_top t"
  let ?r = "take ?n ?s @ [x, y] @ drop (?n + 2) ?s"
  have r: "th_stack t' = ?r" "th_top t' = ?n + 2" using assms by simp_all
  show "stack_slot t' i = stack_slot t i \<or> stack_slot t' i = x \<or> stack_slot t' i = y \<or> stack_slot t' i = GNil"
  proof (cases "?n \<le> length ?s")
    case True
    consider "i < ?n" | "i = ?n" | "i = Suc ?n" | "?n + 2 \<le> i" by linarith
    then show ?thesis
    proof cases
      case 4
      then obtain k where "i = ?n + 2 + k" using le_Suc_ex by blast
      then show ?thesis using True by (auto simp: stack_slot_def r nth_append add.commute)
    qed (use True in \<open>auto simp: stack_slot_def r nth_append\<close>)
  next
    case False
    consider "i < length ?s" | "i = length ?s" | "i = Suc (length ?s)" | "length ?s + 2 \<le> i" by linarith
    then show ?thesis using False by cases (auto simp: stack_slot_def r nth_append)
  qed
  show "set (take (th_top t') (th_stack t')) \<subseteq> set (take ?n ?s) \<union> {x, y}"
  proof (cases "?n \<le> length ?s")
    case False
    then show ?thesis using set_take_subset [of "?n + 2" "?s @ [x, y]"] by (simp add: r)
  qed (simp add: r)
qed

lemma push_finalizer_inv:
  assumes i: "gc_inv g" and tm: "refs_live g (vrefs tm)" and u: "live g TUSERDATA u"
  shows "gc_inv (push_finalizer tm u g)"
proof (cases "\<exists>t. body g (g_L g) = Some (BThread t)")
  case True
  then obtain t where t: "body g (g_L g) = Some (BThread t)" by blast
  define t' where "t' = t\<lparr>th_stack := take (th_top t) (th_stack t) @ [tm, GObj TUSERDATA u] @ drop (th_top t + 2) (th_stack t), th_top := th_top t + 2\<rparr>"
  have e: "push_finalizer tm u g = set_body (g_L g) (BThread t') g" using t by (simp add: push_finalizer_def t'_def)
  have h: "heap_ok g" using i by (simp add: gc_inv_def inv_except_def)
  have "live g TTHREAD (g_L g)" by (rule refs_liveD [OF heap_roots [OF h]]) (simp add: roots_def)
  then have L: "refs_live g (brefs g (BThread t))" using heap_refs [OF h, of "g_L g"] t by (simp add: live_def refs_def)
  have uu: "refs_live g (vrefs (GObj TUSERDATA u))" using u by (simp add: refs_live_def)
  note ps = push_slots [OF t'_def]
  show ?thesis unfolding e
  proof (rule stack_inv [OF i t])
    show "th_openupval t' = th_openupval t" by (simp add: t'_def)
    show "refs_live g (vrefs (stack_slot t' j)) \<or> stack_slot t' j = stack_slot t j" for j using ps(1) [of j] tm uu by auto
    have "th_gt t' = th_gt t" by (simp add: t'_def)
    moreover have "(\<Union>v \<in> set (take (th_top t') (th_stack t')). vrefs v) \<subseteq> (\<Union>v \<in> set (take (th_top t) (th_stack t)) \<union> {tm, GObj TUSERDATA u}. vrefs v)"
      by (rule UN_mono [OF ps(2) order_refl])
    ultimately have "brefs g (BThread t') \<subseteq> brefs g (BThread t) \<union> vrefs tm \<union> vrefs (GObj TUSERDATA u)" unfolding brefs.simps UN_Un by auto
    then show "refs_live g (brefs g (BThread t'))" by (rule refs_live_mono [rotated]) (unfold refs_live_Un, intro conjI, fact+)
  qed
qed (use i in \<open>auto simp: push_finalizer_def split: option.split gbody.split\<close>)

lemma GCTM_begin_inv:
  assumes i: "gc_inv g" and p: "g_gcstate g = GCSfinalize"
  shows "gc_inv (snd (GCTM_begin g))"
proof (cases "g_tmudata g")
  case Nil
  then show ?thesis using i by (simp add: GCTM_begin_def)
next
  case (Cons u us)
  have h: "heap_ok g" using i by (simp add: gc_inv_def inv_except_def)
  have lu: "live g TUSERDATA u" by (rule refs_liveD [OF heap_roots [OF h]]) (use Cons in \<open>simp add: roots_def\<close>)
  then have bu: "body g u \<noteq> None" "\<not> isdead g u" by (auto simp: live_def typed_at_def)
  define g0 where "g0 = makewhite u g"
  have i0: "gc_inv g0" using swept_makewhite [OF _ _ bu, of "g_sweepgc g"] i p by (simp add: gc_inv_at g0_def)
  have f0: "g_tmudata g0 = g_tmudata g" "g_rootgc g0 = g_rootgc g" "g_gcstate g0 = g_gcstate g" "g_mainthread g0 = g_mainthread g" by (simp_all add: g0_def)
  have c0: "current g0 u" using makewhite_bits(4) [of g "marked g u"] h bu(1)
    by (simp add: g0_def current_def marked_set_mark luaC_white_def makewhite_mark_def heap_ok_def)
  let ?w = "\<lambda>g. g\<lparr>g_tmudata := us, g_rootgc := takeWhile (\<lambda>x. x \<noteq> g_mainthread g) (g_rootgc g) @ g_mainthread g # u # after_link g (Some (g_mainthread g))\<rparr>"
  have p0: "g_gcstate g0 = GCSfinalize" "g_tmudata g0 = u # us" using p Cons by (simp_all add: f0)
  define g1 where "g1 = ?w g0"
  have i1: "gc_inv g1" unfolding g1_def by (rule return_udata [OF i0 p0 c0])
  have e1: "makewhite u (g\<lparr>g_tmudata := us, g_rootgc := takeWhile (\<lambda>x. x \<noteq> g_mainthread g) (g_rootgc g) @ g_mainthread g # u # after_link g (Some (g_mainthread g))\<rparr>) = g1"
    by (simp add: g1_def g0_def set_mark_def after_link_def luaC_white_def split: option.split)
  have h1: "heap_ok g1" using i1 by (simp add: gc_inv_def inv_except_def)
  have t1: "typed_at g1 TUSERDATA u" using lu by (simp add: live_def typed_at_def g1_def g0_def)
  have "current g1 u" using c0 by (simp add: g1_def current_def luaC_white_def marked_def)
  then have l1: "live g1 TUSERDATA u" using t1 current_alive h1 by (simp add: live_def heap_ok_def)
  have mt: "refs_live g1 (orefs TTABLE (udata_metatable g1 u))"
  proof (rule refs_live_mono [OF heap_refs [OF h1]])
    show "\<not> isdead g1 u" using l1 by (simp add: live_def)
    show "orefs TTABLE (udata_metatable g1 u) \<subseteq> refs g1 u" by (auto simp: udata_metatable_def refs_def orefs_def split: option.split gbody.split)
  qed
  obtain tm g2 where g2: "gfasttm g1 (udata_metatable g1 u) 2 (g_gc g1) = (tm, g2)" by (cases "gfasttm g1 (udata_metatable g1 u) 2 (g_gc g1)")
  note gf = gfasttm_inv [OF i1 g2 mt]
  have r: "GCTM_begin g = (if tm = GNil then (None, g2) else (Some (g_GCthreshold g2), push_finalizer tm u (g2\<lparr>g_GCthreshold := 2 * g_totalbytes g2\<rparr>)))"
    unfolding GCTM_begin_def Cons list.case Let_def e1 g2 by simp
  let ?g3 = "g2\<lparr>g_GCthreshold := 2 * g_totalbytes g2\<rparr>"
  have b3: "body ?g3 = body g2" "marked ?g3 = marked g2" by simp_all
  have i3: "gc_inv ?g3" by (rule inv_cong [OF b3 _ _ _ gf(1)]) (simp_all add: same_collector_def)
  have li: "live ?g3 tt x = live g2 tt x" for tt x by (simp add: live_def typed_at_def isdead_def otherwhite_def)
  have "gc_inv (push_finalizer tm u ?g3)"
    by (rule push_finalizer_inv [OF i3]) (use gf(2,3) l1 in \<open>simp_all add: refs_live_def li\<close>)
  then show ?thesis using r gf(1) by simp
qed

lemma pause_inv:
  assumes i: "gc_inv g" and p: "g_gcstate g = GCSfinalize"
  shows "gc_inv (g\<lparr>g_gcstate := GCSpause, g_gcdept := d\<rparr>)"
proof -
  let ?r = "g\<lparr>g_gcstate := GCSpause, g_gcdept := d\<rparr>"
  have "heap_ok ?r" using i by (subst heap_ok_cong [of _ g]) (simp_all add: gc_inv_def inv_except_def)
  moreover have "swept ?r" using i p
    by (simp add: gc_inv_def inv_except_def swept_at_def pending_at_def current_def luaC_white_def iswhite_def isblack_def opens_def)
  ultimately show ?thesis by (simp add: gc_inv_def inv_except_def)
qed

lemma GCTM_inv:
  assumes i: "gc_inv g" and p: "g_gcstate g = GCSfinalize" and c: "\<And>k. gc_inv k \<Longrightarrow> gc_inv (call k)"
  shows "gc_inv (GCTM call g)"
proof -
  obtain o1 g1 where r: "GCTM_begin g = (o1, g1)" by (cases "GCTM_begin g")
  have i1: "gc_inv g1" using GCTM_begin_inv [OF i p] r by simp
  show ?thesis
  proof (cases o1)
    case None
    then show ?thesis using i1 r by (simp add: GCTM_def)
  next
    case (Some t)
    have b: "body ((call g1)\<lparr>g_GCthreshold := t\<rparr>) = body (call g1)" "marked ((call g1)\<lparr>g_GCthreshold := t\<rparr>) = marked (call g1)" by simp_all
    have "gc_inv ((call g1)\<lparr>g_GCthreshold := t\<rparr>)" by (rule inv_cong [OF b _ _ _ c [OF i1]]) (simp_all add: same_collector_def)
    then show ?thesis using r Some by (simp add: GCTM_def)
  qed
qed

lemma singlestep_inv:
  assumes i: "gc_inv g" and c: "\<And>k. gc_inv k \<Longrightarrow> gc_inv (call k)"
  shows "gc_inv (snd (singlestep call g))"
proof (cases "g_gcstate g")
  case GCSpause
  then show ?thesis using markroot_inv [OF i] by (simp add: singlestep_def)
next
  case GCSpropagate
  then show ?thesis using propagatemark_inv [OF i] atomic_inv [OF i] by (cases "propagatemark g") (simp add: singlestep_def)
next
  case GCSsweepstring
  then show ?thesis using sweepstring_step_inv [OF i] by (simp add: singlestep_def)
next
  case GCSsweep
  then show ?thesis using sweep_step_inv [OF i] by (simp add: singlestep_def)
next
  case GCSfinalize
  have g: "gc_inv (GCTM call g)" by (rule GCTM_inv [OF i GCSfinalize c])
  have b: "body (k\<lparr>g_estimate := e\<rparr>) = body k" "marked (k\<lparr>g_estimate := e\<rparr>) = marked k" for k e by simp_all
  have "gc_inv ((GCTM call g)\<lparr>g_estimate := e\<rparr>)" for e by (rule inv_cong [OF b _ _ _ g]) (simp_all add: same_collector_def)
  then show ?thesis using pause_inv [OF i GCSfinalize] g GCSfinalize by (simp add: singlestep_def Let_def)
qed

text \<open>A collection ends: every phase has a measure that each step of the collector lowers. The sweep ends with exactly the dead objects gone.\<close>

subsection \<open>The measure of a cycle\<close>

definition phase_left :: "gstate \<Rightarrow> nat" where
  "phase_left g = (case g_gcstate g of GCSpropagate \<Rightarrow> 4 | GCSsweepstring \<Rightarrow> 3 | GCSsweep \<Rightarrow> 2 | GCSfinalize \<Rightarrow> 1 | GCSpause \<Rightarrow> 0)"

definition steps_left :: "gstate \<Rightarrow> nat" where
  "steps_left g = (case g_gcstate g of
     GCSpropagate \<Rightarrow> gray_measure g
   | GCSsweepstring \<Rightarrow> length (g_strt g) - g_sweepstrgc g
   | GCSsweep \<Rightarrow> sweep_left (g_sweepgc g) g
   | GCSfinalize \<Rightarrow> length (g_tmudata g)
   | GCSpause \<Rightarrow> 0)"

definition nearer :: "(gstate \<times> gstate) set" where
  "nearer = inv_image (less_than <*lex*> less_than) (\<lambda>g. (phase_left g, steps_left g))"

lemma wf_nearer: "wf nearer"
  unfolding nearer_def by (intro wf_inv_image wf_lex_prod wf_less_than)

text \<open>What a finalizer may do to the collector: it leaves its phase and the list of the objects to finalize as they are.\<close>

definition finalizer_ok :: "(gstate \<Rightarrow> gstate) \<Rightarrow> bool" where
  "finalizer_ok call \<longleftrightarrow> (\<forall>k. gc_inv k \<longrightarrow> gc_inv (call k) \<and> g_gcstate (call k) = g_gcstate k \<and> g_tmudata (call k) = g_tmudata k)"

lemma finalizer_inv: "finalizer_ok call \<Longrightarrow> gc_inv k \<Longrightarrow> gc_inv (call k)"
  by (simp add: finalizer_ok_def)

lemma gfasttm_other:
  assumes "gfasttm g p e nm = (tm, g')"
  shows "g_gcstate g' = g_gcstate g" "g_tmudata g' = g_tmudata g"
  using assms by (auto simp: gfasttm_def Let_def split: option.splits gbody.splits if_splits)

lemma push_finalizer_other: "g_gcstate (push_finalizer tm u g) = g_gcstate g" "g_tmudata (push_finalizer tm u g) = g_tmudata g"
  by (simp_all add: push_finalizer_def split: option.split gbody.split)

lemma GCTM_other:
  assumes i: "gc_inv g" and p: "g_gcstate g = GCSfinalize" and t: "g_tmudata g = u # us" and c: "finalizer_ok call"
  shows "g_gcstate (GCTM call g) = GCSfinalize" "g_tmudata (GCTM call g) = us"
proof -
  obtain r g1 where b: "GCTM_begin g = (r, g1)" by (cases "GCTM_begin g")
  have "g_gcstate g1 = GCSfinalize \<and> g_tmudata g1 = us"
    using b t p by (auto simp: GCTM_begin_def Let_def push_finalizer_other gfasttm_other(1) split: if_splits prod.splits dest: gfasttm_other(2))
  moreover have "gc_inv g1" using GCTM_begin_inv [OF i p] b by simp
  ultimately show "g_gcstate (GCTM call g) = GCSfinalize" "g_tmudata (GCTM call g) = us"
    using b c by (auto simp: GCTM_def finalizer_ok_def split: option.split)
qed

lemma atomic_gcstate: "gc_inv g \<Longrightarrow> g_gcstate g = GCSpropagate \<Longrightarrow> g_gcstate (atomic g) = GCSsweepstring"
  by (simp add: atomic_def Let_def split: prod.split)

lemma propagatemark_nearer:
  assumes i: "gc_inv g" and p: "g_gcstate g = GCSpropagate" and gr: "g_gray g \<noteq> []"
  shows "g_gcstate (snd (propagatemark g)) = GCSpropagate" "gray_measure (snd (propagatemark g)) < gray_measure g"
proof -
  obtain a rest where ar: "g_gray g = a # rest" using gr by (cases "g_gray g") auto
  obtain n g' where r: "propagatemark g = (n, g')" by (cases "propagatemark g")
  have h: "minv g" "struct g" using i p by (simp_all add: gc_inv_def inv_except_def marking_def heap_ok_def)
  obtain b where b: "body g a = Some b" using minv_head [OF h(1) ar] by blast
  note ad = propagatemark_advance [OF h(1) ar r b]
  have "g_gcstate g' = g_gcstate g" by (rule trav_fields(7) [OF advance_trav [OF ad]])
  then show "g_gcstate (snd (propagatemark g)) = GCSpropagate" using r p by simp
  have "finite (objects g)" using h(2) by (simp add: struct_def)
  from advance_measure [OF this ar ad(1)] show "gray_measure (snd (propagatemark g)) < gray_measure g" using r by simp
qed

text \<open>Every step of the collector in a cycle brings it nearer to its end.\<close>

lemma singlestep_nearer:
  assumes i: "gc_inv g" and p: "g_gcstate g \<noteq> GCSpause" and c: "finalizer_ok call"
  shows "(snd (singlestep call g), g) \<in> nearer"
proof (cases "g_gcstate g")
  case GCSpause
  then show ?thesis using p by simp
next
  case GCSpropagate
  show ?thesis
  proof (cases "g_gray g = []")
    case True
    then show ?thesis using GCSpropagate atomic_gcstate [OF i] by (simp add: singlestep_def nearer_def phase_left_def)
  next
    case False
    then show ?thesis using GCSpropagate propagatemark_nearer [OF i] by (cases "propagatemark g") (simp add: singlestep_def nearer_def phase_left_def steps_left_def)
  qed
next
  case GCSsweepstring
  then show ?thesis using sweepstring_step_collects(2) [OF i] by (auto simp: singlestep_def nearer_def phase_left_def steps_left_def)
next
  case GCSsweep
  then show ?thesis using sweep_step_inv(3) [OF i] by (auto simp: singlestep_def nearer_def phase_left_def steps_left_def)
next
  case GCSfinalize
  show ?thesis
  proof (cases "g_tmudata g")
    case Nil
    then show ?thesis using GCSfinalize by (simp add: singlestep_def nearer_def phase_left_def)
  next
    case (Cons u us)
    then show ?thesis using GCSfinalize GCTM_other [OF i GCSfinalize Cons c] by (simp add: singlestep_def Let_def nearer_def phase_left_def steps_left_def)
  qed
qed

text \<open>A loop of steps up to a given phase ends, and whatever the steps keep holds at the end.\<close>

lemma cycle_loop:
  assumes p: "P g"
    and step: "\<And>k. P k \<Longrightarrow> stop \<noteq> g_gcstate k \<Longrightarrow> (snd (singlestep call k), k) \<in> nearer \<and> P (snd (singlestep call k))"
  shows "\<exists>g'. while_option (\<lambda>g. g_gcstate g \<noteq> stop) (snd \<circ> singlestep call) g = Some g' \<and> P g' \<and> g_gcstate g' = stop"
proof -
  let ?b = "\<lambda>g. g_gcstate g \<noteq> stop" and ?c = "snd \<circ> singlestep call"
  have n: "P (?c k)" "(?c k, k) \<in> nearer" if "P k" "?b k" for k using step [of k] that by auto
  have "wf {(t, s). (P s \<and> ?b s) \<and> t = ?c s}" by (rule wf_subset [OF wf_nearer]) (use n(2) in auto)
  then obtain g' where g': "while_option ?b ?c g = Some g'" using wf_while_option_Some [of P ?b ?c g] n(1) p by blast
  have "P g'" by (rule while_option_rule [OF _ g', where P = P]) (use n(1) p in auto)
  then show ?thesis using g' while_option_stop [OF g'] by auto
qed

subsection \<open>The sweep\<close>

lemma finalize_alive: "gc_inv g \<Longrightarrow> g_gcstate g = GCSfinalize \<Longrightarrow> \<not> isdead g a"
  by (rule swept_alive) (simp_all add: gc_inv_def inv_except_def pending_at_def)

definition sweeping :: "gstate \<Rightarrow> bool" where
  "sweeping g \<longleftrightarrow> g_gcstate g = GCSsweepstring \<or> g_gcstate g = GCSsweep"

lemma sweep_nearer:
  assumes i: "gc_inv k" and s: "sweeping k"
  shows "(snd (singlestep call k), k) \<in> nearer" "gc_inv (snd (singlestep call k))" "collects k (snd (singlestep call k))"
    "sweeping (snd (singlestep call k)) \<or> g_gcstate (snd (singlestep call k)) = GCSfinalize"
proof -
  have "(snd (singlestep call k), k) \<in> nearer \<and> gc_inv (snd (singlestep call k)) \<and> collects k (snd (singlestep call k)) \<and>
    (sweeping (snd (singlestep call k)) \<or> g_gcstate (snd (singlestep call k)) = GCSfinalize)"
  proof (cases "g_gcstate k = GCSsweep")
    case True
    then show ?thesis using sweep_step_inv [OF i True] by (auto simp: singlestep_def sweeping_def nearer_def phase_left_def steps_left_def)
  next
    case False
    then have p: "g_gcstate k = GCSsweepstring" using s by (simp add: sweeping_def)
    then show ?thesis using sweepstring_step_collects [OF i p] sweepstring_step_inv [OF i p] by (auto simp: singlestep_def sweeping_def nearer_def phase_left_def steps_left_def)
  qed
  then show "(snd (singlestep call k), k) \<in> nearer" "gc_inv (snd (singlestep call k))" "collects k (snd (singlestep call k))"
    "sweeping (snd (singlestep call k)) \<or> g_gcstate (snd (singlestep call k)) = GCSfinalize" by simp_all
qed

lemma sweep_loop:
  assumes i: "gc_inv g" and s: "sweeping g"
  shows "\<exists>g'. while_option (\<lambda>g. g_gcstate g \<noteq> GCSfinalize) (snd \<circ> singlestep call) g = Some g' \<and> gc_inv g' \<and> collects g g' \<and> g_gcstate g' = GCSfinalize"
proof -
  let ?P = "\<lambda>k. gc_inv k \<and> collects g k \<and> (sweeping k \<or> g_gcstate k = GCSfinalize)"
  have step: "(snd (singlestep call k), k) \<in> nearer \<and> ?P (snd (singlestep call k))" if k: "?P k" "GCSfinalize \<noteq> g_gcstate k" for k
    using sweep_nearer [of k call] k by (auto elim: collects_trans)
  have "?P g" using i s by simp
  from cycle_loop [where P = ?P and stop = GCSfinalize, OF this step] show ?thesis by blast
qed

text \<open>At the end of the sweep no object is dead, so what it does not keep is gone.\<close>

lemma collects_final:
  assumes c: "collects g g'" and i: "gc_inv g" and i': "gc_inv g'" and p: "g_gcstate g' = GCSfinalize"
  shows "contents g' x = (if isdead g x \<and> \<not> bit (marked g x) 5 then None else contents g x)"
proof -
  have k: "sweep_keeps g x \<longleftrightarrow> \<not> (isdead g x \<and> \<not> bit (marked g x) 5)" using keeps_iff i by (simp add: gc_inv_def inv_except_def heap_ok_def)
  have k': "sweep_keeps g' x" using keeps_iff [of g' x] finalize_alive [OF i' p] i' by (simp add: gc_inv_def inv_except_def heap_ok_def)
  show ?thesis
  proof (cases "body g x = None")
    case True
    then show ?thesis using c by (simp add: collects_def contents_def)
  next
    case False
    then have "if sweep_keeps g x then contents g' x = contents g x else body g' x = None" using c k' by (auto simp: collects_def split: if_splits)
    then show ?thesis using k by (auto split: if_splits)
  qed
qed

subsection \<open>A full collection\<close>

lemma reset_sweeping: "g_gcstate g \<noteq> GCSfinalize \<Longrightarrow> sweeping (fullgc_reset g)"
  by (cases "g_gcstate g") (auto simp: fullgc_reset_def sweeping_def)

lemma first_loop:
  assumes i: "gc_inv g"
  shows "\<exists>g'. while_option (\<lambda>g. g_gcstate g \<noteq> GCSfinalize) (snd \<circ> singlestep call) (fullgc_reset g) = Some g' \<and> gc_inv g' \<and> g_gcstate g' = GCSfinalize"
proof (cases "g_gcstate g = GCSfinalize")
  case True
  then have "fullgc_reset g = g" by (simp add: fullgc_reset_def)
  then show ?thesis using i True by (simp add: while_option_unfold)
next
  case False
  then show ?thesis using sweep_loop [OF fullgc_reset_inv [OF i] reset_sweeping] by blast
qed

lemma second_loop:
  assumes i: "gc_inv g" and c: "finalizer_ok call"
  shows "\<exists>g'. while_option (\<lambda>g. g_gcstate g \<noteq> GCSpause) (snd \<circ> singlestep call) g = Some g' \<and> gc_inv g' \<and> g_gcstate g' = GCSpause"
proof (rule cycle_loop [where P = gc_inv, OF i])
  fix k assume "gc_inv k" "GCSpause \<noteq> g_gcstate k"
  then show "(snd (singlestep call k), k) \<in> nearer \<and> gc_inv (snd (singlestep call k))"
    using singlestep_nearer [of k call] singlestep_inv [of k call] finalizer_inv [OF c] c by auto
qed

lemma while_eq: "while_option b c s = Some t \<Longrightarrow> while b c s = t"
  by (simp add: while_def)

lemma setthreshold_inv: "gc_inv g \<Longrightarrow> gc_inv (setthreshold g)"
  by (rule inv_cong [of _ g]) (simp_all add: setthreshold_def same_collector_def)

lemma fullgc_ends:
  assumes i: "gc_inv g" and c: "finalizer_ok call"
  obtains g1 g2 where "while_option (\<lambda>g. g_gcstate g \<noteq> GCSfinalize) (snd \<circ> singlestep call) (fullgc_reset g) = Some g1" "gc_inv g1" "g_gcstate g1 = GCSfinalize"
    "while_option (\<lambda>g. g_gcstate g \<noteq> GCSpause) (snd \<circ> singlestep call) (markroot g1) = Some g2" "gc_inv g2" "g_gcstate g2 = GCSpause"
    "luaC_fullgc call g = setthreshold g2"
proof -
  obtain g1 where 1: "while_option (\<lambda>g. g_gcstate g \<noteq> GCSfinalize) (snd \<circ> singlestep call) (fullgc_reset g) = Some g1" "gc_inv g1" "g_gcstate g1 = GCSfinalize"
    using first_loop [OF i] by blast
  obtain g2 where 2: "while_option (\<lambda>g. g_gcstate g \<noteq> GCSpause) (snd \<circ> singlestep call) (markroot g1) = Some g2" "gc_inv g2" "g_gcstate g2 = GCSpause"
    using second_loop [OF markroot_inv c] 1 by blast
  show ?thesis using that [OF 1 2] while_eq [OF 1(1)] while_eq [OF 2(1)] by (simp add: luaC_fullgc_def)
qed

subsection \<open>Garbage\<close>

text \<open>
  What survives a collection was reachable when it began, from the roots or from a userdata whose finalizer is still to be called. The state at the beginning
  is \<open>g\<close>; strings that are fixed survive in any case.
\<close>

inductive reach_from :: "gstate \<Rightarrow> (nat \<times> addr) set \<Rightarrow> nat \<times> addr \<Rightarrow> bool" for g R where
  from_start: "x \<in> R \<Longrightarrow> reach_from g R x"
| from_ref: "reach_from g R (tt, a) \<Longrightarrow> x \<in> refs g a \<Longrightarrow> reach_from g R x"

definition survivors :: "gstate \<Rightarrow> addr set \<Rightarrow> addr set" where
  "survivors g T = targets {y. reach_from g (roots g \<union> Pair TUSERDATA ` T) y}"

lemma survivors_start: "(tt, x) \<in> roots g \<Longrightarrow> x \<in> survivors g T" "x \<in> T \<Longrightarrow> x \<in> survivors g T"
  by (force simp: survivors_def targets_def intro: from_start)+

lemma survivors_roots: "R \<subseteq> roots g \<Longrightarrow> targets R \<subseteq> survivors g T"
proof
  fix x assume R: "R \<subseteq> roots g" and "x \<in> targets R"
  then obtain tt where "(tt, x) \<in> roots g" by (auto simp: targets_def)
  then show "x \<in> survivors g T" by (rule survivors_start(1))
qed

lemma survivors_closed: "a \<in> survivors g T \<Longrightarrow> targets (refs g a) \<subseteq> survivors g T"
  by (force simp: survivors_def targets_def intro: from_ref)

definition globals :: "gstate \<Rightarrow> addr \<times> addr option list \<times> addr \<times> gval \<times> (addr \<Rightarrow> bool)" where
  "globals g = (g_L g, g_mt g, g_mainthread g, g_registry g, \<lambda>x. bit (marked g x) 5)"

lemma globals_set_mark: "(\<And>m. bit (f m) 5 = bit m 5) \<Longrightarrow> globals (set_mark a f g) = globals g"
  by (simp add: globals_def marked_set_mark fun_eq_iff)

lemma globals_marks [simp]: "globals (set_mark a m_white2gray g) = globals g" "globals (set_mark a m_gray2black g) = globals g" "globals (g\<lparr>g_gray := xs\<rparr>) = globals g"
  by (simp_all add: globals_set_mark m_white2gray_def m_gray2black_def mask_defs bit_and_iff bit_or_iff bit_not_iff) (simp add: globals_def marked_def)

lemma later_globals: "later g g' \<Longrightarrow> globals g' = globals g"
  by (simp add: globals_def later_def glob_def)

lemma globals_really_mark [simp]: "globals (really_mark n a g) = globals g"
proof (induction n arbitrary: a g)
  case (Suc n)
  then show ?case
    by (simp add: Let_def markobject_with_def markopt_with_def markvalue_with_def split: option.split gbody.split gupval.split gval.split)
qed simp

lemma mark_globals: "globals (markobject a g) = globals g" "globals (markvalue v g) = globals g" "globals (markopt p g) = globals g"
  by (simp_all add: markobject_def markopt_def markvalue_def markobject_with_def markopt_with_def markvalue_with_def reallymarkobject_def split: option.split gval.split)

lemma markmt_globals: "globals (markmt g) = globals g"
proof -
  have "globals (fold markopt ps g) = globals g" for ps by (induction ps arbitrary: g) (simp_all add: mark_globals)
  then show ?thesis by (simp add: markmt_def)
qed

lemma markroot_inside:
  assumes i: "gc_inv g" and p: "g_gcstate g = GCSpause \<or> g_gcstate g = GCSfinalize"
  shows "inside (survivors g T) (markroot g)" "globals (markroot g) = globals g"
proof -
  let ?M = "survivors g T"
  have h: "heap_ok g" "swept g" and pe: "pending g = {}" using i p by (auto simp: gc_inv_def inv_except_def pending_at_def)
  let ?g0 = "g\<lparr>g_gray := [], g_grayagain := [], g_weak := []\<rparr>"
  have v: "body ?g0 = body g" "marked ?g0 = marked g" by simp_all
  note sv = same_view [OF v]
  have "iswhite g a \<or> a \<in> ?M" if "body g a \<noteq> None" for a
  proof -
    have "iswhite g a \<or> a \<in> set (g_tmudata g)" using h that pe current_white [of g a] by (auto simp: swept_at_def heap_ok_def)
    then show ?thesis using survivors_start(1) [of TUSERDATA a g T] by (auto simp: roots_def)
  qed
  then have 0: "inside ?M ?g0" unfolding inside_def sv v using survivors_closed by (simp add: gray_lists_def)
  let ?g1 = "markobject (g_mainthread ?g0) ?g0" let ?g2 = "markvalue (gt_main ?g1) ?g1" let ?g3 = "markvalue (g_registry ?g2) ?g2"
  have main: "g_mainthread g \<in> ?M" by (rule survivors_start(1) [of TTHREAD]) (simp add: roots_def)
  have k0: "globals ?g0 = globals g" by (simp add: globals_def marked_def)
  have k: "globals ?g1 = globals g" "globals ?g2 = globals g" "globals ?g3 = globals g" by (simp_all only: mark_globals k0)
  have 1: "inside ?M ?g1" by (rule markobject_inside [OF 0]) (use main in simp)
  have "targets (vrefs (gt_main ?g1)) \<subseteq> ?M"
  proof (cases "\<exists>t. body ?g1 (g_mainthread ?g1) = Some (BThread t)")
    case True
    then obtain t where t: "body ?g1 (g_mainthread ?g1) = Some (BThread t)" by blast
    have "g_mainthread ?g1 \<in> ?M" using main k(1) by (simp add: globals_def)
    from inside_closed [OF 1 this t] show ?thesis using t by (simp add: gt_main_def)
  qed (auto simp: gt_main_def targets_def split: option.split gbody.split)
  from markvalue_inside [OF 1 this] have 2: "inside ?M ?g2" .
  have "targets (vrefs (g_registry g)) \<subseteq> ?M" by (rule survivors_roots) (auto simp: roots_def)
  then have 3: "inside ?M ?g3" using k(2) by (intro markvalue_inside [OF 2]) (simp add: globals_def)
  have "targets (\<Union>p \<in> set (g_mt g). orefs TTABLE p) \<subseteq> ?M" by (rule survivors_roots) (auto simp: roots_def mt_refs_def)
  then have 4: "inside ?M (markmt ?g3)" using k(3) by (intro markmt_inside [OF 3]) (simp add: globals_def)
  have e: "markroot g = (markmt ?g3)\<lparr>g_gcstate := GCSpropagate\<rparr>" by (simp add: markroot_def Let_def)
  show "inside ?M (markroot g)" unfolding e by (rule inside_move [OF 4]) (simp_all add: gray_lists_def)
  have "globals ((markmt ?g3)\<lparr>g_gcstate := GCSpropagate\<rparr>) = globals (markmt ?g3)" by (simp add: globals_def marked_def)
  then show "globals (markroot g) = globals g" unfolding e by (simp only: markmt_globals k)
qed

text \<open>A sweep leaves the list of the objects to finalize alone.\<close>

lemma close_tmudata: "g_tmudata (luaF_close th level g) = g_tmudata g"
proof -
  have b: "g_tmudata (luaC_barrier a v k) = g_tmudata k" for a v k
  proof -
    have "g_tmudata (really_mark n x k) = g_tmudata k" for n x k
    proof (induction n arbitrary: x k)
      case (Suc n)
      then show ?case
        by (simp add: Let_def markobject_with_def markopt_with_def markvalue_with_def split: option.split gbody.split gupval.split gval.split)
    qed simp
    then show ?thesis by (simp add: luaC_barrier_def luaC_barrierf_def reallymarkobject_def split: gval.split)
  qed
  have l: "g_tmudata (luaC_linkupval u k) = g_tmudata k" for u k
    by (simp add: luaC_linkupval_def Let_def b split: option.split gbody.split)
  have o: "g_tmudata (set_openupval t us k) = g_tmudata k" for t us k by (simp add: set_openupval_def split: option.split gbody.split)
  have c: "g_tmudata (close_upval u k) = g_tmudata k" for u k
    by (simp add: close_upval_def luaF_freeupval_def luaM_free_def unlinkupval_def l split: option.split gbody.split gupval.split)
  have "g_tmudata (close_upvals th level us k) = g_tmudata k" for us k
    by (induction us arbitrary: k) (simp_all add: c o split: option.split gbody.split gupval.split)
  then show ?thesis by (simp add: luaF_close_def split: option.split gbody.split)
qed

lemma freeobj_tmudata: "g_tmudata (freeobj a g) = g_tmudata g"
  by (simp add: freeobj_def luaM_free_def luaF_freeupval_def unlinkupval_def luaE_freethread_def close_tmudata split: option.split gbody.split gupval.split)

lemma sweep_chain_tmudata: "g_tmudata (snd (sweep_chain as g)) = g_tmudata g"
proof (induction "as" arbitrary: g)
  case (Cons a as')
  have w: "g_tmudata (makewhite a g) = g_tmudata g" by (simp add: makewhite_def)
  show ?case using Cons.IH [of "makewhite a g"] Cons.IH [of "freeobj a g"]
    by (cases "sweep_chain as' (makewhite a g)") (simp add: w freeobj_tmudata)
qed simp

lemma sweep_open_tmudata: "g_tmudata (sweep_open a g) = g_tmudata g"
proof -
  have "g_tmudata (set_openupval t us k) = g_tmudata k" for t us k by (simp add: set_openupval_def split: option.split gbody.split)
  then show ?thesis using sweep_chain_tmudata by (auto simp: sweep_open_def split: option.split gbody.split prod.split) (metis snd_conv)
qed

lemma sweeplist_tmudata: "g_tmudata (snd (sweeplist n link g)) = g_tmudata g"
  by (induction n arbitrary: link g) (simp_all add: Let_def freeobj_tmudata sweep_open_tmudata split: list.split)

lemma sweep_tmudata: "sweeping k \<Longrightarrow> g_tmudata (snd (singlestep call k)) = g_tmudata k"
proof -
  assume s: "sweeping k"
  have c: "g_tmudata (checkSizes x) = g_tmudata x" for x by (simp add: checkSizes_def strt_resize_def Let_def)
  have "g_tmudata (sweep_bucket i k) = g_tmudata k" for i
    using sweep_chain_tmudata [of "g_strt k ! i" k] by (cases "sweep_chain (g_strt k ! i) k") (simp add: sweep_bucket_def)
  moreover have "g_tmudata (sweep_step k) = g_tmudata k"
    using sweeplist_tmudata [of GCSWEEPMAX "g_sweepgc k" k] by (cases "sweeplist GCSWEEPMAX (g_sweepgc k) k") (simp add: sweep_step_def freed_since_def Let_def c)
  ultimately show ?thesis using s by (auto simp: sweeping_def singlestep_def sweepstring_step_def freed_since_def Let_def)
qed

text \<open>The invariant of a cycle that began in the state \<open>g\<close>.\<close>

definition collecting :: "gstate \<Rightarrow> gstate \<Rightarrow> bool" where
  "collecting g k \<longleftrightarrow> gc_inv k \<and>
     (if g_gcstate k = GCSpropagate then globals k = globals g \<and> (\<forall>T. inside (survivors g T) k)
      else (sweeping k \<or> g_gcstate k = GCSfinalize) \<and>
        (\<forall>x. body k x \<noteq> None \<longrightarrow> sweep_keeps k x \<longrightarrow> bit (marked g x) 5 \<or> x \<in> survivors g (set (g_tmudata k))))"

lemma collecting_mark:
  assumes c: "collecting g k" and p: "g_gcstate k = GCSpropagate" and gr: "g_gray k \<noteq> []"
  shows "collecting g (snd (propagatemark k))"
proof -
  have i: "gc_inv k" and gl: "globals k = globals g" and ins: "\<And>T. inside (survivors g T) k" using c p by (simp_all add: collecting_def)
  obtain a rest where ar: "g_gray k = a # rest" using gr by (cases "g_gray k") auto
  obtain n k' where r: "propagatemark k = (n, k')" by (cases "propagatemark k")
  have m: "minv k" using i p by (simp add: gc_inv_def inv_except_def marking_def)
  obtain b where b: "body k a = Some b" using minv_head [OF m ar] by blast
  have t: "trav k k'" by (rule advance_trav [OF propagatemark_advance [OF m ar r b]])
  have "globals k' = globals g" using later_globals [OF trav_later [OF t]] gl by simp
  moreover have "gc_inv k'" using propagatemark_inv [OF i p gr] r by simp
  moreover have "inside (survivors g T) k'" for T using propagatemark_inside [OF ins, of T] r by simp
  ultimately show ?thesis using trav_fields(7) [OF t] p r by (simp add: collecting_def)
qed

lemma collecting_atomic:
  assumes c: "collecting g k" and p: "g_gcstate k = GCSpropagate" and gr: "g_gray k = []"
  shows "collecting g (atomic k)"
proof -
  have i: "gc_inv k" and gl: "globals k = globals g" and ins: "\<And>T. inside (survivors g T) k" using c p by (simp_all add: collecting_def)
  obtain k' e where f: "atomic k = flip k' e" "atomic_done k k'"
    "\<And>M. inside M k \<Longrightarrow> g_L k \<in> M \<Longrightarrow> targets (mt_refs k) \<subseteq> M \<Longrightarrow> set (g_tmudata k') \<subseteq> M \<Longrightarrow> inside M k'" using atomic_flip [OF i p gr] by metis
  let ?M = "survivors g (set (g_tmudata k'))"
  have eq: "g_L k = g_L g" "g_mt k = g_mt g" using gl by (simp_all add: globals_def)
  have in': "inside ?M k'"
  proof (rule f(3) [OF ins])
    show "g_L k \<in> ?M" by (rule survivors_start(1) [of TTHREAD]) (simp add: roots_def eq)
    show "targets (mt_refs k) \<subseteq> ?M" by (rule survivors_roots) (auto simp: roots_def mt_refs_def eq)
    show "set (g_tmudata k') \<subseteq> ?M" using survivors_start(2) by blast
  qed
  have h: "heap_ok k" and n: "\<not> isdead k a" for a using i p by (simp_all add: gc_inv_def inv_except_def marking_def)
  have l: "later k k'" using f(2) by (simp add: atomic_done_def)
  have c': "cw_ok k'" "colours k'" using later_cw [OF l] later_colours [OF l] h by (simp_all add: heap_ok_def)
  have n': "\<not> isdead k' a" for a using later_isdead [OF l] n by blast
  have cf: "cw_ok (flip k' e)" using c'(1) by (auto simp: cw_ok_def flip_def otherwhite_def WHITEBITS_def)
  have "bit (marked g x) 5 \<or> x \<in> ?M" if x: "body (flip k' e) x \<noteq> None" "sweep_keeps (flip k' e) x" for x
  proof -
    have "\<not> iswhite k' x \<or> bit (marked k' x) 5" using x(2) keeps_iff [OF cf] flip_dead [OF c' n'] by (simp add: flip_views)
    moreover have "bit (marked k' x) 5 = bit (marked g x) 5" using later_globals [OF l] gl by (simp add: globals_def fun_eq_iff)
    ultimately show ?thesis using inside_marked [OF in'] x(1) by (auto simp: flip_views)
  qed
  moreover have "gc_inv (flip k' e)" using atomic_inv [OF i p gr] f(1) by simp
  moreover have "g_gcstate (flip k' e) = GCSsweepstring" "g_tmudata (flip k' e) = g_tmudata k'" by (simp_all add: flip_def)
  ultimately show ?thesis by (simp add: collecting_def f(1) sweeping_def)
qed

lemma collecting_sweep:
  assumes c: "collecting g k" and s: "sweeping k"
  shows "collecting g (snd (singlestep call k))"
proof -
  let ?k = "snd (singlestep call k)"
  have np: "g_gcstate k \<noteq> GCSpropagate" using s by (auto simp: sweeping_def)
  then have i: "gc_inv k" and sv: "\<And>x. body k x \<noteq> None \<Longrightarrow> sweep_keeps k x \<Longrightarrow> bit (marked g x) 5 \<or> x \<in> survivors g (set (g_tmudata k))"
    using c by (simp_all add: collecting_def)
  note n = sweep_nearer [OF i s, of call]
  have "body k x \<noteq> None \<and> sweep_keeps k x" if "body ?k x \<noteq> None" "sweep_keeps ?k x" for x
    using n(3) that unfolding collects_def by metis
  moreover have "g_gcstate ?k \<noteq> GCSpropagate" using n(4) by (auto simp: sweeping_def)
  ultimately show ?thesis using sv n(2,4) sweep_tmudata [OF s, of call] by (simp add: collecting_def)
qed

lemma garbage_loop:
  assumes i: "gc_inv g" and p: "g_gcstate g = GCSpause \<or> g_gcstate g = GCSfinalize"
  shows "\<exists>g'. while_option (\<lambda>g. g_gcstate g \<noteq> GCSfinalize) (snd \<circ> singlestep call) (markroot g) = Some g' \<and> gc_inv g' \<and> g_gcstate g' = GCSfinalize \<and>
    (\<forall>x. body g' x \<noteq> None \<longrightarrow> bit (marked g x) 5 \<or> x \<in> survivors g (set (g_tmudata g')))"
proof -
  have s: "g_gcstate (markroot g) = GCSpropagate" by (simp add: markroot_def Let_def)
  have 0: "collecting g (markroot g)" using markroot_inside [OF i p] markroot_inv [OF i p] s by (simp add: collecting_def)
  have step: "(snd (singlestep call k), k) \<in> nearer \<and> collecting g (snd (singlestep call k))" if k: "collecting g k" "GCSfinalize \<noteq> g_gcstate k" for k
  proof (cases "g_gcstate k = GCSpropagate")
    case True
    have ik: "gc_inv k" using k(1) by (simp add: collecting_def)
    show ?thesis
    proof (cases "g_gray k = []")
      case True
      then show ?thesis using collecting_atomic [OF k(1)] atomic_gcstate [OF ik] \<open>g_gcstate k = GCSpropagate\<close> by (simp add: singlestep_def nearer_def phase_left_def)
    next
      case False
      then show ?thesis using collecting_mark [OF k(1)] propagatemark_nearer [OF ik] \<open>g_gcstate k = GCSpropagate\<close>
        by (cases "propagatemark k") (simp add: singlestep_def nearer_def phase_left_def steps_left_def)
    qed
  next
    case False
    then have s: "sweeping k" "gc_inv k" using k by (auto simp: collecting_def)
    then show ?thesis using collecting_sweep [OF k(1) s(1)] sweep_nearer(1) [OF s(2,1)] by blast
  qed
  from cycle_loop [where P = "collecting g" and stop = GCSfinalize, OF 0 step] obtain g' where
    g': "while_option (\<lambda>g. g_gcstate g \<noteq> GCSfinalize) (snd \<circ> singlestep call) (markroot g) = Some g'" "collecting g g'" "g_gcstate g' = GCSfinalize" by blast
  then have i': "gc_inv g'" by (simp add: collecting_def)
  then have "sweep_keeps g' x" for x using keeps_iff [of g' x] finalize_alive [OF i' g'(3)] by (simp add: gc_inv_def inv_except_def heap_ok_def)
  then show ?thesis using g' i' by (simp add: collecting_def)
qed

end
