(* ===== verification/Lua_Gc_Mutator.thy ===== *)
theory Lua_Gc_Mutator
  imports Lua_Gc_Cycle
begin

text \<open>
  What the rest of Lua does to the heap: it makes objects, stores references and calls the barriers (\<^verbatim>\<open>lfunc.c\<close>, \<^verbatim>\<open>lstring.c\<close>, \<^verbatim>\<open>lstate.c\<close>, \<^verbatim>\<open>lapi.c\<close>,
  \<^verbatim>\<open>lvm.c\<close>). The address of a new object is an argument, as the allocator chooses it. The layout of a table is not modelled here: a store into a
  table leads to any table whose entries are old ones or the new one.
\<close>

subsection \<open>New objects\<close>

definition LUAI_GCPAUSE :: int where "LUAI_GCPAUSE = 200"
definition LUAI_GCMUL :: int where "LUAI_GCMUL = 200"

definition luaH_new_obj :: "addr \<Rightarrow> nat \<Rightarrow> nat \<Rightarrow> gstate \<Rightarrow> gstate" where
  "luaH_new_obj a narray nhash = luaC_link a (BTable \<lparr>h_flags = 255, h_metatable = None, h_array = replicate narray GNil,
     h_node = (if nhash = 0 then [] else replicate (2 ^ ceillog2 nhash) (GNil, GNil))\<rparr>)"

definition luaF_newCclosure :: "addr \<Rightarrow> nat \<Rightarrow> addr \<Rightarrow> gstate \<Rightarrow> gstate" where
  "luaF_newCclosure a nelems e = luaC_link a (BFunction (CCl e (replicate nelems GNil)))"

definition lua_pushcclosure_obj :: "addr \<Rightarrow> addr \<Rightarrow> gval list \<Rightarrow> gstate \<Rightarrow> gstate" where
  "lua_pushcclosure_obj a e vs g = set_body a (BFunction (CCl e vs)) (luaF_newCclosure a (length vs) e g)"

definition luaF_newLclosure :: "addr \<Rightarrow> addr \<Rightarrow> addr \<Rightarrow> addr list \<Rightarrow> gstate \<Rightarrow> gstate" where
  "luaF_newLclosure a e p us = luaC_link a (BFunction (LCl e p us))"

definition luaF_newupval :: "addr \<Rightarrow> gstate \<Rightarrow> gstate" where
  "luaF_newupval a = luaC_link a (BUpval (UClosed GNil))"

definition luaF_newproto :: "addr \<Rightarrow> gstate \<Rightarrow> gstate" where
  "luaF_newproto a = luaC_link a (BProto \<lparr>gp_source = None, gp_k = [], gp_upvalues = [], gp_p = [], gp_locvars = [], gp_sizecode = 0, gp_sizelineinfo = 0\<rparr>)"

definition stack_init :: "gthread \<Rightarrow> gthread" where
  "stack_init th = th\<lparr>th_size_ci := BASIC_CI_SIZE, th_stack := replicate (BASIC_STACK_SIZE + EXTRA_STACK) GNil, th_top := 1, th_ci_tops := [1 + LUA_MINSTACK]\<rparr>"

definition preinit_state :: gthread where
  "preinit_state = \<lparr>th_stack = [], th_top = 0, th_ci_tops = [], th_size_ci = 0, th_gt = GNil, th_openupval = []\<rparr>"

definition thread_gt :: "addr \<Rightarrow> gstate \<Rightarrow> gval" where
  "thread_gt a g = (case body g a of Some (BThread t) \<Rightarrow> th_gt t | _ \<Rightarrow> GNil)"

definition luaE_newthread :: "addr \<Rightarrow> gstate \<Rightarrow> gstate" where
  "luaE_newthread a g = luaC_link a (BThread ((stack_init preinit_state)\<lparr>th_gt := thread_gt (g_L g) g\<rparr>)) g"

definition luaS_newudata :: "addr \<Rightarrow> nat \<Rightarrow> addr \<Rightarrow> gstate \<Rightarrow> gstate option" where
  "luaS_newudata a s e g =
     (if s > 2 ^ 64 - 3 - 40 then None
      else Some (g\<lparr>g_heap := (g_heap g)(a \<mapsto> \<lparr>gc_marked = luaC_white g, gc_body = BUdata None e s\<rparr>),
        g_rootgc := takeWhile (\<lambda>x. x \<noteq> g_mainthread g) (g_rootgc g) @ g_mainthread g # a # after_link g (Some (g_mainthread g)),
        g_totalbytes := g_totalbytes g + of_nat (object_size (BUdata None e s))\<rparr>))"

definition newlstr_obj :: "addr \<Rightarrow> bytes \<Rightarrow> gstate \<Rightarrow> gstate option" where
  "newlstr_obj a s g =
     (if length s + 1 > 2 ^ 64 - 3 - 24 then None
      else
        let i = lmod (luaS_hash s) (length (g_strt g));
            g1 = g\<lparr>g_heap := (g_heap g)(a \<mapsto> \<lparr>gc_marked = luaC_white g, gc_body = BString s\<rparr>), g_strt := (g_strt g)[i := a # g_strt g ! i],
                   g_nuse := g_nuse g + 1, g_totalbytes := g_totalbytes g + of_nat (object_size (BString s))\<rparr>
        in Some (if g_nuse g1 > length (g_strt g1) \<and> length (g_strt g1) \<le> MAX_INT div 2 then strt_resize (length (g_strt g1) * 2) g1 else g1))"

text \<open>A dead string or open upvalue that is found again is resurrected.\<close>

definition resurrect :: "addr \<Rightarrow> gstate \<Rightarrow> gstate" where
  "resurrect p g = (if isdead g p then changewhite p g else g)"

definition luaS_newlstr_obj :: "addr \<Rightarrow> bytes \<Rightarrow> gstate \<Rightarrow> (addr \<times> gstate) option" where
  "luaS_newlstr_obj a s g =
     (case find (\<lambda>p. body g p = Some (BString s)) (g_strt g ! lmod (luaS_hash s) (length (g_strt g))) of
        Some p \<Rightarrow> Some (p, resurrect p g)
      | None \<Rightarrow> map_option (Pair a) (newlstr_obj a s g))"

definition upval_level :: "gstate \<Rightarrow> addr \<Rightarrow> nat" where
  "upval_level g p = (case body g p of Some (BUpval (UOpen _ i)) \<Rightarrow> i | _ \<Rightarrow> 0)"

definition new_open_upval :: "addr \<Rightarrow> addr \<Rightarrow> nat \<Rightarrow> addr list \<Rightarrow> gstate \<Rightarrow> gstate" where
  "new_open_upval a th level us g = set_openupval th us (g\<lparr>g_heap := (g_heap g)(a \<mapsto> \<lparr>gc_marked = luaC_white g, gc_body = BUpval (UOpen th level)\<rparr>),
     g_uvhead := a # g_uvhead g, g_totalbytes := g_totalbytes g + 40\<rparr>)"

definition luaF_findupval :: "addr \<Rightarrow> addr \<Rightarrow> nat \<Rightarrow> gstate \<Rightarrow> addr \<times> gstate" where
  "luaF_findupval a th level g =
     (let us = open_upvals g th;
          pre = takeWhile (\<lambda>p. upval_level g p > level) us;
          post = dropWhile (\<lambda>p. upval_level g p > level) us
      in case post of
           p # _ \<Rightarrow> if upval_level g p = level then (p, resurrect p g) else (a, new_open_upval a th level (pre @ a # post) g)
         | [] \<Rightarrow> (a, new_open_upval a th level (pre @ a # post) g))"

subsection \<open>Stores\<close>

text \<open>
  \<open>lua_rawset\<close>, \<open>lua_rawseti\<close> and \<open>luaV_settable\<close>: \<open>newkey\<close> calls the barrier for the key, the caller that for the value. \<open>h'\<close> is the table after \<open>luaH_set\<close>.
  A store under a key that is in the table already calls no barrier for it; this is the case of a \<open>k\<close> that is not an object.
\<close>

definition table_store :: "addr \<Rightarrow> gtable \<Rightarrow> gval \<Rightarrow> gval \<Rightarrow> gstate \<Rightarrow> gstate" where
  "table_store a h' k v g = luaC_barriert a v (luaC_barriert a k (set_body a (BTable h') g))"

definition lua_setmetatable_obj :: "gval \<Rightarrow> nat \<Rightarrow> addr option \<Rightarrow> gstate \<Rightarrow> gstate" where
  "lua_setmetatable_obj obj tt mt g =
     (case obj of
        GObj _ a \<Rightarrow> (case body g a of
            Some (BTable h) \<Rightarrow>
              let g1 = set_body a (BTable (h\<lparr>h_metatable := mt\<rparr>)) g
              in (case mt of None \<Rightarrow> g1 | Some m \<Rightarrow> luaC_objbarriert a m g1)
          | Some (BUdata _ e n) \<Rightarrow>
              let g1 = set_body a (BUdata mt e n) g
              in (case mt of None \<Rightarrow> g1 | Some m \<Rightarrow> luaC_objbarrier a m g1)
          | _ \<Rightarrow> g\<lparr>g_mt := (g_mt g)[tt := mt]\<rparr>)
      | _ \<Rightarrow> g\<lparr>g_mt := (g_mt g)[tt := mt]\<rparr>)"

definition lua_setfenv_obj :: "addr \<Rightarrow> addr \<Rightarrow> gstate \<Rightarrow> gstate" where
  "lua_setfenv_obj a e g =
     (case body g a of
        Some (BFunction (CCl _ vs)) \<Rightarrow> luaC_objbarrier a e (set_body a (BFunction (CCl e vs)) g)
      | Some (BFunction (LCl _ p us)) \<Rightarrow> luaC_objbarrier a e (set_body a (BFunction (LCl e p us)) g)
      | Some (BUdata mt _ n) \<Rightarrow> luaC_objbarrier a e (set_body a (BUdata mt e n) g)
      | Some (BThread t) \<Rightarrow> luaC_objbarrier a e (set_body a (BThread (t\<lparr>th_gt := GObj TTABLE e\<rparr>)) g)
      | _ \<Rightarrow> g)"

text \<open>\<open>setobj (L, uv->v, v)\<close>: the value of an open upvalue is in the stack of its thread.\<close>

definition set_upval :: "addr \<Rightarrow> gval \<Rightarrow> gstate \<Rightarrow> gstate" where
  "set_upval u v g = (case body g u of
     Some (BUpval (UClosed _)) \<Rightarrow> set_body u (BUpval (UClosed v)) g
   | Some (BUpval (UOpen th i)) \<Rightarrow> (case body g th of
        Some (BThread t) \<Rightarrow> set_body th (BThread (t\<lparr>th_stack := (th_stack t)[i := v]\<rparr>)) g | _ \<Rightarrow> g)
   | _ \<Rightarrow> g)"

definition op_setupval :: "addr \<Rightarrow> gval \<Rightarrow> gstate \<Rightarrow> gstate" where
  "op_setupval u v g = luaC_barrier u v (set_upval u v g)"

text \<open>\<open>lua_setupvalue\<close> after the value has been popped; the barrier gets the closure.\<close>

definition sizeupvalues :: "addr \<Rightarrow> gstate \<Rightarrow> nat" where
  "sizeupvalues p g = (case body g p of Some (BProto f) \<Rightarrow> length (gp_upvalues f) | _ \<Rightarrow> 0)"

definition lua_setupvalue_obj :: "addr \<Rightarrow> nat \<Rightarrow> gval \<Rightarrow> gstate \<Rightarrow> gstate" where
  "lua_setupvalue_obj f n v g = (case body g f of
     Some (BFunction (CCl e vs)) \<Rightarrow>
       if 1 \<le> n \<and> n \<le> length vs then luaC_barrier f v (set_body f (BFunction (CCl e (vs[n - 1 := v]))) g) else g
   | Some (BFunction (LCl e p us)) \<Rightarrow>
       if 1 \<le> n \<and> n \<le> sizeupvalues p g then luaC_barrier f v (set_upval (us ! (n - 1)) v g) else g
   | _ \<Rightarrow> g)"

text \<open>New objects keep the invariant in every phase.\<close>

subsection \<open>A new object\<close>

text \<open>
  \<open>adds g a b g'\<close>: \<open>g'\<close> has the new object \<open>a\<close> with the body \<open>b\<close> and the current white. The lists of the collector and the lists of open upvalues of
  threads may have changed.
\<close>

definition same_but_upvals :: "gbody \<Rightarrow> gbody \<Rightarrow> bool" where
  "same_but_upvals c c' \<longleftrightarrow> c' = c \<or> (\<exists>t us. c = BThread t \<and> c' = BThread (t\<lparr>th_openupval := us\<rparr>))"

definition adds :: "gstate \<Rightarrow> addr \<Rightarrow> gbody \<Rightarrow> gstate \<Rightarrow> bool" where
  "adds g a b g' \<longleftrightarrow> body g a = None \<and> body g' a = Some b \<and> (\<forall>x. x \<noteq> a \<longrightarrow> rel_option same_but_upvals (body g x) (body g' x)) \<and>
     (\<forall>x. marked g' x = (if x = a then luaC_white g else marked g x)) \<and>
     g_sweepgc g' = g_sweepgc g \<and> g_sweepstrgc g' = g_sweepstrgc g \<and> g_gray g' = g_gray g \<and> g_grayagain g' = g_grayagain g \<and> g_weak g' = g_weak g \<and>
     g_tmudata g' = g_tmudata g \<and> g_currentwhite g' = g_currentwhite g \<and> g_gcstate g' = g_gcstate g \<and> g_mainthread g' = g_mainthread g \<and>
     g_registry g' = g_registry g \<and> g_L g' = g_L g \<and> g_mt g' = g_mt g"

lemma adds_fields:
  assumes "adds g a b g'"
  shows "g_sweepgc g' = g_sweepgc g" "g_sweepstrgc g' = g_sweepstrgc g" "g_gray g' = g_gray g" "g_grayagain g' = g_grayagain g" "g_weak g' = g_weak g"
    "g_tmudata g' = g_tmudata g" "g_currentwhite g' = g_currentwhite g" "g_gcstate g' = g_gcstate g" "g_mainthread g' = g_mainthread g"
    "g_registry g' = g_registry g" "g_L g' = g_L g" "g_mt g' = g_mt g"
  using assms by (simp_all add: adds_def)

lemma upvals_kind: "same_but_upvals c c' \<Longrightarrow> gc_tt c' = gc_tt c \<and> is_open c' = is_open c \<and> (is_open c \<longrightarrow> c' = c)"
  by (auto simp: same_but_upvals_def is_open_def)

lemma white_bits: "cw_ok g \<Longrightarrow> luaC_white g AND 7 = luaC_white g \<and> luaC_white g AND 3 \<noteq> 3 \<and> m_white (luaC_white g) \<and> \<not> m_black (luaC_white g) \<and> \<not> bit (luaC_white g) 5"
  by (auto simp: cw_ok_def luaC_white_def WHITEBITS_def m_white_bits m_black_bit bit_and_iff mark_eq_iff)

lemma adds_body:
  assumes ad: "adds g a b g'"
  shows "x \<noteq> a \<Longrightarrow> body g x = None \<and> body g' x = None \<or> (\<exists>c c'. body g x = Some c \<and> body g' x = Some c' \<and> same_but_upvals c c')"
  using ad by (cases "body g x"; cases "body g' x") (auto simp: adds_def elim!: allE [of _ x])

lemma adds_new:
  assumes ad: "adds g a b g'"
  shows "body g a = None" "body g' a = Some b" "marked g' a = luaC_white g"
  using ad by (simp_all add: adds_def)

lemma adds_marked:
  assumes ad: "adds g a b g'"
  shows "x \<noteq> a \<Longrightarrow> marked g' x = marked g x"
  using ad by (simp add: adds_def)

lemma adds_old:
  assumes ad: "adds g a b g'"
  shows "x \<noteq> a \<Longrightarrow> isdead g' x = isdead g x \<and> iswhite g' x = iswhite g x \<and> isblack g' x = isblack g x \<and> current g' x = current g x \<and> isgray g' x = isgray g x"
  using adds_marked [OF ad, of x] adds_fields(7) [OF ad]
  by (simp add: isdead_def iswhite_def isblack_def current_def isgray_def otherwhite_def luaC_white_def)

lemma adds_typed:
  assumes ad: "adds g a b g'"
  shows "typed_at g' tt x \<longleftrightarrow> typed_at g tt x \<or> x = a \<and> tt = gc_tt b"
proof (cases "x = a")
  case False
  then show ?thesis using adds_body [OF ad False] upvals_kind by (auto simp: typed_at_def)
qed (use adds_new [OF ad] in \<open>auto simp: typed_at_def\<close>)

lemma adds_current:
  assumes ad: "adds g a b g'"
  shows "cw_ok g \<Longrightarrow> current g' a \<and> \<not> isdead g' a \<and> iswhite g' a \<and> \<not> isblack g' a"
proof -
  assume c: "cw_ok g"
  have c': "cw_ok g'" using c adds_fields(7) [OF ad] by (simp add: cw_ok_def)
  have "luaC_white g' = luaC_white g" using adds_fields(7) [OF ad] by (simp add: luaC_white_def)
  then have "current g' a" using white_bits [OF c] adds_new(3) [OF ad] by (simp add: current_def)
  then show ?thesis using current_alive [OF c'] current_white [OF c'] by blast
qed

lemma adds_lives:
  assumes ad: "adds g a b g'"
  shows "live g tt x \<Longrightarrow> live g' tt x"
proof -
  assume l: "live g tt x"
  then have "x \<noteq> a" using adds_new(1) [OF ad] by (auto simp: live_def typed_at_def)
  then show ?thesis using l adds_old [OF ad] by (simp add: live_def adds_typed [OF ad])
qed

lemma adds_refs_live:
  assumes ad: "adds g a b g'"
  shows "refs_live g R \<Longrightarrow> refs_live g' R"
  using adds_lives [OF ad] by (auto simp: refs_live_def)

lemma adds_refs:
  assumes ad: "adds g a b g'"
  assumes s: "struct g" and x: "x \<noteq> a"
  shows "refs g' x = refs g x"
proof -
  have uv: "upval_value g' uv = upval_value g uv" if "\<And>i. uv \<noteq> UOpen a i" for uv
  proof (cases uv)
    case (UOpen t i)
    then have "t \<noteq> a" using that by auto
    then show ?thesis using adds_body [OF ad, of t] UOpen by (auto simp: same_but_upvals_def stack_slot_def split: option.split gbody.split)
  qed simp
  have no: "body g x \<noteq> Some (BUpval (UOpen a i))" for i
  proof
    assume "body g x = Some (BUpval (UOpen a i))"
    then have "x \<in> open_at g a" by (auto simp: open_at_def)
    then show False using open_at_thread [OF s, of x a] adds_new(1) [OF ad] by auto
  qed
  show ?thesis
  proof (cases "body g x")
    case None
    then show ?thesis using adds_body [OF ad x] by (auto simp: refs_def)
  next
    case (Some c)
    then obtain c' where c': "body g' x = Some c'" "same_but_upvals c c'" using adds_body [OF ad x] by auto
    show ?thesis
    proof (cases "\<exists>t. c = BThread t")
      case True
      then show ?thesis using Some c' by (auto simp: refs_def same_but_upvals_def)
    next
      case False
      then have e: "c' = c" using c'(2) by (auto simp: same_but_upvals_def)
      have "brefs g' c = brefs g c"
      proof (cases "\<exists>uv. c = BUpval uv")
        case True
        then obtain uv where u: "c = BUpval uv" by blast
        then have "upval_value g' uv = upval_value g uv" using no Some by (intro uv) auto
        then show ?thesis using u by simp
      next
        case nu: False
        then show ?thesis by (cases "(g, c)" rule: brefs.cases) auto
      qed
      then show ?thesis using Some c' e by (simp add: refs_def)
    qed
  qed
qed

text \<open>The conditions that depend on the kind of the object: the lists are right, and the sweep has not lost an object.\<close>

lemma adds_inv:
  assumes ad: "adds g a b g'"
  assumes i: "gc_inv g" and s: "struct g'" and r: "refs_live g' (brefs g' b)"
    and p: "\<And>x. g_gcstate g \<noteq> GCSpropagate \<Longrightarrow> x \<in> pending g \<Longrightarrow> x \<in> pending g'"
    and k: "\<And>q. g_gcstate g = GCSsweep \<Longrightarrow> g_sweepgc g = Some q \<Longrightarrow> q \<in> set (g_rootgc g')"
    and l: "g_gcstate g = GCSsweepstring \<Longrightarrow> g_sweepstrgc g < length (g_strt g')"
  shows "gc_inv g'"
proof -
  have h: "heap_ok g" using i by (simp add: gc_inv_def inv_except_def)
  then have st: "struct g" and c: "cw_ok g" by (simp_all add: heap_ok_def)
  note f = adds_fields [OF ad]
  note new = adds_current [OF ad c]
  have "sound g'" unfolding sound_def
  proof (intro allI impI)
    fix x assume d: "\<not> isdead g' x"
    show "refs_live g' (refs g' x)"
    proof (cases "x = a")
      case True
      then show ?thesis using r adds_new(2) [OF ad] by (simp add: refs_def)
    next
      case False
      then have "refs_live g (refs g x)" using heap_refs [OF h] adds_old [OF ad] d by blast
      then show ?thesis using adds_refs [OF ad st False] adds_refs_live [OF ad] by simp
    qed
  qed
  moreover have "roots g' = roots g" by (rule roots_cong) (simp_all add: f)
  then have "refs_live g' (roots g')" using adds_refs_live [OF ad heap_roots [OF h]] by simp
  moreover have "colours g'" unfolding colours_def wb_def
  proof (intro conjI allI impI)
    fix x show "marked g' x AND 3 \<noteq> 3" using h white_bits [OF c] adds_new(3) [OF ad] adds_marked [OF ad, of x] by (cases "x = a") (simp_all add: heap_ok_def colours_def)
  next
    fix x assume "iswhite g' x"
    then show "\<not> isblack g' x" using new h adds_old [OF ad, of x] by (cases "x = a") (simp_all add: heap_ok_def colours_def wb_def)
  qed
  moreover have "cw_ok g'" using c f by (simp add: cw_ok_def)
  ultimately have h': "heap_ok g'" using s by (simp add: heap_ok_def)
  show ?thesis
  proof (cases "g_gcstate g = GCSpropagate")
    case True
    have mk: "marking {} g" using i True by (simp add: gc_inv_def inv_except_def)
    have n: "\<not> isdead g' x" for x using mk new adds_old [OF ad, of x] by (cases "x = a") (simp_all add: marking_def)
    have ty: "typed g'" by (rule alive_typed) (use h' n in \<open>simp_all add: heap_ok_def\<close>)
    have gl: "gray_lists g' = gray_lists g" by (simp add: gray_lists_def f)
    have ml: "mark_lists g" using mk by (simp add: marking_def minv_def)
    have "gray_at g' x \<and> isgray g' x" if "x \<in> set (gray_lists g)" for x
    proof -
      have x: "gray_at g x" "isgray g x" using ml that by (simp_all add: mark_lists_def)
      then have "x \<noteq> a" using adds_new(1) [OF ad] by (auto simp: gray_at_def)
      then show ?thesis using x adds_body [OF ad, of x] adds_old [OF ad, of x] upvals_kind by (fastforce simp: gray_at_def gray_kind_def)
    qed
    moreover have "\<exists>h. body g' x = Some (BTable h)" if w: "x \<in> set (g_weak g)" for x
    proof -
      obtain t where t: "body g x = Some (BTable t)" using ml w unfolding mark_lists_def by blast
      then have "x \<noteq> a" using adds_new(1) [OF ad] by auto
      then show ?thesis using t adds_body [OF ad, of x] by (auto simp: same_but_upvals_def)
    qed
    ultimately have ml': "mark_lists g'" using ml by (simp add: mark_lists_def gl f)
    have sh: "shades g'" unfolding shades_def gl
    proof (intro allI impI)
      fix x c' assume x: "body g' x = Some c'" "\<not> iswhite g' x"
      then have na: "x \<noteq> a" using new by auto
      then obtain c where c: "body g x = Some c" "same_but_upvals c c'" using adds_body [OF ad na] x by auto
      have "gray_kind c' = gray_kind c" "black_kind c' = black_kind c" "gc_tt c' = gc_tt c" using upvals_kind [OF c(2)] by (simp_all add: gray_kind_def black_kind_def)
      moreover have "shades g" using mk by (simp add: marking_def minv_def)
      ultimately show "if gray_kind c' then (isblack g' x \<or> x \<in> set (gray_lists g)) \<and> (gc_tt c' = TTHREAD \<longrightarrow> \<not> isblack g' x) else isblack g' x = black_kind c'"
        using shadesD [OF _ c(1)] x(2) adds_old [OF ad na] by simp
    qed
    have "wb g'" using h' by (simp add: heap_ok_def colours_def)
    with ty ml' sh have mi: "minv g'" by (simp add: minv_def)
    have op: "x \<in> opens g \<Longrightarrow> x \<in> opens g'" for x
    proof -
      assume x: "x \<in> opens g"
      then have "x \<noteq> a" using adds_new(1) [OF ad] by (auto simp: opens_def)
      then show "x \<in> opens g'" using x adds_body [OF ad, of x] upvals_kind by (fastforce simp: opens_def)
    qed
    have "tri g' (excused g' \<union> {})" unfolding tri_def
    proof (intro allI impI)
      fix x assume x: "body g' x \<noteq> None" "\<not> iswhite g' x"
      then have na: "x \<noteq> a" using new by auto
      have "body g x \<noteq> None" "\<not> iswhite g x" using x adds_body [OF ad na] adds_old [OF ad na] by auto
      then have "x \<in> excused g \<or> x \<in> set (g_gray g) \<or> ok g x" using mk by (simp add: marking_def tri_def)
      moreover have "ok g' x" if "ok g x"
      proof -
        have "r \<noteq> a" if "(tt, r) \<in> refs g x" for tt r
        proof -
          have "typed_at g tt r" using mk that by (auto simp: marking_def minv_def typed_def)
          then show ?thesis using adds_new(1) [OF ad] by (auto simp: typed_at_def)
        qed
        then show ?thesis using \<open>ok g x\<close> adds_old [OF ad] unfolding ok_def adds_refs [OF ad st na] by fastforce
      qed
      ultimately show "x \<in> excused g' \<union> {} \<or> x \<in> set (g_gray g') \<or> ok g' x" using op by (auto simp: excused_def f)
    qed
    moreover have "\<not> iswhite g' (g_mainthread g')"
    proof -
      have "live g TTHREAD (g_mainthread g)" by (rule refs_liveD [OF heap_roots [OF h]]) (simp add: roots_def)
      then have "g_mainthread g \<noteq> a" using adds_new(1) [OF ad] by (auto simp: live_def typed_at_def)
      then show ?thesis using mk adds_old [OF ad] by (simp add: marking_def f)
    qed
    moreover have "\<forall>r \<in> targets (vrefs (g_registry g')). \<not> iswhite g' r"
    proof
      fix r assume r: "r \<in> targets (vrefs (g_registry g'))"
      then obtain tt where tt: "(tt, r) \<in> vrefs (g_registry g)" by (auto simp: targets_def f)
      then have "live g tt r" by (intro refs_liveD [OF heap_roots [OF h]]) (simp add: roots_def)
      then have "r \<noteq> a" using adds_new(1) [OF ad] by (auto simp: live_def typed_at_def)
      then show "\<not> iswhite g' r" using mk adds_old [OF ad] r by (simp add: marking_def f)
    qed
    ultimately have "marking {} g'" using mi n by (simp add: marking_def)
    then show ?thesis using h' True by (simp add: gc_inv_def inv_except_def f)
  next
    case False
    have sw: "swept g" using i False by (simp add: gc_inv_def inv_except_def)
    have "swept g'" unfolding swept_at_def f
    proof (intro conjI allI impI ballI)
      fix x assume x: "body g' x \<noteq> None"
      show "x \<in> pending_at (g_sweepgc g) g' \<or> x \<in> set (g_tmudata g) \<or> current g' x"
      proof (cases "x = a")
        case na: False
        then have "body g x \<noteq> None" using x adds_body [OF ad na] by auto
        then have "x \<in> pending g \<or> x \<in> set (g_tmudata g) \<or> current g x" using sw by (simp add: swept_at_def)
        then show ?thesis using p [OF False] adds_old [OF ad na] f by auto
      qed (use new in simp)
    next
      fix u assume u: "u \<in> set (g_tmudata g)"
      then have "live g TUSERDATA u" by (intro refs_liveD [OF heap_roots [OF h]]) (simp add: roots_def)
      then have "u \<noteq> a" using adds_new(1) [OF ad] by (auto simp: live_def typed_at_def)
      then show "iswhite g' u \<or> isblack g' u" using sw u adds_old [OF ad] by (simp add: swept_at_def)
    next
      fix u assume u: "u \<in> opens g'"
      show "\<not> isblack g' u"
      proof (cases "u = a")
        case na: False
        then have "u \<in> opens g" using u adds_body [OF ad na] upvals_kind by (fastforce simp: opens_def)
        then show ?thesis using sw adds_old [OF ad na] by (simp add: swept_at_def)
      qed (use new in simp)
    next
      fix q assume "g_gcstate g = GCSsweep" "g_sweepgc g = Some q"
      then show "q \<in> set (g_rootgc g')" by (rule k)
    next
      assume "g_gcstate g = GCSsweepstring"
      then show "g_sweepgc g = None" "g_sweepstrgc g < length (g_strt g')" using sw l by (simp_all add: swept_at_def)
    qed
    then show ?thesis using h' False by (simp add: gc_inv_def inv_except_def f)
  qed
qed

subsection \<open>The structure of the heap after an allocation\<close>

lemma body_link: "body (luaC_link a b g) x = (if x = a then Some b else body g x)" "marked (luaC_link a b g) x = (if x = a then luaC_white g else marked g x)"
  by (simp_all add: luaC_link_def body_def marked_def)

lemma link_adds: "body g a = None \<Longrightarrow> adds g a b (luaC_link a b g)"
proof -
  assume a: "body g a = None"
  have "rel_option same_but_upvals (body g x) (body g x)" for x by (cases "body g x") (simp_all add: same_but_upvals_def)
  then show ?thesis using a by (simp add: adds_def body_link) (simp add: luaC_link_def)
qed

text \<open>An object that is neither a string nor an open upvalue goes to the list of all objects.\<close>

lemma listed_struct:
  assumes ad: "adds g a b g'" and s: "struct g" and o: "\<And>x. x \<noteq> a \<Longrightarrow> body g' x = body g x" and k: "gc_tt b \<noteq> TSTRING" "\<not> is_open b"
    and t: "\<And>t. b = BThread t \<Longrightarrow> th_openupval t = []" and f: "g_strt g' = g_strt g" "g_uvhead g' = g_uvhead g"
    and r: "mset (g_rootgc g') = add_mset a (mset (g_rootgc g))"
    and m: "\<And>x. x \<in> set (after_link g' (Some (g_mainthread g))) \<Longrightarrow> x = a \<and> gc_tt b = TUSERDATA \<or> x \<in> set (after_link g (Some (g_mainthread g)))"
    and w: "\<not> bit (luaC_white g) 5"
  shows "struct g'"
proof -
  note n = adds_new [OF ad] and fl = adds_fields [OF ad]
  have bd: "body g' x = (if x = a then Some b else body g x)" for x using o n by simp
  have oa0: "open_at g a = {}"
  proof (rule ccontr)
    assume "open_at g a \<noteq> {}"
    then obtain u where "u \<in> open_at g a" by blast
    then show False using open_at_thread [OF s, of u a] n(1) by auto
  qed
  have oa: "open_at g' x = open_at g x" for x
  proof -
    have "u \<in> open_at g' x \<longleftrightarrow> u \<in> open_at g x" for u using n(1) k(2) by (auto simp: open_at_def bd is_open_def)
    then show ?thesis by blast
  qed
  have ou: "open_upvals g' x = open_upvals g x" for x
  proof (cases "x = a")
    case True
    then show ?thesis using n(1) t by (simp add: open_upvals_def bd split: gbody.split)
  qed (simp add: open_upvals_def bd)
  have ty: "typed_at g' tt x \<longleftrightarrow> typed_at g tt x \<or> x = a \<and> tt = gc_tt b" for tt x by (rule adds_typed [OF ad])
  have st: "typed_at g' TSTRING = typed_at g TSTRING" using k(1) by (auto simp: fun_eq_iff ty)
  have la: "listed_at g' x \<longleftrightarrow> x = a \<or> listed_at g x" for x using k by (auto simp: listed_at_def bd)
  have nl: "\<not> listed_at g a" using n(1) by (simp add: listed_at_def)
  have "objects g' \<subseteq> insert a (objects g)" by (auto simp: objects_def bd)
  then have fin: "finite (objects g')" using s finite_subset by (auto simp: struct_def)
  have e: "mset (g_rootgc g' @ g_tmudata g') = mset (a # g_rootgc g @ g_tmudata g)" using r by (simp add: fl)
  have "set (g_rootgc g' @ g_tmudata g') = {x. listed_at g' x}" using mset_eq_setD [OF e] s by (auto simp: la struct_def)
  moreover have "distinct (g_rootgc g' @ g_tmudata g')"
  proof -
    have "distinct (a # g_rootgc g @ g_tmudata g)" using s nl by (auto simp: struct_def)
    then show ?thesis using mset_eq_imp_distinct_iff [OF e] by blast
  qed
  moreover have "g_mainthread g \<in> set (g_rootgc g')" using r s by (metis add_mset_add_single insert_iff set_mset_add_mset_insert set_mset_mset struct_def)
  moreover have "\<forall>x \<in> set (after_link g' (Some (g_mainthread g))). typed_at g' TUSERDATA x" using m s by (fastforce simp: ty struct_def)
  moreover have "\<forall>x \<in> set (g_tmudata g). typed_at g' TUSERDATA x" using s by (simp add: ty struct_def)
  moreover have "\<forall>x. bit (marked g' x) 5 \<longrightarrow> x = g_mainthread g \<or> typed_at g TSTRING x" using s w n(3) adds_marked [OF ad] unfolding struct_def by metis
  ultimately show ?thesis using s fin unfolding struct_def oa ou st f fl by blast
qed

lemma after_link_cons: "q \<noteq> a \<Longrightarrow> g_rootgc g' = a # g_rootgc g \<Longrightarrow> after_link g' (Some q) = after_link g (Some q)"
  by (simp add: after_link_def)

lemma heap_main: "heap_ok g \<Longrightarrow> live g TTHREAD (g_mainthread g)"
  by (rule main_live) (simp add: heap_ok_core)

text \<open>The objects the sweep has yet to come to are so afterwards.\<close>

lemma pending_mono:
  assumes ad: "adds g a b g'" and p: "g_gcstate g \<noteq> GCSpropagate" and x: "x \<in> pending g"
    and f: "set (concat (drop (g_sweepstrgc g) (g_strt g))) \<subseteq> set (concat (drop (g_sweepstrgc g) (g_strt g')))"
    and al: "g_gcstate g = GCSsweep \<Longrightarrow> set (after_link g (g_sweepgc g)) \<subseteq> set (after_link g' (g_sweepgc g))"
  shows "x \<in> pending g'"
proof -
  note fl = adds_fields [OF ad]
  have na: "body g y \<noteq> None \<Longrightarrow> y \<noteq> a" for y using adds_new(1) [OF ad] by auto
  have oa: "open_at g y \<subseteq> open_at g' y" for y
  proof
    fix u assume "u \<in> open_at g y"
    then obtain j where j: "body g u = Some (BUpval (UOpen y j))" by (auto simp: open_at_def)
    then have "u \<noteq> a" using na by auto
    then show "u \<in> open_at g' y" using adds_body [OF ad, of u] upvals_kind [of "BUpval (UOpen y j)"] j by (auto simp: open_at_def is_open_def)
  qed
  show ?thesis
  proof (cases "g_gcstate g")
    case GCSsweepstring
    have "body g' x \<noteq> None \<and> \<not> typed_at g' TSTRING x" if "body g x \<noteq> None" "\<not> typed_at g TSTRING x"
      using that adds_body [OF ad na [OF that(1)]] na [OF that(1)] by (auto simp: adds_typed [OF ad])
    then show ?thesis using x f GCSsweepstring by (auto simp: pending_at_def fl)
  next
    case GCSsweep
    then show ?thesis using x oa al by (simp add: pending_at_def fl) blast
  qed (use x p in \<open>simp_all add: pending_at_def\<close>)
qed

lemma link_inv:
  assumes i: "gc_inv g" and a: "body g a = None" and k: "gc_tt b \<noteq> TSTRING" "\<not> is_open b" and t: "\<And>t. b = BThread t \<Longrightarrow> th_openupval t = []"
    and r: "refs_live g (brefs (luaC_link a b g) b)"
  shows "gc_inv (luaC_link a b g)" "\<And>tt x. live g tt x \<Longrightarrow> live (luaC_link a b g) tt x" "live (luaC_link a b g) (gc_tt b) a"
proof -
  let ?r = "luaC_link a b g"
  have h: "heap_ok g" using i by (simp add: gc_inv_def inv_except_def)
  then have st: "struct g" and c: "cw_ok g" by (simp_all add: heap_ok_def)
  note ad = link_adds [OF a, of b]
  have f: "g_rootgc ?r = a # g_rootgc g" "g_strt ?r = g_strt g" "g_uvhead ?r = g_uvhead g" by (simp_all add: luaC_link_def)
  have o: "x \<noteq> a \<Longrightarrow> body ?r x = body g x" for x by (simp add: body_link)
  have m: "g_mainthread g \<noteq> a" using heap_main [OF h] a by (auto simp: live_def typed_at_def)
  have "struct ?r" by (rule listed_struct [OF ad st o k t f(2,3)]) (use f m after_link_cons [OF m f(1)] white_bits [OF c] in simp_all)
  moreover have sl: "q \<noteq> a" "q \<in> set (g_rootgc g)" if "g_gcstate g = GCSsweep" "g_sweepgc g = Some q" for q
  proof -
    show q: "q \<in> set (g_rootgc g)" using i that by (simp add: gc_inv_def inv_except_def swept_at_def)
    then have "listed_at g q" using st by (auto simp: struct_def)
    then show "q \<noteq> a" using a by (auto simp: listed_at_def)
  qed
  moreover have "set (after_link g (g_sweepgc g)) \<subseteq> set (after_link ?r (g_sweepgc g))" if "g_gcstate g = GCSsweep"
  proof (cases "g_sweepgc g")
    case (Some q)
    then show ?thesis using after_link_cons [OF sl(1) [OF that Some] f(1)] by simp
  qed (auto simp: after_link_def f)
  moreover have "g_gcstate g = GCSsweepstring \<Longrightarrow> g_sweepstrgc g < length (g_strt g)" using i by (simp add: gc_inv_def inv_except_def swept_at_def)
  ultimately show "gc_inv ?r"
    by (intro adds_inv [OF ad i] pending_mono [OF ad]) (use f sl in \<open>auto intro: adds_refs_live [OF ad r]\<close>)
  show "live g tt x \<Longrightarrow> live ?r tt x" for tt x by (rule adds_lives [OF ad])
  show "live ?r (gc_tt b) a" using adds_current [OF ad c] by (simp add: live_def adds_typed [OF ad])
qed

end
