(* ===== verification/Lua_Gc_Alloc.thy ===== *)
theory Lua_Gc_Alloc
  imports Lua_Gc_Mutator
begin

text \<open>Userdata, strings and open upvalues: where they are linked, and what is found again instead of being made.\<close>

subsection \<open>Userdata\<close>

lemma sweeping_link: "gc_inv g \<Longrightarrow> g_gcstate g = GCSsweep \<Longrightarrow> g_sweepgc g = Some q \<Longrightarrow> q \<in> set (g_rootgc g)"
  by (simp add: gc_inv_def inv_except_def swept_at_def)

lemma sweeping_strings: "gc_inv g \<Longrightarrow> g_gcstate g = GCSsweepstring \<Longrightarrow> g_sweepstrgc g < length (g_strt g)"
  by (simp add: gc_inv_def inv_except_def swept_at_def)

lemma tl_dropWhile: "set (tl (dropWhile P ys)) \<subseteq> set ys"
proof -
  have "set (tl zs) \<subseteq> set zs" for zs :: "'a list" by (cases zs) auto
  then show ?thesis by (meson set_dropWhileD subset_iff)
qed

lemma insert_after:
  assumes d: "distinct (pre @ m # ys)" and a: "a \<notin> set (pre @ m # ys)"
  shows "set (tl (dropWhile (\<lambda>x. x \<noteq> q) (pre @ m # ys))) \<subseteq> set (tl (dropWhile (\<lambda>x. x \<noteq> q) (pre @ m # a # ys)))"
proof (cases "q \<in> set pre")
  case True
  then obtain u v where uv: "pre = u @ q # v" "q \<notin> set u" by (meson split_list_first)
  have "dropWhile (\<lambda>x. x \<noteq> q) (u @ q # zs) = q # zs" for zs using uv(2) by (subst dropWhile_append2) auto
  then show ?thesis by (auto simp: uv(1))
next
  case False
  then have "dropWhile (\<lambda>x. x \<noteq> q) (pre @ zs) = dropWhile (\<lambda>x. x \<noteq> q) zs" for zs by (intro dropWhile_append2) auto
  then show ?thesis using a tl_dropWhile [of "\<lambda>x. x \<noteq> q" ys] by (cases "q = m"; cases "q = a") auto
qed

lemma newudata_inv:
  assumes i: "gc_inv g" and a: "body g a = None" and e: "live g TTABLE e" and r: "luaS_newudata a s e g = Some g'"
  shows "gc_inv g'" "\<And>tt x. live g tt x \<Longrightarrow> live g' tt x" "live g' TUSERDATA a"
proof -
  have h: "heap_ok g" using i by (simp add: gc_inv_def inv_except_def)
  then have st: "struct g" and c: "cw_ok g" by (simp_all add: heap_ok_def)
  let ?b = "BUdata None e s" and ?pre = "takeWhile (\<lambda>x. x \<noteq> g_mainthread g) (g_rootgc g)" and ?ys = "after_link g (Some (g_mainthread g))"
  have sp: "g_rootgc g = ?pre @ g_mainthread g # ?ys" by (rule main_split [OF st])
  have f: "g_rootgc g' = ?pre @ g_mainthread g # a # ?ys" "g_strt g' = g_strt g" "g_uvhead g' = g_uvhead g" "g_sweepgc g' = g_sweepgc g" "g_gcstate g' = g_gcstate g"
    using r by (auto simp: luaS_newudata_def split: if_splits)
  have bm: "body g' x = (if x = a then Some ?b else body g x)" "marked g' x = (if x = a then luaC_white g else marked g x)" for x
    using r by (auto simp: luaS_newudata_def body_def marked_def split: if_splits)
  have "rel_option same_but_upvals (body g x) (body g x)" for x by (cases "body g x") (simp_all add: same_but_upvals_def)
  then have ad: "adds g a ?b g'" using a bm r by (auto simp: adds_def luaS_newudata_def split: if_splits)
  have o: "x \<noteq> a \<Longrightarrow> body g' x = body g x" for x by (simp add: bm)
  have mp: "g_mainthread g \<notin> set ?pre" by (auto dest: set_takeWhileD)
  have al: "after_link g' (Some (g_mainthread g)) = a # ?ys" using after_main_append [OF mp] by (simp add: after_link_def f)
  have "mset (g_rootgc g) = mset ?pre + {#g_mainthread g#} + mset ?ys" using arg_cong [OF sp, of mset] by simp
  then have ms: "mset (g_rootgc g') = add_mset a (mset (g_rootgc g))" by (simp add: f)
  have sub: "set (g_rootgc g) \<subseteq> set (g_rootgc g')" using ms by (metis set_mset_add_mset_insert set_mset_mset subset_insertI)
  have k: "gc_tt ?b \<noteq> TSTRING" "\<not> is_open ?b" by (simp_all add: is_open_def)
  have "struct g'" by (rule listed_struct [OF ad st o k _ f(2,3) ms]) (use al white_bits [OF c] in auto)
  moreover have "set (after_link g (g_sweepgc g)) \<subseteq> set (after_link g' (g_sweepgc g))"
  proof (cases "g_sweepgc g")
    case None
    then show ?thesis using sub by (simp add: after_link_def)
  next
    case (Some q)
    have "distinct (g_rootgc g)" using st by (simp add: struct_def)
    moreover have "a \<notin> set (g_rootgc g)" using listed_object [OF st, of a] a by (auto simp: listed_at_def)
    ultimately have "set (tl (dropWhile (\<lambda>x. x \<noteq> q) (?pre @ g_mainthread g # ?ys))) \<subseteq> set (tl (dropWhile (\<lambda>x. x \<noteq> q) (?pre @ g_mainthread g # a # ?ys)))"
      using sp by (intro insert_after) simp_all
    then show ?thesis using sp Some by (simp add: after_link_def f)
  qed
  moreover have "refs_live g' (brefs g' ?b)" using adds_lives [OF ad e] by (simp add: refs_live_def orefs_def)
  ultimately show "gc_inv g'"
    by (intro adds_inv [OF ad i] pending_mono [OF ad]) (use f sub sweeping_link [OF i] sweeping_strings [OF i] in auto)
  show "live g tt x \<Longrightarrow> live g' tt x" for tt x by (rule adds_lives [OF ad])
  show "live g' TUSERDATA a" using adds_current [OF ad c] by (simp add: live_def adds_typed [OF ad])
qed

subsection \<open>Strings\<close>

lemma concat_drop_upd: "i < length xss \<Longrightarrow> set (concat (drop k xss)) \<subseteq> set (concat (drop k (xss[i := a # xss ! i])))"
proof (cases "i < k")
  case False
  assume i: "i < length xss"
  let ?ys = "drop k xss" and ?j = "i - k"
  have "drop k (xss[i := a # xss ! i]) = ?ys[?j := a # ?ys ! ?j]" using False i by (simp add: drop_update_swap)
  moreover have "mset (concat (?ys[?j := a # ?ys ! ?j])) = add_mset a (mset (concat ?ys))" by (rule mset_concat_upd) (use False i in simp)
  then have "set (concat (?ys[?j := a # ?ys ! ?j])) = insert a (set (concat ?ys))" by (metis set_mset_add_mset_insert set_mset_mset)
  ultimately show ?thesis by (simp only: subset_insertI)
qed simp

lemma newlstr_link_inv:
  fixes s :: bytes
  assumes i: "gc_inv g" and a: "body g a = None"
  defines "n \<equiv> lmod (luaS_hash s) (length (g_strt g))"
  defines "g' \<equiv> g\<lparr>g_heap := (g_heap g)(a \<mapsto> \<lparr>gc_marked = luaC_white g, gc_body = BString s\<rparr>), g_strt := (g_strt g)[n := a # g_strt g ! n],
                   g_nuse := g_nuse g + 1, g_totalbytes := g_totalbytes g + of_nat (object_size (BString s))\<rparr>"
  shows "gc_inv g'" "\<And>tt x. live g tt x \<Longrightarrow> live g' tt x" "live g' TSTRING a"
proof -
  have h: "heap_ok g" using i by (simp add: gc_inv_def inv_except_def)
  then have st: "struct g" and c: "cw_ok g" by (simp_all add: heap_ok_def)
  let ?b = "BString s" and ?s = "(g_strt g)[n := a # g_strt g ! n]"
  have n: "n < length (g_strt g)" using st lmod_bound [of "length (g_strt g)"] by (simp add: n_def struct_def)
  have f: "g_rootgc g' = g_rootgc g" "g_strt g' = ?s" "g_uvhead g' = g_uvhead g" by (simp_all add: g'_def)
  have bm: "body g' x = (if x = a then Some ?b else body g x)" "marked g' x = (if x = a then luaC_white g else marked g x)" for x
    by (simp_all add: g'_def body_def marked_def)
  have "rel_option same_but_upvals (body g x) (body g x)" for x by (cases "body g x") (simp_all add: same_but_upvals_def)
  then have ad: "adds g a ?b g'" using a bm by (simp add: adds_def) (simp add: g'_def)
  note fl = adds_fields [OF ad]
  have o: "x \<noteq> a \<Longrightarrow> body g' x = body g x" for x by (simp add: bm)
  have e: "mset (concat ?s) = add_mset a (mset (concat (g_strt g)))" by (rule mset_concat_upd [OF n])
  have ty: "typed_at g' tt x \<longleftrightarrow> typed_at g tt x \<or> x = a \<and> tt = gc_tt ?b" for tt x by (rule adds_typed [OF ad])
  have na: "\<not> typed_at g tt a" for tt using a by (simp add: typed_at_def)
  have v: "listed_at g' = listed_at g" "open_at g' = open_at g" "open_upvals g' = open_upvals g"
    using a by (auto simp: fun_eq_iff listed_at_def open_at_def open_upvals_def bm)
  have "struct g'"
  proof -
    have "objects g' \<subseteq> insert a (objects g)" by (auto simp: objects_def bm)
    then have "finite (objects g')" using st finite_subset by (auto simp: struct_def)
    moreover have "distinct (concat ?s)"
    proof -
      have "distinct (a # concat (g_strt g))" using st na by (auto simp: struct_def simp del: set_concat)
      then show ?thesis using mset_eq_imp_distinct_iff [of "concat ?s" "a # concat (g_strt g)"] e by simp
    qed
    moreover have "set (concat ?s) = {x. typed_at g' TSTRING x}"
    proof -
      have "set (concat ?s) = insert a (set (concat (g_strt g)))" using mset_eq_setD [of "concat ?s" "a # concat (g_strt g)"] e by simp
      then show ?thesis using st by (auto simp: struct_def ty simp del: set_concat)
    qed
    moreover have "after_link g' (Some (g_mainthread g)) = after_link g (Some (g_mainthread g))" by (rule after_link_cong [OF f(1)])
    moreover have "\<forall>x. bit (marked g' x) 5 \<longrightarrow> x = g_mainthread g \<or> typed_at g' TSTRING x" using st white_bits [OF c] by (auto simp: bm ty struct_def)
    moreover have "?s \<noteq> []" using st by (simp add: struct_def)
    moreover have "typed_at g TUSERDATA x \<Longrightarrow> typed_at g' TUSERDATA x" for x by (simp add: ty)
    ultimately show ?thesis using st unfolding struct_def v f fl by (simp del: set_concat)
  qed
  moreover have "set (concat (drop k (g_strt g))) \<subseteq> set (concat (drop k ?s))" for k
    by (rule concat_drop_upd [OF n])
  moreover have "after_link g' l = after_link g l" for l by (rule after_link_cong [OF f(1)])
  ultimately show "gc_inv g'"
    by (intro adds_inv [OF ad i] pending_mono [OF ad]) (use f sweeping_link [OF i] sweeping_strings [OF i] in auto)
  show "live g tt x \<Longrightarrow> live g' tt x" for tt x by (rule adds_lives [OF ad])
  show "live g' TSTRING a" using adds_current [OF ad c] by (simp add: live_def adds_typed [OF ad])
qed

lemma strt_resize_inv:
  assumes i: "gc_inv g" and n: "0 < n"
  shows "gc_inv (strt_resize n g)" "live (strt_resize n g) tt x = live g tt x"
proof -
  have lv: "live (g\<lparr>g_strt := s\<rparr>) tt x = live g tt x" for s by (simp add: live_def typed_at_def isdead_def otherwhite_def)
  show "live (strt_resize n g) tt x = live g tt x" by (simp add: strt_resize_def lv)
  show "gc_inv (strt_resize n g)"
  proof (cases "g_gcstate g = GCSsweepstring")
    case True
    then show ?thesis using i by (simp add: strt_resize_def)
  next
    case False
    let ?s = "g_strt (strt_resize n g)"
    have r: "strt_resize n g = g\<lparr>g_strt := ?s\<rparr>" using False by (simp add: strt_resize_def)
    note m = strt_resize_mset [OF n False]
    have "?s \<noteq> []" using m(1) n by auto
    then have h: "heap_ok (g\<lparr>g_strt := ?s\<rparr>)" using strt_inv [of g ?s] m(2) i by (simp add: gc_inv_def inv_except_def)
    define k where "k = g\<lparr>g_strt := ?s\<rparr>"
    have v: "body k = body g" "marked k = marked g" "g_gcstate k = g_gcstate g" by (simp_all add: k_def)
    note sv = same_view [OF v(1,2)]
    have f: "gray_lists k = gray_lists g" "excused k = excused g" "isdead k = isdead g" "current k = current g" "opens k = opens g" "g_gray k = g_gray g"
      "g_weak k = g_weak g" "g_mainthread k = g_mainthread g" "g_registry k = g_registry g" "g_tmudata k = g_tmudata g" "g_rootgc k = g_rootgc g"
      by (simp_all add: fun_eq_iff k_def gray_lists_def excused_def opens_def isdead_def otherwhite_def current_def luaC_white_def)
    have al: "after_link k l = after_link g l" for l by (rule after_link_cong) (simp add: k_def)
    have "g_sweepgc k = g_sweepgc g" by (simp add: k_def)
    then have pe: "pending k = pending g" using False v by (simp add: pending_at_def open_at_def al split: gcstate.split)
    have "marking {} k = marking {} g" by (simp only: marking_def minv_def mark_lists_def shades_def tri_def sv v f)
    moreover have "swept k = swept g" using False unfolding swept_at_def sv v f pe by (simp add: k_def)
    ultimately have "gc_inv k" using i h unfolding k_def [symmetric] by (simp add: gc_inv_def inv_except_def v split: if_splits)
    then show ?thesis using r by (simp add: k_def)
  qed
qed

lemma newlstr_inv:
  assumes i: "gc_inv g" and a: "body g a = None" and r: "newlstr_obj a s g = Some g'"
  shows "gc_inv g'" "\<And>tt x. live g tt x \<Longrightarrow> live g' tt x" "live g' TSTRING a"
proof -
  let ?n = "lmod (luaS_hash s) (length (g_strt g))"
  let ?k = "g\<lparr>g_heap := (g_heap g)(a \<mapsto> \<lparr>gc_marked = luaC_white g, gc_body = BString s\<rparr>), g_strt := (g_strt g)[?n := a # g_strt g ! ?n],
                   g_nuse := g_nuse g + 1, g_totalbytes := g_totalbytes g + of_nat (object_size (BString s))\<rparr>"
  note l = newlstr_link_inv [OF i a, where s = s]
  have "0 < length (g_strt g)" using i by (simp add: gc_inv_def inv_except_def heap_ok_def struct_def)
  then have "0 < length (g_strt ?k) * 2" by simp
  note z = strt_resize_inv [OF l(1) this]
  have "g' = ?k \<or> g' = strt_resize (length (g_strt ?k) * 2) ?k" using r by (auto simp: newlstr_obj_def Let_def split: if_splits)
  then have "gc_inv g' \<and> (\<forall>tt x. live g' tt x = live ?k tt x)"
  proof
    assume "g' = ?k"
    then show ?thesis using l(1) by simp
  next
    assume "g' = strt_resize (length (g_strt ?k) * 2) ?k"
    then show ?thesis using z by simp
  qed
  then show "gc_inv g'" "\<And>tt x. live g tt x \<Longrightarrow> live g' tt x" "live g' TSTRING a" using l(2,3) by blast+
qed

subsection \<open>What is found again\<close>

lemma changewhite_dead:
  assumes c: "cw_ok g" "colours g" and d: "isdead g p" and b: "body g p \<noteq> None"
  shows "changewhite p g = makewhite p g"
proof -
  let ?m = "marked g p"
  have w: "iswhite g p" by (rule isdead_white [OF d])
  have nb: "\<not> bit ?m 2" using c(2) w by (auto simp: colours_def wb_def isblack_def m_black_bit)
  have n3: "?m AND 3 \<noteq> 3" using c(2) by (simp add: colours_def)
  have e: "m_changewhite ?m = (?m AND maskmarks) OR luaC_white g"
    using nb n3 d c(1)
    by (auto simp: m_changewhite_def maskmarks_def mark_eq_iff bit_and_iff bit_or_iff bit_xor_iff bit_not_iff BLACKMASK_def WHITEBITS_def
        isdead_def cw_ok_def luaC_white_def otherwhite_def)
  obtain ob where ob: "g_heap g p = Some ob" using b by (auto simp: body_def)
  then have "gc_marked ob = ?m" by (simp add: marked_def)
  then show ?thesis using e ob by (simp add: set_mark_def)
qed

lemma revive_inv:
  assumes i: "gc_inv g" and b: "body g p \<noteq> None" and d: "isdead g p" and r: "refs_live g (refs g p)"
  shows "gc_inv (makewhite p g)" "live g tt x \<Longrightarrow> live (makewhite p g) tt x" "\<not> isdead (makewhite p g) p"
proof -
  have h: "heap_ok g" using i by (simp add: gc_inv_def inv_except_def)
  then have st: "struct g" and c: "cw_ok g" "colours g" by (simp_all add: heap_ok_def)
  define k where "k = makewhite p g"
  have np: "g_gcstate g \<noteq> GCSpropagate" using i d by (auto simp: gc_inv_def inv_except_def marking_def)
  then have sw: "swept g" using i by (simp add: gc_inv_def inv_except_def)
  have mk: "marked k x = (if x = p then makewhite_mark g (marked g p) else marked g x)" for x
    using b by (simp add: k_def marked_set_mark makewhite_mark_def)
  have v: "body k = body g" by (simp add: k_def)
  have f: "g_rootgc k = g_rootgc g" "g_sweepgc k = g_sweepgc g" "g_strt k = g_strt g" "g_sweepstrgc k = g_sweepstrgc g"
     "g_gray k = g_gray g" "g_grayagain k = g_grayagain g" "g_weak k = g_weak g" "g_tmudata k = g_tmudata g" "g_uvhead k = g_uvhead g"
     "g_currentwhite k = g_currentwhite g" "g_gcstate k = g_gcstate g" "g_mainthread k = g_mainthread g" "g_registry k = g_registry g" "g_L k = g_L g" "g_mt k = g_mt g"
    by (simp_all add: k_def)
  have wh: "luaC_white k = luaC_white g" "otherwhite k = otherwhite g" by (simp_all add: luaC_white_def otherwhite_def f)
  have mb: "makewhite_mark g m AND 7 = luaC_white g" "bit (makewhite_mark g m) 5 = bit m 5" "m_white (makewhite_mark g m)" "\<not> m_black (makewhite_mark g m)" for m
    using makewhite_bits [OF c(1)] by simp_all
  have cur: "current k p" by (simp add: current_def mk mb wh)
  have c': "cw_ok k" using c(1) by (simp add: cw_ok_def f)
  have nd: "\<not> isdead k p" by (rule current_alive [OF c' cur])
  have old: "x \<noteq> p \<Longrightarrow> isdead k x = isdead g x \<and> iswhite k x = iswhite g x \<and> isblack k x = isblack g x \<and> current k x = current g x" for x
    by (simp add: isdead_def iswhite_def isblack_def current_def mk wh)
  have ty: "typed_at k tt x = typed_at g tt x" for tt x by (simp add: typed_at_def v)
  have lv: "live g tt x \<Longrightarrow> live k tt x" for tt x using old [of x] nd by (cases "x = p") (simp_all add: live_def ty)
  have rl: "refs_live g R \<Longrightarrow> refs_live k R" for R using lv by (auto simp: refs_live_def)
  have rf: "refs k = refs g" by (rule refs_cong [OF v])
  have vs: "listed_at k = listed_at g" "open_at k = open_at g" "open_upvals k = open_upvals g" "objects k = objects g" "typed_at k = typed_at g" "opens k = opens g"
    by (simp_all add: fun_eq_iff listed_at_def open_at_def open_upvals_def objects_def typed_at_def opens_def v)
  have al: "after_link k l = after_link g l" for l by (rule after_link_cong [OF f(1)])
  have b5: "bit (marked k x) 5 = bit (marked g x) 5" for x by (simp add: mk mb)
  have "struct k" using st unfolding struct_def vs f b5 al by blast
  moreover have "sound k" unfolding sound_def rf
  proof (intro allI impI)
    fix x assume "\<not> isdead k x"
    then show "refs_live k (refs g x)" using r heap_refs [OF h, of x] old [of x] rl by (cases "x = p") auto
  qed
  moreover have "colours k" unfolding colours_def wb_def
  proof (intro conjI allI impI)
    fix x show "marked k x AND 3 \<noteq> 3"
    proof (cases "x = p")
      case True
      have "marked k p AND 3 = luaC_white g AND 3" using and3_and7 [of "marked k p"] by (simp add: mk mb)
      then show ?thesis using white_bits [OF c(1)] True by simp
    next
      case False
      then show ?thesis using c(2) by (simp add: mk colours_def)
    qed
  next
    fix x assume "iswhite k x"
    then show "\<not> isblack k x" using c(2) old [of x] mb by (cases "x = p") (simp_all add: colours_def wb_def isblack_def mk)
  qed
  moreover have "roots k = roots g" by (rule roots_cong) (simp_all add: f)
  then have "refs_live k (roots k)" using rl [OF heap_roots [OF h]] by simp
  ultimately have h': "heap_ok k" using c' by (simp add: heap_ok_def)
  have pe: "pending_at l k = pending_at l g" for l by (simp add: pending_at_def f vs v al split: gcstate.split)
  have "swept k" unfolding swept_at_def pe v f vs
  proof (intro conjI allI impI ballI)
    fix x assume "body g x \<noteq> None"
    then show "x \<in> pending g \<or> x \<in> set (g_tmudata g) \<or> current k x" using sw old [of x] cur by (cases "x = p") (auto simp: swept_at_def)
  next
    fix u assume "u \<in> set (g_tmudata g)"
    then show "iswhite k u \<or> isblack k u" using sw old [of u] current_white [OF c' cur] by (cases "u = p") (auto simp: swept_at_def)
  next
    fix u assume "u \<in> opens g"
    then show "\<not> isblack k u" using sw old [of u] current_white [OF c' cur] by (cases "u = p") (auto simp: swept_at_def)
  qed (use sw in \<open>auto simp: swept_at_def\<close>)
  then have "gc_inv k" using h' np by (simp add: gc_inv_def inv_except_def f)
  then show "gc_inv (makewhite p g)" "live g tt x \<Longrightarrow> live (makewhite p g) tt x" "\<not> isdead (makewhite p g) p"
    using lv nd unfolding k_def by blast+
qed

lemma resurrect_inv:
  assumes i: "gc_inv g" and t: "typed_at g t p" and r: "refs_live g (refs g p)"
  shows "gc_inv (resurrect p g)" "live g tt x \<Longrightarrow> live (resurrect p g) tt x" "live (resurrect p g) t p"
proof -
  have b: "body g p \<noteq> None" using t by (auto simp: typed_at_def)
  have h: "heap_ok g" using i by (simp add: gc_inv_def inv_except_def)
  have "gc_inv (resurrect p g) \<and> (live g tt x \<longrightarrow> live (resurrect p g) tt x) \<and> live (resurrect p g) t p"
  proof (cases "isdead g p")
    case True
    have e: "resurrect p g = makewhite p g" using changewhite_dead [OF _ _ True b] h True by (simp add: resurrect_def heap_ok_def del: changewhite_def makewhite_def)
    have "typed_at (makewhite p g) t p" using t by (simp add: typed_at_def)
    then show ?thesis unfolding e live_def [of "makewhite p g" t p] using revive_inv [OF i b True r] by blast
  qed (use i t in \<open>simp add: resurrect_def live_def\<close>)
  then show "gc_inv (resurrect p g)" "live g tt x \<Longrightarrow> live (resurrect p g) tt x" "live (resurrect p g) t p" by blast+
qed

lemma luaS_newlstr_inv:
  assumes i: "gc_inv g" and a: "body g a = None" and r: "luaS_newlstr_obj a s g = Some (p, g')"
  shows "gc_inv g'" "live g tt x \<Longrightarrow> live g' tt x" "live g' TSTRING p" "body g' p = Some (BString s)"
proof -
  let ?c = "g_strt g ! lmod (luaS_hash s) (length (g_strt g))"
  have "gc_inv g' \<and> (live g tt x \<longrightarrow> live g' tt x) \<and> live g' TSTRING p \<and> body g' p = Some (BString s)"
  proof (cases "find (\<lambda>p. body g p = Some (BString s)) ?c")
    case None
    then have n: "newlstr_obj a s g = Some g'" "p = a" using r by (auto simp: luaS_newlstr_obj_def)
    have "g_heap (strt_resize n k) = g_heap k" for n k by (simp add: strt_resize_def)
    then have "body g' a = Some (BString s)" using n(1) by (auto simp: newlstr_obj_def Let_def body_def split: if_splits)
    then show ?thesis using newlstr_inv [OF i a n(1)] n(2) by blast
  next
    case (Some q)
    have "body g q = Some (BString s)" using Some by (auto simp: find_Some_iff)
    moreover have "p = q" "g' = resurrect q g" using r Some by (auto simp: luaS_newlstr_obj_def)
    ultimately have q: "body g q = Some (BString s)" "p = q" "g' = resurrect q g" by blast+
    have t: "typed_at g TSTRING q" using q(1) by (simp add: typed_at_def)
    have rf: "refs_live g (refs g q)" using q(1) by (simp add: refs_def)
    have "body g' q = Some (BString s)" using q by (simp add: resurrect_def)
    then show ?thesis using resurrect_inv [OF i t rf] q by blast
  qed
  then show "gc_inv g'" "live g tt x \<Longrightarrow> live g' tt x" "live g' TSTRING p" "body g' p = Some (BString s)" by blast+
qed

subsection \<open>Open upvalues\<close>

lemma new_open_upval_inv:
  assumes i: "gc_inv g" and a: "body g a = None" and th: "body g th = Some (BThread t)"
    and us: "set us = insert a (open_at g th)" "distinct us" and v: "refs_live g (vrefs (stack_slot t level))"
  defines "g' \<equiv> new_open_upval a th level us g"
  shows "gc_inv g'" "live g tt x \<Longrightarrow> live g' tt x" "live g' TUPVAL a"
proof -
  have h: "heap_ok g" using i by (simp add: gc_inv_def inv_except_def)
  then have st: "struct g" and c: "cw_ok g" by (simp_all add: heap_ok_def)
  let ?b = "BUpval (UOpen th level)"
  have na: "th \<noteq> a" using a th by auto
  define k where "k = g\<lparr>g_heap := (g_heap g)(a \<mapsto> \<lparr>gc_marked = luaC_white g, gc_body = ?b\<rparr>), g_uvhead := a # g_uvhead g, g_totalbytes := g_totalbytes g + 40\<rparr>"
  have bk: "body k x = (if x = a then Some ?b else body g x)" "marked k x = (if x = a then luaC_white g else marked g x)" for x
    by (simp_all add: k_def body_def marked_def)
  have "body k th = Some (BThread t)" using th na by (simp add: bk)
  then have e: "g' = set_body th (BThread (t\<lparr>th_openupval := us\<rparr>)) k" by (simp add: g'_def new_open_upval_def set_openupval_def k_def)
  have bm: "body g' x = (if x = a then Some ?b else if x = th then Some (BThread (t\<lparr>th_openupval := us\<rparr>)) else body g x)"
    "marked g' x = (if x = a then luaC_white g else marked g x)" for x
    using th na by (simp_all add: e body_set_body bk)
  have f: "g_rootgc g' = g_rootgc g" "g_strt g' = g_strt g" "g_uvhead g' = a # g_uvhead g" by (simp_all add: e k_def)
  have "rel_option same_but_upvals (body g x) (body g' x)" if "x \<noteq> a" for x
    using that th by (cases "body g x") (auto simp: bm same_but_upvals_def)
  then have ad: "adds g a ?b g'" using a bm by (simp add: adds_def) (simp add: e k_def)
  note fl = adds_fields [OF ad]
  have ty: "typed_at g' tt x \<longleftrightarrow> typed_at g tt x \<or> x = a \<and> tt = gc_tt ?b" for tt x by (rule adds_typed [OF ad])
  have oaa: "open_at g x \<subseteq> - {a}" for x using a by (auto simp: open_at_def)
  have oa0: "open_at g a = {}"
  proof (rule ccontr)
    assume "open_at g a \<noteq> {}"
    then obtain u where "u \<in> open_at g a" by blast
    then show False using open_at_thread [OF st, of u a] a by auto
  qed
  have oa: "open_at g' x = (if x = th then insert a (open_at g th) else open_at g x)" for x
  proof -
    have "u \<in> open_at g' x \<longleftrightarrow> u \<in> (if x = th then insert a (open_at g th) else open_at g x)" for u
      using a th by (auto simp: open_at_def bm)
    then show ?thesis by blast
  qed
  have ou: "open_upvals g' x = (if x = th then us else open_upvals g x)" for x
    using na a by (auto simp: open_upvals_def bm)
  have la: "listed_at g' x = listed_at g x" for x using a th by (auto simp: listed_at_def bm is_open_def)
  have str: "typed_at g' TSTRING = typed_at g TSTRING" "typed_at g' TUSERDATA = typed_at g TUSERDATA" by (auto simp: fun_eq_iff ty)
  have "struct g'"
  proof -
    have "objects g' \<subseteq> insert a (objects g)" using th by (auto simp: objects_def bm)
    then have "finite (objects g')" using st finite_subset by (auto simp: struct_def)
    moreover have "after_link g' (Some (g_mainthread g)) = after_link g (Some (g_mainthread g))" by (rule after_link_cong [OF f(1)])
    moreover have u: "set (g_uvhead g) = (\<Union>x. open_at g x)" "distinct (g_uvhead g)" using st unfolding struct_def by blast+
    then have "distinct (a # g_uvhead g)" using oaa by auto
    moreover have "set (a # g_uvhead g) = (\<Union>x. open_at g' x)" using u(1) by (auto simp: oa split: if_splits)
    moreover have "\<forall>x. distinct (open_upvals g' x) \<and> set (open_upvals g' x) = open_at g' x" using st us by (simp add: ou oa struct_def)
    moreover have "\<forall>x. bit (marked g' x) 5 \<longrightarrow> x = g_mainthread g \<or> typed_at g TSTRING x" using st white_bits [OF c] by (auto simp: bm struct_def)
    ultimately show ?thesis using st unfolding struct_def la f fl str by (simp del: set_concat)
  qed
  moreover have "refs_live g' (brefs g' ?b)"
  proof -
    have "vrefs (upval_value g' (UOpen th level)) = vrefs (stack_slot t level)" using na by (simp add: bm stack_slot_def)
    then show ?thesis using adds_refs_live [OF ad v] by simp
  qed
  moreover have "after_link g' l = after_link g l" for l by (rule after_link_cong [OF f(1)])
  ultimately show "gc_inv g'"
    by (intro adds_inv [OF ad i] pending_mono [OF ad]) (use f sweeping_link [OF i] sweeping_strings [OF i] in auto)
  show "live g tt x \<Longrightarrow> live g' tt x" by (rule adds_lives [OF ad])
  show "live g' TUPVAL a" using adds_current [OF ad c] by (simp add: live_def adds_typed [OF ad])
qed

lemma insert_mid: "xs = ys @ zs \<Longrightarrow> a \<notin> set xs \<Longrightarrow> distinct xs \<Longrightarrow> set (ys @ a # zs) = insert a (set xs) \<and> distinct (ys @ a # zs)"
  by auto

lemma findupval_inv:
  assumes i: "gc_inv g" and a: "body g a = None" and th: "body g th = Some (BThread t)" and v: "refs_live g (vrefs (stack_slot t level))"
    and r: "luaF_findupval a th level g = (p, g')"
  shows "gc_inv g'" "live g tt x \<Longrightarrow> live g' tt x" "live g' TUPVAL p"
proof -
  have st: "struct g" using i by (simp add: gc_inv_def inv_except_def heap_ok_def)
  let ?us = "open_upvals g th"
  let ?pre = "takeWhile (\<lambda>p. upval_level g p > level) ?us" and ?post = "dropWhile (\<lambda>p. upval_level g p > level) ?us"
  have us: "set ?us = open_at g th" "distinct ?us" using st unfolding struct_def by blast+
  have sp: "?us = ?pre @ ?post" by simp
  have "a \<notin> set ?us" using a us by (auto simp: open_at_def)
  then have "set (?pre @ a # ?post) = insert a (open_at g th)" "distinct (?pre @ a # ?post)"
    using insert_mid [OF sp] us by simp_all
  note new = new_open_upval_inv [OF i a th this v]
  have "gc_inv g' \<and> (live g tt x \<longrightarrow> live g' tt x) \<and> live g' TUPVAL p"
  proof (cases "\<exists>q rest. ?post = q # rest \<and> upval_level g q = level")
    case True
    then obtain q rest where q: "?post = q # rest" "upval_level g q = level" by blast
    have e: "p = q" "g' = resurrect q g" using r q by (auto simp: luaF_findupval_def Let_def)
    have "q \<in> set ?us" using sp q(1) by (metis in_set_conv_decomp)
    then obtain j where j: "body g q = Some (BUpval (UOpen th j))" using us by (auto simp: open_at_def)
    then have "j = level" using q(2) by (simp add: upval_level_def)
    then have rf: "refs_live g (refs g q)" using j v th by (simp add: refs_def)
    have t: "typed_at g TUPVAL q" using j by (simp add: typed_at_def)
    show ?thesis using resurrect_inv [OF i t rf] e by blast
  next
    case False
    then have "p = a" "g' = new_open_upval a th level (?pre @ a # ?post) g" using r by (auto simp: luaF_findupval_def Let_def split: list.splits if_splits)
    then show ?thesis using new by blast
  qed
  then show "gc_inv g'" "live g tt x \<Longrightarrow> live g' tt x" "live g' TUPVAL p" by blast+
qed

end
