(* ===== verification/Lua_Gc_Write.thy ===== *)
theory Lua_Gc_Write
  imports Lua_Gc_Alloc
begin

text \<open>The stores of Lua with their barriers keep the invariant in every phase.\<close>

subsection \<open>Black objects\<close>

lemma black_ok:
  assumes i: "gc_inv g" and p: "g_gcstate g = GCSpropagate" and b: "body g a = Some b" and bl: "isblack g a" and t: "a \<notin> set (g_tmudata g)"
  shows "ok g a"
proof -
  have mk: "marking {} g" and h: "heap_ok g" using i p by (simp_all add: gc_inv_def inv_except_def)
  have nw: "\<not> iswhite g a" using h bl by (auto simp: heap_ok_def colours_def wb_def)
  have nl: "a \<notin> set (gray_lists g)" using mk bl by (auto simp: marking_def minv_def mark_lists_def isgray_def)
  have no: "a \<notin> opens g"
  proof
    assume "a \<in> opens g"
    then have "\<not> gray_kind b" "\<not> black_kind b" using b is_open_kind by (auto simp: opens_def)
    then show False using shadesD [of g a b] mk b nw bl by (auto simp: marking_def minv_def)
  qed
  have "a \<in> excused g \<or> a \<in> set (g_gray g) \<or> ok g a" using mk b nw by (simp add: marking_def tri_def)
  then show ?thesis using nl no t by (auto simp: excused_def gray_lists_def)
qed

lemma settle:
  assumes i: "inv_except {a} g" and p: "g_gcstate g = GCSpropagate" and b: "body g a = Some b" and o: "isblack g a \<Longrightarrow> a \<in> excused g \<or> ok g a"
  shows "gc_inv g"
proof (rule inv_except_settle [OF i p])
  fix x assume "x \<in> {a}"
  then show "iswhite g x \<or> x \<in> excused g \<or> x \<in> set (g_gray g) \<or> ok g x"
    using o not_black_excused [of "{a}" g a b] i p b by (auto simp: inv_except_def)
qed

lemma black_alive: "heap_ok g \<Longrightarrow> isblack g a \<Longrightarrow> \<not> isdead g a"
  using isdead_white [of g a] by (auto simp: heap_ok_def colours_def wb_def)

lemma makewhite_lives: "cw_ok g \<Longrightarrow> \<not> isdead g a \<Longrightarrow> lives g (makewhite a g)"
proof -
  assume c: "cw_ok g" and d: "\<not> isdead g a"
  have "live (makewhite a g) tt x" if l: "live g tt x" for tt x
  proof (cases "x = a")
    case True
    have b: "body g a \<noteq> None" using l True by (auto simp: live_def typed_at_def)
    have "current (makewhite a g) a" using makewhite_bits(4) [OF c, of "marked g a"] b
      by (simp add: current_def marked_set_mark luaC_white_def makewhite_mark_def)
    then have "\<not> isdead (makewhite a g) a" using current_alive c by (simp add: cw_ok_def)
    then show ?thesis using l True by (simp add: live_def typed_at_def)
  next
    case False
    then show ?thesis using l by (simp add: live_def typed_at_def isdead_def otherwhite_def marked_set_mark)
  qed
  then show ?thesis by (simp add: lives_def)
qed

lemma lives_trans: "lives g1 g2 \<Longrightarrow> lives g2 g3 \<Longrightarrow> lives g1 g3"
  by (simp add: lives_def)

lemma lives_refl [simp]: "lives g g"
  by (simp add: lives_def)

subsection \<open>The backward barrier\<close>

lemma backward_any:
  assumes i: "inv_except {a} g" and b: "body g a = Some (BTable h)" and bl: "isblack g a"
  shows "gc_inv (luaC_barrierback a g)" "lives g (luaC_barrierback a g)" "\<not> isblack (luaC_barrierback a g) a"
proof -
  show "gc_inv (luaC_barrierback a g)"
  proof (cases "g_gcstate g = GCSpropagate")
    case True
    then show ?thesis by (rule barrierback_inv [OF i _ b bl])
  next
    case False
    then have "inv_at (g_sweepgc g) g" using i by (simp add: inv_except_def inv_at_def)
    then have "inv_at (g_sweepgc g) (luaC_barrierback a g)" by (rule swept_black2gray [OF _ False b bl])
    then show ?thesis by (simp add: gc_inv_at luaC_barrierback_def Let_def)
  qed
  have mk: "marked (luaC_barrierback a g) x = (if x = a then m_black2gray (marked g a) else marked g x)" for x
    using b by (simp add: luaC_barrierback_def Let_def marked_set_mark)
  show "\<not> isblack (luaC_barrierback a g) a" by (simp add: isblack_def mk)
  have "m_black2gray m AND WHITEBITS = m AND WHITEBITS" for m by (auto simp: m_black2gray_def mask_defs mark_eq_iff bit_and_iff bit_not_iff)
  then have "m_black2gray m AND w AND WHITEBITS = m AND w AND WHITEBITS" for m w by (metis and.assoc and.commute)
  then have "isdead (luaC_barrierback a g) x = isdead g x" for x by (simp add: isdead_def mk otherwhite_def) (simp add: luaC_barrierback_def Let_def)
  then show "lives g (luaC_barrierback a g)" by (simp add: lives_def live_def typed_at_def luaC_barrierback_def Let_def)
qed

lemma live_tag: "live g tt x \<Longrightarrow> tt \<noteq> TDEADKEY"
  by (auto simp: live_def typed_at_def elim: gc_tt.elims)

lemma valiswhite_targets: "refs_live g (vrefs w) \<Longrightarrow> valiswhite g w \<longleftrightarrow> (\<exists>x \<in> targets (vrefs w). iswhite g x)"
  by (cases w) (auto simp: valiswhite_def targets_def refs_live_def dest: live_tag)

lemma outside_inv: "inv_except E g \<Longrightarrow> g_gcstate g \<noteq> GCSpropagate \<Longrightarrow> gc_inv g"
  by (simp add: inv_except_def gc_inv_def)

text \<open>After a store of the values \<open>k\<close> and \<open>v\<close> into a table.\<close>

lemma barriert_twice:
  assumes i: "inv_except {a} g" and b: "body g a = Some (BTable h)" and l: "refs_live g (vrefs k)" "refs_live g (vrefs v)"
    and r: "g_gcstate g = GCSpropagate \<Longrightarrow> isblack g a \<Longrightarrow> \<forall>x \<in> targets (refs g a). x \<in> targets (vrefs k \<union> vrefs v) \<or> \<not> iswhite g x"
  shows "gc_inv (luaC_barriert a v (luaC_barriert a k g))" "lives g (luaC_barriert a v (luaC_barriert a k g))"
proof -
  have "gc_inv (luaC_barriert a v (luaC_barriert a k g)) \<and> lives g (luaC_barriert a v (luaC_barriert a k g))"
  proof (cases "isblack g a \<and> (valiswhite g k \<or> valiswhite g v)")
    case True
    note bb = backward_any [OF i b conjunct1 [OF True]]
    have "luaC_barriert a v (luaC_barriert a k g) = luaC_barrierback a g" using True bb(3) by (auto simp: luaC_barriert_def)
    then show ?thesis using bb(1,2) by simp
  next
    case False
    then have e: "luaC_barriert a v (luaC_barriert a k g) = g" by (auto simp: luaC_barriert_def)
    have "gc_inv g"
    proof (cases "g_gcstate g = GCSpropagate")
      case True
      show ?thesis
      proof (rule settle [OF i True b])
        assume bl: "isblack g a"
        then have "\<forall>x \<in> targets (vrefs k \<union> vrefs v). \<not> iswhite g x" using False l valiswhite_targets [of g] by (auto simp: targets_def)
        then show "a \<in> excused g \<or> ok g a" using r [OF True bl] by (auto simp: ok_targets)
      qed
    qed (rule outside_inv [OF i])
    then show ?thesis by (simp add: e)
  qed
  then show "gc_inv (luaC_barriert a v (luaC_barriert a k g))" "lives g (luaC_barriert a v (luaC_barriert a k g))" by blast+
qed

lemma set_body_lives:
  assumes "body g a = Some b" "same_kind b b'"
  shows "lives g (set_body a b' g)" "live (set_body a b' g) tt x = live g tt x" "iswhite (set_body a b' g) x = iswhite g x" "isblack (set_body a b' g) x = isblack g x"
proof -
  note v = rewrite_views [OF set_body_kind [OF assms]]
  show "live (set_body a b' g) tt x = live g tt x" for tt x by (rule v) simp_all
  then show "lives g (set_body a b' g)" by (simp add: lives_def)
  show "iswhite (set_body a b' g) x = iswhite g x" "isblack (set_body a b' g) x = isblack g x" by (simp_all add: iswhite_def isblack_def)
qed

text \<open>The object that is written to, after the write: only the new references may be white when it is black.\<close>

lemma written:
  assumes i: "gc_inv g" and b: "body g a = Some b" and k: "same_kind b b'" and t: "gc_tt b \<noteq> TTHREAD"
    and r: "brefs g b' \<subseteq> refs g a \<union> R" and l: "refs_live g R" and d: "\<not> isdead g a"
  defines "g' \<equiv> set_body a b' g"
  shows "inv_except {a} g'" "body g' a = Some b'" "refs_live g' R"
    "g_gcstate g' = GCSpropagate \<Longrightarrow> isblack g' a \<Longrightarrow> a \<notin> set (g_tmudata g') \<Longrightarrow> \<forall>x \<in> targets (refs g' a). x \<in> targets R \<or> \<not> iswhite g' x"
proof -
  have i0: "inv_except {} g" using i by (simp add: gc_inv_def)
  note sl = set_body_lives [OF b k]
  have rl: "refs_live g (brefs g b')" by (rule refs_live_mono [OF _ r]) (use l heap_refs [OF inv_heap [OF i0] d] in simp)
  show "inv_except {a} g'" using store_inv [OF i0 b k t rl] by (simp add: g'_def)
  show "body g' a = Some b'" using b by (simp add: g'_def body_set_body)
  show "refs_live g' R" using l sl(2) by (simp add: refs_live_def g'_def)
  have t': "gc_tt b' \<noteq> TTHREAD" using t k by (simp add: same_kind_def)
  have ra: "refs g' a = brefs g b'" using set_body_refs [OF b t t'] by (simp add: g'_def)
  assume p: "g_gcstate g' = GCSpropagate" "isblack g' a" "a \<notin> set (g_tmudata g')"
  then have "ok g a" using sl(4) by (intro black_ok [OF i _ b]) (simp_all add: g'_def)
  then show "\<forall>x \<in> targets (refs g' a). x \<in> targets R \<or> \<not> iswhite g' x"
    using r unfolding ra by (auto simp: ok_targets targets_def sl(3) g'_def)
qed

lemma table_store_inv:
  assumes i: "gc_inv g" and b: "body g a = Some (BTable h)" and d: "\<not> isdead g a"
    and r: "brefs g (BTable h') \<subseteq> refs g a \<union> (vrefs k \<union> vrefs v)" and l: "refs_live g (vrefs k \<union> vrefs v)"
  shows "gc_inv (table_store a h' k v g)" "lives g (table_store a h' k v g)"
proof -
  have kd: "same_kind (BTable h) (BTable h')" by (simp add: same_kind_def is_open_def)
  have nt: "gc_tt (BTable h) \<noteq> TTHREAD" by simp
  note w = written [OF i b kd nt r l d]
  have "a \<notin> set (g_tmudata g)" using i b by (auto simp: gc_inv_def inv_except_def heap_ok_def struct_def typed_at_def)
  then have n: "a \<notin> set (g_tmudata (set_body a (BTable h') g))" by simp
  have l': "refs_live (set_body a (BTable h') g) (vrefs k)" "refs_live (set_body a (BTable h') g) (vrefs v)" using w(3) by simp_all
  note t = barriert_twice [OF w(1,2) l' w(4)]
  show "gc_inv (table_store a h' k v g)" unfolding table_store_def by (rule t(1)) (use n in simp_all)
  show "lives g (table_store a h' k v g)" unfolding table_store_def
    by (rule lives_trans [OF set_body_lives(1) [OF b kd] t(2)]) (use n in simp_all)
qed

subsection \<open>The forward barrier\<close>

lemma forward_any:
  assumes i: "inv_except {p} g" and b: "body g p = Some b"
    and r: "g_gcstate g = GCSpropagate \<Longrightarrow> isblack g p \<Longrightarrow> p \<notin> set (g_tmudata g) \<Longrightarrow> \<forall>x \<in> targets (refs g p). x = v \<or> \<not> iswhite g x"
  shows "gc_inv (luaC_objbarrier p v g)" "lives g (luaC_objbarrier p v g)"
proof -
  have h: "heap_ok g" by (rule inv_heap [OF i])
  have "gc_inv (luaC_objbarrier p v g) \<and> lives g (luaC_objbarrier p v g)"
  proof (cases "g_gcstate g = GCSpropagate")
    case False
    have gi: "gc_inv g" by (rule outside_inv [OF i False])
    show ?thesis
    proof (cases "iswhite g v \<and> isblack g p")
      case True
      have d: "\<not> isdead g p" using black_alive [OF h] True by blast
      have e: "luaC_objbarrier p v g = makewhite p g" using True False by (simp add: luaC_objbarrier_def luaC_barrierf_def del: makewhite_def)
      have "inv_at (g_sweepgc g) (makewhite p g)" by (rule swept_makewhite [OF _ False _ d]) (use gi b in \<open>simp_all add: gc_inv_at\<close>)
      then have "gc_inv (makewhite p g)" by (simp add: gc_inv_at)
      moreover have "lives g (makewhite p g)" by (rule makewhite_lives [OF _ d]) (use h in \<open>simp add: heap_ok_def\<close>)
      ultimately show ?thesis unfolding e by blast
    next
      case False
      then have "luaC_objbarrier p v g = g" by (auto simp: luaC_objbarrier_def)
      then show ?thesis using gi by simp
    qed
  next
    case True
    have mk: "marking {p} g" using i True by (simp add: inv_except_def)
    have m: "marks g (luaC_objbarrier p v g)"
    proof (cases "iswhite g v \<and> isblack g p")
      case w: True
      then have e: "luaC_objbarrier p v g = really_mark 3 v g" using True by (simp add: luaC_objbarrier_def luaC_barrierf_def reallymarkobject_def)
      have "wb g" "typed g" using mk by (simp_all add: marking_def minv_def)
      then show ?thesis unfolding e using really_mark_marks [of g v 3] w rank_le_3 by auto
    next
      case False
      then have "luaC_objbarrier p v g = g" by (auto simp: luaC_objbarrier_def)
      then show ?thesis by simp
    qed
    have "lives g (luaC_objbarrier p v g)" using later_live [OF trav_later [OF marks_trav [OF m]]] by (simp add: lives_def)
    moreover have "gc_inv (luaC_objbarrier p v g)"
    proof (cases "isblack g p \<and> p \<in> set (g_tmudata g)")
      case True
      then have "gc_inv g" by (intro settle [OF i \<open>g_gcstate g = GCSpropagate\<close> b]) (simp add: excused_def)
      then have "inv_except {} (luaC_objbarrier p v g)" by (intro marks_inv [OF m _ \<open>g_gcstate g = GCSpropagate\<close>]) (simp add: gc_inv_def)
      then show ?thesis by (simp add: gc_inv_def)
    next
      case False
      show ?thesis
      proof (cases "isblack g p")
        case bl: True
        have "x \<in> targets (refs g p) \<Longrightarrow> x = v \<or> \<not> iswhite g x" for x using r [OF True bl] False bl by blast
        from barrierf_inv [OF i True b this] show ?thesis by (simp add: luaC_objbarrier_def)
      next
        case nb: False
        have "gc_inv g" by (rule settle [OF i True b]) (use nb in simp)
        moreover have "luaC_objbarrier p v g = g" using nb by (simp add: luaC_objbarrier_def)
        ultimately show ?thesis by simp
      qed
    qed
    ultimately show ?thesis by blast
  qed
  then show "gc_inv (luaC_objbarrier p v g)" "lives g (luaC_objbarrier p v g)" by blast+
qed

subsection \<open>The operations\<close>

lemma inv_except_mono: "inv_except D g \<Longrightarrow> inv_except (D \<union> E) g"
proof -
  have "excused g \<union> D \<subseteq> excused g \<union> (D \<union> E)" by blast
  then show "inv_except D g \<Longrightarrow> inv_except (D \<union> E) g" using tri_mono [of g "excused g \<union> D"] by (auto simp: inv_except_def marking_def)
qed

lemma value_barrier:
  assumes i: "inv_except {p} g" and b: "body g p = Some b" and l: "refs_live g (vrefs v)"
    and r: "g_gcstate g = GCSpropagate \<Longrightarrow> isblack g p \<Longrightarrow> p \<notin> set (g_tmudata g) \<Longrightarrow> \<forall>x \<in> targets (refs g p). x \<in> targets (vrefs v) \<or> \<not> iswhite g x"
  shows "gc_inv (luaC_barrier p v g)" "lives g (luaC_barrier p v g)"
proof -
  have "gc_inv (luaC_barrier p v g) \<and> lives g (luaC_barrier p v g)"
  proof (cases "\<exists>tt x. v = GObj tt x")
    case True
    then obtain tt x where x: "v = GObj tt x" by blast
    then have e: "luaC_barrier p v g = luaC_objbarrier p x g" by (simp add: luaC_barrier_def luaC_objbarrier_def valiswhite_def)
    have "targets (vrefs v) = {x}" using x by (simp add: targets_def)
    then show ?thesis unfolding e using forward_any [OF i b, of x] r by simp
  next
    case False
    then have e: "luaC_barrier p v g = g" by (cases v) (simp_all add: luaC_barrier_def)
    have "targets (vrefs v) = {}" using False l by (cases v) (auto simp: targets_def refs_live_def dest: live_tag)
    then have "gc_inv g" using settle [OF i _ b] outside_inv [OF i] r by (fastforce simp: ok_targets excused_def)
    then show ?thesis by (simp add: e)
  qed
  then show "gc_inv (luaC_barrier p v g)" "lives g (luaC_barrier p v g)" by blast+
qed

lemma mt_inv:
  assumes i: "gc_inv g" and m: "refs_live g (orefs TTABLE mt)"
  shows "gc_inv (g\<lparr>g_mt := (g_mt g)[tt := mt]\<rparr>)" "lives g (g\<lparr>g_mt := (g_mt g)[tt := mt]\<rparr>)"
proof -
  let ?r = "g\<lparr>g_mt := (g_mt g)[tt := mt]\<rparr>"
  have i0: "inv_except {} g" using i by (simp add: gc_inv_def)
  have v: "body ?r = body g" by simp
  have ro: "roots ?r \<subseteq> roots g \<union> orefs TTABLE mt"
    using set_update_subset_insert [of "g_mt g" tt mt] by (auto simp: roots_def mt_refs_def)
  have "inv_except ({} \<union> {}) ?r"
  proof (rule rewrite_inv [OF i0])
    show "rel_option same_kind (body g x) (body ?r x)" for x by (cases "body g x") simp_all
    show "refs_live g (roots ?r)" by (rule refs_live_mono [OF _ ro]) (use m heap_roots [OF inv_heap [OF i0]] in simp)
  qed (use heap_refs [OF inv_heap [OF i0]] refs_cong [OF v] in \<open>simp_all add: same_collector_def\<close>)
  then show "gc_inv ?r" by (simp add: gc_inv_def)
  show "lives g ?r" by (simp add: lives_def live_def typed_at_def isdead_def otherwhite_def)
qed

lemma body_cases:
  assumes "typed_at g tt a"
  shows "tt = TTABLE \<Longrightarrow> \<exists>h. body g a = Some (BTable h)" "tt = TTHREAD \<Longrightarrow> \<exists>t. body g a = Some (BThread t)" "tt = TUPVAL \<Longrightarrow> \<exists>u. body g a = Some (BUpval u)"
    "tt = TFUNCTION \<Longrightarrow> \<exists>c. body g a = Some (BFunction c)" "tt = TPROTO \<Longrightarrow> \<exists>p. body g a = Some (BProto p)"
  using assms by (auto simp: typed_at_def elim: gc_tt.elims)

lemma setmetatable_inv:
  assumes i: "gc_inv g" and o: "refs_live g (vrefs obj)" and m: "refs_live g (orefs TTABLE mt)"
  shows "gc_inv (lua_setmetatable_obj obj tt mt g)" "lives g (lua_setmetatable_obj obj tt mt g)"
proof -
  have i0: "inv_except {} g" using i by (simp add: gc_inv_def)
  have "gc_inv (lua_setmetatable_obj obj tt mt g) \<and> lives g (lua_setmetatable_obj obj tt mt g)"
  proof (cases "\<exists>s a. obj = GObj s a")
    case True
    then obtain s a where a: "obj = GObj s a" by blast
    then have nd: "\<not> isdead g a" using o by (auto simp: refs_live_def live_def split: if_splits)
    consider h where "body g a = Some (BTable h)" | mt0 e n where "body g a = Some (BUdata mt0 e n)"
      | "lua_setmetatable_obj obj tt mt g = g\<lparr>g_mt := (g_mt g)[tt := mt]\<rparr>"
    proof (cases "body g a")
      case (Some b)
      then show ?thesis using that a by (cases b) (simp_all add: lua_setmetatable_obj_def)
    qed (use that(3) a in \<open>simp add: lua_setmetatable_obj_def\<close>)
    then show ?thesis
    proof cases
      case (1 h)
      let ?b = "BTable (h\<lparr>h_metatable := mt\<rparr>)"
      have k: "same_kind (BTable h) ?b" "gc_tt (BTable h) \<noteq> TTHREAD" by (simp_all add: same_kind_def is_open_def)
      have r: "brefs g ?b \<subseteq> refs g a \<union> orefs TTABLE mt" using 1 by (auto simp: refs_def)
      note w = written [OF i 1 k r m nd]
      have nt: "a \<notin> set (g_tmudata g)" using i 1 by (auto simp: gc_inv_def inv_except_def heap_ok_def struct_def typed_at_def)
      let ?v = "case mt of None \<Rightarrow> GNil | Some x \<Rightarrow> GObj TTABLE x"
      have vr: "vrefs ?v = orefs TTABLE mt" by (cases mt) (simp_all add: orefs_def)
      have e: "lua_setmetatable_obj obj tt mt g = luaC_barriert a ?v (luaC_barriert a GNil (set_body a ?b g))"
        using a 1 by (cases mt) (simp_all add: lua_setmetatable_obj_def luaC_barriert_def luaC_objbarriert_def valiswhite_def Let_def)
      have "refs_live (set_body a ?b g) (vrefs ?v)" using w(3) vr by simp
      note t = barriert_twice [OF w(1,2) _ this]
      have "gc_inv (lua_setmetatable_obj obj tt mt g)" unfolding e by (rule t(1)) (use w(4) nt vr in simp_all)
      moreover have "lives g (lua_setmetatable_obj obj tt mt g)" unfolding e
        by (rule lives_trans [OF set_body_lives(1) [OF 1 k(1)] t(2)]) (use w(4) nt vr in simp_all)
      ultimately show ?thesis by blast
    next
      case (2 mt0 e n)
      let ?b = "BUdata mt e n"
      have k: "same_kind (BUdata mt0 e n) ?b" "gc_tt (BUdata mt0 e n) \<noteq> TTHREAD" by (simp_all add: same_kind_def is_open_def)
      have r: "brefs g ?b \<subseteq> refs g a \<union> orefs TTABLE mt" using 2 by (auto simp: refs_def)
      note w = written [OF i 2 k r m nd]
      let ?v = "case mt of None \<Rightarrow> GNil | Some x \<Rightarrow> GObj TTABLE x"
      have vr: "vrefs ?v = orefs TTABLE mt" by (cases mt) (simp_all add: orefs_def)
      have e: "lua_setmetatable_obj obj tt mt g = luaC_barrier a ?v (set_body a ?b g)"
        using a 2 by (cases mt) (simp_all add: lua_setmetatable_obj_def luaC_barrier_def luaC_objbarrier_def valiswhite_def Let_def)
      have "refs_live (set_body a ?b g) (vrefs ?v)" using w(3) vr by simp
      note t = value_barrier [OF w(1,2) this]
      have "gc_inv (lua_setmetatable_obj obj tt mt g)" unfolding e by (rule t(1)) (use w(4) vr in simp_all)
      moreover have "lives g (lua_setmetatable_obj obj tt mt g)" unfolding e
        by (rule lives_trans [OF set_body_lives(1) [OF 2 k(1)] t(2)]) (use w(4) vr in simp_all)
      ultimately show ?thesis by blast
    next
      case 3
      then show ?thesis using mt_inv [OF i m] by simp
    qed
  next
    case False
    then have "lua_setmetatable_obj obj tt mt g = g\<lparr>g_mt := (g_mt g)[tt := mt]\<rparr>" by (cases obj) (simp_all add: lua_setmetatable_obj_def)
    then show ?thesis using mt_inv [OF i m] by simp
  qed
  then show "gc_inv (lua_setmetatable_obj obj tt mt g)" "lives g (lua_setmetatable_obj obj tt mt g)" by blast+
qed

lemma write_value_inv:
  assumes i: "gc_inv g" and b: "body g a = Some b" and k: "same_kind b b'" and t: "gc_tt b \<noteq> TTHREAD"
    and r: "brefs g b' \<subseteq> refs g a \<union> vrefs v" and l: "refs_live g (vrefs v)" and d: "\<not> isdead g a"
  shows "gc_inv (luaC_barrier a v (set_body a b' g))" "lives g (luaC_barrier a v (set_body a b' g))"
proof -
  note w = written [OF i b k t r l d]
  note vb = value_barrier [OF w(1,2,3,4)]
  show "gc_inv (luaC_barrier a v (set_body a b' g))" by (rule vb(1))
  show "lives g (luaC_barrier a v (set_body a b' g))" by (rule lives_trans [OF set_body_lives(1) [OF b k] vb(2)])
qed

lemma gc_inv_except: "gc_inv g \<Longrightarrow> inv_except E g"
  using inv_except_mono [of "{}" g E] by (simp add: gc_inv_def)

lemma never_black:
  assumes i: "gc_inv g" and b: "body g a = Some c" and p: "g_gcstate g = GCSpropagate" and k: "gc_tt c = TTHREAD \<or> is_open c"
  shows "\<not> isblack g a"
proof
  assume bl: "isblack g a"
  have mk: "marking {} g" and h: "heap_ok g" using i p by (simp_all add: gc_inv_def inv_except_def)
  then have "shades g" "\<not> iswhite g a" using bl by (auto simp: marking_def minv_def heap_ok_def colours_def wb_def)
  then show False using shadesD [OF _ b] k bl is_open_kind [of c] by (auto simp: gray_kind_def split: if_splits)
qed

lemma setfenv_inv:
  assumes i: "gc_inv g" and d: "\<not> isdead g a" and e: "live g TTABLE e"
  shows "gc_inv (lua_setfenv_obj a e g)" "lives g (lua_setfenv_obj a e g)"
proof -
  have l: "refs_live g (vrefs (GObj TTABLE e))" using e by (simp add: refs_live_def)
  have eq: "luaC_objbarrier a e k = luaC_barrier a (GObj TTABLE e) k" for k by (simp add: luaC_barrier_def luaC_objbarrier_def valiswhite_def)
  have wr: "gc_inv (luaC_objbarrier a e (set_body a b' g)) \<and> lives g (luaC_objbarrier a e (set_body a b' g))"
    if b: "body g a = Some b" and k: "same_kind b b'" "gc_tt b \<noteq> TTHREAD" "brefs g b' \<subseteq> refs g a \<union> vrefs (GObj TTABLE e)" for b b'
    unfolding eq using write_value_inv [OF i b k l d] by blast
  have "gc_inv (lua_setfenv_obj a e g) \<and> lives g (lua_setfenv_obj a e g)"
  proof (cases "body g a")
    case (Some b)
    show ?thesis
    proof (cases b)
      case (BFunction c)
      show ?thesis
      proof (cases c)
        case (CCl e0 vs)
        then show ?thesis using wr [OF Some, of "BFunction (CCl e vs)"] Some BFunction by (auto simp: lua_setfenv_obj_def same_kind_def is_open_def refs_def)
      next
        case (LCl e0 p us)
        then show ?thesis using wr [OF Some, of "BFunction (LCl e p us)"] Some BFunction by (auto simp: lua_setfenv_obj_def same_kind_def is_open_def refs_def)
      qed
    next
      case (BUdata mt e0 n)
      then show ?thesis using wr [OF Some, of "BUdata mt e n"] Some by (auto simp: lua_setfenv_obj_def same_kind_def is_open_def refs_def)
    next
      case (BThread t)
      then have b: "body g a = Some (BThread t)" using Some by simp
      let ?t = "t\<lparr>th_gt := GObj TTABLE e\<rparr>" let ?r = "set_body a (BThread (t\<lparr>th_gt := GObj TTABLE e\<rparr>)) g"
      have h: "heap_ok g" using i by (simp add: gc_inv_def inv_except_def)
      have "brefs g (BThread ?t) \<subseteq> refs g a \<union> vrefs (GObj TTABLE e)" using b by (auto simp: refs_def)
      then have "refs_live g (brefs g (BThread ?t))" by (rule refs_live_mono [rotated]) (unfold refs_live_Un, intro conjI l heap_refs [OF h d])
      then have ir: "gc_inv ?r" by (intro stack_inv [OF i b]) (simp_all add: stack_slot_def)
      have k: "same_kind (BThread t) (BThread ?t)" by (simp add: same_kind_def is_open_def)
      have br: "body ?r a = Some (BThread ?t)" using b by (simp add: body_set_body)
      have nb: "g_gcstate ?r = GCSpropagate \<Longrightarrow> \<not> isblack ?r a" by (rule never_black [OF ir br]) simp_all
      have f: "gc_inv (luaC_objbarrier a e ?r)" "lives ?r (luaC_objbarrier a e ?r)"
        by (rule forward_any [OF gc_inv_except [OF ir] br]; use nb in blast)+
      have eq: "lua_setfenv_obj a e g = luaC_objbarrier a e ?r" using b by (simp add: lua_setfenv_obj_def)
      show ?thesis unfolding eq using f(1) lives_trans [OF set_body_lives(1) [OF b k] f(2)] by blast
    qed (use i Some in \<open>simp_all add: lua_setfenv_obj_def\<close>)
  qed (use i in \<open>simp add: lua_setfenv_obj_def\<close>)
  then show "gc_inv (lua_setfenv_obj a e g)" "lives g (lua_setfenv_obj a e g)" by blast+
qed

lemma slot_update: "stack_slot (t\<lparr>th_stack := (th_stack t)[i := v]\<rparr>) j = (if j = i \<and> i < length (th_stack t) then v else stack_slot t j)"
  by (simp add: stack_slot_def)

lemma slot_write_inv:
  fixes n :: nat
  assumes i: "gc_inv g" and b: "body g th = Some (BThread t)" and l: "refs_live g (vrefs v)"
  defines "g' \<equiv> set_body th (BThread (t\<lparr>th_stack := (th_stack t)[n := v]\<rparr>)) g"
  shows "gc_inv g'" "lives g g'"
proof -
  let ?t = "t\<lparr>th_stack := (th_stack t)[n := v]\<rparr>"
  have h: "heap_ok g" using i by (simp add: gc_inv_def inv_except_def)
  have "set (take (th_top t) ((th_stack t)[n := v])) \<subseteq> set (take (th_top t) (th_stack t)) \<union> {v}"
    using set_update_subset_insert [of "take (th_top t) (th_stack t)" n v] by (simp add: take_update_swap)
  from UN_mono [OF this order_refl, of vrefs]
  have "(\<Union>w \<in> set (take (th_top ?t) (th_stack ?t)). vrefs w) \<subseteq> (\<Union>w \<in> set (take (th_top t) (th_stack t)) \<union> {v}. vrefs w)" by simp
  then have sub: "brefs g (BThread ?t) \<subseteq> brefs g (BThread t) \<union> vrefs v" unfolding brefs.simps UN_Un by auto
  have bt: "refs_live g (brefs g (BThread t))" if "\<not> isdead g th" using heap_refs [OF h that] b by (simp add: refs_def)
  show "gc_inv g'" unfolding g'_def
  proof (rule stack_inv [OF i b])
    assume d: "\<not> isdead g th"
    show "refs_live g (brefs g (BThread ?t))" by (rule refs_live_mono [OF _ sub]) (unfold refs_live_Un, intro conjI l bt [OF d])
  qed (simp_all add: slot_update l)
  have "same_kind (BThread t) (BThread ?t)" by (simp add: same_kind_def is_open_def)
  then show "lives g g'" unfolding g'_def by (rule set_body_lives(1) [OF b])
qed

lemma setupval_inv:
  assumes i: "gc_inv g" and u: "live g TUPVAL u" and l: "refs_live g (vrefs v)"
  shows "gc_inv (op_setupval u v g)" "lives g (op_setupval u v g)"
proof -
  have d: "\<not> isdead g u" and "typed_at g TUPVAL u" using u by (simp_all add: live_def)
  then obtain uv where uv: "body g u = Some (BUpval uv)" using body_cases(3) by blast
  have "gc_inv (op_setupval u v g) \<and> lives g (op_setupval u v g)"
  proof (cases uv)
    case (UClosed w)
    have k: "same_kind (BUpval uv) (BUpval (UClosed v))" "gc_tt (BUpval uv) \<noteq> TTHREAD" using UClosed by (simp_all add: same_kind_def is_open_def)
    have "brefs g (BUpval (UClosed v)) \<subseteq> refs g u \<union> vrefs v" by simp
    from write_value_inv [OF i uv k this l d] show ?thesis using uv UClosed by (simp add: op_setupval_def set_upval_def)
  next
    case (UOpen th n)
    have ou: "is_open (BUpval uv)" using UOpen by (simp add: is_open_def)
    have st: "struct g" using i by (simp add: gc_inv_def inv_except_def heap_ok_def)
    have "u \<in> open_at g th" using uv UOpen by (auto simp: open_at_def)
    then obtain t where t: "body g th = Some (BThread t)" using open_at_thread [OF st] by blast
    let ?r = "set_body th (BThread (t\<lparr>th_stack := (th_stack t)[n := v]\<rparr>)) g"
    note sw = slot_write_inv [OF i t l, of n]
    have br: "body ?r u = Some (BUpval uv)" using uv t by (auto simp: body_set_body)
    have lr: "refs_live ?r (vrefs v)" by (rule lives_refs [OF sw(2) l])
    have nb: "g_gcstate ?r = GCSpropagate \<Longrightarrow> \<not> isblack ?r u" by (rule never_black [OF sw(1) br]) (use ou in simp_all)
    have f: "gc_inv (luaC_barrier u v ?r)" "lives ?r (luaC_barrier u v ?r)"
      by (rule value_barrier [OF gc_inv_except [OF sw(1)] br lr]; use nb in blast)+
    have "op_setupval u v g = luaC_barrier u v ?r" using uv UOpen t by (simp add: op_setupval_def set_upval_def)
    then show ?thesis using f(1) lives_trans [OF sw(2) f(2)] by simp
  qed
  then show "gc_inv (op_setupval u v g)" "lives g (op_setupval u v g)" by blast+
qed

lemma setupvalue_c_inv:
  assumes i: "gc_inv g" and b: "body g f = Some (BFunction (CCl e vs))" and d: "\<not> isdead g f" and l: "refs_live g (vrefs v)"
  shows "gc_inv (lua_setupvalue_obj f n v g)" "lives g (lua_setupvalue_obj f n v g)"
proof -
  have "gc_inv (lua_setupvalue_obj f n v g) \<and> lives g (lua_setupvalue_obj f n v g)"
  proof (cases "1 \<le> n \<and> n \<le> length vs")
    case True
    have k: "same_kind (BFunction (CCl e vs)) (BFunction (CCl e (vs[n - 1 := v])))" "gc_tt (BFunction (CCl e vs)) \<noteq> TTHREAD" by (simp_all add: same_kind_def is_open_def)
    have "brefs g (BFunction (CCl e (vs[n - 1 := v]))) \<subseteq> refs g f \<union> vrefs v"
      using set_update_subset_insert [of vs "n - 1" v] b by (auto simp: refs_def)
    from write_value_inv [OF i b k this l d] show ?thesis using b True by (simp add: lua_setupvalue_obj_def)
  qed (use i b in \<open>auto simp: lua_setupvalue_obj_def\<close>)
  then show "gc_inv (lua_setupvalue_obj f n v g)" "lives g (lua_setupvalue_obj f n v g)" by blast+
qed

text \<open>An object that is not black, such as one just made, is filled without a barrier.\<close>

lemma fill_inv:
  assumes i: "gc_inv g" and b: "body g a = Some b" and k: "same_kind b b'" and t: "gc_tt b \<noteq> TTHREAD" and n: "\<not> isblack g a" and r: "refs_live g (brefs g b')"
  shows "gc_inv (set_body a b' g)" "lives g (set_body a b' g)"
proof -
  have "inv_except {} g" using i by (simp add: gc_inv_def)
  from store_inv [OF this b k t r] have s: "inv_except {a} (set_body a b' g)" by simp
  note sl = set_body_lives [OF b k]
  have br: "body (set_body a b' g) a = Some b'" using b by (simp add: body_set_body)
  show "gc_inv (set_body a b' g)"
  proof (cases "g_gcstate g = GCSpropagate")
    case True
    then show ?thesis using sl(4) n by (intro settle [OF s _ br]) simp_all
  next
    case False
    then show ?thesis by (intro outside_inv [OF s]) simp
  qed
  show "lives g (set_body a b' g)" by (rule sl(1))
qed

end
