(* ===== verification/Lua_Gc_Run.thy ===== *)
theory Lua_Gc_Run
  imports Lua_Lex Lua_Gc_Write
begin

text \<open>Runs: the program and the collector take turns on the heap. A run starts in the state of \<open>lua_newstate\<close>.\<close>

subsection \<open>The program\<close>

text \<open>
  Besides the heap a state has the references the C code holds in its variables. The program uses what can be reached from the roots and what it holds, and
  holds what it makes. Its steps are the operations of \<open>Lua_Gc_Mutator\<close>; where the collector does not look, a step is as free as the invariant allows: a
  table may be rearranged, a stack may change in many places at once.
\<close>

type_synonym held = "(nat \<times> addr) set"

definition has :: "held \<Rightarrow> gstate \<Rightarrow> (nat \<times> addr) set \<Rightarrow> bool" where
  "has C g R \<longleftrightarrow> (\<forall>x \<in> R. x \<in> C \<or> reach g x)"

inductive mutate :: "held \<times> gstate \<Rightarrow> held \<times> gstate \<Rightarrow> bool" where
  m_load: "has C g D \<Longrightarrow> mutate (C, g) (D, g)"
| m_table: "body g a = None \<Longrightarrow> mutate (C, g) (insert (TTABLE, a) C, luaH_new_obj a narray nhash g)"
| m_cclosure: "body g a = None \<Longrightarrow> has C g ({(TTABLE, e)} \<union> (\<Union>v \<in> set vs. vrefs v)) \<Longrightarrow> mutate (C, g) (insert (TFUNCTION, a) C, lua_pushcclosure_obj a e vs g)"
| m_lclosure: "body g a = None \<Longrightarrow> has C g ({(TTABLE, e), (TPROTO, p)} \<union> Pair TUPVAL ` set us) \<Longrightarrow>
    mutate (C, g) (insert (TFUNCTION, a) C, luaF_newLclosure a e p us g)"
| m_upval: "body g a = None \<Longrightarrow> mutate (C, g) (insert (TUPVAL, a) C, luaF_newupval a g)"
| m_proto: "body g a = None \<Longrightarrow> mutate (C, g) (insert (TPROTO, a) C, luaF_newproto a g)"
| m_fill: "has C g {(TPROTO, a)} \<Longrightarrow> body g a = Some (BProto f) \<Longrightarrow> \<not> isblack g a \<Longrightarrow> has C g (brefs g (BProto f')) \<Longrightarrow>
    mutate (C, g) (C, set_body a (BProto f') g)"
| m_thread: "body g a = None \<Longrightarrow> mutate (C, g) (insert (TTHREAD, a) C, luaE_newthread a g)"
| m_udata: "body g a = None \<Longrightarrow> has C g {(TTABLE, e)} \<Longrightarrow> luaS_newudata a s e g = Some g' \<Longrightarrow> mutate (C, g) (insert (TUSERDATA, a) C, g')"
| m_string: "body g a = None \<Longrightarrow> luaS_newlstr_obj a s g = Some (p, g') \<Longrightarrow> mutate (C, g) (insert (TSTRING, p) C, g')"
| m_findupval: "body g a = None \<Longrightarrow> has C g {(TTHREAD, th)} \<Longrightarrow> body g th = Some (BThread t) \<Longrightarrow> level < th_top t \<Longrightarrow>
    luaF_findupval a th level g = (p, g') \<Longrightarrow> mutate (C, g) (insert (TUPVAL, p) C, g')"
| m_stack: "body g th = Some (BThread t) \<Longrightarrow> th_openupval t' = th_openupval t \<Longrightarrow> has C g (brefs g (BThread t')) \<Longrightarrow>
    (\<And>i. has C g (vrefs (stack_slot t' i)) \<or> stack_slot t' i = stack_slot t i) \<Longrightarrow> mutate (C, g) (C, set_body th (BThread t') g)"
| m_close: "mutate (C, g) (C, luaF_close th level g)"
| m_rawset: "has C g {(TTABLE, a)} \<Longrightarrow> body g a = Some (BTable h) \<Longrightarrow> has C g (vrefs k \<union> vrefs v) \<Longrightarrow>
    brefs g (BTable h') \<subseteq> brefs g (BTable h) \<union> vrefs k \<union> vrefs v \<Longrightarrow> mutate (C, g) (C, table_store a h' k v g)"
| m_setmetatable: "has C g (vrefs obj) \<Longrightarrow> has C g (orefs TTABLE mt) \<Longrightarrow> mutate (C, g) (C, lua_setmetatable_obj obj tt mt g)"
| m_setfenv: "has C g {(tt, a), (TTABLE, e)} \<Longrightarrow> mutate (C, g) (C, lua_setfenv_obj a e g)"
| m_setupval: "has C g ({(TUPVAL, u)} \<union> vrefs v) \<Longrightarrow> mutate (C, g) (C, op_setupval u v g)"
| m_setupvalue: "has C g ({(TFUNCTION, f)} \<union> vrefs v) \<Longrightarrow> body g f = Some (BFunction (CCl e vs)) \<Longrightarrow> mutate (C, g) (C, lua_setupvalue_obj f n v g)"
| m_resume: "has C g {(TTHREAD, th)} \<Longrightarrow> mutate (C, g) (C, g\<lparr>g_L := th\<rparr>)"
| m_params: "mutate (C, g) (C, g\<lparr>g_totalbytes := b, g_estimate := e, g_GCthreshold := t, g_gcdept := d, g_gcpause := p, g_gcstepmul := m, g_buffsize := z\<rparr>)"

subsection \<open>The collector\<close>

text \<open>
  The C code holds no reference to a collectable object over a step of the collector that is not in the heap too. The call of a finalizer is left to the
  program: \<open>GCTM\<close> has pushed the function and its argument.
\<close>

inductive collect :: "held \<times> gstate \<Rightarrow> held \<times> gstate \<Rightarrow> bool" where
  c_step: "collect (C, g) ({}, snd (singlestep id g))"
| c_full: "collect (C, g) ({}, fullgc_reset g)"
| c_mark: "g_gcstate g = GCSfinalize \<Longrightarrow> collect (C, g) ({}, markroot g)"

definition run :: "held \<times> gstate \<Rightarrow> held \<times> gstate \<Rightarrow> bool" where
  "run = (\<lambda>s s'. mutate s s' \<or> collect s s')\<^sup>*\<^sup>*"

definition safe :: "held \<times> gstate \<Rightarrow> bool" where
  "safe s \<longleftrightarrow> gc_inv (snd s) \<and> refs_live (snd s) (fst s)"

lemma has_live: "safe (C, g) \<Longrightarrow> has C g R \<Longrightarrow> refs_live g R"
  using reach_live by (fastforce simp: safe_def has_def refs_live_def)

lemma safe_new: "safe (C, g) \<Longrightarrow> gc_inv g' \<Longrightarrow> (\<And>tt x. live g tt x \<Longrightarrow> live g' tt x) \<Longrightarrow> live g' t a \<Longrightarrow> safe (insert (t, a) C, g')"
  by (auto simp: safe_def refs_live_def)

lemma safe_same: "safe (C, g) \<Longrightarrow> gc_inv g' \<Longrightarrow> lives g g' \<Longrightarrow> safe (C, g')"
  using lives_refs by (auto simp: safe_def)

lemma safe_link:
  assumes s: "safe (C, g)" and a: "body g a = None" and k: "gc_tt b \<noteq> TSTRING" "\<not> is_open b" and t: "\<And>t. b = BThread t \<Longrightarrow> th_openupval t = []"
    and r: "refs_live g (brefs g b)" and u: "\<And>uv. b = BUpval uv \<Longrightarrow> brefs (luaC_link a b g) b = brefs g b"
  shows "safe (insert (gc_tt b, a) C, luaC_link a b g)"
proof -
  have "brefs (luaC_link a b g) b = brefs g b" using u by (cases "(g, b)" rule: brefs.cases) auto
  then have rl: "refs_live g (brefs (luaC_link a b g) b)" using r by simp
  have i: "gc_inv g" using s by (simp add: safe_def)
  show ?thesis by (rule safe_new [OF s link_inv [OF i a k t rl]])
qed

lemma brefs_nil: "refs_live g R \<Longrightarrow> refs_live g (R \<union> (\<Union>n \<in> set (replicate k (GNil, GNil)). nrefs n))"
  by (auto simp: nrefs_def refs_live_def)

text \<open>Every step of the program keeps the invariant, and what it holds stays alive.\<close>

lemma mutate_safe: "mutate s s' \<Longrightarrow> safe s \<Longrightarrow> safe s'"
proof (induction rule: mutate.induct)
  case (m_load C g D)
  then show ?case using has_live [OF m_load.prems m_load.hyps] by (simp add: safe_def)
next
  case (m_table g a C narray nhash)
  show ?case unfolding luaH_new_obj_def
    by (rule safe_link [OF m_table.prems m_table.hyps, where b = "BTable t" for t, simplified gc_tt.simps])
      (auto simp: is_open_def orefs_def nrefs_def refs_live_def)
next
  case (m_cclosure g a C e vs)
  let ?b = "BFunction (CCl e (replicate (length vs) GNil))" and ?b' = "BFunction (CCl e vs)" and ?k = "luaF_newCclosure a (length vs) e g"
  have l: "refs_live g ({(TTABLE, e)} \<union> (\<Union>v \<in> set vs. vrefs v))" by (rule has_live [OF m_cclosure.prems m_cclosure.hyps(2)])
  then have e: "refs_live g {(TTABLE, e)}" by (rule refs_live_mono) simp
  have sk: "safe (insert (TFUNCTION, a) C, ?k)" unfolding luaF_newCclosure_def
    by (rule safe_link [OF m_cclosure.prems m_cclosure.hyps(1), where b = ?b, simplified gc_tt.simps]) (use e in \<open>auto simp: is_open_def refs_live_def\<close>)
  have ad: "adds g a ?b ?k" unfolding luaF_newCclosure_def by (rule link_adds [OF m_cclosure.hyps(1)])
  have i: "gc_inv ?k" using sk by (simp add: safe_def)
  have b: "body ?k a = Some ?b" by (rule adds_new(2) [OF ad])
  have kd: "same_kind ?b ?b'" "gc_tt ?b \<noteq> TTHREAD" by (simp_all add: same_kind_def is_open_def)
  have c: "cw_ok g" using m_cclosure.prems by (simp add: safe_def gc_inv_def inv_except_def heap_ok_def)
  have n: "\<not> isblack ?k a" using adds_current [OF ad c] by blast
  have "refs_live ?k (brefs ?k ?b')" using adds_refs_live [OF ad l] by simp
  note f = fill_inv [OF i b kd n this]
  show ?case unfolding lua_pushcclosure_obj_def by (rule safe_same [OF sk f])
next
  case (m_lclosure g a C e p us)
  have l: "refs_live g (brefs g (BFunction (LCl e p us)))" using has_live [OF m_lclosure.prems m_lclosure.hyps(2)] by simp
  show ?case unfolding luaF_newLclosure_def
    by (rule safe_link [OF m_lclosure.prems m_lclosure.hyps(1) _ _ _ l, simplified gc_tt.simps]) (simp_all add: is_open_def)
next
  case (m_upval g a C)
  show ?case unfolding luaF_newupval_def
    by (rule safe_link [OF m_upval.prems m_upval.hyps, where b = "BUpval (UClosed GNil)", simplified gc_tt.simps]) (simp_all add: is_open_def)
next
  case (m_proto g a C)
  show ?case unfolding luaF_newproto_def
    by (rule safe_link [OF m_proto.prems m_proto.hyps, where b = "BProto f" for f, simplified gc_tt.simps]) (simp_all add: is_open_def orefs_def)
next
  case (m_fill C g a f f')
  have i: "gc_inv g" using m_fill.prems by (simp add: safe_def)
  have kd: "same_kind (BProto f) (BProto f')" "gc_tt (BProto f) \<noteq> TTHREAD" by (simp_all add: same_kind_def is_open_def)
  note f = fill_inv [OF i m_fill.hyps(2) kd m_fill.hyps(3) has_live [OF m_fill.prems m_fill.hyps(4)]]
  show ?case by (rule safe_same [OF m_fill.prems f])
next
  case (m_thread g a C)
  let ?t = "(stack_init preinit_state)\<lparr>th_gt := thread_gt (g_L g) g\<rparr>"
  have h: "heap_ok g" using m_thread.prems by (simp add: safe_def gc_inv_def inv_except_def)
  have "live g TTHREAD (g_L g)" by (rule refs_liveD [OF heap_roots [OF h]]) (simp add: roots_def)
  then have "refs_live g (refs g (g_L g))" by (intro heap_refs [OF h]) (simp add: live_def)
  then have "refs_live g (vrefs (thread_gt (g_L g) g))" by (rule refs_live_mono) (auto simp: thread_gt_def refs_def split: option.split gbody.split)
  then have l: "refs_live g (brefs g (BThread ?t))" by (simp add: stack_init_def preinit_state_def take_Cons' BASIC_STACK_SIZE_def EXTRA_STACK_def)
  show ?case unfolding luaE_newthread_def
    by (rule safe_link [OF m_thread.prems m_thread.hyps _ _ _ l, simplified gc_tt.simps]) (auto simp: is_open_def stack_init_def preinit_state_def)
next
  case (m_udata g a C e s g')
  have i: "gc_inv g" using m_udata.prems by (simp add: safe_def)
  have "live g TTABLE e" using has_live [OF m_udata.prems m_udata.hyps(2)] by (simp add: refs_live_def)
  from newudata_inv [OF i m_udata.hyps(1) this m_udata.hyps(3)] show ?case by (intro safe_new [OF m_udata.prems])
next
  case (m_string g a s p g' C)
  have i: "gc_inv g" using m_string.prems by (simp add: safe_def)
  from luaS_newlstr_inv [OF i m_string.hyps] show ?case by (intro safe_new [OF m_string.prems])
next
  case (m_findupval g a C th t level p g')
  have i: "gc_inv g" using m_findupval.prems by (simp add: safe_def)
  then have h: "heap_ok g" by (simp add: gc_inv_def inv_except_def)
  have "live g TTHREAD th" using has_live [OF m_findupval.prems m_findupval.hyps(2)] by (simp add: refs_live_def)
  then have "refs_live g (refs g th)" by (intro heap_refs [OF h]) (simp add: live_def)
  moreover have "vrefs (stack_slot t level) \<subseteq> refs g th"
  proof (cases "level < length (th_stack t)")
    case True
    then have "stack_slot t level \<in> set (take (th_top t) (th_stack t))" using m_findupval.hyps(4) by (auto simp: stack_slot_def in_set_conv_nth)
    then show ?thesis using m_findupval.hyps(3) by (auto simp: refs_def)
  qed (simp add: stack_slot_def)
  ultimately have "refs_live g (vrefs (stack_slot t level))" by (rule refs_live_mono)
  from findupval_inv [OF i m_findupval.hyps(1,3) this m_findupval.hyps(5)] show ?case by (intro safe_new [OF m_findupval.prems])
next
  case (m_stack g th t t' C)
  have i: "gc_inv g" using m_stack.prems by (simp add: safe_def)
  have "gc_inv (set_body th (BThread t') g)"
    by (rule stack_inv [OF i m_stack.hyps(1,2)]) (use has_live [OF m_stack.prems] m_stack.hyps(3,4) in blast)+
  moreover have "same_kind (BThread t) (BThread t')" using m_stack.hyps(2) by (simp add: same_kind_def is_open_def)
  ultimately show ?case using set_body_lives(1) [OF m_stack.hyps(1)] by (intro safe_same [OF m_stack.prems])
next
  case (m_close C g th level)
  then have "inv_at (g_sweepgc g) g" by (simp add: safe_def gc_inv_at)
  note lc = luaF_close_inv [OF this, where th = th and level = level]
  have "gc_inv (luaF_close th level g)" using lc(1,3) by (simp add: gc_inv_at)
  then show ?case using lc(7) by (intro safe_same [OF m_close.prems]) (simp_all add: closed_def)
next
  case (m_rawset C g a h k v h')
  have i: "gc_inv g" using m_rawset.prems by (simp add: safe_def)
  have d: "\<not> isdead g a" using has_live [OF m_rawset.prems m_rawset.hyps(1)] by (simp add: refs_live_def live_def)
  have r: "brefs g (BTable h') \<subseteq> refs g a \<union> (vrefs k \<union> vrefs v)" using m_rawset.hyps(2,4) by (simp add: refs_def Un_assoc)
  from table_store_inv [OF i m_rawset.hyps(2) d r has_live [OF m_rawset.prems m_rawset.hyps(3)]] show ?case by (intro safe_same [OF m_rawset.prems])
next
  case (m_setmetatable C g obj mt tt)
  have i: "gc_inv g" using m_setmetatable.prems by (simp add: safe_def)
  from setmetatable_inv [OF i has_live [OF m_setmetatable.prems m_setmetatable.hyps(1)] has_live [OF m_setmetatable.prems m_setmetatable.hyps(2)]]
  show ?case by (intro safe_same [OF m_setmetatable.prems])
next
  case (m_setfenv C g tt a e)
  have i: "gc_inv g" using m_setfenv.prems by (simp add: safe_def)
  have "\<not> isdead g a" "live g TTABLE e" using has_live [OF m_setfenv.prems m_setfenv.hyps] by (simp_all add: refs_live_def live_def)
  from setfenv_inv [OF i this] show ?case by (intro safe_same [OF m_setfenv.prems])
next
  case (m_setupval C g u v)
  have i: "gc_inv g" using m_setupval.prems by (simp add: safe_def)
  have l: "refs_live g {(TUPVAL, u)}" "refs_live g (vrefs v)" using has_live [OF m_setupval.prems m_setupval.hyps] unfolding refs_live_Un by blast+
  then have u: "live g TUPVAL u" by (simp add: refs_live_def)
  from setupval_inv [OF i u l(2)] show ?case by (intro safe_same [OF m_setupval.prems])
next
  case (m_setupvalue C g f v e vs n)
  have i: "gc_inv g" using m_setupvalue.prems by (simp add: safe_def)
  have l: "refs_live g {(TFUNCTION, f)}" "refs_live g (vrefs v)" using has_live [OF m_setupvalue.prems m_setupvalue.hyps(1)] unfolding refs_live_Un by blast+
  then have d: "\<not> isdead g f" by (simp add: refs_live_def live_def)
  from setupvalue_c_inv [OF i m_setupvalue.hyps(2) d l(2)] show ?case by (intro safe_same [OF m_setupvalue.prems])
next
  case (m_resume C g th)
  have i0: "inv_except {} g" using m_resume.prems by (simp add: safe_def gc_inv_def)
  let ?r = "g\<lparr>g_L := th\<rparr>"
  have v: "body ?r = body g" by simp
  have ro: "roots ?r \<subseteq> roots g \<union> {(TTHREAD, th)}" by (auto simp: roots_def mt_refs_def)
  have "inv_except ({} \<union> {}) ?r"
  proof (rule rewrite_inv [OF i0])
    show "rel_option same_kind (body g x) (body ?r x)" for x by (cases "body g x") simp_all
    show "refs_live g (roots ?r)"
      by (rule refs_live_mono [OF _ ro]) (unfold refs_live_Un, intro conjI heap_roots [OF inv_heap [OF i0]] has_live [OF m_resume.prems m_resume.hyps])
  qed (use heap_refs [OF inv_heap [OF i0]] refs_cong [OF v] in \<open>simp_all add: same_collector_def\<close>)
  moreover have "lives g ?r" by (simp add: lives_def live_def typed_at_def isdead_def otherwhite_def)
  ultimately show ?case by (intro safe_same [OF m_resume.prems]) (simp_all add: gc_inv_def)
next
  case (m_params C g z m p d t e b)
  let ?r = "g\<lparr>g_totalbytes := b, g_estimate := e, g_GCthreshold := t, g_gcdept := d, g_gcpause := p, g_gcstepmul := m, g_buffsize := z\<rparr>"
  have v: "body ?r = body g" "marked ?r = marked g" by simp_all
  have "gc_inv ?r" by (rule inv_cong [OF v]) (use m_params.prems in \<open>simp_all add: safe_def same_collector_def\<close>)
  moreover have "lives g ?r" by (simp add: lives_def live_def typed_at_def isdead_def otherwhite_def)
  ultimately show ?case by (intro safe_same [OF m_params.prems])
qed

lemma collect_safe: "collect s s' \<Longrightarrow> safe s \<Longrightarrow> safe s'"
proof (induction rule: collect.induct)
  case (c_step C g)
  then show ?case using singlestep_inv [of g id] by (simp add: safe_def)
next
  case (c_full C g)
  then show ?case using fullgc_reset_inv [of g] by (simp add: safe_def)
next
  case (c_mark g C)
  then show ?case using markroot_inv [of g] by (simp add: safe_def)
qed

lemma run_safe: "run s s' \<Longrightarrow> safe s \<Longrightarrow> safe s'"
  unfolding run_def by (induction rule: rtranclp_induct) (auto dest: mutate_safe collect_safe)

text \<open>The state \<open>lua_newstate\<close> makes (\<^verbatim>\<open>lstate.c\<close>) satisfies the invariant. Objects get the addresses 0, 1, 2 and so on.\<close>

definition SFIXED_MAIN :: mark where "SFIXED_MAIN = FIXEDMASK OR SFIXEDMASK"

text \<open>The global state before \<open>f_luaopen\<close>; \<open>lg\<close> is the size of the block for the main thread and the global state. \<open>g->estimate\<close> is not set by C.\<close>

definition new_global :: "64 word \<Rightarrow> gstate" where
  "new_global lg = \<lparr>g_heap = [0 \<mapsto> \<lparr>gc_marked = ((WHITEBITS AND (1 OR FIXEDMASK)) OR SFIXED_MAIN), gc_body = BThread preinit_state\<rparr>],
     g_rootgc = [0], g_sweepgc = None, g_strt = [], g_nuse = 0, g_sweepstrgc = 0, g_gray = [], g_grayagain = [], g_weak = [], g_tmudata = [], g_uvhead = [],
     g_currentwhite = 1 OR FIXEDMASK, g_gcstate = GCSpause, g_mainthread = 0, g_L = 0, g_registry = GNil, g_mt = replicate 9 None, g_mode = 0, g_gc = 0,
     g_totalbytes = lg, g_estimate = 0, g_GCthreshold = 0, g_gcdept = 0, g_gcpause = LUAI_GCPAUSE, g_gcstepmul = LUAI_GCMUL, g_buffsize = 0\<rparr>"

definition luaS_fix :: "addr \<Rightarrow> gstate \<Rightarrow> gstate" where
  "luaS_fix a = set_mark a (\<lambda>m. m OR FIXEDMASK)"

text \<open>\<open>luaS_fix (luaS_new (L, s))\<close>, with the next free address.\<close>

definition fixed_string :: "bytes \<Rightarrow> addr \<times> gstate \<Rightarrow> addr \<times> addr \<times> gstate" where
  "fixed_string s = (\<lambda>(n, g). case luaS_newlstr_obj n s g of None \<Rightarrow> (0, n, g) | Some (p, g') \<Rightarrow> (p, Suc n, luaS_fix p g'))"

definition luaT_eventname :: "bytes list" where
  "luaT_eventname = map str [''__index'', ''__newindex'', ''__gc'', ''__mode'', ''__eq'', ''__add'', ''__sub'', ''__mul'', ''__div'', ''__mod'', ''__pow'', ''__unm'',
     ''__len'', ''__lt'', ''__le'', ''__concat'', ''__call'']"

text \<open>Of the names \<open>luaT_init\<close> keeps in \<open>tmname\<close> the collector uses those of \<open>TM_GC\<close> and \<open>TM_MODE\<close>.\<close>

definition luaT_init :: "addr \<times> gstate \<Rightarrow> addr \<times> gstate" where
  "luaT_init = fold (\<lambda>i s. let (p, n, g) = fixed_string (luaT_eventname ! i) s
     in (n, if i = 2 then g\<lparr>g_gc := p\<rparr> else if i = 3 then g\<lparr>g_mode := p\<rparr> else g)) [0..<length luaT_eventname]"

definition luaX_init_strings :: "addr \<times> gstate \<Rightarrow> addr \<times> gstate" where
  "luaX_init_strings = fold (\<lambda>s. snd \<circ> fixed_string s) (take NUM_RESERVED luaX_tokens)"

definition MEMERRMSG :: bytes where "MEMERRMSG = str ''not enough memory''"

definition set_gt :: "gval \<Rightarrow> gstate \<Rightarrow> gstate" where
  "set_gt v g = (case body g (g_L g) of Some (BThread t) \<Rightarrow> set_body (g_L g) (BThread (t\<lparr>th_gt := v\<rparr>)) g | _ \<Rightarrow> g)"

definition luaopen_tables :: "gstate \<Rightarrow> gstate" where
  "luaopen_tables g =
     (let g1 = set_body (g_L g) (BThread (stack_init preinit_state)) g;
          g2 = set_gt (GObj TTABLE 1) (luaH_new_obj 1 0 2 g1);
          g3 = (luaH_new_obj 2 0 2 g2)\<lparr>g_registry := GObj TTABLE 2\<rparr>
      in strt_resize MINSTRTABSIZE g3)"

definition f_luaopen :: "gstate \<Rightarrow> gstate" where
  "f_luaopen g =
     (let (_, _, g') = fixed_string MEMERRMSG (luaX_init_strings (luaT_init (3, luaopen_tables g)))
      in g'\<lparr>g_GCthreshold := 4 * g_totalbytes g'\<rparr>)"

definition lua_newstate :: "64 word \<Rightarrow> gstate" where
  "lua_newstate lg = f_luaopen (new_global lg)"

subsection \<open>The tables\<close>

definition start_table :: gtable where
  "start_table = \<lparr>h_flags = 255, h_metatable = None, h_array = [], h_node = [(GNil, GNil), (GNil, GNil)]\<rparr>"

definition start_thread :: gthread where
  "start_thread = (stack_init preinit_state)\<lparr>th_gt := GObj TTABLE 1\<rparr>"

lemma ceillog2_two: "ceillog2 2 = 1"
  using ceillog2_slice [of 2 1] by simp

lemma new_table: "luaH_new_obj a 0 2 g = (luaC_link a (BTable start_table) g)\<lparr>g_totalbytes := g_totalbytes g + 144\<rparr>"
  by (simp add: luaH_new_obj_def start_table_def ceillog2_two luaC_link_def) (simp add: eval_nat_numeral)

lemma start_eq:
  "luaopen_tables (new_global lg) = (new_global lg)\<lparr>g_heap := [0 \<mapsto> \<lparr>gc_marked = 97, gc_body = BThread start_thread\<rparr>, 1 \<mapsto> \<lparr>gc_marked = 1, gc_body = BTable start_table\<rparr>,
     2 \<mapsto> \<lparr>gc_marked = 1, gc_body = BTable start_table\<rparr>], g_rootgc := [2, 1, 0], g_strt := replicate MINSTRTABSIZE [], g_registry := GObj TTABLE 2, g_totalbytes := lg + 288\<rparr>"
  by (simp add: luaopen_tables_def new_table Let_def)
    (simp add: new_global_def set_gt_def luaC_link_def strt_resize_def body_def set_body_def start_thread_def SFIXED_MAIN_def mask_defs luaC_white_def fun_upd_twist)

lemma start_body:
  "body (luaopen_tables (new_global lg)) x = (if x = 0 then Some (BThread start_thread) else if x = 1 \<or> x = 2 then Some (BTable start_table) else None)"
  "marked (luaopen_tables (new_global lg)) x = (if x = 0 then 97 else if x = 1 \<or> x = 2 then 1 else 0)"
  by (simp_all add: start_eq body_def marked_def)

lemma start_fields:
  fixes lg :: "64 word"
  defines "g \<equiv> luaopen_tables (new_global lg)"
  shows "g_rootgc g = [2, 1, 0]" "g_sweepgc g = None" "g_strt g = replicate MINSTRTABSIZE []" "g_tmudata g = []" "g_uvhead g = []" "g_currentwhite g = 33"
    "g_gcstate g = GCSpause" "g_mainthread g = 0" "g_L g = 0" "g_registry g = GObj TTABLE 2" "g_mt g = replicate 9 None"
  unfolding g_def start_eq by (simp_all add: new_global_def mask_defs)

lemma start_views:
  fixes lg :: "64 word"
  defines "g \<equiv> luaopen_tables (new_global lg)"
  shows "typed_at g tt x \<longleftrightarrow> x = 0 \<and> tt = TTHREAD \<or> (x = 1 \<or> x = 2) \<and> tt = TTABLE" "listed_at g x \<longleftrightarrow> x = 0 \<or> x = 1 \<or> x = 2" "open_at g x = {}" "open_upvals g x = []"
    "opens g = {}" "objects g = {0, 1, 2}" "refs g x = (if x = 0 then {(TTABLE, 1)} else {})" "\<not> isdead g x" "current g x \<longleftrightarrow> x = 0 \<or> x = 1 \<or> x = 2"
    "roots g = {(TTHREAD, 0), (TTABLE, 2)}"
proof -
  note b = start_body [of lg, folded g_def] and f = start_fields [of lg, folded g_def]
  show "typed_at g tt x \<longleftrightarrow> x = 0 \<and> tt = TTHREAD \<or> (x = 1 \<or> x = 2) \<and> tt = TTABLE" "listed_at g x \<longleftrightarrow> x = 0 \<or> x = 1 \<or> x = 2" "open_at g x = {}"
    "opens g = {}" "objects g = {0, 1, 2}"
    by (auto simp: typed_at_def listed_at_def open_at_def opens_def objects_def b is_open_def)
  show "open_upvals g x = []" by (simp add: open_upvals_def b start_thread_def stack_init_def preinit_state_def)
  show "refs g x = (if x = 0 then {(TTABLE, 1)} else {})"
    by (simp add: refs_def b start_thread_def stack_init_def preinit_state_def start_table_def orefs_def nrefs_def take_Cons' BASIC_STACK_SIZE_def EXTRA_STACK_def)
  show "\<not> isdead g x" by (simp add: isdead_def otherwhite_def b f WHITEBITS_def)
  show "current g x \<longleftrightarrow> x = 0 \<or> x = 1 \<or> x = 2" by (simp add: current_def luaC_white_def b f WHITEBITS_def)
  show "roots g = {(TTHREAD, 0), (TTABLE, 2)}" by (auto simp: roots_def mt_refs_def f orefs_def)
qed

lemma start_inv: "gc_inv (luaopen_tables (new_global lg))"
proof -
  let ?g = "luaopen_tables (new_global lg)"
  note b = start_body [of lg] and f = start_fields [of lg] and v = start_views [of lg]
  have "struct ?g" unfolding struct_def v f b
    by (auto simp: after_link_def f MINSTRTABSIZE_def)
  moreover have "sound ?g" by (auto simp: sound_def v refs_live_def live_def)
  moreover have "refs_live ?g (roots ?g)" by (simp add: v refs_live_def live_def)
  moreover have "colours ?g" by (simp add: colours_def wb_def iswhite_def isblack_def b m_white_def m_black_def mask_defs)
  moreover have "cw_ok ?g" by (simp add: cw_ok_def f)
  moreover have "swept ?g" unfolding swept_at_def pending_at_def f v by (simp add: b)
  ultimately show ?thesis by (simp add: gc_inv_def inv_except_def heap_ok_def f)
qed

subsection \<open>The strings that are never collected\<close>

definition started :: "addr \<times> gstate \<Rightarrow> bool" where
  "started s \<longleftrightarrow> gc_inv (snd s) \<and> g_gcstate (snd s) = GCSpause \<and> (\<forall>x \<ge> fst s. body (snd s) x = None)"

lemma fix_inv:
  assumes i: "gc_inv g" and p: "g_gcstate g = GCSpause" and t: "typed_at g TSTRING a"
  shows "gc_inv (luaS_fix a g)"
proof -
  have h: "heap_ok g" and sw: "swept g" using i p by (simp_all add: gc_inv_def inv_except_def)
  define k where "k = luaS_fix a g"
  have v: "body k = body g" by (simp add: k_def luaS_fix_def)
  have f: "g_rootgc k = g_rootgc g" "g_sweepgc k = g_sweepgc g" "g_strt k = g_strt g" "g_sweepstrgc k = g_sweepstrgc g" "g_tmudata k = g_tmudata g"
    "g_uvhead k = g_uvhead g" "g_currentwhite k = g_currentwhite g" "g_gcstate k = g_gcstate g" "g_mainthread k = g_mainthread g" "g_registry k = g_registry g"
    "g_L k = g_L g" "g_mt k = g_mt g"
    by (simp_all add: k_def luaS_fix_def)
  have m: "marked k x = (if x = a then marked g a OR FIXEDMASK else marked g x)" for x
    using t by (auto simp: k_def luaS_fix_def marked_set_mark typed_at_def)
  have m7: "marked k x AND 7 = marked g x AND 7" for x by (simp add: m FIXEDMASK_def mark_eq_iff bit_and_iff bit_or_iff)
  have d: "isdead k x = isdead g x" "current k x = current g x" for x by (simp_all add: isdead_and7 current_def m7 luaC_white_def otherwhite_def f)
  have wb: "iswhite k x = iswhite g x" "isblack k x = isblack g x" "marked k x AND 3 = marked g x AND 3" for x
  proof -
    have "bit (marked k x) n = bit (marked g x) n" if "n < 3" for n
      using arg_cong [OF m7 [of x], of "\<lambda>w. bit w n"] that by (auto simp: bit_and_iff less_Suc_eq eval_nat_numeral)
    then show "iswhite k x = iswhite g x" "isblack k x = isblack g x" by (simp_all add: iswhite_def isblack_def m_white_bits m_black_bit)
    show "marked k x AND 3 = marked g x AND 3" using m7 [of x] and3_and7 by metis
  qed
  have vs: "listed_at k = listed_at g" "open_at k = open_at g" "open_upvals k = open_upvals g" "objects k = objects g" "typed_at k = typed_at g" "opens k = opens g"
    by (simp_all add: fun_eq_iff listed_at_def open_at_def open_upvals_def objects_def typed_at_def opens_def v)
  have al: "after_link k l = after_link g l" for l by (rule after_link_cong [OF f(1)])
  have rf: "refs k = refs g" by (rule refs_cong [OF v])
  have ro: "roots k = roots g" by (rule roots_cong) (simp_all add: f)
  have rl: "refs_live k R = refs_live g R" for R by (simp add: refs_live_def live_def d vs)
  have "bit (marked k x) 5 \<longrightarrow> x = g_mainthread g \<or> typed_at g TSTRING x" for x using h t by (auto simp: m heap_ok_def struct_def)
  then have "struct k" using h unfolding heap_ok_def struct_def vs f al by blast
  moreover have "sound k" using h by (simp add: heap_ok_def sound_def d rl rf)
  moreover have "colours k" using h by (simp add: heap_ok_def colours_def wb_def wb)
  moreover have "cw_ok k" using h by (simp add: heap_ok_def cw_ok_def f)
  ultimately have "heap_ok k" using h by (simp add: heap_ok_def rl ro)
  moreover have "swept k" using sw p by (simp add: swept_at_def pending_at_def v f vs wb d)
  ultimately show ?thesis using p unfolding k_def [symmetric] by (simp add: gc_inv_def inv_except_def f)
qed

lemma newlstr_other:
  assumes "luaS_newlstr_obj a s g = Some (p, g')"
  shows "g_gcstate g' = g_gcstate g" "x \<noteq> a \<Longrightarrow> body g' x = body g x"
proof -
  have h: "g_heap (strt_resize n k) = g_heap k" "g_gcstate (strt_resize n k) = g_gcstate k" for n k by (simp_all add: strt_resize_def)
  show "g_gcstate g' = g_gcstate g" using assms h
    by (auto simp: luaS_newlstr_obj_def newlstr_obj_def Let_def resurrect_def split: option.splits if_splits)
  show "body g' x = body g x" if "x \<noteq> a"
  proof (cases "\<exists>q. g' = resurrect q g")
    case True
    then show ?thesis by (auto simp: resurrect_def)
  next
    case False
    then have "newlstr_obj a s g = Some g'" using assms by (auto simp: luaS_newlstr_obj_def split: option.splits)
    then show ?thesis using h that by (auto simp: newlstr_obj_def Let_def body_def split: if_splits)
  qed
qed

lemma fixed_string_started: "started (n, g) \<Longrightarrow> started (snd (fixed_string s (n, g)))"
proof -
  assume st: "started (n, g)"
  then have i: "gc_inv g" and p: "g_gcstate g = GCSpause" and n: "x \<ge> n \<Longrightarrow> body g x = None" for x by (simp_all add: started_def)
  show ?thesis
  proof (cases "luaS_newlstr_obj n s g")
    case None
    then show ?thesis using st by (simp add: fixed_string_def)
  next
    case (Some r)
    obtain q k where r: "r = (q, k)" by (cases r)
    have e: "luaS_newlstr_obj n s g = Some (q, k)" using Some r by simp
    note l = luaS_newlstr_inv [OF i n [OF order_refl] e] and o = newlstr_other [OF e]
    have pk: "g_gcstate k = GCSpause" using o(1) p by simp
    have "gc_inv (luaS_fix q k)" by (rule fix_inv [OF l(1) pk]) (use l(3) in \<open>simp add: live_def\<close>)
    moreover have "body (luaS_fix q k) x = None" if "x \<ge> Suc n" for x using that o(2) [of x] n [of x] by (simp add: luaS_fix_def)
    ultimately show ?thesis using e pk by (simp add: fixed_string_def started_def luaS_fix_def)
  qed
qed

lemma started_cong: "started (n, g) \<Longrightarrow> body g' = body g \<Longrightarrow> marked g' = marked g \<Longrightarrow> same_collector g g' \<Longrightarrow> g_L g' = g_L g \<Longrightarrow> g_mt g' = g_mt g \<Longrightarrow> started (n, g')"
  using inv_cong [of g' g] by (simp add: started_def same_collector_def)

lemma fold_started: "(\<And>x s. x \<in> set xs \<Longrightarrow> started s \<Longrightarrow> started (f x s)) \<Longrightarrow> started s \<Longrightarrow> started (fold f xs s)"
  by (induction xs arbitrary: s) simp_all

lemma luaT_init_started: "started s \<Longrightarrow> started (luaT_init s)"
  unfolding luaT_init_def
proof (rule fold_started)
  fix i s assume s: "started s"
  obtain p n g where r: "fixed_string (luaT_eventname ! i) s = (p, n, g)" by (cases "fixed_string (luaT_eventname ! i) s")
  have "started (n, g)" using fixed_string_started [of "fst s" "snd s" "luaT_eventname ! i"] s r by simp
  then have "started (n, g\<lparr>g_gc := p\<rparr>)" "started (n, g\<lparr>g_mode := p\<rparr>)" "started (n, g)"
    by (simp_all add: started_cong [of n g] same_collector_def body_def [abs_def] marked_def [abs_def])
  then show "started (let (p, n, g) = fixed_string (luaT_eventname ! i) s in (n, if i = 2 then g\<lparr>g_gc := p\<rparr> else if i = 3 then g\<lparr>g_mode := p\<rparr> else g))"
    using r by simp
qed

lemma luaX_init_started: "started s \<Longrightarrow> started (luaX_init_strings s)"
  unfolding luaX_init_strings_def
  by (rule fold_started) (metis comp_apply fixed_string_started prod.collapse)

lemma newstate_started: "\<exists>n. started (n, lua_newstate lg)"
proof -
  have "started (3, luaopen_tables (new_global lg))" using start_inv start_fields(7) start_body(1) by (simp add: started_def)
  then have st: "started (luaX_init_strings (luaT_init (3, luaopen_tables (new_global lg))))" by (intro luaX_init_started luaT_init_started)
  let ?s = "luaX_init_strings (luaT_init (3, luaopen_tables (new_global lg)))"
  obtain p n g where r: "fixed_string MEMERRMSG ?s = (p, n, g)" by (cases "fixed_string MEMERRMSG ?s")
  have "started (n, g)" using fixed_string_started [of "fst ?s" "snd ?s" MEMERRMSG] st r by simp
  then have "started (n, g\<lparr>g_GCthreshold := 4 * g_totalbytes g\<rparr>)"
    by (simp add: started_cong [of n g] same_collector_def body_def [abs_def] marked_def [abs_def])
  then show ?thesis using r by (auto simp: lua_newstate_def f_luaopen_def)
qed

lemma newstate_safe: "safe ({}, lua_newstate lg)"
  using newstate_started [of lg] by (auto simp: safe_def started_def)

subsection \<open>Finalizers\<close>

text \<open>The program never changes the phase of the collector or the list of the objects to finalize, so a finalizer may be any run of the program.\<close>

lemma really_mark_other: "g_gcstate (really_mark n a g) = g_gcstate g \<and> g_tmudata (really_mark n a g) = g_tmudata g"
proof (induction n arbitrary: a g)
  case (Suc n)
  then show ?case
    by (auto simp: Let_def markobject_with_def markopt_with_def markvalue_with_def split: option.split gbody.split gupval.split gval.split)
qed simp

lemma barrier_other:
  "g_gcstate (luaC_barrier p v g) = g_gcstate g" "g_tmudata (luaC_barrier p v g) = g_tmudata g"
  "g_gcstate (luaC_barriert p v g) = g_gcstate g" "g_tmudata (luaC_barriert p v g) = g_tmudata g"
  "g_gcstate (luaC_objbarrier p m g) = g_gcstate g" "g_tmudata (luaC_objbarrier p m g) = g_tmudata g"
  "g_gcstate (luaC_objbarriert p m g) = g_gcstate g" "g_tmudata (luaC_objbarriert p m g) = g_tmudata g"
  by (simp_all add: luaC_barrier_def luaC_barriert_def luaC_objbarrier_def luaC_objbarriert_def luaC_barrierf_def luaC_barrierback_def reallymarkobject_def really_mark_other Let_def
      split: gval.split)

lemma close_other: "g_gcstate (luaF_close th level g) = g_gcstate g \<and> g_tmudata (luaF_close th level g) = g_tmudata g"
proof -
  have l: "g_gcstate (luaC_linkupval u k) = g_gcstate k \<and> g_tmudata (luaC_linkupval u k) = g_tmudata k" for u k
    by (simp add: luaC_linkupval_def Let_def barrier_other split: option.split gbody.split)
  have o: "g_gcstate (set_openupval t us k) = g_gcstate k \<and> g_tmudata (set_openupval t us k) = g_tmudata k" for t us k
    by (simp add: set_openupval_def split: option.split gbody.split)
  have c: "g_gcstate (close_upval u k) = g_gcstate k \<and> g_tmudata (close_upval u k) = g_tmudata k" for u k
    by (simp add: close_upval_def luaF_freeupval_def luaM_free_def unlinkupval_def l split: option.split gbody.split gupval.split)
  have "g_gcstate (close_upvals th level us k) = g_gcstate k \<and> g_tmudata (close_upvals th level us k) = g_tmudata k" for us k
    by (induction us arbitrary: k) (simp_all add: c o split: option.split gbody.split gupval.split)
  then show ?thesis by (simp add: luaF_close_def split: option.split gbody.split)
qed

lemma string_other: "luaS_newlstr_obj a s g = Some (p, g') \<Longrightarrow> g_gcstate g' = g_gcstate g \<and> g_tmudata g' = g_tmudata g"
  by (auto simp: luaS_newlstr_obj_def newlstr_obj_def Let_def resurrect_def strt_resize_def split: option.splits if_splits)

lemma findupval_other: "luaF_findupval a th level g = (p, g') \<Longrightarrow> g_gcstate g' = g_gcstate g \<and> g_tmudata g' = g_tmudata g"
  by (auto simp: luaF_findupval_def Let_def resurrect_def new_open_upval_def set_openupval_def split: list.splits if_splits option.splits gbody.splits)

lemma mutate_other: "mutate s s' \<Longrightarrow> g_gcstate (snd s') = g_gcstate (snd s) \<and> g_tmudata (snd s') = g_tmudata (snd s)"
proof (induction rule: mutate.induct)
  case (m_string g a s p g' C)
  then show ?case using string_other by simp
next
  case (m_findupval g a C th t level p g')
  then show ?case using findupval_other by simp
next
  case (m_udata g a C e s g')
  then show ?case by (auto simp: luaS_newudata_def Let_def split: if_splits)
qed (simp_all add: luaH_new_obj_def lua_pushcclosure_obj_def luaF_newCclosure_def luaF_newLclosure_def luaF_newupval_def luaF_newproto_def luaE_newthread_def luaC_link_def close_other
    table_store_def lua_setmetatable_obj_def lua_setfenv_obj_def op_setupval_def set_upval_def lua_setupvalue_obj_def barrier_other Let_def
    split: option.split gbody.split gupval.split gval.split gclosure.split)

definition program_call :: "(gstate \<Rightarrow> gstate) \<Rightarrow> bool" where
  "program_call call \<longleftrightarrow> (\<forall>g. \<exists>C. mutate\<^sup>*\<^sup>* ({}, g) (C, call g))"

lemma program_call_ok: "program_call call \<Longrightarrow> finalizer_ok call"
proof -
  assume p: "program_call call"
  have star: "mutate\<^sup>*\<^sup>* s s' \<Longrightarrow> (safe s \<longrightarrow> safe s') \<and> g_gcstate (snd s') = g_gcstate (snd s) \<and> g_tmudata (snd s') = g_tmudata (snd s)" for s s'
    by (induction rule: rtranclp_induct) (auto dest: mutate_safe mutate_other)
  show ?thesis unfolding finalizer_ok_def
  proof (intro allI impI)
    fix g assume "gc_inv g"
    then have s: "safe ({}, g)" by (simp add: safe_def refs_live_def)
    obtain C where "mutate\<^sup>*\<^sup>* ({}, g) (C, call g)" using p by (auto simp: program_call_def)
    from star [OF this] s show "gc_inv (call g) \<and> g_gcstate (call g) = g_gcstate g \<and> g_tmudata (call g) = g_tmudata g"
      by (simp add: safe_def)
  qed
qed

end
