(* ===== verification/Gc_Props.thy ===== *)
theory Gc_Props
  imports Lua_Gc_Run
begin

text \<open>
  \<open>lua_setupvalue\<close> calls the barrier for the closure and not for the upvalue (\<^verbatim>\<open>lapi.c\<close>). Two closures, at the addresses 7 and 5, share the closed upvalue 4. The
  collector has traversed the first closure and the upvalue, not yet the second one, when the program sets the upvalue through the second one to the new table 6
  and pops the table. Four steps later the sweep is done, the table has been freed, and the upvalue still refers to it.
\<close>

definition shared_table :: gtable where
  "shared_table = \<lparr>h_flags = 255, h_metatable = None, h_array = [], h_node = []\<rparr>"

definition shared_proto :: gproto where
  "shared_proto = \<lparr>gp_source = None, gp_k = [], gp_upvalues = [None], gp_p = [], gp_locvars = [], gp_sizecode = 0, gp_sizelineinfo = 0\<rparr>"

definition shared_thread :: gthread where
  "shared_thread = (stack_init preinit_state)\<lparr>th_stack := [GObj TFUNCTION 7, GObj TFUNCTION 5, GObj TTABLE 6] @ replicate 42 GNil, th_top := 3, th_gt := GObj TTABLE 2\<rparr>"

text \<open>The heap, for a thread, the value of the upvalue and the marks of the thread, the upvalue, the second closure and the new table.\<close>

definition shared_heap :: "gthread \<Rightarrow> gval \<Rightarrow> mark \<Rightarrow> mark \<Rightarrow> (mark \<times> gtable) option \<Rightarrow> mark \<Rightarrow> addr \<Rightarrow> GCObject option" where
  "shared_heap t v m n w k = (\<lambda>x.
     if x = 0 then Some \<lparr>gc_marked = m, gc_body = BThread t\<rparr>
     else if x = 2 then Some \<lparr>gc_marked = k, gc_body = BTable shared_table\<rparr>
     else if x = 3 then Some \<lparr>gc_marked = k, gc_body = BProto shared_proto\<rparr>
     else if x = 4 then Some \<lparr>gc_marked = k, gc_body = BUpval (UClosed v)\<rparr>
     else if x = 5 then Some \<lparr>gc_marked = n, gc_body = BFunction (LCl 2 3 [4])\<rparr>
     else if x = 6 then map_option (\<lambda>(w, h). \<lparr>gc_marked = w, gc_body = BTable h\<rparr>) w
     else if x = 7 then Some \<lparr>gc_marked = k, gc_body = BFunction (LCl 2 3 [4])\<rparr> else None)"

definition shared_at :: "(addr \<Rightarrow> GCObject option) \<Rightarrow> addr list \<Rightarrow> addr list \<Rightarrow> gstate" where
  "shared_at h gr ga = (new_global 0)\<lparr>g_heap := h, g_rootgc := [6, 5, 4, 3, 2, 7, 0], g_strt := [[]], g_gcstate := GCSpropagate, g_gray := gr, g_grayagain := ga\<rparr>"

definition shared_state :: gstate where
  "shared_state = shared_at (shared_heap shared_thread GNil 96 0 (Some (1, shared_table)) 4) [5] [0]"

text \<open>\<open>L->top--\<close>\<close>

definition lua_pop_obj :: "gstate \<Rightarrow> gstate" where
  "lua_pop_obj g = (case body g (g_L g) of Some (BThread t) \<Rightarrow> set_body (g_L g) (BThread (t\<lparr>th_top := th_top t - 1\<rparr>)) g | _ \<Rightarrow> g)"

subsection \<open>The state satisfies the invariant\<close>

lemma shared_body:
  "body shared_state x = (if x = 0 then Some (BThread shared_thread) else if x = 7 \<or> x = 5 then Some (BFunction (LCl 2 3 [4])) else if x = 2 \<or> x = 6 then Some (BTable shared_table)
     else if x = 3 then Some (BProto shared_proto) else if x = 4 then Some (BUpval (UClosed GNil)) else None)"
  "marked shared_state x = (if x = 0 then 96 else if x = 2 \<or> x = 3 \<or> x = 4 \<or> x = 7 then 4 else if x = 6 then 1 else 0)"
  by (auto simp: shared_state_def shared_at_def shared_heap_def body_def marked_def)

lemma shared_fields:
  "g_rootgc shared_state = [6, 5, 4, 3, 2, 7, 0]" "g_strt shared_state = [[]]" "g_tmudata shared_state = []" "g_uvhead shared_state = []" "g_currentwhite shared_state = 33"
  "g_gcstate shared_state = GCSpropagate" "g_mainthread shared_state = 0" "g_L shared_state = 0" "g_registry shared_state = GNil" "g_mt shared_state = replicate 9 None"
  "g_gray shared_state = [5]" "g_grayagain shared_state = [0]" "g_weak shared_state = []"
  by (simp_all add: shared_state_def shared_at_def new_global_def mask_defs)

lemma shared_refs: "refs shared_state x = (if x = 0 then {(TTABLE, 2), (TFUNCTION, 7), (TFUNCTION, 5), (TTABLE, 6)} else if x = 7 \<or> x = 5 then {(TTABLE, 2), (TPROTO, 3), (TUPVAL, 4)} else {})"
  by (auto simp: refs_def shared_body shared_thread_def stack_init_def preinit_state_def shared_table_def shared_proto_def orefs_def take_Cons')

lemma shared_views:
  "typed_at shared_state tt x \<longleftrightarrow> x = 0 \<and> tt = TTHREAD \<or> (x = 7 \<or> x = 5) \<and> tt = TFUNCTION \<or> (x = 2 \<or> x = 6) \<and> tt = TTABLE \<or> x = 3 \<and> tt = TPROTO \<or> x = 4 \<and> tt = TUPVAL"
  "listed_at shared_state x \<longleftrightarrow> x \<in> {0, 2, 3, 4, 5, 6, 7}" "open_at shared_state x = {}" "open_upvals shared_state x = []" "opens shared_state = {}" "objects shared_state = {0, 2, 3, 4, 5, 6, 7}"
  "\<not> isdead shared_state x" "roots shared_state = {(TTHREAD, 0)}"
  "iswhite shared_state x \<longleftrightarrow> x = 6" "isblack shared_state x \<longleftrightarrow> x \<in> {2, 3, 4, 7}"
proof -
  note b = shared_body and f = shared_fields
  show "typed_at shared_state tt x \<longleftrightarrow> x = 0 \<and> tt = TTHREAD \<or> (x = 7 \<or> x = 5) \<and> tt = TFUNCTION \<or> (x = 2 \<or> x = 6) \<and> tt = TTABLE \<or> x = 3 \<and> tt = TPROTO \<or> x = 4 \<and> tt = TUPVAL"
    by (auto simp: typed_at_def b)
  show "listed_at shared_state x \<longleftrightarrow> x \<in> {0, 2, 3, 4, 5, 6, 7}" by (auto simp: listed_at_def b is_open_def)
  show "open_at shared_state x = {}" "opens shared_state = {}" "objects shared_state = {0, 2, 3, 4, 5, 6, 7}"
    by (auto simp: open_at_def opens_def objects_def b is_open_def split: if_splits)
  show "open_upvals shared_state x = []" by (simp add: open_upvals_def b shared_thread_def stack_init_def preinit_state_def)
  show "\<not> isdead shared_state x" by (simp add: isdead_def otherwhite_def b f WHITEBITS_def)
  show "roots shared_state = {(TTHREAD, 0)}" by (auto simp: roots_def mt_refs_def f orefs_def)
  show "iswhite shared_state x \<longleftrightarrow> x = 6" "isblack shared_state x \<longleftrightarrow> x \<in> {2, 3, 4, 7}" by (auto simp: iswhite_def isblack_def b m_white_def m_black_def mask_defs)
qed

lemma shared_inv: "gc_inv shared_state"
proof -
  note b = shared_body and f = shared_fields and v = shared_views
  have "struct shared_state" unfolding struct_def v f b by (auto simp: after_link_def f)
  moreover have "sound shared_state" by (auto simp: sound_def v refs_live_def live_def shared_refs)
  moreover have "refs_live shared_state (roots shared_state)" by (simp add: v refs_live_def live_def)
  moreover have "colours shared_state" by (simp add: colours_def wb_def v b)
  moreover have "cw_ok shared_state" by (simp add: cw_ok_def f)
  ultimately have "heap_ok shared_state" by (simp add: heap_ok_def)
  moreover have "minv shared_state"
  proof -
    have "wb shared_state" by (simp add: wb_def v)
    moreover have "typed shared_state" by (auto simp: typed_def v shared_refs)
    moreover have "mark_lists shared_state" by (auto simp: mark_lists_def gray_lists_def f isgray_def v gray_at_def b gray_kind_def)
    moreover have "shades shared_state" by (auto simp: shades_def gray_lists_def f v b gray_kind_def black_kind_def is_open_def split: if_splits)
    ultimately show ?thesis by (simp add: minv_def)
  qed
  moreover have "tri shared_state (excused shared_state \<union> {})"
    by (auto simp: tri_def excused_def v f ok_def shared_refs)
  ultimately show ?thesis by (simp add: gc_inv_def inv_except_def f marking_def v)
qed

subsection \<open>The store and the rest of the collection\<close>

definition popped_thread :: gthread where "popped_thread = shared_thread\<lparr>th_top := 2\<rparr>"
definition final_thread :: gthread where "final_thread = checkstacksizes (fold max (th_ci_tops popped_thread) 2) (clear_stack (fold max (th_ci_tops popped_thread) 2) popped_thread)"

lemma shared_heap_upd:
  "(shared_heap t v m n w k)(0 \<mapsto> \<lparr>gc_marked = m', gc_body = BThread t'\<rparr>) = shared_heap t' v m' n w k"
  "(shared_heap t v m n w k)(4 \<mapsto> \<lparr>gc_marked = k, gc_body = BUpval (UClosed v')\<rparr>) = shared_heap t v' m n w k"
  "(shared_heap t v m n w k)(5 \<mapsto> \<lparr>gc_marked = n', gc_body = BFunction (LCl 2 3 [4])\<rparr>) = shared_heap t v m n' w k"
  "(shared_heap t v m n w k)(6 := None) = shared_heap t v m n None k"
  by (auto simp: shared_heap_def)

lemma shared_heap_at:
  "shared_heap t v m n w k 0 = Some \<lparr>gc_marked = m, gc_body = BThread t\<rparr>" "shared_heap t v m n w k 2 = Some \<lparr>gc_marked = k, gc_body = BTable shared_table\<rparr>"
  "shared_heap t v m n w k 3 = Some \<lparr>gc_marked = k, gc_body = BProto shared_proto\<rparr>" "shared_heap t v m n w k 4 = Some \<lparr>gc_marked = k, gc_body = BUpval (UClosed v)\<rparr>"
  "shared_heap t v m n w k 5 = Some \<lparr>gc_marked = n, gc_body = BFunction (LCl 2 3 [4])\<rparr>" "shared_heap t v m n w k 7 = Some \<lparr>gc_marked = k, gc_body = BFunction (LCl 2 3 [4])\<rparr>"
  "shared_heap t v m n w k 6 = map_option (\<lambda>(w, h). \<lparr>gc_marked = w, gc_body = BTable h\<rparr>) w"
  by (simp_all add: shared_heap_def)

lemmas shared_eval = shared_heap_at shared_heap_upd body_def marked_def set_body_def set_mark_def iswhite_def isblack_def isgray_def m_white_def m_black_def mask_defs

lemma shared_at_simps:
  "g_heap (shared_at h gr ga) = h" "g_rootgc (shared_at h gr ga) = [6, 5, 4, 3, 2, 7, 0]" "g_strt (shared_at h gr ga) = [[]]" "g_gcstate (shared_at h gr ga) = GCSpropagate"
  "g_gray (shared_at h gr ga) = gr" "g_grayagain (shared_at h gr ga) = ga" "g_weak (shared_at h gr ga) = []" "g_tmudata (shared_at h gr ga) = []" "g_uvhead (shared_at h gr ga) = []"
  "g_L (shared_at h gr ga) = 0" "g_mainthread (shared_at h gr ga) = 0" "g_mt (shared_at h gr ga) = replicate 9 None" "g_currentwhite (shared_at h gr ga) = 33"
  "(shared_at h gr ga)\<lparr>g_heap := h'\<rparr> = shared_at h' gr ga" "(shared_at h gr ga)\<lparr>g_grayagain := ga'\<rparr> = shared_at h gr ga'" "(shared_at h gr ga)\<lparr>g_weak := []\<rparr> = shared_at h gr ga" "(shared_at h gr ga)\<lparr>g_gray := gr'\<rparr> = shared_at h gr' ga"
  by (simp_all add: shared_at_def new_global_def mask_defs)

lemma shared_store:
  "lua_pop_obj (lua_setupvalue_obj 5 1 (GObj TTABLE 6) shared_state) = shared_at (shared_heap popped_thread (GObj TTABLE 6) 96 0 (Some (1, shared_table)) 4) [5] [0]"
  by (simp add: shared_state_def lua_setupvalue_obj_def sizeupvalues_def set_upval_def shared_proto_def luaC_barrier_def lua_pop_obj_def shared_at_simps shared_eval popped_thread_def)
    (simp add: shared_thread_def)

lemma shared_step1:
  "snd (singlestep id (shared_at (shared_heap t v 96 0 w 4) [5] ga)) = shared_at (shared_heap t v 96 4 w 4) [] ga"
  by (simp add: singlestep_def propagatemark_def gray2black_def m_gray2black_def markobject_def markobject_with_def shared_at_simps shared_eval)

lemma propagateall_nil: "g_gray g = [] \<Longrightarrow> propagateall g = (0, g)"
  by (simp add: propagateall_def while_unfold)

lemma propagateall_one: "g_gray g \<noteq> [] \<Longrightarrow> propagatemark g = (k, g') \<Longrightarrow> g_gray g' = [] \<Longrightarrow> propagateall g = (k, g')"
  by (simp add: propagateall_def while_unfold [of _ _ "(0, g)"] while_unfold [of _ _ "(k, g')"])

lemma traverse_main:
  "propagatemark (shared_at (shared_heap popped_thread v 96 4 w 4) [0] []) =
     (traversed_size (BThread final_thread), shared_at (shared_heap final_thread v 96 4 w 4) [] [0])"
proof -
  have t: "th_top popped_thread = 2" "th_gt popped_thread = GObj TTABLE 2" "take 2 (th_stack popped_thread) = [GObj TFUNCTION 7, GObj TFUNCTION 5]"
    by (simp_all add: popped_thread_def shared_thread_def)
  show ?thesis
    by (simp add: propagatemark_def traversestack_def gray2black_def black2gray_def m_gray2black_def m_black2gray_def markvalue_def markvalue_with_def markobject_with_def t
        shared_at_simps shared_eval Let_def final_thread_def)
qed

lemma shared_step2:
  obtains e where "snd (singlestep id (shared_at (shared_heap popped_thread v 96 4 w 4) [] [0])) =
    (shared_at (shared_heap final_thread v 96 4 w 4) [] [0])\<lparr>g_currentwhite := 34, g_sweepstrgc := 0, g_sweepgc := None, g_gcstate := GCSsweepstring, g_estimate := e\<rparr>"
proof -
  let ?g = "shared_at (shared_heap popped_thread v 96 4 w 4) [] [0]" and ?k = "shared_at (shared_heap final_thread v 96 4 w 4) [] [0]"
  have r: "remarkupvals ?g = ?g" by (simp add: remarkupvals_def shared_at_simps)
  have m: "markobject 0 ?g = ?g" by (simp add: markobject_def markobject_with_def shared_at_simps shared_eval)
  have mt: "markmt ?g = ?g" by (simp add: markmt_def shared_at_simps markopt_def markopt_with_def eval_nat_numeral)
  have p: "propagateall (shared_at (shared_heap popped_thread v 96 4 w 4) [0] []) = (traversed_size (BThread final_thread), ?k)"
    by (rule propagateall_one [OF _ traverse_main]) (simp_all add: shared_at_simps)
  have sp: "luaC_separateudata False ?k = (0, ?k)"
    by (simp add: luaC_separateudata_def after_link_def shared_at_simps)
  have "marktmu ?k = ?k" by (simp add: marktmu_def shared_at_simps)
  then have "\<exists>e. atomic ?g = ?k\<lparr>g_currentwhite := 34, g_sweepstrgc := 0, g_sweepgc := None, g_gcstate := GCSsweepstring, g_estimate := e\<rparr>"
    using r m mt p sp by (simp add: atomic_def propagateall_nil shared_at_simps cleartable_def otherwhite_def WHITEBITS_def Let_def) (rule exI, rule refl)
  then show ?thesis using that by (auto simp: singlestep_def shared_at_simps)
qed

lemma set_body_self: "body g a = Some b \<Longrightarrow> set_body a b g = g"
  by (auto simp: set_body_def body_def fun_upd_idem split: option.split)

lemma link_step:
  assumes d: "distinct (g_rootgc g)" and l: "after_link g link = a # rest"
  shows "after_link g (Some a) = rest" "a \<notin> set rest"
proof -
  obtain pre where pre: "g_rootgc g = pre @ a # rest" using after_link_suffix [of g link] l by auto
  then have n: "a \<notin> set pre" "a \<notin> set rest" using d by simp_all
  then have "dropWhile (\<lambda>x. x \<noteq> a) (pre @ a # rest) = a # rest" by (subst dropWhile_append2) auto
  then show "after_link g (Some a) = rest" "a \<notin> set rest" using n by (simp_all add: after_link_def pre)
qed

text \<open>A sweep of objects that are all kept, none of them a thread with open upvalues.\<close>

lemma sweep_kept:
  assumes "after_link g link = l" "distinct (g_rootgc g)" "length l < n"
    "\<And>a. a \<in> set l \<Longrightarrow> sweep_keeps g a \<and> body g a \<noteq> None \<and> (\<forall>t. body g a = Some (BThread t) \<longrightarrow> th_openupval t = [])"
  shows "\<exists>link' g'. sweeplist n link g = (link', g') \<and> after_link g' link' = [] \<and> body g' = body g \<and> g_mainthread g' = g_mainthread g"
  using assms
proof (induction l arbitrary: n link g)
  case Nil
  then show ?case by (cases n) simp_all
next
  case (Cons a l)
  obtain m where n: "n = Suc m" using Cons.prems(3) by (cases n) auto
  have k: "sweep_keeps g a" and b: "body g a \<noteq> None" using Cons.prems(4) by auto
  have o: "sweep_open a g = g"
  proof (cases "body g a")
    case (Some c)
    show ?thesis
    proof (cases c)
      case (BThread t)
      then have "th_openupval t = []" using Cons.prems(4) Some by auto
      moreover from this have "t\<lparr>th_openupval := []\<rparr> = t" by simp
      ultimately show ?thesis using Some BThread by (simp add: sweep_open_def set_openupval_def set_body_self)
    qed (simp_all add: sweep_open_def Some)
  qed (simp add: sweep_open_def)
  let ?g = "makewhite a g"
  have nx: "after_link ?g (Some a) = l" "a \<notin> set l" using link_step [OF Cons.prems(2,1)] by (simp_all add: after_link_def)
  have "sweep_keeps ?g x \<and> body ?g x \<noteq> None \<and> (\<forall>t. body ?g x = Some (BThread t) \<longrightarrow> th_openupval t = [])" if "x \<in> set l" for x
    using Cons.prems(4) [of x] nx(2) that by (auto simp: sweep_keeps_def otherwhite_def marked_set_mark)
  from Cons.IH [OF nx(1) _ _ this, of m] Cons.prems(2,3) n show ?case using Cons.prems(1) by (auto simp: o k)
qed

lemma shared_step4:
  assumes p: "g_gcstate g = GCSsweep" "g_sweepgc g = None" "g_currentwhite g = 34" "g_mainthread g = 0" "g_rootgc g = [6, 5, 4, 3, 2, 7, 0]"
    and h: "g_heap g = shared_heap final_thread v 96 4 (Some (1, shared_table)) 4"
  shows "body (snd (singlestep id g)) x = (if x = 6 then None else body g x)" "g_mainthread (snd (singlestep id g)) = 0"
proof -
  have o: "th_openupval final_thread = []"
    by (simp add: final_thread_def checkstacksizes_def luaD_reallocstack_def luaD_reallocCI_def clear_stack_def popped_thread_def shared_thread_def stack_init_def preinit_state_def Let_def)
  define k where "k = freeobj 6 (g\<lparr>g_rootgc := [5, 4, 3, 2, 7, 0]\<rparr>)"
  have kh: "g_heap k = shared_heap final_thread v 96 4 None 4" and kf: "g_rootgc k = [5, 4, 3, 2, 7, 0]" "g_currentwhite k = 34" "g_mainthread k = 0"
    using h p by (simp_all add: k_def freeobj_def luaM_free_def body_def shared_heap_at shared_heap_upd)
  have "sweeplist (Suc 39) None g = sweeplist 39 None k"
    unfolding sweeplist.simps using h p by (simp add: after_link_def sweep_open_def sweep_keeps_def otherwhite_def body_def marked_def shared_heap_at mask_defs k_def)
  then have e: "sweeplist GCSWEEPMAX None g = sweeplist 39 None k" by (simp add: GCSWEEPMAX_def)
  have "sweep_keeps k a \<and> body k a \<noteq> None \<and> (\<forall>t. body k a = Some (BThread t) \<longrightarrow> th_openupval t = [])" if "a \<in> set [5, 4, 3, 2, 7, 0]" for a
    using that kh kf o by (auto simp: sweep_keeps_def otherwhite_def body_def marked_def shared_heap_at mask_defs)
  from sweep_kept [OF _ _ _ this, of None _ 39] obtain l g' where r: "sweeplist 39 None k = (l, g')" "after_link g' l = []" "body g' = body k" "g_mainthread g' = 0"
    using kf by (auto simp: after_link_def)
  have ar: "after_link (g'\<lparr>g_sweepgc := l\<rparr>) l = []" using r(2) after_link_cong [of "g'\<lparr>g_sweepgc := l\<rparr>" g' l] by simp
  have "body k x = (if x = 6 then None else body g x)" by (simp add: body_def kh h shared_heap_def)
  moreover have "body (snd (singlestep id g)) = body g'" "g_mainthread (snd (singlestep id g)) = 0"
    using r(1,2,4) ar p by (simp_all add: singlestep_def sweep_step_def e freed_since_def checkSizes_def strt_resize_def Let_def body_def fun_eq_iff)
  ultimately show "body (snd (singlestep id g)) x = (if x = 6 then None else body g x)" "g_mainthread (snd (singlestep id g)) = 0" by (simp_all add: r(3))
qed

lemma shared_end_body:
  fixes g :: gstate
  defines "g \<equiv> ((snd \<circ> singlestep id) ^^ 4) (lua_pop_obj (lua_setupvalue_obj 5 1 (GObj TTABLE 6) shared_state))"
  shows "body g x = (if x = 6 then None else map_option gc_body (shared_heap final_thread (GObj TTABLE 6) 96 4 (Some (1, shared_table)) 4 x))" "g_mainthread g = 0"
proof -
  let ?h = "shared_heap final_thread (GObj TTABLE 6) 96 4 (Some (1, shared_table)) 4"
  obtain e where 2: "snd (singlestep id (shared_at (shared_heap popped_thread (GObj TTABLE 6) 96 4 (Some (1, shared_table)) 4) [] [0])) =
    (shared_at ?h [] [0])\<lparr>g_currentwhite := 34, g_sweepstrgc := 0, g_sweepgc := None, g_gcstate := GCSsweepstring, g_estimate := e\<rparr>" (is "_ = ?g2")
    by (rule shared_step2)
  define g3 where "g3 = snd (singlestep id ?g2)"
  have 3: "g_gcstate g3 = GCSsweep" "g_sweepgc g3 = None" "g_currentwhite g3 = 34" "g_mainthread g3 = 0" "g_rootgc g3 = [6, 5, 4, 3, 2, 7, 0]" "g_heap g3 = ?h"
    by (simp_all add: g3_def singlestep_def sweepstring_step_def sweep_bucket_def freed_since_def Let_def shared_at_simps)
  have f: "(f ^^ 4) y = f (f (f (f y)))" for f :: "gstate \<Rightarrow> gstate" and y by (simp add: eval_nat_numeral)
  have "g = snd (singlestep id g3)" by (simp add: g_def f shared_store shared_step1 2 g3_def del: One_nat_def)
  then show "body g x = (if x = 6 then None else map_option gc_body (?h x))" "g_mainthread g = 0"
    using shared_step4 [OF 3] by (simp_all add: body_def 3(6))
qed

lemma shared_dangling:
  fixes g :: gstate
  defines "g \<equiv> ((snd \<circ> singlestep id) ^^ 4) (lua_pop_obj (lua_setupvalue_obj 5 1 (GObj TTABLE 6) shared_state))"
  shows "reach g (TTABLE, 6)" "body g 6 = None"
proof -
  note b = shared_end_body [folded g_def]
  show "body g 6 = None" by (simp add: b)
  have t: "th_top final_thread = 2" "take 1 (th_stack final_thread) = [GObj TFUNCTION 7]"
    by (simp_all add: final_thread_def checkstacksizes_def luaD_reallocstack_def luaD_reallocCI_def clear_stack_def popped_thread_def shared_thread_def stack_init_def preinit_state_def
        Let_def take_map BASIC_CI_SIZE_def BASIC_STACK_SIZE_def EXTRA_STACK_def LUAI_MAXCALLS_def LUA_MINSTACK_def)
  have "reach g (TTHREAD, 0)" by (rule reach_root) (simp add: roots_def b(2))
  then have "reach g (TFUNCTION, 7)"
    by (rule reach_ref) (use t in \<open>cases "th_stack final_thread"; auto simp: refs_def b(1) shared_heap_at\<close>)
  then have "reach g (TUPVAL, 4)" by (rule reach_ref) (simp add: refs_def b(1) shared_heap_at)
  then show "reach g (TTABLE, 6)" by (rule reach_ref) (simp add: refs_def b(1) shared_heap_at)
qed

subsection \<open>Properties\<close>

text \<open>
  C5. Memory safety of the collector: in every run (\<open>run\<close>) of the program from the state \<open>lua_newstate\<close> makes, with the steps of the collector at any point between
  its operations, what can be reached from the roots and what the C code holds is an object of the expected type that is not dead, so that no reference dangles.
  The operations of these runs (\<open>mutate\<close>) keep three conditions: \<^verbatim>\<open>lua_setupvalue\<close> is applied to C closures only (for Lua closures it can free a reachable
  object, the last theorem here); a prototype is filled only while it is not black, since no barrier follows these stores; and at a step of the collector the C code
  gives up what it holds, and goes on with what it can reach from the roots. The contents of a table after a store are any with no references but the old ones, the key
  and the value.
\<close>

theorem collector_is_safe:
  assumes "run ({}, lua_newstate lg) (C, g)" and "reach g (tt, a) \<or> (tt, a) \<in> C"
  shows "typed_at g tt a \<and> \<not> isdead g a"
proof -
  have s: "safe (C, g)" by (rule run_safe [OF assms(1) newstate_safe])
  then show ?thesis using assms(2) reach_live [of g tt a] by (auto simp: safe_def live_def refs_live_def)
qed

theorem collector_is_safe_witness: "\<exists>a. typed_at (luaH_new_obj a 4 2 (lua_newstate 0)) TTABLE a \<and> \<not> isdead (luaH_new_obj a 4 2 (lua_newstate 0)) a"
proof -
  obtain n where "started (n, lua_newstate 0)" using newstate_started by blast
  then have "body (lua_newstate 0) n = None" by (simp add: started_def)
  then have "run ({}, lua_newstate 0) ({(TTABLE, n)}, luaH_new_obj n 4 2 (lua_newstate 0))"
    unfolding run_def using m_table [of "lua_newstate 0" n "{}" 4 2] by blast
  from collector_is_safe [OF this, of TTABLE n] show ?thesis by blast
qed

text \<open>
  C8. The sweep frees exactly the dead objects: from any state of a sweep the loop of \<open>luaC_fullgc\<close> ends, the invariant holds, no object is dead any more, an object is
  gone when it was dead and not fixed (bit 5), and every other one has its contents unchanged.
\<close>

theorem sweep_frees_the_dead:
  assumes "gc_inv g" and "sweeping g"
  shows "\<exists>g'. while_option (\<lambda>g. g_gcstate g \<noteq> GCSfinalize) (snd \<circ> singlestep call) g = Some g' \<and> gc_inv g' \<and> (\<forall>x. \<not> isdead g' x) \<and>
    (\<forall>x. contents g' x = (if isdead g x \<and> \<not> bit (marked g x) 5 then None else contents g x))"
proof -
  obtain g' where g': "while_option (\<lambda>g. g_gcstate g \<noteq> GCSfinalize) (snd \<circ> singlestep call) g = Some g'" "gc_inv g'" "collects g g'" "g_gcstate g' = GCSfinalize"
    using sweep_loop [OF assms] by blast
  then show ?thesis using collects_final [OF g'(3) assms(1) g'(2,4)] finalize_alive [OF g'(2,4)] by blast
qed

theorem sweep_frees_the_dead_witness:
  "\<exists>g'. while_option (\<lambda>g. g_gcstate g \<noteq> GCSfinalize) (snd \<circ> singlestep id) (fullgc_reset (lua_newstate 0)) = Some g'"
proof -
  have i: "gc_inv (lua_newstate 0)" and p: "g_gcstate (lua_newstate 0) \<noteq> GCSfinalize" using newstate_started [of 0] by (auto simp: started_def)
  show ?thesis using sweep_frees_the_dead [OF fullgc_reset_inv [OF i] reset_sweeping [OF p], of id] by blast
qed

text \<open>
  C10. A full collection ends: when every finalizer is a run of the program (\<open>program_call\<close>) that returns, raises no error and makes no step of the collector of its own,
  both loops of \<open>luaC_fullgc\<close> end, and its result satisfies the invariant, outside a collection. A finalizer that raises an error leaves \<open>luaC_fullgc\<close> by this error, and
  one that calls the collector is not covered.
\<close>

theorem full_collection_ends:
  assumes "gc_inv g" and "program_call call"
  shows "\<exists>g1 g2. while_option (\<lambda>g. g_gcstate g \<noteq> GCSfinalize) (snd \<circ> singlestep call) (fullgc_reset g) = Some g1 \<and>
    while_option (\<lambda>g. g_gcstate g \<noteq> GCSpause) (snd \<circ> singlestep call) (markroot g1) = Some g2 \<and>
    luaC_fullgc call g = setthreshold g2 \<and> gc_inv (luaC_fullgc call g) \<and> g_gcstate (luaC_fullgc call g) = GCSpause"
proof -
  obtain g1 g2 where f: "while_option (\<lambda>g. g_gcstate g \<noteq> GCSfinalize) (snd \<circ> singlestep call) (fullgc_reset g) = Some g1"
    "while_option (\<lambda>g. g_gcstate g \<noteq> GCSpause) (snd \<circ> singlestep call) (markroot g1) = Some g2" "gc_inv g2" "g_gcstate g2 = GCSpause" "luaC_fullgc call g = setthreshold g2"
    by (rule fullgc_ends [OF assms(1) program_call_ok [OF assms(2)]])
  then show ?thesis using setthreshold_inv [OF f(3)] by (auto simp: setthreshold_def)
qed

theorem full_collection_ends_witness: "gc_inv (luaC_fullgc id (lua_newstate 0))"
proof -
  have "gc_inv (lua_newstate 0)" using newstate_started [of 0] by (auto simp: started_def)
  moreover have "program_call id" by (auto simp: program_call_def)
  ultimately show ?thesis using full_collection_ends [of "lua_newstate 0" id] by blast
qed

text \<open>
  C9. Garbage is collected: when a collection starts outside another one, the steps up to its last phase end, the invariant holds, and every object that is left was fixed (bit 5)
  or reachable when the collection started, from the roots or from a userdata whose finalizer is still to be called. References of weak tables count as references here.
\<close>

theorem garbage_is_collected:
  assumes "gc_inv g" and "g_gcstate g = GCSpause \<or> g_gcstate g = GCSfinalize"
  shows "\<exists>g'. while_option (\<lambda>g. g_gcstate g \<noteq> GCSfinalize) (snd \<circ> singlestep call) (markroot g) = Some g' \<and> gc_inv g' \<and>
    (\<forall>x. body g' x \<noteq> None \<longrightarrow> bit (marked g x) 5 \<or> (\<exists>tt. reach_from g (roots g \<union> Pair TUSERDATA ` set (g_tmudata g')) (tt, x)))"
  using garbage_loop [OF assms] by (force simp: survivors_def targets_def)

theorem garbage_is_collected_witness:
  "\<exists>g'. while_option (\<lambda>g. g_gcstate g \<noteq> GCSfinalize) (snd \<circ> singlestep id) (markroot (lua_newstate 0)) = Some g' \<and> gc_inv g'"
proof -
  have i: "gc_inv (lua_newstate 0)" and p: "g_gcstate (lua_newstate 0) = GCSpause" using newstate_started [of 0] by (auto simp: started_def)
  show ?thesis using garbage_is_collected [OF i disjI1 [OF p], of id] by blast
qed

text \<open>
  C11. A defect of \<open>lua_setupvalue\<close>: in a state that satisfies the invariant, setting a shared upvalue through a closure the collector has not traversed yet leads, after the four
  steps that finish the collection, to a freed table that can still be reached.
\<close>

theorem setupvalue_frees_reachable:
  "gc_inv shared_state \<and> reach shared_state (TFUNCTION, 5) \<and> reach shared_state (TTABLE, 6) \<and>
   (let g = ((snd \<circ> singlestep id) ^^ 4) (lua_pop_obj (lua_setupvalue_obj 5 1 (GObj TTABLE 6) shared_state)) in reach g (TTABLE, 6) \<and> body g 6 = None)"
proof -
  have m: "reach shared_state (TTHREAD, 0)" by (rule reach_root) (simp add: shared_views)
  have "reach shared_state (TFUNCTION, 5)" "reach shared_state (TTABLE, 6)" by (rule reach_ref [OF m]; simp add: shared_refs)+
  then show ?thesis using shared_inv shared_dangling by (simp add: Let_def)
qed

end
