(* ===== verification/Spec2Isabelle.thy ===== *)
theory Spec2Isabelle
  imports Binary_Props Chunk_Props Roundtrip_Props String_Props Lex_Props Tablib_Props Gc_Props
begin

text \<open>
  LuaBinaryTable, a Lua extension that writes Lua tables in a compact binary format and reads them back, and the Lua 5.1.5
  interpreter core it runs on.

  \<^bold>\<open>The program.\<close> \<^verbatim>\<open>src/src\<close> holds the module: \<^verbatim>\<open>parse\<close>, \<^verbatim>\<open>write\<close>, \<^verbatim>\<open>dump\<close> and their variants on files. The parser
  (\<^verbatim>\<open>lua_binary_reader.cpp\<close>) reads the string pool into a Lua table, then values through a table of parsers, and builds the
  result on the Lua stack. The writer (\<^verbatim>\<open>lua_binary_writer.cpp\<close>) numbers the strings it meets, writes the values into a growing
  buffer, arrays by position and other tables by their keys in the order that \<^verbatim>\<open>table.sort\<close> with the comparison \<^verbatim>\<open>sortCmp\<close> gives,
  and puts the string pool in front. Both reach Lua only through its C API, so the model goes down from there:
  \<^verbatim>\<open>src/lua-5.1.5/src\<close> provides the API (\<^verbatim>\<open>lapi.c\<close>, \<^verbatim>\<open>lauxlib.c\<close>), calls and errors (\<^verbatim>\<open>ldo.c\<close>, \<^verbatim>\<open>ldebug.c\<close>), tag methods
  (\<^verbatim>\<open>ltm.c\<close>), the operations of the virtual machine that the API calls (\<^verbatim>\<open>lvm.c\<close>), \<^verbatim>\<open>table.sort\<close> (\<^verbatim>\<open>ltablib.c\<close>), the hash tables
  (\<^verbatim>\<open>ltable.c\<close>), the string table (\<^verbatim>\<open>lstring.c\<close>), values and formatting (\<^verbatim>\<open>lobject.c\<close>), and numbers (\<^verbatim>\<open>luaconf.h\<close>).

  \<^bold>\<open>Platform.\<close> What C leaves open is fixed as x86-64 with LP64 types and little-endian layout: \<^verbatim>\<open>int\<close> has 32 bits, \<^verbatim>\<open>size_t\<close> 64, and a
  Lua number is an IEEE double, given by its 64-bit pattern. Integers that are bounded by construction are \<^verbatim>\<open>nat\<close> or \<^verbatim>\<open>int\<close>; where the code
  wraps or truncates, the model does.

  \<^bold>\<open>Theories.\<close>
  \<^item> \<open>Prelude\<close>: bytes, little-endian layouts, lists and words.
  \<^item> \<open>Lua_Number\<close> (\<^verbatim>\<open>luaconf.h\<close>): comparison and conversion of doubles on their bit patterns. \<open>Lua_Object\<close> (\<^verbatim>\<open>lobject.h\<close>, \<^verbatim>\<open>lobject.c\<close>): values, nodes,
    tables, the floating-point byte, chunk names. \<open>Lua_String\<close> (\<^verbatim>\<open>lstring.c\<close>): the string table. \<open>Lua_Format\<close>: \<^verbatim>\<open>luaO_pushvfstring\<close> and \<^verbatim>\<open>%.14g\<close>.
  \<^item> \<open>Lua_Table\<close> (\<^verbatim>\<open>ltable.c\<close>): all operations of tables. \<open>Lua_Chain\<close>, \<open>Lua_Table_Inv\<close>, \<open>Lua_Table_Set\<close>, \<open>Lua_Table_Count\<close>,
    \<open>Lua_Table_Rehash\<close>, \<open>Lua_Table_Ops\<close>: the invariant of the chained scatter table with Brent's variation, its abstraction \<open>tget\<close> to
    a lookup function, insertion, counting, re-insertion, totality. \<open>Lua_Table_Props\<close>: the properties.
  \<^item> \<open>Lua_State\<close> (\<^verbatim>\<open>lstate.h\<close>): the state of a thread and the result type, in which a Lua error is a value with the state at the throw.
    \<open>Lua_Call\<close> (\<^verbatim>\<open>ltm.c\<close>, \<^verbatim>\<open>ldo.c\<close>, \<^verbatim>\<open>lvm.c\<close>, \<^verbatim>\<open>ldebug.c\<close>), \<open>Lua_Api\<close> (\<^verbatim>\<open>lapi.c\<close>, \<^verbatim>\<open>lauxlib.c\<close>): one definition per function.
    \<open>Lua_Api_Run\<close>: how each API function acts on stack and heap, as rewriting rules (collection \<open>api\<close>).
    \<open>Lua_Sort\<close>, \<open>Lua_Sort_Props\<close> (\<^verbatim>\<open>ltablib.c\<close>): the quicksort and its contract, the locale \<open>sort_contract\<close>.
  \<^item> \<open>Binary_Stream\<close> (\<^verbatim>\<open>lua_binary_types.h\<close>, \<^verbatim>\<open>lua_binary_reader.h\<close>, \<^verbatim>\<open>lua_binary_writer.h\<close>): tags, cursor and buffer, with the locale \<open>byte_sink\<close>.
    \<open>Binary_Reader\<close>, \<open>Binary_Writer\<close>, \<open>Binary_Lib\<close>: parser, writer and dumper, and the six module functions.
    \<open>Binary_Format\<close>: the format as a specification, documents with their encoding and the Lua values that denote them.
    \<open>Binary_Reader_Props\<close>, \<open>Binary_Decode\<close>: the parser on any input and on an encoding.
    \<open>Binary_Sort\<close>: \<^verbatim>\<open>sortCmp\<close> meets \<open>sort_contract\<close>. \<open>Binary_Props\<close>: the properties.
    \<open>Writer_Frame\<close>, \<open>Writer_Keys\<close>, \<open>Writer_Pool\<close>, \<open>Writer_Run\<close>, and the head of \<open>Roundtrip\<close>: the writer, step by step: the API calls it makes and the frame
    they keep, the sorted keys of a table, the string pool, values and tables, the finished document. \<open>Roundtrip\<close>,
    \<open>Roundtrip_Props\<close>: which values are written as which documents, and that the parser gives an equal value back.
  \<^item> \<open>Lua_Opcodes\<close> (\<^verbatim>\<open>lopcodes.h\<close>, \<^verbatim>\<open>lopcodes.c\<close>), \<open>Lua_Zio\<close> (\<^verbatim>\<open>lzio.c\<close>), \<open>Lua_Checkcode\<close> (\<^verbatim>\<open>ldebug.c\<close>), \<open>Lua_Chunk\<close> (\<^verbatim>\<open>ldump.c\<close>, \<^verbatim>\<open>lundump.c\<close>):
    instructions, buffered input, the checker of precompiled code, and saving and loading it. \<open>Lua_Checkcode_Props\<close>,
    \<open>Lua_Chunk_Props\<close>, \<open>Chunk_Props\<close>: their properties.

  \<^item> \<open>Lua_Vm\<close> (\<^verbatim>\<open>lvm.c\<close>, \<^verbatim>\<open>lapi.c\<close>, \<^verbatim>\<open>lauxlib.c\<close>): assignment, comparison and concatenation with their tag methods, optional arguments,
    references. \<open>Lua_Buffer\<close> (\<^verbatim>\<open>lauxlib.c\<close>): string buffers, and that they refine byte strings (\<open>buffered\<close>).
  \<^item> \<open>Lua_Ctype\<close>, \<open>Lua_Pattern\<close>, \<open>Lua_Strlib\<close> (\<^verbatim>\<open>lstrlib.c\<close>): the pattern matcher and the functions of the string library. \<open>Lua_Pattern_Safe\<close>: the
    matcher on any pattern. \<open>Lua_Pattern_Spec\<close>: patterns as lists of items and all their matches in order of preference. \<open>Lua_Find\<close>,
    \<open>Lua_Strlib_Run\<close>: the searches, \<^verbatim>\<open>find\<close> and \<^verbatim>\<open>gsub\<close> on the stack. \<open>String_Props\<close>: the properties.
  \<^item> \<open>Lua_Tablib\<close> (\<^verbatim>\<open>ltablib.c\<close>): the other functions of the table library. \<open>Lua_Tablib_Run\<close>: their loops on the elements of a table.
    \<open>Tablib_Props\<close>: the properties.
  \<^item> \<open>Lua_Lex\<close> (\<^verbatim>\<open>llex.c\<close>, and \<^verbatim>\<open>luaO_str2d\<close> of \<^verbatim>\<open>lobject.c\<close>): the lexer on a buffered stream. \<open>Lua_Lex_Safe\<close>: the lexer on any stream.
    \<open>Lua_Lex_Quote\<close>: the lexer on a quoted string. \<open>Lex_Props\<close>: the properties.

  \<^bold>\<open>The collector.\<close> It has a model of its own, of the heap as a graph: \<open>Lua_Gc\<close> and \<open>Lua_Gc_Step\<close> (\<^verbatim>\<open>lgc.c\<close>, \<^verbatim>\<open>lgc.h\<close>, \<^verbatim>\<open>lfunc.c\<close>) map an address to a mark byte and a body with
  its references, and the record \<open>gstate\<close> holds the lists of \<^verbatim>\<open>global_State\<close>: all objects, gray objects, weak tables, userdata to finalize, open upvalues.
  \<^item> \<open>Lua_Gc_Refs\<close>, \<open>Lua_Gc_Mark\<close>, \<open>Lua_Gc_Trav\<close>, \<open>Lua_Gc_Tri\<close>, \<open>Lua_Gc_Atomic\<close>, \<open>Lua_Gc_Clear\<close>: what marking, a traversal, the propagation to the end and the atomic phase do,
    with the tri-colour invariant \<open>tri\<close>, from which only the objects that the atomic phase looks at again are excused. \<open>Lua_Gc_Inside\<close>: marking does not leave a set of objects that is closed under references,
    so what stays white at least contains the garbage.
  \<^item> \<open>Lua_Gc_Inv\<close>: the invariant \<open>gc_inv\<close> of the heap in every phase: each object is in its list, what is not dead refers to live objects of the right type,
    and so do the roots. Its first consequence is that what can be reached is live (\<open>reach_live\<close>). \<open>Lua_Gc_Sweep\<close>, \<open>Lua_Gc_Barrier\<close>, \<open>Lua_Gc_Close\<close>, \<open>Lua_Gc_Sweeplist\<close>,
    \<open>Lua_Gc_Store\<close>, \<open>Lua_Gc_Cycle\<close>: every step of the collector keeps it, also when the sweep of a thread closes upvalues behind the place it has come to, every loop of steps ends,
    and what a collection leaves was reachable when it started.
  \<^item> \<open>Lua_Gc_Mutator\<close>, \<open>Lua_Gc_Alloc\<close>, \<open>Lua_Gc_Write\<close> (\<^verbatim>\<open>lfunc.c\<close>, \<^verbatim>\<open>lstring.c\<close>, \<^verbatim>\<open>lstate.c\<close>, \<^verbatim>\<open>lapi.c\<close>, \<^verbatim>\<open>lvm.c\<close>): the objects the program makes and the references it stores, with the
    barriers it calls. \<open>Lua_Gc_Run\<close>: runs of the program and the collector, interleaved step by step, from the state \<open>lua_newstate\<close> makes. \<open>Gc_Props\<close>: the properties.

  The step relation \<open>mutate\<close> has one rule per operation; the program may load into a local variable what it can reach, and holds nothing else. It has \<^verbatim>\<open>lua_setupvalue\<close> for C closures only, since on Lua closures its barrier is wrong, as \<open>Gc_Props\<close> shows, and the stores into a prototype without
  a barrier only while it is not black. A store into a table is any new table
  whose references are old ones or those of the key and the value, which \<^verbatim>\<open>ltable.c\<close> in the other model implements.

  \<^bold>\<open>Conventions.\<close> A run-time fault of C (an index outside an array, a wild pointer) is an error value of its own, so a safety property says
  that it does not occur. Loops are recursive functions with a termination proof where the code ends by itself; where it ends because of a
  bound in the code, the fuel is that bound: \<open>LUAI_MAXCCALLS\<close> for nested calls and nested functions of a chunk, \<open>MAXTAGLOOP\<close> for chains of tag
  methods. The recursion of the parser is bounded by the length of the input, since every value takes a byte. The writer follows
  a table into itself; on a cyclic table it overruns its frame, and its fuel is any number above the depth of the value.

  \<^bold>\<open>The Lua stack.\<close> The frame of a C function has the slots of its arguments and 20 more (\<open>l_ci_top\<close>), and whoever needs more must ask for them.
  The module never does, and parser and writer keep slots for every level of nesting; so in \<open>Binary_Reader\<close>, \<open>Binary_Writer\<close> and \<open>Binary_Lib\<close> every call that pushes
  goes through \<open>api_incr_top\<close>, the check of \<^verbatim>\<open>lapi.c\<close>, and stops with \<open>Overrun\<close> behind the frame. The properties say how many slots suffice. The functions of the string
  and table libraries push without this check: they need a bounded number of slots or call \<^verbatim>\<open>lua_checkstack\<close>, and are taken to have room.

  \<^bold>\<open>Not modelled.\<close> Locales other than C: strings compare by \<^verbatim>\<open>strcoll\<close> of the C locale, although \<open>l_strcmp_coll\<close> is
  studied for any. The blocks of memory behind the objects (\<^verbatim>\<open>lmem.c\<close>) and the closing of a state. In the model of the API objects are never freed and an allocation succeeds, except that an array of more than 2^26 values
  is refused, and that loading
  a chunk takes the allocator as a parameter; that no object in use is freed is what the model of the collector shows. Lua code does not run in the model: a Lua function, and a C function outside the files above, is the parameter
  \<open>ext\<close> of \<open>program_of\<close>. Coroutines, hooks, userdata and environments of functions; the compiler; the standard
  libraries other than the string and table libraries, and of these \<^verbatim>\<open>string.dump\<close> and the conversions of
  \<^verbatim>\<open>string.format\<close>, which are those of \<^verbatim>\<open>sprintf\<close>; the command-line programs. Files are parameters of the module functions.
\<close>

end
